(* ===== verification/SqPrelude.thy ===== *)
theory SqPrelude
  imports Main "HOL-Library.Word"
begin

text \<open>
  Shared vocabulary of the development: the machine integers of a 64-bit build
  (\<open>include/sqconfig.h\<close>: \<open>SQInteger\<close> is \<open>int64_t\<close>, \<open>SQUnsignedInteger\<close> and \<open>SQHash\<close> are
  \<open>uint64_t\<close>), bytes and C characters, and the generic facts on words, lists and
  association lists that the component theories use.
\<close>

unbundle bit_operations_syntax

type_synonym u64 = "64 word"
type_synonym u32 = "32 word"
type_synonym u16 = "16 word"
type_synonym u8 = "8 word"
type_synonym byte = "8 word"

named_theorems sq_eval \<open>equations used to evaluate the model on concrete inputs\<close>

subsection \<open>C characters\<close>

text \<open>
  A C string is a list of \<open>char\<close>; the byte of a character is its unsigned value, and
  \<open>schar\<close> is its value as the (signed, as on x86) C type \<open>char\<close>.
\<close>

definition uchar :: "char \<Rightarrow> byte" where
  "uchar c = word_of_nat (of_char c)"

definition schar :: "char \<Rightarrow> int" where
  "schar c = sint (uchar c)"

abbreviation NUL :: char where
  "NUL \<equiv> CHR 0x00"

text \<open>\<open>*p\<close> for a pointer \<open>p\<close> into a NUL-terminated string whose remaining characters are \<open>s\<close>.\<close>

fun cur_char :: "string \<Rightarrow> char" where
  "cur_char [] = NUL"
| "cur_char (c # _) = c"

lemma schar_range: "- 128 \<le> schar c \<and> schar c < 128"
  using sint_range_size [of "uchar c"] by (simp add: schar_def word_size)

lemma unat_uchar [simp]: "unat (uchar c) = of_char c"
  using nat_of_char_less_256 [of c] by (simp add: uchar_def unat_of_nat)

end
