(* ===== verification/SafeShift.thy ===== *)
theory SafeShift
  imports SqPrelude
begin

text \<open>
  \<^verbatim>\<open>internal/sq_safe_shift.h\<close>: the three branch-free shifts behind the
  operators \<open><<\<close>, \<open>>>\<close> and \<open>>>>\<close>. The definitions follow the C++ line by
  line on 64-bit words; the theorems give the value for every count, negative counts
  (which shift the other way) and counts of 64 and more included.
\<close>

definition SQ_INTEGER_BITS :: nat where
  "SQ_INTEGER_BITS = 64"

definition SQ_INTEGER_MASK :: u64 where
  "SQ_INTEGER_MASK = of_nat SQ_INTEGER_BITS - 1"

definition of_cond :: "bool \<Rightarrow> u64" where
  "of_cond b = (if b then 1 else 0)"

definition sq_safe_shift_left :: "u64 \<Rightarrow> u64 \<Rightarrow> u64" where
  "sq_safe_shift_left x y =
     (let ux = x; uy = y;
          neg = drop_bit (SQ_INTEGER_BITS - 1) uy;
          neg_mask = NOT neg + 1;
          sh = (uy XOR neg_mask) + neg;
          overflow = NOT (of_cond (of_nat SQ_INTEGER_BITS \<le> sh)) + 1;
          l = push_bit (unat (sh AND SQ_INTEGER_MASK)) ux;
          r = drop_bit (unat (sh AND SQ_INTEGER_MASK)) ux;
          sign = NOT (of_cond (sint x < 0)) + 1;
          sign_ext = sign XOR drop_bit (unat (sh AND SQ_INTEGER_MASK)) sign;
          r = r OR sign_ext;
          res = (l AND NOT neg_mask) OR (r AND neg_mask);
          fill = sign AND neg_mask AND overflow
      in (res AND NOT overflow) OR fill)"

definition sq_safe_shift_right :: "u64 \<Rightarrow> u64 \<Rightarrow> u64" where
  "sq_safe_shift_right x y =
     (let ux = x; uy = y;
          neg = drop_bit (SQ_INTEGER_BITS - 1) uy;
          neg_mask = NOT neg + 1;
          sh = (uy XOR neg_mask) + neg;
          overflow = NOT (of_cond (of_nat SQ_INTEGER_BITS \<le> sh)) + 1;
          r = drop_bit (unat (sh AND SQ_INTEGER_MASK)) ux;
          l = push_bit (unat (sh AND SQ_INTEGER_MASK)) ux;
          sign = NOT (of_cond (sint x < 0)) + 1;
          sign_ext = sign XOR drop_bit (unat (sh AND SQ_INTEGER_MASK)) sign;
          r = r OR sign_ext;
          dir = (r AND NOT neg_mask) OR (l AND neg_mask);
          fill = sign AND overflow
      in (dir AND NOT overflow) OR fill)"

definition sq_safe_unsigned_shift_right :: "u64 \<Rightarrow> u64 \<Rightarrow> u64" where
  "sq_safe_unsigned_shift_right x y =
     (let ux = x; uy = y;
          neg = drop_bit (SQ_INTEGER_BITS - 1) uy;
          neg_mask = NOT neg + 1;
          sh = (uy XOR neg_mask) + neg;
          overflow = NOT (of_cond (of_nat SQ_INTEGER_BITS \<le> sh)) + 1;
          r = drop_bit (unat (sh AND SQ_INTEGER_MASK)) ux;
          l = push_bit (unat (sh AND SQ_INTEGER_MASK)) ux;
          res = (r AND NOT neg_mask) OR (l AND neg_mask)
      in res AND NOT overflow)"

subsection \<open>The building blocks\<close>

lemma mask_of_cond: "NOT (of_cond b) + 1 = (if b then - 1 else (0 :: u64))"
  by (simp add: of_cond_def)

lemma sign_bit: "drop_bit 63 (y :: u64) = of_cond (sint y < 0)"
proof -
  have "drop_bit 63 y = (if bit y 63 then 1 else 0)"
  proof (rule bit_word_eqI)
    fix n :: nat assume "n < LENGTH(64)"
    show "bit (drop_bit 63 y) n = bit (if bit y 63 then 1 else 0 :: u64) n"
      by (cases "n = 0") (auto simp: bit_drop_bit_eq bit_1_iff dest: bit_imp_le_length)
  qed
  moreover have "bit y 63 \<longleftrightarrow> sint y < 0"
    by (simp add: sint_uint  signed_take_bit_negative_iff bit_uint_iff)
  ultimately show ?thesis by (simp add: of_cond_def)
qed

lemma sint_range64: "- (2 ^ 63) \<le> sint (y :: u64) \<and> sint y < 2 ^ 63"
  using sint_range_size [of y] by (simp add: word_size)

lemma uint_of_sint64: "uint (y :: u64) = (if sint y < 0 then sint y + 2 ^ 64 else sint y)"
proof -
  have m: "uint y = sint y mod 2 ^ 64"
    by (simp add: uint_sint take_bit_eq_mod)
  show ?thesis
  proof (cases "sint y < 0")
    case True
    then have "sint y mod 2 ^ 64 = sint y + 2 ^ 64"
      using sint_range64 [of y] mod_pos_pos_trivial [of "sint y + 2 ^ 64" "2 ^ 64"] by simp
    with m True show ?thesis by simp
  next
    case False
    with m sint_range64 [of y] show ?thesis by simp
  qed
qed

lemma shift_magnitude:
  fixes y :: u64
  shows "(y XOR (if sint y < 0 then - 1 else 0)) + of_cond (sint y < 0) = of_int \<bar>sint y\<bar>"
proof (cases "sint y < 0")
  case True
  then have abs: "\<bar>sint y\<bar> = - sint y" by simp
  have "NOT y + 1 = - y" by (rule minus_eq_not_plus_1 [symmetric])
  with True show ?thesis unfolding abs by (simp add: of_cond_def)
qed (simp add: of_cond_def)

lemma unat_magnitude: "unat (of_int \<bar>sint y\<bar> :: u64) = nat \<bar>sint (y :: u64)\<bar>"
  using sint_range64 [of y] by (simp add: unat_eq_nat_uint uint_word_of_int abs_if)

text \<open>The count the code computes, and whether it is 64 or more.\<close>

lemma shift_overflow:
  "(of_nat SQ_INTEGER_BITS \<le> (of_int \<bar>sint y\<bar> :: u64)) \<longleftrightarrow> 64 \<le> \<bar>sint (y :: u64)\<bar>"
proof -
  have "(of_nat SQ_INTEGER_BITS \<le> (of_int \<bar>sint y\<bar> :: u64)) \<longleftrightarrow> 64 \<le> nat \<bar>sint y\<bar>"
    unfolding word_le_nat_alt unat_magnitude by (simp add: SQ_INTEGER_BITS_def)
  then show ?thesis by linarith
qed

lemma shift_count:
  assumes "\<bar>sint (y :: u64)\<bar> < 64"
  shows "unat ((of_int \<bar>sint y\<bar> :: u64) AND SQ_INTEGER_MASK) = nat \<bar>sint y\<bar>"
proof -
  have m: "SQ_INTEGER_MASK = mask 6"
    by (simp add: SQ_INTEGER_MASK_def SQ_INTEGER_BITS_def mask_eq_exp_minus_1)
  have "unat (take_bit 6 (of_int \<bar>sint y\<bar> :: u64)) = take_bit 6 (nat \<bar>sint y\<bar>)"
    unfolding unsigned_take_bit_eq unat_magnitude by simp
  also have "\<dots> = nat \<bar>sint y\<bar>"
    using assms by (simp add: take_bit_nat_eq_self)
  finally show ?thesis unfolding m by (simp add: take_bit_eq_mask)
qed

lemma bit_sign64: "bit (x :: u64) 63 \<longleftrightarrow> sint x < 0"
  by (simp add: sint_uint signed_take_bit_negative_iff bit_uint_iff)

lemma bit_signed_drop64:
  assumes "k < 64"
  shows "bit (signed_drop_bit n (x :: u64)) k = (if 64 \<le> k + n then sint x < 0 else bit x (k + n))"
proof -
  have "bit (signed_drop_bit n x) k = bit x (if 64 - n \<le> k \<and> k < 64 then 63 else n + k)"
    by (simp add: bit_signed_drop_bit_iff)
  moreover have "64 - n \<le> k \<longleftrightarrow> 64 \<le> k + n" by linarith
  ultimately show ?thesis using assms bit_sign64 [of x] by (simp add: add.commute)
qed

lemma bit_drop64: "bit (drop_bit n (x :: u64)) k = (k + n < 64 \<and> bit x (k + n))"
  by (auto simp: bit_drop_bit_eq add.commute dest: bit_imp_le_length)

lemma bit_fill64: "k < 64 \<Longrightarrow> bit (if b then - 1 else 0 :: u64) k = b"
  by simp

lemma sign_fill_right:
  fixes x :: u64
  assumes "n < 64"
  shows "drop_bit n x OR ((if sint x < 0 then - 1 else 0) XOR drop_bit n (if sint x < 0 then - 1 else 0))
         = signed_drop_bit n x"
proof (rule bit_word_eqI)
  fix k :: nat assume "k < LENGTH(64)"
  then have k: "k < 64" by simp
  show "bit (drop_bit n x OR ((if sint x < 0 then - 1 else 0) XOR drop_bit n (if sint x < 0 then - 1 else 0))) k
        = bit (signed_drop_bit n x) k"
    unfolding bit_or_iff bit_xor_iff bit_drop64 bit_signed_drop64 [OF k] bit_fill64 [OF k]
    using bit_fill64 [of "k + n" "sint x < 0"] by (cases "k + n < 64") simp_all
qed

subsection \<open>The value of each shift\<close>

text \<open>
  Contract of the three operators. The count is a signed integer; \<open>signed_drop_bit\<close> is the
  arithmetic shift, \<open>drop_bit\<close> the logical one, and both fill completely from 64 on, as
  \<open>push_bit\<close> empties the word.
\<close>

definition shift_left_spec :: "u64 \<Rightarrow> int \<Rightarrow> u64" where
  "shift_left_spec x k = (if 0 \<le> k then push_bit (nat k) x else signed_drop_bit (nat (- k)) x)"

definition shift_right_spec :: "u64 \<Rightarrow> int \<Rightarrow> u64" where
  "shift_right_spec x k =
     (if 0 \<le> k then signed_drop_bit (nat k) x
      else if - 64 < k then push_bit (nat (- k)) x
      else if sint x < 0 then - 1 else 0)"

definition unsigned_shift_right_spec :: "u64 \<Rightarrow> int \<Rightarrow> u64" where
  "unsigned_shift_right_spec x k = (if 0 \<le> k then drop_bit (nat k) x else push_bit (nat (- k)) x)"

lemma push_bit_beyond: "64 \<le> n \<Longrightarrow> push_bit n (x :: u64) = 0"
  by (rule bit_word_eqI) (simp add: bit_push_bit_iff)

lemma drop_bit_beyond: "64 \<le> n \<Longrightarrow> drop_bit n (x :: u64) = 0"
  by (rule bit_word_eqI) (simp add: bit_drop64)

lemma signed_drop_bit_fill:
  assumes "64 \<le> n"
  shows "signed_drop_bit n (x :: u64) = (if sint x < 0 then - 1 else 0)"
proof (rule bit_word_eqI)
  fix k :: nat assume "k < LENGTH(64)"
  then have k: "k < 64" by simp
  show "bit (signed_drop_bit n x) k = bit (if sint x < 0 then - 1 else 0 :: u64) k"
    unfolding bit_signed_drop64 [OF k] bit_fill64 [OF k] using assms by simp
qed

lemma neg_bits: "drop_bit (SQ_INTEGER_BITS - 1) (y :: u64) = of_cond (sint y < 0)"
  by (simp add: SQ_INTEGER_BITS_def sign_bit)

lemmas shift_parts = neg_bits mask_of_cond shift_magnitude shift_overflow

text \<open>The left shift operator has its contract for every operand and every count, negative and oversized ones included.\<close>

theorem sq_safe_shift_left_correct:
  "sq_safe_shift_left x y = shift_left_spec x (sint y)"
proof (cases "\<bar>sint y\<bar> < 64")
  case True
  then show ?thesis
    unfolding sq_safe_shift_left_def Let_def shift_parts shift_count [OF True]
    using sign_fill_right [of "nat \<bar>sint y\<bar>" x]
    by (cases "sint y < 0") (simp_all add: shift_left_spec_def abs_if)
next
  case False
  then have "64 \<le> nat \<bar>sint y\<bar>" by linarith
  with False show ?thesis
    unfolding sq_safe_shift_left_def Let_def shift_parts
    by (cases "sint y < 0")
       (simp_all add: shift_left_spec_def abs_if push_bit_beyond signed_drop_bit_fill)
qed

text \<open>The arithmetic right shift operator has its contract for every operand and count.\<close>

theorem sq_safe_shift_right_correct:
  "sq_safe_shift_right x y = shift_right_spec x (sint y)"
proof (cases "\<bar>sint y\<bar> < 64")
  case True
  then show ?thesis
    unfolding sq_safe_shift_right_def Let_def shift_parts shift_count [OF True]
    using sign_fill_right [of "nat \<bar>sint y\<bar>" x]
    by (cases "sint y < 0") (simp_all add: shift_right_spec_def abs_if)
next
  case False
  then have "64 \<le> nat \<bar>sint y\<bar>" by linarith
  with False show ?thesis
    unfolding sq_safe_shift_right_def Let_def shift_parts
    by (cases "sint y < 0")
       (simp_all add: shift_right_spec_def abs_if signed_drop_bit_fill)
qed

text \<open>The logical right shift operator has its contract for every operand and count.\<close>

theorem sq_safe_unsigned_shift_right_correct:
  "sq_safe_unsigned_shift_right x y = unsigned_shift_right_spec x (sint y)"
proof (cases "\<bar>sint y\<bar> < 64")
  case True
  then show ?thesis
    unfolding sq_safe_unsigned_shift_right_def Let_def shift_parts shift_count [OF True]
    by (cases "sint y < 0") (simp_all add: unsigned_shift_right_spec_def abs_if)
next
  case False
  then have "64 \<le> nat \<bar>sint y\<bar>" by linarith
  with False show ?thesis
    unfolding sq_safe_unsigned_shift_right_def Let_def shift_parts
    by (cases "sint y < 0")
       (simp_all add: unsigned_shift_right_spec_def abs_if push_bit_beyond drop_bit_beyond)
qed

text \<open>C16: the three shift operators have their contracts for every operand and every count: negative counts shift
  the other way and counts of 64 and more leave 0 or the sign.\<close>

theorem safe_shifts_correct:
  "sq_safe_shift_left x y = shift_left_spec x (sint y) \<and>
   sq_safe_shift_right x y = shift_right_spec x (sint y) \<and>
   sq_safe_unsigned_shift_right x y = unsigned_shift_right_spec x (sint y)"
  using sq_safe_shift_left_correct sq_safe_shift_right_correct sq_safe_unsigned_shift_right_correct by blast

end
