(* ===== verification/CharClass.thy ===== *)
theory CharClass
  imports SqPrelude
begin

text \<open>
  \<^verbatim>\<open>include/sq_char_class.h\<close>: the locale-free character classes the lexer, the regular
  expressions and the type parser share. Each takes a C \<open>int\<close> and looks at its low byte
  (\<open>unsigned char uc = c\<close>); \<open>sq_toupper\<close> and \<open>sq_tolower\<close> compare the \<open>int\<close> itself.
\<close>

definition uc :: "int \<Rightarrow> int" where
  "uc c = c mod 256"

definition in_range :: "int \<Rightarrow> char \<Rightarrow> char \<Rightarrow> bool" where
  "in_range u a b \<longleftrightarrow> of_char a \<le> u \<and> u \<le> of_char b"

definition sq_isalnum :: "int \<Rightarrow> bool" where
  "sq_isalnum c = (let u = uc c in
     in_range u CHR ''a'' CHR ''z'' \<or> in_range u CHR ''A'' CHR ''Z'' \<or> in_range u CHR ''0'' CHR ''9'')"

definition sq_isalpha :: "int \<Rightarrow> bool" where
  "sq_isalpha c = (let u = uc c in in_range u CHR ''A'' CHR ''Z'' \<or> in_range u CHR ''a'' CHR ''z'')"

definition sq_isblank :: "int \<Rightarrow> bool" where
  "sq_isblank c = (let u = uc c in u = 32 \<or> u = 9)"

definition sq_iscntrl :: "int \<Rightarrow> bool" where
  "sq_iscntrl c = (let u = uc c in u \<le> 31 \<or> u = 127)"

definition sq_isdigit :: "int \<Rightarrow> bool" where
  "sq_isdigit c = (let u = uc c in in_range u CHR ''0'' CHR ''9'')"

definition sq_isgraph :: "int \<Rightarrow> bool" where
  "sq_isgraph c = (let u = uc c in 33 \<le> u \<and> u \<le> 126)"

definition sq_islower :: "int \<Rightarrow> bool" where
  "sq_islower c = (let u = uc c in in_range u CHR ''a'' CHR ''z'')"

definition sq_isprint :: "int \<Rightarrow> bool" where
  "sq_isprint c = (let u = uc c in 32 \<le> u \<and> u \<le> 126)"

definition sq_ispunct :: "int \<Rightarrow> bool" where
  "sq_ispunct c = (let u = uc c in
     33 \<le> u \<and> u \<le> 47 \<or> 58 \<le> u \<and> u \<le> 64 \<or> 91 \<le> u \<and> u \<le> 96 \<or> 123 \<le> u \<and> u \<le> 126)"

definition sq_isspace :: "int \<Rightarrow> bool" where
  "sq_isspace c = (let u = uc c in u = 32 \<or> u = 9 \<or> u = 10 \<or> u = 11 \<or> u = 12 \<or> u = 13)"

definition sq_isupper :: "int \<Rightarrow> bool" where
  "sq_isupper c = (let u = uc c in in_range u CHR ''A'' CHR ''Z'')"

definition sq_isxdigit :: "int \<Rightarrow> bool" where
  "sq_isxdigit c = (let u = uc c in
     in_range u CHR ''0'' CHR ''9'' \<or> in_range u CHR ''A'' CHR ''F'' \<or> in_range u CHR ''a'' CHR ''f'')"

definition sq_toupper :: "int \<Rightarrow> int" where
  "sq_toupper c =
     (if c < of_char CHR ''a'' \<or> c > of_char CHR ''z'' then c
      else c + of_char CHR ''A'' - of_char CHR ''a'')"

definition sq_tolower :: "int \<Rightarrow> int" where
  "sq_tolower c =
     (if c < of_char CHR ''A'' \<or> c > of_char CHR ''Z'' then c
      else c + of_char CHR ''a'' - of_char CHR ''A'')"

lemmas char_class_defs =
  sq_isalnum_def sq_isalpha_def sq_isblank_def sq_iscntrl_def sq_isdigit_def sq_isgraph_def
  sq_islower_def sq_isprint_def sq_ispunct_def sq_isspace_def sq_isupper_def sq_isxdigit_def
  in_range_def Let_def

declare char_class_defs [sq_eval] uc_def [sq_eval] schar_def [sq_eval] uchar_def [sq_eval]

subsection \<open>How the classes relate\<close>

lemma uc_range: "0 \<le> uc c \<and> uc c < 256"
  by (simp add: uc_def)

lemma isalpha_alnum: "sq_isalpha c \<Longrightarrow> sq_isalnum c"
  by (auto simp: char_class_defs)

lemma isdigit_alnum: "sq_isdigit c \<Longrightarrow> sq_isalnum c"
  by (auto simp: char_class_defs)

lemma alnum_not_space: "sq_isalnum c \<Longrightarrow> \<not> sq_isspace c"
  by (auto simp: char_class_defs)

lemma schar_NUL [simp]: "schar NUL = 0"
  by (simp add: schar_def uchar_def)

lemma NUL_not_in_class [simp]:
  "\<not> sq_isspace 0" "\<not> sq_isalnum 0" "\<not> sq_isalpha 0" "\<not> sq_isdigit 0" "\<not> sq_isxdigit 0" "\<not> sq_isprint 0"
  by (simp_all add: char_class_defs uc_def)

text \<open>the printable characters are the graphic ones and the space; the graphic ones are the alphanumeric and the punctuation characters, which are disjoint; printable and control characters are disjoint and together the ASCII characters; letters are the upper and lower case ones, which are disjoint, and alphanumeric characters the letters and digits.\<close>

theorem char_class_partition:
  "(sq_isprint c \<longleftrightarrow> sq_isgraph c \<or> uc c = 32) \<and>
   (sq_isgraph c \<longleftrightarrow> sq_isalnum c \<or> sq_ispunct c) \<and>
   \<not> (sq_isalnum c \<and> sq_ispunct c) \<and>
   \<not> (sq_isprint c \<and> sq_iscntrl c) \<and>
   (sq_isprint c \<or> sq_iscntrl c \<longleftrightarrow> uc c < 128) \<and>
   (sq_isalpha c \<longleftrightarrow> sq_isupper c \<or> sq_islower c) \<and>
   \<not> (sq_isupper c \<and> sq_islower c) \<and>
   (sq_isalnum c \<longleftrightarrow> sq_isalpha c \<or> sq_isdigit c)"
  using uc_range [of c] unfolding char_class_defs by (intro conjI; simp; linarith)

lemma case_mapping_roundtrip:
  "sq_tolower (sq_toupper c) = (if of_char CHR ''A'' \<le> c \<and> c \<le> of_char CHR ''Z'' then sq_tolower c else
     if of_char CHR ''a'' \<le> c \<and> c \<le> of_char CHR ''z'' then c else c)"
  by (simp add: sq_tolower_def sq_toupper_def)

end
