(* ===== verification/SqObject.thy ===== *)
theory SqObject
  imports SqPrelude
begin

text \<open>
  Values as the runtime holds them (\<^verbatim>\<open>squirrel/sqobject.h\<close>, \<^verbatim>\<open>include/squirrel.h\<close>): a type tag
  and a raw 64-bit payload. A reference-counted object is its address, so equality of
  \<open>sq_obj\<close> is the code's comparison of \<open>_rawval\<close> and \<open>sq_type\<close>. What an address
  points to is read from a \<open>sq_heap\<close>.
\<close>

datatype ref_kind =
    OT_TABLE | OT_ARRAY | OT_USERDATA | OT_CLOSURE | OT_NATIVECLOSURE | OT_GENERATOR
  | OT_USERPOINTER | OT_THREAD | OT_FUNCPROTO | OT_CLASS | OT_INSTANCE | OT_OUTER

datatype sq_obj =
    SQNull
  | SQBool bool
  | SQInteger u64
  | SQFloat u32
  | SQString u64
  | SQWeakRef u64
  | SQRef ref_kind u64

record sq_heap =
  str_hash :: "u64 \<Rightarrow> u64"
  str_val :: "u64 \<Rightarrow> string"
  weak_obj :: "u64 \<Rightarrow> sq_obj"

definition sq_realval :: "sq_heap \<Rightarrow> sq_obj \<Rightarrow> sq_obj" where
  "sq_realval h v = (case v of SQWeakRef p \<Rightarrow> weak_obj h p | _ \<Rightarrow> v)"

definition sq_isstring :: "sq_obj \<Rightarrow> bool" where
  "sq_isstring v = (case v of SQString _ \<Rightarrow> True | _ \<Rightarrow> False)"

subsection \<open>Hashing a key\<close>

definition sq_float_hash32 :: "u32 \<Rightarrow> u32" where
  "sq_float_hash32 i = i XOR drop_bit 23 i"

definition hashptr :: "u64 \<Rightarrow> u64" where
  "hashptr p = signed_drop_bit 4 p"

definition HashObj :: "sq_heap \<Rightarrow> sq_obj \<Rightarrow> u64" where
  "HashObj h key =
     (case key of
        SQString p \<Rightarrow> str_hash h p
      | SQFloat f \<Rightarrow> ucast (sq_float_hash32 f)
      | SQBool b \<Rightarrow> (if b then 1 else 0)
      | SQInteger i \<Rightarrow> i
      | SQNull \<Rightarrow> hashptr 0
      | SQWeakRef p \<Rightarrow> hashptr p
      | SQRef _ p \<Rightarrow> hashptr p)"

text \<open>\<open>TranslateIndex\<close>: the iteration position a script hands back.\<close>

definition TranslateIndex :: "sq_obj \<Rightarrow> u64" where
  "TranslateIndex idx = (case idx of SQNull \<Rightarrow> 0 | SQInteger i \<Rightarrow> i | _ \<Rightarrow> 0)"

end
