(* ===== verification/SqTable.thy ===== *)
theory SqTable
  imports SqObject
begin

text \<open>
  \<^verbatim>\<open>squirrel/sqtable.h\<close> and \<^verbatim>\<open>squirrel/sqtable.cpp\<close>: the hash table behind every
  Quirrel table. Collisions are chained inside the node array (\<open>nd_next\<close> is an index
  here, a pointer in the code) and free nodes are found by scanning \<open>tb_firstfree\<close> down.
  An operation returns \<open>None\<close> where the code would follow a link out of the array, loop
  for ever, dereference a null link or rehash more often than the given depth; the
  correctness theorems show that none of this happens in a well-formed table.
\<close>

subsection \<open>Data\<close>

record hash_node =
  nd_key :: "sq_obj option"  \<comment> \<open>\<open>None\<close> is the key type \<open>OT_FREE_TABLE_SLOT\<close>\<close>
  nd_val :: sq_obj
  nd_next :: "nat option"

record sq_table =
  tb_nodes :: "hash_node list"
  tb_firstfree :: nat
  tb_used :: nat
  tb_class_id :: u64

definition free_node :: hash_node where
  "free_node = \<lparr>nd_key = None, nd_val = SQNull, nd_next = None\<rparr>"

definition TBL_CLASS_TYPE_MEMBER_BITS :: nat where
  "TBL_CLASS_TYPE_MEMBER_BITS = 5"

definition CLASS_TYPE_HASH_INIT :: u64 where
  "CLASS_TYPE_HASH_INIT = 14695981039346656037"

definition CLASS_TYPE_HASH_PRIME :: u64 where
  "CLASS_TYPE_HASH_PRIME = 1099511628211"

definition class_type_hash_update_1 :: "u64 \<Rightarrow> byte \<Rightarrow> u64" where
  "class_type_hash_update_1 hashval x = (hashval XOR ucast x) * CLASS_TYPE_HASH_PRIME"

definition class_type_hash_update_4 :: "u64 \<Rightarrow> u32 \<Rightarrow> u64" where
  "class_type_hash_update_4 hashval x =
     (let b = (\<lambda>i. ucast (drop_bit (8 * i) x AND 0xFF));
          hashval = (hashval XOR b 0) * CLASS_TYPE_HASH_PRIME;
          hashval = (hashval XOR b 1) * CLASS_TYPE_HASH_PRIME;
          hashval = (hashval XOR b 2) * CLASS_TYPE_HASH_PRIME;
          hashval = (hashval XOR b 3) * CLASS_TYPE_HASH_PRIME
      in hashval)"

subsection \<open>Creation and lookup\<close>

definition AllocNodes :: "nat \<Rightarrow> sq_table \<Rightarrow> sq_table" where
  "AllocNodes nsize t = t\<lparr>tb_nodes := replicate nsize free_node, tb_firstfree := nsize - 1\<rparr>"

function pow2_loop :: "nat \<Rightarrow> nat \<Rightarrow> nat" where
  "pow2_loop n p = (if p < n \<and> 0 < p then pow2_loop n (2 * p) else p)"
  by pat_completeness auto
termination
  by (relation "measure (\<lambda>(n, p). n - p)") auto

declare pow2_loop.simps [simp del]

definition empty_header :: sq_table where
  "empty_header = \<lparr>tb_nodes = [], tb_firstfree = 0, tb_used = 0, tb_class_id = 0\<rparr>"

text \<open>
  The constructor. Sizes are natural numbers here; the source doubles an \<open>int\<close> and keeps the number of
  nodes less one in 32 bits, which agree below \<open>2 ^ 31\<close> nodes.
\<close>

definition table_create :: "nat \<Rightarrow> sq_table" where
  "table_create initial_size = AllocNodes (pow2_loop initial_size 1) empty_header"

text \<open>\<open>HashObj(key) & _numofnodes_minus_one\<close>\<close>

definition main_pos :: "sq_heap \<Rightarrow> nat \<Rightarrow> sq_obj \<Rightarrow> nat" where
  "main_pos h nnodes key = unat (HashObj h key AND of_nat (nnodes - 1))"

text \<open>\<open>_Get(key, hash)\<close> and \<open>_GetStr\<close>: walk the chain that starts at a position.\<close>

partial_function (option) find_node :: "hash_node list \<Rightarrow> sq_obj \<Rightarrow> nat \<Rightarrow> nat option option" where
  "find_node ns key i =
     (if length ns \<le> i then None
      else if nd_key (ns ! i) = Some key then Some (Some i)
      else case nd_next (ns ! i) of None \<Rightarrow> Some None | Some j \<Rightarrow> find_node ns key j)"

definition table_get_node :: "sq_heap \<Rightarrow> sq_table \<Rightarrow> sq_obj \<Rightarrow> nat option option" where
  "table_get_node h t key = find_node (tb_nodes t) key (main_pos h (length (tb_nodes t)) key)"

definition table_get :: "sq_heap \<Rightarrow> sq_table \<Rightarrow> sq_obj \<Rightarrow> sq_obj option option" where
  "table_get h t key =
     map_option (map_option (\<lambda>i. sq_realval h (nd_val (tb_nodes t ! i)))) (table_get_node h t key)"

definition table_set :: "sq_heap \<Rightarrow> sq_table \<Rightarrow> sq_obj \<Rightarrow> sq_obj \<Rightarrow> (sq_table \<times> bool) option" where
  "table_set h t key v =
     map_option (\<lambda>r. case r of
         None \<Rightarrow> (t, False)
       | Some i \<Rightarrow> (t\<lparr>tb_nodes := (tb_nodes t)[i := (tb_nodes t ! i)\<lparr>nd_val := v\<rparr>]\<rparr>, True))
       (table_get_node h t key)"

text \<open>\<open>GetStr\<close>, for the compiler: the key is given by its characters and hash.\<close>

partial_function (option) find_str :: "sq_heap \<Rightarrow> hash_node list \<Rightarrow> string \<Rightarrow> nat \<Rightarrow> nat option option" where
  "find_str h ns key i =
     (if length ns \<le> i then None
      else if (case nd_key (ns ! i) of Some (SQString p) \<Rightarrow> str_val h p = key | _ \<Rightarrow> False) then Some (Some i)
      else case nd_next (ns ! i) of None \<Rightarrow> Some None | Some j \<Rightarrow> find_str h ns key j)"

definition table_get_str :: "sq_heap \<Rightarrow> (string \<Rightarrow> u64) \<Rightarrow> sq_table \<Rightarrow> string \<Rightarrow> sq_obj option option" where
  "table_get_str h hashstr t key =
     map_option (map_option (\<lambda>i. sq_realval h (nd_val (tb_nodes t ! i))))
       (find_str h (tb_nodes t) key (unat (hashstr key AND of_nat (length (tb_nodes t) - 1))))"

subsection \<open>Insertion\<close>

text \<open>The loop \<open>while (othern->next != mp)\<close>.\<close>

partial_function (option) find_prev :: "hash_node list \<Rightarrow> nat \<Rightarrow> nat \<Rightarrow> nat option" where
  "find_prev ns mp i =
     (if length ns \<le> i then None
      else case nd_next (ns ! i) of
             None \<Rightarrow> None
           | Some j \<Rightarrow> if j = mp then Some i else find_prev ns mp j)"

definition set_key :: "hash_node list \<Rightarrow> nat \<Rightarrow> sq_obj \<Rightarrow> hash_node list" where
  "set_key ns i key = ns[i := (ns ! i)\<lparr>nd_key := Some key\<rparr>]"

definition set_next :: "hash_node list \<Rightarrow> nat \<Rightarrow> nat option \<Rightarrow> hash_node list" where
  "set_next ns i nx = ns[i := (ns ! i)\<lparr>nd_next := nx\<rparr>]"

text \<open>
  The part of \<open>NewSlot\<close> that finds a node for an absent key whose main position is \<open>mp\<close>:
  \<open>mp\<close> itself when it is free; otherwise the free node \<open>n = _firstfree\<close> either takes over
  the colliding key of \<open>mp\<close> (which is then not at its own main position), or takes the new key.
\<close>

definition place_key :: "sq_heap \<Rightarrow> hash_node list \<Rightarrow> nat \<Rightarrow> nat \<Rightarrow> sq_obj \<Rightarrow> (hash_node list \<times> nat) option" where
  "place_key h ns firstfree mp key =
     (case nd_key (ns ! mp) of
        None \<Rightarrow> Some (set_key ns mp key, mp)
      | Some mkey \<Rightarrow>
          (let n = firstfree; mph = main_pos h (length ns) mkey in
           if n < mp \<and> mph \<noteq> mp then
             (case find_prev ns mp mph of
                None \<Rightarrow> None
              | Some othern \<Rightarrow>
                  (let ns = set_next ns othern (Some n);
                       ns = ns[n := \<lparr>nd_key = nd_key (ns ! mp), nd_val = nd_val (ns ! mp), nd_next = nd_next (ns ! mp)\<rparr>];
                       ns = ns[mp := free_node]
                   in Some (set_key ns mp key, mp)))
           else
             (let ns = set_next ns n (nd_next (ns ! mp));
                  ns = set_next ns mp (Some n)
              in Some (set_key ns n key, n))))"

text \<open>The loop that corrects \<open>_firstfree\<close>: \<open>None\<close> when it cannot be decremented any more.\<close>

fun correct_firstfree :: "hash_node list \<Rightarrow> nat \<Rightarrow> nat option" where
  "correct_firstfree ns i =
     (if nd_key (ns ! i) = None \<and> nd_next (ns ! i) = None then Some i
      else if i = 0 then None else correct_firstfree ns (i - 1))"

declare correct_firstfree.simps [simp del]

definition update_class_id :: "sq_table \<Rightarrow> sq_obj \<Rightarrow> nat \<Rightarrow> u64" where
  "update_class_id t key insert_pos =
     (case key of
        SQString p \<Rightarrow>
          if length (tb_nodes t) - 1 < 2 ^ TBL_CLASS_TYPE_MEMBER_BITS then
            if tb_class_id t \<noteq> 0 \<or> tb_used t = 0 then
              class_type_hash_update_4
                (class_type_hash_update_1
                   (if tb_class_id t \<noteq> 0 then tb_class_id t else CLASS_TYPE_HASH_INIT) (of_nat insert_pos))
                (ucast (drop_bit 3 p AND 0xFFFFFFFF))
            else tb_class_id t
          else 0
      | _ \<Rightarrow> 0)"

fun ilog2 :: "nat \<Rightarrow> nat" where
  "ilog2 n = (if n \<le> 1 then 0 else Suc (ilog2 (n div 2)))"

declare ilog2.simps [simp del]

definition MINPOWER2 :: nat where
  "MINPOWER2 = 1"

text \<open>The new size \<open>Rehash\<close> allocates; \<open>None\<close> when it returns without doing anything.\<close>

definition rehash_size :: "nat \<Rightarrow> nat \<Rightarrow> bool \<Rightarrow> nat option" where
  "rehash_size oldsize0 nelems force =
     (let oldsize = (if oldsize0 < MINPOWER2 then MINPOWER2 else oldsize0) in
      if oldsize - oldsize div 4 \<le> nelems then Some (oldsize * 2)
      else if nelems < oldsize div 4 \<and> MINPOWER2 < oldsize then Some (oldsize div 2)
      else if force then Some (2 ^ (ilog2 oldsize + 1))
      else None)"

type_synonym inserter = "sq_table \<Rightarrow> sq_obj \<Rightarrow> sq_obj \<Rightarrow> (sq_table \<times> bool) option"

fun reinsert :: "inserter \<Rightarrow> sq_table \<Rightarrow> hash_node list \<Rightarrow> sq_table option" where
  "reinsert ins t [] = Some t"
| "reinsert ins t (old # rest) =
     (case nd_key old of
        None \<Rightarrow> reinsert ins t rest
      | Some key \<Rightarrow>
          (case ins t key (nd_val old) of None \<Rightarrow> None | Some (t', _) \<Rightarrow> reinsert ins t' rest))"

definition rehash_with :: "inserter \<Rightarrow> sq_table \<Rightarrow> bool \<Rightarrow> sq_table option" where
  "rehash_with ins t force =
     (case rehash_size (length (tb_nodes t)) (tb_used t) force of
        None \<Rightarrow> Some t
      | Some nsize \<Rightarrow> reinsert ins ((AllocNodes nsize t)\<lparr>tb_used := 0\<rparr>) (tb_nodes t))"

text \<open>
  \<open>NewSlot\<close>. When no free node is left the key is already in its node, the table is
  rehashed and \<open>NewSlot\<close> starts again; the first argument bounds this recursion.
\<close>

fun new_slot :: "nat \<Rightarrow> sq_heap \<Rightarrow> inserter" where
  "new_slot 0 h t key v = None"
| "new_slot (Suc depth) h t key v =
     (let ns = tb_nodes t; hpos = main_pos h (length ns) key in
      case find_node ns key hpos of
        None \<Rightarrow> None
      | Some (Some i) \<Rightarrow> Some (t\<lparr>tb_nodes := ns[i := (ns ! i)\<lparr>nd_val := v\<rparr>]\<rparr>, False)
      | Some None \<Rightarrow>
          (case place_key h ns (tb_firstfree t) hpos key of
             None \<Rightarrow> None
           | Some (ns', mp) \<Rightarrow>
               (case correct_firstfree ns' (tb_firstfree t) of
                  Some ff \<Rightarrow>
                    Some (t\<lparr>tb_nodes := ns'[mp := (ns' ! mp)\<lparr>nd_val := v\<rparr>], tb_firstfree := ff,
                            tb_used := tb_used t + 1, tb_class_id := update_class_id t key mp\<rparr>, True)
                | None \<Rightarrow>
                    (case rehash_with (new_slot depth h) (t\<lparr>tb_nodes := ns', tb_firstfree := 0\<rparr>) True of
                       None \<Rightarrow> None
                     | Some t' \<Rightarrow> new_slot depth h t' key v))))"

definition table_new_slot :: "sq_heap \<Rightarrow> inserter" where
  "table_new_slot h = new_slot 2 h"

definition table_rehash :: "sq_heap \<Rightarrow> sq_table \<Rightarrow> bool \<Rightarrow> sq_table option" where
  "table_rehash h = rehash_with (new_slot 1 h)"

subsection \<open>Removal, iteration, copying, clearing\<close>

definition table_remove :: "sq_heap \<Rightarrow> sq_table \<Rightarrow> sq_obj \<Rightarrow> sq_table option" where
  "table_remove h t key =
     (case find_node (tb_nodes t) key (main_pos h (length (tb_nodes t)) key) of
        None \<Rightarrow> None
      | Some None \<Rightarrow> Some t
      | Some (Some i) \<Rightarrow>
          map_option (\<lambda>t'. t'\<lparr>tb_class_id := 0\<rparr>)
            (table_rehash h
               (t\<lparr>tb_nodes := (tb_nodes t)[i := (tb_nodes t ! i)\<lparr>nd_val := SQNull, nd_key := None\<rparr>],
                  tb_used := tb_used t - 1\<rparr>) False))"

function next_from :: "hash_node list \<Rightarrow> nat \<Rightarrow> (nat \<times> sq_obj \<times> sq_obj) option" where
  "next_from ns idx =
     (if idx < length ns then
        (case nd_key (ns ! idx) of
           Some key \<Rightarrow> Some (idx + 1, key, nd_val (ns ! idx))
         | None \<Rightarrow> next_from ns (idx + 1))
      else None)"
  by pat_completeness auto
termination
  by (relation "measure (\<lambda>(ns, idx). length ns - idx)") auto

declare next_from.simps [simp del]

text \<open>\<open>Next\<close>: the position for the next call with the key and value found; \<open>None\<close> is the result \<open>-1\<close>.\<close>

definition table_next :: "sq_heap \<Rightarrow> sq_table \<Rightarrow> bool \<Rightarrow> sq_obj \<Rightarrow> (nat \<times> sq_obj \<times> sq_obj) option" where
  "table_next h t getweakrefs refpos =
     map_option (\<lambda>(idx, key, v). (idx, key, if getweakrefs then v else sq_realval h v))
       (next_from (tb_nodes t) (unat (ucast (TranslateIndex refpos) :: u32)))"

definition clear_nodes :: "sq_table \<Rightarrow> sq_table" where
  "clear_nodes t = t\<lparr>tb_nodes := map (\<lambda>nd. nd\<lparr>nd_key := None, nd_val := SQNull, nd_next := None\<rparr>) (tb_nodes t)\<rparr>"

definition table_clear :: "sq_heap \<Rightarrow> sq_table \<Rightarrow> bool \<Rightarrow> sq_table option" where
  "table_clear h t rehash =
     (let t' = (clear_nodes t)\<lparr>tb_used := 0, tb_class_id := 0\<rparr> in
      if rehash then table_rehash h t' True
      else Some (t'\<lparr>tb_firstfree := length (tb_nodes t') - 1\<rparr>))"

definition table_clone :: "sq_table \<Rightarrow> sq_table" where
  "table_clone t =
     (let nt = table_create (length (tb_nodes t)) in
      nt\<lparr>tb_nodes := map2 (\<lambda>src dst. dst\<lparr>nd_key := nd_key src, nd_val := nd_val src,
             nd_next := (case nd_next src of None \<Rightarrow> nd_next dst | Some j \<Rightarrow> Some j)\<rparr>)
           (tb_nodes t) (tb_nodes nt),
         tb_firstfree := tb_firstfree t, tb_used := tb_used t, tb_class_id := tb_class_id t\<rparr>)"

end
