(* ===== verification/SqTableInv.thy ===== *)
theory SqTableInv
  imports SqTable
begin

text \<open>
  The well-formedness invariant of the hash table and what insertion does to the chains.
  A link leads to a node at or above \<open>_firstfree\<close>, no node has two predecessors, the links
  have no cycle, every key can be reached from its main position, and a key away from its
  main position sits in a node that is nobody's main position.
\<close>

subsection \<open>Links and chains\<close>

definition step :: "hash_node list \<Rightarrow> nat \<Rightarrow> nat \<Rightarrow> bool" where
  "step ns i j \<longleftrightarrow> i < length ns \<and> nd_next (ns ! i) = Some j"

abbreviation reach :: "hash_node list \<Rightarrow> nat \<Rightarrow> nat \<Rightarrow> bool" where
  "reach ns \<equiv> rtranclp (step ns)"

definition holds :: "hash_node list \<Rightarrow> nat \<Rightarrow> sq_obj \<Rightarrow> bool" where
  "holds ns i k \<longleftrightarrow> i < length ns \<and> nd_key (ns ! i) = Some k"

definition links_ok :: "hash_node list \<Rightarrow> nat \<Rightarrow> bool" where
  "links_ok ns ff \<longleftrightarrow>
     (\<forall>i j. step ns i j \<longrightarrow> j < length ns \<and> ff \<le> j \<and> (j = ff \<longrightarrow> nd_key (ns ! ff) \<noteq> None)) \<and>
     (\<forall>i i' j. step ns i j \<longrightarrow> step ns i' j \<longrightarrow> i = i') \<and>
     (\<exists>r :: nat \<Rightarrow> nat. \<forall>i j. step ns i j \<longrightarrow> r i < r j)"

definition keys_ok :: "sq_heap \<Rightarrow> hash_node list \<Rightarrow> nat \<Rightarrow> bool" where
  "keys_ok h ns ff \<longleftrightarrow>
     (\<forall>i i' k. holds ns i k \<longrightarrow> holds ns i' k \<longrightarrow> i = i') \<and>
     (\<forall>i k. holds ns i k \<longrightarrow> reach ns (main_pos h (length ns) k) i) \<and>
     (\<forall>i k. holds ns i k \<longrightarrow> main_pos h (length ns) k \<noteq> i \<longrightarrow>
        ff \<le> i \<and> (\<forall>j k'. holds ns j k' \<longrightarrow> main_pos h (length ns) k' \<noteq> i))"

definition core_inv :: "sq_heap \<Rightarrow> hash_node list \<Rightarrow> nat \<Rightarrow> bool" where
  "core_inv h ns ff \<longleftrightarrow> links_ok ns ff \<and> keys_ok h ns ff"

definition occupied :: "hash_node list \<Rightarrow> nat set" where
  "occupied ns = {i. i < length ns \<and> nd_key (ns ! i) \<noteq> None}"

definition is_free :: "hash_node list \<Rightarrow> nat \<Rightarrow> bool" where
  "is_free ns i \<longleftrightarrow> i < length ns \<and> nd_key (ns ! i) = None \<and> nd_next (ns ! i) = None"

definition table_inv :: "sq_heap \<Rightarrow> sq_table \<Rightarrow> bool" where
  "table_inv h t \<longleftrightarrow>
     (\<exists>e. length (tb_nodes t) = 2 ^ e) \<and>
     is_free (tb_nodes t) (tb_firstfree t) \<and>
     core_inv h (tb_nodes t) (tb_firstfree t) \<and>
     tb_used t = card (occupied (tb_nodes t))"

text \<open>A table into which keys have only been inserted: no free node has a link or lies above \<open>_firstfree\<close>.\<close>

definition fresh :: "hash_node list \<Rightarrow> nat \<Rightarrow> bool" where
  "fresh ns ff \<longleftrightarrow>
     (\<forall>i < length ns. nd_key (ns ! i) = None \<longrightarrow> nd_next (ns ! i) = None \<and> i \<le> ff)"

subsection \<open>What the table stores\<close>

definition node_map :: "hash_node list \<Rightarrow> sq_obj \<Rightarrow> sq_obj option" where
  "node_map ns = map_of (List.map_filter (\<lambda>nd. map_option (\<lambda>k. (k, nd_val nd)) (nd_key nd)) ns)"

definition table_map :: "sq_table \<Rightarrow> sq_obj \<Rightarrow> sq_obj option" where
  "table_map t = node_map (tb_nodes t)"

definition uniq :: "hash_node list \<Rightarrow> bool" where
  "uniq ns \<longleftrightarrow> (\<forall>i i' k. holds ns i k \<longrightarrow> holds ns i' k \<longrightarrow> i = i')"

lemma core_inv_uniq: "core_inv h ns ff \<Longrightarrow> uniq ns"
  by (simp add: core_inv_def keys_ok_def uniq_def)

lemma holds_Nil [simp]: "\<not> holds [] i k"
  by (simp add: holds_def)

lemma holds_Cons_0 [simp]: "holds (nd # ns) 0 k \<longleftrightarrow> nd_key nd = Some k"
  by (simp add: holds_def)

lemma holds_Cons_Suc [simp]: "holds (nd # ns) (Suc i) k \<longleftrightarrow> holds ns i k"
  by (simp add: holds_def)

lemma uniq_Cons: "uniq (nd # ns) \<Longrightarrow> uniq ns \<and> (\<forall>k. nd_key nd = Some k \<longrightarrow> (\<forall>i. \<not> holds ns i k))"
  unfolding uniq_def by (metis holds_Cons_0 holds_Cons_Suc nat.distinct(1) nat.inject)

lemma node_map_Nil [simp]: "node_map [] = Map.empty"
  by (simp add: node_map_def map_filter_simps)

lemma node_map_Cons:
  "node_map (nd # ns) =
     (case nd_key nd of None \<Rightarrow> node_map ns | Some k \<Rightarrow> (node_map ns)(k \<mapsto> nd_val nd))"
  by (simp add: node_map_def map_filter_simps split: option.split)

lemma node_map_iff:
  "uniq ns \<Longrightarrow> node_map ns k = Some v \<longleftrightarrow> (\<exists>i. holds ns i k \<and> nd_val (ns ! i) = v)"
proof (induction ns)
  case Nil
  then show ?case by simp
next
  case (Cons nd ns)
  have IH: "node_map ns k = Some v \<longleftrightarrow> (\<exists>i. holds ns i k \<and> nd_val (ns ! i) = v)"
    and new: "\<And>k'. nd_key nd = Some k' \<Longrightarrow> \<forall>i. \<not> holds ns i k'"
    using Cons uniq_Cons by blast+
  have ex: "(\<exists>i. holds (nd # ns) i k \<and> nd_val ((nd # ns) ! i) = v) \<longleftrightarrow>
      (nd_key nd = Some k \<and> nd_val nd = v) \<or> (\<exists>i. holds ns i k \<and> nd_val (ns ! i) = v)"
    by (metis holds_Cons_0 holds_Cons_Suc nat.exhaust nth_Cons_0 nth_Cons_Suc)
  show ?case
    unfolding ex using IH new by (auto simp: node_map_Cons split: option.splits)
qed

lemma node_map_None_iff: "node_map ns k = None \<longleftrightarrow> (\<forall>i. \<not> holds ns i k)"
proof (induction ns)
  case Nil
  then show ?case by simp
next
  case (Cons nd ns)
  have "(\<forall>i. \<not> holds (nd # ns) i k) \<longleftrightarrow> nd_key nd \<noteq> Some k \<and> (\<forall>i. \<not> holds ns i k)"
    by (metis holds_Cons_0 holds_Cons_Suc nat.exhaust)
  with Cons show ?case by (auto simp: node_map_Cons split: option.splits)
qed

lemma node_map_holds: "uniq ns \<Longrightarrow> holds ns i k \<Longrightarrow> node_map ns k = Some (nd_val (ns ! i))"
  using node_map_iff by blast

text \<open>Two node arrays store the same map when they hold the same keys with the same values.\<close>

lemma node_map_eqI:
  assumes "uniq ns" "uniq ns'"
    and "\<And>k v. (\<exists>i. holds ns i k \<and> nd_val (ns ! i) = v) \<longleftrightarrow> (\<exists>i. holds ns' i k \<and> nd_val (ns' ! i) = v)"
  shows "node_map ns = node_map ns'"
proof
  fix k
  have "node_map ns k = Some v \<longleftrightarrow> node_map ns' k = Some v" for v
    using assms by (simp add: node_map_iff)
  then show "node_map ns k = node_map ns' k"
    by (cases "node_map ns k") (auto simp: eq_commute [of None], metis not_None_eq)
qed

subsection \<open>Walking a chain\<close>

lemma main_pos_less: "0 < n \<Longrightarrow> main_pos h n k < n"
proof -
  assume n: "0 < n"
  have "unat (HashObj h k AND of_nat (n - 1)) \<le> unat (of_nat (n - 1) :: u64)"
    by (rule word_and_le1 [THEN word_le_nat_alt [THEN iffD1]])
  also have "\<dots> \<le> n - 1"
    by (simp add: unat_of_nat take_bit_nat_less_eq_self unsigned_of_nat)
  finally show ?thesis using n by (simp add: main_pos_def)
qed

lemma step_deterministic: "step ns i j \<Longrightarrow> step ns i j' \<Longrightarrow> j = j'"
  by (simp add: step_def)

lemma links_okD:
  assumes "links_ok ns ff"
  shows "step ns i j \<Longrightarrow> j < length ns" "step ns i j \<Longrightarrow> ff \<le> j"
    "step ns i ff \<Longrightarrow> nd_key (ns ! ff) \<noteq> None"
    "step ns i j \<Longrightarrow> step ns i' j \<Longrightarrow> i = i'"
  using assms unfolding links_ok_def by blast+

lemma wf_step:
  assumes "links_ok ns ff"
  shows "wf {(j, i). step ns i j}"
proof -
  obtain r :: "nat \<Rightarrow> nat" where r: "\<And>i j. step ns i j \<Longrightarrow> r i < r j"
    using assms unfolding links_ok_def by blast
  define M where "M = Max (r ` {..< length ns})"
  have "(j, i) \<in> measure (\<lambda>i. M - r i)" if "step ns i j" for i j
  proof -
    have "j < length ns" using links_okD(1) [OF assms that] .
    then have "r j \<le> M" unfolding M_def by (intro Max_ge) auto
    with r [OF that] show ?thesis by simp
  qed
  then have "{(j, i). step ns i j} \<subseteq> measure (\<lambda>i. M - r i)" by auto
  then show ?thesis by (rule wf_subset [OF wf_measure])
qed

lemma no_self_step: "links_ok ns ff \<Longrightarrow> \<not> step ns i i"
  unfolding links_ok_def by (metis less_irrefl)

lemma reach_no_next: "reach ns i j \<Longrightarrow> nd_next (ns ! i) = None \<Longrightarrow> j = i"
  by (erule converse_rtranclpE) (auto simp: step_def)

lemma find_node_correct:
  assumes ok: "links_ok ns ff" and "i < length ns"
  shows "\<exists>x. find_node ns k i = Some x \<and>
     (case x of None \<Rightarrow> \<forall>j. reach ns i j \<longrightarrow> \<not> holds ns j k | Some j \<Rightarrow> reach ns i j \<and> holds ns j k)"
  using assms(2)
proof (induction i rule: wf_induct_rule [OF wf_step [OF ok]])
  case (1 i)
  consider (here) "nd_key (ns ! i) = Some k"
    | (last) "nd_key (ns ! i) \<noteq> Some k" "nd_next (ns ! i) = None"
    | (more) j where "nd_key (ns ! i) \<noteq> Some k" "nd_next (ns ! i) = Some j"
    by (cases "nd_next (ns ! i)") auto
  then show ?case
  proof cases
    case here
    with 1(2) show ?thesis by (auto simp: find_node.simps [of ns k i] holds_def)
  next
    case last
    with 1(2) have "find_node ns k i = Some None" by (simp add: find_node.simps [of ns k i])
    moreover have "\<not> holds ns j k" if "reach ns i j" for j
      using reach_no_next [OF that] last by (auto simp: holds_def)
    ultimately show ?thesis by auto
  next
    case more
    then have s: "step ns i j" using 1(2) by (simp add: step_def)
    have eq: "find_node ns k i = find_node ns k j"
      using more 1(2) by (simp add: find_node.simps [of ns k i])
    obtain x where x: "find_node ns k j = Some x"
      "case x of None \<Rightarrow> \<forall>l. reach ns j l \<longrightarrow> \<not> holds ns l k | Some l \<Rightarrow> reach ns j l \<and> holds ns l k"
      using 1(1) [of j] s links_okD(1) [OF ok s] by auto
    have via: "reach ns i l \<longleftrightarrow> l = i \<or> reach ns j l" for l
      using s step_deterministic [OF s] by (metis converse_rtranclpE converse_rtranclp_into_rtranclp rtranclp.rtrancl_refl)
    have "\<not> holds ns i k" using more by (simp add: holds_def)
    with x eq via show ?thesis by (auto split: option.splits)
  qed
qed

lemma find_prev_correct:
  assumes "reach ns i mp" "i \<noteq> mp" "links_ok ns ff"
  shows "\<exists>p. find_prev ns mp i = Some p \<and> step ns p mp"
  using assms(1,2)
proof (induction rule: converse_rtranclp_induct)
  case base
  then show ?case by simp
next
  case (step i j)
  show ?case
  proof (cases "j = mp")
    case True
    with step show ?thesis by (auto simp: find_prev.simps [of ns mp i] step_def)
  next
    case False
    then obtain p where "find_prev ns mp j = Some p \<and> step ns p mp" using step by blast
    with step False show ?thesis by (auto simp: find_prev.simps [of ns mp i] step_def)
  qed
qed

text \<open>With reachable keys, a walk from the main position decides whether a key is present.\<close>

lemma find_main:
  assumes inv: "core_inv h ns ff" and "0 < length ns"
  shows "find_node ns k (main_pos h (length ns) k) = Some (Some i) \<longleftrightarrow> holds ns i k"
    and "find_node ns k (main_pos h (length ns) k) = Some None \<longleftrightarrow> (\<forall>i. \<not> holds ns i k)"
proof -
  obtain x where x: "find_node ns k (main_pos h (length ns) k) = Some x"
    "case x of None \<Rightarrow> \<forall>j. reach ns (main_pos h (length ns) k) j \<longrightarrow> \<not> holds ns j k
             | Some j \<Rightarrow> reach ns (main_pos h (length ns) k) j \<and> holds ns j k"
    using find_node_correct [of ns ff] inv main_pos_less [OF assms(2)] unfolding core_inv_def by blast
  have r: "holds ns j k \<Longrightarrow> reach ns (main_pos h (length ns) k) j" for j
    using inv unfolding core_inv_def keys_ok_def by blast
  have u: "holds ns j k \<Longrightarrow> holds ns j' k \<Longrightarrow> j = j'" for j j'
    using core_inv_uniq [OF inv] unfolding uniq_def by blast
  show "find_node ns k (main_pos h (length ns) k) = Some (Some i) \<longleftrightarrow> holds ns i k"
    using x r u by (cases x) auto
  show "find_node ns k (main_pos h (length ns) k) = Some None \<longleftrightarrow> (\<forall>i. \<not> holds ns i k)"
    using x r u by (cases x) auto
qed

subsection \<open>Placing a key: the new key goes to its free main position\<close>

lemma place_main_free:
  assumes inv: "core_inv h ns ff" and n: "0 < length ns"
    and new: "\<And>i. \<not> holds ns i k" and free: "nd_key (ns ! main_pos h (length ns) k) = None"
  shows "core_inv h (set_key ns (main_pos h (length ns) k) k) ff"
proof -
  let ?mp = "main_pos h (length ns) k"
  let ?ns = "set_key ns ?mp k"
  have mp: "?mp < length ns" using main_pos_less [OF n] .
  have len: "length ?ns = length ns" by (simp add: set_key_def)
  have st: "step ?ns = step ns"
    using mp by (intro ext) (auto simp: step_def set_key_def nth_list_update)
  have ho: "holds ?ns i k' \<longleftrightarrow> (i = ?mp \<and> k' = k) \<or> holds ns i k'" for i k'
    using mp free by (auto simp: holds_def set_key_def nth_list_update)
  have notmp: "\<not> holds ns ?mp k'" for k' using free by (simp add: holds_def)
  have key: "nd_key (ns ! ff) \<noteq> None \<Longrightarrow> nd_key (?ns ! ff) \<noteq> None"
    using mp by (cases "ff = ?mp") (simp_all add: set_key_def)
  have "links_ok ?ns ff"
    using inv key unfolding core_inv_def links_ok_def st len by blast
  moreover have "keys_ok h ?ns ff"
    unfolding keys_ok_def len st
  proof (intro conjI allI impI)
    fix i i' k' assume "holds ?ns i k'" "holds ?ns i' k'"
    then show "i = i'"
      using inv new unfolding ho core_inv_def keys_ok_def by metis
  next
    fix i k' assume "holds ?ns i k'"
    then show "reach ns (main_pos h (length ns) k') i"
      using inv unfolding ho core_inv_def keys_ok_def by auto
  next
    fix i k' assume a: "holds ?ns i k'" "main_pos h (length ns) k' \<noteq> i"
    then have old: "holds ns i k'" unfolding ho by auto
    then show "ff \<le> i" using a inv unfolding core_inv_def keys_ok_def by blast
  next
    fix i k' j l assume a: "holds ?ns i k'" "main_pos h (length ns) k' \<noteq> i" "holds ?ns j l"
    then have "holds ns i k'" unfolding ho by auto
    then show "main_pos h (length ns) l \<noteq> i"
      using a inv notmp unfolding ho core_inv_def keys_ok_def by metis
  qed
  ultimately show ?thesis by (simp add: core_inv_def)
qed

subsection \<open>Placing a key: the new key goes to the free node, after its main position\<close>

lemma insert_after_links:
  assumes ok: "links_ok ns ff" and mp: "mp < length ns" "mp \<noteq> n"
    and free: "is_free ns n" "n = ff"
    and len: "length ns' = length ns"
    and st: "\<And>i j. step ns' i j \<longleftrightarrow> (i = mp \<and> j = n) \<or> (i = n \<and> step ns mp j) \<or> (i \<noteq> mp \<and> i \<noteq> n \<and> step ns i j)"
    and key: "nd_key (ns' ! n) \<noteq> None"
  shows "links_ok ns' ff" and "reach ns i j \<Longrightarrow> reach ns' i j"
proof -
  have out: "\<not> step ns n j" for j using free by (simp add: is_free_def step_def)
  have into: "\<not> step ns i n" for i
    using links_okD(3) [OF ok] free by (auto simp: is_free_def)
  have nlt: "n < length ns" using free by (simp add: is_free_def)
  obtain r :: "nat \<Rightarrow> nat" where r: "\<And>i j. step ns i j \<Longrightarrow> r i < r j"
    using ok unfolding links_ok_def by blast
  define r' where "r' i = (if i = n then 2 * r mp + 1 else 2 * r i)" for i
  have "r' i < r' j" if "step ns' i j" for i j
    using that mp(2) out into r [of mp j] r [of i j] unfolding st r'_def by auto
  moreover have "j < length ns' \<and> ff \<le> j \<and> (j = ff \<longrightarrow> nd_key (ns' ! ff) \<noteq> None)" if "step ns' i j" for i j
    using that links_okD(1,2) [OF ok] key free nlt unfolding st len by auto
  moreover have "i = i'" if "step ns' i j" "step ns' i' j" for i i' j
    using that links_okD(4) [OF ok] into out unfolding st by metis
  ultimately show "links_ok ns' ff" unfolding links_ok_def by blast
  assume "reach ns i j"
  then show "reach ns' i j"
  proof (induction rule: rtranclp_induct)
    case (step y z)
    show ?case
    proof (cases "y = mp")
      case True
      then have "step ns' y n" "step ns' n z" using step.hyps st by auto
      with step.IH show ?thesis by (meson rtranclp.rtrancl_into_rtrancl)
    next
      case False
      then have "step ns' y z" using step.hyps out st by auto
      with step.IH show ?thesis by (rule rtranclp.rtrancl_into_rtrancl)
    qed
  qed simp
qed

lemma place_after_main:
  assumes inv: "core_inv h ns ff" and n: "is_free ns ff"
    and new: "\<And>i. \<not> holds ns i k" and mp: "mp = main_pos h (length ns) k"
    and occ: "nd_key (ns ! mp) \<noteq> None"
    and own: "\<And>k'. holds ns mp k' \<Longrightarrow> main_pos h (length ns) k' = mp"
    and ns': "ns' = set_key (set_next (set_next ns ff (nd_next (ns ! mp))) mp (Some ff)) ff k"
  shows "core_inv h ns' ff"
proof -
  have fflt: "ff < length ns" and ne: "mp \<noteq> ff"
    using n occ unfolding is_free_def by auto
  from fflt have "0 < length ns" by linarith
  from main_pos_less [OF this] have mplt: "mp < length ns" unfolding mp .
  have len: "length ns' = length ns" by (simp add: ns' set_key_def set_next_def)
  have st: "step ns' i j \<longleftrightarrow> (i = mp \<and> j = ff) \<or> (i = ff \<and> step ns mp j) \<or> (i \<noteq> mp \<and> i \<noteq> ff \<and> step ns i j)" for i j
    using mplt fflt ne by (auto simp: ns' step_def set_key_def set_next_def nth_list_update)
  have ho: "holds ns' i k' \<longleftrightarrow> (i = ff \<and> k' = k) \<or> holds ns i k'" for i k'
    using mplt fflt ne n by (auto simp: ns' holds_def is_free_def set_key_def set_next_def nth_list_update)
  have keyff: "nd_key (ns' ! ff) \<noteq> None"
    using fflt ne by (simp add: ns' set_key_def set_next_def)
  have lo: "links_ok ns ff" using inv by (simp add: core_inv_def)
  note after = insert_after_links [OF lo mplt ne n refl len st keyff]
  have ffmain: "main_pos h (length ns) k' \<noteq> ff" if "holds ns i k'" for i k'
  proof
    assume "main_pos h (length ns) k' = ff"
    then have "reach ns ff i" using inv that unfolding core_inv_def keys_ok_def by metis
    then have "i = ff" using n reach_no_next by (simp add: is_free_def)
    with that n show False by (simp add: holds_def is_free_def)
  qed
  have old: "(holds ns i k' \<longrightarrow> holds ns i' k' \<longrightarrow> i = i') \<and> (holds ns i k' \<longrightarrow> reach ns (main_pos h (length ns) k') i)
      \<and> (holds ns i k' \<longrightarrow> main_pos h (length ns) k' \<noteq> i \<longrightarrow> ff \<le> i)
      \<and> (holds ns i k' \<longrightarrow> main_pos h (length ns) k' \<noteq> i \<longrightarrow> holds ns j l \<longrightarrow> main_pos h (length ns) l \<noteq> i)" for i i' j k' l
    using inv unfolding core_inv_def keys_ok_def by blast
  have "keys_ok h ns' ff"
    unfolding keys_ok_def len
  proof (intro conjI allI impI)
    fix i i' k' assume "holds ns' i k'" "holds ns' i' k'"
    then show "i = i'" using old new unfolding ho by metis
  next
    fix i k' assume "holds ns' i k'"
    then consider "i = ff" "k' = k" | "holds ns i k'" unfolding ho by blast
    then show "reach ns' (main_pos h (length ns) k') i"
    proof cases
      case 1
      have "step ns' mp ff" using st by simp
      with 1 mp show ?thesis by auto
    next
      case 2
      then show ?thesis using old after(2) by blast
    qed
  next
    fix i k' assume "holds ns' i k'" "main_pos h (length ns) k' \<noteq> i"
    then show "ff \<le> i" using old unfolding ho by blast
  next
    fix i k' j l assume a: "holds ns' i k'" "main_pos h (length ns) k' \<noteq> i" "holds ns' j l"
    have km: "main_pos h (length ns) k = mp" using mp by simp
    show "main_pos h (length ns) l \<noteq> i"
    proof (cases "i = ff")
      case True
      then show ?thesis using a(3) ffmain km ne unfolding ho by metis
    next
      case False
      then have hi: "holds ns i k'" using a(1) unfolding ho by blast
      show ?thesis
      proof (cases "l = k")
        case True
        have "i \<noteq> mp" using own hi a(2) by blast
        with True km show ?thesis by simp
      next
        case False
        then have "holds ns j l" using a(3) unfolding ho by blast
        then show ?thesis using old hi a(2) by blast
      qed
    qed
  qed
  with after(1) show ?thesis by (simp add: core_inv_def)
qed

subsection \<open>Placing a key: the colliding key moves to the free node\<close>

lemma move_links:
  assumes ok: "links_ok ns ff" and pm: "step ns p mp" and free: "is_free ns n" "n = ff"
    and mpn: "mp \<noteq> n"
    and len: "length ns' = length ns"
    and st: "\<And>i j. step ns' i j \<longleftrightarrow> (i = p \<and> j = n) \<or> (i = n \<and> step ns mp j) \<or>
               (i \<noteq> p \<and> i \<noteq> n \<and> i \<noteq> mp \<and> step ns i j)"
    and key: "nd_key (ns' ! n) \<noteq> None"
  shows "links_ok ns' ff"
    and "reach ns s x \<Longrightarrow> s \<noteq> mp \<Longrightarrow> reach ns' s (if x = mp then n else x)"
proof -
  have out: "\<not> step ns n j" for j using free by (simp add: is_free_def step_def)
  have into: "\<not> step ns i n" for i
    using links_okD(3) [OF ok] free by (auto simp: is_free_def)
  have nlt: "n < length ns" using free by (simp add: is_free_def)
  have pne: "p \<noteq> mp" "p \<noteq> n" using pm no_self_step [OF ok] out by auto
  have inj: "step ns i j \<Longrightarrow> step ns i' j \<Longrightarrow> i = i'" for i i' j
    by (rule links_okD(4) [OF ok])
  obtain r :: "nat \<Rightarrow> nat" where r: "\<And>i j. step ns i j \<Longrightarrow> r i < r j"
    using ok unfolding links_ok_def by blast
  define r' where "r' i = (if i = n then r mp else r i)" for i
  have "r' i < r' j" if "step ns' i j" for i j
    using that pne into r [OF pm] r [of mp j] r [of i j] unfolding st r'_def by auto
  moreover have "j < length ns' \<and> ff \<le> j \<and> (j = ff \<longrightarrow> nd_key (ns' ! ff) \<noteq> None)" if "step ns' i j" for i j
    using that links_okD(1,2) [OF ok] key free nlt unfolding st len by auto
  moreover have "i = i'" if "step ns' i j" "step ns' i' j" for i i' j
    using that inj into unfolding st by metis
  ultimately show "links_ok ns' ff" unfolding links_ok_def by blast
  assume "reach ns s x" "s \<noteq> mp"
  then show "reach ns' s (if x = mp then n else x)"
  proof (induction rule: rtranclp_induct)
    case (step y z)
    have yz: "step ns y z" by fact
    consider (from_mp) "y = mp" | (to_mp) "y \<noteq> mp" "z = mp" | (other) "y \<noteq> mp" "z \<noteq> mp" by blast
    then show ?case
    proof cases
      case from_mp
      then have "step ns' n z" "z \<noteq> mp" using yz st no_self_step [OF ok] by auto
      with step from_mp show ?thesis by (auto intro: rtranclp.rtrancl_into_rtrancl)
    next
      case to_mp
      then have "y = p" using inj yz pm by blast
      then have "step ns' y n" using st by simp
      with step to_mp show ?thesis by (auto intro: rtranclp.rtrancl_into_rtrancl)
    next
      case other
      have "y \<noteq> p" using other yz pm step_deterministic by blast
      moreover have "y \<noteq> n" using yz out by blast
      ultimately have "step ns' y z" using other yz st by simp
      with step other show ?thesis by (auto intro: rtranclp.rtrancl_into_rtrancl)
    qed
  qed simp
qed

lemma place_move:
  assumes inv: "core_inv h ns ff" and n: "is_free ns ff"
    and new: "\<And>i. \<not> holds ns i k" and mp: "mp = main_pos h (length ns) k"
    and occ: "holds ns mp mk" and foreign: "main_pos h (length ns) mk \<noteq> mp"
    and pm: "step ns p mp"
    and ns': "ns' = set_key ((set_next ns p (Some ff))
                 [ff := \<lparr>nd_key = nd_key (ns ! mp), nd_val = nd_val (ns ! mp), nd_next = nd_next (ns ! mp)\<rparr>,
                  mp := free_node]) mp k"
  shows "core_inv h ns' ff"
    and "holds ns' i l \<longleftrightarrow> (i = mp \<and> l = k) \<or> (i = ff \<and> l = mk) \<or> (i \<noteq> mp \<and> holds ns i l)"
proof -
  have fflt: "ff < length ns" and mplt: "mp < length ns" and ne: "mp \<noteq> ff"
    using n occ unfolding is_free_def holds_def by auto
  have lo: "links_ok ns ff" using inv by (simp add: core_inv_def)
  have plt: "p < length ns" and pne: "p \<noteq> mp" "p \<noteq> ff"
    using pm no_self_step [OF lo] n by (auto simp: step_def is_free_def)
  have len: "length ns' = length ns" by (simp add: ns' set_key_def set_next_def)
  have st: "step ns' i j \<longleftrightarrow> (i = p \<and> j = ff) \<or> (i = ff \<and> step ns mp j) \<or>
      (i \<noteq> p \<and> i \<noteq> ff \<and> i \<noteq> mp \<and> step ns i j)" for i j
    using mplt fflt plt ne pne
    by (auto simp: ns' step_def set_key_def set_next_def free_node_def nth_list_update)
  show ho: "holds ns' i l \<longleftrightarrow> (i = mp \<and> l = k) \<or> (i = ff \<and> l = mk) \<or> (i \<noteq> mp \<and> holds ns i l)" for i l
    using mplt fflt plt ne pne n occ
    by (auto simp: ns' holds_def is_free_def set_key_def set_next_def free_node_def nth_list_update)
  have keyff: "nd_key (ns' ! ff) \<noteq> None" using ho [of ff mk] by (auto simp: holds_def)
  note move = move_links [OF lo pm n refl ne len st keyff]
  have old: "(holds ns i k' \<longrightarrow> holds ns i' k' \<longrightarrow> i = i') \<and> (holds ns i k' \<longrightarrow> reach ns (main_pos h (length ns) k') i)
      \<and> (holds ns i k' \<longrightarrow> main_pos h (length ns) k' \<noteq> i \<longrightarrow> ff \<le> i)
      \<and> (holds ns i k' \<longrightarrow> main_pos h (length ns) k' \<noteq> i \<longrightarrow> holds ns j l \<longrightarrow> main_pos h (length ns) l \<noteq> i)" for i i' j k' l
    using inv unfolding core_inv_def keys_ok_def by blast
  have notff: "\<not> holds ns ff l" for l using n by (simp add: holds_def is_free_def)
  have ffmain: "main_pos h (length ns) k' \<noteq> ff" if "holds ns i k'" for i k'
    using that old reach_no_next [of ns ff] n notff unfolding is_free_def by metis
  have mpmain: "main_pos h (length ns) k' \<noteq> mp" if "holds ns i k'" for i k'
    using that old occ foreign by blast
  have mkff: "ff \<le> mp" using old occ foreign by blast
  have "keys_ok h ns' ff"
    unfolding keys_ok_def len
  proof (intro conjI allI impI)
    fix i i' k' assume "holds ns' i k'" "holds ns' i' k'"
    then show "i = i'" using old new occ notff unfolding ho by metis
  next
    fix i k' assume "holds ns' i k'"
    then consider "i = mp" "k' = k" | "i = ff" "k' = mk" | "i \<noteq> mp" "holds ns i k'" unfolding ho by blast
    then show "reach ns' (main_pos h (length ns) k') i"
    proof cases
      case 1
      then show ?thesis using mp by simp
    next
      case 2
      have "reach ns (main_pos h (length ns) mk) mp" using old occ by blast
      from move(2) [OF this foreign] 2 show ?thesis by simp
    next
      case 3
      have "reach ns (main_pos h (length ns) k') i" using old 3 by blast
      from move(2) [OF this mpmain [OF 3(2)]] 3 show ?thesis by simp
    qed
  next
    fix i k' assume "holds ns' i k'" "main_pos h (length ns) k' \<noteq> i"
    then show "ff \<le> i" using old mp unfolding ho by blast
  next
    fix i k' j l assume a: "holds ns' i k'" "main_pos h (length ns) k' \<noteq> i" "holds ns' j l"
    have km: "main_pos h (length ns) k = mp" using mp by simp
    have "i \<noteq> mp" using a(1,2) km ne unfolding ho by blast
    then consider "i = ff" | "holds ns i k'" using a(1) unfolding ho by blast
    then show "main_pos h (length ns) l \<noteq> i"
    proof cases
      case 1
      then show ?thesis using a(3) ffmain occ km ne unfolding ho by metis
    next
      case 2
      then show ?thesis using a old occ km \<open>i \<noteq> mp\<close> unfolding ho by metis
    qed
  qed
  with move(1) show "core_inv h ns' ff" by (simp add: core_inv_def)
qed

end
