(* ===== verification/SqTableOps.thy ===== *)
theory SqTableOps
  imports SqTableInv
begin

text \<open>
  Correctness of the hash table: in a well-formed table every operation returns, keeps the
  table well-formed and acts on the stored map as the operation of its name should.
\<close>

subsection \<open>Values may change freely\<close>

lemma core_inv_cong:
  assumes "length ns' = length ns" "\<And>i j. step ns' i j = step ns i j" "\<And>i k. holds ns' i k = holds ns i k"
  shows "core_inv h ns' ff = core_inv h ns ff"
proof -
  have st: "step ns' = step ns" and ho: "holds ns' = holds ns" using assms(2,3) by (intro ext; simp)+
  have "j < length ns \<Longrightarrow> nd_key (ns' ! j) \<noteq> None \<longleftrightarrow> nd_key (ns ! j) \<noteq> None" for j
    using assms(1) assms(3) [of j] unfolding holds_def by (metis not_None_eq)
  then have "links_ok ns' ff = links_ok ns ff"
    unfolding links_ok_def st assms(1) by blast
  then show ?thesis unfolding core_inv_def keys_ok_def st ho assms(1) by blast
qed

abbreviation upd_val :: "hash_node list \<Rightarrow> nat \<Rightarrow> sq_obj \<Rightarrow> hash_node list" where
  "upd_val ns i v \<equiv> ns[i := (ns ! i)\<lparr>nd_val := v\<rparr>]"

lemma nth_upd_val [simp]:
  "nd_key (upd_val ns i v ! j) = nd_key (ns ! j)" "nd_next (upd_val ns i v ! j) = nd_next (ns ! j)"
  by (cases "i < length ns"; cases "i = j"; simp add: list_update_beyond)+

lemma step_upd_val [simp]: "step (upd_val ns i v) = step ns"
  by (intro ext) (simp add: step_def)

lemma holds_upd_val [simp]: "holds (upd_val ns i v) = holds ns"
  by (intro ext) (simp add: holds_def)

lemma core_inv_upd_val [simp]: "core_inv h (upd_val ns i v) ff = core_inv h ns ff"
  by (rule core_inv_cong) simp_all

lemma occupied_upd_val [simp]: "occupied (upd_val ns i v) = occupied ns"
  by (simp add: occupied_def)

lemma is_free_upd_val [simp]: "is_free (upd_val ns i v) j = is_free ns j"
  by (simp add: is_free_def)

lemma fresh_upd_val [simp]: "fresh (upd_val ns i v) ff = fresh ns ff"
  by (simp add: fresh_def)

lemma node_map_updI:
  assumes u: "uniq ns" "uniq ns'" and m: "holds ns' m k"
    and other: "\<And>l v. l \<noteq> k \<Longrightarrow> (\<exists>i. holds ns' i l \<and> nd_val (ns' ! i) = v) \<longleftrightarrow> (\<exists>i. holds ns i l \<and> nd_val (ns ! i) = v)"
  shows "node_map ns' = (node_map ns)(k \<mapsto> nd_val (ns' ! m))"
proof
  fix l
  show "node_map ns' l = ((node_map ns)(k \<mapsto> nd_val (ns' ! m))) l"
  proof (cases "l = k")
    case True
    then show ?thesis using node_map_holds [OF u(2) m] by simp
  next
    case False
    have "node_map ns' l = Some v \<longleftrightarrow> node_map ns l = Some v" for v
      using other [OF False] u by (simp add: node_map_iff)
    with False show ?thesis by (metis fun_upd_other not_None_eq)
  qed
qed

lemma node_map_upd_val:
  assumes "uniq ns" "holds ns m k"
  shows "node_map (upd_val ns m v) = (node_map ns)(k \<mapsto> v)"
proof -
  have u: "uniq (upd_val ns m v)" using assms(1) by (simp add: uniq_def)
  have m: "m < length ns" using assms(2) by (simp add: holds_def)
  have same: "nd_val (upd_val ns m v ! i) = nd_val (ns ! i)" if "holds ns i l" "l \<noteq> k" for i l
    using that assms(2) by (cases "i = m") (auto simp: holds_def)
  have "node_map (upd_val ns m v) = (node_map ns)(k \<mapsto> nd_val (upd_val ns m v ! m))"
    using assms(2) same by (intro node_map_updI [OF assms(1) u]) (simp, metis holds_upd_val)
  then show ?thesis using m by simp
qed

subsection \<open>Finding the next free node\<close>

lemma correct_firstfree_Some:
  "correct_firstfree ns ff = Some f \<Longrightarrow>
     f \<le> ff \<and> nd_key (ns ! f) = None \<and> nd_next (ns ! f) = None \<and>
     (\<forall>i. f < i \<and> i \<le> ff \<longrightarrow> \<not> (nd_key (ns ! i) = None \<and> nd_next (ns ! i) = None))"
proof (induction ns ff rule: correct_firstfree.induct)
  case (1 ns i)
  show ?case
  proof (cases "nd_key (ns ! i) = None \<and> nd_next (ns ! i) = None")
    case True
    then show ?thesis using 1 by (auto simp: correct_firstfree.simps [of ns i])
  next
    case False
    then have "i \<noteq> 0" "correct_firstfree ns (i - 1) = Some f"
      using 1(2) by (auto simp: correct_firstfree.simps [of ns i] split: if_splits)
    with 1(1) [OF False] False show ?thesis
      by (metis Suc_pred' diff_le_self le_SucE le_trans not_gr_zero)
  qed
qed

lemma correct_firstfree_None:
  "correct_firstfree ns ff = None \<Longrightarrow>
     (\<forall>i \<le> ff. \<not> (nd_key (ns ! i) = None \<and> nd_next (ns ! i) = None))"
proof (induction ns ff rule: correct_firstfree.induct)
  case (1 ns i)
  have ne: "\<not> (nd_key (ns ! i) = None \<and> nd_next (ns ! i) = None)"
    using 1(2) by (auto simp: correct_firstfree.simps [of ns i] split: if_splits)
  show ?case
  proof (cases "i = 0")
    case True
    then show ?thesis using ne by simp
  next
    case False
    then have "correct_firstfree ns (i - 1) = None"
      using 1(2) ne by (simp add: correct_firstfree.simps [of ns i])
    with 1(1) [OF ne False] ne show ?thesis
      by (metis Suc_pred' le_SucE not_gr_zero False)
  qed
qed

lemma core_inv_lower:
  assumes inv: "core_inv h ns ff" and "is_free ns f" "f \<le> ff"
  shows "core_inv h ns f"
proof -
  have ok: "links_ok ns ff" using inv by (simp add: core_inv_def)
  have "j < length ns \<and> f \<le> j \<and> (j = f \<longrightarrow> nd_key (ns ! f) \<noteq> None)" if "step ns i j" for i j
    using links_okD(1,2) [OF ok that] links_okD(3) [OF ok, of i] that assms(2,3)
    unfolding is_free_def by (metis antisym order_trans)
  then have "links_ok ns f" using ok unfolding links_ok_def by blast
  moreover have "keys_ok h ns f"
    using inv assms(3) unfolding core_inv_def keys_ok_def by (meson order_trans)
  ultimately show ?thesis by (simp add: core_inv_def)
qed

subsection \<open>Placing a key, all cases\<close>

text \<open>What \<open>place_key\<close> promises of the new node array \<open>ns'\<close> and the node \<open>m\<close> that now holds the key.\<close>

definition placed :: "sq_heap \<Rightarrow> hash_node list \<Rightarrow> nat \<Rightarrow> sq_obj \<Rightarrow> hash_node list \<Rightarrow> nat \<Rightarrow> bool" where
  "placed h ns ff k ns' m \<longleftrightarrow>
     core_inv h ns' ff \<and> length ns' = length ns \<and> holds ns' m k \<and>
     node_map ns' = (node_map ns)(k \<mapsto> nd_val (ns' ! m)) \<and>
     card (occupied ns') = Suc (card (occupied ns)) \<and> (fresh ns ff \<longrightarrow> fresh ns' ff)"

lemma card_occupied_insert:
  assumes "occupied ns' = insert x (occupied ns)" "x \<notin> occupied ns"
  shows "card (occupied ns') = Suc (card (occupied ns))"
  using assms by (simp add: occupied_def)

lemma occupied_holds: "i \<in> occupied ns \<longleftrightarrow> (\<exists>k. holds ns i k)"
  by (auto simp: occupied_def holds_def)

lemma placed_at:
  assumes inv: "core_inv h ns ff" "core_inv h ns' ff" and len: "length ns' = length ns"
    and ho: "\<And>i l. holds ns' i l \<longleftrightarrow> (i = m \<and> l = k) \<or> holds ns i l"
    and val: "\<And>i. i \<noteq> m \<Longrightarrow> nd_val (ns' ! i) = nd_val (ns ! i)"
    and free: "nd_key (ns ! m) = None" and new: "\<And>i. \<not> holds ns i k"
    and nx: "\<And>i. nd_key (ns ! i) = None \<Longrightarrow> i \<noteq> m \<Longrightarrow> nd_next (ns' ! i) = nd_next (ns ! i)"
  shows "placed h ns ff k ns' m"
proof -
  have m: "\<not> holds ns m l" for l using free by (simp add: holds_def)
  have "node_map ns' = (node_map ns)(k \<mapsto> nd_val (ns' ! m))"
    using core_inv_uniq inv ho val m by (intro node_map_updI) (auto, metis+)
  moreover have "card (occupied ns') = Suc (card (occupied ns))"
    by (rule card_occupied_insert [of _ m]) (auto simp: occupied_holds ho m)
  moreover have "fresh ns' ff" if "fresh ns ff"
  proof -
    have "i \<noteq> m \<and> nd_key (ns ! i) = None" if "i < length ns" "nd_key (ns' ! i) = None" for i
      using ho [of i] that len unfolding holds_def by (metis not_None_eq)
    with that nx len show ?thesis unfolding fresh_def by auto
  qed
  ultimately show ?thesis using inv(2) len ho unfolding placed_def by blast
qed

lemma place_key_correct:
  assumes inv: "core_inv h ns ff" and free: "is_free ns ff" and new: "\<And>i. \<not> holds ns i k"
  shows "\<exists>ns' m. place_key h ns ff (main_pos h (length ns) k) k = Some (ns', m) \<and> placed h ns ff k ns' m"
proof -
  define mp where "mp = main_pos h (length ns) k"
  have n0: "0 < length ns" and fflt: "ff < length ns" using free unfolding is_free_def by auto
  have mplt: "mp < length ns" unfolding mp_def by (rule main_pos_less [OF n0])
  show ?thesis
  proof (cases "nd_key (ns ! mp)")
    case None
    have "placed h ns ff k (set_key ns mp k) mp"
    proof (rule placed_at)
      show "core_inv h (set_key ns mp k) ff"
        using place_main_free [OF inv n0 new] None unfolding mp_def by blast
    qed (use inv new None mplt in \<open>auto simp: set_key_def holds_def nth_list_update\<close>)
    then show ?thesis using None unfolding place_key_def mp_def by auto
  next
    case (Some mk)
    then have occ: "holds ns mp mk" and ne: "mp \<noteq> ff"
      using mplt free by (auto simp: holds_def is_free_def)
    show ?thesis
    proof (cases "ff < mp \<and> main_pos h (length ns) mk \<noteq> mp")
      case True
      have "reach ns (main_pos h (length ns) mk) mp"
        using inv occ unfolding core_inv_def keys_ok_def by blast
      then obtain p where p: "find_prev ns mp (main_pos h (length ns) mk) = Some p" "step ns p mp"
        using find_prev_correct True inv unfolding core_inv_def by blast
      define ns' where "ns' = set_key ((set_next ns p (Some ff))
                 [ff := \<lparr>nd_key = nd_key (ns ! mp), nd_val = nd_val (ns ! mp), nd_next = nd_next (ns ! mp)\<rparr>,
                  mp := free_node]) mp k"
      have pp: "p \<noteq> mp" "p \<noteq> ff" "p < length ns"
        using p(2) no_self_step inv free by (auto simp: core_inv_def step_def is_free_def)
      have eq: "place_key h ns ff mp k = Some (ns', mp)"
        using True p(1) Some pp by (simp add: place_key_def ns'_def set_next_def Let_def)
      note mv = place_move [OF inv free new mp_def occ _ p(2) ns'_def]
      have fo: "main_pos h (length ns) mk \<noteq> mp" using True by simp
      note inv' = mv(1) [OF fo] and ho = mv(2) [OF fo]
      have len: "length ns' = length ns" by (simp add: ns'_def set_key_def set_next_def)
      have val: "nd_val (ns' ! ff) = nd_val (ns ! mp)" "i \<noteq> mp \<Longrightarrow> i \<noteq> ff \<Longrightarrow> nd_val (ns' ! i) = nd_val (ns ! i)" for i
        using ne fflt mplt pp by (auto simp: ns'_def set_key_def set_next_def nth_list_update)
      have nff: "\<not> holds ns ff l" for l using free by (simp add: holds_def is_free_def)
      have km: "mk \<noteq> k" using occ new by blast
      have u: "holds ns i mk \<Longrightarrow> i = mp" for i
        using core_inv_uniq [OF inv] occ unfolding uniq_def by blast
      have hol: "holds ns' mp k" by (simp add: ho)
      have "node_map ns' = (node_map ns)(k \<mapsto> nd_val (ns' ! mp))"
      proof (rule node_map_updI [OF core_inv_uniq [OF inv] core_inv_uniq [OF inv'] hol])
        fix l v assume l: "l \<noteq> k"
        show "(\<exists>i. holds ns' i l \<and> nd_val (ns' ! i) = v) \<longleftrightarrow> (\<exists>i. holds ns i l \<and> nd_val (ns ! i) = v)"
        proof (cases "l = mk")
          case True
          then have "holds ns' i l \<longleftrightarrow> i = ff" for i using l u [of i] ne by (auto simp: ho)
          moreover have "holds ns i l \<longleftrightarrow> i = mp" for i using True u [of i] occ by auto
          ultimately show ?thesis using val(1) by simp
        next
          case False
          have a: "holds ns' i l \<longleftrightarrow> holds ns i l" for i
            using l False occ by (auto simp: ho) (simp add: holds_def)
          have "i \<noteq> mp \<and> i \<noteq> ff" if "holds ns i l" for i
            using that False occ nff by (metis holds_def option.inject)
          then show ?thesis using a val(2) by metis
        qed
      qed
      moreover have "card (occupied ns') = Suc (card (occupied ns))"
      proof (rule card_occupied_insert [of _ ff])
        have "i \<in> occupied ns' \<longleftrightarrow> i = ff \<or> i \<in> occupied ns" for i
          using occ by (cases "i = mp"; cases "i = ff") (auto simp: occupied_holds ho)
        then show "occupied ns' = insert ff (occupied ns)" by blast
        show "ff \<notin> occupied ns" using nff by (simp add: occupied_holds)
      qed
      moreover have "fresh ns' ff" if f: "fresh ns ff"
        unfolding fresh_def len
      proof (intro allI impI)
        fix i assume i: "i < length ns" "nd_key (ns' ! i) = None"
        then have nh: "\<not> holds ns' i l" for l by (simp add: holds_def)
        then have "i \<noteq> mp" "i \<noteq> ff" and nk: "\<And>l. \<not> holds ns i l" unfolding ho by blast+
        moreover have "nd_key (ns ! i) = None"
          using nk i(1) unfolding holds_def by (metis not_None_eq)
        moreover from this have "i \<noteq> p" using f i p(2) by (auto simp: fresh_def step_def)
        ultimately show "nd_next (ns' ! i) = None \<and> i \<le> ff"
          using f i by (simp add: ns'_def set_key_def set_next_def fresh_def)
      qed
      ultimately have "placed h ns ff k ns' mp" using inv' len hol unfolding placed_def by blast
      with eq show ?thesis unfolding mp_def by blast
    next
      case False
      define ns' where "ns' = set_key (set_next (set_next ns ff (nd_next (ns ! mp))) mp (Some ff)) ff k"
      have eq: "place_key h ns ff mp k = Some (ns', ff)"
        using False Some by (auto simp: place_key_def ns'_def Let_def)
      have own: "main_pos h (length ns) k' = mp" if "holds ns mp k'" for k'
      proof -
        have "k' = mk" using that occ by (simp add: holds_def)
        moreover have "main_pos h (length ns) mk \<noteq> mp \<Longrightarrow> ff \<le> mp"
          using inv occ unfolding core_inv_def keys_ok_def by blast
        ultimately show ?thesis using False ne by (cases "main_pos h (length ns) mk = mp") auto
      qed
      have "placed h ns ff k ns' ff"
      proof (rule placed_at)
        show "core_inv h ns' ff"
          using place_after_main [OF inv free new mp_def _ own ns'_def] Some by simp
      qed (use inv new free fflt mplt ne Some in
            \<open>auto simp: ns'_def set_key_def set_next_def holds_def is_free_def nth_list_update\<close>)
      with eq show ?thesis unfolding mp_def by blast
    qed
  qed
qed

subsection \<open>\<open>NewSlot\<close> without rehashing\<close>

lemma find_main_cases:
  assumes "core_inv h ns ff" "is_free ns ff"
  shows "find_node ns k (main_pos h (length ns) k) = Some (Some i) \<longleftrightarrow> holds ns i k"
    and "find_node ns k (main_pos h (length ns) k) = Some None \<longleftrightarrow> (\<forall>i. \<not> holds ns i k)"
proof -
  have "0 < length ns" using assms(2) by (auto simp: is_free_def)
  then show "find_node ns k (main_pos h (length ns) k) = Some (Some i) \<longleftrightarrow> holds ns i k"
    "find_node ns k (main_pos h (length ns) k) = Some None \<longleftrightarrow> (\<forall>i. \<not> holds ns i k)"
    using find_main [OF assms(1)] by blast+
qed

lemma new_slot_present:
  assumes "core_inv h (tb_nodes t) (tb_firstfree t)" "is_free (tb_nodes t) (tb_firstfree t)"
    and "holds (tb_nodes t) i k"
  shows "new_slot (Suc d) h t k v = Some (t\<lparr>tb_nodes := upd_val (tb_nodes t) i v\<rparr>, False)"
proof -
  have "find_node (tb_nodes t) k (main_pos h (length (tb_nodes t)) k) = Some (Some i)"
    using find_main_cases(1) [OF assms(1,2)] assms(3) by blast
  then show ?thesis by (simp add: Let_def)
qed

text \<open>A well-formed table but for its size: the invariant the re-insertion loop keeps.\<close>

definition pre_inv :: "sq_heap \<Rightarrow> sq_table \<Rightarrow> bool" where
  "pre_inv h t \<longleftrightarrow> is_free (tb_nodes t) (tb_firstfree t) \<and> core_inv h (tb_nodes t) (tb_firstfree t) \<and>
     tb_used t = card (occupied (tb_nodes t))"

lemma table_inv_pre: "table_inv h t \<longleftrightarrow> (\<exists>e. length (tb_nodes t) = 2 ^ e) \<and> pre_inv h t"
  by (auto simp: table_inv_def pre_inv_def)

lemma new_slot_absent:
  assumes inv: "pre_inv h t" and new: "\<And>i. \<not> holds (tb_nodes t) i k"
    and pl: "place_key h (tb_nodes t) (tb_firstfree t) (main_pos h (length (tb_nodes t)) k) k = Some (ns', m)"
      "placed h (tb_nodes t) (tb_firstfree t) k ns' m"
    and ff: "correct_firstfree ns' (tb_firstfree t) = Some f"
  shows "\<exists>t'. new_slot (Suc d) h t k v = Some (t', True) \<and> pre_inv h t' \<and>
     length (tb_nodes t') = length (tb_nodes t) \<and> table_map t' = (table_map t)(k \<mapsto> v) \<and>
     tb_used t' = Suc (tb_used t) \<and>
     (fresh (tb_nodes t) (tb_firstfree t) \<longrightarrow> fresh (tb_nodes t') (tb_firstfree t'))"
proof -
  let ?t' = "t\<lparr>tb_nodes := upd_val ns' m v, tb_firstfree := f, tb_used := tb_used t + 1,
               tb_class_id := update_class_id t k m\<rparr>"
  have core: "core_inv h (tb_nodes t) (tb_firstfree t)" and free: "is_free (tb_nodes t) (tb_firstfree t)"
    using inv by (auto simp: pre_inv_def)
  have "find_node (tb_nodes t) k (main_pos h (length (tb_nodes t)) k) = Some None"
    using find_main_cases(2) [OF core free] new by blast
  then have eq: "new_slot (Suc d) h t k v = Some (?t', True)"
    using pl(1) ff by (simp add: Let_def)
  have cf: "f \<le> tb_firstfree t" "nd_key (ns' ! f) = None" "nd_next (ns' ! f) = None"
    and above: "\<And>i. f < i \<Longrightarrow> i \<le> tb_firstfree t \<Longrightarrow> \<not> (nd_key (ns' ! i) = None \<and> nd_next (ns' ! i) = None)"
    using correct_firstfree_Some [OF ff] by blast+
  have len: "length ns' = length (tb_nodes t)" and hol: "holds ns' m k" and core': "core_inv h ns' (tb_firstfree t)"
    and map: "node_map ns' = (node_map (tb_nodes t))(k \<mapsto> nd_val (ns' ! m))"
    and cd: "card (occupied ns') = Suc (card (occupied (tb_nodes t)))"
    using pl(2) by (auto simp: placed_def)
  have free': "is_free ns' f" using cf free len by (auto simp: is_free_def)
  have "pre_inv h ?t'"
    using free' core_inv_lower [OF core' free' cf(1)] cd inv by (simp add: pre_inv_def)
  moreover have "table_map ?t' = (table_map t)(k \<mapsto> v)"
    using node_map_upd_val [OF core_inv_uniq [OF core'] hol] map by (simp add: table_map_def)
  moreover have "fresh (tb_nodes ?t') f" if "fresh (tb_nodes t) (tb_firstfree t)"
  proof -
    have "fresh ns' (tb_firstfree t)" using pl(2) that by (simp add: placed_def)
    then have "fresh ns' f" using above unfolding fresh_def by (meson not_less)
    then show ?thesis by simp
  qed
  ultimately show ?thesis using eq len by auto
qed

text \<open>As long as a node stays free, inserting into a fresh table never rehashes.\<close>

lemma fresh_has_free:
  assumes "fresh ns ff" "card (occupied ns) < length ns" "ff < length ns"
  shows "correct_firstfree ns ff \<noteq> None"
proof
  assume "correct_firstfree ns ff = None"
  then have all: "\<not> (nd_key (ns ! i) = None \<and> nd_next (ns ! i) = None)" if "i \<le> ff" for i
    using correct_firstfree_None that by blast
  have "nd_key (ns ! i) \<noteq> None" if i: "i < length ns" for i
  proof
    assume k: "nd_key (ns ! i) = None"
    then have "nd_next (ns ! i) = None" "i \<le> ff" using assms(1) i by (simp_all add: fresh_def)
    with all [of i] k show False by simp
  qed
  then have "occupied ns = {..< length ns}" unfolding occupied_def by blast
  with assms(2) show False by simp
qed

lemma new_slot_fresh:
  assumes inv: "pre_inv h t" and new: "\<And>i. \<not> holds (tb_nodes t) i k"
    and fr: "fresh (tb_nodes t) (tb_firstfree t)" and room: "Suc (tb_used t) < length (tb_nodes t)"
  shows "\<exists>t'. new_slot (Suc d) h t k v = Some (t', True) \<and> pre_inv h t' \<and>
     length (tb_nodes t') = length (tb_nodes t) \<and> table_map t' = (table_map t)(k \<mapsto> v) \<and>
     tb_used t' = Suc (tb_used t) \<and> fresh (tb_nodes t') (tb_firstfree t')"
proof -
  have core: "core_inv h (tb_nodes t) (tb_firstfree t)" and free: "is_free (tb_nodes t) (tb_firstfree t)"
    using inv by (auto simp: pre_inv_def)
  obtain ns' m where pl: "place_key h (tb_nodes t) (tb_firstfree t) (main_pos h (length (tb_nodes t)) k) k = Some (ns', m)"
      "placed h (tb_nodes t) (tb_firstfree t) k ns' m"
    using place_key_correct [OF core free new] by blast
  have "correct_firstfree ns' (tb_firstfree t) \<noteq> None"
    using pl(2) fr room inv free by (intro fresh_has_free) (auto simp: placed_def pre_inv_def is_free_def)
  then obtain f where "correct_firstfree ns' (tb_firstfree t) = Some f" by auto
  from new_slot_absent [OF inv new pl this] fr show ?thesis by blast
qed

end
