(* ===== verification/SqTableSpec.thy ===== *)
theory SqTableSpec
  imports SqTableOps
begin

text \<open>
  The contract of the hash table: rehashing keeps the map, and insertion, update, lookup,
  removal, clearing, copying and iteration act on \<open>table_map\<close> as on a finite map. The
  contract is stated as a locale, which the table interprets and its clients use.
\<close>

subsection \<open>Rehashing\<close>

lemma uniq_tl: "uniq (nd # ns) \<Longrightarrow> uniq ns"
  using uniq_Cons by blast

lemma reinsert_correct:
  assumes "pre_inv h t" "fresh (tb_nodes t) (tb_firstfree t)" "uniq old"
    and "\<And>i k. holds old i k \<Longrightarrow> table_map t k = None"
    and "tb_used t + card (occupied old) < length (tb_nodes t)"
  shows "\<exists>t'. reinsert (new_slot (Suc d) h) t old = Some t' \<and> pre_inv h t' \<and>
     length (tb_nodes t') = length (tb_nodes t) \<and> table_map t' = table_map t ++ node_map old \<and>
     tb_used t' = tb_used t + card (occupied old)"
  using assms
proof (induction old arbitrary: t)
  case Nil
  then show ?case by (simp add: occupied_def)
next
  case (Cons nd old)
  have occ: "occupied (nd # old) =
      (if nd_key nd = None then {} else {0}) \<union> Suc ` occupied old"
    by (auto simp: occupied_def image_iff less_Suc_eq_0_disj)
  have fin: "finite (occupied old)" by (simp add: occupied_def)
  have card: "card (occupied (nd # old)) = (if nd_key nd = None then 0 else 1) + card (occupied old)"
    unfolding occ using fin by (auto simp: card_image card_insert_if image_iff)
  have u: "uniq old" and fresh_key: "\<And>k i. nd_key nd = Some k \<Longrightarrow> \<not> holds old i k"
    using uniq_Cons [OF Cons.prems(3)] by blast+
  have sub: "holds old i k \<Longrightarrow> table_map t k = None" for i k
    using Cons.prems(4) [of "Suc i" k] by simp
  show ?case
  proof (cases "nd_key nd")
    case None
    have "tb_used t + card (occupied old) < length (tb_nodes t)" using Cons.prems(5) card None by simp
    with Cons.IH [OF Cons.prems(1,2) u] sub show ?thesis
      using None card by (simp add: node_map_Cons)
  next
    case (Some k)
    have "table_map t k = None" using Cons.prems(4) [of 0 k] Some by simp
    then have new: "\<And>i. \<not> holds (tb_nodes t) i k"
      by (simp add: table_map_def node_map_None_iff)
    have "Suc (tb_used t) < length (tb_nodes t)" using Cons.prems(5) card Some by simp
    then obtain t1 where t1: "new_slot (Suc d) h t k (nd_val nd) = Some (t1, True)" "pre_inv h t1"
      "length (tb_nodes t1) = length (tb_nodes t)" "table_map t1 = (table_map t)(k \<mapsto> nd_val nd)"
      "tb_used t1 = Suc (tb_used t)" "fresh (tb_nodes t1) (tb_firstfree t1)"
      using new_slot_fresh [OF Cons.prems(1) new Cons.prems(2)] by blast
    have sub1: "table_map t1 k' = None" if "holds old i k'" for i k'
      using sub [OF that] fresh_key [OF Some] that t1(4) by (cases "k' = k") auto
    have "tb_used t1 + card (occupied old) < length (tb_nodes t1)"
      using Cons.prems(5) card Some t1(3,5) by simp
    with Cons.IH [OF t1(2,6) u] sub1 obtain t' where
      t': "reinsert (new_slot (Suc d) h) t1 old = Some t'" "pre_inv h t'"
      "length (tb_nodes t') = length (tb_nodes t1)" "table_map t' = table_map t1 ++ node_map old"
      "tb_used t' = tb_used t1 + card (occupied old)" by blast
    have "node_map old k = None" using fresh_key [OF Some] by (simp add: node_map_None_iff)
    then have add: "(table_map t)(k \<mapsto> nd_val nd) ++ node_map old = table_map t ++ (node_map old)(k \<mapsto> nd_val nd)"
      by (intro ext) (simp add: map_add_def split: option.split)
    have "node_map (nd # old) = (node_map old)(k \<mapsto> nd_val nd)"
      using Some by (simp add: node_map_Cons)
    then have "table_map t' = table_map t ++ node_map (nd # old)"
      unfolding t'(4) t1(4) add by simp
    then show ?thesis
      using t'(1-3,5) t1(1,3,5) card Some by (simp del: new_slot.simps)
  qed
qed

lemma nth_free_node: "i < n \<Longrightarrow> replicate n free_node ! i = free_node"
  by simp

lemma alloc_pre_inv:
  assumes "0 < n"
  shows "pre_inv h ((AllocNodes n t)\<lparr>tb_used := 0\<rparr>)"
    and "fresh (tb_nodes (AllocNodes n t)) (tb_firstfree (AllocNodes n t))"
    and "table_map (AllocNodes n t) = Map.empty" and "tb_nodes (AllocNodes n t) = replicate n free_node"
proof -
  have st: "\<not> step (replicate n free_node) i j" and ho: "\<not> holds (replicate n free_node) i k" for i j k
    by (auto simp: step_def holds_def free_node_def)
  have "core_inv h (replicate n free_node) (n - 1)"
    unfolding core_inv_def links_ok_def keys_ok_def using st ho by blast
  then show "pre_inv h ((AllocNodes n t)\<lparr>tb_used := 0\<rparr>)"
    using assms by (simp add: pre_inv_def AllocNodes_def is_free_def occupied_def free_node_def)
  show "fresh (tb_nodes (AllocNodes n t)) (tb_firstfree (AllocNodes n t))"
    by (auto simp: fresh_def AllocNodes_def free_node_def)
  show "table_map (AllocNodes n t) = Map.empty"
    using ho by (intro ext) (simp add: table_map_def AllocNodes_def node_map_None_iff)
  show "tb_nodes (AllocNodes n t) = replicate n free_node"
    by (simp add: AllocNodes_def)
qed

lemma ilog2_upper: "n < 2 ^ (ilog2 n + 1)"
proof (induction n rule: ilog2.induct)
  case (1 n)
  show ?case
  proof (cases "n \<le> 1")
    case True
    then show ?thesis by (simp add: ilog2.simps [of n])
  next
    case False
    with 1 have "n div 2 < 2 ^ (ilog2 (n div 2) + 1)" by simp
    then have "n < 2 * 2 ^ (ilog2 (n div 2) + 1)" by linarith
    with False show ?thesis by (simp add: ilog2.simps [of n])
  qed
qed

text \<open>The size chosen is a power of two with room for one element more than the table holds.\<close>

lemma rehash_size_room:
  assumes "rehash_size n u force = Some n'" "0 < n" "u \<le> n" "force \<Longrightarrow> Suc u \<le> n"
  shows "u < n'" and "force \<Longrightarrow> Suc u < n'"
  using assms ilog2_upper [of n] unfolding rehash_size_def MINPOWER2_def
  by (auto simp: Let_def split: if_splits)

lemma rehash_size_force: "\<exists>n'. rehash_size n u True = Some n'"
  unfolding rehash_size_def Let_def by (simp split: if_split)

lemma rehash_size_pow2:
  assumes "rehash_size (2 ^ e) u force = Some n'"
  shows "\<exists>e'. n' = 2 ^ e'"
proof -
  have half: "(2::nat) ^ e div 2 = 2 ^ (e - 1)" if "1 < (2::nat) ^ e"
    using that by (cases e) auto
  have "n' = 2 ^ Suc e \<or> n' = 2 ^ (e - 1) \<or> n' = 2 ^ (ilog2 (2 ^ e) + 1)"
    using assms half unfolding rehash_size_def MINPOWER2_def
    by (auto simp: Let_def split: if_splits)
  then show ?thesis by blast
qed

lemma rehash_correct:
  assumes "uniq (tb_nodes t)" "rehash_size (length (tb_nodes t)) (tb_used t) force = Some n'"
    and "card (occupied (tb_nodes t)) < n'" and "length (tb_nodes t) = 2 ^ e"
  shows "\<exists>t'. rehash_with (new_slot (Suc d) h) t force = Some t' \<and> table_inv h t' \<and>
     table_map t' = table_map t \<and> length (tb_nodes t') = n'"
proof -
  let ?t0 = "(AllocNodes n' t)\<lparr>tb_used := 0\<rparr>"
  have n0: "0 < n'" using assms(3) by simp
  note al = alloc_pre_inv [OF n0]
  have fr: "fresh (tb_nodes ?t0) (tb_firstfree ?t0)" using al(2) by simp
  have emp: "table_map ?t0 = Map.empty" using al(3) [of t] by (simp add: table_map_def)
  have room: "tb_used ?t0 + card (occupied (tb_nodes t)) < length (tb_nodes ?t0)"
    using assms(3) al(4) [of t] by simp
  obtain t' where t': "reinsert (new_slot (Suc d) h) ?t0 (tb_nodes t) = Some t'" "pre_inv h t'"
    "length (tb_nodes t') = length (tb_nodes ?t0)" "table_map t' = table_map ?t0 ++ node_map (tb_nodes t)"
    using reinsert_correct [OF al(1) fr assms(1) _ room] emp by auto
  obtain e' where "n' = 2 ^ e'" using rehash_size_pow2 assms(2,4) by metis
  then have "table_inv h t'" using t'(2,3) al(4) [of t] by (auto simp: table_inv_pre)
  moreover have "rehash_with (new_slot (Suc d) h) t force = Some t'"
    using assms(2) t'(1) by (simp add: rehash_with_def)
  ultimately show ?thesis using t'(3,4) emp al(4) [of t] by (simp add: table_map_def)
qed

subsection \<open>The contract as an interface\<close>

text \<open>
  What a client of a finite map relies on: \<open>absm\<close> is the map stored, \<open>norm\<close> what reading
  back a stored value gives. A lookup always answers; an insertion or a deletion always
  returns, keeps the invariant and changes the map at one key.
\<close>

locale finite_map_impl =
  fixes inv :: "'m \<Rightarrow> bool"
    and absm :: "'m \<Rightarrow> 'k \<Rightarrow> 'v option"
    and norm :: "'v \<Rightarrow> 'v"
    and lookup :: "'m \<Rightarrow> 'k \<Rightarrow> 'v option option"
    and insert :: "'m \<Rightarrow> 'k \<Rightarrow> 'v \<Rightarrow> ('m \<times> bool) option"
    and delete :: "'m \<Rightarrow> 'k \<Rightarrow> 'm option"
  assumes lookup_ok: "inv m \<Longrightarrow> lookup m k = Some (absm m k)"
    and insert_ok: "inv m \<Longrightarrow> \<exists>m' b. insert m k v = Some (m', b) \<and> inv m' \<and> absm m' = (absm m)(k \<mapsto> norm v)"
    and delete_ok: "inv m \<Longrightarrow> \<exists>m'. delete m k = Some m' \<and> inv m' \<and> absm m' = (absm m)(k := None)"
begin

lemma insert_lookup:
  assumes "inv m" "insert m k v = Some (m', b)"
  shows "lookup m' k' = Some (if k' = k then Some (norm v) else absm m k')"
proof -
  have "inv m'" "absm m' = (absm m)(k \<mapsto> norm v)" using insert_ok [OF assms(1), of k v] assms(2) by auto
  then show ?thesis by (simp add: lookup_ok)
qed

lemma delete_lookup:
  assumes "inv m" "delete m k = Some m'"
  shows "lookup m' k' = Some (if k' = k then None else absm m k')"
proof -
  have "inv m'" "absm m' = (absm m)(k := None)" using delete_ok [OF assms(1), of k] assms(2) by auto
  then show ?thesis by (simp add: lookup_ok)
qed

text \<open>Storing a list of bindings one after the other.\<close>

fun insert_all :: "'m \<Rightarrow> ('k \<times> 'v) list \<Rightarrow> 'm option" where
  "insert_all m [] = Some m"
| "insert_all m ((k, v) # kvs) =
     (case insert m k v of None \<Rightarrow> None | Some (m', _) \<Rightarrow> insert_all m' kvs)"

lemma insert_all_ok:
  "inv m \<Longrightarrow> \<exists>m'. insert_all m kvs = Some m' \<and> inv m' \<and>
     absm m' = absm m ++ map_of (rev (map (\<lambda>(k, v). (k, norm v)) kvs))"
proof (induction kvs arbitrary: m)
  case Nil
  then show ?case by simp
next
  case (Cons kv kvs)
  obtain k v where kv: "kv = (k, v)" by (cases kv)
  obtain m1 b where m1: "insert m k v = Some (m1, b)" "inv m1" "absm m1 = (absm m)(k \<mapsto> norm v)"
    using insert_ok [OF Cons.prems] by blast
  obtain m' where m': "insert_all m1 kvs = Some m'" "inv m'"
    "absm m' = absm m1 ++ map_of (rev (map (\<lambda>(k, v). (k, norm v)) kvs))"
    using Cons.IH [OF m1(2)] by blast
  have "absm m' = absm m ++ map_of (rev (map (\<lambda>(k, v). (k, norm v)) (kv # kvs)))"
    using m'(3) m1(3) kv by (intro ext) (simp add: map_add_def split: option.splits)
  then show ?case using m' m1(1) kv by simp
qed

end

subsection \<open>The operations\<close>

lemma pow2_loop_ge: "0 < p \<Longrightarrow> n \<le> pow2_loop n p \<and> (\<exists>e. pow2_loop n p = p * 2 ^ e)"
proof (induction n p rule: pow2_loop.induct)
  case (1 n p)
  show ?case
  proof (cases "p < n")
    case True
    with 1 obtain e where "n \<le> pow2_loop n (2 * p)" "pow2_loop n (2 * p) = 2 * p * 2 ^ e" by auto
    then have "n \<le> pow2_loop n p \<and> pow2_loop n p = p * 2 ^ Suc e"
      using True 1(2) by (simp add: pow2_loop.simps [of n p])
    then show ?thesis by blast
  next
    case False
    then have "pow2_loop n p = p * 2 ^ 0" by (simp add: pow2_loop.simps [of n p])
    with False show ?thesis by (metis linorder_not_less mult_1_right power_0)
  qed
qed

lemma table_create_ok:
  "table_inv h (table_create n) \<and> table_map (table_create n) = Map.empty \<and>
   n \<le> length (tb_nodes (table_create n)) \<and> tb_used (table_create n) = 0"
proof -
  obtain e where e: "pow2_loop n 1 = 2 ^ e" and ge: "n \<le> pow2_loop n 1" using pow2_loop_ge [of 1 n] by auto
  have pos: "0 < pow2_loop n 1" unfolding e by simp
  have u0: "(AllocNodes (pow2_loop n 1) empty_header)\<lparr>tb_used := 0\<rparr> = table_create n"
    by (simp add: table_create_def AllocNodes_def empty_header_def)
  have "pre_inv h (table_create n)"
    using alloc_pre_inv(1) [OF pos, of h empty_header] unfolding u0 .
  then show ?thesis
    using alloc_pre_inv(3) [OF pos, of empty_header] e ge
    by (auto simp: table_inv_pre table_create_def AllocNodes_def empty_header_def)
qed

lemma occupied_le: "card (occupied ns) \<le> length ns"
proof -
  have "occupied ns \<subseteq> {..< length ns}" by (auto simp: occupied_def)
  from card_mono [OF _ this] show ?thesis by simp
qed

declare new_slot.simps(2) [simp del]

lemma table_new_slot_eq: "table_new_slot h = new_slot (Suc (Suc 0)) h"
  by (simp add: table_new_slot_def numeral_2_eq_2)

lemma table_new_slot_ok:
  assumes inv: "table_inv h t"
  shows "\<exists>t' b. table_new_slot h t k v = Some (t', b) \<and> table_inv h t' \<and>
     table_map t' = (table_map t)(k \<mapsto> v) \<and> (b \<longrightarrow> table_map t k = None)"
proof -
  have core: "core_inv h (tb_nodes t) (tb_firstfree t)" and free: "is_free (tb_nodes t) (tb_firstfree t)"
    and used: "tb_used t = card (occupied (tb_nodes t))" and pre: "pre_inv h t"
    using inv by (auto simp: table_inv_def pre_inv_def)
  obtain e where e: "length (tb_nodes t) = 2 ^ e" using inv by (auto simp: table_inv_def)
  show ?thesis
  proof (cases "\<exists>i. holds (tb_nodes t) i k")
    case True
    then obtain i where i: "holds (tb_nodes t) i k" by blast
    have "table_inv h (t\<lparr>tb_nodes := upd_val (tb_nodes t) i v\<rparr>)"
      using inv by (simp add: table_inv_def)
    then show ?thesis
      using new_slot_present [OF core free i, of "Suc 0" v] node_map_upd_val [OF core_inv_uniq [OF core] i]
      unfolding table_new_slot_eq table_map_def by auto
  next
    case False
    then have new: "\<And>i. \<not> holds (tb_nodes t) i k" by blast
    then have none: "table_map t k = None" by (simp add: table_map_def node_map_None_iff)
    obtain ns' m where pl: "place_key h (tb_nodes t) (tb_firstfree t) (main_pos h (length (tb_nodes t)) k) k = Some (ns', m)"
      "placed h (tb_nodes t) (tb_firstfree t) k ns' m"
      using place_key_correct [OF core free new] by blast
    show ?thesis
    proof (cases "correct_firstfree ns' (tb_firstfree t)")
      case (Some f)
      from new_slot_absent [OF pre new pl Some, of "Suc 0" v] e none show ?thesis
        unfolding table_new_slot_eq by (auto simp: table_inv_pre)
    next
      case None
      let ?t1 = "t\<lparr>tb_nodes := ns', tb_firstfree := 0\<rparr>"
      have u': "uniq ns'" and len: "length ns' = length (tb_nodes t)"
        and cd: "card (occupied ns') = Suc (tb_used t)" and hol: "holds ns' m k"
        and map: "node_map ns' = (node_map (tb_nodes t))(k \<mapsto> nd_val (ns' ! m))"
        using pl(2) core_inv_uniq used by (auto simp: placed_def)
      have room: "Suc (tb_used t) \<le> length (tb_nodes t)"
        using occupied_le [of ns'] cd len by simp
      obtain n' where n': "rehash_size (length ns') (tb_used t) True = Some n'"
        using rehash_size_force by blast
      have "0 < length ns'" using len e by simp
      then have "Suc (tb_used t) < n'"
        using rehash_size_room(2) [OF n'] room len by simp
      then obtain t2 where t2: "rehash_with (new_slot (Suc 0) h) ?t1 True = Some t2"
        "table_inv h t2" "table_map t2 = table_map ?t1"
        using rehash_correct [of ?t1 True n' e 0 h] u' n' cd e len by auto
      have "find_node (tb_nodes t) k (main_pos h (length (tb_nodes t)) k) = Some None"
        using find_main_cases(2) [OF core free] new by blast
      then have step1: "table_new_slot h t k v = new_slot (Suc 0) h t2 k v"
        unfolding table_new_slot_eq
        by (subst new_slot.simps(2)) (simp add: Let_def pl(1) None t2(1) del: new_slot.simps)
      have "table_map t2 k = Some (nd_val (ns' ! m))"
        unfolding t2(3) by (simp add: table_map_def map)
      then obtain i where i: "holds (tb_nodes t2) i k"
        unfolding table_map_def using node_map_None_iff by (metis option.distinct(1))
      have core2: "core_inv h (tb_nodes t2) (tb_firstfree t2)" and free2: "is_free (tb_nodes t2) (tb_firstfree t2)"
        using t2(2) by (auto simp: table_inv_def)
      let ?t3 = "t2\<lparr>tb_nodes := upd_val (tb_nodes t2) i v\<rparr>"
      have "table_map ?t3 = (table_map t2)(k \<mapsto> v)"
        using node_map_upd_val [OF core_inv_uniq [OF core2] i] by (simp add: table_map_def)
      also have "\<dots> = (table_map t)(k \<mapsto> v)"
        unfolding t2(3) by (simp add: table_map_def map)
      finally show ?thesis
        using new_slot_present [OF core2 free2 i, of 0 v] t2(2)
        unfolding step1 by (auto simp: table_inv_def)
    qed
  qed
qed

lemma table_get_ok:
  assumes "table_inv h t"
  shows "table_get h t k = Some (map_option (sq_realval h) (table_map t k))"
proof -
  have core: "core_inv h (tb_nodes t) (tb_firstfree t)" and free: "is_free (tb_nodes t) (tb_firstfree t)"
    using assms by (auto simp: table_inv_def)
  note found = find_main_cases [OF core free, of k]
  show ?thesis
  proof (cases "\<exists>i. holds (tb_nodes t) i k")
    case True
    then obtain i where i: "holds (tb_nodes t) i k" by blast
    then show ?thesis
      using found(1) [of i] node_map_holds [OF core_inv_uniq [OF core] i]
      by (simp add: table_get_def table_get_node_def table_map_def)
  next
    case False
    then have "find_node (tb_nodes t) k (main_pos h (length (tb_nodes t)) k) = Some None"
      using found(2) by blast
    moreover have "table_map t k = None" using False by (simp add: table_map_def node_map_None_iff)
    ultimately show ?thesis by (simp add: table_get_def table_get_node_def)
  qed
qed

lemma table_set_ok:
  assumes inv: "table_inv h t"
  shows "\<exists>t'. table_set h t k v = Some (t', table_map t k \<noteq> None) \<and> table_inv h t' \<and>
     table_map t' = (if table_map t k = None then table_map t else (table_map t)(k \<mapsto> v))"
proof -
  have core: "core_inv h (tb_nodes t) (tb_firstfree t)" and free: "is_free (tb_nodes t) (tb_firstfree t)"
    using inv by (auto simp: table_inv_def)
  note found = find_main_cases [OF core free, of k]
  show ?thesis
  proof (cases "\<exists>i. holds (tb_nodes t) i k")
    case True
    then obtain i where i: "holds (tb_nodes t) i k" by blast
    have f: "find_node (tb_nodes t) k (main_pos h (length (tb_nodes t)) k) = Some (Some i)"
      using found(1) i by blast
    have "table_map t k \<noteq> None" using i by (auto simp: table_map_def node_map_None_iff)
    then show ?thesis
      using f inv node_map_upd_val [OF core_inv_uniq [OF core] i]
      by (auto simp: table_set_def table_get_node_def table_map_def table_inv_def)
  next
    case False
    then have "find_node (tb_nodes t) k (main_pos h (length (tb_nodes t)) k) = Some None"
      using found(2) by blast
    moreover have "table_map t k = None" using False by (simp add: table_map_def node_map_None_iff)
    ultimately show ?thesis using inv by (simp add: table_set_def table_get_node_def)
  qed
qed

abbreviation free_key :: "hash_node list \<Rightarrow> nat \<Rightarrow> hash_node list" where
  "free_key ns i \<equiv> ns[i := (ns ! i)\<lparr>nd_val := SQNull, nd_key := None\<rparr>]"

lemma free_key_ok:
  assumes core: "core_inv h ns ff" and free: "is_free ns ff" and i: "holds ns i k"
  shows "core_inv h (free_key ns i) ff" "is_free (free_key ns i) ff"
    "occupied (free_key ns i) = occupied ns - {i}" "node_map (free_key ns i) = (node_map ns)(k := None)"
proof -
  let ?ns = "free_key ns i"
  have ilt: "i < length ns" and iff: "i \<noteq> ff" using i free by (auto simp: holds_def is_free_def)
  have st: "step ?ns = step ns"
    by (intro ext) (use ilt in \<open>auto simp: step_def nth_list_update\<close>)
  have ho: "holds ?ns j l \<longleftrightarrow> j \<noteq> i \<and> holds ns j l" for j l
    using ilt by (auto simp: holds_def nth_list_update)
  have nff: "\<not> step ns j ff" for j
    using links_okD(3) [of ns ff j] core free by (auto simp: core_inv_def is_free_def)
  have "links_ok ?ns ff"
    using core nff unfolding core_inv_def links_ok_def st length_list_update by blast
  moreover have "keys_ok h ?ns ff"
    using core unfolding core_inv_def keys_ok_def st ho length_list_update by blast
  ultimately show core': "core_inv h ?ns ff" by (simp add: core_inv_def)
  show "is_free ?ns ff" using free iff by (simp add: is_free_def)
  show "occupied ?ns = occupied ns - {i}" by (auto simp: occupied_holds ho)
  have u: "uniq ns" using core core_inv_uniq by blast
  show "node_map ?ns = (node_map ns)(k := None)"
  proof
    fix l
    show "node_map ?ns l = ((node_map ns)(k := None)) l"
    proof (cases "l = k")
      case True
      have "\<not> holds ?ns j k" for j using u i unfolding uniq_def ho by blast
      with True show ?thesis by (simp add: node_map_None_iff)
    next
      case False
      then have eq: "holds ?ns j l \<longleftrightarrow> holds ns j l" for j using i by (auto simp: ho) (simp add: holds_def)
      moreover have "nd_val (?ns ! j) = nd_val (ns ! j)" if "holds ns j l" for j
        using that eq [of j] ho by (metis nth_list_update_neq)
      ultimately have "node_map ?ns l = Some v \<longleftrightarrow> node_map ns l = Some v" for v
        unfolding node_map_iff [OF core_inv_uniq [OF core']] node_map_iff [OF u] by auto
      with False show ?thesis by (metis fun_upd_other not_None_eq)
    qed
  qed
qed

lemma table_inv_class_id [simp]: "table_inv h (t\<lparr>tb_class_id := c\<rparr>) = table_inv h t"
  by (simp add: table_inv_def)

lemma table_map_class_id [simp]: "table_map (t\<lparr>tb_class_id := c\<rparr>) = table_map t"
  by (simp add: table_map_def)

lemma table_rehash_ok:
  assumes inv: "table_inv h t"
  shows "\<exists>t'. table_rehash h t force = Some t' \<and> table_inv h t' \<and> table_map t' = table_map t"
proof (cases "rehash_size (length (tb_nodes t)) (tb_used t) force")
  case None
  then show ?thesis using inv by (simp add: table_rehash_def rehash_with_def)
next
  case (Some n')
  have core: "core_inv h (tb_nodes t) (tb_firstfree t)" and free: "is_free (tb_nodes t) (tb_firstfree t)"
    and used: "tb_used t = card (occupied (tb_nodes t))"
    using inv by (auto simp: table_inv_def)
  obtain e where e: "length (tb_nodes t) = 2 ^ e" using inv by (auto simp: table_inv_def)
  have "occupied (tb_nodes t) \<subseteq> {..< length (tb_nodes t)} - {tb_firstfree t}"
    using free by (auto simp: occupied_def is_free_def)
  from card_mono [OF _ this] have "card (occupied (tb_nodes t)) \<le> length (tb_nodes t) - 1"
    using free by (simp add: is_free_def)
  moreover have "tb_firstfree t < length (tb_nodes t)" using free by (simp add: is_free_def)
  ultimately have "card (occupied (tb_nodes t)) < length (tb_nodes t)" by linarith
  then have "tb_used t < n'"
    using rehash_size_room(1) [OF Some] used by fastforce
  then show ?thesis
    using rehash_correct [OF core_inv_uniq [OF core] Some _ e, of 0 h] used
    by (auto simp: table_rehash_def)
qed

lemma table_remove_ok:
  assumes inv: "table_inv h t"
  shows "\<exists>t'. table_remove h t k = Some t' \<and> table_inv h t' \<and> table_map t' = (table_map t)(k := None)"
proof -
  have core: "core_inv h (tb_nodes t) (tb_firstfree t)" and free: "is_free (tb_nodes t) (tb_firstfree t)"
    and used: "tb_used t = card (occupied (tb_nodes t))"
    using inv by (auto simp: table_inv_def)
  note found = find_main_cases [OF core free, of k]
  show ?thesis
  proof (cases "\<exists>i. holds (tb_nodes t) i k")
    case True
    then obtain i where i: "holds (tb_nodes t) i k" by blast
    have f: "find_node (tb_nodes t) k (main_pos h (length (tb_nodes t)) k) = Some (Some i)"
      using found(1) i by blast
    let ?t1 = "t\<lparr>tb_nodes := free_key (tb_nodes t) i, tb_used := tb_used t - 1\<rparr>"
    note fk = free_key_ok [OF core free i]
    have "i \<in> occupied (tb_nodes t)" using i by (auto simp: occupied_holds)
    then have "table_inv h ?t1"
      using inv fk used by (auto simp: table_inv_def)
    from table_rehash_ok [OF this, of False] obtain t2 where
      "table_rehash h ?t1 False = Some t2" "table_inv h t2" "table_map t2 = table_map ?t1" by blast
    moreover have "table_map ?t1 = (table_map t)(k := None)" using fk(4) by (simp add: table_map_def)
    ultimately show ?thesis using f by (simp add: table_remove_def)
  next
    case False
    then have "find_node (tb_nodes t) k (main_pos h (length (tb_nodes t)) k) = Some None"
      using found(2) by blast
    moreover have "table_map t k = None" using False by (simp add: table_map_def node_map_None_iff)
    ultimately show ?thesis using inv by (auto simp: table_remove_def)
  qed
qed

lemma clear_nodes_free: "tb_nodes (clear_nodes t) = replicate (length (tb_nodes t)) free_node"
  by (intro nth_equalityI) (simp_all add: clear_nodes_def free_node_def)

lemma table_clear_ok:
  assumes "table_inv h t"
  shows "\<exists>t'. table_clear h t rehash = Some t' \<and> table_inv h t' \<and> table_map t' = Map.empty"
proof -
  have n0: "0 < length (tb_nodes t)" using assms by (auto simp: table_inv_def is_free_def)
  let ?t1 = "(clear_nodes t)\<lparr>tb_used := 0, tb_class_id := 0\<rparr>"
  have st: "\<not> step (replicate n free_node) i j" and ho: "\<not> holds (replicate n free_node) i k" for n i j k
    by (auto simp: step_def holds_def free_node_def)
  have core: "core_inv h (replicate n free_node) f" for n f
    unfolding core_inv_def links_ok_def keys_ok_def using st ho by blast
  have occ: "occupied (replicate n free_node) = {}" for n by (auto simp: occupied_def free_node_def)
  have free: "f < n \<Longrightarrow> is_free (replicate n free_node) f" for n f by (simp add: is_free_def free_node_def)
  have emp: "node_map (replicate n free_node) = Map.empty" for n
    by (intro ext) (simp add: node_map_None_iff ho)
  have ff: "tb_firstfree ?t1 < length (tb_nodes t)"
    using assms by (simp add: clear_nodes_def table_inv_def is_free_def)
  have inv1: "table_inv h ?t1"
    using assms core occ free ff by (simp add: table_inv_def clear_nodes_free)
  show ?thesis
  proof (cases rehash)
    case True
    from table_rehash_ok [OF inv1, of True] show ?thesis
      using True by (auto simp: table_clear_def Let_def table_map_def clear_nodes_free emp)
  next
    case False
    then show ?thesis
      using assms core occ free n0
      by (auto simp: table_clear_def Let_def table_map_def clear_nodes_free emp table_inv_def)
  qed
qed

end
