(* ===== verification/SqTableProps.thy ===== *)
theory SqTableProps
  imports SqTableSpec
begin

text \<open>
  The properties of the hash table that its callers rely on, each over every heap of string
  hashes: sequences of operations from a new table behave as on a finite map, iteration
  meets every binding once, a copy is equal and well-formed.
\<close>

interpretation sqt: finite_map_impl "table_inv h" "\<lambda>t k. map_option (sq_realval h) (table_map t k)"
  "sq_realval h" "table_get h" "table_new_slot h" "table_remove h" for h
proof unfold_locales
  fix t k v
  assume inv: "table_inv h t"
  show "table_get h t k = Some (map_option (sq_realval h) (table_map t k))"
    by (rule table_get_ok [OF inv])
  show "\<exists>t' b. table_new_slot h t k v = Some (t', b) \<and> table_inv h t' \<and>
      (\<lambda>k. map_option (sq_realval h) (table_map t' k)) = (\<lambda>k. map_option (sq_realval h) (table_map t k))(k \<mapsto> sq_realval h v)"
  proof -
    obtain t' b where t': "table_new_slot h t k v = Some (t', b)" "table_inv h t'"
      "table_map t' = (table_map t)(k \<mapsto> v)"
      using table_new_slot_ok [OF inv] by blast
    have "(\<lambda>k. map_option (sq_realval h) (table_map t' k)) = (\<lambda>k. map_option (sq_realval h) (table_map t k))(k \<mapsto> sq_realval h v)"
      unfolding t'(3) by auto
    with t'(1,2) show ?thesis by blast
  qed
  show "\<exists>t'. table_remove h t k = Some t' \<and> table_inv h t' \<and>
      (\<lambda>k. map_option (sq_realval h) (table_map t' k)) = (\<lambda>k. map_option (sq_realval h) (table_map t k))(k := None)"
  proof -
    obtain t' where t': "table_remove h t k = Some t'" "table_inv h t'"
      "table_map t' = (table_map t)(k := None)"
      using table_remove_ok [OF inv] by blast
    have "(\<lambda>k. map_option (sq_realval h) (table_map t' k)) = (\<lambda>k. map_option (sq_realval h) (table_map t k))(k := None)"
      unfolding t'(3) by auto
    with t'(1,2) show ?thesis by blast
  qed
qed

text \<open>A heap to evaluate examples with: a string hashes to its address.\<close>

definition sample_heap :: sq_heap where
  "sample_heap = \<lparr>str_hash = (\<lambda>p. p), str_val = (\<lambda>_. []), weak_obj = (\<lambda>_. SQNull)\<rparr>"

subsection \<open>Sequences of operations\<close>

datatype table_op =
    OpNewSlot sq_obj sq_obj
  | OpSet sq_obj sq_obj
  | OpRemove sq_obj
  | OpClear bool

fun table_step :: "sq_heap \<Rightarrow> sq_table \<Rightarrow> table_op \<Rightarrow> sq_table option" where
  "table_step h t (OpNewSlot k v) = map_option fst (table_new_slot h t k v)"
| "table_step h t (OpSet k v) = map_option fst (table_set h t k v)"
| "table_step h t (OpRemove k) = table_remove h t k"
| "table_step h t (OpClear r) = table_clear h t r"

fun table_run :: "sq_heap \<Rightarrow> sq_table \<Rightarrow> table_op list \<Rightarrow> sq_table option" where
  "table_run h t [] = Some t"
| "table_run h t (x # xs) = (case table_step h t x of None \<Rightarrow> None | Some t' \<Rightarrow> table_run h t' xs)"

fun map_step :: "(sq_obj \<rightharpoonup> sq_obj) \<Rightarrow> table_op \<Rightarrow> (sq_obj \<rightharpoonup> sq_obj)" where
  "map_step m (OpNewSlot k v) = m(k \<mapsto> v)"
| "map_step m (OpSet k v) = (if m k = None then m else m(k \<mapsto> v))"
| "map_step m (OpRemove k) = m(k := None)"
| "map_step m (OpClear _) = Map.empty"

lemma table_step_ok:
  assumes "table_inv h t"
  shows "\<exists>t'. table_step h t x = Some t' \<and> table_inv h t' \<and> table_map t' = map_step (table_map t) x"
proof (cases x)
  case (OpNewSlot k v)
  then show ?thesis using table_new_slot_ok [OF assms, of k v] by auto
next
  case (OpSet k v)
  then show ?thesis using table_set_ok [OF assms, of k v] by auto
next
  case (OpRemove k)
  then show ?thesis using table_remove_ok [OF assms, of k] by auto
next
  case (OpClear r)
  then show ?thesis using table_clear_ok [OF assms, of r] by auto
qed

lemma table_run_ok:
  "table_inv h t \<Longrightarrow> \<exists>t'. table_run h t xs = Some t' \<and> table_inv h t' \<and>
     table_map t' = foldl map_step (table_map t) xs"
proof (induction xs arbitrary: t)
  case Nil
  then show ?case by simp
next
  case (Cons x xs)
  obtain t1 where t1: "table_step h t x = Some t1" "table_inv h t1" "table_map t1 = map_step (table_map t) x"
    using table_step_ok [OF Cons.prems] by blast
  from Cons.IH [OF t1(2)] t1(1,3) show ?case by simp
qed

text \<open>C1: Any sequence of insertions, updates, removals and clears on a new table of any initial size terminates without a fault, leaves the table well-formed, and every later lookup returns what the same sequence on a finite map says, whatever the hashes of the keys.\<close>

theorem table_run_refines_map:
  "\<exists>t. table_run h (table_create n) xs = Some t \<and> table_inv h t \<and>
     table_map t = foldl map_step Map.empty xs \<and>
     (\<forall>k. table_get h t k = Some (map_option (sq_realval h) (foldl map_step Map.empty xs k)))"
proof -
  obtain t where t: "table_run h (table_create n) xs = Some t" "table_inv h t"
    "table_map t = foldl map_step Map.empty xs"
    using table_run_ok [of h "table_create n" xs] table_create_ok [of h n] by auto
  then show ?thesis using sqt.lookup_ok [OF t(2)] by auto
qed

text \<open>C12: Inserting a key into a well-formed table always returns, also when the table is full and must grow first; afterwards the new key reads back as the value stored and every other key as before.\<close>

theorem table_new_slot_lookup:
  assumes "table_inv h t"
  shows "\<exists>t' b. table_new_slot h t k v = Some (t', b) \<and> table_inv h t' \<and>
     table_get h t' k = Some (Some (sq_realval h v)) \<and>
     (\<forall>k'. k' \<noteq> k \<longrightarrow> table_get h t' k' = table_get h t k')"
proof -
  obtain t' b where t': "table_new_slot h t k v = Some (t', b)" "table_inv h t'"
    using sqt.insert_ok [OF assms] by blast
  then show ?thesis
    using sqt.insert_lookup [OF assms t'(1)] sqt.lookup_ok [OF assms] by auto
qed

theorem table_new_slot_lookup_witness:
  "table_inv sample_heap (table_create 3) \<and>
   (\<exists>t' b. table_new_slot sample_heap (table_create 3) (SQInteger 7) (SQBool True) = Some (t', b) \<and>
      table_get sample_heap t' (SQInteger 7) = Some (Some (SQBool True)))"
proof -
  have inv: "table_inv sample_heap (table_create 3)" using table_create_ok by blast
  have "sq_realval sample_heap (SQBool True) = SQBool True" by (simp add: sq_realval_def)
  with inv table_new_slot_lookup [OF inv, of "SQInteger 7" "SQBool True"] show ?thesis by auto
qed

text \<open>C13: Removing a key from a well-formed table returns, leaves the table well-formed, the key absent and every other key as it was, including when the table shrinks.\<close>

theorem table_remove_lookup:
  assumes "table_inv h t"
  shows "\<exists>t'. table_remove h t k = Some t' \<and> table_inv h t' \<and>
     table_get h t' k = Some None \<and>
     (\<forall>k'. k' \<noteq> k \<longrightarrow> table_get h t' k' = table_get h t k')"
proof -
  obtain t' where t': "table_remove h t k = Some t'" "table_inv h t'"
    using sqt.delete_ok [OF assms] by blast
  then show ?thesis
    using sqt.delete_lookup [OF assms t'(1)] sqt.lookup_ok [OF assms] by auto
qed

theorem table_remove_lookup_witness:
  "table_inv sample_heap (table_create 5) \<and>
   (\<exists>t'. table_remove sample_heap (table_create 5) (SQInteger 7) = Some t' \<and>
      table_get sample_heap t' (SQInteger 7) = Some None)"
proof -
  have inv: "table_inv sample_heap (table_create 5)" using table_create_ok by blast
  with table_remove_lookup [OF inv, of "SQInteger 7"] show ?thesis by auto
qed

subsection \<open>The result of \<open>NewSlot\<close>\<close>

text \<open>The boolean result of an insertion can be false for a key that was not there: on a new table of one node the first insertion rehashes, finds the key it has just placed, and reports it as present.\<close>

theorem new_slot_first_insert_reports_present:
  "table_map (table_create 1) k = None \<and>
   (\<exists>t'. table_new_slot h (table_create 1) k v = Some (t', False) \<and> table_map t' k = Some v)"
proof -
  let ?t = "table_create 1"
  have nodes: "tb_nodes ?t = [free_node]" and ff: "tb_firstfree ?t = 0" and used: "tb_used ?t = 0"
    by (simp_all add: table_create_def AllocNodes_def empty_header_def pow2_loop.simps)
  have mp: "main_pos h 1 k = 0" by (simp add: main_pos_def)
  have fn: "find_node [free_node] k 0 = Some None"
    by (simp add: find_node.simps free_node_def)
  have pl: "place_key h [free_node] 0 0 k = Some ([free_node\<lparr>nd_key := Some k\<rparr>], 0)"
    by (simp add: place_key_def free_node_def set_key_def)
  have cf: "correct_firstfree [free_node\<lparr>nd_key := Some k\<rparr>] 0 = None"
    by (simp add: correct_firstfree.simps)
  obtain t' b where t': "table_new_slot h ?t k v = Some (t', b)" "table_map t' = (table_map ?t)(k \<mapsto> v)"
    using table_new_slot_ok [of h ?t k v] table_create_ok [of h 1] by blast
  obtain t2 where t2: "new_slot (Suc 0) h t2 k v = Some (t', b)"
      "rehash_with (new_slot (Suc 0) h) (?t\<lparr>tb_nodes := [free_node\<lparr>nd_key := Some k\<rparr>], tb_firstfree := 0\<rparr>) True = Some t2"
    using t'(1) nodes ff mp fn pl cf
    by (auto simp: table_new_slot_eq new_slot.simps(2) [of "Suc 0"] Let_def split: option.splits)
  have uq: "uniq [free_node\<lparr>nd_key := Some k\<rparr>]" by (auto simp: uniq_def holds_def)
  have oc: "occupied [free_node\<lparr>nd_key := Some k\<rparr>] = {0}" by (auto simp: occupied_def)
  have "table_inv h t2 \<and> table_map t2 k \<noteq> None"
    using rehash_correct [of "?t\<lparr>tb_nodes := [free_node\<lparr>nd_key := Some k\<rparr>], tb_firstfree := 0\<rparr>" True 2 0 0 h]
      t2(2) uq oc used
    by (auto simp: rehash_size_def MINPOWER2_def ilog2.simps table_map_def node_map_Cons)
  then obtain i where "holds (tb_nodes t2) i k" and inv2: "table_inv h t2"
    by (auto simp: table_map_def node_map_None_iff)
  from new_slot_present [OF _ _ this(1), of h 0 v] inv2 t2(1) have "b = False"
    by (simp add: table_inv_def)
  with t' show ?thesis using table_create_ok [of h 1] by auto
qed

subsection \<open>Iteration and copying\<close>

text \<open>The bindings in node order, and what a \<open>foreach\<close> loop over \<open>Next\<close> meets in at most \<open>n\<close> steps.\<close>

definition entries :: "hash_node list \<Rightarrow> (sq_obj \<times> sq_obj) list" where
  "entries ns = List.map_filter (\<lambda>nd. map_option (\<lambda>k. (k, nd_val nd)) (nd_key nd)) ns"

fun table_iterate :: "nat \<Rightarrow> sq_heap \<Rightarrow> sq_table \<Rightarrow> bool \<Rightarrow> sq_obj \<Rightarrow> (sq_obj \<times> sq_obj) list" where
  "table_iterate 0 h t getweakrefs refpos = []"
| "table_iterate (Suc n) h t getweakrefs refpos =
     (case table_next h t getweakrefs refpos of
        None \<Rightarrow> []
      | Some (idx, k, v) \<Rightarrow> (k, v) # table_iterate n h t getweakrefs (SQInteger (of_nat idx)))"

lemma next_from_spec:
  fixes ns :: "hash_node list" and i :: nat
  shows "(case next_from ns i of
      None \<Rightarrow> entries (drop i ns) = []
    | Some (j, k, v) \<Rightarrow> i < j \<and> j \<le> length ns \<and> entries (drop i ns) = (k, v) # entries (drop j ns))"
proof (induction ns i rule: next_from.induct)
  case (1 ns i)
  show ?case
  proof (cases "i < length ns")
    case False
    then show ?thesis by (simp add: next_from.simps [of ns i] entries_def map_filter_simps)
  next
    case True
    then have d: "drop i ns = ns ! i # drop (Suc i) ns" by (simp add: Cons_nth_drop_Suc)
    show ?thesis
    proof (cases "nd_key (ns ! i)")
      case None
      then have "entries (drop i ns) = entries (drop (Suc i) ns)"
        by (simp add: d entries_def map_filter_simps)
      moreover have "next_from ns i = next_from ns (i + 1)"
        using True None by (simp add: next_from.simps [of ns i])
      ultimately show ?thesis using 1 [OF True None] by (auto split: option.splits)
    next
      case (Some k)
      then show ?thesis using True
        by (simp add: next_from.simps [of ns i] d entries_def map_filter_simps)
    qed
  qed
qed

lemma position_roundtrip: "i < 2 ^ 32 \<Longrightarrow> unat (ucast (of_nat i :: u64) :: u32) = i"
  by (simp add: unsigned_ucast_eq unsigned_of_nat take_bit_nat_eq_self)

lemma table_iterate_from:
  assumes "length (tb_nodes t) < 2 ^ 32" "unat (ucast (TranslateIndex pos) :: u32) = i"
    "i \<le> length (tb_nodes t)" "length (tb_nodes t) - i < n"
  shows "table_iterate n h t True pos = entries (drop i (tb_nodes t))"
  using assms(2-)
proof (induction n arbitrary: pos i)
  case 0
  then show ?case by simp
next
  case (Suc n)
  show ?case
  proof (cases "next_from (tb_nodes t) i")
    case None
    then show ?thesis
      using next_from_spec [where ns = "tb_nodes t" and i = i] Suc.prems(1) by (simp add: table_next_def)
  next
    case (Some r)
    obtain j k v where r: "r = (j, k, v)" by (cases r)
    have sp: "i < j" "j \<le> length (tb_nodes t)" "entries (drop i (tb_nodes t)) = (k, v) # entries (drop j (tb_nodes t))"
      using next_from_spec [where ns = "tb_nodes t" and i = i] Some r by auto
    have "unat (ucast (TranslateIndex (SQInteger (of_nat j))) :: u32) = j"
      using position_roundtrip [of j] sp(2) assms(1) by (simp add: TranslateIndex_def)
    from Suc.IH [OF this sp(2)] have "table_iterate n h t True (SQInteger (of_nat j)) = entries (drop j (tb_nodes t))"
      using Suc.prems sp by simp
    then show ?thesis using Some r Suc.prems(1) sp(3) by (simp add: table_next_def)
  qed
qed

lemma entries_Cons: "entries (nd # ns) = (case nd_key nd of None \<Rightarrow> entries ns | Some k \<Rightarrow> (k, nd_val nd) # entries ns)"
  by (simp add: entries_def map_filter_simps split: option.split)

lemma entries_keys: "k \<in> fst ` set (entries ns) \<longleftrightarrow> (\<exists>i. holds ns i k)"
  using node_map_None_iff [of ns k] unfolding node_map_def entries_def by (metis map_of_eq_None_iff)

lemma entries_distinct: "uniq ns \<Longrightarrow> distinct (map fst (entries ns))"
proof (induction ns)
  case Nil
  then show ?case by (simp add: entries_def map_filter_simps)
next
  case (Cons nd ns)
  have "fst ` set (entries ns) = {k. \<exists>i. holds ns i k}" using entries_keys by blast
  with Cons uniq_Cons [of nd ns] show ?case by (auto simp: entries_Cons split: option.splits)
qed

text \<open>C14: A loop over \<open>Next\<close> from the null position ends within one step per node, meets every stored binding exactly once and nothing else.\<close>

theorem table_iteration_complete:
  assumes "table_inv h t" "length (tb_nodes t) < 2 ^ 32"
  shows "\<exists>kvs. (\<forall>n > length (tb_nodes t). table_iterate n h t True SQNull = kvs) \<and>
     distinct (map fst kvs) \<and> map_of kvs = table_map t"
proof (intro exI conjI allI impI)
  have u: "uniq (tb_nodes t)" using assms(1) core_inv_uniq by (auto simp: table_inv_def)
  show "table_iterate n h t True SQNull = entries (tb_nodes t)" if "length (tb_nodes t) < n" for n
    using table_iterate_from [OF assms(2), of SQNull 0 n h] that by (simp add: TranslateIndex_def)
  show "distinct (map fst (entries (tb_nodes t)))" by (rule entries_distinct [OF u])
  show "map_of (entries (tb_nodes t)) = table_map t"
    by (simp add: table_map_def node_map_def entries_def)
qed

theorem table_iteration_complete_witness:
  "\<exists>kvs. (\<forall>n > 4. table_iterate n sample_heap (table_create 3) True SQNull = kvs) \<and> map_of kvs = Map.empty"
proof -
  have inv: "table_inv sample_heap (table_create 3)" and emp: "table_map (table_create 3) = Map.empty"
    using table_create_ok by blast+
  have len: "length (tb_nodes (table_create 3)) = 4"
    by (simp add: table_create_def AllocNodes_def pow2_loop.simps)
  then have "length (tb_nodes (table_create 3)) < 2 ^ 32" by simp
  from table_iteration_complete [OF inv this] show ?thesis unfolding len emp by blast
qed

lemma pow2_loop_exact: "0 < p \<Longrightarrow> pow2_loop (p * 2 ^ e) p = p * 2 ^ e"
proof (induction e arbitrary: p)
  case 0
  then show ?case by (simp add: pow2_loop.simps)
next
  case (Suc e)
  have "1 < (2::nat) ^ Suc e" by (rule one_less_power) simp_all
  then have "p * 1 < p * 2 ^ Suc e" using Suc.prems by (rule mult_less_mono2)
  then have "p < p * 2 ^ Suc e" by (simp only: mult_1_right)
  then have "pow2_loop (p * 2 ^ Suc e) p = pow2_loop (2 * p * 2 ^ e) (2 * p)"
    using Suc.prems by (subst pow2_loop.simps) (simp add: ac_simps)
  also have "\<dots> = 2 * p * 2 ^ e"
    using Suc.prems by (intro Suc.IH) simp
  also have "\<dots> = p * 2 ^ Suc e" by simp
  finally show ?case .
qed

text \<open>C15: Copying a well-formed table gives a table with the same bindings at the same positions, the same free pointer, count and class id: the copy is well-formed and indistinguishable from the original.\<close>

theorem table_clone_equal:
  assumes "table_inv h t"
  shows "table_clone t = t \<and> table_inv h (table_clone t) \<and> table_map (table_clone t) = table_map t"
proof -
  obtain e where e: "length (tb_nodes t) = 2 ^ e" using assms by (auto simp: table_inv_def)
  have "pow2_loop (length (tb_nodes t)) 1 = length (tb_nodes t)"
    using pow2_loop_exact [of 1 e] e by simp
  then have len: "tb_nodes (table_create (length (tb_nodes t))) = replicate (length (tb_nodes t)) free_node"
    by (simp add: table_create_def AllocNodes_def)
  have "map2 (\<lambda>src dst. dst\<lparr>nd_key := nd_key src, nd_val := nd_val src,
             nd_next := (case nd_next src of None \<Rightarrow> nd_next dst | Some j \<Rightarrow> Some j)\<rparr>)
           (tb_nodes t) (replicate (length (tb_nodes t)) free_node) = tb_nodes t"
    by (intro nth_equalityI) (auto simp: free_node_def split: option.split)
  then have "table_clone t = t"
    unfolding table_clone_def Let_def len by simp
  with assms show ?thesis by simp
qed

theorem table_clone_equal_witness:
  "table_clone (table_create 6) = table_create 6"
proof -
  have "table_inv sample_heap (table_create 6)" using table_create_ok by blast
  from table_clone_equal [OF this] show ?thesis by blast
qed

end
