(* ===== verification/TypeParser.thy ===== *)
theory TypeParser
  imports CharClass
begin

text \<open>
  \<^verbatim>\<open>squirrel/compiler/sqtypeparser.cpp\<close>: the parser and printer of function type
  strings such as \<open>pure (int|string).f(a, [b: int, c = 1], ...: any): bool|null\<close>, by which native
  functions declare their signature. A pointer into the type string is the list of the characters
  that remain (the terminating NUL is the end of the list) and \<open>p - s\<close> the difference of
  two lengths. A result is an error (position and message) or a value; what an output
  argument holds after an error is not modelled.
\<close>

subsection \<open>Type names and masks\<close>

definition RT_NULL :: u32 where "RT_NULL = 0x00000001"
definition RT_INTEGER :: u32 where "RT_INTEGER = 0x00000002"
definition RT_FLOAT :: u32 where "RT_FLOAT = 0x00000004"
definition RT_BOOL :: u32 where "RT_BOOL = 0x00000008"
definition RT_STRING :: u32 where "RT_STRING = 0x00000010"
definition RT_TABLE :: u32 where "RT_TABLE = 0x00000020"
definition RT_ARRAY :: u32 where "RT_ARRAY = 0x00000040"
definition RT_USERDATA :: u32 where "RT_USERDATA = 0x00000080"
definition RT_CLOSURE :: u32 where "RT_CLOSURE = 0x00000100"
definition RT_NATIVECLOSURE :: u32 where "RT_NATIVECLOSURE = 0x00000200"
definition RT_GENERATOR :: u32 where "RT_GENERATOR = 0x00000400"
definition RT_USERPOINTER :: u32 where "RT_USERPOINTER = 0x00000800"
definition RT_THREAD :: u32 where "RT_THREAD = 0x00001000"
definition RT_CLASS :: u32 where "RT_CLASS = 0x00004000"
definition RT_INSTANCE :: u32 where "RT_INSTANCE = 0x00008000"
definition RT_WEAKREF :: u32 where "RT_WEAKREF = 0x00010000"

lemmas RT_defs = RT_NULL_def RT_INTEGER_def RT_FLOAT_def RT_BOOL_def RT_STRING_def RT_TABLE_def
  RT_ARRAY_def RT_USERDATA_def RT_CLOSURE_def RT_NATIVECLOSURE_def RT_GENERATOR_def
  RT_USERPOINTER_def RT_THREAD_def RT_CLASS_def RT_INSTANCE_def RT_WEAKREF_def

text \<open>The rows of \<open>rawTypeDecls\<close>: the names (the null entries left out) and the mask.\<close>

definition rawTypeDecls :: "(string list \<times> u32) list" where
  "rawTypeDecls =
    [([''bool'', ''boolean''], RT_BOOL),
     ([''number'', ''num''], RT_FLOAT OR RT_INTEGER),
     ([''int'', ''integer''], RT_INTEGER),
     ([''float'', ''double'', ''real''], RT_FLOAT),
     ([''string'', ''str''], RT_STRING),
     ([''table'', ''dict'', ''map''], RT_TABLE),
     ([''array'', ''list'', ''vector''], RT_ARRAY),
     ([''userdata'', ''user'', ''object''], RT_USERDATA),
     ([''function'', ''func'', ''closure''], RT_CLOSURE OR RT_NATIVECLOSURE),
     ([''generator'', ''gen'', ''yield''], RT_GENERATOR),
     ([''userpointer'', ''ptr'', ''pointer''], RT_USERPOINTER),
     ([''thread'', ''coroutine'', ''fiber''], RT_THREAD),
     ([''instance'', ''inst'', ''object''], RT_INSTANCE),
     ([''class''], RT_CLASS),
     ([''weakref'', ''reference'', ''ref''], RT_WEAKREF),
     ([''null'', ''nil'', ''none''], RT_NULL),
     ([''any''], - 1)]"

definition skip_spaces :: "string \<Rightarrow> string" where
  "skip_spaces s = dropWhile (\<lambda>c. c \<noteq> NUL \<and> sq_isspace (schar c)) s"

fun is_str_equal_ignore_case :: "string \<Rightarrow> string \<Rightarrow> bool" where
  "is_str_equal_ignore_case (a # s) (b # t) =
     (if sq_tolower (schar a) = sq_tolower (schar b) then is_str_equal_ignore_case s t else a = b)"
| "is_str_equal_ignore_case s t = (cur_char s = cur_char t)"

definition is_id_char :: "char \<Rightarrow> bool" where
  "is_id_char c \<longleftrightarrow> sq_isalnum (schar c) \<or> c = CHR ''_''"

definition parse_identifier :: "string \<Rightarrow> (string \<times> string) option" where
  "parse_identifier s =
     (let c = cur_char s in
      if \<not> sq_isalpha (schar c) \<and> c \<noteq> CHR ''_'' then None
      else Some (c # takeWhile is_id_char (tl s), dropWhile is_id_char (tl s)))"

text \<open>The loop over \<open>rawTypeDecls\<close>: the mask if the name is found, and the last suggestion.\<close>

fun type_search :: "string \<Rightarrow> (string list \<times> u32) list \<Rightarrow> string option \<Rightarrow> u32 option \<times> string option" where
  "type_search type_name [] suggestion = (None, suggestion)"
| "type_search type_name ((names, typeMask) # decls) suggestion =
     (if type_name = hd names then (Some typeMask, suggestion)
      else type_search type_name decls
             (if \<exists>nm \<in> set names. is_str_equal_ignore_case type_name nm then Some (hd names) else suggestion))"

definition sq_type_string_to_mask :: "string \<Rightarrow> u32 option \<times> string option" where
  "sq_type_string_to_mask type_name = type_search type_name rawTypeDecls None"

type_synonym type_error = "int \<times> string"

abbreviation pdiff :: "string \<Rightarrow> string \<Rightarrow> int" where
  "pdiff p s \<equiv> int (length s) - int (length p)"

definition invalid_type_name :: "string \<Rightarrow> string option \<Rightarrow> string" where
  "invalid_type_name typeName suggestion =
     take 255 (''Invalid type name '' @ [CHR 0x27] @ typeName @ [CHR 0x27] @
       (case suggestion of
          Some sg \<Rightarrow> '', did you mean '' @ [CHR 0x27] @ sg @ [CHR 0x27] @ ''?''
        | None \<Rightarrow> ''''))"

lemma length_skip_spaces: "length (skip_spaces s) \<le> length s"
  by (simp add: skip_spaces_def length_dropWhile_le)

lemma length_skip_tl_skip: "length (skip_spaces (tl (skip_spaces s))) \<le> length s"
  using length_skip_spaces [of "tl (skip_spaces s)"] length_skip_spaces [of s] by simp

lemma parse_identifier_shorter: "parse_identifier s = Some (name, p) \<Longrightarrow> length p < length s"
proof -
  assume "parse_identifier s = Some (name, p)"
  then have "s \<noteq> []" "p = dropWhile is_id_char (tl s)"
    by (auto simp: parse_identifier_def Let_def split: if_splits)
  then show ?thesis using length_dropWhile_le [of is_id_char "tl s"] by (cases s) auto
qed

lemma parse_identifier_skip:
  "parse_identifier s = Some (name, p) \<Longrightarrow> length (skip_spaces (tl (skip_spaces p))) < length s"
  using parse_identifier_shorter [of s name p] length_skip_tl_skip [of p] by simp

text \<open>The \<open>for (;;)\<close> loop of \<open>parse_type_mask\<close>, at \<open>p\<close> in the string \<open>s\<close>.\<close>

function type_names :: "string \<Rightarrow> string \<Rightarrow> u32 \<Rightarrow> type_error + u32 \<times> string" where
  "type_names s p tmask =
     (case parse_identifier p of
        None \<Rightarrow> Inl (pdiff p s, ''Expected type name'')
      | Some (typeName, p) \<Rightarrow>
          (case sq_type_string_to_mask typeName of
             (None, suggestion) \<Rightarrow> Inl (pdiff p s, invalid_type_name typeName suggestion)
           | (Some currentTypeMask, _) \<Rightarrow>
               (let tmask = tmask OR currentTypeMask; p = skip_spaces p in
                if cur_char p = CHR ''|'' then type_names s (skip_spaces (tl p)) tmask
                else Inr (tmask, p))))"
  by pat_completeness auto
termination
proof (relation "measure (\<lambda>(s, p, tmask). length p)")
  show "wf (measure (\<lambda>(s :: string, p :: string, tmask :: u32). length p))" by simp
qed (auto simp: parse_identifier_skip)

declare type_names.simps [simp del]

definition parse_type_mask :: "string \<Rightarrow> type_error + u32 \<times> string" where
  "parse_type_mask s =
     (let p = skip_spaces s;
          hasBrackets = (cur_char p = CHR ''('');
          p = (if hasBrackets then skip_spaces (tl p) else p)
      in case type_names s p 0 of
           Inl err \<Rightarrow> Inl err
         | Inr (tmask, p) \<Rightarrow>
             if hasBrackets then
               if cur_char p \<noteq> CHR '')'' then Inl (pdiff p s, ''Expected '' @ [CHR 0x27] @ '')'' @ [CHR 0x27] @ '' after type list'')
               else Inr (tmask, skip_spaces (tl p))
             else Inr (tmask, p))"

subsection \<open>Function types\<close>

record fn_type =
  functionName :: "string option"
  returnTypeMask :: u32
  objectTypeMask :: u32
  argNames :: "string list"
  argTypeMask :: "u32 list"
  defaultValues :: "string option list"
  requiredArgs :: int
  ellipsisArgTypeMask :: u32
  is_pure :: bool
  is_nodiscard :: bool

definition new_fn_type :: fn_type where
  "new_fn_type = \<lparr>functionName = None, returnTypeMask = - 1, objectTypeMask = - 1, argNames = [],
     argTypeMask = [], defaultValues = [], requiredArgs = 0, ellipsisArgTypeMask = 0,
     is_pure = False, is_nodiscard = False\<rparr>"

text \<open>The prefixes \<open>pure\<close> and \<open>nodiscard\<close>, in any order and number.\<close>

function parse_attributes :: "string \<Rightarrow> fn_type \<Rightarrow> string \<times> fn_type" where
  "parse_attributes p res =
     (if take 5 p = ''pure '' then parse_attributes (skip_spaces (drop 5 p)) (res\<lparr>is_pure := True\<rparr>)
      else if take 10 p = ''nodiscard '' then parse_attributes (skip_spaces (drop 10 p)) (res\<lparr>is_nodiscard := True\<rparr>)
      else (p, res))"
  by pat_completeness auto
termination
proof (relation "measure (\<lambda>(p, res). length p)", goal_cases)
  case 1
  then show ?case by simp
next
  case (2 p res)
  then have "p \<noteq> []" by auto
  then show ?case using length_skip_spaces [of "drop 5 p"] by (cases p) auto
next
  case (3 p res)
  then have "p \<noteq> []" by auto
  then show ?case using length_skip_spaces [of "drop 10 p"] by (cases p) auto
qed

declare parse_attributes.simps [simp del]

definition expected_function_name :: string where
  "expected_function_name = ''Expected function name''"

definition after_dot :: string where
  "after_dot = '' after '' @ [CHR 0x27] @ ''.'' @ [CHR 0x27]"

text \<open>Object type and function name.\<close>

definition parse_function_name :: "string \<Rightarrow> string \<Rightarrow> fn_type \<Rightarrow> type_error + string \<times> fn_type" where
  "parse_function_name s p res =
     (if cur_char p = CHR ''('' then
        (case parse_type_mask p of
           Inl (e, msg) \<Rightarrow> Inl (e + pdiff p s + 1, msg)
         | Inr (m, p) \<Rightarrow>
             (let res = res\<lparr>objectTypeMask := m\<rparr>; p = skip_spaces p in
              if cur_char p \<noteq> CHR ''.'' then Inl (pdiff p s + 1, ''Expected '' @ [CHR 0x27] @ ''.'' @ [CHR 0x27] @ '' after object type'')
              else (let p = skip_spaces (tl p) in
                    case parse_identifier p of
                      None \<Rightarrow> Inl (pdiff p s + 1, expected_function_name @ after_dot)
                    | Some (name, p) \<Rightarrow> Inr (p, res\<lparr>functionName := Some name\<rparr>))))
      else
        (let p_initial = p in
         case parse_identifier p of
           None \<Rightarrow> Inl (pdiff p s + 1, expected_function_name)
         | Some (identifier1, p) \<Rightarrow>
             if cur_char p = CHR ''.'' then
               (let p = skip_spaces (tl p) in
                case parse_identifier p of
                  None \<Rightarrow> Inl (pdiff p s + 1, expected_function_name @ after_dot)
                | Some (name, p) \<Rightarrow>
                    (case parse_type_mask identifier1 of
                       Inl (e, msg) \<Rightarrow> Inl (pdiff p_initial s + e, msg)
                     | Inr (m, typeStrPtr) \<Rightarrow>
                         if cur_char typeStrPtr \<noteq> NUL then
                           Inl (pdiff p_initial s + pdiff typeStrPtr identifier1, ''Invalid object type'')
                         else Inr (p, res\<lparr>functionName := Some name, objectTypeMask := m\<rparr>)))
             else Inr (p, res\<lparr>functionName := Some identifier1\<rparr>)))"

subsection \<open>Default values\<close>

text \<open>
  The loop that finds the end of a default value. The bracket stack is \<open>char stack[40]\<close>, its
  top first here; \<open>stringOpener\<close> is the quote of the string the loop is in.
\<close>

function default_value_end :: "string \<Rightarrow> bool \<Rightarrow> char \<Rightarrow> string \<Rightarrow> string \<Rightarrow> type_error + bool \<times> string \<times> string" where
  "default_value_end s insideString stringOpener stack p =
     (if cur_char p = NUL then Inr (insideString, stack, p)
      else if insideString then
        if cur_char p = stringOpener then default_value_end s False stringOpener stack (tl p)
        else if cur_char p = CHR 0x5C then
          if cur_char (tl p) = NUL then Inl (pdiff (tl p) s + 1, ''Unterminated string in default value'')
          else default_value_end s insideString stringOpener stack (tl (tl p))
        else default_value_end s insideString stringOpener stack (tl p)
      else if cur_char p = CHR 0x22 \<or> cur_char p = CHR 0x27 then
        default_value_end s True (cur_char p) stack (tl p)
      else if 39 \<le> length stack then
        Inl (pdiff p s + 1, ''Default value too complex. Too many nested structures'')
      else if cur_char p = CHR ''('' then default_value_end s insideString stringOpener (CHR ''('' # stack) (skip_spaces (tl p))
      else if cur_char p = CHR '')'' then
        if stack = [] then Inr (insideString, stack, p)
        else if hd stack \<noteq> CHR ''('' then Inl (pdiff p s + 1, ''Unmatched '' @ [CHR 0x27] @ '')'' @ [CHR 0x27] @ '' in default value'')
        else default_value_end s insideString stringOpener (tl stack) (skip_spaces (tl p))
      else if cur_char p = CHR ''['' then default_value_end s insideString stringOpener (CHR ''['' # stack) (skip_spaces (tl p))
      else if cur_char p = CHR '']'' then
        if stack = [] then Inr (insideString, stack, p)
        else if hd stack \<noteq> CHR ''['' then Inl (pdiff p s + 1, ''Unmatched '' @ [CHR 0x27] @ '']'' @ [CHR 0x27] @ '' in default value'')
        else default_value_end s insideString stringOpener (tl stack) (skip_spaces (tl p))
      else if cur_char p = CHR ''{'' then default_value_end s insideString stringOpener (CHR ''{'' # stack) (skip_spaces (tl p))
      else if cur_char p = CHR ''}'' then
        if stack = [] \<or> hd stack \<noteq> CHR ''{'' then Inl (pdiff p s + 1, ''Unmatched '' @ [CHR 0x27] @ ''}'' @ [CHR 0x27] @ '' in default value'')
        else default_value_end s insideString stringOpener (tl stack) (skip_spaces (tl p))
      else if cur_char p = CHR '','' \<and> stack = [] then Inr (insideString, stack, p)
      else default_value_end s insideString stringOpener stack (skip_spaces (tl p)))"
  by pat_completeness auto

lemma skip_tl_shorter: "cur_char p \<noteq> NUL \<Longrightarrow> length (skip_spaces (tl p)) < length p"
  using length_skip_spaces [of "tl p"] by (cases p) auto

lemma tl_shorter: "cur_char p \<noteq> NUL \<Longrightarrow> length (tl p) < length p"
  by (cases p) auto

lemma cur_char_pos: "cur_char p = c \<Longrightarrow> c \<noteq> NUL \<Longrightarrow> 0 < length p"
  by (cases p) auto

termination default_value_end
  by (relation "measure (\<lambda>(s, insideString, stringOpener, stack, p). length p)")
     (use cur_char_pos in \<open>force simp: skip_tl_shorter\<close>)+

declare default_value_end.simps [simp del]

subsection \<open>Arguments\<close>

record arg_state =
  as_insideString :: bool
  as_insideOptional :: bool
  as_optionalBlockFinished :: bool
  as_argumentProcessed :: bool
  as_pos :: string
  as_res :: fn_type

text \<open>The default value after \<open>=\<close>; \<open>p\<close> is behind the \<open>=\<close> and the spaces after it.\<close>

definition parse_default :: "string \<Rightarrow> bool \<Rightarrow> string \<Rightarrow> type_error + bool \<times> string \<times> string" where
  "parse_default s insideString p =
     (let startDefaultValue = p in
      case default_value_end s insideString NUL [] p of
        Inl err \<Rightarrow> Inl err
      | Inr (insideString, stack, p) \<Rightarrow>
          if stack \<noteq> [] then Inl (pdiff p s + 1, ''Unfinished default value, unmatched brackets'')
          else if cur_char p = NUL then Inl (pdiff p s + 1, ''Unterminated function type string'')
          else (let defaultValueLength = length startDefaultValue - length p in
                if 0 < defaultValueLength then Inr (insideString, take defaultValueLength startDefaultValue, p)
                else Inl (pdiff p s + 1, ''Expected default value after '' @ [CHR 0x27] @ ''='' @ [CHR 0x27])))"

text \<open>The branch of the argument loop for \<open>...\<close>.\<close>

definition ellipsis_step :: "string \<Rightarrow> arg_state \<Rightarrow> string \<Rightarrow> type_error + arg_state" where
  "ellipsis_step s st p =
     (let st = st\<lparr>as_argumentProcessed := True\<rparr>; res = as_res st in
      if ellipsisArgTypeMask res \<noteq> 0 then Inl (pdiff p s + 1, ''Multiple ellipsis arguments'')
      else
        (let p = skip_spaces (drop 3 p) in
         case (if cur_char p = CHR '':'' then
                 (let p = skip_spaces (tl p) in
                  case parse_type_mask p of
                    Inl (e, msg) \<Rightarrow> Inl (e + pdiff p s + 1, msg)
                  | Inr (m, p) \<Rightarrow> Inr (m, p))
               else Inr (- 1, p)) of
           Inl err \<Rightarrow> Inl err
         | Inr (m, p) \<Rightarrow>
             (let p = skip_spaces p in
              if cur_char p \<noteq> CHR '')'' \<and> cur_char p \<noteq> CHR '']'' then
                Inl (pdiff p s + 1, ''Expected '' @ [CHR 0x27] @ '')'' @ [CHR 0x27] @ '' after ellipsis argument'')
              else Inr (st\<lparr>as_pos := p, as_res := res\<lparr>ellipsisArgTypeMask := m\<rparr>\<rparr>))))"

text \<open>The type after an argument's name: \<open>any\<close> when there is none.\<close>

definition parse_arg_type :: "string \<Rightarrow> string \<Rightarrow> type_error + u32 \<times> string" where
  "parse_arg_type s p =
     (let p = skip_spaces p in
      if cur_char p = CHR '':'' then
        (let p = skip_spaces (tl p) in
         case parse_type_mask p of
           Inl (e, msg) \<Rightarrow> Inl (e + pdiff p s + 1, msg)
         | Inr (m, p) \<Rightarrow> Inr (m, p))
      else if cur_char p \<notin> {CHR '','', CHR '')'', CHR '']'', CHR ''['', CHR ''=''} then
        Inl (pdiff p s + 1, ''Expected '' @ [CHR 0x27] @ '':'' @ [CHR 0x27] @ '' after argument name'')
      else Inr (- 1, p))"

definition has_default_before :: "fn_type \<Rightarrow> bool" where
  "has_default_before res \<longleftrightarrow> defaultValues res \<noteq> [] \<and> last (defaultValues res) \<noteq> None"

text \<open>The optional \<open>=\<close> and default value.\<close>

definition arg_default :: "string \<Rightarrow> arg_state \<Rightarrow> string \<Rightarrow> type_error + bool \<times> string option \<times> string" where
  "arg_default s st p =
     (if cur_char p = CHR ''='' then
        (case parse_default s (as_insideString st) (skip_spaces (tl p)) of
           Inl err \<Rightarrow> Inl err
         | Inr (ins, dv, p) \<Rightarrow> Inr (ins, Some dv, p))
      else if \<not> as_insideOptional st \<and> has_default_before (as_res st) then
        Inl (pdiff p s + 1, ''Default value expected after optional argument'')
      else Inr (as_insideString st, None, p))"

definition push_argument :: "arg_state \<Rightarrow> string \<Rightarrow> u32 \<Rightarrow> string option \<Rightarrow> arg_state" where
  "push_argument st argName m defaultValue =
     (let res = as_res st in
      st\<lparr>as_res := res\<lparr>argNames := argNames res @ [argName], argTypeMask := argTypeMask res @ [m],
           defaultValues := defaultValues res @ [defaultValue],
           requiredArgs := (if \<not> as_insideOptional st \<and> defaultValue = None
                            then requiredArgs res + 1 else requiredArgs res)\<rparr>\<rparr>)"

definition end_argument :: "string \<Rightarrow> arg_state \<Rightarrow> string \<Rightarrow> type_error + arg_state" where
  "end_argument s st p =
     (let p = skip_spaces p in
      if cur_char p = CHR '','' then Inr (st\<lparr>as_pos := skip_spaces (tl p)\<rparr>)
      else if cur_char p \<noteq> CHR '')'' \<and> cur_char p \<noteq> CHR '']'' \<and> cur_char p \<noteq> CHR ''['' then
        Inl (pdiff p s + 1, ''Expected '' @ [CHR 0x27] @ '','' @ [CHR 0x27] @ '' or '' @ [CHR 0x27] @ '')'' @ [CHR 0x27])
      else Inr (st\<lparr>as_pos := p\<rparr>))"

text \<open>The rest of the loop body: an argument with its type and default value.\<close>

definition argument_step :: "string \<Rightarrow> arg_state \<Rightarrow> string \<Rightarrow> type_error + arg_state" where
  "argument_step s st p =
     (case parse_identifier p of
        None \<Rightarrow> Inl (pdiff p s + 1, ''Expected argument name'')
      | Some (argName, p) \<Rightarrow>
          (let st = st\<lparr>as_argumentProcessed := True\<rparr> in
           case parse_arg_type s p of
             Inl err \<Rightarrow> Inl err
           | Inr (m, p) \<Rightarrow>
               (case arg_default s st p of
                  Inl err \<Rightarrow> Inl err
                | Inr (ins, defaultValue, p) \<Rightarrow>
                    end_argument s (push_argument (st\<lparr>as_insideString := ins\<rparr>) argName m defaultValue) p)))"

text \<open>The body of \<open>while (*p != ')')\<close>.\<close>

definition arg_step :: "string \<Rightarrow> arg_state \<Rightarrow> type_error + arg_state" where
  "arg_step s st =
     (let p = skip_spaces (as_pos st) in
      if cur_char p = NUL then Inl (pdiff p s + 1, ''Unterminated argument list'')
      else if cur_char p = CHR ''['' then
        if as_insideOptional st then Inl (pdiff p s + 1, ''Nested optional blocks are not allowed'')
        else if as_optionalBlockFinished st then Inl (pdiff p s + 1, ''Optional block must be the last argument'')
        else Inr (st\<lparr>as_insideOptional := True, as_pos := skip_spaces (tl p)\<rparr>)
      else if cur_char p = CHR '']'' then
        if \<not> as_insideOptional st then Inl (pdiff p s + 1, ''Unmatched '' @ [CHR 0x27] @ '']'' @ [CHR 0x27])
        else Inr (st\<lparr>as_insideOptional := False, as_optionalBlockFinished := True, as_pos := skip_spaces (tl p)\<rparr>)
      else if cur_char p = CHR '','' then
        if \<not> as_argumentProcessed st then Inl (pdiff p s + 1, ''Argument expected before '' @ [CHR 0x27] @ '','' @ [CHR 0x27])
        else Inr (st\<lparr>as_argumentProcessed := False, as_pos := skip_spaces (tl p)\<rparr>)
      else if take 3 p = ''...'' then ellipsis_step s st p
      else if as_optionalBlockFinished st then Inl (pdiff p s + 1, ''Argument after optional block'')
      else argument_step s st p)"

subsection \<open>Progress\<close>

lemma type_names_shorter: "type_names s p m = Inr (m', p') \<Longrightarrow> length p' < length p"
proof (induction s p m rule: type_names.induct)
  case (1 s p m)
  from 1(2) obtain name q cur sg where q: "parse_identifier p = Some (name, q)"
    "sq_type_string_to_mask name = (Some cur, sg)"
    by (auto simp: type_names.simps [of s p] split: option.splits prod.splits)
  show ?case
  proof (cases "cur_char (skip_spaces q) = CHR ''|''")
    case True
    then have "length p' < length (skip_spaces (tl (skip_spaces q)))"
      using 1 q by (simp add: type_names.simps [of s p])
    then show ?thesis using parse_identifier_skip [OF q(1)] by simp
  next
    case False
    then have "p' = skip_spaces q" using 1(2) q by (simp add: type_names.simps [of s p])
    then show ?thesis using parse_identifier_shorter [OF q(1)] length_skip_spaces [of q] by simp
  qed
qed

lemma length_skip_tl: "length (skip_spaces (tl p)) \<le> length p"
  using length_skip_spaces [of "tl p"] by simp

lemma parse_type_mask_shorter:
  assumes "parse_type_mask p = Inr (m, p')"
  shows "length p' < length p"
proof -
  let ?q = "if cur_char (skip_spaces p) = CHR ''('' then skip_spaces (tl (skip_spaces p)) else skip_spaces p"
  obtain r where r: "type_names p ?q 0 = Inr (m, r)" "length p' \<le> length r"
    using assms length_skip_tl by (auto simp: parse_type_mask_def Let_def split: sum.splits if_splits)
  have "length ?q \<le> length p" using length_skip_spaces [of p] length_skip_tl_skip [of p] by simp
  with type_names_shorter [OF r(1)] r(2) show ?thesis by simp
qed

lemma default_value_end_shorter:
  "default_value_end s ins so st p = Inr (ins', st', p') \<Longrightarrow> length p' \<le> length p"
proof (induction p arbitrary: ins so st rule: measure_induct_rule [of length])
  case (less p)
  show ?case
  proof (cases "cur_char p = NUL")
    case True
    then show ?thesis using less.prems by (simp add: default_value_end.simps [of s ins so st p])
  next
    case False
    then have q: "length (skip_spaces (tl p)) < length p" "length (tl p) < length p" "length (tl (tl p)) < length p"
      using skip_tl_shorter tl_shorter [of p] by auto
    have IH: "length p' \<le> length p" if "default_value_end s i o' st2 q = Inr (ins', st', p')"
        "q \<in> {skip_spaces (tl p), tl p, tl (tl p)}" for i o' st2 q
      using less.IH [OF _ that(1)] that(2) q by fastforce
    show ?thesis
      using less.prems False unfolding default_value_end.simps [of s ins so st p]
      by (auto split: if_splits dest: IH)
  qed
qed

lemma parse_default_shorter: "parse_default s ins p = Inr (ins', dv, p') \<Longrightarrow> length p' \<le> length p"
  by (auto simp: parse_default_def Let_def split: sum.splits if_splits dest: default_value_end_shorter)

lemma parse_arg_type_shorter: "parse_arg_type s p = Inr (m, p') \<Longrightarrow> length p' \<le> length p"
  using length_skip_spaces [of p] length_skip_tl_skip [of p]
  by (auto simp: parse_arg_type_def Let_def split: sum.splits if_splits dest!: parse_type_mask_shorter)

lemma take3_Cons: "take 3 p = ''...'' \<Longrightarrow> length (drop 3 p) < length p"
  by (cases p) auto

lemma ellipsis_step_shorter:
  assumes "ellipsis_step s st p = Inr st'" "take 3 p = ''...''"
  shows "length (as_pos st') < length p"
proof -
  let ?q = "skip_spaces (drop 3 p)"
  have q: "length ?q < length p"
    using length_skip_spaces [of "drop 3 p"] take3_Cons [OF assms(2)] by simp
  from assms(1) obtain r where r: "as_pos st' = skip_spaces r"
    "r = ?q \<or> (\<exists>m. parse_type_mask (skip_spaces (tl ?q)) = Inr (m, r))"
    by (auto simp: ellipsis_step_def Let_def split: sum.splits if_splits)
  have "length r \<le> length ?q"
    using r(2) length_skip_tl [of ?q] by (auto dest!: parse_type_mask_shorter)
  with r(1) q length_skip_spaces [of r] show ?thesis by simp
qed

lemma arg_default_shorter: "arg_default s st p = Inr (ins, dv, p') \<Longrightarrow> length p' \<le> length p"
  using length_skip_tl [of p]
  by (auto simp: arg_default_def split: if_splits sum.splits dest!: parse_default_shorter)

lemma end_argument_shorter: "end_argument s st p = Inr st' \<Longrightarrow> length (as_pos st') \<le> length p"
  using length_skip_spaces [of p] length_skip_tl_skip [of p]
  by (auto simp: end_argument_def Let_def split: if_splits)

lemma argument_step_shorter:
  assumes "argument_step s st p = Inr st'"
  shows "length (as_pos st') < length p"
proof -
  obtain name q where q: "parse_identifier p = Some (name, q)"
    using assms by (auto simp: argument_step_def split: option.splits)
  obtain m r where r: "parse_arg_type s q = Inr (m, r)"
    using assms q by (auto simp: argument_step_def Let_def split: sum.splits)
  obtain st1 ins dv t st2 where t: "arg_default s st1 r = Inr (ins, dv, t)" "end_argument s st2 t = Inr st'"
    using assms q r by (auto simp: argument_step_def Let_def split: sum.splits)
  show ?thesis
    using end_argument_shorter [OF t(2)] arg_default_shorter [OF t(1)] parse_arg_type_shorter [OF r]
      parse_identifier_shorter [OF q] by simp
qed

lemma arg_step_shorter: "arg_step s st = Inr st' \<Longrightarrow> length (as_pos st') < length (as_pos st)"
proof -
  assume "arg_step s st = Inr st'"
  then have "cur_char (skip_spaces (as_pos st)) \<noteq> NUL" 
    and "as_pos st' = skip_spaces (tl (skip_spaces (as_pos st))) \<or>
      length (as_pos st') < length (skip_spaces (as_pos st))"
    by (auto simp: arg_step_def Let_def split: if_splits dest: ellipsis_step_shorter argument_step_shorter)
  then show ?thesis
    using skip_tl_shorter [of "skip_spaces (as_pos st)"] length_skip_spaces [of "as_pos st"] by auto
qed

text \<open>\<open>while (*p != ')')\<close>\<close>

function arg_loop :: "string \<Rightarrow> arg_state \<Rightarrow> type_error + arg_state" where
  "arg_loop s st =
     (if cur_char (as_pos st) = CHR '')'' then Inr st
      else case arg_step s st of Inl err \<Rightarrow> Inl err | Inr st' \<Rightarrow> arg_loop s st')"
  by pat_completeness auto
termination
  by (relation "measure (\<lambda>(s, st). length (as_pos st))") (auto simp: arg_step_shorter)

declare arg_loop.simps [simp del]

subsection \<open>The whole type string\<close>

definition parse_return_type :: "string \<Rightarrow> string \<Rightarrow> fn_type \<Rightarrow> type_error + string \<times> fn_type" where
  "parse_return_type s p res =
     (if cur_char p = CHR '':'' then
        (let p = skip_spaces (tl p) in
         case parse_type_mask p of
           Inl (e, msg) \<Rightarrow> Inl (e + pdiff p s + 1, msg)
         | Inr (m, p) \<Rightarrow> Inr (p, res\<lparr>returnTypeMask := m\<rparr>))
      else Inr (p, res))"

definition sq_parse_function_type_string :: "string \<Rightarrow> fn_type \<Rightarrow> type_error + fn_type" where
  "sq_parse_function_type_string s res =
     (if s = [] then Inl (1, ''Empty function type string'')
      else
        (let p = skip_spaces s;
             res = res\<lparr>objectTypeMask := - 1, returnTypeMask := RT_NULL, requiredArgs := 0,
                       ellipsisArgTypeMask := 0, argNames := [], argTypeMask := []\<rparr>;
             (p, res) = parse_attributes p res
         in case parse_function_name s p res of
              Inl err \<Rightarrow> Inl err
            | Inr (p, res) \<Rightarrow>
                (let p = skip_spaces p in
                 if cur_char p \<noteq> CHR ''('' then
                   Inl (pdiff p s + 1, ''Expected '' @ [CHR 0x27] @ ''('' @ [CHR 0x27] @ '' after function name'')
                 else
                   (case arg_loop s \<lparr>as_insideString = False, as_insideOptional = False,
                          as_optionalBlockFinished = False, as_argumentProcessed = False,
                          as_pos = skip_spaces (tl p), as_res = res\<rparr> of
                      Inl err \<Rightarrow> Inl err
                    | Inr st \<Rightarrow>
                        (let p = as_pos st in
                         if as_insideOptional st then Inl (pdiff p s + 1, ''Unmatched '' @ [CHR 0x27] @ ''['' @ [CHR 0x27])
                         else if as_insideString st then Inl (pdiff p s + 1, ''Unterminated string in function type'')
                         else
                           (case parse_return_type s (skip_spaces (tl p)) (as_res st) of
                              Inl err \<Rightarrow> Inl err
                            | Inr (p, res) \<Rightarrow>
                                (let p = skip_spaces p in
                                 if cur_char p \<noteq> NUL then Inl (pdiff p s + 1, ''Unexpected characters after function type string'')
                                 else Inr res)))))))"

subsection \<open>Printing\<close>

text \<open>\<open>append\<close>: copies while there is room for \<open>cap\<close> characters in the buffer.\<close>

definition append_buf :: "nat \<Rightarrow> string \<Rightarrow> string \<Rightarrow> string" where
  "append_buf cap buf str = buf @ take (cap - length buf) str"

fun append_names :: "nat \<Rightarrow> (string list \<times> u32) list \<Rightarrow> string \<Rightarrow> bool \<Rightarrow> u32 \<Rightarrow> string" where
  "append_names cap [] buf first m = buf"
| "append_names cap ((names, typeMask) # decls) buf first m =
     (if m AND typeMask = typeMask then
        (let buf = (if first then buf else append_buf cap buf ''|'') in
         append_names cap decls (append_buf cap buf (hd names)) False (m AND NOT typeMask))
      else append_names cap decls buf first m)"

definition append_type_mask :: "nat \<Rightarrow> string \<Rightarrow> u32 \<Rightarrow> string" where
  "append_type_mask cap buf m =
     (if m = - 1 then append_buf cap buf ''any'' else append_names cap rawTypeDecls buf True m)"

definition closure_mask :: "u32 \<Rightarrow> u32" where
  "closure_mask m =
     (if m AND RT_CLOSURE \<noteq> 0 \<or> m AND RT_NATIVECLOSURE \<noteq> 0 then m OR RT_CLOSURE OR RT_NATIVECLOSURE else m)"

definition sq_stringify_type_mask :: "nat \<Rightarrow> u32 \<Rightarrow> string" where
  "sq_stringify_type_mask buffer_length m = append_type_mask (buffer_length - 1) [] (closure_mask m)"

text \<open>The argument loop of the printer, from index \<open>i\<close> on.\<close>

fun append_args :: "nat \<Rightarrow> int \<Rightarrow> nat \<Rightarrow> (string \<times> u32 \<times> string option) list \<Rightarrow> string \<Rightarrow> string" where
  "append_args cap req i [] buf = buf"
| "append_args cap req i ((name, m, dv) # rest) buf =
     (let buf = (if 0 < i then append_buf cap buf '', '' else buf);
          buf = (if int i = req then append_buf cap buf ''['' else buf);
          buf = append_buf cap buf name;
          buf = (if m \<noteq> - 1 then append_type_mask cap (append_buf cap buf '': '') m else buf);
          buf = (case dv of None \<Rightarrow> buf | Some d \<Rightarrow> append_buf cap (append_buf cap buf '' = '') d)
      in append_args cap req (Suc i) rest buf)"

definition append_if :: "nat \<Rightarrow> bool \<Rightarrow> string \<Rightarrow> string \<Rightarrow> string" where
  "append_if cap b str buf = (if b then append_buf cap buf str else buf)"

definition append_object_type :: "nat \<Rightarrow> u32 \<Rightarrow> string \<Rightarrow> string" where
  "append_object_type cap m buf =
     (if m \<noteq> - 1 then
        (let isComplexType = (m \<notin> set (map snd rawTypeDecls));
             buf = append_if cap isComplexType ''('' buf;
             buf = append_type_mask cap buf m;
             buf = append_if cap isComplexType '')'' buf
         in append_buf cap buf ''.'')
      else buf)"

definition append_ellipsis :: "nat \<Rightarrow> fn_type \<Rightarrow> string \<Rightarrow> string" where
  "append_ellipsis cap ft buf =
     (if ellipsisArgTypeMask ft \<noteq> 0 then
        (let buf = append_if cap (argNames ft \<noteq> []) '', '' buf;
             buf = append_buf cap buf ''...''
         in if ellipsisArgTypeMask ft \<noteq> - 1
            then append_type_mask cap (append_buf cap buf '': '') (ellipsisArgTypeMask ft) else buf)
      else buf)"

definition append_return_type :: "nat \<Rightarrow> u32 \<Rightarrow> string \<Rightarrow> string" where
  "append_return_type cap m buf =
     (if m \<noteq> RT_NULL then append_type_mask cap (append_buf cap buf '': '') m else buf)"

definition sq_stringify_function_type :: "fn_type \<Rightarrow> string option" where
  "sq_stringify_function_type ft =
     (case functionName ft of None \<Rightarrow> None | Some fname \<Rightarrow>
       (let cap = 2048 - 1;
            buf = append_if cap (is_pure ft) ''pure '' [];
            buf = append_if cap (is_nodiscard ft) ''nodiscard '' buf;
            buf = append_object_type cap (objectTypeMask ft) buf;
            buf = append_buf cap buf fname;
            buf = append_buf cap buf ''('';
            buf = append_args cap (requiredArgs ft) 0
                    (zip (argNames ft) (zip (argTypeMask ft) (defaultValues ft))) buf;
            buf = append_if cap (requiredArgs ft < int (length (argNames ft))) '']'' buf;
            buf = append_ellipsis cap ft buf;
            buf = append_buf cap buf '')'';
            buf = append_return_type cap (returnTypeMask ft) buf
        in Some buf))"

end
