(* ===== verification/TypeParserProps.thy ===== *)
theory TypeParserProps
  imports TypeParser
begin

text \<open>
  What the type strings promise: printing a mask and parsing it again gives the mask, a
  printed function type parses to the same function type, the printer never writes outside
  its buffer, error positions lie in the string.
\<close>

subsection \<open>The printer without a buffer\<close>

fun bars :: "bool \<Rightarrow> string list \<Rightarrow> string" where
  "bars first [] = []"
| "bars first (n # ns) = (if first then [] else ''|'') @ n @ bars False ns"

fun taken :: "(string list \<times> u32) list \<Rightarrow> u32 \<Rightarrow> (string \<times> u32) list" where
  "taken [] m = []"
| "taken ((names, typeMask) # decls) m =
     (if m AND typeMask = typeMask then (hd names, typeMask) # taken decls (m AND NOT typeMask) else taken decls m)"

definition mask_text :: "u32 \<Rightarrow> string" where
  "mask_text m = (if m = - 1 then ''any'' else bars True (map fst (taken rawTypeDecls m)))"

lemma append_buf_take: "append_buf cap (take cap u) str = take cap (u @ str)"
  by (simp add: append_buf_def min_def)

lemma append_names_take:
  "append_names cap decls (take cap u) first m = take cap (u @ bars first (map fst (taken decls m)))"
proof (induction decls m arbitrary: u first rule: taken.induct)
  case (1 m)
  then show ?case by simp
next
  case (2 names typeMask decls m)
  then show ?case by (simp add: append_buf_take Let_def del: take_append)
qed

lemma append_type_mask_take: "append_type_mask cap (take cap u) m = take cap (u @ mask_text m)"
  by (simp add: append_type_mask_def mask_text_def append_buf_take append_names_take del: take_append)

fun args_text :: "int \<Rightarrow> nat \<Rightarrow> (string \<times> u32 \<times> string option) list \<Rightarrow> string" where
  "args_text req i [] = []"
| "args_text req i ((name, m, dv) # rest) =
     (if 0 < i then '', '' else []) @ (if int i = req then ''['' else []) @ name @
     (if m \<noteq> - 1 then '': '' @ mask_text m else []) @
     (case dv of None \<Rightarrow> [] | Some d \<Rightarrow> '' = '' @ d) @ args_text req (Suc i) rest"

lemma append_args_take:
  "append_args cap req i args (take cap u) = take cap (u @ args_text req i args)"
proof (induction req i args arbitrary: u rule: args_text.induct)
  case (1 req i)
  then show ?case by simp
next
  case (2 req i name m dv rest)
  then show ?case
    by (cases dv) (auto simp add: append_buf_take append_type_mask_take Let_def simp del: take_append)
qed

definition fn_args :: "fn_type \<Rightarrow> (string \<times> u32 \<times> string option) list" where
  "fn_args ft = zip (argNames ft) (zip (argTypeMask ft) (defaultValues ft))"

definition object_text :: "u32 \<Rightarrow> string" where
  "object_text m =
     (if m = - 1 then []
      else if m \<in> set (map snd rawTypeDecls) then mask_text m @ ''.'' else ''('' @ mask_text m @ '').'')"

definition ellipsis_text :: "u32 \<Rightarrow> string" where
  "ellipsis_text m = ''...'' @ (if m \<noteq> - 1 then '': '' @ mask_text m else [])"

definition ellipsis_end :: "fn_type \<Rightarrow> string" where
  "ellipsis_end ft =
     (if ellipsisArgTypeMask ft \<noteq> 0
      then (if argNames ft \<noteq> [] then '', '' else []) @ ellipsis_text (ellipsisArgTypeMask ft) else [])"

definition args_end :: "fn_type \<Rightarrow> string" where
  "args_end ft =
     (if requiredArgs ft < int (length (argNames ft)) then '']'' else []) @ ellipsis_end ft @ '')''"

definition return_text :: "u32 \<Rightarrow> string" where
  "return_text m = (if m \<noteq> RT_NULL then '': '' @ mask_text m else [])"

definition fn_type_text :: "fn_type \<Rightarrow> string \<Rightarrow> string" where
  "fn_type_text ft fname =
     (if is_pure ft then ''pure '' else []) @ (if is_nodiscard ft then ''nodiscard '' else []) @
     object_text (objectTypeMask ft) @ fname @ ''('' @ args_text (requiredArgs ft) 0 (fn_args ft) @
     args_end ft @ return_text (returnTypeMask ft)"

lemma append_if_take: "append_if cap b str (take cap u) = take cap (u @ (if b then str else []))"
  by (simp add: append_if_def append_buf_take del: take_append)

lemma append_object_take: "append_object_type cap m (take cap u) = take cap (u @ object_text m)"
  by (simp add: append_object_type_def object_text_def Let_def append_if_take append_buf_take
      append_type_mask_take del: take_append)

lemma append_ellipsis_take: "append_ellipsis cap ft (take cap u) = take cap (u @ ellipsis_end ft)"
  by (simp add: append_ellipsis_def ellipsis_end_def ellipsis_text_def Let_def append_if_take append_buf_take
      append_type_mask_take del: take_append)

lemma append_return_take: "append_return_type cap m (take cap u) = take cap (u @ return_text m)"
  by (simp add: append_return_type_def return_text_def append_buf_take append_type_mask_take del: take_append)

lemma append_if_Nil: "append_if cap b str [] = take cap (if b then str else [])"
  by (simp add: append_if_def append_buf_def)

lemmas buf_take = append_buf_take append_args_take append_if_take append_object_take append_ellipsis_take
  append_return_take append_if_Nil

text \<open>The printer of a function type writes exactly the first 2047 characters of the type's text: it never leaves its 2048-byte buffer, and it cuts a longer text off.\<close>

theorem sq_stringify_function_type_text:
  "sq_stringify_function_type ft = map_option (\<lambda>fname. take 2047 (fn_type_text ft fname)) (functionName ft)"
proof (cases "functionName ft")
  case None
  then show ?thesis by (simp add: sq_stringify_function_type_def)
next
  case (Some fname)
  show ?thesis
    unfolding sq_stringify_function_type_def Some option.case Let_def buf_take
    by (simp add: fn_type_text_def args_end_def fn_args_def del: take_append)
qed

subsection \<open>Masks\<close>

text \<open>The union of the masks of the names printed, and the masks that survive printing.\<close>

fun mask_union :: "u32 list \<Rightarrow> u32" where
  "mask_union [] = 0"
| "mask_union (m # ms) = m OR mask_union ms"

definition atoms :: "u32 list" where
  "atoms = [RT_BOOL, RT_INTEGER, RT_FLOAT, RT_STRING, RT_TABLE, RT_ARRAY, RT_USERDATA,
     RT_CLOSURE OR RT_NATIVECLOSURE, RT_GENERATOR, RT_USERPOINTER, RT_THREAD, RT_INSTANCE,
     RT_CLASS, RT_WEAKREF, RT_NULL]"

definition printable_mask :: "u32 \<Rightarrow> bool" where
  "printable_mask m \<longleftrightarrow> m = - 1 \<or>
     (m \<noteq> 0 \<and> m AND NOT 0x1DFFF = 0 \<and> (m AND RT_CLOSURE = 0 \<longleftrightarrow> m AND RT_NATIVECLOSURE = 0))"

lemma atoms_union: "mask_union atoms = 0x1DFFF"
  by (simp add: atoms_def RT_defs)

lemma atoms_in_decls: "a \<in> set atoms \<Longrightarrow> a \<in> set (map snd rawTypeDecls)"
  unfolding atoms_def rawTypeDecls_def by auto

lemma atoms_laminar:
  "a \<in> set atoms \<Longrightarrow> e \<in> set (map snd rawTypeDecls) \<Longrightarrow> a AND e = 0 \<or> a AND e = a"
  unfolding atoms_def rawTypeDecls_def by (auto simp: RT_defs)

lemma taken_below:
  "m \<noteq> - 1 \<Longrightarrow> mask_union (map snd (taken decls m)) AND m = mask_union (map snd (taken decls m))"
proof (induction decls m rule: taken.induct)
  case (1 m)
  then show ?case by simp
next
  case (2 names e decls m)
  show ?case
  proof (cases "m AND e = e")
    case True
    show ?thesis
    proof (cases "m AND NOT e = - 1")
      case True
      then have "m = - 1" by (metis and.assoc and.right_idem and_eq_minus_1_iff)
      with 2 show ?thesis by simp
    next
      case False
      from 2(1) [OF True this]
      have "bit (mask_union (map snd (taken decls (m AND NOT e)))) n \<Longrightarrow> bit m n" for n
        by (metis bit_and_iff)
      moreover have "bit e n \<Longrightarrow> bit m n" for n using True by (metis bit_and_iff)
      ultimately show ?thesis using True by (auto intro!: bit_eqI simp: bit_and_iff bit_or_iff)
    qed
  qed (use 2 in simp)
qed

lemma taken_atom:
  assumes "\<And>e. e \<in> set (map snd decls) \<Longrightarrow> a AND e = 0 \<or> a AND e = a"
    "a \<in> set (map snd decls)" "m AND a = 0 \<or> m AND a = a"
  shows "mask_union (map snd (taken decls m)) AND a = m AND a"
  using assms
proof (induction decls m rule: taken.induct)
  case (1 m)
  then show ?case by simp
next
  case (2 names e decls m)
  let ?U = "\<lambda>m. mask_union (map snd (taken decls m))"
  show ?case
  proof (cases "m AND e = e")
    case True
    have U: "mask_union (map snd (taken ((names, e) # decls) m)) AND a = (e AND a) OR (?U (m AND NOT e) AND a)"
      using True by (intro bit_eqI) (auto simp: bit_and_iff bit_or_iff)
    consider "a AND e = 0" | "a AND e = a" using "2.prems"(1) [of e] by auto
    then show ?thesis
    proof cases
      case 1
      have ma: "(m AND NOT e) AND a = m AND a"
      proof (rule bit_eqI)
        fix n
        have "\<not> (bit a n \<and> bit e n)" using arg_cong [OF 1, of "\<lambda>w. bit w n"] by (simp add: bit_and_iff)
        then show "bit ((m AND NOT e) AND a) n = bit (m AND a) n"
          by (auto simp: bit_and_iff bit_not_iff dest: bit_imp_le_length)
      qed
      have "?U (m AND NOT e) AND a = m AND a"
      proof (cases "a \<in> set (map snd decls)")
        case True
        from "2.IH"(1) [OF \<open>m AND e = e\<close> _ True] "2.prems"(1,3) ma show ?thesis by auto
      next
        case False
        then have "a = 0" using 1 "2.prems"(2) by simp
        then show ?thesis by simp
      qed
      with U 1 show ?thesis by (simp add: and.commute)
    next
      case 2
      have "m AND a = a" using True 2 by (metis and.assoc and.commute)
      with U 2 show ?thesis
        by (intro bit_eqI) (auto simp: bit_and_iff bit_or_iff and.commute)
    qed
  next
    case False
    show ?thesis
    proof (cases "a \<in> set (map snd decls)")
      case True
      from "2.IH"(2) [OF False _ True] "2.prems"(1,3) False show ?thesis by auto
    next
      case nin: False
      then have "a = e" using "2.prems"(2) by simp
      with "2.prems"(3) False have m0: "m AND a = 0" by simp
      have "m \<noteq> - 1" using False by auto
      from taken_below [OF this, of decls] m0 False have "?U m AND a = 0"
        by (metis and.assoc and_zero_eq)
      with False m0 show ?thesis by simp
    qed
  qed
qed

lemma and_union_eqI:
  "(\<And>a. a \<in> set as \<Longrightarrow> x AND a = y AND a) \<Longrightarrow> x AND mask_union as = y AND mask_union as"
proof (induction as)
  case Nil
  then show ?case by simp
next
  case (Cons b bs)
  have "x AND b = y AND b" "x AND mask_union bs = y AND mask_union bs" using Cons by auto
  then show ?case by (simp add: bit.conj_disj_distrib)
qed

lemma and_mask_eq:
  assumes "(m :: u32) AND NOT k = 0"
  shows "m AND k = m"
proof (rule bit_eqI)
  fix n
  show "bit (m AND k) n = bit m n"
    using arg_cong [OF assms, of "\<lambda>w. bit w n"] by (auto simp: bit_and_iff bit_not_iff dest: bit_imp_le_length)
qed

lemma and_single_bit: "(m :: u32) AND 2 ^ k = 0 \<or> m AND 2 ^ k = 2 ^ k"
proof (cases "bit m k")
  case True
  then have "m AND 2 ^ k = 2 ^ k" by (intro bit_eqI) (auto simp: bit_and_iff bit_exp_iff)
  then show ?thesis ..
next
  case False
  then have "m AND 2 ^ k = 0" by (intro bit_eqI) (auto simp: bit_and_iff bit_exp_iff)
  then show ?thesis ..
qed

lemma and_squeeze:
  assumes "(u :: u32) AND m = u" "u AND k = m AND k" "m AND k = m"
  shows "u = m"
proof -
  have "u = u AND (m AND k)" using assms(1,3) by simp
  also have "\<dots> = (u AND m) AND k" by (simp only: and.assoc)
  also have "\<dots> = m" using assms by simp
  finally show ?thesis .
qed

lemma taken_printable:
  assumes "printable_mask m" "m \<noteq> - 1"
  shows "mask_union (map snd (taken rawTypeDecls m)) = m"
proof -
  let ?U = "mask_union (map snd (taken rawTypeDecls m))"
  have below: "?U AND m = ?U" by (rule taken_below [OF assms(2)])
  have dis: "m AND a = 0 \<or> m AND a = a" if "a \<in> set atoms" for a
  proof (cases "a = RT_CLOSURE OR RT_NATIVECLOSURE")
    case True
    have "m AND RT_CLOSURE = 0 \<or> m AND RT_CLOSURE = RT_CLOSURE"
      "m AND RT_NATIVECLOSURE = 0 \<or> m AND RT_NATIVECLOSURE = RT_NATIVECLOSURE"
      using and_single_bit [of m 8] and_single_bit [of m 9] by (simp_all add: RT_defs)
    then show ?thesis using assms True by (auto simp: printable_mask_def bit.conj_disj_distrib)
  next
    case False
    then have "a \<in> set (map (\<lambda>k. 2 ^ k) [0..<17])"
      using that by (auto simp: atoms_def RT_defs upt_rec)
    then show ?thesis using and_single_bit by auto
  qed
  have "?U AND a = m AND a" if "a \<in> set atoms" for a
    using atoms_laminar [OF that] atoms_in_decls [OF that] dis [OF that] by (intro taken_atom) auto
  then have "?U AND 0x1DFFF = m AND 0x1DFFF"
    using and_union_eqI [of atoms ?U m] by (simp add: atoms_union)
  moreover have "m AND 0x1DFFF = m"
  proof (rule and_mask_eq)
    from assms(1) show "m AND NOT 0x1DFFF = 0"
      unfolding printable_mask_def by (rule disjE) (use assms(2) in \<open>simp only: simp_thms\<close>)+
  qed
  ultimately show ?thesis by (rule and_squeeze [OF below])
qed

subsection \<open>Parsing what the printer prints\<close>

lemma type_names_known:
  "n \<in> set (map (hd \<circ> fst) rawTypeDecls) \<Longrightarrow>
   n \<noteq> [] \<and> list_all is_id_char n \<and> (sq_isalpha (schar (hd n)) \<or> hd n = CHR ''_'')"
  unfolding rawTypeDecls_def by (auto simp: is_id_char_def sq_eval)

lemma type_search_found:
  "(names, m) \<in> set decls \<Longrightarrow> distinct (map (hd \<circ> fst) decls) \<Longrightarrow>
   \<exists>sg'. type_search (hd names) decls sg = (Some m, sg')"
proof (induction decls arbitrary: sg)
  case (Cons d decls)
  then show ?case by (cases d) (force simp: image_iff)
qed simp

lemma decl_found: "(names, m) \<in> set rawTypeDecls \<Longrightarrow> \<exists>sg. sq_type_string_to_mask (hd names) = (Some m, sg)"
  unfolding sq_type_string_to_mask_def by (rule type_search_found) (simp_all add: rawTypeDecls_def)

definition is_ident :: "string \<Rightarrow> bool" where
  "is_ident n \<longleftrightarrow> n \<noteq> [] \<and> list_all is_id_char n \<and> (sq_isalpha (schar (hd n)) \<or> hd n = CHR ''_'')"

lemma takeWhile_stop:
  "list_all P n \<Longrightarrow> rest = [] \<or> \<not> P (hd rest) \<Longrightarrow> takeWhile P (n @ rest) = n \<and> dropWhile P (n @ rest) = rest"
  by (induction n) (auto, (cases rest; simp)+)

lemma not_id_NUL [simp]: "\<not> is_id_char NUL"
  by (simp add: is_id_char_def)

lemma cur_char_hd: "s \<noteq> [] \<Longrightarrow> cur_char s = hd s"
  by (cases s) simp_all

lemma parse_identifier_append:
  assumes "is_ident n" "\<not> is_id_char (cur_char rest)"
  shows "parse_identifier (n @ rest) = Some (n, rest)"
proof -
  obtain c n' where n: "n = c # n'" using assms(1) by (cases n) (auto simp: is_ident_def)
  have "rest = [] \<or> \<not> is_id_char (hd rest)" using assms(2) cur_char_hd [of rest] by auto
  with takeWhile_stop [of is_id_char n' rest] assms(1) n show ?thesis
    by (auto simp: parse_identifier_def is_ident_def)
qed

lemma skip_spaces_stop: "\<not> sq_isspace (schar (cur_char s)) \<Longrightarrow> skip_spaces s = s"
  by (cases s) (simp_all add: skip_spaces_def)

lemma skip_spaces_blank: "skip_spaces (CHR '' '' # s) = skip_spaces s"
  by (simp add: skip_spaces_def sq_eval)

lemma id_char_not_space: "is_id_char c \<Longrightarrow> \<not> sq_isspace (schar c)"
  by (auto simp: is_id_char_def alnum_not_space sq_eval)

lemma ident_skip: "is_ident n \<Longrightarrow> skip_spaces (n @ rest) = n @ rest"
  by (rule skip_spaces_stop) (cases n; auto simp: is_ident_def id_char_not_space)

lemma punct_facts [simp]:
  "\<not> is_id_char CHR ''|''" "\<not> is_id_char CHR ''(''" "\<not> is_id_char CHR '')''" "\<not> is_id_char CHR ''.''"
  "\<not> is_id_char CHR '',''" "\<not> is_id_char CHR '':''" "\<not> is_id_char CHR ''[''" "\<not> is_id_char CHR '']''"
  "\<not> is_id_char CHR '' ''"
  "skip_spaces (CHR ''|'' # s) = CHR ''|'' # s" "skip_spaces (CHR ''('' # s) = CHR ''('' # s"
  "skip_spaces (CHR '')'' # s) = CHR '')'' # s" "skip_spaces (CHR ''.'' # s) = CHR ''.'' # s"
  "skip_spaces (CHR '','' # s) = CHR '','' # s" "skip_spaces (CHR '':'' # s) = CHR '':'' # s"
  "skip_spaces (CHR ''['' # s) = CHR ''['' # s" "skip_spaces (CHR '']'' # s) = CHR '']'' # s"
  "skip_spaces [] = []" "skip_spaces (CHR '' '' # s) = skip_spaces s"
  by (simp_all add: is_id_char_def skip_spaces_def sq_eval)

lemma decl_ident: "(names, m) \<in> set rawTypeDecls \<Longrightarrow> is_ident (hd names)"
  using type_names_known [of "hd names"] unfolding is_ident_def by force

text \<open>What may follow a mask: no letter or digit, no further bar.\<close>

definition ends_mask :: "string \<Rightarrow> bool" where
  "ends_mask rest \<longleftrightarrow> \<not> is_id_char (cur_char rest) \<and> cur_char (skip_spaces rest) \<noteq> CHR ''|''"

lemma type_names_bars:
  assumes "ends_mask rest" "ds \<noteq> []"
    "\<forall>(n, m) \<in> set ds. is_ident n \<and> (\<exists>sg. sq_type_string_to_mask n = (Some m, sg))"
  shows "type_names s (bars True (map fst ds) @ rest) acc =
     Inr (acc OR mask_union (map snd ds), skip_spaces rest)"
  using assms(2,3)
proof (induction ds arbitrary: acc)
  case Nil
  then show ?case by simp
next
  case (Cons d ds)
  obtain n m where d: "d = (n, m)" by (cases d)
  obtain sg where n: "is_ident n" "sq_type_string_to_mask n = (Some m, sg)"
    using Cons.prems(2) d by auto
  have IH: "ds \<noteq> [] \<Longrightarrow> type_names s (bars True (map fst ds) @ rest) acc' =
     Inr (acc' OR mask_union (map snd ds), skip_spaces rest)" for acc'
    using Cons.IH Cons.prems(2) by simp
  have skip: "ds \<noteq> [] \<Longrightarrow> skip_spaces (bars True (map fst ds) @ rest) = bars True (map fst ds) @ rest"
    using Cons.prems(2) by (cases ds) (auto simp: ident_skip)
  show ?case
  proof (cases ds)
    case Nil
    have "parse_identifier (n @ rest) = Some (n, rest)"
      using parse_identifier_append n(1) assms(1) by (simp add: ends_mask_def)
    then show ?thesis using Nil d n(2) assms(1)
      by (simp add: type_names.simps [of s "n @ rest"] ends_mask_def Let_def)
  next
    case (Cons e es)
    have b: "bars False (map fst ds) @ rest = CHR ''|'' # bars True (map fst ds) @ rest"
      using Cons by simp
    have "parse_identifier (n @ bars False (map fst ds) @ rest) = Some (n, bars False (map fst ds) @ rest)"
      using parse_identifier_append [OF n(1)] b by simp
    with b have pid: "parse_identifier (n @ CHR ''|'' # bars True (map fst ds) @ rest) =
        Some (n, CHR ''|'' # bars True (map fst ds) @ rest)" by simp
    have whole: "bars True (map fst (d # ds)) @ rest = n @ CHR ''|'' # bars True (map fst ds) @ rest"
      using b d by simp
    have ne: "ds \<noteq> []" using Cons by simp
    show ?thesis
      unfolding whole type_names.simps [of s "n @ CHR ''|'' # bars True (map fst ds) @ rest"] pid
      using d n(2) IH [OF ne] skip [OF ne] by (simp add: Let_def or.assoc)
  qed
qed

lemma taken_subset: "set (taken decls m) \<subseteq> (\<lambda>(names, m). (hd names, m)) ` set decls"
proof (induction decls m rule: taken.induct)
  case (2 names typeMask decls m)
  then show ?case by auto
qed simp

lemma taken_known:
  "\<forall>(n, m') \<in> set (taken rawTypeDecls m). is_ident n \<and> (\<exists>sg. sq_type_string_to_mask n = (Some m', sg))"
  using taken_subset [of rawTypeDecls m] decl_ident decl_found by fastforce

lemma any_decl: "([''any''], - 1) \<in> set rawTypeDecls"
  by (simp add: rawTypeDecls_def)

lemma taken_ne: "printable_mask m \<Longrightarrow> m \<noteq> - 1 \<Longrightarrow> taken rawTypeDecls m \<noteq> []"
  using taken_printable [of m] by (auto simp: printable_mask_def)

lemma mask_text_bars:
  "\<exists>ds. ds \<noteq> [] \<and> mask_text m = bars True (map fst ds) \<and> mask_union (map snd ds) = m \<and>
     (\<forall>(n, m') \<in> set ds. is_ident n \<and> (\<exists>sg. sq_type_string_to_mask n = (Some m', sg)))"
  if "printable_mask m"
proof (cases "m = - 1")
  case True
  have "is_ident ''any''" "\<exists>sg. sq_type_string_to_mask ''any'' = (Some (- 1), sg)"
    using decl_ident [OF any_decl] decl_found [OF any_decl] by simp_all
  with True show ?thesis by (intro exI [of _ "[(''any'', - 1)]"]) (simp add: mask_text_def)
next
  case False
  with that show ?thesis
    using taken_known taken_printable [OF that False] taken_ne [OF that False]
    by (intro exI [of _ "taken rawTypeDecls m"]) (simp add: mask_text_def)
qed

lemma mask_text_start:
  assumes "printable_mask m"
  shows "\<exists>c s. mask_text m = c # s \<and> is_id_char c"
proof -
  obtain ds where ds: "ds \<noteq> []" "mask_text m = bars True (map fst ds)"
    "\<forall>(n, m') \<in> set ds. is_ident n \<and> (\<exists>sg. sq_type_string_to_mask n = (Some m', sg))"
    using mask_text_bars [OF assms] by blast
  then obtain n ns where n: "mask_text m = n @ ns" "is_ident n" by (cases ds) auto
  then show ?thesis by (cases n) (auto simp: is_ident_def)
qed

lemma mask_text_skip: "printable_mask m \<Longrightarrow> skip_spaces (mask_text m @ rest) = mask_text m @ rest"
  using mask_text_start [of m] by (auto intro!: skip_spaces_stop dest: id_char_not_space)

lemma type_names_mask:
  assumes "printable_mask m" "ends_mask rest"
  shows "type_names s (mask_text m @ rest) 0 = Inr (m, skip_spaces rest)"
proof -
  obtain ds where ds: "ds \<noteq> []" "mask_text m = bars True (map fst ds)" "mask_union (map snd ds) = m"
    "\<forall>(n, m') \<in> set ds. is_ident n \<and> (\<exists>sg. sq_type_string_to_mask n = (Some m', sg))"
    using mask_text_bars [OF assms(1)] by blast
  with type_names_bars [OF assms(2) ds(1,4), of s 0] show ?thesis by simp
qed

lemma parse_type_mask_text:
  assumes "printable_mask m" "ends_mask rest"
  shows "parse_type_mask (mask_text m @ rest) = Inr (m, skip_spaces rest)"
proof -
  have "cur_char (mask_text m @ rest) \<noteq> CHR ''(''"
    using mask_text_start [OF assms(1)] by auto
  then show ?thesis
    by (simp add: parse_type_mask_def mask_text_skip [OF assms(1)] type_names_mask [OF assms] Let_def)
qed

lemma parse_type_mask_brackets:
  assumes "printable_mask m"
  shows "parse_type_mask (''('' @ mask_text m @ '')'' @ rest) = Inr (m, skip_spaces rest)"
  using type_names_mask [OF assms, of "CHR '')'' # rest"] mask_text_skip [OF assms, of "CHR '')'' # rest"]
  by (simp add: parse_type_mask_def ends_mask_def Let_def)

lemma taken_length:
  "length (bars first (map fst (taken decls m))) \<le> sum_list (map (\<lambda>d. Suc (length (hd (fst d)))) decls)"
proof (induction decls m arbitrary: first rule: taken.induct)
  case (2 names typeMask decls m)
  show ?case
  proof (cases "m AND typeMask = typeMask")
    case True
    from "2.IH"(1) [OF True, of False] True show ?thesis by simp
  next
    case False
    from "2.IH"(2) [OF False, of first] False show ?thesis by simp
  qed
qed simp

lemma mask_text_length: "length (mask_text m) \<le> 120"
  using taken_length [of True rawTypeDecls m] by (auto simp: mask_text_def rawTypeDecls_def)

lemma stringify_mask_text:
  assumes "128 < buffer_length"
  shows "sq_stringify_type_mask buffer_length m = mask_text (closure_mask m)"
proof -
  have "sq_stringify_type_mask buffer_length m = take (buffer_length - 1) (mask_text (closure_mask m))"
    using append_type_mask_take [of "buffer_length - 1" "[]"] by (simp add: sq_stringify_type_mask_def)
  with mask_text_length [of "closure_mask m"] assms show ?thesis by simp
qed

text \<open>A type mask made of known type bits, printed into any buffer of more than 128 bytes, is never cut off, and the type parser reads the text back as the same mask (a mask with one of the two function bits as the mask with both).\<close>

theorem type_mask_roundtrip:
  assumes "printable_mask (closure_mask m)" "128 < buffer_length"
  shows "parse_type_mask (sq_stringify_type_mask buffer_length m) = Inr (closure_mask m, [])"
  using parse_type_mask_text [OF assms(1), of "[]"] stringify_mask_text [OF assms(2), of m]
  by (simp add: ends_mask_def)

lemma numeric_printable: "printable_mask (closure_mask (RT_INTEGER OR RT_FLOAT OR RT_CLOSURE))"
  by (simp add: printable_mask_def closure_mask_def RT_defs)

theorem type_mask_roundtrip_witness:
  "parse_type_mask (sq_stringify_type_mask 256 (RT_INTEGER OR RT_FLOAT OR RT_CLOSURE)) =
     Inr (RT_INTEGER OR RT_FLOAT OR RT_CLOSURE OR RT_NATIVECLOSURE, [])"
proof -
  have "closure_mask (RT_INTEGER OR RT_FLOAT OR RT_CLOSURE) = RT_INTEGER OR RT_FLOAT OR RT_CLOSURE OR RT_NATIVECLOSURE"
    by (simp add: closure_mask_def RT_defs)
  with type_mask_roundtrip [OF numeric_printable, of 256] show ?thesis by simp
qed

subsection \<open>Parsing a printed argument list\<close>

text \<open>Default values without spaces, brackets, quotes and commas.\<close>

definition plain_char :: "char \<Rightarrow> bool" where
  "plain_char c \<longleftrightarrow> c \<noteq> NUL \<and> \<not> sq_isspace (schar c) \<and>
     c \<notin> {CHR 0x22, CHR 0x27, CHR ''('', CHR '')'', CHR ''['', CHR '']'', CHR ''{'', CHR ''}'', CHR '',''}"

definition plain_default :: "string \<Rightarrow> bool" where
  "plain_default d \<longleftrightarrow> d \<noteq> [] \<and> list_all plain_char d"

abbreviation arg_delim :: "string \<Rightarrow> bool" where
  "arg_delim t \<equiv> cur_char t \<in> {CHR '','', CHR '')'', CHR '']''}"

lemma delim_skip: "arg_delim t \<Longrightarrow> skip_spaces t = t"
  by (cases t) auto

lemma plain_skip: "list_all plain_char d \<Longrightarrow> arg_delim t \<Longrightarrow> skip_spaces (d @ t) = d @ t"
  by (cases d) (auto simp: delim_skip plain_char_def intro: skip_spaces_stop)

lemma default_value_end_plain:
  "list_all plain_char d \<Longrightarrow> arg_delim t \<Longrightarrow> default_value_end s False so [] (d @ t) = Inr (False, [], t)"
proof (induction d)
  case Nil
  then show ?case by (auto simp: default_value_end.simps [of s False so "[]" t])
next
  case (Cons c d)
  have "skip_spaces (d @ t) = d @ t" using Cons.prems by (simp add: plain_skip)
  then show ?case using Cons
    by (simp add: default_value_end.simps [of s False so "[]" "c # d @ t"] plain_char_def)
qed

lemma parse_default_plain:
  assumes "plain_default d" "arg_delim t"
  shows "parse_default s False (d @ t) = Inr (False, d, t)"
proof -
  have "default_value_end s False NUL [] (d @ t) = Inr (False, [], t)"
    using assms default_value_end_plain by (simp add: plain_default_def)
  moreover have "cur_char t \<noteq> NUL" using assms(2) by auto
  ultimately show ?thesis using assms(1) by (simp add: parse_default_def Let_def plain_default_def)
qed

definition type_text :: "u32 \<Rightarrow> string" where
  "type_text m = (if m \<noteq> - 1 then '': '' @ mask_text m else [])"

definition default_text :: "string option \<Rightarrow> string" where
  "default_text dv = (case dv of None \<Rightarrow> [] | Some d \<Rightarrow> '' = '' @ d)"

definition wf_arg :: "string \<times> u32 \<times> string option \<Rightarrow> bool" where
  "wf_arg a = (case a of (name, m, dv) \<Rightarrow>
     is_ident name \<and> printable_mask m \<and> (case dv of None \<Rightarrow> True | Some d \<Rightarrow> plain_default d))"

lemma default_text_start:
  assumes "arg_delim t"
  shows "ends_mask (default_text dv @ t)"
    "cur_char (skip_spaces (default_text dv @ t)) \<in> {CHR '','', CHR '')'', CHR '']'', CHR ''=''}"
proof -
  have eq: "skip_spaces (CHR ''='' # u) = CHR ''='' # u" for u by (rule skip_spaces_stop) (simp add: sq_eval)
  have sk: "skip_spaces t = t" using assms by (rule delim_skip)
  have "\<not> is_id_char (cur_char t)" "cur_char t \<noteq> CHR ''|''" using assms by auto
  then show "ends_mask (default_text dv @ t)"
    by (cases dv) (auto simp: default_text_def ends_mask_def sk eq)
  show "cur_char (skip_spaces (default_text dv @ t)) \<in> {CHR '','', CHR '')'', CHR '']'', CHR ''=''}"
    using assms by (cases dv) (auto simp: default_text_def sk eq)
qed

lemma parse_arg_type_text:
  assumes "printable_mask m" "arg_delim t"
  shows "parse_arg_type s (type_text m @ default_text dv @ t) = Inr (m, skip_spaces (default_text dv @ t))"
proof (cases "m = - 1")
  case True
  then show ?thesis
    using default_text_start(2) [OF assms(2), of dv] by (auto simp: parse_arg_type_def type_text_def Let_def)
next
  case False
  then show ?thesis
    using parse_type_mask_text [OF assms(1) default_text_start(1) [OF assms(2), of dv]] mask_text_skip [OF assms(1)]
    by (simp add: parse_arg_type_def type_text_def Let_def)
qed

lemma arg_default_text:
  assumes "arg_delim t" "case dv of None \<Rightarrow> True | Some d \<Rightarrow> plain_default d"
    "\<not> as_insideString st" "as_insideOptional st \<or> \<not> has_default_before (as_res st)"
  shows "arg_default s st (skip_spaces (default_text dv @ t)) = Inr (False, dv, t)"
proof (cases dv)
  case None
  then show ?thesis using assms delim_skip [OF assms(1)] by (auto simp: arg_default_def default_text_def)
next
  case (Some d)
  have eq: "skip_spaces (CHR ''='' # u) = CHR ''='' # u" for u by (rule skip_spaces_stop) (simp add: sq_eval)
  have "skip_spaces (d @ t) = d @ t" using assms(1,2) Some plain_skip by (simp add: plain_default_def)
  then show ?thesis
    using assms Some parse_default_plain [of d t s]
    by (simp add: arg_default_def default_text_def eq)
qed

text \<open>Where the parser stands after an argument that is followed by \<open>t\<close>.\<close>

definition after_arg :: "string \<Rightarrow> string" where
  "after_arg t = (if cur_char t = CHR '','' then skip_spaces (tl t) else t)"

lemma end_argument_text: "arg_delim t \<Longrightarrow> end_argument s st t = Inr (st\<lparr>as_pos := after_arg t\<rparr>)"
  by (auto simp: end_argument_def delim_skip after_arg_def)

lemma arg_step_text:
  assumes "wf_arg (name, m, dv)" "arg_delim t" "as_pos st = name @ type_text m @ default_text dv @ t"
    "\<not> as_insideString st" "\<not> as_optionalBlockFinished st"
    "as_insideOptional st \<or> \<not> has_default_before (as_res st)"
  shows "arg_step s st =
    Inr ((push_argument (st\<lparr>as_argumentProcessed := True, as_insideString := False\<rparr>) name m dv)\<lparr>as_pos := after_arg t\<rparr>)"
proof -
  let ?r = "type_text m @ default_text dv @ t"
  have name: "is_ident name" and m: "printable_mask m"
    and dv: "case dv of None \<Rightarrow> True | Some d \<Rightarrow> plain_default d"
    using assms(1) by (auto simp: wf_arg_def)
  obtain c n where c: "name = c # n" "is_id_char c" using name by (cases name) (auto simp: is_ident_def)
  have r: "\<not> is_id_char (cur_char ?r)"
    using assms(2) by (cases "m = - 1"; cases dv) (auto simp: type_text_def default_text_def)
  have step: "arg_step s st = argument_step s st (name @ ?r)"
  proof -
    have "c \<noteq> NUL" "c \<noteq> CHR ''[''" "c \<noteq> CHR '']''" "c \<noteq> CHR '',''" "c \<noteq> CHR ''.''"
      using c(2) by (auto simp: is_id_char_def sq_eval)
    then show ?thesis
      using assms(3,5) c(1) ident_skip [OF name, of ?r] by (simp add: arg_step_def Let_def)
  qed
  have d: "arg_default s (st\<lparr>as_argumentProcessed := True\<rparr>) (skip_spaces (default_text dv @ t)) = Inr (False, dv, t)"
    using arg_default_text [OF assms(2) dv, of "st\<lparr>as_argumentProcessed := True\<rparr>"] assms(4,6) by simp
  show ?thesis
    unfolding step
    using parse_identifier_append [OF name r] parse_arg_type_text [OF m assms(2), of s dv] d
      end_argument_text [OF assms(2)]
    by (simp add: argument_step_def Let_def)
qed

fun args_body :: "int \<Rightarrow> nat \<Rightarrow> (string \<times> u32 \<times> string option) list \<Rightarrow> string" where
  "args_body req i [] = []"
| "args_body req i ((name, m, dv) # rest) =
     (if int i = req then ''['' else []) @ name @ type_text m @ default_text dv @ args_text req (Suc i) rest"

lemma args_text_body: "args \<noteq> [] \<Longrightarrow> args_text req i args = (if 0 < i then '', '' else []) @ args_body req i args"
  by (cases args) (auto simp: type_text_def default_text_def split: option.split)

lemma args_body_skip: "args \<noteq> [] \<Longrightarrow> list_all wf_arg args \<Longrightarrow> skip_spaces (args_body req i args @ t) = args_body req i args @ t"
  by (cases args) (auto simp: wf_arg_def ident_skip)

definition push_all :: "fn_type \<Rightarrow> int \<Rightarrow> (string \<times> u32 \<times> string option) list \<Rightarrow> fn_type" where
  "push_all res req args = res\<lparr>argNames := argNames res @ map fst args,
     argTypeMask := argTypeMask res @ map (fst \<circ> snd) args,
     defaultValues := defaultValues res @ map (snd \<circ> snd) args, requiredArgs := req\<rparr>"

text \<open>The parser in front of argument \<open>i\<close> of a printed list with \<open>req\<close> required arguments.\<close>

definition before_arg :: "int \<Rightarrow> nat \<Rightarrow> arg_state \<Rightarrow> bool" where
  "before_arg req i st \<longleftrightarrow> \<not> as_insideString st \<and> \<not> as_optionalBlockFinished st \<and>
     (as_insideOptional st \<longleftrightarrow> req < int i) \<and> requiredArgs (as_res st) = min req (int i) \<and>
     (int i \<le> req \<longrightarrow> set (defaultValues (as_res st)) \<subseteq> {None})"

lemma open_optional:
  assumes "as_pos st = CHR ''['' # t" "before_arg req i st" "int i = req"
  shows "arg_loop s st = arg_loop s (st\<lparr>as_insideOptional := True, as_pos := skip_spaces t\<rparr>)"
  using assms by (simp add: arg_loop.simps [of s st] arg_step_def before_arg_def Let_def)

lemma arg_loop_arg:
  assumes "wf_arg (name, m, dv)" "arg_delim t" "before_arg req i st" "0 \<le> req"
    "int i < req \<longrightarrow> dv = None"
    "as_pos st = (if int i = req then ''['' else []) @ name @ type_text m @ default_text dv @ t"
  shows "\<exists>st'. arg_loop s st = arg_loop s st' \<and> before_arg req (Suc i) st' \<and> as_pos st' = after_arg t \<and>
     as_argumentProcessed st' \<and> as_res st' = push_all (as_res st) (min req (int (Suc i))) [(name, m, dv)]"
proof -
  let ?p = "name @ type_text m @ default_text dv @ t"
  have name: "is_ident name" using assms(1) by (simp add: wf_arg_def)
  have np: "cur_char ?p \<noteq> CHR '')''"
    using name by (cases name) (auto simp: is_ident_def)
  define st1 where "st1 = (if int i = req then st\<lparr>as_insideOptional := True, as_pos := ?p\<rparr> else st)"
  have loop1: "arg_loop s st = arg_loop s st1"
  proof (cases "int i = req")
    case True
    then show ?thesis
      using open_optional [of st ?p req i s] assms(3,6) ident_skip [OF name] by (simp add: st1_def)
  qed (simp add: st1_def)
  have st1: "as_pos st1 = ?p" "\<not> as_insideString st1" "\<not> as_optionalBlockFinished st1"
    "as_insideOptional st1 \<longleftrightarrow> req \<le> int i" "as_res st1 = as_res st" "requiredArgs (as_res st) = min req (int i)"
    using assms(3,6) by (auto simp: st1_def before_arg_def)
  have hd: "as_insideOptional st1 \<or> \<not> has_default_before (as_res st1)"
  proof (cases "req \<le> int i")
    case False
    then have "set (defaultValues (as_res st)) \<subseteq> {None}" using assms(3) by (simp add: before_arg_def)
    then show ?thesis
      using last_in_set [of "defaultValues (as_res st)"] st1(5) by (fastforce simp: has_default_before_def)
  qed (use st1(4) in simp)
  define st2 where "st2 = (push_argument (st1\<lparr>as_argumentProcessed := True, as_insideString := False\<rparr>) name m dv)\<lparr>as_pos := after_arg t\<rparr>"
  have "arg_step s st1 = Inr st2"
    unfolding st2_def by (rule arg_step_text [OF assms(1,2) st1(1,2,3) hd])
  then have "arg_loop s st1 = arg_loop s st2"
    using np st1(1) by (simp add: arg_loop.simps [of s st1])
  moreover have "as_res st2 = push_all (as_res st) (min req (int (Suc i))) [(name, m, dv)]"
    using st1(4-6) assms(5) by (auto simp: st2_def push_argument_def push_all_def Let_def)
  moreover have "before_arg req (Suc i) st2"
    using st1 assms(3,5) calculation(2) by (auto simp: before_arg_def st2_def push_argument_def push_all_def Let_def)
  ultimately show ?thesis
    using loop1 by (intro exI [of _ st2]) (simp add: st2_def push_argument_def Let_def)
qed

lemma arg_loop_args:
  assumes "list_all wf_arg args" "args \<noteq> []" "arg_delim tail" "before_arg req i st" "0 \<le> req"
    "\<And>j. j < length args \<Longrightarrow> int (i + j) < req \<Longrightarrow> snd (snd (args ! j)) = None"
    "as_pos st = args_body req i args @ tail"
  shows "\<exists>st'. arg_loop s st = arg_loop s st' \<and> before_arg req (i + length args) st' \<and>
     as_pos st' = after_arg tail \<and> as_argumentProcessed st' \<and>
     as_res st' = push_all (as_res st) (min req (int (i + length args))) args"
  using assms(1,2,4,6,7)
proof (induction args arbitrary: i st)
  case Nil
  then show ?case by simp
next
  case (Cons a args)
  obtain name m dv where a: "a = (name, m, dv)" by (cases a) auto
  let ?t = "args_text req (Suc i) args @ tail"
  have t: "arg_delim ?t" using assms(3) args_text_body [of args req "Suc i"] by (cases args) auto
  have dvn: "int i < req \<longrightarrow> dv = None" using Cons.prems(4) [of 0] a by simp
  from arg_loop_arg [of name m dv ?t req i st s] obtain st1 where
    st1: "arg_loop s st = arg_loop s st1" "before_arg req (Suc i) st1" "as_pos st1 = after_arg ?t"
      "as_argumentProcessed st1" "as_res st1 = push_all (as_res st) (min req (int (Suc i))) [(name, m, dv)]"
    using Cons.prems a t assms(5) dvn by auto
  show ?case
  proof (cases "args = []")
    case True
    then show ?thesis using st1 a by auto
  next
    case False
    have "after_arg ?t = args_body req (Suc i) args @ tail"
      using args_text_body [OF False, of req "Suc i"] args_body_skip [OF False, of req "Suc i" tail] Cons.prems(1)
      by (simp add: after_arg_def)
    moreover have "snd (snd (args ! j)) = None" if "j < length args" "int (Suc i + j) < req" for j
      using Cons.prems(4) [of "Suc j"] that by simp
    ultimately obtain st' where st': "arg_loop s st1 = arg_loop s st'" "before_arg req (Suc i + length args) st'"
      "as_pos st' = after_arg tail" "as_argumentProcessed st'"
      "as_res st' = push_all (as_res st1) (min req (int (Suc i + length args))) args"
      using Cons.IH [OF _ False st1(2)] Cons.prems(1) st1(3) by auto
    then show ?thesis using st1 a by (intro exI [of _ st']) (auto simp: push_all_def)
  qed
qed

subsection \<open>Parsing a printed function type\<close>

definition ellipsis_mask :: "u32 \<Rightarrow> bool" where
  "ellipsis_mask m \<longleftrightarrow> m = 0 \<or> printable_mask m"

lemma dot_skip: "skip_spaces (CHR ''.'' # s) = CHR ''.'' # s"
  by simp

lemma ellipsis_step_text:
  assumes "printable_mask m" "ellipsisArgTypeMask (as_res st) = 0"
  shows "ellipsis_step s st (ellipsis_text m @ CHR '')'' # r) =
    Inr (st\<lparr>as_argumentProcessed := True, as_pos := CHR '')'' # r,
            as_res := (as_res st)\<lparr>ellipsisArgTypeMask := m\<rparr>\<rparr>)"
proof (cases "m = - 1")
  case True
  then show ?thesis using assms by (simp add: ellipsis_step_def ellipsis_text_def Let_def)
next
  case False
  have "ends_mask (CHR '')'' # r)" by (simp add: ends_mask_def)
  from parse_type_mask_text [OF assms(1) this] mask_text_skip [OF assms(1)] False assms(2) show ?thesis
    by (simp add: ellipsis_step_def ellipsis_text_def Let_def)
qed

text \<open>From \<open>...\<close> or the closing bracket to the end of the argument list.\<close>

lemma arg_loop_ellipsis:
  assumes "ellipsis_mask m" "ellipsisArgTypeMask (as_res st) = 0"
    "as_pos st = (if m \<noteq> 0 then ellipsis_text m else []) @ CHR '')'' # r"
  shows "\<exists>st'. arg_loop s st = Inr st' \<and> as_pos st' = CHR '')'' # r \<and>
    as_insideOptional st' = as_insideOptional st \<and> as_insideString st' = as_insideString st \<and>
    as_res st' = (as_res st)\<lparr>ellipsisArgTypeMask := m\<rparr>"
proof (cases "m = 0")
  case True
  then show ?thesis using assms by (simp add: arg_loop.simps [of s st])
next
  case False
  then have m: "printable_mask m" using assms(1) by (simp add: ellipsis_mask_def)
  have pos: "as_pos st = CHR ''.'' # CHR ''.'' # CHR ''.'' # drop 3 (ellipsis_text m) @ CHR '')'' # r"
    using assms(3) False by (simp add: ellipsis_text_def)
  have tx: "ellipsis_text m @ CHR '')'' # r = as_pos st" using assms(3) False by simp
  have "arg_step s st = ellipsis_step s st (as_pos st)"
    using pos by (simp add: arg_step_def Let_def)
  with ellipsis_step_text [OF m assms(2), of s r] tx pos show ?thesis
    by (simp add: arg_loop.simps [of s st]) (simp add: arg_loop.simps)
qed

lemma close_optional:
  assumes "as_pos st = CHR '']'' # t" "as_insideOptional st"
  shows "arg_loop s st =
    arg_loop s (st\<lparr>as_insideOptional := False, as_optionalBlockFinished := True, as_pos := skip_spaces t\<rparr>)"
  using assms by (simp add: arg_loop.simps [of s st] arg_step_def Let_def)

lemma skip_comma:
  assumes "as_pos st = CHR '','' # t" "as_argumentProcessed st"
  shows "arg_loop s st = arg_loop s (st\<lparr>as_argumentProcessed := False, as_pos := skip_spaces t\<rparr>)"
  using assms by (simp add: arg_loop.simps [of s st] arg_step_def Let_def)

lemma ellipsis_text_skip: "skip_spaces (ellipsis_text m @ t) = ellipsis_text m @ t"
  by (simp add: ellipsis_text_def)

lemma arg_loop_end:
  assumes "ellipsis_mask m" "ellipsisArgTypeMask (as_res st) = 0" "as_argumentProcessed st" "\<not> as_insideString st"
    "as_pos st = after_arg ((if opt then '']'' else []) @ (if m \<noteq> 0 then '', '' @ ellipsis_text m else []) @ CHR '')'' # r)"
    "as_insideOptional st = opt"
  shows "\<exists>st'. arg_loop s st = Inr st' \<and> as_pos st' = CHR '')'' # r \<and>
    \<not> as_insideOptional st' \<and> \<not> as_insideString st' \<and>
    as_res st' = (as_res st)\<lparr>ellipsisArgTypeMask := m\<rparr>"
proof (cases opt)
  case False
  then have "as_pos st = (if m \<noteq> 0 then ellipsis_text m else []) @ CHR '')'' # r"
    using assms(5) by (simp add: after_arg_def ellipsis_text_skip)
  from arg_loop_ellipsis [OF assms(1,2) this, of s] False assms(4,6) show ?thesis by auto
next
  case True
  let ?t = "(if m \<noteq> 0 then '', '' @ ellipsis_text m else []) @ CHR '')'' # r"
  let ?st1 = "st\<lparr>as_insideOptional := False, as_optionalBlockFinished := True, as_pos := ?t\<rparr>"
  have "as_pos st = CHR '']'' # ?t" using assms(5) True by (simp add: after_arg_def)
  from close_optional [OF this] assms(6) True have l1: "arg_loop s st = arg_loop s ?st1" by simp
  show ?thesis
  proof (cases "m = 0")
    case True
    from l1 arg_loop_ellipsis [OF assms(1), of ?st1 r s] True assms(2,4) show ?thesis by auto
  next
    case False
    let ?st2 = "?st1\<lparr>as_argumentProcessed := False, as_pos := ellipsis_text m @ CHR '')'' # r\<rparr>"
    have "arg_loop s ?st1 = arg_loop s ?st2"
      using skip_comma [of ?st1 "CHR '' '' # ellipsis_text m @ CHR '')'' # r" s] assms(3) False
      by (simp add: ellipsis_text_skip)
    with l1 arg_loop_ellipsis [OF assms(1), of ?st2 r s] False assms(2,4) show ?thesis by auto
  qed
qed

lemma no_attribute:
  assumes "is_ident n" "\<not> is_id_char c" "c \<noteq> CHR '' ''"
  shows "take 5 (n @ c # t) \<noteq> ''pure ''" "take 10 (n @ c # t) \<noteq> ''nodiscard ''"
proof -
  have id: "list_all is_id_char n" using assms(1) by (simp add: is_ident_def)
  have tw: "takeWhile is_id_char (n @ c # t) = n" "dropWhile is_id_char (n @ c # t) = c # t"
    using takeWhile_stop [OF id, of "c # t"] assms(2) by simp_all
  have no: "take (Suc (length w)) (n @ c # t) \<noteq> w @ '' ''" if "list_all is_id_char w" for w
  proof
    assume eq: "take (Suc (length w)) (n @ c # t) = w @ '' ''"
    have "n @ c # t = w @ CHR '' '' # drop (Suc (length w)) (n @ c # t)"
      using append_take_drop_id [of "Suc (length w)" "n @ c # t"] unfolding eq by simp
    then have "dropWhile is_id_char (n @ c # t) = CHR '' '' # drop (Suc (length w)) (n @ c # t)"
      using takeWhile_stop [OF that] by (metis list.sel(1) punct_facts(9))
    with tw(2) assms(3) show False by simp
  qed
  have "list_all is_id_char ''pure''" "list_all is_id_char ''nodiscard''"
    by (simp_all add: is_id_char_def sq_eval)
  note no = no [OF this(1)] no [OF this(2)]
  have l: "Suc (length ''pure'') = 5" "Suc (length ''nodiscard'') = 10" by simp_all
  show "take 5 (n @ c # t) \<noteq> ''pure ''" "take 10 (n @ c # t) \<noteq> ''nodiscard ''"
    using no unfolding l by (simp_all del: take_append)
qed

lemma parse_attributes_text:
  assumes "take 5 x \<noteq> ''pure ''" "take 10 x \<noteq> ''nodiscard ''" "skip_spaces x = x"
    "\<not> is_pure res" "\<not> is_nodiscard res"
  shows "parse_attributes ((if pu then ''pure '' else []) @ (if nd then ''nodiscard '' else []) @ x) res =
     (x, res\<lparr>is_pure := pu, is_nodiscard := nd\<rparr>)"
proof -
  have a: "parse_attributes x r = (x, r)" for r using assms(1,2) by (simp add: parse_attributes.simps [of x r])
  have b: "parse_attributes ((if nd then ''nodiscard '' else []) @ x) r = (x, r\<lparr>is_nodiscard := nd\<rparr>)"
    if "\<not> is_nodiscard r" for r
  proof (cases nd)
    case True
    then show ?thesis using assms(3) a by (simp add: parse_attributes.simps [of "CHR ''n'' # _"])
  next
    case False
    then show ?thesis using a [of r] that by simp
  qed
  show ?thesis
  proof (cases pu)
    case True
    have "skip_spaces ((if nd then ''nodiscard '' else []) @ x) = (if nd then ''nodiscard '' else []) @ x"
      using assms(3) skip_spaces_stop [of "''nodiscard '' @ x"] by (simp add: sq_eval)
    with True b [of "res\<lparr>is_pure := True\<rparr>"] assms(5) show ?thesis
      by (simp add: parse_attributes.simps [of "CHR ''p'' # _"] del: if_split split: if_split_asm)
  next
    case False
    then show ?thesis using b [of res] assms(4,5) by simp
  qed
qed

lemma simple_mask_names:
  "list_all (\<lambda>m. m = - 1 \<or> mask_text m \<in> set (map (hd \<circ> fst) rawTypeDecls)) (map snd rawTypeDecls)"
  by code_simp

lemma simple_mask_text:
  assumes "m \<in> set (map snd rawTypeDecls)" "m \<noteq> - 1"
  shows "is_ident (mask_text m)"
  using simple_mask_names assms type_names_known [of "mask_text m"]
  unfolding list_all_iff is_ident_def by blast

lemma parse_function_name_text:
  assumes "is_ident fname" "printable_mask m"
  shows "parse_function_name s (object_text m @ fname @ CHR ''('' # t) (res\<lparr>objectTypeMask := - 1\<rparr>) =
     Inr (CHR ''('' # t, res\<lparr>functionName := Some fname, objectTypeMask := m\<rparr>)"
proof -
  have fn: "parse_identifier (fname @ CHR ''('' # t) = Some (fname, CHR ''('' # t)"
    using parse_identifier_append [OF assms(1)] by simp
  have sf: "skip_spaces (fname @ CHR ''('' # t) = fname @ CHR ''('' # t" by (rule ident_skip [OF assms(1)])
  consider "m = - 1" | "m \<noteq> - 1" "m \<in> set (map snd rawTypeDecls)" | "m \<noteq> - 1" "m \<notin> set (map snd rawTypeDecls)"
    by blast
  then show ?thesis
  proof cases
    case 1
    have "cur_char (fname @ CHR ''('' # t) \<noteq> CHR ''(''"
      using assms(1) by (cases fname) (auto simp: is_ident_def)
    with 1 fn show ?thesis by (simp add: parse_function_name_def object_text_def Let_def)
  next
    case 2
    let ?x = "mask_text m @ CHR ''.'' # fname @ CHR ''('' # t"
    have id: "is_ident (mask_text m)" by (rule simple_mask_text [OF 2(2,1)])
    have "cur_char ?x \<noteq> CHR ''(''"
      using id by (cases "mask_text m") (auto simp: is_ident_def)
    moreover have "parse_identifier ?x = Some (mask_text m, CHR ''.'' # fname @ CHR ''('' # t)"
      using parse_identifier_append [OF id] by simp
    moreover have "parse_type_mask (mask_text m) = Inr (m, [])"
      using parse_type_mask_text [OF assms(2), of "[]"] by (simp add: ends_mask_def)
    moreover have "object_text m @ fname @ CHR ''('' # t = ?x" using 2 by (simp add: object_text_def)
    ultimately show ?thesis using fn sf by (simp add: parse_function_name_def Let_def)
  next
    case 3
    have "object_text m @ fname @ CHR ''('' # t = CHR ''('' # mask_text m @ CHR '')'' # CHR ''.'' # fname @ CHR ''('' # t"
      using 3 by (simp add: object_text_def)
    with parse_type_mask_brackets [OF assms(2), of "CHR ''.'' # fname @ CHR ''('' # t"] fn sf
    show ?thesis by (simp add: parse_function_name_def Let_def)
  qed
qed

lemma object_text_attr:
  assumes "is_ident fname" "printable_mask m"
  shows "take 5 (object_text m @ fname @ CHR ''('' # t) \<noteq> ''pure ''"
    "take 10 (object_text m @ fname @ CHR ''('' # t) \<noteq> ''nodiscard ''"
    "skip_spaces (object_text m @ fname @ CHR ''('' # t) = object_text m @ fname @ CHR ''('' # t"
proof -
  consider "m = - 1" | "m \<noteq> - 1" "m \<in> set (map snd rawTypeDecls)" | "m \<noteq> - 1" "m \<notin> set (map snd rawTypeDecls)"
    by blast
  then have "take 5 (object_text m @ fname @ CHR ''('' # t) \<noteq> ''pure '' \<and>
    take 10 (object_text m @ fname @ CHR ''('' # t) \<noteq> ''nodiscard '' \<and>
    skip_spaces (object_text m @ fname @ CHR ''('' # t) = object_text m @ fname @ CHR ''('' # t"
  proof cases
    case 1
    then show ?thesis
      using no_attribute [OF assms(1), of "CHR ''(''" t] ident_skip [OF assms(1), of "CHR ''('' # t"]
      by (simp add: object_text_def del: take_append)
  next
    case 2
    have id: "is_ident (mask_text m)" by (rule simple_mask_text [OF 2(2,1)])
    from no_attribute [OF id, of "CHR ''.''" "fname @ CHR ''('' # t"] ident_skip [OF id] 2 show ?thesis
      by (simp add: object_text_def del: take_append)
  next
    case 3
    then show ?thesis by (simp add: object_text_def)
  qed
  then show "take 5 (object_text m @ fname @ CHR ''('' # t) \<noteq> ''pure ''"
    "take 10 (object_text m @ fname @ CHR ''('' # t) \<noteq> ''nodiscard ''"
    "skip_spaces (object_text m @ fname @ CHR ''('' # t) = object_text m @ fname @ CHR ''('' # t"
    by blast+
qed

lemma parse_return_type_text:
  assumes "printable_mask m" "returnTypeMask res = RT_NULL"
  shows "parse_return_type s (skip_spaces (return_text m)) res = Inr ([], res\<lparr>returnTypeMask := m\<rparr>)"
proof (cases "m = RT_NULL")
  case True
  then show ?thesis using assms(2) by (simp add: return_text_def parse_return_type_def)
next
  case False
  have "parse_type_mask (mask_text m) = Inr (m, [])" "skip_spaces (mask_text m) = mask_text m"
    using parse_type_mask_text [OF assms(1), of "[]"] mask_text_skip [OF assms(1), of "[]"] by (simp_all add: ends_mask_def)
  with False show ?thesis by (simp add: return_text_def parse_return_type_def Let_def)
qed

text \<open>The function types the printer and the parser agree on.\<close>

definition printable_type :: "fn_type \<Rightarrow> bool" where
  "printable_type ft \<longleftrightarrow>
     (case functionName ft of None \<Rightarrow> False | Some fname \<Rightarrow> is_ident fname) \<and>
     printable_mask (objectTypeMask ft) \<and> printable_mask (returnTypeMask ft) \<and>
     ellipsis_mask (ellipsisArgTypeMask ft) \<and>
     length (argTypeMask ft) = length (argNames ft) \<and> length (defaultValues ft) = length (argNames ft) \<and>
     list_all wf_arg (fn_args ft) \<and>
     0 \<le> requiredArgs ft \<and> requiredArgs ft \<le> int (length (argNames ft)) \<and>
     list_all (\<lambda>dv. dv = None) (take (nat (requiredArgs ft)) (defaultValues ft))"

lemma parse_args_text:
  assumes ft: "printable_type ft" and res: "argNames res = []" "argTypeMask res = []" "defaultValues res = []"
    "requiredArgs res = 0" "ellipsisArgTypeMask res = 0"
  shows "\<exists>st. arg_loop s \<lparr>as_insideString = False, as_insideOptional = False, as_optionalBlockFinished = False,
        as_argumentProcessed = False,
        as_pos = skip_spaces (args_text (requiredArgs ft) 0 (fn_args ft) @ args_end ft @ r), as_res = res\<rparr> = Inr st \<and>
     as_pos st = CHR '')'' # r \<and> \<not> as_insideOptional st \<and> \<not> as_insideString st \<and>
     as_res st = res\<lparr>argNames := argNames ft, argTypeMask := argTypeMask ft, defaultValues := defaultValues ft,
       requiredArgs := requiredArgs ft, ellipsisArgTypeMask := ellipsisArgTypeMask ft\<rparr>"
proof -
  let ?req = "requiredArgs ft" and ?args = "fn_args ft" and ?e = "ellipsisArgTypeMask ft"
  note wf = ft [unfolded printable_type_def]
  have len: "length ?args = length (argNames ft)" and em: "ellipsis_mask ?e"
    and proj: "map fst ?args = argNames ft" "map (fst \<circ> snd) ?args = argTypeMask ft"
      "map (snd \<circ> snd) ?args = defaultValues ft"
    using wf by (simp_all add: fn_args_def flip: map_map)
  show ?thesis
  proof (cases "?args = []")
    case True
    then have e: "argNames ft = []" "?req = 0" "argTypeMask ft = []" "defaultValues ft = []" using len wf by auto
    have pos: "skip_spaces (args_text ?req 0 ?args @ args_end ft @ r) =
        (if ?e \<noteq> 0 then ellipsis_text ?e else []) @ CHR '')'' # r"
      using True e by (simp add: args_end_def ellipsis_end_def ellipsis_text_skip)
    let ?st = "\<lparr>as_insideString = False, as_insideOptional = False, as_optionalBlockFinished = False,
        as_argumentProcessed = False, as_pos = (if ?e \<noteq> 0 then ellipsis_text ?e else []) @ CHR '')'' # r, as_res = res\<rparr>"
    have "ellipsisArgTypeMask (as_res ?st) = 0"
      "as_pos ?st = (if ?e \<noteq> 0 then ellipsis_text ?e else []) @ CHR '')'' # r" using res by simp_all
    from arg_loop_ellipsis [OF em this, of s] show ?thesis unfolding pos using e res by auto
  next
    case False
    have wfa: "list_all wf_arg ?args" using wf by blast
    have body: "skip_spaces (args_text ?req 0 ?args @ args_end ft @ r) = args_body ?req 0 ?args @ args_end ft @ r"
      using args_text_body [OF False, of ?req 0] args_body_skip [OF False wfa] by simp
    have delim: "arg_delim (args_end ft @ r)" using False len by (auto simp: args_end_def ellipsis_end_def)
    have dvs: "snd (snd (?args ! j)) = None" if "j < length ?args" "int (0 + j) < ?req" for j
    proof -
      have none: "list_all (\<lambda>dv. dv = None) (take (nat ?req) (defaultValues ft))" using wf by blast
      have "snd (snd (?args ! j)) = defaultValues ft ! j" using that(1) len wf by (simp add: fn_args_def)
      moreover have "j < nat ?req" "j < length (defaultValues ft)"
        using that len wf by simp_all
      ultimately show ?thesis using none by (simp add: list_all_length)
    qed
    let ?st = "\<lparr>as_insideString = False, as_insideOptional = False, as_optionalBlockFinished = False,
        as_argumentProcessed = False, as_pos = args_body ?req 0 ?args @ args_end ft @ r, as_res = res\<rparr>"
    have b0: "before_arg ?req 0 ?st" using wf res by (simp add: before_arg_def)
    have r0: "0 \<le> ?req" using wf by blast
    have p0: "as_pos ?st = args_body ?req 0 ?args @ args_end ft @ r" by simp
    from arg_loop_args [OF wfa False delim b0 r0 dvs p0, of s, unfolded add_0_left arg_state.select_convs]
    obtain st where st: "arg_loop s ?st = arg_loop s st" "before_arg ?req (length ?args) st"
      "as_pos st = after_arg (args_end ft @ r)" "as_argumentProcessed st"
      "as_res st = push_all res (min ?req (int (length ?args))) ?args"
      by blast
    have min: "min ?req (int (length ?args)) = ?req" using wf len by simp
    have ae: "args_end ft @ r = (if ?req < int (length ?args) then '']'' else []) @
        (if ?e \<noteq> 0 then '', '' @ ellipsis_text ?e else []) @ CHR '')'' # r"
      using False len by (auto simp: args_end_def ellipsis_end_def)
    have io: "as_insideOptional st = (?req < int (length ?args))" "\<not> as_insideString st"
      using st(2) by (simp_all add: before_arg_def)
    have e0: "ellipsisArgTypeMask (as_res st) = 0" using st(5) res by (simp add: push_all_def)
    from arg_loop_end [OF em e0 st(4) io(2) st(3) [unfolded ae] io(1), of s]
    show ?thesis unfolding body st(1) using st(5) min proj res by (auto simp: push_all_def)
  qed
qed

text \<open>C21: A function type whose names are identifiers, whose masks are made of known type bits and whose default values hold no spaces, quotes or brackets, printed and parsed again, is the same function type, provided its text fits the printer's buffer.\<close>

theorem function_type_roundtrip:
  assumes "printable_type ft" "functionName ft = Some fname" "length (fn_type_text ft fname) \<le> 2047"
  shows "\<exists>text. sq_stringify_function_type ft = Some text \<and> sq_parse_function_type_string text new_fn_type = Inr ft"
proof -
  let ?om = "objectTypeMask ft" and ?rm = "returnTypeMask ft"
  define s where "s = fn_type_text ft fname"
  have str: "sq_stringify_function_type ft = Some s"
    using assms(2,3) sq_stringify_function_type_text [of ft] by (simp add: s_def)
  note wf = assms(1) [unfolded printable_type_def assms(2) option.case]
  define tail where "tail = args_text (requiredArgs ft) 0 (fn_args ft) @ args_end ft @ return_text ?rm"
  define x where "x = object_text ?om @ fname @ CHR ''('' # tail"
  have fid: "is_ident fname" and om: "printable_mask ?om" and rm: "printable_mask ?rm" using wf by blast+
  have s: "s = (if is_pure ft then ''pure '' else []) @ (if is_nodiscard ft then ''nodiscard '' else []) @ x"
    by (simp add: s_def fn_type_text_def x_def tail_def)
  have x: "take 5 x \<noteq> ''pure ''" "take 10 x \<noteq> ''nodiscard ''" "skip_spaces x = x"
    unfolding x_def using object_text_attr [OF fid om, of tail] by blast+
  define res0 where "res0 = new_fn_type\<lparr>objectTypeMask := - 1, returnTypeMask := RT_NULL, requiredArgs := 0,
                       ellipsisArgTypeMask := 0, argNames := [], argTypeMask := []\<rparr>"
  define res1 where "res1 = res0\<lparr>is_pure := is_pure ft, is_nodiscard := is_nodiscard ft\<rparr>"
  define res2 where "res2 = res1\<lparr>functionName := Some fname, objectTypeMask := ?om\<rparr>"
  have sk: "skip_spaces s = s" "s \<noteq> []"
    using x(3) skip_spaces_stop [of s] by (auto simp: s sq_eval x_def)
  have at: "parse_attributes s res0 = (x, res1)"
    unfolding s res1_def by (rule parse_attributes_text [OF x]) (simp_all add: res0_def new_fn_type_def)
  have "res1 = res1\<lparr>objectTypeMask := - 1\<rparr>" by (simp add: res1_def res0_def)
  then have fn: "parse_function_name s x res1 = Inr (CHR ''('' # tail, res2)"
    unfolding x_def res2_def using parse_function_name_text [OF fid om, of s tail res1] by simp
  obtain st where st: "arg_loop s \<lparr>as_insideString = False, as_insideOptional = False, as_optionalBlockFinished = False,
        as_argumentProcessed = False, as_pos = skip_spaces tail, as_res = res2\<rparr> = Inr st"
     "as_pos st = CHR '')'' # return_text ?rm" "\<not> as_insideOptional st" "\<not> as_insideString st"
     "as_res st = res2\<lparr>argNames := argNames ft, argTypeMask := argTypeMask ft, defaultValues := defaultValues ft,
       requiredArgs := requiredArgs ft, ellipsisArgTypeMask := ellipsisArgTypeMask ft\<rparr>"
    using parse_args_text [OF assms(1), of res2 s "return_text ?rm"]
    unfolding tail_def by (auto simp: res2_def res1_def res0_def new_fn_type_def)
  have ret: "parse_return_type s (skip_spaces (return_text ?rm)) (as_res st) = Inr ([], (as_res st)\<lparr>returnTypeMask := ?rm\<rparr>)"
    by (rule parse_return_type_text [OF rm]) (simp add: st(5) res2_def res1_def res0_def)
  have "(as_res st)\<lparr>returnTypeMask := ?rm\<rparr> = ft"
    unfolding st(5) res2_def res1_def res0_def using assms(2) by (cases ft) (simp add: new_fn_type_def)
  moreover have "sq_parse_function_type_string s new_fn_type = Inr ((as_res st)\<lparr>returnTypeMask := ?rm\<rparr>)"
    using sk at fn st(1-4) ret
    by (simp add: sq_parse_function_type_string_def res0_def Let_def del: fn_type.fold_congs)
  ultimately show ?thesis using str by auto
qed

definition sample_type :: fn_type where
  "sample_type = \<lparr>functionName = Some ''find'', returnTypeMask = RT_INTEGER OR RT_NULL,
     objectTypeMask = RT_ARRAY OR RT_STRING, argNames = [''what'', ''start''], argTypeMask = [- 1, RT_INTEGER],
     defaultValues = [None, Some ''0''], requiredArgs = 1, ellipsisArgTypeMask = RT_FLOAT,
     is_pure = True, is_nodiscard = False\<rparr>"

theorem function_type_roundtrip_witness:
  "\<exists>text. sq_stringify_function_type sample_type = Some text \<and>
     sq_parse_function_type_string text new_fn_type = Inr sample_type"
proof (rule function_type_roundtrip)
  have id: "is_ident ''find''" "is_ident ''what''" "is_ident ''start''"
    by (simp_all add: is_ident_def is_id_char_def sq_eval)
  show "printable_type sample_type"
    using id by (simp add: printable_type_def sample_type_def fn_args_def wf_arg_def printable_mask_def ellipsis_mask_def
        RT_defs plain_default_def plain_char_def sq_eval)
  show "functionName sample_type = Some ''find''" by (simp add: sample_type_def)
  show "length (fn_type_text sample_type ''find'') \<le> 2047" by code_simp
qed

subsection \<open>What the parser returns\<close>

definition wf_result :: "fn_type \<Rightarrow> bool" where
  "wf_result ft \<longleftrightarrow> functionName ft \<noteq> None \<and> length (argTypeMask ft) = length (argNames ft) \<and>
     length (defaultValues ft) = length (argNames ft) \<and>
     0 \<le> requiredArgs ft \<and> requiredArgs ft \<le> int (length (argNames ft))"

lemma ellipsis_step_wf: "ellipsis_step s st p = Inr st' \<Longrightarrow> wf_result (as_res st) \<Longrightarrow> wf_result (as_res st')"
  by (auto simp: ellipsis_step_def wf_result_def Let_def split: sum.splits if_splits)

lemma end_argument_res: "end_argument s st p = Inr st' \<Longrightarrow> as_res st' = as_res st"
  by (auto simp: end_argument_def Let_def split: if_splits)

lemma argument_step_wf: "argument_step s st p = Inr st' \<Longrightarrow> wf_result (as_res st) \<Longrightarrow> wf_result (as_res st')"
  by (auto simp: argument_step_def push_argument_def wf_result_def Let_def split: option.splits sum.splits if_splits
      dest!: end_argument_res)

lemma arg_step_wf: "arg_step s st = Inr st' \<Longrightarrow> wf_result (as_res st) \<Longrightarrow> wf_result (as_res st')"
  by (auto simp: arg_step_def Let_def split: if_splits dest: ellipsis_step_wf argument_step_wf)

lemma arg_loop_wf: "arg_loop s st = Inr st' \<Longrightarrow> wf_result (as_res st) \<Longrightarrow> wf_result (as_res st')"
proof (induction s st rule: arg_loop.induct)
  case (1 s st)
  show ?case
  proof (cases "cur_char (as_pos st) = CHR '')''")
    case True
    then show ?thesis using "1.prems" by (simp add: arg_loop.simps [of s st])
  next
    case False
    then obtain st1 where "arg_step s st = Inr st1" "arg_loop s st1 = Inr st'"
      using "1.prems"(1) by (auto simp: arg_loop.simps [of s st] split: sum.splits)
    with "1.IH" [OF False] arg_step_wf "1.prems"(2) show ?thesis by blast
  qed
qed

lemma parse_function_name_res:
  "parse_function_name s p res = Inr (p', res') \<Longrightarrow> \<exists>f m. res' = res\<lparr>functionName := f, objectTypeMask := m\<rparr> \<and> f \<noteq> None"
  unfolding parse_function_name_def Let_def
  by (cases res) (auto split: if_splits option.splits sum.splits prod.splits)

lemma parse_attributes_res:
  "\<exists>a b. snd (parse_attributes p res) = res\<lparr>is_pure := a, is_nodiscard := b\<rparr>"
proof (induction p res rule: parse_attributes.induct)
  case (1 p res)
  show ?case
  proof (cases "take 5 p = ''pure ''")
    case True
    from "1.IH"(1) [OF True] True show ?thesis by (auto simp: parse_attributes.simps [of p res])
  next
    case False
    show ?thesis
    proof (cases "take 10 p = ''nodiscard ''")
      case True
      from "1.IH"(2) [OF False True] False True show ?thesis by (auto simp: parse_attributes.simps [of p res])
    next
      case nn: False
      have "\<exists>a b. res = res\<lparr>is_pure := a, is_nodiscard := b\<rparr>"
        by (rule exI [of _ "is_pure res"], rule exI [of _ "is_nodiscard res"]) simp
      with False nn show ?thesis by (simp add: parse_attributes.simps [of p res])
    qed
  qed
qed

text \<open>C22: When a type string parses, the result has a function name, one type mask and one default value entry per argument, and a number of required arguments between 0 and the number of arguments.\<close>

theorem parse_result_wf:
  assumes "sq_parse_function_type_string s new_fn_type = Inr ft"
  shows "wf_result ft"
proof -
  define res0 where "res0 = new_fn_type\<lparr>objectTypeMask := - 1, returnTypeMask := RT_NULL, requiredArgs := 0,
                       ellipsisArgTypeMask := 0, argNames := [], argTypeMask := []\<rparr>"
  obtain p1 res1 where at: "parse_attributes (skip_spaces s) res0 = (p1, res1)" by fastforce
  obtain p2 res2 where fn: "parse_function_name s p1 res1 = Inr (p2, res2)"
    using assms at by (auto simp: sq_parse_function_type_string_def res0_def Let_def split: if_splits sum.splits)
  obtain st p4 where st: "arg_loop s \<lparr>as_insideString = False, as_insideOptional = False, as_optionalBlockFinished = False,
        as_argumentProcessed = False, as_pos = skip_spaces (tl (skip_spaces p2)), as_res = res2\<rparr> = Inr st"
      "parse_return_type s (skip_spaces (tl (as_pos st))) (as_res st) = Inr (p4, ft)"
    using assms at fn
    by (auto simp: sq_parse_function_type_string_def res0_def Let_def split: if_splits sum.splits)
  have ft: "wf_result ft = wf_result (as_res st)"
    using st(2) by (auto simp: parse_return_type_def wf_result_def Let_def split: if_splits sum.splits)
  obtain a b f om where r2: "res2 = res0\<lparr>is_pure := a, is_nodiscard := b, functionName := f, objectTypeMask := om\<rparr>" "f \<noteq> None"
    using parse_attributes_res [of "skip_spaces s" res0] parse_function_name_res [OF fn] at by auto
  have "wf_result res2" using r2 by (simp add: wf_result_def res0_def new_fn_type_def)
  with arg_loop_wf [OF st(1)] show ?thesis by (simp add: ft)
qed

theorem parse_result_wf_witness:
  "sq_parse_function_type_string ''f(a, [b])'' new_fn_type =
     Inr (new_fn_type\<lparr>functionName := Some ''f'', returnTypeMask := 1, argNames := [''a'', ''b''],
       argTypeMask := [- 1, - 1], defaultValues := [None, None], requiredArgs := 1\<rparr>) \<and>
   wf_result (new_fn_type\<lparr>functionName := Some ''f'', returnTypeMask := 1, argNames := [''a'', ''b''],
       argTypeMask := [- 1, - 1], defaultValues := [None, None], requiredArgs := 1\<rparr>)"
proof -
  have p: "sq_parse_function_type_string ''f(a, [b])'' new_fn_type =
     Inr (new_fn_type\<lparr>functionName := Some ''f'', returnTypeMask := 1, argNames := [''a'', ''b''],
       argTypeMask := [- 1, - 1], defaultValues := [None, None], requiredArgs := 1\<rparr>)"
    by code_simp
  show ?thesis using p parse_result_wf [OF p] by blast
qed

subsection \<open>Error positions\<close>

definition err_within :: "int \<Rightarrow> type_error + 'a \<Rightarrow> bool" where
  "err_within n r \<longleftrightarrow> (case r of Inl (e, _) \<Rightarrow> 0 \<le> e \<and> e \<le> n | Inr _ \<Rightarrow> True)"

lemma err_within_simps [simp]:
  "err_within n (Inl (e, msg)) = (0 \<le> e \<and> e \<le> n)" "err_within n (Inr x) = True"
  by (simp_all add: err_within_def)

lemma type_names_err: "length p \<le> length s \<Longrightarrow> err_within (int (length s)) (type_names s p m)"
proof (induction s p m rule: type_names.induct)
  case (1 s p m)
  show ?case
  proof (cases "parse_identifier p")
    case None
    then show ?thesis using 1(2) by (simp add: type_names.simps [of s p])
  next
    case (Some np)
    obtain name q where np: "np = (name, q)" by (cases np)
    have q: "length q \<le> length s" "length (skip_spaces (tl (skip_spaces q))) \<le> length s"
      using parse_identifier_shorter [of p name q] parse_identifier_skip [of p name q] Some np 1(2) by simp_all
    obtain r sg where r: "sq_type_string_to_mask name = (r, sg)" by (cases "sq_type_string_to_mask name")
    show ?thesis
    proof (cases r)
      case None
      then show ?thesis using Some np r q by (simp add: type_names.simps [of s p])
    next
      case (Some cur)
      with \<open>parse_identifier p = Some np\<close> np r q 1(1) [OF \<open>parse_identifier p = Some np\<close> np [symmetric] r [symmetric] Some]
      show ?thesis by (simp add: type_names.simps [of s p] Let_def)
    qed
  qed
qed

lemma parse_type_mask_err: "err_within (int (length p)) (parse_type_mask p)"
proof -
  let ?q = "if cur_char (skip_spaces p) = CHR ''('' then skip_spaces (tl (skip_spaces p)) else skip_spaces p"
  have q: "length ?q \<le> length p" using length_skip_spaces [of p] length_skip_tl_skip [of p] by simp
  note e = type_names_err [OF q, of 0]
  have "length r \<le> length p" if "type_names p ?q 0 = Inr (m, r)" for m r
    using type_names_shorter [OF that] q by simp
  with e show ?thesis
    by (auto simp: parse_type_mask_def Let_def split: sum.splits if_splits)
qed


lemma err_shift:
  assumes "err_within (int (length q)) (Inl (e, msg) :: type_error + 'a)" "length q \<le> length s"
  shows "0 \<le> e + pdiff q s + 1 \<and> e + pdiff q s + 1 \<le> int (length s) + 1"
  using assms by simp

lemma parse_type_mask_err_at:
  assumes "parse_type_mask q = Inl (e, msg)" "length q \<le> length s"
  shows "0 \<le> e + pdiff q s + 1 \<and> e + pdiff q s + 1 \<le> int (length s) + 1"
  using err_shift [where s = s and q = q] parse_type_mask_err [of q] assms by simp

lemma default_value_end_err:
  "length p \<le> length s \<Longrightarrow> err_within (int (length s) + 1) (default_value_end s ins so st p)"
proof (induction p arbitrary: ins so st rule: measure_induct_rule [of length])
  case (less p)
  show ?case
  proof (cases "cur_char p = NUL")
    case True
    then show ?thesis by (simp add: default_value_end.simps [of s ins so st p])
  next
    case False
    then have q: "length (skip_spaces (tl p)) < length p" "length (tl p) < length p" "length (tl (tl p)) < length p"
      using skip_tl_shorter tl_shorter [of p] by auto
    have IH: "err_within (int (length s) + 1) (default_value_end s i o' st2 q)"
      if "q \<in> {skip_spaces (tl p), tl p, tl (tl p)}" for i o' st2 q
      using that q less.prems by (intro less.IH) auto
    show ?thesis
      using less.prems False q(2) unfolding default_value_end.simps [of s ins so st p]
      by (simp add: IH)
  qed
qed

lemma parse_default_err:
  assumes "length p \<le> length s"
  shows "err_within (int (length s) + 1) (parse_default s ins p)"
proof -
  have "length r \<le> length s" if "default_value_end s ins NUL [] p = Inr (i, st, r)" for i st r
    using default_value_end_shorter [OF that] assms by simp
  with default_value_end_err [OF assms, of ins NUL "[]"] show ?thesis
    by (auto simp: parse_default_def Let_def split: sum.splits if_splits)
qed

lemma parse_arg_type_err:
  assumes "length p \<le> length s"
  shows "err_within (int (length s) + 1) (parse_arg_type s p)"
proof -
  have "length (skip_spaces p) \<le> length s" "length (skip_spaces (tl (skip_spaces p))) \<le> length s"
    using assms length_skip_spaces [of p] length_skip_tl_skip [of p] by simp_all
  then show ?thesis
    using parse_type_mask_err_at [where s = s and q = "skip_spaces (tl (skip_spaces p))"]
    by (auto simp: parse_arg_type_def Let_def split: sum.splits)
qed

lemma arg_default_err:
  assumes "length p \<le> length s"
  shows "err_within (int (length s) + 1) (arg_default s st p)"
  using parse_default_err [of "skip_spaces (tl p)" s "as_insideString st"] assms length_skip_tl [of p]
  by (auto simp: arg_default_def split: sum.splits)

lemma end_argument_err: "length p \<le> length s \<Longrightarrow> err_within (int (length s) + 1) (end_argument s st p)"
  using length_skip_spaces [of p] by (auto simp: end_argument_def Let_def)

lemma argument_step_err:
  assumes "length p \<le> length s"
  shows "err_within (int (length s) + 1) (argument_step s st p)"
proof (cases "parse_identifier p")
  case None
  then show ?thesis using assms by (simp add: argument_step_def)
next
  case (Some np)
  obtain name q where np: "np = (name, q)" by (cases np)
  have q: "length q \<le> length s" using parse_identifier_shorter [of p name q] Some np assms by simp
  have r: "length r \<le> length s" if "parse_arg_type s q = Inr (m, r)" for m r
    using parse_arg_type_shorter [OF that] q by simp
  have t: "length t \<le> length s" if "arg_default s st' r = Inr (i, dv, t)" "parse_arg_type s q = Inr (m, r)" for i dv t st' m r
    using arg_default_shorter [OF that(1)] r [OF that(2)] by simp
  show ?thesis
    using Some np parse_arg_type_err [OF q] arg_default_err [OF r] end_argument_err [OF t]
    by (auto simp: argument_step_def Let_def split: sum.splits) (metis err_within_simps(1) surj_pair)+
qed

lemma ellipsis_step_err:
  assumes "length p \<le> length s"
  shows "err_within (int (length s) + 1) (ellipsis_step s st p)"
proof -
  let ?q = "skip_spaces (drop 3 p)"
  have q: "length ?q \<le> length s" "length (skip_spaces (tl ?q)) \<le> length s"
    using assms length_skip_spaces [of "drop 3 p"] length_skip_tl [of ?q] by simp_all
  have r: "length (skip_spaces r) \<le> length s" if "parse_type_mask (skip_spaces (tl ?q)) = Inr (m, r)" for m r
    using parse_type_mask_shorter [OF that] q length_skip_spaces [of r] by simp
  show ?thesis
    using assms q r length_skip_spaces [of ?q] parse_type_mask_err_at [where s = s and q = "skip_spaces (tl ?q)"]
    by (auto simp: ellipsis_step_def Let_def split: sum.splits)
qed

lemma arg_step_err: "length (as_pos st) \<le> length s \<Longrightarrow> err_within (int (length s) + 1) (arg_step s st)"
proof -
  assume "length (as_pos st) \<le> length s"
  then have "length (skip_spaces (as_pos st)) \<le> length s" using length_skip_spaces [of "as_pos st"] by simp
  then show ?thesis using ellipsis_step_err argument_step_err by (simp add: arg_step_def Let_def)
qed

lemma arg_loop_err:
  "length (as_pos st) \<le> length s \<Longrightarrow> err_within (int (length s) + 1) (arg_loop s st)"
proof (induction s st rule: arg_loop.induct)
  case (1 s st)
  show ?case
  proof (cases "cur_char (as_pos st) = CHR '')''")
    case True
    then show ?thesis by (simp add: arg_loop.simps [of s st])
  next
    case False
    show ?thesis
    proof (cases "arg_step s st")
      case (Inl err)
      with False arg_step_err [OF "1.prems"] show ?thesis by (simp add: arg_loop.simps [of s st])
    next
      case (Inr st1)
      with "1.IH" [OF False Inr] arg_step_shorter [OF Inr] "1.prems" False show ?thesis
        by (simp add: arg_loop.simps [of s st])
    qed
  qed
qed

lemma arg_loop_pos: "arg_loop s st = Inr st' \<Longrightarrow> length (as_pos st') \<le> length (as_pos st)"
proof (induction s st rule: arg_loop.induct)
  case (1 s st)
  show ?case
  proof (cases "cur_char (as_pos st) = CHR '')''")
    case True
    then show ?thesis using "1.prems" by (simp add: arg_loop.simps [of s st])
  next
    case False
    then obtain st1 where st1: "arg_step s st = Inr st1" "arg_loop s st1 = Inr st'"
      using "1.prems"(1) by (auto simp: arg_loop.simps [of s st] split: sum.splits)
    with "1.IH" [OF False st1] arg_step_shorter [OF st1(1)] show ?thesis by simp
  qed
qed

lemma parse_attributes_shorter: "length (fst (parse_attributes p res)) \<le> length p"
proof (induction p res rule: parse_attributes.induct)
  case (1 p res)
  show ?case
    using "1.IH" length_skip_spaces [of "drop 5 p"] length_skip_spaces [of "drop 10 p"]
    unfolding parse_attributes.simps [of p res] by fastforce
qed

lemma parse_function_name_err:
  assumes "length p \<le> length s"
  shows "err_within (int (length s) + 1) (parse_function_name s p res)"
proof -
  have skip: "length (skip_spaces (tl (skip_spaces q))) \<le> length s" "length (skip_spaces q) \<le> length s"
      "length (skip_spaces (tl q)) \<le> length s" if "length q \<le> length s" for q
    using that length_skip_tl_skip [of q] length_skip_spaces [of q] length_skip_tl [of q] by simp_all
  show ?thesis
  proof (cases "cur_char p = CHR ''(''")
    case True
    have "length (skip_spaces r) \<le> length s \<and> length (skip_spaces (tl (skip_spaces r))) \<le> length s"
      if "parse_type_mask p = Inr (m, r)" for m r
      using parse_type_mask_shorter [OF that] assms skip [of r] by simp
    then show ?thesis
      using True parse_type_mask_err_at [where s = s and q = p] assms
      by (auto simp: parse_function_name_def Let_def split: sum.splits option.splits)
  next
    case False
    show ?thesis
    proof (cases "parse_identifier p")
      case None
      with False assms show ?thesis by (simp add: parse_function_name_def)
    next
      case (Some np)
      obtain name q where np: "np = (name, q)" by (cases np)
      have q: "length q \<le> length s" using parse_identifier_shorter [of p name q] Some np assms by simp
      have "p = name @ q"
        using Some np by (cases p) (auto simp: parse_identifier_def Let_def split: if_splits)
      then have nl: "length name \<le> length p" by simp
      have "pdiff r name \<le> int (length p)" "0 \<le> pdiff r name" if "parse_type_mask name = Inr (m, r)" for m r
        using parse_type_mask_shorter [OF that] nl by simp_all
      moreover have "0 \<le> e \<and> e \<le> int (length p)" if "parse_type_mask name = Inl (e, msg)" for e msg
        using parse_type_mask_err [of name] that nl by simp
      ultimately show ?thesis
        using False Some np skip(3) [OF q] assms
        by (fastforce simp: parse_function_name_def Let_def split: sum.splits option.splits)
    qed
  qed
qed

lemma parse_function_name_shorter: "parse_function_name s p res = Inr (p', res') \<Longrightarrow> length p' \<le> length p"
  using length_skip_tl length_skip_tl_skip length_skip_spaces
  by (auto simp: parse_function_name_def Let_def split: if_splits sum.splits option.splits prod.splits
      dest!: parse_identifier_shorter parse_type_mask_shorter) (meson le_trans less_imp_le_nat not_le)+

lemma parse_return_type_err:
  assumes "length p \<le> length s"
  shows "err_within (int (length s) + 1) (parse_return_type s p res)"
  using parse_type_mask_err_at [where s = s and q = "skip_spaces (tl p)"] length_skip_tl [of p] assms
  by (auto simp: parse_return_type_def Let_def split: sum.splits)

lemma parse_return_type_shorter: "parse_return_type s p res = Inr (p', res') \<Longrightarrow> length p' \<le> length p"
  using length_skip_tl [of p]
  by (auto simp: parse_return_type_def Let_def split: if_splits sum.splits dest!: parse_type_mask_shorter)

text \<open>When a type string is rejected, the reported position lies between 0 and one past the end of the string.\<close>

theorem parse_error_position:
  assumes "sq_parse_function_type_string s res = Inl (e, msg)"
  shows "0 \<le> e \<and> e \<le> int (length s) + 1"
proof (cases "s = []")
  case True
  then show ?thesis using assms by (simp add: sq_parse_function_type_string_def)
next
  case False
  define res0 where "res0 = res\<lparr>objectTypeMask := - 1, returnTypeMask := RT_NULL, requiredArgs := 0,
                       ellipsisArgTypeMask := 0, argNames := [], argTypeMask := []\<rparr>"
  let ?N = "int (length s) + 1"
  obtain p1 res1 where at: "parse_attributes (skip_spaces s) res0 = (p1, res1)" by fastforce
  have l1: "length p1 \<le> length s"
    using parse_attributes_shorter [of "skip_spaces s" res0] at length_skip_spaces [of s] by simp
  note unf = sq_parse_function_type_string_def res0_def [symmetric] Let_def
  have "err_within ?N (sq_parse_function_type_string s res)"
  proof (cases "parse_function_name s p1 res1")
    case (Inl err)
    with parse_function_name_err [OF l1, of res1] False at show ?thesis by (cases err) (simp add: unf)
  next
    case (Inr pr)
    obtain p2 res2 where pr: "pr = (p2, res2)" by (cases pr)
    have l2: "length (skip_spaces p2) \<le> length s" "length (skip_spaces (tl (skip_spaces p2))) \<le> length s"
      using parse_function_name_shorter [OF Inr [unfolded pr]] l1 length_skip_spaces [of p2] length_skip_tl_skip [of p2]
      by simp_all
    let ?st = "\<lparr>as_insideString = False, as_insideOptional = False, as_optionalBlockFinished = False,
        as_argumentProcessed = False, as_pos = skip_spaces (tl (skip_spaces p2)), as_res = res2\<rparr>"
    have e3: "err_within ?N (arg_loop s ?st)" using l2 by (intro arg_loop_err) simp
    show ?thesis
    proof (cases "arg_loop s ?st")
      case (Inl err)
      with e3 l2 Inr pr False at show ?thesis by (cases err) (simp add: unf)
    next
      case r: (Inr st)
      have l3: "length (as_pos st) \<le> length s" "length (skip_spaces (tl (as_pos st))) \<le> length s"
        using arg_loop_pos [OF r] l2 length_skip_tl [of "as_pos st"] by simp_all
      have e4: "err_within ?N (parse_return_type s (skip_spaces (tl (as_pos st))) (as_res st))"
        by (rule parse_return_type_err [OF l3(2)])
      have l4: "length (skip_spaces p4) \<le> length s"
        if "parse_return_type s (skip_spaces (tl (as_pos st))) (as_res st) = Inr (p4, res4)" for p4 res4
        using parse_return_type_shorter [OF that] l3 length_skip_spaces [of p4] by simp
      show ?thesis
        using e4 l4 l3(1) l2 Inr pr False at r
        by (cases "parse_return_type s (skip_spaces (tl (as_pos st))) (as_res st)") (auto simp: unf)
    qed
  qed
  with assms show ?thesis by simp
qed

theorem parse_error_position_witness:
  "sq_parse_function_type_string ''f(a b)'' new_fn_type =
     Inl (5, ''Expected '' @ [CHR 0x27] @ '':'' @ [CHR 0x27] @ '' after argument name'') \<and>
   (5 :: int) \<le> int (length ''f(a b)'') + 1"
proof -
  have p: "sq_parse_function_type_string ''f(a b)'' new_fn_type =
     Inl (5, ''Expected '' @ [CHR 0x27] @ '':'' @ [CHR 0x27] @ '' after argument name'')"
    by code_simp
  show ?thesis using p parse_error_position [OF p] by blast
qed

subsection \<open>Oddities of the parser\<close>

text \<open>The parser accepts two commas in a row between arguments, although it means to reject a comma with no argument before it.\<close>

theorem double_comma_accepted:
  "(case sq_parse_function_type_string ''f(a,,b)'' new_fn_type of
      Inl _ \<Rightarrow> False | Inr ft \<Rightarrow> argNames ft = [''a'', ''b'']) \<and>
   sq_parse_function_type_string ''f(,a)'' new_fn_type = Inl (3, ''Argument expected before '' @ [CHR 0x27] @ '','' @ [CHR 0x27])"
  by code_simp

text \<open>Parsing into a result that already holds an optional argument rejects a valid type string: the default values of the previous type are not cleared.\<close>

theorem reused_result_rejects:
  "(case sq_parse_function_type_string ''f(a=1)'' new_fn_type of
      Inl _ \<Rightarrow> False
    | Inr ft \<Rightarrow> sq_parse_function_type_string ''g(b)'' ft = Inl (4, ''Default value expected after optional argument'')) \<and>
   (case sq_parse_function_type_string ''g(b)'' new_fn_type of Inl _ \<Rightarrow> False | Inr _ \<Rightarrow> True)"
  by code_simp

end
