(* ===== verification/Rex.thy ===== *)
theory Rex
  imports CharClass
begin

text \<open>
  \<^verbatim>\<open>sqstdlib/sqstdrex.cpp\<close>: the regular expressions of the string library. A pattern is
  compiled into an array of nodes that refer to each other by index; the matcher walks this
  array. The compiler part of the state is a record with the rest of the pattern
  (\<open>_p\<close>), the nodes and their allocated size; \<open>longjmp\<close> is the result \<open>Err\<close>. Recursion is
  bounded by fuel (\<open>NoFuel\<close>), and the theory \<open>RexCompile\<close> shows how much is enough.
\<close>

subsection \<open>Nodes\<close>

definition SQ_MAX_CHAR :: int where "SQ_MAX_CHAR = 0xFF"
definition OP_GREEDY :: int where "OP_GREEDY = SQ_MAX_CHAR + 1"
definition OP_OR :: int where "OP_OR = SQ_MAX_CHAR + 2"
definition OP_EXPR :: int where "OP_EXPR = SQ_MAX_CHAR + 3"
definition OP_NOCAPEXPR :: int where "OP_NOCAPEXPR = SQ_MAX_CHAR + 4"
definition OP_DOT :: int where "OP_DOT = SQ_MAX_CHAR + 5"
definition OP_CLASS :: int where "OP_CLASS = SQ_MAX_CHAR + 6"
definition OP_CCLASS :: int where "OP_CCLASS = SQ_MAX_CHAR + 7"
definition OP_NCLASS :: int where "OP_NCLASS = SQ_MAX_CHAR + 8"
definition OP_RANGE :: int where "OP_RANGE = SQ_MAX_CHAR + 9"
definition OP_EOL :: int where "OP_EOL = SQ_MAX_CHAR + 11"
definition OP_BOL :: int where "OP_BOL = SQ_MAX_CHAR + 12"
definition OP_WB :: int where "OP_WB = SQ_MAX_CHAR + 13"
definition OP_MB :: int where "OP_MB = SQ_MAX_CHAR + 14"

lemmas OP_defs = SQ_MAX_CHAR_def OP_GREEDY_def OP_OR_def OP_EXPR_def OP_NOCAPEXPR_def OP_DOT_def
  OP_CLASS_def OP_CCLASS_def OP_NCLASS_def OP_RANGE_def OP_EOL_def OP_BOL_def OP_WB_def OP_MB_def

record rex_node =
  rn_type :: int
  rn_left :: int
  rn_right :: int
  rn_next :: int

record rex =
  rx_p :: string
  rx_nodes :: "rex_node list"
  rx_nallocated :: nat
  rx_depth :: int
  rx_nsubexpr :: int

datatype 'a rex_res = NoFuel | Err string | Ok 'a

definition rex_bind :: "'a rex_res \<Rightarrow> ('a \<Rightarrow> 'b rex_res) \<Rightarrow> 'b rex_res" where
  "rex_bind r f = (case r of NoFuel \<Rightarrow> NoFuel | Err e \<Rightarrow> Err e | Ok x \<Rightarrow> f x)"

lemma rex_bind_Ok [simp]: "rex_bind (Ok x) f = f x"
  and rex_bind_Err [simp]: "rex_bind (Err e) f = Err e"
  and rex_bind_NoFuel [simp]: "rex_bind NoFuel f = NoFuel"
  by (simp_all add: rex_bind_def)

lemma rex_bind_OkD: "rex_bind r f = Ok y \<longleftrightarrow> (\<exists>x. r = Ok x \<and> f x = Ok y)"
  by (cases r) simp_all

lemma rex_bind_NoFuelD: "rex_bind r f = NoFuel \<longleftrightarrow> r = NoFuel \<or> (\<exists>x. r = Ok x \<and> f x = NoFuel)"
  by (cases r) simp_all

definition nodeat :: "rex \<Rightarrow> int \<Rightarrow> rex_node" where
  "nodeat rx n = rx_nodes rx ! nat n"

definition upd_node :: "rex \<Rightarrow> int \<Rightarrow> (rex_node \<Rightarrow> rex_node) \<Rightarrow> rex" where
  "upd_node rx n f = rx\<lparr>rx_nodes := (rx_nodes rx)[nat n := f (rx_nodes rx ! nat n)]\<rparr>"

definition set_left :: "int \<Rightarrow> int \<Rightarrow> rex \<Rightarrow> rex" where
  "set_left n v rx = upd_node rx n (\<lambda>nd. nd\<lparr>rn_left := v\<rparr>)"

definition set_right :: "int \<Rightarrow> int \<Rightarrow> rex \<Rightarrow> rex" where
  "set_right n v rx = upd_node rx n (\<lambda>nd. nd\<lparr>rn_right := v\<rparr>)"

definition set_link :: "int \<Rightarrow> int \<Rightarrow> rex \<Rightarrow> rex" where
  "set_link n v rx = upd_node rx n (\<lambda>nd. nd\<lparr>rn_next := v\<rparr>)"

definition adv :: "rex \<Rightarrow> rex" where
  "adv rx = rx\<lparr>rx_p := tl (rx_p rx)\<rparr>"

abbreviation pchar :: "rex \<Rightarrow> char" where
  "pchar rx \<equiv> cur_char (rx_p rx)"

definition sqstd_rex_newnode :: "rex \<Rightarrow> int \<Rightarrow> rex \<times> int" where
  "sqstd_rex_newnode rx type =
     (let n = \<lparr>rn_type = type, rn_left = - 1, rn_right = (if type = OP_EXPR then rx_nsubexpr rx else - 1), rn_next = - 1\<rparr>;
          rx = (if type = OP_EXPR then rx\<lparr>rx_nsubexpr := rx_nsubexpr rx + 1\<rparr> else rx);
          rx = (if rx_nallocated rx < length (rx_nodes rx) + 1 then rx\<lparr>rx_nallocated := rx_nallocated rx * 2\<rparr> else rx)
      in (rx\<lparr>rx_nodes := rx_nodes rx @ [n]\<rparr>, int (length (rx_nodes rx))))"

definition sqstd_rex_expect :: "rex \<Rightarrow> char \<Rightarrow> rex rex_res" where
  "sqstd_rex_expect rx n = (if pchar rx \<noteq> n then Err ''expected paren'' else Ok (adv rx))"

subsection \<open>Characters and classes\<close>

definition sqstd_rex_escapechar :: "rex \<Rightarrow> (rex \<times> int) rex_res" where
  "sqstd_rex_escapechar rx =
     (if pchar rx = CHR 0x5C then
        (let rx = adv rx; c = pchar rx in
         if c = NUL then Err ''letter expected''
         else Ok (adv rx,
           if c = CHR ''v'' then 11 else if c = CHR ''n'' then 10 else if c = CHR ''t'' then 9
           else if c = CHR ''r'' then 13 else if c = CHR ''f'' then 12 else schar c))
      else if \<not> sq_isprint (schar (pchar rx)) then Err ''letter expected''
      else Ok (adv rx, schar (pchar rx)))"

definition sqstd_rex_charclass :: "rex \<Rightarrow> int \<Rightarrow> rex \<times> int" where
  "sqstd_rex_charclass rx classid =
     (let (rx, n) = sqstd_rex_newnode rx OP_CCLASS in (set_left n classid rx, n))"

definition class_letters :: string where
  "class_letters = ''aAwWsSdDxXcCpPlu''"

text \<open>The branch \<open>case 'm'\<close>, behind the \<open>m\<close>.\<close>

definition rex_balanced :: "rex \<Rightarrow> (rex \<times> int) rex_res" where
  "rex_balanced rx =
     (if pchar rx = NUL then Err ''balanced chars expected''
      else (let cb = pchar rx; rx = adv rx in
            if pchar rx = NUL then Err ''balanced chars expected''
            else (let ce = pchar rx; rx = adv rx in
                  if cb = ce then Err (''open/close char can'' @ [CHR 0x27] @ ''t be the same'')
                  else (let (rx, node) = sqstd_rex_newnode rx OP_MB in
                        Ok (set_right node (schar ce) (set_left node (schar cb) rx), node)))))"

definition sqstd_rex_charnode :: "rex \<Rightarrow> bool \<Rightarrow> (rex \<times> int) rex_res" where
  "sqstd_rex_charnode rx isclass =
     (if pchar rx = CHR 0x5C then
        (let rx = adv rx; c = pchar rx in
         if c = CHR ''n'' then Ok (sqstd_rex_newnode (adv rx) 10)
         else if c = CHR ''t'' then Ok (sqstd_rex_newnode (adv rx) 9)
         else if c = CHR ''r'' then Ok (sqstd_rex_newnode (adv rx) 13)
         else if c = CHR ''f'' then Ok (sqstd_rex_newnode (adv rx) 12)
         else if c = CHR ''v'' then Ok (sqstd_rex_newnode (adv rx) 11)
         else if c \<in> set class_letters then Ok (sqstd_rex_charclass (adv rx) (schar c))
         else if c = CHR ''m'' then rex_balanced (adv rx)
         else if c = NUL then Err ''letter expected for argument of escape sequence''
         else if (c = CHR ''b'' \<or> c = CHR ''B'') \<and> \<not> isclass then
           (let (rx, node) = sqstd_rex_newnode rx OP_WB; rx = set_left node (schar c) rx in Ok (adv rx, node))
         else Ok (sqstd_rex_newnode (adv rx) (schar c)))
      else if \<not> sq_isprint (schar (pchar rx)) then Err ''letter expected''
      else Ok (sqstd_rex_newnode (adv rx) (schar (pchar rx))))"

lemma newnode_p [simp]: "sqstd_rex_newnode rx type = (rx', n) \<Longrightarrow> rx_p rx' = rx_p rx"
  by (auto simp: sqstd_rex_newnode_def Let_def)

lemma set_p [simp]: "rx_p (set_left n v rx) = rx_p rx" "rx_p (set_right n v rx) = rx_p rx" "rx_p (set_link n v rx) = rx_p rx"
  by (simp_all add: set_left_def set_right_def set_link_def upd_node_def)

lemma adv_p [simp]: "rx_p (adv rx) = tl (rx_p rx)"
  by (simp add: adv_def)

lemma pchar_Nil: "pchar rx \<noteq> NUL \<Longrightarrow> rx_p rx \<noteq> []"
  by auto

lemma isprint_not_NUL: "sq_isprint (schar c) \<Longrightarrow> c \<noteq> NUL"
  by auto

lemma charnode_shorter:
  assumes "sqstd_rex_charnode rx isclass = Ok (rx', n)"
  shows "length (rx_p rx') < length (rx_p rx)"
proof -
  have ne: "rx_p rx \<noteq> []" using assms by (auto simp: sqstd_rex_charnode_def split: if_splits)
  have "length (rx_p rx') \<le> length (tl (rx_p rx))"
    using assms
    by (auto simp: sqstd_rex_charnode_def sqstd_rex_charclass_def rex_balanced_def Let_def
        split: if_splits prod.splits dest!: newnode_p)
  with ne show ?thesis by (cases "rx_p rx") auto
qed

lemma escapechar_shorter:
  assumes "sqstd_rex_escapechar rx = Ok (rx', t)"
  shows "length (rx_p rx') < length (rx_p rx)"
proof -
  have ne: "rx_p rx \<noteq> []" using assms by (auto simp: sqstd_rex_escapechar_def split: if_splits)
  have "length (rx_p rx') \<le> length (tl (rx_p rx))"
    using assms by (auto simp: sqstd_rex_escapechar_def Let_def split: if_splits)
  with ne show ?thesis by (cases "rx_p rx") auto
qed

text \<open>One range in a class; the \<open>-\<close> is the current character and \<open>first\<close> the node before it.\<close>

definition rex_range :: "rex \<Rightarrow> int \<Rightarrow> int \<Rightarrow> (rex \<times> int) rex_res" where
  "rex_range rx chain first =
     (let rx = adv rx in
      if pchar rx = CHR '']'' then Err ''unfinished range''
      else
        (let (rx, r) = sqstd_rex_newnode rx OP_RANGE in
         if rn_type (nodeat rx first) = OP_CCLASS then Err ''cannot use character classes in ranges''
         else
           (let rx = set_left r (rn_type (nodeat rx first)) rx in
            rex_bind (sqstd_rex_escapechar rx) (\<lambda>(rx, t).
              if rn_left (nodeat rx r) > t then Err ''invalid range''
              else Ok (set_link chain r (set_right r t rx), r)))))"

lemma rex_range_shorter: "rex_range rx chain first = Ok (rx', r) \<Longrightarrow> length (rx_p rx') < length (rx_p rx)"
  by (auto simp: rex_range_def rex_bind_OkD Let_def split: if_splits prod.splits
      dest!: escapechar_shorter)

text \<open>The loop of \<open>sqstd_rex_class\<close>; the result is the state with the last \<open>chain\<close> and \<open>first\<close>.\<close>

function rex_class_loop :: "rex \<Rightarrow> int \<Rightarrow> int \<Rightarrow> (rex \<times> int \<times> int) rex_res" where
  "rex_class_loop rx chain first =
     (if pchar rx = CHR '']'' \<or> pchar rx = NUL then Ok (rx, chain, first)
      else if pchar rx = CHR ''-'' \<and> first \<noteq> - 1 then
        (case rex_range rx chain first of
           NoFuel \<Rightarrow> NoFuel | Err e \<Rightarrow> Err e | Ok (rx', r) \<Rightarrow> rex_class_loop rx' r (- 1))
      else if first \<noteq> - 1 then
        (case sqstd_rex_charnode (set_link chain first rx) True of
           NoFuel \<Rightarrow> NoFuel | Err e \<Rightarrow> Err e | Ok (rx', n) \<Rightarrow> rex_class_loop rx' first n)
      else
        (case sqstd_rex_charnode rx True of
           NoFuel \<Rightarrow> NoFuel | Err e \<Rightarrow> Err e | Ok (rx', n) \<Rightarrow> rex_class_loop rx' chain n))"
  by pat_completeness auto
termination
  by (relation "measure (\<lambda>(rx, chain, first). length (rx_p rx))")
     (auto dest: rex_range_shorter charnode_shorter)

declare rex_class_loop.simps [simp del]

definition sqstd_rex_class :: "rex \<Rightarrow> (rex \<times> int) rex_res" where
  "sqstd_rex_class rx =
     (let (rx, ret) = (if pchar rx = CHR ''^''
                       then (let (rx, n) = sqstd_rex_newnode rx OP_NCLASS in (adv rx, n))
                       else sqstd_rex_newnode rx OP_CLASS)
      in if pchar rx = CHR '']'' then Err ''empty class''
         else rex_bind (rex_class_loop rx ret (- 1)) (\<lambda>(rx, chain, first).
           if pchar rx = NUL then Err ''unterminated character class''
           else
             (let rx = (if first \<noteq> - 1 then set_link chain first rx else rx);
                  rx = set_left ret (rn_next (nodeat rx ret)) rx
              in Ok (set_link ret (- 1) rx, ret))))"

subsection \<open>Quantifiers\<close>

fun rex_digits :: "string \<Rightarrow> int \<Rightarrow> int \<Rightarrow> (string \<times> int) rex_res" where
  "rex_digits [] ret positions = Ok ([], ret)"
| "rex_digits (c # s) ret positions =
     (if sq_isdigit (schar c) then
        (let ret = ret * 10 + (schar c - 48) in
         if positions = 1000000000 then Err ''overflow in numeric constant''
         else rex_digits s ret (positions * 10))
      else Ok (c # s, ret))"

definition sqstd_rex_parsenumber :: "rex \<Rightarrow> (rex \<times> int) rex_res" where
  "sqstd_rex_parsenumber rx =
     (let ret = schar (pchar rx) - 48; rx = adv rx in
      rex_bind (rex_digits (rx_p rx) ret 10) (\<lambda>(s, ret). Ok (rx\<lparr>rx_p := s\<rparr>, ret)))"

text \<open>The part after \<open>{n\<close>.\<close>

definition rex_upper_bound :: "rex \<Rightarrow> int \<Rightarrow> (rex \<times> int) rex_res" where
  "rex_upper_bound rx p0 =
     (if pchar rx = CHR ''}'' then Ok (adv rx, p0)
      else if pchar rx = CHR '','' then
        (let rx = adv rx in
         rex_bind
           (if sq_isdigit (schar (pchar rx)) then
              rex_bind (sqstd_rex_parsenumber rx) (\<lambda>(rx, n).
                if n > 0xFFFE then Err ''quantifier value too large'' else Ok (rx, n))
            else Ok (rx, 0xFFFF))
           (\<lambda>(rx, p1). rex_bind (sqstd_rex_expect rx CHR ''}'') (\<lambda>rx.
              if p0 > p1 then Err ''invalid quantifier range: min > max'' else Ok (rx, p1))))
      else Err '', or } expected'')"

text \<open>The quantifier after an element: \<open>None\<close> when there is none.\<close>

definition rex_quantifier :: "rex \<Rightarrow> (rex \<times> (int \<times> int) option) rex_res" where
  "rex_quantifier rx =
     (if pchar rx = CHR ''*'' then Ok (adv rx, Some (0, 0xFFFF))
      else if pchar rx = CHR ''+'' then Ok (adv rx, Some (1, 0xFFFF))
      else if pchar rx = CHR ''?'' then Ok (adv rx, Some (0, 1))
      else if pchar rx = CHR ''{'' then
        (let rx = adv rx in
         if \<not> sq_isdigit (schar (pchar rx)) then Err ''number expected''
         else rex_bind (sqstd_rex_parsenumber rx) (\<lambda>(rx, n).
           if n > 0xFFFE then Err ''quantifier value too large''
           else rex_bind (rex_upper_bound rx n) (\<lambda>(rx, p1). Ok (rx, Some (n, p1)))))
      else Ok (rx, None))"

definition rex_greedy :: "rex \<Rightarrow> int \<Rightarrow> (int \<times> int) option \<Rightarrow> rex \<times> int" where
  "rex_greedy rx ret q =
     (case q of
        None \<Rightarrow> (rx, ret)
      | Some (p0, p1) \<Rightarrow>
          (let (rx, nnode) = sqstd_rex_newnode rx OP_GREEDY;
               rx = set_left nnode ret rx;
               rx = set_right nnode (p0 * 65536 + p1) rx
           in (rx, nnode)))"

subsection \<open>Elements and lists\<close>

text \<open>\<open>sqstd_rex_element\<close> and \<open>sqstd_rex_list\<close>; \<open>rex_atom\<close> is the first switch of the former.\<close>

fun rex_atom :: "nat \<Rightarrow> rex \<Rightarrow> (rex \<times> int) rex_res"
  and sqstd_rex_element :: "nat \<Rightarrow> rex \<Rightarrow> (rex \<times> int) rex_res"
  and sqstd_rex_list :: "nat \<Rightarrow> rex \<Rightarrow> (rex \<times> int) rex_res" where
  "rex_atom 0 rx = NoFuel"
| "rex_atom (Suc fuel) rx =
     (if pchar rx = CHR ''('' then
        (let rx = adv rx in
         rex_bind
           (if pchar rx = CHR ''?'' then
              rex_bind (sqstd_rex_expect (adv rx) CHR '':'') (\<lambda>rx. Ok (sqstd_rex_newnode rx OP_NOCAPEXPR))
            else Ok (sqstd_rex_newnode rx OP_EXPR))
           (\<lambda>(rx, expr). rex_bind (sqstd_rex_list fuel rx) (\<lambda>(rx, newn).
              rex_bind (sqstd_rex_expect (set_left expr newn rx) CHR '')'') (\<lambda>rx. Ok (rx, expr)))))
      else if pchar rx = CHR ''['' then
        rex_bind (sqstd_rex_class (adv rx)) (\<lambda>(rx, ret).
          rex_bind (sqstd_rex_expect rx CHR '']'') (\<lambda>rx. Ok (rx, ret)))
      else if pchar rx = CHR ''$'' then Ok (sqstd_rex_newnode (adv rx) OP_EOL)
      else if pchar rx = CHR ''.'' then Ok (sqstd_rex_newnode (adv rx) OP_DOT)
      else sqstd_rex_charnode rx False)"
| "sqstd_rex_element 0 rx = NoFuel"
| "sqstd_rex_element (Suc fuel) rx =
     (let rx = rx\<lparr>rx_depth := rx_depth rx + 1\<rparr> in
      if rx_depth rx > 200 then Err ''pattern exceeds maximum allowed nesting depth''
      else if length (rx_nodes rx) > 2000 then Err ''pattern too complex''
      else
        rex_bind (rex_atom fuel rx) (\<lambda>(rx, ret).
          rex_bind (rex_quantifier rx) (\<lambda>(rx, q).
            (let (rx, ret) = rex_greedy rx ret q in
             rex_bind
               (if pchar rx \<notin> {CHR ''|'', CHR '')'', CHR ''*'', CHR ''+'', NUL} then
                  rex_bind (sqstd_rex_element fuel rx) (\<lambda>(rx, nnode). Ok (set_link ret nnode rx))
                else Ok rx)
               (\<lambda>rx. Ok (rx\<lparr>rx_depth := rx_depth rx - 1\<rparr>, ret))))))"
| "sqstd_rex_list 0 rx = NoFuel"
| "sqstd_rex_list (Suc fuel) rx =
     (let (rx, ret) = (if pchar rx = CHR ''^'' then sqstd_rex_newnode (adv rx) OP_BOL else (rx, - 1)) in
      rex_bind (sqstd_rex_element fuel rx) (\<lambda>(rx, e).
        (let (rx, ret) = (if ret \<noteq> - 1 then (set_link ret e rx, ret) else (rx, e)) in
         if pchar rx = CHR ''|'' then
           (let (rx, temp) = sqstd_rex_newnode (adv rx) OP_OR; rx = set_left temp ret rx in
            rex_bind (sqstd_rex_list fuel rx) (\<lambda>(rx, tright). Ok (set_right temp tright rx, temp)))
         else Ok (rx, ret))))"

text \<open>\<open>sqstd_rex_compile\<close>: the nodes (the root is node 0) and the number of subexpressions.\<close>

definition rex_init :: "string \<Rightarrow> rex" where
  "rex_init pattern = \<lparr>rx_p = pattern, rx_nodes = [], rx_nallocated = max 4 (length pattern), rx_depth = 0, rx_nsubexpr = 0\<rparr>"

definition rex_compile_fuel :: "string \<Rightarrow> nat" where
  "rex_compile_fuel pattern = 3 * length pattern + 3"

definition sqstd_rex_compile :: "string \<Rightarrow> rex rex_res" where
  "sqstd_rex_compile pattern =
     (let (rx, first) = sqstd_rex_newnode (rex_init pattern) OP_EXPR in
      rex_bind (sqstd_rex_list (rex_compile_fuel pattern) rx) (\<lambda>(rx, res).
        (let rx = set_left first res rx in
         if pchar rx \<noteq> NUL then Err ''unexpected character'' else Ok rx)))"

end
