(* ===== verification/RexCompile.thy ===== *)
theory RexCompile
  imports Rex
begin

text \<open>
  The pattern compiler always answers, and the node array it builds represents a finite
  syntax tree: every index is in range and no chain is circular. The trees of this theory
  (\<open>rtree\<close>) are what the matcher recurses over.
\<close>

subsection \<open>Progress and fuel\<close>

lemma newnode_eq: "rx_p (fst (sqstd_rex_newnode rx type)) = rx_p rx"
  using newnode_p [of rx type] by (cases "sqstd_rex_newnode rx type") simp

lemma class_loop_shorter: "rex_class_loop rx chain first = Ok (rx', c, f) \<Longrightarrow> length (rx_p rx') \<le> length (rx_p rx)"
proof (induction rx chain first rule: rex_class_loop.induct)
  case (1 rx chain first)
  consider "pchar rx = CHR '']'' \<or> pchar rx = NUL"
    | "\<not> (pchar rx = CHR '']'' \<or> pchar rx = NUL)" "pchar rx = CHR ''-'' \<and> first \<noteq> - 1"
    | "\<not> (pchar rx = CHR '']'' \<or> pchar rx = NUL)" "\<not> (pchar rx = CHR ''-'' \<and> first \<noteq> - 1)" "first \<noteq> - 1"
    | "\<not> (pchar rx = CHR '']'' \<or> pchar rx = NUL)" "\<not> (pchar rx = CHR ''-'' \<and> first \<noteq> - 1)" "first = - 1"
    by blast
  then show ?case
  proof cases
    case 1
    then show ?thesis using "1.prems" by (simp add: rex_class_loop.simps [of rx])
  next
    case 2
    then obtain rx1 r where r: "rex_range rx chain first = Ok (rx1, r)" "rex_class_loop rx1 r (- 1) = Ok (rx', c, f)"
      using "1.prems" by (auto simp: rex_class_loop.simps [of rx] split: rex_res.splits)
    with "1.IH"(1) [OF 2 r(1) refl] rex_range_shorter [OF r(1)] show ?thesis by simp
  next
    case 3
    then obtain rx1 r where r: "sqstd_rex_charnode (set_link chain first rx) True = Ok (rx1, r)"
      "rex_class_loop rx1 first r = Ok (rx', c, f)"
      using "1.prems" by (auto simp: rex_class_loop.simps [of rx] split: rex_res.splits)
    with "1.IH"(2) [OF 3 r(1) refl] charnode_shorter [OF r(1)] show ?thesis by simp
  next
    case 4
    then obtain rx1 r where r: "sqstd_rex_charnode rx True = Ok (rx1, r)" "rex_class_loop rx1 chain r = Ok (rx', c, f)"
      using "1.prems" by (auto simp: rex_class_loop.simps [of rx] split: rex_res.splits)
    with "1.IH"(3) [OF 4(1,2) _ r(1) refl] charnode_shorter [OF r(1)] 4(3) show ?thesis by simp
  qed
qed

lemma charnode_NoFuel [simp]: "sqstd_rex_charnode rx b \<noteq> NoFuel"
  by (simp add: sqstd_rex_charnode_def rex_balanced_def Let_def split: prod.split)

lemma escapechar_NoFuel [simp]: "sqstd_rex_escapechar rx \<noteq> NoFuel"
  by (simp add: sqstd_rex_escapechar_def Let_def)

lemma range_NoFuel [simp]: "rex_range rx c f \<noteq> NoFuel"
  by (auto simp: rex_range_def rex_bind_NoFuelD Let_def split: prod.splits if_splits)

lemma class_loop_NoFuel [simp]: "rex_class_loop rx chain first \<noteq> NoFuel"
proof (induction rx chain first rule: rex_class_loop.induct)
  case (1 rx chain first)
  then show ?case
    unfolding rex_class_loop.simps [of rx chain first] by (auto split: rex_res.splits)
qed

lemma class_NoFuel [simp]: "sqstd_rex_class rx \<noteq> NoFuel"
  by (auto simp: sqstd_rex_class_def rex_bind_NoFuelD Let_def split: prod.splits if_splits)

lemma expect_NoFuel [simp]: "sqstd_rex_expect rx c \<noteq> NoFuel"
  by (simp add: sqstd_rex_expect_def)

lemma digits_NoFuel [simp]: "rex_digits s r p \<noteq> NoFuel"
  by (induction s r p rule: rex_digits.induct) (auto simp: Let_def)

lemma parsenumber_NoFuel [simp]: "sqstd_rex_parsenumber rx \<noteq> NoFuel"
  by (auto simp: sqstd_rex_parsenumber_def rex_bind_NoFuelD Let_def)

lemma upper_bound_NoFuel [simp]: "rex_upper_bound rx p0 \<noteq> NoFuel"
  by (auto simp: rex_upper_bound_def rex_bind_NoFuelD Let_def split: if_splits)

lemma quantifier_NoFuel [simp]: "rex_quantifier rx \<noteq> NoFuel"
  by (auto simp: rex_quantifier_def rex_bind_NoFuelD Let_def split: if_splits)

lemma digits_shorter: "rex_digits s r p = Ok (s', r') \<Longrightarrow> length s' \<le> length s"
  by (induction s r p rule: rex_digits.induct) (fastforce simp: Let_def split: if_splits)+

lemma expect_shorter: "sqstd_rex_expect rx c = Ok rx' \<Longrightarrow> length (rx_p rx') \<le> length (rx_p rx)"
  by (auto simp: sqstd_rex_expect_def split: if_splits)

lemma parsenumber_shorter: "sqstd_rex_parsenumber rx = Ok (rx', n) \<Longrightarrow> length (rx_p rx') \<le> length (rx_p rx)"
  by (auto simp: sqstd_rex_parsenumber_def rex_bind_OkD Let_def dest!: digits_shorter)

lemma upper_bound_shorter: "rex_upper_bound rx p0 = Ok (rx', n) \<Longrightarrow> length (rx_p rx') \<le> length (rx_p rx)"
  by (auto simp: rex_upper_bound_def rex_bind_OkD Let_def split: if_splits
      dest!: parsenumber_shorter expect_shorter)

lemma quantifier_shorter: "rex_quantifier rx = Ok (rx', q) \<Longrightarrow> length (rx_p rx') \<le> length (rx_p rx)"
  by (auto simp: rex_quantifier_def rex_bind_OkD Let_def split: if_splits
      dest!: parsenumber_shorter upper_bound_shorter)

lemma greedy_p: "rx_p (fst (rex_greedy rx ret q)) = rx_p rx"
  by (auto simp: rex_greedy_def newnode_eq Let_def split: option.split prod.split dest!: newnode_p)

lemma class_shorter: "sqstd_rex_class rx = Ok (rx', n) \<Longrightarrow> length (rx_p rx') \<le> length (rx_p rx)"
  by (auto simp: sqstd_rex_class_def rex_bind_OkD Let_def split: if_splits prod.splits
      dest!: newnode_p class_loop_shorter)

text \<open>An atom consumes at least one character.\<close>

lemma atom_shorter:
  assumes list: "\<And>rx rx' n. sqstd_rex_list fuel rx = Ok (rx', n) \<Longrightarrow> length (rx_p rx') \<le> length (rx_p rx)"
    and "rex_atom (Suc fuel) rx = Ok (rx', n)"
  shows "length (rx_p rx') < length (rx_p rx)"
proof (cases "pchar rx \<in> {CHR ''('', CHR ''['', CHR ''$'', CHR ''.''}")
  case True
  then have ne: "rx_p rx \<noteq> []" by auto
  have "length (rx_p rx') \<le> length (tl (rx_p rx))"
    using True assms(2)
    by (auto simp: rex_bind_OkD newnode_eq Let_def split: if_splits prod.splits
        dest!: list class_shorter expect_shorter newnode_p)
  with ne show ?thesis by (cases "rx_p rx") auto
next
  case False
  then show ?thesis using assms(2) charnode_shorter [of rx False rx' n] by simp
qed

text \<open>What a successful element and list consist of.\<close>

lemma element_OkE:
  assumes "sqstd_rex_element (Suc fuel) rx = Ok (rx', n)"
  obtains rx1 ret rx2 q rx3 rx4 where
    "rex_atom fuel (rx\<lparr>rx_depth := rx_depth rx + 1\<rparr>) = Ok (rx1, ret)"
    "rex_quantifier rx1 = Ok (rx2, q)" "rex_greedy rx2 ret q = (rx3, n)"
    "rx4 = rx3 \<and> pchar rx3 \<in> {CHR ''|'', CHR '')'', CHR ''*'', CHR ''+'', NUL} \<or>
     (\<exists>rx5 nn. pchar rx3 \<notin> {CHR ''|'', CHR '')'', CHR ''*'', CHR ''+'', NUL} \<and>
        sqstd_rex_element fuel rx3 = Ok (rx5, nn) \<and> rx4 = set_link n nn rx5)"
    "rx' = rx4\<lparr>rx_depth := rx_depth rx4 - 1\<rparr>"
proof -
  from assms obtain rx1 ret where a: "rex_atom fuel (rx\<lparr>rx_depth := rx_depth rx + 1\<rparr>) = Ok (rx1, ret)"
    by (auto simp: Let_def rex_bind_OkD split: if_splits)
  with assms obtain rx2 q where b: "rex_quantifier rx1 = Ok (rx2, q)"
    by (auto simp: Let_def rex_bind_OkD split: if_splits)
  obtain rx3 n' where c: "rex_greedy rx2 ret q = (rx3, n')" by fastforce
  have n: "n' = n" and d: "rex_bind
               (if pchar rx3 \<notin> {CHR ''|'', CHR '')'', CHR ''*'', CHR ''+'', NUL} then
                  rex_bind (sqstd_rex_element fuel rx3) (\<lambda>(rx, nnode). Ok (set_link n nnode rx))
                else Ok rx3)
               (\<lambda>rx. Ok (rx\<lparr>rx_depth := rx_depth rx - 1\<rparr>, n)) = Ok (rx', n)"
    using assms a b c by (auto simp: Let_def rex_bind_OkD split: if_splits)
  show thesis
  proof (cases "pchar rx3 \<in> {CHR ''|'', CHR '')'', CHR ''*'', CHR ''+'', NUL}")
    case True
    then show thesis using a b c n d by (intro that [of rx1 ret rx2 q rx3 rx3]) auto
  next
    case False
    then obtain rx5 nn where "sqstd_rex_element fuel rx3 = Ok (rx5, nn)"
      "rx' = (set_link n nn rx5)\<lparr>rx_depth := rx_depth (set_link n nn rx5) - 1\<rparr>"
      using d by (auto simp: rex_bind_OkD)
    with False show thesis using a b c n by (intro that [of rx1 ret rx2 q rx3 "set_link n nn rx5"]) auto
  qed
qed

lemma list_OkE:
  assumes "sqstd_rex_list (Suc fuel) rx = Ok (rx', n)"
  obtains rx1 bol rx2 e rx3 ret where
    "pchar rx = CHR ''^'' \<and> sqstd_rex_newnode (adv rx) OP_BOL = (rx1, bol) \<or> pchar rx \<noteq> CHR ''^'' \<and> rx1 = rx \<and> bol = - 1"
    "sqstd_rex_element fuel rx1 = Ok (rx2, e)"
    "bol \<noteq> - 1 \<and> rx3 = set_link bol e rx2 \<and> ret = bol \<or> bol = - 1 \<and> rx3 = rx2 \<and> ret = e"
    "pchar rx3 \<noteq> CHR ''|'' \<and> rx' = rx3 \<and> n = ret \<or>
     (\<exists>rx4 rx5 tright. pchar rx3 = CHR ''|'' \<and> sqstd_rex_newnode (adv rx3) OP_OR = (rx4, n) \<and>
        sqstd_rex_list fuel (set_left n ret rx4) = Ok (rx5, tright) \<and> rx' = set_right n tright rx5)"
proof -
  obtain rx1 bol where a: "(if pchar rx = CHR ''^'' then sqstd_rex_newnode (adv rx) OP_BOL else (rx, - 1)) = (rx1, bol)"
    by fastforce
  with assms obtain rx2 e where b: "sqstd_rex_element fuel rx1 = Ok (rx2, e)"
    by (auto simp: Let_def rex_bind_OkD split: if_splits)
  obtain rx3 ret where c: "(if bol \<noteq> - 1 then (set_link bol e rx2, bol) else (rx2, e)) = (rx3, ret)"
    by fastforce
  have d: "(if pchar rx3 = CHR ''|'' then
           (let (rx, temp) = sqstd_rex_newnode (adv rx3) OP_OR; rx = set_left temp ret rx in
            rex_bind (sqstd_rex_list fuel rx) (\<lambda>(rx, tright). Ok (set_right temp tright rx, temp)))
         else Ok (rx3, ret)) = Ok (rx', n)"
    using assms a b c by (simp only: sqstd_rex_list.simps Let_def rex_bind_Ok prod.case)
  show thesis
    by (rule that [of rx1 bol rx2 e rx3 ret])
       (use a b c d in \<open>auto simp: Let_def rex_bind_OkD split: if_splits prod.splits\<close>)
qed

lemma element_list_shorter:
  "(sqstd_rex_element fuel rx = Ok (rx', n) \<longrightarrow> length (rx_p rx') < length (rx_p rx)) \<and>
   (sqstd_rex_list fuel rx = Ok (rx', n) \<longrightarrow> length (rx_p rx') < length (rx_p rx)) \<and>
   (rex_atom fuel rx = Ok (rx', n) \<longrightarrow> length (rx_p rx') < length (rx_p rx))"
proof (induction fuel arbitrary: rx rx' n)
  case 0
  then show ?case by simp
next
  case (Suc fuel)
  show ?case
  proof (intro conjI impI)
    show "length (rx_p rx') < length (rx_p rx)" if "rex_atom (Suc fuel) rx = Ok (rx', n)"
      using atom_shorter [OF _ that] Suc.IH less_imp_le by blast
    show "length (rx_p rx') < length (rx_p rx)" if el: "sqstd_rex_element (Suc fuel) rx = Ok (rx', n)"
    proof -
      from el obtain rx1 ret rx2 q rx3 rx4 where st:
        "rex_atom fuel (rx\<lparr>rx_depth := rx_depth rx + 1\<rparr>) = Ok (rx1, ret)"
        "rex_quantifier rx1 = Ok (rx2, q)" "rex_greedy rx2 ret q = (rx3, n)"
        "rx4 = rx3 \<or> (\<exists>rx5 nn. sqstd_rex_element fuel rx3 = Ok (rx5, nn) \<and> rx4 = set_link n nn rx5)"
        "rx' = rx4\<lparr>rx_depth := rx_depth rx4 - 1\<rparr>"
        by (rule element_OkE) blast
      have "length (rx_p rx1) < length (rx_p rx)" using Suc.IH st(1) by fastforce
      moreover have "length (rx_p rx2) \<le> length (rx_p rx1)" using quantifier_shorter [OF st(2)] .
      moreover have "rx_p rx3 = rx_p rx2" using greedy_p [of rx2 ret q] st(3) by simp
      moreover have "length (rx_p rx4) \<le> length (rx_p rx3)" using st(4) Suc.IH by (auto intro: less_imp_le)
      ultimately show ?thesis using st(5) by simp
    qed
    show "length (rx_p rx') < length (rx_p rx)" if ls: "sqstd_rex_list (Suc fuel) rx = Ok (rx', n)"
    proof -
      from ls obtain rx1 bol rx2 e rx3 ret where st:
        "pchar rx = CHR ''^'' \<and> sqstd_rex_newnode (adv rx) OP_BOL = (rx1, bol) \<or> rx1 = rx"
        "sqstd_rex_element fuel rx1 = Ok (rx2, e)"
        "rx3 = set_link bol e rx2 \<or> rx3 = rx2"
        "rx' = rx3 \<or> (\<exists>rx4 rx5 tright. sqstd_rex_newnode (adv rx3) OP_OR = (rx4, n) \<and>
           sqstd_rex_list fuel (set_left n ret rx4) = Ok (rx5, tright) \<and> rx' = set_right n tright rx5)"
        by (rule list_OkE) blast
      have "length (rx_p rx1) \<le> length (rx_p rx)" using st(1) by (auto dest!: newnode_p)
      moreover have "length (rx_p rx2) < length (rx_p rx1)" using Suc.IH st(2) by blast
      moreover have "rx_p rx3 = rx_p rx2" using st(3) by auto
      moreover have "length (rx_p rx') \<le> length (rx_p rx3)"
      proof (cases "rx' = rx3")
        case False
        with st(4) obtain rx4 rx5 tright where r: "sqstd_rex_newnode (adv rx3) OP_OR = (rx4, n)"
           "sqstd_rex_list fuel (set_left n ret rx4) = Ok (rx5, tright)" "rx' = set_right n tright rx5" by blast
        have "length (rx_p rx5) < length (rx_p (set_left n ret rx4))" using Suc.IH r(2) by blast
        with r(3) newnode_p [OF r(1)] show ?thesis by simp
      qed simp
      ultimately show ?thesis by simp
    qed
  qed
qed

lemma greedy_p': "rex_greedy rx ret q = (rx', n) \<Longrightarrow> rx_p rx' = rx_p rx"
  using greedy_p [of rx ret q] by simp

lemma pchar_pos: "pchar rx \<noteq> NUL \<Longrightarrow> length (rx_p (adv rx)) < length (rx_p rx)"
  by (cases "rx_p rx") auto

lemma enough_fuel:
  "(3 * length (rx_p rx) + 1 \<le> fuel \<longrightarrow> rex_atom fuel rx \<noteq> NoFuel) \<and>
   (3 * length (rx_p rx) + 2 \<le> fuel \<longrightarrow> sqstd_rex_element fuel rx \<noteq> NoFuel) \<and>
   (3 * length (rx_p rx) + 3 \<le> fuel \<longrightarrow> sqstd_rex_list fuel rx \<noteq> NoFuel)"
proof (induction fuel arbitrary: rx)
  case 0
  then show ?case by simp
next
  case (Suc fuel)
  note IHa = Suc.IH [THEN conjunct1, rule_format]
    and IHe = Suc.IH [THEN conjunct2, THEN conjunct1, rule_format]
    and IHl = Suc.IH [THEN conjunct2, THEN conjunct2, rule_format]
  show ?case
  proof (intro conjI impI)
    assume le: "3 * length (rx_p rx) + 1 \<le> Suc fuel"
    show "rex_atom (Suc fuel) rx \<noteq> NoFuel"
    proof (cases "pchar rx = CHR ''(''")
      case True
      then have ad: "length (rx_p (adv rx)) < length (rx_p rx)" using pchar_pos [of rx] by simp
      have "sqstd_rex_list fuel rx1 \<noteq> NoFuel" if "length (rx_p rx1) \<le> length (rx_p (adv rx))" for rx1
        using that ad le by (intro IHl) simp
      moreover have "length (rx_p rx1) \<le> length (rx_p (adv rx))"
        if "sqstd_rex_newnode (adv rx) OP_EXPR = (rx1, e)" for rx1 e
        using newnode_p [OF that] by simp
      moreover have "length (rx_p rx1) \<le> length (rx_p (adv rx))"
        if "sqstd_rex_newnode rx2 OP_NOCAPEXPR = (rx1, e)" "sqstd_rex_expect (adv (adv rx)) CHR '':'' = Ok rx2" for rx1 rx2 e
        using newnode_p [OF that(1)] expect_shorter [OF that(2)] by simp
      ultimately show ?thesis
        using True by (auto simp: rex_bind_NoFuelD rex_bind_OkD Let_def split: if_splits)
    qed (auto simp: rex_bind_NoFuelD Let_def)
  next
    assume le: "3 * length (rx_p rx) + 2 \<le> Suc fuel"
    let ?rx = "rx\<lparr>rx_depth := rx_depth rx + 1\<rparr>"
    have "rex_atom fuel ?rx \<noteq> NoFuel" using le by (intro IHa) simp
    moreover have "sqstd_rex_element fuel rx3 \<noteq> NoFuel"
      if "rex_atom fuel ?rx = Ok (rx1, ret)" "rex_quantifier rx1 = Ok (rx2, q)" "rex_greedy rx2 ret q = (rx3, n)"
      for rx1 ret rx2 q rx3 n
    proof -
      have "length (rx_p rx1) < length (rx_p ?rx)" using element_list_shorter that(1) by blast
      with quantifier_shorter [OF that(2)] greedy_p' [OF that(3)] le show ?thesis by (intro IHe) simp
    qed
    ultimately show "sqstd_rex_element (Suc fuel) rx \<noteq> NoFuel"
      by (auto simp: rex_bind_NoFuelD rex_bind_OkD Let_def split: if_splits prod.splits)
  next
    assume le: "3 * length (rx_p rx) + 3 \<le> Suc fuel"
    have "sqstd_rex_element fuel rx \<noteq> NoFuel" using le by (intro IHe) simp
    moreover have "sqstd_rex_element fuel rx1 \<noteq> NoFuel" if "sqstd_rex_newnode (adv rx) OP_BOL = (rx1, n)" for rx1 n
      using newnode_p [OF that] le by (intro IHe) simp
    moreover have "sqstd_rex_list fuel (set_left n r rx4) \<noteq> NoFuel"
      if "sqstd_rex_newnode (adv rx3) OP_OR = (rx4, n)" "sqstd_rex_element fuel rx1 = Ok (rx2, e)"
        "rx_p rx3 = rx_p rx2" "length (rx_p rx1) \<le> length (rx_p rx)" for rx1 rx2 rx3 rx4 n r e
    proof -
      have "length (rx_p rx2) < length (rx_p rx1)" using element_list_shorter that(2) by blast
      with newnode_p [OF that(1)] that(3,4) le show ?thesis by (intro IHl) simp
    qed
    moreover have "length (rx_p rx1) \<le> length (rx_p rx)" if "sqstd_rex_newnode (adv rx) OP_BOL = (rx1, n)" for rx1 n
      using newnode_p [OF that] by simp
    ultimately show "sqstd_rex_list (Suc fuel) rx \<noteq> NoFuel"
      by (auto simp: rex_bind_NoFuelD rex_bind_OkD Let_def split: if_splits prod.splits)
  qed
qed

text \<open>C20: The pattern compiler answers for every pattern: it returns the compiled expression or an error, and the recursion never exceeds the bound given by the pattern's length.\<close>

theorem rex_compile_answers:
  "(\<exists>rx. sqstd_rex_compile pattern = Ok rx) \<or> (\<exists>msg. sqstd_rex_compile pattern = Err msg)"
proof -
  obtain rx first where rx: "sqstd_rex_newnode (rex_init pattern) OP_EXPR = (rx, first)" by fastforce
  have "rx_p rx = pattern" using newnode_p [OF rx] by (simp add: rex_init_def)
  then have "sqstd_rex_list (rex_compile_fuel pattern) rx \<noteq> NoFuel"
    using enough_fuel [of rx "rex_compile_fuel pattern"] by (simp add: rex_compile_fuel_def)
  then have "sqstd_rex_compile pattern \<noteq> NoFuel"
    using rx by (auto simp: sqstd_rex_compile_def rex_bind_NoFuelD Let_def split: if_splits)
  then show ?thesis by (cases "sqstd_rex_compile pattern") auto
qed

end
