(* ===== verification/RexTree.thy ===== *)
theory RexTree
  imports RexCompile
begin

text \<open>
  The node array of a compiled pattern as a syntax tree. \<open>node_rep ns k lo hi i t\<close> says that node
  \<open>i\<close> of the array \<open>ns\<close>, with the nodes it owns, all at indices from \<open>lo\<close> below \<open>hi\<close>,
  represents the tree \<open>t\<close>; \<open>seq_rep\<close> the same of a chain linked by \<open>next\<close>; \<open>k\<close> is the number of
  subexpressions, which bounds the capture index of a group.
\<close>

datatype rtree =
    Leaf
  | Cls nat
  | Greedy rtree
  | Group "rtree list"
  | Alt "rtree list" "rtree list"

definition simple_type :: "int \<Rightarrow> bool" where
  "simple_type ty \<longleftrightarrow> ty \<notin> {OP_GREEDY, OP_OR, OP_EXPR, OP_NOCAPEXPR, OP_CLASS, OP_NCLASS}"

text \<open>The two 16-bit bounds packed into \<open>right\<close>.\<close>

definition good_bounds :: "int \<Rightarrow> bool" where
  "good_bounds r \<longleftrightarrow> (\<exists>p0 p1. r = p0 * 65536 + p1 \<and> 0 \<le> p0 \<and> p0 \<le> p1 \<and> p1 \<le> 0xFFFF)"

fun chain_rep :: "rex_node list \<Rightarrow> int \<Rightarrow> int \<Rightarrow> int \<Rightarrow> nat \<Rightarrow> bool" where
  "chain_rep ns lo hi i 0 \<longleftrightarrow> i = - 1"
| "chain_rep ns lo hi i (Suc n) \<longleftrightarrow> lo \<le> i \<and> i < hi \<and> chain_rep ns lo hi (rn_next (ns ! nat i)) n"

fun node_rep :: "rex_node list \<Rightarrow> int \<Rightarrow> int \<Rightarrow> int \<Rightarrow> int \<Rightarrow> rtree \<Rightarrow> bool"
  and seq_rep :: "rex_node list \<Rightarrow> int \<Rightarrow> int \<Rightarrow> int \<Rightarrow> int \<Rightarrow> rtree list \<Rightarrow> bool" where
  "node_rep ns k lo hi i Leaf \<longleftrightarrow> lo \<le> i \<and> i < hi \<and> simple_type (rn_type (ns ! nat i))"
| "node_rep ns k lo hi i (Cls n) \<longleftrightarrow> lo \<le> i \<and> i < hi \<and>
     (rn_type (ns ! nat i) = OP_CLASS \<or> rn_type (ns ! nat i) = OP_NCLASS) \<and>
     0 < n \<and> int n < hi - i \<and> chain_rep ns (i + 1) hi (rn_left (ns ! nat i)) n"
| "node_rep ns k lo hi i (Greedy t) \<longleftrightarrow> lo \<le> i \<and> i < hi \<and>
     rn_type (ns ! nat i) = OP_GREEDY \<and> good_bounds (rn_right (ns ! nat i)) \<and>
     node_rep ns k lo i (rn_left (ns ! nat i)) t \<and> rn_next (ns ! nat (rn_left (ns ! nat i))) = - 1"
| "node_rep ns k lo hi i (Group ts) \<longleftrightarrow> lo \<le> i \<and> i < hi \<and>
     (rn_type (ns ! nat i) = OP_EXPR \<and> 0 \<le> rn_right (ns ! nat i) \<and> rn_right (ns ! nat i) < k \<or>
      rn_type (ns ! nat i) = OP_NOCAPEXPR) \<and>
     ts \<noteq> [] \<and> seq_rep ns k (i + 1) hi (rn_left (ns ! nat i)) ts"
| "node_rep ns k lo hi i (Alt ls rs) \<longleftrightarrow> lo \<le> i \<and> i < hi \<and>
     rn_type (ns ! nat i) = OP_OR \<and> ls \<noteq> [] \<and> rs \<noteq> [] \<and>
     seq_rep ns k lo i (rn_left (ns ! nat i)) ls \<and> seq_rep ns k (i + 1) hi (rn_right (ns ! nat i)) rs"
| "seq_rep ns k lo hi i [] \<longleftrightarrow> i = - 1"
| "seq_rep ns k lo hi i (t # ts) \<longleftrightarrow>
     (\<exists>mid. lo \<le> mid \<and> mid \<le> hi \<and> node_rep ns k lo mid i t \<and> seq_rep ns k mid hi (rn_next (ns ! nat i)) ts)"

lemma node_rep_range: "node_rep ns k lo hi i t \<Longrightarrow> lo \<le> i \<and> i < hi"
  by (cases t) auto

subsection \<open>Frame\<close>

text \<open>A representation only depends on the nodes it owns, and not on the link of its own root.\<close>

definition agree :: "rex_node list \<Rightarrow> rex_node list \<Rightarrow> int \<Rightarrow> int \<Rightarrow> bool" where
  "agree ns ns' lo hi \<longleftrightarrow> (\<forall>j. lo \<le> j \<and> j < hi \<longrightarrow> ns' ! nat j = ns ! nat j)"

lemma agree_mono: "agree ns ns' lo hi \<Longrightarrow> lo \<le> lo' \<Longrightarrow> hi' \<le> hi \<Longrightarrow> agree ns ns' lo' hi'"
  by (auto simp: agree_def)

lemma chain_rep_frame: "chain_rep ns lo hi i n \<Longrightarrow> agree ns ns' lo hi \<Longrightarrow> lo' \<le> lo \<Longrightarrow> hi \<le> hi' \<Longrightarrow> chain_rep ns' lo' hi' i n"
  by (induction n arbitrary: i) (auto simp: agree_def)

lemma rep_frame:
  "node_rep ns k lo hi i t \<Longrightarrow> agree ns ns' lo hi \<Longrightarrow> k \<le> k' \<Longrightarrow> hi \<le> hi' \<Longrightarrow> node_rep ns' k' lo hi' i t"
  "seq_rep ns k lo hi i ts \<Longrightarrow> agree ns ns' lo hi \<Longrightarrow> k \<le> k' \<Longrightarrow> hi \<le> hi' \<Longrightarrow> seq_rep ns' k' lo hi' i ts"
proof (induction ns k lo hi i t and ns k lo hi i ts arbitrary: hi' and hi' rule: node_rep_seq_rep.induct)
  case (2 ns k lo hi i n)
  then have "agree ns ns' (i + 1) hi" by (auto elim: agree_mono)
  with 2 show ?case using chain_rep_frame [of ns "i + 1" hi _ n ns' "i + 1" hi'] by (auto simp: agree_def)
next
  case (3 ns k lo hi i t)
  then have "agree ns ns' lo i" by (auto elim: agree_mono)
  then show ?case using 3 node_rep_range [of ns k lo i "rn_left (ns ! nat i)" t] by (auto simp: agree_def)
next
  case (4 ns k lo hi i ts)
  then have "agree ns ns' (i + 1) hi" by (auto elim: agree_mono)
  with 4 show ?case by (auto simp: agree_def)
next
  case (5 ns k lo hi i ls rs)
  then have "agree ns ns' (i + 1) hi" "agree ns ns' lo i" by (auto elim: agree_mono)
  with 5 show ?case by (auto simp: agree_def)
next
  case (7 ns k lo hi i t ts)
  then obtain mid where mid: "lo \<le> mid" "mid \<le> hi" "node_rep ns k lo mid i t" "seq_rep ns k mid hi (rn_next (ns ! nat i)) ts"
    by auto
  then have "agree ns ns' lo mid" "agree ns ns' mid hi" using 7 by (auto elim: agree_mono)
  with 7 mid have "node_rep ns' k' lo mid i t" "seq_rep ns' k' mid hi' (rn_next (ns ! nat i)) ts" by auto
  moreover have "ns' ! nat i = ns ! nat i"
    using node_rep_range [OF mid(3)] 7 mid by (auto simp: agree_def)
  ultimately show ?case using mid 7 by auto
qed (auto simp: agree_def)

lemma node_rep_lo: "node_rep ns k lo hi i t \<Longrightarrow> lo' \<le> lo \<Longrightarrow> node_rep ns k lo' hi i t"
  and seq_rep_lo: "seq_rep ns k lo hi i ts \<Longrightarrow> lo' \<le> lo \<Longrightarrow> seq_rep ns k lo' hi i ts"
  by (induction ns k lo hi i t and ns k lo hi i ts arbitrary: lo' and lo' rule: node_rep_seq_rep.induct)
     (auto, meson order_trans)

text \<open>Linking the root of a tree to a chain that owns later nodes.\<close>

lemma node_rep_link:
  assumes "node_rep ns k lo hi i t" "0 \<le> lo" "hi \<le> int (length ns)"
  shows "node_rep (ns[nat i := (ns ! nat i)\<lparr>rn_next := v\<rparr>]) k lo hi i t"
proof -
  let ?ns = "ns[nat i := (ns ! nat i)\<lparr>rn_next := v\<rparr>]"
  have i: "lo \<le> i" "i < hi" using node_rep_range [OF assms(1)] by auto
  have at: "?ns ! nat i = (ns ! nat i)\<lparr>rn_next := v\<rparr>" using i assms(2,3) by simp
  have other: "?ns ! nat j = ns ! nat j" if "0 \<le> j" "j \<noteq> i" for j
    using that i assms(2) by (simp add: nth_list_update)
  have a1: "agree ns ?ns lo i" and a2: "agree ns ?ns (i + 1) hi"
    using other assms(2) i by (auto simp: agree_def)
  show ?thesis
  proof (cases t)
    case Leaf
    then show ?thesis using assms(1) at by simp
  next
    case (Cls n)
    then show ?thesis using assms(1) at chain_rep_frame [OF _ a2] by auto
  next
    case (Greedy u)
    have "lo \<le> rn_left (ns ! nat i)" "rn_left (ns ! nat i) < i"
      using assms(1) Greedy node_rep_range by auto
    then show ?thesis using assms(1,2) at Greedy rep_frame(1) [OF _ a1, of k "rn_left (ns ! nat i)" u k i] other
      by auto
  next
    case (Group ts)
    then show ?thesis using assms(1) at rep_frame(2) [OF _ a2, of k _ ts k hi] by auto
  next
    case (Alt ls rs)
    then show ?thesis
      using assms(1) at rep_frame(2) [OF _ a2, of k _ rs k hi] rep_frame(2) [OF _ a1, of k _ ls k i] by auto
  qed
qed

subsection \<open>What each part of the compiler adds\<close>

definition alloc_ok :: "rex \<Rightarrow> bool" where
  "alloc_ok rx \<longleftrightarrow> length (rx_nodes rx) \<le> rx_nallocated rx \<and> 0 < rx_nallocated rx"

text \<open>\<open>rx'\<close> extends \<open>rx\<close>: earlier nodes are unchanged and the array is large enough.\<close>

definition ext :: "rex \<Rightarrow> rex \<Rightarrow> bool" where
  "ext rx rx' \<longleftrightarrow> length (rx_nodes rx) \<le> length (rx_nodes rx') \<and>
     agree (rx_nodes rx) (rx_nodes rx') 0 (int (length (rx_nodes rx))) \<and>
     rx_nsubexpr rx \<le> rx_nsubexpr rx' \<and> (alloc_ok rx \<longrightarrow> alloc_ok rx')"

lemma ext_refl [simp]: "ext rx rx"
  by (simp add: ext_def agree_def)

lemma ext_trans: "ext a b \<Longrightarrow> ext b c \<Longrightarrow> ext a c"
  by (auto simp: ext_def agree_def)

lemma ext_p [simp]: "ext rx (rx'\<lparr>rx_p := s\<rparr>) = ext rx rx'" "ext (rx\<lparr>rx_p := s\<rparr>) rx' = ext rx rx'"
  "ext rx (rx'\<lparr>rx_depth := d\<rparr>) = ext rx rx'" "ext (rx\<lparr>rx_depth := d\<rparr>) rx' = ext rx rx'"
  by (simp_all add: ext_def alloc_ok_def)

lemma adv_simps [simp]: "rx_nodes (adv rx) = rx_nodes rx" "rx_nsubexpr (adv rx) = rx_nsubexpr rx"
  "rx_nallocated (adv rx) = rx_nallocated rx" "alloc_ok (adv rx) = alloc_ok rx" "ext rx (adv rx') = ext rx rx'" "ext (adv rx) rx' = ext rx rx'"
  by (simp_all add: adv_def alloc_ok_def)

lemma upd_node_simps [simp]:
  "length (rx_nodes (upd_node rx n f)) = length (rx_nodes rx)" "rx_nsubexpr (upd_node rx n f) = rx_nsubexpr rx"
  "alloc_ok (upd_node rx n f) = alloc_ok rx"
  by (simp_all add: upd_node_def alloc_ok_def)

lemma ext_upd: "ext rx rx' \<Longrightarrow> int (length (rx_nodes rx)) \<le> n \<Longrightarrow> ext rx (upd_node rx' n f)"
  by (auto simp: ext_def agree_def upd_node_def alloc_ok_def nth_list_update)

lemmas set_defs = set_left_def set_right_def set_link_def

lemma newnode_nodes: "rx_nodes (fst (sqstd_rex_newnode rx type)) = rx_nodes rx @ [\<lparr>rn_type = type, rn_left = - 1,
       rn_right = (if type = OP_EXPR then rx_nsubexpr rx else - 1), rn_next = - 1\<rparr>]"
  unfolding sqstd_rex_newnode_def Let_def fst_conv
  by (cases "type = OP_EXPR"; cases "rx_nallocated rx < length (rx_nodes rx) + 1"; simp)
lemma newnode_nallocated: "rx_nallocated (fst (sqstd_rex_newnode rx type)) = (if rx_nallocated rx < length (rx_nodes rx) + 1 then rx_nallocated rx * 2 else rx_nallocated rx)"
  unfolding sqstd_rex_newnode_def Let_def fst_conv
  by (cases "type = OP_EXPR"; cases "rx_nallocated rx < length (rx_nodes rx) + 1"; simp)
lemma newnode_nsubexpr: "rx_nsubexpr (fst (sqstd_rex_newnode rx type)) = rx_nsubexpr rx + (if type = OP_EXPR then 1 else 0)"
  unfolding sqstd_rex_newnode_def Let_def fst_conv
  by (cases "type = OP_EXPR"; cases "rx_nallocated rx < length (rx_nodes rx) + 1"; simp)
lemma newnode_id: "snd (sqstd_rex_newnode rx type) = int (length (rx_nodes rx))"
  unfolding sqstd_rex_newnode_def Let_def snd_conv
  by (cases "type = OP_EXPR"; cases "rx_nallocated rx < length (rx_nodes rx) + 1"; simp)
lemma newnode_spec:
  assumes "sqstd_rex_newnode rx type = (rx', n)"
  shows "n = int (length (rx_nodes rx))"
    "rx_nodes rx' = rx_nodes rx @ [\<lparr>rn_type = type, rn_left = - 1,
       rn_right = (if type = OP_EXPR then rx_nsubexpr rx else - 1), rn_next = - 1\<rparr>]"
    "rx_nsubexpr rx' = rx_nsubexpr rx + (if type = OP_EXPR then 1 else 0)"
    "alloc_ok rx \<Longrightarrow> alloc_ok rx'" "ext rx rx'"
proof -
  have rx': "rx' = fst (sqstd_rex_newnode rx type)" "n = snd (sqstd_rex_newnode rx type)" using assms by simp_all
  show nodes: "rx_nodes rx' = rx_nodes rx @ [\<lparr>rn_type = type, rn_left = - 1,
       rn_right = (if type = OP_EXPR then rx_nsubexpr rx else - 1), rn_next = - 1\<rparr>]"
    unfolding rx' by (rule newnode_nodes)
  show "n = int (length (rx_nodes rx))" unfolding rx' by (rule newnode_id)
  show sub: "rx_nsubexpr rx' = rx_nsubexpr rx + (if type = OP_EXPR then 1 else 0)"
    unfolding rx' by (rule newnode_nsubexpr)
  have "rx_nallocated rx' = (if rx_nallocated rx < length (rx_nodes rx) + 1 then rx_nallocated rx * 2 else rx_nallocated rx)"
    unfolding rx' by (rule newnode_nallocated)
  then show al: "alloc_ok rx \<Longrightarrow> alloc_ok rx'" using nodes by (simp add: alloc_ok_def split: if_splits)
  show "ext rx rx'" using al by (auto simp: ext_def agree_def nodes sub nth_append)
qed

text \<open>One new node with no link.\<close>

definition adds_leaf :: "rex \<Rightarrow> rex \<Rightarrow> int \<Rightarrow> bool" where
  "adds_leaf rx rx' n \<longleftrightarrow> n = int (length (rx_nodes rx)) \<and>
     (\<exists>nd. rx_nodes rx' = rx_nodes rx @ [nd] \<and> rn_next nd = - 1 \<and> simple_type (rn_type nd)) \<and>
     rx_nsubexpr rx' = rx_nsubexpr rx \<and> (alloc_ok rx \<longrightarrow> alloc_ok rx')"

lemma newnode_leaf:
  assumes "sqstd_rex_newnode rx type = (rx', n)" "simple_type type"
  shows "adds_leaf rx rx' n"
  using newnode_spec [OF assms(1)] assms(2) by (auto simp: adds_leaf_def simple_type_def)

lemma adds_leaf_set:
  "adds_leaf rx rx' n \<Longrightarrow> adds_leaf rx (set_left n v rx') n"
  "adds_leaf rx rx' n \<Longrightarrow> adds_leaf rx (set_right n v rx') n"
  "adds_leaf rx (adv rx') n = adds_leaf rx rx' n" "adds_leaf (adv rx) rx' n = adds_leaf rx rx' n"
  by (auto simp: adds_leaf_def set_defs upd_node_def alloc_ok_def)

lemma adds_leaf_p [simp]: "adds_leaf rx (rx'\<lparr>rx_p := s\<rparr>) n = adds_leaf rx rx' n"
  by (simp add: adds_leaf_def alloc_ok_def)

lemma simple_char: "simple_type (schar c)"
  using schar_range [of c] by (auto simp: simple_type_def OP_defs)

lemma simple_ops: "simple_type 9" "simple_type 10" "simple_type 11" "simple_type 12" "simple_type 13"
  "simple_type OP_WB" "simple_type OP_MB" "simple_type OP_CCLASS" "simple_type OP_DOT" "simple_type OP_EOL"
  "simple_type OP_BOL" "simple_type OP_RANGE"
  by (simp_all add: simple_type_def OP_defs)

lemma charnode_leaf: "sqstd_rex_charnode rx b = Ok (rx', n) \<Longrightarrow> adds_leaf rx rx' n"
  by (auto simp: sqstd_rex_charnode_def sqstd_rex_charclass_def rex_balanced_def Let_def adds_leaf_set
      split: if_splits prod.splits dest!: newnode_leaf [OF _ simple_char] newnode_leaf [OF _ simple_ops(1)]
      newnode_leaf [OF _ simple_ops(2)] newnode_leaf [OF _ simple_ops(3)] newnode_leaf [OF _ simple_ops(4)]
      newnode_leaf [OF _ simple_ops(5)] newnode_leaf [OF _ simple_ops(6)] newnode_leaf [OF _ simple_ops(7)]
      newnode_leaf [OF _ simple_ops(8)])

lemma adds_leaf_ext: "adds_leaf rx rx' n \<Longrightarrow> ext rx rx'"
  by (auto simp: adds_leaf_def ext_def agree_def nth_append)

lemma adds_leaf_rep:
  "adds_leaf rx rx' n \<Longrightarrow> node_rep (rx_nodes rx') k (int (length (rx_nodes rx))) (int (length (rx_nodes rx'))) n Leaf \<and>
     rn_next (nodeat rx' n) = - 1"
  by (auto simp: adds_leaf_def nodeat_def)

lemma escapechar_nodes: "sqstd_rex_escapechar rx = Ok (rx', t) \<Longrightarrow> \<exists>s. rx' = rx\<lparr>rx_p := s\<rparr>"
  by (auto simp: sqstd_rex_escapechar_def adv_def Let_def split: if_splits)

lemma range_leaf:
  assumes "rex_range rx chain first = Ok (rx', r)"
  shows "\<exists>rx1. adds_leaf rx rx1 r \<and> rx' = set_link chain r rx1"
proof -
  obtain rx1 where rx1: "sqstd_rex_newnode (adv rx) OP_RANGE = (rx1, r)"
    using assms by (auto simp: rex_range_def rex_bind_OkD Let_def split: if_splits prod.splits)
  let ?rx2 = "set_left r (rn_type (nodeat rx1 first)) rx1"
  obtain s t where "rx' = set_link chain r (set_right r t (?rx2\<lparr>rx_p := s\<rparr>))"
    using assms rx1 by (auto simp: rex_range_def rex_bind_OkD Let_def split: if_splits dest!: escapechar_nodes)
  moreover have "adds_leaf rx (set_right r t (?rx2\<lparr>rx_p := s\<rparr>)) r"
    using newnode_leaf [OF rx1 simple_ops(12)] by (intro adds_leaf_set) (simp add: adds_leaf_set)
  ultimately show ?thesis by blast
qed

subsection \<open>Character classes\<close>

fun linked :: "rex_node list \<Rightarrow> int list \<Rightarrow> bool" where
  "linked ns [] \<longleftrightarrow> False"
| "linked ns [i] \<longleftrightarrow> rn_next (ns ! nat i) = - 1"
| "linked ns (i # j # r) \<longleftrightarrow> rn_next (ns ! nat i) = j \<and> linked ns (j # r)"

lemma linked_frame: "linked ns xs \<Longrightarrow> \<forall>i \<in> set xs. rn_next (ns' ! nat i) = rn_next (ns ! nat i) \<Longrightarrow> linked ns' xs"
  by (induction ns xs rule: linked.induct) auto

lemma linked_snoc:
  assumes "linked ns xs" "distinct xs" "f \<notin> set xs" "rn_next (ns ! nat f) = - 1" "\<forall>i \<in> set (f # xs). 0 \<le> i \<and> i < int (length ns)"
  shows "linked (ns[nat (last xs) := (ns ! nat (last xs))\<lparr>rn_next := f\<rparr>]) (xs @ [f])"
  using assms
proof (induction ns xs rule: linked.induct)
  case (2 ns i)
  then show ?case by (auto simp: nth_list_update)
next
  case (3 ns i j r)
  have l: "last (j # r) \<in> set (j # r)" by (rule last_in_set) simp
  then have "last (j # r) \<noteq> i" "0 \<le> last (j # r)" "0 \<le> i" using 3 by (auto simp del: last.simps)
  then have "nat (last (j # r)) \<noteq> nat i" by simp
  with 3 show ?case by (auto simp: nth_list_update)
qed simp

lemma linked_chain: "linked ns (i # xs) \<Longrightarrow> \<forall>j \<in> set xs. lo \<le> j \<and> j < hi \<Longrightarrow> chain_rep ns lo hi (rn_next (ns ! nat i)) (length xs)"
  by (induction xs arbitrary: i) auto

definition class_inv :: "rex \<Rightarrow> int \<Rightarrow> int list \<Rightarrow> int \<Rightarrow> int \<Rightarrow> bool" where
  "class_inv rx ret xs chain first \<longleftrightarrow>
     0 \<le> ret \<and> xs \<noteq> [] \<and> hd xs = ret \<and> last xs = chain \<and> linked (rx_nodes rx) xs \<and> distinct xs \<and>
     (\<forall>i \<in> set xs. ret \<le> i \<and> i < int (length (rx_nodes rx))) \<and>
     (first = - 1 \<or> ret < first \<and> first < int (length (rx_nodes rx)) \<and> first \<notin> set xs \<and>
        rn_next (rx_nodes rx ! nat first) = - 1)"

lemma class_inv_link:
  assumes "class_inv rx ret xs chain first" "first \<noteq> - 1"
  shows "class_inv (set_link chain first rx) ret (xs @ [first]) first (- 1)"
proof -
  have "\<forall>i \<in> set (first # xs). 0 \<le> i \<and> i < int (length (rx_nodes rx))"
    using assms by (fastforce simp: class_inv_def)
  with assms linked_snoc [of "rx_nodes rx" xs first] show ?thesis
    by (auto simp: class_inv_def set_link_def upd_node_def)
qed

lemma class_inv_leaf:
  assumes "class_inv rx ret xs chain first" "adds_leaf rx rx' n"
  shows "class_inv rx' ret xs chain n" "n \<noteq> - 1"
proof -
  have old: "\<forall>i \<in> set xs. nat i < length (rx_nodes rx)"
    using assms(1) by (fastforce simp: class_inv_def)
  have "linked (rx_nodes rx') xs"
    using assms old by (auto simp: class_inv_def adds_leaf_def nth_append intro!: linked_frame [of "rx_nodes rx"])
  moreover have "n \<notin> set xs" "ret < n"
    using assms by (auto simp: class_inv_def adds_leaf_def dest: hd_in_set)
  ultimately show "class_inv rx' ret xs chain n" "n \<noteq> - 1"
    using assms by (auto simp: class_inv_def adds_leaf_def nth_append)
qed

text \<open>Nodes up to and including the class node keep everything but the link of the class node.\<close>

definition class_ext :: "int \<Rightarrow> rex \<Rightarrow> rex \<Rightarrow> bool" where
  "class_ext ret rx rx' \<longleftrightarrow> length (rx_nodes rx) \<le> length (rx_nodes rx') \<and>
     agree (rx_nodes rx) (rx_nodes rx') 0 ret \<and> rn_type (rx_nodes rx' ! nat ret) = rn_type (rx_nodes rx ! nat ret) \<and>
     rx_nsubexpr rx' = rx_nsubexpr rx \<and> (alloc_ok rx \<longrightarrow> alloc_ok rx')"

lemma class_ext_leaf: "adds_leaf rx rx' n \<Longrightarrow> 0 \<le> ret \<Longrightarrow> ret < int (length (rx_nodes rx)) \<Longrightarrow> class_ext ret rx rx'"
  by (auto simp: class_ext_def adds_leaf_def agree_def nth_append)

lemma class_ext_link: "0 \<le> ret \<Longrightarrow> ret \<le> n \<Longrightarrow> n < int (length (rx_nodes rx)) \<Longrightarrow> class_ext ret rx (set_link n v rx)"
  by (auto simp: class_ext_def set_link_def upd_node_def agree_def alloc_ok_def nth_list_update)

lemma class_ext_trans: "class_ext ret a b \<Longrightarrow> class_ext ret b c \<Longrightarrow> class_ext ret a c"
  by (auto simp: class_ext_def agree_def)

lemma class_loop_spec:
  assumes "rex_class_loop rx chain first = Ok (rx', c, f)" "class_inv rx ret xs chain first"
  shows "\<exists>xs'. class_inv rx' ret xs' c f \<and> class_ext ret rx rx' \<and>
     (tl xs' \<noteq> [] \<or> f \<noteq> - 1 \<or> (tl xs = [] \<and> first = - 1 \<and> pchar rx \<in> {CHR '']'', NUL}))"
  using assms
proof (induction rx chain first arbitrary: xs rule: rex_class_loop.induct)
  case (1 rx chain first)
  have inv: "0 \<le> ret" "ret \<le> chain" "chain < int (length (rx_nodes rx))" "xs \<noteq> []" "ret < int (length (rx_nodes rx))"
    using "1.prems"(2) last_in_set [of xs] hd_in_set [of xs] by (auto simp: class_inv_def)
  consider "pchar rx = CHR '']'' \<or> pchar rx = NUL"
    | "\<not> (pchar rx = CHR '']'' \<or> pchar rx = NUL)" "pchar rx = CHR ''-'' \<and> first \<noteq> - 1"
    | "\<not> (pchar rx = CHR '']'' \<or> pchar rx = NUL)" "\<not> (pchar rx = CHR ''-'' \<and> first \<noteq> - 1)" "first \<noteq> - 1"
    | "\<not> (pchar rx = CHR '']'' \<or> pchar rx = NUL)" "\<not> (pchar rx = CHR ''-'' \<and> first \<noteq> - 1)" "first = - 1"
    by blast
  then show ?case
  proof cases
    case 1
    then have "rx' = rx" "c = chain" "f = first" using "1.prems"(1) by (simp_all add: rex_class_loop.simps [of rx])
    then show ?thesis using "1.prems"(2) 1 inv
      by (intro exI [of _ xs]) (auto simp: class_ext_def agree_def)
  next
    case 2
    then obtain rx1 r where r: "rex_range rx chain first = Ok (rx1, r)" "rex_class_loop rx1 r (- 1) = Ok (rx', c, f)"
      using "1.prems" by (auto simp: rex_class_loop.simps [of rx] split: rex_res.splits)
    obtain rx0 where rx0: "adds_leaf rx rx0 r" "rx1 = set_link chain r rx0"
      using range_leaf [OF r(1)] by blast
    have i0: "class_inv rx0 ret xs chain r" "r \<noteq> - 1" using class_inv_leaf [OF "1.prems"(2) rx0(1)] by blast+
    from class_inv_link [OF i0] have i1: "class_inv rx1 ret (xs @ [r]) r (- 1)" by (simp add: rx0(2))
    have len: "chain < int (length (rx_nodes rx0))" using inv(3) rx0(1) by (auto simp: adds_leaf_def)
    have e: "class_ext ret rx rx1"
      unfolding rx0(2) using class_ext_leaf [OF rx0(1)] class_ext_link [OF inv(1,2) len] inv class_ext_trans by blast
    from "1.IH"(1) [OF 2 r(1) refl r(2) i1] e inv(4) show ?thesis
      using class_ext_trans by (cases xs) auto
  next
    case 3
    then obtain rx1 r where r: "sqstd_rex_charnode (set_link chain first rx) True = Ok (rx1, r)"
      "rex_class_loop rx1 first r = Ok (rx', c, f)"
      using "1.prems" by (auto simp: rex_class_loop.simps [of rx] split: rex_res.splits)
    note lf = charnode_leaf [OF r(1)]
    have i1: "class_inv rx1 ret (xs @ [first]) first r"
      using class_inv_leaf(1) [OF class_inv_link [OF "1.prems"(2) 3(3)] lf] .
    have "ret < int (length (rx_nodes (set_link chain first rx)))" using inv by (simp add: set_link_def)
    then have e: "class_ext ret rx rx1"
      using class_ext_leaf [OF lf inv(1)] class_ext_link [OF inv(1-3)] class_ext_trans by blast
    from "1.IH"(2) [OF 3 r(1) refl r(2) i1] e inv(4) show ?thesis
      using class_ext_trans by (cases xs) auto
  next
    case 4
    then obtain rx1 r where r: "sqstd_rex_charnode rx True = Ok (rx1, r)" "rex_class_loop rx1 chain r = Ok (rx', c, f)"
      using "1.prems" by (auto simp: rex_class_loop.simps [of rx] split: rex_res.splits)
    note lf = charnode_leaf [OF r(1)]
    have i1: "class_inv rx1 ret xs chain r" "r \<noteq> - 1" using class_inv_leaf [OF "1.prems"(2) lf] by blast+
    have e: "class_ext ret rx rx1" using class_ext_leaf [OF lf inv(1,5)] .
    from "1.IH"(3) [OF 4(1,2) _ r(1) refl r(2) i1(1)] 4(3) e i1(2) show ?thesis
      using class_ext_trans by auto
  qed
qed

subsection \<open>Atoms, elements, lists\<close>

abbreviation nn :: "rex \<Rightarrow> int" where
  "nn rx \<equiv> int (length (rx_nodes rx))"

definition builds_node :: "rex \<Rightarrow> rex \<Rightarrow> int \<Rightarrow> bool" where
  "builds_node rx rx' n \<longleftrightarrow> ext rx rx' \<and> rn_next (rx_nodes rx' ! nat n) = - 1 \<and>
     (\<exists>t. node_rep (rx_nodes rx') (rx_nsubexpr rx') (nn rx) (nn rx') n t)"

definition builds_seq :: "rex \<Rightarrow> rex \<Rightarrow> int \<Rightarrow> bool" where
  "builds_seq rx rx' n \<longleftrightarrow> ext rx rx' \<and>
     (\<exists>ts. ts \<noteq> [] \<and> seq_rep (rx_nodes rx') (rx_nsubexpr rx') (nn rx) (nn rx') n ts)"

lemma builds_nodeI:
  "ext rx rx' \<Longrightarrow> rn_next (rx_nodes rx' ! nat n) = - 1 \<Longrightarrow>
   node_rep (rx_nodes rx') (rx_nsubexpr rx') (nn rx) (nn rx') n t \<Longrightarrow> builds_node rx rx' n"
  unfolding builds_node_def by blast

lemma builds_seqI:
  "ext rx rx' \<Longrightarrow> ts \<noteq> [] \<Longrightarrow> seq_rep (rx_nodes rx') (rx_nsubexpr rx') (nn rx) (nn rx') n ts \<Longrightarrow> builds_seq rx rx' n"
  unfolding builds_seq_def by blast

lemma builds_adv [simp]:
  "builds_node (adv rx) rx' n = builds_node rx rx' n" "builds_node rx (adv rx') n = builds_node rx rx' n"
  "builds_seq (adv rx) rx' n = builds_seq rx rx' n" "builds_seq rx (adv rx') n = builds_seq rx rx' n"
  "builds_node (rx\<lparr>rx_depth := d\<rparr>) rx' n = builds_node rx rx' n" "builds_seq (rx\<lparr>rx_depth := d\<rparr>) rx' n = builds_seq rx rx' n"
  "builds_seq rx (rx'\<lparr>rx_depth := d\<rparr>) n = builds_seq rx rx' n"
  by (simp_all add: builds_node_def builds_seq_def)

lemma leaf_builds: "adds_leaf rx rx' n \<Longrightarrow> builds_node rx rx' n"
  using adds_leaf_rep [of rx rx' n "rx_nsubexpr rx'"] adds_leaf_ext [of rx rx' n]
  unfolding builds_node_def nodeat_def by blast

lemma class_builds:
  assumes "sqstd_rex_class rx = Ok (rx', n)"
  shows "builds_node rx rx' n"
proof -
  obtain rx1 ret type where n1: "sqstd_rex_newnode rx type = (rx1, ret)" "type = OP_NCLASS \<or> type = OP_CLASS"
    and l: "\<exists>rx2 c f. rex_class_loop (if type = OP_NCLASS then adv rx1 else rx1) ret (- 1) = Ok (rx2, c, f) \<and>
      pchar (if type = OP_NCLASS then adv rx1 else rx1) \<noteq> CHR '']'' \<and> pchar rx2 \<noteq> NUL \<and> n = ret \<and>
      rx' = (let rx = (if f \<noteq> - 1 then set_link c f rx2 else rx2); rx = set_left ret (rn_next (nodeat rx ret)) rx in set_link ret (- 1) rx)"
  proof (cases "pchar rx = CHR ''^''")
    case True
    obtain rx1 ret where "sqstd_rex_newnode rx OP_NCLASS = (rx1, ret)" by fastforce
    with True assms show thesis
      by (intro that [of OP_NCLASS rx1 ret]) (auto simp: sqstd_rex_class_def rex_bind_OkD Let_def OP_defs split: if_splits)
  next
    case False
    obtain rx1 ret where "sqstd_rex_newnode rx OP_CLASS = (rx1, ret)" by fastforce
    with False assms show thesis
      by (intro that [of OP_CLASS rx1 ret]) (auto simp: sqstd_rex_class_def rex_bind_OkD Let_def OP_defs split: if_splits)
  qed
  let ?rx1 = "if type = OP_NCLASS then adv rx1 else rx1"
  obtain rx2 c f where lp: "rex_class_loop ?rx1 ret (- 1) = Ok (rx2, c, f)" "pchar ?rx1 \<noteq> CHR '']''" "pchar rx2 \<noteq> NUL" "n = ret"
    and rx': "rx' = (let rx = (if f \<noteq> - 1 then set_link c f rx2 else rx2); rx = set_left ret (rn_next (nodeat rx ret)) rx in set_link ret (- 1) rx)"
    using l by blast
  note sp = newnode_spec [OF n1(1)]
  have ty: "type \<noteq> OP_EXPR" using n1(2) by (auto simp: OP_defs)
  have nodes1: "rx_nodes ?rx1 = rx_nodes rx @ [\<lparr>rn_type = type, rn_left = - 1, rn_right = - 1, rn_next = - 1\<rparr>]"
    using sp(2) ty by simp
  have inv1: "class_inv ?rx1 ret [ret] ret (- 1)" by (simp add: class_inv_def nodes1 sp(1))
  obtain xs where xs: "class_inv rx2 ret xs c f" "class_ext ret ?rx1 rx2" "tl xs \<noteq> [] \<or> f \<noteq> - 1 \<or> pchar ?rx1 = NUL"
    using class_loop_spec [OF lp(1) inv1] lp(2) by fastforce
  have "pchar ?rx1 \<noteq> NUL"
  proof
    assume "pchar ?rx1 = NUL"
    then have "rx2 = ?rx1" using lp(1) by (simp add: rex_class_loop.simps [of ?rx1])
    with lp(3) \<open>pchar ?rx1 = NUL\<close> show False by simp
  qed
  with xs(3) have ne: "tl xs \<noteq> [] \<or> f \<noteq> - 1" by blast
  define rx3 where "rx3 = (if f \<noteq> - 1 then set_link c f rx2 else rx2)"
  define ys where "ys = (if f \<noteq> - 1 then xs @ [f] else xs)"
  have inv3: "\<exists>c'. class_inv rx3 ret ys c' (- 1)"
    using class_inv_link [OF xs(1)] xs(1) by (cases "f = - 1") (auto simp: rx3_def ys_def)
  then have ys: "ys \<noteq> []" "hd ys = ret" "linked (rx_nodes rx3) ys" "distinct ys" "0 \<le> ret"
      "\<forall>i \<in> set ys. ret \<le> i \<and> i < nn rx3"
    by (auto simp: class_inv_def)
  have tl: "tl ys \<noteq> []" using ne xs(1) by (auto simp: ys_def class_inv_def)
  then have tlpos: "Suc 0 < length ys" by (cases ys; cases "tl ys") auto
  have c: "ret \<le> c" "c < nn rx2" using xs(1) last_in_set [of xs] by (auto simp: class_inv_def)
  have e3: "class_ext ret ?rx1 rx3"
    using xs(2) class_ext_link [OF ys(5) c] class_ext_trans by (auto simp: rx3_def)
  let ?l = "rn_next (rx_nodes rx3 ! nat ret)"
  have tail: "\<forall>j \<in> set (tl ys). ret + 1 \<le> j \<and> j < nn rx3"
  proof
    fix j assume "j \<in> set (tl ys)"
    then have "j \<in> set ys" "j \<noteq> ret" using ys(1,2,4) by (cases ys; auto)+
    with ys(6) have "ret \<le> j" "j < nn rx3" "j \<noteq> ret" by blast+
    then show "ret + 1 \<le> j \<and> j < nn rx3" by linarith
  qed
  have ch: "chain_rep (rx_nodes rx3) (ret + 1) (nn rx3) ?l (length (tl ys))"
    using linked_chain [of "rx_nodes rx3" ret "tl ys" "ret + 1" "nn rx3"] ys tail by (cases ys) auto
  have r: "rx' = set_link ret (- 1) (set_left ret ?l rx3)" using rx' by (simp add: rx3_def nodeat_def Let_def)
  have ret: "ret < nn rx3" "nat ret < length (rx_nodes rx3)" using ys(1,2,5,6) hd_in_set [of ys] by auto
  have at: "rx_nodes rx' ! nat ret = (rx_nodes rx3 ! nat ret)\<lparr>rn_left := ?l, rn_next := - 1\<rparr>"
    using ret by (simp add: r set_defs upd_node_def)
  have ag: "agree (rx_nodes rx3) (rx_nodes rx') (ret + 1) (nn rx3)" "agree (rx_nodes rx3) (rx_nodes rx') 0 ret"
    using ys(5) by (auto simp: agree_def r set_defs upd_node_def nth_list_update)
  have len: "nn rx' = nn rx3" by (simp add: r set_defs)
  have "chain_rep (rx_nodes rx') (ret + 1) (nn rx') ?l (length (tl ys))"
    using chain_rep_frame [OF ch ag(1)] len by simp
  moreover have "rn_type (rx_nodes rx' ! nat ret) = type"
    using at e3 nodes1 sp(1) by (simp add: class_ext_def)
  moreover have "int (length (tl ys)) < nn rx' - ret"
  proof -
    have "set (tl ys) \<subseteq> {ret + 1 ..< nn rx3}" using tail by auto
    then have "card (set (tl ys)) \<le> card {ret + 1 ..< nn rx3}" by (intro card_mono) simp_all
    moreover have "card (set (tl ys)) = length (tl ys)" using ys(4) by (intro distinct_card distinct_tl)
    ultimately show ?thesis using len ret(1) by simp
  qed
  ultimately have "node_rep (rx_nodes rx') (rx_nsubexpr rx') (nn rx) (nn rx') n (Cls (length (tl ys)))"
    using tlpos n1(2) at len ret sp(1) lp(4) by auto
  moreover have "ext rx rx'"
  proof -
    have "agree (rx_nodes rx) (rx_nodes ?rx1) 0 ret" using sp(1) by (auto simp: nodes1 agree_def nth_append)
    moreover have "alloc_ok rx \<Longrightarrow> alloc_ok ?rx1" using sp(4) by simp
    moreover have "rx_nsubexpr ?rx1 = rx_nsubexpr rx" using sp(3) ty by simp
    ultimately show ?thesis
      using e3 ag(2) len sp(1) nodes1
      by (auto simp: ext_def class_ext_def agree_def r set_defs)
  qed
  moreover have "rn_next (rx_nodes rx' ! nat n) = - 1" using at lp(4) by simp
  ultimately show ?thesis by (intro builds_nodeI)
qed

lemma digit_nonneg: "sq_isdigit (schar c) \<Longrightarrow> 0 \<le> schar c - 48"
proof -
  assume d: "sq_isdigit (schar c)"
  have "uc (schar c) = (if 0 \<le> schar c then schar c else schar c + 256)"
    using schar_range [of c] mod_pos_pos_trivial [of "schar c + 256" 256] by (auto simp: uc_def)
  with d schar_range [of c] show ?thesis by (auto simp: sq_isdigit_def in_range_def Let_def split: if_splits)
qed

lemma digits_spec: "rex_digits s r p = Ok (s', r') \<Longrightarrow> 0 \<le> r \<Longrightarrow> 0 \<le> r'"
proof (induction s r p rule: rex_digits.induct)
  case (2 c s r p)
  then show ?case using digit_nonneg [of c] by (auto simp: Let_def split: if_splits)
qed auto

lemma parsenumber_spec:
  assumes "sqstd_rex_parsenumber rx = Ok (rx', n)" "sq_isdigit (schar (pchar rx))"
  shows "0 \<le> n \<and> (\<exists>s. rx' = rx\<lparr>rx_p := s\<rparr>)"
  using assms digit_nonneg [OF assms(2)]
  by (auto simp: sqstd_rex_parsenumber_def rex_bind_OkD adv_def Let_def dest: digits_spec)

lemma upper_bound_spec:
  assumes "rex_upper_bound rx p0 = Ok (rx', p1)" "p0 \<le> 0xFFFE"
  shows "p0 \<le> p1 \<and> p1 \<le> 0xFFFF \<and> (\<exists>s. rx' = rx\<lparr>rx_p := s\<rparr>)"
proof (cases "pchar rx = CHR ''}''")
  case True
  then show ?thesis using assms by (auto simp: rex_upper_bound_def adv_def)
next
  case False
  then obtain s where "rex_bind (sqstd_rex_expect (rx\<lparr>rx_p := s\<rparr>) CHR ''}'') (\<lambda>rx. if p0 > p1 then Err ''invalid quantifier range: min > max'' else Ok (rx, p1)) = Ok (rx', p1)"
    "p1 \<le> 0xFFFF"
    using assms(1)
    by (auto simp: rex_upper_bound_def rex_bind_OkD adv_def Let_def split: if_splits dest!: parsenumber_spec)
  then show ?thesis by (auto simp: rex_bind_OkD sqstd_rex_expect_def adv_def split: if_splits)
qed

lemma quantifier_spec:
  assumes "rex_quantifier rx = Ok (rx', q)"
  shows "(\<exists>s. rx' = rx\<lparr>rx_p := s\<rparr>) \<and> (\<forall>p0 p1. q = Some (p0, p1) \<longrightarrow> good_bounds (p0 * 65536 + p1))"
proof -
  have g: "good_bounds (p0 * 65536 + p1)" if "0 \<le> p0" "p0 \<le> p1" "p1 \<le> 0xFFFF" for p0 p1
    using that by (auto simp: good_bounds_def)
  show ?thesis
  proof (cases "pchar rx = CHR ''{''")
    case True
    then obtain rx1 n p1 where q: "sq_isdigit (schar (pchar (adv rx)))" "sqstd_rex_parsenumber (adv rx) = Ok (rx1, n)"
      "n \<le> 0xFFFE" "rex_upper_bound rx1 n = Ok (rx', p1)" "q = Some (n, p1)"
      using assms by (auto simp: rex_quantifier_def rex_bind_OkD Let_def split: if_splits)
    from parsenumber_spec [OF q(2,1)] upper_bound_spec [OF q(4,3)] g [of n p1] q(5) show ?thesis
      by (auto simp: adv_def)
  next
    case False
    have self: "\<exists>s. rx = rx\<lparr>rx_p := s\<rparr>" by (rule exI [of _ "rx_p rx"]) simp
    from g [of 0 "0xFFFF"] g [of 1 "0xFFFF"] g [of 0 1] assms False self show ?thesis
      by (auto simp: rex_quantifier_def adv_def split: if_splits)
  qed
qed

lemma builds_node_seq: "builds_node rx rx' n \<Longrightarrow> builds_seq rx rx' n"
proof -
  assume "builds_node rx rx' n"
  then obtain t where t: "node_rep (rx_nodes rx') (rx_nsubexpr rx') (nn rx) (nn rx') n t"
    "ext rx rx'" "rn_next (rx_nodes rx' ! nat n) = - 1"
    by (auto simp: builds_node_def)
  have "seq_rep (rx_nodes rx') (rx_nsubexpr rx') (nn rx) (nn rx') n [t]"
    using t by (auto intro!: exI [of _ "nn rx'"] simp: ext_def)
  with t(2) show ?thesis by (intro builds_seqI [of rx rx' "[t]"]) simp_all
qed

lemma greedy_builds:
  assumes "builds_node rx rx1 ret" "\<forall>p0 p1. q = Some (p0, p1) \<longrightarrow> good_bounds (p0 * 65536 + p1)"
    "rex_greedy (rx1\<lparr>rx_p := s\<rparr>) ret q = (rx2, n)"
  shows "builds_node rx rx2 n"
proof (cases q)
  case None
  then have "rx2 = rx1\<lparr>rx_p := s\<rparr>" "n = ret" using assms(3) by (simp_all add: rex_greedy_def)
  then show ?thesis using assms(1) by (simp add: builds_node_def)
next
  case (Some b)
  obtain p0 p1 where b: "b = (p0, p1)" by (cases b)
  obtain rx3 where rx3: "sqstd_rex_newnode (rx1\<lparr>rx_p := s\<rparr>) OP_GREEDY = (rx3, n)"
    "rx2 = set_right n (p0 * 65536 + p1) (set_left n ret rx3)"
    using assms(3) Some b by (auto simp: rex_greedy_def Let_def split: prod.splits)
  note sp = newnode_spec [OF rx3(1)]
  have ops: "OP_GREEDY \<noteq> OP_EXPR" by (simp add: OP_defs)
  obtain t where t: "node_rep (rx_nodes rx1) (rx_nsubexpr rx1) (nn rx) (nn rx1) ret t"
    "ext rx rx1" "rn_next (rx_nodes rx1 ! nat ret) = - 1"
    using assms(1) by (auto simp: builds_node_def)
  have n: "n = nn rx1" "nn rx \<le> nn rx1" using sp(1) t(2) by (auto simp: ext_def)
  have nodes: "rx_nodes rx2 = rx_nodes rx1 @ [\<lparr>rn_type = OP_GREEDY, rn_left = ret, rn_right = p0 * 65536 + p1, rn_next = - 1\<rparr>]"
    using sp(2) n ops by (simp add: rx3(2) set_defs upd_node_def)
  have ag: "agree (rx_nodes rx1) (rx_nodes rx2) 0 (nn rx1)" by (auto simp: nodes agree_def nth_append)
  have sub: "rx_nsubexpr rx2 = rx_nsubexpr rx1" using sp(3) ops by (simp add: rx3(2) set_defs)
  have "agree (rx_nodes rx1) (rx_nodes rx2) (nn rx) (nn rx1)" using ag by (rule agree_mono) simp_all
  from rep_frame(1) [OF t(1) this, of "rx_nsubexpr rx2" "nn rx1"] sub
  have t2: "node_rep (rx_nodes rx2) (rx_nsubexpr rx2) (nn rx) n ret t" by (simp add: n(1))
  have r: "nn rx \<le> ret" "ret < nn rx1" using node_rep_range [OF t(1)] by auto
  then have "rn_next (rx_nodes rx2 ! nat ret) = - 1" using t(3) by (auto simp: nodes nth_append)
  moreover have at: "rx_nodes rx2 ! nat n = \<lparr>rn_type = OP_GREEDY, rn_left = ret, rn_right = p0 * 65536 + p1, rn_next = - 1\<rparr>"
    by (simp add: nodes n(1))
  ultimately have "node_rep (rx_nodes rx2) (rx_nsubexpr rx2) (nn rx) (nn rx2) n (Greedy t)"
    using t2 n assms(2) Some b by (simp add: nodes)
  moreover have "ext rx rx2"
  proof (rule ext_trans [OF t(2)])
    show "ext rx1 rx2" unfolding rx3(2) set_defs using sp(5) n by (intro ext_upd) simp_all
  qed
  moreover have "rn_next (rx_nodes rx2 ! nat n) = - 1" using at by simp
  ultimately show ?thesis by (intro builds_nodeI)
qed

text \<open>A node linked to a sequence built after it.\<close>

lemma link_builds:
  assumes "builds_node rx rx1 ret" "builds_seq rx1 rx2 m"
  shows "builds_seq rx (set_link ret m rx2) ret"
proof -
  obtain t where t: "node_rep (rx_nodes rx1) (rx_nsubexpr rx1) (nn rx) (nn rx1) ret t" "ext rx rx1"
    using assms(1) by (auto simp: builds_node_def)
  obtain ts where ts: "seq_rep (rx_nodes rx2) (rx_nsubexpr rx2) (nn rx1) (nn rx2) m ts" "ext rx1 rx2"
    using assms(2) by (auto simp: builds_seq_def)
  have r: "nn rx \<le> ret" "ret < nn rx1" using node_rep_range [OF t(1)] by auto
  have le: "nn rx1 \<le> nn rx2" "rx_nsubexpr rx1 \<le> rx_nsubexpr rx2" using ts(2) by (auto simp: ext_def)
  have "agree (rx_nodes rx1) (rx_nodes rx2) (nn rx) (nn rx1)" using ts(2) by (auto simp: ext_def agree_def)
  from rep_frame(1) [OF t(1) this le(2) order_refl]
  have "node_rep (rx_nodes rx2) (rx_nsubexpr rx2) (nn rx) (nn rx1) ret t" .
  from node_rep_link [OF this] le
  have t3: "node_rep (rx_nodes (set_link ret m rx2)) (rx_nsubexpr rx2) (nn rx) (nn rx1) ret t"
    by (simp add: set_link_def upd_node_def)
  have "agree (rx_nodes rx2) (rx_nodes (set_link ret m rx2)) (nn rx1) (nn rx2)"
    using r by (auto simp: agree_def set_link_def upd_node_def nth_list_update)
  from rep_frame(2) [OF ts(1) this order_refl order_refl]
  have ts3: "seq_rep (rx_nodes (set_link ret m rx2)) (rx_nsubexpr rx2) (nn rx1) (nn rx2) m ts" .
  have "rn_next (rx_nodes (set_link ret m rx2) ! nat ret) = m"
    using r le by (simp add: set_link_def upd_node_def)
  then have "seq_rep (rx_nodes (set_link ret m rx2)) (rx_nsubexpr (set_link ret m rx2)) (nn rx) (nn (set_link ret m rx2)) ret (t # ts)"
    using t3 ts3 le r by (auto simp: set_link_def intro!: exI [of _ "nn rx1"])
  moreover have "ext rx (set_link ret m rx2)"
    unfolding set_link_def using ext_trans [OF t(2) ts(2)] r(1) by (rule ext_upd)
  ultimately show ?thesis by (intro builds_seqI [of _ _ "t # ts"]) simp_all
qed

subsection \<open>The whole pattern\<close>

lemma expect_nodes: "sqstd_rex_expect rx c = Ok rx' \<Longrightarrow> rx' = adv rx"
  by (auto simp: sqstd_rex_expect_def split: if_splits)

lemma ext_at: "ext rx rx' \<Longrightarrow> 0 \<le> j \<Longrightarrow> j < nn rx \<Longrightarrow> rx_nodes rx' ! nat j = rx_nodes rx ! nat j"
  by (simp add: ext_def agree_def)

lemma ext_nn: "ext rx rx' \<Longrightarrow> nn rx \<le> nn rx'"
  by (simp add: ext_def)

lemma group_builds:
  assumes "sqstd_rex_newnode rx type = (rx1, i)" "type = OP_EXPR \<and> 0 \<le> rx_nsubexpr rx \<or> type = OP_NOCAPEXPR"
    "builds_seq rx1 rx2 m"
  shows "builds_node rx (set_left i m rx2) i"
proof -
  note sp = newnode_spec [OF assms(1)]
  obtain ts where ts: "ts \<noteq> []" "seq_rep (rx_nodes rx2) (rx_nsubexpr rx2) (nn rx1) (nn rx2) m ts" "ext rx1 rx2"
    using assms(3) by (auto simp: builds_seq_def)
  have nn1: "nn rx1 = i + 1" using sp(1,2) by simp
  have le: "nn rx1 \<le> nn rx2" by (rule ext_nn [OF ts(3)])
  let ?rx3 = "set_left i m rx2"
  have ag: "agree (rx_nodes rx2) (rx_nodes ?rx3) (nn rx1) (nn rx2)"
    using sp(1) nn1 by (auto simp: agree_def set_left_def upd_node_def nth_list_update)
  have rep: "seq_rep (rx_nodes ?rx3) (rx_nsubexpr ?rx3) (i + 1) (nn ?rx3) m ts"
    using rep_frame(2) [OF ts(2) ag, of "rx_nsubexpr rx2" "nn rx2"] nn1 by (simp add: set_left_def)
  have old: "rx_nodes rx2 ! nat i = \<lparr>rn_type = type, rn_left = - 1,
       rn_right = (if type = OP_EXPR then rx_nsubexpr rx else - 1), rn_next = - 1\<rparr>"
  proof -
    have "rx_nodes rx2 ! nat i = rx_nodes rx1 ! nat i" by (rule ext_at [OF ts(3)]) (use sp(1) nn1 in simp_all)
    then show ?thesis using sp(1,2) by simp
  qed
  have at: "rx_nodes ?rx3 ! nat i = \<lparr>rn_type = type, rn_left = m,
       rn_right = (if type = OP_EXPR then rx_nsubexpr rx else - 1), rn_next = - 1\<rparr>"
    using sp(1) nn1 le old by (simp add: set_left_def upd_node_def)
  have sub: "type = OP_EXPR \<Longrightarrow> rx_nsubexpr rx < rx_nsubexpr ?rx3"
    using sp(3) ts(3) by (simp add: ext_def set_left_def)
  have "node_rep (rx_nodes ?rx3) (rx_nsubexpr ?rx3) (nn rx) (nn ?rx3) i (Group ts)"
    using rep at sub assms(2) sp(1) nn1 le ts(1) by (auto simp: set_left_def)
  moreover have "ext rx ?rx3"
    unfolding set_left_def using ext_trans [OF sp(5) ts(3)] sp(1) by (intro ext_upd) simp_all
  moreover have "rn_next (rx_nodes ?rx3 ! nat i) = - 1" using at by simp
  ultimately show ?thesis by (intro builds_nodeI)
qed

lemma alt_builds:
  assumes "builds_seq rx rx1 l" "sqstd_rex_newnode (rx1\<lparr>rx_p := s\<rparr>) OP_OR = (rx2, i)"
    "builds_seq (set_left i l rx2) rx3 r"
  shows "builds_seq rx (set_right i r rx3) i"
proof -
  note sp = newnode_spec [OF assms(2)]
  let ?rx4 = "set_right i r rx3"
  have ops: "OP_OR \<noteq> OP_EXPR" by (simp add: OP_defs)
  obtain ls where ls: "ls \<noteq> []" "seq_rep (rx_nodes rx1) (rx_nsubexpr rx1) (nn rx) (nn rx1) l ls" "ext rx rx1"
    using assms(1) by (auto simp: builds_seq_def)
  obtain rs where rs: "rs \<noteq> []" "seq_rep (rx_nodes rx3) (rx_nsubexpr rx3) (nn rx2) (nn rx3) r rs"
     "ext (set_left i l rx2) rx3"
    using assms(3) by (auto simp: builds_seq_def set_left_def)
  have i: "i = nn rx1" "nn rx2 = i + 1" using sp(1,2) by simp_all
  have le: "nn rx2 \<le> nn rx3" "nn rx \<le> nn rx1" using ext_nn [OF rs(3)] ext_nn [OF ls(3)] by (simp_all add: set_left_def)
  have e12: "ext rx1 (set_left i l rx2)" unfolding set_left_def using sp(5) i by (intro ext_upd) simp_all
  have e13: "ext rx1 rx3" by (rule ext_trans [OF e12 rs(3)])
  have e14: "ext rx1 ?rx4" unfolding set_right_def using e13 i by (intro ext_upd) simp_all
  have "agree (rx_nodes rx1) (rx_nodes ?rx4) (nn rx) (nn rx1)" "rx_nsubexpr rx1 \<le> rx_nsubexpr ?rx4"
    using e14 by (auto simp: ext_def agree_def)
  from rep_frame(2) [OF ls(2) this order_refl]
  have lrep: "seq_rep (rx_nodes ?rx4) (rx_nsubexpr ?rx4) (nn rx) i l ls" by (simp add: i)
  have "agree (rx_nodes rx3) (rx_nodes ?rx4) (nn rx2) (nn rx3)"
    using i by (auto simp: agree_def set_right_def upd_node_def nth_list_update)
  from rep_frame(2) [OF rs(2) this, of "rx_nsubexpr ?rx4" "nn ?rx4"]
  have rrep: "seq_rep (rx_nodes ?rx4) (rx_nsubexpr ?rx4) (i + 1) (nn ?rx4) r rs" by (simp add: i set_right_def)
  have "rx_nodes rx3 ! nat i = rx_nodes (set_left i l rx2) ! nat i"
    by (rule ext_at [OF rs(3)]) (use i in \<open>simp_all add: set_left_def\<close>)
  also have "\<dots> = \<lparr>rn_type = OP_OR, rn_left = l, rn_right = - 1, rn_next = - 1\<rparr>"
    using sp(2) i ops by (simp add: set_left_def upd_node_def)
  finally have at: "rx_nodes ?rx4 ! nat i = \<lparr>rn_type = OP_OR, rn_left = l, rn_right = r, rn_next = - 1\<rparr>"
    using i le by (simp add: set_right_def upd_node_def)
  have "node_rep (rx_nodes ?rx4) (rx_nsubexpr ?rx4) (nn rx) (nn ?rx4) i (Alt ls rs)"
    using lrep rrep at i le ls(1) rs(1) by (auto simp: set_right_def)
  moreover have "rn_next (rx_nodes ?rx4 ! nat i) = - 1" using at by simp
  ultimately have "builds_node rx ?rx4 i" using ext_trans [OF ls(3) e14] by (intro builds_nodeI)
  then show ?thesis by (rule builds_node_seq)
qed

lemma ext_sub: "ext rx rx' \<Longrightarrow> 0 \<le> rx_nsubexpr rx \<Longrightarrow> 0 \<le> rx_nsubexpr rx'"
  by (simp add: ext_def)

lemma builds_ext: "builds_node rx rx' n \<Longrightarrow> ext rx rx'" "builds_seq rx rx' n \<Longrightarrow> ext rx rx'"
  by (auto simp: builds_node_def builds_seq_def)

lemma group_atom_builds:
  assumes list: "\<And>rx rx' n. sqstd_rex_list fuel rx = Ok (rx', n) \<Longrightarrow> 0 \<le> rx_nsubexpr rx \<Longrightarrow> builds_seq rx rx' n"
    and "rex_atom (Suc fuel) rx = Ok (rx', n)" "pchar rx = CHR ''(''" "0 \<le> rx_nsubexpr rx"
  shows "builds_node rx rx' n"
proof -
  obtain rx0 type rx1 rx2 m where st: "sqstd_rex_newnode rx0 type = (rx1, n)" "\<exists>s. rx0 = rx\<lparr>rx_p := s\<rparr>"
    "type = OP_EXPR \<or> type = OP_NOCAPEXPR" "sqstd_rex_list fuel rx1 = Ok (rx2, m)" "\<exists>s. rx' = (set_left n m rx2)\<lparr>rx_p := s\<rparr>"
  proof (cases "pchar (adv rx) = CHR ''?''")
    case True
    then obtain rx0 rx1 i rx2 m where st: "sqstd_rex_expect (adv (adv rx)) CHR '':'' = Ok rx0" "sqstd_rex_newnode rx0 OP_NOCAPEXPR = (rx1, i)"
      "sqstd_rex_list fuel rx1 = Ok (rx2, m)" "sqstd_rex_expect (set_left i m rx2) CHR '')'' = Ok rx'" "n = i"
      using assms(2,3) by (auto simp: rex_bind_OkD Let_def split: prod.splits)
    show thesis
      by (rule that [of rx0 OP_NOCAPEXPR rx1 rx2 m])
         (use st expect_nodes [OF st(1)] expect_nodes [OF st(4)] in \<open>auto simp: adv_def\<close>)
  next
    case False
    then obtain rx1 i rx2 m where st: "sqstd_rex_newnode (adv rx) OP_EXPR = (rx1, i)"
      "sqstd_rex_list fuel rx1 = Ok (rx2, m)" "sqstd_rex_expect (set_left i m rx2) CHR '')'' = Ok rx'" "n = i"
      using assms(2,3) by (auto simp: rex_bind_OkD Let_def split: prod.splits)
    show thesis
      by (rule that [of "adv rx" OP_EXPR rx1 rx2 m])
         (use st expect_nodes [OF st(3)] in \<open>auto simp: adv_def\<close>)
  qed
  have sub0: "0 \<le> rx_nsubexpr rx0" using st(2) assms(4) by auto
  have "0 \<le> rx_nsubexpr rx1" using newnode_spec(3) [OF st(1)] sub0 by simp
  from list [OF st(4) this] group_builds [OF st(1) _] sub0 st(3)
  have "builds_node rx0 (set_left n m rx2) n" by blast
  then show ?thesis using st(2,5) by (auto simp: builds_node_def)
qed

lemma builds:
  "(sqstd_rex_element fuel rx = Ok (rx', n) \<longrightarrow> 0 \<le> rx_nsubexpr rx \<longrightarrow> builds_seq rx rx' n) \<and>
   (sqstd_rex_list fuel rx = Ok (rx', n) \<longrightarrow> 0 \<le> rx_nsubexpr rx \<longrightarrow> builds_seq rx rx' n) \<and>
   (rex_atom fuel rx = Ok (rx', n) \<longrightarrow> 0 \<le> rx_nsubexpr rx \<longrightarrow> builds_node rx rx' n)"
proof (induction fuel arbitrary: rx rx' n)
  case 0
  then show ?case by simp
next
  case (Suc fuel)
  note IHe = Suc.IH [THEN conjunct1, rule_format]
    and IHl = Suc.IH [THEN conjunct2, THEN conjunct1, rule_format]
    and IHa = Suc.IH [THEN conjunct2, THEN conjunct2, rule_format]
  show ?case
  proof (intro conjI impI)
    assume atom: "rex_atom (Suc fuel) rx = Ok (rx', n)" and sub: "0 \<le> rx_nsubexpr rx"
    show "builds_node rx rx' n"
    proof (cases "pchar rx = CHR ''(''")
      case True
      show ?thesis by (rule group_atom_builds [OF IHl atom True sub])
    next
      case False
      then show ?thesis
        using atom
        by (auto simp: rex_bind_OkD split: if_splits
            dest!: class_builds expect_nodes charnode_leaf [THEN leaf_builds]
              newnode_leaf [OF _ simple_ops(9), THEN leaf_builds] newnode_leaf [OF _ simple_ops(10), THEN leaf_builds])
    qed
  next
    assume el: "sqstd_rex_element (Suc fuel) rx = Ok (rx', n)" and sub: "0 \<le> rx_nsubexpr rx"
    from el obtain rx1 ret rx2 q rx3 rx4 where st:
        "rex_atom fuel (rx\<lparr>rx_depth := rx_depth rx + 1\<rparr>) = Ok (rx1, ret)"
        "rex_quantifier rx1 = Ok (rx2, q)" "rex_greedy rx2 ret q = (rx3, n)"
        "rx4 = rx3 \<or> (\<exists>rx5 nn. sqstd_rex_element fuel rx3 = Ok (rx5, nn) \<and> rx4 = set_link n nn rx5)"
        "rx' = rx4\<lparr>rx_depth := rx_depth rx4 - 1\<rparr>"
      by (rule element_OkE) blast
    have b1: "builds_node rx rx1 ret" using IHa [OF st(1)] sub by simp
    obtain s where s: "rx2 = rx1\<lparr>rx_p := s\<rparr>" "\<forall>p0 p1. q = Some (p0, p1) \<longrightarrow> good_bounds (p0 * 65536 + p1)"
      using quantifier_spec [OF st(2)] by blast
    have b3: "builds_node rx rx3 n" using greedy_builds [OF b1 s(2)] st(3) s(1) by simp
    show "builds_seq rx rx' n"
    proof (cases "rx4 = rx3")
      case True
      then show ?thesis using builds_node_seq [OF b3] st(5) by simp
    next
      case False
      then obtain rx5 m where m: "sqstd_rex_element fuel rx3 = Ok (rx5, m)" "rx4 = set_link n m rx5" using st(4) by blast
      have "builds_seq rx3 rx5 m" by (rule IHe [OF m(1)]) (use builds_ext(1) [OF b3] ext_sub sub in blast)
      from link_builds [OF b3 this] show ?thesis using st(5) m(2) by simp
    qed
  next
    assume ls: "sqstd_rex_list (Suc fuel) rx = Ok (rx', n)" and sub: "0 \<le> rx_nsubexpr rx"
    from ls obtain rx1 bol rx2 e rx3 ret where st:
        "sqstd_rex_newnode (adv rx) OP_BOL = (rx1, bol) \<or> rx1 = rx \<and> bol = - 1"
        "sqstd_rex_element fuel rx1 = Ok (rx2, e)"
        "bol \<noteq> - 1 \<and> rx3 = set_link bol e rx2 \<and> ret = bol \<or> bol = - 1 \<and> rx3 = rx2 \<and> ret = e"
        "rx' = rx3 \<and> n = ret \<or> (\<exists>rx4 rx5 tright. sqstd_rex_newnode (adv rx3) OP_OR = (rx4, n) \<and>
           sqstd_rex_list fuel (set_left n ret rx4) = Ok (rx5, tright) \<and> rx' = set_right n tright rx5)"
      by (rule list_OkE) blast
    have b3: "builds_seq rx rx3 ret"
    proof (cases "rx1 = rx \<and> bol = - 1")
      case True
      then show ?thesis using IHe st(2,3) sub by auto
    next
      case False
      then have nb: "sqstd_rex_newnode (adv rx) OP_BOL = (rx1, bol)" using st(1) by blast
      have bol: "builds_node rx rx1 bol" using leaf_builds [OF newnode_leaf [OF nb simple_ops(11)]] by simp
      have "builds_seq rx1 rx2 e" by (rule IHe [OF st(2)]) (use builds_ext(1) [OF bol] ext_sub sub in blast)
      from link_builds [OF bol this] show ?thesis using st(3) newnode_spec(1) [OF nb] by auto
    qed
    show "builds_seq rx rx' n"
    proof (cases "rx' = rx3 \<and> n = ret")
      case True
      with b3 show ?thesis by simp
    next
      case False
      then obtain rx4 rx5 r where r: "sqstd_rex_newnode (adv rx3) OP_OR = (rx4, n)"
        "sqstd_rex_list fuel (set_left n ret rx4) = Ok (rx5, r)" "rx' = set_right n r rx5"
        using st(4) by blast
      have "0 \<le> rx_nsubexpr rx3" using builds_ext(2) [OF b3] ext_sub sub by blast
      then have "0 \<le> rx_nsubexpr (set_left n ret rx4)"
        using newnode_spec(3) [OF r(1)] by (simp add: set_left_def split: if_splits)
      from alt_builds [OF b3 r(1) [unfolded adv_def] IHl [OF r(2) this]] show ?thesis by (simp add: r(3))
    qed
  qed
qed

lemma rex_compile_tree':
  assumes "sqstd_rex_compile pattern = Ok rx"
  shows "(\<exists>ts. node_rep (rx_nodes rx) (rx_nsubexpr rx) 0 (int (length (rx_nodes rx))) 0 (Group ts)) \<and>
     rn_type (rx_nodes rx ! 0) = OP_EXPR \<and> rn_next (rx_nodes rx ! 0) = - 1 \<and>
     length (rx_nodes rx) \<le> rx_nallocated rx"
proof -
  let ?rx0 = "rex_init pattern"
  obtain rx1 first rx2 m where st: "sqstd_rex_newnode ?rx0 OP_EXPR = (rx1, first)"
    "sqstd_rex_list (rex_compile_fuel pattern) rx1 = Ok (rx2, m)" "rx = set_left first m rx2"
    using assms by (auto simp: sqstd_rex_compile_def rex_bind_OkD Let_def split: if_splits prod.splits)
  have f0: "first = 0" using newnode_spec(1) [OF st(1)] by (simp add: rex_init_def)
  have "0 \<le> rx_nsubexpr rx1" using newnode_spec(3) [OF st(1)] by (simp add: rex_init_def)
  then have b: "builds_seq rx1 rx2 m" using builds st(2) by blast
  have g: "builds_node ?rx0 rx first"
    unfolding st(3) by (rule group_builds [OF st(1) _ b]) (simp add: rex_init_def)
  have "alloc_ok rx" using builds_ext(1) [OF g] by (simp add: ext_def alloc_ok_def rex_init_def)
  moreover obtain t where t: "node_rep (rx_nodes rx) (rx_nsubexpr rx) 0 (nn rx) 0 t" "rn_next (rx_nodes rx ! 0) = - 1"
    using g f0 by (auto simp: builds_node_def rex_init_def)
  moreover have "rn_type (rx_nodes rx ! 0) = OP_EXPR"
  proof -
    have e: "ext rx1 rx2" by (rule builds_ext(2) [OF b])
    have "rx_nodes rx2 ! nat 0 = rx_nodes rx1 ! nat 0"
      using newnode_spec(2) [OF st(1)] by (intro ext_at [OF e]) auto
    moreover have "0 < length (rx_nodes rx2)"
      using newnode_spec(2) [OF st(1)] ext_nn [OF e] by (auto simp: rex_init_def)
    ultimately show ?thesis
      using newnode_spec(2) [OF st(1)] by (simp add: st(3) f0 set_left_def upd_node_def rex_init_def)
  qed
  moreover have "\<exists>ts. t = Group ts"
    using t(1) calculation(4) by (cases t) (auto simp: OP_defs simple_type_def)
  ultimately show ?thesis by (auto simp: alloc_ok_def)
qed

text \<open>C19: A pattern that compiles is compiled into a finite syntax tree: node 0 is the root group, every left, right and next index lies in the node array, no chain is circular, every quantifier has its minimum at most its maximum, every capture index lies below the number of subexpressions, and the array never outgrew its allocation.\<close>

theorem rex_compile_tree:
  assumes "sqstd_rex_compile pattern = Ok rx"
  shows "(\<exists>ts. node_rep (rx_nodes rx) (rx_nsubexpr rx) 0 (int (length (rx_nodes rx))) 0 (Group ts)) \<and>
     rn_type (rx_nodes rx ! 0) = OP_EXPR \<and> rn_next (rx_nodes rx ! 0) = - 1 \<and>
     length (rx_nodes rx) \<le> rx_nallocated rx"
  by (rule rex_compile_tree' [OF assms])

theorem rex_compile_tree_witness:
  "\<exists>rx. sqstd_rex_compile ''^a(b|[c-e])*$'' = Ok rx \<and>
     (\<exists>ts. node_rep (rx_nodes rx) (rx_nsubexpr rx) 0 (int (length (rx_nodes rx))) 0 (Group ts))"
proof -
  have "(case sqstd_rex_compile ''^a(b|[c-e])*$'' of Ok rx \<Rightarrow> True | _ \<Rightarrow> False)" by code_simp
  then obtain rx where rx: "sqstd_rex_compile ''^a(b|[c-e])*$'' = Ok rx" by (auto split: rex_res.splits)
  with rex_compile_tree [OF rx] show ?thesis by blast
qed

end
