(* ===== verification/RexMatch.thy ===== *)
theory RexMatch
  imports Rex
begin

text \<open>
  \<^verbatim>\<open>sqstdlib/sqstdrex.cpp\<close>: the matcher. The text between \<open>_bol\<close> and \<open>_eol\<close> is a list of
  characters and a pointer into it a position from 0 to its length; a failed match is
  the position \<open>None\<close>. Reading a character outside the text or a node outside the array,
  writing a capture outside \<open>_matches\<close> and running out of fuel is the fault \<open>None\<close> of the
  outer option; \<open>RexSafe\<close> shows that no compiled pattern faults.
\<close>

record rex_mst =
  ms_currsubexp :: int
  ms_matches :: "(nat option \<times> int) list"

type_synonym rex_mres = "(nat option \<times> rex_mst) option"

text \<open>\<open>sqstd_rex_matchnode\<close> as the loops call it: node, position, following node (\<open>-1\<close> for \<open>NULL\<close>).\<close>

type_synonym rex_matcher = "int \<Rightarrow> nat \<Rightarrow> int \<Rightarrow> rex_mst \<Rightarrow> rex_mres"

definition node_opt :: "rex_node list \<Rightarrow> int \<Rightarrow> rex_node option" where
  "node_opt ns i = (if 0 \<le> i \<and> i < int (length ns) then Some (ns ! nat i) else None)"

definition char_opt :: "string \<Rightarrow> nat \<Rightarrow> char option" where
  "char_opt text pos = (if pos < length text then Some (text ! pos) else None)"

subsection \<open>Character classes\<close>

definition is_letter :: "int \<Rightarrow> char \<Rightarrow> bool" where
  "is_letter cclass l \<longleftrightarrow> cclass = schar l"

definition sqstd_rex_matchcclass :: "int \<Rightarrow> char \<Rightarrow> bool" where
  "sqstd_rex_matchcclass cclass c =
     (let i = schar c in
      if is_letter cclass CHR ''a'' then sq_isalpha i
      else if is_letter cclass CHR ''A'' then \<not> sq_isalpha i
      else if is_letter cclass CHR ''w'' then sq_isalnum i \<or> c = CHR ''_''
      else if is_letter cclass CHR ''W'' then \<not> sq_isalnum i \<and> c \<noteq> CHR ''_''
      else if is_letter cclass CHR ''s'' then sq_isspace i
      else if is_letter cclass CHR ''S'' then \<not> sq_isspace i
      else if is_letter cclass CHR ''d'' then sq_isdigit i
      else if is_letter cclass CHR ''D'' then \<not> sq_isdigit i
      else if is_letter cclass CHR ''x'' then sq_isxdigit i
      else if is_letter cclass CHR ''X'' then \<not> sq_isxdigit i
      else if is_letter cclass CHR ''c'' then sq_iscntrl i
      else if is_letter cclass CHR ''C'' then \<not> sq_iscntrl i
      else if is_letter cclass CHR ''p'' then sq_ispunct i
      else if is_letter cclass CHR ''P'' then \<not> sq_ispunct i
      else if is_letter cclass CHR ''l'' then sq_islower i
      else if is_letter cclass CHR ''u'' then sq_isupper i
      else False)"

text \<open>One member of a class; a range compares the character as an \<open>unsigned char\<close>.\<close>

definition class_item :: "rex_node \<Rightarrow> char \<Rightarrow> bool" where
  "class_item nd c =
     (if rn_type nd = OP_RANGE then rn_left nd \<le> of_char c \<and> of_char c \<le> rn_right nd
      else if rn_type nd = OP_CCLASS then sqstd_rex_matchcclass (rn_left nd) c
      else schar c = rn_type nd)"

fun sqstd_rex_matchclass :: "nat \<Rightarrow> rex_node list \<Rightarrow> int \<Rightarrow> char \<Rightarrow> bool option" where
  "sqstd_rex_matchclass 0 ns node c = None"
| "sqstd_rex_matchclass (Suc fuel) ns node c =
     (case node_opt ns node of
        None \<Rightarrow> None
      | Some nd \<Rightarrow>
          if class_item nd c then Some True
          else if rn_next nd \<noteq> - 1 then sqstd_rex_matchclass fuel ns (rn_next nd) c
          else Some False)"

subsection \<open>Repetition\<close>

definition greedy_result :: "int \<Rightarrow> int \<Rightarrow> int \<Rightarrow> nat \<Rightarrow> rex_mst \<Rightarrow> rex_mres" where
  "greedy_result p0 p1 nmaches good st =
     Some (if p0 = p1 \<and> p0 = nmaches then Some good
           else if nmaches \<ge> p0 \<and> p1 = 0xFFFF then Some good
           else if nmaches \<ge> p0 \<and> nmaches \<le> p1 then Some good
           else None, st)"

definition greedy_min :: "rex_node \<Rightarrow> int" where
  "greedy_min nd = (rn_right nd div 65536) mod 65536"

definition greedy_max :: "rex_node \<Rightarrow> int" where
  "greedy_max nd = rn_right nd mod 65536"

text \<open>
  The test whether what follows already matches: \<open>Some (True, st)\<close> when the loop stops.
\<close>

definition greedy_stop :: "rex_matcher \<Rightarrow> rex_node list \<Rightarrow> int \<Rightarrow> int \<Rightarrow> int \<Rightarrow> int \<Rightarrow> int \<Rightarrow> nat \<Rightarrow> rex_mst \<Rightarrow> (bool \<times> rex_mst) option" where
  "greedy_stop m ns greedystop next p0 p1 nmaches s st =
     (if greedystop = - 1 then Some (False, st)
      else case node_opt ns greedystop of
        None \<Rightarrow> None
      | Some gs \<Rightarrow>
          if rn_type gs \<noteq> OP_GREEDY \<or> greedy_min gs \<noteq> 0 then
            (case (if rn_next gs \<noteq> - 1 then Some (rn_next gs)
                   else if next \<noteq> - 1 then
                     (case node_opt ns next of None \<Rightarrow> None | Some nx \<Rightarrow> Some (rn_next nx))
                   else Some (- 1)) of
               None \<Rightarrow> None
             | Some gnext \<Rightarrow>
                 (case m greedystop s gnext st of
                    None \<Rightarrow> None
                  | Some (None, st) \<Rightarrow> Some (False, st)
                  | Some (Some _, st) \<Rightarrow>
                      Some (p0 = p1 \<and> p0 = nmaches \<or> nmaches \<ge> p0 \<and> p1 = 0xFFFF \<or> nmaches \<ge> p0 \<and> nmaches \<le> p1, st)))
          else Some (False, st))"

function greedy_loop :: "rex_matcher \<Rightarrow> rex_node list \<Rightarrow> nat \<Rightarrow> int \<Rightarrow> int \<Rightarrow> int \<Rightarrow> int \<Rightarrow> int \<Rightarrow>
    int \<Rightarrow> nat \<Rightarrow> nat \<Rightarrow> rex_mst \<Rightarrow> rex_mres" where
  "greedy_loop m ns eol left greedystop next p0 p1 nmaches s good st =
     (if nmaches = 0xFFFF \<or> nmaches < p1 then
        (case m left s greedystop st of
           None \<Rightarrow> None
         | Some (None, st) \<Rightarrow> greedy_result p0 p1 nmaches good st
         | Some (Some s', st) \<Rightarrow>
             (let nmaches = nmaches + 1 in
              if s' = s then greedy_result p0 p1 nmaches s' st
              else case greedy_stop m ns greedystop next p0 p1 nmaches s' st of
                None \<Rightarrow> None
              | Some (stop, st) \<Rightarrow>
                  if stop \<or> eol \<le> s' then greedy_result p0 p1 nmaches s' st
                  else greedy_loop m ns eol left greedystop next p0 p1 nmaches s' s' st))
      else greedy_result p0 p1 nmaches good st)"
  by pat_completeness auto
termination
  by (relation "measure (\<lambda>(m, ns, eol, left, greedystop, next, p0, p1, nmaches, s, good, st).
        nat (max p1 0x10000 - nmaches))") auto

declare greedy_loop.simps [simp del]

subsection \<open>Sequences\<close>

text \<open>One alternative of \<open>OP_OR\<close>.\<close>

fun or_seq :: "rex_matcher \<Rightarrow> rex_node list \<Rightarrow> nat \<Rightarrow> int \<Rightarrow> nat \<Rightarrow> rex_mst \<Rightarrow> rex_mres" where
  "or_seq m ns 0 temp asd st = None"
| "or_seq m ns (Suc fuel) temp asd st =
     (case m temp asd (- 1) st of
        None \<Rightarrow> None
      | Some (None, st) \<Rightarrow> Some (None, st)
      | Some (Some asd, st) \<Rightarrow>
          (case node_opt ns temp of
             None \<Rightarrow> None
           | Some nd \<Rightarrow> if rn_next nd \<noteq> - 1 then or_seq m ns fuel (rn_next nd) asd st else Some (Some asd, st)))"

text \<open>The nodes inside a group.\<close>

fun expr_seq :: "rex_matcher \<Rightarrow> rex_node list \<Rightarrow> nat \<Rightarrow> int \<Rightarrow> nat \<Rightarrow> int \<Rightarrow> rex_mst \<Rightarrow> rex_mres" where
  "expr_seq m ns 0 n cur next st = None"
| "expr_seq m ns (Suc fuel) n cur next st =
     (case node_opt ns n of
        None \<Rightarrow> None
      | Some nd \<Rightarrow>
          (case m n cur (if rn_next nd \<noteq> - 1 then rn_next nd else next) st of
             None \<Rightarrow> None
           | Some (None, st) \<Rightarrow> Some (None, st)
           | Some (Some cur, st) \<Rightarrow>
               if rn_next nd \<noteq> - 1 then expr_seq m ns fuel (rn_next nd) cur next st else Some (Some cur, st)))"

definition set_match :: "rex_mst \<Rightarrow> int \<Rightarrow> nat option \<times> int \<Rightarrow> rex_mst option" where
  "set_match st i v =
     (if 0 \<le> i \<and> i < int (length (ms_matches st)) then Some (st\<lparr>ms_matches := (ms_matches st)[nat i := v]\<rparr>) else None)"

text \<open>The branch for groups.\<close>

definition expr_match :: "rex_matcher \<Rightarrow> rex_node list \<Rightarrow> rex_node \<Rightarrow> nat \<Rightarrow> int \<Rightarrow> rex_mst \<Rightarrow> rex_mres" where
  "expr_match m ns node str next st =
     (let capture = (if rn_type node \<noteq> OP_NOCAPEXPR \<and> rn_right node = ms_currsubexp st then ms_currsubexp st else - 1) in
      case (if capture \<noteq> - 1 then
              map_option (\<lambda>st. st\<lparr>ms_currsubexp := ms_currsubexp st + 1\<rparr>)
                (set_match st capture (Some str, if nat capture < length (ms_matches st) then snd (ms_matches st ! nat capture) else 0))
            else Some st) of
        None \<Rightarrow> None
      | Some st \<Rightarrow>
          (let tempcap = ms_currsubexp st in
           case expr_seq m ns (length ns) (rn_left node) str next st of
             None \<Rightarrow> None
           | Some (None, st) \<Rightarrow>
               if capture \<noteq> - 1 then map_option (\<lambda>st. (None, st)) (set_match st capture (None, 0)) else Some (None, st)
           | Some (Some cur, st) \<Rightarrow>
               (let st = st\<lparr>ms_currsubexp := tempcap\<rparr> in
                if capture \<noteq> - 1 then
                  (case fst (ms_matches st ! nat capture) of
                     None \<Rightarrow> None
                   | Some begin \<Rightarrow> map_option (\<lambda>st. (Some cur, st)) (set_match st capture (Some begin, int cur - int begin)))
                else Some (Some cur, st))))"

subsection \<open>Single nodes\<close>

definition or_match :: "rex_matcher \<Rightarrow> rex_node list \<Rightarrow> rex_node \<Rightarrow> nat \<Rightarrow> rex_mst \<Rightarrow> rex_mres" where
  "or_match m ns node str st =
     (case or_seq m ns (length ns) (rn_left node) str st of
        None \<Rightarrow> None
      | Some (Some asd, st) \<Rightarrow> Some (Some asd, st)
      | Some (None, st) \<Rightarrow> or_seq m ns (length ns) (rn_right node) str st)"

definition wb_match :: "string \<Rightarrow> rex_node \<Rightarrow> nat \<Rightarrow> nat option option" where
  "wb_match text node str =
     (let sp = (\<lambda>i. map_option (\<lambda>c. sq_isspace (schar c)) (char_opt text i)) in
      map_option (\<lambda>isWordBoundary.
          if rn_left node = schar CHR ''b'' then (if isWordBoundary then Some str else None)
          else (if isWordBoundary then None else Some str))
        (if str = 0 then
           (if str < length text then map_option Not (sp str) else Some False)
         else if str = length text then map_option Not (sp (str - 1))
         else (case (sp str, sp (str - 1)) of (Some a, Some b) \<Rightarrow> Some (a \<noteq> b) | _ \<Rightarrow> None)))"

text \<open>The loop \<open>while (++str < streol)\<close> of \<open>OP_MB\<close>.\<close>

function mb_loop :: "string \<Rightarrow> int \<Rightarrow> int \<Rightarrow> int \<Rightarrow> nat \<Rightarrow> nat option" where
  "mb_loop text cb ce cont str =
     (let str = str + 1 in
      if str < length text then
        if schar (text ! str) = ce then (if cont - 1 = 0 then Some (str + 1) else mb_loop text cb ce (cont - 1) str)
        else if schar (text ! str) = cb then mb_loop text cb ce (cont + 1) str
        else mb_loop text cb ce cont str
      else None)"
  by pat_completeness auto
termination
  by (relation "measure (\<lambda>(text, cb, ce, cont, str). length text - str)") auto

declare mb_loop.simps [simp del]

text \<open>A test of the character at \<open>str\<close>: fails at the end of the text, else consumes one character.\<close>

definition one_char :: "string \<Rightarrow> nat \<Rightarrow> (char \<Rightarrow> bool option) \<Rightarrow> rex_mst \<Rightarrow> rex_mres" where
  "one_char text str test st =
     (if str = length text then Some (None, st)
      else case char_opt text str of
        None \<Rightarrow> None
      | Some c \<Rightarrow> map_option (\<lambda>b. (if b then Some (str + 1) else None, st)) (test c))"

fun sqstd_rex_matchnode :: "nat \<Rightarrow> rex_node list \<Rightarrow> string \<Rightarrow> rex_matcher" where
  "sqstd_rex_matchnode 0 ns text node str next st = None"
| "sqstd_rex_matchnode (Suc fuel) ns text node str next st =
     (case node_opt ns node of
        None \<Rightarrow> None
      | Some nd \<Rightarrow>
          (let type = rn_type nd; m = sqstd_rex_matchnode fuel ns text in
           if type = OP_GREEDY then
             greedy_loop m ns (length text) (rn_left nd) (if rn_next nd \<noteq> - 1 then rn_next nd else next) next
               (greedy_min nd) (greedy_max nd) 0 str str st
           else if type = OP_OR then or_match m ns nd str st
           else if type = OP_EXPR \<or> type = OP_NOCAPEXPR then expr_match m ns nd str next st
           else if type = OP_WB then map_option (\<lambda>r. (r, st)) (wb_match text nd str)
           else if type = OP_BOL then Some (if str = 0 then Some str else None, st)
           else if type = OP_EOL then Some (if str = length text then Some str else None, st)
           else if type = OP_DOT then Some (if str = length text then None else Some (str + 1), st)
           else if type = OP_NCLASS \<or> type = OP_CLASS then
             one_char text str (\<lambda>c. map_option (\<lambda>b. if b then type = OP_CLASS else type = OP_NCLASS)
               (sqstd_rex_matchclass (length ns) ns (rn_left nd) c)) st
           else if type = OP_CCLASS then one_char text str (\<lambda>c. Some (sqstd_rex_matchcclass (rn_left nd) c)) st
           else if type = OP_MB then
             if str = length text then Some (None, st)
             else (case char_opt text str of
                     None \<Rightarrow> None
                   | Some c \<Rightarrow> if schar c \<noteq> rn_left nd then Some (None, st)
                               else Some (mb_loop text (rn_left nd) (rn_right nd) 1 str, st))
           else one_char text str (\<lambda>c. Some (schar c = type)) st))"

subsection \<open>The interface\<close>

text \<open>
  The state just after compilation, the only place that clears the captures. A match or a search
  goes on from the captures that the one before it has left.
\<close>

definition rex_match_init :: "rex \<Rightarrow> rex_mst" where
  "rex_match_init rx = \<lparr>ms_currsubexp = 0, ms_matches = replicate (nat (rx_nsubexpr rx)) (None, 0)\<rparr>"

definition rex_matchnode :: "rex \<Rightarrow> string \<Rightarrow> rex_matcher" where
  "rex_matchnode rx = sqstd_rex_matchnode (length (rx_nodes rx) + 1) (rx_nodes rx)"

definition sqstd_rex_match :: "rex \<Rightarrow> rex_mst \<Rightarrow> string \<Rightarrow> (bool \<times> rex_mst) option" where
  "sqstd_rex_match rx st text =
     map_option (\<lambda>(res, st). (res = Some (length text), st))
       (rex_matchnode rx text 0 0 (- 1) (st\<lparr>ms_currsubexp := 0\<rparr>))"

text \<open>The loop \<open>while (node != -1)\<close> of \<open>sqstd_rex_searchrange\<close>.\<close>

fun search_at :: "nat \<Rightarrow> rex \<Rightarrow> string \<Rightarrow> int \<Rightarrow> nat \<Rightarrow> rex_mst \<Rightarrow> rex_mres" where
  "search_at 0 rx text node cur st = None"
| "search_at (Suc fuel) rx text node cur st =
     (if node = - 1 then Some (Some cur, st)
      else case rex_matchnode rx text node cur (- 1) (st\<lparr>ms_currsubexp := 0\<rparr>) of
        None \<Rightarrow> None
      | Some (None, st) \<Rightarrow> Some (None, st)
      | Some (Some cur, st) \<Rightarrow>
          (case node_opt (rx_nodes rx) node of
             None \<Rightarrow> None
           | Some nd \<Rightarrow> search_at fuel rx text (rn_next nd) cur st))"

text \<open>The outer loop: the first position from which the pattern matches, and where the match ends.\<close>

function search_from :: "rex \<Rightarrow> string \<Rightarrow> nat \<Rightarrow> rex_mst \<Rightarrow> ((nat \<times> nat) option \<times> rex_mst) option" where
  "search_from rx text begin st =
     (case search_at (length (rx_nodes rx) + 1) rx text 0 begin st of
        None \<Rightarrow> None
      | Some (Some cur, st) \<Rightarrow> Some (Some (begin, cur), st)
      | Some (None, st) \<Rightarrow>
          if begin + 1 < length text then search_from rx text (begin + 1) st else Some (None, st))"
  by pat_completeness auto
termination
  by (relation "measure (\<lambda>(rx, text, begin, st). length text - begin)") auto

declare search_from.simps [simp del]

definition sqstd_rex_searchrange :: "rex \<Rightarrow> rex_mst \<Rightarrow> string \<Rightarrow> ((nat \<times> nat) option \<times> rex_mst) option" where
  "sqstd_rex_searchrange rx st text = (if text = [] then Some (None, st) else search_from rx text 0 st)"

definition sqstd_rex_getsubexp :: "rex \<Rightarrow> rex_mst \<Rightarrow> int \<Rightarrow> (nat option \<times> int) option" where
  "sqstd_rex_getsubexp rx st n =
     (if n < 0 \<or> n \<ge> rx_nsubexpr rx then None else Some (ms_matches st ! nat n))"

end
