(* ===== verification/RexSafe.thy ===== *)
theory RexSafe
  imports RexTree RexMatch
begin

text \<open>
  Matching a compiled pattern is safe and ends: no node or character is read out of range, the
  recursion stays within the number of nodes, match positions lie in the text and captures
  are substrings of it. The recursion descends on the syntax tree of \<open>RexTree\<close>: into a
  child, or to the nodes that follow.
\<close>

subsection \<open>The measure\<close>

fun tsize :: "rtree \<Rightarrow> nat" where
  "tsize Leaf = 1"
| "tsize (Cls n) = 1"
| "tsize (Greedy t) = 1 + tsize t"
| "tsize (Group ts) = 1 + sum_list (map tsize ts)"
| "tsize (Alt ls rs) = 1 + sum_list (map tsize ls) + sum_list (map tsize rs)"

abbreviation sz :: "rtree list \<Rightarrow> nat" where
  "sz ts \<equiv> sum_list (map tsize ts)"

lemma tsize_pos: "0 < tsize t"
  by (cases t) auto

lemma length_sz: "length ts \<le> sz ts"
proof (induction ts)
  case (Cons t ts)
  then show ?case using tsize_pos [of t] by simp
qed simp

lemma rep_size:
  "node_rep ns k lo hi i t \<Longrightarrow> int (tsize t) \<le> hi - lo"
  "seq_rep ns k lo hi i ts \<Longrightarrow> lo \<le> hi \<Longrightarrow> int (sz ts) \<le> hi - lo"
proof (induction ns k lo hi i t and ns k lo hi i ts rule: node_rep_seq_rep.induct)
  case (7 ns k lo hi i t ts)
  then obtain mid where "lo \<le> mid" "mid \<le> hi" "node_rep ns k lo mid i t" "seq_rep ns k mid hi (rn_next (ns ! nat i)) ts"
    by auto
  with 7 show ?case by fastforce
qed auto

text \<open>What may still be matched after the head of \<open>t # ts\<close> with following sequence \<open>us\<close>.\<close>

definition todo :: "rtree list \<Rightarrow> rtree list \<Rightarrow> nat" where
  "todo ts us = (if ts = us then sz ts else sz ts + sz us)"

definition rep :: "rex_node list \<Rightarrow> int \<Rightarrow> int \<Rightarrow> rtree list \<Rightarrow> bool" where
  "rep ns k i ts \<longleftrightarrow> (\<exists>lo hi. 0 \<le> lo \<and> lo \<le> hi \<and> hi \<le> int (length ns) \<and> seq_rep ns k lo hi i ts)"

lemma rep_Nil: "rep ns k i [] \<longleftrightarrow> i = - 1"
  by (auto simp: rep_def intro!: exI [of _ 0])

lemma rep_Cons:
  assumes "rep ns k i (t # ts)"
  shows "node_opt ns i = Some (ns ! nat i)" "rep ns k (rn_next (ns ! nat i)) ts" "i \<noteq> - 1"
    "\<exists>lo hi. 0 \<le> lo \<and> hi \<le> int (length ns) \<and> node_rep ns k lo hi i t"
proof -
  obtain lo hi mid where r: "0 \<le> lo" "hi \<le> int (length ns)" "lo \<le> mid" "mid \<le> hi" "node_rep ns k lo mid i t"
    "seq_rep ns k mid hi (rn_next (ns ! nat i)) ts"
    using assms by (auto simp: rep_def)
  then show "node_opt ns i = Some (ns ! nat i)" "i \<noteq> - 1" using node_rep_range [OF r(5)] by (auto simp: node_opt_def)
  have "0 \<le> mid" using r node_rep_range [OF r(5)] by linarith
  then show "rep ns k (rn_next (ns ! nat i)) ts" unfolding rep_def using r by (intro exI [of _ mid] exI [of _ hi]) auto
  show "\<exists>lo hi. 0 \<le> lo \<and> hi \<le> int (length ns) \<and> node_rep ns k lo hi i t" using r by (intro exI [of _ lo] exI [of _ mid]) auto
qed

lemma rep_link: "rep ns k i ts \<Longrightarrow> i = - 1 \<longleftrightarrow> ts = []"
  using rep_Nil rep_Cons(3) by (cases ts) auto

lemma rep_length: "rep ns k i ts \<Longrightarrow> length ts \<le> length ns"
proof -
  assume "rep ns k i ts"
  then obtain lo hi where "0 \<le> lo" "lo \<le> hi" "hi \<le> int (length ns)" "seq_rep ns k lo hi i ts" by (auto simp: rep_def)
  with rep_size(2) [OF this(4)] length_sz [of ts] show ?thesis by linarith
qed

lemma greedy_child:
  assumes "rep ns k i (Greedy t # ts)"
  shows "rep ns k (rn_left (ns ! nat i)) [t]" "good_bounds (rn_right (ns ! nat i))" "rn_type (ns ! nat i) = OP_GREEDY"
proof -
  obtain lo hi where r: "0 \<le> lo" "hi \<le> int (length ns)" "node_rep ns k lo hi i (Greedy t)"
    using rep_Cons(4) [OF assms] by blast
  then show "good_bounds (rn_right (ns ! nat i))" "rn_type (ns ! nat i) = OP_GREEDY" by simp_all
  show "rep ns k (rn_left (ns ! nat i)) [t]"
    unfolding rep_def using r by (intro exI [of _ lo] exI [of _ i]) auto
qed

lemma group_child:
  assumes "rep ns k i (Group cs # ts)"
  shows "rep ns k (rn_left (ns ! nat i)) cs" "cs \<noteq> []"
    "rn_type (ns ! nat i) = OP_EXPR \<and> 0 \<le> rn_right (ns ! nat i) \<and> rn_right (ns ! nat i) < k \<or> rn_type (ns ! nat i) = OP_NOCAPEXPR"
proof -
  obtain lo hi where r: "0 \<le> lo" "hi \<le> int (length ns)" "node_rep ns k lo hi i (Group cs)"
    using rep_Cons(4) [OF assms] by blast
  then show "cs \<noteq> []"
    "rn_type (ns ! nat i) = OP_EXPR \<and> 0 \<le> rn_right (ns ! nat i) \<and> rn_right (ns ! nat i) < k \<or> rn_type (ns ! nat i) = OP_NOCAPEXPR"
    by auto
  show "rep ns k (rn_left (ns ! nat i)) cs"
    unfolding rep_def using r by (intro exI [of _ "i + 1"] exI [of _ hi]) auto
qed

lemma alt_children:
  assumes "rep ns k i (Alt ls rs # ts)"
  shows "rep ns k (rn_left (ns ! nat i)) ls" "rep ns k (rn_right (ns ! nat i)) rs" "ls \<noteq> []" "rs \<noteq> []"
    "rn_type (ns ! nat i) = OP_OR"
proof -
  obtain lo hi where r: "0 \<le> lo" "hi \<le> int (length ns)" "node_rep ns k lo hi i (Alt ls rs)"
    using rep_Cons(4) [OF assms] by blast
  then show "ls \<noteq> []" "rs \<noteq> []" "rn_type (ns ! nat i) = OP_OR" by auto
  show "rep ns k (rn_left (ns ! nat i)) ls"
    unfolding rep_def using r by (intro exI [of _ lo] exI [of _ i]) auto
  show "rep ns k (rn_right (ns ! nat i)) rs"
    unfolding rep_def using r by (intro exI [of _ "i + 1"] exI [of _ hi]) auto
qed

subsection \<open>What a call keeps\<close>

text \<open>
  A capture of a text of \<open>n\<close> characters is unset or a substring. Captures from index \<open>c\<close> on are
  such, or are left from before: \<open>old\<close> holds the captures that the call started with.
\<close>

definition capture_ok :: "nat \<Rightarrow> nat option \<times> int \<Rightarrow> bool" where
  "capture_ok n v \<longleftrightarrow> (case v of (None, l) \<Rightarrow> l = 0 | (Some b, l) \<Rightarrow> 0 \<le> l \<and> int b + l \<le> int n)"

lemma capture_ok_simps [simp]: "capture_ok n (None, l) \<longleftrightarrow> l = 0" "capture_ok n (Some b, l) \<longleftrightarrow> 0 \<le> l \<and> int b + l \<le> int n"
  by (simp_all add: capture_ok_def)

definition caps_ok :: "(nat option \<times> int) list \<Rightarrow> nat \<Rightarrow> nat \<Rightarrow> rex_mst \<Rightarrow> bool" where
  "caps_ok old n c st \<longleftrightarrow> (\<forall>j < length (ms_matches st). c \<le> j \<longrightarrow> capture_ok n (ms_matches st ! j) \<or> ms_matches st ! j = old ! j)"

definition mst_ok :: "(nat option \<times> int) list \<Rightarrow> nat \<Rightarrow> int \<Rightarrow> rex_mst \<Rightarrow> bool" where
  "mst_ok old n k st \<longleftrightarrow> length (ms_matches st) = nat k \<and> 0 \<le> ms_currsubexp st \<and> caps_ok old n (nat (ms_currsubexp st)) st"

text \<open>A call leaves the captures below its current index alone and the rest well-formed.\<close>

definition later :: "(nat option \<times> int) list \<Rightarrow> nat \<Rightarrow> rex_mst \<Rightarrow> rex_mst \<Rightarrow> bool" where
  "later old n st st' \<longleftrightarrow> ms_currsubexp st \<le> ms_currsubexp st' \<and>
     length (ms_matches st') = length (ms_matches st) \<and>
     (\<forall>j < nat (ms_currsubexp st). ms_matches st' ! j = ms_matches st ! j) \<and>
     caps_ok old n (nat (ms_currsubexp st)) st'"

lemma later_refl: "mst_ok old n k st \<Longrightarrow> later old n st st"
  by (simp add: later_def mst_ok_def)

lemma later_ok: "mst_ok old n k st \<Longrightarrow> later old n st st' \<Longrightarrow> mst_ok old n k st'"
  by (auto simp: later_def mst_ok_def caps_ok_def)

lemma later_trans:
  assumes "later old n a b" "later old n b c" "0 \<le> ms_currsubexp a"
  shows "later old n a c"
  unfolding later_def
proof (intro conjI)
  show "ms_currsubexp a \<le> ms_currsubexp c" "length (ms_matches c) = length (ms_matches a)"
    using assms by (auto simp: later_def)
  show "\<forall>j < nat (ms_currsubexp a). ms_matches c ! j = ms_matches a ! j"
    using assms by (auto simp: later_def)
  show "caps_ok old n (nat (ms_currsubexp a)) c"
    unfolding caps_ok_def
  proof (intro allI impI)
    fix j assume j: "j < length (ms_matches c)" "nat (ms_currsubexp a) \<le> j"
    show "capture_ok n (ms_matches c ! j) \<or> ms_matches c ! j = old ! j"
    proof (cases "nat (ms_currsubexp b) \<le> j")
      case True
      then show ?thesis using assms(2) j(1) by (auto simp: later_def caps_ok_def)
    next
      case False
      then have "ms_matches c ! j = ms_matches b ! j" using assms(2) by (simp add: later_def)
      then show ?thesis using assms(1,2) j by (auto simp: later_def caps_ok_def)
    qed
  qed
qed

definition res_ok :: "(nat option \<times> int) list \<Rightarrow> string \<Rightarrow> nat \<Rightarrow> rex_mst \<Rightarrow> rex_mres \<Rightarrow> bool" where
  "res_ok old text pos st r \<longleftrightarrow> (\<exists>p st'. r = Some (p, st') \<and> later old (length text) st st' \<and>
     (\<forall>q. p = Some q \<longrightarrow> pos \<le> q \<and> q \<le> length text))"

lemma res_okI: "later old (length text) st st' \<Longrightarrow> (\<And>q. p = Some q \<Longrightarrow> pos \<le> q \<and> q \<le> length text) \<Longrightarrow> res_ok old text pos st (Some (p, st'))"
  by (auto simp: res_ok_def)

lemma res_ok_later:
  assumes "later old (length text) a b" "0 \<le> ms_currsubexp a" "res_ok old text q b r" "p \<le> q"
  shows "res_ok old text p a r"
  using assms later_trans [OF assms(1) _ assms(2)] unfolding res_ok_def by (metis le_trans)

subsection \<open>The loops\<close>

lemma greedy_result_ok:
  "later old (length text) st st' \<Longrightarrow> pos \<le> good \<Longrightarrow> good \<le> length text \<Longrightarrow> res_ok old text pos st (greedy_result p0 p1 n good st')"
  by (auto simp: greedy_result_def intro!: res_okI)

lemma greedy_loop_ok:
  assumes child: "\<And>s st. s \<le> length text \<Longrightarrow> mst_ok old (length text) k st \<Longrightarrow> res_ok old text s st (m left s gs st)"
    and stop: "\<And>n s st. s \<le> length text \<Longrightarrow> mst_ok old (length text) k st \<Longrightarrow>
        \<exists>b st'. greedy_stop m ns gs nxt p0 p1 n s st = Some (b, st') \<and> later old (length text) st st'"
    and "s \<le> length text" "good \<le> length text" "pos \<le> s" "pos \<le> good" "mst_ok old (length text) k st"
  shows "res_ok old text pos st (greedy_loop m ns (length text) left gs nxt p0 p1 n s good st)"
  using assms(3-)
proof (induction "nat (max p1 0x10000 - n)" arbitrary: n s good st rule: less_induct)
  case less
  have cur: "0 \<le> ms_currsubexp st" using less.prems by (simp add: mst_ok_def)
  show ?case
  proof (cases "n = 0xFFFF \<or> n < p1")
    case False
    then show ?thesis
      using less.prems by (simp add: greedy_loop.simps [of m ns _ left gs nxt p0 p1 n] greedy_result_ok later_refl)
  next
    case True
    obtain p st1 where c: "m left s gs st = Some (p, st1)" "later old (length text) st st1"
      "\<And>q. p = Some q \<Longrightarrow> s \<le> q \<and> q \<le> length text"
      using child [OF less.prems(1,5)] by (auto simp: res_ok_def)
    have ok1: "mst_ok old (length text) k st1" using later_ok [OF less.prems(5) c(2)] .
    show ?thesis
    proof (cases p)
      case None
      then show ?thesis using True c less.prems
        by (simp add: greedy_loop.simps [of m ns _ left gs nxt p0 p1 n] greedy_result_ok)
    next
      case (Some s')
      have s': "s \<le> s'" "s' \<le> length text" using c(3) [OF Some] by auto
      obtain b st2 where b: "greedy_stop m ns gs nxt p0 p1 (n + 1) s' st1 = Some (b, st2)" "later old (length text) st1 st2"
        using stop [OF s'(2) ok1] by blast
      have ok2: "mst_ok old (length text) k st2" using later_ok [OF ok1 b(2)] .
      have l2: "later old (length text) st st2" using later_trans [OF c(2) b(2) cur] .
      have "nat (max p1 0x10000 - (n + 1)) < nat (max p1 0x10000 - n)" using True by auto
      from less.hyps [OF this s'(2,2) _ _ ok2] less.prems(3) s'(1)
      have rec: "res_ok old text pos st2 (greedy_loop m ns (length text) left gs nxt p0 p1 (n + 1) s' s' st2)" by simp
      show ?thesis
        using True c(1,2) Some b s' less.prems l2 res_ok_later [OF l2 cur rec]
        by (auto simp: greedy_loop.simps [of m ns _ left gs nxt p0 p1 n] Let_def intro!: greedy_result_ok)
    qed
  qed
qed

lemma or_seq_ok:
  assumes step: "\<And>i t ts s st. rep ns k i (t # ts) \<Longrightarrow> sz (t # ts) \<le> bound \<Longrightarrow> s \<le> length text \<Longrightarrow>
      mst_ok old (length text) k st \<Longrightarrow> res_ok old text s st (m i s (- 1) st)"
    and "rep ns k i ts" "ts \<noteq> []" "sz ts \<le> bound" "length ts \<le> fuel" "s \<le> length text" "mst_ok old (length text) k st"
  shows "res_ok old text s st (or_seq m ns fuel i s st)"
  using assms(2-)
proof (induction fuel arbitrary: i ts s st)
  case 0
  then show ?case by simp
next
  case (Suc fuel)
  obtain t us where ts: "ts = t # us" using Suc.prems(2) by (cases ts) auto
  have cur: "0 \<le> ms_currsubexp st" using Suc.prems by (simp add: mst_ok_def)
  note r = rep_Cons [OF Suc.prems(1) [unfolded ts]]
  obtain p st1 where c: "m i s (- 1) st = Some (p, st1)" "later old (length text) st st1"
      "\<And>q. p = Some q \<Longrightarrow> s \<le> q \<and> q \<le> length text"
    using step [OF Suc.prems(1) [unfolded ts], of s st] Suc.prems(3,5,6) unfolding res_ok_def ts by blast
  have ok1: "mst_ok old (length text) k st1" using later_ok [OF Suc.prems(6) c(2)] .
  show ?case
  proof (cases p)
    case None
    then show ?thesis using c by (auto intro: res_okI)
  next
    case (Some s')
    have s': "s \<le> s'" "s' \<le> length text" using c(3) [OF Some] by auto
    show ?thesis
    proof (cases us)
      case Nil
      then have "rn_next (ns ! nat i) = - 1" using r(2) by (simp add: rep_Nil)
      then show ?thesis using c Some r(1) s' by (auto intro: res_okI)
    next
      case (Cons u us')
      then have ne: "us \<noteq> []" "rn_next (ns ! nat i) \<noteq> - 1" using rep_link [OF r(2)] by auto
      have "res_ok old text s' st1 (or_seq m ns fuel (rn_next (ns ! nat i)) s' st1)"
        using Suc.IH [OF r(2) ne(1) _ _ s'(2) ok1] Suc.prems ts by simp
      from res_ok_later [OF c(2) cur this s'(1)] show ?thesis using c(1) Some r(1) ne by simp
    qed
  qed
qed

lemma expr_seq_ok:
  assumes step: "\<And>i t ts s nx st. rep ns k i (t # ts) \<Longrightarrow> sz (t # ts) \<le> bound \<Longrightarrow> s \<le> length text \<Longrightarrow>
      mst_ok old (length text) k st \<Longrightarrow> nx = (if rn_next (ns ! nat i) \<noteq> - 1 then rn_next (ns ! nat i) else nxt) \<Longrightarrow>
      res_ok old text s st (m i s nx st)"
    and "rep ns k i ts" "ts \<noteq> []" "sz ts \<le> bound" "length ts \<le> fuel" "s \<le> length text" "mst_ok old (length text) k st"
  shows "res_ok old text s st (expr_seq m ns fuel i s nxt st)"
  using assms(2-)
proof (induction fuel arbitrary: i ts s st)
  case 0
  then show ?case by simp
next
  case (Suc fuel)
  obtain t us where ts: "ts = t # us" using Suc.prems(2) by (cases ts) auto
  have cur: "0 \<le> ms_currsubexp st" using Suc.prems by (simp add: mst_ok_def)
  note r = rep_Cons [OF Suc.prems(1) [unfolded ts]]
  let ?nx = "if rn_next (ns ! nat i) \<noteq> - 1 then rn_next (ns ! nat i) else nxt"
  obtain p st1 where c: "m i s ?nx st = Some (p, st1)" "later old (length text) st st1"
      "\<And>q. p = Some q \<Longrightarrow> s \<le> q \<and> q \<le> length text"
    using step [OF Suc.prems(1) [unfolded ts] _ _ _ refl, of s st] Suc.prems(3,5,6) unfolding res_ok_def ts by blast
  have ok1: "mst_ok old (length text) k st1" using later_ok [OF Suc.prems(6) c(2)] .
  show ?case
  proof (cases p)
    case None
    then show ?thesis using c r(1) by (auto intro: res_okI)
  next
    case (Some s')
    have s': "s \<le> s'" "s' \<le> length text" using c(3) [OF Some] by auto
    show ?thesis
    proof (cases us)
      case Nil
      then have "rn_next (ns ! nat i) = - 1" using r(2) by (simp add: rep_Nil)
      then show ?thesis using c Some r(1) s' by (auto intro: res_okI)
    next
      case (Cons u us')
      then have ne: "us \<noteq> []" "rn_next (ns ! nat i) \<noteq> - 1" using rep_link [OF r(2)] by auto
      have "res_ok old text s' st1 (expr_seq m ns fuel (rn_next (ns ! nat i)) s' nxt st1)"
        using Suc.IH [OF r(2) ne(1) _ _ s'(2) ok1] Suc.prems ts by simp
      from res_ok_later [OF c(2) cur this s'(1)] show ?thesis using c(1) Some r(1) ne by simp
    qed
  qed
qed

lemma set_match_eq: "0 \<le> i \<Longrightarrow> i < int (length (ms_matches st)) \<Longrightarrow> set_match st i v = Some (st\<lparr>ms_matches := (ms_matches st)[nat i := v]\<rparr>)"
  by (simp add: set_match_def)

lemma greedy_stop_ok:
  assumes nodes: "gs \<noteq> - 1 \<Longrightarrow> node_opt ns gs = Some gnd" "nxt \<noteq> - 1 \<Longrightarrow> node_opt ns nxt = Some nnd"
    and look: "gs \<noteq> - 1 \<Longrightarrow> res_ok old text s st (m gs s (if rn_next gnd \<noteq> - 1 then rn_next gnd else if nxt \<noteq> - 1 then rn_next nnd else - 1) st)"
    and st: "mst_ok old (length text) k st"
  shows "\<exists>b st'. greedy_stop m ns gs nxt p0 p1 n s st = Some (b, st') \<and> later old (length text) st st'"
proof (cases "gs = - 1 \<or> \<not> (rn_type gnd \<noteq> OP_GREEDY \<or> greedy_min gnd \<noteq> 0)")
  case True
  then show ?thesis using nodes(1) later_refl [OF st] by (auto simp: greedy_stop_def)
next
  case False
  then obtain p st' where "m gs s (if rn_next gnd \<noteq> - 1 then rn_next gnd else if nxt \<noteq> - 1 then rn_next nnd else - 1) st = Some (p, st')"
    "later old (length text) st st'"
    using look by (auto simp: res_ok_def)
  with False nodes show ?thesis
    by (cases p; cases "rn_next gnd = - 1"; cases "nxt = - 1") (auto simp: greedy_stop_def)
qed

text \<open>A group: its capture is empty after a failure and a substring after a success.\<close>

lemma caps_ok_upd:
  "caps_ok old n (Suc c) st \<Longrightarrow> capture_ok n v \<Longrightarrow>
   caps_ok old n c (st\<lparr>ms_matches := (ms_matches st)[c := v]\<rparr>)"
  by (auto simp: caps_ok_def nth_list_update split: prod.splits option.splits)

lemma expr_match_ok:
  assumes seq: "\<And>st. mst_ok old (length text) k st \<Longrightarrow> res_ok old text str st (expr_seq m ns (length ns) (rn_left nd) str nxt st)"
    and ty: "rn_type nd = OP_EXPR \<and> 0 \<le> rn_right nd \<and> rn_right nd < k \<or> rn_type nd = OP_NOCAPEXPR"
    and st: "mst_ok old (length text) k st" and str: "str \<le> length text"
  shows "res_ok old text str st (expr_match m ns nd str nxt st)"
proof (cases "rn_type nd \<noteq> OP_NOCAPEXPR \<and> rn_right nd = ms_currsubexp st")
  case False
  obtain p st1 where c: "expr_seq m ns (length ns) (rn_left nd) str nxt st = Some (p, st1)" "later old (length text) st st1"
    "\<And>q. p = Some q \<Longrightarrow> str \<le> q \<and> q \<le> length text"
    using seq [OF st] by (auto simp: res_ok_def)
  have "later old (length text) st (st1\<lparr>ms_currsubexp := ms_currsubexp st\<rparr>)" using c(2) by (auto simp: later_def caps_ok_def)
  then show ?thesis using False c by (cases p) (auto simp: expr_match_def Let_def intro!: res_okI)
next
  case True
  let ?c = "ms_currsubexp st"
  have c0: "0 \<le> ?c" "?c < k" "?c \<noteq> - 1" "?c < int (length (ms_matches st))"
    using True ty st by (auto simp: mst_ok_def)
  let ?l = "snd (ms_matches st ! nat ?c)"
  let ?st = "st\<lparr>ms_matches := (ms_matches st)[nat ?c := (Some str, ?l)], ms_currsubexp := ?c + 1\<rparr>"
  have ok: "mst_ok old (length text) k ?st" using st c0 by (auto simp: mst_ok_def caps_ok_def nth_list_update)
  obtain p st1 where c: "expr_seq m ns (length ns) (rn_left nd) str nxt ?st = Some (p, st1)" "later old (length text) ?st st1"
    "\<And>q. p = Some q \<Longrightarrow> str \<le> q \<and> q \<le> length text"
    using seq [OF ok] by (auto simp: res_ok_def)
  have sc: "nat (?c + 1) = Suc (nat ?c)" using c0 by simp
  have len: "length (ms_matches st1) = length (ms_matches st)" using c(2) by (simp add: later_def)
  have below: "ms_matches st1 ! j = ms_matches st ! j" if "j < nat ?c" for j
    using c(2) that c0 by (auto simp: later_def sc)
  have at: "ms_matches st1 ! nat ?c = (Some str, ?l)"
    using c(2) c0 by (auto simp: later_def sc)
  have above: "caps_ok old (length text) (Suc (nat ?c)) st1" using c(2) by (simp add: later_def sc)
  have cur: "?c < ms_currsubexp st1" using c(2) by (simp add: later_def)
  show ?thesis
  proof (cases p)
    case None
    have "later old (length text) st (st1\<lparr>ms_matches := (ms_matches st1)[nat ?c := (None, 0)]\<rparr>)"
      using caps_ok_upd [OF above, of "(None, 0)"] len below cur c0 by (auto simp: later_def nth_list_update)
    then show ?thesis using True c0 c(1) None len by (auto simp: expr_match_def Let_def set_match_eq intro!: res_okI)
  next
    case (Some q)
    have q: "str \<le> q" "q \<le> length text" using c(3) [OF Some] by auto
    have above': "caps_ok old (length text) (Suc (nat ?c)) (st1\<lparr>ms_currsubexp := ?c + 1\<rparr>)" using above by (simp add: caps_ok_def)
    have "later old (length text) st (st1\<lparr>ms_currsubexp := ?c + 1, ms_matches := (ms_matches st1)[nat ?c := (Some str, int q - int str)]\<rparr>)"
      using caps_ok_upd [OF above', of "(Some str, int q - int str)"] len below q c0
      by (auto simp: later_def nth_list_update)
    then show ?thesis using True c0 c(1) Some len at q
      by (auto simp: expr_match_def Let_def set_match_eq intro!: res_okI)
  qed
qed

lemma or_match_ok:
  assumes "\<And>st. mst_ok old (length text) k st \<Longrightarrow> res_ok old text str st (or_seq m ns (length ns) (rn_left nd) str st)"
    "\<And>st. mst_ok old (length text) k st \<Longrightarrow> res_ok old text str st (or_seq m ns (length ns) (rn_right nd) str st)"
    and st: "mst_ok old (length text) k st"
  shows "res_ok old text str st (or_match m ns nd str st)"
proof -
  have cur: "0 \<le> ms_currsubexp st" using st by (simp add: mst_ok_def)
  obtain p st1 where c: "or_seq m ns (length ns) (rn_left nd) str st = Some (p, st1)" "later old (length text) st st1"
    "\<And>q. p = Some q \<Longrightarrow> str \<le> q \<and> q \<le> length text"
    using assms(1) [OF st] by (auto simp: res_ok_def)
  show ?thesis
  proof (cases p)
    case None
    have "res_ok old text str st (or_seq m ns (length ns) (rn_right nd) str st1)"
      by (rule res_ok_later [OF c(2) cur assms(2) [OF later_ok [OF st c(2)]]]) simp
    then show ?thesis using c None by (simp add: or_match_def)
  next
    case (Some q)
    then show ?thesis using c by (auto simp: or_match_def intro: res_okI)
  qed
qed

subsection \<open>Leaves\<close>

lemma wb_match_ok: "str \<le> length text \<Longrightarrow> \<exists>r. wb_match text nd str = Some r \<and> (\<forall>q. r = Some q \<longrightarrow> q = str)"
  by (auto simp: wb_match_def char_opt_def Let_def)

lemma mb_loop_bounds: "mb_loop text cb ce cont str = Some q \<Longrightarrow> str < q \<and> q \<le> length text"
proof (induction "text" cb ce cont str rule: mb_loop.induct)
  case (1 tt cb ce cont str)
  note eq = "1.prems" [unfolded mb_loop.simps [of tt cb ce cont str] Let_def]
  have lt: "str + 1 < length tt" using eq by (simp split: if_splits)
  show ?case
  proof (cases "schar (tt ! (str + 1)) = ce")
    case True
    show ?thesis
    proof (cases "cont - 1 = 0")
      case True
      then show ?thesis using eq lt \<open>schar (tt ! (str + 1)) = ce\<close> by simp
    next
      case False
      then have "str + 1 < q \<and> q \<le> length tt"
        using "1.IH"(1) [OF refl lt True False] eq lt True by simp
      then show ?thesis by simp
    qed
  next
    case False
    show ?thesis
    proof (cases "schar (tt ! (str + 1)) = cb")
      case True
      then have "str + 1 < q \<and> q \<le> length tt"
        using "1.IH"(2) [OF refl lt False True] eq lt False by simp
      then show ?thesis by simp
    next
      case not_cb: False
      then have "str + 1 < q \<and> q \<le> length tt"
        using "1.IH"(3) [OF refl lt False not_cb] eq lt False by simp
      then show ?thesis by simp
    qed
  qed
qed

lemma matchclass_total:
  "chain_rep ns lo hi i n \<Longrightarrow> 0 < n \<Longrightarrow> n \<le> fuel \<Longrightarrow> 0 \<le> lo \<Longrightarrow> hi \<le> int (length ns) \<Longrightarrow> sqstd_rex_matchclass fuel ns i c \<noteq> None"
proof (induction n arbitrary: i fuel)
  case (Suc n)
  then obtain f where f: "fuel = Suc f" by (cases fuel) auto
  have r: "node_opt ns i = Some (ns ! nat i)" "chain_rep ns lo hi (rn_next (ns ! nat i)) n"
    using Suc.prems by (auto simp: node_opt_def)
  show ?case
  proof (cases n)
    case 0
    then show ?thesis using r f by (cases "class_item (ns ! nat i) c") simp_all
  next
    case (Suc n')
    then show ?thesis using r f Suc.IH [OF r(2)] Suc.prems by auto
  qed
qed simp

lemma one_char_ok:
  assumes "\<And>c. test c \<noteq> None" "mst_ok old (length text) k st" "str \<le> length text"
  shows "res_ok old text str st (one_char text str test st)"
proof (cases "str = length text")
  case True
  then show ?thesis using later_refl [OF assms(2)] by (auto simp: one_char_def intro: res_okI)
next
  case False
  then obtain b where "test (text ! str) = Some b" using assms(1) by blast
  then show ?thesis using later_refl [OF assms(2)] False assms(3) by (auto simp: one_char_def char_opt_def intro!: res_okI)
qed

lemma leaf_ok:
  assumes "mst_ok old (length text) k st" "str \<le> length text" "simple_type (rn_type nd)" "node_opt ns i = Some nd"
  shows "res_ok old text str st (sqstd_rex_matchnode (Suc fuel) ns text i str nxt st)"
proof -
  note l = later_refl [OF assms(1)]
  obtain r where r: "wb_match text nd str = Some r" "\<And>q. r = Some q \<Longrightarrow> q = str" using wb_match_ok [OF assms(2)] by blast
  have s: "rn_type nd \<noteq> OP_GREEDY" "rn_type nd \<noteq> OP_OR" "rn_type nd \<noteq> OP_EXPR" "rn_type nd \<noteq> OP_NOCAPEXPR"
    "rn_type nd \<noteq> OP_CLASS" "rn_type nd \<noteq> OP_NCLASS"
    using assms(3) by (auto simp: simple_type_def)
  have one: "res_ok old text str st (one_char text str (\<lambda>c. Some (f c)) st)" for f
    by (rule one_char_ok [OF _ assms(1,2)]) simp
  have w: "res_ok old text str st (Some (r, st))" using r l assms(2) by (auto intro: res_okI)
  have mb: "res_ok old text str st (Some (mb_loop text a b 1 str, st))" for a b
    using l mb_loop_bounds by (intro res_okI) fastforce+
  have bound: "str \<noteq> length text \<Longrightarrow> Suc str \<le> length text" using assms(2) by linarith
  have opt: "str \<noteq> length text \<Longrightarrow> char_opt text str = Some (text ! str)" using assms(2) by (simp add: char_opt_def)
  show ?thesis
    using s assms(4) r(1) l w one mb bound opt
    by (simp add: Let_def) (auto intro!: res_okI)
qed

subsection \<open>The matcher\<close>

lemma rep_gs: "rep ns k j ts \<Longrightarrow> rep ns k nxt us \<Longrightarrow> rep ns k (if j \<noteq> - 1 then j else nxt) (if ts \<noteq> [] then ts else us)"
  using rep_link [of ns k j ts] by auto

lemma rep_ne: "rep ns k i ts \<Longrightarrow> i \<noteq> - 1 \<Longrightarrow> \<exists>t us. ts = t # us"
  using rep_link by (cases ts) auto

lemma rep_tl: "rep ns k i us \<Longrightarrow> rep ns k (if i \<noteq> - 1 then rn_next (ns ! nat i) else - 1) (tl us)"
  using rep_ne [of ns k i us] rep_Cons(2) [of ns k i] rep_link [of ns k i us] by (auto simp: rep_Nil)

lemma node_types: "OP_OR \<noteq> OP_GREEDY" "OP_EXPR \<noteq> OP_GREEDY" "OP_NOCAPEXPR \<noteq> OP_GREEDY" "OP_EXPR \<noteq> OP_OR" "OP_NOCAPEXPR \<noteq> OP_OR"
  "OP_CLASS \<notin> {OP_GREEDY, OP_OR, OP_EXPR, OP_NOCAPEXPR, OP_WB, OP_BOL, OP_EOL, OP_DOT}"
  "OP_NCLASS \<notin> {OP_GREEDY, OP_OR, OP_EXPR, OP_NOCAPEXPR, OP_WB, OP_BOL, OP_EOL, OP_DOT}"
  by (simp_all add: OP_defs)

text \<open>The induction hypothesis of \<open>matchnode_ok\<close>: \<open>m\<close> handles everything smaller than \<open>fuel\<close>.\<close>

definition handles :: "(nat option \<times> int) list \<Rightarrow> string \<Rightarrow> rex_node list \<Rightarrow> int \<Rightarrow> nat \<Rightarrow> rex_matcher \<Rightarrow> bool" where
  "handles old text ns k fuel m \<longleftrightarrow> (\<forall>i t ts nxt us str st. rep ns k i (t # ts) \<longrightarrow> rep ns k nxt us \<longrightarrow>
     tsize t + todo ts us < fuel \<longrightarrow> str \<le> length text \<longrightarrow> mst_ok old (length text) k st \<longrightarrow> res_ok old text str st (m i str nxt st))"

lemma handlesD:
  "handles old text ns k fuel m \<Longrightarrow> rep ns k i (t # ts) \<Longrightarrow> rep ns k nxt us \<Longrightarrow>
     tsize t + todo ts us < fuel \<Longrightarrow> str \<le> length text \<Longrightarrow> mst_ok old (length text) k st \<Longrightarrow> res_ok old text str st (m i str nxt st)"
  by (simp add: handles_def)

lemma rep_node: "rep ns k i ts \<Longrightarrow> i \<noteq> - 1 \<Longrightarrow> node_opt ns i = Some (ns ! nat i)"
  using rep_ne [of ns k i ts] rep_Cons(1) by blast

lemma greedy_lookahead_ok:
  assumes h: "handles old text ns k fuel m" and gs: "rep ns k gi gs" and us: "rep ns k nxt us"
    and size: "sz gs + (if tl gs = [] then sz (tl us) else 0) < fuel"
    and st: "s \<le> length text" "mst_ok old (length text) k st"
  shows "\<exists>b st'. greedy_stop m ns gi nxt p0 p1 n s st = Some (b, st') \<and> later old (length text) st st'"
proof (rule greedy_stop_ok [OF _ _ _ st(2)])
  show "node_opt ns gi = Some (ns ! nat gi)" if "gi \<noteq> - 1" using rep_node [OF gs that] .
  show "node_opt ns nxt = Some (ns ! nat nxt)" if "nxt \<noteq> - 1" using rep_node [OF us that] .
  assume "gi \<noteq> - 1"
  then obtain d gr where d: "gs = d # gr" using rep_ne [OF gs] by blast
  note rd = gs [unfolded d]
  have "tsize d + todo gr (if gr \<noteq> [] then gr else tl us) < fuel"
    using size d by (auto simp: todo_def)
  from handlesD [OF h rd rep_gs [OF rep_Cons(2) [OF rd] rep_tl [OF us]] this st]
  show "res_ok old text s st (m gi s (if rn_next (ns ! nat gi) \<noteq> - 1 then rn_next (ns ! nat gi)
      else if nxt \<noteq> - 1 then rn_next (ns ! nat nxt) else - 1) st)" .
qed

lemma sz_tl: "sz (tl us) \<le> sz us"
  by (cases us) auto

lemma greedy_node_ok:
  assumes h: "handles old text ns k fuel m" and i: "rep ns k i (Greedy c # ts)" and us: "rep ns k nxt us"
    and size: "tsize (Greedy c) + todo ts us < Suc fuel" and st: "str \<le> length text" "mst_ok old (length text) k st"
  defines "gi \<equiv> if rn_next (ns ! nat i) \<noteq> - 1 then rn_next (ns ! nat i) else nxt"
  shows "res_ok old text str st (greedy_loop m ns (length text) (rn_left (ns ! nat i)) gi nxt p0 p1 0 str str st)"
proof -
  let ?gs = "if ts \<noteq> [] then ts else us"
  have gs: "rep ns k gi ?gs" unfolding gi_def by (rule rep_gs [OF rep_Cons(2) [OF i] us])
  have "sz ?gs + (if tl ?gs = [] then sz (tl us) else 0) < fuel" "tsize c + todo [] ?gs < fuel"
    using size sz_tl [of us] by (auto simp: todo_def split: if_splits)
  note s = this
  show ?thesis
  proof (rule greedy_loop_ok [OF _ _ st(1,1) order_refl order_refl st(2)])
    show "res_ok old text s st' (m (rn_left (ns ! nat i)) s gi st')" if "s \<le> length text" "mst_ok old (length text) k st'" for s st'
      by (rule handlesD [OF h greedy_child(1) [OF i] gs s(2) that])
    show "\<exists>b st''. greedy_stop m ns gi nxt p0 p1 n s' st' = Some (b, st'') \<and> later old (length text) st' st''"
      if "s' \<le> length text" "mst_ok old (length text) k st'" for n s' st'
      by (rule greedy_lookahead_ok [OF h gs us s(1) that])
  qed
qed

lemma group_node_ok:
  assumes h: "handles old text ns k fuel m" and i: "rep ns k i (Group cs # ts)" and us: "rep ns k nxt us"
    and size: "tsize (Group cs) + todo ts us < Suc fuel" and st: "str \<le> length text" "mst_ok old (length text) k st"
  shows "res_ok old text str st (expr_match m ns (ns ! nat i) str nxt st)"
proof (rule expr_match_ok [OF _ group_child(3) [OF i] st(2,1)])
  note g = group_child [OF i]
  fix st' assume "mst_ok old (length text) k st'"
  show "res_ok old text str st' (expr_seq m ns (length ns) (rn_left (ns ! nat i)) str nxt st')"
  proof (rule expr_seq_ok [where bound = "sz cs", OF _ g(1,2) order_refl rep_length [OF g(1)] st(1)])
    fix j d ds s nx st2
    assume d: "rep ns k j (d # ds)" "sz (d # ds) \<le> sz cs" "s \<le> length text" "mst_ok old (length text) k st2"
      "nx = (if rn_next (ns ! nat j) \<noteq> - 1 then rn_next (ns ! nat j) else nxt)"
    have "tsize d + todo ds (if ds \<noteq> [] then ds else us) < fuel"
      using size d(2) by (auto simp: todo_def split: if_splits)
    from handlesD [OF h d(1) rep_gs [OF rep_Cons(2) [OF d(1)] us] this d(3,4)]
    show "res_ok old text s st2 (m j s nx st2)" by (simp add: d(5))
  qed fact
qed

lemma alt_node_ok:
  assumes h: "handles old text ns k fuel m" and i: "rep ns k i (Alt ls rs # ts)"
    and size: "tsize (Alt ls rs) + todo ts us < Suc fuel" and st: "str \<le> length text" "mst_ok old (length text) k st"
  shows "res_ok old text str st (or_match m ns (ns ! nat i) str st)"
proof -
  note a = alt_children [OF i]
  have seq: "res_ok old text str st' (or_seq m ns (length ns) j str st')"
    if j: "rep ns k j xs" "xs \<noteq> []" "sz xs \<le> sz ls + sz rs" and ok: "mst_ok old (length text) k st'" for j xs st'
  proof (rule or_seq_ok [where bound = "sz ls + sz rs", OF _ j rep_length [OF j(1)] st(1) ok])
    fix j d ds s st2
    assume d: "rep ns k j (d # ds)" "sz (d # ds) \<le> sz ls + sz rs" "s \<le> length text" "mst_ok old (length text) k st2"
    have "tsize d + todo ds [] < fuel" using size d(2) by (auto simp: todo_def split: if_splits)
    with d show "res_ok old text s st2 (m j s (- 1) st2)" using handlesD [OF h d(1), of "- 1" "[]"] by (simp add: rep_Nil)
  qed
  show ?thesis
    by (rule or_match_ok [OF seq [OF a(1,3)] seq [OF a(2,4)] st(2)]) simp_all
qed

lemma class_node_ok:
  assumes "rep ns k i (Cls n # ts)" "str \<le> length text" "mst_ok old (length text) k st"
  shows "res_ok old text str st (sqstd_rex_matchnode (Suc fuel) ns text i str nxt st)"
proof -
  let ?nd = "ns ! nat i"
  obtain hi where c: "rn_type ?nd = OP_CLASS \<or> rn_type ?nd = OP_NCLASS" "0 < n" "int n < hi - i" "0 \<le> i" "hi \<le> int (length ns)"
    "chain_rep ns (i + 1) hi (rn_left ?nd) n"
    using rep_Cons(4) [OF assms(1)] by auto
  have "sqstd_rex_matchclass (length ns) ns (rn_left ?nd) ch \<noteq> None" for ch
    by (rule matchclass_total [OF c(6)]) (use c in auto)
  then have "res_ok old text str st (one_char text str (\<lambda>ch. map_option (\<lambda>b. if b then rn_type ?nd = OP_CLASS else rn_type ?nd = OP_NCLASS)
      (sqstd_rex_matchclass (length ns) ns (rn_left ?nd) ch)) st)"
    by (intro one_char_ok [OF _ assms(3,2)]) simp
  moreover have "sqstd_rex_matchnode (Suc fuel) ns text i str nxt st =
      one_char text str (\<lambda>ch. map_option (\<lambda>b. if b then rn_type ?nd = OP_CLASS else rn_type ?nd = OP_NCLASS)
        (sqstd_rex_matchclass (length ns) ns (rn_left ?nd) ch)) st"
    using c(1) rep_Cons(1) [OF assms(1)] node_types by (elim disjE) (simp_all add: Let_def)
  ultimately show ?thesis by (simp only:)
qed

lemma matchnode_ok: "handles old text ns k fuel (sqstd_rex_matchnode fuel ns text)"
proof (induction fuel)
  case 0
  then show ?case by (simp add: handles_def)
next
  case (Suc fuel)
  show ?case
    unfolding handles_def
  proof (intro allI impI)
    fix i t ts nxt us str st
    assume p: "rep ns k i (t # ts)" "rep ns k nxt us" "tsize t + todo ts us < Suc fuel" "str \<le> length text" "mst_ok old (length text) k st"
    note r = rep_Cons [OF p(1)]
    show "res_ok old text str st (sqstd_rex_matchnode (Suc fuel) ns text i str nxt st)"
    proof (cases t)
      case Leaf
      then have "simple_type (rn_type (ns ! nat i))" using r(4) by auto
      then show ?thesis by (rule leaf_ok [OF p(5,4) _ r(1)])
    next
      case (Cls n)
      then show ?thesis using class_node_ok p(1,4,5) by blast
    next
      case (Greedy c)
      then show ?thesis
        using greedy_node_ok [OF Suc.IH p(1) [unfolded Greedy] p(2) _ p(4,5)] greedy_child(3) p(1,3) r(1) by (simp add: Let_def)
    next
      case (Group cs)
      have "rn_type (ns ! nat i) = OP_EXPR \<or> rn_type (ns ! nat i) = OP_NOCAPEXPR" using group_child(3) p(1) Group by blast
      then show ?thesis
        using group_node_ok [OF Suc.IH p(1) [unfolded Group] p(2) _ p(4,5)] Group p(3) r(1) node_types by (elim disjE) (simp_all add: Let_def)
    next
      case (Alt ls rs)
      then show ?thesis
        using alt_node_ok [OF Suc.IH p(1) [unfolded Alt] _ p(4,5)] alt_children(5) p(1,3) r(1) node_types by (simp add: Let_def)
    qed
  qed
qed

subsection \<open>Compiled patterns\<close>

lemma compiled_root:
  assumes "sqstd_rex_compile pattern = Ok rx"
  obtains ts where "rep (rx_nodes rx) (rx_nsubexpr rx) 0 [Group ts]" "tsize (Group ts) \<le> length (rx_nodes rx)"
    "node_opt (rx_nodes rx) 0 = Some (rx_nodes rx ! 0)" "rn_next (rx_nodes rx ! 0) = - 1"
proof -
  obtain ts where t: "node_rep (rx_nodes rx) (rx_nsubexpr rx) 0 (int (length (rx_nodes rx))) 0 (Group ts)"
    "rn_next (rx_nodes rx ! 0) = - 1"
    using rex_compile_tree' [OF assms] by blast
  have "rep (rx_nodes rx) (rx_nsubexpr rx) 0 [Group ts]"
    unfolding rep_def
    by (rule exI [of _ 0], rule exI [of _ "int (length (rx_nodes rx))"])
      (use t in \<open>auto simp del: node_rep.simps intro!: exI [of _ "int (length (rx_nodes rx))"]\<close>)
  with that [OF this] rep_size(1) [OF t(1)] t(2) rep_Cons(1) [OF this] show thesis by simp
qed

lemma rex_matchnode_ok:
  assumes "sqstd_rex_compile pattern = Ok rx" "pos \<le> length text" "mst_ok old (length text) (rx_nsubexpr rx) st"
  shows "res_ok old text pos st (rex_matchnode rx text 0 pos (- 1) st)"
proof -
  obtain ts where t: "rep (rx_nodes rx) (rx_nsubexpr rx) 0 [Group ts]" "tsize (Group ts) \<le> length (rx_nodes rx)"
    using compiled_root [OF assms(1)] by blast
  have n: "rep (rx_nodes rx) (rx_nsubexpr rx) (- 1) []" by (simp add: rep_Nil)
  show ?thesis
    unfolding rex_matchnode_def by (rule handlesD [OF matchnode_ok t(1) n _ assms(2,3)]) (use t(2) in \<open>simp add: todo_def\<close>)
qed

lemma search_at_ok:
  assumes "sqstd_rex_compile pattern = Ok rx" "pos \<le> length text" "mst_ok old (length text) (rx_nsubexpr rx) (st\<lparr>ms_currsubexp := 0\<rparr>)"
  shows "res_ok old text pos (st\<lparr>ms_currsubexp := 0\<rparr>) (search_at (length (rx_nodes rx) + 1) rx text 0 pos st)"
proof -
  obtain ts where t: "tsize (Group ts) \<le> length (rx_nodes rx)" "node_opt (rx_nodes rx) 0 = Some (rx_nodes rx ! 0)" "rn_next (rx_nodes rx ! 0) = - 1"
    using compiled_root [OF assms(1)] by blast
  then obtain f where f: "length (rx_nodes rx) = Suc f" by (cases "length (rx_nodes rx)") auto
  obtain p st' where m: "rex_matchnode rx text 0 pos (- 1) (st\<lparr>ms_currsubexp := 0\<rparr>) = Some (p, st')"
    "later old (length text) (st\<lparr>ms_currsubexp := 0\<rparr>) st'" "\<And>q. p = Some q \<Longrightarrow> pos \<le> q \<and> q \<le> length text"
    using rex_matchnode_ok [OF assms] unfolding res_ok_def by blast
  then show ?thesis using t f by (cases p) (auto intro!: res_okI)
qed

lemma restart_ok: "mst_ok old n k (st\<lparr>ms_currsubexp := 0\<rparr>) \<Longrightarrow> later old n (st\<lparr>ms_currsubexp := 0\<rparr>) st' \<Longrightarrow> mst_ok old n k (st'\<lparr>ms_currsubexp := 0\<rparr>)"
  by (auto simp: mst_ok_def later_def caps_ok_def)

lemma search_from_ok:
  assumes "sqstd_rex_compile pattern = Ok rx" "pos \<le> length text" "mst_ok old (length text) (rx_nsubexpr rx) (st\<lparr>ms_currsubexp := 0\<rparr>)"
  shows "\<exists>r st'. search_from rx text pos st = Some (r, st') \<and> mst_ok old (length text) (rx_nsubexpr rx) (st'\<lparr>ms_currsubexp := 0\<rparr>) \<and>
     (\<forall>b e. r = Some (b, e) \<longrightarrow> pos \<le> b \<and> b \<le> e \<and> e \<le> length text)"
  using assms(2,3)
proof (induction "length text - pos" arbitrary: pos st)
  case 0
  then obtain p st' where "search_at (length (rx_nodes rx) + 1) rx text 0 pos st = Some (p, st')"
    "later old (length text) (st\<lparr>ms_currsubexp := 0\<rparr>) st'" "\<And>q. p = Some q \<Longrightarrow> pos \<le> q \<and> q \<le> length text"
    using search_at_ok [OF assms(1) 0(2,3)] unfolding res_ok_def by blast
  with 0 restart_ok show ?case
    by (cases p) (auto simp: search_from.simps [of rx _ pos])
next
  case (Suc n)
  obtain p st' where c: "search_at (length (rx_nodes rx) + 1) rx text 0 pos st = Some (p, st')"
    "later old (length text) (st\<lparr>ms_currsubexp := 0\<rparr>) st'" "\<And>q. p = Some q \<Longrightarrow> pos \<le> q \<and> q \<le> length text"
    using search_at_ok [OF assms(1) Suc(3,4)] unfolding res_ok_def by blast
  have ok: "mst_ok old (length text) (rx_nsubexpr rx) (st'\<lparr>ms_currsubexp := 0\<rparr>)" using restart_ok [OF Suc(4) c(2)] .
  show ?case
  proof (cases "p = None \<and> pos + 1 < length text")
    case True
    have "\<exists>r st2. search_from rx text (pos + 1) st' = Some (r, st2) \<and> mst_ok old (length text) (rx_nsubexpr rx) (st2\<lparr>ms_currsubexp := 0\<rparr>) \<and>
       (\<forall>b e. r = Some (b, e) \<longrightarrow> pos + 1 \<le> b \<and> b \<le> e \<and> e \<le> length text)"
      by (rule Suc(1) [OF _ _ ok]) (use Suc(2) True in auto)
    then obtain r st2 where s: "search_from rx text (pos + 1) st' = Some (r, st2)" "mst_ok old (length text) (rx_nsubexpr rx) (st2\<lparr>ms_currsubexp := 0\<rparr>)"
      "\<forall>b e. r = Some (b, e) \<longrightarrow> pos + 1 \<le> b \<and> b \<le> e \<and> e \<le> length text" by blast
    then have "search_from rx text pos st = Some (r, st2)" using True c(1) by (simp add: search_from.simps [of rx _ pos])
    with s(2,3) show ?thesis using Suc_leD by fastforce
  next
    case False
    then show ?thesis using c ok by (cases p) (auto simp: search_from.simps [of rx _ pos])
  qed
qed

lemma left_ok: "length (ms_matches st) = nat (rx_nsubexpr rx) \<Longrightarrow> mst_ok (ms_matches st) n (rx_nsubexpr rx) (st\<lparr>ms_currsubexp := 0\<rparr>)"
  by (simp add: mst_ok_def caps_ok_def)

lemma init_length: "length (ms_matches (rex_match_init rx)) = nat (rx_nsubexpr rx)"
  by (simp add: rex_match_init_def)

text \<open>What a match leaves: captures of its text, or those that were there.\<close>

definition captures_left :: "rex \<Rightarrow> rex_mst \<Rightarrow> nat \<Rightarrow> rex_mst \<Rightarrow> bool" where
  "captures_left rx st k st' \<longleftrightarrow> length (ms_matches st') = nat (rx_nsubexpr rx) \<and>
     (\<forall>n v. sqstd_rex_getsubexp rx st' n = Some v \<longrightarrow> capture_ok k v \<or> sqstd_rex_getsubexp rx st n = Some v) \<and>
     (st = rex_match_init rx \<longrightarrow> (\<forall>n v. sqstd_rex_getsubexp rx st' n = Some v \<longrightarrow> capture_ok k v))"

lemma captures_leftI:
  assumes "mst_ok (ms_matches st) k (rx_nsubexpr rx) (st'\<lparr>ms_currsubexp := 0\<rparr>)"
  shows "captures_left rx st k st'"
proof -
  have len: "length (ms_matches st') = nat (rx_nsubexpr rx)" using assms by (simp add: mst_ok_def)
  have *: "capture_ok k v \<or> ms_matches st ! nat n = v" if "sqstd_rex_getsubexp rx st' n = Some v" for n v
  proof -
    have "nat n < length (ms_matches st')" "v = ms_matches st' ! nat n"
      using that len by (auto simp: sqstd_rex_getsubexp_def split: if_splits)
    moreover have "capture_ok k (ms_matches st' ! j) \<or> ms_matches st' ! j = ms_matches st ! j" if "j < length (ms_matches st')" for j
      using assms that by (simp add: mst_ok_def caps_ok_def)
    ultimately show ?thesis by metis
  qed
  then have "capture_ok k v \<or> sqstd_rex_getsubexp rx st n = Some v" if "sqstd_rex_getsubexp rx st' n = Some v" for n v
    using that by (auto simp: sqstd_rex_getsubexp_def split: if_splits)
  moreover have "capture_ok k v" if "st = rex_match_init rx" "sqstd_rex_getsubexp rx st' n = Some v" for n v
    using * [OF that(2)] that by (auto simp: sqstd_rex_getsubexp_def rex_match_init_def capture_ok_def split: if_splits)
  ultimately show ?thesis using len by (auto simp: captures_left_def)
qed

text \<open>
  C17: matching a whole text with a compiled pattern, with whatever captures earlier matches and
  searches have left, never reads a node or a character out of range and ends within a recursion
  depth of the number of nodes plus one. Afterwards a subexpression is unset with length 0, a
  substring of the text, or what it was before, since a match clears no captures: after the first
  match each is unset or a substring.
\<close>

theorem rex_match_safe:
  assumes "sqstd_rex_compile pattern = Ok rx" "length (ms_matches st) = nat (rx_nsubexpr rx)"
  shows "\<exists>b st'. sqstd_rex_match rx st text = Some (b, st') \<and> captures_left rx st (length text) st'"
proof -
  have ok: "mst_ok (ms_matches st) (length text) (rx_nsubexpr rx) (st\<lparr>ms_currsubexp := 0\<rparr>)" by (rule left_ok [OF assms(2)])
  obtain p st' where m: "rex_matchnode rx text 0 0 (- 1) (st\<lparr>ms_currsubexp := 0\<rparr>) = Some (p, st')"
    "later (ms_matches st) (length text) (st\<lparr>ms_currsubexp := 0\<rparr>) st'"
    using rex_matchnode_ok [OF assms(1) _ ok, of 0] unfolding res_ok_def by blast
  show ?thesis
    using m(1) captures_leftI [OF restart_ok [OF ok m(2)]] by (simp add: sqstd_rex_match_def)
qed

theorem rex_match_safe_witness:
  "\<exists>rx b st c st'. sqstd_rex_compile ''(a|b)*c'' = Ok rx \<and> sqstd_rex_match rx (rex_match_init rx) ''abac'' = Some (b, st) \<and>
     sqstd_rex_match rx st ''c'' = Some (c, st') \<and> captures_left rx st 1 st'"
proof -
  have "(case sqstd_rex_compile ''(a|b)*c'' of Ok rx \<Rightarrow> True | _ \<Rightarrow> False)" by code_simp
  then obtain rx where rx: "sqstd_rex_compile ''(a|b)*c'' = Ok rx" by (auto split: rex_res.splits)
  obtain b st where m: "sqstd_rex_match rx (rex_match_init rx) ''abac'' = Some (b, st)" "captures_left rx (rex_match_init rx) 4 st"
    using rex_match_safe [OF rx init_length, of "''abac''"] by (auto simp: eval_nat_numeral)
  from m(2) have "length (ms_matches st) = nat (rx_nsubexpr rx)" by (simp add: captures_left_def)
  from rex_match_safe [OF rx this, of "''c''"] m(1) rx show ?thesis by (auto simp: eval_nat_numeral)
qed

text \<open>
  C18: searching a text with a compiled pattern, with whatever captures earlier matches and
  searches have left, never reads a node or a character out of range and always ends; a match it
  reports is a range of the text. Afterwards a subexpression is unset, a substring of the text, or
  what it was before; after the first search it is unset or a substring.
\<close>

theorem rex_search_safe:
  assumes "sqstd_rex_compile pattern = Ok rx" "length (ms_matches st) = nat (rx_nsubexpr rx)"
  shows "\<exists>r st'. sqstd_rex_searchrange rx st text = Some (r, st') \<and> captures_left rx st (length text) st' \<and>
     (\<forall>b e. r = Some (b, e) \<longrightarrow> b \<le> e \<and> e \<le> length text)"
proof (cases "text = []")
  case True
  then show ?thesis using captures_leftI [OF left_ok [OF assms(2)]] by (simp add: sqstd_rex_searchrange_def)
next
  case False
  obtain r st' where s: "search_from rx text 0 st = Some (r, st')"
    "mst_ok (ms_matches st) (length text) (rx_nsubexpr rx) (st'\<lparr>ms_currsubexp := 0\<rparr>)"
    "\<forall>b e. r = Some (b, e) \<longrightarrow> 0 \<le> b \<and> b \<le> e \<and> e \<le> length text"
    using search_from_ok [OF assms(1) _ left_ok [OF assms(2)], of 0 "text"] by blast
  then show ?thesis using False captures_leftI [OF s(2)] by (simp add: sqstd_rex_searchrange_def)
qed

theorem rex_search_safe_witness:
  "\<exists>rx b e st r st'. sqstd_rex_compile ''b+'' = Ok rx \<and>
     sqstd_rex_searchrange rx (rex_match_init rx) ''abb'' = Some (Some (b, e), st) \<and> e \<le> 3 \<and>
     sqstd_rex_searchrange rx st ''ab'' = Some (r, st') \<and> captures_left rx st 2 st'"
proof -
  have e: "(case sqstd_rex_compile ''b+'' of Ok rx \<Rightarrow>
      (case sqstd_rex_searchrange rx (rex_match_init rx) ''abb'' of Some (Some r, _) \<Rightarrow> True | _ \<Rightarrow> False) | _ \<Rightarrow> False)" by code_simp
  then obtain rx where rx: "sqstd_rex_compile ''b+'' = Ok rx" by (auto split: rex_res.splits)
  obtain r st where m: "sqstd_rex_searchrange rx (rex_match_init rx) ''abb'' = Some (r, st)" "captures_left rx (rex_match_init rx) 3 st"
    "\<forall>b e. r = Some (b, e) \<longrightarrow> b \<le> e \<and> e \<le> 3"
    using rex_search_safe [OF rx init_length, of "''abb''"] by (auto simp: eval_nat_numeral)
  obtain b e' where r: "r = Some (b, e')" using e rx m(1) by (cases r) auto
  from m(2) have "length (ms_matches st) = nat (rx_nsubexpr rx)" by (simp add: captures_left_def)
  from rex_search_safe [OF rx this, of "''ab''"] obtain r' st' where
    "sqstd_rex_searchrange rx st ''ab'' = Some (r', st')" "captures_left rx st 2 st'" by (auto simp: eval_nat_numeral)
  then show ?thesis using rx m(1,3) r by auto
qed

text \<open>A failed alternative loses the captures of the one that matches: matching \<open>(a)(b)|(c)\<close> against \<open>c\<close> succeeds and leaves group 3, which matched, unset, because \<open>_currsubexp\<close> is not set back.\<close>

theorem capture_lost:
  "case sqstd_rex_compile ''(a)(b)|(c)'' of
     Ok rx \<Rightarrow> sqstd_rex_match rx (rex_match_init rx) ''c'' =
       Some (True, \<lparr>ms_currsubexp = 1, ms_matches = [(Some 0, 1), (None, 0), (None, 0), (None, 0)]\<rparr>)
   | _ \<Rightarrow> False"
  by code_simp

text \<open>A second match keeps captures of the first: after \<open>ab\<close> and then \<open>c\<close> are matched with one expression, group 2 still holds the position and length it had in \<open>ab\<close>, beyond the end of \<open>c\<close>.\<close>

theorem stale_capture:
  "case sqstd_rex_compile ''(a)(b)|c'' of
     Ok rx \<Rightarrow> (case sqstd_rex_match rx (rex_match_init rx) ''ab'' of
       Some (_, st) \<Rightarrow> map_option (map_prod id ms_matches) (sqstd_rex_match rx st ''c'') =
          Some (True, [(Some 0, 1), (None, 0), (Some 1, 1)])
     | None \<Rightarrow> False)
   | _ \<Rightarrow> False"
  by code_simp

end
