(* ===== verification/Bytes.thy ===== *)
theory Bytes
  imports SqPrelude
begin

text \<open>
  Memory images of the C types that the streams read and write, on a little-endian machine,
  and the conversion of an 8-byte float to the runtime's 4-byte \<open>SQFloat\<close>. Floats are their
  bit patterns.
\<close>

fun le_bytes :: "nat \<Rightarrow> int \<Rightarrow> byte list" where
  "le_bytes 0 x = []"
| "le_bytes (Suc n) x = word_of_int x # le_bytes n (x div 256)"

fun le_int :: "byte list \<Rightarrow> int" where
  "le_int [] = 0"
| "le_int (b # bs) = uint b + 256 * le_int bs"

text \<open>The value of bytes as an unsigned and as a signed integer, converted to an \<open>SQInteger\<close>.\<close>

definition le_unsigned :: "byte list \<Rightarrow> u64" where
  "le_unsigned bs = word_of_int (le_int bs)"

definition le_signed :: "byte list \<Rightarrow> u64" where
  "le_signed bs = word_of_int (signed_take_bit (8 * length bs - 1) (le_int bs))"

lemma length_le_bytes [simp]: "length (le_bytes n x) = n"
  by (induction n arbitrary: x) auto

lemma uint_byte: "uint (word_of_int x :: byte) = x mod 256"
  by (simp add: uint_word_of_int)

lemma le_int_bytes: "le_int (le_bytes n x) = x mod 256 ^ n"
proof (induction n arbitrary: x)
  case (Suc n)
  have "x mod 256 + 256 * (x div 256 mod 256 ^ n) = x mod (256 * 256 ^ n)"
    using zmod_zmult2_eq [of "256 ^ n" x 256] by simp
  then show ?case by (simp add: Suc uint_byte)
qed simp

lemma byte_bounds: "0 \<le> uint (b :: byte) \<and> uint b < 256"
  using uint_bounded [of b] by simp

lemma le_int_bounds: "0 \<le> le_int bs \<and> le_int bs < 256 ^ length bs"
proof (induction bs)
  case (Cons b bs)
  then show ?case using byte_bounds [of b] by simp
qed simp

lemma le_bytes_int: "le_bytes (length bs) (le_int bs) = bs"
proof (induction bs)
  case (Cons b bs)
  have "(uint b + 256 * le_int bs) div 256 = le_int bs" using byte_bounds [of b] by simp
  moreover have "word_of_int (uint b + 256 * le_int bs) = b"
    by (rule word_uint_eqI) (use byte_bounds [of b] in \<open>simp only: uint_byte mod_mult_self2 mod_pos_pos_trivial\<close>)
  ultimately show ?case using Cons by simp
qed simp

lemma le_int_of_nat:
  assumes "n < 256 ^ k"
  shows "le_int (le_bytes k (int n)) = int n"
  using assms by (simp add: le_int_bytes flip: of_nat_less_iff)

text \<open>A signed value that fits in \<open>n\<close> bytes survives writing and reading \<open>n\<close> bytes.\<close>

lemma le_signed_bytes:
  fixes w :: u64
  assumes "0 < n" "- (2 ^ (8 * n - 1)) \<le> sint w" "sint w < 2 ^ (8 * n - 1)"
  shows "le_signed (le_bytes n (sint w)) = w"
proof -
  obtain m where m: "8 * n = Suc m" using assms(1) by (cases "8 * n") auto
  have "le_int (le_bytes n (sint w)) = take_bit (Suc m) (sint w)"
    using power_mult [of "2 :: int" 8 n] by (simp add: le_int_bytes take_bit_eq_mod m flip: power_Suc)
  moreover have "signed_take_bit m (take_bit (Suc m) (sint w)) = signed_take_bit m (sint w)"
    by (simp add: signed_take_bit_take_bit)
  moreover have "signed_take_bit m (sint w) = sint w"
    using assms(2,3) m by (intro signed_take_bit_int_eq_self) simp_all
  ultimately show ?thesis by (simp add: le_signed_def m)
qed

subsection \<open>Float conversions\<close>

text \<open>Rounding of \<open>m / 2 ^ s\<close> to the nearest integer, ties to even.\<close>

definition round_even :: "int \<Rightarrow> nat \<Rightarrow> int" where
  "round_even m s =
     (let q = m div 2 ^ s; r = m mod 2 ^ s in
      if 2 * r > 2 ^ s \<or> 2 * r = 2 ^ s \<and> odd q then q + 1 else q)"

text \<open>\<open>static_cast<float>\<close> of a double.\<close>

definition double_to_float :: "u64 \<Rightarrow> u32" where
  "double_to_float d =
     (let x = uint d; s = x div 2 ^ 63; e = x div 2 ^ 52 mod 2 ^ 11; f = x mod 2 ^ 52;
          r = (if e = 2047 then 0x7F800000 + (if f = 0 then 0 else 0x400000 + f div 2 ^ 29 mod 0x400000)
               else if e = 0 then 0
               else if e \<ge> 897 then min 0x7F800000 ((e - 897) * 2 ^ 23 + round_even (2 ^ 52 + f) 29)
               else round_even (2 ^ 52 + f) (29 + nat (897 - e)))
      in word_of_int (s * 2 ^ 31 + r))"

text \<open>The exact conversion of a float to a double; \<open>norm_shift\<close> normalises a subnormal fraction.\<close>

fun norm_shift :: "nat \<Rightarrow> int \<Rightarrow> nat" where
  "norm_shift 0 f = 0"
| "norm_shift (Suc n) f = (if f \<ge> 2 ^ 23 then 0 else Suc (norm_shift n (2 * f)))"

definition float_to_double :: "u32 \<Rightarrow> u64" where
  "float_to_double w =
     (let x = uint w; s = x div 2 ^ 31; e = x div 2 ^ 23 mod 2 ^ 8; f = x mod 2 ^ 23;
          r = (if e = 255 then 2047 * 2 ^ 52 + (if f = 0 then 0 else 2 ^ 51 + f mod 2 ^ 22 * 2 ^ 29)
               else if e \<noteq> 0 then (e + 896) * 2 ^ 52 + f * 2 ^ 29
               else if f = 0 then 0
               else (let k = norm_shift 23 f in (897 - int k) * 2 ^ 52 + (f * 2 ^ k - 2 ^ 23) * 2 ^ 29))
      in word_of_int (s * 2 ^ 63 + r))"

end
