(* ===== verification/SqStream.thy ===== *)
theory SqStream
  imports Bytes
begin

text \<open>
  The stream interface \<open>SQStream\<close> (\<^verbatim>\<open>include/sqstdio.h\<close>) and the numeric operations of the
  script class over it (\<^verbatim>\<open>sqstdlib/sqstdstream.cpp\<close>). A stream implementation is given by its
  virtual methods \<open>Write\<close> (the bytes; the count returned) and \<open>Read\<close> (the bytes read, at most
  as many as asked for) on a state \<open>'s\<close>; \<open>None\<close> is an access outside its memory. The
  locale \<open>sq_stream\<close> states what its clients rely on.
\<close>

type_synonym 's stream_wr = "byte list \<Rightarrow> 's \<Rightarrow> (int \<times> 's) option"
type_synonym 's stream_rd = "int \<Rightarrow> 's \<Rightarrow> (byte list \<times> 's) option"

text \<open>Results: a memory fault (or exhausted fuel, in \<open>blob_foreach\<close>), an error raised in the VM, or a value.\<close>

datatype 'a sq_res = Stuck | Raise string | Done 'a

definition res_bind :: "'a sq_res \<Rightarrow> ('a \<Rightarrow> 'b sq_res) \<Rightarrow> 'b sq_res" where
  "res_bind m f = (case m of Stuck \<Rightarrow> Stuck | Raise e \<Rightarrow> Raise e | Done x \<Rightarrow> f x)"

lemma res_bind_simps [simp]:
  "res_bind Stuck f = Stuck" "res_bind (Raise e) f = Raise e" "res_bind (Done x) f = f x"
  by (simp_all add: res_bind_def)

lemma res_bind_Done: "res_bind m f = Done y \<longleftrightarrow> (\<exists>x. m = Done x \<and> f x = Done y)"
  by (cases m) auto

lemma res_bind_Stuck: "res_bind m f = Stuck \<longleftrightarrow> m = Stuck \<or> (\<exists>x. m = Done x \<and> f x = Stuck)"
  by (cases m) auto

definition of_opt :: "'a option \<Rightarrow> 'a sq_res" where
  "of_opt r = (case r of None \<Rightarrow> Stuck | Some x \<Rightarrow> Done x)"

lemma of_opt_simps [simp]: "of_opt None = Stuck" "of_opt (Some x) = Done x"
  by (simp_all add: of_opt_def)

subsection \<open>Numbers\<close>

text \<open>\<open>ti\<close> and \<open>tf\<close> are what \<open>sq_getinteger\<close> and \<open>sq_getfloat\<close> read from the argument.\<close>

definition stream_writen :: "'s stream_wr \<Rightarrow> int \<Rightarrow> u64 \<Rightarrow> u32 \<Rightarrow> 's \<Rightarrow> 's sq_res" where
  "stream_writen wr format ti tf s =
     (let Write = (\<lambda>bs. res_bind (of_opt (wr bs s)) (\<lambda>(n, s). Done s)) in
      if format = schar CHR ''l'' then Write (le_bytes 8 (sint ti))
      else if format = schar CHR ''i'' then Write (le_bytes 4 (sint ti))
      else if format = schar CHR ''s'' then Write (le_bytes 2 (sint ti))
      else if format = schar CHR ''w'' then Write (le_bytes 2 (sint ti))
      else if format = schar CHR ''c'' then Write (le_bytes 1 (sint ti))
      else if format = schar CHR ''b'' then Write (le_bytes 1 (sint ti))
      else if format = schar CHR ''f'' then Write (le_bytes 4 (uint tf))
      else if format = schar CHR ''d'' then Write (le_bytes 8 (uint (float_to_double tf)))
      else Raise ''invalid format'')"

datatype sq_num = NumInt u64 | NumFloat u32

text \<open>\<open>SAFE_READN\<close>.\<close>

definition safe_readn :: "'s stream_rd \<Rightarrow> nat \<Rightarrow> (byte list \<Rightarrow> 'a) \<Rightarrow> 's \<Rightarrow> ('a \<times> 's) sq_res" where
  "safe_readn rd len f s =
     res_bind (of_opt (rd (int len) s)) (\<lambda>(bs, s). if length bs \<noteq> len then Raise ''io error'' else Done (f bs, s))"

definition stream_readn :: "'s stream_rd \<Rightarrow> int \<Rightarrow> 's \<Rightarrow> (sq_num \<times> 's) sq_res" where
  "stream_readn rd format s =
     (if format = schar CHR ''l'' then safe_readn rd 8 (\<lambda>bs. NumInt (le_signed bs)) s
      else if format = schar CHR ''i'' then safe_readn rd 4 (\<lambda>bs. NumInt (le_signed bs)) s
      else if format = schar CHR ''s'' then safe_readn rd 2 (\<lambda>bs. NumInt (le_signed bs)) s
      else if format = schar CHR ''w'' then safe_readn rd 2 (\<lambda>bs. NumInt (le_unsigned bs)) s
      else if format = schar CHR ''c'' then safe_readn rd 1 (\<lambda>bs. NumInt (le_signed bs)) s
      else if format = schar CHR ''b'' then safe_readn rd 1 (\<lambda>bs. NumInt (le_unsigned bs)) s
      else if format = schar CHR ''f'' then safe_readn rd 4 (\<lambda>bs. NumFloat (word_of_int (le_int bs))) s
      else if format = schar CHR ''d'' then safe_readn rd 8 (\<lambda>bs. NumFloat (double_to_float (word_of_int (le_int bs)))) s
      else Raise ''invalid format'')"

definition stream_writestring :: "'s stream_wr \<Rightarrow> byte list \<Rightarrow> 's \<Rightarrow> (int \<times> 's) sq_res" where
  "stream_writestring wr str s =
     res_bind (of_opt (wr str s)) (\<lambda>(n, s). if n \<noteq> int (length str) then Raise ''io error'' else Done (int (length str), s))"

subsection \<open>The contract of a stream\<close>

text \<open>
  \<open>before s\<close> and \<open>after s\<close> are the bytes in front of and behind the position. Writing at the
  end appends; reading returns what is there and moves past it.
\<close>

locale sq_stream =
  fixes wr :: "'s stream_wr" and rd :: "'s stream_rd" and ok :: "'s \<Rightarrow> bool"
    and before :: "'s \<Rightarrow> byte list" and after :: "'s \<Rightarrow> byte list"
  assumes write_law: "ok s \<Longrightarrow> after s = [] \<Longrightarrow>
      \<exists>s'. wr bs s = Some (int (length bs), s') \<and> ok s' \<and> before s' = before s @ bs \<and> after s' = []"
    and read_law: "ok s \<Longrightarrow> \<exists>s'. rd (int n) s = Some (take n (after s), s') \<and> ok s' \<and>
      before s' = before s @ take n (after s) \<and> after s' = drop n (after s)"
begin

text \<open>\<open>appends bs s s'\<close>: \<open>s'\<close> is \<open>s\<close>, at its end, with \<open>bs\<close> written.\<close>

definition appends :: "byte list \<Rightarrow> 's \<Rightarrow> 's \<Rightarrow> bool" where
  "appends bs s s' \<longleftrightarrow> ok s' \<and> before s' = before s @ bs \<and> after s' = []"

lemma appends_trans: "appends xs a b \<Longrightarrow> appends ys b c \<Longrightarrow> appends (xs @ ys) a c"
  by (simp add: appends_def)

lemma write_ok: "ok s \<Longrightarrow> after s = [] \<Longrightarrow> \<exists>s'. wr bs s = Some (int (length bs), s') \<and> appends bs s s'"
  using write_law by (simp add: appends_def)

lemma read_exact:
  assumes "ok s" "after s = bs @ rest"
  shows "\<exists>s'. rd (int (length bs)) s = Some (bs, s') \<and> ok s' \<and> after s' = rest"
  using read_law [OF assms(1), of "length bs"] assms(2) by auto

lemma safe_readn_exact:
  assumes "ok s" "after s = bs @ rest" "length bs = len"
  shows "\<exists>s'. safe_readn rd len f s = Done (f bs, s') \<and> ok s' \<and> after s' = rest"
  using read_exact [OF assms(1,2)] assms(3) by (auto simp: safe_readn_def)

lemma safe_readn_total:
  assumes "ok s"
  shows "safe_readn rd len f s = Raise ''io error'' \<or>
    (\<exists>s'. safe_readn rd len f s = Done (f (take len (after s)), s') \<and> ok s')"
  using read_law [OF assms, of len] by (auto simp: safe_readn_def)

lemma writen_int_bytes:
  assumes "ok s" "after s = []"
    and "format \<in> {(schar CHR ''l'', 8), (schar CHR ''i'', 4), (schar CHR ''s'', 2), (schar CHR ''w'', 2), (schar CHR ''c'', 1), (schar CHR ''b'', 1)}"
  shows "\<exists>s'. stream_writen wr (fst format) ti tf s = Done s' \<and> appends (le_bytes (snd format) (sint ti)) s s'"
proof -
  obtain s' where "wr (le_bytes (snd format) (sint ti)) s = Some (int (length (le_bytes (snd format) (sint ti))), s')"
    "appends (le_bytes (snd format) (sint ti)) s s'"
    using write_ok [OF assms(1,2)] by blast
  then show ?thesis using assms(3) by (auto simp: stream_writen_def schar_def uchar_def)
qed

lemma writestring_ok:
  "ok s \<Longrightarrow> after s = [] \<Longrightarrow> \<exists>s'. stream_writestring wr str s = Done (int (length str), s') \<and> appends str s s'"
  using write_ok [of s str] by (auto simp: stream_writestring_def)

end

text \<open>A stream that can be put back to its start.\<close>

locale sq_seekable = sq_stream +
  fixes rewind :: "'a \<Rightarrow> 'a"
  assumes rewind_law: "ok s \<Longrightarrow> ok (rewind s) \<and> before (rewind s) = [] \<and> after (rewind s) = before s @ after s"
begin

lemma reread:
  assumes "appends bs s s'" "before s = []"
  shows "ok (rewind s')" "after (rewind s') = bs"
  using assms rewind_law [of s'] by (auto simp: appends_def)

lemma writen_readn:
  assumes s: "ok s" "after s = []" "before s = []"
    and f: "(format, n) \<in> {(schar CHR ''l'', 8), (schar CHR ''i'', 4), (schar CHR ''s'', 2), (schar CHR ''c'', 1)}"
    and fits: "- (2 ^ (8 * n - 1)) \<le> sint ti" "sint ti < 2 ^ (8 * n - 1)"
  shows "\<exists>s' s''. stream_writen wr format ti tf s = Done s' \<and> stream_readn rd format (rewind s') = Done (NumInt ti, s'')"
proof -
  obtain s' where w: "stream_writen wr format ti tf s = Done s'" "appends (le_bytes n (sint ti)) s s'"
    using writen_int_bytes [OF s(1,2), of "(format, n)"] f by auto
  have "\<exists>s''. safe_readn rd n (\<lambda>bs. NumInt (le_signed bs)) (rewind s') = Done (NumInt (le_signed (le_bytes n (sint ti))), s'')"
    using safe_readn_exact [OF reread(1) [OF w(2) s(3)], of "le_bytes n (sint ti)" "[]" n] reread(2) [OF w(2) s(3)] by auto
  moreover have "le_signed (le_bytes n (sint ti)) = ti" using le_signed_bytes [OF _ fits] f by auto
  ultimately show ?thesis using w(1) f by (auto simp: stream_readn_def schar_def uchar_def)
qed

end

end
