(* ===== verification/SqBlob.thy ===== *)
theory SqBlob
  imports SqStream
begin

text \<open>
  The memory stream \<open>SQBlob\<close> (\<^verbatim>\<open>sqstdlib/sqstdblobimpl.h\<close>) and the script class over it
  (\<^verbatim>\<open>sqstdlib/sqstdblob.cpp\<close>). The buffer is the list of its allocated bytes; copying
  outside it is the fault \<open>None\<close>. Sizes are unbounded integers: a buffer near \<open>2^63\<close> bytes
  cannot be allocated. \<open>SqBlobProps\<close> holds the invariant and the interpretation of the stream
  contract.
\<close>

record blob =
  bl_size :: int
  bl_allocated :: int
  bl_ptr :: int
  bl_buf :: "byte list"

text \<open>\<open>memcpy\<close> into and out of the buffer; a negative count is a huge \<open>size_t\<close>.\<close>

definition mem_put :: "byte list \<Rightarrow> int \<Rightarrow> byte list \<Rightarrow> byte list option" where
  "mem_put buf at bs =
     (if 0 \<le> at \<and> at + int (length bs) \<le> int (length buf)
      then Some (take (nat at) buf @ bs @ drop (nat at + length bs) buf) else None)"

definition mem_get :: "byte list \<Rightarrow> int \<Rightarrow> int \<Rightarrow> byte list option" where
  "mem_get buf at n =
     (if 0 \<le> at \<and> 0 \<le> n \<and> at + n \<le> int (length buf) then Some (take (nat n) (drop (nat at) buf)) else None)"

definition new_blob :: "int \<Rightarrow> blob" where
  "new_blob n = \<lparr>bl_size = n, bl_allocated = n, bl_ptr = 0, bl_buf = replicate (nat n) 0\<rparr>"

definition CanAdvance :: "blob \<Rightarrow> int \<Rightarrow> bool" where
  "CanAdvance b n = (if bl_ptr b + n > bl_size b then False else True)"

definition blob_Resize :: "int \<Rightarrow> blob \<Rightarrow> (bool \<times> blob) option" where
  "blob_Resize n b =
     (if n < 0 then Some (False, b)
      else if n \<noteq> bl_allocated b then
        (case mem_get (bl_buf b) 0 (if bl_size b > n then n else bl_size b) of
           None \<Rightarrow> None
         | Some old \<Rightarrow>
             (case mem_put (replicate (nat n) 0) 0 old of
                None \<Rightarrow> None
              | Some newbuf \<Rightarrow>
                  (let b = b\<lparr>bl_buf := newbuf, bl_allocated := n\<rparr>;
                       b = (if bl_size b > bl_allocated b then b\<lparr>bl_size := bl_allocated b\<rparr> else b);
                       b = (if bl_ptr b > bl_allocated b then b\<lparr>bl_ptr := bl_allocated b\<rparr> else b)
                   in Some (True, b))))
      else Some (True, b))"

definition GrowBufOf :: "int \<Rightarrow> blob \<Rightarrow> blob option" where
  "GrowBufOf n b =
     (case (if bl_size b + n > bl_allocated b then
              map_option snd (if bl_size b + n > bl_size b * 2 then blob_Resize (bl_size b + n) b else blob_Resize (bl_size b * 2) b)
            else Some b) of
        None \<Rightarrow> None
      | Some b \<Rightarrow> Some (b\<lparr>bl_size := bl_size b + n\<rparr>))"

definition blob_Write :: "blob stream_wr" where
  "blob_Write buffer b =
     (let sz = int (length buffer) in
      case (if \<not> CanAdvance b sz then GrowBufOf (bl_ptr b + sz - bl_size b) b else Some b) of
        None \<Rightarrow> None
      | Some b \<Rightarrow>
          (case mem_put (bl_buf b) (bl_ptr b) buffer of
             None \<Rightarrow> None
           | Some buf \<Rightarrow> Some (sz, b\<lparr>bl_buf := buf, bl_ptr := bl_ptr b + sz\<rparr>)))"

definition blob_Read :: "blob stream_rd" where
  "blob_Read sz b =
     (case (if \<not> CanAdvance b sz then (if bl_size b - bl_ptr b > 0 then Some (bl_size b - bl_ptr b) else None) else Some sz) of
        None \<Rightarrow> Some ([], b)
      | Some n \<Rightarrow>
          (case mem_get (bl_buf b) (bl_ptr b) n of
             None \<Rightarrow> None
           | Some bs \<Rightarrow> Some (bs, b\<lparr>bl_ptr := bl_ptr b + n\<rparr>)))"

definition SQ_SEEK_CUR :: int where "SQ_SEEK_CUR = 0"
definition SQ_SEEK_END :: int where "SQ_SEEK_END = 1"
definition SQ_SEEK_SET :: int where "SQ_SEEK_SET = 2"

definition blob_Seek :: "int \<Rightarrow> int \<Rightarrow> blob \<Rightarrow> int \<times> blob" where
  "blob_Seek offset origin b =
     (if origin = SQ_SEEK_SET then
        (if offset > bl_size b \<or> offset < 0 then (- 1, b) else (0, b\<lparr>bl_ptr := offset\<rparr>))
      else if origin = SQ_SEEK_CUR then
        (if bl_ptr b + offset > bl_size b \<or> bl_ptr b + offset < 0 then (- 1, b) else (0, b\<lparr>bl_ptr := bl_ptr b + offset\<rparr>))
      else if origin = SQ_SEEK_END then
        (if bl_size b + offset > bl_size b \<or> bl_size b + offset < 0 then (- 1, b) else (0, b\<lparr>bl_ptr := bl_size b + offset\<rparr>))
      else (- 1, b))"

definition blob_EOS :: "blob \<Rightarrow> bool" where
  "blob_EOS b = (bl_ptr b = bl_size b)"

definition blob_Tell :: "blob \<Rightarrow> int" where
  "blob_Tell b = bl_ptr b"

definition blob_Len :: "blob \<Rightarrow> int" where
  "blob_Len b = bl_size b"

subsection \<open>The script class\<close>

text \<open>\<open>_blob_constructor\<close> with the size argument, 0 when it is missing.\<close>

definition blob_constructor :: "int option \<Rightarrow> blob sq_res" where
  "blob_constructor arg =
     (let sz = (case arg of None \<Rightarrow> 0 | Some n \<Rightarrow> n) in
      if sz < 0 then Raise ''cannot create blob with negative size'' else Done (new_blob sz))"

text \<open>\<open>_blob_resize\<close>; the error message prints the two sizes.\<close>

definition blob_resize :: "int \<Rightarrow> blob \<Rightarrow> blob sq_res" where
  "blob_resize sz b =
     res_bind (of_opt (blob_Resize sz b)) (\<lambda>(r, b). if \<not> r then Raise ''resize failed'' else Done b)"

definition swap_dword :: "u32 \<Rightarrow> u32" where
  "swap_dword n =
     drop_bit 24 (n AND 0xFF000000) OR drop_bit 8 (n AND 0x00FF0000) OR
     push_bit 8 (n AND 0x0000FF00) OR push_bit 24 (n AND 0x000000FF)"

definition swap_word :: "u16 \<Rightarrow> u16" where
  "swap_word n = (drop_bit 8 n AND 0x00FF) OR (push_bit 8 n AND 0xFF00)"

text \<open>The loop \<open>for (i = 0; i < num; i++)\<close> over the \<open>k\<close>-byte words of the buffer.\<close>

fun swap_loop :: "nat \<Rightarrow> (byte list \<Rightarrow> byte list) \<Rightarrow> nat \<Rightarrow> nat \<Rightarrow> byte list \<Rightarrow> byte list option" where
  "swap_loop k f 0 i buf = Some buf"
| "swap_loop k f (Suc num) i buf =
     (case mem_get buf (int (k * i)) (int k) of
        None \<Rightarrow> None
      | Some bs \<Rightarrow>
          (case mem_put buf (int (k * i)) (f bs) of
             None \<Rightarrow> None
           | Some buf \<Rightarrow> swap_loop k f num (i + 1) buf))"

definition swap4_bytes :: "byte list \<Rightarrow> byte list" where
  "swap4_bytes bs = le_bytes 4 (uint (swap_dword (word_of_int (le_int bs))))"

definition swap2_bytes :: "byte list \<Rightarrow> byte list" where
  "swap2_bytes bs = le_bytes 2 (uint (swap_word (word_of_int (le_int bs))))"

definition blob_swap4 :: "blob \<Rightarrow> blob sq_res" where
  "blob_swap4 b =
     (let num = (blob_Len b - blob_Len b mod 4) div 4 in
      res_bind (of_opt (swap_loop 4 swap4_bytes (nat num) 0 (bl_buf b))) (\<lambda>buf. Done (b\<lparr>bl_buf := buf\<rparr>)))"

definition blob_swap2 :: "blob \<Rightarrow> blob sq_res" where
  "blob_swap2 b =
     (let num = (blob_Len b - blob_Len b mod 2) div 2 in
      res_bind (of_opt (swap_loop 2 swap2_bytes (nat num) 0 (bl_buf b))) (\<lambda>buf. Done (b\<lparr>bl_buf := buf\<rparr>)))"

definition blob_set :: "int \<Rightarrow> u64 \<Rightarrow> blob \<Rightarrow> (u64 \<times> blob) sq_res" where
  "blob_set idx val b =
     (if idx < 0 \<or> idx \<ge> blob_Len b then Raise ''index out of range''
      else res_bind (of_opt (mem_put (bl_buf b) idx [ucast val])) (\<lambda>buf. Done (val, b\<lparr>bl_buf := buf\<rparr>)))"

text \<open>\<open>None\<close> stands for an index that is not a number: the code throws null then.\<close>

definition blob_get :: "int option \<Rightarrow> blob \<Rightarrow> u64 sq_res" where
  "blob_get arg b =
     (case arg of
        None \<Rightarrow> Raise ''''
      | Some idx \<Rightarrow>
          if idx < 0 \<or> idx \<ge> blob_Len b then Raise ''index out of range''
          else res_bind (of_opt (mem_get (bl_buf b) idx 1)) (\<lambda>bs. Done (le_unsigned bs)))"

text \<open>\<open>_blob__nexti\<close> with the previous index or null; the next index or null.\<close>

definition blob_nexti :: "int option \<Rightarrow> blob \<Rightarrow> int option" where
  "blob_nexti prev b =
     (case prev of
        None \<Rightarrow> Some 0
      | Some idx \<Rightarrow> if idx + 1 < blob_Len b then Some (idx + 1) else None)"

definition blob_cloned :: "blob \<Rightarrow> blob sq_res" where
  "blob_cloned other =
     res_bind (of_opt (mem_get (bl_buf other) 0 (blob_Len other)))
       (\<lambda>bs. res_bind (of_opt (mem_put (bl_buf (new_blob (blob_Len other))) 0 bs))
         (\<lambda>buf. Done ((new_blob (blob_Len other))\<lparr>bl_buf := buf\<rparr>)))"

definition blob_as_string :: "blob \<Rightarrow> byte list sq_res" where
  "blob_as_string b = of_opt (mem_get (bl_buf b) 0 (blob_Len b))"

subsection \<open>The global functions\<close>

definition casti2f :: "u64 \<Rightarrow> u32" where
  "casti2f i = word_of_int (le_int (take 4 (le_bytes 8 (uint i))))"

definition castf2i :: "u32 \<Rightarrow> u64" where
  "castf2i f = word_of_int (le_int (le_bytes 4 (uint f) @ drop 4 (le_bytes 8 0)))"

definition g_swap2 :: "u64 \<Rightarrow> u64" where
  "g_swap2 i = (let s = ucast i :: u16; n = ucast s :: u32
                in ucast ((push_bit 8 n OR (drop_bit 8 n AND 0xFF)) AND 0xFFFF))"

definition g_swap4 :: "u64 \<Rightarrow> u64" where
  "g_swap4 i = ucast (swap_dword (ucast i))"

definition g_swapfloat :: "u32 \<Rightarrow> u32" where
  "g_swapfloat f = swap_dword f"

subsection \<open>The stream methods on blobs\<close>

text \<open>\<open>_stream_seek\<close>: the origin is \<open>'b'\<close>, \<open>'c'\<close> or \<open>'e'\<close>, or missing.\<close>

definition stream_seek :: "int \<Rightarrow> int option \<Rightarrow> blob \<Rightarrow> (int \<times> blob) sq_res" where
  "stream_seek offset t b =
     (case t of
        None \<Rightarrow> Done (blob_Seek offset SQ_SEEK_SET b)
      | Some t \<Rightarrow>
          if t = schar CHR ''b'' then Done (blob_Seek offset SQ_SEEK_SET b)
          else if t = schar CHR ''c'' then Done (blob_Seek offset SQ_SEEK_CUR b)
          else if t = schar CHR ''e'' then Done (blob_Seek offset SQ_SEEK_END b)
          else Raise ''invalid origin'')"

text \<open>\<open>_stream_readblob\<close>: the new blob and the stream.\<close>

definition stream_readblob :: "int \<Rightarrow> blob \<Rightarrow> (blob \<times> blob) sq_res" where
  "stream_readblob sz b =
     (let sz = (if sz > blob_Len b then blob_Len b else sz) in
      res_bind (of_opt (blob_Read sz b)) (\<lambda>(data, b).
        if data = [] then Raise ''no data left to read''
        else res_bind (of_opt (mem_put (bl_buf (new_blob (int (length data)))) 0 data))
          (\<lambda>buf. Done ((new_blob (int (length data)))\<lparr>bl_buf := buf\<rparr>, b))))"

text \<open>\<open>_stream_writeblob\<close> of another blob.\<close>

definition stream_writeblob :: "blob \<Rightarrow> blob \<Rightarrow> (int \<times> blob) sq_res" where
  "stream_writeblob src b =
     res_bind (of_opt (mem_get (bl_buf src) 0 (blob_Len src))) (\<lambda>data.
       res_bind (of_opt (blob_Write data b)) (\<lambda>(n, b).
         if n \<noteq> blob_Len src then Raise ''io error'' else Done (blob_Len src, b)))"

text \<open>
  \<open>_stream_writeblob\<close> of the blob itself: \<open>data\<close> points into the buffer that \<open>Write\<close> replaces
  when it grows, so the copy then reads freed memory; without a new buffer the copy overlaps
  unless source and target are disjoint or the same.
\<close>

definition stream_writeblob_self :: "blob \<Rightarrow> (int \<times> blob) sq_res" where
  "stream_writeblob_self b =
     (let sz = blob_Len b in
      case (if \<not> CanAdvance b sz then GrowBufOf (bl_ptr b + sz - bl_size b) b else Some b) of
        None \<Rightarrow> Stuck
      | Some b' \<Rightarrow>
          if bl_allocated b' \<noteq> bl_allocated b \<or> bl_ptr b < sz \<and> bl_ptr b \<noteq> 0 then Stuck
          else res_bind (of_opt (mem_get (bl_buf b') 0 sz)) (\<lambda>data.
            res_bind (of_opt (mem_put (bl_buf b') (bl_ptr b') data)) (\<lambda>buf.
              Done (sz, b'\<lparr>bl_buf := buf, bl_ptr := bl_ptr b' + sz\<rparr>))))"

end
