(* ===== verification/SqBlobProps.thy ===== *)
theory SqBlobProps
  imports SqBlob
begin

text \<open>
  The invariant of a blob and what each operation does to its contents, the interpretation
  of the stream contract, and the step relation of a blob's operations with the invariant
  of all reachable blobs.
\<close>

subsection \<open>The invariant\<close>

definition blob_ok :: "blob \<Rightarrow> bool" where
  "blob_ok b \<longleftrightarrow> 0 \<le> bl_ptr b \<and> bl_ptr b \<le> bl_size b \<and> bl_size b \<le> bl_allocated b \<and> int (length (bl_buf b)) = bl_allocated b"

text \<open>The contents: the bytes below \<open>_size\<close>.\<close>

definition blob_data :: "blob \<Rightarrow> byte list" where
  "blob_data b = take (nat (bl_size b)) (bl_buf b)"

lemma blob_data_ptr [simp]: "blob_data (b\<lparr>bl_ptr := p\<rparr>) = blob_data b"
  by (simp add: blob_data_def)

lemma length_blob_data: "blob_ok b \<Longrightarrow> int (length (blob_data b)) = bl_size b"
  by (auto simp: blob_ok_def blob_data_def)

lemma new_blob_ok: "0 \<le> n \<Longrightarrow> blob_ok (new_blob n)"
  by (simp add: blob_ok_def new_blob_def)

lemma new_blob_data: "blob_data (new_blob n) = replicate (nat n) 0"
  by (simp add: blob_data_def new_blob_def)

text \<open>Resizing keeps the contents that still fit and never makes the contents longer.\<close>

lemma blob_Resize_spec:
  assumes "blob_ok b" "0 \<le> n"
  shows "\<exists>b'. blob_Resize n b = Some (True, b') \<and> blob_ok b' \<and> bl_allocated b' = n \<and> bl_size b' = min (bl_size b) n \<and>
     bl_ptr b' = min (bl_ptr b) n \<and> blob_data b' = take (nat n) (blob_data b)"
proof (cases "n = bl_allocated b")
  case True
  then show ?thesis using assms by (auto simp: blob_Resize_def blob_ok_def blob_data_def min_def)
next
  case False
  let ?k = "min (bl_size b) n"
  let ?b = "b\<lparr>bl_size := ?k, bl_allocated := n, bl_ptr := min (bl_ptr b) n,
      bl_buf := take (nat ?k) (bl_buf b) @ replicate (nat n - nat ?k) 0\<rparr>"
  have k: "(if bl_size b > n then n else bl_size b) = ?k" by (simp add: min_def)
  have b: "0 \<le> ?k" "nat ?k \<le> nat n" "nat ?k \<le> length (bl_buf b)" "0 \<le> bl_ptr b" "bl_ptr b \<le> bl_size b"
    using assms by (auto simp: blob_ok_def)
  have g: "mem_get (bl_buf b) 0 ?k = Some (take (nat ?k) (bl_buf b))"
    using b by (auto simp: mem_get_def)
  have p: "mem_put (replicate (nat n) 0) 0 (take (nat ?k) (bl_buf b)) = Some (take (nat ?k) (bl_buf b) @ replicate (nat n - nat ?k) 0)"
    using b assms(2) by (simp add: mem_put_def min_def)
  have "blob_Resize n b = Some (True, ?b)"
    unfolding blob_Resize_def k g p option.case Let_def using False assms(2) b(4,5)
    by (cases "bl_size b > n"; cases "bl_ptr b > n") simp_all
  moreover have "blob_ok ?b" using b assms(2) by (simp add: blob_ok_def)
  moreover have "blob_data ?b = take (nat n) (blob_data b)"
    using b by (cases "bl_size b \<le> n") (simp_all add: blob_data_def min_absorb1 min_absorb2 nat_mono)
  ultimately show ?thesis by (intro exI [of _ ?b]) simp
qed

lemma GrowBufOf_spec:
  assumes "blob_ok b" "0 \<le> n"
  shows "\<exists>b'. GrowBufOf n b = Some b' \<and> blob_ok b' \<and> bl_size b' = bl_size b + n \<and> bl_ptr b' = bl_ptr b \<and>
     take (nat (bl_size b)) (blob_data b') = blob_data b"
proof (cases "bl_size b + n > bl_allocated b")
  case False
  then show ?thesis using assms by (auto simp: GrowBufOf_def blob_ok_def blob_data_def min_def nat_add_distrib)
next
  case True
  let ?m = "if bl_size b + n > bl_size b * 2 then bl_size b + n else bl_size b * 2"
  have m: "0 \<le> ?m" "bl_size b + n \<le> ?m" "bl_size b \<le> ?m" using assms by (auto simp: blob_ok_def)
  obtain b' where b': "blob_Resize ?m b = Some (True, b')" "blob_ok b'" "bl_allocated b' = ?m" "bl_size b' = min (bl_size b) ?m"
     "bl_ptr b' = min (bl_ptr b) ?m" "blob_data b' = take (nat ?m) (blob_data b)"
    using blob_Resize_spec [OF assms(1) m(1)] by blast
  have sz: "bl_size b' = bl_size b" "bl_ptr b' = bl_ptr b" using b' m assms by (auto simp: blob_ok_def)
  have "blob_data b' = blob_data b" using b'(6) m(3) assms by (simp add: blob_data_def nat_mono)
  then have d: "take (nat (bl_size b)) (take (nat (bl_size b + n)) (bl_buf b')) = blob_data b"
    using assms sz by (simp add: blob_data_def blob_ok_def min_def nat_add_distrib)
  have "GrowBufOf n b = Some (b'\<lparr>bl_size := bl_size b + n\<rparr>)"
    using True b'(1) sz by (simp add: GrowBufOf_def split: if_splits)
  moreover have "blob_ok (b'\<lparr>bl_size := bl_size b + n\<rparr>)"
    using b'(2,3) m(2) sz assms by (simp add: blob_ok_def)
  moreover have "take (nat (bl_size b)) (blob_data (b'\<lparr>bl_size := bl_size b + n\<rparr>)) = blob_data b"
    using d by (simp add: blob_data_def)
  ultimately show ?thesis using sz by (intro exI [of _ "b'\<lparr>bl_size := bl_size b + n\<rparr>"]) simp
qed

text \<open>Writing replaces the bytes at the position and extends the contents when they pass the end.\<close>

lemma mem_put_Some: "0 \<le> at \<Longrightarrow> at + int (length bs) \<le> int (length buf) \<Longrightarrow>
    mem_put buf at bs = Some (take (nat at) buf @ bs @ drop (nat at + length bs) buf)"
  by (simp add: mem_put_def)

lemma take_put:
  assumes "p + length bs \<le> s" "s \<le> length buf"
  shows "take s (take p buf @ bs @ drop (p + length bs) buf) = take p (take s buf) @ bs @ drop (p + length bs) (take s buf)"
  using assms by (simp add: drop_take min_absorb1 min_absorb2 take_all)

lemma put_data:
  assumes "blob_ok b" "bl_ptr b + int (length bs) \<le> bl_size b"
  shows "\<exists>buf. mem_put (bl_buf b) (bl_ptr b) bs = Some buf \<and>
    blob_ok (b\<lparr>bl_buf := buf, bl_ptr := bl_ptr b + int (length bs)\<rparr>) \<and>
    blob_data (b\<lparr>bl_buf := buf, bl_ptr := bl_ptr b + int (length bs)\<rparr>) =
      take (nat (bl_ptr b)) (blob_data b) @ bs @ drop (nat (bl_ptr b) + length bs) (blob_data b)"
proof -
  let ?p = "nat (bl_ptr b)" and ?s = "nat (bl_size b)"
  have le: "?p + length bs \<le> ?s" "?s \<le> length (bl_buf b)" using assms by (auto simp: blob_ok_def)
  have p: "mem_put (bl_buf b) (bl_ptr b) bs = Some (take ?p (bl_buf b) @ bs @ drop (?p + length bs) (bl_buf b))"
    using assms by (intro mem_put_Some) (auto simp: blob_ok_def)
  moreover have "take ?s (take ?p (bl_buf b) @ bs @ drop (?p + length bs) (bl_buf b)) =
      take ?p (take ?s (bl_buf b)) @ bs @ drop (?p + length bs) (take ?s (bl_buf b))"
    using le by (rule take_put)
  ultimately show ?thesis using assms le by (simp add: blob_ok_def blob_data_def)
qed

lemma blob_Write_spec:
  assumes "blob_ok b"
  shows "\<exists>b'. blob_Write bs b = Some (int (length bs), b') \<and> blob_ok b' \<and> bl_ptr b' = bl_ptr b + int (length bs) \<and>
     blob_data b' = take (nat (bl_ptr b)) (blob_data b) @ bs @ drop (nat (bl_ptr b) + length bs) (blob_data b)"
proof (cases "CanAdvance b (int (length bs))")
  case True
  then have "bl_ptr b + int (length bs) \<le> bl_size b" by (simp add: CanAdvance_def split: if_splits)
  from put_data [OF assms this] True show ?thesis by (auto simp: blob_Write_def Let_def)
next
  case False
  let ?n = "bl_ptr b + int (length bs) - bl_size b"
  have n: "0 \<le> ?n" using False by (simp add: CanAdvance_def split: if_splits)
  obtain b1 where b1: "GrowBufOf ?n b = Some b1" "blob_ok b1" "bl_size b1 = bl_size b + ?n" "bl_ptr b1 = bl_ptr b"
    "take (nat (bl_size b)) (blob_data b1) = blob_data b"
    using GrowBufOf_spec [OF assms n] by blast
  have fit: "bl_ptr b1 + int (length bs) \<le> bl_size b1" using b1(3,4) by simp
  obtain buf where w: "mem_put (bl_buf b1) (bl_ptr b1) bs = Some buf"
    "blob_ok (b1\<lparr>bl_buf := buf, bl_ptr := bl_ptr b1 + int (length bs)\<rparr>)"
    "blob_data (b1\<lparr>bl_buf := buf, bl_ptr := bl_ptr b1 + int (length bs)\<rparr>) =
      take (nat (bl_ptr b1)) (blob_data b1) @ bs @ drop (nat (bl_ptr b1) + length bs) (blob_data b1)"
    using put_data [OF b1(2) fit] by blast
  have "take (nat (bl_ptr b)) (blob_data b1) = take (nat (bl_ptr b)) (blob_data b)"
    using b1(5) assms by (metis blob_ok_def min.absorb1 nat_mono take_take)
  moreover have "drop (nat (bl_ptr b) + length bs) (blob_data b1) = []" "drop (nat (bl_ptr b) + length bs) (blob_data b) = []"
    using length_blob_data [OF b1(2)] length_blob_data [OF assms] b1(3) n assms by (auto simp: blob_ok_def)
  ultimately show ?thesis
    using False b1(1,4) w by (simp add: blob_Write_def Let_def)
qed

text \<open>Reading returns the bytes at the position, as many as there are.\<close>

lemma blob_Read_spec:
  assumes "blob_ok b"
  shows "blob_Read (int n) b = Some (take n (drop (nat (bl_ptr b)) (blob_data b)),
      b\<lparr>bl_ptr := bl_ptr b + int (length (take n (drop (nat (bl_ptr b)) (blob_data b))))\<rparr>)"
proof -
  let ?p = "nat (bl_ptr b)" and ?s = "nat (bl_size b)"
  have b: "?p \<le> ?s" "?s \<le> length (bl_buf b)" "bl_ptr b = int ?p" "bl_size b = int ?s" using assms by (auto simp: blob_ok_def)
  show ?thesis
  proof (cases "?p + n \<le> ?s")
    case True
    then have "blob_Read (int n) b = Some (take n (drop ?p (bl_buf b)), b\<lparr>bl_ptr := bl_ptr b + int n\<rparr>)"
      using b by (auto simp: blob_Read_def CanAdvance_def mem_get_def)
    moreover have "take n (drop ?p (blob_data b)) = take n (drop ?p (bl_buf b))"
      using True b by (simp add: blob_data_def drop_take min_absorb1)
    ultimately show ?thesis using True b by simp
  next
    case False
    then have all: "take n (drop ?p (blob_data b)) = drop ?p (blob_data b)" using b by (simp add: blob_data_def)
    have "bl_size b < bl_ptr b + int n" using False b(3,4) by linarith
    then have adv: "\<not> CanAdvance b (int n)" by (simp add: CanAdvance_def)
    show ?thesis
    proof (cases "?p < ?s")
      case True
      have "take (?s - ?p) (drop ?p (bl_buf b)) = drop ?p (blob_data b)" by (simp add: blob_data_def drop_take)
      moreover have "mem_get (bl_buf b) (bl_ptr b) (bl_size b - bl_ptr b) = Some (take (?s - ?p) (drop ?p (bl_buf b)))"
        using True b assms by (simp add: mem_get_def nat_diff_distrib blob_ok_def)
      moreover have "length (drop ?p (blob_data b)) = ?s - ?p" using b(2) by (simp add: blob_data_def)
      then have "int (length (drop ?p (blob_data b))) = bl_size b - bl_ptr b" using True b(3,4) by linarith
      ultimately show ?thesis using True adv b(3,4) all by (simp add: blob_Read_def)
    next
      case False
      then have "?s = ?p" "\<not> bl_ptr b < bl_size b" using b(1,3,4) by linarith+
      then have "drop ?p (blob_data b) = []" "\<not> bl_ptr b < bl_size b" by (simp_all add: blob_data_def)
      then show ?thesis using adv all by (simp add: blob_Read_def)
    qed
  qed
qed

lemma blob_Seek_spec:
  assumes "blob_ok b"
  shows "blob_ok (snd (blob_Seek offset origin b)) \<and> blob_data (snd (blob_Seek offset origin b)) = blob_data b \<and>
     (fst (blob_Seek offset origin b) = - 1 \<longrightarrow> snd (blob_Seek offset origin b) = b)"
  using assms by (auto simp: blob_Seek_def blob_ok_def blob_data_def)

subsection \<open>A blob is a stream\<close>

definition blob_before :: "blob \<Rightarrow> byte list" where
  "blob_before b = take (nat (bl_ptr b)) (blob_data b)"

definition blob_after :: "blob \<Rightarrow> byte list" where
  "blob_after b = drop (nat (bl_ptr b)) (blob_data b)"

lemma blob_at_ptr:
  "blob_before (b\<lparr>bl_ptr := p\<rparr>) = take (nat p) (blob_data b)" "blob_after (b\<lparr>bl_ptr := p\<rparr>) = drop (nat p) (blob_data b)"
  by (simp_all add: blob_before_def blob_after_def)

definition blob_rewind :: "blob \<Rightarrow> blob" where
  "blob_rewind b = snd (blob_Seek 0 SQ_SEEK_SET b)"

lemma blob_at_end: "blob_ok b \<Longrightarrow> blob_after b = [] \<longleftrightarrow> bl_ptr b = bl_size b"
  using length_blob_data [of b] by (auto simp: blob_after_def blob_ok_def)

lemma blob_write_law:
  assumes "blob_ok b" "blob_after b = []"
  shows "\<exists>b'. blob_Write bs b = Some (int (length bs), b') \<and> blob_ok b' \<and> blob_before b' = blob_before b @ bs \<and> blob_after b' = []"
proof -
  have e: "nat (bl_ptr b) = length (blob_data b)"
    using assms length_blob_data [of b] by (simp add: blob_at_end)
  obtain b' where b': "blob_Write bs b = Some (int (length bs), b')" "blob_ok b'" "bl_ptr b' = bl_ptr b + int (length bs)"
    "blob_data b' = take (nat (bl_ptr b)) (blob_data b) @ bs @ drop (nat (bl_ptr b) + length bs) (blob_data b)"
    using blob_Write_spec [OF assms(1)] by blast
  have "nat (bl_ptr b') = length (blob_data b) + length bs" "blob_data b' = blob_data b @ bs"
    using b'(3,4) e assms(1) by (auto simp: blob_ok_def)
  then show ?thesis using b'(1,2) e by (simp add: blob_before_def blob_after_def)
qed

lemma blob_read_law:
  assumes "blob_ok b"
  shows "\<exists>b'. blob_Read (int n) b = Some (take n (blob_after b), b') \<and> blob_ok b' \<and>
    blob_before b' = blob_before b @ take n (blob_after b) \<and> blob_after b' = drop n (blob_after b)"
proof -
  let ?k = "length (take n (blob_after b))"
  have r: "blob_Read (int n) b = Some (take n (blob_after b), b\<lparr>bl_ptr := bl_ptr b + int ?k\<rparr>)"
    using blob_Read_spec [OF assms] by (simp add: blob_after_def)
  have len: "int (length (blob_after b)) = bl_size b - bl_ptr b" "0 \<le> bl_ptr b"
    using length_blob_data [OF assms] assms by (auto simp: blob_after_def blob_ok_def)
  have "?k \<le> length (blob_after b)" by simp
  then have "blob_ok (b\<lparr>bl_ptr := bl_ptr b + int ?k\<rparr>)"
    using assms len by (simp add: blob_ok_def)
  moreover have p: "nat (bl_ptr b + int ?k) = nat (bl_ptr b) + ?k" using len(2) by (simp add: nat_add_distrib)
  moreover have "take (nat (bl_ptr b) + ?k) (blob_data b) = blob_before b @ take n (blob_after b)"
    by (simp add: blob_before_def blob_after_def take_add take_take min_def)
  moreover have "drop (nat (bl_ptr b) + ?k) (blob_data b) = drop n (blob_after b)"
    by (cases "n \<le> length (blob_after b)") (simp_all add: blob_after_def add.commute)
  ultimately have "blob_before (b\<lparr>bl_ptr := bl_ptr b + int ?k\<rparr>) = blob_before b @ take n (blob_after b)"
    "blob_after (b\<lparr>bl_ptr := bl_ptr b + int ?k\<rparr>) = drop n (blob_after b)" "blob_ok (b\<lparr>bl_ptr := bl_ptr b + int ?k\<rparr>)"
    by (simp_all only: blob_at_ptr p)
  with r show ?thesis by blast
qed

lemma blob_rewind_law:
  assumes "blob_ok b"
  shows "blob_ok (blob_rewind b) \<and> blob_before (blob_rewind b) = [] \<and> blob_after (blob_rewind b) = blob_before b @ blob_after b"
proof -
  have "blob_rewind b = b\<lparr>bl_ptr := 0\<rparr>"
    using assms by (simp add: blob_rewind_def blob_Seek_def SQ_SEEK_SET_def SQ_SEEK_CUR_def SQ_SEEK_END_def blob_ok_def)
  moreover have "blob_ok (b\<lparr>bl_ptr := 0\<rparr>)" using assms by (simp add: blob_ok_def)
  ultimately show ?thesis by (simp add: blob_before_def blob_after_def)
qed

interpretation blob_stream: sq_seekable blob_Write blob_Read blob_ok blob_before blob_after blob_rewind
proof unfold_locales
  show "\<exists>b'. blob_Write bs b = Some (int (length bs), b') \<and> blob_ok b' \<and> blob_before b' = blob_before b @ bs \<and> blob_after b' = []"
    if "blob_ok b" "blob_after b = []" for b bs
    using blob_write_law that .
  show "\<exists>b'. blob_Read (int n) b = Some (take n (blob_after b), b') \<and> blob_ok b' \<and>
    blob_before b' = blob_before b @ take n (blob_after b) \<and> blob_after b' = drop n (blob_after b)"
    if "blob_ok b" for b n
    using blob_read_law that .
  show "blob_ok (blob_rewind b) \<and> blob_before (blob_rewind b) = [] \<and> blob_after (blob_rewind b) = blob_before b @ blob_after b"
    if "blob_ok b" for b
    using blob_rewind_law that .
qed

lemma new_blob_stream: "blob_ok (new_blob 0)" "blob_before (new_blob 0) = []" "blob_after (new_blob 0) = []"
  by (simp_all add: new_blob_ok blob_before_def blob_after_def new_blob_data)

subsection \<open>Reachable blobs\<close>

text \<open>One operation of a script on a blob; a fault is no step.\<close>

inductive blob_step :: "blob \<Rightarrow> blob \<Rightarrow> bool" where
  Write: "blob_Write bs b = Some (n, b') \<Longrightarrow> blob_step b b'"
| Read: "blob_Read n b = Some (bs, b') \<Longrightarrow> 0 \<le> n \<Longrightarrow> blob_step b b'"
| Seek: "blob_Seek offset origin b = (r, b') \<Longrightarrow> blob_step b b'"
| Resize: "blob_Resize n b = Some (r, b') \<Longrightarrow> blob_step b b'"
| Set_at: "blob_set idx val b = Done (v, b') \<Longrightarrow> blob_step b b'"

inductive_cases blob_stepE: "blob_step b b'"

inductive blob_reach :: "blob \<Rightarrow> bool" where
  New: "blob_constructor arg = Done b \<Longrightarrow> blob_reach b"
| Step: "blob_reach b \<Longrightarrow> blob_step b b' \<Longrightarrow> blob_reach b'"

lemma blob_set_ok:
  assumes "blob_ok b" "blob_set idx val b = Done (v, b')"
  shows "blob_ok b' \<and> bl_size b' = bl_size b \<and> 0 \<le> idx \<and> idx < bl_size b \<and> blob_data b' = (blob_data b)[nat idx := ucast val]"
proof -
  have i: "0 \<le> idx" "idx < bl_size b"
    using assms(2) by (auto simp: blob_set_def blob_Len_def split: if_splits)
  then have put: "mem_put (bl_buf b) idx [ucast val] = Some ((bl_buf b)[nat idx := ucast val])"
    using assms(1) by (auto simp: mem_put_def blob_ok_def upd_conv_take_nth_drop)
  then show ?thesis
    using i assms by (auto simp: blob_set_def blob_Len_def blob_ok_def blob_data_def take_update_swap)
qed

lemma blob_step_ok: "blob_step b b' \<Longrightarrow> blob_ok b \<Longrightarrow> blob_ok b'"
proof (elim blob_stepE)
  fix n bs assume "blob_Read n b = Some (bs, b')" "0 \<le> n" "blob_ok b"
  then show "blob_ok b'" using blob_read_law [of b "nat n"] by auto
next
  fix n r assume "blob_Resize n b = Some (r, b')" "blob_ok b"
  then show "blob_ok b'" using blob_Resize_spec [of b n] by (cases "n < 0") (auto simp: blob_Resize_def)
next
  fix offset origin r assume "blob_Seek offset origin b = (r, b')" "blob_ok b"
  then show "blob_ok b'" using blob_Seek_spec [of b offset origin] by simp
next
  fix bs n assume "blob_Write bs b = Some (n, b')" "blob_ok b"
  then show "blob_ok b'" using blob_Write_spec [of b bs] by auto
next
  fix idx val v assume "blob_set idx val b = Done (v, b')" "blob_ok b"
  then show "blob_ok b'" using blob_set_ok by blast
qed

lemma blob_reach_ok: "blob_reach b \<Longrightarrow> blob_ok b"
proof (induction rule: blob_reach.induct)
  case (New arg b)
  then show ?case by (auto simp: blob_constructor_def new_blob_ok Let_def split: if_splits option.splits)
qed (rule blob_step_ok)

end
