(* ===== verification/SqBlobClass.thy ===== *)
theory SqBlobClass
  imports SqBlobProps
begin

text \<open>
  Properties of the script class \<open>blob\<close>: safety of every sequence of operations, what
  writing, resizing, swapping and iterating do to the contents, and the calls that fault.
\<close>

subsection \<open>Byte order\<close>

lemma le_bytes_step: "le_bytes (Suc n) (uint (w :: 'a :: len word)) = ucast w # le_bytes n (uint (drop_bit 8 w))"
proof -
  have "uint (drop_bit 8 w) = drop_bit 8 (uint w)"
    unfolding unsigned_drop_bit_eq by (simp add: take_bit_int_eq_self)
  then have "uint w div 256 = uint (drop_bit 8 w)" by (simp add: drop_bit_int_def)
  then show ?thesis by simp
qed

lemma le_bytes_4: "le_bytes 4 (uint (w :: u32)) = [ucast w, ucast (drop_bit 8 w), ucast (drop_bit 16 w), ucast (drop_bit 24 w)]"
  by (simp add: eval_nat_numeral le_bytes_step del: le_bytes.simps(2))

lemma le_bytes_2: "le_bytes 2 (uint (w :: u16)) = [ucast w, ucast (drop_bit 8 w)]"
  by (simp add: eval_nat_numeral le_bytes_step del: le_bytes.simps(2))

lemma swap_dword_bytes: "le_bytes 4 (uint (swap_dword w)) = rev (le_bytes 4 (uint w))"
proof -
  have "ucast (swap_dword w) = (ucast (drop_bit 24 w) :: byte)" "ucast (drop_bit 8 (swap_dword w)) = (ucast (drop_bit 16 w) :: byte)"
    "ucast (drop_bit 16 (swap_dword w)) = (ucast (drop_bit 8 w) :: byte)" "ucast (drop_bit 24 (swap_dword w)) = (ucast w :: byte)"
    by (rule bit_word_eqI; simp add: swap_dword_def bit_simps; auto simp: numeral_eq_Suc less_Suc_eq)+
  then show ?thesis by (simp add: le_bytes_4)
qed

lemma swap_word_bytes: "le_bytes 2 (uint (swap_word w)) = rev (le_bytes 2 (uint w))"
proof -
  have "ucast (swap_word w) = (ucast (drop_bit 8 w) :: byte)" "ucast (drop_bit 8 (swap_word w)) = (ucast w :: byte)"
    by (rule bit_word_eqI; simp add: swap_word_def bit_simps; auto simp: numeral_eq_Suc less_Suc_eq)+
  then show ?thesis by (simp add: le_bytes_2)
qed

lemma word32_bytes: "length bs = 4 \<Longrightarrow> le_bytes 4 (uint (word_of_int (le_int bs) :: u32)) = bs"
  using le_bytes_int [of bs] le_int_bounds [of bs] by (simp add: uint_word_of_int)

lemma word16_bytes: "length bs = 2 \<Longrightarrow> le_bytes 2 (uint (word_of_int (le_int bs) :: u16)) = bs"
  using le_bytes_int [of bs] le_int_bounds [of bs] by (simp add: uint_word_of_int)

lemma swap4_bytes_rev: "length bs = 4 \<Longrightarrow> swap4_bytes bs = rev bs"
  by (simp add: swap4_bytes_def swap_dword_bytes word32_bytes)

lemma swap2_bytes_rev: "length bs = 2 \<Longrightarrow> swap2_bytes bs = rev bs"
  by (simp add: swap2_bytes_def swap_word_bytes word16_bytes)

text \<open>The first \<open>num\<close> groups of \<open>k\<close> bytes, each reversed.\<close>

fun rev_groups :: "nat \<Rightarrow> nat \<Rightarrow> byte list \<Rightarrow> byte list" where
  "rev_groups k 0 bs = bs"
| "rev_groups k (Suc num) bs = rev (take k bs) @ rev_groups k num (drop k bs)"

lemma length_rev_groups [simp]: "length (rev_groups k num bs) = length bs"
  by (induction k num bs rule: rev_groups.induct) auto

lemma rev_groups_twice: "k * num \<le> length bs \<Longrightarrow> rev_groups k num (rev_groups k num bs) = bs"
  by (induction k num bs rule: rev_groups.induct) (auto simp: min_def)

lemma rev_groups_take: "k * num \<le> m \<Longrightarrow> m \<le> length bs \<Longrightarrow> take m (rev_groups k num bs) = rev_groups k num (take m bs)"
  by (induction k num bs arbitrary: m rule: rev_groups.induct) (auto simp: min_def drop_take)

lemma mem_get_nat: "at + k \<le> length buf \<Longrightarrow> mem_get buf (int at) (int k) = Some (take k (drop at buf))"
  by (simp add: mem_get_def)

lemma mem_put_nat: "at + length bs \<le> length buf \<Longrightarrow> mem_put buf (int at) bs = Some (take at buf @ bs @ drop (at + length bs) buf)"
  by (simp add: mem_put_def)

lemma take_drop_append3: "length a = m \<Longrightarrow> length b = n \<Longrightarrow> take (m + n) (a @ b @ c) = a @ b \<and> drop (m + n) (a @ b @ c) = c"
  by auto

lemma swap_loop_spec:
  assumes "\<And>bs. length bs = k \<Longrightarrow> f bs = rev bs" "k * (i + num) \<le> length buf"
  shows "swap_loop k f num i buf = Some (take (k * i) buf @ rev_groups k num (drop (k * i) buf))"
  using assms(2)
proof (induction num arbitrary: i buf)
  case (Suc num)
  let ?g = "take k (drop (k * i) buf)" and ?buf = "take (k * i) buf @ rev (take k (drop (k * i) buf)) @ drop (k * i + k) buf"
  have le: "k * i + k \<le> length buf" "k * (Suc i + num) \<le> length buf" using Suc.prems by (simp_all add: algebra_simps)
  have g: "mem_get buf (int (k * i)) (int k) = Some ?g" "length ?g = k" using mem_get_nat [OF le(1)] le(1) by simp_all
  have "f ?g = rev ?g" using assms(1) g(2) by blast
  then have p: "mem_put buf (int (k * i)) (f ?g) = Some ?buf"
    using mem_put_nat [of "k * i" "rev ?g" buf] g(2) le(1) by simp
  have "length ?buf = length buf" using le(1) by simp
  then have "swap_loop k f num (Suc i) ?buf = Some (take (k * Suc i) ?buf @ rev_groups k num (drop (k * Suc i) ?buf))"
    using Suc.IH [of "Suc i" ?buf] le(2) by simp
  moreover have "take (k * Suc i) ?buf = take (k * i) buf @ rev ?g" "drop (k * Suc i) ?buf = drop k (drop (k * i) buf)"
    using take_drop_append3 [of "take (k * i) buf" "k * i" "rev ?g" k "drop (k * i + k) buf"] g(2) le(1)
    by (simp_all add: add.commute)
  ultimately have X: "swap_loop k f num (Suc i) ?buf = Some (take (k * i) buf @ rev ?g @ rev_groups k num (drop k (drop (k * i) buf)))"
    by (simp only: append_assoc)
  show ?case using X unfolding swap_loop.simps g(1) p option.case rev_groups.simps by simp
qed simp

subsection \<open>What the operations do\<close>

lemma blob_swap_data:
  assumes ok: "blob_ok b" and k: "0 < k" and f: "\<And>bs. length bs = k \<Longrightarrow> f bs = rev bs"
  defines "n \<equiv> length (blob_data b) div k"
  shows "\<exists>buf. swap_loop k f (nat ((blob_Len b - blob_Len b mod int k) div int k)) 0 (bl_buf b) = Some buf \<and>
    blob_ok (b\<lparr>bl_buf := buf\<rparr>) \<and> blob_data (b\<lparr>bl_buf := buf\<rparr>) = rev_groups k n (blob_data b) \<and>
    buf = rev_groups k n (bl_buf b)"
proof -
  let ?l = "length (blob_data b)"
  have l: "bl_size b = int ?l" "?l \<le> length (bl_buf b)" "nat (bl_size b) = ?l"
    using length_blob_data [OF ok] ok by (auto simp: blob_ok_def)
  have n: "nat ((blob_Len b - blob_Len b mod int k) div int k) = n"
    using k by (simp add: blob_Len_def l(1) n_def minus_mod_eq_mult_div nat_div_distrib)
  have kn: "k * n \<le> ?l" by (simp add: n_def)
  have "swap_loop k f n 0 (bl_buf b) = Some (rev_groups k n (bl_buf b))"
    using swap_loop_spec [OF f, of k 0 n "bl_buf b"] kn l(2) by simp
  moreover have "take ?l (rev_groups k n (bl_buf b)) = rev_groups k n (take ?l (bl_buf b))"
    by (rule rev_groups_take [OF kn l(2)])
  moreover have "take ?l (bl_buf b) = blob_data b" using l(3) by (simp add: blob_data_def)
  ultimately show ?thesis
    using n ok l(3) by (simp add: blob_data_def [of "b\<lparr>bl_buf := _\<rparr>"] blob_ok_def)
qed

lemma swap4_data:
  assumes "blob_ok b"
  shows "\<exists>b'. blob_swap4 b = Done b' \<and> blob_ok b' \<and> bl_ptr b' = bl_ptr b \<and>
    blob_data b' = rev_groups 4 (length (blob_data b) div 4) (blob_data b) \<and> bl_buf b' = rev_groups 4 (length (blob_data b) div 4) (bl_buf b) \<and> b'\<lparr>bl_buf := bl_buf b\<rparr> = b"
proof -
  obtain buf where "swap_loop 4 swap4_bytes (nat ((blob_Len b - blob_Len b mod int 4) div int 4)) 0 (bl_buf b) = Some buf"
    "blob_ok (b\<lparr>bl_buf := buf\<rparr>)" "blob_data (b\<lparr>bl_buf := buf\<rparr>) = rev_groups 4 (length (blob_data b) div 4) (blob_data b)"
    "buf = rev_groups 4 (length (blob_data b) div 4) (bl_buf b)"
    using blob_swap_data [of b 4 swap4_bytes, OF assms _ swap4_bytes_rev] by auto
  then show ?thesis by (intro exI [of _ "b\<lparr>bl_buf := buf\<rparr>"]) (simp add: blob_swap4_def)
qed

lemma swap2_data:
  assumes "blob_ok b"
  shows "\<exists>b'. blob_swap2 b = Done b' \<and> blob_ok b' \<and> bl_ptr b' = bl_ptr b \<and>
    blob_data b' = rev_groups 2 (length (blob_data b) div 2) (blob_data b) \<and> bl_buf b' = rev_groups 2 (length (blob_data b) div 2) (bl_buf b) \<and> b'\<lparr>bl_buf := bl_buf b\<rparr> = b"
proof -
  obtain buf where "swap_loop 2 swap2_bytes (nat ((blob_Len b - blob_Len b mod int 2) div int 2)) 0 (bl_buf b) = Some buf"
    "blob_ok (b\<lparr>bl_buf := buf\<rparr>)" "blob_data (b\<lparr>bl_buf := buf\<rparr>) = rev_groups 2 (length (blob_data b) div 2) (blob_data b)"
    "buf = rev_groups 2 (length (blob_data b) div 2) (bl_buf b)"
    using blob_swap_data [of b 2 swap2_bytes, OF assms _ swap2_bytes_rev] by auto
  then show ?thesis by (intro exI [of _ "b\<lparr>bl_buf := buf\<rparr>"]) (simp add: blob_swap2_def)
qed

lemma as_string_data: "blob_ok b \<Longrightarrow> blob_as_string b = Done (blob_data b)"
  by (auto simp: blob_as_string_def mem_get_def blob_Len_def blob_ok_def blob_data_def)

lemma get_data:
  assumes "blob_ok b" "0 \<le> idx" "idx < bl_size b"
  shows "blob_get (Some idx) b = Done (ucast (blob_data b ! nat idx))"
proof -
  define j where "j = nat idx"
  then have j: "idx = int j" using assms(2) by simp
  have "bl_size b \<le> int (length (bl_buf b))" using assms(1) by (simp add: blob_ok_def)
  then have le: "j < nat (bl_size b)" "j + 1 \<le> length (bl_buf b)" using assms(3) j by linarith+
  then have "take 1 (drop j (bl_buf b)) = [bl_buf b ! j]" by (simp add: take_Suc hd_drop_conv_nth)
  then have "mem_get (bl_buf b) idx 1 = Some [bl_buf b ! j]"
    using mem_get_nat [OF le(2)] j by simp
  moreover have "blob_data b ! j = bl_buf b ! j" using le(1) by (simp add: blob_data_def)
  ultimately show ?thesis using assms j by (simp add: blob_get_def blob_Len_def le_unsigned_def)
qed







text \<open>C26: Bytes written to a blob are read back from the position where they were written; the bytes in front of and behind them are unchanged, and the blob grows exactly when they pass its end.\<close>

theorem blob_write_read:
  assumes "blob_reach b" "blob_Write bs b = Some (n, b1)" "blob_Seek (blob_Tell b) SQ_SEEK_SET b1 = (r, b2)"
    "blob_Read n b2 = Some (res, b3)"
  shows "r = 0 \<and> res = bs \<and> blob_Tell b3 = blob_Tell b + int (length bs) \<and>
    blob_as_string b3 = Done (take (nat (blob_Tell b)) (blob_data b) @ bs @ drop (nat (blob_Tell b) + length bs) (blob_data b))"
proof -
  have ok: "blob_ok b" by (rule blob_reach_ok [OF assms(1)])
  let ?d = "take (nat (bl_ptr b)) (blob_data b) @ bs @ drop (nat (bl_ptr b) + length bs) (blob_data b)"
  have w: "n = int (length bs)" "blob_ok b1" "bl_ptr b1 = bl_ptr b + int (length bs)" "blob_data b1 = ?d"
    using blob_Write_spec [OF ok, of bs] assms(2) by auto
  have p: "0 \<le> bl_ptr b" "bl_ptr b \<le> bl_size b" "nat (bl_ptr b) \<le> length (blob_data b)"
    using ok length_blob_data [OF ok] by (auto simp: blob_ok_def)
  have "bl_ptr b \<le> bl_size b1" using w(2,3) by (simp add: blob_ok_def)
  then have s: "r = 0" "b2 = b1\<lparr>bl_ptr := bl_ptr b\<rparr>" using assms(3) p(1) by (simp_all add: blob_Seek_def blob_Tell_def)
  have ok2: "blob_ok b2" using w(2) s(2) p(1) \<open>bl_ptr b \<le> bl_size b1\<close> by (simp add: blob_ok_def)
  have "take (length bs) (drop (nat (bl_ptr b)) (blob_data b2)) = bs"
    using p(3) w(4) s(2) by simp
  then have "res = bs" "b3 = b2\<lparr>bl_ptr := bl_ptr b + int (length bs)\<rparr>"
    using blob_Read_spec [OF ok2, of "length bs"] assms(4) w(1) s(2) by auto
  moreover have "blob_ok b3" using blob_read_law [OF ok2, of "length bs"] assms(4) w(1) by auto
  ultimately show ?thesis
    using s w(4) by (simp add: blob_Tell_def as_string_data)
qed

theorem blob_write_read_witness:
  "\<exists>b1 b2 b3. blob_Write [7, 8] (new_blob 1) = Some (2, b1) \<and> blob_Seek 0 SQ_SEEK_SET b1 = (0, b2) \<and> blob_Read 2 b2 = Some ([7, 8], b3) \<and>
     blob_as_string b3 = Done [7, 8]"
proof -
  let ?b = "new_blob 1"
  have r: "blob_reach ?b" by (rule blob_reach.New [of "Some 1"]) (simp add: blob_constructor_def)
  obtain b1 b2 b3 where s: "blob_Write [7, 8] ?b = Some (2, b1)" "blob_Seek (blob_Tell ?b) SQ_SEEK_SET b1 = (0, b2)" "blob_Read 2 b2 = Some ([7, 8], b3)"
    by (simp add: blob_Write_def new_blob_def CanAdvance_def GrowBufOf_def blob_Resize_def mem_get_def mem_put_def Let_def
        blob_Seek_def blob_Tell_def blob_Read_def)
  from blob_write_read [OF r s] s show ?thesis by (auto simp: blob_Tell_def new_blob_def blob_data_def)
qed

text \<open>Resizing a blob to a non-negative size always succeeds and keeps the contents that fit, but it never makes the blob longer: a size above the length only enlarges the allocation.\<close>

theorem blob_resize_keeps:
  assumes "blob_reach b" "0 \<le> n"
  shows "\<exists>b'. blob_resize n b = Done b' \<and> blob_as_string b' = Done (take (nat n) (blob_data b)) \<and>
    blob_Len b' = min (blob_Len b) n \<and> blob_Tell b' = min (blob_Tell b) n"
proof -
  obtain b' where "blob_Resize n b = Some (True, b')" "blob_ok b'" "bl_size b' = min (bl_size b) n"
     "bl_ptr b' = min (bl_ptr b) n" "blob_data b' = take (nat n) (blob_data b)"
    using blob_Resize_spec [OF blob_reach_ok [OF assms(1)] assms(2)] by blast
  then show ?thesis by (simp add: blob_resize_def as_string_data blob_Len_def blob_Tell_def)
qed

theorem blob_resize_keeps_witness: "\<exists>b'. blob_resize 10 (new_blob 4) = Done b' \<and> blob_Len b' = 4"
proof -
  have "blob_reach (new_blob 4)" by (rule blob_reach.New [of "Some 4"]) (simp add: blob_constructor_def)
  moreover have "blob_Len (new_blob 4) = 4" by (simp add: blob_Len_def new_blob_def)
  ultimately show ?thesis using blob_resize_keeps [of "new_blob 4" 10] by auto
qed

text \<open>C27: Swapping the byte order of a blob reverses every complete group of 4 (or 2) bytes of its contents, and swapping twice gives the same blob back.\<close>

theorem blob_swap_involution:
  assumes "blob_reach b"
  shows "\<exists>b4 b2. blob_swap4 b = Done b4 \<and> blob_as_string b4 = Done (rev_groups 4 (length (blob_data b) div 4) (blob_data b)) \<and> blob_swap4 b4 = Done b \<and>
    blob_swap2 b = Done b2 \<and> blob_as_string b2 = Done (rev_groups 2 (length (blob_data b) div 2) (blob_data b)) \<and> blob_swap2 b2 = Done b"
proof -
  have ok: "blob_ok b" by (rule blob_reach_ok [OF assms])
  have len: "length (blob_data b) \<le> length (bl_buf b)" by (simp add: blob_data_def)
  have twice: "rev_groups k (length (blob_data b) div k) (rev_groups k (length (blob_data b) div k) (bl_buf b)) = bl_buf b" for k
    by (rule rev_groups_twice) (use len in \<open>meson div_times_less_eq_dividend le_trans times_div_less_eq_dividend\<close>)
  have restore: "c = b" if "bl_buf c = bl_buf b" "b'\<lparr>bl_buf := bl_buf b\<rparr> = b" "c\<lparr>bl_buf := bl_buf b'\<rparr> = b'" for b' c
    using that by (metis blob.surjective blob.update_convs(4))
  obtain b4 c4 where "blob_swap4 b = Done b4" "blob_ok b4" "blob_data b4 = rev_groups 4 (length (blob_data b) div 4) (blob_data b)"
    "bl_buf b4 = rev_groups 4 (length (blob_data b) div 4) (bl_buf b)" "b4\<lparr>bl_buf := bl_buf b\<rparr> = b"
    "blob_swap4 b4 = Done c4" "bl_buf c4 = rev_groups 4 (length (blob_data b4) div 4) (bl_buf b4)" "c4\<lparr>bl_buf := bl_buf b4\<rparr> = b4"
    using swap4_data [OF ok] swap4_data by metis
  moreover obtain b2 c2 where "blob_swap2 b = Done b2" "blob_ok b2" "blob_data b2 = rev_groups 2 (length (blob_data b) div 2) (blob_data b)"
    "bl_buf b2 = rev_groups 2 (length (blob_data b) div 2) (bl_buf b)" "b2\<lparr>bl_buf := bl_buf b\<rparr> = b"
    "blob_swap2 b2 = Done c2" "bl_buf c2 = rev_groups 2 (length (blob_data b2) div 2) (bl_buf b2)" "c2\<lparr>bl_buf := bl_buf b2\<rparr> = b2"
    using swap2_data [OF ok] swap2_data by metis
  ultimately show ?thesis using restore twice by (auto simp: as_string_data)
qed

theorem blob_swap_involution_witness: "\<exists>b4. blob_swap4 (new_blob 9) = Done b4 \<and> blob_swap4 b4 = Done (new_blob 9)"
proof -
  have "blob_reach (new_blob 9)" by (rule blob_reach.New [of "Some 9"]) (simp add: blob_constructor_def)
  from blob_swap_involution [OF this] show ?thesis by blast
qed

subsection \<open>Iteration\<close>

text \<open>
  \<open>FOREACH_OP\<close> on an instance of the class \<open>blob\<close>: \<open>_nexti\<close> is called with the last index \<open>o4\<close>,
  null ends the loop, and otherwise the element at the index it answers is fetched through \<open>_get\<close>; an
  error of \<open>_get\<close> is replaced by one of its own. \<open>None\<close> is the jump to the exit, \<open>Some\<close> the
  next index, which is stored in both \<open>o4\<close> and \<open>o2\<close>, and the value for \<open>o3\<close>.
\<close>

definition foreach_op :: "int option \<Rightarrow> blob \<Rightarrow> (int \<times> u64) option sq_res" where
  "foreach_op o4 b =
     (case blob_nexti o4 b of
        None \<Rightarrow> Done None
      | Some itr \<Rightarrow>
          (case blob_get (Some itr) b of
             Stuck \<Rightarrow> Stuck
           | Raise e \<Rightarrow> Raise ''_nexti returned an invalid idx''
           | Done v \<Rightarrow> Done (Some (itr, v))))"

text \<open>
  The instructions \<open>PREFOREACH\<close> (with \<open>o4\<close> null) and \<open>FOREACH\<close> of a loop whose body leaves the blob
  alone: the indices and values the body is run with.
\<close>

fun blob_foreach :: "nat \<Rightarrow> int option \<Rightarrow> blob \<Rightarrow> (int \<times> u64) list sq_res" where
  "blob_foreach 0 o4 b = Stuck"
| "blob_foreach (Suc fuel) o4 b =
     res_bind (foreach_op o4 b) (\<lambda>r. case r of
        None \<Rightarrow> Done []
      | Some (itr, v) \<Rightarrow> res_bind (blob_foreach fuel (Some itr) b) (\<lambda>vs. Done ((itr, v) # vs)))"

lemma foreach_from:
  assumes "blob_ok b" "i < length (blob_data b)" "length (blob_data b) - i \<le> fuel"
  shows "blob_foreach fuel (Some (int i)) b =
    Done (map (\<lambda>j. (int j, ucast (blob_data b ! j))) [Suc i..<length (blob_data b)])"
  using assms(2,3)
proof (induction fuel arbitrary: i)
  case (Suc fuel)
  have l: "blob_Len b = int (length (blob_data b))" using length_blob_data [OF assms(1)] by (simp add: blob_Len_def)
  show ?case
  proof (cases "Suc i < length (blob_data b)")
    case True
    have "blob_get (Some (int (Suc i))) b = Done (ucast (blob_data b ! Suc i))"
      using get_data [OF assms(1), of "int (Suc i)"] True l by (simp add: blob_Len_def del: of_nat_Suc)
    moreover have "blob_nexti (Some (int i)) b = Some (int (Suc i))" using True l by (simp add: blob_nexti_def)
    moreover have "blob_foreach fuel (Some (int (Suc i))) b =
        Done (map (\<lambda>j. (int j, ucast (blob_data b ! j))) [Suc (Suc i)..<length (blob_data b)])"
      using Suc.IH [OF True] Suc.prems by simp
    ultimately show ?thesis
      unfolding blob_foreach.simps foreach_op_def upt_conv_Cons [OF True] by simp
  next
    case False
    then show ?thesis using l Suc.prems by (simp add: foreach_op_def blob_nexti_def)
  qed
qed simp

text \<open>C28: A \<open>foreach\<close> over a non-empty blob visits every index once, in order, with the byte at it, and ends; over an empty blob it raises ``\<open>_nexti\<close> returned an invalid idx'' instead of ending, because \<open>_nexti\<close> answers index 0 to null without looking at the length. The body of the loop leaves the blob alone.\<close>

theorem blob_foreach_complete:
  assumes "blob_reach b" "blob_Len b < int fuel" "1 < fuel"
  shows "blob_foreach fuel None b =
    (if blob_Len b = 0 then Raise ''_nexti returned an invalid idx''
     else Done (map (\<lambda>j. (int j, ucast (blob_data b ! j))) [0..<length (blob_data b)]))"
proof -
  have ok: "blob_ok b" by (rule blob_reach_ok [OF assms(1)])
  have l: "blob_Len b = int (length (blob_data b))" using length_blob_data [OF ok] by (simp add: blob_Len_def)
  obtain f where f: "fuel = Suc f" using assms(3) by (cases fuel) auto
  show ?thesis
  proof (cases "blob_Len b = 0")
    case True
    then show ?thesis by (simp add: f foreach_op_def blob_nexti_def blob_get_def)
  next
    case False
    then have p: "0 < length (blob_data b)" using l by simp
    have "blob_get (Some 0) b = Done (ucast (blob_data b ! 0))"
      using get_data [OF ok, of 0] p l by (simp add: blob_Len_def)
    moreover have "blob_foreach f (Some (int 0)) b = Done (map (\<lambda>j. (int j, ucast (blob_data b ! j))) [Suc 0..<length (blob_data b)])"
      by (rule foreach_from [OF ok p]) (use assms(2) l f in simp)
    ultimately show ?thesis using False p by (simp add: f foreach_op_def blob_nexti_def upt_conv_Cons)
  qed
qed

theorem blob_foreach_complete_witness:
  "blob_foreach 3 None (new_blob 2) = Done [(0, 0), (1, 0)] \<and> blob_foreach 3 None (new_blob 0) = Raise ''_nexti returned an invalid idx''"
proof -
  have "blob_reach (new_blob n)" if "0 \<le> n" for n
    by (rule blob_reach.New [of "Some n"]) (use that in \<open>simp add: blob_constructor_def\<close>)
  from blob_foreach_complete [OF this, of 2 3] blob_foreach_complete [OF this, of 0 3]
  show ?thesis by (simp add: blob_Len_def new_blob_def blob_data_def numeral_2_eq_2)
qed

text \<open>C29: A number written to a fresh blob in one of the signed integer formats and read back after a seek to the start is the same number whenever it fits the format's width.\<close>

theorem blob_writen_readn:
  assumes "(format, n) \<in> {(schar CHR ''l'', 8), (schar CHR ''i'', 4), (schar CHR ''s'', 2), (schar CHR ''c'', 1)}"
    and "- (2 ^ (8 * n - 1)) \<le> sint i" "sint i < 2 ^ (8 * n - 1)"
  shows "\<exists>b b'. stream_writen blob_Write format i f (new_blob 0) = Done b \<and>
    stream_readn blob_Read format (snd (blob_Seek 0 SQ_SEEK_SET b)) = Done (NumInt i, b')"
  using blob_stream.writen_readn [OF new_blob_stream(1,3,2) assms] by (simp add: blob_rewind_def)

theorem blob_writen_readn_witness:
  "\<exists>b b'. stream_writen blob_Write (schar CHR ''s'') (- 300) 0 (new_blob 0) = Done b \<and>
    stream_readn blob_Read (schar CHR ''s'') (snd (blob_Seek 0 SQ_SEEK_SET b)) = Done (NumInt (- 300), b')"
  by (rule blob_writen_readn [of _ 2]) simp_all

end
