(* ===== verification/SqSerial.thy ===== *)
theory SqSerial
  imports SqStream
begin

text \<open>
  \<^verbatim>\<open>sqstdlib/sqstdserialization.cpp\<close>: writing a script value to a stream and reading it back,
  with \<open>availableClasses\<close> null, so that every instance is rejected. A value is the tree its
  references span (a cyclic value runs into the depth limit of the code and has no tree);
  strings are their bytes, and a table is its node array. The struct \<open>SQStreamSerializer\<close> is
  the record below; the value that deserialization leaves on the VM stack is its result, and the free
  slots of that stack, which the reader fills without a check, are an argument (\<open>room\<close>).
  Debug assertions are compiled out.
\<close>

datatype ser_value =
    VNull
  | VBool bool
  | VInt u64
  | VFloat u32
  | VStr "byte list"
  | VArray "ser_value list"
  | VTable "ser_slot list"
  | VInstance
  | VOther
and ser_slot = FreeSlot | Slot ser_value ser_value

definition TP_NULL :: byte where "TP_NULL = 0 * 16"
definition TP_BOOL :: byte where "TP_BOOL = 1 * 16"
definition TP_INTEGER :: byte where "TP_INTEGER = 2 * 16"
definition TP_FLOAT :: byte where "TP_FLOAT = 3 * 16"
definition TP_STRING :: byte where "TP_STRING = 4 * 16"
definition TP_ARRAY :: byte where "TP_ARRAY = 5 * 16"
definition TP_TABLE :: byte where "TP_TABLE = 6 * 16"
definition TP_INSTANCE :: byte where "TP_INSTANCE = 7 * 16"

definition START_MARKER :: byte where "START_MARKER = 0xEA"
definition END_MARKER :: byte where "END_MARKER = 0xFA"
definition MAX_DEPTH :: nat where "MAX_DEPTH = 200"

definition SQ_DESER_MAX_OBJECT_SIZE :: nat where
  "SQ_DESER_MAX_OBJECT_SIZE = 80 * 1024 * 1024"

record 's serializer =
  sz_stream :: 's
  sz_stringTable :: "byte list \<rightharpoonup> u32"
  sz_stringList :: "byte list list"
  sz_stringCounter :: u32
  sz_depth :: nat

definition new_serializer :: "'s \<Rightarrow> 's serializer" where
  "new_serializer s = \<lparr>sz_stream = s, sz_stringTable = Map.empty, sz_stringList = [], sz_stringCounter = 0, sz_depth = 0\<rparr>"

subsection \<open>Writing\<close>

type_synonym 's ser_cmd = "'s serializer \<Rightarrow> 's serializer sq_res"

text \<open>\<open>stream->Write\<close>; the count it returns is ignored.\<close>

definition put :: "'s stream_wr \<Rightarrow> byte list \<Rightarrow> 's ser_cmd" where
  "put wr bs z = res_bind (of_opt (wr bs (sz_stream z))) (\<lambda>(n, s). Done (z\<lparr>sz_stream := s\<rparr>))"

definition seq :: "'s ser_cmd \<Rightarrow> 's ser_cmd \<Rightarrow> 's ser_cmd" where
  "seq a b z = res_bind (a z) b"

definition put_integer :: "'s stream_wr \<Rightarrow> u64 \<Rightarrow> 's ser_cmd" where
  "put_integer wr i =
     (let iv = sint i in
      if iv \<ge> - 1 \<and> iv \<le> 2 then put wr [TP_INTEGER OR word_of_int (iv + 1)]
      else if iv \<ge> - 128 \<and> iv \<le> 127 then seq (put wr [TP_INTEGER OR 4]) (put wr (le_bytes 1 iv))
      else if iv \<ge> - 32768 \<and> iv \<le> 32767 then seq (put wr [TP_INTEGER OR 5]) (put wr (le_bytes 2 iv))
      else if iv \<ge> - 2147483648 \<and> iv \<le> 2147483647 then seq (put wr [TP_INTEGER OR 6]) (put wr (le_bytes 4 iv))
      else seq (put wr [TP_INTEGER OR 7]) (put wr (le_bytes 8 iv)))"

text \<open>The comparisons of a float with the literals \<open>-1.0\<close>, \<open>-0.5\<close>, \<open>0.5\<close>, \<open>1.0\<close>, \<open>2.0\<close> and
  \<open>0.0\<close>; both zeros equal \<open>0.0\<close>.\<close>

definition put_float :: "'s stream_wr \<Rightarrow> u32 \<Rightarrow> 's ser_cmd" where
  "put_float wr fv =
     (if fv = 0xBF800000 then put wr [TP_FLOAT OR 0]
      else if fv = 0xBF000000 then put wr [TP_FLOAT OR 1]
      else if fv = 0 \<or> fv = 0x80000000 then put wr [TP_FLOAT OR 2]
      else if fv = 0x3F000000 then put wr [TP_FLOAT OR 3]
      else if fv = 0x3F800000 then put wr [TP_FLOAT OR 4]
      else if fv = 0x40000000 then put wr [TP_FLOAT OR 5]
      else seq (put wr [TP_FLOAT OR 6]) (put wr (le_bytes 4 (uint fv))))"

definition put_string :: "'s stream_wr \<Rightarrow> byte list \<Rightarrow> 's ser_cmd" where
  "put_string wr str z =
     (let len = int (length str) in
      if len = 0 then put wr [TP_STRING OR 0] z
      else case sz_stringTable z str of
        None \<Rightarrow>
          res_bind
            ((if len \<le> 255 then seq (put wr [TP_STRING OR 1]) (seq (put wr (le_bytes 1 len)) (put wr str))
              else if len \<le> 65535 then seq (put wr [TP_STRING OR 2]) (seq (put wr (le_bytes 2 len)) (put wr str))
              else seq (put wr [TP_STRING OR 3]) (seq (put wr (le_bytes 4 len)) (put wr str))) z)
            (\<lambda>z. Done (z\<lparr>sz_stringTable := (sz_stringTable z)(str \<mapsto> sz_stringCounter z),
                         sz_stringCounter := sz_stringCounter z + 1\<rparr>))
      | Some index \<Rightarrow>
          if uint index \<le> 255 then seq (put wr [TP_STRING OR 4]) (put wr (le_bytes 1 (uint index))) z
          else if uint index \<le> 65535 then seq (put wr [TP_STRING OR 5]) (put wr (le_bytes 2 (uint index))) z
          else seq (put wr [TP_STRING OR 6]) (put wr (le_bytes 4 (uint index))) z)"

text \<open>\<open>depth++\<close> and the check of the limit.\<close>

definition enter :: "'s ser_cmd" where
  "enter z =
     (let z = z\<lparr>sz_depth := sz_depth z + 1\<rparr> in
      if sz_depth z > MAX_DEPTH then Raise ''Maximum serialization depth exceeded'' else Done z)"

definition leave :: "'s ser_cmd" where
  "leave z = Done (z\<lparr>sz_depth := sz_depth z - 1\<rparr>)"

text \<open>The tag and the size of an array or a table.\<close>

definition put_size :: "'s stream_wr \<Rightarrow> byte \<Rightarrow> nat \<Rightarrow> 's ser_cmd" where
  "put_size wr tp n =
     (if n = 0 then put wr [tp OR 0]
      else if n \<le> 255 then seq (put wr [tp OR 1]) (put wr (le_bytes 1 (int n)))
      else seq (put wr [tp OR 2]) (put wr (le_bytes 4 (int n))))"

definition CountUsed :: "ser_slot list \<Rightarrow> nat" where
  "CountUsed ns = length (filter (\<lambda>nd. nd \<noteq> FreeSlot) ns)"

fun serializeObject :: "'s stream_wr \<Rightarrow> ser_value \<Rightarrow> 's ser_cmd"
  and serialize_values :: "'s stream_wr \<Rightarrow> ser_value list \<Rightarrow> 's ser_cmd"
  and serialize_nodes :: "'s stream_wr \<Rightarrow> ser_slot list \<Rightarrow> 's ser_cmd" where
  "serializeObject wr VNull z = put wr [TP_NULL OR 1] z"
| "serializeObject wr (VBool b) z = put wr [TP_BOOL OR (if b then 1 else 0)] z"
| "serializeObject wr (VInt i) z = put_integer wr i z"
| "serializeObject wr (VFloat f) z = put_float wr f z"
| "serializeObject wr (VStr s) z = put_string wr s z"
| "serializeObject wr (VArray vs) z =
     seq enter (seq (put_size wr TP_ARRAY (length vs)) (seq (serialize_values wr vs) leave)) z"
| "serializeObject wr (VTable ns) z =
     seq enter (seq (put_size wr TP_TABLE (CountUsed ns)) (seq (serialize_nodes wr ns) leave)) z"
| "serializeObject wr VInstance z = seq enter (\<lambda>z. Raise ''Unsupported class for serialization'') z"
| "serializeObject wr VOther z = Raise ''Unsupported object type for serialization''"
| "serialize_values wr [] z = Done z"
| "serialize_values wr (v # vs) z = seq (serializeObject wr v) (serialize_values wr vs) z"
| "serialize_nodes wr [] z = Done z"
| "serialize_nodes wr (FreeSlot # ns) z = serialize_nodes wr ns z"
| "serialize_nodes wr (Slot k v # ns) z =
     seq (serializeObject wr k) (seq (serializeObject wr v) (serialize_nodes wr ns)) z"

definition serialize :: "'s stream_wr \<Rightarrow> ser_value \<Rightarrow> 's \<Rightarrow> 's sq_res" where
  "serialize wr v s =
     res_bind (seq (put wr [START_MARKER]) (seq (serializeObject wr v) (put wr [END_MARKER])) (new_serializer s))
       (\<lambda>z. Done (sz_stream z))"

subsection \<open>Reading\<close>

text \<open>A \<open>stream->Read\<close> that must return \<open>n\<close> bytes, or \<open>unexpectedEndOfData\<close>.\<close>

definition take_bytes :: "'s stream_rd \<Rightarrow> nat \<Rightarrow> 's serializer \<Rightarrow> (byte list \<times> 's serializer) sq_res" where
  "take_bytes rd n z =
     res_bind (of_opt (rd (int n) (sz_stream z))) (\<lambda>(bs, s).
       if length bs \<noteq> n then Raise ''Unexpected end of data during deserialization'' else Done (bs, z\<lparr>sz_stream := s\<rparr>))"

type_synonym 's ser_read = "'s serializer \<Rightarrow> (ser_value \<times> 's serializer) sq_res"

definition get_integer :: "'s stream_rd \<Rightarrow> int \<Rightarrow> 's ser_read" where
  "get_integer rd v z =
     (if v = 0 then Done (VInt (- 1), z)
      else if v = 1 then Done (VInt 0, z)
      else if v = 2 then Done (VInt 1, z)
      else if v = 3 then Done (VInt 2, z)
      else if v = 4 then res_bind (take_bytes rd 1 z) (\<lambda>(bs, z). Done (VInt (le_signed bs), z))
      else if v = 5 then res_bind (take_bytes rd 2 z) (\<lambda>(bs, z). Done (VInt (le_signed bs), z))
      else if v = 6 then res_bind (take_bytes rd 4 z) (\<lambda>(bs, z). Done (VInt (le_signed bs), z))
      else if v = 7 then res_bind (take_bytes rd 8 z) (\<lambda>(bs, z). Done (VInt (le_signed bs), z))
      else Raise ''Invalid integer type during deserialization'')"

definition get_float :: "'s stream_rd \<Rightarrow> int \<Rightarrow> 's ser_read" where
  "get_float rd v z =
     (if v = 0 then Done (VFloat 0xBF800000, z)
      else if v = 1 then Done (VFloat 0xBF000000, z)
      else if v = 2 then Done (VFloat 0, z)
      else if v = 3 then Done (VFloat 0x3F000000, z)
      else if v = 4 then Done (VFloat 0x3F800000, z)
      else if v = 5 then Done (VFloat 0x40000000, z)
      else if v = 6 then res_bind (take_bytes rd 4 z) (\<lambda>(bs, z). Done (VFloat (word_of_int (le_int bs)), z))
      else if v = 7 then res_bind (take_bytes rd 8 z) (\<lambda>(bs, z). Done (VFloat (double_to_float (word_of_int (le_int bs))), z))
      else Raise ''Invalid float type during deserialization'')"

text \<open>A new string, pushed on the list, or one that was read before.\<close>

definition get_string :: "'s stream_rd \<Rightarrow> int \<Rightarrow> 's ser_read" where
  "get_string rd v z =
     (if v < 4 then
        (if v = 0 then Done (VStr [], z)
         else res_bind (take_bytes rd (if v = 1 then 1 else if v = 2 then 2 else 4) z) (\<lambda>(bs, z).
           let len = nat (le_int bs) in
           if len \<ge> SQ_DESER_MAX_OBJECT_SIZE then Raise ''String too large during deserialization''
           else res_bind (take_bytes rd len z) (\<lambda>(str, z).
             Done (VStr str, z\<lparr>sz_stringList := sz_stringList z @ [str]\<rparr>))))
      else if v = 4 \<or> v = 5 \<or> v = 6 then
        res_bind (take_bytes rd (if v = 4 then 1 else if v = 5 then 2 else 4) z) (\<lambda>(bs, z).
          let index = nat (le_int bs) in
          if index \<ge> length (sz_stringList z) then Raise ''String index out of bounds during deserialization''
          else Done (VStr (sz_stringList z ! index), z))
      else Raise ''Invalid string type during deserialization'')"

text \<open>The size of an array or a table after its tag, with the two error messages.\<close>

definition get_size :: "'s stream_rd \<Rightarrow> string \<Rightarrow> string \<Rightarrow> int \<Rightarrow> 's serializer \<Rightarrow> (nat \<times> 's serializer) sq_res" where
  "get_size rd large invalid v z =
     (if v = 0 then Done (0, z)
      else if v = 1 \<or> v = 2 then
        res_bind (take_bytes rd (if v = 1 then 1 else 4) z) (\<lambda>(bs, z).
          let n = nat (le_int bs) in
          if n \<ge> SQ_DESER_MAX_OBJECT_SIZE then Raise large else Done (n, z))
      else Raise invalid)"

text \<open>The loop over the elements of an array; \<open>sq_rawset\<close> stores element \<open>i\<close> at index \<open>i\<close>.\<close>

fun get_values :: "'s ser_read \<Rightarrow> nat \<Rightarrow> 's serializer \<Rightarrow> (ser_value list \<times> 's serializer) sq_res" where
  "get_values rec 0 z = Done ([], z)"
| "get_values rec (Suc n) z =
     res_bind (rec z) (\<lambda>(v, z). res_bind (get_values rec n z) (\<lambda>(vs, z). Done (v # vs, z)))"

text \<open>
  \<open>sq_rawset\<close> on a table is \<open>SQTable::NewSlot\<close>: keys are compared by type and payload, that is
  by value except for new arrays and tables, which differ from every other key. The order
  of the bindings stands for whatever order the node array gives them.
\<close>

definition by_value :: "ser_value \<Rightarrow> bool" where
  "by_value k = (case k of VArray _ \<Rightarrow> False | VTable _ \<Rightarrow> False | VInstance \<Rightarrow> False | VOther \<Rightarrow> False | _ \<Rightarrow> True)"

fun rawset_slot :: "ser_value \<Rightarrow> ser_value \<Rightarrow> ser_slot list \<Rightarrow> ser_slot list" where
  "rawset_slot k v [] = [Slot k v]"
| "rawset_slot k v (FreeSlot # ns) = FreeSlot # rawset_slot k v ns"
| "rawset_slot k v (Slot k' v' # ns) =
     (if by_value k \<and> k' = k then Slot k' v # ns else Slot k' v' # rawset_slot k v ns)"

fun get_slots :: "'s ser_read \<Rightarrow> 's ser_read \<Rightarrow> nat \<Rightarrow> ser_slot list \<Rightarrow> 's serializer \<Rightarrow> (ser_slot list \<times> 's serializer) sq_res" where
  "get_slots key val 0 ns z = Done (ns, z)"
| "get_slots key val (Suc n) ns z =
     res_bind (key z) (\<lambda>(k, z). res_bind (val z) (\<lambda>(v, z). get_slots key val n (rawset_slot k v ns) z))"

definition get_instance :: "'s stream_rd \<Rightarrow> int \<Rightarrow> 's ser_read" where
  "get_instance rd v z =
     (if v = 15 then
        res_bind (take_bytes rd 1 z) (\<lambda>(bs, z).
          res_bind (take_bytes rd (nat (le_int bs)) z) (\<lambda>(name, z).
            Raise ''Instance found during deserialization, but available classes not set or not a table''))
      else res_bind (take_bytes rd 1 z) (\<lambda>(bs, z). Raise ''Class index out of bounds during deserialization''))"

text \<open>
  Values are pushed on the VM stack, whose growth is not checked (\<open>SQVM::Push\<close>): \<open>room\<close> is the
  number of slots above the top, and a push without room writes behind the stack. A native function
  is entered with \<open>STACK_GROW_THRESHOLD\<close> slots of room (\<open>EnterFrame\<close>), within a metamethod with
  at least \<open>MIN_STACK_OVERHEAD\<close>.
\<close>

definition STACK_GROW_THRESHOLD :: nat where "STACK_GROW_THRESHOLD = 512"
definition MIN_STACK_OVERHEAD :: nat where "MIN_STACK_OVERHEAD = 15"

definition pushed :: "nat \<Rightarrow> ('s serializer \<Rightarrow> ('x \<times> 's serializer) sq_res) \<Rightarrow> 's serializer \<Rightarrow> ('x \<times> 's serializer) sq_res" where
  "pushed room r z = res_bind (r z) (\<lambda>x. if room = 0 then Stuck else Done x)"

text \<open>
  The \<open>switch\<close> on the tag byte. \<open>rec\<close> is the recursive call with one value more on the stack (the
  table, while its key is read) and \<open>rec2\<close> the one with two (the array and the index, or the table and the key).
\<close>

definition deser_switch :: "nat \<Rightarrow> 's ser_read \<Rightarrow> 's ser_read \<Rightarrow> 's stream_rd \<Rightarrow> byte \<Rightarrow> 's ser_read" where
  "deser_switch room rec rec2 rd t z =
     (let v = uint (t AND 0x0F); tp = t AND 0xF0 in
      if tp = TP_NULL then pushed room (\<lambda>z. Done (VNull, z)) z
      else if tp = TP_BOOL then pushed room (\<lambda>z. Done (VBool (v \<noteq> 0), z)) z
      else if tp = TP_INTEGER then pushed room (get_integer rd v) z
      else if tp = TP_FLOAT then pushed room (get_float rd v) z
      else if tp = TP_STRING then pushed room (get_string rd v) z
      else if tp = TP_ARRAY then
        res_bind (pushed room (get_size rd ''Array too large during deserialization'' ''Invalid array type during deserialization'' v) z)
          (\<lambda>(n, z). res_bind (get_values rec2 n z) (\<lambda>(vs, z). Done (VArray vs, z)))
      else if tp = TP_TABLE then
        res_bind (pushed room (get_size rd ''Table too large during deserialization'' ''Invalid table type during deserialization'' v) z)
          (\<lambda>(n, z). res_bind (get_slots rec rec2 n [] z) (\<lambda>(ns, z). Done (VTable ns, z)))
      else if tp = TP_INSTANCE then get_instance rd v z
      else Raise ''Unsupported object type during deserialization'')"

fun deserializeObject :: "nat \<Rightarrow> 's stream_rd \<Rightarrow> 's ser_read" where
  "deserializeObject room rd z =
     res_bind (take_bytes rd 1 z) (\<lambda>(bs, z).
       deser_switch room (\<lambda>z. if 1 \<le> room then deserializeObject (room - 1) rd z else Stuck)
         (\<lambda>z. if 2 \<le> room then deserializeObject (room - 2) rd z else Stuck) rd (hd bs) z)"

declare deserializeObject.simps [simp del]

definition deserialize :: "nat \<Rightarrow> 's stream_rd \<Rightarrow> 's \<Rightarrow> (ser_value \<times> 's) sq_res" where
  "deserialize room rd s =
     res_bind (take_bytes rd 1 (new_serializer s)) (\<lambda>(bs, z).
       if hd bs \<noteq> START_MARKER then Raise ''Invalid start marker during deserialization''
       else res_bind (deserializeObject room rd z) (\<lambda>(v, z).
         res_bind (take_bytes rd 1 z) (\<lambda>(bs, z).
           if hd bs \<noteq> END_MARKER then Raise ''Invalid end marker during deserialization'' else Done (v, sz_stream z))))"

end
