(* ===== verification/SqSerialProps.thy ===== *)
theory SqSerialProps
  imports SqSerial SqBlobProps
begin

text \<open>
  Serialization round trip over any seekable stream, by induction on the value: writing
  appends bytes that reading consumes exactly, and the writer's string table corresponds to
  the reader's string list. \<open>reads_as d\<close> counts the slots of the VM stack that the reader needs.
\<close>

subsection \<open>What comes back\<close>

text \<open>Negative zero loses its sign, free slots vanish and bindings are inserted in order.\<close>

fun canon :: "ser_value \<Rightarrow> ser_value"
  and canon_nodes :: "ser_slot list \<Rightarrow> ser_slot list \<Rightarrow> ser_slot list" where
  "canon (VFloat f) = VFloat (if f = 0x80000000 then 0 else f)"
| "canon (VArray vs) = VArray (map canon vs)"
| "canon (VTable ns) = VTable (canon_nodes ns [])"
| "canon VNull = VNull"
| "canon (VBool b) = VBool b"
| "canon (VInt i) = VInt i"
| "canon (VStr s) = VStr s"
| "canon VInstance = VInstance"
| "canon VOther = VOther"
| "canon_nodes [] acc = acc"
| "canon_nodes (FreeSlot # ns) acc = canon_nodes ns acc"
| "canon_nodes (Slot k v # ns) acc = canon_nodes ns (rawset_slot (canon k) (canon v) acc)"

text \<open>Values that can be written at depth \<open>d\<close> and whose parts are small enough to be read.\<close>

fun portable :: "nat \<Rightarrow> ser_value \<Rightarrow> bool"
  and portable_nodes :: "nat \<Rightarrow> ser_slot list \<Rightarrow> bool" where
  "portable d (VArray vs) \<longleftrightarrow> d < MAX_DEPTH \<and> length vs < SQ_DESER_MAX_OBJECT_SIZE \<and> (\<forall>v \<in> set vs. portable (d + 1) v)"
| "portable d (VTable ns) \<longleftrightarrow> d < MAX_DEPTH \<and> CountUsed ns < SQ_DESER_MAX_OBJECT_SIZE \<and> portable_nodes (d + 1) ns"
| "portable d (VStr s) \<longleftrightarrow> length s < SQ_DESER_MAX_OBJECT_SIZE"
| "portable d VInstance \<longleftrightarrow> False"
| "portable d VOther \<longleftrightarrow> False"
| "portable d v \<longleftrightarrow> True"
| "portable_nodes d [] \<longleftrightarrow> True"
| "portable_nodes d (FreeSlot # ns) \<longleftrightarrow> portable_nodes d ns"
| "portable_nodes d (Slot k v # ns) \<longleftrightarrow> portable d k \<and> portable d v \<and> portable_nodes d ns"

text \<open>The number of strings in a value.\<close>

fun strings :: "ser_value \<Rightarrow> nat"
  and strings_nodes :: "ser_slot list \<Rightarrow> nat" where
  "strings (VStr s) = 1"
| "strings (VArray vs) = sum_list (map strings vs)"
| "strings (VTable ns) = strings_nodes ns"
| "strings _ = 0"
| "strings_nodes [] = 0"
| "strings_nodes (FreeSlot # ns) = strings_nodes ns"
| "strings_nodes (Slot k v # ns) = strings k + strings v + strings_nodes ns"

text \<open>The writer's table and counter agree with the reader's list.\<close>

definition strings_match :: "'s serializer \<Rightarrow> byte list list \<Rightarrow> bool" where
  "strings_match z lst \<longleftrightarrow> unat (sz_stringCounter z) = length lst \<and>
     (\<forall>s i. sz_stringTable z s = Some i \<longrightarrow> unat i < length lst \<and> lst ! unat i = s)"

subsection \<open>Tags\<close>

lemmas TP_defs = TP_NULL_def TP_BOOL_def TP_INTEGER_def TP_FLOAT_def TP_STRING_def TP_ARRAY_def TP_TABLE_def TP_INSTANCE_def

lemma tag_parts:
  assumes "0 \<le> v" "v < 16" "tp \<in> {TP_NULL, TP_BOOL, TP_INTEGER, TP_FLOAT, TP_STRING, TP_ARRAY, TP_TABLE, TP_INSTANCE}"
  shows "uint ((tp OR word_of_int v) AND 0x0F :: byte) = v" "(tp OR word_of_int v) AND 0xF0 = tp"
proof -
  have v: "v \<in> {0, 1, 2, 3, 4, 5, 6, 7, 8, 9, 10, 11, 12, 13, 14, 15}" using assms(1,2) by (simp, arith)
  have "uint ((tp OR word_of_int v) AND 0x0F :: byte) = v \<and> (tp OR word_of_int v) AND 0xF0 = tp"
    using v assms(3) by (elim insertE emptyE) (simp_all add: TP_defs)
  then show "uint ((tp OR word_of_int v) AND 0x0F :: byte) = v" "(tp OR word_of_int v) AND 0xF0 = tp" by auto
qed

lemma tags_differ: "distinct [TP_NULL, TP_BOOL, TP_INTEGER, TP_FLOAT, TP_STRING, TP_ARRAY, TP_TABLE, TP_INSTANCE]"
  "distinct [TP_INSTANCE, TP_TABLE, TP_ARRAY, TP_STRING, TP_FLOAT, TP_INTEGER, TP_BOOL, TP_NULL]"
  by (simp_all add: TP_defs)

lemma put_integer_field:
  assumes "\<not> (- 1 \<le> sint i \<and> sint i \<le> 2)"
  shows "\<exists>v n. (v, n) \<in> {(4, 1), (5, 2), (6, 4), (7, 8)} \<and> - (2 ^ (8 * n - 1)) \<le> sint i \<and> sint i < 2 ^ (8 * n - 1) \<and>
    put_integer wr i = seq (put wr [TP_INTEGER OR word_of_int v]) (put wr (le_bytes n (sint i)))"
proof -
  let ?P = "\<lambda>v n. (v, n) \<in> {(4, 1), (5, 2), (6, 4), (7, 8)} \<and> - (2 ^ (8 * n - 1)) \<le> sint i \<and> sint i < 2 ^ (8 * n - 1) \<and>
    put_integer wr i = seq (put wr [TP_INTEGER OR word_of_int v]) (put wr (le_bytes n (sint i)))"
  have range: "- (2 ^ 63) \<le> sint i" "sint i < 2 ^ 63" using sint_range_size [of i] by (simp_all add: word_size)
  consider "sint i \<ge> - 128 \<and> sint i \<le> 127" | "\<not> (sint i \<ge> - 128 \<and> sint i \<le> 127)" "sint i \<ge> - 32768 \<and> sint i \<le> 32767"
    | "\<not> (sint i \<ge> - 32768 \<and> sint i \<le> 32767)" "sint i \<ge> - 2147483648 \<and> sint i \<le> 2147483647"
    | "\<not> (sint i \<ge> - 2147483648 \<and> sint i \<le> 2147483647)" by blast
  then have "?P 4 1 \<or> ?P 5 2 \<or> ?P 6 4 \<or> ?P 7 8"
  proof cases
    case 1
    then have "?P 4 1" using assms by (auto simp: put_integer_def Let_def simp del: le_bytes.simps One_nat_def)
    then show ?thesis by blast
  next
    case 2
    then have "?P 5 2" using assms by (auto simp: put_integer_def Let_def)
    then show ?thesis by blast
  next
    case 3
    then have "?P 6 4" using assms by (auto simp: put_integer_def Let_def)
    then show ?thesis by blast
  next
    case 4
    then have "?P 7 8" using assms range by (auto simp: put_integer_def Let_def)
    then show ?thesis by blast
  qed
  then show ?thesis by blast
qed

lemma switch:
  assumes "0 \<le> v" "v < 16"
  shows "deser_switch room rec rec2 rd (TP_NULL OR word_of_int v) = pushed room (\<lambda>z. Done (VNull, z))"
    "deser_switch room rec rec2 rd (TP_BOOL OR word_of_int v) = pushed room (\<lambda>z. Done (VBool (v \<noteq> 0), z))"
    "deser_switch room rec rec2 rd (TP_INTEGER OR word_of_int v) = pushed room (get_integer rd v)"
    "deser_switch room rec rec2 rd (TP_FLOAT OR word_of_int v) = pushed room (get_float rd v)"
    "deser_switch room rec rec2 rd (TP_STRING OR word_of_int v) = pushed room (get_string rd v)"
    "deser_switch room rec rec2 rd (TP_ARRAY OR word_of_int v) = (\<lambda>z.
        res_bind (pushed room (get_size rd ''Array too large during deserialization'' ''Invalid array type during deserialization'' v) z)
          (\<lambda>(n, z). res_bind (get_values rec2 n z) (\<lambda>(vs, z). Done (VArray vs, z))))"
    "deser_switch room rec rec2 rd (TP_TABLE OR word_of_int v) = (\<lambda>z.
        res_bind (pushed room (get_size rd ''Table too large during deserialization'' ''Invalid table type during deserialization'' v) z)
          (\<lambda>(n, z). res_bind (get_slots rec rec2 n [] z) (\<lambda>(ns, z). Done (VTable ns, z))))"
  using tags_differ unfolding deser_switch_def Let_def fun_eq_iff
  by (simp_all add: tag_parts [OF assms])

lemma pushed_room [simp]: "0 < room \<Longrightarrow> pushed room r = r"
  by (rule ext, rename_tac z, case_tac "r z") (simp_all add: pushed_def)

text \<open>The recursive call with \<open>k\<close> values more on the stack.\<close>

definition nested :: "nat \<Rightarrow> nat \<Rightarrow> 's stream_rd \<Rightarrow> 's ser_read" where
  "nested k room rd = (\<lambda>z. if k \<le> room then deserializeObject (room - k) rd z else Stuck)"

lemma deserializeObject_nested:
  "deserializeObject room rd z =
     res_bind (take_bytes rd 1 z) (\<lambda>(bs, z). deser_switch room (nested 1 room rd) (nested 2 room rd) rd (hd bs) z)"
  unfolding nested_def by (rule deserializeObject.simps)

lemma nested_room: "k \<le> room \<Longrightarrow> nested k room rd = deserializeObject (room - k) rd"
  by (simp add: nested_def fun_eq_iff)

text \<open>Room that reading needs at depth \<open>d\<close>: a value that is written has at most \<open>MAX_DEPTH\<close> levels.\<close>

definition room_at :: "nat \<Rightarrow> nat" where
  "room_at d = 2 * (MAX_DEPTH - d) + 1"

context sq_stream
begin

subsection \<open>Writing and reading pieces\<close>

definition wok :: "'s serializer \<Rightarrow> bool" where
  "wok z \<longleftrightarrow> ok (sz_stream z) \<and> after (sz_stream z) = []"

text \<open>\<open>emits bs z z'\<close>: \<open>bs\<close> was appended, nothing else of the writer changed.\<close>

definition emits :: "byte list \<Rightarrow> 's serializer \<Rightarrow> 's serializer \<Rightarrow> bool" where
  "emits bs z z' \<longleftrightarrow> wok z' \<and> before (sz_stream z') = before (sz_stream z) @ bs \<and>
     sz_stringTable z' = sz_stringTable z \<and> sz_stringCounter z' = sz_stringCounter z \<and> sz_depth z' = sz_depth z"

lemma put_emits: "wok z \<Longrightarrow> \<exists>z'. put wr bs z = Done z' \<and> emits bs z z'"
proof -
  assume "wok z"
  then obtain s' where "wr bs (sz_stream z) = Some (int (length bs), s')" "appends bs (sz_stream z) s'"
    using write_ok [of "sz_stream z" bs] unfolding wok_def by blast
  then show ?thesis unfolding put_def emits_def wok_def appends_def by simp
qed

lemma emits_wok: "emits bs z z' \<Longrightarrow> wok z'"
  by (simp add: emits_def)

lemma emits_trans: "emits a x y \<Longrightarrow> emits b y z \<Longrightarrow> emits (a @ b) x z"
  by (simp add: emits_def)

lemma seq_emits:
  assumes "\<exists>y. f x = Done y \<and> emits a x y" "\<And>y. wok y \<Longrightarrow> \<exists>z. g y = Done z \<and> emits b y z"
  shows "\<exists>z. seq f g x = Done z \<and> emits (a @ b) x z"
proof -
  obtain y where y: "f x = Done y" "emits a x y" using assms(1) by blast
  obtain z where "g y = Done z" "emits b y z" using assms(2) [OF emits_wok [OF y(2)]] by blast
  then show ?thesis using y emits_trans [OF y(2)] by (simp add: seq_def)
qed

lemma put2_emits: "wok z \<Longrightarrow> \<exists>z'. seq (put wr a) (put wr b) z = Done z' \<and> emits (a @ b) z z'"
  by (rule seq_emits [OF put_emits put_emits])

lemma put3_emits: "wok z \<Longrightarrow> \<exists>z'. seq (put wr a) (seq (put wr b) (put wr c)) z = Done z' \<and> emits (a @ b @ c) z z'"
  by (rule seq_emits [OF put_emits put2_emits])

text \<open>\<open>decodes rd bs lst lst' x\<close>: in front of \<open>bs\<close>, with string list \<open>lst\<close>, the reader returns
  \<open>x\<close>, consumes exactly \<open>bs\<close> and has the list \<open>lst'\<close>.\<close>

definition decodes :: "('s serializer \<Rightarrow> ('x \<times> 's serializer) sq_res) \<Rightarrow> byte list \<Rightarrow> byte list list \<Rightarrow> byte list list \<Rightarrow> 'x \<Rightarrow> bool" where
  "decodes r bs lst lst' x \<longleftrightarrow> (\<forall>y rest. ok (sz_stream y) \<longrightarrow> after (sz_stream y) = bs @ rest \<longrightarrow> sz_stringList y = lst \<longrightarrow>
     (\<exists>y'. r y = Done (x, y') \<and> ok (sz_stream y') \<and> after (sz_stream y') = rest \<and> sz_stringList y' = lst'))"

lemma decodes_take: "length bs = n \<Longrightarrow> decodes (take_bytes rd n) bs lst lst bs"
  using read_exact by (fastforce simp: decodes_def take_bytes_def)

lemma decodes_done: "decodes (\<lambda>z. Done (x, z)) [] lst lst x"
  by (auto simp: decodes_def)

lemma decodes_bind:
  assumes "decodes a bs lst lst1 x" "decodes (f x) bs' lst1 lst2 u"
  shows "decodes (\<lambda>z. res_bind (a z) (\<lambda>(x, z). f x z)) (bs @ bs') lst lst2 u"
  unfolding decodes_def
proof (intro allI impI)
  fix y :: "'s serializer" and rest assume y: "ok (sz_stream y)" "after (sz_stream y) = (bs @ bs') @ rest" "sz_stringList y = lst"
  then obtain y1 where y1: "a y = Done (x, y1)" "ok (sz_stream y1)" "after (sz_stream y1) = bs' @ rest" "sz_stringList y1 = lst1"
    using assms(1) unfolding decodes_def by (metis append_assoc)
  then obtain y2 where "f x y1 = Done (u, y2)" "ok (sz_stream y2)" "after (sz_stream y2) = rest" "sz_stringList y2 = lst2"
    using assms(2) unfolding decodes_def by blast
  with y1 show "\<exists>y'. res_bind (a y) (\<lambda>(x, z). f x z) = Done (u, y') \<and> ok (sz_stream y') \<and> after (sz_stream y') = rest \<and> sz_stringList y' = lst2"
    by simp
qed

lemma decodes_bind_done: "decodes a bs lst lst1 x \<Longrightarrow> decodes (\<lambda>z. res_bind (a z) (\<lambda>(x, z). Done (g x, z))) bs lst lst1 (g x)"
  using decodes_bind [of a bs lst lst1 x "\<lambda>x z. Done (g x, z)" "[]" lst1 "g x", OF _ decodes_done] by simp

subsection \<open>Objects\<close>

definition reads_as :: "nat \<Rightarrow> byte list \<Rightarrow> byte list list \<Rightarrow> byte list list \<Rightarrow> ser_value \<Rightarrow> bool" where
  "reads_as d bs lst lst' v \<longleftrightarrow> (\<forall>room \<ge> d. decodes (deserializeObject room rd) bs lst lst' v)"

lemma reads_as_tag:
  assumes "\<And>room. d \<le> room \<Longrightarrow> decodes (deser_switch room (nested 1 room rd) (nested 2 room rd) rd t) bs lst lst' v"
  shows "reads_as d (t # bs) lst lst' v"
  unfolding reads_as_def
proof (intro allI impI)
  fix room assume room: "d \<le> room"
  have "decodes (\<lambda>z. res_bind (take_bytes rd 1 z) (\<lambda>(bs, z). deser_switch room (nested 1 room rd) (nested 2 room rd) rd (hd bs) z)) ([t] @ bs) lst lst' v"
    by (rule decodes_bind [where x = "[t]"]) (use decodes_take [of "[t]" 1 lst] assms [OF room] in simp_all)
  then show "decodes (deserializeObject room rd) (t # bs) lst lst' v" by (simp add: deserializeObject_nested [abs_def])
qed

lemma reads_as_mono: "reads_as d bs lst lst' v \<Longrightarrow> d \<le> d' \<Longrightarrow> reads_as d' bs lst lst' v"
  by (simp add: reads_as_def)

lemma integer_ok:
  assumes "wok z"
  shows "\<exists>z' bs. put_integer wr i z = Done z' \<and> emits bs z z' \<and> reads_as 1 bs lst lst (VInt i)"
proof -
  have int_field: "\<exists>z'. seq (put wr [TP_INTEGER OR word_of_int v]) (put wr (le_bytes n (sint i))) z = Done z' \<and>
      emits ((TP_INTEGER OR word_of_int v) # le_bytes n (sint i)) z z' \<and>
      reads_as 1 ((TP_INTEGER OR word_of_int v) # le_bytes n (sint i)) lst lst (VInt i)"
    if n: "(v, n) \<in> {(4, 1), (5, 2), (6, 4), (7, 8)}" and fits: "- (2 ^ (8 * n - 1)) \<le> sint i" "sint i < 2 ^ (8 * n - 1)" for v n
  proof -
    have "get_integer rd v = (\<lambda>z. res_bind (take_bytes rd n z) (\<lambda>(bs, z). Done (VInt (le_signed bs), z)))"
      using n by (auto simp: get_integer_def fun_eq_iff)
    moreover have "decodes (\<lambda>z. res_bind (take_bytes rd n z) (\<lambda>(bs, z). Done (VInt (le_signed bs), z))) (le_bytes n (sint i)) lst lst (VInt i)"
      using decodes_bind_done [OF decodes_take [of "le_bytes n (sint i)" n lst], of "\<lambda>bs. VInt (le_signed bs)"]
        le_signed_bytes [OF _ fits] n by auto
    moreover have "0 \<le> v" "v < 16" using n by auto
    ultimately have "reads_as 1 ((TP_INTEGER OR word_of_int v) # le_bytes n (sint i)) lst lst (VInt i)"
      by (intro reads_as_tag) (simp add: switch(3))
    then show ?thesis using put2_emits [OF assms, of "[TP_INTEGER OR word_of_int v]" "le_bytes n (sint i)"] by auto
  qed
  have small: "\<exists>z'. put wr [TP_INTEGER OR word_of_int v] z = Done z' \<and>
      emits [TP_INTEGER OR word_of_int v] z z' \<and> reads_as 1 [TP_INTEGER OR word_of_int v] lst lst (VInt i)"
    if "- 1 \<le> sint i" "sint i \<le> 2" and v: "v = sint i + 1" for v
  proof -
    have r: "0 \<le> v" "v < 16" using that by auto
    have "sint i = - 1 \<or> sint i = 0 \<or> sint i = 1 \<or> sint i = 2" using that by arith
    moreover have "i = word_of_int x" if "sint i = x" for x using that by auto
    ultimately have "i = - 1 \<or> i = 0 \<or> i = 1 \<or> i = 2" by fastforce
    then have "get_integer rd v = (\<lambda>z. Done (VInt i, z))"
      by (auto simp: get_integer_def fun_eq_iff v)
    then have "reads_as 1 [TP_INTEGER OR word_of_int v] lst lst (VInt i)"
      by (intro reads_as_tag) (simp add: switch(3) [OF r] decodes_done)
    then show ?thesis using put_emits [OF assms] by blast
  qed
  show ?thesis
  proof (cases "- 1 \<le> sint i \<and> sint i \<le> 2")
    case True
    then have "put_integer wr i = put wr [TP_INTEGER OR word_of_int (sint i + 1)]"
      by (simp add: put_integer_def)
    with small [OF _ _ refl] True show ?thesis by metis
  next
    case False
    with put_integer_field [OF this] int_field show ?thesis by metis
  qed
qed

lemma float_ok:
  assumes "wok z"
  shows "\<exists>z' bs. put_float wr f z = Done z' \<and> emits bs z z' \<and> reads_as 1 bs lst lst (canon (VFloat f))"
proof -
  have lit: "reads_as 1 [TP_FLOAT OR word_of_int v] lst lst (VFloat g)"
    if "0 \<le> v" "v < 16" "get_float rd v = (\<lambda>z. Done (VFloat g, z))" for v g
    by (rule reads_as_tag) (simp add: switch(4) [OF that(1,2)] that(3) decodes_done)
  have lits: "reads_as 1 [TP_FLOAT OR 0] lst lst (VFloat 0xBF800000)" "reads_as 1 [TP_FLOAT OR 1] lst lst (VFloat 0xBF000000)"
    "reads_as 1 [TP_FLOAT OR 2] lst lst (VFloat 0)" "reads_as 1 [TP_FLOAT OR 3] lst lst (VFloat 0x3F000000)"
    "reads_as 1 [TP_FLOAT OR 4] lst lst (VFloat 0x3F800000)" "reads_as 1 [TP_FLOAT OR 5] lst lst (VFloat 0x40000000)"
    using lit [of 0] lit [of 1] lit [of 2] lit [of 3] lit [of 4] lit [of 5] by (simp_all add: get_float_def fun_eq_iff)
  have bits: "word_of_int (le_int (le_bytes 4 (uint f))) = f"
    using uint_bounded [of f] by (simp add: le_int_bytes)
  have get6: "get_float rd 6 = (\<lambda>z. res_bind (take_bytes rd 4 z) (\<lambda>(bs, z). Done (VFloat (word_of_int (le_int bs)), z)))"
    by (rule ext) (simp add: get_float_def)
  have "reads_as 1 ((TP_FLOAT OR word_of_int 6) # le_bytes 4 (uint f)) lst lst (VFloat f)"
    using decodes_bind_done [OF decodes_take [of "le_bytes 4 (uint f)" 4 lst], of "\<lambda>bs. VFloat (word_of_int (le_int bs))"] bits
    by (intro reads_as_tag) (simp add: switch(4) get6 del: word_of_int_numeral of_int_numeral)
  then have field: "reads_as 1 ([TP_FLOAT OR 6] @ le_bytes 4 (uint f)) lst lst (VFloat f)" by simp
  note e = put_emits [OF assms] and e2 = put2_emits [OF assms, of "[TP_FLOAT OR 6]" "le_bytes 4 (uint f)"]
  show ?thesis
    unfolding put_float_def canon.simps
    by (cases "f = 0xBF800000"; cases "f = 0xBF000000"; cases "f = 0 \<or> f = 0x80000000"; cases "f = 0x3F000000";
        cases "f = 0x3F800000"; cases "f = 0x40000000"; use e e2 lits field in \<open>simp; metis\<close>)
qed

text \<open>Strings: a new one is pushed on both sides, a known one is an index.\<close>

definition written :: "byte list \<Rightarrow> 's serializer \<Rightarrow> 's serializer \<Rightarrow> bool" where
  "written bs z z' \<longleftrightarrow> wok z' \<and> before (sz_stream z') = before (sz_stream z) @ bs \<and> sz_depth z' = sz_depth z"

lemma emits_written: "emits bs z z' \<Longrightarrow> written bs z z'"
  by (simp add: emits_def written_def)

lemma emits_match: "emits bs z z' \<Longrightarrow> strings_match z lst \<Longrightarrow> strings_match z' lst"
  by (simp add: emits_def strings_match_def)

definition push_string :: "nat \<Rightarrow> 's ser_read" where
  "push_string len z = (if len \<ge> SQ_DESER_MAX_OBJECT_SIZE then Raise ''String too large during deserialization''
     else res_bind (take_bytes rd len z) (\<lambda>(str, z). Done (VStr str, z\<lparr>sz_stringList := sz_stringList z @ [str]\<rparr>)))"

definition known_string :: "nat \<Rightarrow> 's ser_read" where
  "known_string index z = (if index \<ge> length (sz_stringList z) then Raise ''String index out of bounds during deserialization''
     else Done (VStr (sz_stringList z ! index), z))"

lemma get_string_cases:
  "(v, n) \<in> {(1, 1), (2, 2), (3, 4)} \<Longrightarrow> get_string rd v = (\<lambda>z. res_bind (take_bytes rd n z) (\<lambda>(bs, z). push_string (nat (le_int bs)) z))"
  "(v, n) \<in> {(4, 1), (5, 2), (6, 4)} \<Longrightarrow> get_string rd v = (\<lambda>z. res_bind (take_bytes rd n z) (\<lambda>(bs, z). known_string (nat (le_int bs)) z))"
  by (auto simp: get_string_def push_string_def known_string_def fun_eq_iff Let_def)

lemma decodes_push:
  assumes "length s < SQ_DESER_MAX_OBJECT_SIZE"
  shows "decodes (push_string (length s)) s lst (lst @ [s]) (VStr s)"
  unfolding decodes_def
proof (intro allI impI)
  fix y :: "'s serializer" and rest assume y: "ok (sz_stream y)" "after (sz_stream y) = s @ rest" "sz_stringList y = lst"
  then obtain y1 where "take_bytes rd (length s) y = Done (s, y1)" "ok (sz_stream y1)" "after (sz_stream y1) = rest" "sz_stringList y1 = lst"
    using decodes_take [of s "length s" lst] unfolding decodes_def by blast
  then show "\<exists>y'. push_string (length s) y = Done (VStr s, y') \<and> ok (sz_stream y') \<and> after (sz_stream y') = rest \<and> sz_stringList y' = lst @ [s]"
    using assms by (simp add: push_string_def)
qed

lemma decodes_known: "i < length lst \<Longrightarrow> lst ! i = s \<Longrightarrow> decodes (known_string i) [] lst lst (VStr s)"
  by (auto simp: decodes_def known_string_def)

lemma new_string_reads:
  assumes "(v, n) \<in> {(1, 1), (2, 2), (3, 4)}" "length s < 256 ^ n" "length s < SQ_DESER_MAX_OBJECT_SIZE"
  shows "reads_as 1 ([TP_STRING OR word_of_int v] @ le_bytes n (int (length s)) @ s) lst (lst @ [s]) (VStr s)"
proof -
  have v: "0 \<le> v" "v < 16" using assms(1) by auto
  have len: "nat (le_int (le_bytes n (int (length s)))) = length s" using assms(2) by (simp add: le_int_of_nat)
  have "decodes (get_string rd v) (le_bytes n (int (length s)) @ s) lst (lst @ [s]) (VStr s)"
    unfolding get_string_cases(1) [OF assms(1)]
    by (rule decodes_bind [OF decodes_take [OF length_le_bytes]]) (unfold len, rule decodes_push [OF assms(3)])
  then show ?thesis by (simp add: reads_as_tag switch(5) [OF v])
qed

lemma known_string_reads:
  assumes "(v, n) \<in> {(4, 1), (5, 2), (6, 4)}" "unat i < 256 ^ n" "unat i < length lst" "lst ! unat i = s"
  shows "reads_as 1 ([TP_STRING OR word_of_int v] @ le_bytes n (uint (i :: u32))) lst lst (VStr s)"
proof -
  have v: "0 \<le> v" "v < 16" using assms(1) by auto
  have "le_int (le_bytes n (uint i)) = int (unat i)" using le_int_of_nat [OF assms(2)] by simp
  then have idx: "nat (le_int (le_bytes n (uint i))) = unat i" by simp
  have "decodes (get_string rd v) (le_bytes n (uint i) @ []) lst lst (VStr s)"
    unfolding get_string_cases(2) [OF assms(1)]
    by (rule decodes_bind [OF decodes_take [OF length_le_bytes]]) (unfold idx, rule decodes_known [OF assms(3,4)])
  then show ?thesis by (simp add: reads_as_tag switch(5) [OF v])
qed

lemma push_match:
  assumes "strings_match z lst" "length lst + 1 < 2 ^ 32"
  shows "strings_match (z\<lparr>sz_stringTable := (sz_stringTable z)(s \<mapsto> sz_stringCounter z), sz_stringCounter := sz_stringCounter z + 1\<rparr>) (lst @ [s])"
proof -
  have c: "unat (sz_stringCounter z) = length lst" using assms(1) by (simp add: strings_match_def)
  then have "unat (sz_stringCounter z + 1) = length lst + 1"
    using assms(2) by (simp add: unat_word_ariths)
  then show ?thesis using assms(1) c by (auto simp: strings_match_def nth_append intro: less_SucI)
qed

text \<open>The shape of what is written for a known and for a new string.\<close>

lemma put_known:
  assumes "s \<noteq> []" "sz_stringTable z s = Some i"
  shows "\<exists>v n. (v, n) \<in> {(4, 1), (5, 2), (6, 4)} \<and> unat i < 256 ^ n \<and>
    put_string wr s z = seq (put wr [TP_STRING OR word_of_int v]) (put wr (le_bytes n (uint i))) z"
proof -
  have "int (unat i) = uint i" by simp
  then have u: "uint i \<le> 255 \<longleftrightarrow> unat i \<le> 255" "uint i \<le> 65535 \<longleftrightarrow> unat i \<le> 65535" by linarith+
  have less: "unat i < 256 ^ 4" using unsigned_less [where 'a = nat, of i] by simp
  let ?P = "\<lambda>v n. put_string wr s z = seq (put wr [TP_STRING OR word_of_int v]) (put wr (le_bytes n (uint i))) z"
  consider "unat i \<le> 255" | "\<not> unat i \<le> 255" "unat i \<le> 65535" | "\<not> unat i \<le> 65535" by blast
  then show ?thesis
  proof cases
    case 1
    then have "?P 4 1" "unat i < 256 ^ 1" using assms by (simp_all add: put_string_def u del: le_bytes.simps)
    then show ?thesis by blast
  next
    case 2
    then have "?P 5 2" "unat i < 256 ^ 2" using assms by (simp_all add: put_string_def u)
    then show ?thesis by blast
  next
    case 3
    then have "?P 6 4" using assms by (simp add: put_string_def u)
    then show ?thesis using less by blast
  qed
qed

lemma put_fresh:
  assumes "s \<noteq> []" "sz_stringTable z s = None" "length s < SQ_DESER_MAX_OBJECT_SIZE"
  shows "\<exists>v n. (v, n) \<in> {(1, 1), (2, 2), (3, 4)} \<and> length s < 256 ^ n \<and>
    put_string wr s z = res_bind (seq (put wr [TP_STRING OR word_of_int v]) (seq (put wr (le_bytes n (int (length s)))) (put wr s)) z)
      (\<lambda>z. Done (z\<lparr>sz_stringTable := (sz_stringTable z)(s \<mapsto> sz_stringCounter z), sz_stringCounter := sz_stringCounter z + 1\<rparr>))"
proof -
  have len: "length s < 256 ^ 4" using assms(3) by (simp add: SQ_DESER_MAX_OBJECT_SIZE_def)
  consider "length s \<le> 255" | "\<not> length s \<le> 255" "length s \<le> 65535" | "\<not> length s \<le> 65535" by blast
  then show ?thesis
  proof cases
    case 1
    then show ?thesis using assms by (intro exI [of _ 1] exI [of _ 1]) (auto simp: put_string_def)
  next
    case 2
    then show ?thesis using assms by (intro exI [of _ 2] exI [of _ 2]) (auto simp: put_string_def)
  next
    case 3
    then show ?thesis using assms len by (intro exI [of _ 3] exI [of _ 4]) (auto simp: put_string_def)
  qed
qed

text \<open>\<open>obj_law v\<close>: writing \<open>v\<close> succeeds and what it writes reads back as \<open>canon v\<close>.\<close>

definition obj_law :: "ser_value \<Rightarrow> bool" where
  "obj_law v \<longleftrightarrow> (\<forall>z lst. wok z \<longrightarrow> strings_match z lst \<longrightarrow> length lst + strings v < 2 ^ 32 \<longrightarrow> portable (sz_depth z) v \<longrightarrow>
     (\<exists>z' bs lst'. serializeObject wr v z = Done z' \<and> written bs z z' \<and> strings_match z' lst' \<and>
        length lst' \<le> length lst + strings v \<and> reads_as (room_at (sz_depth z)) bs lst lst' (canon v)))"

lemma room_mono: "reads_as 1 bs lst lst' v \<Longrightarrow> reads_as (room_at d) bs lst lst' v"
  by (erule reads_as_mono) (simp add: room_at_def)

lemma leaf_law:
  assumes "\<And>z lst. wok z \<Longrightarrow> \<exists>z' bs. serializeObject wr v z = Done z' \<and> emits bs z z' \<and> reads_as 1 bs lst lst (canon v)"
  shows "obj_law v"
  unfolding obj_law_def
proof (intro allI impI)
  fix z lst assume "wok z" "strings_match z lst"
  then obtain z' bs where "serializeObject wr v z = Done z'" "emits bs z z'" "reads_as 1 bs lst lst (canon v)" using assms by blast
  then show "\<exists>z' bs lst'. serializeObject wr v z = Done z' \<and> written bs z z' \<and> strings_match z' lst' \<and>
      length lst' \<le> length lst + strings v \<and> reads_as (room_at (sz_depth z)) bs lst lst' (canon v)"
    using emits_written emits_match \<open>strings_match z lst\<close> room_mono
    by (intro exI [of _ z'] exI [of _ bs] exI [of _ lst]) auto
qed

lemma tag_reads:
  assumes "0 \<le> v" "v < 16" "\<And>rec rec2 room. 1 \<le> room \<Longrightarrow> deser_switch room rec rec2 rd (tp OR word_of_int v) = r" "decodes r bs lst lst' x"
  shows "reads_as 1 ((tp OR word_of_int v) # bs) lst lst' x"
  by (rule reads_as_tag) (use assms(3,4) in simp)

lemma null_law: "obj_law VNull"
proof (rule leaf_law)
  fix z lst assume "wok z"
  then obtain z' where "put wr [TP_NULL OR 1] z = Done z'" "emits [TP_NULL OR 1] z z'" using put_emits by blast
  moreover have "reads_as 1 [TP_NULL OR word_of_int 1] lst lst VNull"
    by (rule tag_reads [OF _ _ _ decodes_done]) (simp_all add: switch(1) [of 1, simplified])
  ultimately show "\<exists>z' bs. serializeObject wr VNull z = Done z' \<and> emits bs z z' \<and> reads_as 1 bs lst lst (canon VNull)" by auto
qed

lemma bool_law: "obj_law (VBool b)"
proof (rule leaf_law)
  fix z lst assume "wok z"
  let ?v = "if b then 1 else 0 :: int"
  obtain z' where "put wr [TP_BOOL OR word_of_int ?v] z = Done z'" "emits [TP_BOOL OR word_of_int ?v] z z'"
    using put_emits [OF \<open>wok z\<close>] by blast
  moreover have "reads_as 1 [TP_BOOL OR word_of_int ?v] lst lst (VBool (?v \<noteq> 0))" by (rule tag_reads [OF _ _ _ decodes_done]) (simp_all add: switch(2))
  ultimately show "\<exists>z' bs. serializeObject wr (VBool b) z = Done z' \<and> emits bs z z' \<and> reads_as 1 bs lst lst (canon (VBool b))" by auto
qed

lemma integer_law: "obj_law (VInt i)"
  by (rule leaf_law) (use integer_ok in auto)

lemma float_law: "obj_law (VFloat f)"
  by (rule leaf_law) (use float_ok in auto)

lemma empty_string_law: "obj_law (VStr [])"
proof (rule leaf_law)
  fix z lst assume "wok z"
  then obtain z' where "put wr [TP_STRING OR 0] z = Done z'" "emits [TP_STRING OR 0] z z'" using put_emits by blast
  moreover have e: "get_string rd 0 = (\<lambda>z. Done (VStr [], z))" by (simp add: get_string_def fun_eq_iff)
  have "reads_as 1 [TP_STRING OR word_of_int 0] lst lst (VStr [])" by (rule tag_reads [OF _ _ _ decodes_done]) (simp_all add: switch(5) [of 0, simplified] e)
  ultimately show "\<exists>z' bs. serializeObject wr (VStr []) z = Done z' \<and> emits bs z z' \<and> reads_as 1 bs lst lst (canon (VStr []))"
    by (auto simp: put_string_def)
qed

lemma string_law: "obj_law (VStr s)"
proof (cases "s = []")
  case True
  then show ?thesis using empty_string_law by simp
next
  case False
  show ?thesis
    unfolding obj_law_def
  proof (intro allI impI)
    fix z lst assume z: "wok z" "strings_match z lst" "length lst + strings (VStr s) < 2 ^ 32" "portable (sz_depth z) (VStr s)"
    show "\<exists>z' bs lst'. serializeObject wr (VStr s) z = Done z' \<and> written bs z z' \<and> strings_match z' lst' \<and>
      length lst' \<le> length lst + strings (VStr s) \<and> reads_as (room_at (sz_depth z)) bs lst lst' (canon (VStr s))"
    proof (cases "sz_stringTable z s")
      case (Some i)
      have i: "unat i < length lst" "lst ! unat i = s" using z(2) Some by (auto simp: strings_match_def)
      obtain v n where v: "(v, n) \<in> {(4, 1), (5, 2), (6, 4)}" "unat i < 256 ^ n"
        "put_string wr s z = seq (put wr [TP_STRING OR word_of_int v]) (put wr (le_bytes n (uint i))) z" using put_known [OF False Some] by blast
      obtain z' where z': "put_string wr s z = Done z'" "emits ([TP_STRING OR word_of_int v] @ le_bytes n (uint i)) z z'"
        using put2_emits [OF z(1)] v(3) by metis
      then show ?thesis
        using room_mono [OF known_string_reads [OF v(1,2) i]] emits_match [OF z'(2) z(2)] emits_written [OF z'(2)]
        by (intro exI [of _ z'] exI [of _ "[TP_STRING OR word_of_int v] @ le_bytes n (uint i)"] exI [of _ lst]) simp
    next
      case None
      let ?push = "\<lambda>z. z\<lparr>sz_stringTable := (sz_stringTable z)(s \<mapsto> sz_stringCounter z), sz_stringCounter := sz_stringCounter z + 1\<rparr>"
      have len: "length s < SQ_DESER_MAX_OBJECT_SIZE" using z(4) by simp
      obtain v n where v: "(v, n) \<in> {(1, 1), (2, 2), (3, 4)}" "length s < 256 ^ n"
        "put_string wr s z = res_bind (seq (put wr [TP_STRING OR word_of_int v]) (seq (put wr (le_bytes n (int (length s)))) (put wr s)) z) (\<lambda>z. Done (?push z))"
        using put_fresh [OF False None len] by blast
      let ?bs = "[TP_STRING OR word_of_int v] @ le_bytes n (int (length s)) @ s"
      obtain z' where z': "seq (put wr [TP_STRING OR word_of_int v]) (seq (put wr (le_bytes n (int (length s)))) (put wr s)) z = Done z'"
        "emits ?bs z z'"
        using put3_emits [OF z(1)] by blast
      have "strings_match (?push z') (lst @ [s])" by (rule push_match [OF emits_match [OF z'(2) z(2)]]) (use z(3) in simp)
      moreover have "written ?bs z (?push z')" using z'(2) by (simp add: emits_def written_def wok_def)
      ultimately show ?thesis
        using room_mono [OF new_string_reads [OF v(1,2) len]] v(3) z'(1)
        by (intro exI [of _ "?push z'"] exI [of _ ?bs] exI [of _ "lst @ [s]"]) simp
    qed
  qed
qed

subsection \<open>Arrays and tables\<close>

definition values_law :: "ser_value list \<Rightarrow> bool" where
  "values_law vs \<longleftrightarrow> (\<forall>z lst. wok z \<longrightarrow> strings_match z lst \<longrightarrow> length lst + sum_list (map strings vs) < 2 ^ 32 \<longrightarrow>
     (\<forall>v \<in> set vs. portable (sz_depth z) v) \<longrightarrow>
     (\<exists>z' bs lst'. serialize_values wr vs z = Done z' \<and> written bs z z' \<and> strings_match z' lst' \<and>
        length lst' \<le> length lst + sum_list (map strings vs) \<and>
        (\<forall>r \<ge> room_at (sz_depth z). decodes (get_values (deserializeObject r rd) (length vs)) bs lst lst' (map canon vs))))"

definition nodes_law :: "ser_slot list \<Rightarrow> bool" where
  "nodes_law ns \<longleftrightarrow> (\<forall>z lst. wok z \<longrightarrow> strings_match z lst \<longrightarrow> length lst + strings_nodes ns < 2 ^ 32 \<longrightarrow>
     portable_nodes (sz_depth z) ns \<longrightarrow>
     (\<exists>z' bs lst'. serialize_nodes wr ns z = Done z' \<and> written bs z z' \<and> strings_match z' lst' \<and>
        length lst' \<le> length lst + strings_nodes ns \<and>
        (\<forall>r \<ge> room_at (sz_depth z). \<forall>q \<ge> room_at (sz_depth z). \<forall>acc.
           decodes (get_slots (deserializeObject q rd) (deserializeObject r rd) (CountUsed ns) acc) bs lst lst' (canon_nodes ns acc))))"

lemma written_refl: "wok z \<Longrightarrow> written [] z z"
  by (simp add: written_def)

lemma written_trans: "written a x y \<Longrightarrow> written b y z \<Longrightarrow> written (a @ b) x z"
  by (simp add: written_def)

lemma written_wok: "written a x y \<Longrightarrow> wok y"
  by (simp add: written_def)

lemma written_depth: "written a x y \<Longrightarrow> sz_depth y = sz_depth x"
  by (simp add: written_def)

lemma reads_as_room: "reads_as d bs lst lst' v \<Longrightarrow> d \<le> room \<Longrightarrow> decodes (deserializeObject room rd) bs lst lst' v"
  by (simp add: reads_as_def)

lemma values_Nil: "values_law []"
  unfolding values_law_def
proof (intro allI impI)
  fix z :: "'s serializer" and lst assume "wok z" "strings_match z lst"
  then show "\<exists>z' bs lst'. serialize_values wr [] z = Done z' \<and> written bs z z' \<and> strings_match z' lst' \<and>
      length lst' \<le> length lst + sum_list (map strings []) \<and>
      (\<forall>r \<ge> room_at (sz_depth z). decodes (get_values (deserializeObject r rd) (length [])) bs lst lst' (map canon []))"
    by (intro exI [of _ z] exI [of _ "[]"] exI [of _ lst]) (auto simp: written_refl decodes_def)
qed

lemma decodes_values_Cons:
  assumes "decodes r b1 lst l1 x" "decodes (get_values r n) b2 l1 l2 xs"
  shows "decodes (get_values r (Suc n)) (b1 @ b2) lst l2 (x # xs)"
proof -
  have "decodes (\<lambda>z. res_bind (r z) (\<lambda>(v, z). res_bind (get_values r n z) (\<lambda>(vs, z). Done (v # vs, z)))) (b1 @ b2) lst l2 (x # xs)"
    using assms(1) decodes_bind_done [OF assms(2), of "\<lambda>vs. x # vs"]
    by (rule decodes_bind [where f = "\<lambda>v z. res_bind (get_values r n z) (\<lambda>(vs, z). Done (v # vs, z))"])
  moreover have "get_values r (Suc n) = (\<lambda>z. res_bind (r z) (\<lambda>(v, z). res_bind (get_values r n z) (\<lambda>(vs, z). Done (v # vs, z))))"
    by (rule ext) simp
  ultimately show ?thesis by simp
qed

lemma decodes_slots_Cons:
  assumes "decodes q b1 lst l1 k" "decodes r b2 l1 l2 v" "decodes (get_slots q r n (rawset_slot k v acc)) b3 l2 l3 ns"
  shows "decodes (get_slots q r (Suc n) acc) (b1 @ b2 @ b3) lst l3 ns"
proof -
  have "decodes (\<lambda>z. res_bind (r z) (\<lambda>(v, z). get_slots q r n (rawset_slot k v acc) z)) (b2 @ b3) l1 l3 ns"
    using assms(2,3) by (rule decodes_bind)
  then have "decodes (\<lambda>z. res_bind (q z) (\<lambda>(k, z). res_bind (r z) (\<lambda>(v, z). get_slots q r n (rawset_slot k v acc) z))) (b1 @ b2 @ b3) lst l3 ns"
    by (rule decodes_bind [OF assms(1), where f = "\<lambda>k z. res_bind (r z) (\<lambda>(v, z). get_slots q r n (rawset_slot k v acc) z)"])
  moreover have "get_slots q r (Suc n) acc = (\<lambda>z. res_bind (q z) (\<lambda>(k, z). res_bind (r z) (\<lambda>(v, z). get_slots q r n (rawset_slot k v acc) z)))"
    by (rule ext) simp
  ultimately show ?thesis by simp
qed

lemma values_Cons:
  assumes "obj_law v" "values_law vs"
  shows "values_law (v # vs)"
  unfolding values_law_def
proof (intro allI impI)
  fix z :: "'s serializer" and lst assume z: "wok z" "strings_match z lst" "length lst + sum_list (map strings (v # vs)) < 2 ^ 32"
    "\<forall>v \<in> set (v # vs). portable (sz_depth z) v"
  obtain z1 b1 l1 where 1: "serializeObject wr v z = Done z1" "written b1 z z1" "strings_match z1 l1"
    "length l1 \<le> length lst + strings v" "reads_as (room_at (sz_depth z)) b1 lst l1 (canon v)"
    using assms(1) z unfolding obj_law_def by fastforce
  have "length l1 + sum_list (map strings vs) < 2 ^ 32" using 1(4) z(3) by simp
  moreover have "\<forall>v \<in> set vs. portable (sz_depth z1) v" using z(4) written_depth [OF 1(2)] by simp
  ultimately obtain z2 b2 l2 where 2: "serialize_values wr vs z1 = Done z2" "written b2 z1 z2" "strings_match z2 l2"
    "length l2 \<le> length l1 + sum_list (map strings vs)"
    "\<forall>r \<ge> room_at (sz_depth z1). decodes (get_values (deserializeObject r rd) (length vs)) b2 l1 l2 (map canon vs)"
    using assms(2) written_wok [OF 1(2)] 1(3) unfolding values_law_def by blast
  have "\<forall>r \<ge> room_at (sz_depth z). decodes (get_values (deserializeObject r rd) (length (v # vs))) (b1 @ b2) lst l2 (map canon (v # vs))"
    using decodes_values_Cons [OF reads_as_room [OF 1(5)]] 2(5) written_depth [OF 1(2)] by simp
  then show "\<exists>z' bs lst'. serialize_values wr (v # vs) z = Done z' \<and> written bs z z' \<and> strings_match z' lst' \<and>
      length lst' \<le> length lst + sum_list (map strings (v # vs)) \<and>
      (\<forall>r \<ge> room_at (sz_depth z). decodes (get_values (deserializeObject r rd) (length (v # vs))) bs lst lst' (map canon (v # vs)))"
    using 1 2 written_trans [OF 1(2) 2(2)]
    by (intro exI [of _ z2] exI [of _ "b1 @ b2"] exI [of _ l2]) (simp add: seq_def)
qed

lemma size_ok:
  assumes "wok z" "n < SQ_DESER_MAX_OBJECT_SIZE"
  shows "\<exists>z' v bs. put_size wr tp n z = Done z' \<and> emits ((tp OR word_of_int v) # bs) z z' \<and> 0 \<le> v \<and> v < 16 \<and>
    (\<forall>lst large invalid. decodes (get_size rd large invalid v) bs lst lst n)"
proof -
  have field: "decodes (get_size rd large invalid v) (le_bytes k (int n)) lst lst n"
    if "(v, k) \<in> {(1, 1), (2, 4)}" "n < 256 ^ k" for v k lst large invalid
  proof -
    have "get_size rd large invalid v = (\<lambda>z. res_bind (take_bytes rd k z) (\<lambda>(bs, z).
        (\<lambda>n z. if n \<ge> SQ_DESER_MAX_OBJECT_SIZE then Raise large else Done (n, z)) (nat (le_int bs)) z))"
      using that(1) by (auto simp: get_size_def fun_eq_iff Let_def)
    moreover have "nat (le_int (le_bytes k (int n))) = n" using le_int_of_nat [OF that(2)] by simp
    then have "decodes (\<lambda>z. res_bind (take_bytes rd k z) (\<lambda>(bs, z).
        (\<lambda>n z. if n \<ge> SQ_DESER_MAX_OBJECT_SIZE then Raise large else Done (n, z)) (nat (le_int bs)) z)) (le_bytes k (int n) @ []) lst lst n"
      using assms(2) by (intro decodes_bind [OF decodes_take [OF length_le_bytes]]) (simp add: decodes_done)
    ultimately show ?thesis by simp
  qed
  let ?P = "\<lambda>v bs. 0 \<le> v \<and> v < 16 \<and> (\<forall>lst large invalid. decodes (get_size rd large invalid v) bs lst lst n)"
  consider "n = 0" | "n \<noteq> 0" "n \<le> 255" | "\<not> n \<le> 255" by blast
  then show ?thesis
  proof cases
    case 1
    have "?P 0 []" by (simp add: 1 get_size_def decodes_def)
    moreover obtain z' where "put_size wr tp n z = Done z'" "emits ((tp OR word_of_int 0) # []) z z'"
      using put_emits [OF assms(1), of "[tp OR 0]"] 1 by (auto simp: put_size_def)
    ultimately show ?thesis by blast
  next
    case 2
    then have "?P 1 (le_bytes 1 (int n))" using field [of 1 1] by simp
    moreover obtain z' where "put_size wr tp n z = Done z'" "emits ((tp OR word_of_int 1) # le_bytes 1 (int n)) z z'"
      using put2_emits [OF assms(1), of "[tp OR 1]" "le_bytes 1 (int n)"] 2 by (auto simp: put_size_def)
    ultimately show ?thesis by blast
  next
    case 3
    then have "?P 2 (le_bytes 4 (int n))" using field [of 2 4] assms(2) by (simp add: SQ_DESER_MAX_OBJECT_SIZE_def)
    moreover obtain z' where "put_size wr tp n z = Done z'" "emits ((tp OR word_of_int 2) # le_bytes 4 (int n)) z z'"
      using put2_emits [OF assms(1), of "[tp OR 2]" "le_bytes 4 (int n)"] 3 by (auto simp: put_size_def)
    ultimately show ?thesis by blast
  qed
qed

lemma nodes_Nil: "nodes_law []"
  unfolding nodes_law_def
proof (intro allI impI)
  fix z :: "'s serializer" and lst assume "wok z" "strings_match z lst"
  then show "\<exists>z' bs lst'. serialize_nodes wr [] z = Done z' \<and> written bs z z' \<and> strings_match z' lst' \<and>
      length lst' \<le> length lst + strings_nodes [] \<and>
      (\<forall>r \<ge> room_at (sz_depth z). \<forall>q \<ge> room_at (sz_depth z). \<forall>acc. decodes (get_slots (deserializeObject q rd) (deserializeObject r rd) (CountUsed []) acc) bs lst lst' (canon_nodes [] acc))"
    by (intro exI [of _ z] exI [of _ "[]"] exI [of _ lst]) (auto simp: written_refl decodes_def CountUsed_def)
qed

lemma nodes_Free: "nodes_law ns \<Longrightarrow> nodes_law (FreeSlot # ns)"
  by (simp add: nodes_law_def CountUsed_def)

lemma nodes_Slot:
  assumes "obj_law k" "obj_law v" "nodes_law ns"
  shows "nodes_law (Slot k v # ns)"
  unfolding nodes_law_def
proof (intro allI impI)
  fix z :: "'s serializer" and lst assume z: "wok z" "strings_match z lst" "length lst + strings_nodes (Slot k v # ns) < 2 ^ 32"
    "portable_nodes (sz_depth z) (Slot k v # ns)"
  have "length lst + strings k < 2 ^ 32" "portable (sz_depth z) k" using z(3,4) by auto
  then obtain z1 b1 l1 where 1: "serializeObject wr k z = Done z1" "written b1 z z1" "strings_match z1 l1"
    "length l1 \<le> length lst + strings k" "reads_as (room_at (sz_depth z)) b1 lst l1 (canon k)"
    using assms(1) z(1,2) unfolding obj_law_def by blast
  have "length l1 + strings v < 2 ^ 32" "portable (sz_depth z1) v" using z(3,4) 1(4) written_depth [OF 1(2)] by auto
  then obtain z2 b2 l2 where 2: "serializeObject wr v z1 = Done z2" "written b2 z1 z2" "strings_match z2 l2"
    "length l2 \<le> length l1 + strings v" "reads_as (room_at (sz_depth z1)) b2 l1 l2 (canon v)"
    using assms(2) written_wok [OF 1(2)] 1(3) unfolding obj_law_def by blast
  have "length l2 + strings_nodes ns < 2 ^ 32" "portable_nodes (sz_depth z2) ns"
    using z(3,4) 1(4) 2(4) written_depth [OF 1(2)] written_depth [OF 2(2)] by auto
  then obtain z3 b3 l3 where 3: "serialize_nodes wr ns z2 = Done z3" "written b3 z2 z3" "strings_match z3 l3"
    "length l3 \<le> length l2 + strings_nodes ns"
    "\<forall>r \<ge> room_at (sz_depth z2). \<forall>q \<ge> room_at (sz_depth z2). \<forall>acc. decodes (get_slots (deserializeObject q rd) (deserializeObject r rd) (CountUsed ns) acc) b3 l2 l3 (canon_nodes ns acc)"
    using assms(3) written_wok [OF 2(2)] 2(3) unfolding nodes_law_def by blast
  have used: "CountUsed (Slot k v # ns) = Suc (CountUsed ns)" by (simp add: CountUsed_def)
  have "\<forall>r \<ge> room_at (sz_depth z). \<forall>q \<ge> room_at (sz_depth z). \<forall>acc. decodes (get_slots (deserializeObject q rd) (deserializeObject r rd) (CountUsed (Slot k v # ns)) acc)
      (b1 @ b2 @ b3) lst l3 (canon_nodes (Slot k v # ns) acc)"
    unfolding used using decodes_slots_Cons [OF reads_as_room [OF 1(5)] reads_as_room [OF 2(5)]] 3(5) written_depth [OF 1(2)] written_depth [OF 2(2)] by simp
  moreover have "written (b1 @ b2 @ b3) z z3" using written_trans [OF 1(2) written_trans [OF 2(2) 3(2)]] .
  ultimately show "\<exists>z' bs lst'. serialize_nodes wr (Slot k v # ns) z = Done z' \<and> written bs z z' \<and> strings_match z' lst' \<and>
      length lst' \<le> length lst + strings_nodes (Slot k v # ns) \<and>
      (\<forall>r \<ge> room_at (sz_depth z). \<forall>q \<ge> room_at (sz_depth z). \<forall>acc. decodes (get_slots (deserializeObject q rd) (deserializeObject r rd) (CountUsed (Slot k v # ns)) acc) bs lst lst' (canon_nodes (Slot k v # ns) acc))"
    using 1 2 3 by (intro exI [of _ z3] exI [of _ "b1 @ b2 @ b3"] exI [of _ l3]) (simp add: seq_def)
qed

text \<open>The frame of an array or a table: depth, tag, size, contents, depth.\<close>

lemma container_ok:
  assumes z: "wok z" "strings_match z lst" "sz_depth z < MAX_DEPTH" and n: "n < SQ_DESER_MAX_OBJECT_SIZE"
    and body: "\<And>z1. wok z1 \<Longrightarrow> strings_match z1 lst \<Longrightarrow> sz_depth z1 = sz_depth z + 1 \<Longrightarrow>
      \<exists>z2 bs lst'. w z1 = Done z2 \<and> written bs z1 z2 \<and> strings_match z2 lst' \<and> length lst' \<le> m \<and> R bs lst'"
    and read: "\<And>v f bs bs' lst'. 0 \<le> v \<Longrightarrow> v < 16 \<Longrightarrow> (\<And>lst large invalid. decodes (get_size rd large invalid v) bs lst lst n) \<Longrightarrow> R bs' lst' \<Longrightarrow>
      room_at (sz_depth z) \<le> f \<Longrightarrow> decodes (deser_switch f (nested 1 f rd) (nested 2 f rd) rd (tp OR word_of_int v)) (bs @ bs') lst lst' x"
  shows "\<exists>z' bs lst'. seq enter (seq (put_size wr tp n) (seq w leave)) z = Done z' \<and> written bs z z' \<and> strings_match z' lst' \<and>
    length lst' \<le> m \<and> reads_as (room_at (sz_depth z)) bs lst lst' x"
proof -
  let ?z = "z\<lparr>sz_depth := sz_depth z + 1\<rparr>"
  have e: "enter z = Done ?z" using z(3) by (simp add: enter_def)
  have ok: "wok ?z" "strings_match ?z lst" using z by (simp_all add: wok_def strings_match_def)
  obtain z1 v bs where 1: "put_size wr tp n ?z = Done z1" "emits ((tp OR word_of_int v) # bs) ?z z1" "0 \<le> v" "v < 16"
    "\<And>lst large invalid. decodes (get_size rd large invalid v) bs lst lst n"
    using size_ok [OF ok(1) n] by blast
  have "sz_depth z1 = sz_depth z + 1" using 1(2) by (simp add: emits_def)
  then obtain z2 bs' lst' where 2: "w z1 = Done z2" "written bs' z1 z2" "strings_match z2 lst'" "length lst' \<le> m" "R bs' lst'"
    using body [OF emits_wok [OF 1(2)] emits_match [OF 1(2) ok(2)]] by blast
  let ?z' = "z2\<lparr>sz_depth := sz_depth z2 - 1\<rparr>"
  have "seq enter (seq (put_size wr tp n) (seq w leave)) z = Done ?z'"
    using e 1(1) 2(1) by (simp add: seq_def leave_def)
  moreover have "written ((tp OR word_of_int v) # bs @ bs') z ?z'"
    using 1(2) 2(2) by (simp add: written_def emits_def wok_def)
  moreover have "strings_match ?z' lst'" using 2(3) by (simp add: strings_match_def)
  moreover have "reads_as (room_at (sz_depth z)) ((tp OR word_of_int v) # bs @ bs') lst lst' x"
    by (rule reads_as_tag) (use read [OF 1(3,4,5) 2(5)] in auto)
  ultimately show ?thesis using 2(4) by blast
qed

lemma array_law:
  assumes "values_law vs"
  shows "obj_law (VArray vs)"
  unfolding obj_law_def
proof (intro allI impI)
  fix z :: "'s serializer" and lst assume z: "wok z" "strings_match z lst" "length lst + strings (VArray vs) < 2 ^ 32"
    "portable (sz_depth z) (VArray vs)"
  let ?R = "\<lambda>bs lst'. \<forall>r \<ge> room_at (sz_depth z + 1). decodes (get_values (deserializeObject r rd) (length vs)) bs lst lst' (map canon vs)"
  have "\<exists>z' bs lst'. seq enter (seq (put_size wr TP_ARRAY (length vs)) (seq (serialize_values wr vs) leave)) z = Done z' \<and>
      written bs z z' \<and> strings_match z' lst' \<and> length lst' \<le> length lst + sum_list (map strings vs) \<and> reads_as (room_at (sz_depth z)) bs lst lst' (VArray (map canon vs))"
  proof (rule container_ok [where R = ?R])
    fix z1 :: "'s serializer" assume "wok z1" "strings_match z1 lst" "sz_depth z1 = sz_depth z + 1"
    then show "\<exists>z2 bs lst'. serialize_values wr vs z1 = Done z2 \<and> written bs z1 z2 \<and> strings_match z2 lst' \<and>
        length lst' \<le> length lst + sum_list (map strings vs) \<and> ?R bs lst'"
      using assms [unfolded values_law_def, rule_format, of z1 lst] z(3,4) by simp
  next
    fix v f bs bs' lst'
    assume a: "0 \<le> v" "v < 16" "\<And>lst large invalid. decodes (get_size rd large invalid v) bs lst lst (length vs)" "?R bs' lst'" "room_at (sz_depth z) \<le> f"
    have f: "0 < f" "1 \<le> f" "2 \<le> f" "room_at (sz_depth z + 1) \<le> f - 1" "room_at (sz_depth z + 1) \<le> f - 2"
      using a(5) z(4) by (auto simp: room_at_def)
    have "decodes (\<lambda>z. res_bind (get_values (deserializeObject (f - 2) rd) (length vs) z) (\<lambda>(vs, z). Done (VArray vs, z))) bs' lst lst' (VArray (map canon vs))"
      by (rule decodes_bind_done) (use a(4) f in blast)
    from decodes_bind [OF a(3), where f = "\<lambda>n z. res_bind (get_values (deserializeObject (f - 2) rd) n z) (\<lambda>(vs, z). Done (VArray vs, z))", OF this]
    show "decodes (deser_switch f (nested 1 f rd) (nested 2 f rd) rd (TP_ARRAY OR word_of_int v)) (bs @ bs') lst lst' (VArray (map canon vs))"
      unfolding switch(6) [OF a(1,2)] pushed_room [OF f(1)] nested_room [OF f(3)] .
  qed (use z in auto)
  then show "\<exists>z' bs lst'. serializeObject wr (VArray vs) z = Done z' \<and> written bs z z' \<and> strings_match z' lst' \<and>
      length lst' \<le> length lst + strings (VArray vs) \<and> reads_as (room_at (sz_depth z)) bs lst lst' (canon (VArray vs))"
    by simp
qed

lemma table_law:
  assumes "nodes_law ns"
  shows "obj_law (VTable ns)"
  unfolding obj_law_def
proof (intro allI impI)
  fix z :: "'s serializer" and lst assume z: "wok z" "strings_match z lst" "length lst + strings (VTable ns) < 2 ^ 32"
    "portable (sz_depth z) (VTable ns)"
  let ?R = "\<lambda>bs lst'. \<forall>r \<ge> room_at (sz_depth z + 1). \<forall>q \<ge> room_at (sz_depth z + 1). \<forall>acc. decodes (get_slots (deserializeObject q rd) (deserializeObject r rd) (CountUsed ns) acc) bs lst lst' (canon_nodes ns acc)"
  have "\<exists>z' bs lst'. seq enter (seq (put_size wr TP_TABLE (CountUsed ns)) (seq (serialize_nodes wr ns) leave)) z = Done z' \<and>
      written bs z z' \<and> strings_match z' lst' \<and> length lst' \<le> length lst + strings_nodes ns \<and> reads_as (room_at (sz_depth z)) bs lst lst' (VTable (canon_nodes ns []))"
  proof (rule container_ok [where R = ?R])
    fix z1 :: "'s serializer" assume "wok z1" "strings_match z1 lst" "sz_depth z1 = sz_depth z + 1"
    then show "\<exists>z2 bs lst'. serialize_nodes wr ns z1 = Done z2 \<and> written bs z1 z2 \<and> strings_match z2 lst' \<and>
        length lst' \<le> length lst + strings_nodes ns \<and> ?R bs lst'"
      using assms [unfolded nodes_law_def, rule_format, of z1 lst] z(3,4) by simp
  next
    fix v f bs bs' lst'
    assume a: "0 \<le> v" "v < 16" "\<And>lst large invalid. decodes (get_size rd large invalid v) bs lst lst (CountUsed ns)" "?R bs' lst'" "room_at (sz_depth z) \<le> f"
    have f: "0 < f" "1 \<le> f" "2 \<le> f" "room_at (sz_depth z + 1) \<le> f - 1" "room_at (sz_depth z + 1) \<le> f - 2"
      using a(5) z(4) by (auto simp: room_at_def)
    have "decodes (\<lambda>z. res_bind (get_slots (deserializeObject (f - 1) rd) (deserializeObject (f - 2) rd) (CountUsed ns) [] z) (\<lambda>(ns, z). Done (VTable ns, z))) bs' lst lst' (VTable (canon_nodes ns []))"
      by (rule decodes_bind_done) (use a(4) f in blast)
    from decodes_bind [OF a(3), where f = "\<lambda>n z. res_bind (get_slots (deserializeObject (f - 1) rd) (deserializeObject (f - 2) rd) n [] z) (\<lambda>(ns, z). Done (VTable ns, z))", OF this]
    show "decodes (deser_switch f (nested 1 f rd) (nested 2 f rd) rd (TP_TABLE OR word_of_int v)) (bs @ bs') lst lst' (VTable (canon_nodes ns []))"
      unfolding switch(7) [OF a(1,2)] pushed_room [OF f(1)] nested_room [OF f(2)] nested_room [OF f(3)] .
  qed (use z in auto)
  then show "\<exists>z' bs lst'. serializeObject wr (VTable ns) z = Done z' \<and> written bs z z' \<and> strings_match z' lst' \<and>
      length lst' \<le> length lst + strings (VTable ns) \<and> reads_as (room_at (sz_depth z)) bs lst lst' (canon (VTable ns))"
    by simp
qed

lemma unsupported_law: "obj_law VInstance" "obj_law VOther"
  by (simp_all add: obj_law_def)

lemma all_laws: "obj_law v"
proof -
  have "obj_law v" and "(case nd of FreeSlot \<Rightarrow> True | Slot k v \<Rightarrow> obj_law k \<and> obj_law v)" for nd
  proof (induction v and nd)
    case (VArray vs)
    then have "values_law vs" by (induction vs) (auto intro: values_Nil values_Cons)
    then show ?case by (rule array_law)
  next
    case (VTable ns)
    have "nodes_law ns"
      using VTable
    proof (induction ns)
      case (Cons nd ns)
      then have "nodes_law ns" "case nd of FreeSlot \<Rightarrow> True | Slot k v \<Rightarrow> obj_law k \<and> obj_law v" by auto
      then show ?case by (cases nd) (auto intro: nodes_Free nodes_Slot)
    qed (rule nodes_Nil)
    then show ?case by (rule table_law)
  qed (simp_all add: null_law bool_law integer_law float_law string_law unsupported_law)
  then show ?thesis by blast
qed

end

end
