(* ===== verification/SqSerialThms.thy ===== *)
theory SqSerialThms
  imports SqSerialProps
begin

text \<open>
  The theorems on serialization: the round trip, the answer of the reader on arbitrary
  bytes, and the depth limit that only the writer has, for every stream that keeps the contract;
  \<open>SqSerialBlob\<close> applies them to blobs.
\<close>

text \<open>\<open>n\<close> arrays around an empty one, and their bytes.\<close>

fun nest :: "nat \<Rightarrow> ser_value" where
  "nest 0 = VArray []"
| "nest (Suc n) = VArray [nest n]"

fun nest_bytes :: "nat \<Rightarrow> byte list" where
  "nest_bytes 0 = [TP_ARRAY]"
| "nest_bytes (Suc n) = [TP_ARRAY OR 1, 1] @ nest_bytes n"

context sq_stream
begin

lemma take_byte:
  assumes "ok (sz_stream y)" "after (sz_stream y) = b # rest"
  shows "\<exists>y'. take_bytes rd 1 y = Done ([b], y') \<and> ok (sz_stream y') \<and> after (sz_stream y') = rest \<and> sz_stringList y' = sz_stringList y"
  using decodes_take [of "[b]" 1 "sz_stringList y"] assms by (simp add: decodes_def)

lemma deserialize_reads:
  assumes "reads_as d bs [] lst v" and y: "ok y" "after y = [START_MARKER] @ bs @ [END_MARKER] @ rest" "d \<le> room"
  shows "\<exists>y'. deserialize room rd y = Done (v, y') \<and> after y' = rest"
proof -
  let ?y = "new_serializer y :: 's serializer"
  obtain y1 where y1: "take_bytes rd 1 ?y = Done ([START_MARKER], y1)" "ok (sz_stream y1)" "after (sz_stream y1) = bs @ [END_MARKER] @ rest" "sz_stringList y1 = []"
    using take_byte [of ?y START_MARKER "bs @ [END_MARKER] @ rest"] y(1,2) by (auto simp: new_serializer_def)
  have "decodes (deserializeObject room rd) bs [] lst v" using reads_as_room [OF assms(1)] y(3) by simp
  then obtain y2 where y2: "deserializeObject room rd y1 = Done (v, y2)" "ok (sz_stream y2)" "after (sz_stream y2) = [END_MARKER] @ rest" "sz_stringList y2 = lst"
    using y1 unfolding decodes_def by blast
  obtain y3 where y3: "take_bytes rd 1 y2 = Done ([END_MARKER], y3)" "after (sz_stream y3) = rest"
    using take_byte [OF y2(2), of END_MARKER rest] y2(3) by auto
  show ?thesis using y1(1) y2(1) y3 by (simp add: deserialize_def)
qed

lemma serialize_written:
  assumes s: "ok s" "after s = []" and v: "portable 0 v" "strings v < 2 ^ 32"
  shows "\<exists>s' bs. serialize wr v s = Done s' \<and> ok s' \<and> before s' = before s @ bs \<and> after s' = [] \<and>
    (\<forall>y rest room. ok y \<longrightarrow> after y = bs @ rest \<longrightarrow> room_at 0 \<le> room \<longrightarrow>
       (\<exists>y'. deserialize room rd y = Done (canon v, y') \<and> after y' = rest))"
proof -
  let ?z = "new_serializer s :: 's serializer"
  have z: "wok ?z" "strings_match ?z []" using s by (simp_all add: new_serializer_def wok_def strings_match_def)
  obtain z1 where 1: "put wr [START_MARKER] ?z = Done z1" "emits [START_MARKER] ?z z1" using put_emits [OF z(1)] by blast
  have "sz_depth z1 = 0" using 1(2) by (simp add: emits_def new_serializer_def)
  then obtain z2 bs lst where 2: "serializeObject wr v z1 = Done z2" "written bs z1 z2" "reads_as (room_at 0) bs [] lst (canon v)"
    using all_laws [of v] emits_wok [OF 1(2)] emits_match [OF 1(2) z(2)] v \<open>sz_depth z1 = 0\<close> unfolding obj_law_def by (metis add_0 list.size(3))
  obtain z3 where 3: "put wr [END_MARKER] z2 = Done z3" "emits [END_MARKER] z2 z3" using put_emits [OF written_wok [OF 2(2)]] by blast
  let ?bs = "[START_MARKER] @ bs @ [END_MARKER]"
  have "serialize wr v s = Done (sz_stream z3)" by (simp add: serialize_def seq_def 1(1) 2(1) 3(1))
  moreover have "ok (sz_stream z3)" "after (sz_stream z3) = []" "before (sz_stream z3) = before s @ ?bs"
    using 1(2) 2(2) 3(2) by (simp_all add: emits_def written_def wok_def new_serializer_def)
  moreover have "\<exists>y'. deserialize room rd y = Done (canon v, y') \<and> after y' = rest"
    if "ok y" "after y = ?bs @ rest" "room_at 0 \<le> room" for y rest room
    using deserialize_reads [OF 2(3) that(1), of rest room] that(2,3) by simp
  ultimately show ?thesis by blast
qed

subsection \<open>Arbitrary input\<close>

text \<open>Reading never gets stuck, and a value that is read takes at least one byte.\<close>

definition answers :: "bool \<Rightarrow> ('s serializer \<Rightarrow> ('x \<times> 's serializer) sq_res) \<Rightarrow> 's serializer \<Rightarrow> bool" where
  "answers strict r z \<longleftrightarrow> r z \<noteq> Stuck \<and> (\<forall>x z'. r z = Done (x, z') \<longrightarrow> ok (sz_stream z') \<and>
     length (after (sz_stream z')) + (if strict then 1 else 0) \<le> length (after (sz_stream z)))"

lemma take_bytes_answers: "ok (sz_stream z) \<Longrightarrow> answers (0 < n) (take_bytes rd n) z"
  using read_law [of "sz_stream z" n] by (auto simp: answers_def take_bytes_def split: if_splits)

lemma answers_bind:
  assumes "answers a r z" "ok (sz_stream z)"
    "\<And>x z'. r z = Done (x, z') \<Longrightarrow> ok (sz_stream z') \<Longrightarrow> length (after (sz_stream z')) + (if a then 1 else 0) \<le> length (after (sz_stream z)) \<Longrightarrow>
       answers b (f x) z'"
  shows "answers (a \<or> b) (\<lambda>z. res_bind (r z) (\<lambda>(x, z). f x z)) z"
proof (cases "r z")
  case (Done p)
  obtain x z' where p: "p = (x, z')" by (cases p)
  from assms(1) Done p have "ok (sz_stream z')" "length (after (sz_stream z')) + (if a then 1 else 0) \<le> length (after (sz_stream z))"
    by (auto simp: answers_def)
  with assms(3) [of x z'] Done p show ?thesis by (fastforce simp: answers_def split: if_splits)
qed (use assms(1) in \<open>auto simp: answers_def\<close>)

lemma answers_weak: "answers a r z \<Longrightarrow> answers False r z"
  by (auto simp: answers_def split: if_splits)

lemma answers_Done: "ok (sz_stream (g z)) \<Longrightarrow> sz_stream (g z) = sz_stream z \<Longrightarrow> answers False (\<lambda>z. Done (x z, g z)) z"
  by (simp add: answers_def)

lemma answers_Raise: "answers a (\<lambda>z. Raise e) z"
  by (simp add: answers_def)

lemma answers_cong: "r z = r' z \<Longrightarrow> answers a r z = answers a r' z"
  by (simp add: answers_def)

lemma answers_take_bind:
  assumes "ok (sz_stream z)" "\<And>bs z'. ok (sz_stream z') \<Longrightarrow> length bs = n \<Longrightarrow> length (after (sz_stream z')) \<le> length (after (sz_stream z)) \<Longrightarrow> answers False (f bs) z'"
  shows "answers False (\<lambda>z. res_bind (take_bytes rd n z) (\<lambda>(bs, z). f bs z)) z"
proof -
  have "answers (False \<or> False) (\<lambda>z. res_bind (take_bytes rd n z) (\<lambda>(bs, z). f bs z)) z"
  proof (rule answers_bind [OF answers_weak [OF take_bytes_answers [OF assms(1)]] assms(1)])
    fix bs z' assume "take_bytes rd n z = Done (bs, z')" "ok (sz_stream z')"
      "length (after (sz_stream z')) + (if False then 1 else 0) \<le> length (after (sz_stream z))"
    moreover from this have "length bs = n"
      using read_law [OF assms(1), of n] by (auto simp: take_bytes_def split: if_splits)
    ultimately show "answers False (f bs) z'" using assms(2) by simp
  qed
  then show ?thesis by simp
qed

lemma answers_if: "(c \<Longrightarrow> answers a r z) \<Longrightarrow> (\<not> c \<Longrightarrow> answers a r' z) \<Longrightarrow> answers a (\<lambda>z. if c then r z else r' z) z"
  by (cases c) simp_all

lemma answers_test: "(c z \<Longrightarrow> answers a r z) \<Longrightarrow> (\<not> c z \<Longrightarrow> answers a r' z) \<Longrightarrow> answers a (\<lambda>z. if c z then r z else r' z) z"
  by (simp add: answers_def)

lemma answers_pure: "ok (sz_stream z) \<Longrightarrow> answers False (\<lambda>z. Done (x, z)) z"
  by (simp add: answers_def)

lemma get_integer_answers: "ok (sz_stream z) \<Longrightarrow> answers False (get_integer rd v) z"
  unfolding get_integer_def [abs_def]
  by (intro answers_if answers_pure answers_Raise answers_take_bind; assumption)

lemma get_float_answers: "ok (sz_stream z) \<Longrightarrow> answers False (get_float rd v) z"
  unfolding get_float_def [abs_def]
  by (intro answers_if answers_pure answers_Raise answers_take_bind; assumption)

lemma get_instance_answers: "ok (sz_stream z) \<Longrightarrow> answers False (get_instance rd v) z"
  unfolding get_instance_def [abs_def]
  by (intro answers_if answers_Raise answers_take_bind; assumption)

lemma answers_push: "ok (sz_stream z) \<Longrightarrow> answers False (\<lambda>z. Done (x, z\<lparr>sz_stringList := f z\<rparr>)) z"
  by (simp add: answers_def)

lemma answers_at: "ok (sz_stream z) \<Longrightarrow> answers False (\<lambda>z. Done (f z, z)) z"
  by (simp add: answers_def)

lemma get_string_answers: "ok (sz_stream z) \<Longrightarrow> answers False (get_string rd v) z"
  unfolding get_string_def [abs_def] Let_def
  by (intro answers_if answers_test answers_pure answers_at answers_push answers_Raise answers_take_bind; assumption)

lemma get_size_answers: "ok (sz_stream z) \<Longrightarrow> answers False (get_size rd large invalid v) z"
  unfolding get_size_def [abs_def] Let_def
  by (intro answers_if answers_pure answers_Raise answers_take_bind; assumption)

lemma pushed_answers: "0 < room \<Longrightarrow> answers False r z \<Longrightarrow> answers False (pushed room r) z"
  by simp

text \<open>A size that is not zero has taken a byte.\<close>

lemma get_size_consumes:
  assumes "ok (sz_stream z)" "get_size rd large invalid v z = Done (n, z')" "n \<noteq> 0"
  shows "length (after (sz_stream z')) + 1 \<le> length (after (sz_stream z))"
proof -
  let ?k = "if v = 1 then 1 else 4 :: nat"
  obtain bs where "take_bytes rd ?k z = Done (bs, z')"
    using assms(2,3) by (cases "take_bytes rd ?k z") (auto simp: get_size_def Let_def split: if_splits)
  then show ?thesis using take_bytes_answers [OF assms(1), of ?k] by (auto simp: answers_def split: if_splits)
qed

text \<open>\<open>sound\<close>: the recursive call never gets stuck when there is room for the bytes left, and always takes a byte.\<close>

definition sound :: "nat \<Rightarrow> 's ser_read \<Rightarrow> bool" where
  "sound f rec \<longleftrightarrow> (\<forall>z. ok (sz_stream z) \<longrightarrow> length (after (sz_stream z)) \<le> f \<longrightarrow> answers True rec z)"

lemma soundD: "sound f rec \<Longrightarrow> ok (sz_stream z) \<Longrightarrow> length (after (sz_stream z)) \<le> f \<Longrightarrow> answers False rec z"
  unfolding sound_def by (blast intro: answers_weak)

lemma answers_seq:
  assumes "answers False r z" "ok (sz_stream z)" "length (after (sz_stream z)) \<le> n"
    "\<And>x z'. ok (sz_stream z') \<Longrightarrow> length (after (sz_stream z')) \<le> n \<Longrightarrow> answers False (f x) z'"
  shows "answers False (\<lambda>z. res_bind (r z) (\<lambda>(x, z). f x z)) z"
proof -
  have "answers (False \<or> False) (\<lambda>z. res_bind (r z) (\<lambda>(x, z). f x z)) z"
    by (rule answers_bind [OF assms(1,2)]) (use assms(3,4) in auto)
  then show ?thesis by simp
qed

lemma get_values_answers:
  "sound f rec \<Longrightarrow> ok (sz_stream z) \<Longrightarrow> length (after (sz_stream z)) \<le> f \<Longrightarrow> answers False (get_values rec n) z"
proof (induction n arbitrary: z)
  case 0
  then show ?case by (simp add: answers_def)
next
  case (Suc n)
  have "answers False (\<lambda>z. res_bind (rec z) (\<lambda>(v, z). res_bind (get_values rec n z) (\<lambda>(vs, z). Done (v # vs, z)))) z"
    by (rule answers_seq [OF soundD Suc.prems(2,3)] answers_seq [OF Suc.IH] answers_pure Suc.prems | assumption)+
  then show ?case by (simp add: answers_def)
qed

lemma get_slots_answers:
  "sound f key \<Longrightarrow> sound f val \<Longrightarrow> ok (sz_stream z) \<Longrightarrow> length (after (sz_stream z)) \<le> f \<Longrightarrow> answers False (get_slots key val n ns) z"
proof (induction n arbitrary: ns z)
  case 0
  then show ?case by (simp add: answers_def)
next
  case (Suc n)
  have "answers False (\<lambda>z. res_bind (key z) (\<lambda>(k, z). res_bind (val z) (\<lambda>(v, z). get_slots key val n (rawset_slot k v ns) z))) z"
    by (rule answers_seq [OF soundD [OF Suc.prems(1)] Suc.prems(3,4)] answers_seq [OF soundD [OF Suc.prems(2)]] Suc.IH Suc.prems | assumption)+
  then show ?case by (simp add: answers_def)
qed

lemma container_answers:
  assumes "ok (sz_stream z)" "\<And>z'. ok (sz_stream z') \<Longrightarrow> answers False (body 0) z'"
    and "\<And>n z'. n \<noteq> 0 \<Longrightarrow> ok (sz_stream z') \<Longrightarrow> length (after (sz_stream z')) + 1 \<le> length (after (sz_stream z)) \<Longrightarrow> answers False (body n) z'"
  shows "answers False (\<lambda>z. res_bind (get_size rd large invalid v z) (\<lambda>(n, z). body n z)) z"
proof -
  have "answers (False \<or> False) (\<lambda>z. res_bind (get_size rd large invalid v z) (\<lambda>(n, z). body n z)) z"
  proof (rule answers_bind [OF get_size_answers [OF assms(1)] assms(1)])
    fix n z' assume "get_size rd large invalid v z = Done (n, z')" "ok (sz_stream z')"
    then show "answers False (body n) z'"
      using assms(2,3) get_size_consumes [OF assms(1)] by (cases "n = 0") auto
  qed
  then show ?thesis by simp
qed

lemma deser_switch_answers:
  assumes ok: "ok (sz_stream z)" and room: "length (after (sz_stream z)) < room"
    and rec: "sound (room - 1) rec" "2 \<le> room \<Longrightarrow> sound (room - 2) rec2"
  shows "answers False (deser_switch room rec rec2 rd t) z"
proof -
  have r: "0 < room" using room by simp
  have val: "answers False (\<lambda>z. res_bind (get_values rec2 n z) (\<lambda>(vs, z). Done (VArray vs, z))) z'"
    if "n = 0 \<or> length (after (sz_stream z')) + 1 \<le> length (after (sz_stream z))" "ok (sz_stream z')" for n z'
  proof (cases "n = 0")
    case True
    then show ?thesis using that(2) by (simp add: answers_def)
  next
    case False
    then have l: "length (after (sz_stream z')) \<le> room - 2" "2 \<le> room" using that(1) room by auto
    show ?thesis by (rule answers_seq [OF get_values_answers [OF rec(2) that(2) l(1)] that(2) l(1)]) (use l(2) answers_pure in auto)
  qed
  have slot: "answers False (\<lambda>z. res_bind (get_slots rec rec2 n [] z) (\<lambda>(ns, z). Done (VTable ns, z))) z'"
    if "n = 0 \<or> length (after (sz_stream z')) + 1 \<le> length (after (sz_stream z))" "ok (sz_stream z')" for n z'
  proof (cases "n = 0")
    case True
    then show ?thesis using that(2) by (simp add: answers_def)
  next
    case False
    then have l: "length (after (sz_stream z')) \<le> room - 2" "2 \<le> room" using that(1) room by auto
    have s: "sound (room - 2) rec" using rec(1) unfolding sound_def by auto
    show ?thesis by (rule answers_seq [OF get_slots_answers [OF s rec(2) that(2) l(1)] that(2) l(1)]) (use l(2) answers_pure in auto)
  qed
  show ?thesis
    unfolding deser_switch_def [abs_def] Let_def pushed_room [OF r]
    by (intro answers_if answers_pure answers_Raise get_integer_answers get_float_answers get_string_answers get_instance_answers
        container_answers val slot ok; simp)
qed

lemma deserializeObject_sound: "sound room (deserializeObject room rd)"
proof (induction room rule: less_induct)
  case (less room)
  have "answers True (deserializeObject room rd) z" if z: "ok (sz_stream (z :: 's serializer))" "length (after (sz_stream z)) \<le> room" for z
  proof -
    have "answers (0 < (1::nat) \<or> False) (\<lambda>z. res_bind (take_bytes rd 1 z) (\<lambda>(bs, z). deser_switch room (nested 1 room rd) (nested 2 room rd) rd (hd bs) z)) z"
    proof (rule answers_bind [OF take_bytes_answers [OF z(1)] z(1)])
      fix bs and z' :: "'s serializer" assume "ok (sz_stream z')" "length (after (sz_stream z')) + (if 0 < (1::nat) then 1 else 0) \<le> length (after (sz_stream z))"
      then have l: "ok (sz_stream z')" "length (after (sz_stream z')) < room" using z(2) by auto
      have "sound (room - 1) (nested 1 room rd)" "2 \<le> room \<Longrightarrow> sound (room - 2) (nested 2 room rd)"
        using l(2) less.IH [of "room - 1"] less.IH [of "room - 2"] by (simp_all add: nested_room)
      then show "answers False (deser_switch room (nested 1 room rd) (nested 2 room rd) rd (hd bs)) z'"
        by (rule deser_switch_answers [OF l])
    qed
    then show ?thesis by (simp add: answers_def deserializeObject_nested)
  qed
  then show ?case unfolding sound_def by blast
qed

lemma deserialize_answers:
  assumes "ok s" "length (after s) \<le> room"
  shows "deserialize room rd s \<noteq> Stuck"
proof -
  have ob: "answers False (deserializeObject room rd) z" if "ok (sz_stream z)" "length (after (sz_stream z)) \<le> room" for z
    using soundD [OF deserializeObject_sound that] .
  have tk: "answers False (take_bytes rd 1) z" if "ok (sz_stream z)" for z
    using answers_weak [OF take_bytes_answers [OF that]] .
  have "answers False (\<lambda>z. res_bind (take_bytes rd 1 z) (\<lambda>(bs, z).
       if hd bs \<noteq> START_MARKER then Raise ''Invalid start marker during deserialization''
       else res_bind (deserializeObject room rd z) (\<lambda>(v, z).
         res_bind (take_bytes rd 1 z) (\<lambda>(bs, z).
           if hd bs \<noteq> END_MARKER then Raise ''Invalid end marker during deserialization'' else Done (v, z))))) (new_serializer s)"
    using assms by (intro answers_if answers_pure answers_Raise answers_seq [where n = room] tk ob; (assumption | simp add: new_serializer_def)?)
  then show ?thesis
    by (auto simp: answers_def deserialize_def res_bind_Stuck split: if_splits)
qed

subsection \<open>Depth\<close>

lemma nest_raises:
  "wok z \<Longrightarrow> MAX_DEPTH \<le> sz_depth z + n \<Longrightarrow> serializeObject wr (nest n) z = Raise ''Maximum serialization depth exceeded''"
proof (induction n arbitrary: z)
  case 0
  then show ?case by (simp add: seq_def enter_def)
next
  case (Suc n)
  show ?case
  proof (cases "sz_depth z < MAX_DEPTH")
    case True
    let ?z = "z\<lparr>sz_depth := sz_depth z + 1\<rparr>"
    have "wok ?z" using Suc.prems(1) by (simp add: wok_def)
    then obtain z' bs where z': "put_size wr TP_ARRAY 1 ?z = Done z'" "emits bs ?z z'"
      using size_ok [of ?z 1 TP_ARRAY] by (auto simp: SQ_DESER_MAX_OBJECT_SIZE_def)
    then have "sz_depth z' = sz_depth z + 1" by (simp add: emits_def)
    then have "serializeObject wr (nest n) z' = Raise ''Maximum serialization depth exceeded''"
      using Suc.IH [OF emits_wok [OF z'(2)]] Suc.prems(2) by simp
    then show ?thesis using True z'(1) by (simp add: seq_def enter_def)
  qed (simp add: seq_def enter_def)
qed

lemma size_one: "get_size rd large invalid 1 = (\<lambda>z. res_bind (take_bytes rd 1 z) (\<lambda>(bs, z).
    (\<lambda>n z. if n \<ge> SQ_DESER_MAX_OBJECT_SIZE then Raise large else Done (n, z)) (nat (le_int bs)) z))"
  by (auto simp: get_size_def fun_eq_iff Let_def)

lemma decodes_size_one: "decodes (get_size rd large invalid 1) [1] lst lst (Suc 0)"
proof -
  have "decodes (\<lambda>z. res_bind (take_bytes rd 1 z) (\<lambda>(bs, z).
      (\<lambda>n z. if n \<ge> SQ_DESER_MAX_OBJECT_SIZE then Raise large else Done (n, z)) (nat (le_int bs)) z)) ([1] @ []) lst lst (Suc 0)"
    by (rule decodes_bind [OF decodes_take]) (auto simp: SQ_DESER_MAX_OBJECT_SIZE_def decodes_done)
  then show ?thesis by (simp add: size_one)
qed

lemma size_zero: "get_size rd large invalid 0 = (\<lambda>z. Done (0, z))"
  by (simp add: get_size_def fun_eq_iff)

lemma nest_reads: "reads_as (2 * n + 1) (nest_bytes n) lst lst (nest n)"
proof (induction n)
  case 0
  have "deser_switch room rec rec2 rd TP_ARRAY = (\<lambda>z. Done (VArray [], z))" if "0 < room" for room rec rec2
    using switch(6) [of 0 room rec rec2 rd] that by (simp add: size_zero fun_eq_iff)
  then show ?case using reads_as_tag [of 1 TP_ARRAY "[]" lst lst "VArray []"] by (simp add: decodes_done)
next
  case (Suc n)
  have "decodes (deser_switch f (nested 1 f rd) (nested 2 f rd) rd (TP_ARRAY OR word_of_int 1)) ([1] @ nest_bytes n) lst lst (VArray [nest n])"
    if f: "2 * Suc n + 1 \<le> f" for f
  proof -
    have f2: "0 < f" "2 \<le> f" "2 * n + 1 \<le> f - 2" using f by auto
    have "decodes (deserializeObject (f - 2) rd) (nest_bytes n) lst lst (nest n)" by (rule reads_as_room [OF Suc f2(3)])
    then have "decodes (get_values (deserializeObject (f - 2) rd) (Suc 0)) (nest_bytes n @ []) lst lst [nest n]"
      by (rule decodes_values_Cons) (simp add: decodes_def)
    then have v: "decodes (\<lambda>z. res_bind (get_values (deserializeObject (f - 2) rd) (Suc 0) z) (\<lambda>(vs, z). Done (VArray vs, z))) (nest_bytes n) lst lst (VArray [nest n])"
      using decodes_bind_done by force
    from decodes_bind [OF decodes_size_one, where f = "\<lambda>n z. res_bind (get_values (deserializeObject (f - 2) rd) n z) (\<lambda>(vs, z). Done (VArray vs, z))", OF v]
    show ?thesis using switch(6) [of 1 f "nested 1 f rd" "nested 2 f rd" rd] by (simp add: f2(1) nested_room [OF f2(2)])
  qed
  from reads_as_tag [OF this] show ?case by simp
qed

text \<open>With less room the last array is pushed behind the stack.\<close>

lemma nest_faults:
  "ok (sz_stream y) \<Longrightarrow> after (sz_stream y) = nest_bytes n @ rest \<Longrightarrow> room < 2 * n + 1 \<Longrightarrow> deserializeObject room rd y = Stuck"
proof (induction n arbitrary: room y)
  case 0
  obtain y1 where "take_bytes rd 1 y = Done ([TP_ARRAY], y1)" using take_byte [OF "0.prems"(1), of TP_ARRAY rest] "0.prems"(2) by auto
  moreover have "deser_switch 0 rec rec2 rd TP_ARRAY z = Stuck" for rec rec2 z
    using switch(6) [of 0 0 rec rec2 rd] by (simp add: size_zero pushed_def fun_eq_iff)
  ultimately show ?case using "0.prems"(3) by (simp add: deserializeObject_nested)
next
  case (Suc n)
  obtain y1 where y1: "take_bytes rd 1 y = Done ([TP_ARRAY OR 1], y1)" "ok (sz_stream y1)" "after (sz_stream y1) = [1] @ nest_bytes n @ rest"
    using take_byte [OF Suc.prems(1), of "TP_ARRAY OR 1"] Suc.prems(2) by auto
  obtain y2 where y2: "take_bytes rd 1 y1 = Done ([1], y2)" "ok (sz_stream y2)" "after (sz_stream y2) = nest_bytes n @ rest"
    using take_byte [OF y1(2), of 1 "nest_bytes n @ rest"] y1(3) by auto
  have size: "get_size rd large invalid 1 y1 = Done (Suc 0, y2)" for large invalid
    by (simp add: get_size_def y2(1) [simplified] SQ_DESER_MAX_OBJECT_SIZE_def)
  have "nested 2 room rd y2 = Stuck"
  proof (cases "2 \<le> room")
    case True
    then show ?thesis using Suc.IH [OF y2(2,3), of "room - 2"] Suc.prems(3) by (simp add: nested_room)
  next
    case False
    then show ?thesis by (simp add: nested_def)
  qed
  then show ?case
    using y1(1) size switch(6) [of 1 room "nested 1 room rd" "nested 2 room rd" rd]
    by (cases "room = 0") (simp_all add: deserializeObject_nested pushed_def)
qed

lemma deserialize_nest_faults:
  assumes "ok y" "after y = [START_MARKER] @ nest_bytes n @ rest" "room < 2 * n + 1"
  shows "deserialize room rd y = Stuck"
proof -
  let ?y = "new_serializer y :: 's serializer"
  obtain y1 where "take_bytes rd 1 ?y = Done ([START_MARKER], y1)" "ok (sz_stream y1)" "after (sz_stream y1) = nest_bytes n @ rest"
    using take_byte [of ?y START_MARKER] assms(1,2) by (auto simp: new_serializer_def)
  then show ?thesis using nest_faults assms(3) by (simp add: deserialize_def)
qed

lemma serialize_nest_raises:
  assumes "ok s" "after s = []" "MAX_DEPTH \<le> n"
  shows "serialize wr (nest n) s = Raise ''Maximum serialization depth exceeded''"
proof -
  let ?z = "new_serializer s :: 's serializer"
  have "wok ?z" using assms by (simp add: new_serializer_def wok_def)
  then obtain z1 where "put wr [START_MARKER] ?z = Done z1" "wok z1" using put_emits [of ?z "[START_MARKER]"] emits_wok by blast
  then show ?thesis using nest_raises [of z1 n] assms(3) by (simp add: serialize_def seq_def)
qed

end

end
