(* ===== verification/SqSerialBlob.thy ===== *)
theory SqSerialBlob
  imports SqSerialThms SqBlobProps
begin

text \<open>
  Serialization into a blob and back: the round trip, which values come back unchanged, the
  ways in which a value does not, the reader on arbitrary bytes, and the stack it needs.
\<close>

text \<open>Values without a negative zero, without free slots and with distinct keys.\<close>

fun plain :: "ser_value \<Rightarrow> bool"
  and plain_nodes :: "ser_slot list \<Rightarrow> ser_value list \<Rightarrow> bool" where
  "plain (VFloat f) \<longleftrightarrow> f \<noteq> 0x80000000"
| "plain (VArray vs) \<longleftrightarrow> (\<forall>v \<in> set vs. plain v)"
| "plain (VTable ns) \<longleftrightarrow> plain_nodes ns []"
| "plain VNull \<longleftrightarrow> True"
| "plain (VBool b) \<longleftrightarrow> True"
| "plain (VInt i) \<longleftrightarrow> True"
| "plain (VStr s) \<longleftrightarrow> True"
| "plain VInstance \<longleftrightarrow> True"
| "plain VOther \<longleftrightarrow> True"
| "plain_nodes [] seen \<longleftrightarrow> True"
| "plain_nodes (FreeSlot # ns) seen \<longleftrightarrow> False"
| "plain_nodes (Slot k v # ns) seen \<longleftrightarrow> plain k \<and> plain v \<and> k \<notin> set seen \<and> plain_nodes ns (k # seen)"

lemma rawset_fresh: "(\<And>v'. Slot k v' \<notin> set acc) \<Longrightarrow> rawset_slot k v acc = acc @ [Slot k v]"
  by (induction k v acc rule: rawset_slot.induct) auto

lemma canon_plain:
  "plain v \<Longrightarrow> canon v = v"
  "plain_nodes ns seen \<Longrightarrow> (\<forall>k v. Slot k v \<in> set acc \<longrightarrow> k \<in> set seen) \<Longrightarrow> canon_nodes ns acc = acc @ ns"
proof (induction v and ns seen arbitrary: and acc rule: plain_plain_nodes.induct)
  case (2 vs)
  then show ?case by (simp add: map_idI)
next
  case (12 k v ns seen)
  have "rawset_slot k v acc = acc @ [Slot k v]" by (rule rawset_fresh) (use 12 in auto)
  moreover have "canon_nodes ns (acc @ [Slot k v]) = (acc @ [Slot k v]) @ ns"
    by (rule 12(3)) (use 12(4,5) in auto)
  ultimately show ?case using 12 by simp
qed simp_all

lemma rewound:
  assumes "blob_ok b" "blob_before b = bs" "blob_after b = []"
  shows "blob_ok (snd (blob_Seek 0 SQ_SEEK_SET b))" "blob_after (snd (blob_Seek 0 SQ_SEEK_SET b)) = bs"
  using blob_rewind_law [OF assms(1)] assms(2,3) by (simp_all add: blob_rewind_def)

lemma after_length: "blob_ok b \<Longrightarrow> int (length (blob_after b)) = bl_size b - bl_ptr b"
  using length_blob_data [of b] by (auto simp: blob_after_def blob_ok_def)

lemma end_length: "blob_ok b \<Longrightarrow> blob_after b = [] \<Longrightarrow> blob_Len b = int (length (blob_before b))"
  using length_blob_data [of b] by (simp add: blob_at_end blob_before_def blob_Len_def blob_ok_def)

lemma blob_written_read:
  assumes "portable 0 v" "strings v < 2 ^ 32" "2 * MAX_DEPTH < room"
  shows "\<exists>b b'. serialize blob_Write v (new_blob 0) = Done b \<and>
    deserialize room blob_Read (snd (blob_Seek 0 SQ_SEEK_SET b)) = Done (canon v, b') \<and> blob_after b' = []"
proof -
  have room: "room_at 0 \<le> room" using assms(3) by (simp add: room_at_def)
  obtain b bs where b: "serialize blob_Write v (new_blob 0) = Done b" "blob_ok b" "blob_before b = bs" "blob_after b = []"
    "\<And>y rest room. blob_ok y \<Longrightarrow> blob_after y = bs @ rest \<Longrightarrow> room_at 0 \<le> room \<Longrightarrow>
       \<exists>y'. deserialize room blob_Read y = Done (canon v, y') \<and> blob_after y' = rest"
    using blob_stream.serialize_written [OF new_blob_stream(1,3) assms(1,2)] new_blob_stream(2) by auto
  then show ?thesis using b(5) [of _ "[]", OF _ _ room] rewound [OF b(2,3,4)] by (metis append_Nil2)
qed

text \<open>C23: A value of null, booleans, integers, floats, strings, arrays and tables within the depth and size limits that is written to a fresh blob by \<open>writeobject\<close> and read back after a seek to the start by \<open>readobject\<close> comes back as its canonical form: tables are rebuilt slot by slot without their free nodes and a negative zero is zero. Every other value comes back unchanged. The reading consumes exactly the bytes written. It needs at most 401 free slots of the VM stack, whatever the value; a native function called by a script has 512.\<close>

theorem blob_serialize_roundtrip:
  assumes "portable 0 v" "strings v < 2 ^ 32" "2 * MAX_DEPTH < room"
  shows "\<exists>b b'. serialize blob_Write v (new_blob 0) = Done b \<and>
    deserialize room blob_Read (snd (blob_Seek 0 SQ_SEEK_SET b)) = Done (canon v, b') \<and> blob_after b' = [] \<and>
    (plain v \<longrightarrow> canon v = v)"
  using blob_written_read [OF assms] canon_plain(1) by blast

theorem blob_serialize_roundtrip_witness:
  "let v = VTable [Slot (VStr [97]) (VArray [VInt (- 5), VInt 70000, VNull, VStr [97]]), Slot (VInt 3) (VFloat 0x3FC00000)] in
   \<exists>b b'. serialize blob_Write v (new_blob 0) = Done b \<and>
     deserialize STACK_GROW_THRESHOLD blob_Read (snd (blob_Seek 0 SQ_SEEK_SET b)) = Done (v, b') \<and> blob_after b' = []"
  using blob_serialize_roundtrip [of "VTable [Slot (VStr [97]) (VArray [VInt (- 5), VInt 70000, VNull, VStr [97]]), Slot (VInt 3) (VFloat 0x3FC00000)]" STACK_GROW_THRESHOLD]
  by (auto simp: Let_def MAX_DEPTH_def SQ_DESER_MAX_OBJECT_SIZE_def STACK_GROW_THRESHOLD_def CountUsed_def)

text \<open>C24: Reading an object from any blob that a script can build, at any position and whatever its bytes, ends in a value or in one of the error messages when at least as many slots of the VM stack are free as bytes are left in the blob: the recursion pushes at most one value for each byte it reads. (With fewer free slots the pushes, which nothing checks, may write behind the stack: C30.)\<close>

theorem blob_deserialize_answers:
  assumes "blob_reach b" "blob_Len b - blob_Tell b \<le> int room"
  shows "(\<exists>e. deserialize room blob_Read b = Raise e) \<or> (\<exists>v b'. deserialize room blob_Read b = Done (v, b'))"
proof -
  have ok: "blob_ok b" by (rule blob_reach_ok [OF assms(1)])
  have "deserialize room blob_Read b \<noteq> Stuck"
    by (rule blob_stream.deserialize_answers [OF ok]) (use after_length [OF ok] assms(2) in \<open>simp add: blob_Len_def blob_Tell_def\<close>)
  then show ?thesis by (cases "deserialize room blob_Read b") auto
qed

theorem blob_deserialize_answers_witness:
  "(\<exists>e. deserialize 3 blob_Read (new_blob 3) = Raise e) \<or> (\<exists>v b'. deserialize 3 blob_Read (new_blob 3) = Done (v, b'))"
proof (rule blob_deserialize_answers)
  show "blob_reach (new_blob 3)" by (rule blob_reach.New [of "Some 3"]) (simp add: blob_constructor_def)
qed (simp add: blob_Len_def blob_Tell_def new_blob_def)

text \<open>C30: Only the writer limits the depth of nesting. Arrays nested 200 deep or more are refused by \<open>writeobject\<close>. \<open>readobject\<close> has no limit: of the bytes of an array nested \<open>n\<close> deep it returns the array when \<open>2 * n + 1\<close> slots of the VM stack are free, and otherwise, on each of those inputs, it pushes behind the end of the stack. (With the 512 slots that a native function has, that is at 256 levels, 515 bytes.)\<close>

theorem blob_depth_limit:
  assumes "200 \<le> n"
  shows "serialize blob_Write (nest n) (new_blob 0) = Raise ''Maximum serialization depth exceeded'' \<and>
    (\<exists>c b. blob_Write ([START_MARKER] @ nest_bytes n @ [END_MARKER]) (new_blob 0) = Some (c, b) \<and>
       (if 2 * n + 1 \<le> room
        then \<exists>b'. deserialize room blob_Read (snd (blob_Seek 0 SQ_SEEK_SET b)) = Done (nest n, b')
        else deserialize room blob_Read (snd (blob_Seek 0 SQ_SEEK_SET b)) = Stuck))"
proof
  show "serialize blob_Write (nest n) (new_blob 0) = Raise ''Maximum serialization depth exceeded''"
    using blob_stream.serialize_nest_raises [OF new_blob_stream(1,3)] assms by (simp add: MAX_DEPTH_def)
  let ?bs = "[START_MARKER] @ nest_bytes n @ [END_MARKER]"
  obtain c b where b: "blob_Write ?bs (new_blob 0) = Some (c, b)" "blob_ok b" "blob_before b = ?bs" "blob_after b = []"
    using blob_write_law [OF new_blob_stream(1,3), of ?bs] new_blob_stream(2) by auto
  let ?b = "snd (blob_Seek 0 SQ_SEEK_SET b)"
  have r: "blob_ok ?b" "blob_after ?b = ?bs" using rewound [OF b(2,3,4)] by simp_all
  have "\<exists>b'. deserialize room blob_Read ?b = Done (nest n, b')" if "2 * n + 1 \<le> room"
    using blob_stream.deserialize_reads [OF blob_stream.nest_reads r(1) _ that, of "[]"] r(2) by auto
  moreover have "deserialize room blob_Read ?b = Stuck" if "room < 2 * n + 1"
    using blob_stream.deserialize_nest_faults [OF r that] .
  ultimately show "\<exists>c b. blob_Write ?bs (new_blob 0) = Some (c, b) \<and>
       (if 2 * n + 1 \<le> room
        then \<exists>b'. deserialize room blob_Read (snd (blob_Seek 0 SQ_SEEK_SET b)) = Done (nest n, b')
        else deserialize room blob_Read (snd (blob_Seek 0 SQ_SEEK_SET b)) = Stuck)" using b(1) by (metis not_less)
qed

theorem blob_depth_limit_witness:
  "\<exists>c b b'. blob_Write ([START_MARKER] @ nest_bytes 256 @ [END_MARKER]) (new_blob 0) = Some (c, b) \<and>
     deserialize STACK_GROW_THRESHOLD blob_Read (snd (blob_Seek 0 SQ_SEEK_SET b)) = Stuck"
  using blob_depth_limit [of 256 STACK_GROW_THRESHOLD] by (simp add: STACK_GROW_THRESHOLD_def)

text \<open>A table with the two keys \<open>0.0\<close> and \<open>-0.0\<close>, which are different keys of a table, comes back with one binding: both keys are written as \<open>0.0\<close> and the second value replaces the first.\<close>

theorem blob_serialize_zeros:
  "\<exists>b b'. serialize blob_Write (VTable [Slot (VFloat 0) (VInt 1), Slot (VFloat 0x80000000) (VInt 2)]) (new_blob 0) = Done b \<and>
     deserialize STACK_GROW_THRESHOLD blob_Read (snd (blob_Seek 0 SQ_SEEK_SET b)) = Done (VTable [Slot (VFloat 0) (VInt 2)], b')"
  using blob_written_read [of "VTable [Slot (VFloat 0) (VInt 1), Slot (VFloat 0x80000000) (VInt 2)]" STACK_GROW_THRESHOLD]
  by (auto simp: MAX_DEPTH_def SQ_DESER_MAX_OBJECT_SIZE_def STACK_GROW_THRESHOLD_def CountUsed_def by_value_def)

end
