(* ===== verification/SqFloat.thy ===== *)
theory SqFloat
  imports Bytes
begin

text \<open>
  The arithmetic of \<open>SQFloat\<close>, an IEEE 754 single in its 32 bits, as C++ evaluates it: exact
  results rounded to the nearest float, ties to even. The magnitude of a float is a multiple of
  \<open>2 ^ (- 149)\<close>, so comparisons and exact results are integers; infinity reads as the next
  magnitude after the finite ones. NaN results follow x86: the first NaN operand made quiet, or
  the default NaN.
\<close>

subsection \<open>Rounding\<close>

fun nat_bits :: "nat \<Rightarrow> nat" where
  "nat_bits n = (if n = 0 then 0 else Suc (nat_bits (n div 2)))"

declare nat_bits.simps [simp del]

definition round_ratio :: "nat \<Rightarrow> nat \<Rightarrow> nat" where
  "round_ratio a b = (let q = a div b; r = a mod b in if 2 * r > b \<or> 2 * r = b \<and> odd q then q + 1 else q)"

text \<open>The bits of the float nearest to \<open>num / den\<close>; \<open>e\<close> is its binary exponent.\<close>

definition float_of_ratio :: "nat \<Rightarrow> nat \<Rightarrow> int" where
  "float_of_ratio num den =
     (if num = 0 then 0
      else
        (let e0 = int (nat_bits num) - int (nat_bits den);
             e1 = (if num * 2 ^ nat (- e0) \<ge> den * 2 ^ nat e0 then e0 else e0 - 1);
             e = max (- 126) e1
         in (e + 126) * 2 ^ 23 + int (round_ratio (num * 2 ^ nat (23 - e)) (den * 2 ^ nat (e - 23)))))"

subsection \<open>Reading a float\<close>

definition flt_exp :: "u32 \<Rightarrow> nat" where "flt_exp w = unat w div 2 ^ 23 mod 2 ^ 8"
definition flt_frac :: "u32 \<Rightarrow> nat" where "flt_frac w = unat w mod 2 ^ 23"
definition flt_neg :: "u32 \<Rightarrow> bool" where "flt_neg w \<longleftrightarrow> 2 ^ 31 \<le> unat w"
definition flt_is_nan :: "u32 \<Rightarrow> bool" where "flt_is_nan w \<longleftrightarrow> flt_exp w = 255 \<and> flt_frac w \<noteq> 0"
definition flt_is_inf :: "u32 \<Rightarrow> bool" where "flt_is_inf w \<longleftrightarrow> flt_exp w = 255 \<and> flt_frac w = 0"

definition flt_mag :: "u32 \<Rightarrow> nat" where
  "flt_mag w = (if flt_exp w = 0 then flt_frac w else (2 ^ 23 + flt_frac w) * 2 ^ (flt_exp w - 1))"

definition flt_val :: "u32 \<Rightarrow> int" where
  "flt_val w = (if flt_neg w then - int (flt_mag w) else int (flt_mag w))"

subsection \<open>Comparison and conversion\<close>

definition flt_eq :: "u32 \<Rightarrow> u32 \<Rightarrow> bool" where
  "flt_eq a b \<longleftrightarrow> \<not> flt_is_nan a \<and> \<not> flt_is_nan b \<and> flt_val a = flt_val b"

definition flt_lt :: "u32 \<Rightarrow> u32 \<Rightarrow> bool" where
  "flt_lt a b \<longleftrightarrow> \<not> flt_is_nan a \<and> \<not> flt_is_nan b \<and> flt_val a < flt_val b"

definition flt_of_ratio :: "bool \<Rightarrow> nat \<Rightarrow> nat \<Rightarrow> u32" where
  "flt_of_ratio neg num den = word_of_int ((if neg then 2 ^ 31 else 0) + min 0x7F800000 (float_of_ratio num den))"

definition flt_of_int :: "int \<Rightarrow> u32" where
  "flt_of_int i = flt_of_ratio (i < 0) (nat \<bar>i\<bar>) 1"

text \<open>\<open>(SQInteger)f\<close>: the integral part; x86 answers the least integer when it does not fit.\<close>

definition flt_to_int :: "u32 \<Rightarrow> u64" where
  "flt_to_int w =
     (let m = flt_mag w div 2 ^ 149; i = (if flt_neg w then - int m else int m) in
      if flt_is_nan w \<or> i < - (2 ^ 63) \<or> i \<ge> 2 ^ 63 then 0x8000000000000000 else word_of_int i)"

subsection \<open>Arithmetic\<close>

definition flt_default_nan :: u32 where "flt_default_nan = 0xFFC00000"
definition flt_quiet :: "u32 \<Rightarrow> u32" where "flt_quiet w = w OR 0x00400000"
definition flt_minus :: "u32 \<Rightarrow> u32" where "flt_minus w = w XOR 0x80000000"

definition flt_signed :: "bool \<Rightarrow> u32 \<Rightarrow> u32" where
  "flt_signed neg w = (if neg then w OR 0x80000000 else w)"

definition flt_nans :: "u32 \<Rightarrow> u32 \<Rightarrow> u32 \<Rightarrow> u32" where
  "flt_nans a b r = (if flt_is_nan a then flt_quiet a else if flt_is_nan b then flt_quiet b else r)"

definition flt_sum :: "u32 \<Rightarrow> u32 \<Rightarrow> u32" where
  "flt_sum a b =
     (if flt_is_inf a then (if flt_is_inf b \<and> flt_neg a \<noteq> flt_neg b then flt_default_nan else a)
      else if flt_is_inf b then b
      else (let s = flt_val a + flt_val b in
            if s = 0 then flt_signed (flt_neg a \<and> flt_neg b) 0
            else flt_of_ratio (s < 0) (nat \<bar>s\<bar>) (2 ^ 149)))"

definition flt_add :: "u32 \<Rightarrow> u32 \<Rightarrow> u32" where
  "flt_add a b = flt_nans a b (flt_sum a b)"

definition flt_sub :: "u32 \<Rightarrow> u32 \<Rightarrow> u32" where
  "flt_sub a b = flt_nans a b (flt_sum a (flt_minus b))"

definition flt_mul :: "u32 \<Rightarrow> u32 \<Rightarrow> u32" where
  "flt_mul a b = flt_nans a b
     (let neg = (flt_neg a \<noteq> flt_neg b) in
      if flt_is_inf a \<or> flt_is_inf b then
        (if flt_mag a = 0 \<or> flt_mag b = 0 then flt_default_nan else flt_signed neg 0x7F800000)
      else flt_of_ratio neg (flt_mag a * flt_mag b) (2 ^ 298))"

definition flt_div :: "u32 \<Rightarrow> u32 \<Rightarrow> u32" where
  "flt_div a b = flt_nans a b
     (let neg = (flt_neg a \<noteq> flt_neg b) in
      if flt_is_inf a then (if flt_is_inf b then flt_default_nan else flt_signed neg 0x7F800000)
      else if flt_is_inf b then flt_signed neg 0
      else if flt_mag b = 0 then (if flt_mag a = 0 then flt_default_nan else flt_signed neg 0x7F800000)
      else flt_of_ratio neg (flt_mag a) (flt_mag b))"

text \<open>\<open>SQFloat(fmod((double)f1, (double)f2))\<close>: the remainder is exact and fits in a float.\<close>

definition flt_fmod :: "u32 \<Rightarrow> u32 \<Rightarrow> u32" where
  "flt_fmod a b = flt_nans a b
     (if flt_is_inf a \<or> flt_mag b = 0 then flt_default_nan
      else if flt_is_inf b then a
      else flt_of_ratio (flt_neg a) (flt_mag a mod flt_mag b) (2 ^ 149))"

subsection \<open>Laws\<close>

lemma flt_eq_sym: "flt_eq a b \<longleftrightarrow> flt_eq b a"
  by (auto simp: flt_eq_def)

lemma flt_eq_refl: "\<not> flt_is_nan a \<Longrightarrow> flt_eq a a"
  by (simp add: flt_eq_def)

lemma flt_trichotomy: "\<not> flt_is_nan a \<Longrightarrow> \<not> flt_is_nan b \<Longrightarrow> flt_lt a b \<or> flt_eq a b \<or> flt_lt b a"
  by (auto simp: flt_eq_def flt_lt_def)

lemma flt_lt_not: "flt_lt a b \<Longrightarrow> \<not> flt_eq a b \<and> \<not> flt_lt b a"
  by (auto simp: flt_eq_def flt_lt_def)

end
