(* ===== verification/Lexer.thy ===== *)
theory Lexer
  imports CharClass SqFloat
begin

text \<open>
  The lexer, \<^verbatim>\<open>squirrel/compiler/lexer.cpp\<close>. The struct \<open>SQLexer\<close> is the record below:
  the source text is what is left of it from \<open>_sourceTextPtr\<close> on, \<open>_longstr\<close> and \<open>_svalue\<close>
  hold the terminating NUL, and the comments are null or a list of lines. Every diagnostic of
  the lexer is an error, so \<open>reportDiagnostic\<close> throws: results are an error with its position
  or a value.
\<close>

datatype lexer_state = LS_REGULAR | LS_TEMPLATE

datatype comment_kind = CK_NONE | CK_LINE | CK_BLOCK | CK_ML_BLOCK

record comment_data =
  cd_kind :: comment_kind
  cd_text :: string
  cd_line :: int
  cd_begin :: int
  cd_end :: int

record lexer =
  lx_source :: string
  lx_reached_eof :: bool
  lx_cur :: char
  lx_curtoken :: int
  lx_prevtoken :: int
  lx_currentline :: int
  lx_lasttokenline :: int
  lx_lasttokencolumn :: int
  lx_currentcolumn :: int
  lx_tokencolumn :: int
  lx_tokenline :: int
  lx_expectedToken :: int
  lx_prevflags :: u32
  lx_flags :: u32
  lx_state :: lexer_state
  lx_svalue :: "string option"
  lx_nvalue :: u64
  lx_fvalue :: u32
  lx_longstr :: string
  lx_comments :: "comment_data list list option"
  lx_currentComment :: string

text \<open>The diagnostics the lexer reports, with the argument of their message.\<close>

datatype lex_diag =
    DI_LITERAL_OVERFLOW string
  | DI_LITERAL_UNDERFLOW string
  | DI_FP_EXP_EXPECTED
  | DI_MALFORMED_NUMBER
  | DI_HEX_DIGITS_EXPECTED
  | DI_HEX_TOO_MANY_DIGITS
  | DI_OCTAL_NOT_SUPPORTED
  | DI_TOO_LONG_LITERAL
  | DI_EMPTY_LITERAL
  | DI_UNRECOGNISED_ESCAPER
  | DI_NEWLINE_IN_CONST
  | DI_UNFINISHED_STRING
  | DI_HEX_NUMBERS_EXPECTED
  | DI_UNEXPECTED_CHAR string
  | DI_INVALID_TOKEN string
  | DI_LEX_ERROR_PARSE string
  | DI_EXPECTED_LEX string
  | DI_TRAILING_BLOCK_COMMENT

record lex_error =
  le_diag :: lex_diag
  le_line :: int
  le_column :: int
  le_width :: int

type_synonym 'a lex_res = "lex_error + 'a"
type_synonym lex_step = "lexer \<Rightarrow> (int \<times> lexer) lex_res"

definition report :: "lex_diag \<Rightarrow> lexer \<Rightarrow> 'a lex_res" where
  "report d l = Inl \<lparr>le_diag = d, le_line = lx_tokenline l, le_column = lx_tokencolumn l,
     le_width = lx_currentcolumn l - lx_tokencolumn l\<rparr>"

definition lex_bind :: "'a lex_res \<Rightarrow> ('a \<Rightarrow> 'b lex_res) \<Rightarrow> 'b lex_res" where
  "lex_bind m f = (case m of Inl e \<Rightarrow> Inl e | Inr x \<Rightarrow> f x)"

lemma lex_bind_simps [simp]: "lex_bind (Inl e) f = Inl e" "lex_bind (Inr x) f = f x"
  by (simp_all add: lex_bind_def)

lemma lex_bind_Inr: "lex_bind m f = Inr y \<longleftrightarrow> (\<exists>x. m = Inr x \<and> f x = Inr y)"
  by (cases m) auto

lemma lex_bind_cong [fundef_cong]: "m = m' \<Longrightarrow> (\<And>x. m' = Inr x \<Longrightarrow> f x = f' x) \<Longrightarrow> lex_bind m f = lex_bind m' f'"
  by (cases m') auto

lemma report_Inr [simp]: "report d l \<noteq> Inr x"
  by (simp add: report_def)

lemma if_report_Inr: "(if c then report d l else x) = Inr y \<longleftrightarrow> \<not> c \<and> x = Inr y"
  by simp

subsection \<open>Tokens\<close>

definition TK_IDENTIFIER :: int where "TK_IDENTIFIER = 258"
definition TK_STRING_LITERAL :: int where "TK_STRING_LITERAL = 259"
definition TK_INTEGER :: int where "TK_INTEGER = 260"
definition TK_FLOAT :: int where "TK_FLOAT = 261"
definition TK_EQ :: int where "TK_EQ = 264"
definition TK_NE :: int where "TK_NE = 265"
definition TK_LE :: int where "TK_LE = 266"
definition TK_GE :: int where "TK_GE = 267"
definition TK_AND :: int where "TK_AND = 270"
definition TK_OR :: int where "TK_OR = 271"
definition TK_NEWSLOT :: int where "TK_NEWSLOT = 281"
definition TK_PLUSEQ :: int where "TK_PLUSEQ = 289"
definition TK_MINUSEQ :: int where "TK_MINUSEQ = 290"
definition TK_SHIFTL :: int where "TK_SHIFTL = 296"
definition TK_SHIFTR :: int where "TK_SHIFTR = 297"
definition TK_DOUBLE_COLON :: int where "TK_DOUBLE_COLON = 299"
definition TK_PLUSPLUS :: int where "TK_PLUSPLUS = 303"
definition TK_MINUSMINUS :: int where "TK_MINUSMINUS = 304"
definition TK_3WAYSCMP :: int where "TK_3WAYSCMP = 305"
definition TK_USHIFTR :: int where "TK_USHIFTR = 306"
definition TK_CONSTRUCTOR :: int where "TK_CONSTRUCTOR = 310"
definition TK_VARPARAMS :: int where "TK_VARPARAMS = 312"
definition TK_MULEQ :: int where "TK_MULEQ = 317"
definition TK_DIVEQ :: int where "TK_DIVEQ = 318"
definition TK_MODEQ :: int where "TK_MODEQ = 319"
definition TK_NULLGETSTR :: int where "TK_NULLGETSTR = 326"
definition TK_NULLGETOBJ :: int where "TK_NULLGETOBJ = 327"
definition TK_NULLCOALESCE :: int where "TK_NULLCOALESCE = 328"
definition TK_NULLCALL :: int where "TK_NULLCALL = 329"
definition TK_DIRECTIVE :: int where "TK_DIRECTIVE = 332"
definition TK_TEMPLATE_PREFIX :: int where "TK_TEMPLATE_PREFIX = 337"
definition TK_TEMPLATE_SUFFIX :: int where "TK_TEMPLATE_SUFFIX = 339"
definition TK_TEMPLATE_OP :: int where "TK_TEMPLATE_OP = 340"
definition TK_TYPE_METHOD_GETSTR :: int where "TK_TYPE_METHOD_GETSTR = 341"
definition TK_NULLABLE_TYPE_METHOD_GETSTR :: int where "TK_NULLABLE_TYPE_METHOD_GETSTR = 342"
definition TK_DOCSTRING :: int where "TK_DOCSTRING = 343"
definition TK_CODE_BLOCK_EXPR :: int where "TK_CODE_BLOCK_EXPR = 344"

definition TF_PREP_EOL :: u32 where "TF_PREP_EOL = 1"
definition TF_PREP_SPACE :: u32 where "TF_PREP_SPACE = 2"

text \<open>The keyword table of \<open>Init\<close>; \<open>GetIDType\<close> looks a name up in it.\<close>

definition lex_keywords :: "(string \<times> int) list" where
  "lex_keywords =
     [(''while'', 274), (''do'', 277), (''if'', 272), (''else'', 273), (''break'', 275),
      (''continue'', 291), (''return'', 286), (''null'', 278), (''function'', 285), (''local'', 283),
      (''for'', 276), (''foreach'', 279), (''in'', 280), (''typeof'', 287), (''base'', 262),
      (''delete'', 263), (''try'', 293), (''catch'', 294), (''throw'', 295), (''clone'', 284),
      (''yield'', 292), (''resume'', 298), (''switch'', 268), (''case'', 300), (''default'', 301),
      (''this'', 302), (''class'', 307), (''constructor'', 310), (''instanceof'', 311), (''true'', 315),
      (''false'', 316), (''static'', 322), (''enum'', 323), (''const'', 324), (''__LINE__'', 313),
      (''__FILE__'', 314), (''global'', 331), (''not'', 334), (''let'', 336)]"

definition GetIDType :: "string \<Rightarrow> int" where
  "GetIDType s = (case map_of lex_keywords s of Some t \<Rightarrow> t | None \<Rightarrow> TK_IDENTIFIER)"

fun find_key :: "int \<Rightarrow> (string \<times> int) list \<Rightarrow> string option" where
  "find_key tok [] = None"
| "find_key tok ((k, v) # kvs) = (if v = tok then Some k else find_key tok kvs)"

definition Tok2Str :: "int \<Rightarrow> string option" where
  "Tok2Str tok = find_key tok lex_keywords"

subsection \<open>Characters\<close>

definition Next :: "lexer \<Rightarrow> lexer" where
  "Next l =
     (case lx_source l of
        [] \<Rightarrow> l\<lparr>lx_reached_eof := True, lx_cur := NUL\<rparr>
      | c # s \<Rightarrow> l\<lparr>lx_cur := c, lx_source := s\<rparr>)"

definition NEXT :: "lexer \<Rightarrow> lexer" where
  "NEXT l = (let l = Next l in l\<lparr>lx_currentcolumn := lx_currentcolumn l + 1\<rparr>)"

definition IS_EOB :: "lexer \<Rightarrow> bool" where
  "IS_EOB l \<longleftrightarrow> lx_cur l = NUL"

definition INIT_TEMP_STRING :: "lexer \<Rightarrow> lexer" where
  "INIT_TEMP_STRING l = l\<lparr>lx_longstr := []\<rparr>"

definition APPEND_CHAR :: "char \<Rightarrow> lexer \<Rightarrow> lexer" where
  "APPEND_CHAR c l = l\<lparr>lx_longstr := lx_longstr l @ [c]\<rparr>"

definition TERMINATE_BUFFER :: "lexer \<Rightarrow> lexer" where
  "TERMINATE_BUFFER l = APPEND_CHAR NUL l"

definition SetStringValue :: "lexer \<Rightarrow> lexer" where
  "SetStringValue l = l\<lparr>lx_svalue := Some (lx_longstr l)\<rparr>"

definition RETURN_TOKEN :: "int \<Rightarrow> lexer \<Rightarrow> (int \<times> lexer) lex_res" where
  "RETURN_TOKEN t l =
     Inr (t, l\<lparr>lx_prevtoken := lx_curtoken l, lx_prevflags := lx_flags l, lx_flags := 0, lx_curtoken := t\<rparr>)"

definition pushNewLine :: "comment_data list list option \<Rightarrow> comment_data list list option" where
  "pushNewLine cs = map_option (\<lambda>ls. ls @ [[]]) cs"

definition nextLine :: "lexer \<Rightarrow> lexer" where
  "nextLine l = l\<lparr>lx_currentline := lx_currentline l + 1, lx_comments := pushNewLine (lx_comments l)\<rparr>"

text \<open>The members with their initial values, and \<open>Init\<close>.\<close>

definition new_lexer :: "bool \<Rightarrow> lexer" where
  "new_lexer with_comments =
     \<lparr>lx_source = [], lx_reached_eof = False, lx_cur = NUL, lx_curtoken = - 1, lx_prevtoken = - 1,
      lx_currentline = 1, lx_lasttokenline = - 1, lx_lasttokencolumn = 0, lx_currentcolumn = 0,
      lx_tokencolumn = 0, lx_tokenline = 1, lx_expectedToken = - 1, lx_prevflags = 0, lx_flags = 0,
      lx_state = LS_REGULAR, lx_svalue = None, lx_nvalue = 0, lx_fvalue = 0, lx_longstr = [],
      lx_comments = (if with_comments then Some [] else None), lx_currentComment = []\<rparr>"

definition lexer_Init :: "string \<Rightarrow> lexer \<Rightarrow> lexer" where
  "lexer_Init src l =
     Next (l\<lparr>lx_source := src, lx_lasttokenline := 1, lx_currentline := 1, lx_lasttokencolumn := 0,
             lx_currentcolumn := 0, lx_prevtoken := - 1, lx_tokencolumn := 0, lx_tokenline := 1,
             lx_reached_eof := False, lx_comments := pushNewLine (lx_comments l)\<rparr>)"

text \<open>
  The input that is left. Moving on from a character that is not the end takes some of it, and
  so does reaching a character that is not the end.
\<close>

definition lx_left :: "lexer \<Rightarrow> nat" where
  "lx_left l = 2 * length (lx_source l) + (if lx_cur l = NUL then 0 else 1)"

lemma NEXT_left_le: "lx_left (NEXT l) \<le> lx_left l"
  by (auto simp: lx_left_def NEXT_def Next_def Let_def split: list.splits)

lemma NEXT_left: "lx_cur l \<noteq> NUL \<Longrightarrow> lx_left (NEXT l) < lx_left l"
  by (auto simp: lx_left_def NEXT_def Next_def Let_def split: list.splits)

lemma NEXT_left': "lx_cur (NEXT l) \<noteq> NUL \<Longrightarrow> lx_left (NEXT l) < lx_left l"
  by (auto simp: lx_left_def NEXT_def Next_def Let_def split: list.splits)

text \<open>Updates that do not move the lexer.\<close>

lemma stay_left [simp]:
  "lx_left (APPEND_CHAR c l) = lx_left l" "lx_left (INIT_TEMP_STRING l) = lx_left l"
  "lx_left (TERMINATE_BUFFER l) = lx_left l" "lx_left (SetStringValue l) = lx_left l" "lx_left (nextLine l) = lx_left l"
  by (simp_all add: lx_left_def APPEND_CHAR_def INIT_TEMP_STRING_def TERMINATE_BUFFER_def SetStringValue_def nextLine_def)

lemma stay_cur [simp]:
  "lx_cur (APPEND_CHAR c l) = lx_cur l" "lx_cur (INIT_TEMP_STRING l) = lx_cur l"
  "lx_cur (TERMINATE_BUFFER l) = lx_cur l" "lx_cur (SetStringValue l) = lx_cur l" "lx_cur (nextLine l) = lx_cur l"
  by (simp_all add: APPEND_CHAR_def INIT_TEMP_STRING_def TERMINATE_BUFFER_def SetStringValue_def nextLine_def)

end
