(* ===== verification/LexScan.thy ===== *)
theory LexScan
  imports Lexer
begin

text \<open>
  The scanners of \<^verbatim>\<open>squirrel/compiler/lexer.cpp\<close>: comments, identifiers and directives,
  numbers, and strings with their escapes. Each loop terminates because every turn takes a
  character of the input (\<open>lx_left\<close>).
\<close>

lemmas NEXT_lefts = NEXT_left NEXT_left' NEXT_left_le

subsection \<open>Comments\<close>

definition push_comment_char :: "char \<Rightarrow> lexer \<Rightarrow> lexer" where
  "push_comment_char c l = l\<lparr>lx_currentComment := lx_currentComment l @ [c]\<rparr>"

definition AddComment :: "comment_kind \<Rightarrow> int \<Rightarrow> int \<Rightarrow> int \<Rightarrow> lexer \<Rightarrow> lexer" where
  "AddComment kind line start end l =
     (case lx_comments l of
        None \<Rightarrow> l
      | Some ls \<Rightarrow>
          l\<lparr>lx_comments := Some (butlast ls @ [last ls @
               [\<lparr>cd_kind = kind, cd_text = lx_currentComment l, cd_line = line, cd_begin = start, cd_end = end\<rparr>]]),
            lx_currentComment := []\<rparr>)"

lemma comment_stay [simp]:
  "lx_left (push_comment_char c l) = lx_left l" "lx_left (AddComment k n a b l) = lx_left l"
  "lx_cur (push_comment_char c l) = lx_cur l" "lx_cur (AddComment k n a b l) = lx_cur l"
  by (simp_all add: lx_left_def push_comment_char_def AddComment_def split: option.splits)

function block_comment_loop :: "comment_kind \<Rightarrow> int \<Rightarrow> int \<Rightarrow> lexer \<Rightarrow> lexer lex_res" where
  "block_comment_loop k line start l =
     (let l = push_comment_char (lx_cur l) l in
      if lx_cur l = CHR ''*'' then
        (let l = NEXT l in
         if lx_cur l = CHR ''/'' then
           (let l = NEXT l in Inr (AddComment k (if k = CK_ML_BLOCK then line else 0) start (lx_currentcolumn l) l))
         else block_comment_loop k line start l)
      else if lx_cur l = CHR 0x0A then
        (let l = NEXT (nextLine (AddComment CK_ML_BLOCK line start (lx_currentcolumn l) l)) in
         block_comment_loop CK_ML_BLOCK (line + 1) (lx_currentcolumn l) l)
      else if lx_cur l = NUL then report DI_TRAILING_BLOCK_COMMENT l
      else block_comment_loop k line start (NEXT l))"
  by pat_completeness auto
termination
  by (relation "measure (\<lambda>(k, line, start, l). lx_left l)") (auto intro!: NEXT_left [THEN order_less_le_trans])

definition LexBlockComment :: "lexer \<Rightarrow> lexer lex_res" where
  "LexBlockComment l = block_comment_loop CK_BLOCK 1 (lx_currentcolumn l) l"

function line_comment_loop :: "lexer \<Rightarrow> lexer" where
  "line_comment_loop l =
     (let l = NEXT l; l = push_comment_char (lx_cur l) l in
      if lx_cur l \<noteq> CHR 0x0A \<and> \<not> IS_EOB l then line_comment_loop l else l)"
  by pat_completeness auto
termination
  by (relation "measure lx_left") (auto simp: IS_EOB_def intro: NEXT_left')

definition LexLineComment :: "lexer \<Rightarrow> lexer" where
  "LexLineComment l =
     (let start = lx_currentcolumn l; l = line_comment_loop l in AddComment CK_LINE 0 start (lx_currentcolumn l) l)"

subsection \<open>Identifiers and directives\<close>

abbreviation cur_is :: "(int \<Rightarrow> bool) \<Rightarrow> lexer \<Rightarrow> bool" where
  "cur_is p l \<equiv> p (of_char (lx_cur l))"

definition id_char :: "lexer \<Rightarrow> bool" where
  "id_char l \<longleftrightarrow> cur_is sq_isalnum l \<or> lx_cur l = CHR ''_''"

definition directive_char :: "lexer \<Rightarrow> bool" where
  "directive_char l \<longleftrightarrow> cur_is sq_isalnum l \<or> lx_cur l = CHR ''_'' \<or> lx_cur l = CHR ''-'' \<or> lx_cur l = CHR '':''"

lemma class_not_NUL:
  "cur_is sq_isalnum l \<Longrightarrow> lx_cur l \<noteq> NUL" "cur_is sq_isxdigit l \<Longrightarrow> lx_cur l \<noteq> NUL" "cur_is sq_isdigit l \<Longrightarrow> lx_cur l \<noteq> NUL"
  by (auto simp: char_class_defs uc_def)

text \<open>\<open>do { APPEND_CHAR(CUR_CHAR); NEXT(); } while (...)\<close>\<close>

function id_loop :: "lexer \<Rightarrow> lexer" where
  "id_loop l = (let l = NEXT (APPEND_CHAR (lx_cur l) l) in if id_char l then id_loop l else l)"
  by pat_completeness auto
termination
  by (relation "measure lx_left") (auto simp: id_char_def dest!: class_not_NUL intro: NEXT_left' [THEN order_less_le_trans])

function directive_loop :: "lexer \<Rightarrow> lexer" where
  "directive_loop l = (let l = NEXT (APPEND_CHAR (lx_cur l) l) in if directive_char l then directive_loop l else l)"
  by pat_completeness auto
termination
  by (relation "measure lx_left") (auto simp: directive_char_def dest!: class_not_NUL intro: NEXT_left' [THEN order_less_le_trans])

definition ReadID :: "lexer \<Rightarrow> int \<times> lexer" where
  "ReadID l =
     (let l = TERMINATE_BUFFER (id_loop (INIT_TEMP_STRING l));
          res = GetIDType (butlast (lx_longstr l))
      in (res, if res = TK_IDENTIFIER \<or> res = TK_CONSTRUCTOR then SetStringValue l else l))"

definition ReadDirective :: "lexer \<Rightarrow> int \<times> lexer" where
  "ReadDirective l =
     (let l = TERMINATE_BUFFER (directive_loop (INIT_TEMP_STRING l)) in
      if cur_char (lx_longstr l) = NUL then (- 1, l) else (TK_DIRECTIVE, SetStringValue l))"

subsection \<open>Numbers\<close>

text \<open>\<open>NUM_NEXT\<close>: \<open>do NEXT() while (CUR_CHAR=='_')\<close>.\<close>

function NUM_NEXT :: "lexer \<Rightarrow> lexer" where
  "NUM_NEXT l = (let l = NEXT l in if lx_cur l = CHR ''_'' then NUM_NEXT l else l)"
  by pat_completeness auto
termination
  by (relation "measure lx_left") (auto intro: NEXT_left')

declare NUM_NEXT.simps [simp del] id_loop.simps [simp del] directive_loop.simps [simp del]
  line_comment_loop.simps [simp del] block_comment_loop.simps [simp del]

lemma NUM_NEXT_le_NEXT: "lx_left (NUM_NEXT l) \<le> lx_left (NEXT l)"
proof (induction l rule: NUM_NEXT.induct)
  case (1 l)
  then show ?case
    by (subst NUM_NEXT.simps) (use NEXT_left_le [of "NEXT l"] in \<open>auto simp: Let_def\<close>)
qed

lemma NUM_NEXT_left: "lx_cur l \<noteq> NUL \<Longrightarrow> lx_left (NUM_NEXT l) < lx_left l"
  using NUM_NEXT_le_NEXT [of l] NEXT_left [of l] by linarith

lemma NUM_NEXT_left_le: "lx_left (NUM_NEXT l) \<le> lx_left l"
  using NUM_NEXT_le_NEXT [of l] NEXT_left_le [of l] by linarith

text \<open>The C string is over at its first NUL. Only hexadecimal digits reach the first function.\<close>

definition digit_value :: "char \<Rightarrow> u64" where
  "digit_value c = word_of_int (schar c - schar CHR ''0'')"

fun LexHexadecimal :: "string \<Rightarrow> u64 \<Rightarrow> u64 option" where
  "LexHexadecimal [] res = Some res"
| "LexHexadecimal (c # s) res =
     (if c = NUL then Some res
      else if sq_isdigit (schar c) then LexHexadecimal s (res * 16 + digit_value c)
      else if sq_isxdigit (schar c) then
        LexHexadecimal s (res * 16 + word_of_int (sq_toupper (schar c) - schar CHR ''A'' + 10))
      else None)"

definition INT_OVERFLOW_THRESHOLD :: u64 where "INT_OVERFLOW_THRESHOLD = NOT 0 div 10"
definition INT_OVERFLOW_DIGIT :: u64 where "INT_OVERFLOW_DIGIT = NOT 0 mod 10"

text \<open>\<open>None\<close> is the result \<open>false\<close>.\<close>

fun LexInteger :: "string \<Rightarrow> u64 \<Rightarrow> u64 option" where
  "LexInteger [] x = (if x \<le> drop_bit 1 (NOT 0) then Some x else None)"
| "LexInteger (c # s) x =
     (if c = NUL then (if x \<le> drop_bit 1 (NOT 0) then Some x else None)
      else
        (let digit = digit_value c in
         if x > INT_OVERFLOW_THRESHOLD \<or> x = INT_OVERFLOW_THRESHOLD \<and> digit > INT_OVERFLOW_DIGIT then None
         else LexInteger s (x * 10 + digit)))"

definition isexponent :: "lexer \<Rightarrow> bool" where
  "isexponent l \<longleftrightarrow> lx_cur l = CHR ''e'' \<or> lx_cur l = CHR ''E''"

subsubsection \<open>Floats\<close>

text \<open>
  \<open>std::from_chars\<close> of the C++ standard for a decimal number: the longest prefix of digits, a
  fraction and an exponent, rounded to the nearest float (ties to even). A value that overflows
  or a nonzero one that rounds to zero is out of range, and then no value is stored.
\<close>

definition is_dec :: "char \<Rightarrow> bool" where
  "is_dec c \<longleftrightarrow> sq_isdigit (of_char c)"

definition dec_value :: "string \<Rightarrow> nat" where
  "dec_value s = foldl (\<lambda>n c. 10 * n + (of_char c - 48)) 0 s"

datatype charconv_ec = ConvOk u32 | ConvOutOfRange | ConvInvalid

definition from_chars_exponent :: "string \<Rightarrow> int \<times> string" where
  "from_chars_exponent s =
     (case s of
        [] \<Rightarrow> (0, s)
      | c # r \<Rightarrow>
          if c = CHR ''e'' \<or> c = CHR ''E'' then
            (let neg = (cur_char r = CHR ''-'');
                 r' = (if cur_char r = CHR ''-'' \<or> cur_char r = CHR ''+'' then tl r else r);
                 ds = takeWhile is_dec r'
             in if ds = [] then (0, s)
                else ((if neg then - int (dec_value ds) else int (dec_value ds)), dropWhile is_dec r'))
          else (0, s))"

definition from_chars :: "string \<Rightarrow> charconv_ec \<times> string" where
  "from_chars s =
     (let ip = takeWhile is_dec s; s1 = dropWhile is_dec s;
          fp = (if cur_char s1 = CHR ''.'' then takeWhile is_dec (tl s1) else []);
          s2 = (if cur_char s1 = CHR ''.'' then dropWhile is_dec (tl s1) else s1);
          (e, s3) = from_chars_exponent s2;
          x = e - int (length fp);
          m = dec_value (ip @ fp);
          f = float_of_ratio (m * 10 ^ nat x) (10 ^ nat (- x))
      in if ip @ fp = [] then (ConvInvalid, s)
         else if f \<ge> 0x7F800000 \<or> f = 0 \<and> m \<noteq> 0 then (ConvOutOfRange, s3)
         else (ConvOk (word_of_int f), s3))"

definition FLT_MAX :: u32 where "FLT_MAX = 0x7F7FFFFF"

text \<open>The float branch of \<open>ReadNumber\<close>, on the buffer with its NUL; no sign can be in it.\<close>

definition read_float :: lex_step where
  "read_float l =
     (let (ec, rest) = from_chars (lx_longstr l) in
      lex_bind
        (case ec of
           ConvOutOfRange \<Rightarrow>
             report (if lx_fvalue l = 0 \<or> lx_fvalue l = 0x80000000 then DI_LITERAL_UNDERFLOW ''float'' else DI_LITERAL_OVERFLOW ''float'') l
         | ConvInvalid \<Rightarrow> Inr l
         | ConvOk f \<Rightarrow> Inr (l\<lparr>lx_fvalue := f\<rparr>))
        (\<lambda>l. if \<exists>c \<in> set (butlast rest). c \<noteq> CHR ''0'' then report DI_MALFORMED_NUMBER l
             else if lx_fvalue l \<ge> FLT_MAX \<and> lx_fvalue l \<le> 0x7F800000 then report (DI_LITERAL_OVERFLOW ''float'') l
             else Inr (TK_FLOAT, l)))"

subsubsection \<open>ReadNumber\<close>

datatype num_type = TINT | TFLOAT | THEX | TSCIENTIFIC

definition MAX_HEX_DIGITS :: nat where "MAX_HEX_DIGITS = 16"

function hex_loop :: "lexer \<Rightarrow> lexer" where
  "hex_loop l = (if cur_is sq_isxdigit l then hex_loop (NUM_NEXT (APPEND_CHAR (lx_cur l) l)) else l)"
  by pat_completeness auto
termination
  by (relation "measure lx_left") (auto dest!: class_not_NUL intro: NUM_NEXT_left [THEN order_less_le_trans])

definition append_next :: "lexer \<Rightarrow> lexer" where
  "append_next l = NEXT (APPEND_CHAR (lx_cur l) l)"

text \<open>One turn of the loop up to the character that is appended: the flags and the type.\<close>

definition number_char :: "bool \<Rightarrow> bool \<Rightarrow> num_type \<Rightarrow> lexer \<Rightarrow> (bool \<times> bool \<times> num_type \<times> lexer) lex_res" where
  "number_char hasDot hasExp type l =
     lex_bind
       (if lx_cur l = CHR ''.'' then
          (if hasDot \<or> hasExp then report DI_MALFORMED_NUMBER l else Inr (True, hasExp, TFLOAT, l))
        else if isexponent l then
          (if hasExp then report DI_MALFORMED_NUMBER l
           else
             (let l = append_next l;
                  l = (if lx_cur l = CHR ''+'' \<or> lx_cur l = CHR ''-'' then append_next l else l)
              in if \<not> cur_is sq_isdigit l then report DI_FP_EXP_EXPECTED l else Inr (hasDot, True, TSCIENTIFIC, l)))
        else Inr (hasDot, hasExp, type, l))
       (\<lambda>(hasDot, hasExp, type, l).
          if \<not> cur_is sq_isdigit l \<and> \<not> isexponent l \<and> lx_cur l \<noteq> CHR ''.'' then report DI_MALFORMED_NUMBER l
          else Inr (hasDot, hasExp, type, l))"

lemma append_next_left: "lx_left (append_next l) \<le> lx_left l"
  using NEXT_left_le [of "APPEND_CHAR (lx_cur l) l"] by (simp add: append_next_def)

lemma number_char_left:
  assumes "number_char d e ty l = Inr (d', e', ty', l')"
  shows "lx_left l' \<le> lx_left l" "lx_cur l' \<noteq> NUL"
proof -
  have "lx_left (append_next (append_next l)) \<le> lx_left l"
    using append_next_left [of l] append_next_left [of "append_next l"] by linarith
  then show "lx_left l' \<le> lx_left l"
    using assms append_next_left [of l]
    by (auto simp: number_char_def lex_bind_Inr Let_def split: if_splits)
  show "lx_cur l' \<noteq> NUL"
    using assms by (auto simp: number_char_def lex_bind_Inr isexponent_def Let_def dest: class_not_NUL split: if_splits)
qed

lemma number_char_next:
  "number_char d e ty l = Inr (d', e', ty', l') \<Longrightarrow> lx_left (NUM_NEXT (APPEND_CHAR (lx_cur l') l')) < lx_left l"
  using number_char_left [of d e ty l d' e' ty' l'] NUM_NEXT_left [of "APPEND_CHAR (lx_cur l') l'"] by simp

function number_loop :: "bool \<Rightarrow> bool \<Rightarrow> num_type \<Rightarrow> lexer \<Rightarrow> (num_type \<times> lexer) lex_res" where
  "number_loop hasDot hasExp type l =
     (if lx_cur l = CHR ''.'' \<or> cur_is sq_isalnum l then
        lex_bind (number_char hasDot hasExp type l)
          (\<lambda>(hasDot, hasExp, type, l). number_loop hasDot hasExp type (NUM_NEXT (APPEND_CHAR (lx_cur l) l)))
      else Inr (type, l))"
  by pat_completeness auto
termination
  by (relation "measure (\<lambda>(d, e, ty, l). lx_left l)")
    (auto intro: number_char_next)

declare hex_loop.simps [simp del] number_loop.simps [simp del]

definition read_hex :: "lexer \<Rightarrow> lexer lex_res" where
  "read_hex l =
     (let l = hex_loop (NUM_NEXT l) in
      if length (lx_longstr l) > MAX_HEX_DIGITS then report DI_HEX_TOO_MANY_DIGITS l
      else if lx_longstr l = [] then report DI_HEX_DIGITS_EXPECTED l
      else Inr l)"

text \<open>\<open>LexHexadecimal\<close> never meets its assertion here: \<open>hex_loop\<close> appends hexadecimal digits only.\<close>

definition finish_number :: "num_type \<Rightarrow> lex_step" where
  "finish_number type l =
     (let l = TERMINATE_BUFFER l in
      case type of
        TSCIENTIFIC \<Rightarrow> read_float l
      | TFLOAT \<Rightarrow> read_float l
      | TINT \<Rightarrow>
          (case LexInteger (lx_longstr l) 0 of
             None \<Rightarrow> report (DI_LITERAL_OVERFLOW ''integer'') l
           | Some x \<Rightarrow> Inr (TK_INTEGER, l\<lparr>lx_nvalue := x\<rparr>))
      | THEX \<Rightarrow>
          (case LexHexadecimal (lx_longstr l) 0 of
             None \<Rightarrow> report DI_MALFORMED_NUMBER l
           | Some x \<Rightarrow> Inr (TK_INTEGER, l\<lparr>lx_nvalue := x\<rparr>)))"

definition ReadNumber :: lex_step where
  "ReadNumber l =
     (let firstchar = lx_cur l; l = NUM_NEXT (INIT_TEMP_STRING l) in
      if firstchar = CHR ''0'' \<and> cur_is sq_isdigit l then report DI_OCTAL_NOT_SUPPORTED l
      else if firstchar = CHR ''0'' \<and> (lx_cur l = CHR ''X'' \<or> lx_cur l = CHR ''x'') then
        lex_bind (read_hex l) (finish_number THEX)
      else
        lex_bind (number_loop False False TINT (APPEND_CHAR firstchar l)) (\<lambda>(type, l). finish_number type l))"

subsection \<open>Strings\<close>

definition low_char :: "u64 \<Rightarrow> char" where
  "low_char w = char_of (unat (ucast w :: byte))"

text \<open>\<open>AddUTF8\<close>: the bytes appended and the count returned.\<close>

definition utf8_bytes :: "u64 \<Rightarrow> string" where
  "utf8_bytes ch =
     (if ch < 0x80 then [low_char ch]
      else if ch < 0x800 then [low_char (drop_bit 6 ch OR 0xC0), low_char ((ch AND 0x3F) OR 0x80)]
      else if ch < 0x10000 then
        [low_char (drop_bit 12 ch OR 0xE0), low_char ((drop_bit 6 ch AND 0x3F) OR 0x80), low_char ((ch AND 0x3F) OR 0x80)]
      else if ch < 0x110000 then
        [low_char (drop_bit 18 ch OR 0xF0), low_char ((drop_bit 12 ch AND 0x3F) OR 0x80),
         low_char ((drop_bit 6 ch AND 0x3F) OR 0x80), low_char ((ch AND 0x3F) OR 0x80)]
      else [])"

definition AddUTF8 :: "u64 \<Rightarrow> lexer \<Rightarrow> int \<times> lexer" where
  "AddUTF8 ch l = (int (length (utf8_bytes ch)), l\<lparr>lx_longstr := lx_longstr l @ utf8_bytes ch\<rparr>)"

fun hex_escape_loop :: "nat \<Rightarrow> string \<Rightarrow> lexer \<Rightarrow> string \<times> lexer" where
  "hex_escape_loop 0 dest l = (dest, l)"
| "hex_escape_loop (Suc n) dest l =
     (if cur_is sq_isxdigit l then hex_escape_loop n (dest @ [lx_cur l]) (NEXT l) else (dest, l))"

definition ProcessStringHexEscape :: "nat \<Rightarrow> lexer \<Rightarrow> (string \<times> lexer) lex_res" where
  "ProcessStringHexEscape maxdigits l =
     (let l = NEXT l in
      if \<not> cur_is sq_isxdigit l then report DI_HEX_NUMBERS_EXPECTED l
      else Inr (hex_escape_loop maxdigits [] l))"

text \<open>\<open>strtoul\<close> in base 16 on hexadecimal digits.\<close>

definition hex_value :: "char \<Rightarrow> u64" where
  "hex_value c =
     (if sq_isdigit (schar c) then digit_value c else word_of_int (sq_toupper (schar c) - schar CHR ''A'' + 10))"

definition strtoul16 :: "string \<Rightarrow> u64" where
  "strtoul16 s = foldl (\<lambda>n c. n * 16 + hex_value c) 0 s"

definition simple_escapes :: "(char \<times> char) list" where
  "simple_escapes =
     [(CHR ''t'', CHR 0x09), (CHR ''a'', CHR 0x07), (CHR ''b'', CHR 0x08), (CHR ''n'', CHR 0x0A), (CHR ''r'', CHR 0x0D),
      (CHR ''v'', CHR 0x0B), (CHR ''f'', CHR 0x0C), (CHR ''0'', NUL), (CHR 0x5C, CHR 0x5C), (CHR 0x22, CHR 0x22),
      (CHR 0x27, CHR 0x27)]"

text \<open>The \<open>switch\<close> on the character behind a backslash.\<close>

definition read_escape :: "lexer \<Rightarrow> lexer lex_res" where
  "read_escape l =
     (let c = lx_cur l in
      if c = CHR ''x'' then
        lex_bind (ProcessStringHexEscape 2 l) (\<lambda>(temp, l). Inr (APPEND_CHAR (low_char (strtoul16 temp)) l))
      else if c = CHR ''u'' \<or> c = CHR ''U'' then
        lex_bind (ProcessStringHexEscape (if c = CHR ''u'' then 4 else 8) l) (\<lambda>(temp, l). Inr (snd (AddUTF8 (strtoul16 temp) l)))
      else
        case map_of simple_escapes c of
          Some x \<Rightarrow> Inr (NEXT (APPEND_CHAR x l))
        | None \<Rightarrow>
            if (c = CHR ''{'' \<or> c = CHR ''}'') \<and> lx_state l = LS_TEMPLATE then Inr (NEXT (APPEND_CHAR c l))
            else report DI_UNRECOGNISED_ESCAPER l)"

lemma hex_escape_left: "lx_left (snd (hex_escape_loop n dest l)) \<le> lx_left l"
proof (induction n dest l rule: hex_escape_loop.induct)
  case (2 n dest l)
  then show ?case using NEXT_left_le [of l] by auto
qed simp

lemma ProcessStringHexEscape_left: "ProcessStringHexEscape n l = Inr (t, l') \<Longrightarrow> lx_left l' \<le> lx_left l"
  using hex_escape_left [of n "[]" "NEXT l"] NEXT_left_le [of l]
  by (auto simp: ProcessStringHexEscape_def Let_def split: if_splits)

lemma read_escape_left: "read_escape l = Inr l' \<Longrightarrow> lx_left l' \<le> lx_left l"
  using NEXT_left_le [of "APPEND_CHAR c l" for c]
  by (auto simp: read_escape_def lex_bind_Inr Let_def AddUTF8_def lx_left_def [of "lx_longstr_update f l" for f l] simp flip: lx_left_def
      dest!: ProcessStringHexEscape_left split: if_splits option.splits)

function string_loop :: "char \<Rightarrow> bool \<Rightarrow> int \<Rightarrow> lex_step" where
  "string_loop ndelim verbatim t l =
     (if lx_cur l = ndelim then
        (let l = NEXT l; t = (if lx_state l = LS_TEMPLATE then TK_TEMPLATE_SUFFIX else t) in
         if verbatim \<and> lx_cur l = CHR 0x22 then string_loop ndelim verbatim t (NEXT (APPEND_CHAR (lx_cur l) l))
         else Inr (t, l))
      else if lx_cur l = NUL then report DI_UNFINISHED_STRING l
      else if lx_cur l = CHR 0x0A then
        (if \<not> verbatim then report DI_NEWLINE_IN_CONST l
         else string_loop ndelim verbatim t (nextLine (NEXT (APPEND_CHAR (lx_cur l) l))))
      else if lx_cur l = CHR 0x5C then
        (if verbatim then string_loop ndelim verbatim t (NEXT (APPEND_CHAR CHR 0x5C l))
         else lex_bind (read_escape (NEXT l)) (string_loop ndelim verbatim t))
      else if lx_cur l = CHR ''{'' \<and> lx_state l = LS_TEMPLATE then
        Inr (lx_expectedToken l, NEXT (APPEND_CHAR (lx_cur l) l))
      else string_loop ndelim verbatim t (NEXT (APPEND_CHAR (lx_cur l) l)))"
  by pat_completeness auto

lemma append_NEXT_left: "lx_cur l \<noteq> NUL \<Longrightarrow> lx_left (NEXT (APPEND_CHAR c l)) < lx_left l"
  using NEXT_left [of "APPEND_CHAR c l"] by simp

termination string_loop
proof (relation "measure (\<lambda>(d, v, t, l). lx_left l)")
  show "((d, v, t', NEXT (APPEND_CHAR (lx_cur l') l')), d, v, t, l) \<in> measure (\<lambda>(d, v, t, l). lx_left l)"
    if "l' = NEXT l" "v \<and> lx_cur l' = CHR 0x22" for d v and t t' :: int and l l'
    using that append_NEXT_left [of l' "lx_cur l'"] NEXT_left_le [of l] by simp
  show "((d, v, t, l'), d, v, t, l) \<in> measure (\<lambda>(d, v, t, l). lx_left l)"
    if "lx_cur l \<noteq> NUL" "read_escape (NEXT l) = Inr l'" for d v and t :: int and l l'
    using that NEXT_left [of l] read_escape_left [of "NEXT l" l'] by simp
qed (auto intro: append_NEXT_left)

declare string_loop.simps [simp del]

text \<open>The result \<open>-1\<close> stands for the missing string at the end of the input.\<close>

definition ReadString :: "char \<Rightarrow> bool \<Rightarrow> bool \<Rightarrow> lex_step" where
  "ReadString ndelim verbatim advance l =
     (if lx_state l = LS_TEMPLATE \<and> ndelim \<noteq> CHR 0x22 then report (DI_EXPECTED_LEX ''string'') l
      else
        (let l = INIT_TEMP_STRING l; l = (if advance then NEXT l else l) in
         if IS_EOB l then Inr (- 1, l)
         else
           lex_bind (string_loop ndelim verbatim TK_STRING_LITERAL l) (\<lambda>(t, l).
             let l = TERMINATE_BUFFER l; len = length (lx_longstr l) - 1 in
             if ndelim = CHR 0x27 then
               (if len = 0 then report DI_EMPTY_LITERAL l
                else if len > 1 then report DI_TOO_LONG_LITERAL l
                else Inr (TK_INTEGER, l\<lparr>lx_nvalue := word_of_int (schar (hd (lx_longstr l)))\<rparr>))
             else Inr (t, SetStringValue l))))"

end
