(* ===== verification/LexMoves.thy ===== *)
theory LexMoves
  imports LexScan
begin

text \<open>
  How the scanners move through the source: each takes a prefix of what is left of it and
  counts the line feeds in it. \<open>takes\<close> is the first part alone; a directive and a docstring may take
  a line feed without counting it.
\<close>

type_synonym lex_core = "string \<times> char \<times> int \<times> lexer_state \<times> int"

definition lx_core :: "lexer \<Rightarrow> lex_core" where
  "lx_core l = (lx_source l, lx_cur l, lx_currentline l, lx_state l, lx_expectedToken l)"

fun core_rest :: "lex_core \<Rightarrow> string" where
  "core_rest (s, c, n, st, e) = (if c = NUL \<and> s = [] then [] else c # s)"

fun core_next :: "lex_core \<Rightarrow> lex_core" where
  "core_next ([], c, n, st, e) = ([], NUL, n, st, e)"
| "core_next (d # s, c, n, st, e) = (s, d, n, st, e)"

fun core_line :: "lex_core \<Rightarrow> lex_core" where
  "core_line (s, c, n, st, e) = (s, c, n + 1, st, e)"

fun core_state :: "lex_core \<Rightarrow> lexer_state \<times> int" where
  "core_state (s, c, n, st, e) = (st, e)"

fun core_feeds :: "lex_core \<Rightarrow> int" where
  "core_feeds (s, c, n, st, e) = n + int (count_list (c # s) CHR 0x0A)"

abbreviation lx_rest :: "lexer \<Rightarrow> string" where
  "lx_rest l \<equiv> core_rest (lx_core l)"

definition takes_core :: "lex_core \<Rightarrow> lex_core \<Rightarrow> bool" where
  "takes_core x y \<longleftrightarrow> (\<exists>cs. core_rest x = cs @ core_rest y) \<and> core_state y = core_state x"

definition adv_core :: "lex_core \<Rightarrow> lex_core \<Rightarrow> bool" where
  "adv_core x y \<longleftrightarrow> takes_core x y \<and> core_feeds y = core_feeds x"

abbreviation takes :: "lexer \<Rightarrow> lexer \<Rightarrow> bool" where
  "takes l l' \<equiv> takes_core (lx_core l) (lx_core l')"

abbreviation moves :: "lexer \<Rightarrow> lexer \<Rightarrow> bool" where
  "moves l l' \<equiv> adv_core (lx_core l) (lx_core l')"

lemma core_ops [simp]:
  "lx_core (APPEND_CHAR c l) = lx_core l" "lx_core (INIT_TEMP_STRING l) = lx_core l" "lx_core (TERMINATE_BUFFER l) = lx_core l"
  "lx_core (SetStringValue l) = lx_core l" "lx_core (push_comment_char c l) = lx_core l" "lx_core (AddComment k n a b l) = lx_core l"
  "lx_core (l\<lparr>lx_longstr := u\<rparr>) = lx_core l" "lx_core (l\<lparr>lx_nvalue := i\<rparr>) = lx_core l" "lx_core (l\<lparr>lx_fvalue := f\<rparr>) = lx_core l"
  "lx_core (l\<lparr>lx_flags := g\<rparr>) = lx_core l"
  by (simp_all add: lx_core_def APPEND_CHAR_def INIT_TEMP_STRING_def TERMINATE_BUFFER_def SetStringValue_def
      push_comment_char_def AddComment_def split: option.splits)

lemma core_NEXT [simp]: "lx_core (NEXT l) = core_next (lx_core l)"
  by (simp add: lx_core_def NEXT_def Next_def Let_def split: list.splits)

lemma core_nextLine [simp]: "lx_core (nextLine l) = core_line (lx_core l)"
  by (simp add: lx_core_def nextLine_def)

lemma takes_refl [simp]: "takes_core x x"
  by (simp add: takes_core_def)

lemma takes_trans: "takes_core x y \<Longrightarrow> takes_core y z \<Longrightarrow> takes_core x z"
  by (auto simp: takes_core_def)

lemma adv_refl [simp]: "adv_core x x"
  by (simp add: adv_core_def)

lemma adv_trans: "adv_core x y \<Longrightarrow> adv_core y z \<Longrightarrow> adv_core x z"
  by (auto simp: adv_core_def intro: takes_trans)

lemma adv_takes: "adv_core x y \<Longrightarrow> takes_core x y"
  by (simp add: adv_core_def)

lemma takes_next: "takes_core x (core_next x)"
  by (cases x rule: core_next.cases) (auto simp: takes_core_def)

lemma adv_NEXT: "lx_cur l \<noteq> CHR 0x0A \<Longrightarrow> moves l (NEXT l)"
  using takes_next [of "lx_core l"] unfolding core_NEXT by (cases "lx_source l") (simp_all add: adv_core_def lx_core_def)

lemma adv_line: "lx_cur l = CHR 0x0A \<Longrightarrow> adv_core (lx_core l) (core_next (core_line (lx_core l)))"
  by (cases "lx_source l") (auto simp: adv_core_def lx_core_def takes_core_def)

lemma core_line_next: "core_line (core_next x) = core_next (core_line x)"
  by (cases x rule: core_next.cases) simp_all

lemma takes_left:
  assumes "takes l l'"
  shows "lx_left l' \<le> lx_left l"
proof -
  obtain cs where cs: "lx_rest l = cs @ lx_rest l'" using assms by (auto simp: takes_core_def)
  have "lx_left m \<le> 2 * length (lx_rest m)" "2 * length (lx_rest m) \<le> lx_left m + 2" for m
    by (auto simp: lx_left_def lx_core_def)
  then show ?thesis
    using cs by (cases cs) (auto simp: lx_left_def lx_core_def split: if_splits)
qed

lemma adv_left: "moves l l' \<Longrightarrow> lx_left l' \<le> lx_left l"
  by (rule takes_left [OF adv_takes])

subsection \<open>The scanners\<close>

lemma block_comment_adv: "block_comment_loop k n a l = Inr l' \<Longrightarrow> moves l l'"
proof (induction "lx_left l" arbitrary: k n a l rule: less_induct)
  case less
  let ?p = "push_comment_char (lx_cur l) l"
  have step: "moves l l'" if "block_comment_loop k n a m = Inr l'" "lx_left m < lx_left l" "moves l m" for k n a m
    using less.hyps [OF that(2,1)] that(3) adv_trans by blast
  consider "lx_cur l = CHR ''*''" | "lx_cur l = CHR 0x0A" | "lx_cur l \<noteq> CHR ''*''" "lx_cur l \<noteq> CHR 0x0A" by blast
  then show ?case
  proof cases
    case 1
    then have n: "moves l (NEXT ?p)" "lx_left (NEXT ?p) < lx_left l"
      using adv_NEXT [of ?p] NEXT_left [of ?p] by simp_all
    show ?thesis
    proof (cases "lx_cur (NEXT ?p) = CHR ''/''")
      case True
      then have "moves (NEXT ?p) (NEXT (NEXT ?p))" using adv_NEXT [of "NEXT ?p"] by simp
      then have "moves l (NEXT (NEXT ?p))" using n(1) adv_trans by blast
      then show ?thesis
        using less.prems 1 True by (subst (asm) block_comment_loop.simps) (auto simp: Let_def)
    next
      case False
      then have "block_comment_loop k n a (NEXT ?p) = Inr l'"
        using less.prems 1 by (subst (asm) block_comment_loop.simps) (simp add: Let_def)
      then show ?thesis using step n by blast
    qed
  next
    case 2
    let ?q = "NEXT (nextLine (AddComment CK_ML_BLOCK n a (lx_currentcolumn ?p) ?p))"
    have "block_comment_loop CK_ML_BLOCK (n + 1) (lx_currentcolumn ?q) ?q = Inr l'"
      using less.prems 2 by (subst (asm) block_comment_loop.simps) (simp add: Let_def)
    moreover have "moves l ?q" using adv_line [OF 2] by simp
    moreover have "lx_left ?q < lx_left l"
      using NEXT_left [of "nextLine (AddComment CK_ML_BLOCK n a (lx_currentcolumn ?p) ?p)"] 2 by simp
    ultimately show ?thesis using step by blast
  next
    case 3
    then have "lx_cur l \<noteq> NUL" "block_comment_loop k n a (NEXT ?p) = Inr l'"
      using less.prems by (subst (asm) block_comment_loop.simps, auto simp: Let_def split: if_splits)+
    moreover have "moves l (NEXT ?p)" using adv_NEXT [of ?p] 3 by simp
    moreover have "lx_left (NEXT ?p) < lx_left l" using NEXT_left [of ?p] calculation(1) by simp
    ultimately show ?thesis using step by blast
  qed
qed

lemma LexBlockComment_adv: "LexBlockComment l = Inr l' \<Longrightarrow> moves l l'"
  unfolding LexBlockComment_def by (rule block_comment_adv)

lemma line_comment_adv: "lx_cur l \<noteq> CHR 0x0A \<Longrightarrow> moves l (line_comment_loop l)"
proof (induction "lx_left l" arbitrary: l rule: less_induct)
  case less
  let ?m = "push_comment_char (lx_cur (NEXT l)) (NEXT l)"
  have m: "moves l ?m" using adv_NEXT [OF less.prems] by simp
  show ?case
  proof (cases "lx_cur ?m \<noteq> CHR 0x0A \<and> \<not> IS_EOB ?m")
    case True
    then have "lx_left ?m < lx_left l" using NEXT_left' [of l] by (simp add: IS_EOB_def)
    then have "moves ?m (line_comment_loop ?m)" using less.hyps True by blast
    moreover have "line_comment_loop l = line_comment_loop ?m"
      using True by (subst line_comment_loop.simps) (simp add: Let_def)
    ultimately show ?thesis using adv_trans [OF m] by simp
  next
    case False
    then have "line_comment_loop l = ?m" by (subst line_comment_loop.simps) (auto simp: Let_def)
    then show ?thesis using m by simp
  qed
qed

lemma LexLineComment_adv: "lx_cur l \<noteq> CHR 0x0A \<Longrightarrow> moves l (LexLineComment l)"
  using line_comment_adv by (simp add: LexLineComment_def Let_def)

lemma class_not_feed:
  "cur_is sq_isalnum l \<Longrightarrow> lx_cur l \<noteq> CHR 0x0A" "cur_is sq_isxdigit l \<Longrightarrow> lx_cur l \<noteq> CHR 0x0A"
  "cur_is sq_isdigit l \<Longrightarrow> lx_cur l \<noteq> CHR 0x0A" "cur_is sq_isalpha l \<Longrightarrow> lx_cur l \<noteq> CHR 0x0A"
  by (auto simp: char_class_defs uc_def)

lemma id_loop_adv: "lx_cur l \<noteq> CHR 0x0A \<Longrightarrow> moves l (id_loop l)"
proof (induction "lx_left l" arbitrary: l rule: less_induct)
  case less
  let ?m = "NEXT (APPEND_CHAR (lx_cur l) l)"
  have m: "moves l ?m" using adv_NEXT [of "APPEND_CHAR (lx_cur l) l"] less.prems by simp
  show ?case
  proof (cases "id_char ?m")
    case True
    then have "lx_cur ?m \<noteq> CHR 0x0A" "lx_cur ?m \<noteq> NUL"
      by (auto simp: id_char_def dest: class_not_feed class_not_NUL)
    moreover from this have "lx_left ?m < lx_left l" using NEXT_left' [of "APPEND_CHAR (lx_cur l) l"] by simp
    ultimately have "moves ?m (id_loop ?m)" using less.hyps by blast
    moreover have "id_loop l = id_loop ?m" using True by (subst id_loop.simps) (simp add: Let_def)
    ultimately show ?thesis using adv_trans [OF m] by simp
  next
    case False
    then show ?thesis using m by (subst id_loop.simps) (simp add: Let_def)
  qed
qed

lemma directive_loop_takes: "takes l (directive_loop l)"
proof (induction "lx_left l" arbitrary: l rule: less_induct)
  case less
  let ?m = "NEXT (APPEND_CHAR (lx_cur l) l)"
  have m: "takes l ?m" using takes_next by simp
  show ?case
  proof (cases "directive_char ?m")
    case True
    then have "lx_cur ?m \<noteq> NUL" by (auto simp: directive_char_def dest: class_not_NUL)
    then have "lx_left ?m < lx_left l" using NEXT_left' [of "APPEND_CHAR (lx_cur l) l"] by simp
    then have "takes ?m (directive_loop ?m)" using less.hyps by blast
    moreover have "directive_loop l = directive_loop ?m" using True by (subst directive_loop.simps) (simp add: Let_def)
    ultimately show ?thesis using takes_trans [OF m] by simp
  next
    case False
    then show ?thesis using m by (subst directive_loop.simps) (simp add: Let_def)
  qed
qed

lemma ReadID_adv: "lx_cur l \<noteq> CHR 0x0A \<Longrightarrow> moves l (snd (ReadID l))"
  using id_loop_adv [of "INIT_TEMP_STRING l"] by (simp add: ReadID_def Let_def)

lemma ReadDirective_takes: "takes l (snd (ReadDirective l))"
  using directive_loop_takes [of "INIT_TEMP_STRING l"] by (simp add: ReadDirective_def Let_def)

subsection \<open>Numbers\<close>

lemma NUM_NEXT_adv: "lx_cur l \<noteq> CHR 0x0A \<Longrightarrow> moves l (NUM_NEXT l)"
proof (induction "lx_left l" arbitrary: l rule: less_induct)
  case less
  note m = adv_NEXT [OF less.prems]
  show ?case
  proof (cases "lx_cur (NEXT l) = CHR ''_''")
    case True
    then have "moves (NEXT l) (NUM_NEXT (NEXT l))" using less.hyps [of "NEXT l"] NEXT_left' [of l] by simp
    then show ?thesis using adv_trans [OF m] True by (subst NUM_NEXT.simps) (simp add: Let_def)
  next
    case False
    then show ?thesis using m by (subst NUM_NEXT.simps) (simp add: Let_def)
  qed
qed

lemma hex_loop_adv: "moves l (hex_loop l)"
proof (induction "lx_left l" arbitrary: l rule: less_induct)
  case less
  let ?m = "NUM_NEXT (APPEND_CHAR (lx_cur l) l)"
  show ?case
  proof (cases "cur_is sq_isxdigit l")
    case True
    have "moves l ?m" using NUM_NEXT_adv [of "APPEND_CHAR (lx_cur l) l"] class_not_feed(2) [OF True] by simp
    moreover have "moves ?m (hex_loop ?m)"
      using less.hyps NUM_NEXT_left [of "APPEND_CHAR (lx_cur l) l"] class_not_NUL(2) [OF True] by simp
    ultimately show ?thesis using adv_trans True by (subst hex_loop.simps) (auto simp: Let_def)
  qed (subst hex_loop.simps, simp)
qed

lemma append_next_adv: "lx_cur l \<noteq> CHR 0x0A \<Longrightarrow> moves l (append_next l)"
  using adv_NEXT [of "APPEND_CHAR (lx_cur l) l"] by (simp add: append_next_def)

lemma number_char_adv:
  assumes "number_char d e ty l = Inr (d', e', ty', l')"
  shows "moves l l'" "lx_cur l' \<noteq> CHR 0x0A"
proof -
  have "moves l (append_next (append_next l))"
    if "lx_cur l \<noteq> CHR 0x0A" "lx_cur (append_next l) \<noteq> CHR 0x0A" for l
    using append_next_adv [OF that(1)] append_next_adv [OF that(2)] adv_trans by blast
  then show "moves l l'"
    using assms append_next_adv [of l]
    by (auto simp: number_char_def lex_bind_Inr isexponent_def Let_def split: if_splits)
  show "lx_cur l' \<noteq> CHR 0x0A"
    using assms by (auto simp: number_char_def lex_bind_Inr isexponent_def Let_def dest: class_not_feed split: if_splits)
qed

lemma number_loop_adv: "number_loop d e ty l = Inr (ty', l') \<Longrightarrow> moves l l'"
proof (induction "lx_left l" arbitrary: d e ty l rule: less_induct)
  case less
  show ?case
  proof (cases "lx_cur l = CHR ''.'' \<or> cur_is sq_isalnum l")
    case True
    then obtain d1 e1 ty1 m where m: "number_char d e ty l = Inr (d1, e1, ty1, m)"
      "number_loop d1 e1 ty1 (NUM_NEXT (APPEND_CHAR (lx_cur m) m)) = Inr (ty', l')"
      using less.prems by (subst (asm) number_loop.simps) (auto simp: lex_bind_Inr)
    have "moves m (NUM_NEXT (APPEND_CHAR (lx_cur m) m))"
      using NUM_NEXT_adv [of "APPEND_CHAR (lx_cur m) m"] number_char_adv(2) [OF m(1)] by simp
    then show ?thesis
      using adv_trans number_char_adv(1) [OF m(1)] less.hyps [OF number_char_next [OF m(1)] m(2)] by blast
  next
    case False
    then show ?thesis using less.prems by (subst (asm) number_loop.simps) simp
  qed
qed

lemma read_float_core: "read_float l = Inr (t, l') \<Longrightarrow> lx_core l' = lx_core l \<and> t = TK_FLOAT"
proof (cases "from_chars (lx_longstr l)")
  fix ec rest assume r: "read_float l = Inr (t, l')" "from_chars (lx_longstr l) = (ec, rest)"
  have "(if b then report d m else if c then report d' m else Inr (TK_FLOAT, m)) = Inr (t, l') \<Longrightarrow>
      lx_core l' = lx_core m \<and> t = TK_FLOAT" for b c d d' and m :: lexer
    by (auto split: if_splits)
  then show ?thesis
    using r unfolding read_float_def by (cases ec) (auto simp: lex_bind_Inr)
qed

lemma finish_number_core: "finish_number ty l = Inr (t, l') \<Longrightarrow> lx_core l' = lx_core l \<and> t \<in> {TK_FLOAT, TK_INTEGER}"
  by (auto simp: finish_number_def Let_def dest: read_float_core split: num_type.splits option.splits)

lemma ReadNumber_adv:
  assumes "cur_is sq_isdigit l" "ReadNumber l = Inr (t, l')"
  shows "moves l l' \<and> t \<in> {TK_FLOAT, TK_INTEGER} \<and> lx_left l' < lx_left l"
proof -
  let ?m = "NUM_NEXT (INIT_TEMP_STRING l)"
  have m: "moves l ?m" using NUM_NEXT_adv [of "INIT_TEMP_STRING l"] class_not_feed(3) [OF assms(1)] by simp
  have "moves ?m l' \<and> t \<in> {TK_FLOAT, TK_INTEGER}"
  proof (cases "lx_cur l = CHR ''0'' \<and> (lx_cur ?m = CHR ''X'' \<or> lx_cur ?m = CHR ''x'')")
    case True
    then obtain h where h: "read_hex ?m = Inr h" "finish_number THEX h = Inr (t, l')"
      using assms(2) unfolding ReadNumber_def Let_def if_report_Inr if_P [OF True] lex_bind_Inr by blast
    have "moves ?m (NUM_NEXT ?m)" using NUM_NEXT_adv [of ?m] True by auto
    then have "moves ?m (hex_loop (NUM_NEXT ?m))" using hex_loop_adv by (rule adv_trans)
    moreover have "h = hex_loop (NUM_NEXT ?m)" using h(1) by (simp add: read_hex_def Let_def if_report_Inr)
    ultimately have "moves ?m h" by simp
    then show ?thesis using finish_number_core [OF h(2)] by simp
  next
    case False
    then obtain ty h where h: "number_loop False False TINT (APPEND_CHAR (lx_cur l) ?m) = Inr (ty, h)" "finish_number ty h = Inr (t, l')"
      using assms(2) unfolding ReadNumber_def Let_def if_report_Inr if_not_P [OF False] lex_bind_Inr by auto
    show ?thesis using number_loop_adv [OF h(1)] finish_number_core [OF h(2)] by simp
  qed
  moreover have "lx_left ?m < lx_left l"
    using NUM_NEXT_left [of "INIT_TEMP_STRING l"] class_not_NUL(3) [OF assms(1)] by simp
  ultimately show ?thesis using adv_trans [OF m] adv_left by (metis order_le_less_trans)
qed

subsection \<open>Strings\<close>

lemma hex_escape_adv: "moves l (snd (hex_escape_loop n dest l))"
proof (induction n dest l rule: hex_escape_loop.induct)
  case (2 n dest l)
  then show ?case using adv_NEXT [of l] class_not_feed(2) [of l] adv_trans by (cases "cur_is sq_isxdigit l") auto
qed simp

lemma ProcessStringHexEscape_adv: "ProcessStringHexEscape n l = Inr (t, l') \<Longrightarrow> lx_cur l \<noteq> CHR 0x0A \<Longrightarrow> moves l l'"
  using adv_trans [OF adv_NEXT hex_escape_adv [of "NEXT l" n "[]"]]
  by (auto simp: ProcessStringHexEscape_def Let_def split: if_splits)

lemma AddUTF8_core [simp]: "lx_core (snd (AddUTF8 ch l)) = lx_core l"
  by (simp add: AddUTF8_def)

lemma simple_escapes_not_feed: "map_of simple_escapes c = Some x \<Longrightarrow> c \<noteq> CHR 0x0A"
  by (auto simp: simple_escapes_def)

lemma read_escape_adv: "read_escape l = Inr l' \<Longrightarrow> moves l l'"
  using adv_NEXT [of "APPEND_CHAR c l" for c]
  by (auto simp: read_escape_def lex_bind_Inr Let_def dest: ProcessStringHexEscape_adv simple_escapes_not_feed
      split: if_splits option.splits)

lemma adv_state: "moves l m \<Longrightarrow> lx_state m = lx_state l \<and> lx_expectedToken m = lx_expectedToken l"
  by (simp add: adv_core_def takes_core_def lx_core_def)

text \<open>The token of a string is the one asked for, the end of a template or the one the parser expects.\<close>

definition string_end :: "int \<Rightarrow> lexer \<Rightarrow> int \<Rightarrow> lexer \<Rightarrow> bool" where
  "string_end t l t' l' \<longleftrightarrow> moves l l' \<and> (t' = t \<or> t' = TK_TEMPLATE_SUFFIX \<or> lx_state l = LS_TEMPLATE \<and> t' = lx_expectedToken l)"

lemma string_loop_adv: "ndelim \<noteq> CHR 0x0A \<Longrightarrow> string_loop ndelim v t l = Inr (t', l') \<Longrightarrow> string_end t l t' l'"
proof (induction "lx_left l" arbitrary: t l rule: less_induct)
  case less
  have rec: "string_end t l t' l'"
    if "string_loop ndelim v u m = Inr (t', l')" "lx_left m < lx_left l" "moves l m" "u \<in> {t, TK_TEMPLATE_SUFFIX}" for u m
    using less.hyps [OF that(2) less.prems(1) that(1)] adv_trans [OF that(3)] adv_state [OF that(3)] that(4)
    unfolding string_end_def by auto
  let ?m = "NEXT (APPEND_CHAR (lx_cur l) l)"
  have app: "moves l (NEXT (APPEND_CHAR c l))" if "lx_cur l \<noteq> CHR 0x0A" for c
    using adv_NEXT [of "APPEND_CHAR c l"] that by simp
  consider "lx_cur l = ndelim" | "lx_cur l \<noteq> ndelim" "lx_cur l = CHR 0x0A" | "lx_cur l \<noteq> ndelim" "lx_cur l = CHR 0x5C"
    | "lx_cur l \<noteq> ndelim" "lx_cur l \<noteq> CHR 0x0A" "lx_cur l \<noteq> CHR 0x5C" by blast
  then show ?case
  proof cases
    case 1
    then have n: "moves l (NEXT l)" using adv_NEXT [of l] less.prems(1) by simp
    show ?thesis
    proof (cases "v \<and> lx_cur (NEXT l) = CHR 0x22")
      case True
      let ?k = "NEXT (APPEND_CHAR (lx_cur (NEXT l)) (NEXT l))"
      have "moves (NEXT l) ?k" using adv_NEXT [of "APPEND_CHAR (lx_cur (NEXT l)) (NEXT l)"] True by simp
      then have "moves l ?k" using n adv_trans by blast
      moreover have "lx_left ?k < lx_left l"
        using append_NEXT_left [of "NEXT l" "lx_cur (NEXT l)"] NEXT_left_le [of l] True by simp
      moreover obtain u where "string_loop ndelim v u ?k = Inr (t', l')" "u \<in> {t, TK_TEMPLATE_SUFFIX}"
        using less.prems(2) 1 True by (subst (asm) string_loop.simps) (auto simp: Let_def)
      ultimately show ?thesis using rec by blast
    next
      case False
      then show ?thesis
        using less.prems(2) n 1 by (subst (asm) string_loop.simps) (auto simp: Let_def string_end_def split: if_splits)
    qed
  next
    case 2
    then have "string_loop ndelim v t (nextLine ?m) = Inr (t', l')"
      using less.prems(2) by (subst (asm) string_loop.simps) (auto split: if_splits)
    moreover have "moves l (nextLine ?m)" using adv_line [OF 2(2)] by (simp add: core_line_next)
    moreover have "lx_left (nextLine ?m) < lx_left l" using append_NEXT_left [of l "lx_cur l"] 2(2) by simp
    ultimately show ?thesis using rec [of t] by blast
  next
    case 3
    show ?thesis
    proof (cases v)
      case True
      then have "string_loop ndelim v t (NEXT (APPEND_CHAR CHR 0x5C l)) = Inr (t', l')"
        using less.prems(2) 3 by (subst (asm) string_loop.simps) simp
      then show ?thesis using rec [of t] app append_NEXT_left [of l] 3(2) by simp
    next
      case False
      then obtain m where m: "read_escape (NEXT l) = Inr m" "string_loop ndelim v t m = Inr (t', l')"
        using less.prems(2) 3 by (subst (asm) string_loop.simps) (auto simp: lex_bind_Inr)
      have "moves l m" using adv_NEXT [of l] 3(2) read_escape_adv [OF m(1)] adv_trans by auto
      moreover have "lx_left m < lx_left l" using read_escape_left [OF m(1)] NEXT_left [of l] 3(2) by simp
      ultimately show ?thesis using rec [of t] m(2) by blast
    qed
  next
    case 4
    then have n: "lx_cur l \<noteq> NUL" using less.prems(2) by (subst (asm) string_loop.simps) auto
    show ?thesis
    proof (cases "lx_cur l = CHR ''{'' \<and> lx_state l = LS_TEMPLATE")
      case True
      then show ?thesis using less.prems(2) 4 n app by (subst (asm) string_loop.simps) (auto simp: string_end_def)
    next
      case False
      then have "string_loop ndelim v t ?m = Inr (t', l')"
        using less.prems(2) 4 n by (subst (asm) string_loop.simps) auto
      then show ?thesis using rec [of t] app [OF 4(2)] append_NEXT_left [OF n] by blast
    qed
  qed
qed

text \<open>\<open>ReadString\<close> takes its opening character, and then its result is not the end of input.\<close>

lemma ReadString_adv:
  assumes "ReadString ndelim v advance l = Inr (t, l')" "ndelim \<noteq> CHR 0x0A" "t \<noteq> - 1"
  shows "moves (if advance then NEXT l else l) l'"
    "t \<in> {TK_STRING_LITERAL, TK_INTEGER, TK_TEMPLATE_SUFFIX} \<or> lx_state l = LS_TEMPLATE \<and> t = lx_expectedToken l"
proof -
  let ?m = "INIT_TEMP_STRING l"
  let ?n = "if advance then NEXT ?m else ?m"
  have "\<exists>u k. string_loop ndelim v TK_STRING_LITERAL ?n = Inr (u, k) \<and> lx_core l' = lx_core k \<and> t \<in> {u, TK_INTEGER}"
    using assms(1,3) by (cases advance) (auto simp: ReadString_def Let_def lex_bind_Inr split: if_splits)
  then obtain u k where k: "string_end TK_STRING_LITERAL ?n u k" "lx_core l' = lx_core k" "t \<in> {u, TK_INTEGER}"
    using string_loop_adv [OF assms(2)] by metis
  then show "moves (if advance then NEXT l else l) l'" by (cases advance) (simp_all add: string_end_def)
  have "lx_state ?n = lx_state l \<and> lx_expectedToken ?n = lx_expectedToken l"
    by (cases advance) (auto simp: INIT_TEMP_STRING_def NEXT_def Next_def Let_def split: list.splits)
  then show "t \<in> {TK_STRING_LITERAL, TK_INTEGER, TK_TEMPLATE_SUFFIX} \<or> lx_state l = LS_TEMPLATE \<and> t = lx_expectedToken l"
    using k(1,3) by (auto simp: string_end_def)
qed

end
