(* ===== verification/LexToken.thy ===== *)
theory LexToken
  imports LexMoves
begin

text \<open>
  \<open>SQLexer::LexSingleToken\<close>: one definition for each group of cases of its \<open>switch\<close>, and the
  loop that skips white space and comments. A single character is its own token.
\<close>

definition RETURN_CHAR :: "char \<Rightarrow> lex_step" where
  "RETURN_CHAR c l = RETURN_TOKEN (of_char c) l"

text \<open>\<open>if (CUR_CHAR == c) { NEXT(); RETURN_TOKEN(t); } else ...\<close>\<close>

definition follow :: "char \<Rightarrow> int \<Rightarrow> lex_step \<Rightarrow> lex_step" where
  "follow c t other l = (if lx_cur l = c then RETURN_TOKEN t (NEXT l) else other l)"

definition lex_less :: lex_step where
  "lex_less l =
     (let l = NEXT l in
      if lx_cur l = CHR ''='' then
        (let l = NEXT l in if lx_cur l = CHR ''>'' then RETURN_TOKEN TK_3WAYSCMP (NEXT l) else RETURN_TOKEN TK_LE l)
      else if lx_cur l = CHR ''-'' then RETURN_TOKEN TK_NEWSLOT (NEXT l)
      else if lx_cur l = CHR ''<'' then RETURN_TOKEN TK_SHIFTL (NEXT l)
      else RETURN_CHAR CHR ''<'' l)"

definition lex_greater :: lex_step where
  "lex_greater l =
     (let l = NEXT l in
      if lx_cur l = CHR ''='' then RETURN_TOKEN TK_GE (NEXT l)
      else if lx_cur l = CHR ''>'' then
        (let l = NEXT l in if lx_cur l = CHR ''>'' then RETURN_TOKEN TK_USHIFTR (NEXT l) else RETURN_TOKEN TK_SHIFTR l)
      else RETURN_CHAR CHR ''>'' l)"

definition lex_directive :: lex_step where
  "lex_directive l =
     (let (stype, l) = ReadDirective (NEXT l) in
      if stype < 0 then report (DI_LEX_ERROR_PARSE ''directive'') l else RETURN_TOKEN TK_DIRECTIVE l)"

definition lex_dollar :: lex_step where
  "lex_dollar l =
     (let l = NEXT l in
      if lx_cur l = CHR 0x22 then RETURN_TOKEN TK_TEMPLATE_OP l
      else if lx_cur l = CHR ''$'' then
        (let l = NEXT l in
         if lx_cur l = CHR ''{'' then RETURN_TOKEN TK_CODE_BLOCK_EXPR (NEXT l) else RETURN_CHAR CHR ''$'' l)
      else RETURN_CHAR CHR ''$'' l)"

definition lex_string :: "char \<Rightarrow> bool \<Rightarrow> bool \<Rightarrow> lex_step" where
  "lex_string ndelim verbatim advance l =
     lex_bind (ReadString ndelim verbatim advance l) (\<lambda>(stype, l).
       if stype \<noteq> - 1 then RETURN_TOKEN stype l else report (DI_LEX_ERROR_PARSE ''the string'') l)"

definition lex_at :: lex_step where
  "lex_at l =
     (let l = NEXT l in
      if lx_cur l = CHR ''@'' then
        lex_bind (ReadString CHR 0x22 True True (NEXT l)) (\<lambda>(stype, l).
          if stype \<noteq> TK_STRING_LITERAL then report (DI_LEX_ERROR_PARSE ''the docstring'') l else RETURN_TOKEN TK_DOCSTRING l)
      else if lx_cur l \<noteq> CHR 0x22 then RETURN_CHAR CHR ''@'' l
      else lex_string CHR 0x22 True True l)"

definition lex_question :: lex_step where
  "lex_question l =
     (let l = NEXT l in
      if lx_cur l = CHR ''.'' then
        (let l = NEXT l in
         if lx_cur l = CHR ''$'' then RETURN_TOKEN TK_NULLABLE_TYPE_METHOD_GETSTR (NEXT l) else RETURN_TOKEN TK_NULLGETSTR l)
      else if lx_cur l = CHR ''['' then RETURN_TOKEN TK_NULLGETOBJ (NEXT l)
      else if lx_cur l = CHR ''('' then RETURN_TOKEN TK_NULLCALL (NEXT l)
      else if lx_cur l = CHR ''?'' then RETURN_TOKEN TK_NULLCOALESCE (NEXT l)
      else RETURN_CHAR CHR ''?'' l)"

definition lex_dot :: lex_step where
  "lex_dot l =
     (let l = NEXT l in
      if lx_cur l = CHR ''$'' then RETURN_TOKEN TK_TYPE_METHOD_GETSTR (NEXT l)
      else if lx_cur l \<noteq> CHR ''.'' then RETURN_CHAR CHR ''.'' l
      else
        (let l = NEXT l in
         if lx_cur l \<noteq> CHR ''.'' then report (DI_INVALID_TOKEN ''..'') l else RETURN_TOKEN TK_VARPARAMS (NEXT l)))"

text \<open>The default case; \<open>iscntrl\<close> is that of the C locale.\<close>

definition lex_default :: lex_step where
  "lex_default l =
     (if cur_is sq_isdigit l then lex_bind (ReadNumber l) (\<lambda>(ret, l). RETURN_TOKEN ret l)
      else if cur_is sq_isalpha l \<or> lx_cur l = CHR ''_'' then (let (t, l) = ReadID l in RETURN_TOKEN t l)
      else if cur_is (\<lambda>c. c < 32 \<or> c = 127) l then report (DI_UNEXPECTED_CHAR ''(control)'') l
      else RETURN_CHAR (lx_cur l) (NEXT l))"

definition plain_tokens :: string where
  "plain_tokens = ''{}()[];,^~''"

text \<open>The operators that are one character or that character and a second one.\<close>

definition lex_operator :: "char \<Rightarrow> lexer \<Rightarrow> (int \<times> lexer) lex_res option" where
  "lex_operator c l =
     (if c = CHR ''='' then Some (follow CHR ''='' TK_EQ (RETURN_CHAR c) (NEXT l))
      else if c = CHR ''!'' then Some (follow CHR ''='' TK_NE (RETURN_CHAR c) (NEXT l))
      else if c = CHR ''&'' then Some (follow CHR ''&'' TK_AND (RETURN_CHAR c) (NEXT l))
      else if c = CHR ''|'' then Some (follow CHR ''|'' TK_OR (RETURN_CHAR c) (NEXT l))
      else if c = CHR '':'' then Some (follow CHR '':'' TK_DOUBLE_COLON (RETURN_CHAR c) (NEXT l))
      else if c = CHR ''*'' then Some (follow CHR ''='' TK_MULEQ (RETURN_CHAR c) (NEXT l))
      else if c = CHR ''%'' then Some (follow CHR ''='' TK_MODEQ (RETURN_CHAR c) (NEXT l))
      else if c = CHR ''-'' then Some (follow CHR ''='' TK_MINUSEQ (follow CHR ''-'' TK_MINUSMINUS (RETURN_CHAR c)) (NEXT l))
      else if c = CHR ''+'' then Some (follow CHR ''='' TK_PLUSEQ (follow CHR ''+'' TK_PLUSPLUS (RETURN_CHAR c)) (NEXT l))
      else None)"

definition lex_token :: lex_step where
  "lex_token l =
     (let c = lx_cur l in
      if c = CHR ''<'' then lex_less l
      else if c = CHR ''>'' then lex_greater l
      else if c = CHR ''#'' then lex_directive l
      else if c = CHR ''$'' then lex_dollar l
      else if c = CHR ''@'' then lex_at l
      else if c = CHR 0x22 \<or> c = CHR 0x27 then lex_string c False True l
      else if c \<in> set plain_tokens then RETURN_CHAR c (NEXT l)
      else if c = CHR ''?'' then lex_question l
      else if c = CHR ''.'' then lex_dot l
      else
        case lex_operator c l of
          Some r \<Rightarrow> r
        | None \<Rightarrow> lex_default l)"

text \<open>The line feed of the main loop, and the start of a token.\<close>

definition lex_newline :: "lexer \<Rightarrow> lexer" where
  "lex_newline l =
     (let l = nextLine l;
          l = NEXT (l\<lparr>lx_prevtoken := lx_curtoken l, lx_flags := lx_flags l OR TF_PREP_EOL, lx_curtoken := 10\<rparr>)
      in l\<lparr>lx_currentcolumn := 0\<rparr>)"

definition token_start :: "lexer \<Rightarrow> lexer" where
  "token_start l = l\<lparr>lx_tokenline := lx_currentline l, lx_tokencolumn := lx_currentcolumn l\<rparr>"

lemma token_start_stay [simp]: "lx_left (token_start l) = lx_left l" "lx_cur (token_start l) = lx_cur l"
  by (simp_all add: token_start_def lx_left_def)

lemma lex_newline_left: "lx_cur l \<noteq> NUL \<Longrightarrow> lx_left (lex_newline l) < lx_left l"
  by (auto simp: lex_newline_def lx_left_def NEXT_def Next_def nextLine_def Let_def split: list.splits)

lemma flags_left: "lx_cur l \<noteq> NUL \<Longrightarrow> lx_left (NEXT (l\<lparr>lx_flags := f\<rparr>)) < lx_left l"
  by (auto simp: lx_left_def NEXT_def Next_def Let_def split: list.splits)

function lex_loop :: lex_step where
  "lex_loop l =
     (if lx_cur l = NUL then Inr (0, l)
      else
        (let l = token_start l in
         if lx_cur l = CHR 0x09 \<or> lx_cur l = CHR 0x0D \<or> lx_cur l = CHR '' '' then
           lex_loop (NEXT (l\<lparr>lx_flags := lx_flags l OR TF_PREP_SPACE\<rparr>))
         else if lx_cur l = CHR 0x0A then lex_loop (lex_newline l)
         else if lx_cur l = CHR ''/'' then
           (let l = NEXT l in
            if lx_cur l = CHR ''*'' then lex_bind (LexBlockComment (NEXT l)) lex_loop
            else if lx_cur l = CHR ''/'' then lex_loop (LexLineComment l)
            else if lx_cur l = CHR ''='' then RETURN_TOKEN TK_DIVEQ (NEXT l)
            else RETURN_CHAR CHR ''/'' l)
         else lex_token l))"
  by pat_completeness auto
termination
proof (relation "measure lx_left")
  show "(l', l) \<in> measure lx_left"
    if "lx_cur l \<noteq> NUL" "l1 = token_start l" "l2 = NEXT l1" "LexBlockComment (NEXT l2) = Inr l'" for l l1 l2 l'
    using that NEXT_left [of l1] NEXT_left_le [of l2] adv_left [OF LexBlockComment_adv [of "NEXT l2" l']] by simp
  show "(LexLineComment l2, l) \<in> measure lx_left"
    if "lx_cur l \<noteq> NUL" "l1 = token_start l" "l2 = NEXT l1" "lx_cur l2 = CHR ''/''" for l l1 l2
    using that NEXT_left [of l1] adv_left [OF LexLineComment_adv [of l2]] by simp
qed (auto intro: flags_left [THEN order_less_le_trans] lex_newline_left [THEN order_less_le_trans])

declare lex_loop.simps [simp del]

definition LexSingleToken :: lex_step where
  "LexSingleToken l =
     (let l = l\<lparr>lx_lasttokenline := lx_currentline l, lx_lasttokencolumn := lx_currentcolumn l\<rparr> in
      if lx_state l = LS_TEMPLATE \<and> lx_expectedToken l \<noteq> TK_TEMPLATE_PREFIX then lex_string CHR 0x22 False False l
      else lex_loop l)"

definition Lex :: lex_step where
  "Lex l = LexSingleToken l"

end
