(* ===== verification/LexProps.thy ===== *)
theory LexProps
  imports LexToken
begin

text \<open>
  Progress of the lexer: every token takes at least one character of the source, the line
  count follows the line feeds, and so a source is lexed in finitely many calls.
\<close>

text \<open>\<open>token_from l t l'\<close>: a token \<open>t\<close> that is not the end was read from \<open>l\<close>, leaving \<open>l'\<close>.\<close>

definition token_from :: "lexer \<Rightarrow> int \<Rightarrow> lexer \<Rightarrow> bool" where
  "token_from l t l' \<longleftrightarrow> t \<noteq> 0 \<and> takes l l' \<and> lx_left l' < lx_left l \<and> (t \<notin> {TK_DIRECTIVE, TK_DOCSTRING} \<longrightarrow> moves l l')"

lemma RETURN_TOKEN_Inr: "RETURN_TOKEN t m = Inr (t', l') \<Longrightarrow> t' = t \<and> lx_core l' = lx_core m"
  by (auto simp: RETURN_TOKEN_def lx_core_def)

lemma core_left: "lx_core l = lx_core m \<Longrightarrow> lx_left l = lx_left m"
  by (simp add: lx_core_def lx_left_def)

lemma token_from_NEXT:
  assumes "lx_cur l \<noteq> NUL" "lx_cur l \<noteq> CHR 0x0A" "moves (NEXT l) l'" "t \<noteq> 0"
  shows "token_from l t l'"
  unfolding token_from_def
  using adv_trans [OF adv_NEXT [OF assms(2)] assms(3)] adv_left [OF assms(3)] NEXT_left [OF assms(1)] assms(4) adv_takes by auto

lemma token_from_return:
  assumes "RETURN_TOKEN t m = Inr (t', l')" "lx_cur l \<noteq> NUL" "lx_cur l \<noteq> CHR 0x0A" "moves (NEXT l) m" "t \<noteq> 0"
  shows "token_from l t' l'"
  using token_from_NEXT [OF assms(2,3), of l' t'] RETURN_TOKEN_Inr [OF assms(1)] assms(4,5) by simp

lemma adv_NEXT2: "lx_cur (NEXT l) \<noteq> CHR 0x0A \<Longrightarrow> moves (NEXT l) (NEXT (NEXT l))"
  by (rule adv_NEXT)

lemma adv_NEXT3:
  "lx_cur (NEXT l) \<noteq> CHR 0x0A \<Longrightarrow> lx_cur (NEXT (NEXT l)) \<noteq> CHR 0x0A \<Longrightarrow> moves (NEXT l) (NEXT (NEXT (NEXT l)))"
  by (rule adv_trans [OF adv_NEXT adv_NEXT])

lemmas TK_defs = TK_IDENTIFIER_def TK_STRING_LITERAL_def TK_INTEGER_def TK_FLOAT_def TK_EQ_def TK_NE_def TK_LE_def TK_GE_def
  TK_AND_def TK_OR_def TK_NEWSLOT_def TK_PLUSEQ_def TK_MINUSEQ_def TK_SHIFTL_def TK_SHIFTR_def TK_DOUBLE_COLON_def
  TK_PLUSPLUS_def TK_MINUSMINUS_def TK_3WAYSCMP_def TK_USHIFTR_def TK_CONSTRUCTOR_def TK_VARPARAMS_def TK_MULEQ_def
  TK_DIVEQ_def TK_MODEQ_def TK_NULLGETSTR_def TK_NULLGETOBJ_def TK_NULLCOALESCE_def TK_NULLCALL_def TK_DIRECTIVE_def
  TK_TEMPLATE_PREFIX_def TK_TEMPLATE_SUFFIX_def TK_TEMPLATE_OP_def TK_TYPE_METHOD_GETSTR_def
  TK_NULLABLE_TYPE_METHOD_GETSTR_def TK_DOCSTRING_def TK_CODE_BLOCK_EXPR_def

lemmas token_intros = token_from_return adv_NEXT2 adv_NEXT3

lemma of_char_zero [simp]: "(of_char c :: int) = 0 \<longleftrightarrow> c = NUL"
proof -
  have "(of_char c :: int) = of_char NUL \<longleftrightarrow> c = NUL" by (rule of_char_eq_iff)
  then show ?thesis by simp
qed

lemma follow_token:
  assumes "follow c t (\<lambda>m. other m) (NEXT l) = Inr (t', l')" "t \<noteq> 0" "c \<noteq> CHR 0x0A" "lx_cur l \<noteq> NUL" "lx_cur l \<noteq> CHR 0x0A"
    "other (NEXT l) = Inr (t', l') \<Longrightarrow> token_from l t' l'"
  shows "token_from l t' l'"
  using assms by (auto simp: follow_def intro: token_intros split: if_splits)

lemma RETURN_CHAR_token:
  "RETURN_CHAR c (NEXT l) = Inr (t, l') \<Longrightarrow> c \<noteq> NUL \<Longrightarrow> lx_cur l \<noteq> NUL \<Longrightarrow> lx_cur l \<noteq> CHR 0x0A \<Longrightarrow> token_from l t l'"
  unfolding RETURN_CHAR_def by (rule token_from_return) (rule adv_refl | simp)+

text \<open>A token returned after one, two or three characters.\<close>

lemma token_ret1:
  "RETURN_TOKEN t (NEXT l) = Inr (t', l') \<Longrightarrow> lx_cur l \<noteq> NUL \<Longrightarrow> lx_cur l \<noteq> CHR 0x0A \<Longrightarrow> t \<noteq> 0 \<Longrightarrow> token_from l t' l'"
  by (rule token_from_return) (rule adv_refl | assumption)+

lemma token_ret2:
  "RETURN_TOKEN t (NEXT (NEXT l)) = Inr (t', l') \<Longrightarrow> lx_cur l \<noteq> NUL \<Longrightarrow> lx_cur l \<noteq> CHR 0x0A \<Longrightarrow> t \<noteq> 0 \<Longrightarrow>
     lx_cur (NEXT l) \<noteq> CHR 0x0A \<Longrightarrow> token_from l t' l'"
  by (rule token_from_return) (rule adv_NEXT2 | assumption)+

lemma token_ret3:
  "RETURN_TOKEN t (NEXT (NEXT (NEXT l))) = Inr (t', l') \<Longrightarrow> lx_cur l \<noteq> NUL \<Longrightarrow> lx_cur l \<noteq> CHR 0x0A \<Longrightarrow> t \<noteq> 0 \<Longrightarrow>
     lx_cur (NEXT l) \<noteq> CHR 0x0A \<Longrightarrow> lx_cur (NEXT (NEXT l)) \<noteq> CHR 0x0A \<Longrightarrow> token_from l t' l'"
  by (rule token_from_return) (rule adv_NEXT3 | assumption)+

lemmas token_ret = token_ret1 token_ret2 token_ret3

text \<open>The groups of cases.\<close>

lemma lex_less_token: "lex_less l = Inr (t, l') \<Longrightarrow> lx_cur l \<noteq> NUL \<Longrightarrow> lx_cur l \<noteq> CHR 0x0A \<Longrightarrow> token_from l t l'"
  by (auto simp: lex_less_def Let_def TK_defs RETURN_CHAR_def intro: token_ret split: if_splits)

lemma lex_greater_token: "lex_greater l = Inr (t, l') \<Longrightarrow> lx_cur l \<noteq> NUL \<Longrightarrow> lx_cur l \<noteq> CHR 0x0A \<Longrightarrow> token_from l t l'"
  by (auto simp: lex_greater_def Let_def TK_defs RETURN_CHAR_def intro: token_ret split: if_splits)

lemma lex_dollar_token: "lex_dollar l = Inr (t, l') \<Longrightarrow> lx_cur l \<noteq> NUL \<Longrightarrow> lx_cur l \<noteq> CHR 0x0A \<Longrightarrow> token_from l t l'"
  by (auto simp: lex_dollar_def Let_def TK_defs RETURN_CHAR_def intro: token_ret split: if_splits)

lemma lex_question_token: "lex_question l = Inr (t, l') \<Longrightarrow> lx_cur l \<noteq> NUL \<Longrightarrow> lx_cur l \<noteq> CHR 0x0A \<Longrightarrow> token_from l t l'"
  by (auto simp: lex_question_def Let_def TK_defs RETURN_CHAR_def intro: token_ret split: if_splits)

lemma lex_dot_token: "lex_dot l = Inr (t, l') \<Longrightarrow> lx_cur l \<noteq> NUL \<Longrightarrow> lx_cur l \<noteq> CHR 0x0A \<Longrightarrow> token_from l t l'"
  by (auto simp: lex_dot_def Let_def TK_defs RETURN_CHAR_def intro: token_ret split: if_splits)

lemma lex_operator_token:
  "lex_operator c l = Some (Inr (t, l')) \<Longrightarrow> lx_cur l \<noteq> NUL \<Longrightarrow> lx_cur l \<noteq> CHR 0x0A \<Longrightarrow> token_from l t l'"
  by (auto simp: lex_operator_def follow_def TK_defs RETURN_CHAR_def intro: token_ret split: if_splits)

lemma lex_directive_token:
  assumes "lex_directive l = Inr (t, l')" "lx_cur l \<noteq> NUL"
  shows "token_from l t l'"
proof -
  obtain u m where m: "ReadDirective (NEXT l) = (u, m)" by (cases "ReadDirective (NEXT l)")
  then have r: "RETURN_TOKEN TK_DIRECTIVE m = Inr (t, l')" using assms(1) by (simp add: lex_directive_def Let_def if_report_Inr)
  have n: "takes (NEXT l) l'" using ReadDirective_takes [of "NEXT l"] m RETURN_TOKEN_Inr [OF r] by simp
  then have "takes l l'" using takes_trans takes_next by (metis core_NEXT)
  moreover have "lx_left l' < lx_left l" using takes_left [OF n] NEXT_left [OF assms(2)] by simp
  ultimately show ?thesis using RETURN_TOKEN_Inr [OF r] by (simp add: token_from_def TK_DIRECTIVE_def)
qed

text \<open>What the parser expects in a template is a token.\<close>

definition lexer_ok :: "lexer \<Rightarrow> bool" where
  "lexer_ok l \<longleftrightarrow> (lx_state l = LS_TEMPLATE \<longrightarrow> lx_expectedToken l > 0)"

lemma ReadString_token:
  assumes "ReadString d v True m = Inr (u, k)" "u \<noteq> - 1" "d \<noteq> CHR 0x0A" "lexer_ok m"
  shows "moves (NEXT m) k" "u \<noteq> 0"
  using ReadString_adv [OF assms(1,3,2)] assms(4) by (auto simp: lexer_ok_def TK_defs)

lemma lex_string_token:
  assumes "lex_string d v True m = Inr (t, l')" "d \<noteq> CHR 0x0A" "lx_cur m \<noteq> CHR 0x0A" "lx_cur m \<noteq> NUL" "lexer_ok m"
  shows "token_from m t l'"
proof -
  obtain u k where k: "ReadString d v True m = Inr (u, k)" "u \<noteq> - 1" "RETURN_TOKEN u k = Inr (t, l')"
    using assms(1) by (auto simp: lex_string_def lex_bind_Inr split: if_splits)
  show ?thesis using token_from_return [OF k(3) assms(4,3)] ReadString_token [OF k(1,2) assms(2,5)] by blast
qed

lemma token_from_later: "moves l m \<Longrightarrow> token_from m t l' \<Longrightarrow> token_from l t l'"
  unfolding token_from_def using adv_trans adv_takes takes_trans adv_left by (metis order_less_le_trans)

lemma lexer_ok_adv: "moves l m \<Longrightarrow> lexer_ok l \<Longrightarrow> lexer_ok m"
  using adv_state by (simp add: lexer_ok_def)

lemma lex_at_token:
  assumes "lex_at l = Inr (t, l')" "lx_cur l \<noteq> NUL" "lx_cur l \<noteq> CHR 0x0A" "lexer_ok l"
  shows "token_from l t l'"
proof -
  note n = adv_NEXT [OF assms(3)]
  note ok = lexer_ok_adv [OF n assms(4)]
  consider "lx_cur (NEXT l) = CHR ''@''" | "lx_cur (NEXT l) \<noteq> CHR 0x22" "lx_cur (NEXT l) \<noteq> CHR ''@''" | "lx_cur (NEXT l) = CHR 0x22"
    by auto
  then show ?thesis
  proof cases
    case 1
    then obtain u k where k: "ReadString CHR 0x22 True True (NEXT (NEXT l)) = Inr (u, k)" "u = TK_STRING_LITERAL"
      "RETURN_TOKEN TK_DOCSTRING k = Inr (t, l')"
      using assms(1) by (auto simp: lex_at_def Let_def lex_bind_Inr split: if_splits)
    have "lexer_ok (NEXT (NEXT l))" using assms(4) by (simp add: lexer_ok_def NEXT_def Next_def Let_def split: list.splits)
    then have "takes (NEXT (NEXT (NEXT l))) l'"
      using adv_takes [OF ReadString_token(1) [OF k(1)]] k(2) RETURN_TOKEN_Inr [OF k(3)] by (simp add: TK_STRING_LITERAL_def)
    then have n: "takes (NEXT l) l'"
      using takes_trans [OF takes_next [of "lx_core (NEXT l)"]] takes_trans [OF takes_next [of "lx_core (NEXT (NEXT l))"]] by simp
    then have "takes l l'" using takes_trans [OF takes_next [of "lx_core l"]] by simp
    moreover have "lx_left l' < lx_left l" using takes_left [OF n] NEXT_left [OF assms(2)] by simp
    ultimately show ?thesis using RETURN_TOKEN_Inr [OF k(3)] by (simp add: token_from_def TK_DOCSTRING_def)
  next
    case 2
    then show ?thesis using assms by (auto simp: lex_at_def Let_def RETURN_CHAR_def intro: token_ret1)
  next
    case 3
    then have "lex_string CHR 0x22 True True (NEXT l) = Inr (t, l')" using assms(1) by (simp add: lex_at_def Let_def)
    then show ?thesis using token_from_later [OF n] lex_string_token ok 3 by simp
  qed
qed

lemma GetIDType_nonzero: "GetIDType s \<noteq> 0"
proof (cases "map_of lex_keywords s")
  case None
  then show ?thesis by (simp add: GetIDType_def TK_IDENTIFIER_def)
next
  case (Some t)
  have "\<forall>(k, v) \<in> set lex_keywords. v > 0" by (simp add: lex_keywords_def)
  then show ?thesis using map_of_SomeD [OF Some] Some by (auto simp: GetIDType_def)
qed

lemma ReadID_nonzero: "fst (ReadID l) \<noteq> 0"
  using GetIDType_nonzero by (simp add: ReadID_def Let_def)

lemma id_loop_left: "lx_cur l \<noteq> NUL \<Longrightarrow> lx_left (id_loop l) < lx_left l"
proof (induction "lx_left l" arbitrary: l rule: less_induct)
  case less
  let ?m = "NEXT (APPEND_CHAR (lx_cur l) l)"
  have m: "lx_left ?m < lx_left l" by (rule append_NEXT_left [OF less.prems])
  show ?case
  proof (cases "id_char ?m")
    case True
    then have "lx_left (id_loop ?m) < lx_left ?m" using less.hyps [OF m] by (auto simp: id_char_def dest: class_not_NUL)
    then show ?thesis using m True by (subst id_loop.simps) (simp add: Let_def)
  next
    case False
    then show ?thesis using m by (subst id_loop.simps) (simp add: Let_def)
  qed
qed

lemma ReadID_left: "lx_cur l \<noteq> NUL \<Longrightarrow> lx_left (snd (ReadID l)) < lx_left l"
  using id_loop_left [of "INIT_TEMP_STRING l"] by (simp add: ReadID_def Let_def)

lemma lex_default_token:
  assumes "lex_default l = Inr (t, l')" "lx_cur l \<noteq> NUL" "lx_cur l \<noteq> CHR 0x0A"
  shows "token_from l t l'"
proof -
  consider (num) "cur_is sq_isdigit l" | (id) "\<not> cur_is sq_isdigit l" "cur_is sq_isalpha l \<or> lx_cur l = CHR ''_''"
    | (other) "\<not> cur_is sq_isdigit l" "\<not> (cur_is sq_isalpha l \<or> lx_cur l = CHR ''_'')" by blast
  then show ?thesis
  proof cases
    case num
    then obtain u m where m: "ReadNumber l = Inr (u, m)" "RETURN_TOKEN u m = Inr (t, l')"
      using assms(1) by (auto simp: lex_default_def lex_bind_Inr)
    then show ?thesis
      using ReadNumber_adv [OF num m(1)] RETURN_TOKEN_Inr [OF m(2)] core_left [of l' m] adv_takes
      by (auto simp: token_from_def TK_defs)
  next
    case id
    then have r: "RETURN_TOKEN (fst (ReadID l)) (snd (ReadID l)) = Inr (t, l')"
      using assms(1) by (simp add: lex_default_def split_beta Let_def)
    then show ?thesis
      using ReadID_adv [OF assms(3)] ReadID_left [OF assms(2)] RETURN_TOKEN_Inr [OF r] core_left [of l' "snd (ReadID l)"] adv_takes
        ReadID_nonzero [of l]
      by (auto simp: token_from_def)
  next
    case other
    then have "RETURN_CHAR (lx_cur l) (NEXT l) = Inr (t, l')"
      using assms(1) by (simp add: lex_default_def if_report_Inr)
    then show ?thesis using RETURN_CHAR_token assms(2,3) by blast
  qed
qed

lemma lex_token_from:
  assumes "lex_token l = Inr (t, l')" "lx_cur l \<noteq> NUL" "lx_cur l \<noteq> CHR 0x0A" "lexer_ok l"
  shows "token_from l t l'"
proof (cases "lex_operator (lx_cur l) l")
  case None
  then show ?thesis
    using assms lex_less_token lex_greater_token lex_directive_token lex_dollar_token lex_at_token lex_string_token
      RETURN_CHAR_token lex_question_token lex_dot_token lex_default_token
    by (simp add: lex_token_def Let_def split: if_splits)
next
  case (Some r)
  then show ?thesis
    using assms lex_less_token lex_greater_token lex_directive_token lex_dollar_token lex_at_token lex_string_token
      RETURN_CHAR_token lex_question_token lex_dot_token lex_operator_token
    by (simp add: lex_token_def Let_def split: if_splits)
qed

lemma token_start_core [simp]: "lx_core (token_start l) = lx_core l"
  by (simp add: token_start_def lx_core_def)

lemma lex_newline_adv: "lx_cur l = CHR 0x0A \<Longrightarrow> moves l (lex_newline l)"
  using adv_line [of l]
  by (cases "lx_source l") (simp_all add: lex_newline_def Let_def lx_core_def nextLine_def NEXT_def Next_def)

text \<open>What one call of the lexer does: it reaches the end of the source or takes a token.\<close>

definition lexed :: "lexer \<Rightarrow> int \<Rightarrow> lexer \<Rightarrow> bool" where
  "lexed l t l' \<longleftrightarrow> t = 0 \<and> moves l l' \<and> lx_cur l' = NUL \<or> token_from l t l'"

lemma lexed_later: "moves l m \<Longrightarrow> lexed m t l' \<Longrightarrow> lexed l t l'"
  using adv_trans token_from_later unfolding lexed_def by blast

lemma lex_loop_lexed: "lex_loop l = Inr (t, l') \<Longrightarrow> lexer_ok l \<Longrightarrow> lexed l t l'"
proof (induction "lx_left l" arbitrary: l rule: less_induct)
  case less
  let ?m = "token_start l"
  have rec: "lexed l t l'" if "lex_loop k = Inr (t, l')" "lx_left k < lx_left l" "moves l k" for k
    using less.hyps [OF that(2,1) lexer_ok_adv [OF that(3) less.prems(2)]] lexed_later [OF that(3)] by blast
  have ok: "lexer_ok ?m" using less.prems(2) by (simp add: lexer_ok_def token_start_def)
  consider "lx_cur l = NUL" | "lx_cur l = CHR 0x09 \<or> lx_cur l = CHR 0x0D \<or> lx_cur l = CHR '' ''" | "lx_cur l = CHR 0x0A"
    | "lx_cur l = CHR ''/''"
    | "lx_cur l \<noteq> NUL" "\<not> (lx_cur l = CHR 0x09 \<or> lx_cur l = CHR 0x0D \<or> lx_cur l = CHR '' '')" "lx_cur l \<noteq> CHR 0x0A" "lx_cur l \<noteq> CHR ''/''"
    by blast
  then show ?case
  proof cases
    case 1
    then show ?thesis using less.prems by (subst (asm) lex_loop.simps) (auto simp: lexed_def)
  next
    case 2
    let ?f = "?m\<lparr>lx_flags := lx_flags ?m OR TF_PREP_SPACE\<rparr>"
    have "lex_loop (NEXT ?f) = Inr (t, l')"
      using less.prems(1) 2 by (subst (asm) lex_loop.simps) (auto simp: Let_def)
    moreover have "lx_left (NEXT ?f) < lx_left l" using flags_left [of ?m] 2 by auto
    moreover have "moves l (NEXT ?f)" using adv_NEXT [of ?f] 2 by auto
    ultimately show ?thesis by (rule rec)
  next
    case 3
    then have "lex_loop (lex_newline ?m) = Inr (t, l')"
      using less.prems(1) by (subst (asm) lex_loop.simps) (simp add: Let_def)
    then show ?thesis using rec lex_newline_left [of ?m] lex_newline_adv [of ?m] 3 by simp
  next
    case 4
    note n = adv_NEXT [of ?m]
    have left: "lx_left (NEXT ?m) < lx_left l" using NEXT_left [of ?m] 4 by simp
    consider "lx_cur (NEXT ?m) = CHR ''*''" | "lx_cur (NEXT ?m) = CHR ''/''"
      | "lx_cur (NEXT ?m) \<noteq> CHR ''*''" "lx_cur (NEXT ?m) \<noteq> CHR ''/''" by blast
    then show ?thesis
    proof cases
      case 1
      then obtain k where k: "LexBlockComment (NEXT (NEXT ?m)) = Inr k" "lex_loop k = Inr (t, l')"
        using less.prems(1) 4 by (subst (asm) lex_loop.simps) (auto simp: Let_def lex_bind_Inr)
      have a: "moves (NEXT ?m) k" using adv_trans [OF adv_NEXT2 [of ?m] LexBlockComment_adv [OF k(1)]] 1 by simp
      then have "moves l k" using adv_trans [OF n a] 4 by simp
      moreover have "lx_left k < lx_left l" using adv_left [OF a] left by simp
      ultimately show ?thesis using rec k(2) by blast
    next
      case 2
      then have k: "lex_loop (LexLineComment (NEXT ?m)) = Inr (t, l')"
        using less.prems(1) 4 by (subst (asm) lex_loop.simps) (simp add: Let_def)
      have a: "moves (NEXT ?m) (LexLineComment (NEXT ?m))" using LexLineComment_adv [of "NEXT ?m"] 2 by simp
      then have "moves l (LexLineComment (NEXT ?m))" using adv_trans [OF n a] 4 by simp
      moreover have "lx_left (LexLineComment (NEXT ?m)) < lx_left l" using adv_left [OF a] left by simp
      ultimately show ?thesis using rec k by blast
    next
      case 3
      have "token_from ?m t l'"
        using less.prems(1) 4 3
        by (subst (asm) lex_loop.simps) (auto simp: Let_def RETURN_CHAR_def TK_DIVEQ_def intro: token_ret split: if_splits)
      then show ?thesis using token_from_later [of l ?m] by (simp add: lexed_def)
    qed
  next
    case 5
    then have "lex_token ?m = Inr (t, l')" using less.prems(1) by (subst (asm) lex_loop.simps) (simp add: Let_def)
    then show ?thesis using lex_token_from [of ?m] 5 ok token_from_later [of l ?m] by (simp add: lexed_def)
  qed
qed

text \<open>The next piece of a template, which is read without an opening quote.\<close>

lemma string_loop_left:
  assumes "string_loop d v t l = Inr (t', l')" "d \<noteq> NUL" "d \<noteq> CHR 0x0A"
  shows "lx_left l' < lx_left l"
proof -
  have rec: "lx_left l' < lx_left l" if "string_loop d v u m = Inr (t', l')" "lx_left m < lx_left l" for u m
    using string_loop_adv [OF assms(3) that(1)] adv_left that(2) by (auto simp: string_end_def intro: order_le_less_trans)
  have n: "lx_cur l \<noteq> NUL" using assms(1,2) by (subst (asm) string_loop.simps) auto
  note left = NEXT_left [OF n] append_NEXT_left [OF n]
  consider "lx_cur l = d" | "lx_cur l \<noteq> d" "lx_cur l = CHR 0x0A" | "lx_cur l \<noteq> d" "lx_cur l = CHR 0x5C" "\<not> v"
    | "lx_cur l \<noteq> d" "lx_cur l \<noteq> CHR 0x0A" "lx_cur l = CHR 0x5C \<longrightarrow> v" by blast
  then show ?thesis
  proof cases
    case 1
    show ?thesis
    proof (cases "v \<and> lx_cur (NEXT l) = CHR 0x22")
      case True
      then obtain u where "string_loop d v u (NEXT (APPEND_CHAR (lx_cur (NEXT l)) (NEXT l))) = Inr (t', l')"
        using assms(1) 1 by (subst (asm) string_loop.simps) (auto simp: Let_def)
      then show ?thesis using rec NEXT_left_le [of "APPEND_CHAR (lx_cur (NEXT l)) (NEXT l)"] left(1) by simp
    next
      case False
      then have "l' = NEXT l" using assms(1) 1 by (subst (asm) string_loop.simps) (auto simp: Let_def)
      then show ?thesis using left(1) by simp
    qed
  next
    case 2
    then have "string_loop d v t (nextLine (NEXT (APPEND_CHAR (lx_cur l) l))) = Inr (t', l')"
      using assms(1) by (subst (asm) string_loop.simps) (auto split: if_splits)
    then show ?thesis using rec left(2) by simp
  next
    case 3
    then obtain m where "read_escape (NEXT l) = Inr m" "string_loop d v t m = Inr (t', l')"
      using assms(1) by (subst (asm) string_loop.simps) (auto simp: lex_bind_Inr)
    then show ?thesis using rec read_escape_left [of "NEXT l" m] left(1) by simp
  next
    case 4
    then have "l' = NEXT (APPEND_CHAR (lx_cur l) l) \<or> string_loop d v t (NEXT (APPEND_CHAR (lx_cur l) l)) = Inr (t', l')"
      using assms(1) n by (subst (asm) string_loop.simps) (auto split: if_splits)
    then show ?thesis using rec left(2) by blast
  qed
qed

lemma template_token:
  assumes "lex_string CHR 0x22 v False l = Inr (t, l')" "lexer_ok l"
  shows "token_from l t l'"
proof -
  obtain u k where k: "ReadString CHR 0x22 v False l = Inr (u, k)" "u \<noteq> - 1" "RETURN_TOKEN u k = Inr (t, l')"
    using assms(1) by (auto simp: lex_string_def lex_bind_Inr split: if_splits)
  obtain w m where "string_loop CHR 0x22 v TK_STRING_LITERAL (INIT_TEMP_STRING l) = Inr (w, m)" "lx_core k = lx_core m"
    using k(1,2) by (auto simp: ReadString_def Let_def lex_bind_Inr split: if_splits)
  then have "lx_left k < lx_left l" using string_loop_left [of "CHR 0x22"] core_left [of k m] by fastforce
  moreover have "moves l k" "u \<noteq> 0" using ReadString_adv [OF k(1) _ k(2)] assms(2) by (auto simp: lexer_ok_def TK_defs)
  ultimately show ?thesis using RETURN_TOKEN_Inr [OF k(3)] core_left [of l' k] adv_takes by (simp add: token_from_def)
qed

lemma Lex_lexed:
  assumes "Lex l = Inr (t, l')" "lexer_ok l"
  shows "lexed l t l'"
proof -
  let ?m = "l\<lparr>lx_lasttokenline := lx_currentline l, lx_lasttokencolumn := lx_currentcolumn l\<rparr>"
  have "lexer_ok ?m" "lx_core ?m = lx_core l" using assms(2) by (simp_all add: lexer_ok_def lx_core_def)
  then have "lexed ?m t l'"
    using assms(1) lex_loop_lexed [of ?m] template_token [of False ?m]
    by (auto simp: Lex_def LexSingleToken_def Let_def lexed_def split: if_splits)
  then show ?thesis using lexed_later [of l ?m] \<open>lx_core ?m = lx_core l\<close> by simp
qed

subsection \<open>Properties\<close>

lemma lexed_text:
  assumes "lexed l t l'"
  shows "\<exists>cs. lx_rest l = cs @ lx_rest l' \<and> (if t = 0 then lx_cur l' = NUL else cs \<noteq> []) \<and>
    (t \<notin> {TK_DIRECTIVE, TK_DOCSTRING} \<longrightarrow> lx_currentline l' = lx_currentline l + int (count_list cs CHR 0x0A))"
proof -
  obtain cs where cs: "lx_rest l = cs @ lx_rest l'"
    using assms adv_takes unfolding lexed_def token_from_def takes_core_def by blast
  have "lx_left l' = lx_left l" if "cs = []"
    using cs that by (auto simp: lx_core_def lx_left_def split: if_splits)
  then have "if t = 0 then lx_cur l' = NUL else cs \<noteq> []"
    using assms by (auto simp: lexed_def token_from_def)
  moreover have "lx_currentline l' = lx_currentline l + int (count_list cs CHR 0x0A)" if "t \<notin> {TK_DIRECTIVE, TK_DOCSTRING}"
  proof -
    have "core_feeds (lx_core m) = lx_currentline m + int (count_list (lx_rest m) CHR 0x0A)" for m
      by (simp add: lx_core_def)
    moreover have "core_feeds (lx_core l') = core_feeds (lx_core l)"
      using assms that by (auto simp: lexed_def token_from_def adv_core_def)
    ultimately show ?thesis by (simp add: cs)
  qed
  ultimately show ?thesis using cs by blast
qed

text \<open>Calling the lexer until the end, as the parser does outside templates.\<close>

fun lex_all :: "nat \<Rightarrow> lexer \<Rightarrow> int list lex_res option" where
  "lex_all 0 l = None"
| "lex_all (Suc n) l =
     (case Lex l of
        Inl e \<Rightarrow> Some (Inl e)
      | Inr (t, l) \<Rightarrow>
          if t = 0 then Some (Inr [])
          else map_option (\<lambda>r. lex_bind r (\<lambda>ts. Inr (t # ts))) (lex_all n l))"

lemma lex_all_ends:
  "lexer_ok l \<Longrightarrow> length (lx_rest l) < n \<Longrightarrow> \<exists>r. lex_all n l = Some r \<and> (\<forall>ts. r = Inr ts \<longrightarrow> length ts \<le> length (lx_rest l))"
proof (induction n arbitrary: l)
  case (Suc n)
  show ?case
  proof (cases "Lex l")
    case (Inr p)
    obtain t l' where p: "Lex l = Inr (t, l')" using Inr by (cases p) simp
    note lx = Lex_lexed [OF p Suc.prems(1)]
    show ?thesis
    proof (cases "t = 0")
      case False
      obtain cs where cs: "lx_rest l = cs @ lx_rest l'" "cs \<noteq> []" using lexed_text [OF lx] False by auto
      have "lexer_ok l'"
        using lx Suc.prems(1) by (auto simp: lexed_def token_from_def takes_core_def lexer_ok_def lx_core_def adv_core_def)
      moreover have "length (lx_rest l') < n" using cs Suc.prems(2) by (cases cs) auto
      ultimately obtain r where r: "lex_all n l' = Some r" "\<forall>ts. r = Inr ts \<longrightarrow> length ts \<le> length (lx_rest l')"
        using Suc.IH by blast
      have "length (lx_rest l') < length (lx_rest l)" using cs by (cases cs) auto
      then show ?thesis using p False r by (auto simp: lex_bind_Inr intro: order.strict_implies_order)
    qed (simp add: p)
  qed simp
qed simp

end
