(* ===== verification/LexLiterals.thy ===== *)
theory LexLiterals
  imports LexProps
begin

text \<open>
  What the lexer makes of the text of a literal: decimal integers with their overflow, and
  strings with their escapes. \<open>at_text l s\<close> says that the lexer stands in front of \<open>s\<close>, outside
  a template.
\<close>

definition at_text :: "lexer \<Rightarrow> string \<Rightarrow> bool" where
  "at_text l s \<longleftrightarrow> lx_cur l = cur_char s \<and> lx_source l = tl s \<and> lx_state l = LS_REGULAR"

lemma at_cur: "at_text l s \<Longrightarrow> lx_cur l = cur_char s"
  by (simp add: at_text_def)

lemma at_NEXT: "at_text l s \<Longrightarrow> at_text (NEXT l) (tl s)"
  by (cases "tl s") (auto simp: at_text_def NEXT_def Next_def Let_def)

lemma at_stay [simp]:
  "at_text (APPEND_CHAR c l) s = at_text l s" "at_text (INIT_TEMP_STRING l) s = at_text l s"
  "at_text (TERMINATE_BUFFER l) s = at_text l s" "at_text (SetStringValue l) s = at_text l s" "at_text (token_start l) s = at_text l s"
  "at_text (l\<lparr>lx_nvalue := x\<rparr>) s = at_text l s"
  by (simp_all add: at_text_def APPEND_CHAR_def INIT_TEMP_STRING_def TERMINATE_BUFFER_def SetStringValue_def token_start_def)

lemma longstr_simps [simp]:
  "lx_longstr (NEXT l) = lx_longstr l" "lx_longstr (APPEND_CHAR c l) = lx_longstr l @ [c]"
  "lx_longstr (INIT_TEMP_STRING l) = []" "lx_longstr (TERMINATE_BUFFER l) = lx_longstr l @ [NUL]"
  by (simp_all add: NEXT_def Next_def Let_def APPEND_CHAR_def INIT_TEMP_STRING_def TERMINATE_BUFFER_def split: list.splits)

lemma NEXT_at [simp]: "lx_state (NEXT l) = lx_state l"
  by (simp add: NEXT_def Next_def Let_def split: list.splits)

text \<open>The token that starts at the current character, in the main loop.\<close>

lemma Lex_at:
  assumes "at_text l (c # s)" "c \<noteq> NUL" "c \<notin> {CHR 0x09, CHR 0x0A, CHR 0x0D, CHR '' '', CHR ''/''}"
  shows "\<exists>m. Lex l = lex_token m \<and> at_text m (c # s)"
proof -
  let ?m = "token_start (l\<lparr>lx_lasttokenline := lx_currentline l, lx_lasttokencolumn := lx_currentcolumn l\<rparr>)"
  have "Lex l = lex_token ?m"
    using assms by (auto simp: Lex_def LexSingleToken_def at_text_def lex_loop.simps Let_def)
  moreover have "at_text ?m (c # s)" using assms(1) by (simp add: at_text_def token_start_def)
  ultimately show ?thesis by blast
qed

subsection \<open>Integers\<close>

definition decimal :: "string \<Rightarrow> bool" where
  "decimal ds \<longleftrightarrow> ds \<noteq> [] \<and> (\<forall>d \<in> set ds. is_dec d) \<and> (length ds > 1 \<longrightarrow> hd ds \<noteq> CHR ''0'')"

definition ends_number :: "char \<Rightarrow> bool" where
  "ends_number c \<longleftrightarrow> \<not> sq_isalnum (of_char c) \<and> c \<noteq> CHR ''.'' \<and> c \<noteq> CHR ''_''"

lemma is_dec_range: "is_dec d \<longleftrightarrow> 48 \<le> (of_char d :: nat) \<and> (of_char d :: nat) \<le> 57"
proof -
  have "(of_char d :: int) = int (of_char d)" by (rule of_nat_of_char [symmetric])
  then show ?thesis by (simp add: is_dec_def sq_isdigit_def in_range_def uc_def Let_def)
qed

lemma dec_cases: "is_dec d \<Longrightarrow> d \<in> set ''0123456789''"
proof -
  assume "is_dec d"
  then have "of_char d \<in> set [48..<58 :: nat]" unfolding is_dec_range set_upt by (intro atLeastLessThan_iff [THEN iffD2]) linarith
  then have "char_of (of_char d :: nat) \<in> char_of ` set [48..<58 :: nat]" by (rule imageI)
  moreover have "char_of ` set [48..<58 :: nat] = set ''0123456789''" by code_simp
  ultimately show ?thesis unfolding char_of_char by blast
qed

lemma digit_value_dec: "is_dec d \<Longrightarrow> digit_value d = word_of_nat (of_char d - 48)"
proof -
  have "\<forall>d \<in> set ''0123456789''. digit_value d = word_of_nat (of_char d - 48)" by code_simp
  then show "is_dec d \<Longrightarrow> digit_value d = word_of_nat (of_char d - 48)" using dec_cases by blast
qed

lemma dec_not: "is_dec d \<Longrightarrow> d \<noteq> CHR ''.'' \<and> d \<noteq> CHR ''_'' \<and> d \<noteq> CHR ''e'' \<and> d \<noteq> CHR ''E'' \<and> d \<noteq> CHR ''x'' \<and> d \<noteq> CHR ''X'' \<and> d \<noteq> NUL"
  by (auto simp: is_dec_range)

definition dec_from :: "nat \<Rightarrow> string \<Rightarrow> nat" where
  "dec_from n s = foldl (\<lambda>n c. 10 * n + (of_char c - 48)) n s"

lemma dec_from_ge: "n \<le> dec_from n s"
proof (induction s arbitrary: n)
  case (Cons c s)
  have "10 * n + (of_char c - 48) \<le> dec_from n (c # s)" using Cons [of "10 * n + (of_char c - 48)"] by (simp add: dec_from_def)
  then show ?case by linarith
qed (simp add: dec_from_def)

lemma LexInteger_dec:
  "\<forall>d \<in> set ds. is_dec d \<Longrightarrow> LexInteger (ds @ [NUL]) x =
     (if dec_from (unat x) ds < 2 ^ 63 then Some (word_of_nat (dec_from (unat x) ds)) else None)"
proof (induction ds arbitrary: x)
  case Nil
  have "x \<le> drop_bit 1 (NOT 0) \<longleftrightarrow> unat x < 2 ^ 63"
    by (simp add: word_le_nat_alt unat_drop_bit_eq drop_bit_eq_div) linarith
  then show ?case by (simp add: dec_from_def)
next
  case (Cons d ds)
  let ?v = "of_char d - 48 :: nat"
  let ?n = "10 * unat x + ?v"
  have d: "is_dec d" using Cons.prems by simp
  then have v: "?v < 10" "digit_value d = word_of_nat ?v" "d \<noteq> NUL"
    using digit_value_dec is_dec_range [of d] dec_not [of d] by auto
  then have ud: "unat (digit_value d) = ?v" by (simp add: unat_of_nat)
  have over: "x > INT_OVERFLOW_THRESHOLD \<or> x = INT_OVERFLOW_THRESHOLD \<and> digit_value d > INT_OVERFLOW_DIGIT \<longleftrightarrow> 2 ^ 64 \<le> ?n"
    using v(1) by (auto simp: INT_OVERFLOW_THRESHOLD_def INT_OVERFLOW_DIGIT_def word_less_nat_alt word_unat_eq_iff ud)
  show ?case
  proof (cases "2 ^ 64 \<le> ?n")
    case True
    then have "\<not> dec_from (unat x) (d # ds) < 2 ^ 63" using dec_from_ge [of ?n ds] by (simp add: dec_from_def)
    then show ?thesis using True over v(3) by (simp add: Let_def)
  next
    case False
    have "unat (x * 10 + digit_value d) = ?n" using False ud by (simp add: unat_word_ariths)
    then have "dec_from (unat (x * 10 + digit_value d)) ds = dec_from (unat x) (d # ds)" by (simp add: dec_from_def)
    moreover have "LexInteger ((d # ds) @ [NUL]) x = LexInteger (ds @ [NUL]) (x * 10 + digit_value d)"
      using iffD1 [OF over] False v(3) unfolding append_Cons LexInteger.simps Let_def by (metis (full_types))
    ultimately show ?thesis using Cons.IH [of "x * 10 + digit_value d"] Cons.prems by simp
  qed
qed

text \<open>The loop over the digits.\<close>

lemma NUM_NEXT_at: "at_text l s \<Longrightarrow> cur_char (tl s) \<noteq> CHR ''_'' \<Longrightarrow> NUM_NEXT l = NEXT l"
  using at_NEXT [of l s] by (subst NUM_NEXT.simps) (simp add: at_text_def Let_def)

lemma number_loop_digits:
  assumes "\<forall>d \<in> set ds. is_dec d" "ends_number (cur_char rest)" "at_text l (ds @ rest)"
  shows "\<exists>l'. number_loop False False TINT l = Inr (TINT, l') \<and> at_text l' rest \<and> lx_longstr l' = lx_longstr l @ ds"
  using assms
proof (induction ds arbitrary: l)
  case Nil
  then show ?case
    by (intro exI [of _ l], subst number_loop.simps) (simp add: at_cur ends_number_def)
next
  case (Cons d ds)
  let ?m = "NEXT (APPEND_CHAR d l)"
  have cur: "lx_cur l = d" using Cons.prems(3) by (simp add: at_cur)
  have d: "is_dec d" using Cons.prems(1) by simp
  have "cur_char (ds @ rest) \<noteq> CHR ''_''"
    using Cons.prems(1,2) dec_not by (cases ds) (auto simp: ends_number_def)
  then have nn: "NUM_NEXT (APPEND_CHAR d l) = ?m" using NUM_NEXT_at [of "APPEND_CHAR d l" "d # ds @ rest"] Cons.prems(3) by simp
  have dig: "cur_is sq_isdigit l" using d cur by (simp add: is_dec_def)
  then have "cur_is sq_isalnum l" by (auto simp: sq_isdigit_def sq_isalnum_def Let_def)
  moreover have "number_char False False TINT l = Inr (False, False, TINT, l)"
    using dig dec_not [OF d] cur by (simp add: number_char_def isexponent_def)
  ultimately have "number_loop False False TINT l = number_loop False False TINT ?m"
    using nn cur by (subst number_loop.simps) simp
  moreover have "at_text ?m (ds @ rest)" using at_NEXT [of "APPEND_CHAR d l" "d # ds @ rest"] Cons.prems(3) by simp
  ultimately show ?case using Cons.IH [of ?m] Cons.prems(1,2) by auto
qed

lemma ReadNumber_decimal:
  assumes "decimal ds" "ends_number (cur_char rest)" "at_text l (ds @ rest)"
  shows "if dec_value ds < 2 ^ 63
     then \<exists>l'. ReadNumber l = Inr (TK_INTEGER, l') \<and> at_text l' rest \<and> lx_nvalue l' = word_of_nat (dec_value ds)
     else \<exists>l'. ReadNumber l = report (DI_LITERAL_OVERFLOW ''integer'') l'"
proof -
  obtain d ds' where ds: "ds = d # ds'" "is_dec d" "\<forall>d \<in> set ds'. is_dec d" "ds' \<noteq> [] \<longrightarrow> d \<noteq> CHR ''0''"
    using assms(1) by (cases ds) (auto simp: decimal_def)
  let ?m = "NEXT (INIT_TEMP_STRING l)"
  have cur: "lx_cur l = d" using assms(3) by (simp add: at_cur ds(1))
  have "cur_char (ds' @ rest) \<noteq> CHR ''_''" using ds(3) assms(2) dec_not by (cases ds') (auto simp: ends_number_def)
  then have m: "NUM_NEXT (INIT_TEMP_STRING l) = ?m" "at_text ?m (ds' @ rest)"
    using NUM_NEXT_at [of "INIT_TEMP_STRING l" "ds @ rest"] at_NEXT [of "INIT_TEMP_STRING l" "ds @ rest"] assms(3) by (simp_all add: ds(1))
  have "\<not> (d = CHR ''0'' \<and> cur_is sq_isdigit ?m)" "\<not> (d = CHR ''0'' \<and> (lx_cur ?m = CHR ''X'' \<or> lx_cur ?m = CHR ''x''))"
  proof -
    have "lx_cur ?m = cur_char rest" if "d = CHR ''0''" using ds(4) that at_cur [OF m(2)] by simp
    moreover have "\<not> sq_isdigit (of_char (cur_char rest))" "cur_char rest \<noteq> CHR ''X''" "cur_char rest \<noteq> CHR ''x''"
      using assms(2) by (auto simp: ends_number_def sq_isdigit_def sq_isalnum_def in_range_def uc_def Let_def)
    ultimately show "\<not> (d = CHR ''0'' \<and> cur_is sq_isdigit ?m)" "\<not> (d = CHR ''0'' \<and> (lx_cur ?m = CHR ''X'' \<or> lx_cur ?m = CHR ''x''))"
      by auto
  qed
  then have r: "ReadNumber l = lex_bind (number_loop False False TINT (APPEND_CHAR d ?m)) (\<lambda>(type, l). finish_number type l)"
    unfolding ReadNumber_def Let_def cur m(1) by (simp only: if_False)
  obtain l' where l': "number_loop False False TINT (APPEND_CHAR d ?m) = Inr (TINT, l')" "at_text l' rest" "lx_longstr l' = [d] @ ds'"
    using number_loop_digits [OF ds(3) assms(2), of "APPEND_CHAR d ?m"] m(2) by auto
  have "LexInteger (ds @ [NUL]) 0 = (if dec_value ds < 2 ^ 63 then Some (word_of_nat (dec_value ds)) else None)"
    using LexInteger_dec [of ds 0] ds by (simp add: dec_value_def dec_from_def)
  then show ?thesis
    using r l' by (auto simp: finish_number_def Let_def ds(1))
qed

lemma lex_token_digit:
  assumes "lx_cur l = d" "is_dec d"
  shows "lex_token l = lex_bind (ReadNumber l) (\<lambda>(ret, l). RETURN_TOKEN ret l)"
proof -
  have "\<forall>d \<in> set ''0123456789''. lex_operator d l = None \<and> d \<notin> set plain_tokens" by (simp add: lex_operator_def plain_tokens_def)
  then have "lex_operator d l = None" "d \<notin> set plain_tokens" using dec_cases [OF assms(2)] by blast+
  moreover have "cur_is sq_isdigit l" using assms by (simp add: is_dec_def)
  moreover have "d \<notin> {CHR ''<'', CHR ''>'', CHR ''#'', CHR ''$'', CHR ''@'', CHR 0x22, CHR 0x27, CHR ''?'', CHR ''.''}"
    using dec_cases [OF assms(2)] by auto
  ultimately show ?thesis using assms(1) by (simp add: lex_token_def lex_default_def Let_def)
qed

subsection \<open>Strings\<close>

text \<open>The text of a string literal, with the four characters escaped that cannot stand for themselves.\<close>

definition quote_char :: "char \<Rightarrow> string" where
  "quote_char c =
     (if c = CHR 0x22 then [CHR 0x5C, CHR 0x22] else if c = CHR 0x5C then [CHR 0x5C, CHR 0x5C]
      else if c = CHR 0x0A then [CHR 0x5C, CHR ''n''] else if c = NUL then [CHR 0x5C, CHR ''0''] else [c])"

definition quoted :: "string \<Rightarrow> string" where
  "quoted s = CHR 0x22 # concat (map quote_char s) @ [CHR 0x22]"

lemma string_loop_char:
  assumes "at_text l (quote_char c @ s)"
  shows "\<exists>m. string_loop CHR 0x22 False t l = string_loop CHR 0x22 False t m \<and> at_text m s \<and> lx_longstr m = lx_longstr l @ [c]"
proof (cases "c \<in> {CHR 0x22, CHR 0x5C, CHR 0x0A, NUL}")
  case True
  then obtain e where e: "quote_char c = [CHR 0x5C, e]" "map_of simple_escapes e = Some c" "e \<noteq> CHR ''x''" "e \<noteq> CHR ''u''" "e \<noteq> CHR ''U''"
    by (auto simp: quote_char_def simple_escapes_def)
  let ?m = "NEXT (APPEND_CHAR c (NEXT l))"
  have at1: "at_text (NEXT l) (e # s)" using at_NEXT [OF assms] by (simp add: e(1))
  then have "read_escape (NEXT l) = Inr ?m" using e(2-5) by (simp add: read_escape_def Let_def at_cur)
  moreover have "lx_cur l = CHR 0x5C" using at_cur [OF assms] by (simp add: e(1))
  ultimately have "string_loop CHR 0x22 False t l = string_loop CHR 0x22 False t ?m"
    by (subst string_loop.simps) simp
  moreover have "at_text ?m s" using at_NEXT [of "APPEND_CHAR c (NEXT l)" "e # s"] at1 by simp
  ultimately show ?thesis by (intro exI [of _ ?m]) simp
next
  case False
  let ?m = "NEXT (APPEND_CHAR c l)"
  have at: "at_text l (c # s)" using assms False by (auto simp: quote_char_def)
  then have "lx_cur l = c" "lx_state l = LS_REGULAR" by (simp_all add: at_text_def)
  then have "string_loop CHR 0x22 False t l = string_loop CHR 0x22 False t ?m"
    using False by (subst string_loop.simps) auto
  moreover have "at_text ?m s" using at_NEXT [of "APPEND_CHAR c l" "c # s"] at by simp
  ultimately show ?thesis by (intro exI [of _ ?m]) simp
qed

lemma string_loop_quoted:
  "at_text l (concat (map quote_char s) @ [CHR 0x22] @ rest) \<Longrightarrow>
     \<exists>l'. string_loop CHR 0x22 False t l = Inr (t, l') \<and> at_text l' rest \<and> lx_longstr l' = lx_longstr l @ s"
proof (induction s arbitrary: l)
  case Nil
  then have "lx_cur l = CHR 0x22" "lx_state l = LS_REGULAR" "at_text (NEXT l) rest"
    using at_NEXT [of l "CHR 0x22 # rest"] by (simp_all add: at_text_def)
  then show ?case by (intro exI [of _ "NEXT l"], subst string_loop.simps) (simp add: Let_def)
next
  case (Cons c s)
  then have "at_text l (quote_char c @ concat (map quote_char s) @ [CHR 0x22] @ rest)" by simp
  then obtain m where "string_loop CHR 0x22 False t l = string_loop CHR 0x22 False t m"
    "at_text m (concat (map quote_char s) @ [CHR 0x22] @ rest)" "lx_longstr m = lx_longstr l @ [c]"
    using string_loop_char by blast
  then show ?case using Cons.IH [of m] by auto
qed

lemma ReadString_quoted:
  assumes "at_text l (quoted s @ rest)"
  shows "\<exists>l'. ReadString CHR 0x22 False True l = Inr (TK_STRING_LITERAL, l') \<and> at_text l' rest \<and> lx_svalue l' = Some (s @ [NUL])"
proof -
  let ?m = "NEXT (INIT_TEMP_STRING l)"
  let ?t = "concat (map quote_char s) @ [CHR 0x22] @ rest"
  have m: "at_text ?m ?t" using at_NEXT [of "INIT_TEMP_STRING l" "quoted s @ rest"] assms by (simp add: quoted_def)
  obtain l' where l': "string_loop CHR 0x22 False TK_STRING_LITERAL ?m = Inr (TK_STRING_LITERAL, l')" "at_text l' rest" "lx_longstr l' = s"
    using string_loop_quoted [OF m, of TK_STRING_LITERAL] by auto
  have "cur_char ?t \<noteq> NUL" by (cases s) (auto simp: quote_char_def)
  then have "\<not> IS_EOB ?m" using at_cur [OF m] by (simp add: IS_EOB_def)
  moreover have "lx_state l = LS_REGULAR" using assms by (simp add: at_text_def)
  ultimately have "ReadString CHR 0x22 False True l = Inr (TK_STRING_LITERAL, SetStringValue (TERMINATE_BUFFER l'))"
    using l'(1) by (simp add: ReadString_def Let_def)
  moreover have "lx_svalue (SetStringValue (TERMINATE_BUFFER l')) = Some (s @ [NUL])"
    by (simp add: SetStringValue_def l'(3))
  ultimately show ?thesis using l'(2) by auto
qed

end
