(* ===== verification/LexThms.thy ===== *)
theory LexThms
  imports LexLiterals
begin

text \<open>The properties of the lexer.\<close>

lemma lexer_ok_new: "lexer_ok (lexer_Init src (new_lexer c))"
  by (cases src) (simp_all add: lexer_ok_def lexer_Init_def new_lexer_def Next_def)

lemma rest_new: "length (lx_rest (lexer_Init src (new_lexer c))) \<le> length src"
  by (cases src) (simp_all add: lx_core_def lexer_Init_def new_lexer_def Next_def)

lemma at_new: "at_text (lexer_Init src (new_lexer c)) src"
  by (cases src) (simp_all add: at_text_def lexer_Init_def new_lexer_def Next_def)

text \<open>C31: Every token is a piece of the source: one call of \<open>Lex\<close> that succeeds takes the text of its token, with the white space and comments before it, from the front of what is left, at least one character unless it answers the end of the source, and adds to the line number the line feeds in that text (a directive or a docstring can take one without counting it).\<close>

theorem lex_token_text:
  assumes "Lex l = Inr (t, l')" "lx_state l = LS_TEMPLATE \<Longrightarrow> lx_expectedToken l > 0"
  shows "\<exists>cs. lx_rest l = cs @ lx_rest l' \<and> (if t = 0 then lx_cur l' = NUL else cs \<noteq> []) \<and>
    (t = TK_DIRECTIVE \<or> t = TK_DOCSTRING \<or> lx_currentline l' = lx_currentline l + int (count_list cs CHR 0x0A))"
  using lexed_text [OF Lex_lexed [OF assms(1)]] assms(2) by (auto simp: lexer_ok_def)

theorem lex_token_text_witness:
  "\<exists>l' cs. Lex (lexer_Init [CHR 0x0A, CHR ''x''] (new_lexer False)) = Inr (TK_IDENTIFIER, l') \<and> cs \<noteq> [] \<and>
     [CHR 0x0A, CHR ''x''] = cs @ lx_rest l' \<and> lx_currentline l' = 1 + int (count_list cs CHR 0x0A)"
proof -
  let ?l = "lexer_Init [CHR 0x0A, CHR ''x''] (new_lexer False)"
  have "case Lex ?l of Inl e \<Rightarrow> False | Inr (t, l') \<Rightarrow> t = TK_IDENTIFIER" by code_simp
  then obtain l' where l': "Lex ?l = Inr (TK_IDENTIFIER, l')" by (auto split: sum.splits)
  have "lx_state ?l = LS_REGULAR" "lx_rest ?l = [CHR 0x0A, CHR ''x'']" "lx_currentline ?l = 1"
    by (simp_all add: lx_core_def lexer_Init_def new_lexer_def Next_def)
  then show ?thesis using lex_token_text [OF l'] l' by (auto simp: TK_defs)
qed

text \<open>C32: Lexing a source ends: outside templates at most one call of \<open>Lex\<close> for each character, and one more, reaches the end token or a diagnostic, and there are at most as many tokens as characters.\<close>

theorem lex_source_ends:
  "\<exists>r. lex_all (length src + 1) (lexer_Init src (new_lexer c)) = Some r \<and>
     (case r of Inl e \<Rightarrow> True | Inr ts \<Rightarrow> length ts \<le> length src)"
proof -
  let ?l = "lexer_Init src (new_lexer c)"
  obtain r where "lex_all (length src + 1) ?l = Some r" "\<forall>ts. r = Inr ts \<longrightarrow> length ts \<le> length (lx_rest ?l)"
    using lex_all_ends [OF lexer_ok_new [of src c], of "length src + 1"] rest_new [of src c] by auto
  then show ?thesis using rest_new [of src c] by (cases r) auto
qed

text \<open>C33: A decimal literal in front of a character that cannot continue a number is the integer token with the value of its digits when that value fits 63 bits, and is otherwise reported as an integer overflow; what follows it is left.\<close>

theorem lex_decimal_literal:
  assumes "decimal ds" "ends_number (cur_char rest)" "at_text l (ds @ rest)"
  shows "if dec_value ds < 2 ^ 63
     then \<exists>l'. Lex l = Inr (TK_INTEGER, l') \<and> at_text l' rest \<and> unat (lx_nvalue l') = dec_value ds
     else \<exists>e. Lex l = Inl e \<and> le_diag e = DI_LITERAL_OVERFLOW ''integer''"
proof -
  obtain d ds' where ds: "ds = d # ds'" "is_dec d" using assms(1) by (cases ds) (auto simp: decimal_def)
  have "d \<notin> {CHR 0x09, CHR 0x0A, CHR 0x0D, CHR '' '', CHR ''/'', NUL}" using dec_cases [OF ds(2)] by auto
  then obtain m where m: "Lex l = lex_token m" "at_text m (ds @ rest)" using Lex_at [of l d "ds' @ rest"] assms(3) ds(1) by auto
  have "lx_cur m = d" using at_cur [OF m(2)] ds(1) by simp
  then have r: "Lex l = lex_bind (ReadNumber m) (\<lambda>(ret, l). RETURN_TOKEN ret l)" using m(1) lex_token_digit ds(2) by simp
  have "unat (word_of_nat (dec_value ds) :: u64) = dec_value ds" if "dec_value ds < 2 ^ 63" using that by (simp add: unat_of_nat)
  then show ?thesis
    using r ReadNumber_decimal [OF assms(1,2) m(2)]
    by (auto simp: RETURN_TOKEN_def at_text_def report_def split: if_splits)
qed

theorem lex_decimal_literal_witness:
  "(\<exists>l'. Lex (lexer_Init ''9223372036854775807;'' (new_lexer False)) = Inr (TK_INTEGER, l') \<and> at_text l' '';'' \<and>
      unat (lx_nvalue l') = 9223372036854775807) \<and>
   (\<exists>e. Lex (lexer_Init ''9223372036854775808;'' (new_lexer False)) = Inl e \<and> le_diag e = DI_LITERAL_OVERFLOW ''integer'')"
proof -
  have "decimal ''9223372036854775807''" "decimal ''9223372036854775808''" "ends_number (cur_char '';'')"
    by code_simp+
  moreover have "dec_value ''9223372036854775807'' = 9223372036854775807" "dec_value ''9223372036854775808'' = 9223372036854775808"
    by (simp_all add: dec_value_def)
  ultimately show ?thesis
    using lex_decimal_literal [of "''9223372036854775807''" "'';''"] lex_decimal_literal [of "''9223372036854775808''" "'';''"]
      at_new [of "''9223372036854775807;''"] at_new [of "''9223372036854775808;''"]
    by auto
qed

text \<open>C34: The quoted text of any byte string, with the quote, the backslash, the line feed and the NUL escaped, is read back as one string token with exactly those bytes, and what follows the closing quote is left.\<close>

theorem lex_string_roundtrip:
  assumes "at_text l (quoted s @ rest)"
  shows "\<exists>l'. Lex l = Inr (TK_STRING_LITERAL, l') \<and> at_text l' rest \<and> lx_svalue l' = Some (s @ [NUL])"
proof -
  obtain m where m: "Lex l = lex_token m" "at_text m (quoted s @ rest)"
    using Lex_at [of l "CHR 0x22"] assms by (auto simp: quoted_def)
  then have "lex_token m = lex_string CHR 0x22 False True m"
    using at_cur [OF m(2)] by (simp add: lex_token_def quoted_def plain_tokens_def)
  then show ?thesis
    using m(1) ReadString_quoted [OF m(2)] by (auto simp: lex_string_def RETURN_TOKEN_def at_text_def TK_STRING_LITERAL_def)
qed

theorem lex_string_roundtrip_witness:
  "\<exists>l'. Lex (lexer_Init (quoted [CHR ''a'', CHR 0x22, NUL, CHR 0x0A] @ '';'') (new_lexer False)) = Inr (TK_STRING_LITERAL, l') \<and>
     at_text l' '';'' \<and> lx_svalue l' = Some [CHR ''a'', CHR 0x22, NUL, CHR 0x0A, NUL]"
  using lex_string_roundtrip [OF at_new [of "quoted [CHR ''a'', CHR 0x22, NUL, CHR 0x0A] @ '';''"]] by simp

text \<open>Two inputs that the lexer misreads: behind a block comment over two lines the column goes on from the line before (the name at column 2 of line 2 is placed at column 5), and a docstring needs no opening quote, because the character behind the two at signs is skipped unseen.\<close>

theorem lex_misreadings:
  "(case Lex (lexer_Init (''/*'' @ [CHR 0x0A] @ ''*/x'') (new_lexer False)) of
      Inl e \<Rightarrow> False
    | Inr (t, l) \<Rightarrow> t = TK_IDENTIFIER \<and> lx_tokenline l = 2 \<and> lx_tokencolumn l = 5) \<and>
   (case Lex (lexer_Init (''@@xabc'' @ [CHR 0x22]) (new_lexer False)) of
      Inl e \<Rightarrow> False
    | Inr (t, l) \<Rightarrow> t = TK_DOCSTRING \<and> lx_svalue l = Some (''abc'' @ [NUL]))"
  by code_simp

end
