(* ===== verification/StringTable.thy ===== *)
theory StringTable
  imports SqPrelude "HOL-Library.Multiset"
begin

text \<open>
  The table of interned strings: \<open>SQStringTable\<close> (\<^verbatim>\<open>squirrel/sqstate.cpp\<close>) with the hash of
  \<^verbatim>\<open>squirrel/sqstring.h\<close>. A string object is an address in a heap and carries the link of its
  collision chain. The address of a new object is what \<open>malloc\<close> returned: an argument, which is
  not in use. Results are \<open>None\<close> when a chain leaves the heap or does not end.
\<close>

record sq_string =
  ss_val :: string
  ss_hash :: u64
  ss_next :: "nat option"

type_synonym string_heap = "nat \<rightharpoonup> sq_string"

record string_table =
  st_strings :: "nat option list"
  st_numofslots :: nat
  st_slotused :: nat
  st_heap :: string_heap

subsection \<open>Operations\<close>

function fnv_loop :: "nat \<Rightarrow> string \<Rightarrow> nat \<Rightarrow> u64 \<Rightarrow> u64" where
  "fnv_loop step s l result =
     (if 0 < step \<and> step \<le> l
      then fnv_loop step s (l - step) ((result XOR word_of_int (schar (s ! (l - 1)))) * 1099511628211)
      else result)"
  by pat_completeness auto
termination
  by (relation "measure (\<lambda>(step, s, l, r). l)") auto

definition hashstr_fnv1a_64 :: "string \<Rightarrow> u64" where
  "hashstr_fnv1a_64 s = fnv_loop (length s div 32 + 1) s (length s) 14695981039346656037"

definition slot_of :: "nat \<Rightarrow> u64 \<Rightarrow> nat" where
  "slot_of numofslots h = unat (h AND word_of_nat (numofslots - 1))"

definition string_AllocNodes :: "nat \<Rightarrow> string_table \<Rightarrow> string_table" where
  "string_AllocNodes sz st = st\<lparr>st_numofslots := sz, st_strings := replicate sz None\<rparr>"

definition new_string_table :: string_table where
  "new_string_table = (string_AllocNodes 4 \<lparr>st_strings = [], st_numofslots = 0, st_slotused = 0, st_heap = Map.empty\<rparr>)\<lparr>st_slotused := 0\<rparr>"

text \<open>The search in a chain; equal lengths and \<open>memcmp\<close> together are equality of the bytes.\<close>

fun find_string :: "nat \<Rightarrow> string_heap \<Rightarrow> string \<Rightarrow> nat option \<Rightarrow> nat option option" where
  "find_string 0 h news p = None"
| "find_string (Suc fuel) h news None = Some None"
| "find_string (Suc fuel) h news (Some a) =
     (case h a of
        None \<Rightarrow> None
      | Some s \<Rightarrow> if ss_val s = news then Some (Some a) else find_string fuel h news (ss_next s))"

text \<open>The loops of \<open>Resize\<close>: over a chain of the old table, and over the old table.\<close>

fun rehash_chain :: "nat \<Rightarrow> nat \<Rightarrow> nat option \<Rightarrow> nat option list \<times> string_heap \<Rightarrow> (nat option list \<times> string_heap) option" where
  "rehash_chain 0 n p x = None"
| "rehash_chain (Suc fuel) n None x = Some x"
| "rehash_chain (Suc fuel) n (Some a) (bs, h) =
     (case h a of
        None \<Rightarrow> None
      | Some s \<Rightarrow>
          (let i = slot_of n (ss_hash s) in
           rehash_chain fuel n (ss_next s) (bs[i := Some a], h(a \<mapsto> s\<lparr>ss_next := bs ! i\<rparr>))))"

fun rehash_slots :: "nat \<Rightarrow> nat \<Rightarrow> nat option list \<Rightarrow> nat option list \<times> string_heap \<Rightarrow> (nat option list \<times> string_heap) option" where
  "rehash_slots fuel n [] x = Some x"
| "rehash_slots fuel n (p # ps) x = Option.bind (rehash_chain fuel n p x) (rehash_slots fuel n ps)"

definition string_Resize :: "nat \<Rightarrow> string_table \<Rightarrow> string_table option" where
  "string_Resize sz st =
     (let oldtable = st_strings st; st' = string_AllocNodes sz st in
      map_option (\<lambda>(bs, h). st'\<lparr>st_strings := bs, st_heap := h\<rparr>)
        (rehash_slots (st_slotused st + 1) sz oldtable (st_strings st', st_heap st)))"

text \<open>\<open>Add\<close>: the bytes up to \<open>len\<close>, or up to the NUL when \<open>len\<close> is negative; \<open>a\<close> is the new address.\<close>

definition added_text :: "string \<Rightarrow> int \<Rightarrow> string" where
  "added_text cs len = (if len < 0 then takeWhile (\<lambda>c. c \<noteq> NUL) cs else take (nat len) cs)"

definition string_Add :: "string \<Rightarrow> int \<Rightarrow> nat \<Rightarrow> string_table \<Rightarrow> (nat \<times> string_table) option" where
  "string_Add cs len a st =
     (let news = added_text cs len;
          newhash = hashstr_fnv1a_64 news;
          h = slot_of (st_numofslots st) newhash
      in case find_string (st_slotused st + 1) (st_heap st) news (st_strings st ! h) of
           None \<Rightarrow> None
         | Some (Some s) \<Rightarrow> Some (s, st)
         | Some None \<Rightarrow>
             (let t = \<lparr>ss_val = news, ss_hash = newhash, ss_next = st_strings st ! h\<rparr>;
                  st = st\<lparr>st_heap := (st_heap st)(a \<mapsto> t), st_strings := (st_strings st)[h := Some a],
                          st_slotused := st_slotused st + 1\<rparr>
              in map_option (Pair a)
                   (if st_slotused st > st_numofslots st then string_Resize (st_numofslots st * 2) st else Some st)))"

text \<open>\<open>Remove\<close>: the loop with its previous node; the object is destroyed.\<close>

fun unlink_string :: "nat \<Rightarrow> nat \<Rightarrow> nat \<Rightarrow> nat option \<Rightarrow> nat option \<Rightarrow> string_table \<Rightarrow> string_table option" where
  "unlink_string 0 bs h prev p st = None"
| "unlink_string (Suc fuel) bs h prev None st = None"
| "unlink_string (Suc fuel) bs h prev (Some a) st =
     (case st_heap st a of
        None \<Rightarrow> None
      | Some s \<Rightarrow>
          if a = bs then
            (case prev of
               Some q \<Rightarrow>
                 (case st_heap st q of
                    None \<Rightarrow> None
                  | Some pr \<Rightarrow>
                      Some (st\<lparr>st_heap := ((st_heap st)(q \<mapsto> pr\<lparr>ss_next := ss_next s\<rparr>))(a := None), st_slotused := st_slotused st - 1\<rparr>))
             | None \<Rightarrow>
                 Some (st\<lparr>st_strings := (st_strings st)[h := ss_next s], st_heap := (st_heap st)(a := None),
                          st_slotused := st_slotused st - 1\<rparr>))
          else unlink_string fuel bs h (Some a) (ss_next s) st)"

definition string_Remove :: "nat \<Rightarrow> string_table \<Rightarrow> string_table option" where
  "string_Remove bs st =
     (case st_heap st bs of
        None \<Rightarrow> None
      | Some b \<Rightarrow>
          (let h = slot_of (st_numofslots st) (ss_hash b) in
           unlink_string (st_slotused st + 1) bs h None (st_strings st ! h) st))"

subsection \<open>Chains\<close>

fun chain :: "string_heap \<Rightarrow> nat option \<Rightarrow> nat list \<Rightarrow> bool" where
  "chain h p [] \<longleftrightarrow> p = None"
| "chain h p (a # xs) \<longleftrightarrow> p = Some a \<and> (\<exists>s. h a = Some s \<and> chain h (ss_next s) xs)"

lemma chain_dom: "chain h p xs \<Longrightarrow> set xs \<subseteq> dom h"
  by (induction xs arbitrary: p) auto

lemma chain_cong: "chain h p xs \<Longrightarrow> (\<And>a. a \<in> set xs \<Longrightarrow> h' a = h a) \<Longrightarrow> chain h' p xs"
  by (induction xs arbitrary: p) auto

text \<open>The slots of a table as lists of addresses.\<close>

definition slots :: "string_heap \<Rightarrow> nat option list \<Rightarrow> nat list list \<Rightarrow> bool" where
  "slots h bs ls \<longleftrightarrow> length bs = length ls \<and> (\<forall>i < length ls. chain h (bs ! i) (ls ! i))"

lemma mset_push: "i < length ls \<Longrightarrow> mset (concat (ls[i := a # ls ! i])) = add_mset a (mset (concat ls))"
  by (induction ls arbitrary: i) (auto split: nat.splits)

lemma slot_of_less: "0 < n \<Longrightarrow> slot_of n h < n"
proof -
  assume "0 < n"
  have "slot_of n h \<le> unat (word_of_nat (n - 1) :: u64)"
    unfolding slot_of_def by (rule word_le_nat_alt [THEN iffD1]) (simp add: word_and_le1)
  also have "\<dots> \<le> n - 1" by (simp add: unat_of_nat)
  finally show ?thesis using \<open>0 < n\<close> by simp
qed

text \<open>Every string is in the slot of its hash, and no two strings have the same bytes.\<close>

definition well_placed :: "nat \<Rightarrow> string_heap \<Rightarrow> nat list list \<Rightarrow> bool" where
  "well_placed n h ls \<longleftrightarrow> (\<forall>i < length ls. \<forall>a \<in> set (ls ! i). \<exists>s. h a = Some s \<and> slot_of n (ss_hash s) = i)"

definition string_inv :: "string_table \<Rightarrow> bool" where
  "string_inv st \<longleftrightarrow> (\<exists>ls. 0 < st_numofslots st \<and> length ls = st_numofslots st \<and> slots (st_heap st) (st_strings st) ls \<and>
     distinct (concat ls) \<and> set (concat ls) = dom (st_heap st) \<and> st_slotused st = length (concat ls) \<and>
     well_placed (st_numofslots st) (st_heap st) ls \<and>
     (\<forall>a s. st_heap st a = Some s \<longrightarrow> ss_hash s = hashstr_fnv1a_64 (ss_val s)) \<and>
     (\<forall>a b s t. st_heap st a = Some s \<longrightarrow> st_heap st b = Some t \<longrightarrow> ss_val s = ss_val t \<longrightarrow> a = b))"

text \<open>The heap up to the links.\<close>

definition contents :: "string_heap \<Rightarrow> nat \<Rightarrow> (string \<times> u64) option" where
  "contents h a = map_option (\<lambda>s. (ss_val s, ss_hash s)) (h a)"

lemma contents_next: "h a = Some s \<Longrightarrow> contents (h(a \<mapsto> s\<lparr>ss_next := q\<rparr>)) = contents h"
  by (auto simp: contents_def)

lemma contents_SomeD:
  assumes "contents h = contents h'" "h a = Some s"
  shows "\<exists>s'. h' a = Some s' \<and> ss_val s' = ss_val s \<and> ss_hash s' = ss_hash s"
  using fun_cong [OF assms(1), of a] assms(2) by (cases "h' a") (auto simp: contents_def)

lemma contents_dom: "contents h = contents h' \<Longrightarrow> dom h = dom h'"
  by (auto dest: contents_SomeD contents_SomeD [OF sym])

subsection \<open>The loops\<close>

definition has_val :: "string_heap \<Rightarrow> string \<Rightarrow> nat \<Rightarrow> bool" where
  "has_val h v a \<longleftrightarrow> (\<exists>s. h a = Some s \<and> ss_val s = v)"

lemma find_string_spec: "chain h p xs \<Longrightarrow> length xs < fuel \<Longrightarrow> find_string fuel h v p = Some (List.find (has_val h v) xs)"
proof (induction xs arbitrary: p fuel)
  case Nil
  then show ?case by (cases fuel) auto
next
  case (Cons a xs)
  then show ?case by (cases fuel) (auto simp: has_val_def)
qed

lemma slots_push:
  assumes "slots h bs ls" "i < length ls" "a \<notin> set (concat ls)" "ss_next t = bs ! i"
  shows "slots (h(a \<mapsto> t)) (bs[i := Some a]) (ls[i := a # ls ! i])"
  unfolding slots_def
proof (intro conjI allI impI)
  show "length (bs[i := Some a]) = length (ls[i := a # ls ! i])" using assms(1) by (simp add: slots_def)
  fix j assume j: "j < length (ls[i := a # ls ! i])"
  have "chain (h(a \<mapsto> t)) (bs ! k) (ls ! k)" if "k < length ls" for k
  proof (rule chain_cong)
    show "chain h (bs ! k) (ls ! k)" using assms(1) that by (simp add: slots_def)
    show "(h(a \<mapsto> t)) b = h b" if "b \<in> set (ls ! k)" for b
      using assms(3) that nth_mem [OF \<open>k < length ls\<close>] by auto
  qed
  then show "chain (h(a \<mapsto> t)) (bs[i := Some a] ! j) (ls[i := a # ls ! i] ! j)"
    using j assms(1,2,4) by (cases "j = i") (auto simp: slots_def)
qed

lemma well_placed_push:
  assumes "well_placed n h ls" "i < length ls" "a \<notin> set (concat ls)" "slot_of n (ss_hash t) = i"
  shows "well_placed n (h(a \<mapsto> t)) (ls[i := a # ls ! i])"
proof -
  have "b \<noteq> a" if "b \<in> set (ls ! j)" "j < length ls" for b j
    using assms(3) that nth_mem [OF that(2)] by auto
  then show ?thesis using assms unfolding well_placed_def by (auto simp: nth_list_update split: if_splits)
qed

lemma rehash_chain_spec:
  assumes "chain h p xs" "length xs < fuel" "slots h bs ls" "0 < n" "length ls = n" "distinct xs" "set xs \<inter> set (concat ls) = {}"
    "well_placed n h ls"
  shows "\<exists>bs' h' ls'. rehash_chain fuel n p (bs, h) = Some (bs', h') \<and> slots h' bs' ls' \<and> length ls' = n \<and>
    mset (concat ls') = mset xs + mset (concat ls) \<and> well_placed n h' ls' \<and> contents h' = contents h \<and> (\<forall>a. a \<notin> set xs \<longrightarrow> h' a = h a)"
  using assms
proof (induction xs arbitrary: p fuel h bs ls)
  case Nil
  then show ?case by (cases fuel) auto
next
  case (Cons a xs)
  obtain f where f: "fuel = Suc f" using Cons.prems(2) by (cases fuel) auto
  obtain s where s: "p = Some a" "h a = Some s" "chain h (ss_next s) xs" using Cons.prems(1) by auto
  let ?i = "slot_of n (ss_hash s)"
  let ?t = "s\<lparr>ss_next := bs ! ?i\<rparr>"
  let ?h = "h(a \<mapsto> ?t)" and ?bs = "bs[?i := Some a]" and ?ls = "ls[?i := a # ls ! ?i]"
  have i: "?i < length ls" using slot_of_less [OF Cons.prems(4)] Cons.prems(5) by simp
  have a: "a \<notin> set (concat ls)" "a \<notin> set xs" using Cons.prems(6,7) by auto
  have m: "mset (concat ?ls) = add_mset a (mset (concat ls))" by (rule mset_push [OF i])
  then have "set (concat ?ls) = insert a (set (concat ls))" by (metis set_mset_add_mset_insert set_mset_mset)
  then have dis: "set xs \<inter> set (concat ?ls) = {}" using Cons.prems(7) a(2) by auto
  have ch: "chain ?h (ss_next s) xs" using s(3) by (rule chain_cong) (use a(2) in auto)
  have sl: "slots ?h ?bs ?ls" by (rule slots_push [OF Cons.prems(3) i a(1)]) simp
  have wp: "well_placed n ?h ?ls" by (rule well_placed_push [OF Cons.prems(8) i a(1)]) simp
  have "length xs < f" "length ?ls = n" "distinct xs" using Cons.prems(2,5,6) f by simp_all
  from Cons.IH [OF ch this(1) sl Cons.prems(4) this(2,3) dis wp] obtain bs' h' ls' where r: "rehash_chain f n (ss_next s) (?bs, ?h) = Some (bs', h')" "slots h' bs' ls'" "length ls' = n"
    "mset (concat ls') = mset xs + mset (concat ?ls)" "well_placed n h' ls'" "contents h' = contents ?h" "\<forall>b. b \<notin> set xs \<longrightarrow> h' b = ?h b"
    by blast
  have "rehash_chain fuel n p (bs, h) = Some (bs', h')" using r(1) s(1,2) f by (simp add: Let_def)
  moreover have "contents h' = contents h" using r(6) contents_next [of h a s] s(2) by simp
  ultimately show ?case using r(2,3,4,5,7) m by (intro exI [of _ bs'] exI [of _ h'] exI [of _ ls']) auto
qed

lemma rehash_slots_spec:
  assumes "list_all2 (chain h) ps lss" "\<forall>xs \<in> set lss. length xs < fuel" "slots h bs ls" "0 < n" "length ls = n" "distinct (concat lss)"
    "set (concat lss) \<inter> set (concat ls) = {}" "well_placed n h ls"
  shows "\<exists>bs' h' ls'. rehash_slots fuel n ps (bs, h) = Some (bs', h') \<and> slots h' bs' ls' \<and> length ls' = n \<and>
    mset (concat ls') = mset (concat lss) + mset (concat ls) \<and> well_placed n h' ls' \<and> contents h' = contents h"
  using assms
proof (induction ps arbitrary: lss h bs ls)
  case Nil
  then show ?case by auto
next
  case (Cons p ps lss0)
  then obtain xs lss where lss: "lss0 = xs # lss" "chain h p xs" "list_all2 (chain h) ps lss"
    by (auto simp: list_all2_Cons1)
  note prems = Cons.prems [unfolded lss(1)]
  have "set xs \<inter> set (concat ls) = {}" "length xs < fuel" "distinct xs" using prems by auto
  from rehash_chain_spec [OF lss(2) this(2) prems(3,4,5) this(3,1) prems(8)] obtain bs1 h1 ls1 where 1: "rehash_chain fuel n p (bs, h) = Some (bs1, h1)" "slots h1 bs1 ls1" "length ls1 = n"
    "mset (concat ls1) = mset xs + mset (concat ls)" "well_placed n h1 ls1" "contents h1 = contents h" "\<forall>a. a \<notin> set xs \<longrightarrow> h1 a = h a"
    by blast
  have set1: "set (concat ls1) = set xs \<union> set (concat ls)" using 1(4) by (metis set_mset_mset set_mset_union)
  have "list_all2 (chain h1) ps lss"
  proof (rule list.rel_mono_strong [OF lss(3)])
    fix q ys assume "ys \<in> set lss" "chain h q ys"
    then show "chain h1 q ys" using 1(7) prems(6) by (intro chain_cong [of h q ys h1]) auto
  qed
  moreover have "\<forall>ys \<in> set lss. length ys < fuel" "distinct (concat lss)" "set (concat lss) \<inter> set (concat ls1) = {}"
    using prems(2,6,7) set1 by auto
  ultimately obtain bs' h' ls' where "rehash_slots fuel n ps (bs1, h1) = Some (bs', h')" "slots h' bs' ls'" "length ls' = n"
    "mset (concat ls') = mset (concat lss) + mset (concat ls1)" "well_placed n h' ls'" "contents h' = contents h1"
    using Cons.IH [OF _ _ 1(2) prems(4) 1(3) _ _ 1(5)] by blast
  then show ?case using 1(1,4,6) by (intro exI [of _ bs'] exI [of _ h'] exI [of _ ls']) (auto simp: lss(1))
qed

subsection \<open>The invariant is kept\<close>

lemma string_invE:
  assumes "string_inv st"
  obtains ls where "0 < st_numofslots st" "length ls = st_numofslots st" "slots (st_heap st) (st_strings st) ls"
    "distinct (concat ls)" "set (concat ls) = dom (st_heap st)" "st_slotused st = length (concat ls)"
    "well_placed (st_numofslots st) (st_heap st) ls"
  using assms unfolding string_inv_def by blast

definition hashed :: "string_heap \<Rightarrow> bool" where
  "hashed h \<longleftrightarrow> (\<forall>a s. h a = Some s \<longrightarrow> ss_hash s = hashstr_fnv1a_64 (ss_val s)) \<and>
     (\<forall>a b s t. h a = Some s \<longrightarrow> h b = Some t \<longrightarrow> ss_val s = ss_val t \<longrightarrow> a = b)"

lemma string_inv_hashed: "string_inv st \<longleftrightarrow> hashed (st_heap st) \<and>
    (\<exists>ls. 0 < st_numofslots st \<and> length ls = st_numofslots st \<and> slots (st_heap st) (st_strings st) ls \<and>
     distinct (concat ls) \<and> set (concat ls) = dom (st_heap st) \<and> st_slotused st = length (concat ls) \<and>
     well_placed (st_numofslots st) (st_heap st) ls)"
  unfolding string_inv_def hashed_def by blast

lemma hashed_contents: "contents h' = contents h \<Longrightarrow> hashed h \<Longrightarrow> hashed h'"
proof -
  assume c: "contents h' = contents h" and h: "hashed h"
  show "hashed h'"
    unfolding hashed_def
  proof (intro conjI allI impI)
    fix a s assume "h' a = Some s"
    from contents_SomeD [OF c this] show "ss_hash s = hashstr_fnv1a_64 (ss_val s)" using h by (auto simp: hashed_def)
  next
    fix a b s t assume "h' a = Some s" "h' b = Some t" "ss_val s = ss_val t"
    with contents_SomeD [OF c this(1)] contents_SomeD [OF c this(2)] show "a = b" using h by (auto simp: hashed_def)
  qed
qed

lemma string_Resize_spec:
  assumes "string_inv st" "0 < n"
  shows "\<exists>st'. string_Resize n st = Some st' \<and> string_inv st' \<and> contents (st_heap st') = contents (st_heap st)"
proof -
  obtain ls where ls: "length ls = st_numofslots st" "slots (st_heap st) (st_strings st) ls" "distinct (concat ls)"
    "set (concat ls) = dom (st_heap st)" "st_slotused st = length (concat ls)"
    using string_invE [OF assms(1)] by metis
  have "list_all2 (chain (st_heap st)) (st_strings st) ls" using ls(2) by (simp add: slots_def list_all2_conv_all_nth)
  moreover have "\<forall>xs \<in> set ls. length xs < st_slotused st + 1"
    using ls(5) member_le_sum_list [of _ "map length ls"] by (auto simp: length_concat less_Suc_eq_le)
  moreover have "slots (st_heap st) (replicate n None) (replicate n [])" by (simp add: slots_def)
  moreover have "well_placed n (st_heap st) (replicate n [])" by (simp add: well_placed_def)
  ultimately obtain bs' h' ls' where r: "rehash_slots (st_slotused st + 1) n (st_strings st) (replicate n None, st_heap st) = Some (bs', h')"
    "slots h' bs' ls'" "length ls' = n" "mset (concat ls') = mset (concat ls)" "well_placed n h' ls'" "contents h' = contents (st_heap st)"
    using rehash_slots_spec [of "st_heap st" "st_strings st" ls "st_slotused st + 1" "replicate n None" "replicate n []" n] assms(2) ls(3)
    by (auto simp: concat_replicate_trivial)
  let ?st = "st\<lparr>st_numofslots := n, st_strings := bs', st_heap := h'\<rparr>"
  have "string_Resize n st = Some ?st" using r(1) by (simp add: string_Resize_def string_AllocNodes_def Let_def)
  moreover have "string_inv ?st"
    unfolding string_inv_hashed
  proof (intro conjI exI [of _ ls'])
    show "hashed (st_heap ?st)" using hashed_contents [OF r(6)] assms(1) by (simp add: string_inv_hashed)
    show "distinct (concat ls')" using r(4) ls(3) by (metis mset_eq_imp_distinct_iff)
    show "set (concat ls') = dom (st_heap ?st)" using r(4,6) ls(4) contents_dom mset_eq_setD by (metis string_table.select_convs(4) string_table.surjective string_table.update_convs(4))
    show "st_slotused ?st = length (concat ls')" using r(4) ls(5) by (metis mset_eq_length string_table.select_convs(3) string_table.surjective string_table.update_convs(1,2,4))
  qed (use r assms(2) in simp_all)
  ultimately show ?thesis using r(6) by auto
qed

subsection \<open>Adding and removing\<close>

definition live_text :: "string_table \<Rightarrow> nat \<Rightarrow> string option" where
  "live_text st a = map_option ss_val (st_heap st a)"

lemma live_text_contents: "contents (st_heap st') = contents (st_heap st) \<Longrightarrow> live_text st' = live_text st"
proof
  fix a assume "contents (st_heap st') = contents (st_heap st)"
  then have "map_option fst (contents (st_heap st') a) = map_option fst (contents (st_heap st) a)" by simp
  then show "live_text st' a = live_text st a" by (simp add: live_text_def contents_def option.map_comp comp_def)
qed

lemma string_insert_inv:
  assumes inv: "string_inv st" and a: "a \<notin> dom (st_heap st)" and new: "\<And>b. live_text st b \<noteq> Some v"
  defines "j \<equiv> slot_of (st_numofslots st) (hashstr_fnv1a_64 v)"
  shows "string_inv (st\<lparr>st_heap := (st_heap st)(a \<mapsto> \<lparr>ss_val = v, ss_hash = hashstr_fnv1a_64 v, ss_next = st_strings st ! j\<rparr>),
     st_strings := (st_strings st)[j := Some a], st_slotused := st_slotused st + 1\<rparr>)" (is "string_inv ?st")
proof -
  obtain ls where ls: "0 < st_numofslots st" "length ls = st_numofslots st" "slots (st_heap st) (st_strings st) ls"
    "distinct (concat ls)" "set (concat ls) = dom (st_heap st)" "st_slotused st = length (concat ls)"
    "well_placed (st_numofslots st) (st_heap st) ls"
    using string_invE [OF inv] by metis
  have j: "j < length ls" using slot_of_less ls(1,2) by (simp add: j_def)
  let ?ls = "ls[j := a # ls ! j]"
  have m: "mset (concat ?ls) = add_mset a (mset (concat ls))" by (rule mset_push [OF j])
  have new': "ss_val s \<noteq> v" if "st_heap st b = Some s" for b s using new [of b] that by (auto simp: live_text_def)
  have a': "a \<notin> set (concat ls)" using a ls(5) by simp
  show ?thesis
    unfolding string_inv_hashed
  proof (intro conjI exI [of _ ?ls])
    show "hashed (st_heap ?st)" using inv new' unfolding string_inv_hashed hashed_def by (auto split: if_splits)
    show "slots (st_heap ?st) (st_strings ?st) ?ls" using slots_push [OF ls(3) j a'] by simp
    show "well_placed (st_numofslots ?st) (st_heap ?st) ?ls" using well_placed_push [OF ls(7) j a'] by (simp add: j_def)
    have "mset (concat ?ls) = mset (a # concat ls)" using m by simp
    note m' = mset_eq_imp_distinct_iff [OF this] mset_eq_length [OF this] mset_eq_setD [OF this]
    show "distinct (concat ?ls)" using m'(1) a' ls(4) by simp
    show "st_slotused ?st = length (concat ?ls)" using m'(2) ls(6) by simp
    show "set (concat ?ls) = dom (st_heap ?st)" unfolding m'(3) using ls(5) by simp
  qed (use ls in simp_all)
qed

lemma string_Add_spec:
  fixes cs :: string and len :: int
  assumes inv: "string_inv st" and a: "a \<notin> dom (st_heap st)"
  defines "v \<equiv> added_text cs len"
  shows "\<exists>p st'. string_Add cs len a st = Some (p, st') \<and> string_inv st' \<and> live_text st' p = Some v \<and>
    (if \<exists>b. live_text st b = Some v then st' = st else p = a \<and> live_text st' = (live_text st)(a \<mapsto> v))"
proof -
  obtain ls where ls: "0 < st_numofslots st" "length ls = st_numofslots st" "slots (st_heap st) (st_strings st) ls"
    "distinct (concat ls)" "set (concat ls) = dom (st_heap st)" "st_slotused st = length (concat ls)"
    "well_placed (st_numofslots st) (st_heap st) ls"
    using string_invE [OF inv] by metis
  let ?j = "slot_of (st_numofslots st) (hashstr_fnv1a_64 v)"
  have j: "?j < length ls" using slot_of_less ls(1,2) by simp
  have "length (ls ! ?j) \<le> length (concat ls)"
    using member_le_sum_list [of "length (ls ! ?j)" "map length ls"] j by (simp add: length_concat)
  moreover have "chain (st_heap st) (st_strings st ! ?j) (ls ! ?j)" using ls(3) j by (simp add: slots_def)
  ultimately have f: "find_string (st_slotused st + 1) (st_heap st) v (st_strings st ! ?j) = Some (List.find (has_val (st_heap st) v) (ls ! ?j))"
    using find_string_spec ls(6) by simp
  show ?thesis
  proof (cases "List.find (has_val (st_heap st) v) (ls ! ?j)")
    case (Some p)
    then have "string_Add cs len a st = Some (p, st)" using f by (simp add: string_Add_def Let_def v_def)
    moreover have "has_val (st_heap st) v p" using Some by (auto simp: find_Some_iff)
    then have "live_text st p = Some v" by (auto simp: has_val_def live_text_def)
    ultimately show ?thesis using inv by (intro exI [of _ p] exI [of _ st]) auto
  next
    case None
    have new: "live_text st b \<noteq> Some v" for b
    proof
      assume "live_text st b = Some v"
      then obtain s where s: "st_heap st b = Some s" "ss_val s = v" by (auto simp: live_text_def)
      then have h: "ss_hash s = hashstr_fnv1a_64 v" using inv by (auto simp: string_inv_hashed hashed_def)
      have "b \<in> set (concat ls)" using ls(5) s(1) by auto
      then obtain xs where "xs \<in> set ls" "b \<in> set xs" by auto
      then obtain i where i: "i < length ls" "b \<in> set (ls ! i)" by (metis in_set_conv_nth)
      then have "i = ?j" using ls(7) s(1) h unfolding well_placed_def by fastforce
      then show False using None i(2) s by (auto simp: find_None_iff has_val_def)
    qed
    let ?st = "st\<lparr>st_heap := (st_heap st)(a \<mapsto> \<lparr>ss_val = v, ss_hash = hashstr_fnv1a_64 v, ss_next = st_strings st ! ?j\<rparr>),
       st_strings := (st_strings st)[?j := Some a], st_slotused := st_slotused st + 1\<rparr>"
    have inv': "string_inv ?st" by (rule string_insert_inv [OF inv a new])
    have r: "string_Add cs len a st = map_option (Pair a)
        (if st_slotused ?st > st_numofslots ?st then string_Resize (st_numofslots ?st * 2) ?st else Some ?st)"
      using f None by (simp add: string_Add_def Let_def v_def)
    have "\<exists>st'. (if st_slotused ?st > st_numofslots ?st then string_Resize (st_numofslots ?st * 2) ?st else Some ?st) = Some st' \<and>
        string_inv st' \<and> contents (st_heap st') = contents (st_heap ?st)"
      using string_Resize_spec [OF inv', of "st_numofslots ?st * 2"] inv' ls(1) by (cases "st_slotused ?st > st_numofslots ?st") auto
    then obtain st' where st': "string_Add cs len a st = Some (a, st')" "string_inv st'" "contents (st_heap st') = contents (st_heap ?st)"
      using r by auto
    have "live_text st' = (live_text st)(a \<mapsto> v)"
      using live_text_contents [OF st'(3)] by (simp add: live_text_def fun_eq_iff)
    then show ?thesis using st'(1,2) new by (intro exI [of _ a] exI [of _ st']) auto
  qed
qed

lemma unlink_walk:
  "chain (st_heap st) p (xs @ b # ys) \<Longrightarrow> b \<notin> set xs \<Longrightarrow> length xs < fuel \<Longrightarrow>
     unlink_string fuel b h prev p st = unlink_string (fuel - length xs) b h (if xs = [] then prev else Some (last xs)) (Some b) st"
proof (induction xs arbitrary: p prev fuel)
  case Nil
  then show ?case by simp
next
  case (Cons x xs)
  then obtain f s where "fuel = Suc f" "p = Some x" "st_heap st x = Some s" "chain (st_heap st) (ss_next s) (xs @ b # ys)"
    by (cases fuel) auto
  then show ?case using Cons.IH [of "ss_next s" f "Some x"] Cons.prems(2,3) by auto
qed

lemma chain_unlink:
  "chain h p (xs @ q # b # ys) \<Longrightarrow> distinct (xs @ q # b # ys) \<Longrightarrow> h q = Some pr \<Longrightarrow> h b = Some s \<Longrightarrow>
     chain ((h(q \<mapsto> pr\<lparr>ss_next := ss_next s\<rparr>))(b := None)) p (xs @ q # ys)"
proof (induction xs arbitrary: p)
  case Nil
  then have "chain h (ss_next s) ys" by auto
  then have "chain ((h(q \<mapsto> pr\<lparr>ss_next := ss_next s\<rparr>))(b := None)) (ss_next s) ys"
    (is "chain ?h _ _") by (rule chain_cong) (use Nil in auto)
  moreover have "?h q = Some (pr\<lparr>ss_next := ss_next s\<rparr>)" using Nil.prems(2) by simp
  ultimately show ?case using Nil.prems(1) by (simp del: fun_upd_apply)
next
  case (Cons x xs)
  let ?h = "(h(q \<mapsto> pr\<lparr>ss_next := ss_next s\<rparr>))(b := None)"
  obtain t where t: "p = Some x" "h x = Some t" "chain h (ss_next t) (xs @ q # b # ys)" using Cons.prems(1) by auto
  then have "chain ?h (ss_next t) (xs @ q # ys)" using Cons.IH [OF t(3)] Cons.prems(2,3,4) by (simp del: fun_upd_apply)
  moreover have "?h x = Some t" using Cons.prems(2) t(2) by auto
  ultimately show ?case using t(1) by (simp del: fun_upd_apply)
qed

lemma slotsD: "slots h bs ls \<Longrightarrow> i < length ls \<Longrightarrow> chain h (bs ! i) (ls ! i)"
  by (simp add: slots_def)

lemma mset_cut: "j < length ls \<Longrightarrow> ls ! j = xs @ b # ys \<Longrightarrow> mset (concat ls) = add_mset b (mset (concat (ls[j := xs @ ys])))"
  by (induction ls arbitrary: j) (auto split: nat.splits)

text \<open>What removing a node leaves: the chain without it, and the rest of the heap.\<close>

lemma unlink_result:
  assumes "chain (st_heap st) (st_strings st ! j) (xs @ b # ys)" "distinct (xs @ b # ys)" "st_heap st b = Some s" "length xs < fuel"
    "j < length (st_strings st)"
  shows "\<exists>h' bs'. unlink_string fuel b j None (st_strings st ! j) st =
       Some (st\<lparr>st_heap := h', st_strings := bs', st_slotused := st_slotused st - 1\<rparr>) \<and>
     chain h' (bs' ! j) (xs @ ys) \<and> (\<forall>a. a \<noteq> b \<longrightarrow> a \<notin> set xs \<longrightarrow> h' a = st_heap st a) \<and>
     length bs' = length (st_strings st) \<and> (\<forall>i. i \<noteq> j \<longrightarrow> bs' ! i = st_strings st ! i) \<and> contents h' = (contents (st_heap st))(b := None)"
proof -
  have b: "b \<notin> set xs" using assms(2) by simp
  obtain f where f: "fuel - length xs = Suc f" using assms(4) by (cases "fuel - length xs") auto
  note r = unlink_walk [OF assms(1) b assms(4), of j None, unfolded f]
  show ?thesis
  proof (cases xs rule: rev_cases)
    case Nil
    let ?h = "(st_heap st)(b := None)"
    have "chain ?h (ss_next s) ys" by (rule chain_cong [of "st_heap st"]) (use assms(1-3) Nil in auto)
    then show ?thesis
      using r assms(3,5) Nil
      by (intro exI [of _ ?h] exI [of _ "(st_strings st)[j := ss_next s]"]) (auto simp: contents_def)
  next
    case (snoc zs q)
    obtain pr where pr: "st_heap st q = Some pr" using chain_dom [OF assms(1)] snoc by auto
    let ?h = "((st_heap st)(q \<mapsto> pr\<lparr>ss_next := ss_next s\<rparr>))(b := None)"
    have "chain ?h (st_strings st ! j) (xs @ ys)"
      using chain_unlink [of "st_heap st" "st_strings st ! j" zs q b ys pr s] assms(1-3) pr snoc by (simp del: fun_upd_apply)
    moreover have "contents ?h = (contents (st_heap st))(b := None)" using pr by (auto simp: contents_def)
    moreover have "unlink_string fuel b j None (st_strings st ! j) st = Some (st\<lparr>st_heap := ?h, st_slotused := st_slotused st - 1\<rparr>)"
      using r assms(3) pr snoc by simp
    ultimately show ?thesis using snoc by (intro exI [of _ ?h] exI [of _ "st_strings st"]) auto
  qed
qed

lemma distinct_concat_apart:
  assumes "distinct (concat ls)" "i < length ls" "j < length ls" "i \<noteq> j" "a \<in> set (ls ! i)"
  shows "a \<notin> set (ls ! j)"
  using assms
proof (induction ls arbitrary: i j)
  case (Cons l ls)
  have m: "set (ls ! k) \<subseteq> set (concat ls)" if "k < length ls" for k using nth_mem [OF that] by auto
  have l: "set l \<inter> set (concat ls) = {}" using Cons.prems(1) by simp
  show ?case
  proof (cases i)
    case 0
    then show ?thesis using Cons.prems(3,4,5) m [of "j - 1"] l by (cases j) auto
  next
    case (Suc k)
    then show ?thesis using Cons.prems m [of k] l Cons.IH [of k "j - 1"] by (cases j) auto
  qed
qed simp

lemma string_Remove_spec:
  assumes inv: "string_inv st" and b: "b \<in> dom (st_heap st)"
  shows "\<exists>st'. string_Remove b st = Some st' \<and> string_inv st' \<and> live_text st' = (live_text st)(b := None)"
proof -
  obtain ls where ls: "0 < st_numofslots st" "length ls = st_numofslots st" "slots (st_heap st) (st_strings st) ls"
    "distinct (concat ls)" "set (concat ls) = dom (st_heap st)" "st_slotused st = length (concat ls)"
    "well_placed (st_numofslots st) (st_heap st) ls"
    using string_invE [OF inv] by metis
  obtain s where s: "st_heap st b = Some s" using b by auto
  obtain l where l: "l \<in> set ls" "b \<in> set l" using b ls(5) by auto
  then obtain j where j: "j < length ls" "b \<in> set (ls ! j)" by (metis in_set_conv_nth)
  have slot: "slot_of (st_numofslots st) (ss_hash s) = j" using ls(7) s j unfolding well_placed_def by fastforce
  obtain xs ys where xy: "ls ! j = xs @ b # ys" using split_list [OF j(2)] by blast
  let ?ls = "ls[j := xs @ ys]"
  have m: "mset (concat ls) = mset (b # concat ?ls)" using mset_cut [OF j(1) xy] by simp
  note m' = mset_eq_imp_distinct_iff [OF m] mset_eq_length [OF m] mset_eq_setD [OF m]
  have dist: "distinct (xs @ b # ys)" using ls(4) j(1) xy by (metis distinct_concat_iff nth_mem)
  have "length (ls ! j) \<le> length (concat ls)"
    using member_le_sum_list [of "length (ls ! j)" "map length ls"] j(1) by (simp add: length_concat)
  then have fuel: "length xs < st_slotused st + 1" using ls(6) xy by simp
  have "j < length (st_strings st)" using ls(3) j(1) by (simp add: slots_def)
  from unlink_result [OF slotsD [OF ls(3) j(1), unfolded xy] dist s fuel this] obtain h' bs' where
    r: "unlink_string (st_slotused st + 1) b j None (st_strings st ! j) st =
       Some (st\<lparr>st_heap := h', st_strings := bs', st_slotused := st_slotused st - 1\<rparr>)"
    and c: "chain h' (bs' ! j) (xs @ ys)" "\<forall>a. a \<noteq> b \<longrightarrow> a \<notin> set xs \<longrightarrow> h' a = st_heap st a" "length bs' = length (st_strings st)"
      "\<forall>i. i \<noteq> j \<longrightarrow> bs' ! i = st_strings st ! i" "contents h' = (contents (st_heap st))(b := None)"
    by blast
  let ?st = "st\<lparr>st_heap := h', st_strings := bs', st_slotused := st_slotused st - 1\<rparr>"
  have R: "string_Remove b st = Some ?st" using r s slot by (simp add: string_Remove_def Let_def)
  have old: "\<exists>s0. st_heap st a = Some s0 \<and> ss_val s0 = ss_val t \<and> ss_hash s0 = ss_hash t" if "h' a = Some t" for a t
    using fun_cong [OF c(5), of a] that by (cases "st_heap st a") (auto simp: contents_def split: if_splits)
  have keep: "\<exists>t. h' a = Some t \<and> ss_hash t = ss_hash s0" if "st_heap st a = Some s0" "a \<noteq> b" for a s0
    using fun_cong [OF c(5), of a] that by (auto simp: contents_def)
  have apart: "a \<noteq> b \<and> a \<notin> set xs" if "a \<in> set (ls ! i)" "i < length ls" "i \<noteq> j" for a i
  proof -
    have "a \<notin> set (ls ! j)" using distinct_concat_apart [OF ls(4) that(2) j(1) that(3,1)] .
    then show ?thesis using xy by auto
  qed
  have kept: "a \<in> set (ls ! i) \<and> a \<noteq> b" if "i < length ls" "a \<in> set (?ls ! i)" for i a
  proof (cases "i = j")
    case True
    then show ?thesis using that xy dist by auto
  next
    case False
    then show ?thesis using that apart [of a i] by auto
  qed
  have dom': "dom h' = dom (st_heap st) - {b}"
  proof (rule set_eqI)
    fix a show "a \<in> dom h' \<longleftrightarrow> a \<in> dom (st_heap st) - {b}"
      using fun_cong [OF c(5), of a] by (cases "h' a"; cases "st_heap st a") (auto simp: contents_def split: if_splits)
  qed
  have "string_inv ?st"
    unfolding string_inv_hashed
  proof (intro conjI exI [of _ ?ls])
    show "hashed (st_heap ?st)"
      unfolding hashed_def
    proof (intro conjI allI impI)
      fix a t assume "st_heap ?st a = Some t"
      then obtain s0 where "st_heap st a = Some s0" "ss_val s0 = ss_val t" "ss_hash s0 = ss_hash t" using old [of a t] by auto
      then show "ss_hash t = hashstr_fnv1a_64 (ss_val t)" using inv by (auto simp: string_inv_hashed hashed_def)
    next
      fix a a' t t' assume *: "st_heap ?st a = Some t" "st_heap ?st a' = Some t'" "ss_val t = ss_val t'"
      obtain s0 where "st_heap st a = Some s0" "ss_val s0 = ss_val t" using *(1) old [of a t] by auto
      moreover obtain s1 where "st_heap st a' = Some s1" "ss_val s1 = ss_val t'" using *(2) old [of a' t'] by auto
      ultimately show "a = a'" using *(3) inv unfolding string_inv_hashed hashed_def by simp
    qed
    show "slots (st_heap ?st) (st_strings ?st) ?ls"
      unfolding slots_def
    proof (intro conjI allI impI)
      fix i assume i: "i < length ?ls"
      show "chain (st_heap ?st) (st_strings ?st ! i) (?ls ! i)"
      proof (cases "i = j")
        case False
        have "chain h' (st_strings st ! i) (ls ! i)"
          by (rule chain_cong [OF slotsD [OF ls(3)]]) (use i False apart c(2) in auto)
        then show ?thesis using False c(4) by simp
      qed (use c(1) i in simp)
    qed (use c(3) ls(3) in \<open>simp add: slots_def\<close>)
    show "well_placed (st_numofslots ?st) (st_heap ?st) ?ls"
      unfolding well_placed_def
    proof (intro allI impI ballI)
      fix i a assume i: "i < length ?ls" and a: "a \<in> set (?ls ! i)"
      have "a \<in> set (ls ! i)" "a \<noteq> b"
        using kept [OF _ a] i by simp_all
      moreover from this obtain s0 where "st_heap st a = Some s0" "slot_of (st_numofslots st) (ss_hash s0) = i"
        using ls(7) i unfolding well_placed_def by force
      ultimately show "\<exists>t. st_heap ?st a = Some t \<and> slot_of (st_numofslots ?st) (ss_hash t) = i"
        using keep by force
    qed
    show "distinct (concat ?ls)" "st_slotused ?st = length (concat ?ls)" using m'(1,2) ls(4,6) by simp_all
    have "b \<notin> set (concat ?ls)" using m'(1) ls(4) by simp
    moreover have "dom h' = dom (st_heap st) - {b}" by (rule dom')
    ultimately show "set (concat ?ls) = dom (st_heap ?st)" using m'(3) ls(5) by auto
  qed (use ls in simp_all)
  moreover have "live_text ?st = (live_text st)(b := None)"
  proof
    fix a show "live_text ?st a = ((live_text st)(b := None)) a"
      using fun_cong [OF c(5), of a] by (cases "h' a"; cases "st_heap st a") (auto simp: contents_def live_text_def split: if_splits)
  qed
  ultimately show ?thesis using R by auto
qed

subsection \<open>Reachable tables\<close>

text \<open>A new object gets an address that is not in use, and only live strings are removed.\<close>

inductive string_reach :: "string_table \<Rightarrow> bool" where
  New: "string_reach new_string_table"
| Add: "string_reach st \<Longrightarrow> a \<notin> dom (st_heap st) \<Longrightarrow> string_Add cs len a st = Some (p, st') \<Longrightarrow> string_reach st'"
| Remove: "string_reach st \<Longrightarrow> b \<in> dom (st_heap st) \<Longrightarrow> string_Remove b st = Some st' \<Longrightarrow> string_reach st'"

lemma string_inv_new: "string_inv new_string_table"
  unfolding string_inv_hashed
proof (intro conjI exI [of _ "replicate 4 []"])
  show "slots (st_heap new_string_table) (st_strings new_string_table) (replicate 4 [])"
    by (simp add: slots_def new_string_table_def string_AllocNodes_def)
qed (simp_all add: new_string_table_def string_AllocNodes_def hashed_def well_placed_def concat_replicate_trivial)

lemma string_reach_inv: "string_reach st \<Longrightarrow> string_inv st"
proof (induction rule: string_reach.induct)
  case New
  then show ?case by (rule string_inv_new)
next
  case (Add st a cs len p st')
  then show ?case using string_Add_spec [of st a cs len] by auto
next
  case (Remove st b st')
  then show ?case using string_Remove_spec [of st b] by auto
qed

lemma live_text_inj: "string_inv st \<Longrightarrow> live_text st a = Some v \<Longrightarrow> live_text st b = Some v \<Longrightarrow> a = b"
  by (auto simp: string_inv_hashed hashed_def live_text_def)

lemma live_text_dom: "dom (live_text st) = dom (st_heap st)"
  by (auto simp: live_text_def)

text \<open>C35: a reachable string table interns: \<open>Add\<close> always answers with the one live object that holds the added bytes
  (the old object when there was one and otherwise the new one, at the fresh address) and changes no other
  string, whether or not it rehashes; \<open>Remove\<close> of a live string always finds it, and takes out that string
  and no other.
\<close>

theorem string_interning:
  fixes cs :: string and len :: int
  assumes "string_reach st" "a \<notin> dom (st_heap st)" "b \<in> dom (st_heap st)"
  shows "(\<exists>p st'. string_Add cs len a st = Some (p, st') \<and> string_reach st' \<and>
            (\<forall>q. live_text st' q = Some (added_text cs len) \<longleftrightarrow> q = p) \<and>
            live_text st' = (live_text st)(p \<mapsto> added_text cs len) \<and> (p = a \<or> st' = st)) \<and>
         (\<exists>st'. string_Remove b st = Some st' \<and> string_reach st' \<and> live_text st' = (live_text st)(b := None))"
proof (intro conjI)
  note inv = string_reach_inv [OF assms(1)]
  obtain p st' where A: "string_Add cs len a st = Some (p, st')" "string_inv st'" "live_text st' p = Some (added_text cs len)"
    "if \<exists>b. live_text st b = Some (added_text cs len) then st' = st else p = a \<and> live_text st' = (live_text st)(a \<mapsto> added_text cs len)"
    using string_Add_spec [OF inv assms(2), of cs len] by blast
  have P: "live_text st' = (live_text st)(p \<mapsto> added_text cs len) \<and> (p = a \<or> st' = st)"
  proof (cases "\<exists>b. live_text st b = Some (added_text cs len)")
    case True
    then have "st' = st" using A(4) by simp
    then show ?thesis using A(3) fun_upd_triv [of "live_text st" p] by simp
  qed (use A(4) in simp)
  have "live_text st' q = Some (added_text cs len) \<longleftrightarrow> q = p" for q
    using live_text_inj [OF A(2) _ A(3)] A(3) by blast
  then show "\<exists>p st'. string_Add cs len a st = Some (p, st') \<and> string_reach st' \<and>
            (\<forall>q. live_text st' q = Some (added_text cs len) \<longleftrightarrow> q = p) \<and>
            live_text st' = (live_text st)(p \<mapsto> added_text cs len) \<and> (p = a \<or> st' = st)"
    using A(1) P string_reach.Add [OF assms(1,2) A(1)] by blast
  obtain st2 where R: "string_Remove b st = Some st2" "live_text st2 = (live_text st)(b := None)"
    using string_Remove_spec [OF inv assms(3)] by blast
  then show "\<exists>st'. string_Remove b st = Some st' \<and> string_reach st' \<and> live_text st' = (live_text st)(b := None)"
    using string_reach.Remove [OF assms(1,3)] by blast
qed

definition one_string :: string_table where
  "one_string = snd (the (string_Add ''a'' 1 0 new_string_table))"

lemma one_string_reach: "string_reach one_string" "dom (st_heap one_string) = {0}"
proof -
  obtain p st where A: "string_Add ''a'' 1 0 new_string_table = Some (p, st)" "live_text st = (live_text new_string_table)(0 \<mapsto> ''a'')"
    using string_Add_spec [OF string_inv_new, of 0 "''a''" 1]
    by (auto simp: new_string_table_def string_AllocNodes_def live_text_def added_text_def)
  show "string_reach one_string"
    using string_reach.Add [OF string_reach.New _ A(1)] A(1)
    by (simp add: one_string_def new_string_table_def string_AllocNodes_def)
  show "dom (st_heap one_string) = {0}"
    using A by (simp add: one_string_def live_text_dom [symmetric]) (auto simp: live_text_def new_string_table_def string_AllocNodes_def)
qed

theorem string_interning_witness:
  "(\<exists>p st'. string_Add ''ab'' (-1) 7 one_string = Some (p, st') \<and> string_reach st' \<and>
      (\<forall>q. live_text st' q = Some (added_text ''ab'' (-1)) \<longleftrightarrow> q = p) \<and>
      live_text st' = (live_text one_string)(p \<mapsto> added_text ''ab'' (-1)) \<and> (p = 7 \<or> st' = one_string)) \<and>
   (\<exists>st'. string_Remove 0 one_string = Some st' \<and> string_reach st' \<and> live_text st' = (live_text one_string)(0 := None))"
  by (rule string_interning [OF one_string_reach(1)]) (simp_all add: one_string_reach(2))

end
