(* ===== verification/VmOps.thy ===== *)
theory VmOps
  imports SqObject SqFloat SafeShift
begin

text \<open>
  The operators of the virtual machine on values (\<^verbatim>\<open>squirrel/sqvm.cpp\<close>): arithmetic, bitwise
  operators, negation, comparison, equality and truth. An operation ends with a value, an
  error, the call of a metamethod (which runs script code), or the concatenation of two values
  as strings. \<open>mm o m\<close> says that \<open>o\<close> has a delegate with the metamethod \<open>m\<close>.
\<close>

datatype metamethod =
    MT_ADD | MT_SUB | MT_MUL | MT_DIV | MT_UNM | MT_MODULO | MT_SET | MT_GET | MT_TYPEOF | MT_NEXTI
  | MT_CMP | MT_CALL | MT_CLONED | MT_NEWSLOT | MT_DELSLOT | MT_TOSTRING | MT_LOCK

type_synonym has_meta = "sq_obj \<Rightarrow> metamethod \<Rightarrow> bool"

datatype vm_error = ErrMsg string | ErrArith char sq_obj sq_obj | ErrBitwise sq_obj sq_obj | ErrNegate sq_obj
  | ErrBwnot sq_obj | ErrCompare sq_obj sq_obj | ErrThrown sq_obj

datatype 'a vm_result = VVal 'a | VErr vm_error | VMeta metamethod "sq_obj list" | VCat sq_obj sq_obj

subsection \<open>Types and payloads\<close>

definition OT_NULL :: u32 where "OT_NULL = 0"
definition OT_INTEGER :: u32 where "OT_INTEGER = 0x04000002"
definition OT_FLOAT :: u32 where "OT_FLOAT = 0x04000004"
definition OT_BOOL :: u32 where "OT_BOOL = 0x00000008"
definition OT_STRING :: u32 where "OT_STRING = 0x08000010"
definition RT_STRING_BIT :: u32 where "RT_STRING_BIT = 0x00000010"
definition SQOBJECT_NUMERIC :: u32 where "SQOBJECT_NUMERIC = 0x04000000"
definition SQOBJECT_DELEGABLE :: u32 where "SQOBJECT_DELEGABLE = 0x02000000"
definition OT_WEAKREF :: u32 where "OT_WEAKREF = 0x08010000"

definition ref_type :: "ref_kind \<Rightarrow> u32" where
  "ref_type k =
     (case k of
        OT_TABLE \<Rightarrow> 0x0A000020 | OT_ARRAY \<Rightarrow> 0x08000040 | OT_USERDATA \<Rightarrow> 0x0A000080 | OT_CLOSURE \<Rightarrow> 0x08000100
      | OT_NATIVECLOSURE \<Rightarrow> 0x08000200 | OT_GENERATOR \<Rightarrow> 0x08000400 | OT_USERPOINTER \<Rightarrow> 0x00000800
      | OT_THREAD \<Rightarrow> 0x08001000 | OT_FUNCPROTO \<Rightarrow> 0x08002000 | OT_CLASS \<Rightarrow> 0x08004000
      | OT_INSTANCE \<Rightarrow> 0x0A008000 | OT_OUTER \<Rightarrow> 0x08020000)"

definition sq_type :: "sq_obj \<Rightarrow> u32" where
  "sq_type v =
     (case v of
        SQNull \<Rightarrow> OT_NULL | SQBool b \<Rightarrow> OT_BOOL | SQInteger i \<Rightarrow> OT_INTEGER | SQFloat f \<Rightarrow> OT_FLOAT
      | SQString p \<Rightarrow> OT_STRING | SQWeakRef p \<Rightarrow> OT_WEAKREF | SQRef k p \<Rightarrow> ref_type k)"

text \<open>The 64 bits of the union; a float occupies the low 32 of them.\<close>

definition sq_rawval :: "sq_obj \<Rightarrow> u64" where
  "sq_rawval v =
     (case v of
        SQNull \<Rightarrow> 0 | SQBool b \<Rightarrow> (if b then 1 else 0) | SQInteger i \<Rightarrow> i | SQFloat f \<Rightarrow> ucast f
      | SQString p \<Rightarrow> p | SQWeakRef p \<Rightarrow> p | SQRef k p \<Rightarrow> p)"

definition sq_integer :: "sq_obj \<Rightarrow> u64" where "sq_integer v = sq_rawval v"
definition sq_float :: "sq_obj \<Rightarrow> u32" where "sq_float v = ucast (sq_rawval v)"

definition sq_isnumeric :: "sq_obj \<Rightarrow> bool" where
  "sq_isnumeric v \<longleftrightarrow> sq_type v AND SQOBJECT_NUMERIC \<noteq> 0"

definition is_delegable :: "sq_obj \<Rightarrow> bool" where
  "is_delegable v \<longleftrightarrow> sq_type v AND SQOBJECT_DELEGABLE \<noteq> 0"

definition tofloat :: "sq_obj \<Rightarrow> u32" where
  "tofloat v = (if sq_type v = OT_INTEGER then flt_of_int (sint (sq_integer v)) else sq_float v)"

definition tointeger :: "sq_obj \<Rightarrow> u64" where
  "tointeger v = (if sq_type v = OT_FLOAT then flt_to_int (sq_float v) else sq_integer v)"

subsection \<open>Bitwise operators\<close>

definition BW_AND :: u8 where "BW_AND = 0"
definition BW_OR :: u8 where "BW_OR = 2"
definition BW_XOR :: u8 where "BW_XOR = 3"
definition BW_SHIFTL :: u8 where "BW_SHIFTL = 4"
definition BW_SHIFTR :: u8 where "BW_SHIFTR = 5"
definition BW_USHIFTR :: u8 where "BW_USHIFTR = 6"

definition BW_OP :: "u8 \<Rightarrow> sq_obj \<Rightarrow> sq_obj \<Rightarrow> sq_obj vm_result" where
  "BW_OP bop o1 o2 =
     (if sq_type o1 OR sq_type o2 = OT_INTEGER then
        (let i1 = sq_integer o1; i2 = sq_integer o2 in
         if bop = BW_AND then VVal (SQInteger (i1 AND i2))
         else if bop = BW_OR then VVal (SQInteger (i1 OR i2))
         else if bop = BW_XOR then VVal (SQInteger (i1 XOR i2))
         else if bop = BW_SHIFTL then VVal (SQInteger (sq_safe_shift_left i1 i2))
         else if bop = BW_SHIFTR then VVal (SQInteger (sq_safe_shift_right i1 i2))
         else if bop = BW_USHIFTR then VVal (SQInteger (sq_safe_unsigned_shift_right i1 i2))
         else VErr (ErrMsg ''internal vm error bitwise op failed''))
      else VErr (ErrBitwise o1 o2))"

subsection \<open>Arithmetic\<close>

text \<open>C++ division truncates towards zero; signed words wrap around.\<close>

definition sdiv64 :: "u64 \<Rightarrow> u64 \<Rightarrow> u64" where
  "sdiv64 a b = word_of_int (sgn (sint a) * sgn (sint b) * (\<bar>sint a\<bar> div \<bar>sint b\<bar>))"

definition smod64 :: "u64 \<Rightarrow> u64 \<Rightarrow> u64" where
  "smod64 a b = word_of_int (sgn (sint a) * (\<bar>sint a\<bar> mod \<bar>sint b\<bar>))"

definition MIN_SQ_INTEGER :: u64 where "MIN_SQ_INTEGER = 0x8000000000000000"

definition arith_meta :: "char \<Rightarrow> metamethod" where
  "arith_meta c =
     (if c = CHR ''+'' then MT_ADD else if c = CHR ''-'' then MT_SUB else if c = CHR ''/'' then MT_DIV
      else if c = CHR ''*'' then MT_MUL else if c = CHR ''%'' then MT_MODULO else MT_ADD)"

definition ArithMetaMethod :: "has_meta \<Rightarrow> char \<Rightarrow> sq_obj \<Rightarrow> sq_obj \<Rightarrow> sq_obj vm_result" where
  "ArithMetaMethod mm c o1 o2 =
     (if is_delegable o1 \<and> mm o1 (arith_meta c) then VMeta (arith_meta c) [o1, o2] else VErr (ErrArith c o1 o2))"

definition int_arith :: "char \<Rightarrow> u64 \<Rightarrow> u64 \<Rightarrow> sq_obj vm_result" where
  "int_arith c i1 i2 =
     (if c = CHR ''+'' then VVal (SQInteger (i1 + i2))
      else if c = CHR ''-'' then VVal (SQInteger (i1 - i2))
      else if c = CHR ''/'' then
        (if i2 = 0 then VErr (ErrMsg ''integer division by zero'')
         else if i2 = - 1 \<and> i1 = MIN_SQ_INTEGER then VErr (ErrMsg ''integer overflow'')
         else VVal (SQInteger (sdiv64 i1 i2)))
      else if c = CHR ''*'' then VVal (SQInteger (i1 * i2))
      else if c = CHR ''%'' then
        (if i2 = 0 then VErr (ErrMsg ''integer modulo by zero'')
         else if i2 = - 1 then VVal (SQInteger 0)
         else VVal (SQInteger (smod64 i1 i2)))
      else VVal (SQInteger 0xDEADBEEF))"

definition float_arith :: "char \<Rightarrow> u32 \<Rightarrow> u32 \<Rightarrow> sq_obj vm_result" where
  "float_arith c f1 f2 =
     (if c = CHR ''+'' then VVal (SQFloat (flt_add f1 f2))
      else if c = CHR ''-'' then VVal (SQFloat (flt_sub f1 f2))
      else if c = CHR ''/'' then
        (if flt_eq f2 0 then VErr (ErrMsg ''float division by zero'') else VVal (SQFloat (flt_div f1 f2)))
      else if c = CHR ''*'' then VVal (SQFloat (flt_mul f1 f2))
      else if c = CHR ''%'' then
        (if flt_eq f2 0 then VErr (ErrMsg ''float modulo by zero'') else VVal (SQFloat (flt_fmod f1 f2)))
      else VVal (SQFloat (flt_of_int 15)))"

definition ARITH_OP :: "has_meta \<Rightarrow> char \<Rightarrow> sq_obj \<Rightarrow> sq_obj \<Rightarrow> sq_obj vm_result" where
  "ARITH_OP mm c o1 o2 =
     (let tmask = sq_type o1 OR sq_type o2 in
      if tmask = OT_INTEGER then int_arith c (sq_integer o1) (sq_integer o2)
      else if tmask = OT_FLOAT OR OT_INTEGER \<or> tmask = OT_FLOAT then float_arith c (tofloat o1) (tofloat o2)
      else if c = CHR ''+'' \<and> tmask AND RT_STRING_BIT \<noteq> 0 then VCat o1 o2
      else ArithMetaMethod mm c o1 o2)"

text \<open>The macro \<open>_ARITH_\<close> has no checks: it is for the three operators that cannot fail on numbers.\<close>

definition arith_fast :: "has_meta \<Rightarrow> char \<Rightarrow> sq_obj \<Rightarrow> sq_obj \<Rightarrow> sq_obj vm_result" where
  "arith_fast mm c o1 o2 =
     (let tmask = sq_type o1 OR sq_type o2 in
      if tmask = OT_INTEGER then
        VVal (SQInteger (if c = CHR ''+'' then sq_integer o1 + sq_integer o2
                         else if c = CHR ''-'' then sq_integer o1 - sq_integer o2
                         else sq_integer o1 * sq_integer o2))
      else if tmask = OT_FLOAT OR OT_INTEGER \<or> tmask = OT_FLOAT then
        VVal (SQFloat (if c = CHR ''+'' then flt_add (tofloat o1) (tofloat o2)
                       else if c = CHR ''-'' then flt_sub (tofloat o1) (tofloat o2)
                       else flt_mul (tofloat o1) (tofloat o2)))
      else ARITH_OP mm c o1 o2)"

definition arith_nozero :: "has_meta \<Rightarrow> sq_obj \<Rightarrow> sq_obj \<Rightarrow> sq_obj vm_result" where
  "arith_nozero mm o1 o2 =
     (let tmask = sq_type o1 OR sq_type o2 in
      if tmask = OT_INTEGER then
        (let i2 = sq_integer o2 in
         if i2 = 0 then VErr (ErrMsg ''division by zero'')
         else if i2 = - 1 \<and> sq_integer o1 = MIN_SQ_INTEGER then VErr (ErrMsg ''integer overflow'')
         else VVal (SQInteger (sdiv64 (sq_integer o1) i2)))
      else if tmask = OT_FLOAT OR OT_INTEGER \<or> tmask = OT_FLOAT then
        (let f2 = tofloat o2 in
         if flt_eq f2 0 then VErr (ErrMsg ''float division by zero'')
         else VVal (SQFloat (flt_div (tofloat o1) f2)))
      else ARITH_OP mm CHR ''/'' o1 o2)"

definition NEG_OP :: "has_meta \<Rightarrow> sq_obj \<Rightarrow> sq_obj vm_result" where
  "NEG_OP mm v =
     (case v of
        SQInteger i \<Rightarrow> VVal (SQInteger (- i))
      | SQFloat f \<Rightarrow> VVal (SQFloat (flt_minus f))
      | SQRef k p \<Rightarrow>
          if (k = OT_TABLE \<or> k = OT_USERDATA \<or> k = OT_INSTANCE) \<and> mm v MT_UNM then VMeta MT_UNM [v] else VErr (ErrNegate v)
      | _ \<Rightarrow> VErr (ErrNegate v))"

subsection \<open>Equality and truth\<close>

definition IsEqual :: "sq_obj \<Rightarrow> sq_obj \<Rightarrow> bool" where
  "IsEqual o1 o2 =
     (if sq_type o1 = sq_type o2 then
        (if sq_type o1 = OT_FLOAT then flt_eq (sq_float o1) (sq_float o2) else sq_rawval o1 = sq_rawval o2)
      else if sq_isnumeric o1 \<and> sq_isnumeric o2 then flt_eq (tofloat o1) (tofloat o2)
      else False)"

definition IsFalse :: "sq_obj \<Rightarrow> bool" where
  "IsFalse v \<longleftrightarrow> sq_rawval v = 0 \<or> sq_type v = OT_FLOAT \<and> flt_eq (sq_float v) 0 \<or> sq_type v = OT_INTEGER \<and> sq_integer v = 0"

subsection \<open>Comparison\<close>

text \<open>\<open>strcmp\<close> looks at the bytes before the first NUL; only the sign of its result is specified.\<close>

fun c_strcmp :: "string \<Rightarrow> string \<Rightarrow> int" where
  "c_strcmp (a # s) (b # t) =
     (if a = NUL \<and> b = NUL then 0
      else if uchar a < uchar b then - 1
      else if uchar b < uchar a then 1
      else c_strcmp s t)"
| "c_strcmp [] t = (if cur_char t = NUL then 0 else - 1)"
| "c_strcmp s [] = (if cur_char s = NUL then 0 else 1)"

definition cmp_int :: "u64 \<Rightarrow> u64 \<Rightarrow> int" where
  "cmp_int i j = (if i = j then 0 else if sint i < sint j then - 1 else 1)"

definition cmp_float :: "u32 \<Rightarrow> u32 \<Rightarrow> int" where
  "cmp_float f g = (if flt_eq f g then 0 else if flt_lt f g then - 1 else 1)"

definition ObjCmp :: "sq_heap \<Rightarrow> has_meta \<Rightarrow> sq_obj \<Rightarrow> sq_obj \<Rightarrow> int vm_result" where
  "ObjCmp h mm o1 o2 =
     (if sq_type o1 = sq_type o2 then
        (if sq_rawval o1 = sq_rawval o2 then VVal 0
         else
           (case o1 of
              SQString p \<Rightarrow> VVal (c_strcmp (str_val h p) (str_val h (sq_rawval o2)))
            | SQInteger i \<Rightarrow> VVal (if sint i < sint (sq_integer o2) then - 1 else 1)
            | SQBool b \<Rightarrow> VVal (if sint (sq_integer o1) < sint (sq_integer o2) then - 1 else 1)
            | SQFloat f \<Rightarrow> VVal (if flt_lt f (sq_float o2) then - 1 else if flt_eq f (sq_float o2) then 0 else 1)
            | SQRef k p \<Rightarrow>
                if (k = OT_TABLE \<or> k = OT_USERDATA \<or> k = OT_INSTANCE) \<and> mm o1 MT_CMP then VMeta MT_CMP [o1, o2]
                else VErr (ErrCompare o1 o2)
            | _ \<Rightarrow> VErr (ErrCompare o1 o2)))
      else if sq_isnumeric o1 \<and> sq_isnumeric o2 then
        (if sq_type o1 = OT_INTEGER \<and> sq_type o2 = OT_FLOAT then
           (let f = flt_of_int (sint (sq_integer o1)); g = sq_float o2 in
            if flt_eq f g then VVal 0 else if flt_lt f g then VVal (- 1) else VVal 1)
         else
           (let f = sq_float o1; g = flt_of_int (sint (sq_integer o2)) in
            if flt_eq f g then VVal 0 else if flt_lt f g then VVal (- 1) else VVal 1))
      else if sq_type o1 = OT_NULL then VVal (- 1)
      else if sq_type o2 = OT_NULL then VVal 1
      else VErr (ErrCompare o1 o2))"

definition ObjCmpI :: "sq_obj \<Rightarrow> u64 \<Rightarrow> int vm_result" where
  "ObjCmpI o1 o2 =
     (case o1 of
        SQInteger i1 \<Rightarrow> VVal (if i1 = o2 then 0 else if sint i1 < sint o2 then - 1 else 1)
      | SQFloat f1 \<Rightarrow>
          VVal (if flt_eq f1 (flt_of_int (sint o2)) then 0 else if flt_lt f1 (flt_of_int (sint o2)) then - 1 else 1)
      | SQNull \<Rightarrow> VVal (- 1)
      | _ \<Rightarrow> VErr (ErrCompare o1 (SQInteger o2)))"

definition ObjCmpF :: "sq_obj \<Rightarrow> u32 \<Rightarrow> int vm_result" where
  "ObjCmpF o1 o2 =
     (case o1 of
        SQFloat f1 \<Rightarrow> VVal (if flt_eq f1 o2 then 0 else if flt_lt f1 o2 then - 1 else 1)
      | SQInteger i1 \<Rightarrow>
          VVal (if flt_eq (flt_of_int (sint i1)) o2 then 0 else if flt_lt (flt_of_int (sint i1)) o2 then - 1 else 1)
      | SQNull \<Rightarrow> VVal (- 1)
      | _ \<Rightarrow> VErr (ErrCompare o1 (SQFloat o2)))"

text \<open>The comparison operators; \<open>CMP_3W\<close> is the three-way comparison. Other codes do not occur.\<close>

definition CMP_G :: u8 where "CMP_G = 0"
definition CMP_GE :: u8 where "CMP_GE = 2"
definition CMP_L :: u8 where "CMP_L = 3"
definition CMP_LE :: u8 where "CMP_LE = 4"
definition CMP_3W :: u8 where "CMP_3W = 5"

definition cmp_res :: "u8 \<Rightarrow> int \<Rightarrow> int option" where
  "cmp_res cop r =
     (if cop = CMP_G then Some (if r > 0 then 1 else 0)
      else if cop = CMP_GE then Some (if r \<ge> 0 then 1 else 0)
      else if cop = CMP_L then Some (if r < 0 then 1 else 0)
      else if cop = CMP_LE then Some (if r \<le> 0 then 1 else 0)
      else if cop = CMP_3W then Some (signed_take_bit 31 r)
      else None)"

text \<open>\<open>CMP_OP\<close> stores a boolean, or the integer for \<open>CMP_3W\<close>.\<close>

definition cmp_obj :: "u8 \<Rightarrow> int \<Rightarrow> sq_obj option" where
  "cmp_obj cop r =
     (if cop = CMP_3W then Some (SQInteger (word_of_int r)) else map_option (\<lambda>b. SQBool (b \<noteq> 0)) (cmp_res cop r))"

end
