(* ===== verification/VmOpsProps.thy ===== *)
theory VmOpsProps
  imports VmOps
begin

text \<open>
  The laws of the operators: the types of operands, the special comparisons of
  \<open>JCMPI\<close> and \<open>JCMPF\<close>, and the order that \<open>ObjCmp\<close> is on values of one kind.
\<close>

subsection \<open>Types\<close>

lemmas ot_defs = OT_NULL_def OT_INTEGER_def OT_FLOAT_def OT_BOOL_def OT_STRING_def OT_WEAKREF_def

lemma sq_type_simps [simp]:
  "sq_type SQNull = OT_NULL" "sq_type (SQBool b) = OT_BOOL" "sq_type (SQInteger i) = OT_INTEGER"
  "sq_type (SQFloat f) = OT_FLOAT" "sq_type (SQString p) = OT_STRING" "sq_type (SQWeakRef p) = OT_WEAKREF"
  "sq_type (SQRef k p) = ref_type k"
  by (simp_all add: sq_type_def)

lemma sq_payload_simps [simp]:
  "sq_integer (SQInteger i) = i" "sq_float (SQFloat f) = f" "sq_integer SQNull = 0" "sq_float SQNull = 0"
  "sq_rawval (SQString p) = p" "sq_rawval (SQInteger i) = i" "sq_rawval SQNull = 0" "sq_rawval (SQRef k p) = p"
  "sq_rawval (SQWeakRef p) = p"
  by (simp_all add: sq_integer_def sq_float_def sq_rawval_def ucast_up_ucast_id is_up)

lemma ref_type_distinct:
  "ref_type k \<noteq> OT_NULL \<and> ref_type k \<noteq> OT_INTEGER \<and> ref_type k \<noteq> OT_FLOAT \<and> ref_type k \<noteq> OT_BOOL \<and> ref_type k \<noteq> OT_STRING \<and>
   ref_type k \<noteq> OT_WEAKREF"
  by (cases k) (simp_all add: ref_type_def ot_defs)

lemma ot_distinct [simp]:
  "OT_NULL \<noteq> OT_INTEGER" "OT_NULL \<noteq> OT_FLOAT" "OT_NULL \<noteq> OT_BOOL" "OT_NULL \<noteq> OT_STRING" "OT_NULL \<noteq> OT_WEAKREF"
  "OT_INTEGER \<noteq> OT_NULL" "OT_FLOAT \<noteq> OT_NULL" "OT_BOOL \<noteq> OT_NULL" "OT_STRING \<noteq> OT_NULL" "OT_WEAKREF \<noteq> OT_NULL"
  "OT_INTEGER \<noteq> OT_FLOAT" "OT_INTEGER \<noteq> OT_BOOL" "OT_INTEGER \<noteq> OT_STRING" "OT_INTEGER \<noteq> OT_WEAKREF"
  "OT_FLOAT \<noteq> OT_INTEGER" "OT_BOOL \<noteq> OT_INTEGER" "OT_STRING \<noteq> OT_INTEGER" "OT_WEAKREF \<noteq> OT_INTEGER"
  "OT_FLOAT \<noteq> OT_BOOL" "OT_FLOAT \<noteq> OT_STRING" "OT_FLOAT \<noteq> OT_WEAKREF"
  "OT_BOOL \<noteq> OT_FLOAT" "OT_STRING \<noteq> OT_FLOAT" "OT_WEAKREF \<noteq> OT_FLOAT"
  "OT_BOOL \<noteq> OT_STRING" "OT_BOOL \<noteq> OT_WEAKREF" "OT_STRING \<noteq> OT_BOOL" "OT_WEAKREF \<noteq> OT_BOOL"
  "OT_STRING \<noteq> OT_WEAKREF" "OT_WEAKREF \<noteq> OT_STRING"
  by (simp_all add: ot_defs)

lemma ref_type_neq [simp]:
  "ref_type k \<noteq> OT_NULL" "ref_type k \<noteq> OT_INTEGER" "ref_type k \<noteq> OT_FLOAT" "ref_type k \<noteq> OT_BOOL" "ref_type k \<noteq> OT_STRING"
  "ref_type k \<noteq> OT_WEAKREF"
  "OT_NULL \<noteq> ref_type k" "OT_INTEGER \<noteq> ref_type k" "OT_FLOAT \<noteq> ref_type k" "OT_BOOL \<noteq> ref_type k" "OT_STRING \<noteq> ref_type k"
  "OT_WEAKREF \<noteq> ref_type k"
  using ref_type_distinct [of k] by auto

lemma sq_isnumeric_simps [simp]:
  "\<not> sq_isnumeric SQNull" "\<not> sq_isnumeric (SQBool b)" "sq_isnumeric (SQInteger i)" "sq_isnumeric (SQFloat f)"
  "\<not> sq_isnumeric (SQString p)" "\<not> sq_isnumeric (SQWeakRef p)" "\<not> sq_isnumeric (SQRef k p)"
  by (cases k; simp add: sq_isnumeric_def ot_defs SQOBJECT_NUMERIC_def ref_type_def)+

lemma tofloat_simps [simp]: "tofloat (SQInteger i) = flt_of_int (sint i)" "tofloat (SQFloat f) = f" "tofloat SQNull = 0"
  by (simp_all add: tofloat_def)

lemma rawval_float: "sq_rawval (SQFloat f) = sq_rawval (SQFloat g) \<longleftrightarrow> f = g"
proof
  assume "sq_rawval (SQFloat f) = sq_rawval (SQFloat g)"
  then have "sq_float (SQFloat f) = sq_float (SQFloat g)" by (simp add: sq_float_def)
  then show "f = g" by simp
qed simp

subsection \<open>The comparisons with a constant\<close>

lemma ObjCmpI_is_ObjCmp: "ObjCmpI v i = ObjCmp h mm v (SQInteger i)"
  by (cases v) (simp_all add: ObjCmpI_def ObjCmp_def Let_def)

lemma ObjCmpF_is_ObjCmp:
  assumes "\<not> (flt_is_nan f \<and> v = SQFloat f)"
  shows "ObjCmpF v f = ObjCmp h mm v (SQFloat f)"
  using assms
  by (cases v) (auto simp: ObjCmpF_def ObjCmp_def Let_def rawval_float flt_eq_refl dest: flt_lt_not)

subsection \<open>The order of values\<close>

lemma c_strcmp_refl: "c_strcmp s s = 0"
  by (induction s) auto

lemma c_strcmp_values: "c_strcmp s t = 0 \<or> c_strcmp s t = 1 \<or> c_strcmp s t = - 1"
  by (induction s t rule: c_strcmp.induct) auto

lemma c_strcmp_swap: "c_strcmp t s = - c_strcmp s t"
proof (induction s arbitrary: t)
  case Nil
  then show ?case by (cases t) auto
next
  case (Cons a s)
  then show ?case by (cases t) auto
qed

lemma c_strcmp_zero: "NUL \<notin> set s \<Longrightarrow> NUL \<notin> set t \<Longrightarrow> c_strcmp s t = 0 \<longleftrightarrow> s = t"
proof (induction s t rule: c_strcmp.induct)
  case (1 a s b t)
  have "a = b" if "\<not> uchar a < uchar b" "\<not> uchar b < uchar a"
  proof -
    have "unat (uchar a) = unat (uchar b)" using that by simp
    then show ?thesis by simp
  qed
  then show ?case using 1 by auto
next
  case (2 t)
  then show ?case by (cases t) auto
next
  case (3 c s)
  then show ?case by auto
qed

lemma c_strcmp_trans:
  "NUL \<notin> set s \<Longrightarrow> NUL \<notin> set t \<Longrightarrow> NUL \<notin> set u \<Longrightarrow> c_strcmp s t \<le> 0 \<Longrightarrow> c_strcmp t u \<le> 0 \<Longrightarrow> c_strcmp s u \<le> 0"
proof (induction s arbitrary: t u)
  case Nil
  then show ?case by (cases u) auto
next
  case (Cons a s)
  obtain b t' where t: "t = b # t'" using Cons.prems by (cases t) auto
  obtain c u' where u: "u = c # u'" using Cons.prems t by (cases u) auto
  have ab: "uchar a < uchar b \<or> uchar a = uchar b \<and> c_strcmp s t' \<le> 0"
    using Cons.prems(1,2,4) unfolding t by (auto split: if_splits)
  have bc: "uchar b < uchar c \<or> uchar b = uchar c \<and> c_strcmp t' u' \<le> 0"
    using Cons.prems(2,3,5) unfolding t u by (auto split: if_splits)
  show ?case
    using ab bc Cons.IH [of t' u'] Cons.prems(1-3) unfolding t u by auto
qed

text \<open>Values of one kind, or null: no NaN, and strings without a NUL byte.\<close>

definition plain_val :: "sq_heap \<Rightarrow> sq_obj \<Rightarrow> bool" where
  "plain_val h v =
     (case v of
        SQNull \<Rightarrow> True | SQBool b \<Rightarrow> True | SQInteger i \<Rightarrow> True | SQFloat f \<Rightarrow> \<not> flt_is_nan f
      | SQString p \<Rightarrow> NUL \<notin> set (str_val h p) | _ \<Rightarrow> False)"

definition comparable :: "sq_heap \<Rightarrow> sq_obj \<Rightarrow> sq_obj \<Rightarrow> bool" where
  "comparable h a b \<longleftrightarrow> plain_val h a \<and> plain_val h b \<and> (sq_type a = sq_type b \<or> a = SQNull \<or> b = SQNull)"

lemma ObjCmp_null: "ObjCmp h mm SQNull v = VVal (if v = SQNull then 0 else - 1)" "ObjCmp h mm v SQNull = VVal (if v = SQNull then 0 else 1)"
  by (cases v; simp add: ObjCmp_def)+

lemma ObjCmp_int: "ObjCmp h mm (SQInteger i) (SQInteger j) = VVal (sgn (sint i - sint j))"
  using signed_word_eqI [of i j] by (auto simp: ObjCmp_def sgn_if)

lemma ObjCmp_bool: "ObjCmp h mm (SQBool a) (SQBool b) = VVal (of_bool a - of_bool b)"
  by (simp add: ObjCmp_def sq_rawval_def sq_integer_def)

lemma ObjCmp_float:
  "\<not> flt_is_nan f \<Longrightarrow> \<not> flt_is_nan g \<Longrightarrow> ObjCmp h mm (SQFloat f) (SQFloat g) = VVal (sgn (flt_val f - flt_val g))"
  by (auto simp: ObjCmp_def rawval_float flt_lt_def flt_eq_def)

lemma ObjCmp_string: "ObjCmp h mm (SQString p) (SQString q) = VVal (c_strcmp (str_val h p) (str_val h q))"
  by (simp add: ObjCmp_def c_strcmp_refl)

lemmas ObjCmp_kinds = ObjCmp_null ObjCmp_int ObjCmp_bool ObjCmp_float ObjCmp_string

lemma comparable_cases:
  assumes "comparable h a b"
  obtains (null1) "a = SQNull" | (null2) "b = SQNull" | (int) i j where "a = SQInteger i" "b = SQInteger j"
  | (bool) x y where "a = SQBool x" "b = SQBool y"
  | (float) f g where "a = SQFloat f" "b = SQFloat g" "\<not> flt_is_nan f" "\<not> flt_is_nan g"
  | (string) p q where "a = SQString p" "b = SQString q" "NUL \<notin> set (str_val h p)" "NUL \<notin> set (str_val h q)"
  using assms by (cases a; cases b) (auto simp: comparable_def plain_val_def)

lemma ObjCmp_total: "comparable h a b \<Longrightarrow> \<exists>r. ObjCmp h mm a b = VVal r"
  by (erule comparable_cases) (auto simp: ObjCmp_kinds)

lemma sgn_swap: "sgn (x - y :: int) = - sgn (y - x)"
  by (simp add: sgn_if)

lemma ObjCmp_swap: "comparable h a b \<Longrightarrow> ObjCmp h mm a b = VVal r \<Longrightarrow> ObjCmp h mm b a = VVal (- r)"
proof (erule comparable_cases, goal_cases)
  case (6 p q)
  then show ?case using c_strcmp_swap [of "str_val h q" "str_val h p"] by (auto simp: ObjCmp_string)
qed (auto simp: ObjCmp_kinds sgn_if split: if_splits)


lemma ObjCmp_trans:
  assumes "comparable h a b" "comparable h b c" "comparable h a c"
    and "ObjCmp h mm a b = VVal r" "r \<le> 0" "ObjCmp h mm b c = VVal s" "s \<le> 0" "ObjCmp h mm a c = VVal t"
  shows "t \<le> 0"
proof (cases "a = SQNull \<or> b = SQNull \<or> c = SQNull")
  case True
  then show ?thesis using assms(4-8) by (cases a; cases b; cases c) (auto simp: ObjCmp_null split: if_splits)
next
  case False
  then have n: "a \<noteq> SQNull" "b \<noteq> SQNull" "c \<noteq> SQNull" by auto
  show ?thesis
  proof (rule comparable_cases [OF assms(1)])
    fix p q assume s: "a = SQString p" "b = SQString q" "NUL \<notin> set (str_val h p)" "NUL \<notin> set (str_val h q)"
    then obtain u where u: "c = SQString u" "NUL \<notin> set (str_val h u)"
      using assms(2) n(3) by (auto elim: comparable_cases)
    show ?thesis using c_strcmp_trans [OF s(3,4) u(2)] assms(4-8) by (simp add: s(1,2) u(1) ObjCmp_string)
  next
    fix i j assume s: "a = SQInteger i" "b = SQInteger j"
    then obtain k where "c = SQInteger k" using assms(2) n(3) by (auto elim: comparable_cases)
    then show ?thesis using s assms(4-8) by (auto simp: ObjCmp_int sgn_if split: if_splits)
  next
    fix x y assume s: "a = SQBool x" "b = SQBool y"
    then obtain z where "c = SQBool z" using assms(2) n(3) by (auto elim: comparable_cases)
    then show ?thesis using s assms(4-8) by (auto simp: ObjCmp_bool)
  next
    fix f g assume s: "a = SQFloat f" "b = SQFloat g" "\<not> flt_is_nan f" "\<not> flt_is_nan g"
    then obtain k where "c = SQFloat k" "\<not> flt_is_nan k" using assms(2) n(3) by (auto elim: comparable_cases)
    then show ?thesis using s assms(4-8) by (auto simp: ObjCmp_float sgn_if split: if_splits)
  qed (use n in simp_all)
qed

text \<open>C36: on values of one type and null (no NaN, strings without a NUL byte) \<open>ObjCmp\<close> answers without an error
  (values of reference types, which raise or call \<open>_cmp\<close>, are excluded) and is a total order: exchanging the operands negates the result, \<open>\<le>\<close> is transitive, and the result is 0 exactly
  for equal values (strings with equal bytes being one object).\<close>

theorem vm_compare_order:
  assumes "comparable h a b" "comparable h b c" "comparable h a c"
    and "\<And>p q. str_val h p = str_val h q \<Longrightarrow> p = q"
  shows "\<exists>r s t. ObjCmp h mm a b = VVal r \<and> ObjCmp h mm b c = VVal s \<and> ObjCmp h mm a c = VVal t \<and>
    ObjCmp h mm b a = VVal (- r) \<and> (r \<le> 0 \<and> s \<le> 0 \<longrightarrow> t \<le> 0) \<and> (r = 0 \<longleftrightarrow> IsEqual a b)"
proof -
  obtain r s t where cmp: "ObjCmp h mm a b = VVal r" "ObjCmp h mm b c = VVal s" "ObjCmp h mm a c = VVal t"
    using assms(1-3) ObjCmp_total by metis
  have "r = 0 \<longleftrightarrow> IsEqual a b"
    using assms(1)
  proof (cases rule: comparable_cases)
    case null1
    then show ?thesis using cmp(1) by (cases b) (auto simp: ObjCmp_null IsEqual_def)
  next
    case null2
    then show ?thesis using cmp(1) by (cases a) (auto simp: ObjCmp_null IsEqual_def)
  next
    case (int i j)
    then show ?thesis using cmp(1) signed_word_eqI [of i j] by (auto simp: ObjCmp_int IsEqual_def sgn_if split: if_splits)
  next
    case (bool x y)
    then show ?thesis using cmp(1) by (auto simp: ObjCmp_bool IsEqual_def sq_rawval_def)
  next
    case (float f g)
    then show ?thesis using cmp(1) by (auto simp: ObjCmp_float IsEqual_def flt_eq_def sgn_if split: if_splits)
  next
    case (string p q)
    then have "r = 0 \<longleftrightarrow> p = q" using cmp(1) c_strcmp_zero assms(4) by (auto simp: ObjCmp_string c_strcmp_refl)
    then show ?thesis using string by (simp add: IsEqual_def)
  qed
  then show ?thesis
    using cmp ObjCmp_swap [OF assms(1) cmp(1)] ObjCmp_trans [OF assms(1-3) cmp(1) _ cmp(2) _ cmp(3)] by blast
qed

theorem vm_compare_order_witness:
  "\<exists>r s t. ObjCmp \<lparr>str_hash = (\<lambda>p. 0), str_val = (\<lambda>p. replicate (unat p) CHR ''a''), weak_obj = (\<lambda>p. SQNull)\<rparr> (\<lambda>v m. False)
      (SQString 1) (SQString 2) = VVal r \<and>
    ObjCmp \<lparr>str_hash = (\<lambda>p. 0), str_val = (\<lambda>p. replicate (unat p) CHR ''a''), weak_obj = (\<lambda>p. SQNull)\<rparr> (\<lambda>v m. False)
      (SQString 2) (SQString 3) = VVal s \<and>
    ObjCmp \<lparr>str_hash = (\<lambda>p. 0), str_val = (\<lambda>p. replicate (unat p) CHR ''a''), weak_obj = (\<lambda>p. SQNull)\<rparr> (\<lambda>v m. False)
      (SQString 1) (SQString 3) = VVal t \<and>
    ObjCmp \<lparr>str_hash = (\<lambda>p. 0), str_val = (\<lambda>p. replicate (unat p) CHR ''a''), weak_obj = (\<lambda>p. SQNull)\<rparr> (\<lambda>v m. False)
      (SQString 2) (SQString 1) = VVal (- r) \<and>
    (r \<le> 0 \<and> s \<le> 0 \<longrightarrow> t \<le> 0) \<and> (r = 0 \<longleftrightarrow> IsEqual (SQString 1) (SQString 2))"
  by (rule vm_compare_order)
    (auto simp: comparable_def plain_val_def dest: arg_cong [where f = length] intro: word_unat_eq_iff [THEN iffD2])

text \<open>C37: the comparisons with a constant that the optimizer emits agree with \<open>ObjCmp\<close> on every value, except
  that \<open>ObjCmpF\<close> answers 1 where both operands are the same NaN and \<open>ObjCmp\<close> answers 0.\<close>

theorem vm_compare_constant:
  "ObjCmpI v i = ObjCmp h mm v (SQInteger i) \<and>
   ObjCmpF v f = (if flt_is_nan f \<and> v = SQFloat f then VVal 1 else ObjCmp h mm v (SQFloat f)) \<and>
   ObjCmp h mm (SQFloat f) (SQFloat f) = VVal 0"
  using ObjCmpI_is_ObjCmp ObjCmpF_is_ObjCmp
  by (auto simp: ObjCmpF_def flt_eq_def flt_lt_def ObjCmp_def)

subsection \<open>Arithmetic\<close>

lemma sint_64_bounds: "- (2 ^ 63) \<le> sint (a :: u64) \<and> sint a < 2 ^ 63"
  using sint_range_size [of a] by (simp add: word_size)

lemma sint_of_int_64: "- (2 ^ 63) \<le> x \<Longrightarrow> x < 2 ^ 63 \<Longrightarrow> sint (word_of_int x :: u64) = x"
  by (simp add: sint_sbintrunc' signed_take_bit_int_eq_self)

lemma abs_sint_64: "\<bar>sint (a :: u64)\<bar> \<le> 2 ^ 63"
  using sint_64_bounds [of a] by linarith

lemma smod64_spec:
  assumes "b \<noteq> 0"
  shows "sint (smod64 a b) = sgn (sint a) * (\<bar>sint a\<bar> mod \<bar>sint b\<bar>)"
  unfolding smod64_def
proof (rule sint_of_int_64)
  have "sint b \<noteq> 0" using assms signed_word_eqI [of b 0] by auto
  then have "0 < \<bar>sint b\<bar>" by simp
  from pos_mod_bound [OF this, of "\<bar>sint a\<bar>"] pos_mod_sign [OF this, of "\<bar>sint a\<bar>"]
  have "0 \<le> \<bar>sint a\<bar> mod \<bar>sint b\<bar>" "\<bar>sint a\<bar> mod \<bar>sint b\<bar> < 2 ^ 63"
    using abs_sint_64 [of b] by linarith+
  then show "- (2 ^ 63) \<le> sgn (sint a) * (\<bar>sint a\<bar> mod \<bar>sint b\<bar>)" "sgn (sint a) * (\<bar>sint a\<bar> mod \<bar>sint b\<bar>) < 2 ^ 63"
    by (cases "sint a" "0 :: int" rule: linorder_cases; simp)+
qed

lemma sdiv64_spec:
  assumes "b \<noteq> 0" "\<not> (a = MIN_SQ_INTEGER \<and> b = - 1)"
  shows "sint (sdiv64 a b) = sgn (sint a) * sgn (sint b) * (\<bar>sint a\<bar> div \<bar>sint b\<bar>)"
  unfolding sdiv64_def
proof (rule sint_of_int_64)
  let ?q = "\<bar>sint a\<bar> div \<bar>sint b\<bar>"
  have b: "sint b \<noteq> 0" using assms(1) signed_word_eqI [of b 0] by auto
  have le: "?q \<le> \<bar>sint a\<bar>" using zdiv_mono2 [of "\<bar>sint a\<bar>" 1 "\<bar>sint b\<bar>"] b by simp
  have nn: "0 \<le> ?q" by (simp add: b pos_imp_zdiv_nonneg_iff)
  show "- (2 ^ 63) \<le> sgn (sint a) * sgn (sint b) * ?q"
    using le nn abs_sint_64 [of a] by (cases "sint a" "0 :: int" rule: linorder_cases; cases "sint b" "0 :: int" rule: linorder_cases; simp)
  show "sgn (sint a) * sgn (sint b) * ?q < 2 ^ 63"
  proof (cases "\<bar>sint a\<bar> < 2 ^ 63")
    case True
    then show ?thesis
      using le nn by (cases "sint a" "0 :: int" rule: linorder_cases; cases "sint b" "0 :: int" rule: linorder_cases; simp)
  next
    case False
    then have a: "sint a = - (2 ^ 63)" using sint_64_bounds [of a] by linarith
    then have "sint b \<noteq> - 1"
      using assms(2) signed_word_eqI [of b "- 1"] signed_word_eqI [of a MIN_SQ_INTEGER] by (auto simp: MIN_SQ_INTEGER_def)
    then have "sint b > 0 \<or> \<bar>sint b\<bar> \<ge> 2" using b by linarith
    then show ?thesis
    proof
      assume "sint b > 0"
      then show ?thesis using a nn by simp
    next
      assume "\<bar>sint b\<bar> \<ge> 2"
      then have "?q < \<bar>sint a\<bar>" using a by (intro int_div_less_self) simp_all
      then show ?thesis using a nn by (cases "sint b" "0 :: int" rule: linorder_cases; simp)
    qed
  qed
qed

lemma trunc_div_mod:
  fixes x y :: int
  shows "x = sgn x * sgn y * (\<bar>x\<bar> div \<bar>y\<bar>) * y + sgn x * (\<bar>x\<bar> mod \<bar>y\<bar>)"
proof -
  have "sgn x * sgn y * (\<bar>x\<bar> div \<bar>y\<bar>) * y + sgn x * (\<bar>x\<bar> mod \<bar>y\<bar>) =
      sgn x * ((\<bar>x\<bar> div \<bar>y\<bar>) * (y * sgn y) + \<bar>x\<bar> mod \<bar>y\<bar>)"
    by (simp add: algebra_simps)
  also have "\<dots> = sgn x * \<bar>x\<bar>" by (simp add: abs_sgn [symmetric])
  also have "\<dots> = x" by (rule sgn_mult_abs)
  finally show ?thesis by simp
qed

text \<open>C38: integer division and remainder of the VM truncate towards zero for all 64-bit operands: where they answer,
  the quotient and the remainder recompose to the dividend and the remainder is smaller than the divisor and has the
  sign of the dividend; they raise an error exactly for the divisor 0 and, for the division, the least integer by -1.\<close>

theorem vm_division:
  "arith_nozero mm (SQInteger a) (SQInteger b) =
     (if b = 0 then VErr (ErrMsg ''division by zero'')
      else if a = MIN_SQ_INTEGER \<and> b = - 1 then VErr (ErrMsg ''integer overflow'')
      else VVal (SQInteger (sdiv64 a b))) \<and>
   ARITH_OP mm CHR ''%'' (SQInteger a) (SQInteger b) =
     (if b = 0 then VErr (ErrMsg ''integer modulo by zero'') else VVal (SQInteger (smod64 a b))) \<and>
   (b = 0 \<or> \<bar>sint (smod64 a b)\<bar> < \<bar>sint b\<bar> \<and> sint (smod64 a b) * sint a \<ge> 0 \<and>
     (sint a = sint (sdiv64 a b) * sint b + sint (smod64 a b) \<or> a = MIN_SQ_INTEGER \<and> b = - 1))"
proof (intro conjI)
  show "ARITH_OP mm CHR ''%'' (SQInteger a) (SQInteger b) =
     (if b = 0 then VErr (ErrMsg ''integer modulo by zero'') else VVal (SQInteger (smod64 a b)))"
    by (simp add: ARITH_OP_def int_arith_def smod64_def)
  show "b = 0 \<or> \<bar>sint (smod64 a b)\<bar> < \<bar>sint b\<bar> \<and> sint (smod64 a b) * sint a \<ge> 0 \<and>
     (sint a = sint (sdiv64 a b) * sint b + sint (smod64 a b) \<or> a = MIN_SQ_INTEGER \<and> b = - 1)"
  proof (cases "b = 0")
    case False
    then have b: "0 < \<bar>sint b\<bar>" using signed_word_eqI [of b 0] by auto
    note m = pos_mod_bound [OF b, of "\<bar>sint a\<bar>"] pos_mod_sign [OF b, of "\<bar>sint a\<bar>"]
    have "\<bar>sint (smod64 a b)\<bar> < \<bar>sint b\<bar> \<and> sint (smod64 a b) * sint a \<ge> 0"
      unfolding smod64_spec [OF False] using m b by (cases "sint a" "0 :: int" rule: linorder_cases; simp add: mult_nonneg_nonpos)
    moreover have "sint a = sint (sdiv64 a b) * sint b + sint (smod64 a b)" if "\<not> (a = MIN_SQ_INTEGER \<and> b = - 1)"
    proof -
      show ?thesis
        unfolding smod64_spec [OF False] sdiv64_spec [OF False that] by (rule trunc_div_mod)
    qed
    ultimately show ?thesis by blast
  qed simp
qed (simp add: arith_nozero_def Let_def)

text \<open>Since \<open>OT_NULL\<close> is 0, the type mask of null and a number is the number's: null counts as 0 in arithmetic
  and bitwise operations with a number, without an error, while two nulls raise one.\<close>

theorem vm_null_counts_as_zero:
  "arith_fast mm CHR ''+'' SQNull (SQInteger i) = VVal (SQInteger i) \<and>
   arith_fast mm CHR ''*'' (SQInteger i) SQNull = VVal (SQInteger 0) \<and>
   arith_fast mm CHR ''-'' SQNull (SQFloat f) = VVal (SQFloat (flt_sub 0 f)) \<and>
   arith_nozero mm (SQInteger i) SQNull = VErr (ErrMsg ''division by zero'') \<and>
   BW_OP BW_OR SQNull (SQInteger i) = VVal (SQInteger i) \<and>
   arith_fast mm CHR ''+'' SQNull SQNull = VErr (ErrArith CHR ''+'' SQNull SQNull)"
  by (simp add: arith_fast_def arith_nozero_def BW_OP_def ARITH_OP_def ArithMetaMethod_def is_delegable_def Let_def
      ot_defs BW_OR_def BW_AND_def RT_STRING_BIT_def SQOBJECT_DELEGABLE_def)

end
