(* ===== verification/ArraySort.thy ===== *)
theory ArraySort
  imports VmOpsProps "HOL-Library.Multiset"
begin

text \<open>
  \<open>array.sort\<close> (\<^verbatim>\<open>squirrel/sqbaselib.cpp\<close>): a heap sort in place, by \<open>ObjCmp\<close> or by a
  function of the script. The heap has its root at index 0, whose children are 0 itself and 1; node
  \<open>i\<close> has the children \<open>2 * i\<close> and \<open>2 * i + 1\<close>.
\<close>

subsection \<open>The code\<close>

text \<open>
  A call of a script function may read and write the array, move its storage by resizing it, change
  the rest of the world \<open>'w\<close>, or never return (\<open>None\<close>). So may a \<open>_cmp\<close> metamethod, \<open>se_cmp\<close>.
\<close>

datatype sort_call = CallFails sq_obj | CallAnswers sq_obj

type_synonym 'w sort_state = "sq_obj list \<times> 'w"

record 'w sort_env =
  se_heap :: "'w \<Rightarrow> sq_heap"
  se_meta :: "'w \<Rightarrow> has_meta"
  se_cmp :: "sq_obj \<Rightarrow> sq_obj \<Rightarrow> 'w sort_state \<Rightarrow> ((vm_error + int) \<times> 'w sort_state) option"
  se_func :: "(sq_obj \<Rightarrow> sq_obj \<Rightarrow> 'w sort_state \<Rightarrow> (sort_call \<times> bool \<times> 'w sort_state) option) option"

text \<open>A routine ends with an error or a result, accesses the array out of its range, or never returns.\<close>

datatype ('a, 's) sort_out = SortOut "vm_error + 'a" 's | OutOfRange | NoReturn

fun sort_bind :: "('a, 's) sort_out \<Rightarrow> ('a \<Rightarrow> 's \<Rightarrow> ('b, 's) sort_out) \<Rightarrow> ('b, 's) sort_out" where
  "sort_bind (SortOut (Inr x) s) k = k x s"
| "sort_bind (SortOut (Inl e) s) k = SortOut (Inl e) s"
| "sort_bind OutOfRange k = OutOfRange"
| "sort_bind NoReturn k = NoReturn"

lemma sort_bind_cong [fundef_cong]:
  "m = m' \<Longrightarrow> (\<And>x s. m' = SortOut (Inr x) s \<Longrightarrow> k x s = k' x s) \<Longrightarrow> sort_bind m k = sort_bind m' k'"
  by (cases "(m', k)" rule: sort_bind.cases) simp_all

lemma sort_bind_done:
  "sort_bind m k = SortOut (Inr y) s' \<longleftrightarrow> (\<exists>x s. m = SortOut (Inr x) s \<and> k x s = SortOut (Inr y) s')"
  by (cases "(m, k)" rule: sort_bind.cases) auto

definition sort_compare :: "'w sort_env \<Rightarrow> nat \<Rightarrow> nat \<Rightarrow> 'w sort_state \<Rightarrow> (int, 'w sort_state) sort_out" where
  "sort_compare e i j s =
     (case s of (xs, w) \<Rightarrow>
        if \<not> (i < length xs \<and> j < length xs) then OutOfRange
        else
          (case se_func e of
             None \<Rightarrow>
               (case ObjCmp (se_heap e w) (se_meta e w) (xs ! i) (xs ! j) of
                  VVal r \<Rightarrow> SortOut (Inr r) s
                | VErr x \<Rightarrow> SortOut (Inl x) s
                | _ \<Rightarrow> (case se_cmp e (xs ! i) (xs ! j) s of None \<Rightarrow> NoReturn | Some (r, s) \<Rightarrow> SortOut r s))
           | Some f \<Rightarrow>
               (case f (xs ! i) (xs ! j) s of
                  None \<Rightarrow> NoReturn
                | Some (CallFails x, moved, s) \<Rightarrow> SortOut (Inl (if sq_isstring x then ErrThrown x else ErrMsg ''compare func failed'')) s
                | Some (CallAnswers out, moved, s) \<Rightarrow>
                    SortOut
                      (if \<not> sq_isnumeric out then
                         Inl (ErrMsg ''numeric value expected as return value of the compare function'')
                       else if length (fst s) \<noteq> length xs \<or> moved then Inl (ErrMsg ''array resized during sort operation'')
                       else Inr (sint (tointeger out))) s)))"

definition swap_vals :: "'a list \<Rightarrow> nat \<Rightarrow> nat \<Rightarrow> 'a list" where
  "swap_vals xs i j = xs[i := xs ! j, j := xs ! i]"

definition sort_swap :: "nat \<Rightarrow> nat \<Rightarrow> 'a list \<times> 'w \<Rightarrow> (unit, 'a list \<times> 'w) sort_out" where
  "sort_swap i j s =
     (case s of (xs, w) \<Rightarrow>
        if i < length xs \<and> j < length xs then SortOut (Inr ()) (swap_vals xs i j, w) else OutOfRange)"

text \<open>\<open>cmp\<close> stands for \<open>_sort_compare\<close> on the values at two indexes.\<close>

type_synonym ('a, 'w) sort_cmp = "nat \<Rightarrow> nat \<Rightarrow> 'a list \<times> 'w \<Rightarrow> (int, 'a list \<times> 'w) sort_out"

definition greater_child :: "('a, 'w) sort_cmp \<Rightarrow> nat \<Rightarrow> nat \<Rightarrow> 'a list \<times> 'w \<Rightarrow> (nat, 'a list \<times> 'w) sort_out" where
  "greater_child cmp root2 bottom s =
     (if root2 = bottom then SortOut (Inr root2) s
      else sort_bind (cmp root2 (root2 + 1) s) (\<lambda>ret s. SortOut (Inr (if ret > 0 then root2 else root2 + 1)) s))"

lemma greater_child_cases:
  "greater_child cmp root2 bottom s = SortOut (Inr c) s' \<Longrightarrow> c = root2 \<or> c = root2 + 1 \<and> root2 \<noteq> bottom"
  by (auto simp: greater_child_def sort_bind_done split: if_splits)

text \<open>The loop of \<open>_hsort_sift_down\<close>; the last branch is \<open>done\<close>.\<close>

function hsort_sift_down :: "('a, 'w) sort_cmp \<Rightarrow> nat \<Rightarrow> nat \<Rightarrow> 'a list \<times> 'w \<Rightarrow> (unit, 'a list \<times> 'w) sort_out" where
  "hsort_sift_down cmp root bottom s =
     (if root * 2 \<le> bottom then
        sort_bind (greater_child cmp (root * 2) bottom s) (\<lambda>maxChild s.
          sort_bind (cmp root maxChild s) (\<lambda>ret s.
            if ret < 0 then
              (if root = maxChild then SortOut (Inl (ErrMsg ''inconsistent compare function'')) s
               else sort_bind (sort_swap root maxChild s) (\<lambda>_ s. hsort_sift_down cmp maxChild bottom s))
            else SortOut (Inr ()) s))
      else SortOut (Inr ()) s)"
  by pat_completeness auto
termination
  by (relation "measure (\<lambda>(cmp, root, bottom, s). Suc bottom - root)") (auto dest!: greater_child_cases)

declare hsort_sift_down.simps [simp del]

text \<open>The first loop runs \<open>i\<close> down to 0, the second down to 1.\<close>

fun hsort_build :: "('a, 'w) sort_cmp \<Rightarrow> nat \<Rightarrow> nat \<Rightarrow> 'a list \<times> 'w \<Rightarrow> (unit, 'a list \<times> 'w) sort_out" where
  "hsort_build cmp array_size 0 s = hsort_sift_down cmp 0 (array_size - 1) s"
| "hsort_build cmp array_size (Suc i) s =
     sort_bind (hsort_sift_down cmp (Suc i) (array_size - 1) s) (\<lambda>_ s. hsort_build cmp array_size i s)"

fun hsort_drain :: "('a, 'w) sort_cmp \<Rightarrow> nat \<Rightarrow> 'a list \<times> 'w \<Rightarrow> (unit, 'a list \<times> 'w) sort_out" where
  "hsort_drain cmp 0 s = SortOut (Inr ()) s"
| "hsort_drain cmp (Suc i) s =
     sort_bind (sort_swap 0 (Suc i) s) (\<lambda>_ s.
       sort_bind (hsort_sift_down cmp 0 i s) (\<lambda>_ s. hsort_drain cmp i s))"

definition hsort :: "('a, 'w) sort_cmp \<Rightarrow> 'a list \<times> 'w \<Rightarrow> (unit, 'a list \<times> 'w) sort_out" where
  "hsort cmp s =
     (let array_size = length (fst s) in
      sort_bind (hsort_build cmp array_size (array_size div 2) s) (\<lambda>_ s. hsort_drain cmp (array_size - 1) s))"

definition array_sort :: "'w sort_env \<Rightarrow> bool \<Rightarrow> 'w sort_state \<Rightarrow> (unit, 'w sort_state) sort_out" where
  "array_sort e immutable s =
     (if immutable then SortOut (Inl (ErrMsg ''Cannot modify immutable object'')) s
      else if length (fst s) > 1 then hsort (sort_compare e) s
      else SortOut (Inr ()) s)"

lemma length_swap_vals [simp]: "length (swap_vals xs i j) = length xs"
  by (simp add: swap_vals_def)

lemma mset_swap_vals: "i < length xs \<Longrightarrow> j < length xs \<Longrightarrow> mset (swap_vals xs i j) = mset xs"
  unfolding swap_vals_def by (rule mset_swap)

lemma nth_swap_vals:
  "i < length xs \<Longrightarrow> j < length xs \<Longrightarrow> k < length xs \<Longrightarrow>
     swap_vals xs i j ! k = (if k = i then xs ! j else if k = j then xs ! i else xs ! k)"
  by (simp add: swap_vals_def nth_list_update)

subsection \<open>Every run keeps an invariant of the array\<close>

text \<open>
  \<open>P\<close> holds of the array as long as no comparison fails and \<open>E\<close> then; \<open>n\<close> is the size of the array.
\<close>

definition calls_keep :: "('a, 'w) sort_cmp \<Rightarrow> ('a list \<Rightarrow> bool) \<Rightarrow> ('a list \<Rightarrow> bool) \<Rightarrow> nat \<Rightarrow> bool" where
  "calls_keep cmp P E n \<longleftrightarrow>
     (\<forall>xs. P xs \<longrightarrow> length xs = n \<and> E xs) \<and>
     (\<forall>xs i j. P xs \<longrightarrow> i < n \<longrightarrow> j < n \<longrightarrow> P (swap_vals xs i j)) \<and>
     (\<forall>xs w i j. P xs \<longrightarrow> i < n \<longrightarrow> j < n \<longrightarrow>
        (\<exists>r ys v. cmp i j (xs, w) = SortOut r (ys, v) \<and> (if isl r then E ys else P ys)))"

definition sort_ends :: "('a list \<Rightarrow> bool) \<Rightarrow> ('a list \<Rightarrow> bool) \<Rightarrow> ('b, 'a list \<times> 'w) sort_out \<Rightarrow> bool" where
  "sort_ends P E m \<longleftrightarrow> (\<exists>r ys v. m = SortOut r (ys, v) \<and> (if isl r then E ys else P ys))"

lemma sort_ends_bind:
  assumes "sort_ends P E m" "\<And>x ys v. m = SortOut (Inr x) (ys, v) \<Longrightarrow> P ys \<Longrightarrow> sort_ends P' E (k x (ys, v))"
  shows "sort_ends P' E (sort_bind m k)"
proof -
  obtain r ys v where m: "m = SortOut r (ys, v)" "if isl r then E ys else P ys" using assms(1) unfolding sort_ends_def by blast
  show ?thesis
  proof (cases r)
    case (Inl e)
    then show ?thesis using m by (simp add: sort_ends_def)
  next
    case (Inr x)
    then show ?thesis using m assms(2) [of x ys v] by simp
  qed
qed

lemma calls_keepD:
  assumes "calls_keep cmp P E n" "P xs"
  shows "length xs = n" "sort_ends P E (SortOut r (xs, w))"
    "i < n \<Longrightarrow> j < n \<Longrightarrow> sort_ends P E (cmp i j (xs, w))" "i < n \<Longrightarrow> j < n \<Longrightarrow> sort_ends P E (sort_swap i j (xs, w))"
  using assms by (auto simp: calls_keep_def sort_ends_def sort_swap_def)

lemma greater_child_ends:
  assumes "calls_keep cmp P E n" "P xs" "root2 \<le> bottom" "bottom < n"
  shows "sort_ends P E (greater_child cmp root2 bottom (xs, w))"
proof (cases "root2 = bottom")
  case True
  then show ?thesis using calls_keepD(2) [OF assms(1,2)] by (simp add: greater_child_def)
next
  case False
  then show ?thesis
    unfolding greater_child_def using assms
    by (simp, intro sort_ends_bind [OF calls_keepD(3) [OF assms(1,2)]]) (simp_all add: calls_keepD(2) [OF assms(1)])
qed

lemma sift_down_ends:
  assumes "calls_keep cmp P E n" "bottom < n"
  shows "P xs \<Longrightarrow> sort_ends P E (hsort_sift_down cmp root bottom (xs, w))"
proof (induction "Suc bottom - root" arbitrary: root xs w rule: less_induct)
  case less
  note k = calls_keepD [OF assms(1)]
  show ?case
  proof (cases "root * 2 \<le> bottom")
    case True
    have "sort_ends P E (sort_bind (cmp root c (ys, v)) (\<lambda>ret s.
            if ret < 0 then
              (if root = c then SortOut (Inl (ErrMsg ''inconsistent compare function'')) s
               else sort_bind (sort_swap root c s) (\<lambda>_ s. hsort_sift_down cmp c bottom s))
            else SortOut (Inr ()) s))"
      if c: "greater_child cmp (root * 2) bottom (xs, w) = SortOut (Inr c) (ys, v)" and ys: "P ys" for c ys v
    proof -
      have b: "root < n" "c < n" "c \<noteq> root \<Longrightarrow> Suc bottom - c < Suc bottom - root"
        using True greater_child_cases [OF c] assms(2) by auto
      show ?thesis
      proof (rule sort_ends_bind [OF k(3) [OF ys b(1,2)]])
        fix ret zs u assume zs: "P zs"
        have "sort_ends P E (sort_bind (sort_swap root c (zs, u)) (\<lambda>_ s. hsort_sift_down cmp c bottom s))" if "c \<noteq> root"
          by (rule sort_ends_bind [OF k(4) [OF zs b(1,2)]], rule less.hyps [OF b(3) [OF that]])
        then show "sort_ends P E (if ret < 0 then
              (if root = c then SortOut (Inl (ErrMsg ''inconsistent compare function'')) (zs, u)
               else sort_bind (sort_swap root c (zs, u)) (\<lambda>_ s. hsort_sift_down cmp c bottom s))
            else SortOut (Inr ()) (zs, u))"
          using k(2) [OF zs] by auto
      qed
    qed
    then show ?thesis
      unfolding hsort_sift_down.simps [of cmp root] using True
      by (simp, intro sort_ends_bind [OF greater_child_ends [OF assms(1) less.prems True assms(2)]]) simp
  next
    case False
    then show ?thesis using k(2) [OF less.prems] by (simp add: hsort_sift_down.simps)
  qed
qed

lemma build_ends:
  assumes "calls_keep cmp P E n" "0 < n"
  shows "P xs \<Longrightarrow> sort_ends P E (hsort_build cmp n i (xs, w))"
proof (induction i arbitrary: xs w)
  case 0
  then show ?case using sift_down_ends [OF assms(1)] assms(2) by simp
next
  case (Suc i)
  have "sort_ends P E (hsort_sift_down cmp (Suc i) (n - 1) (xs, w))" using sift_down_ends [OF assms(1) _ Suc.prems] assms(2) by simp
  then show ?case using Suc.IH unfolding hsort_build.simps by (rule sort_ends_bind)
qed

lemma drain_ends:
  assumes "calls_keep cmp P E n"
  shows "P xs \<Longrightarrow> i < n \<Longrightarrow> sort_ends P E (hsort_drain cmp i (xs, w))"
proof (induction i arbitrary: xs w)
  case 0
  then show ?case using calls_keepD(2) [OF assms] by simp
next
  case (Suc i)
  have b: "0 < n" "Suc i < n" "i < n" using Suc.prems(2) by auto
  show ?case
    unfolding hsort_drain.simps
    by (rule sort_ends_bind [OF calls_keepD(4) [OF assms Suc.prems(1) b(1,2)]],
        rule sort_ends_bind [OF sift_down_ends [OF assms b(3)]], assumption) (rule Suc.IH [OF _ b(3)])
qed

lemma hsort_ends:
  assumes "calls_keep cmp P E n" "0 < n" "P xs"
  shows "sort_ends P E (hsort cmp (xs, w))"
  unfolding hsort_def using calls_keepD(1) [OF assms(1,3)] assms(2)
  by (simp, intro sort_ends_bind [OF build_ends [OF assms]] drain_ends [OF assms(1)]) simp_all

end
