(* ===== verification/HeapSort.thy ===== *)
theory HeapSort
  imports ArraySort
begin

text \<open>
  A reference heap sort on values with a pure comparison, in the shape of the code: with a total
  preorder it ends without an error in ascending order. The interface is the locale \<open>sort_order\<close>.
  The code with a comparison that leaves the array alone is this sort.
\<close>

subsection \<open>The reference\<close>

type_synonym 'a sort_step = "'a list \<Rightarrow> vm_error option \<times> 'a list"

function heap_sift :: "('a \<Rightarrow> 'a \<Rightarrow> vm_error + int) \<Rightarrow> nat \<Rightarrow> nat \<Rightarrow> 'a sort_step" where
  "heap_sift cmp root bottom xs =
     (let root2 = root * 2 in
      if root2 \<le> bottom then
        (case (if root2 = bottom then Inr root2
               else (case cmp (xs ! root2) (xs ! (root2 + 1)) of
                       Inl x \<Rightarrow> Inl x
                     | Inr ret \<Rightarrow> Inr (if ret > 0 then root2 else root2 + 1))) of
           Inl x \<Rightarrow> (Some x, xs)
         | Inr maxChild \<Rightarrow>
             (case cmp (xs ! root) (xs ! maxChild) of
                Inl x \<Rightarrow> (Some x, xs)
              | Inr ret \<Rightarrow>
                  if ret < 0 then
                    (if root = maxChild then (Some (ErrMsg ''inconsistent compare function''), xs)
                     else heap_sift cmp maxChild bottom (swap_vals xs root maxChild))
                  else (None, xs)))
      else (None, xs))"
  by pat_completeness auto
termination
  by (relation "measure (\<lambda>(cmp, root, bottom, xs). Suc bottom - root)") (auto split: if_splits sum.splits)

declare heap_sift.simps [simp del]

fun heap_build :: "('a \<Rightarrow> 'a \<Rightarrow> vm_error + int) \<Rightarrow> nat \<Rightarrow> nat \<Rightarrow> 'a sort_step" where
  "heap_build cmp array_size i xs =
     (case heap_sift cmp i (array_size - 1) xs of
        (Some x, xs) \<Rightarrow> (Some x, xs)
      | (None, xs) \<Rightarrow> (case i of 0 \<Rightarrow> (None, xs) | Suc i' \<Rightarrow> heap_build cmp array_size i' xs))"

fun heap_drain :: "('a \<Rightarrow> 'a \<Rightarrow> vm_error + int) \<Rightarrow> nat \<Rightarrow> 'a sort_step" where
  "heap_drain cmp 0 xs = (None, xs)"
| "heap_drain cmp (Suc i) xs =
     (case heap_sift cmp 0 i (swap_vals xs 0 (Suc i)) of
        (Some x, xs) \<Rightarrow> (Some x, xs)
      | (None, xs) \<Rightarrow> heap_drain cmp i xs)"

definition heap_sort :: "('a \<Rightarrow> 'a \<Rightarrow> vm_error + int) \<Rightarrow> 'a sort_step" where
  "heap_sort cmp xs =
     (let array_size = length xs in
      case heap_build cmp array_size (array_size div 2) xs of
        (Some x, xs) \<Rightarrow> (Some x, xs)
      | (None, xs) \<Rightarrow> heap_drain cmp (array_size - 1) xs)"

subsection \<open>Every run keeps the elements\<close>

lemma mset_heap_sift:
  "bottom < length xs \<Longrightarrow> mset (snd (heap_sift cmp root bottom xs)) = mset xs"
proof (induction cmp root bottom xs rule: heap_sift.induct)
  case (1 cmp root bottom xs)
  show ?case
  proof (cases "root * 2 \<le> bottom")
    case True
    then show ?thesis
      using 1 by (subst heap_sift.simps)
        (auto simp: Let_def mset_swap_vals split: sum.splits if_splits)
  qed (simp add: heap_sift.simps)
qed

lemma mset_heap_build:
  "array_size = length xs \<Longrightarrow> 0 < length xs \<Longrightarrow> mset (snd (heap_build cmp array_size i xs)) = mset xs"
proof (induction i arbitrary: xs)
  case 0
  then show ?case using mset_heap_sift [of "length xs - 1" xs cmp 0] by (auto split: prod.splits option.splits)
next
  case (Suc i)
  obtain r ys where r: "heap_sift cmp (Suc i) (array_size - 1) xs = (r, ys)" by fastforce
  then have ys: "mset ys = mset xs" using mset_heap_sift [of "array_size - 1" xs cmp "Suc i"] Suc.prems by simp
  then have "length ys = length xs" by (rule mset_eq_length)
  then show ?case using Suc.IH [of ys] Suc.prems r ys by (auto split: option.splits)
qed

lemma mset_heap_drain: "i < length xs \<Longrightarrow> mset (snd (heap_drain cmp i xs)) = mset xs"
proof (induction i arbitrary: xs)
  case (Suc i)
  obtain r ys where r: "heap_sift cmp 0 i (swap_vals xs 0 (Suc i)) = (r, ys)" by fastforce
  have "mset (swap_vals xs 0 (Suc i)) = mset xs" using Suc.prems by (intro mset_swap_vals) auto
  then have ys: "mset ys = mset xs"
    using mset_heap_sift [of i "swap_vals xs 0 (Suc i)" cmp 0] Suc.prems r by simp
  then have "length ys = length xs" by (rule mset_eq_length)
  then show ?case using Suc.IH [of ys] Suc.prems r ys by (auto split: option.splits)
qed simp

lemma mset_heap_sort: "0 < length xs \<Longrightarrow> mset (snd (heap_sort cmp xs)) = mset xs"
proof -
  assume xs: "0 < length xs"
  obtain r ys where r: "heap_build cmp (length xs) (length xs div 2) xs = (r, ys)" by fastforce
  then have ys: "mset ys = mset xs" using mset_heap_build [of "length xs" xs cmp "length xs div 2"] xs by simp
  then have "length ys = length xs" by (rule mset_eq_length)
  then have "length xs - 1 < length ys" using xs by simp
  then show ?thesis using mset_heap_drain [of "length xs - 1" ys cmp] r ys by (auto simp: heap_sort_def split: option.splits)
qed

subsection \<open>What the sort relies on\<close>

locale sort_order =
  fixes cmp :: "'a \<Rightarrow> 'a \<Rightarrow> vm_error + int" and S :: "'a set"
  assumes answers: "a \<in> S \<Longrightarrow> b \<in> S \<Longrightarrow> \<exists>r. cmp a b = Inr r"
    and anti: "a \<in> S \<Longrightarrow> b \<in> S \<Longrightarrow> cmp a b = Inr r \<Longrightarrow> cmp b a = Inr r' \<Longrightarrow> sgn r' = - sgn r"
    and trans: "a \<in> S \<Longrightarrow> b \<in> S \<Longrightarrow> c \<in> S \<Longrightarrow> cmp a b = Inr r \<Longrightarrow> r \<le> 0 \<Longrightarrow> cmp b c = Inr s \<Longrightarrow> s \<le> 0 \<Longrightarrow>
      cmp a c = Inr t \<Longrightarrow> t \<le> 0"

definition cmp_le :: "('a \<Rightarrow> 'a \<Rightarrow> vm_error + int) \<Rightarrow> 'a \<Rightarrow> 'a \<Rightarrow> bool" where
  "cmp_le cmp a b = (case cmp a b of Inl x \<Rightarrow> False | Inr r \<Rightarrow> r \<le> 0)"

text \<open>The parents from \<open>lo\<close> on are not below their children; \<open>r\<close> may be an exception.\<close>

definition heap_but :: "('a \<Rightarrow> 'a \<Rightarrow> vm_error + int) \<Rightarrow> nat \<Rightarrow> nat \<Rightarrow> nat \<Rightarrow> 'a list \<Rightarrow> bool" where
  "heap_but cmp lo bottom r xs \<longleftrightarrow>
     (\<forall>j \<le> bottom. lo \<le> j div 2 \<longrightarrow> j div 2 \<noteq> r \<longrightarrow> cmp_le cmp (xs ! j) (xs ! (j div 2))) \<and>
     (\<forall>j \<le> bottom. j div 2 = r \<longrightarrow> lo \<le> r div 2 \<longrightarrow> lo < r \<longrightarrow> cmp_le cmp (xs ! j) (xs ! (r div 2)))"

definition heap_from :: "('a \<Rightarrow> 'a \<Rightarrow> vm_error + int) \<Rightarrow> nat \<Rightarrow> nat \<Rightarrow> 'a list \<Rightarrow> bool" where
  "heap_from cmp lo bottom xs \<longleftrightarrow> (\<forall>j \<le> bottom. lo \<le> j div 2 \<longrightarrow> cmp_le cmp (xs ! j) (xs ! (j div 2)))"

context sort_order begin

abbreviation le :: "'a \<Rightarrow> 'a \<Rightarrow> bool" where "le \<equiv> cmp_le cmp"

lemma le_iff: "a \<in> S \<Longrightarrow> b \<in> S \<Longrightarrow> cmp a b = Inr r \<Longrightarrow> le a b \<longleftrightarrow> r \<le> 0"
  by (simp add: cmp_le_def)

lemma ge_iff:
  assumes "a \<in> S" "b \<in> S" "cmp a b = Inr r"
  shows "le b a \<longleftrightarrow> r \<ge> 0"
proof -
  obtain r' where r': "cmp b a = Inr r'" using answers assms(1,2) by blast
  have "sgn r' = - sgn r" by (rule anti [OF assms r'])
  then show ?thesis using le_iff [OF assms(2,1) r'] by (auto simp: sgn_if split: if_splits)
qed

lemma self: "a \<in> S \<Longrightarrow> cmp a a = Inr 0"
  using answers [of a a] anti [of a a] by (auto simp: sgn_if split: if_splits)

lemma le_refl: "a \<in> S \<Longrightarrow> le a a"
  by (simp add: cmp_le_def self)

lemma le_trans: "a \<in> S \<Longrightarrow> b \<in> S \<Longrightarrow> c \<in> S \<Longrightarrow> le a b \<Longrightarrow> le b c \<Longrightarrow> le a c"
  using answers [of a b] answers [of b c] answers [of a c] trans [of a b c] by (auto simp: cmp_le_def)

lemma le_total: "a \<in> S \<Longrightarrow> b \<in> S \<Longrightarrow> le a b \<or> le b a"
  using answers [of a b] ge_iff [of a b] by (auto simp: cmp_le_def)

text \<open>The child that the code compares with is the greater one.\<close>

definition max_child :: "nat \<Rightarrow> nat \<Rightarrow> 'a list \<Rightarrow> nat \<Rightarrow> bool" where
  "max_child root bottom xs c \<longleftrightarrow> c \<le> bottom \<and> c div 2 = root \<and> (\<forall>j \<le> bottom. j div 2 = root \<longrightarrow> le (xs ! j) (xs ! c))"

lemma sift_down_step:
  assumes "root * 2 \<le> bottom" "bottom < length xs" "set xs \<subseteq> S"
  shows "\<exists>c r. max_child root bottom xs c \<and> cmp (xs ! root) (xs ! c) = Inr r \<and>
    heap_sift cmp root bottom xs =
      (if r < 0 then (if root = c then (Some (ErrMsg ''inconsistent compare function''), xs)
                      else heap_sift cmp c bottom (swap_vals xs root c))
       else (None, xs))"
proof -
  have S: "xs ! j \<in> S" if "j \<le> bottom" for j using assms(2,3) that by (meson le_less_trans nth_mem subsetD)
  have kids: "j = root * 2 \<or> j = root * 2 + 1" if "j div 2 = root" for j using that by linarith
  show ?thesis
  proof (cases "root * 2 = bottom")
    case True
    have "max_child root bottom xs (root * 2)"
      unfolding max_child_def using True kids le_refl [OF S] assms(1) by fastforce
    moreover obtain r where "cmp (xs ! root) (xs ! (root * 2)) = Inr r" using answers S assms(1) by force
    ultimately show ?thesis using True assms(1)
      by (intro exI [of _ "root * 2"] exI [of _ r]) (subst heap_sift.simps, simp add: Let_def)
  next
    case False
    then have b: "root * 2 + 1 \<le> bottom" using assms(1) by simp
    obtain q where q: "cmp (xs ! (root * 2)) (xs ! (root * 2 + 1)) = Inr q" using answers S assms(1) b by meson
    let ?c = "if q > 0 then root * 2 else root * 2 + 1"
    have c: "?c \<le> bottom" using assms(1) b by simp
    have "le (xs ! (root * 2)) (xs ! ?c) \<and> le (xs ! (root * 2 + 1)) (xs ! ?c)"
      using le_iff [OF S S q] ge_iff [OF S S q] le_refl [OF S] assms(1) b by auto
    then have "le (xs ! j) (xs ! ?c)" if "j div 2 = root" for j using kids [OF that] by presburger
    moreover have "?c div 2 = root" by simp
    ultimately have "max_child root bottom xs ?c" unfolding max_child_def using c by blast
    moreover obtain r where "cmp (xs ! root) (xs ! ?c) = Inr r"
    proof -
      have "xs ! root \<in> S" using S [of root] assms(1) by simp
      then show thesis using answers [OF _ S [OF c]] that by blast
    qed
    ultimately show ?thesis using q False assms(1)
      by (intro exI [of _ ?c] exI [of _ r]) (subst heap_sift.simps, simp add: Let_def)
  qed
qed

lemma heap_but_swap:
  assumes h: "heap_but cmp lo bottom root xs" and c: "max_child root bottom xs c" "root \<noteq> c"
    and b: "bottom < length xs" and S: "set xs \<subseteq> S" and lo: "lo \<le> root" and less: "le (xs ! root) (xs ! c)"
  shows "heap_but cmp lo bottom c (swap_vals xs root c)"
proof -
  let ?ys = "swap_vals xs root c"
  have c': "c \<le> bottom" "c div 2 = root" "\<And>j. j \<le> bottom \<Longrightarrow> j div 2 = root \<Longrightarrow> le (xs ! j) (xs ! c)"
    using c(1) by (auto simp: max_child_def)
  have rc: "root < c" using c(2) c'(2) by linarith
  have mem: "xs ! j \<in> S" if "j \<le> bottom" for j using b S that by (meson le_less_trans nth_mem subsetD)
  have nth: "?ys ! k = (if k = root then xs ! c else if k = c then xs ! root else xs ! k)" if "k \<le> bottom" for k
    using nth_swap_vals [of root xs c k] that b c'(1) rc by simp
  have h1: "le (xs ! j) (xs ! (j div 2))" if "j \<le> bottom" "lo \<le> j div 2" "j div 2 \<noteq> root" for j
    using h that by (simp add: heap_but_def)
  have h2: "le (xs ! j) (xs ! (root div 2))" if "j \<le> bottom" "j div 2 = root" "lo \<le> root div 2" "lo < root" for j
    using h that by (simp add: heap_but_def)
  have "le (?ys ! j) (?ys ! (j div 2))" if j: "j \<le> bottom" "lo \<le> j div 2" "j div 2 \<noteq> c" for j
  proof (cases "j div 2 = root")
    case True
    then show ?thesis using j less c'(3) [of j] le_refl [OF mem [OF c'(1)]] rc c'(1) by (auto simp: nth)
  next
    case False
    have "root \<noteq> 0" if "j = root" using False that by auto
    then have "le (xs ! c) (xs ! (j div 2))" if "j = root"
      using h2 [OF c'(1,2)] j(2) that by simp
    moreover have "j \<noteq> c" using False c'(2) by auto
    moreover have "j div 2 \<le> bottom" using j(1) by linarith
    ultimately show ?thesis using False j h1 [of j] by (auto simp: nth)
  qed
  moreover have "le (?ys ! j) (?ys ! (c div 2))" if j: "j \<le> bottom" "j div 2 = c" for j
  proof -
    have "j \<noteq> c" "j \<noteq> root" using j(2) rc by linarith+
    moreover have "le (xs ! j) (xs ! c)" using h1 [of j] j lo rc by simp
    moreover have "c div 2 \<le> bottom" using c'(1,2) rc by linarith
    ultimately show ?thesis using j c'(2) by (simp add: nth)
  qed
  ultimately show ?thesis by (auto simp: heap_but_def)
qed

lemma heap_but_done:
  assumes h: "heap_but cmp lo bottom root xs"
    and top: "\<And>j. j \<le> bottom \<Longrightarrow> j div 2 = root \<Longrightarrow> le (xs ! j) (xs ! root)"
  shows "heap_from cmp lo bottom xs"
  using h top unfolding heap_but_def heap_from_def by metis

lemma sift_down_heap:
  "heap_but cmp lo bottom root xs \<Longrightarrow> bottom < length xs \<Longrightarrow> set xs \<subseteq> S \<Longrightarrow> lo \<le> root \<Longrightarrow>
     \<exists>ys. heap_sift cmp root bottom xs = (None, ys) \<and> heap_from cmp lo bottom ys \<and> (\<forall>k. bottom < k \<longrightarrow> ys ! k = xs ! k)"
proof (induction "Suc bottom - root" arbitrary: root xs rule: less_induct)
  case less
  have mem: "xs ! j \<in> S" if "j \<le> bottom" for j using less.prems(2,3) that by (meson le_less_trans nth_mem subsetD)
  show ?case
  proof (cases "root * 2 \<le> bottom")
    case False
    have "heap_from cmp lo bottom xs"
    proof (rule heap_but_done [OF less.prems(1)])
      fix j assume "j \<le> bottom" "j div 2 = root"
      then show "le (xs ! j) (xs ! root)" using False by linarith
    qed
    then show ?thesis using False by (intro exI [of _ xs]) (simp add: heap_sift.simps)
  next
    case True
    from sift_down_step [OF True less.prems(2,3)] obtain c r where
      c: "max_child root bottom xs c" and r: "cmp (xs ! root) (xs ! c) = Inr r" and
      run: "heap_sift cmp root bottom xs =
        (if r < 0 then (if root = c then (Some (ErrMsg ''inconsistent compare function''), xs)
                        else heap_sift cmp c bottom (swap_vals xs root c))
         else (None, xs))"
      by blast
    have cb: "c \<le> bottom" "c div 2 = root" using c by (auto simp: max_child_def)
    have rb: "root \<le> bottom" using True by simp
    show ?thesis
    proof (cases "r < 0")
      case neg: True
      have rc: "root \<noteq> c" using r neg self [OF mem [OF rb]] by auto
      then have lt: "root < c" using cb(2) by linarith
      have le: "le (xs ! root) (xs ! c)" using le_iff [OF mem [OF rb] mem [OF cb(1)] r] neg by simp
      let ?ys = "swap_vals xs root c"
      have ms: "mset ?ys = mset xs" using less.prems(2) rb cb(1) by (intro mset_swap_vals) auto
      have "\<exists>zs. heap_sift cmp c bottom ?ys = (None, zs) \<and> heap_from cmp lo bottom zs \<and> (\<forall>k. bottom < k \<longrightarrow> zs ! k = ?ys ! k)"
      proof (rule less.hyps)
        show "heap_but cmp lo bottom c ?ys" by (rule heap_but_swap [OF less.prems(1) c rc less.prems(2,3,4) le])
        show "set ?ys \<subseteq> S" using less.prems(3) mset_eq_setD [OF ms] by simp
      qed (use lt cb(1) less.prems(2,4) in auto)
      moreover have "?ys ! k = xs ! k" if "bottom < k" for k
        using that rb cb(1) by (simp add: swap_vals_def)
      ultimately show ?thesis using run neg rc by auto
    next
      case pos: False
      have "le (xs ! c) (xs ! root)" using ge_iff [OF mem [OF rb] mem [OF cb(1)] r] pos by simp
      have "heap_from cmp lo bottom xs"
      proof (rule heap_but_done [OF less.prems(1)])
        fix j assume j: "j \<le> bottom" "j div 2 = root"
        then have "le (xs ! j) (xs ! c)" using c by (simp add: max_child_def)
        then show "le (xs ! j) (xs ! root)" by (rule le_trans [OF mem [OF j(1)] mem [OF cb(1)] mem [OF rb] _ \<open>le (xs ! c) (xs ! root)\<close>])
      qed
      then show ?thesis using run pos by simp
    qed
  qed
qed

lemma sift_down_mset: "bottom < length xs \<Longrightarrow> heap_sift cmp root bottom xs = (r, ys) \<Longrightarrow> mset ys = mset xs"
  using mset_heap_sift [of bottom xs cmp root] by simp

lemma build_heap:
  "heap_from cmp (Suc i) (length xs - 1) xs \<Longrightarrow> 0 < length xs \<Longrightarrow> set xs \<subseteq> S \<Longrightarrow>
     \<exists>ys. heap_build cmp (length xs) i xs = (None, ys) \<and> heap_from cmp 0 (length xs - 1) ys"
proof (induction i arbitrary: xs)
  case 0
  have "heap_but cmp 0 (length xs - 1) 0 xs" using 0 by (auto simp: heap_but_def heap_from_def)
  from sift_down_heap [OF this] 0 show ?case by fastforce
next
  case (Suc i)
  have "heap_but cmp (Suc i) (length xs - 1) (Suc i) xs" using Suc.prems by (auto simp: heap_but_def heap_from_def)
  from sift_down_heap [OF this] Suc.prems obtain ys where
    ys: "heap_sift cmp (Suc i) (length xs - 1) xs = (None, ys)" "heap_from cmp (Suc i) (length xs - 1) ys"
    by fastforce
  have m: "mset ys = mset xs" using sift_down_mset [OF _ ys(1)] Suc.prems(2) by simp
  have l: "length ys = length xs" by (rule mset_eq_length [OF m])
  have "set ys \<subseteq> S" using mset_eq_setD [OF m] Suc.prems(3) by simp
  then show ?case using Suc.IH [of ys] ys l Suc.prems(2) by simp
qed

lemma heap_top:
  assumes "heap_from cmp 0 i xs" "i < length xs" "set xs \<subseteq> S"
  shows "j \<le> i \<Longrightarrow> le (xs ! j) (xs ! 0)"
proof (induction j rule: less_induct)
  case (less j)
  have mem: "xs ! k \<in> S" if "k \<le> i" for k using assms(2,3) that by (meson le_less_trans nth_mem subsetD)
  show ?case
  proof (cases "j = 0")
    case True
    then show ?thesis using le_refl [OF mem] by simp
  next
    case False
    then have p: "j div 2 < j" "j div 2 \<le> i" using less.prems by linarith+
    have "le (xs ! j) (xs ! (j div 2))" using assms(1) less.prems by (simp add: heap_from_def)
    from le_trans [OF mem [OF less.prems] mem [OF p(2)] mem [of 0] this less.IH [OF p]] show ?thesis by simp
  qed
qed

lemma prefix_values:
  assumes "mset zs = mset ys" "\<forall>k. i < k \<longrightarrow> zs ! k = ys ! k" "i < length ys" "j \<le> i"
  shows "\<exists>l \<le> i. zs ! j = ys ! l"
proof -
  have len: "length zs = length ys" by (rule mset_eq_length [OF assms(1)])
  have "drop (Suc i) zs = drop (Suc i) ys" using assms(2) len by (intro nth_equalityI) auto
  then have "mset (take (Suc i) zs) = mset (take (Suc i) ys)"
    using assms(1) by (metis add_right_cancel append_take_drop_id mset_append)
  then have "set (take (Suc i) zs) = set (take (Suc i) ys)" by (rule mset_eq_setD)
  moreover have "zs ! j \<in> set (take (Suc i) zs)"
    using assms(3,4) len nth_mem [of j "take (Suc i) zs"] by simp
  ultimately have "zs ! j \<in> set (take (Suc i) ys)" by simp
  then show ?thesis using assms(3) by (auto simp: in_set_conv_nth less_Suc_eq_le)
qed

lemma drain_sorts:
  "heap_from cmp 0 i xs \<Longrightarrow> i < length xs \<Longrightarrow> set xs \<subseteq> S \<Longrightarrow>
     (\<And>j k. j < k \<Longrightarrow> i < k \<Longrightarrow> k < length xs \<Longrightarrow> le (xs ! j) (xs ! k)) \<Longrightarrow>
     \<exists>ys. heap_drain cmp i xs = (None, ys) \<and> sorted_wrt le ys"
proof (induction i arbitrary: xs)
  case 0
  then show ?case by (auto simp: sorted_wrt_iff_nth_less)
next
  case (Suc i)
  let ?ys = "swap_vals xs 0 (Suc i)"
  have nth: "?ys ! k = (if k = 0 then xs ! Suc i else if k = Suc i then xs ! 0 else xs ! k)" if "k < length xs" for k
    using nth_swap_vals [of 0 xs "Suc i" k] that Suc.prems(2) by (cases xs) simp_all
  have my: "mset ?ys = mset xs" using Suc.prems(2) by (intro mset_swap_vals) auto
  have Sy: "set ?ys \<subseteq> S" using mset_eq_setD [OF my] Suc.prems(3) by simp
  have "heap_but cmp 0 i 0 ?ys"
    unfolding heap_but_def
  proof (intro conjI allI impI)
    fix j assume j: "j \<le> i" "j div 2 \<noteq> 0"
    then have "j < length xs" "j div 2 < length xs" using Suc.prems(2) by linarith+
    moreover have "le (xs ! j) (xs ! (j div 2))" using Suc.prems(1) j(1) by (simp add: heap_from_def)
    ultimately show "le (?ys ! j) (?ys ! (j div 2))" using j nth [of j] nth [of "j div 2"] by auto
  qed simp
  from sift_down_heap [OF this _ Sy] Suc.prems(2) obtain zs where
    zs: "heap_sift cmp 0 i ?ys = (None, zs)" "heap_from cmp 0 i zs" "\<forall>k. i < k \<longrightarrow> zs ! k = ?ys ! k"
    by auto
  have mz: "mset zs = mset ?ys" using sift_down_mset [OF _ zs(1)] Suc.prems(2) by simp
  have lz: "length zs = length xs" using mset_eq_length [OF mz] by simp
  have top: "le (xs ! l) (xs ! 0)" if "l \<le> Suc i" for l by (rule heap_top [OF Suc.prems(1,2,3) that])
  have old: "\<exists>l \<le> Suc i. zs ! j = xs ! l" if j: "j \<le> i" for j
  proof -
    obtain l where "l \<le> i" "zs ! j = ?ys ! l" using prefix_values [OF mz zs(3) _ j] Suc.prems(2) by auto
    moreover have "0 < length xs" "l < length xs" using calculation Suc.prems(2) by linarith+
    ultimately have "l \<le> i" "zs ! j = (if l = 0 then xs ! Suc i else xs ! l)" using nth [of l] by auto
    then show ?thesis by (intro exI [of _ "if l = 0 then Suc i else l"]) auto
  qed
  have "le (zs ! j) (zs ! k)" if jk: "j < k" "i < k" "k < length zs" for j k
  proof -
    have zk: "zs ! k = (if k = Suc i then xs ! 0 else xs ! k)" using jk lz zs(3) nth [of k] by auto
    show ?thesis
    proof (cases "j \<le> i")
      case True
      from old [OF this] obtain l where "l \<le> Suc i" "zs ! j = xs ! l" by blast
      then show ?thesis using zk top [of l] Suc.prems(4) [of l k] jk lz by (cases "k = Suc i") auto
    next
      case False
      then have "zs ! j = (if j = Suc i then xs ! 0 else xs ! j)" using jk lz zs(3) nth [of j] by auto
      then show ?thesis using zk False Suc.prems(4) [of 0 k] Suc.prems(4) [of j k] jk lz by auto
    qed
  qed
  moreover have "set zs \<subseteq> S" using mset_eq_setD [OF mz] Sy by simp
  ultimately show ?case using Suc.IH [OF zs(2)] zs(1) lz Suc.prems(2) by auto
qed

theorem heap_sort_sorts:
  assumes "set xs \<subseteq> S" "0 < length xs"
  shows "\<exists>ys. heap_sort cmp xs = (None, ys) \<and> mset ys = mset xs \<and> sorted_wrt le ys"
proof -
  have "heap_from cmp (Suc (length xs div 2)) (length xs - 1) xs"
    by (auto simp: heap_from_def dest!: div_le_mono [of _ "length xs - 1" 2]) 
  from build_heap [OF this assms(2,1)] obtain ys where
    ys: "heap_build cmp (length xs) (length xs div 2) xs = (None, ys)" "heap_from cmp 0 (length xs - 1) ys" by blast
  have m: "mset ys = mset xs" using mset_heap_build [of "length xs" xs cmp "length xs div 2"] assms(2) ys(1) by simp
  have l: "length ys = length xs" by (rule mset_eq_length [OF m])
  have "\<exists>zs. heap_drain cmp (length xs - 1) ys = (None, zs) \<and> sorted_wrt le zs"
    using drain_sorts [OF ys(2)] l assms mset_eq_setD [OF m] by fastforce
  then obtain zs where zs: "heap_drain cmp (length xs - 1) ys = (None, zs)" "sorted_wrt le zs" by blast
  have "heap_sort cmp xs = (None, zs)" using ys(1) zs(1) by (simp add: heap_sort_def)
  then show ?thesis using mset_heap_sort [OF assms(2), of cmp] zs(2) by auto
qed

end

subsection \<open>The code and the reference\<close>

text \<open>The comparison at two indexes is the pure one of the values in \<open>S\<close> there, and changes nothing.\<close>

definition pure_calls :: "('a, 'w) sort_cmp \<Rightarrow> ('a \<Rightarrow> 'a \<Rightarrow> vm_error + int) \<Rightarrow> 'a set \<Rightarrow> bool" where
  "pure_calls c cmp S \<longleftrightarrow> (\<forall>i j xs w. set xs \<subseteq> S \<longrightarrow> i < length xs \<longrightarrow> j < length xs \<longrightarrow> c i j (xs, w) = SortOut (cmp (xs ! i) (xs ! j)) (xs, w))"

definition sorted_out :: "vm_error option \<times> 'a list \<Rightarrow> 'w \<Rightarrow> (unit, 'a list \<times> 'w) sort_out" where
  "sorted_out r w = SortOut (case fst r of None \<Rightarrow> Inr () | Some x \<Rightarrow> Inl x) (snd r, w)"

lemma sorted_out_simps [simp]: "sorted_out (None, xs) w = SortOut (Inr ()) (xs, w)" "sorted_out (Some x, xs) w = SortOut (Inl x) (xs, w)"
  by (simp_all add: sorted_out_def)

lemma set_swap_vals: "i < length xs \<Longrightarrow> j < length xs \<Longrightarrow> set (swap_vals xs i j) = set xs"
  by (rule mset_eq_setD, rule mset_swap_vals)

lemma sift_down_pure:
  assumes "pure_calls c cmp S"
  shows "bottom < length xs \<Longrightarrow> set xs \<subseteq> S \<Longrightarrow> hsort_sift_down c root bottom (xs, w) = sorted_out (heap_sift cmp root bottom xs) w"
proof (induction "Suc bottom - root" arbitrary: root xs rule: less_induct)
  case less
  have c: "c i j (xs, w) = SortOut (cmp (xs ! i) (xs ! j)) (xs, w)" if "i \<le> bottom" "j \<le> bottom" for i j
    using assms less.prems that by (simp add: pure_calls_def)
  show ?case
  proof (cases "root * 2 \<le> bottom")
    case True
    let ?pick = "if root * 2 = bottom then Inr (root * 2)
      else (case cmp (xs ! (root * 2)) (xs ! (root * 2 + 1)) of
              Inl x \<Rightarrow> Inl x | Inr ret \<Rightarrow> Inr (if ret > 0 then root * 2 else root * 2 + 1))"
    have pick: "greater_child c (root * 2) bottom (xs, w) = SortOut ?pick (xs, w)"
      using c [of "root * 2" "root * 2 + 1"] True by (simp add: greater_child_def split: sum.split)
    show ?thesis
    proof (cases ?pick)
      case (Inl x)
      then show ?thesis using pick True by (simp add: hsort_sift_down.simps [of c root] heap_sift.simps [of cmp root] Let_def)
    next
      case (Inr m)
      have m: "m \<le> bottom" "m \<noteq> root \<Longrightarrow> Suc bottom - m < Suc bottom - root"
        using Inr True by (auto split: if_splits sum.splits)
      have b: "root < length xs" "m < length xs" "root \<le> bottom" using m(1) True less.prems(1) by auto
      have rec: "hsort_sift_down c m bottom (swap_vals xs root m, w) = sorted_out (heap_sift cmp m bottom (swap_vals xs root m)) w" if "m \<noteq> root"
        using less.prems set_swap_vals [OF b(1,2)] by (intro less.hyps [OF m(2) [OF that]]) simp_all
      have cm: "c root m (xs, w) = SortOut (cmp (xs ! root) (xs ! m)) (xs, w)" using c m(1) b(3) by simp
      have "sort_swap root m (xs, w) = SortOut (Inr ()) (swap_vals xs root m, w)" using b by (simp add: sort_swap_def)
      then have "hsort_sift_down c root bottom (xs, w) =
        (case cmp (xs ! root) (xs ! m) of Inl x \<Rightarrow> SortOut (Inl x) (xs, w)
         | Inr ret \<Rightarrow> if ret < 0 then (if root = m then SortOut (Inl (ErrMsg ''inconsistent compare function'')) (xs, w)
             else hsort_sift_down c m bottom (swap_vals xs root m, w)) else SortOut (Inr ()) (xs, w))"
        using pick Inr True cm by (simp add: hsort_sift_down.simps [of c root] split: sum.split)
      also have "\<dots> = sorted_out (heap_sift cmp root bottom xs) w"
        using Inr True rec by (simp add: heap_sift.simps [of cmp root] Let_def split: sum.split)
      finally show ?thesis .
    qed
  next
    case False
    then show ?thesis by (simp add: hsort_sift_down.simps heap_sift.simps)
  qed
qed

lemma sorted_out_bind:
  "sort_bind (sorted_out r w) (\<lambda>_ s. k s) = (case r of (Some x, ys) \<Rightarrow> SortOut (Inl x) (ys, w) | (None, ys) \<Rightarrow> k (ys, w))"
  by (cases r; cases "fst r") simp_all

lemma sift_keeps:
  "bottom < length xs \<Longrightarrow> set xs \<subseteq> S \<Longrightarrow> heap_sift cmp root bottom xs = (r, ys) \<Longrightarrow> length ys = length xs \<and> set ys \<subseteq> S"
  using mset_heap_sift [of bottom xs cmp root] mset_eq_length [of ys xs] mset_eq_setD [of ys xs] by simp

lemma build_pure:
  assumes "pure_calls c cmp S"
  shows "0 < length xs \<Longrightarrow> set xs \<subseteq> S \<Longrightarrow> hsort_build c (length xs) i (xs, w) = sorted_out (heap_build cmp (length xs) i xs) w"
proof (induction i arbitrary: xs)
  case 0
  then show ?case using sift_down_pure [OF assms, of "length xs - 1" xs 0 w] by (simp split: prod.split option.split)
next
  case (Suc i)
  obtain r ys where r: "heap_sift cmp (Suc i) (length xs - 1) xs = (r, ys)" by fastforce
  have y: "length ys = length xs" "set ys \<subseteq> S" using sift_keeps [OF _ Suc.prems(2) r] Suc.prems(1) by simp_all
  have "hsort_sift_down c (Suc i) (length xs - 1) (xs, w) = sorted_out (r, ys) w"
    using sift_down_pure [OF assms _ Suc.prems(2), of "length xs - 1" "Suc i" w] Suc.prems(1) r by simp
  then show ?case using Suc.IH [of ys] Suc.prems(1) y r by (cases r) (simp_all add: sorted_out_bind)
qed

lemma drain_pure:
  assumes "pure_calls c cmp S"
  shows "i < length xs \<Longrightarrow> set xs \<subseteq> S \<Longrightarrow> hsort_drain c i (xs, w) = sorted_out (heap_drain cmp i xs) w"
proof (induction i arbitrary: xs)
  case (Suc i)
  let ?xs = "swap_vals xs 0 (Suc i)"
  have b: "0 < length xs" "Suc i < length xs" using Suc.prems(1) by auto
  have sw: "sort_swap 0 (Suc i) (xs, w) = SortOut (Inr ()) (?xs, w)" using b by (simp add: sort_swap_def)
  have x: "i < length ?xs" "set ?xs \<subseteq> S" using set_swap_vals [OF b] Suc.prems by simp_all
  obtain r ys where r: "heap_sift cmp 0 i ?xs = (r, ys)" by fastforce
  have y: "length ys = length ?xs" "set ys \<subseteq> S" using sift_keeps [OF x r] by simp_all
  have "hsort_sift_down c 0 i (?xs, w) = sorted_out (r, ys) w" using sift_down_pure [OF assms x] r by simp
  then show ?case using sw Suc.IH [of ys] Suc.prems(1) y r by (cases r) (simp_all add: sorted_out_bind)
qed simp

lemma hsort_pure:
  assumes "pure_calls c cmp S" "0 < length xs" "set xs \<subseteq> S"
  shows "hsort c (xs, w) = sorted_out (heap_sort cmp xs) w"
proof -
  obtain r ys where r: "heap_build cmp (length xs) (length xs div 2) xs = (r, ys)" by fastforce
  have m: "mset ys = mset xs" using mset_heap_build [of "length xs" xs cmp "length xs div 2"] assms(2) r by simp
  have y: "length ys = length xs" "set ys \<subseteq> S" using mset_eq_length [OF m] mset_eq_setD [OF m] assms(3) by simp_all
  then have "hsort_drain c (length xs - 1) (ys, w) = sorted_out (heap_drain cmp (length xs - 1) ys) w"
    using drain_pure [OF assms(1), of "length xs - 1" ys] assms(2) by simp
  then show ?thesis
    using build_pure [OF assms, of "length xs div 2" w] r
    by (cases r) (simp_all add: hsort_def heap_sort_def sorted_out_bind)
qed

end
