(* ===== verification/ArraySortThms.thy ===== *)
theory ArraySortThms
  imports HeapSort
begin

text \<open>
  \<open>array.sort\<close> sorts by the order of values, and returns for every comparison function that does.
\<close>

subsection \<open>Sorting by the order of values\<close>

definition default_env :: "('w \<Rightarrow> sq_heap) \<Rightarrow> ('w \<Rightarrow> has_meta) \<Rightarrow>
    (sq_obj \<Rightarrow> sq_obj \<Rightarrow> 'w sort_state \<Rightarrow> ((vm_error + int) \<times> 'w sort_state) option) \<Rightarrow> 'w sort_env" where
  "default_env h mm c = \<lparr>se_heap = h, se_meta = mm, se_cmp = c, se_func = None\<rparr>"

definition one_kind :: "sq_heap \<Rightarrow> u32 \<Rightarrow> sq_obj set" where
  "one_kind h t = {v. plain_val h v \<and> (v = SQNull \<or> sq_type v = t)}"

lemma one_kind_comparable: "a \<in> one_kind h t \<Longrightarrow> b \<in> one_kind h t \<Longrightarrow> comparable h a b"
  by (auto simp: one_kind_def comparable_def)

definition value_cmp :: "sq_heap \<Rightarrow> sq_obj \<Rightarrow> sq_obj \<Rightarrow> vm_error + int" where
  "value_cmp h a b = (case ObjCmp h (\<lambda>_ _. False) a b of VVal r \<Rightarrow> Inr r | VErr x \<Rightarrow> Inl x | _ \<Rightarrow> Inl (ErrMsg []))"

lemma value_cmp_one_kind:
  assumes "a \<in> one_kind h t" "b \<in> one_kind h t"
  shows "value_cmp h a b = Inr r \<longleftrightarrow> ObjCmp h mm a b = VVal r"
proof -
  obtain x where "ObjCmp h mm a b = VVal x" using ObjCmp_total [OF one_kind_comparable [OF assms]] by blast
  moreover have "ObjCmp h (\<lambda>_ _. False) a b = ObjCmp h mm a b"
    using one_kind_comparable [OF assms] by (elim comparable_cases) (simp_all add: ObjCmp_kinds)
  ultimately show ?thesis by (simp add: value_cmp_def)
qed

interpretation value_sort: sort_order "value_cmp h" "one_kind h t"
proof
  fix a b assume ab: "a \<in> one_kind h t" "b \<in> one_kind h t"
  note v = value_cmp_one_kind [where mm = "\<lambda>_ _. False"]
  show "\<exists>r. value_cmp h a b = Inr r" using ObjCmp_total [OF one_kind_comparable [OF ab]] v [OF ab] by blast
  fix r r' assume "value_cmp h a b = Inr r" "value_cmp h b a = Inr r'"
  then show "sgn r' = - sgn r"
    using ab ObjCmp_swap [OF one_kind_comparable [OF ab], of "\<lambda>_ _. False" r] by (auto simp: v sgn_if)
next
  fix a b d r s u
  assume abc: "a \<in> one_kind h t" "b \<in> one_kind h t" "d \<in> one_kind h t"
    and r: "value_cmp h a b = Inr r" "r \<le> 0" "value_cmp h b d = Inr s" "s \<le> 0" "value_cmp h a d = Inr u"
  then show "u \<le> 0"
    using ObjCmp_trans [of h a b d "\<lambda>_ _. False" r s u] one_kind_comparable
    by (simp add: value_cmp_one_kind [where mm = "\<lambda>_ _. False"])
qed

lemma default_pure: "pure_calls (sort_compare (default_env (\<lambda>_. h) mm c)) (value_cmp h) (one_kind h t)"
  unfolding pure_calls_def
proof (intro allI impI)
  fix i j xs w assume "set xs \<subseteq> one_kind h t" "i < length xs" "j < length xs"
  moreover from this have k: "xs ! i \<in> one_kind h t" "xs ! j \<in> one_kind h t" by auto
  moreover obtain r where "ObjCmp h (mm w) (xs ! i) (xs ! j) = VVal r" using ObjCmp_total [OF one_kind_comparable [OF k]] by blast
  moreover from this have "value_cmp h (xs ! i) (xs ! j) = Inr r" using value_cmp_one_kind [OF k] by blast
  ultimately show "sort_compare (default_env (\<lambda>_. h) mm c) i j (xs, w) = SortOut (value_cmp h (xs ! i) (xs ! j)) (xs, w)"
    by (simp add: sort_compare_def default_env_def)
qed

text \<open>
  C39: \<open>array.sort\<close> without a function, on values of one type and nulls (no NaN, no string with a
  NUL byte, no values of reference types but strings, which raise or call metamethods), ends without
  an error with the same values in ascending order of \<open>ObjCmp\<close>, nulls first.
\<close>

theorem array_sort_sorts:
  assumes "set xs \<subseteq> one_kind h t"
  shows "\<exists>ys. array_sort (default_env (\<lambda>_. h) mm c) False (xs, w) = SortOut (Inr ()) (ys, w) \<and> mset ys = mset xs \<and>
    sorted_wrt (\<lambda>a b. \<exists>r. ObjCmp h (mm w) a b = VVal r \<and> r \<le> 0) ys"
proof (cases "1 < length xs")
  case True
  then have n: "0 < length xs" by linarith
  from value_sort.heap_sort_sorts [OF assms this] obtain ys where
    ys: "heap_sort (value_cmp h) xs = (None, ys)" "mset ys = mset xs" "sorted_wrt (cmp_le (value_cmp h)) ys" by blast
  have S: "set ys \<subseteq> one_kind h t" using mset_eq_setD [OF ys(2)] assms by simp
  have "sorted_wrt (\<lambda>a b. \<exists>r. ObjCmp h (mm w) a b = VVal r \<and> r \<le> 0) ys"
  proof (rule sorted_wrt_mono_rel [OF _ ys(3)])
    fix a b assume "a \<in> set ys" "b \<in> set ys" and le: "cmp_le (value_cmp h) a b"
    then have "a \<in> one_kind h t" "b \<in> one_kind h t" using S by auto
    from value_cmp_one_kind [OF this, of _ "mm w"] le show "\<exists>r. ObjCmp h (mm w) a b = VVal r \<and> r \<le> 0"
      unfolding cmp_le_def by (cases "value_cmp h a b") auto
  qed
  moreover have "hsort (sort_compare (default_env (\<lambda>_. h) mm c)) (xs, w) = sorted_out (heap_sort (value_cmp h) xs) w"
    by (rule hsort_pure [OF default_pure n assms])
  ultimately show ?thesis using ys(1,2) True by (simp add: array_sort_def)
next
  case False
  then show ?thesis by (cases xs) (auto simp: array_sort_def)
qed

definition no_heap :: sq_heap where
  "no_heap = \<lparr>str_hash = (\<lambda>p. 0), str_val = (\<lambda>p. []), weak_obj = (\<lambda>p. SQNull)\<rparr>"

theorem array_sort_sorts_witness:
  "\<exists>ys. array_sort (default_env (\<lambda>_. no_heap) (\<lambda>_ v m. False) (\<lambda>a b s. None)) False ([SQInteger 3, SQNull, SQInteger (- 1), SQInteger 2], ()) =
      SortOut (Inr ()) (ys, ()) \<and>
    mset ys = mset [SQInteger 3, SQNull, SQInteger (- 1), SQInteger 2] \<and>
    sorted_wrt (\<lambda>a b. \<exists>r. ObjCmp no_heap (\<lambda>v m. False) a b = VVal r \<and> r \<le> 0) ys"
  by (rule array_sort_sorts [where t = OT_INTEGER]) (simp add: one_kind_def plain_val_def)

subsection \<open>Sorting by a function of the script\<close>

text \<open>
  The calls return: those of the function, whatever it does to the array, or those of \<open>_cmp\<close>
  metamethods that do not resize the array, which is not checked. \<open>calls_quiet\<close>: none of them
  writes to the array.
\<close>

definition calls_return :: "'w sort_env \<Rightarrow> bool" where
  "calls_return e \<longleftrightarrow>
     (case se_func e of
        Some f \<Rightarrow> \<forall>a b s. f a b s \<noteq> None
      | None \<Rightarrow> \<forall>a b s. \<exists>r s'. se_cmp e a b s = Some (r, s') \<and> length (fst s') = length (fst s))"

definition calls_quiet :: "'w sort_env \<Rightarrow> bool" where
  "calls_quiet e \<longleftrightarrow>
     (case se_func e of
        Some f \<Rightarrow> \<forall>a b s c moved s'. f a b s = Some (c, moved, s') \<longrightarrow> fst s' = fst s
      | None \<Rightarrow> \<forall>a b s r s'. se_cmp e a b s = Some (r, s') \<longrightarrow> fst s' = fst s)"

lemma compare_returns:
  assumes "calls_return e" "i < length xs" "j < length xs"
  obtains r ys v where "sort_compare e i j (xs, w) = SortOut r (ys, v)" "\<not> isl r \<Longrightarrow> length ys = length xs" "calls_quiet e \<Longrightarrow> ys = xs"
proof (cases "se_func e")
  case None
  obtain r s' where s: "se_cmp e (xs ! i) (xs ! j) (xs, w) = Some (r, s')" "length (fst s') = length xs"
    using assms(1) None by (fastforce simp: calls_return_def)
  have "fst s' = xs" if "calls_quiet e"
  proof -
    have "\<forall>a b s r s'. se_cmp e a b s = Some (r, s') \<longrightarrow> fst s' = fst s" using that None by (simp add: calls_quiet_def)
    from this [rule_format, OF s(1)] show ?thesis by simp
  qed
  then show ?thesis
    using that s None assms(2,3) by (cases "ObjCmp (se_heap e w) (se_meta e w) (xs ! i) (xs ! j)"; cases s') (auto simp: sort_compare_def)
next
  case (Some f)
  obtain c moved s' where s: "f (xs ! i) (xs ! j) (xs, w) = Some (c, moved, s')"
    using assms(1) Some by (fastforce simp: calls_return_def)
  have "fst s' = xs" if "calls_quiet e"
  proof -
    have "\<forall>a b s c moved s'. f a b s = Some (c, moved, s') \<longrightarrow> fst s' = fst s" using that Some by (simp add: calls_quiet_def)
    from this [rule_format, OF s] show ?thesis by simp
  qed
  moreover obtain ys v where y: "s' = (ys, v)" by (cases s')
  moreover obtain r where "sort_compare e i j (xs, w) = SortOut r (ys, v)" "\<not> isl r \<Longrightarrow> length ys = length xs"
  proof (cases c)
    case (CallFails x)
    then show ?thesis using that s y Some assms(2,3) by (simp add: sort_compare_def)
  next
    case (CallAnswers out)
    let ?r = "if \<not> sq_isnumeric out then Inl (ErrMsg ''numeric value expected as return value of the compare function'')
      else if length ys \<noteq> length xs \<or> moved then Inl (ErrMsg ''array resized during sort operation'') else Inr (sint (tointeger out))"
    have e: "sort_compare e i j (xs, w) = SortOut ?r (ys, v)"
      using CallAnswers s y Some assms(2,3) by (simp add: sort_compare_def)
    have l: "length ys = length xs" if "\<not> isl ?r" using that by (auto split: if_splits)
    show ?thesis by (rule that [OF e l])
  qed
  ultimately show ?thesis using that by simp
qed

lemma compare_steady:
  assumes "calls_return e" and n: "\<And>ys. P ys \<Longrightarrow> length ys = n" and "\<And>ys. P ys \<Longrightarrow> E ys"
    and "\<And>ys i j. P ys \<Longrightarrow> i < length ys \<Longrightarrow> j < length ys \<Longrightarrow> P (swap_vals ys i j)"
    and keep: "\<And>ys zs. P ys \<Longrightarrow> length zs = length ys \<Longrightarrow> (calls_quiet e \<Longrightarrow> zs = ys) \<Longrightarrow> P zs"
    and fail: "\<And>ys zs. P ys \<Longrightarrow> (calls_quiet e \<Longrightarrow> zs = ys) \<Longrightarrow> E zs"
  shows "calls_keep (sort_compare e) P E n"
  unfolding calls_keep_def
proof (intro conjI allI impI)
  fix xs w i j assume x: "P xs" "i < n" "j < n"
  then have b: "i < length xs" "j < length xs" using n by simp_all
  obtain r ys v where "sort_compare e i j (xs, w) = SortOut r (ys, v)" "\<not> isl r \<Longrightarrow> length ys = length xs" "calls_quiet e \<Longrightarrow> ys = xs"
    using compare_returns [OF assms(1) b] by blast
  then show "\<exists>r ys v. sort_compare e i j (xs, w) = SortOut r (ys, v) \<and> (if isl r then E ys else P ys)"
    using keep [OF x(1), of ys] fail [OF x(1), of ys] by auto
next
  fix xs i j assume "P xs" "i < n" "j < n"
  then show "P (swap_vals xs i j)" using assms(2,4) by simp
qed (use assms(2,3) in simp_all)

text \<open>
  C40: \<open>array.sort\<close> returns, with or without an error and without an access out of the range of the
  array, for every comparison function whose calls return, consistent or not, also when they write
  to the array or resize it, which is found out. Without an error the array has the size it had, and
  when the function does not write to the array it holds the same values in any case. In the default
  order \<open>_cmp\<close> metamethods count as the function, if they do not resize the array. An immutable array is not touched.
\<close>

theorem array_sort_returns:
  assumes "calls_return e"
  shows "\<exists>r ys v. array_sort e immutable (xs, w) = SortOut r (ys, v) \<and> (r = Inr () \<longrightarrow> length ys = length xs) \<and>
    (calls_quiet e \<longrightarrow> mset ys = mset xs) \<and> (immutable \<longrightarrow> ys = xs \<and> isl r)"
proof (cases "immutable \<or> length xs \<le> 1")
  case True
  then show ?thesis by (auto simp: array_sort_def)
next
  case False
  then have n: "0 < length xs" and run: "array_sort e immutable (xs, w) = hsort (sort_compare e) (xs, w)" by (auto simp: array_sort_def)
  have keep: "calls_keep (sort_compare e) (\<lambda>ys. length ys = length xs) (\<lambda>_. True) (length xs)"
    by (rule compare_steady [OF assms]) simp_all
  obtain r ys v where r: "hsort (sort_compare e) (xs, w) = SortOut r (ys, v)" "\<not> isl r \<Longrightarrow> length ys = length xs"
    using hsort_ends [OF keep n refl, of w] unfolding sort_ends_def by auto
  have "mset ys = mset xs" if q: "calls_quiet e"
  proof -
    have "calls_keep (sort_compare e) (\<lambda>ys. mset ys = mset xs) (\<lambda>ys. mset ys = mset xs) (length xs)"
    proof (rule compare_steady [OF assms])
      show "length ys = length xs" if "mset ys = mset xs" for ys using that by (rule mset_eq_length)
    qed (use q in \<open>simp_all add: mset_swap_vals\<close>)
    from hsort_ends [OF this n refl, of w] r(1) show ?thesis unfolding sort_ends_def by (auto split: if_splits)
  qed
  then show ?thesis using False r run by auto
qed

text \<open>A function that answers the difference and, when asked about 3, overwrites the first value.\<close>

definition meddling :: "unit sort_env" where
  "meddling = \<lparr>se_heap = (\<lambda>_. no_heap), se_meta = (\<lambda>_ v m. False), se_cmp = (\<lambda>a b s. None),
     se_func = Some (\<lambda>a b s. Some (CallAnswers (if a = SQInteger 1 then SQInteger (- 1) else SQInteger 1), False,
       if a = SQInteger 3 then (fst s)[0 := SQNull] else fst s, snd s))\<rparr>"

theorem array_sort_returns_witness:
  "\<exists>r ys v. array_sort meddling False ([SQInteger 3, SQInteger 1, SQInteger 2], ()) = SortOut r (ys, v) \<and> (r = Inr () \<longrightarrow> length ys = 3)"
proof -
  have "calls_return meddling" by (simp add: calls_return_def meddling_def)
  from array_sort_returns [OF this, of False "[SQInteger 3, SQInteger 1, SQInteger 2]" "()"] show ?thesis by auto
qed

text \<open>A comparison function that answers a float below one in magnitude answers 0.\<close>

lemma sort_compare_fraction:
  assumes "se_func e = Some f" "f (xs ! i) (xs ! j) (xs, w) = Some (CallAnswers (SQFloat r) , False, (xs, v))"
    "i < length xs" "j < length xs" "flt_mag r < 2 ^ 149" "\<not> flt_is_nan r"
  shows "sort_compare e i j (xs, w) = SortOut (Inr 0) (xs, v)"
  using assms by (simp add: sort_compare_def tointeger_def flt_to_int_def)

end
