(* ===== verification/VmCode.thy ===== *)
theory VmCode
  imports VmOpsProps
begin

text \<open>
  Bytecode (\<^verbatim>\<open>squirrel/opcodes.h\<close>) and the part of the interpreter loop \<open>SQVM::Execute\<close>
  (\<^verbatim>\<open>squirrel/sqvm.cpp\<close>) that loads, moves, computes, compares and jumps within one call. The
  opcodes that work on the heap or call a function are an argument of the semantics
  (\<open>vo_other\<close>), as are the metamethod calls and string concatenations that operators end in;
  \<open>foreach\<close>, exception traps, generators, tail calls and static memos are not modelled. A limitation:
  a metamethod or string conversion (\<open>vo_call\<close>, \<open>vo_cat\<close>) changes the world but no register of the
  running call, while in the program it may assign a captured local of it through an open outer.
\<close>

datatype (plugins only: code) sq_opcode =
    OPC_DATA_NOP | OPC_LOAD | OPC_LOADINT | OPC_LOADFLOAT | OPC_DLOAD | OPC_TAILCALL | OPC_CALL | OPC_PREPCALL
   | OPC_PREPCALLK | OPC_GETK | OPC_MOVE | OPC_NEWSLOT | OPC_NEWSLOTK | OPC_DELETE | OPC_SET | OPC_SETK
   | OPC_SETI | OPC_GET | OPC_SET_LITERAL | OPC_GET_LITERAL | OPC_EQ | OPC_NE | OPC_ADD | OPC_ADDI | OPC_SUB
   | OPC_MUL | OPC_DIV | OPC_MOD | OPC_BITW | OPC_RETURN | OPC_LOADNULLS | OPC_LOADROOT | OPC_LOADBOOL
   | OPC_DMOVE | OPC_JMP | OPC_JCMP | OPC_JCMPI | OPC_JCMPF | OPC_JCMPK | OPC_JZ | OPC_SETOUTER | OPC_GETOUTER
   | OPC_NEWOBJ | OPC_APPENDARRAY | OPC_COMPARITH | OPC_COMPARITH_K | OPC_INC | OPC_INCL | OPC_PINC
   | OPC_PINCL | OPC_CMP | OPC_EXISTS | OPC_INSTANCEOF | OPC_AND | OPC_OR | OPC_NEG | OPC_NOT | OPC_BWNOT
   | OPC_CLOSURE | OPC_YIELD | OPC_RESUME | OPC_PREFOREACH | OPC_POSTFOREACH | OPC_FOREACH | OPC_CLONE
   | OPC_TYPEOF | OPC_PUSHTRAP | OPC_POPTRAP | OPC_THROW | OPC_NEWSLOTA | OPC_GETBASE | OPC_CLOSE
   | OPC_NULLCOALESCE | OPC_NULLCALL | OPC_LOADCALLEE | OPC_PATCH_DOCOBJ | OPC_LOAD_STATIC_MEMO
   | OPC_SAVE_STATIC_MEMO | OPC_FREEZE | OPC_CHECK_TYPE

text \<open>\<open>_arg1\<close> and \<open>_farg1\<close> share their 32 bits.\<close>

record sq_instr =
  i_op :: sq_opcode
  i_arg0 :: u8
  i_arg1 :: u32
  i_arg2 :: u8
  i_arg3 :: u8

type_synonym regs = "nat \<Rightarrow> sq_obj"

text \<open>What the semantics is given: the heap and the script functions behind the operators.\<close>

record 'w vm_ops =
  vo_heap :: "'w \<Rightarrow> sq_heap"
  vo_meta :: "'w \<Rightarrow> has_meta"
  vo_call :: "metamethod \<Rightarrow> sq_obj list \<Rightarrow> 'w \<Rightarrow> (vm_error + sq_obj) \<times> 'w"
  vo_cat :: "sq_obj \<Rightarrow> sq_obj \<Rightarrow> 'w \<Rightarrow> (vm_error + sq_obj) \<times> 'w"
  vo_other :: "sq_instr \<Rightarrow> regs \<Rightarrow> 'w \<Rightarrow> (vm_error + regs) \<times> 'w"

datatype 'w vm_outcome = Returned sq_obj 'w | Raised vm_error 'w

datatype 'w vm_next = Goto int regs 'w | Stop "'w vm_outcome" | Unmodelled

subsection \<open>One instruction\<close>

definition reg :: "u8 \<Rightarrow> nat" where "reg a = unat a"
definition reg1 :: "sq_instr \<Rightarrow> nat" where "reg1 i = unat (i_arg1 i)"
definition sarg0 :: "sq_instr \<Rightarrow> int" where "sarg0 i = sint (i_arg0 i)"
definition sarg1 :: "sq_instr \<Rightarrow> int" where "sarg1 i = sint (i_arg1 i)"
definition sarg3 :: "sq_instr \<Rightarrow> int" where "sarg3 i = sint (i_arg3 i)"

definition load_int :: "sq_instr \<Rightarrow> sq_obj" where "load_int i = SQInteger (scast (i_arg1 i))"

text \<open>The end of an operator: its value is stored, an error or a failed call raises.\<close>

definition finish :: "'w vm_ops \<Rightarrow> sq_obj vm_result \<Rightarrow> (sq_obj \<Rightarrow> 'w \<Rightarrow> 'w vm_next) \<Rightarrow> 'w \<Rightarrow> 'w vm_next" where
  "finish ops r k w =
     (let after = (\<lambda>(res, w). case res of Inl x \<Rightarrow> Stop (Raised x w) | Inr v \<Rightarrow> k v w) in
      case r of
        VVal v \<Rightarrow> k v w
      | VErr x \<Rightarrow> Stop (Raised x w)
      | VMeta m xs \<Rightarrow> after (vo_call ops m xs w)
      | VCat a b \<Rightarrow> after (vo_cat ops a b w))"

text \<open>The end of a comparison: \<open>_cmp\<close> must answer an integer. An unknown operator fails.\<close>

definition finish_cmp ::
  "'w vm_ops \<Rightarrow> (int \<Rightarrow> 'b option) \<Rightarrow> int vm_result \<Rightarrow> ('b \<Rightarrow> 'w \<Rightarrow> 'w vm_next) \<Rightarrow> 'w \<Rightarrow> 'w vm_next" where
  "finish_cmp ops f r k w =
     (let decide = (\<lambda>x w. case f x of Some b \<Rightarrow> k b w | None \<Rightarrow> Stop (Raised (ErrMsg []) w)) in
      case r of
        VVal x \<Rightarrow> decide x w
      | VErr x \<Rightarrow> Stop (Raised x w)
      | VMeta m xs \<Rightarrow>
          (case vo_call ops m xs w of
             (Inl x, w) \<Rightarrow> Stop (Raised x w)
           | (Inr v, w) \<Rightarrow>
               (case v of SQInteger i \<Rightarrow> decide (sint i) w | _ \<Rightarrow> Stop (Raised (ErrMsg ''_cmp must return an integer'') w)))
      | VCat a b \<Rightarrow> Unmodelled)"

definition cond_literal :: "sq_obj list \<Rightarrow> sq_instr \<Rightarrow> regs \<Rightarrow> sq_obj" where
  "cond_literal lits i R = (if i_arg3 i \<noteq> 0 then lits ! reg1 i else R (reg1 i))"

text \<open>The comparison and the wanted result of a conditional jump share \<open>arg3\<close>.\<close>

definition jcmp_op :: "sq_instr \<Rightarrow> u8" where "jcmp_op i = i_arg3 i AND 7"
definition jcmp_taken :: "sq_instr \<Rightarrow> int \<Rightarrow> bool" where
  "jcmp_taken i r \<longleftrightarrow> (if r \<noteq> 0 then 1 else 0) = drop_bit 3 (i_arg3 i)"

definition set_nulls :: "nat \<Rightarrow> nat \<Rightarrow> regs \<Rightarrow> regs" where
  "set_nulls a n R = (\<lambda>r. if a \<le> r \<and> r < a + n then SQNull else R r)"

definition unmodelled_op :: "sq_opcode \<Rightarrow> bool" where
  "unmodelled_op p \<longleftrightarrow> p = OPC_PUSHTRAP \<or> p = OPC_POPTRAP \<or> p = OPC_FOREACH \<or> p = OPC_PREFOREACH \<or> p = OPC_POSTFOREACH \<or>
     p = OPC_YIELD \<or> p = OPC_RESUME \<or> p = OPC_LOAD_STATIC_MEMO \<or> p = OPC_SAVE_STATIC_MEMO \<or> p = OPC_TAILCALL"

text \<open>
  The opcodes by the blocks of the switch they stand in. \<open>cont\<close> goes on with the next
  instruction, \<open>jump\<close> with the target of the jump; \<open>rest\<close> stands for the other blocks.
\<close>

definition exec_load :: "sq_obj list \<Rightarrow> sq_instr \<Rightarrow> regs \<Rightarrow> 'w \<Rightarrow> (regs \<Rightarrow> 'w \<Rightarrow> 'w vm_next) \<Rightarrow> 'w vm_next \<Rightarrow> 'w vm_next" where
  "exec_load lits i R w cont rest =
     (let target = (\<lambda>v. cont (R(reg (i_arg0 i) := v)) w) in
      case i_op i of
        OPC_DATA_NOP \<Rightarrow> cont R w
      | OPC_LOAD \<Rightarrow> target (lits ! reg1 i)
      | OPC_LOADINT \<Rightarrow> target (load_int i)
      | OPC_LOADFLOAT \<Rightarrow> target (SQFloat (i_arg1 i))
      | OPC_DLOAD \<Rightarrow> cont (R(reg (i_arg0 i) := lits ! reg1 i, reg (i_arg2 i) := lits ! reg (i_arg3 i))) w
      | _ \<Rightarrow> rest)"

definition exec_move :: "sq_instr \<Rightarrow> regs \<Rightarrow> 'w \<Rightarrow> (regs \<Rightarrow> 'w \<Rightarrow> 'w vm_next) \<Rightarrow> 'w vm_next \<Rightarrow> 'w vm_next" where
  "exec_move i R w cont rest =
     (let R' = R(reg (i_arg0 i) := R (reg1 i)) in
      case i_op i of
        OPC_MOVE \<Rightarrow> cont R' w
      | OPC_DMOVE \<Rightarrow> cont (R'(reg (i_arg2 i) := R' (reg (i_arg3 i)))) w
      | OPC_LOADNULLS \<Rightarrow> cont (set_nulls (reg (i_arg0 i)) (max 1 (nat (sarg1 i))) R) w
      | OPC_LOADBOOL \<Rightarrow> cont (R(reg (i_arg0 i) := SQBool (i_arg1 i \<noteq> 0))) w
      | _ \<Rightarrow> rest)"

definition exec_operator ::
  "'w vm_ops \<Rightarrow> sq_obj list \<Rightarrow> sq_instr \<Rightarrow> regs \<Rightarrow> 'w \<Rightarrow> (regs \<Rightarrow> 'w \<Rightarrow> 'w vm_next) \<Rightarrow> 'w vm_next \<Rightarrow> 'w vm_next" where
  "exec_operator ops lits i R w cont rest =
     (let target = (\<lambda>v w. cont (R(reg (i_arg0 i) := v)) w);
          A1 = R (reg1 i); A2 = R (reg (i_arg2 i)); mm = vo_meta ops w
      in case i_op i of
           OPC_EQ \<Rightarrow> target (SQBool (IsEqual A2 (cond_literal lits i R))) w
         | OPC_NE \<Rightarrow> target (SQBool (\<not> IsEqual A2 (cond_literal lits i R))) w
         | OPC_ADD \<Rightarrow> finish ops (arith_fast mm CHR ''+'' A2 A1) target w
         | OPC_ADDI \<Rightarrow> finish ops (arith_fast mm CHR ''+'' A2 (load_int i)) target w
         | OPC_SUB \<Rightarrow> finish ops (arith_fast mm CHR ''-'' A2 A1) target w
         | OPC_MUL \<Rightarrow> finish ops (arith_fast mm CHR ''*'' A2 A1) target w
         | OPC_DIV \<Rightarrow> finish ops (arith_nozero mm A2 A1) target w
         | OPC_MOD \<Rightarrow> finish ops (ARITH_OP mm CHR ''%'' A2 A1) target w
         | OPC_BITW \<Rightarrow> finish ops (BW_OP (i_arg3 i) A2 A1) target w
         | _ \<Rightarrow> rest)"

definition exec_jump ::
  "'w vm_ops \<Rightarrow> sq_obj list \<Rightarrow> sq_instr \<Rightarrow> regs \<Rightarrow> 'w \<Rightarrow> (regs \<Rightarrow> 'w \<Rightarrow> 'w vm_next) \<Rightarrow> (regs \<Rightarrow> 'w \<Rightarrow> 'w vm_next) \<Rightarrow>
   'w vm_next \<Rightarrow> 'w vm_next" where
  "exec_jump ops lits i R w cont jump rest =
     (let A0 = R (reg (i_arg0 i)); A2 = R (reg (i_arg2 i)); h = vo_heap ops w; mm = vo_meta ops w;
          jump_if = (\<lambda>b w. if b then jump R w else cont R w);
          decide = (\<lambda>r. finish_cmp ops (cmp_res (jcmp_op i)) r (\<lambda>r. jump_if (jcmp_taken i r)) w)
      in case i_op i of
           OPC_JMP \<Rightarrow> jump R w
         | OPC_JCMP \<Rightarrow> decide (ObjCmp h mm A2 A0)
         | OPC_JCMPK \<Rightarrow> decide (ObjCmp h mm A2 (lits ! reg (i_arg0 i)))
         | OPC_JCMPI \<Rightarrow> decide (ObjCmpI A2 (scast (i_arg1 i)))
         | OPC_JCMPF \<Rightarrow> decide (ObjCmpF A2 (i_arg1 i))
         | OPC_JZ \<Rightarrow> jump_if ((if IsFalse A0 then 1 else 0) \<noteq> i_arg2 i) w
         | _ \<Rightarrow> rest)"

definition exec_inc :: "'w vm_ops \<Rightarrow> sq_instr \<Rightarrow> regs \<Rightarrow> 'w \<Rightarrow> (regs \<Rightarrow> 'w \<Rightarrow> 'w vm_next) \<Rightarrow> 'w vm_next \<Rightarrow> 'w vm_next" where
  "exec_inc ops i R w cont rest =
     (let A1 = R (reg1 i); mm = vo_meta ops w; n = SQInteger (word_of_int (sarg3 i)) in
      case i_op i of
        OPC_INCL \<Rightarrow> finish ops (arith_fast mm CHR ''+'' A1 n) (\<lambda>v. cont (R(reg1 i := v))) w
      | OPC_PINCL \<Rightarrow> finish ops (ARITH_OP mm CHR ''+'' A1 n) (\<lambda>v. cont (R(reg (i_arg0 i) := A1, reg1 i := v))) w
      | OPC_CMP \<Rightarrow>
          finish_cmp ops (cmp_obj (i_arg3 i)) (ObjCmp (vo_heap ops w) mm (R (reg (i_arg2 i))) A1)
            (\<lambda>v. cont (R(reg (i_arg0 i) := v))) w
      | _ \<Rightarrow> rest)"

definition exec_logic ::
  "'w vm_ops \<Rightarrow> sq_instr \<Rightarrow> regs \<Rightarrow> 'w \<Rightarrow> (regs \<Rightarrow> 'w \<Rightarrow> 'w vm_next) \<Rightarrow> (regs \<Rightarrow> 'w \<Rightarrow> 'w vm_next) \<Rightarrow> 'w vm_next \<Rightarrow> 'w vm_next" where
  "exec_logic ops i R w cont jump rest =
     (let A1 = R (reg1 i); A2 = R (reg (i_arg2 i)); target = (\<lambda>v w. cont (R(reg (i_arg0 i) := v)) w);
          jump_with = (\<lambda>b. if b then jump (R(reg (i_arg0 i) := A2)) w else cont R w)
      in case i_op i of
           OPC_AND \<Rightarrow> jump_with (IsFalse A2)
         | OPC_OR \<Rightarrow> jump_with (\<not> IsFalse A2)
         | OPC_NULLCOALESCE \<Rightarrow> jump_with (A2 \<noteq> SQNull)
         | OPC_NEG \<Rightarrow> finish ops (NEG_OP (vo_meta ops w) A1) target w
         | OPC_NOT \<Rightarrow> target (SQBool (IsFalse A1)) w
         | OPC_BWNOT \<Rightarrow> (case A1 of SQInteger t \<Rightarrow> target (SQInteger (NOT t)) w | v \<Rightarrow> Stop (Raised (ErrBwnot v) w))
         | _ \<Rightarrow> rest)"

text \<open>\<open>OPC_RETURN\<close> ends the call with the value \<open>Return\<close> stores.\<close>

definition Return :: "sq_instr \<Rightarrow> regs \<Rightarrow> sq_obj" where
  "Return i R = (if i_arg0 i \<noteq> 0xFF then R (reg1 i) else SQNull)"

definition exec_other :: "'w vm_ops \<Rightarrow> sq_instr \<Rightarrow> regs \<Rightarrow> 'w \<Rightarrow> (regs \<Rightarrow> 'w \<Rightarrow> 'w vm_next) \<Rightarrow> 'w vm_next" where
  "exec_other ops i R w cont =
     (if unmodelled_op (i_op i) then Unmodelled
      else (case vo_other ops i R w of (Inl x, w) \<Rightarrow> Stop (Raised x w) | (Inr R, w) \<Rightarrow> cont R w))"

text \<open>
  One turn of the loop at \<open>pc\<close>; \<open>dst\<close> is where a jump of the instruction leads. An opcode of no
  block is one of \<open>vo_other\<close>.
\<close>

definition vm_step :: "'w vm_ops \<Rightarrow> sq_obj list \<Rightarrow> sq_instr \<Rightarrow> int \<Rightarrow> int \<Rightarrow> regs \<Rightarrow> 'w \<Rightarrow> 'w vm_next" where
  "vm_step ops lits i dst pc R w =
     (let cont = Goto (pc + 1); jump = Goto dst in
      if i_op i = OPC_RETURN then Stop (Returned (Return i R) w)
      else
        exec_load lits i R w cont
         (exec_move i R w cont
           (exec_operator ops lits i R w cont
             (exec_jump ops lits i R w cont jump
               (exec_inc ops i R w cont
                 (exec_logic ops i R w cont jump
                   (exec_other ops i R w cont)))))))"

lemmas exec_defs = exec_load_def exec_move_def exec_operator_def exec_jump_def exec_inc_def exec_logic_def exec_other_def

text \<open>Where the jump of an instruction at \<open>pc\<close> leads.\<close>

definition jump_dest :: "sq_instr \<Rightarrow> int \<Rightarrow> int" where
  "jump_dest i pc = (if i_op i = OPC_JCMPI \<or> i_op i = OPC_JCMPF then pc + 1 + sarg0 i else pc + 1 + sarg1 i)"

subsection \<open>Runs\<close>

fun vm_run :: "nat \<Rightarrow> 'w vm_ops \<Rightarrow> sq_obj list \<Rightarrow> sq_instr list \<Rightarrow> (nat \<Rightarrow> int) \<Rightarrow> int \<Rightarrow> regs \<Rightarrow> 'w \<Rightarrow> 'w vm_outcome option" where
  "vm_run 0 ops lits code dst pc R w = None"
| "vm_run (Suc n) ops lits code dst pc R w =
     (if 0 \<le> pc \<and> nat pc < length code then
        (case vm_step ops lits (code ! nat pc) (dst (nat pc)) pc R w of
           Goto pc R w \<Rightarrow> vm_run n ops lits code dst pc R w
         | Stop r \<Rightarrow> Some r
         | Unmodelled \<Rightarrow> None)
      else None)"

definition vm_execute :: "nat \<Rightarrow> 'w vm_ops \<Rightarrow> sq_obj list \<Rightarrow> sq_instr list \<Rightarrow> regs \<Rightarrow> 'w \<Rightarrow> 'w vm_outcome option" where
  "vm_execute n ops lits code R w = vm_run n ops lits code (\<lambda>k. jump_dest (code ! k) (int k)) 0 R w"

end
