(* ===== verification/Optimizer.thy ===== *)
theory Optimizer
  imports VmCode
begin

text \<open>
  The peephole optimizer of a compiled function (\<^verbatim>\<open>squirrel/compiler/optimizer.cpp\<close>): it folds
  constants in the code, removes empty jumps, retargets jumps to jumps, and keeps the ranges of
  local variables, the line table and the jump offsets in step with the code it cuts out. While a
  pass runs, the offsets in the code are stale and the jump records hold the targets. A failed
  assertion is \<open>None\<close>; a build without assertions goes on with a jump that does not reach its target.
\<close>

datatype jump_arg = JUMP_ARG1 | JUMP_ARG0 | JUMP_ARG_PLUS_23 | JUMP_ARG_MINUS_23

record jump_rec =
  jp_originalIndex :: int
  jp_index :: int
  jp_originalTo :: int
  jp_to :: int
  jp_modified :: bool
  jp_arg :: jump_arg

record local_info =
  lv_start :: u32
  lv_end :: u32
  lv_pos :: u32

text \<open>Of the function state: the instructions, the ended scopes, the line table and the literals.\<close>

record optimizer =
  op_code :: "sq_instr list"
  op_jumps :: "jump_rec list"
  op_locals :: "local_info list"
  op_lines :: "u32 list"
  op_lits :: "sq_obj list"
  op_changed :: bool

subsection \<open>Ranges\<close>

definition isUnsafeJumpRange :: "optimizer \<Rightarrow> nat \<Rightarrow> nat \<Rightarrow> bool" where
  "isUnsafeJumpRange z start count \<longleftrightarrow> (\<exists>j \<in> set (op_jumps z). jp_to j > int start \<and> jp_to j < int (start + count))"

definition isLocalVarInstructions :: "optimizer \<Rightarrow> nat \<Rightarrow> nat \<Rightarrow> bool" where
  "isLocalVarInstructions z start count \<longleftrightarrow>
     (\<exists>v \<in> set (op_locals z). sint (lv_start v) > int start \<and> sint (lv_start v) < int (start + count))"

definition UINT32_MINUS_ONE :: u32 where "UINT32_MINUS_ONE = 0xFFFFFFFF"

definition isLocalVarRegister :: "optimizer \<Rightarrow> nat \<Rightarrow> nat \<Rightarrow> bool" where
  "isLocalVarRegister z r instrIndex \<longleftrightarrow>
     (\<exists>v \<in> set (op_locals z). sint (lv_pos v) = int r \<and> sint (lv_start v) \<le> int instrIndex \<and>
        (lv_end v = UINT32_MINUS_ONE \<or> sint (lv_end v) > int instrIndex))"

definition cut_jump :: "nat \<Rightarrow> nat \<Rightarrow> jump_rec \<Rightarrow> jump_rec" where
  "cut_jump tmpStart tmpCount j =
     (let j = (if jp_to j \<ge> int tmpStart + 1 then j\<lparr>jp_to := jp_to j - int tmpCount, jp_modified := True\<rparr> else j)
      in if jp_index j \<ge> int tmpStart then j\<lparr>jp_index := jp_index j - int tmpCount, jp_modified := True\<rparr> else j)"

definition cut_local :: "nat \<Rightarrow> nat \<Rightarrow> local_info \<Rightarrow> local_info" where
  "cut_local tmpStart tmpCount v =
     (let ts = word_of_nat tmpStart; tc = word_of_nat tmpCount;
          v = (if lv_start v > ts then
                 (let v = (if lv_end v < lv_start v then
                             (let e = lv_start v - tc - 1 in v\<lparr>lv_end := (if e > ts then 0 else e)\<rparr>)
                           else v)
                  in v\<lparr>lv_start := lv_start v - tc\<rparr>)
               else v)
      in if lv_end v \<ge> ts \<and> lv_end v \<noteq> UINT32_MINUS_ONE then
           (let n = sint (lv_end v) - int tmpCount;
                n = (if n < int tmpStart - 1 then int tmpStart - 1 else n);
                n = (if n < 0 then 0 else n)
            in v\<lparr>lv_end := word_of_int n\<rparr>)
         else v)"

definition cut_line :: "nat \<Rightarrow> nat \<Rightarrow> u32 \<Rightarrow> u32" where
  "cut_line tmpStart tmpCount l = (if l > word_of_nat tmpStart then l - word_of_nat tmpCount else l)"

definition cutRange :: "nat \<Rightarrow> nat \<Rightarrow> nat \<Rightarrow> optimizer \<Rightarrow> optimizer" where
  "cutRange start old_count new_count z =
     (let tmpStart = start + new_count; tmpCount = old_count - new_count in
      z\<lparr>op_jumps := map (cut_jump tmpStart tmpCount) (op_jumps z),
        op_code := take tmpStart (op_code z) @ drop (tmpStart + tmpCount) (op_code z),
        op_locals := map (cut_local tmpStart tmpCount) (op_locals z),
        op_lines := map (cut_line tmpStart tmpCount) (op_lines z),
        op_changed := True\<rparr>)"

subsection \<open>Literals\<close>

fun lit_index :: "sq_obj \<Rightarrow> sq_obj list \<Rightarrow> nat option" where
  "lit_index c [] = None"
| "lit_index c (v # vs) = (if v = c then Some 0 else map_option Suc (lit_index c vs))"

text \<open>\<open>GetConstant\<close>: \<open>None\<close> is the answer \<open>-1\<close>. A function does not reach \<open>MAX_LITERALS\<close> literals.\<close>

definition GetConstant :: "sq_obj \<Rightarrow> nat option \<Rightarrow> optimizer \<Rightarrow> nat option \<times> optimizer" where
  "GetConstant c limit z =
     (let fits = (\<lambda>k. case limit of None \<Rightarrow> Some k | Some m \<Rightarrow> if k \<le> m then Some k else None) in
      case lit_index c (op_lits z) of
        Some k \<Rightarrow> (fits k, z)
      | None \<Rightarrow>
          if limit \<noteq> None \<and> length (op_lits z) \<ge> the limit then (None, z)
          else (fits (length (op_lits z)), z\<lparr>op_lits := op_lits z @ [c]\<rparr>))"

definition GetNumericConstant :: "u64 \<Rightarrow> optimizer \<Rightarrow> nat \<times> optimizer" where
  "GetNumericConstant c z = (case GetConstant (SQInteger c) None z of (k, z) \<Rightarrow> (the k, z))"

subsection \<open>Folding a binary operator\<close>

text \<open>The results in 64 bits; \<open>None\<close> where \<open>applyOpt\<close> is cleared.\<close>

definition fold_int :: "sq_opcode \<Rightarrow> u8 \<Rightarrow> u32 \<Rightarrow> u32 \<Rightarrow> u64 option" where
  "fold_int s bop lv rv =
     (let l = scast lv :: u64; r = scast rv :: u64; safe = (sint rv < - 1 \<or> sint rv > 0) in
      case s of
        OPC_ADD \<Rightarrow> Some (l + r)
      | OPC_SUB \<Rightarrow> Some (l - r)
      | OPC_MUL \<Rightarrow> Some (l * r)
      | OPC_DIV \<Rightarrow> if safe then Some (sdiv64 l r) else None
      | OPC_MOD \<Rightarrow> if safe then Some (smod64 l r) else None
      | OPC_BITW \<Rightarrow>
          if bop = BW_AND then Some (scast (lv AND rv))
          else if bop = BW_OR then Some (scast (lv OR rv))
          else if bop = BW_XOR then Some (scast (lv XOR rv))
          else if bop = BW_SHIFTL then Some (sq_safe_shift_left l r)
          else None
      | _ \<Rightarrow> None)"

definition fold_float :: "sq_opcode \<Rightarrow> u32 \<Rightarrow> u32 \<Rightarrow> u32 option" where
  "fold_float s lv rv =
     (case s of
        OPC_ADD \<Rightarrow> Some (flt_add lv rv)
      | OPC_SUB \<Rightarrow> Some (flt_sub lv rv)
      | OPC_MUL \<Rightarrow> Some (flt_mul lv rv)
      | OPC_DIV \<Rightarrow> if \<not> flt_eq rv 0 then Some (flt_div lv rv) else None
      | _ \<Rightarrow> None)"

definition foldable :: "sq_opcode \<Rightarrow> bool" where
  "foldable s \<longleftrightarrow> s = OPC_ADD \<or> s = OPC_SUB \<or> s = OPC_MUL \<or> s = OPC_DIV \<or> s = OPC_MOD \<or> s = OPC_BITW"

definition num_load :: "sq_instr \<Rightarrow> bool" where
  "num_load i \<longleftrightarrow> i_op i = OPC_LOADINT \<or> i_op i = OPC_LOADFLOAT"

definition set_instr :: "nat \<Rightarrow> (sq_instr \<Rightarrow> sq_instr) \<Rightarrow> optimizer \<Rightarrow> optimizer" where
  "set_instr k f z = z\<lparr>op_code := (op_code z)[k := f (op_code z ! k)]\<rparr>"

text \<open>The instruction that loads the result of a folding.\<close>

definition store_int :: "nat \<Rightarrow> u8 \<Rightarrow> u64 \<Rightarrow> optimizer \<Rightarrow> optimizer" where
  "store_int k dst res z =
     (if sint res < - (2 ^ 31) \<or> sint res > 2 ^ 31 - 1 then
        (case GetNumericConstant res z of
           (c, z) \<Rightarrow> set_instr k (\<lambda>i. i\<lparr>i_arg0 := dst, i_op := OPC_LOAD, i_arg1 := word_of_nat c\<rparr>) z)
      else set_instr k (\<lambda>i. i\<lparr>i_arg0 := dst, i_op := OPC_LOADINT, i_arg1 := ucast res\<rparr>) z)\<lparr>op_changed := True\<rparr>"

definition store_float :: "nat \<Rightarrow> u8 \<Rightarrow> u32 \<Rightarrow> optimizer \<Rightarrow> optimizer" where
  "store_float k dst res z =
     (set_instr k (\<lambda>i. i\<lparr>i_op := OPC_LOADFLOAT, i_arg1 := res, i_arg0 := dst\<rparr>) z)\<lparr>op_changed := True\<rparr>"

definition load_float :: "sq_instr \<Rightarrow> u32" where
  "load_float i = (if i_op i = OPC_LOADFLOAT then i_arg1 i else flt_of_int (sint (i_arg1 i)))"

definition fold3_matches :: "optimizer \<Rightarrow> nat \<Rightarrow> bool" where
  "fold3_matches z i \<longleftrightarrow>
     (let a = op_code z ! i; b = op_code z ! (i + 1); p = op_code z ! (i + 2) in
      foldable (i_op p) \<and> num_load a \<and> num_load b \<and> i_arg0 a \<noteq> i_arg0 b \<and>
      (i_arg0 b = i_arg2 p \<and> reg (i_arg0 a) = reg1 p \<or> reg (i_arg0 b) = reg1 p \<and> i_arg0 a = i_arg2 p) \<and>
      \<not> isUnsafeJumpRange z i 3)"

text \<open>Which of the two loads can go. The first one goes only together with the second one.\<close>

definition fold3_removes :: "optimizer \<Rightarrow> nat \<Rightarrow> bool \<times> bool" where
  "fold3_removes z i =
     (let a = op_code z ! i; b = op_code z ! (i + 1);
          (ra, rb) = (if \<not> isLocalVarInstructions z i 3 then (True, True)
                      else if \<not> isLocalVarInstructions z i 2 then (True, False)
                      else if \<not> isLocalVarInstructions z (i + 1) 2 then (False, True)
                      else (False, False));
          ra = (ra \<and> \<not> isLocalVarRegister z (reg (i_arg0 a)) i);
          rb = (rb \<and> \<not> isLocalVarRegister z (reg (i_arg0 b)) (i + 1));
          ra = (ra \<and> rb)
      in (ra, rb))"

definition fold3_result :: "optimizer \<Rightarrow> nat \<Rightarrow> nat \<Rightarrow> optimizer option" where
  "fold3_result z i k =
     (let a = op_code z ! i; b = op_code z ! (i + 1); p = op_code z ! (i + 2);
          reversed = (i_arg0 b = i_arg2 p \<and> reg (i_arg0 a) = reg1 p);
          (x, y) = (if reversed then (b, a) else (a, b))
      in if i_op a = OPC_LOADINT \<and> i_op b = OPC_LOADINT then
           map_option (\<lambda>res. store_int k (i_arg0 p) res z) (fold_int (i_op p) (i_arg3 p) (i_arg1 x) (i_arg1 y))
         else map_option (\<lambda>res. store_float k (i_arg0 p) res z) (fold_float (i_op p) (load_float x) (load_float y)))"

definition fold3 :: "optimizer \<Rightarrow> nat \<Rightarrow> optimizer option" where
  "fold3 z i =
     (if i + 3 < length (op_code z) \<and> fold3_matches z i then
        (let (ra, rb) = fold3_removes z i; k = (if ra then i else if rb then i + 1 else i + 2) in
         map_option (\<lambda>z. if ra then cutRange i 3 1 z else if rb then cutRange (i + 1) 2 1 z else z) (fold3_result z i k))
      else None)"

subsection \<open>Folding a load into the next instruction\<close>

definition fold2_removes :: "optimizer \<Rightarrow> nat \<Rightarrow> bool" where
  "fold2_removes z i \<longleftrightarrow>
     \<not> isLocalVarInstructions z i 2 \<and> \<not> isLocalVarRegister z (reg (i_arg0 (op_code z ! i))) i"

definition addi_result :: "optimizer \<Rightarrow> nat \<Rightarrow> nat \<Rightarrow> optimizer" where
  "addi_result z i k =
     (let a = op_code z ! i; p = op_code z ! (i + 1) in
      if i_op a = OPC_LOADINT then store_int k (i_arg0 p) (scast (i_arg1 a) + scast (i_arg1 p)) z
      else store_float k (i_arg0 p) (flt_add (i_arg1 a) (flt_of_int (sint (i_arg1 p)))) z)"

definition fold_addi :: "optimizer \<Rightarrow> nat \<Rightarrow> optimizer option" where
  "fold_addi z i =
     (let a = op_code z ! i; p = op_code z ! (i + 1); ra = fold2_removes z i in
      if i_op p = OPC_ADDI \<and> num_load a \<and> i_arg0 a = i_arg2 p \<and> \<not> isUnsafeJumpRange z i 2 then
        Some (if ra then cutRange i 2 1 (addi_result z i i) else addi_result z i (i + 1))
      else None)"

fun retag_jump :: "nat \<Rightarrow> jump_rec list \<Rightarrow> jump_rec list" where
  "retag_jump k [] = []"
| "retag_jump k (j # js) = (if jp_index j = int k then j\<lparr>jp_arg := JUMP_ARG0\<rparr> # js else j # retag_jump k js)"

definition jcmp_matches :: "optimizer \<Rightarrow> nat \<Rightarrow> bool" where
  "jcmp_matches z i \<longleftrightarrow>
     (let a = op_code z ! i; p = op_code z ! (i + 1) in
      i_op p = OPC_JCMP \<and> (num_load a \<or> i_op a = OPC_LOAD) \<and> i_arg0 a = i_arg0 p \<and> i_arg0 a \<noteq> i_arg2 p \<and>
      (sarg1 a \<le> 255 \<or> i_op a \<noteq> OPC_LOAD \<and> sarg1 p \<ge> - 128 \<and> sarg1 p \<le> 127) \<and>
      \<not> isUnsafeJumpRange z i 2)"

definition jcmp_constant :: "sq_instr \<Rightarrow> sq_obj" where
  "jcmp_constant a = (if i_op a = OPC_LOADFLOAT then SQFloat (i_arg1 a) else load_int a)"

text \<open>The fused compare-and-jump and whether its offset moves to \<open>arg0\<close>.\<close>

definition jcmp_fused :: "optimizer \<Rightarrow> nat \<Rightarrow> nat \<Rightarrow> (bool \<times> optimizer) option" where
  "jcmp_fused z i k =
     (let a = op_code z ! i; p = op_code z ! (i + 1);
          fused = (\<lambda>c. set_instr k (\<lambda>x. x\<lparr>i_arg1 := i_arg1 p, i_arg2 := i_arg2 p, i_arg3 := i_arg3 p, i_arg0 := c, i_op := OPC_JCMPK\<rparr>))
      in if i_op a = OPC_LOAD then Some (False, fused (ucast (i_arg1 a)) z)
         else if sarg1 p < - 128 \<or> sarg1 p > 127 then
           (case GetConstant (jcmp_constant a) (Some 255) z of
              (Some c, z) \<Rightarrow> Some (False, fused (word_of_nat c) z)
            | (None, z) \<Rightarrow> None)
         else
           Some (True, set_instr k (\<lambda>x. x\<lparr>i_arg3 := i_arg3 p, i_arg1 := i_arg1 a, i_arg2 := i_arg2 p, i_arg0 := ucast (i_arg1 p),
                          i_op := (if i_op a = OPC_LOADINT then OPC_JCMPI else OPC_JCMPF)\<rparr>) z))"

definition fold_jcmp :: "optimizer \<Rightarrow> nat \<Rightarrow> optimizer option" where
  "fold_jcmp z i =
     (let ra = fold2_removes z i; k = (if ra then i else i + 1) in
      if jcmp_matches z i then
        map_option (\<lambda>(convert, z).
            (let z = (if ra then cutRange i 2 1 z else z);
                 z = (if convert then z\<lparr>op_jumps := retag_jump k (op_jumps z)\<rparr> else z)
             in z\<lparr>op_changed := True\<rparr>))
          (jcmp_fused z i k)
      else None)"

definition fold2 :: "optimizer \<Rightarrow> nat \<Rightarrow> optimizer option" where
  "fold2 z i =
     (if i + 2 < length (op_code z) then
        (if i_op (op_code z ! (i + 1)) = OPC_ADDI then fold_addi z i else fold_jcmp z i)
      else None)"

subsection \<open>The constant folding loop\<close>

text \<open>One turn of the inner loop at \<open>i\<close>, with its flag \<open>changed\<close>.\<close>

definition fold_turn :: "optimizer \<Rightarrow> nat \<Rightarrow> bool \<times> optimizer" where
  "fold_turn z i =
     (let (c1, z) = (case fold3 z i of None \<Rightarrow> (False, z) | Some z \<Rightarrow> (True, z));
          (c2, z) = (case fold2 z i of None \<Rightarrow> (False, z) | Some z \<Rightarrow> (True, z))
      in (c1 \<or> c2, z))"

text \<open>Every folding consumes an instruction that can be folded.\<close>

definition consumable :: "sq_instr \<Rightarrow> bool" where
  "consumable i \<longleftrightarrow> foldable (i_op i) \<or> i_op i = OPC_ADDI \<or> i_op i = OPC_JCMP"

definition fold_weight :: "optimizer \<Rightarrow> nat" where
  "fold_weight z = length (filter consumable (op_code z))"

lemma filter_update_less:
  "k < length xs \<Longrightarrow> P (xs ! k) \<Longrightarrow> \<not> P y \<Longrightarrow> length (filter P (xs[k := y])) < length (filter P xs)"
  by (induction xs arbitrary: k) (auto split: nat.splits)

lemma filter_update_le: "k < length xs \<Longrightarrow> \<not> P y \<Longrightarrow> length (filter P (xs[k := y])) \<le> length (filter P xs)"
  by (induction xs arbitrary: k) (auto split: nat.splits)

lemma filter_cut: "length (filter P (take a xs @ drop b xs)) \<le> length (filter P xs)" if "a \<le> b"
proof -
  have "length (filter P xs) = length (filter P (take a xs)) + length (filter P (drop a xs))"
    by (metis append_take_drop_id filter_append length_append)
  moreover have "drop a xs = take (b - a) (drop a xs) @ drop b xs"
    using that by (metis append_take_drop_id drop_drop le_add_diff_inverse2)
  then have "length (filter P (drop a xs)) \<ge> length (filter P (drop b xs))"
    by (metis filter_append le_add2 length_append)
  ultimately show ?thesis by simp
qed

text \<open>The code after storing a result and after a cut.\<close>

lemma op_code_set_instr [simp]: "op_code (set_instr k f z) = (op_code z)[k := f (op_code z ! k)]"
  by (simp add: set_instr_def)

lemma GetConstant_code: "GetConstant c l z = (r, z') \<Longrightarrow> op_code z' = op_code z \<and> op_jumps z' = op_jumps z \<and> op_locals z' = op_locals z"
  by (auto simp: GetConstant_def Let_def split: option.splits if_splits)

lemma GetNumericConstant_code: "GetNumericConstant c z = (r, z') \<Longrightarrow> op_code z' = op_code z \<and> op_jumps z' = op_jumps z \<and> op_locals z' = op_locals z"
  by (auto simp: GetNumericConstant_def dest: GetConstant_code split: prod.splits)

lemma consumable_cases [simp]:
  "\<not> consumable (x\<lparr>i_arg0 := a, i_op := OPC_LOAD, i_arg1 := b\<rparr>)" "\<not> consumable (x\<lparr>i_arg0 := a, i_op := OPC_LOADINT, i_arg1 := b\<rparr>)"
  "\<not> consumable (x\<lparr>i_op := OPC_LOADFLOAT, i_arg1 := b, i_arg0 := a\<rparr>)"
  "\<not> consumable (x\<lparr>i_arg1 := b, i_arg2 := c, i_arg3 := d, i_arg0 := a, i_op := OPC_JCMPK\<rparr>)"
  "\<not> consumable (x\<lparr>i_arg3 := d, i_arg1 := b, i_arg2 := c, i_arg0 := a, i_op := OPC_JCMPI\<rparr>)"
  "\<not> consumable (x\<lparr>i_arg3 := d, i_arg1 := b, i_arg2 := c, i_arg0 := a, i_op := OPC_JCMPF\<rparr>)"
  by (simp_all add: consumable_def foldable_def)

lemma store_int_code:
  "\<exists>x. op_code (store_int k d res z) = (op_code z)[k := x] \<and> \<not> consumable x"
proof -
  obtain c z' where c: "GetNumericConstant res z = (c, z')" by fastforce
  with GetNumericConstant_code have "op_code z' = op_code z" by blast
  then show ?thesis using c by (cases "sint res < - (2 ^ 31) \<or> sint res > 2 ^ 31 - 1") (auto simp: store_int_def)
qed

lemma store_float_code:
  "\<exists>x. op_code (store_float k d res z) = (op_code z)[k := x] \<and> \<not> consumable x"
  by (auto simp: store_float_def)

lemma op_code_cutRange: "op_code (cutRange s old new z) = take (s + new) (op_code z) @ drop (s + new + (old - new)) (op_code z)"
  by (simp add: cutRange_def Let_def)

lemma fold3_result_code:
  "fold3_result z i k = Some z' \<Longrightarrow> \<exists>x. op_code z' = (op_code z)[k := x] \<and> \<not> consumable x"
  by (auto simp: fold3_result_def Let_def split: prod.splits if_splits intro: store_int_code store_float_code)

lemma addi_result_code: "\<exists>x. op_code (addi_result z i k) = (op_code z)[k := x] \<and> \<not> consumable x"
  by (simp add: addi_result_def Let_def store_int_code store_float_code)

lemma jcmp_fused_code:
  "jcmp_fused z i k = Some (c, z') \<Longrightarrow> \<exists>x. op_code z' = (op_code z)[k := x] \<and> \<not> consumable x"
proof -
  assume r: "jcmp_fused z i k = Some (c, z')"
  obtain m w where m: "GetConstant (jcmp_constant (op_code z ! i)) (Some 255) z = (m, w)" by fastforce
  with GetConstant_code have "op_code w = op_code z" by blast
  then show ?thesis using r m by (cases m) (auto simp: jcmp_fused_def Let_def split: if_splits)
qed

lemma drop_update_weight:
  assumes "i + m < length xs" "P (xs ! (i + m))" "\<not> P y" "k \<le> i + m"
  shows "length (filter P (take (Suc k) (xs[k := y]) @ drop (Suc (i + m)) (xs[k := y]))) < length (filter P xs)"
proof -
  have k: "k < length xs" using assms(1,4) by simp
  have "take (Suc k) (xs[k := y]) = take k xs @ [y]" using k by (simp add: take_Suc_conv_app_nth)
  moreover have "drop (Suc (i + m)) (xs[k := y]) = drop (Suc (i + m)) xs" using assms(4) by simp
  ultimately have "length (filter P (take (Suc k) (xs[k := y]) @ drop (Suc (i + m)) (xs[k := y]))) =
      length (filter P (take k xs @ drop (Suc (i + m)) xs))"
    using assms(3) by simp
  also have "\<dots> \<le> length (filter P (take (i + m) xs @ drop (Suc (i + m)) xs))"
    using filter_cut [of k "i + m" P "take (i + m) xs"] assms(4) by (simp add: min_absorb1)
  also have "\<dots> < length (filter P (take (i + m) xs @ xs ! (i + m) # drop (Suc (i + m)) xs))" using assms(2) by simp
  also have "take (i + m) xs @ xs ! (i + m) # drop (Suc (i + m)) xs = xs" using assms(1) by (rule id_take_nth_drop [symmetric])
  finally show ?thesis .
qed

end
