(* ===== verification/OptLoops.thy ===== *)
theory OptLoops
  imports Optimizer
begin

text \<open>
  The loops of the optimizer (\<^verbatim>\<open>squirrel/compiler/optimizer.cpp\<close>): constant folding, removal
  of empty jumps, the jump records before and the offsets after them, jump folding, and the passes
  of \<open>optimize\<close>. Where an assertion fails or an instruction behind the code is read, the answer is
  \<open>None\<close>.
\<close>

subsection \<open>Constant folding ends\<close>

lemma fold_weight_cut:
  assumes "i + m < length (op_code z)" "consumable (op_code z ! (i + m))" "\<not> consumable x"
    "op_code z' = (op_code z)[k := x]" "k \<le> i + m" "0 < m"
  shows "fold_weight (cutRange k (Suc (i + m) - k) 1 z') < fold_weight z"
proof -
  have "k + 1 + (Suc (i + m) - k - 1) = Suc (i + m)" using assms(5) by simp
  then show ?thesis
    using drop_update_weight [of i m "op_code z" consumable x k] assms
    by (simp add: fold_weight_def op_code_cutRange)
qed

lemma fold3_weight: "fold3 z i = Some z' \<Longrightarrow> fold_weight z' < fold_weight z \<and> length (op_code z') \<le> length (op_code z)"
proof -
  assume f: "fold3 z i = Some z'"
  obtain ra rb where r: "fold3_removes z i = (ra, rb)" by fastforce
  define k where "k = (if ra then i else if rb then i + 1 else i + 2)"
  from f have len: "i + 3 < length (op_code z)" and m: "fold3_matches z i" by (auto simp: fold3_def split: if_splits)
  from f len m r obtain z1 where z1: "fold3_result z i k = Some z1"
    and z': "z' = (if ra then cutRange i 3 1 z1 else if rb then cutRange (i + 1) 2 1 z1 else z1)"
    by (auto simp: fold3_def k_def)
  obtain x where x: "op_code z1 = (op_code z)[k := x]" "\<not> consumable x" using fold3_result_code [OF z1] by blast
  have c: "consumable (op_code z ! (i + 2))" using m by (simp add: fold3_matches_def Let_def consumable_def)
  have w: "fold_weight (cutRange k (Suc (i + 2) - k) 1 z1) < fold_weight z"
    if "k \<le> i + 2" using fold_weight_cut [OF _ c x(2,1) that] len by simp
  show ?thesis
  proof (cases "ra \<or> rb")
    case True
    then show ?thesis using w len x(1) by (auto simp: z' k_def op_code_cutRange eval_nat_numeral)
  next
    case False
    then show ?thesis using filter_update_less [of "i + 2" "op_code z" consumable x] c x len
      by (simp add: z' k_def fold_weight_def)
  qed
qed

lemma fold_weight_jumps [simp]: "fold_weight (z\<lparr>op_jumps := j\<rparr>) = fold_weight z" "fold_weight (z\<lparr>op_changed := b\<rparr>) = fold_weight z"
  by (simp_all add: fold_weight_def)

lemma fold2_cut_weight:
  assumes "i + 2 < length (op_code z)" "consumable (op_code z ! (i + 1))" "\<not> consumable x"
    "op_code z1 = (op_code z)[if ra then i else i + 1 := x]"
  shows "fold_weight (if ra then cutRange i 2 1 z1 else z1) < fold_weight z \<and>
    length (op_code (if ra then cutRange i 2 1 z1 else z1)) \<le> length (op_code z)"
proof (cases ra)
  case True
  then show ?thesis using fold_weight_cut [of i 1 z x z1 i] assms by (simp add: op_code_cutRange numeral_2_eq_2)
next
  case False
  then show ?thesis using filter_update_less [of "i + 1" "op_code z" consumable x] assms by (simp add: fold_weight_def)
qed

lemma fold2_weight: "fold2 z i = Some z' \<Longrightarrow> fold_weight z' < fold_weight z \<and> length (op_code z') \<le> length (op_code z)"
proof -
  assume f: "fold2 z i = Some z'"
  then have len: "i + 2 < length (op_code z)" by (auto simp: fold2_def split: if_splits)
  define ra where "ra = fold2_removes z i"
  define k where "k = (if ra then i else i + 1)"
  show ?thesis
  proof (cases "i_op (op_code z ! (i + 1)) = OPC_ADDI")
    case True
    then have c: "consumable (op_code z ! (i + 1))" by (simp add: consumable_def)
    have "fold_addi z i = Some z'" using f True len by (simp add: fold2_def)
    then have z': "z' = (if ra then cutRange i 2 1 (addi_result z i k) else addi_result z i k)"
      by (simp add: fold_addi_def Let_def ra_def k_def split: if_splits)
    obtain x where "op_code (addi_result z i k) = (op_code z)[k := x]" "\<not> consumable x" using addi_result_code by blast
    then show ?thesis using fold2_cut_weight [OF len c, of x "addi_result z i k" ra] by (simp add: k_def z')
  next
    case False
    then have f: "fold_jcmp z i = Some z'" using f len by (simp add: fold2_def)
    then have "jcmp_matches z i" by (auto simp: fold_jcmp_def Let_def split: if_splits)
    then have c: "consumable (op_code z ! (i + 1))" by (simp add: consumable_def jcmp_matches_def Let_def)
    from f obtain b z1 where z1: "jcmp_fused z i k = Some (b, z1)"
      and z': "fold_weight z' = fold_weight (if ra then cutRange i 2 1 z1 else z1)"
        "length (op_code z') = length (op_code (if ra then cutRange i 2 1 z1 else z1))"
      by (auto simp: fold_jcmp_def Let_def ra_def [symmetric] k_def [symmetric] split: if_splits)
    obtain x where x: "op_code z1 = (op_code z)[k := x]" "\<not> consumable x" using jcmp_fused_code [OF z1] by blast
    show ?thesis using fold2_cut_weight [OF len c x(2), of z1 ra] x(1) z' by (simp add: k_def)
  qed
qed

lemma fold_turn_weight:
  "fold_turn z i = (c, z') \<Longrightarrow> (c \<longrightarrow> fold_weight z' < fold_weight z) \<and> (\<not> c \<longrightarrow> z' = z) \<and> length (op_code z') \<le> length (op_code z)"
  by (auto simp: fold_turn_def split: option.splits prod.splits dest!: fold3_weight fold2_weight)

text \<open>The inner loop at \<open>i\<close> and the loop of \<open>optimizeConstFolding\<close>.\<close>

function fold_at :: "optimizer \<Rightarrow> nat \<Rightarrow> optimizer" where
  "fold_at z i =
     (let (changed, z') = fold_turn z i in
      if changed \<and> i + 2 < length (op_code z') then fold_at z' i else z')"
  by auto
termination by (relation "measure (\<lambda>(z, i). fold_weight z)") (auto dest!: fold_turn_weight [OF sym])

declare fold_at.simps [simp del]

lemma fold_at_length: "length (op_code (fold_at z i)) \<le> length (op_code z)"
proof (induction z i rule: fold_at.induct)
  case (1 z i)
  obtain c z' where t: "fold_turn z i = (c, z')" by fastforce
  then have l: "length (op_code z') \<le> length (op_code z)" using fold_turn_weight by blast
  show ?case
  proof (cases "c \<and> i + 2 < length (op_code z')")
    case True
    then have "fold_at z i = fold_at z' i" using t by (subst fold_at.simps) simp
    then show ?thesis using 1 [OF t [symmetric] refl True] l by simp
  next
    case False
    then have "fold_at z i = z'" using t by (subst fold_at.simps) auto
    then show ?thesis using l by simp
  qed
qed

function const_folding_from :: "optimizer \<Rightarrow> nat \<Rightarrow> optimizer" where
  "const_folding_from z i = (if i + 2 < length (op_code z) then const_folding_from (fold_at z i) (i + 1) else z)"
  by auto
termination
  by (relation "measure (\<lambda>(z, i). length (op_code z) - i)")
    (auto intro!: diff_less_mono2 le_less_trans [OF diff_le_mono [OF fold_at_length]])

declare const_folding_from.simps [simp del]

definition optimizeConstFolding :: "optimizer \<Rightarrow> optimizer" where
  "optimizeConstFolding z = const_folding_from z 0"

subsection \<open>Empty jumps\<close>

definition is_empty_jump :: "sq_instr \<Rightarrow> bool" where
  "is_empty_jump i \<longleftrightarrow> i_op i = OPC_JMP \<and> i_arg1 i = 0"

text \<open>The loop goes down to the second instruction.\<close>

fun empty_jumps_from :: "nat \<Rightarrow> optimizer \<Rightarrow> optimizer" where
  "empty_jumps_from 0 z = z"
| "empty_jumps_from (Suc i) z =
     empty_jumps_from i (if is_empty_jump (op_code z ! Suc i) then cutRange (Suc i) 1 0 z else z)"

definition optimizeEmptyJumps :: "optimizer \<Rightarrow> optimizer" where
  "optimizeEmptyJumps z = (if op_code z = [] then z else empty_jumps_from (length (op_code z) - 1) z)"

subsection \<open>The jump records\<close>

definition arg23 :: "sq_instr \<Rightarrow> int" where "arg23 i = uint (i_arg2 i) * 256 + uint (i_arg3 i)"

definition new_jump :: "nat \<Rightarrow> int \<Rightarrow> jump_arg \<Rightarrow> jump_rec" where
  "new_jump i to a = \<lparr>jp_originalIndex = int i, jp_index = int i, jp_originalTo = to, jp_to = to, jp_modified = False, jp_arg = a\<rparr>"

definition arg1_jump :: "sq_opcode \<Rightarrow> bool" where
  "arg1_jump p \<longleftrightarrow> p = OPC_JMP \<or> p = OPC_JCMP \<or> p = OPC_JCMPK \<or> p = OPC_JZ \<or> p = OPC_AND \<or> p = OPC_OR \<or>
     p = OPC_PUSHTRAP \<or> p = OPC_FOREACH \<or> p = OPC_PREFOREACH \<or> p = OPC_POSTFOREACH"

definition arg0_jump :: "sq_opcode \<Rightarrow> bool" where "arg0_jump p \<longleftrightarrow> p = OPC_JCMPI \<or> p = OPC_JCMPF"

definition nop_jump :: "sq_instr list \<Rightarrow> nat \<Rightarrow> jump_rec list" where
  "nop_jump code i =
     (let x = code ! i; save = int i + arg23 x in
      if (i_arg0 x \<noteq> 0 \<or> i_arg1 x \<noteq> 0 \<or> i_arg2 x \<noteq> 0 \<or> i_arg3 x \<noteq> 0) \<and> save > 0 \<and> save < int (length code) \<and>
         i_op (code ! nat save) = OPC_SAVE_STATIC_MEMO \<and> save + 1 - arg23 (code ! nat save) = int i
      then [new_jump i (save + 1) JUMP_ARG_PLUS_23]
      else [])"

definition collect_jump :: "sq_instr list \<Rightarrow> nat \<Rightarrow> jump_rec list" where
  "collect_jump code i =
     (let x = code ! i in
      if arg1_jump (i_op x) then [new_jump i (int i + sarg1 x + 1) JUMP_ARG1]
      else if arg0_jump (i_op x) then [new_jump i (int i + sarg0 x + 1) JUMP_ARG0]
      else if i_op x = OPC_NULLCOALESCE then [new_jump i (int i + sarg1 x) JUMP_ARG1]
      else if i_op x = OPC_DATA_NOP then nop_jump code i
      else if i_op x = OPC_SAVE_STATIC_MEMO then [new_jump i (int i + 1 - arg23 x) JUMP_ARG_MINUS_23]
      else [])"

definition collect_jumps :: "sq_instr list \<Rightarrow> jump_rec list" where
  "collect_jumps code = concat (map (collect_jump code) [0..<length code])"

subsection \<open>The offsets\<close>

definition set_arg23 :: "int \<Rightarrow> sq_instr \<Rightarrow> sq_instr" where
  "set_arg23 j x = x\<lparr>i_arg2 := word_of_int (j div 256), i_arg3 := word_of_int (j mod 256)\<rparr>"

definition fix_arg23 :: "nat \<Rightarrow> int \<Rightarrow> optimizer \<Rightarrow> optimizer option" where
  "fix_arg23 k j z = (if j > 0 \<and> j < 0xFFFF then Some (set_instr k (set_arg23 j) z) else None)"

definition fix_arg0 :: "nat \<Rightarrow> int \<Rightarrow> optimizer \<Rightarrow> optimizer option" where
  "fix_arg0 k change z =
     (let x = op_code z ! k; v = sarg0 x + change in
      if v \<ge> - 128 \<and> v \<le> 127 then Some (set_instr k (\<lambda>x. x\<lparr>i_arg0 := word_of_int v\<rparr>) z)
      else if arg0_jump (i_op x) then
        (case GetConstant (if i_op x = OPC_JCMPF then SQFloat (i_arg1 x) else load_int x) (Some 255) z of
           (Some c, z) \<Rightarrow> Some (set_instr k (\<lambda>x. x\<lparr>i_arg1 := word_of_int v, i_arg0 := word_of_nat c, i_op := OPC_JCMPK\<rparr>) z)
         | (None, z) \<Rightarrow> None)
      else None)"

text \<open>The offset of a record. Every record points into the code.\<close>

definition fix_jump :: "jump_rec \<Rightarrow> optimizer \<Rightarrow> optimizer option" where
  "fix_jump j z =
     (if jp_modified j then
        (let change = (jp_to j - jp_originalTo j) - (jp_index j - jp_originalIndex j); k = nat (jp_index j) in
         case jp_arg j of
           JUMP_ARG1 \<Rightarrow> Some (set_instr k (\<lambda>x. x\<lparr>i_arg1 := i_arg1 x + word_of_int change\<rparr>) z)
         | JUMP_ARG0 \<Rightarrow> fix_arg0 k change z
         | JUMP_ARG_PLUS_23 \<Rightarrow> fix_arg23 k (arg23 (op_code z ! k) + change) z
         | JUMP_ARG_MINUS_23 \<Rightarrow> fix_arg23 k (arg23 (op_code z ! k) - change) z)
      else Some z)"

fun fix_jumps :: "jump_rec list \<Rightarrow> optimizer \<Rightarrow> optimizer option" where
  "fix_jumps [] z = Some z"
| "fix_jumps (j # js) z = (case fix_jump j z of None \<Rightarrow> None | Some z \<Rightarrow> fix_jumps js z)"

subsection \<open>Jumps to jumps\<close>

definition folds_arg1 :: "sq_opcode \<Rightarrow> bool" where
  "folds_arg1 p \<longleftrightarrow> p = OPC_JMP \<or> p = OPC_JCMP \<or> p = OPC_JCMPK \<or> p = OPC_JZ \<or> p = OPC_AND \<or> p = OPC_OR \<or> p = OPC_PUSHTRAP"

text \<open>\<open>None\<close> where the target is not an instruction of the code.\<close>

definition jump_fold_at :: "nat \<Rightarrow> optimizer \<Rightarrow> (bool \<times> optimizer) option" where
  "jump_fold_at i z =
     (let x = op_code z ! i; to = jump_dest x (int i); y = op_code z ! nat to in
      if folds_arg1 (i_op x) \<or> arg0_jump (i_op x) then
        (if to < 0 \<or> to \<ge> int (length (op_code z)) then None
         else if i_op y \<noteq> OPC_JMP then Some (False, z)
         else if folds_arg1 (i_op x) then
           Some (True, (set_instr i (\<lambda>x. x\<lparr>i_arg1 := i_arg1 x + (i_arg1 y + 1)\<rparr>) z)\<lparr>op_changed := True\<rparr>)
         else
           (let ofs = sarg0 x + sarg1 y + 1 in
            if ofs \<ge> - 128 \<and> ofs \<le> 127 then
              Some (True, (set_instr i (\<lambda>x. x\<lparr>i_arg0 := word_of_int ofs\<rparr>) z)\<lparr>op_changed := True\<rparr>)
            else Some (False, z)))
      else Some (False, z))"

fun jump_fold_pass :: "nat list \<Rightarrow> optimizer \<Rightarrow> (bool \<times> optimizer) option" where
  "jump_fold_pass [] z = Some (False, z)"
| "jump_fold_pass (i # is) z =
     (case jump_fold_at i z of
        None \<Rightarrow> None
      | Some (c, z) \<Rightarrow> map_option (\<lambda>(d, z). (c \<or> d, z)) (jump_fold_pass is z))"

fun jump_fold_passes :: "nat \<Rightarrow> optimizer \<Rightarrow> optimizer option" where
  "jump_fold_passes 0 z = Some z"
| "jump_fold_passes (Suc n) z =
     (case jump_fold_pass [0..<length (op_code z)] z of
        None \<Rightarrow> None
      | Some (changed, z) \<Rightarrow> if changed then jump_fold_passes n z else Some z)"

definition optimizeJumpFolding :: "optimizer \<Rightarrow> optimizer option" where
  "optimizeJumpFolding z = jump_fold_passes 4 z"

subsection \<open>The passes\<close>

definition optimize_start :: "optimizer \<Rightarrow> optimizer" where
  "optimize_start z = z\<lparr>op_jumps := collect_jumps (op_code z), op_changed := False\<rparr>"

definition optimize_pass :: "optimizer \<Rightarrow> optimizer option" where
  "optimize_pass z =
     (let z = optimizeEmptyJumps (optimizeConstFolding (optimize_start z)) in
      if op_changed z then fix_jumps (op_jumps z) z else Some z)"

fun optimize_passes :: "nat \<Rightarrow> optimizer \<Rightarrow> optimizer option" where
  "optimize_passes 0 z = Some z"
| "optimize_passes (Suc n) z =
     (if op_changed z then (case optimize_pass z of None \<Rightarrow> None | Some z \<Rightarrow> optimize_passes n z) else Some z)"

definition optimize :: "optimizer \<Rightarrow> optimizer option" where
  "optimize z = (case optimize_passes 2 (z\<lparr>op_changed := True\<rparr>) of None \<Rightarrow> None | Some z \<Rightarrow> optimizeJumpFolding z)"

end
