(* ===== verification/OptSim.thy ===== *)
theory OptSim
  imports OptLoops
begin

text \<open>
  Runs of related programs. A program is its code with the targets of its jumps; two programs match
  under a map of positions when each instruction outside one segment does the same in both, and the
  segment runs to the same place. Matching programs have the same outcomes.
\<close>

subsection \<open>One turn of the interpreter\<close>

fun map_next :: "(int \<Rightarrow> int) \<Rightarrow> 'w vm_next \<Rightarrow> 'w vm_next" where
  "map_next f (Goto p R w) = Goto (f p) R w"
| "map_next f (Stop x) = Stop x"
| "map_next f Unmodelled = Unmodelled"

lemma finish_map: "map_next f (finish ops r k w) = finish ops r (\<lambda>v w. map_next f (k v w)) w"
  by (auto simp: finish_def Let_def split: vm_result.splits sum.splits prod.splits)

lemma finish_cmp_map: "map_next f (finish_cmp ops g r k w) = finish_cmp ops g r (\<lambda>v w. map_next f (k v w)) w"
  by (auto simp: finish_cmp_def Let_def split: vm_result.splits sum.splits prod.splits sq_obj.splits option.splits)

lemma map_next_if: "map_next f (if b then Goto p R w else Goto q S v) = (if b then Goto (f p) R w else Goto (f q) S v)"
  by simp

text \<open>An instruction depends on its place only through where it goes on.\<close>

lemma vm_step_map:
  assumes "f (pc + 1) = pc' + 1"
  shows "vm_step ops lits i (f dst) pc' R w = map_next f (vm_step ops lits i dst pc R w)"
  using assms
  by (cases "i_op i")
    (simp_all add: vm_step_def exec_defs Let_def finish_map finish_cmp_map map_next_if
      split: prod.splits sum.splits sq_obj.splits cong: if_cong)

definition jumps_op :: "sq_opcode \<Rightarrow> bool" where
  "jumps_op p \<longleftrightarrow> p = OPC_JMP \<or> p = OPC_JCMP \<or> p = OPC_JCMPK \<or> p = OPC_JCMPI \<or> p = OPC_JCMPF \<or> p = OPC_JZ \<or>
     p = OPC_AND \<or> p = OPC_OR \<or> p = OPC_NULLCOALESCE"

lemma vm_step_dst: "\<not> jumps_op (i_op i) \<Longrightarrow> vm_step ops lits i d pc R w = vm_step ops lits i d' pc R w"
  by (cases "i_op i") (simp_all add: vm_step_def exec_defs Let_def jumps_op_def)

fun goes_to :: "(int \<Rightarrow> bool) \<Rightarrow> 'w vm_next \<Rightarrow> bool" where
  "goes_to P (Goto p R w) = P p"
| "goes_to P _ = True"

lemma finish_goes: "(\<And>v w. goes_to P (k v w)) \<Longrightarrow> goes_to P (finish ops r k w)"
  by (auto simp: finish_def Let_def split: vm_result.splits sum.splits prod.splits)

lemma finish_cmp_goes: "(\<And>v w. goes_to P (k v w)) \<Longrightarrow> goes_to P (finish_cmp ops g r k w)"
  by (auto simp: finish_cmp_def Let_def split: vm_result.splits sum.splits prod.splits sq_obj.splits option.splits)

lemma vm_step_goes:
  assumes "P (pc + 1)" "jumps_op (i_op i) \<Longrightarrow> P dst"
  shows "goes_to P (vm_step ops lits i dst pc R w)"
  using assms
  by (cases "i_op i")
    (simp_all add: vm_step_def exec_defs Let_def finish_goes finish_cmp_goes jumps_op_def
      split: prod.splits sum.splits sq_obj.splits)

subsection \<open>Runs\<close>

definition follow ::
  "nat \<Rightarrow> 'w vm_ops \<Rightarrow> sq_obj list \<Rightarrow> sq_instr list \<Rightarrow> (nat \<Rightarrow> int) \<Rightarrow> 'w vm_next \<Rightarrow> 'w vm_outcome option" where
  "follow n ops lits code dst x =
     (case x of Goto pc R w \<Rightarrow> vm_run n ops lits code dst pc R w | Stop r \<Rightarrow> Some r | Unmodelled \<Rightarrow> None)"

lemma follow_simps [simp]:
  "follow n ops lits code dst (Goto pc R w) = vm_run n ops lits code dst pc R w"
  "follow n ops lits code dst (Stop r) = Some r"
  "follow n ops lits code dst Unmodelled = None"
  by (simp_all add: follow_def)

lemma vm_run_Suc:
  "vm_run (Suc n) ops lits code dst pc R w =
     (if 0 \<le> pc \<and> nat pc < length code
      then follow n ops lits code dst (vm_step ops lits (code ! nat pc) (dst (nat pc)) pc R w) else None)"
  by (simp add: follow_def)

lemma vm_run_mono: "vm_run n ops lits code dst pc R w = Some x \<Longrightarrow> n \<le> m \<Longrightarrow> vm_run m ops lits code dst pc R w = Some x"
proof (induction n arbitrary: m pc R w)
  case (Suc n)
  then obtain k where "m = Suc k" "n \<le> k" by (cases m) auto
  then show ?case using Suc by (auto split: if_splits vm_next.splits)
qed simp

definition ends ::
  "'w vm_ops \<Rightarrow> sq_obj list \<Rightarrow> sq_instr list \<Rightarrow> (nat \<Rightarrow> int) \<Rightarrow> int \<Rightarrow> regs \<Rightarrow> 'w \<Rightarrow> 'w vm_outcome \<Rightarrow> bool" where
  "ends ops lits code dst pc R w x \<longleftrightarrow> (\<exists>n. vm_run n ops lits code dst pc R w = Some x)"

subsection \<open>Programs that match\<close>

text \<open>
  \<open>s\<close> and \<open>e\<close> bound the segment, which takes \<open>Suc m\<close> turns in the first program and \<open>m'\<close> in the
  second one. A run does not enter the segment behind its start.
\<close>

definition matching ::
  "'w vm_ops \<Rightarrow> sq_obj list \<Rightarrow> sq_instr list \<Rightarrow> (nat \<Rightarrow> int) \<Rightarrow> sq_instr list \<Rightarrow> (nat \<Rightarrow> int) \<Rightarrow>
   (int \<Rightarrow> int) \<Rightarrow> int \<Rightarrow> int \<Rightarrow> nat \<Rightarrow> nat \<Rightarrow> bool" where
  "matching ops lits code dst code' dst' f s e m m' \<longleftrightarrow>
     (\<forall>k. 0 \<le> k \<and> nat k < length code \<and> \<not> (s \<le> k \<and> k < e) \<longrightarrow>
        0 \<le> f k \<and> nat (f k) < length code' \<and> f (k + 1) = f k + 1 \<and> code' ! nat (f k) = code ! nat k \<and>
        (jumps_op (i_op (code ! nat k)) \<longrightarrow> dst' (nat (f k)) = f (dst (nat k)) \<and> \<not> (s < dst (nat k) \<and> dst (nat k) < e))) \<and>
     (\<forall>k. \<not> (s \<le> k \<and> k < e) \<and> 0 \<le> f k \<and> nat (f k) < length code' \<longrightarrow> 0 \<le> k \<and> nat k < length code) \<and>
     (\<forall>R w. \<exists>t. (\<forall>n. vm_run (Suc m + n) ops lits code dst s R w = follow n ops lits code dst t) \<and>
        (\<forall>n. vm_run (m' + n) ops lits code' dst' (f s) R w = follow n ops lits code' dst' (map_next f t)) \<and>
        goes_to (\<lambda>p. \<not> (s < p \<and> p < e) \<and> (m' = 0 \<longrightarrow> p \<noteq> s)) t)"

definition outside :: "int \<Rightarrow> int \<Rightarrow> int \<Rightarrow> bool" where "outside s e p \<longleftrightarrow> \<not> (s < p \<and> p < e)"

lemma matching_step:
  assumes m: "matching ops lits code dst code' dst' f s e m m'"
    and k: "0 \<le> k" "nat k < length code" "\<not> (s \<le> k \<and> k < e)"
  shows "vm_step ops lits (code' ! nat (f k)) (dst' (nat (f k))) (f k) R w =
      map_next f (vm_step ops lits (code ! nat k) (dst (nat k)) k R w)"
    and "goes_to (outside s e) (vm_step ops lits (code ! nat k) (dst (nat k)) k R w)"
    and "0 \<le> f k \<and> nat (f k) < length code'"
proof -
  have c: "0 \<le> f k \<and> nat (f k) < length code'" "f (k + 1) = f k + 1" "code' ! nat (f k) = code ! nat k"
    "jumps_op (i_op (code ! nat k)) \<longrightarrow> dst' (nat (f k)) = f (dst (nat k)) \<and> \<not> (s < dst (nat k) \<and> dst (nat k) < e)"
    using m k unfolding matching_def by blast+
  have "vm_step ops lits (code ! nat k) (dst' (nat (f k))) (f k) R w =
      vm_step ops lits (code ! nat k) (f (dst (nat k))) (f k) R w"
    using c(4) vm_step_dst by metis
  then show "vm_step ops lits (code' ! nat (f k)) (dst' (nat (f k))) (f k) R w =
      map_next f (vm_step ops lits (code ! nat k) (dst (nat k)) k R w)"
    using vm_step_map [of f k "f k" ops lits "code ! nat k" "dst (nat k)" R w] c(2,3) by simp
  show "goes_to (outside s e) (vm_step ops lits (code ! nat k) (dst (nat k)) k R w)"
    using c(4) k by (intro vm_step_goes) (auto simp: outside_def)
  show "0 \<le> f k \<and> nat (f k) < length code'" by (rule c(1))
qed

lemma matching_segment:
  assumes "matching ops lits code dst code' dst' f s e m m'"
  obtains t where "\<And>n. vm_run (Suc m + n) ops lits code dst s R w = follow n ops lits code dst t"
    "\<And>n. vm_run (m' + n) ops lits code' dst' (f s) R w = follow n ops lits code' dst' (map_next f t)"
    "goes_to (outside s e) t" "m' = 0 \<Longrightarrow> goes_to (\<lambda>p. p \<noteq> s) t"
proof -
  obtain t where t: "\<forall>n. vm_run (Suc m + n) ops lits code dst s R w = follow n ops lits code dst t"
    "\<forall>n. vm_run (m' + n) ops lits code' dst' (f s) R w = follow n ops lits code' dst' (map_next f t)"
    "goes_to (\<lambda>p. \<not> (s < p \<and> p < e) \<and> (m' = 0 \<longrightarrow> p \<noteq> s)) t"
    using assms unfolding matching_def by blast
  then show ?thesis by (intro that [of t]) (cases t; auto simp: outside_def)+
qed

lemma matching_forward:
  assumes mt: "matching ops lits code dst code' dst' f s e m m'"
  shows "vm_run n ops lits code dst pc R w = Some x \<Longrightarrow> outside s e pc \<Longrightarrow> ends ops lits code' dst' (f pc) R w x"
proof (induction n arbitrary: pc R w rule: less_induct)
  case (less n)
  have go: "\<exists>n'. follow n' ops lits code' dst' (map_next f t) = Some x"
    if "goes_to (outside s e) t" "follow k ops lits code dst t = Some x" "k < n" for t k
    using that less.IH [of k] by (cases t) (auto simp: ends_def)
  obtain k where k: "n = Suc k" using less.prems(1) by (cases n) auto
  show ?case
  proof (cases "pc = s")
    case True
    obtain t where t: "\<And>n. vm_run (Suc m + n) ops lits code dst s R w = follow n ops lits code dst t"
      "\<And>n. vm_run (m' + n) ops lits code' dst' (f s) R w = follow n ops lits code' dst' (map_next f t)"
      "goes_to (outside s e) t"
      using matching_segment [OF mt] by metis
    have "vm_run (Suc m + (k - m)) ops lits code dst s R w = Some x"
      using vm_run_mono [OF less.prems(1), of "Suc m + (k - m)"] True k by simp
    then have "follow (k - m) ops lits code dst t = Some x" using t(1) by simp
    then show ?thesis using go [OF t(3)] t(2) True k unfolding ends_def by (metis diff_le_self le_imp_less_Suc)
  next
    case False
    then have p: "\<not> (s \<le> pc \<and> pc < e)" using less.prems(2) by (auto simp: outside_def)
    have r: "0 \<le> pc" "nat pc < length code"
      and st: "follow k ops lits code dst (vm_step ops lits (code ! nat pc) (dst (nat pc)) pc R w) = Some x"
      using less.prems(1) unfolding k vm_run_Suc by (simp_all split: if_splits)
    note ms = matching_step(1,2) [OF mt r p, of R w] matching_step(3) [OF mt r p]
    obtain n' where "follow n' ops lits code' dst' (map_next f (vm_step ops lits (code ! nat pc) (dst (nat pc)) pc R w)) = Some x"
      using go [OF ms(2) st] k by auto
    then have "vm_run (Suc n') ops lits code' dst' (f pc) R w = Some x" using ms(1,3) unfolding vm_run_Suc by simp
    then show ?thesis unfolding ends_def by blast
  qed
qed

lemma matching_backward:
  assumes mt: "matching ops lits code dst code' dst' f s e m m'"
  shows "vm_run n ops lits code' dst' (f pc) R w = Some x \<Longrightarrow> outside s e pc \<Longrightarrow> ends ops lits code dst pc R w x"
proof (induction n arbitrary: pc R w rule: less_induct)
  case (less n)
  have go: "\<exists>n'. follow n' ops lits code dst t = Some x"
    if "goes_to (outside s e) t" "follow k ops lits code' dst' (map_next f t) = Some x"
      "k < n \<or> k = n \<and> goes_to (\<lambda>p. p \<noteq> s) t" 
      "\<And>p R w. k = n \<Longrightarrow> p \<noteq> s \<Longrightarrow> outside s e p \<Longrightarrow> vm_run n ops lits code' dst' (f p) R w = Some x \<Longrightarrow> ends ops lits code dst p R w x"
    for t k
    using that less.IH [of k] by (cases t) (auto simp: ends_def)
  have other: "ends ops lits code dst pc R w x"
    if ne: "pc \<noteq> s" "outside s e pc" and run: "vm_run n ops lits code' dst' (f pc) R w = Some x" for pc R w
  proof -
    obtain k where k: "n = Suc k" using run by (cases n) auto
    have p: "\<not> (s \<le> pc \<and> pc < e)" using ne by (auto simp: outside_def)
    have "0 \<le> f pc \<and> nat (f pc) < length code'" using run unfolding k vm_run_Suc by (simp split: if_splits)
    then have r: "0 \<le> pc" "nat pc < length code" using mt p unfolding matching_def by blast+
    note ms = matching_step(1,2) [OF mt r p, of R w] matching_step(3) [OF mt r p]
    have "follow k ops lits code' dst' (map_next f (vm_step ops lits (code ! nat pc) (dst (nat pc)) pc R w)) = Some x"
      using run ms(1,3) unfolding k vm_run_Suc by simp
    then obtain n' where "follow n' ops lits code dst (vm_step ops lits (code ! nat pc) (dst (nat pc)) pc R w) = Some x"
      using go [OF ms(2), of k] k by (metis lessI nat_neq_iff)
    then have "vm_run (Suc n') ops lits code dst pc R w = Some x" using r unfolding vm_run_Suc by simp
    then show ?thesis unfolding ends_def by blast
  qed
  show ?case
  proof (cases "pc = s")
    case True
    obtain t where t: "\<And>n. vm_run (Suc m + n) ops lits code dst s R w = follow n ops lits code dst t"
      "\<And>n. vm_run (m' + n) ops lits code' dst' (f s) R w = follow n ops lits code' dst' (map_next f t)"
      "goes_to (outside s e) t" "m' = 0 \<Longrightarrow> goes_to (\<lambda>p. p \<noteq> s) t"
      using matching_segment [OF mt] by metis
    have n: "0 < n" using less.prems(1) by (cases n) auto
    have "vm_run (m' + (n - m')) ops lits code' dst' (f s) R w = Some x"
      using vm_run_mono [OF less.prems(1), of "m' + (n - m')"] True by simp
    then have "follow (n - m') ops lits code' dst' (map_next f t) = Some x" using t(2) by simp
    moreover have "n - m' < n \<or> n - m' = n \<and> goes_to (\<lambda>p. p \<noteq> s) t" using t(4) n by (cases "m' = 0") auto
    ultimately obtain n' where "follow n' ops lits code dst t = Some x"
      using go [OF t(3), of "n - m'"] other by blast
    then show ?thesis using t(1) True unfolding ends_def by metis
  next
    case False
    then show ?thesis using other less.prems by blast
  qed
qed

lemma matching_ends:
  "matching ops lits code dst code' dst' f s e m m' \<Longrightarrow> outside s e pc \<Longrightarrow>
   ends ops lits code dst pc R w x \<longleftrightarrow> ends ops lits code' dst' (f pc) R w x"
  using matching_forward matching_backward unfolding ends_def by metis

end
