(* ===== verification/OptCut.thy ===== *)
theory OptCut
  imports OptSim
begin

text \<open>
  Cutting instructions out of a program: where the positions go, what becomes of the jump records,
  and why the program without the cut segment matches the one with it.
\<close>

subsection \<open>Positions\<close>

definition cut_pos :: "int \<Rightarrow> int \<Rightarrow> int \<Rightarrow> int" where
  "cut_pos ts c p = (if p \<ge> ts + 1 then p - c else p)"

lemma cut_jump_simps [simp]:
  "jp_to (cut_jump ts c j) = cut_pos (int ts) (int c) (jp_to j)"
  "jp_index (cut_jump ts c j) = (if jp_index j \<ge> int ts then jp_index j - int c else jp_index j)"
  "jp_originalIndex (cut_jump ts c j) = jp_originalIndex j"
  "jp_originalTo (cut_jump ts c j) = jp_originalTo j"
  "jp_arg (cut_jump ts c j) = jp_arg j"
  by (simp_all add: cut_jump_def cut_pos_def Let_def)

lemma cut_jump_modified:
  "jp_modified (cut_jump ts c j) \<longleftrightarrow> jp_modified j \<or> jp_to j \<ge> int ts + 1 \<or> jp_index j \<ge> int ts"
  by (auto simp: cut_jump_def Let_def)

subsection \<open>Targets\<close>

definition recs_at :: "jump_rec list \<Rightarrow> int \<Rightarrow> jump_rec list" where
  "recs_at js k = filter (\<lambda>j. jp_index j = k) js"

definition real_to :: "sq_instr \<Rightarrow> jump_rec \<Rightarrow> int" where
  "real_to x j = (if i_op x = OPC_NULLCOALESCE then jp_to j + 1 else jp_to j)"

text \<open>While the offsets are stale, the first record of an instruction holds its target.\<close>

definition op_dst :: "optimizer \<Rightarrow> nat \<Rightarrow> int" where
  "op_dst z k = (case recs_at (op_jumps z) (int k) of [] \<Rightarrow> int k + 1 | j # _ \<Rightarrow> real_to (op_code z ! k) j)"

text \<open>The offset of a jump never grows, and never changes its direction.\<close>

definition shrunk :: "int \<Rightarrow> int \<Rightarrow> bool" where
  "shrunk a b \<longleftrightarrow> 0 \<le> b \<and> b \<le> a \<or> a \<le> b \<and> b < 0"

definition jump_ofs :: "sq_instr \<Rightarrow> int" where
  "jump_ofs x = (if arg0_jump (i_op x) then sarg0 x else sarg1 x)"

definition wf_rec :: "sq_instr list \<Rightarrow> nat \<Rightarrow> jump_rec \<Rightarrow> bool" where
  "wf_rec code k j \<longleftrightarrow>
     (let x = code ! k; o1 = (if i_op x = OPC_NULLCOALESCE then 1 else 0) in
      jp_index j = int k \<and> jp_arg j = (if arg0_jump (i_op x) then JUMP_ARG0 else JUMP_ARG1) \<and>
      jump_ofs x = jp_originalTo j + o1 - jp_originalIndex j - 1 \<and>
      shrunk (jump_ofs x) (real_to x j - int k - 1) \<and> 0 \<le> real_to x j \<and> real_to x j < int (length code) \<and>
      (\<not> jp_modified j \<longrightarrow> jp_to j = jp_originalTo j \<and> jp_index j = jp_originalIndex j) \<and>
      (i_op x = OPC_NULLCOALESCE \<longrightarrow> 0 \<le> jp_to j \<and> nat (jp_to j) < length code \<and> i_op (code ! nat (jp_to j)) = OPC_MOVE))"

lemma wf_rec_move: "wf_rec code k j \<Longrightarrow> i_op (code ! k) = OPC_NULLCOALESCE \<Longrightarrow> i_op (code ! nat (jp_to j)) = OPC_MOVE"
  by (simp add: wf_rec_def Let_def)

text \<open>The record that a removed empty jump leaves behind; it never changes an offset.\<close>

definition ghost :: "jump_rec \<Rightarrow> bool" where
  "ghost j \<longleftrightarrow> jp_arg j = JUMP_ARG1 \<and> jp_originalTo j = jp_originalIndex j + 1 \<and> jp_to j = jp_index j + 1"

text \<open>The jumps of the code have their records, but for the positions \<open>q\<close>.\<close>

definition wf_except :: "(nat \<Rightarrow> bool) \<Rightarrow> sq_instr list \<Rightarrow> jump_rec list \<Rightarrow> bool" where
  "wf_except q code js \<longleftrightarrow>
     sorted (map jp_index js) \<and>
     (\<forall>k. \<forall>g \<in> set (tl (recs_at js k)). ghost g) \<and>
     (\<forall>k < length code. \<not> q k \<and> jumps_op (i_op (code ! k)) \<longrightarrow>
        (\<exists>j gs. recs_at js (int k) = j # gs \<and> wf_rec code k j))"

abbreviation wf_jumps :: "sq_instr list \<Rightarrow> jump_rec list \<Rightarrow> bool" where
  "wf_jumps \<equiv> wf_except (\<lambda>_. False)"

lemma wf_exceptD:
  assumes "wf_except q code js" "k < length code" "\<not> q k" "jumps_op (i_op (code ! k))"
  obtains j gs where "recs_at js (int k) = j # gs" "wf_rec code k j"
  using assms unfolding wf_except_def by blast

lemma recs_at_append:
  assumes "sorted (map jp_index js)" "k < l"
  shows "filter (\<lambda>j. jp_index j = k \<or> jp_index j = l) js = recs_at js k @ recs_at js l"
  using assms(1)
proof (induction js)
  case (Cons j js)
  have "recs_at js k = []" if "jp_index j = l"
    using Cons.prems that assms(2) by (auto simp: recs_at_def filter_empty_conv)
  then show ?case using Cons assms(2) by (auto simp: recs_at_def)
qed (simp add: recs_at_def)

lemma recs_at_cut:
  assumes "sorted (map jp_index js)" "0 < c"
  shows "recs_at (map (cut_jump ts c) js) k =
    map (cut_jump ts c) ((if k < int ts then recs_at js k else []) @ (if k + int c \<ge> int ts then recs_at js (k + int c) else []))"
proof -
  have "recs_at (map (cut_jump ts c) js) k = map (cut_jump ts c) (filter (\<lambda>j. jp_index (cut_jump ts c j) = k) js)"
    by (simp add: recs_at_def filter_map o_def)
  also have "filter (\<lambda>j. jp_index (cut_jump ts c j) = k) js =
      (if k < int ts then recs_at js k else []) @ (if k + int c \<ge> int ts then recs_at js (k + int c) else [])"
  proof (cases "k < int ts \<and> k + int c \<ge> int ts")
    case True
    then have "(\<lambda>j. jp_index (cut_jump ts c j) = k) = (\<lambda>j. jp_index j = k \<or> jp_index j = k + int c)" by (auto simp: fun_eq_iff)
    then show ?thesis using True recs_at_append [OF assms(1), of k "k + int c"] assms(2) by simp
  next
    case False
    then show ?thesis using assms(2) by (auto simp: recs_at_def intro!: filter_cong)
  qed
  finally show ?thesis .
qed

text \<open>A cut of more than one instruction takes no records away.\<close>

definition cuttable :: "jump_rec list \<Rightarrow> nat \<Rightarrow> nat \<Rightarrow> bool" where
  "cuttable js ts c \<longleftrightarrow> c = 1 \<or> (\<forall>j \<in> set js. \<not> (int ts \<le> jp_index j \<and> jp_index j < int (ts + c)))"

lemma sorted_cut: "sorted (map jp_index js) \<Longrightarrow> cuttable js ts c \<Longrightarrow> sorted (map jp_index (map (cut_jump ts c) js))"
  by (induction js) (fastforce simp: cuttable_def)+

subsection \<open>Records behind a cut\<close>

lemma shrunk_trans: "shrunk a b \<Longrightarrow> shrunk b c \<Longrightarrow> shrunk a c"
  by (auto simp: shrunk_def)

lemma shrunk_cut:
  assumes "\<not> (s \<le> k \<and> k < ts + c)" "\<not> (s < t \<and> t < ts + c)" "s \<le> ts" "0 < c"
  shows "shrunk (t - k - 1) (cut_pos ts c t - cut_pos ts c k - 1)"
  using assms by (auto simp: shrunk_def cut_pos_def)

lemma ghost_cut: "ghost j \<Longrightarrow> ghost (cut_jump ts c j)"
  by (auto simp: ghost_def cut_pos_def)

text \<open>An instruction outside the cut segment keeps its record, which moves along.\<close>

lemma cut_keeps_rec:
  assumes js: "sorted (map jp_index js)" "recs_at js (int k) = j # gs" and wf: "wf_rec code k j"
    and k: "\<not> (s \<le> k \<and> k < ts + c)" "k < length code" and len: "ts + c \<le> length code" and st: "s \<le> ts" "0 < c"
    and room: "s < ts \<or> ts + c < length code" and len': "length code' = length code - c"
    and to: "\<not> (int s < jp_to j \<and> jp_to j < int (ts + c))"
    and mv: "\<And>l. s \<le> l \<Longrightarrow> l < ts + c \<Longrightarrow> i_op (code ! l) \<noteq> OPC_MOVE"
    and code': "\<And>l. l < length code \<Longrightarrow> \<not> (s \<le> l \<and> l < ts + c) \<Longrightarrow>
        nat (cut_pos (int ts) (int c) (int l)) < length code' \<and> code' ! nat (cut_pos (int ts) (int c) (int l)) = code ! l"
  shows "hd (recs_at (map (cut_jump ts c) js) (cut_pos (int ts) (int c) (int k))) = cut_jump ts c j"
    and "recs_at (map (cut_jump ts c) js) (cut_pos (int ts) (int c) (int k)) \<noteq> []"
    and "real_to (code ! k) (cut_jump ts c j) = cut_pos (int ts) (int c) (real_to (code ! k) j)"
    and "\<not> (int s < real_to (code ! k) j \<and> real_to (code ! k) j < int (ts + c))"
    and "wf_rec code' (nat (cut_pos (int ts) (int c) (int k))) (cut_jump ts c j)"
proof -
  have "(if cut_pos (int ts) (int c) (int k) < int ts then recs_at js (cut_pos (int ts) (int c) (int k)) else []) @
      (if cut_pos (int ts) (int c) (int k) + int c \<ge> int ts then recs_at js (cut_pos (int ts) (int c) (int k) + int c) else []) =
      j # gs @ (if k < s \<and> k + c \<ge> ts then recs_at js (int (k + c)) else [])"
    using k(1) st js(2) by (auto simp: cut_pos_def)
  then show "hd (recs_at (map (cut_jump ts c) js) (cut_pos (int ts) (int c) (int k))) = cut_jump ts c j"
    and "recs_at (map (cut_jump ts c) js) (cut_pos (int ts) (int c) (int k)) \<noteq> []"
    using recs_at_cut [OF js(1) st(2), of ts "cut_pos (int ts) (int c) (int k)"] by simp_all
  have nc: "\<not> (int s \<le> jp_to j \<and> jp_to j < int (ts + c))" if "i_op (code ! k) = OPC_NULLCOALESCE"
  proof
    assume r: "int s \<le> jp_to j \<and> jp_to j < int (ts + c)"
    then have "i_op (code ! nat (jp_to j)) \<noteq> OPC_MOVE" by (intro mv) auto
    then show False using wf that by (simp add: wf_rec_def Let_def)
  qed
  show real: "real_to (code ! k) (cut_jump ts c j) = cut_pos (int ts) (int c) (real_to (code ! k) j)"
    using nc st by (auto simp: real_to_def cut_pos_def)
  show t: "\<not> (int s < real_to (code ! k) j \<and> real_to (code ! k) j < int (ts + c))"
    using nc to by (auto simp: real_to_def)
  define x where "x = code ! k"
  define k' where "k' = nat (cut_pos (int ts) (int c) (int k))"
  have k': "int k' = cut_pos (int ts) (int c) (int k)" using k st by (auto simp: k'_def cut_pos_def)
  have x': "code' ! k' = x" using code' [OF k(2,1)] by (simp add: k'_def x_def)
  have w: "jp_index j = int k" "jp_arg j = (if arg0_jump (i_op x) then JUMP_ARG0 else JUMP_ARG1)"
    "jump_ofs x = jp_originalTo j + (if i_op x = OPC_NULLCOALESCE then 1 else 0) - jp_originalIndex j - 1"
    "shrunk (jump_ofs x) (real_to x j - int k - 1)" "0 \<le> real_to x j" "real_to x j < int (length code)"
    "\<not> jp_modified j \<longrightarrow> jp_to j = jp_originalTo j \<and> jp_index j = jp_originalIndex j"
    "i_op x = OPC_NULLCOALESCE \<longrightarrow> 0 \<le> jp_to j \<and> nat (jp_to j) < length code \<and> i_op (code ! nat (jp_to j)) = OPC_MOVE"
    using wf unfolding wf_rec_def Let_def x_def [symmetric] by blast+
  have idx: "jp_index (cut_jump ts c j) = int k'" using k k' st w(1) by (auto simp: cut_pos_def)
  have "shrunk (jump_ofs x) (real_to x (cut_jump ts c j) - int k' - 1)"
  proof -
    have "\<not> (int s \<le> int k \<and> int k < int ts + int c)" using k(1) by linarith
    then have "shrunk (real_to x j - int k - 1) (cut_pos (int ts) (int c) (real_to x j) - int k' - 1)"
      using shrunk_cut [of "int s" "int k" "int ts" "int c" "real_to x j"] t st k' by (simp add: x_def)
    then show ?thesis using shrunk_trans [OF w(4)] real by (simp add: x_def)
  qed
  moreover have "0 \<le> real_to x (cut_jump ts c j) \<and> real_to x (cut_jump ts c j) < int (length code')"
    using real t w(5,6) st room len len' by (auto simp: x_def cut_pos_def)
  moreover have "\<not> jp_modified (cut_jump ts c j) \<longrightarrow>
      jp_to (cut_jump ts c j) = jp_originalTo (cut_jump ts c j) \<and> jp_index (cut_jump ts c j) = jp_originalIndex (cut_jump ts c j)"
    using w(7) by (auto simp: cut_jump_modified cut_pos_def)
  moreover have "i_op x = OPC_NULLCOALESCE \<longrightarrow>
      0 \<le> jp_to (cut_jump ts c j) \<and> nat (jp_to (cut_jump ts c j)) < length code' \<and> i_op (code' ! nat (jp_to (cut_jump ts c j))) = OPC_MOVE"
  proof
    assume n: "i_op x = OPC_NULLCOALESCE"
    then have t: "0 \<le> jp_to j" "nat (jp_to j) < length code" "i_op (code ! nat (jp_to j)) = OPC_MOVE" using w(8) by auto
    have "\<not> (s \<le> nat (jp_to j) \<and> nat (jp_to j) < ts + c)" using nc n t(1) by (auto simp: x_def)
    from code' [OF t(2) this] this t st show
      "0 \<le> jp_to (cut_jump ts c j) \<and> nat (jp_to (cut_jump ts c j)) < length code' \<and> i_op (code' ! nat (jp_to (cut_jump ts c j))) = OPC_MOVE"
      by (auto simp: cut_pos_def)
  qed
  ultimately show "wf_rec code' (nat (cut_pos (int ts) (int c) (int k))) (cut_jump ts c j)"
    using w(2,3) idx unfolding wf_rec_def Let_def k'_def [symmetric] x' by simp
qed

lemma nth_cut:
  assumes "ts + c \<le> length code" "s \<le> ts" "l < length code" "\<not> (s \<le> l \<and> l < ts + c)"
  shows "nat (cut_pos (int ts) (int c) (int l)) < length (take ts code @ drop (ts + c) code)"
    and "(take ts code @ drop (ts + c) code) ! nat (cut_pos (int ts) (int c) (int l)) = code ! l"
proof -
  have "nat (cut_pos (int ts) (int c) (int l)) = (if l < s then l else l - c)"
    using assms by (cases "l < s") (auto simp: cut_pos_def nat_diff_distrib)
  then show "nat (cut_pos (int ts) (int c) (int l)) < length (take ts code @ drop (ts + c) code)"
    and "(take ts code @ drop (ts + c) code) ! nat (cut_pos (int ts) (int c) (int l)) = code ! l"
    using assms by (auto simp: nth_append min_def)
qed

text \<open>What a cut of \<open>c\<close> instructions at \<open>ts\<close> needs, for a segment that starts at \<open>s\<close>.\<close>

definition can_cut :: "sq_instr list \<Rightarrow> jump_rec list \<Rightarrow> nat \<Rightarrow> nat \<Rightarrow> nat \<Rightarrow> bool" where
  "can_cut code js s ts c \<longleftrightarrow>
     s \<le> ts \<and> 0 < c \<and> ts + c \<le> length code \<and> (s < ts \<or> ts + c < length code) \<and> cuttable js ts c \<and>
     (\<forall>j \<in> set js. \<not> (int s < jp_to j \<and> jp_to j < int (ts + c))) \<and>
     (\<forall>l. s \<le> l \<and> l < ts + c \<longrightarrow> i_op (code ! l) \<noteq> OPC_MOVE) \<and>
     (\<forall>k. int ts \<le> k \<and> k < int (ts + c) \<longrightarrow> recs_at js (k - int c) = [] \<or> (\<forall>g \<in> set (recs_at js k). ghost g))"

lemma recs_at_in: "recs_at js k = j # gs \<Longrightarrow> j \<in> set js"
  by (auto simp: recs_at_def filter_eq_Cons_iff)

lemma cut_ghosts:
  assumes wf: "wf_except q code js" and cc: "can_cut code js s ts c"
  shows "\<forall>g \<in> set (tl (recs_at (map (cut_jump ts c) js) k)). ghost g"
proof -
  have g: "\<And>k g. g \<in> set (tl (recs_at js k)) \<Longrightarrow> ghost g" using wf by (simp add: wf_except_def)
  have "recs_at (map (cut_jump ts c) js) k =
    map (cut_jump ts c) ((if k < int ts then recs_at js k else []) @ (if k + int c \<ge> int ts then recs_at js (k + int c) else []))"
    (is "_ = map _ (?a @ ?b)")
    using wf cc by (intro recs_at_cut) (auto simp: wf_except_def can_cut_def)
  moreover have "?a = [] \<or> (\<forall>g \<in> set ?b. ghost g)"
  proof (cases "k < int ts \<and> k + int c \<ge> int ts")
    case True
    then show ?thesis using cc by (auto simp: can_cut_def dest!: spec [of _ "k + int c"])
  qed auto
  moreover have "\<forall>g \<in> set (tl ?a). ghost g" "\<forall>g \<in> set (tl ?b). ghost g" using g by auto
  ultimately show ?thesis by (cases ?a; cases ?b) (auto simp: ghost_cut)
qed

lemma cut_wf:
  assumes wf: "wf_except q code js" and cc: "can_cut code js s ts c"
    and q: "\<And>k. q k \<Longrightarrow> s \<le> k \<and> k < ts + c"
    and code1: "length code1 = length code" "\<And>l. l < length code \<Longrightarrow> \<not> (s \<le> l \<and> l < ts + c) \<Longrightarrow> code1 ! l = code ! l"
    and code': "code' = take ts code1 @ drop (ts + c) code1"
  shows "wf_except (\<lambda>k. s \<le> k \<and> k < ts) code' (map (cut_jump ts c) js)"
proof -
  have c: "s \<le> ts" "0 < c" "ts + c \<le> length code" "s < ts \<or> ts + c < length code" using cc by (auto simp: can_cut_def)
  have lc: "length code' = length code - c" using c code1(1) by (simp add: code')
  have len': "length code' = length code - c" using c code1(1) by (simp add: code')
  have "\<exists>j gs. recs_at (map (cut_jump ts c) js) (int k') = j # gs \<and> wf_rec code' k' j"
    if k': "k' < length code'" "\<not> (s \<le> k' \<and> k' < ts)" "jumps_op (i_op (code' ! k'))" for k'
  proof -
    define k where "k = (if k' < s then k' else k' + c)"
    have k: "k < length code" "\<not> (s \<le> k \<and> k < ts + c)" using k' len' c by (auto simp: k_def)
    have kk: "nat (cut_pos (int ts) (int c) (int k)) = k'" "cut_pos (int ts) (int c) (int k) = int k'"
      using k' c by (auto simp: k_def cut_pos_def)
    have nth: "nat (cut_pos (int ts) (int c) (int l)) < length code' \<and> code' ! nat (cut_pos (int ts) (int c) (int l)) = code ! l"
      if "l < length code" "\<not> (s \<le> l \<and> l < ts + c)" for l
      using nth_cut [of ts c code1 s l] that c code1 by (simp add: code')
    have "jumps_op (i_op (code ! k))" using nth [OF k] kk k'(3) by simp
    then obtain j gs where j: "recs_at js (int k) = j # gs" "wf_rec code k j"
      using wf_exceptD [OF wf k(1)] q [of k] k(2) by blast
    have "\<not> (int s < jp_to j \<and> jp_to j < int (ts + c))" using cc recs_at_in [OF j(1)] by (auto simp: can_cut_def)
    note keep = cut_keeps_rec [OF _ j k(2,1) c(3,1,2,4) lc this _ nth]
    have s: "sorted (map jp_index js)" using wf by (simp add: wf_except_def)
    have mv: "\<And>l. s \<le> l \<Longrightarrow> l < ts + c \<Longrightarrow> i_op (code ! l) \<noteq> OPC_MOVE" using cc by (simp add: can_cut_def)
    show ?thesis using keep(1,2,5) [OF s mv] kk by (cases "recs_at (map (cut_jump ts c) js) (int k')") auto
  qed
  moreover have "sorted (map jp_index (map (cut_jump ts c) js))"
    using wf cc by (intro sorted_cut) (auto simp: wf_except_def can_cut_def)
  ultimately show ?thesis using cut_ghosts [OF wf cc] unfolding wf_except_def by blast
qed

subsection \<open>A cut program matches\<close>

lemma cut_rec_kept:
  assumes wf: "wf_jumps code js" and cc: "can_cut code js s ts c"
    and code1: "length code1 = length code" "\<And>l. l < length code \<Longrightarrow> \<not> (s \<le> l \<and> l < ts + c) \<Longrightarrow> code1 ! l = code ! l"
    and code': "code' = take ts code1 @ drop (ts + c) code1"
    and k: "k < length code" "\<not> (s \<le> k \<and> k < ts + c)" "jumps_op (i_op (code ! k))"
  obtains j gs gs' where "recs_at js (int k) = j # gs"
    "recs_at (map (cut_jump ts c) js) (cut_pos (int ts) (int c) (int k)) = cut_jump ts c j # gs'"
    "real_to (code ! k) (cut_jump ts c j) = cut_pos (int ts) (int c) (real_to (code ! k) j)"
    "\<not> (int s < real_to (code ! k) j \<and> real_to (code ! k) j < int (ts + c))"
proof -
  have c: "s \<le> ts" "0 < c" "ts + c \<le> length code" "s < ts \<or> ts + c < length code" using cc by (auto simp: can_cut_def)
  have lc: "length code' = length code - c" using c code1(1) by (simp add: code')
  have nth: "nat (cut_pos (int ts) (int c) (int l)) < length code' \<and> code' ! nat (cut_pos (int ts) (int c) (int l)) = code ! l"
    if "l < length code" "\<not> (s \<le> l \<and> l < ts + c)" for l
    using nth_cut [of ts c code1 s l] that c code1 by (simp add: code')
  obtain j gs where j: "recs_at js (int k) = j # gs" "wf_rec code k j" using wf_exceptD [OF wf k(1) _ k(3)] by blast
  have to: "\<not> (int s < jp_to j \<and> jp_to j < int (ts + c))" using cc recs_at_in [OF j(1)] by (auto simp: can_cut_def)
  have s: "sorted (map jp_index js)" using wf by (simp add: wf_except_def)
  have mv: "\<And>l. s \<le> l \<Longrightarrow> l < ts + c \<Longrightarrow> i_op (code ! l) \<noteq> OPC_MOVE" using cc by (simp add: can_cut_def)
  note keep = cut_keeps_rec [OF s j k(2,1) c(3,1,2,4) lc to mv nth]
  obtain gs' where "recs_at (map (cut_jump ts c) js) (cut_pos (int ts) (int c) (int k)) = cut_jump ts c j # gs'"
    using keep(1,2) by (cases "recs_at (map (cut_jump ts c) js) (cut_pos (int ts) (int c) (int k))") auto
  then show ?thesis by (rule that [OF j(1) _ keep(3,4)])
qed

lemma cut_matching:
  assumes wf: "wf_jumps (op_code z) (op_jumps z)" and cc: "can_cut (op_code z) (op_jumps z) s ts c"
    and code1: "length code1 = length (op_code z)"
      "\<And>l. l < length (op_code z) \<Longrightarrow> \<not> (s \<le> l \<and> l < ts + c) \<Longrightarrow> code1 ! l = op_code z ! l"
    and code': "op_code z' = take ts code1 @ drop (ts + c) code1"
    and js': "\<And>k. \<not> (int s \<le> k \<and> k < int ts) \<Longrightarrow> recs_at (op_jumps z') k = recs_at (map (cut_jump ts c) (op_jumps z)) k"
    and seg: "\<And>R w. \<exists>t. (\<forall>n. vm_run (Suc m + n) ops lits (op_code z) (op_dst z) (int s) R w = follow n ops lits (op_code z) (op_dst z) t) \<and>
        (\<forall>n. vm_run (m' + n) ops lits (op_code z') (op_dst z') (int s) R w =
          follow n ops lits (op_code z') (op_dst z') (map_next (cut_pos (int ts) (int c)) t)) \<and>
        goes_to (\<lambda>p. \<not> (int s < p \<and> p < int (ts + c)) \<and> (m' = 0 \<longrightarrow> p \<noteq> int s)) t"
  shows "matching ops lits (op_code z) (op_dst z) (op_code z') (op_dst z') (cut_pos (int ts) (int c)) (int s) (int (ts + c)) m m'"
  unfolding matching_def
proof (intro conjI allI impI, goal_cases)
  have c: "s \<le> ts" "0 < c" "ts + c \<le> length (op_code z)" using cc by (auto simp: can_cut_def)
  have len': "length (op_code z') = length (op_code z) - c" using c code1(1) by (simp add: code')
  let ?f = "cut_pos (int ts) (int c)"
  {
    case (1 k) then show ?case using c by (auto simp: cut_pos_def)
  next
    case (2 k)
    then have "\<not> (s \<le> nat k \<and> nat k < ts + c)" by linarith
    then show ?case using nth_cut(1) [of ts c code1 s "nat k"] 2 c code1 by (simp add: code')
  next
    case (3 k) then show ?case using c by (auto simp: cut_pos_def)
  next
    case (4 k)
    then have "\<not> (s \<le> nat k \<and> nat k < ts + c)" by linarith
    then show ?case using nth_cut(2) [of ts c code1 s "nat k"] 4 c code1 by (simp add: code')
  next
    case (5 k)
    then have k: "nat k < length (op_code z)" "\<not> (s \<le> nat k \<and> nat k < ts + c)" by auto
    have kk: "int (nat k) = k" and jo: "jumps_op (i_op (op_code z ! nat k))" using 5 by auto
    obtain j gs gs' where j: "recs_at (op_jumps z) k = j # gs"
      "recs_at (map (cut_jump ts c) (op_jumps z)) (?f k) = cut_jump ts c j # gs'"
      "real_to (op_code z ! nat k) (cut_jump ts c j) = ?f (real_to (op_code z ! nat k) j)"
      using cut_rec_kept [OF wf cc code1 code' k jo] unfolding kk by blast
    have "0 \<le> ?f k" "\<not> (int s \<le> ?f k \<and> ?f k < int ts)" using 5 c by (auto simp: cut_pos_def)
    moreover have "op_code z' ! nat (?f k) = op_code z ! nat k" using nth_cut [of ts c code1 s "nat k"] c code1 k 5 by (simp add: code')
    ultimately show ?case using j 5 js' [of "?f k"] by (simp add: op_dst_def)
  next
    case (6 k)
    then have k: "nat k < length (op_code z)" "\<not> (s \<le> nat k \<and> nat k < ts + c)" by auto
    have kk: "int (nat k) = k" and jo: "jumps_op (i_op (op_code z ! nat k))" using 6 by auto
    obtain j gs where "recs_at (op_jumps z) k = j # gs"
      "\<not> (int s < real_to (op_code z ! nat k) j \<and> real_to (op_code z ! nat k) j < int (ts + c))"
      using cut_rec_kept [OF wf cc code1 code' k jo] unfolding kk by blast
    then show ?case using kk by (simp add: op_dst_def)
  next
    case (7 k) then show ?case using c len' by (auto simp: cut_pos_def split: if_splits)
  next
    case (8 k) then show ?case using c len' by (auto simp: cut_pos_def split: if_splits)
  next
    case (9 R w)
    moreover have "?f (int s) = int s" using c by (simp add: cut_pos_def)
    ultimately show ?case using seg [of R w] by simp
  }
qed

text \<open>A rewriting that cuts nothing.\<close>

lemma keep_matching:
  assumes wf: "wf_jumps (op_code z) (op_jumps z)" and e: "s < e" "e \<le> length (op_code z)"
    and safe: "\<forall>j \<in> set (op_jumps z). \<not> (int s < jp_to j \<and> jp_to j < int e)"
    and mv: "\<And>l. s \<le> l \<Longrightarrow> l < e \<Longrightarrow> i_op (op_code z ! l) \<noteq> OPC_MOVE"
    and code': "length (op_code z') = length (op_code z)"
      "\<And>l. l < length (op_code z) \<Longrightarrow> \<not> (s \<le> l \<and> l < e) \<Longrightarrow> op_code z' ! l = op_code z ! l"
    and js': "\<And>k. \<not> (int s \<le> k \<and> k < int e) \<Longrightarrow> recs_at (op_jumps z') k = recs_at (op_jumps z) k"
    and seg: "\<And>R w. \<exists>t. (\<forall>n. vm_run (Suc m + n) ops lits (op_code z) (op_dst z) (int s) R w = follow n ops lits (op_code z) (op_dst z) t) \<and>
        (\<forall>n. vm_run (Suc m' + n) ops lits (op_code z') (op_dst z') (int s) R w = follow n ops lits (op_code z') (op_dst z') t) \<and>
        goes_to (\<lambda>p. \<not> (int s < p \<and> p < int e)) t"
  shows "matching ops lits (op_code z) (op_dst z) (op_code z') (op_dst z') (\<lambda>p. p) (int s) (int e) m (Suc m')"
  unfolding matching_def
proof (intro conjI allI impI, goal_cases)
  case (5 k)
  then have "\<not> (s \<le> nat k \<and> nat k < e)" by linarith
  then show ?case using js' [of k] code'(2) [of "nat k"] 5 by (simp add: op_dst_def cong: list.case_cong)
next
  case (6 k)
  then obtain j gs where j: "recs_at (op_jumps z) (int (nat k)) = j # gs" "wf_rec (op_code z) (nat k) j"
    using wf_exceptD [OF wf, of "nat k"] by blast
  have "\<not> (int s \<le> jp_to j \<and> jp_to j < int e)" if "i_op (op_code z ! nat k) = OPC_NULLCOALESCE"
  proof
    assume r: "int s \<le> jp_to j \<and> jp_to j < int e"
    then have "s \<le> nat (jp_to j)" "nat (jp_to j) < e" by linarith+
    then show False using mv [of "nat (jp_to j)"] wf_rec_move [OF j(2) that] by simp
  qed
  then show ?case using j safe recs_at_in [OF j(1)] 6 by (auto simp: op_dst_def real_to_def)
next
  case (9 R w)
  have "map_next (\<lambda>p. p) t = t" for t :: "'a vm_next" by (cases t) simp_all
  then show ?case using seg [of R w] by simp
next
  case (4 k)
  then have "\<not> (s \<le> nat k \<and> nat k < e)" by linarith
  then show ?case using code'(2) [of "nat k"] 4 by simp
qed (use code' in auto)

end
