(* ===== verification/OptFold.thy ===== *)
theory OptFold
  imports OptCut
begin

text \<open>
  What one folding of constants does to a run: the interpreter computes the folded value, so the
  rewritten code has the outcomes of the code before, as long as the registers of the loads that
  are cut out are not read any more.
\<close>

subsection \<open>Instructions that are folded\<close>

definition load_op :: "sq_opcode \<Rightarrow> bool" where
  "load_op p \<longleftrightarrow> p = OPC_LOAD \<or> p = OPC_LOADINT \<or> p = OPC_LOADFLOAT"

definition load_val :: "sq_obj list \<Rightarrow> sq_instr \<Rightarrow> sq_obj" where
  "load_val lits i =
     (if i_op i = OPC_LOADINT then load_int i else if i_op i = OPC_LOADFLOAT then SQFloat (i_arg1 i) else lits ! reg1 i)"

lemma step_load:
  "load_op (i_op i) \<Longrightarrow> vm_step ops lits i dst pc R w = Goto (pc + 1) (R(reg (i_arg0 i) := load_val lits i)) w"
  by (auto simp: load_op_def load_val_def vm_step_def exec_load_def)

definition bin_result :: "has_meta \<Rightarrow> sq_instr \<Rightarrow> sq_obj \<Rightarrow> sq_obj \<Rightarrow> sq_obj vm_result" where
  "bin_result mm p A2 A1 =
     (if i_op p = OPC_ADD then arith_fast mm CHR ''+'' A2 A1
      else if i_op p = OPC_SUB then arith_fast mm CHR ''-'' A2 A1
      else if i_op p = OPC_MUL then arith_fast mm CHR ''*'' A2 A1
      else if i_op p = OPC_DIV then arith_nozero mm A2 A1
      else if i_op p = OPC_MOD then ARITH_OP mm CHR ''%'' A2 A1
      else BW_OP (i_arg3 p) A2 A1)"

lemma foldable_cases:
  assumes "foldable s"
  obtains "s = OPC_ADD" | "s = OPC_SUB" | "s = OPC_MUL" | "s = OPC_DIV" | "s = OPC_MOD" | "s = OPC_BITW"
  using assms by (auto simp: foldable_def)

lemma step_bin:
  assumes "foldable (i_op p)" "bin_result (vo_meta ops w) p (R (reg (i_arg2 p))) (R (reg1 p)) = VVal v"
  shows "vm_step ops lits p dst pc R w = Goto (pc + 1) (R(reg (i_arg0 p) := v)) w"
proof (rule foldable_cases [OF assms(1)])
qed (use assms(2) in \<open>simp_all add: bin_result_def vm_step_def exec_load_def exec_move_def exec_operator_def finish_def Let_def\<close>)

lemma step_addi:
  "i_op p = OPC_ADDI \<Longrightarrow> arith_fast (vo_meta ops w) CHR ''+'' (R (reg (i_arg2 p))) (load_int p) = VVal v \<Longrightarrow>
   vm_step ops lits p dst pc R w = Goto (pc + 1) (R(reg (i_arg0 p) := v)) w"
  by (simp add: vm_step_def exec_load_def exec_move_def exec_operator_def finish_def Let_def)

subsection \<open>The folded values\<close>

lemma sint_scast64: "sint (scast (x :: u32) :: u64) = sint x"
  by (simp add: sint_up_scast is_up)

lemma scast_inject: "scast (x :: u32) = (scast (y :: u32) :: u64) \<longleftrightarrow> x = y"
  by (metis sint_scast64 signed_word_eqI)

lemma scast_and: "scast ((x :: u32) AND y) = (scast x AND scast y :: u64)"
  by (rule bit_word_eqI) (auto simp: bit_signed_iff bit_and_iff)

lemma scast_or: "scast ((x :: u32) OR y) = (scast x OR scast y :: u64)"
  by (rule bit_word_eqI) (auto simp: bit_signed_iff bit_or_iff)

lemma scast_xor: "scast ((x :: u32) XOR y) = (scast x XOR scast y :: u64)"
  by (rule bit_word_eqI) (auto simp: bit_signed_iff bit_xor_iff)

lemma safe_divisor: "sint (y :: u32) < - 1 \<or> sint y > 0 \<Longrightarrow> (scast y :: u64) \<noteq> 0 \<and> (scast y :: u64) \<noteq> - 1"
proof -
  assume y: "sint y < - 1 \<or> sint y > 0"
  have "sint (scast y :: u64) = sint y" by (rule sint_scast64)
  moreover have "sint (0 :: u64) = 0" "sint (- 1 :: u64) = - 1" by simp_all
  ultimately show ?thesis using y by (metis less_irrefl zero_less_one_class.zero_less_one less_numeral_extra(3) neg_less_0_iff_less not_less_iff_gr_or_eq)
qed

lemma fold_int_foldable: "fold_int s bop x y = Some r \<Longrightarrow> foldable s"
  by (cases s) (simp_all add: fold_int_def foldable_def Let_def)

lemma fold_float_foldable: "fold_float s x y = Some r \<Longrightarrow> foldable s"
  by (cases s) (simp_all add: fold_float_def foldable_def)

lemmas int_results = arith_fast_def arith_nozero_def ARITH_OP_def int_arith_def Let_def

lemma fold_int_value:
  assumes "fold_int (i_op p) (i_arg3 p) x y = Some r"
  shows "bin_result mm p (SQInteger (scast x)) (SQInteger (scast y)) = VVal (SQInteger r)"
proof (rule foldable_cases [OF fold_int_foldable [OF assms]])
  assume "i_op p = OPC_BITW"
  then show ?thesis using assms
    by (simp add: fold_int_def Let_def bin_result_def BW_OP_def BW_AND_def BW_OR_def BW_XOR_def BW_SHIFTL_def
        BW_SHIFTR_def BW_USHIFTR_def scast_and scast_or scast_xor split: if_splits)
next
  assume o: "i_op p = OPC_DIV"
  then have "sint y < - 1 \<or> sint y > 0" "r = sdiv64 (scast x) (scast y)"
    using assms by (auto simp: fold_int_def Let_def split: if_splits)
  then show ?thesis using safe_divisor [of y] o by (simp add: bin_result_def int_results)
next
  assume o: "i_op p = OPC_MOD"
  then have "sint y < - 1 \<or> sint y > 0" "r = smod64 (scast x) (scast y)"
    using assms by (auto simp: fold_int_def Let_def split: if_splits)
  then show ?thesis using safe_divisor [of y] o by (simp add: bin_result_def int_results)
qed (use assms in \<open>simp_all add: fold_int_def Let_def bin_result_def int_results\<close>)

definition load_num :: "sq_instr \<Rightarrow> sq_obj" where
  "load_num i = (if i_op i = OPC_LOADINT then load_int i else SQFloat (i_arg1 i))"

lemma load_num_val: "num_load i \<Longrightarrow> load_val lits i = load_num i \<and> load_op (i_op i)"
  by (auto simp: num_load_def load_val_def load_num_def load_op_def)

lemma tofloat_load: "num_load i \<Longrightarrow> tofloat (load_num i) = load_float i"
  by (auto simp: num_load_def load_num_def load_float_def load_int_def sint_scast64)

lemma float_mask:
  assumes "num_load a" "num_load b" "\<not> (i_op a = OPC_LOADINT \<and> i_op b = OPC_LOADINT)"
  shows "sq_type (load_num a) OR sq_type (load_num b) \<noteq> OT_INTEGER"
    and "sq_type (load_num a) OR sq_type (load_num b) = OT_FLOAT OR OT_INTEGER \<or> sq_type (load_num a) OR sq_type (load_num b) = OT_FLOAT"
  using assms by (auto simp: num_load_def load_num_def load_int_def OT_FLOAT_def OT_INTEGER_def SQOBJECT_NUMERIC_def)

lemma fold_float_value:
  assumes f: "fold_float (i_op p) (load_float a) (load_float b) = Some r" and ab: "num_load a" "num_load b"
    "\<not> (i_op a = OPC_LOADINT \<and> i_op b = OPC_LOADINT)"
  shows "bin_result mm p (load_num a) (load_num b) = VVal (SQFloat r)"
proof (rule foldable_cases [OF fold_float_foldable [OF f]])
qed (use f in \<open>simp_all add: fold_float_def bin_result_def arith_fast_def arith_nozero_def Let_def float_mask [OF ab]
      tofloat_load ab split: if_splits\<close>)

subsection \<open>Stored results\<close>

text \<open>The final literal table: the tables of the states before are initial parts of it.\<close>

definition lits_of :: "sq_obj list \<Rightarrow> optimizer \<Rightarrow> bool" where
  "lits_of lits z \<longleftrightarrow> (\<exists>xs. lits = op_lits z @ xs) \<and> length lits < 2 ^ 32"

lemma lit_index_Some: "lit_index c vs = Some k \<Longrightarrow> k < length vs \<and> vs ! k = c"
  by (induction c vs arbitrary: k rule: lit_index.induct) (auto split: if_splits)

lemma GetConstant_lits:
  assumes "GetConstant c limit z = (r, z')"
  shows "\<exists>xs. op_lits z' = op_lits z @ xs"
    and "r = Some k \<Longrightarrow> k < length (op_lits z') \<and> op_lits z' ! k = c \<and> (\<forall>m. limit = Some m \<longrightarrow> k \<le> m)"
  using assms by (auto simp: GetConstant_def Let_def split: option.splits if_splits dest: lit_index_Some)

lemma GetConstant_total: "fst (GetConstant c None z) \<noteq> None"
  by (simp add: GetConstant_def Let_def split: option.split)

text \<open>The rest of the state is as before.\<close>

definition same_frame :: "optimizer \<Rightarrow> optimizer \<Rightarrow> bool" where
  "same_frame z z' \<longleftrightarrow> op_jumps z' = op_jumps z \<and> op_locals z' = op_locals z \<and> (\<exists>xs. op_lits z' = op_lits z @ xs)"

lemma GetConstant_frame: "GetConstant c limit z = (r, z') \<Longrightarrow> same_frame z z'"
  using GetConstant_code GetConstant_lits(1) by (simp add: same_frame_def)

lemma same_frame_set [simp]:
  "same_frame z (set_instr k f z') = same_frame z z'" "same_frame z (z'\<lparr>op_changed := b\<rparr>) = same_frame z z'"
  by (simp_all add: same_frame_def set_instr_def)

lemma same_frame_lits: "same_frame z z' \<Longrightarrow> lits_of lits z' \<Longrightarrow> lits_of lits z"
  by (auto simp: same_frame_def lits_of_def)

text \<open>\<open>z'\<close> is \<open>z\<close> with a load of \<open>v\<close> into \<open>d\<close> at \<open>k\<close>.\<close>

definition loads_at :: "sq_obj list \<Rightarrow> nat \<Rightarrow> u8 \<Rightarrow> sq_obj \<Rightarrow> optimizer \<Rightarrow> optimizer \<Rightarrow> bool" where
  "loads_at lits k d v z z' \<longleftrightarrow> same_frame z z' \<and>
     (\<exists>y. op_code z' = (op_code z)[k := y] \<and> load_op (i_op y) \<and> i_arg0 y = d \<and> load_val lits y = v)"

lemma scast_ucast_fits:
  assumes "\<not> sint (r :: u64) < - (2 ^ 31)" "\<not> sint r > 2 ^ 31 - 1"
  shows "scast (ucast r :: u32) = r"
proof -
  have "(ucast r :: u32) = word_of_int (sint r)" by transfer (simp add: take_bit_signed_take_bit)
  moreover have "sint (word_of_int x :: u32) = signed_take_bit 31 x" for x by (simp add: sint_sbintrunc')
  ultimately have "sint (ucast r :: u32) = signed_take_bit 31 (sint r)" by metis
  also have "\<dots> = sint r" using assms by (intro signed_take_bit_int_eq_self) simp_all
  finally have "sint (ucast r :: u32) = sint r" .
  then have "sint (scast (ucast r :: u32) :: u64) = sint r" by (simp only: sint_scast64)
  then show ?thesis by (rule signed_word_eqI)
qed

lemma store_int_loads:
  assumes "lits_of lits (store_int k d r z)"
  shows "loads_at lits k d (SQInteger r) z (store_int k d r z)"
proof (cases "sint r < - (2 ^ 31) \<or> sint r > 2 ^ 31 - 1")
  case True
  obtain c z1 where c: "GetNumericConstant r z = (c, z1)" by fastforce
  obtain cc where cc: "GetConstant (SQInteger r) None z = (cc, z1)" "c = the cc"
    using c by (auto simp: GetNumericConstant_def split: prod.splits)
  have "cc \<noteq> None" using cc(1) GetConstant_total [of "SQInteger r" z] by simp
  then have some: "cc = Some c" using cc(2) by simp
  have lit: "c < length (op_lits z1)" "op_lits z1 ! c = SQInteger r" using GetConstant_lits(2) [OF cc(1) some] by auto
  have frame: "same_frame z z1" using GetConstant_frame [OF cc(1)] .
  define y where "y = (op_code z ! k)\<lparr>i_arg0 := d, i_op := OPC_LOAD, i_arg1 := word_of_nat c\<rparr>"
  have code1: "op_code z1 = op_code z" using GetConstant_code [OF cc(1)] by blast
  have res: "store_int k d r z = (set_instr k (\<lambda>i. i\<lparr>i_arg0 := d, i_op := OPC_LOAD, i_arg1 := word_of_nat c\<rparr>) z1)\<lparr>op_changed := True\<rparr>"
    using True c by (simp add: store_int_def)
  then obtain xs where xs: "lits = op_lits z1 @ xs" "length lits < 2 ^ 32"
    using assms by (auto simp: lits_of_def set_instr_def)
  then have "reg1 y = c" "lits ! c = SQInteger r"
    using lit by (simp_all add: y_def reg1_def unsigned_of_nat take_bit_nat_eq_self nth_append)
  then have "load_val lits y = SQInteger r" by (simp add: load_val_def y_def)
  then show ?thesis using frame code1 unfolding res loads_at_def
    by (intro conjI exI [of _ y]) (simp_all add: y_def load_op_def)
next
  case False
  define y where "y = (op_code z ! k)\<lparr>i_arg0 := d, i_op := OPC_LOADINT, i_arg1 := ucast r\<rparr>"
  have "load_val lits y = SQInteger r" using scast_ucast_fits [of r] False by (simp add: load_val_def load_int_def y_def)
  then show ?thesis using False unfolding loads_at_def store_int_def
    by (intro conjI exI [of _ y]) (simp_all add: y_def load_op_def same_frame_def set_instr_def)
qed

lemma store_float_loads: "loads_at lits k d (SQFloat r) z (store_float k d r z)"
  unfolding loads_at_def store_float_def
  by (intro conjI exI [of _ "(op_code z ! k)\<lparr>i_op := OPC_LOADFLOAT, i_arg1 := r, i_arg0 := d\<rparr>"])
    (simp_all add: load_op_def load_val_def same_frame_def set_instr_def)

end
