(* ===== verification/OptRuns.thy ===== *)
theory OptRuns
  imports OptFold
begin

text \<open>
  The foldings of the optimizer and the removal of empty jumps keep the outcomes of a run. A load
  that is cut out must go to a register that is dead behind the segment, which is what the
  optimizer takes for granted of registers that hold no local variable.
\<close>

subsection \<open>States between two foldings\<close>

definition plain_op :: "sq_opcode \<Rightarrow> bool" where
  "plain_op p \<longleftrightarrow> load_op p \<or> foldable p \<or> p = OPC_ADDI"

text \<open>The other instructions with a record: the interpreter model stops at them or ignores their offset.\<close>

definition inert_op :: "sq_opcode \<Rightarrow> bool" where
  "inert_op p \<longleftrightarrow> p = OPC_PUSHTRAP \<or> p = OPC_FOREACH \<or> p = OPC_PREFOREACH \<or> p = OPC_POSTFOREACH \<or> p = OPC_DATA_NOP \<or>
     p = OPC_SAVE_STATIC_MEMO"

definition recorded :: "sq_opcode \<Rightarrow> bool" where
  "recorded p \<longleftrightarrow> jumps_op p \<or> inert_op p"

lemma recorded_not_plain: "recorded p \<Longrightarrow> \<not> plain_op p"
  by (auto simp: recorded_def inert_op_def jumps_op_def plain_op_def load_op_def foldable_def)

definition live_recs :: "sq_instr list \<Rightarrow> jump_rec list \<Rightarrow> bool" where
  "live_recs code js \<longleftrightarrow>
     (\<forall>j \<in> set js. 0 \<le> jp_index j \<and> nat (jp_index j) < length code \<and> recorded (i_op (code ! nat (jp_index j))))"

definition folding_ok :: "optimizer \<Rightarrow> bool" where
  "folding_ok z \<longleftrightarrow> wf_jumps (op_code z) (op_jumps z) \<and> live_recs (op_code z) (op_jumps z)"

definition agrees :: "'w vm_ops \<Rightarrow> sq_obj list \<Rightarrow> optimizer \<Rightarrow> optimizer \<Rightarrow> bool" where
  "agrees ops lits z z' \<longleftrightarrow>
     (\<forall>R w x. ends ops lits (op_code z) (op_dst z) 0 R w x \<longleftrightarrow> ends ops lits (op_code z') (op_dst z') 0 R w x)"

lemma agrees_refl: "agrees ops lits z z"
  by (simp add: agrees_def)

lemma agrees_trans: "agrees ops lits z z' \<Longrightarrow> agrees ops lits z' z'' \<Longrightarrow> agrees ops lits z z''"
  by (simp add: agrees_def)

text \<open>A register is dead at a position when no run from there depends on it.\<close>

definition dead :: "'w vm_ops \<Rightarrow> sq_obj list \<Rightarrow> optimizer \<Rightarrow> nat \<Rightarrow> int \<Rightarrow> bool" where
  "dead ops lits z r p \<longleftrightarrow>
     (\<forall>n R w v. vm_run n ops lits (op_code z) (op_dst z) p (R(r := v)) w = vm_run n ops lits (op_code z) (op_dst z) p R w)"

definition droppable :: "'w vm_ops \<Rightarrow> sq_obj list \<Rightarrow> optimizer \<Rightarrow> nat \<Rightarrow> nat \<Rightarrow> int \<Rightarrow> bool" where
  "droppable ops lits z r d p \<longleftrightarrow> r = d \<or> dead ops lits z r p"

lemma drop_register:
  "droppable ops lits z r d p \<Longrightarrow>
   vm_run n ops lits (op_code z) (op_dst z) p (R(r := x, d := v)) w = vm_run n ops lits (op_code z) (op_dst z) p (R(d := v)) w"
  by (cases "r = d") (simp_all add: droppable_def dead_def fun_upd_twist)

lemma matching_agrees:
  assumes "matching ops lits (op_code z) (op_dst z) (op_code z') (op_dst z') f s e m m'" "f 0 = 0" "0 \<le> s"
  shows "agrees ops lits z z'"
  using matching_ends [OF assms(1), of 0] assms(2,3) by (simp add: agrees_def outside_def)

lemma cut_pos_0: "cut_pos (int ts) c 0 = 0"
  by (simp add: cut_pos_def)

subsection \<open>Steps through a segment\<close>

lemma run_load:
  assumes "i < length code" "load_op (i_op (code ! i))"
  shows "vm_run (Suc n) ops lits code dst (int i) R w =
    vm_run n ops lits code dst (int i + 1) (R(reg (i_arg0 (code ! i)) := load_val lits (code ! i))) w"
  using assms by (simp add: vm_run_Suc step_load del: vm_run.simps)

lemma run_bin:
  assumes "i < length code" "foldable (i_op (code ! i))"
    "bin_result (vo_meta ops w) (code ! i) (R (reg (i_arg2 (code ! i)))) (R (reg1 (code ! i))) = VVal v"
  shows "vm_run (Suc n) ops lits code dst (int i) R w = vm_run n ops lits code dst (int i + 1) (R(reg (i_arg0 (code ! i)) := v)) w"
  using assms(1) step_bin [of "code ! i" ops w R v, OF assms(2,3)] by (simp add: vm_run_Suc del: vm_run.simps)

lemma run_addi:
  assumes "i < length code" "i_op (code ! i) = OPC_ADDI"
    "arith_fast (vo_meta ops w) CHR ''+'' (R (reg (i_arg2 (code ! i)))) (load_int (code ! i)) = VVal v"
  shows "vm_run (Suc n) ops lits code dst (int i) R w = vm_run n ops lits code dst (int i + 1) (R(reg (i_arg0 (code ! i)) := v)) w"
  using assms(1) step_addi [of "code ! i" ops w R v, OF assms(2,3)] by (simp add: vm_run_Suc del: vm_run.simps)

subsection \<open>Cuts in a folding\<close>

lemma live_recs_at:
  assumes "live_recs code js" "k < length code" "plain_op (i_op (code ! k))"
  shows "recs_at js (int k) = []"
  using assms recorded_not_plain by (force simp: live_recs_def recs_at_def filter_empty_conv)

lemma jump_not_plain: "jumps_op p \<Longrightarrow> \<not> plain_op p"
  by (auto simp: jumps_op_def plain_op_def load_op_def foldable_def)

lemma load_not_jump: "load_op p \<Longrightarrow> \<not> jumps_op p"
  by (auto simp: jumps_op_def load_op_def)

lemma plain_can_cut:
  assumes ok: "folding_ok z" and s: "s < ts" "0 < c" "ts + c \<le> length (op_code z)"
    and safe: "\<not> isUnsafeJumpRange z s (ts + c - s)"
    and plain: "\<And>l. s \<le> l \<Longrightarrow> l < ts + c \<Longrightarrow> plain_op (i_op (op_code z ! l))"
  shows "can_cut (op_code z) (op_jumps z) s ts c"
proof -
  have l: "live_recs (op_code z) (op_jumps z)" using ok by (simp add: folding_ok_def)
  have none: "recs_at (op_jumps z) k = []" if "int ts \<le> k" "k < int (ts + c)" for k
    using live_recs_at [OF l, of "nat k"] plain [of "nat k"] that s by (simp add: nat_less_iff)
  then have "cuttable (op_jumps z) ts c" by (auto simp: cuttable_def recs_at_def filter_empty_conv)
  moreover have "i_op (op_code z ! l) \<noteq> OPC_MOVE" if "s \<le> l" "l < ts + c" for l
    using plain [OF that] by (auto simp: plain_op_def load_op_def foldable_def)
  ultimately show ?thesis using s safe none by (auto simp: can_cut_def isUnsafeJumpRange_def)
qed

text \<open>The records stay where the code has jumps.\<close>

lemma live_cut:
  assumes ok: "live_recs code js" and s: "s \<le> ts" "ts + c \<le> length code"
    and code1: "length code1 = length code" "\<And>l. l < length code \<Longrightarrow> \<not> (s \<le> l \<and> l < ts + c) \<Longrightarrow> code1 ! l = code ! l"
    and plain: "\<And>l. s \<le> l \<Longrightarrow> l < ts + c \<Longrightarrow> plain_op (i_op (code ! l))"
  shows "live_recs (take ts code1 @ drop (ts + c) code1) (map (cut_jump ts c) js)"
  unfolding live_recs_def
proof
  fix j' assume "j' \<in> set (map (cut_jump ts c) js)"
  then obtain j where j: "j' = cut_jump ts c j" "j \<in> set js" by auto
  define k where "k = nat (jp_index j)"
  have k: "jp_index j = int k" "k < length code" "recorded (i_op (code ! k))" using ok j(2) by (auto simp: live_recs_def k_def)
  then have out: "\<not> (s \<le> k \<and> k < ts + c)" using plain recorded_not_plain by blast
  have "jp_index j' = cut_pos (int ts) (int c) (int k)" "0 \<le> cut_pos (int ts) (int c) (int k)"
    using out k(1) j(1) s(1) by (auto simp: cut_pos_def)
  then show "0 \<le> jp_index j' \<and> nat (jp_index j') < length (take ts code1 @ drop (ts + c) code1) \<and>
      recorded (i_op ((take ts code1 @ drop (ts + c) code1) ! nat (jp_index j')))"
    using nth_cut [of ts c code1 s k] s k out code1 by simp
qed

text \<open>After a folding: loads have taken the place of the folded instructions.\<close>

lemma plain_cut_ok:
  assumes ok: "folding_ok z" and s: "s < ts" "0 < c" "ts + c \<le> length (op_code z)"
    and safe: "\<not> isUnsafeJumpRange z s (ts + c - s)"
    and plain: "\<And>l. s \<le> l \<Longrightarrow> l < ts + c \<Longrightarrow> plain_op (i_op (op_code z ! l))"
    and y: "load_op (i_op y)" "s \<le> k" "k < ts" and k: "\<And>l. s \<le> l \<Longrightarrow> l < k \<Longrightarrow> load_op (i_op (op_code z ! l))" "ts = Suc k"
    and z': "op_code z' = take ts ((op_code z)[k := y]) @ drop (ts + c) ((op_code z)[k := y])"
      "op_jumps z' = map (cut_jump ts c) (op_jumps z)"
  shows "folding_ok z'"
proof -
  have cc: "can_cut (op_code z) (op_jumps z) s ts c" by (rule plain_can_cut [OF ok s safe plain])
  have code1: "length ((op_code z)[k := y]) = length (op_code z)"
    "\<And>l. l < length (op_code z) \<Longrightarrow> \<not> (s \<le> l \<and> l < ts + c) \<Longrightarrow> (op_code z)[k := y] ! l = op_code z ! l"
    using y(2) k(2) by (auto simp: nth_list_update)
  have w: "wf_except (\<lambda>k. s \<le> k \<and> k < ts) (op_code z') (op_jumps z')"
    using ok unfolding z'(2) by (intro cut_wf [where q = "\<lambda>_. False", OF _ cc _ code1 z'(1)]) (auto simp: folding_ok_def)
  have "\<not> jumps_op (i_op (op_code z' ! l))" if "s \<le> l" "l < ts" for l
  proof -
    have "op_code z' ! l = (if l = k then y else op_code z ! l)" using that s by (simp add: z'(1) nth_append)
    then show ?thesis using y(1) k that load_not_jump by (metis less_antisym)
  qed
  then have "wf_jumps (op_code z') (op_jumps z')" using w unfolding wf_except_def by blast
  moreover have "live_recs (op_code z') (op_jumps z')"
    unfolding z' using ok s(1) by (intro live_cut [OF _ _ s(3) code1 plain]) (simp_all add: folding_ok_def)
  ultimately show ?thesis by (simp add: folding_ok_def)
qed

lemma wf_rec_cong:
  assumes "wf_rec code l j" "length code' = length code" "code' ! l = code ! l"
    "i_op (code ! l) = OPC_NULLCOALESCE \<Longrightarrow> code' ! nat (jp_to j) = code ! nat (jp_to j)"
  shows "wf_rec code' l j"
  using assms(1,4) unfolding wf_rec_def Let_def assms(2,3) by auto

text \<open>A folding that cuts nothing out.\<close>

lemma plain_keep_ok:
  assumes ok: "folding_ok z" and k: "plain_op (i_op (op_code z ! k))" "load_op (i_op y)" "k < length (op_code z)"
    and z': "op_code z' = (op_code z)[k := y]" "op_jumps z' = op_jumps z"
  shows "folding_ok z'"
proof -
  have live: "live_recs (op_code z) (op_jumps z)" using ok by (simp add: folding_ok_def)
  have "wf_rec (op_code z') l j" if "wf_rec (op_code z) l j" "jumps_op (i_op (op_code z ! l))" for l j
  proof -
    have "l \<noteq> k" using that(2) k(1) jump_not_plain by blast
    moreover have "nat (jp_to j) \<noteq> k" if "i_op (op_code z ! l) = OPC_NULLCOALESCE"
      using wf_rec_move [OF \<open>wf_rec (op_code z) l j\<close> that] k(1) by (auto simp: plain_op_def load_op_def foldable_def)
    ultimately show ?thesis using that(1) by (intro wf_rec_cong [OF that(1)]) (simp_all add: z')
  qed
  moreover have "op_code z' ! l = op_code z ! l \<or> \<not> jumps_op (i_op (op_code z' ! l))" for l
    using load_not_jump [OF k(2)] k(3) by (cases "l = k") (simp_all add: z')
  ultimately have "wf_jumps (op_code z') (op_jumps z')"
    using ok unfolding folding_ok_def wf_except_def by (metis length_list_update z')
  moreover have "live_recs (op_code z') (op_jumps z')"
    using live k(1,3) recorded_not_plain unfolding live_recs_def z' by (metis length_list_update nth_list_update_neq)
  ultimately show ?thesis by (simp add: folding_ok_def)
qed

text \<open>A segment \<open>s\<close> to \<open>e\<close> whose run is replaced by loads, the last one at \<open>k\<close>.\<close>

lemma plain_cut_agrees:
  assumes ok: "folding_ok z" and s: "s \<le> k" "Suc k + c = e" "0 < c" "e \<le> length (op_code z)"
    and safe: "\<not> isUnsafeJumpRange z s (e - s)"
    and plain: "\<And>l. s \<le> l \<Longrightarrow> l < e \<Longrightarrow> plain_op (i_op (op_code z ! l))"
    and y: "load_op (i_op y)" and loads: "\<And>l. s \<le> l \<Longrightarrow> l < k \<Longrightarrow> load_op (i_op (op_code z ! l))"
    and code': "op_code z' = take (Suc k) ((op_code z)[k := y]) @ drop e ((op_code z)[k := y])"
    and js': "op_jumps z' = map (cut_jump (Suc k) c) (op_jumps z)"
    and old: "\<And>n R w. vm_run (Suc m + n) ops lits (op_code z) (op_dst z) (int s) R w =
        vm_run n ops lits (op_code z) (op_dst z) (int e) (S R) w"
    and new: "\<And>n R w. vm_run (Suc m' + n) ops lits (op_code z') (op_dst z') (int s) R w =
        vm_run n ops lits (op_code z') (op_dst z') (int k + 1) (S R) w"
  shows "folding_ok z' \<and> agrees ops lits z z'"
proof
  note [simp] = s(2) [symmetric]
  have s': "s < Suc k" "Suc k + c \<le> length (op_code z)" using s by auto
  have safe': "\<not> isUnsafeJumpRange z s (Suc k + c - s)" and plain': "\<And>l. s \<le> l \<Longrightarrow> l < Suc k + c \<Longrightarrow> plain_op (i_op (op_code z ! l))"
    and c': "op_code z' = take (Suc k) ((op_code z)[k := y]) @ drop (Suc k + c) ((op_code z)[k := y])"
    using safe plain code' by simp_all
  show "folding_ok z'"
    by (rule plain_cut_ok [OF ok s'(1) s(3) s'(2) safe' plain' y s(1) _ loads refl c' js']) simp_all
  have mapped: "map_next (cut_pos (int (Suc k)) (int c)) (Goto (int (Suc k + c)) R w) = Goto (int k + 1) R w" for R and w :: 'a
    using s(3) by (simp add: cut_pos_def)
  have "matching ops lits (op_code z) (op_dst z) (op_code z') (op_dst z') (cut_pos (int (Suc k)) (int c)) (int s) (int (Suc k + c)) m (Suc m')"
  proof (rule cut_matching [OF _ plain_can_cut [OF ok s'(1) s(3) s'(2) safe' plain'] _ _ c'])
    show "wf_jumps (op_code z) (op_jumps z)" using ok by (simp add: folding_ok_def)
    show "(op_code z)[k := y] ! l = op_code z ! l" if "\<not> (s \<le> l \<and> l < Suc k + c)" for l
      using that s(1) by (auto simp: nth_list_update)
    show "\<exists>t. (\<forall>n. vm_run (Suc m + n) ops lits (op_code z) (op_dst z) (int s) R w = follow n ops lits (op_code z) (op_dst z) t) \<and>
        (\<forall>n. vm_run (Suc m' + n) ops lits (op_code z') (op_dst z') (int s) R w =
          follow n ops lits (op_code z') (op_dst z') (map_next (cut_pos (int (Suc k)) (int c)) t)) \<and>
        goes_to (\<lambda>p. \<not> (int s < p \<and> p < int (Suc k + c)) \<and> (Suc m' = 0 \<longrightarrow> p \<noteq> int s)) t" for R w
      unfolding old new by (intro exI [of _ "Goto (int (Suc k + c)) (S R) w"]) (simp only: mapped follow_simps, simp)
  qed (simp_all add: js')
  then show "agrees ops lits z z'" by (rule matching_agrees) (simp_all add: cut_pos_def)
qed

lemma plain_keep_agrees:
  assumes ok: "folding_ok z" and s: "s \<le> k" "Suc k = e" "e \<le> length (op_code z)"
    and safe: "\<not> isUnsafeJumpRange z s (e - s)"
    and plain: "\<And>l. s \<le> l \<Longrightarrow> l < e \<Longrightarrow> plain_op (i_op (op_code z ! l))" and y: "load_op (i_op y)"
    and code': "op_code z' = take (Suc k) ((op_code z)[k := y]) @ drop e ((op_code z)[k := y])"
    and js': "op_jumps z' = op_jumps z"
    and old: "\<And>n R w. vm_run (Suc m + n) ops lits (op_code z) (op_dst z) (int s) R w =
        vm_run n ops lits (op_code z) (op_dst z) (int e) (S R) w"
    and new: "\<And>n R w. vm_run (Suc m' + n) ops lits (op_code z') (op_dst z') (int s) R w =
        vm_run n ops lits (op_code z') (op_dst z') (int k + 1) (S R) w"
  shows "folding_ok z' \<and> agrees ops lits z z'"
proof
  have c': "op_code z' = (op_code z)[k := y]" unfolding code' s(2) by simp
  show "folding_ok z'" using plain [of k] s by (intro plain_keep_ok [OF ok _ y _ c' js']) auto
  have "matching ops lits (op_code z) (op_dst z) (op_code z') (op_dst z') (\<lambda>p. p) (int s) (int e) m (Suc m')"
  proof (rule keep_matching)
    show "wf_jumps (op_code z) (op_jumps z)" using ok by (simp add: folding_ok_def)
    show "\<forall>j\<in>set (op_jumps z). \<not> (int s < jp_to j \<and> jp_to j < int e)"
      using safe s by (auto simp: isUnsafeJumpRange_def)
    show "i_op (op_code z ! l) \<noteq> OPC_MOVE" if "s \<le> l" "l < e" for l
      using plain [OF that] by (auto simp: plain_op_def load_op_def foldable_def)
    have e: "int k + 1 = int e" using s(2) by simp
    show "\<exists>t. (\<forall>n. vm_run (Suc m + n) ops lits (op_code z) (op_dst z) (int s) R w = follow n ops lits (op_code z) (op_dst z) t) \<and>
        (\<forall>n. vm_run (Suc m' + n) ops lits (op_code z') (op_dst z') (int s) R w = follow n ops lits (op_code z') (op_dst z') t) \<and>
        goes_to (\<lambda>p. \<not> (int s < p \<and> p < int e)) t" for R w
      unfolding old new e by (intro exI [of _ "Goto (int e) (S R) w"]) (simp only: follow_simps, simp)
  qed (use s c' js' in \<open>auto simp: nth_list_update\<close>)
  then show "agrees ops lits z z'" by (rule matching_agrees) simp_all
qed

subsection \<open>Folding two loads and an operator\<close>

lemma loads_atD:
  assumes "loads_at lits k d v z z1"
  obtains y where "op_code z1 = (op_code z)[k := y]" "load_op (i_op y)" "i_arg0 y = d" "load_val lits y = v"
    "op_jumps z1 = op_jumps z" "same_frame z z1"
  using assms by (auto simp: loads_at_def same_frame_def)

lemma fold3_value:
  assumes m: "fold3_matches z i" and f: "fold3_result z i k = Some z1" and l: "lits_of lits z1"
  shows "\<exists>v. loads_at lits k (i_arg0 (op_code z ! (i + 2))) v z z1 \<and>
    (\<forall>mm R. R (reg (i_arg0 (op_code z ! i))) = load_num (op_code z ! i) \<and>
            R (reg (i_arg0 (op_code z ! (i + 1)))) = load_num (op_code z ! (i + 1)) \<longrightarrow>
       bin_result mm (op_code z ! (i + 2)) (R (reg (i_arg2 (op_code z ! (i + 2))))) (R (reg1 (op_code z ! (i + 2)))) = VVal v)"
proof -
  define a where "a = op_code z ! i"
  define b where "b = op_code z ! (i + 1)"
  define p where "p = op_code z ! (i + 2)"
  have ab: "num_load a" "num_load b" and args: "i_arg0 b = i_arg2 p \<and> reg (i_arg0 a) = reg1 p \<or> reg (i_arg0 b) = reg1 p \<and> i_arg0 a = i_arg2 p"
    using m by (auto simp: fold3_matches_def Let_def a_def b_def p_def)
  define x y where "x = (if i_arg0 b = i_arg2 p \<and> reg (i_arg0 a) = reg1 p then b else a)"
    and "y = (if i_arg0 b = i_arg2 p \<and> reg (i_arg0 a) = reg1 p then a else b)"
  have xy: "num_load x" "num_load y" using ab by (auto simp: x_def y_def)
  have R: "R (reg (i_arg2 p)) = load_num x \<and> R (reg1 p) = load_num y"
    if "R (reg (i_arg0 a)) = load_num a" "R (reg (i_arg0 b)) = load_num b" for R
    using that args by (auto simp: x_def y_def)
  show ?thesis
  proof (cases "i_op a = OPC_LOADINT \<and> i_op b = OPC_LOADINT")
    case True
    then obtain r where r: "fold_int (i_op p) (i_arg3 p) (i_arg1 x) (i_arg1 y) = Some r" and z1: "z1 = store_int k (i_arg0 p) r z"
      using f by (auto simp: fold3_result_def Let_def a_def b_def p_def x_def y_def split: if_splits)
    have "load_num x = SQInteger (scast (i_arg1 x))" "load_num y = SQInteger (scast (i_arg1 y))"
      using True by (auto simp: load_num_def load_int_def x_def y_def)
    then show ?thesis using store_int_loads [of lits k "i_arg0 p" r z] l fold_int_value [OF r] R
      unfolding z1 a_def [symmetric] b_def [symmetric] p_def [symmetric] by metis
  next
    case False
    then obtain r where r: "fold_float (i_op p) (load_float x) (load_float y) = Some r" and z1: "z1 = store_float k (i_arg0 p) r z"
      using f by (auto simp: fold3_result_def Let_def a_def b_def p_def x_def y_def split: if_splits)
    have "\<not> (i_op x = OPC_LOADINT \<and> i_op y = OPC_LOADINT)" using False by (auto simp: x_def y_def)
    then show ?thesis using store_float_loads [of lits k "i_arg0 p" r z] fold_float_value [OF r xy] R
      unfolding z1 a_def [symmetric] b_def [symmetric] p_def [symmetric] by metis
  qed
qed

text \<open>What a folding takes for granted: the registers of the loads that go are not read any more.\<close>

definition fold3_clean :: "'w vm_ops \<Rightarrow> sq_obj list \<Rightarrow> optimizer \<Rightarrow> nat \<Rightarrow> bool" where
  "fold3_clean ops lits z i \<longleftrightarrow>
     (let a = op_code z ! i; b = op_code z ! (i + 1); p = op_code z ! (i + 2); d = reg (i_arg0 p);
          (ra, rb) = fold3_removes z i in
      (ra \<longrightarrow> droppable ops lits z (reg (i_arg0 a)) d (int i + 3)) \<and>
      (rb \<longrightarrow> droppable ops lits z (reg (i_arg0 b)) d (int i + 3)))"

lemma reg_inject: "reg a = reg b \<longleftrightarrow> a = b"
  by (simp add: reg_def flip: word_unat_eq_iff)

lemma fold3_old_run:
  assumes m: "fold3_matches z i" and len: "i + 3 < length (op_code z)"
    and v: "\<And>mm R. R (reg (i_arg0 (op_code z ! i))) = load_num (op_code z ! i) \<Longrightarrow>
            R (reg (i_arg0 (op_code z ! (i + 1)))) = load_num (op_code z ! (i + 1)) \<Longrightarrow>
       bin_result mm (op_code z ! (i + 2)) (R (reg (i_arg2 (op_code z ! (i + 2))))) (R (reg1 (op_code z ! (i + 2)))) = VVal v"
  shows "vm_run (Suc (Suc (Suc n))) ops lits (op_code z) dst (int i) R w =
    vm_run n ops lits (op_code z) dst (int i + 3)
      (R(reg (i_arg0 (op_code z ! i)) := load_num (op_code z ! i),
         reg (i_arg0 (op_code z ! (i + 1))) := load_num (op_code z ! (i + 1)), reg (i_arg0 (op_code z ! (i + 2))) := v)) w"
proof -
  define a where "a = op_code z ! i"
  define b where "b = op_code z ! (i + 1)"
  define p where "p = op_code z ! (i + 2)"
  have ab: "num_load a" "num_load b" "i_arg0 a \<noteq> i_arg0 b" and p: "foldable (i_op p)"
    using m by (auto simp: fold3_matches_def Let_def a_def b_def p_def)
  let ?R = "R(reg (i_arg0 a) := load_num a, reg (i_arg0 b) := load_num b)"
  have "vm_run (Suc (Suc (Suc n))) ops lits (op_code z) dst (int i) R w =
      vm_run (Suc (Suc n)) ops lits (op_code z) dst (int (i + 1)) (R(reg (i_arg0 a) := load_num a)) w"
    using run_load [of i "op_code z" "Suc (Suc n)" ops lits dst R w] len load_num_val [OF ab(1), of lits]
    by (simp add: a_def add.commute del: vm_run.simps)
  also have "\<dots> = vm_run (Suc n) ops lits (op_code z) dst (int (i + 2)) ?R w"
    using run_load [of "i + 1" "op_code z" "Suc n" ops lits dst _ w] len load_num_val [OF ab(2), of lits]
    by (simp add: b_def add.commute del: vm_run.simps)
  also have "\<dots> = vm_run n ops lits (op_code z) dst (int i + 3) (?R(reg (i_arg0 p) := v)) w"
  proof -
    have "bin_result (vo_meta ops w) (op_code z ! (i + 2)) (?R (reg (i_arg2 (op_code z ! (i + 2))))) (?R (reg1 (op_code z ! (i + 2)))) = VVal v"
      using ab(3) by (intro v; unfold a_def [symmetric] b_def [symmetric]) (simp_all add: reg_inject)
    then have "vm_run (Suc n) ops lits (op_code z) dst (int (i + 2)) ?R w =
        vm_run n ops lits (op_code z) dst (int (i + 2) + 1) (?R(reg (i_arg0 p) := v)) w"
      unfolding p_def using len p by (intro run_bin) (simp_all add: p_def)
    then show ?thesis by (simp add: add.commute del: vm_run.simps)
  qed
  finally show ?thesis by (simp add: a_def b_def p_def del: vm_run.simps)
qed

text \<open>What folding leaves in the code, by the first load that is cut out.\<close>

lemma fold3_parts:
  assumes f: "fold3 z i = Some z'" and l: "lits_of lits z'"
  obtains ra rb k y v where "fold3_removes z i = (ra, rb)" "ra \<longrightarrow> rb" "k = (if ra then i else if rb then i + 1 else i + 2)"
    "i + 3 < length (op_code z)" "fold3_matches z i" "load_op (i_op y)" "i_arg0 y = i_arg0 (op_code z ! (i + 2))" "load_val lits y = v"
    "op_code z' = take (Suc k) ((op_code z)[k := y]) @ drop (i + 3) ((op_code z)[k := y])"
    "op_jumps z' = (if rb then map (cut_jump (Suc k) (i + 2 - k)) (op_jumps z) else op_jumps z)"
    "lits_of lits z"
    "\<And>mm R. R (reg (i_arg0 (op_code z ! i))) = load_num (op_code z ! i) \<Longrightarrow>
       R (reg (i_arg0 (op_code z ! (i + 1)))) = load_num (op_code z ! (i + 1)) \<Longrightarrow>
       bin_result mm (op_code z ! (i + 2)) (R (reg (i_arg2 (op_code z ! (i + 2))))) (R (reg1 (op_code z ! (i + 2)))) = VVal v"
proof -
  obtain ra rb where r: "fold3_removes z i = (ra, rb)" by fastforce
  have rr: "ra \<longrightarrow> rb" using r by (auto simp: fold3_removes_def Let_def split: if_splits)
  define k where "k = (if ra then i else if rb then i + 1 else i + 2)"
  from f have len: "i + 3 < length (op_code z)" and m: "fold3_matches z i" by (auto simp: fold3_def split: if_splits)
  from f len m r obtain z1 where z1: "fold3_result z i k = Some z1"
    and z': "z' = (if ra then cutRange i 3 1 z1 else if rb then cutRange (i + 1) 2 1 z1 else z1)"
    by (auto simp: fold3_def k_def)
  have l1: "lits_of lits z1" using l by (simp add: z' lits_of_def cutRange_def Let_def split: if_splits)
  obtain v where v: "loads_at lits k (i_arg0 (op_code z ! (i + 2))) v z z1"
    "\<forall>mm R. R (reg (i_arg0 (op_code z ! i))) = load_num (op_code z ! i) \<and>
       R (reg (i_arg0 (op_code z ! (i + 1)))) = load_num (op_code z ! (i + 1)) \<longrightarrow>
       bin_result mm (op_code z ! (i + 2)) (R (reg (i_arg2 (op_code z ! (i + 2))))) (R (reg1 (op_code z ! (i + 2)))) = VVal v"
    using fold3_value [OF m z1 l1] by blast
  obtain y where y: "op_code z1 = (op_code z)[k := y]" "load_op (i_op y)" "i_arg0 y = i_arg0 (op_code z ! (i + 2))"
    "load_val lits y = v" "op_jumps z1 = op_jumps z" "same_frame z z1"
    by (rule loads_atD [OF v(1)])
  have "op_code z' = take (Suc k) ((op_code z)[k := y]) @ drop (i + 3) ((op_code z)[k := y])"
  proof (cases "ra \<or> rb")
    case True
    then show ?thesis using len by (auto simp: z' k_def y(1) op_code_cutRange eval_nat_numeral)
  next
    case False
    then show ?thesis using append_take_drop_id [of "i + 3" "(op_code z)[i + 2 := y]"]
      by (simp add: z' k_def y(1) eval_nat_numeral del: append_take_drop_id drop_update_cancel)
  qed
  moreover have "op_jumps z' = (if rb then map (cut_jump (Suc k) (i + 2 - k)) (op_jumps z) else op_jumps z)"
    using rr y(5) by (auto simp: z' k_def cutRange_def Let_def eval_nat_numeral)
  ultimately show ?thesis
    using that [OF r rr k_def len m y(2,3,4)] same_frame_lits [OF y(6) l1] v(2) by blast
qed

text \<open>The run of the folded code.\<close>

lemma fold3_new_run:
  assumes k: "k = (if ra then i else if rb then i + 1 else i + 2)" and len: "i + 3 < length code"
    and code: "num_load (code ! i)" "num_load (code ! (i + 1))" "load_op (i_op y)"
    and code': "code' = take (Suc k) (code[k := y]) @ drop (i + 3) (code[k := y])"
  shows "vm_run (Suc (k - i) + n) ops lits code' dst (int i) R w =
    vm_run n ops lits code' dst (int k + 1)
      ((if ra then R
        else if rb then R(reg (i_arg0 (code ! i)) := load_num (code ! i))
        else R(reg (i_arg0 (code ! i)) := load_num (code ! i), reg (i_arg0 (code ! (i + 1))) := load_num (code ! (i + 1))))
       (reg (i_arg0 y) := load_val lits y)) w"
proof -
  have k3: "i \<le> k" "k < length code'" "k \<le> i + 2" using len k by (auto simp: code' min_def)
  have at: "code' ! j = (if j = k then y else code ! j)" if "j \<le> k" for j
    using that len k3 by (auto simp: code' nth_append min_def)
  have ld: "vm_run (Suc m) ops lits code' dst (int j) R w =
      vm_run m ops lits code' dst (int j + 1) (R(reg (i_arg0 (code ! j)) := load_num (code ! j))) w"
    if "j < k" "num_load (code ! j)" for j m R
    using run_load [of j code' m ops lits dst R w] load_num_val [OF that(2), of lits] at [of j] that(1) k3(2) by simp
  have last: "vm_run (Suc n) ops lits code' dst (int k) R w =
      vm_run n ops lits code' dst (int k + 1) (R(reg (i_arg0 y) := load_val lits y)) w" for R
    using run_load [of k code' n ops lits dst R w] at [of k] k3(2) code(3) by simp
  consider "ra" | "\<not> ra" "rb" | "\<not> ra" "\<not> rb" by blast
  then show ?thesis
  proof cases
    case 1
    then show ?thesis using last [of R] k by (simp del: vm_run.simps)
  next
    case 2
    then show ?thesis using last ld [OF _ code(1), of "Suc n" R] k by (simp add: add.commute del: vm_run.simps)
  next
    case 3
    then have kk: "k = Suc (Suc i)" using k by simp
    have e: "Suc (k - i) + n = Suc (Suc (Suc n))" by (simp add: kk)
    show ?thesis unfolding e using last ld [OF _ code(1), of "Suc (Suc n)" R] ld [OF _ code(2), of "Suc n"] 3
      by (simp add: kk add.commute del: vm_run.simps)
  qed
qed

lemma fold3_agrees:
  assumes ok: "folding_ok z" and f: "fold3 z i = Some z'" and l: "lits_of lits z'" and clean: "fold3_clean ops lits z i"
  shows "folding_ok z' \<and> lits_of lits z \<and> agrees ops lits z z'"
proof -
  obtain ra rb k y v where r: "fold3_removes z i = (ra, rb)" "ra \<longrightarrow> rb" and k: "k = (if ra then i else if rb then i + 1 else i + 2)"
    and len: "i + 3 < length (op_code z)" and m: "fold3_matches z i" and y: "load_op (i_op y)"
    and y0: "i_arg0 y = i_arg0 (op_code z ! (i + 2))" and yv: "load_val lits y = v"
    and code': "op_code z' = take (Suc k) ((op_code z)[k := y]) @ drop (i + 3) ((op_code z)[k := y])"
    and js': "op_jumps z' = (if rb then map (cut_jump (Suc k) (i + 2 - k)) (op_jumps z) else op_jumps z)"
    and lz: "lits_of lits z"
    and v: "\<And>mm R. R (reg (i_arg0 (op_code z ! i))) = load_num (op_code z ! i) \<Longrightarrow>
       R (reg (i_arg0 (op_code z ! (i + 1)))) = load_num (op_code z ! (i + 1)) \<Longrightarrow>
       bin_result mm (op_code z ! (i + 2)) (R (reg (i_arg2 (op_code z ! (i + 2))))) (R (reg1 (op_code z ! (i + 2)))) = VVal v"
    by (rule fold3_parts [OF f l]) (rule that)
  define a b d where "a = op_code z ! i" and "b = op_code z ! (i + 1)" and "d = reg (i_arg0 (op_code z ! (i + 2)))"
  have ab: "num_load a" "num_load b" and p: "foldable (i_op (op_code z ! (i + 2)))" and safe: "\<not> isUnsafeJumpRange z i (i + 3 - i)"
    using m by (auto simp: fold3_matches_def Let_def a_def b_def)
  have plain: "plain_op (i_op (op_code z ! l))" if "i \<le> l" "l < i + 3" for l
  proof -
    have "l = i \<or> l = i + 1 \<or> l = i + 2" using that by linarith
    then consider "l = i" | "l = i + 1" | "l = i + 2" by blast
    then show ?thesis using ab p load_num_val by cases (auto simp: plain_op_def a_def b_def)
  qed
  let ?S = "\<lambda>R. (if ra then R else if rb then R(reg (i_arg0 a) := load_num a)
     else R(reg (i_arg0 a) := load_num a, reg (i_arg0 b) := load_num b))(d := v)"
  have dropped: "vm_run n ops lits (op_code z) (op_dst z) (int i + 3)
      (R(reg (i_arg0 a) := load_num a, reg (i_arg0 b) := load_num b, d := v)) w =
    vm_run n ops lits (op_code z) (op_dst z) (int i + 3) (?S R) w" for n R w
    using clean r unfolding fold3_clean_def Let_def
    by (auto simp: a_def b_def d_def drop_register)
  have old: "vm_run (Suc 2 + n) ops lits (op_code z) (op_dst z) (int i) R w =
      vm_run n ops lits (op_code z) (op_dst z) (int (i + 3)) (?S R) w" for n R w
    using fold3_old_run [OF m len v, of n ops lits "op_dst z" R w] dropped [of n R w]
    by (simp add: a_def b_def d_def numeral_2_eq_2 del: vm_run.simps)
  have new: "vm_run (Suc (k - i) + n) ops lits (op_code z') (op_dst z') (int i) R w =
      vm_run n ops lits (op_code z') (op_dst z') (int k + 1) (?S R) w" for n R w
    using fold3_new_run [OF k len ab [unfolded a_def b_def] y code', of n ops lits "op_dst z'" R w]
    by (simp add: a_def b_def d_def y0 yv del: vm_run.simps)
  have loads: "load_op (i_op (op_code z ! l))" if "i \<le> l" "l < k" for l
    using that k ab load_num_val [of a] load_num_val [of b]
    by (cases "l = i"; cases "l = i + 1") (auto simp: a_def b_def split: if_splits)
  show ?thesis
  proof (cases rb)
    case True
    then have kc: "i \<le> k" "Suc k + (i + 2 - k) = i + 3" "0 < i + 2 - k" "i + 3 \<le> length (op_code z)" using k len by auto
    have "op_jumps z' = map (cut_jump (Suc k) (i + 2 - k)) (op_jumps z)" using True js' by simp
    from plain_cut_agrees [OF ok kc safe plain y loads code' this old new] lz show ?thesis by blast
  next
    case False
    then have "i \<le> k" "Suc k = i + 3" "k = i + 2" using k r(2) by auto
    then show ?thesis
      using plain_keep_agrees [OF ok _ _ _ safe plain y code' _ old new] False js' len lz by simp
  qed
qed

subsection \<open>Folding a load and an addition of a constant\<close>

lemma addi_value:
  assumes a: "num_load (op_code z ! i)" and l: "lits_of lits (addi_result z i k)"
  shows "\<exists>v. loads_at lits k (i_arg0 (op_code z ! (i + 1))) v z (addi_result z i k) \<and>
    (\<forall>mm. arith_fast mm CHR ''+'' (load_num (op_code z ! i)) (load_int (op_code z ! (i + 1))) = VVal v)"
proof (cases "i_op (op_code z ! i) = OPC_LOADINT")
  case True
  then show ?thesis using l store_int_loads
    by (auto simp: addi_result_def Let_def load_num_def load_int_def arith_fast_def)
next
  case False
  then show ?thesis using store_float_loads
    by (auto simp: addi_result_def Let_def load_num_def load_int_def arith_fast_def sint_scast64
        OT_FLOAT_def OT_INTEGER_def)
qed

definition addi_clean :: "'w vm_ops \<Rightarrow> sq_obj list \<Rightarrow> optimizer \<Rightarrow> nat \<Rightarrow> bool" where
  "addi_clean ops lits z i \<longleftrightarrow>
     (fold2_removes z i \<longrightarrow>
        droppable ops lits z (reg (i_arg0 (op_code z ! i))) (reg (i_arg0 (op_code z ! (i + 1)))) (int i + 2))"

lemma addi_old_run:
  assumes a: "num_load (op_code z ! i)" "i_op (op_code z ! (i + 1)) = OPC_ADDI" "i_arg0 (op_code z ! i) = i_arg2 (op_code z ! (i + 1))"
    and len: "i + 2 < length (op_code z)"
    and v: "\<forall>mm. arith_fast mm CHR ''+'' (load_num (op_code z ! i)) (load_int (op_code z ! (i + 1))) = VVal v"
  shows "vm_run (Suc (Suc n)) ops lits (op_code z) dst (int i) R w =
    vm_run n ops lits (op_code z) dst (int i + 2)
      (R(reg (i_arg0 (op_code z ! i)) := load_num (op_code z ! i), reg (i_arg0 (op_code z ! (i + 1))) := v)) w"
proof -
  let ?R = "R(reg (i_arg0 (op_code z ! i)) := load_num (op_code z ! i))"
  have "vm_run (Suc (Suc n)) ops lits (op_code z) dst (int i) R w = vm_run (Suc n) ops lits (op_code z) dst (int (i + 1)) ?R w"
    using run_load [of i "op_code z" "Suc n" ops lits dst R w] len load_num_val [OF a(1), of lits]
    by (simp add: add.commute del: vm_run.simps)
  also have "arith_fast (vo_meta ops w) CHR ''+'' (?R (reg (i_arg2 (op_code z ! (i + 1))))) (load_int (op_code z ! (i + 1))) = VVal v"
    unfolding a(3) [symmetric] using v by simp
  then have "vm_run (Suc n) ops lits (op_code z) dst (int (i + 1)) ?R w =
      vm_run n ops lits (op_code z) dst (int (i + 1) + 1) (?R(reg (i_arg0 (op_code z ! (i + 1))) := v)) w"
    using len a(2) by (intro run_addi) simp_all
  finally show ?thesis by (simp add: add.commute del: vm_run.simps)
qed

lemma fold2_new_run:
  assumes k: "k = (if ra then i else i + 1)" and len: "i + 2 < length code" and a: "load_op (i_op (code ! i))" "load_op (i_op y)"
    and code': "code' = take (Suc k) (code[k := y]) @ drop (i + 2) (code[k := y])"
  shows "vm_run (Suc (k - i) + n) ops lits code' dst (int i) R w =
    vm_run n ops lits code' dst (int k + 1)
      ((if ra then R else R(reg (i_arg0 (code ! i)) := load_val lits (code ! i))) (reg (i_arg0 y) := load_val lits y)) w"
proof -
  have k2: "i \<le> k" "k < length code'" using len k by (auto simp: code' min_def)
  have at: "code' ! j = (if j = k then y else code ! j)" if "j \<le> k" for j
    using that len k k2 by (auto simp: code' nth_append min_def)
  have last: "vm_run (Suc n) ops lits code' dst (int k) R w =
      vm_run n ops lits code' dst (int k + 1) (R(reg (i_arg0 y) := load_val lits y)) w" for R
    using run_load [of k code' n ops lits dst R w] at [of k] k2(2) a(2) by simp
  show ?thesis
  proof (cases ra)
    case True
    then show ?thesis using last [of R] k by (simp del: vm_run.simps)
  next
    case False
    then have kk: "k = Suc i" using k by simp
    show ?thesis using last run_load [of i code' "Suc n" ops lits dst R w] at [of i] k2(2) a(1) False
      by (simp add: kk add.commute del: vm_run.simps)
  qed
qed

lemma addi_parts:
  assumes f: "fold_addi z i = Some z'" and l: "lits_of lits z'" and len: "i + 2 < length (op_code z)"
  obtains ra k y v where "fold2_removes z i = ra" "k = (if ra then i else i + 1)"
    "i_op (op_code z ! (i + 1)) = OPC_ADDI" "num_load (op_code z ! i)" "i_arg0 (op_code z ! i) = i_arg2 (op_code z ! (i + 1))"
    "\<not> isUnsafeJumpRange z i 2" "load_op (i_op y)" "i_arg0 y = i_arg0 (op_code z ! (i + 1))" "load_val lits y = v"
    "op_code z' = take (Suc k) ((op_code z)[k := y]) @ drop (i + 2) ((op_code z)[k := y])"
    "op_jumps z' = (if ra then map (cut_jump (Suc k) 1) (op_jumps z) else op_jumps z)" "lits_of lits z"
    "\<forall>mm. arith_fast mm CHR ''+'' (load_num (op_code z ! i)) (load_int (op_code z ! (i + 1))) = VVal v"
proof -
  define ra where "ra = fold2_removes z i"
  define k where "k = (if ra then i else i + 1)"
  define z1 where "z1 = addi_result z i k"
  have m: "i_op (op_code z ! (i + 1)) = OPC_ADDI" "num_load (op_code z ! i)" "i_arg0 (op_code z ! i) = i_arg2 (op_code z ! (i + 1))"
    "\<not> isUnsafeJumpRange z i 2" and z': "z' = (if ra then cutRange i 2 1 z1 else z1)"
    using f by (auto simp: fold_addi_def Let_def ra_def k_def z1_def split: if_splits)
  have l1: "lits_of lits z1" using l by (simp add: z' lits_of_def cutRange_def Let_def split: if_splits)
  obtain v where v: "loads_at lits k (i_arg0 (op_code z ! (i + 1))) v z z1"
    "\<forall>mm. arith_fast mm CHR ''+'' (load_num (op_code z ! i)) (load_int (op_code z ! (i + 1))) = VVal v"
    using addi_value [OF m(2), of lits k] l1 unfolding z1_def by blast
  obtain y where y: "op_code z1 = (op_code z)[k := y]" "load_op (i_op y)" "i_arg0 y = i_arg0 (op_code z ! (i + 1))"
    "load_val lits y = v" "op_jumps z1 = op_jumps z" "same_frame z z1"
    by (rule loads_atD [OF v(1)])
  have "op_code z' = take (Suc k) ((op_code z)[k := y]) @ drop (i + 2) ((op_code z)[k := y])"
    using append_take_drop_id [of "Suc (i + 1)" "(op_code z)[i + 1 := y]"]
    by (simp add: z' k_def y(1) op_code_cutRange eval_nat_numeral del: append_take_drop_id drop_update_cancel)
  moreover have "op_jumps z' = (if ra then map (cut_jump (Suc k) 1) (op_jumps z) else op_jumps z)"
    using y(5) by (simp add: z' k_def cutRange_def Let_def)
  ultimately show ?thesis
    using that [OF ra_def [symmetric] k_def m y(2,3,4)] same_frame_lits [OF y(6) l1] v(2) by blast
qed

lemma addi_agrees:
  assumes ok: "folding_ok z" and f: "fold_addi z i = Some z'" and l: "lits_of lits z'" and len: "i + 2 < length (op_code z)"
    and clean: "addi_clean ops lits z i"
  shows "folding_ok z' \<and> lits_of lits z \<and> agrees ops lits z z'"
proof -
  obtain ra k y v where r: "fold2_removes z i = ra" and k: "k = (if ra then i else i + 1)"
    and m: "i_op (op_code z ! (i + 1)) = OPC_ADDI" "num_load (op_code z ! i)" "i_arg0 (op_code z ! i) = i_arg2 (op_code z ! (i + 1))"
    and sf: "\<not> isUnsafeJumpRange z i 2" and y: "load_op (i_op y)" "i_arg0 y = i_arg0 (op_code z ! (i + 1))" "load_val lits y = v"
    and code': "op_code z' = take (Suc k) ((op_code z)[k := y]) @ drop (i + 2) ((op_code z)[k := y])"
    and js': "op_jumps z' = (if ra then map (cut_jump (Suc k) 1) (op_jumps z) else op_jumps z)" and lz: "lits_of lits z"
    and v: "\<forall>mm. arith_fast mm CHR ''+'' (load_num (op_code z ! i)) (load_int (op_code z ! (i + 1))) = VVal v"
    by (rule addi_parts [OF f l len]) (rule that)
  have safe: "\<not> isUnsafeJumpRange z i (i + 2 - i)" using sf by simp
  have la: "load_op (i_op (op_code z ! i))" "load_val lits (op_code z ! i) = load_num (op_code z ! i)"
    using load_num_val [OF m(2)] by auto
  have plain: "plain_op (i_op (op_code z ! l))" if "i \<le> l" "l < i + 2" for l
    using that la m(1) by (cases "l = i") (auto simp: plain_op_def le_Suc_eq less_Suc_eq numeral_2_eq_2)
  have loads: "load_op (i_op (op_code z ! l))" if "i \<le> l" "l < k" for l
    using that k la by (cases "l = i") (auto split: if_splits)
  let ?a = "op_code z ! i" and ?d = "reg (i_arg0 (op_code z ! (i + 1)))"
  let ?S = "\<lambda>R. (if ra then R else R(reg (i_arg0 ?a) := load_num ?a))(?d := v)"
  have i2: "int (i + 2) = int i + 2" by simp
  have old: "vm_run (Suc 1 + n) ops lits (op_code z) (op_dst z) (int i) R w =
      vm_run n ops lits (op_code z) (op_dst z) (int (i + 2)) (?S R) w" for n R w
    unfolding i2 using addi_old_run [OF m(2,1,3) len v, of n ops lits "op_dst z" R w] clean r
    by (cases ra) (simp_all add: addi_clean_def drop_register del: vm_run.simps)
  have new: "vm_run (Suc (k - i) + n) ops lits (op_code z') (op_dst z') (int i) R w =
      vm_run n ops lits (op_code z') (op_dst z') (int k + 1) (?S R) w" for n R w
    using fold2_new_run [OF k len la(1) y(1) code', of n ops lits "op_dst z'" R w] y(2,3) la(2)
    by (simp del: vm_run.simps)
  show ?thesis
  proof (cases ra)
    case True
    then have kc: "i \<le> k" "Suc k + 1 = i + 2" "(0::nat) < 1" "i + 2 \<le> length (op_code z)" using k len by auto
    have "op_jumps z' = map (cut_jump (Suc k) 1) (op_jumps z)" using True js' by simp
    from plain_cut_agrees [OF ok kc safe plain y(1) loads code' this old new] lz show ?thesis by blast
  next
    case False
    then have kc: "i \<le> k" "Suc k = i + 2" "i + 2 \<le> length (op_code z)" using k len by auto
    have "op_jumps z' = op_jumps z" using False js' by simp
    from plain_keep_agrees [OF ok kc safe plain y(1) code' this old new] lz show ?thesis by blast
  qed
qed

end
