(* ===== verification/OptJcmp.thy ===== *)
theory OptJcmp
  imports OptRuns
begin

text \<open>
  The foldings that fuse a load and a compare-and-jump, and the removal of empty jumps.
\<close>

subsection \<open>The compare-and-jump instructions\<close>

definition jcmp_result :: "'w vm_ops \<Rightarrow> sq_obj list \<Rightarrow> sq_instr \<Rightarrow> regs \<Rightarrow> 'w \<Rightarrow> int vm_result" where
  "jcmp_result ops lits y R w =
     (let A2 = R (reg (i_arg2 y)); h = vo_heap ops w; mm = vo_meta ops w in
      if i_op y = OPC_JCMP then ObjCmp h mm A2 (R (reg (i_arg0 y)))
      else if i_op y = OPC_JCMPK then ObjCmp h mm A2 (lits ! reg (i_arg0 y))
      else if i_op y = OPC_JCMPI then ObjCmpI A2 (scast (i_arg1 y))
      else ObjCmpF A2 (i_arg1 y))"

definition jcmp_next :: "'w vm_ops \<Rightarrow> sq_instr \<Rightarrow> int vm_result \<Rightarrow> int \<Rightarrow> int \<Rightarrow> regs \<Rightarrow> 'w \<Rightarrow> 'w vm_next" where
  "jcmp_next ops y r dst p R w =
     finish_cmp ops (cmp_res (jcmp_op y)) r (\<lambda>r w. if jcmp_taken y r then Goto dst R w else Goto p R w) w"

definition jcmp_kind :: "sq_opcode \<Rightarrow> bool" where
  "jcmp_kind p \<longleftrightarrow> p = OPC_JCMP \<or> p = OPC_JCMPK \<or> p = OPC_JCMPI \<or> p = OPC_JCMPF"

lemma step_jcmp:
  "jcmp_kind (i_op y) \<Longrightarrow>
   vm_step ops lits y dst pc R w = jcmp_next ops y (jcmp_result ops lits y R w) dst (pc + 1) R w"
  unfolding jcmp_kind_def
  by (elim disjE)
    (simp_all add: jcmp_next_def jcmp_result_def vm_step_def exec_load_def exec_move_def exec_operator_def exec_jump_def Let_def)

lemma finish_cmp_follow:
  assumes "\<And>v w. follow n ops lits code dst (k v w) = follow n ops lits code dst (k' v w)"
  shows "follow n ops lits code dst (finish_cmp ops g r k w) = follow n ops lits code dst (finish_cmp ops g r k' w)"
  using assms
  by (auto simp: finish_cmp_def Let_def split: vm_result.splits sum.splits prod.splits sq_obj.splits option.splits)

lemma jcmp_next_drop:
  assumes "dead ops lits z r d" "dead ops lits z r p"
  shows "follow n ops lits (op_code z) (op_dst z) (jcmp_next ops y c d p (R(r := v)) w) =
    follow n ops lits (op_code z) (op_dst z) (jcmp_next ops y c d p R w)"
  unfolding jcmp_next_def using assms by (intro finish_cmp_follow) (simp add: dead_def)

lemma jcmp_next_map: "map_next f (jcmp_next ops y c d p R w) = jcmp_next ops y c (f d) (f p) R w"
  by (simp add: jcmp_next_def finish_cmp_map map_next_if cong: if_cong)

lemma jcmp_next_goes: "P d \<Longrightarrow> P p \<Longrightarrow> goes_to P (jcmp_next ops y c d p R w)"
  unfolding jcmp_next_def by (intro finish_cmp_goes) simp

subsection \<open>The fused instruction\<close>

text \<open>\<open>y\<close> compares with the value \<open>a\<close> loads and jumps as \<open>p\<close> does; \<open>b\<close> if its offset is in \<open>arg0\<close>.\<close>

definition fuses :: "sq_obj list \<Rightarrow> sq_instr \<Rightarrow> sq_instr \<Rightarrow> sq_instr \<Rightarrow> bool \<Rightarrow> bool" where
  "fuses lits a p y b \<longleftrightarrow>
     i_arg2 y = i_arg2 p \<and> i_arg3 y = i_arg3 p \<and> b = arg0_jump (i_op y) \<and> jump_ofs y = sarg1 p \<and>
     (i_op y = OPC_JCMPK \<and> lits ! reg (i_arg0 y) = load_val lits a \<or>
      i_op y = OPC_JCMPI \<and> load_val lits a = SQInteger (scast (i_arg1 y)) \<or>
      i_op y = OPC_JCMPF \<and> i_op a = OPC_LOADFLOAT \<and> load_val lits a = SQFloat (i_arg1 y))"

definition jcmp_clean :: "'w vm_ops \<Rightarrow> sq_obj list \<Rightarrow> optimizer \<Rightarrow> nat \<Rightarrow> bool" where
  "jcmp_clean ops lits z i \<longleftrightarrow>
     (let a = op_code z ! i in
      (i_op a = OPC_LOAD \<longrightarrow> 0 \<le> sarg1 a) \<and> (i_op a = OPC_LOADFLOAT \<longrightarrow> \<not> flt_is_nan (i_arg1 a)) \<and>
      (fold2_removes z i \<longrightarrow>
         dead ops lits z (reg (i_arg0 a)) (int i + 2) \<and> dead ops lits z (reg (i_arg0 a)) (op_dst z (i + 1))))"

lemma fused_result:
  assumes f: "fuses lits a p y b" and p: "i_op p = OPC_JCMP" "i_arg0 a = i_arg0 p" "i_arg0 a \<noteq> i_arg2 p"
    and nan: "\<And>x. i_op y = OPC_JCMPF \<Longrightarrow> load_val lits a = SQFloat x \<Longrightarrow> \<not> flt_is_nan x"
  shows "jcmp_result ops lits p (R(reg (i_arg0 a) := load_val lits a)) w = jcmp_result ops lits y R w"
    and "jcmp_result ops lits y (R(reg (i_arg0 a) := load_val lits a)) w = jcmp_result ops lits y R w"
    and "jcmp_next ops y c d q R w = jcmp_next ops p c d q R w" and "jcmp_kind (i_op y)" and "recorded (i_op y)"
proof -
  have n: "reg (i_arg2 p) \<noteq> reg (i_arg0 a)" using p(3) by (simp add: reg_inject)
  show "jcmp_result ops lits p (R(reg (i_arg0 a) := load_val lits a)) w = jcmp_result ops lits y R w"
    using f p n nan ObjCmpI_is_ObjCmp ObjCmpF_is_ObjCmp by (auto simp: fuses_def jcmp_result_def Let_def)
  show "jcmp_result ops lits y (R(reg (i_arg0 a) := load_val lits a)) w = jcmp_result ops lits y R w"
    using f n by (auto simp: fuses_def jcmp_result_def Let_def)
  show "jcmp_next ops y c d q R w = jcmp_next ops p c d q R w"
    using f by (simp add: fuses_def jcmp_next_def jcmp_op_def jcmp_taken_def cong: if_cong)
  show "jcmp_kind (i_op y)" "recorded (i_op y)" using f by (auto simp: fuses_def jcmp_kind_def recorded_def jumps_op_def)
qed

lemma fits_signed_byte: "- 128 \<le> x \<Longrightarrow> x \<le> 127 \<Longrightarrow> sint (word_of_int x :: u8) = x"
  by (simp add: sint_sbintrunc' signed_take_bit_int_eq_self)

lemma ucast_signed: "(ucast (x :: u32) :: u8) = word_of_int (sint x)"
  by transfer (simp add: take_bit_signed_take_bit)

lemma small_reg1: "0 \<le> sarg1 a \<Longrightarrow> sarg1 a \<le> 255 \<Longrightarrow> reg (ucast (i_arg1 a)) = reg1 a"
proof -
  assume a: "0 \<le> sarg1 a" "sarg1 a \<le> 255"
  have "uint (word_of_int n :: u32) = n" if "0 \<le> n" "n \<le> 255" for n
    using that by (simp add: unsigned_of_int take_bit_int_eq_self)
  from this [of "sint (i_arg1 a)"] have "uint (i_arg1 a) < 256" using a by (simp add: sarg1_def)
  then have "i_arg1 a < 256" by (simp add: word_less_def)
  then have "unat (i_arg1 a) < 256" by (simp add: word_less_nat_alt)
  then show ?thesis by (simp add: reg_def reg1_def unsigned_ucast_eq take_bit_nat_eq_self)
qed

lemma jcmp_fused_fuses:
  assumes m: "jcmp_matches z i" and f: "jcmp_fused z i k = Some (b, z1)" and l: "lits_of lits z1"
    and c: "i_op (op_code z ! i) = OPC_LOAD \<longrightarrow> 0 \<le> sarg1 (op_code z ! i)"
  shows "\<exists>y. op_code z1 = (op_code z)[k := y] \<and> same_frame z z1 \<and> fuses lits (op_code z ! i) (op_code z ! (i + 1)) y b"
proof -
  define a where "a = op_code z ! i"
  define p where "p = op_code z ! (i + 1)"
  have op: "num_load a \<or> i_op a = OPC_LOAD" "sarg1 a \<le> 255 \<or> i_op a \<noteq> OPC_LOAD"
    using m by (auto simp: jcmp_matches_def Let_def a_def p_def)
  show ?thesis
  proof (cases "i_op a = OPC_LOAD")
    case True
    define y where "y = (op_code z ! k)\<lparr>i_arg1 := i_arg1 p, i_arg2 := i_arg2 p, i_arg3 := i_arg3 p, i_arg0 := ucast (i_arg1 a), i_op := OPC_JCMPK\<rparr>"
    have "op_code z1 = (op_code z)[k := y]" "same_frame z z1" "\<not> b"
      using f True by (auto simp: jcmp_fused_def Let_def y_def a_def p_def same_frame_def set_instr_def)
    moreover have "fuses lits a p y False"
      using True small_reg1 [of a] op c by (simp add: fuses_def y_def arg0_jump_def jump_ofs_def sarg1_def load_val_def a_def)
    ultimately show ?thesis unfolding a_def p_def by auto
  next
    case False
    show ?thesis
    proof (cases "sarg1 p < - 128 \<or> sarg1 p > 127")
      case True
      then obtain cc zc where gc: "GetConstant (jcmp_constant a) (Some 255) z = (Some cc, zc)"
        and z1: "\<not> b" "z1 = set_instr k (\<lambda>x. x\<lparr>i_arg1 := i_arg1 p, i_arg2 := i_arg2 p, i_arg3 := i_arg3 p, i_arg0 := word_of_nat cc, i_op := OPC_JCMPK\<rparr>) zc"
        using f False by (auto simp: jcmp_fused_def Let_def a_def p_def split: prod.splits option.splits)
      define y where "y = (op_code z ! k)\<lparr>i_arg1 := i_arg1 p, i_arg2 := i_arg2 p, i_arg3 := i_arg3 p, i_arg0 := word_of_nat cc, i_op := OPC_JCMPK\<rparr>"
      have lit: "cc < length (op_lits zc)" "op_lits zc ! cc = jcmp_constant a" "cc \<le> 255"
        using GetConstant_lits(2) [OF gc refl] by auto
      have "reg (word_of_nat cc) = cc" using lit(3) by (simp add: reg_def unsigned_of_nat take_bit_nat_eq_self)
      moreover obtain xs where "lits = op_lits zc @ xs" using l by (auto simp: z1 lits_of_def set_instr_def)
      ultimately have "lits ! reg (i_arg0 y) = jcmp_constant a" using lit by (simp add: y_def nth_append)
      then have "fuses lits a p y False"
        using False op by (auto simp: fuses_def y_def arg0_jump_def jump_ofs_def sarg1_def load_val_def jcmp_constant_def num_load_def)
      moreover have "op_code z1 = (op_code z)[k := y]" "same_frame z z1"
        using GetConstant_code [OF gc] GetConstant_frame [OF gc] by (simp_all add: z1 y_def)
      ultimately show ?thesis using z1(1) unfolding a_def p_def by auto
    next
      case s: False
      define y where "y = (op_code z ! k)\<lparr>i_arg3 := i_arg3 p, i_arg1 := i_arg1 a, i_arg2 := i_arg2 p, i_arg0 := ucast (i_arg1 p),
        i_op := (if i_op a = OPC_LOADINT then OPC_JCMPI else OPC_JCMPF)\<rparr>"
      have "b" "z1 = set_instr k (\<lambda>x. x\<lparr>i_arg3 := i_arg3 p, i_arg1 := i_arg1 a, i_arg2 := i_arg2 p, i_arg0 := ucast (i_arg1 p),
          i_op := (if i_op a = OPC_LOADINT then OPC_JCMPI else OPC_JCMPF)\<rparr>) z"
        using f False s by (auto simp: jcmp_fused_def Let_def a_def p_def)
      moreover have "fuses lits a p y True"
        using False op s fits_signed_byte [of "sint (i_arg1 p)"]
        by (auto simp: fuses_def y_def arg0_jump_def jump_ofs_def sarg0_def sarg1_def ucast_signed load_val_def load_int_def num_load_def)
      ultimately show ?thesis unfolding a_def p_def by (intro exI [of _ y]) (simp add: y_def a_def p_def same_frame_def set_instr_def)
    qed
  qed
qed

subsection \<open>The record of the fused jump\<close>

definition retag :: "bool \<Rightarrow> nat \<Rightarrow> jump_rec list \<Rightarrow> jump_rec list" where
  "retag b k js = (if b then retag_jump k js else js)"

definition retagged :: "bool \<Rightarrow> jump_rec \<Rightarrow> jump_rec" where
  "retagged b j = (if b then j\<lparr>jp_arg := JUMP_ARG0\<rparr> else j)"

lemma retagged_simps [simp]:
  "jp_index (retagged b j) = jp_index j" "jp_to (retagged b j) = jp_to j" "jp_originalTo (retagged b j) = jp_originalTo j"
  "jp_originalIndex (retagged b j) = jp_originalIndex j" "jp_modified (retagged b j) = jp_modified j"
  "jp_arg (retagged b j) = (if b then JUMP_ARG0 else jp_arg j)" "real_to x (retagged b j) = real_to x j"
  by (simp_all add: retagged_def real_to_def)

lemma retag_index [simp]: "map jp_index (retag b k js) = map jp_index js"
  unfolding retag_def by (induction js) auto

lemma recs_at_retag_jump:
  "recs_at (retag_jump k js) l =
     (if l = int k then (case recs_at js l of [] \<Rightarrow> [] | j # gs \<Rightarrow> j\<lparr>jp_arg := JUMP_ARG0\<rparr> # gs) else recs_at js l)"
  by (induction js) (auto simp: recs_at_def)

lemma recs_at_retag:
  "recs_at (retag b k js) l = (if l = int k then (case recs_at js l of [] \<Rightarrow> [] | j # gs \<Rightarrow> retagged b j # gs) else recs_at js l)"
  by (auto simp: retag_def retagged_def recs_at_retag_jump split: list.splits)

lemma live_recs_index: "live_recs code js \<longleftrightarrow> (\<forall>x \<in> set (map jp_index js). 0 \<le> x \<and> nat x < length code \<and> recorded (i_op (code ! nat x)))"
  by (simp add: live_recs_def)

lemma wf_retag:
  assumes w: "wf_except (\<lambda>l. l = k) code js" and r: "recs_at js (int k) = j # gs" "wf_rec code k (retagged b j)"
  shows "wf_jumps code (retag b k js)"
proof -
  have "\<exists>j gs. recs_at (retag b k js) (int l) = j # gs \<and> wf_rec code l j" if "l < length code" "jumps_op (i_op (code ! l))" for l
  proof (cases "l = k")
    case True
    then show ?thesis using r by (simp add: recs_at_retag)
  next
    case False
    then show ?thesis using w that unfolding wf_except_def by (simp add: recs_at_retag)
  qed
  moreover have "\<forall>g \<in> set gs. ghost g" using w r(1) unfolding wf_except_def by (metis list.sel(3))
  then have "\<forall>g \<in> set (tl (recs_at (retag b k js) l)). ghost g" for l
    using w r(1) by (auto simp: wf_except_def recs_at_retag)
  ultimately show ?thesis using w unfolding wf_except_def by simp
qed

lemma jcmp_parts:
  assumes f: "fold_jcmp z i = Some z'" and l: "lits_of lits z'" and len: "i + 2 < length (op_code z)"
    and c: "i_op (op_code z ! i) = OPC_LOAD \<longrightarrow> 0 \<le> sarg1 (op_code z ! i)"
  obtains ra k y b where "fold2_removes z i = ra" "k = (if ra then i else i + 1)" "jcmp_matches z i"
    "fuses lits (op_code z ! i) (op_code z ! (i + 1)) y b"
    "op_code z' = take (Suc k) ((op_code z)[k := y]) @ drop (i + 2) ((op_code z)[k := y])"
    "op_jumps z' = retag b k (if ra then map (cut_jump (Suc i) 1) (op_jumps z) else op_jumps z)" "lits_of lits z"
proof -
  define ra where "ra = fold2_removes z i"
  define k where "k = (if ra then i else i + 1)"
  have m: "jcmp_matches z i" using f by (auto simp: fold_jcmp_def Let_def split: if_splits)
  define cutz where "cutz = (\<lambda>z1. if ra then cutRange i 2 1 z1 else z1)"
  have eq: "fold_jcmp z i = map_option (\<lambda>(b, z1). (if b then cutz z1\<lparr>op_jumps := retag_jump k (op_jumps (cutz z1))\<rparr> else cutz z1)\<lparr>op_changed := True\<rparr>)
      (jcmp_fused z i k)"
    unfolding fold_jcmp_def Let_def ra_def k_def cutz_def using m by (cases "fold2_removes z i") simp_all
  obtain b z1 where z1: "jcmp_fused z i k = Some (b, z1)"
    and zz: "z' = (if b then cutz z1\<lparr>op_jumps := retag_jump k (op_jumps (cutz z1))\<rparr> else cutz z1)\<lparr>op_changed := True\<rparr>"
    using f unfolding eq by auto
  have z': "op_code z' = op_code (cutz z1)" "op_jumps z' = retag b k (op_jumps (cutz z1))" "op_lits z' = op_lits z1"
    by (simp_all add: zz retag_def cutz_def cutRange_def Let_def)
  have l1: "lits_of lits z1" using l by (simp add: lits_of_def z'(3))
  obtain y where y: "op_code z1 = (op_code z)[k := y]" "same_frame z z1" "fuses lits (op_code z ! i) (op_code z ! (i + 1)) y b"
    using jcmp_fused_fuses [OF m z1 l1 c] by blast
  have "op_code z' = take (Suc k) ((op_code z)[k := y]) @ drop (i + 2) ((op_code z)[k := y])"
    using append_take_drop_id [of "Suc (i + 1)" "(op_code z)[i + 1 := y]"]
    by (simp add: z'(1) cutz_def k_def y(1) op_code_cutRange eval_nat_numeral del: append_take_drop_id drop_update_cancel)
  moreover have "op_jumps z' = retag b k (if ra then map (cut_jump (Suc i) 1) (op_jumps z) else op_jumps z)"
    using y(2) by (simp add: z'(2) cutz_def cutRange_def Let_def same_frame_def)
  ultimately show ?thesis using that [OF ra_def [symmetric] k_def m y(3)] same_frame_lits [OF y(2) l1] by blast
qed

text \<open>The record moves with the jump, whose direction and distance stay within its offset.\<close>

lemma fused_rec:
  assumes w: "wf_rec code (i + 1) j" and p: "i_op (code ! (i + 1)) = OPC_JCMP" and f: "fuses lits a (code ! (i + 1)) y b"
    and to: "\<not> (int i < jp_to j \<and> jp_to j < int i + 2)" and len: "i + 2 < length code"
  shows "code' ! i = y \<Longrightarrow> length code' = length code - 1 \<Longrightarrow> wf_rec code' i (retagged b (cut_jump (Suc i) 1 j))"
    and "code' ! (i + 1) = y \<Longrightarrow> length code' = length code \<Longrightarrow> wf_rec code' (i + 1) (retagged b j)"
proof -
  let ?p = "code ! (i + 1)"
  have op: "i_op y \<noteq> OPC_NULLCOALESCE" "b = arg0_jump (i_op y)" "jump_ofs y = sarg1 ?p"
    using f by (auto simp: fuses_def)
  have o: "jump_ofs ?p = sarg1 ?p" using p by (simp add: jump_ofs_def arg0_jump_def)
  have r: "jp_index j = int (i + 1)" "jp_arg j = JUMP_ARG1" "sarg1 ?p = jp_originalTo j - jp_originalIndex j - 1"
    "shrunk (sarg1 ?p) (jp_to j - int (i + 1) - 1)"
    "\<not> jp_modified j \<longrightarrow> jp_to j = jp_originalTo j \<and> jp_index j = jp_originalIndex j" "0 \<le> jp_to j" "jp_to j < int (length code)"
    using w o p unfolding wf_rec_def Let_def by (auto simp: arg0_jump_def real_to_def)
  show "code' ! (i + 1) = y \<Longrightarrow> length code' = length code \<Longrightarrow> wf_rec code' (i + 1) (retagged b j)"
    using r op unfolding wf_rec_def Let_def by (simp add: real_to_def)
  have "shrunk (sarg1 ?p) (cut_pos (int (Suc i)) 1 (jp_to j) - int i - 1)"
    using r(4) to by (auto simp: shrunk_def cut_pos_def)
  moreover have "0 \<le> cut_pos (int (Suc i)) 1 (jp_to j)" "cut_pos (int (Suc i)) 1 (jp_to j) < int (length code - 1)"
    using r(6,7) to len by (auto simp: cut_pos_def)
  ultimately show "code' ! i = y \<Longrightarrow> length code' = length code - 1 \<Longrightarrow> wf_rec code' i (retagged b (cut_jump (Suc i) 1 j))"
    using r op unfolding wf_rec_def Let_def by (simp add: real_to_def cut_jump_modified)
qed

subsection \<open>Fusing keeps the outcomes\<close>

text \<open>The facts about the two instructions that the cases below share.\<close>

lemma jcmp_setting:
  assumes ok: "folding_ok z" and m: "jcmp_matches z i" and len: "i + 2 < length (op_code z)"
  obtains j gs where "recs_at (op_jumps z) (int (i + 1)) = j # gs" "wf_rec (op_code z) (i + 1) j" "op_dst z (i + 1) = jp_to j"
    "\<not> (int i < jp_to j \<and> jp_to j < int i + 2)" "recs_at (op_jumps z) (int i) = []" "load_op (i_op (op_code z ! i))"
    "i_op (op_code z ! (i + 1)) = OPC_JCMP" "i_arg0 (op_code z ! i) = i_arg0 (op_code z ! (i + 1))"
    "i_arg0 (op_code z ! i) \<noteq> i_arg2 (op_code z ! (i + 1))"
proof -
  have p: "i_op (op_code z ! (i + 1)) = OPC_JCMP" and a: "num_load (op_code z ! i) \<or> i_op (op_code z ! i) = OPC_LOAD"
    and safe: "\<not> isUnsafeJumpRange z i 2" and args: "i_arg0 (op_code z ! i) = i_arg0 (op_code z ! (i + 1))"
    "i_arg0 (op_code z ! i) \<noteq> i_arg2 (op_code z ! (i + 1))"
    using m unfolding jcmp_matches_def Let_def by blast+
  have w: "wf_jumps (op_code z) (op_jumps z)" "live_recs (op_code z) (op_jumps z)" using ok by (simp_all add: folding_ok_def)
  obtain j gs where j: "recs_at (op_jumps z) (int (i + 1)) = j # gs" "wf_rec (op_code z) (i + 1) j"
    using wf_exceptD [OF w(1), of "i + 1"] len p by (auto simp: jumps_op_def)
  have ld: "load_op (i_op (op_code z ! i))" using a by (auto simp: num_load_def load_op_def)
  have "op_dst z (i + 1) = jp_to j" unfolding op_dst_def j(1) using p by (simp add: real_to_def)
  moreover have "\<not> (int i < jp_to j \<and> jp_to j < int i + 2)"
    using safe recs_at_in [OF j(1)] by (auto simp: isUnsafeJumpRange_def)
  moreover have "recs_at (op_jumps z) (int i) = []" using live_recs_at [OF w(2), of i] ld len by (simp add: plain_op_def)
  ultimately show ?thesis using that [OF j] ld p args by blast
qed

lemma jcmp_old_run:
  assumes ld: "load_op (i_op (op_code z ! i))" and p: "i_op (op_code z ! (i + 1)) = OPC_JCMP" and len: "i + 2 < length (op_code z)"
  shows "vm_run (Suc 1 + n) ops lits (op_code z) dst (int i) R w =
    follow n ops lits (op_code z) dst
      (let S = R(reg (i_arg0 (op_code z ! i)) := load_val lits (op_code z ! i)) in
       jcmp_next ops (op_code z ! (i + 1)) (jcmp_result ops lits (op_code z ! (i + 1)) S w) (dst (i + 1)) (int i + 2) S w)"
proof -
  let ?S = "R(reg (i_arg0 (op_code z ! i)) := load_val lits (op_code z ! i))"
  have "vm_run (Suc 1 + n) ops lits (op_code z) dst (int i) R w = vm_run (Suc n) ops lits (op_code z) dst (int (i + 1)) ?S w"
    using run_load [of i "op_code z" "Suc n" ops lits dst R w] len ld by (simp add: add.commute del: vm_run.simps)
  also have "\<dots> = follow n ops lits (op_code z) dst (vm_step ops lits (op_code z ! (i + 1)) (dst (i + 1)) (int (i + 1)) ?S w)"
    using len unfolding vm_run_Suc nat_int by simp
  also have "vm_step ops lits (op_code z ! (i + 1)) (dst (i + 1)) (int (i + 1)) ?S w =
      jcmp_next ops (op_code z ! (i + 1)) (jcmp_result ops lits (op_code z ! (i + 1)) ?S w) (dst (i + 1)) (int (i + 1) + 1) ?S w"
    using p by (intro step_jcmp) (simp add: jcmp_kind_def)
  also have "int (i + 1) + 1 = int i + 2" by simp
  finally show ?thesis by (simp only: Let_def)
qed

lemma jcmp_wf_cut:
  assumes ok: "folding_ok z" and m: "jcmp_matches z i" and len: "i + 2 < length (op_code z)"
    and f: "fuses lits (op_code z ! i) (op_code z ! (i + 1)) y b" and np: "recorded (i_op y)"
    and code': "op_code z' = take (Suc i) ((op_code z)[i := y]) @ drop (i + 2) ((op_code z)[i := y])"
    and js': "op_jumps z' = retag b i (map (cut_jump (Suc i) 1) (op_jumps z))"
  shows "can_cut (op_code z) (op_jumps z) i (Suc i) 1" and "folding_ok z'"
    and "op_dst z' i = cut_pos (int (Suc i)) 1 (op_dst z (i + 1))"
proof -
  obtain j gs where j: "recs_at (op_jumps z) (int (i + 1)) = j # gs" "wf_rec (op_code z) (i + 1) j" "op_dst z (i + 1) = jp_to j"
    "\<not> (int i < jp_to j \<and> jp_to j < int i + 2)" "recs_at (op_jumps z) (int i) = []" "load_op (i_op (op_code z ! i))"
    "i_op (op_code z ! (i + 1)) = OPC_JCMP"
    using jcmp_setting [OF ok m len] by metis
  have w: "wf_jumps (op_code z) (op_jumps z)" and live: "live_recs (op_code z) (op_jumps z)" using ok by (simp_all add: folding_ok_def)
  have safe: "\<not> isUnsafeJumpRange z i 2" using m unfolding jcmp_matches_def Let_def by blast
  have "i_op (op_code z ! l) \<noteq> OPC_MOVE" if "i \<le> l" "l < Suc i + 1" for l
    using that j(6,7) by (cases "l = i") (auto simp: load_op_def less_Suc_eq le_less)
  moreover have "recs_at (op_jumps z) (k - int 1) = []" if "int (Suc i) \<le> k" "k < int (Suc i + 1)" for k
  proof -
    have "k - int 1 = int i" using that by simp
    then show ?thesis using j(5) by simp
  qed
  ultimately show cc: "can_cut (op_code z) (op_jumps z) i (Suc i) 1"
    using len safe by (auto simp: can_cut_def cuttable_def isUnsafeJumpRange_def)
  have upd: "length ((op_code z)[i := y]) = length (op_code z)"
    "\<And>l. l < length (op_code z) \<Longrightarrow> \<not> (i \<le> l \<and> l < Suc i + 1) \<Longrightarrow> (op_code z)[i := y] ! l = op_code z ! l" by auto
  have c': "op_code z' = take (Suc i) ((op_code z)[i := y]) @ drop (Suc i + 1) ((op_code z)[i := y])" using code' by simp
  have y': "op_code z' ! i = y" using len by (simp add: code' nth_append)
  have l': "length (op_code z') = length (op_code z) - 1" using len by (simp add: code')
  have "wf_except (\<lambda>k. i \<le> k \<and> k < Suc i) (op_code z') (map (cut_jump (Suc i) 1) (op_jumps z))"
    by (rule cut_wf [where q = "\<lambda>_. False", OF w cc _ upd c']) simp
  moreover have "(\<lambda>k. i \<le> k \<and> k < Suc i) = (\<lambda>k. k = i)" by (auto simp: fun_eq_iff)
  moreover have r: "recs_at (map (cut_jump (Suc i) 1) (op_jumps z)) (int i) = cut_jump (Suc i) 1 j # map (cut_jump (Suc i) 1) gs"
    using recs_at_cut [of "op_jumps z" 1 "Suc i" "int i"] w j(1,5) by (simp add: wf_except_def add.commute)
  ultimately have "wf_jumps (op_code z') (op_jumps z')"
    using wf_retag [OF _ r] fused_rec(1) [OF j(2,7) f j(4) len y' l'] unfolding js' by simp
  moreover have "live_recs (op_code z') (op_jumps z')"
    unfolding live_recs_index js' retag_index
  proof
    fix x assume "x \<in> set (map jp_index (map (cut_jump (Suc i) 1) (op_jumps z)))"
    then obtain r where r: "r \<in> set (op_jumps z)" "x = jp_index (cut_jump (Suc i) 1 r)" by auto
    then have k: "0 \<le> jp_index r" "nat (jp_index r) < length (op_code z)" "recorded (i_op (op_code z ! nat (jp_index r)))"
      using live by (auto simp: live_recs_def)
    show "0 \<le> x \<and> nat x < length (op_code z') \<and> recorded (i_op (op_code z' ! nat x))"
    proof (cases "jp_index r = int i + 1")
      case True
      then have "x = int i" using r(2) by simp
      then show ?thesis using y' np len by (simp add: code')
    next
      case False
      moreover have "jp_index r \<noteq> int i" using k j(6) recorded_not_plain by (auto simp: plain_op_def)
      ultimately have o: "\<not> (i \<le> nat (jp_index r) \<and> nat (jp_index r) < Suc i + 1)" using k(1) by auto
      have "x = cut_pos (int (Suc i)) (int 1) (int (nat (jp_index r)))" "0 \<le> x"
        using o k(1) r(2) by (auto simp: cut_pos_def)
      then show ?thesis using nth_cut [of "Suc i" 1 "(op_code z)[i := y]" i "nat (jp_index r)"] o k len upd(2) c' by simp
    qed
  qed
  ultimately show "folding_ok z'" by (simp add: folding_ok_def)
  show "op_dst z' i = cut_pos (int (Suc i)) 1 (op_dst z (i + 1))"
    unfolding j(3) using r y' f by (auto simp: op_dst_def [of z' i] js' recs_at_retag real_to_def fuses_def)
qed

lemma jcmp_wf_keep:
  assumes ok: "folding_ok z" and m: "jcmp_matches z i" and len: "i + 2 < length (op_code z)"
    and f: "fuses lits (op_code z ! i) (op_code z ! (i + 1)) y b" and np: "recorded (i_op y)"
    and code': "op_code z' = (op_code z)[i + 1 := y]" and js': "op_jumps z' = retag b (i + 1) (op_jumps z)"
  shows "folding_ok z'" and "op_dst z' (i + 1) = op_dst z (i + 1)"
proof -
  obtain j gs where j: "recs_at (op_jumps z) (int (i + 1)) = j # gs" "wf_rec (op_code z) (i + 1) j" "op_dst z (i + 1) = jp_to j"
    "\<not> (int i < jp_to j \<and> jp_to j < int i + 2)" "i_op (op_code z ! (i + 1)) = OPC_JCMP"
    using jcmp_setting [OF ok m len] by metis
  have w: "wf_jumps (op_code z) (op_jumps z)" and live: "live_recs (op_code z) (op_jumps z)" using ok by (simp_all add: folding_ok_def)
  have y': "op_code z' ! (i + 1) = y" using len by (simp add: code')
  have l': "length (op_code z') = length (op_code z)" by (simp add: code')
  have "wf_rec (op_code z') l r" if "wf_rec (op_code z) l r" "l \<noteq> i + 1" for l r
  proof (rule wf_rec_cong [OF that(1)])
    show "length (op_code z') = length (op_code z)" "op_code z' ! l = op_code z ! l" using that(2) by (simp_all add: code')
    assume "i_op (op_code z ! l) = OPC_NULLCOALESCE"
    from wf_rec_move [OF that(1) this] have "nat (jp_to r) \<noteq> i + 1" using j(5) by auto
    then show "op_code z' ! nat (jp_to r) = op_code z ! nat (jp_to r)" by (simp add: code')
  qed
  moreover have "op_code z' ! l = op_code z ! l" if "l \<noteq> i + 1" for l using that by (simp add: code')
  ultimately have "wf_except (\<lambda>l. l = i + 1) (op_code z') (op_jumps z)"
    using w unfolding wf_except_def code' length_list_update by metis
  then have "wf_jumps (op_code z') (op_jumps z')"
    unfolding js' using fused_rec(2) [OF j(2,5) f j(4) len y' l'] by (intro wf_retag [OF _ j(1)]) simp_all
  moreover have "live_recs (op_code z') (op_jumps z')"
    using live np len unfolding live_recs_index js' retag_index code' by (auto simp: nth_list_update)
  ultimately show "folding_ok z'" by (simp add: folding_ok_def)
  show "op_dst z' (i + 1) = op_dst z (i + 1)"
    unfolding j(3) using j(1) y' f by (auto simp: op_dst_def js' recs_at_retag real_to_def fuses_def)
qed

lemma jcmp_agrees:
  assumes ok: "folding_ok z" and f: "fold_jcmp z i = Some z'" and l: "lits_of lits z'" and len: "i + 2 < length (op_code z)"
    and clean: "jcmp_clean ops lits z i"
  shows "folding_ok z' \<and> lits_of lits z \<and> agrees ops lits z z'"
proof -
  let ?a = "op_code z ! i" and ?p = "op_code z ! (i + 1)"
  have cl: "i_op ?a = OPC_LOAD \<longrightarrow> 0 \<le> sarg1 ?a" "i_op ?a = OPC_LOADFLOAT \<longrightarrow> \<not> flt_is_nan (i_arg1 ?a)"
    "fold2_removes z i \<Longrightarrow> dead ops lits z (reg (i_arg0 ?a)) (int i + 2) \<and> dead ops lits z (reg (i_arg0 ?a)) (op_dst z (i + 1))"
    using clean by (auto simp: jcmp_clean_def Let_def)
  obtain ra k y b where ra: "fold2_removes z i = ra" and k: "k = (if ra then i else i + 1)" and m: "jcmp_matches z i"
    and fu: "fuses lits ?a ?p y b"
    and code': "op_code z' = take (Suc k) ((op_code z)[k := y]) @ drop (i + 2) ((op_code z)[k := y])"
    and js': "op_jumps z' = retag b k (if ra then map (cut_jump (Suc i) 1) (op_jumps z) else op_jumps z)"
    and lz: "lits_of lits z"
    by (rule jcmp_parts [OF f l len cl(1)]) (rule that)
  obtain j :: jump_rec where j: "op_dst z (i + 1) = jp_to j" "\<not> (int i < jp_to j \<and> jp_to j < int i + 2)"
    and ld: "load_op (i_op ?a)" and p: "i_op ?p = OPC_JCMP" "i_arg0 ?a = i_arg0 ?p" "i_arg0 ?a \<noteq> i_arg2 ?p"
    by (rule jcmp_setting [OF ok m len]) (use that in blast)
  have nan: "\<not> flt_is_nan x" if "i_op y = OPC_JCMPF" "load_val lits ?a = SQFloat x" for x
    using that fu cl(2) by (auto simp: fuses_def load_val_def)
  note fused = fused_result [OF fu p nan]
  let ?S = "\<lambda>R. if ra then R else R(reg (i_arg0 ?a) := load_val lits ?a)"
  let ?t = "\<lambda>R w. jcmp_next ops ?p (jcmp_result ops lits y R w) (op_dst z (i + 1)) (int i + 2) (?S R) w"
  have old: "vm_run (Suc 1 + n) ops lits (op_code z) (op_dst z) (int i) R w = follow n ops lits (op_code z) (op_dst z) (?t R w)" for n R w
    using jcmp_old_run [OF ld p(1) len, of n ops lits "op_dst z" R w] fused(1) [of ops R w] cl(3) ra
    by (cases ra) (simp_all add: jcmp_next_drop Let_def)
  have outs: "goes_to (\<lambda>q. \<not> (int i < q \<and> q < int (i + 2))) (?t R w)" for R w
    by (rule jcmp_next_goes) (use j in auto)
  have ok': "wf_jumps (op_code z) (op_jumps z)" using ok by (simp add: folding_ok_def)
  show ?thesis
  proof (cases ra)
    case True
    then have c': "op_code z' = take (Suc i) ((op_code z)[i := y]) @ drop (i + 2) ((op_code z)[i := y])"
      and j': "op_jumps z' = retag b i (map (cut_jump (Suc i) 1) (op_jumps z))" using code' js' k by simp_all
    note wf = jcmp_wf_cut [OF ok m len fu fused(5) c' j']
    have y': "op_code z' ! i = y" "i < length (op_code z')" using len by (simp_all add: c' nth_append)
    have new: "vm_run (Suc 0 + n) ops lits (op_code z') (op_dst z') (int i) R w =
        follow n ops lits (op_code z') (op_dst z') (map_next (cut_pos (int (Suc i)) (int 1)) (?t R w))" for n R w
    proof -
      have "vm_run (Suc n) ops lits (op_code z') (op_dst z') (int i) R w =
          follow n ops lits (op_code z') (op_dst z') (vm_step ops lits y (op_dst z' i) (int i) R w)"
        using y' unfolding vm_run_Suc nat_int by simp
      also have "vm_step ops lits y (op_dst z' i) (int i) R w =
          jcmp_next ops ?p (jcmp_result ops lits y R w) (op_dst z' i) (int i + 1) R w"
        using step_jcmp [OF fused(4)] fused(3) by metis
      also have "int i + 1 = cut_pos (int (Suc i)) (int 1) (int i + 2)" by (simp add: cut_pos_def)
      also have "op_dst z' i = cut_pos (int (Suc i)) (int 1) (op_dst z (i + 1))" using wf(3) by simp
      finally show ?thesis using True by (simp add: jcmp_next_map del: vm_run.simps)
    qed
    have "matching ops lits (op_code z) (op_dst z) (op_code z') (op_dst z') (cut_pos (int (Suc i)) (int 1)) (int i) (int (Suc i + 1)) 1 (Suc 0)"
    proof (rule cut_matching [OF ok' wf(1), of "(op_code z)[i := y]"])
      show "op_code z' = take (Suc i) ((op_code z)[i := y]) @ drop (Suc i + 1) ((op_code z)[i := y])" using c' by simp
      show "recs_at (op_jumps z') l = recs_at (map (cut_jump (Suc i) 1) (op_jumps z)) l" if "\<not> (int i \<le> l \<and> l < int (Suc i))" for l
        using that by (auto simp: j' recs_at_retag)
      show "\<exists>t. (\<forall>n. vm_run (Suc 1 + n) ops lits (op_code z) (op_dst z) (int i) R w = follow n ops lits (op_code z) (op_dst z) t) \<and>
          (\<forall>n. vm_run (Suc 0 + n) ops lits (op_code z') (op_dst z') (int i) R w =
            follow n ops lits (op_code z') (op_dst z') (map_next (cut_pos (int (Suc i)) (int 1)) t)) \<and>
          goes_to (\<lambda>q. \<not> (int i < q \<and> q < int (Suc i + 1)) \<and> (Suc 0 = 0 \<longrightarrow> q \<noteq> int i)) t" for R w
        using outs [of R w] unfolding old new by (intro exI [of _ "?t R w"]) simp
    qed auto
    then have "agrees ops lits z z'" by (rule matching_agrees) (simp_all add: cut_pos_def)
    then show ?thesis using wf(2) lz by blast
  next
    case False
    then have c': "op_code z' = (op_code z)[i + 1 := y]" and j': "op_jumps z' = retag b (i + 1) (op_jumps z)"
      using code' js' k append_take_drop_id [of "i + 2" "(op_code z)[i + 1 := y]"] by simp_all
    note wf = jcmp_wf_keep [OF ok m len fu fused(5) c' j']
    have new: "vm_run (Suc 1 + n) ops lits (op_code z') (op_dst z') (int i) R w = follow n ops lits (op_code z') (op_dst z') (?t R w)" for n R w
    proof -
      have "vm_run (Suc (Suc n)) ops lits (op_code z') (op_dst z') (int i) R w = vm_run (Suc n) ops lits (op_code z') (op_dst z') (int (i + 1)) (?S R) w"
        using run_load [of i "op_code z'" "Suc n" ops lits "op_dst z'" R w] len ld c' False by (simp add: add.commute del: vm_run.simps)
      also have "\<dots> = follow n ops lits (op_code z') (op_dst z') (vm_step ops lits y (op_dst z' (i + 1)) (int (i + 1)) (?S R) w)"
        using c' len unfolding vm_run_Suc nat_int by simp
      also have "vm_step ops lits y (op_dst z' (i + 1)) (int (i + 1)) (?S R) w =
          jcmp_next ops y (jcmp_result ops lits y (?S R) w) (op_dst z' (i + 1)) (int (i + 1) + 1) (?S R) w"
        by (rule step_jcmp [OF fused(4)])
      also have "jcmp_result ops lits y (?S R) w = jcmp_result ops lits y R w" using fused(2) False by simp
      also have "jcmp_next ops y (jcmp_result ops lits y R w) (op_dst z' (i + 1)) (int (i + 1) + 1) (?S R) w =
          jcmp_next ops ?p (jcmp_result ops lits y R w) (op_dst z' (i + 1)) (int (i + 1) + 1) (?S R) w" by (rule fused(3))
      also have "int (i + 1) + 1 = int i + 2" by simp
      also note wf(2)
      finally show ?thesis by (simp only: One_nat_def add_Suc add_0)
    qed
    have "matching ops lits (op_code z) (op_dst z) (op_code z') (op_dst z') (\<lambda>q. q) (int i) (int (i + 2)) 1 (Suc 1)"
    proof (rule keep_matching [OF ok'])
      show "\<forall>r\<in>set (op_jumps z). \<not> (int i < jp_to r \<and> jp_to r < int (i + 2))"
        using m unfolding jcmp_matches_def Let_def isUnsafeJumpRange_def by auto
      show "i_op (op_code z ! l) \<noteq> OPC_MOVE" if "i \<le> l" "l < i + 2" for l
        using that ld p(1) by (cases "l = i") (auto simp: load_op_def less_Suc_eq le_less)
      show "recs_at (op_jumps z') l = recs_at (op_jumps z) l" if "\<not> (int i \<le> l \<and> l < int (i + 2))" for l
        using that by (auto simp: j' recs_at_retag)
      show "\<exists>t. (\<forall>n. vm_run (Suc 1 + n) ops lits (op_code z) (op_dst z) (int i) R w = follow n ops lits (op_code z) (op_dst z) t) \<and>
          (\<forall>n. vm_run (Suc 1 + n) ops lits (op_code z') (op_dst z') (int i) R w = follow n ops lits (op_code z') (op_dst z') t) \<and>
          goes_to (\<lambda>q. \<not> (int i < q \<and> q < int (i + 2))) t" for R w
        using outs [of R w] unfolding old new by blast
    qed (use len in \<open>auto simp: c'\<close>)
    then have "agrees ops lits z z'" by (rule matching_agrees) simp_all
    then show ?thesis using wf(1) lz by blast
  qed
qed

end
