(* ===== verification/OptPasses.thy ===== *)
theory OptPasses
  imports OptJcmp
begin

text \<open>
  The loops of the optimizer keep the outcomes: constant folding, the removal of empty jumps, and
  the offsets that are written back at the end of a pass.
\<close>

subsection \<open>The loops of constant folding\<close>

definition fold2_clean :: "'w vm_ops \<Rightarrow> sq_obj list \<Rightarrow> optimizer \<Rightarrow> nat \<Rightarrow> bool" where
  "fold2_clean ops lits z i \<longleftrightarrow>
     (if i_op (op_code z ! (i + 1)) = OPC_ADDI then addi_clean ops lits z i else jcmp_clean ops lits z i)"

definition turn_clean :: "'w vm_ops \<Rightarrow> sq_obj list \<Rightarrow> optimizer \<Rightarrow> nat \<Rightarrow> bool" where
  "turn_clean ops lits z i \<longleftrightarrow>
     (case fold3 z i of
        None \<Rightarrow> fold2 z i \<noteq> None \<longrightarrow> fold2_clean ops lits z i
      | Some z1 \<Rightarrow> fold3_clean ops lits z i \<and> (fold2 z1 i \<noteq> None \<longrightarrow> fold2_clean ops lits z1 i))"

text \<open>Each folding the loops perform is clean.\<close>

function fold_at_clean :: "'w vm_ops \<Rightarrow> sq_obj list \<Rightarrow> optimizer \<Rightarrow> nat \<Rightarrow> bool" where
  "fold_at_clean ops lits z i \<longleftrightarrow>
     turn_clean ops lits z i \<and>
     (let (changed, z') = fold_turn z i in changed \<and> i + 2 < length (op_code z') \<longrightarrow> fold_at_clean ops lits z' i)"
  by auto
termination
  by (relation "measure (\<lambda>(ops, lits, z, i). fold_weight z)") (auto dest!: fold_turn_weight [OF sym])

declare fold_at_clean.simps [simp del]

function folding_clean_from :: "'w vm_ops \<Rightarrow> sq_obj list \<Rightarrow> optimizer \<Rightarrow> nat \<Rightarrow> bool" where
  "folding_clean_from ops lits z i \<longleftrightarrow>
     (i + 2 < length (op_code z) \<longrightarrow> fold_at_clean ops lits z i \<and> folding_clean_from ops lits (fold_at z i) (i + 1))"
  by auto
termination
  by (relation "measure (\<lambda>(ops, lits, z, i). length (op_code z) - i)")
    (auto intro!: diff_less_mono2 le_less_trans [OF diff_le_mono [OF fold_at_length]])

declare folding_clean_from.simps [simp del]

lemma fold2_cases:
  assumes "fold2 z i = Some z'" "fold2_clean ops lits z i"
  obtains "i + 2 < length (op_code z)" "fold_addi z i = Some z'" "addi_clean ops lits z i"
    | "i + 2 < length (op_code z)" "fold_jcmp z i = Some z'" "jcmp_clean ops lits z i"
  using assms by (cases "i_op (op_code z ! (i + 1)) = OPC_ADDI") (auto simp: fold2_def fold2_clean_def split: if_splits)

lemma fold2_agrees:
  assumes ok: "folding_ok z" and f: "fold2 z i = Some z'" and l: "lits_of lits z'" and c: "fold2_clean ops lits z i"
  shows "folding_ok z' \<and> lits_of lits z \<and> agrees ops lits z z'"
proof (rule fold2_cases [OF f c])
qed (rule addi_agrees [OF ok _ l] jcmp_agrees [OF ok _ l]; assumption)+

lemma fold2_lits:
  assumes f: "fold2 z i = Some z'" and l: "lits_of lits z'" and c: "fold2_clean ops lits z i"
  shows "lits_of lits z"
proof (rule fold2_cases [OF f c])
  assume "i + 2 < length (op_code z)" "fold_addi z i = Some z'"
  then show ?thesis using addi_parts [OF _ l] by metis
next
  assume a: "i + 2 < length (op_code z)" "fold_jcmp z i = Some z'" "jcmp_clean ops lits z i"
  then have "i_op (op_code z ! i) = OPC_LOAD \<longrightarrow> 0 \<le> sarg1 (op_code z ! i)" by (simp add: jcmp_clean_def Let_def)
  then show ?thesis using jcmp_parts [OF a(2) l a(1)] by metis
qed

definition turn_mid :: "optimizer \<Rightarrow> nat \<Rightarrow> optimizer" where
  "turn_mid z i = (case fold3 z i of None \<Rightarrow> z | Some z1 \<Rightarrow> z1)"

lemma fold_turn_mid:
  assumes t: "fold_turn z i = (c, z')" and clean: "turn_clean ops lits z i"
  shows "fold3 z i = None \<and> turn_mid z i = z \<or> fold3 z i = Some (turn_mid z i) \<and> fold3_clean ops lits z i"
    and "fold2 (turn_mid z i) i = None \<and> z' = turn_mid z i \<or>
      fold2 (turn_mid z i) i = Some z' \<and> fold2_clean ops lits (turn_mid z i) i"
  using t clean by (auto simp: fold_turn_def turn_mid_def turn_clean_def split: option.splits)

lemma fold_turn_lits:
  assumes t: "fold_turn z i = (c, z')" and l: "lits_of lits z'" and clean: "turn_clean ops lits z i"
  shows "lits_of lits (turn_mid z i)" and "lits_of lits z"
proof -
  show m: "lits_of lits (turn_mid z i)" using fold_turn_mid(2) [OF t clean] fold2_lits l by metis
  show "lits_of lits z" using fold_turn_mid(1) [OF t clean] fold3_parts m by metis
qed

lemma fold_turn_agrees:
  assumes ok: "folding_ok z" and t: "fold_turn z i = (c, z')" and l: "lits_of lits z'" and clean: "turn_clean ops lits z i"
  shows "folding_ok z' \<and> agrees ops lits z z'"
proof -
  note lm = fold_turn_lits(1) [OF t l clean]
  have s1: "folding_ok (turn_mid z i) \<and> agrees ops lits z (turn_mid z i)"
    using fold_turn_mid(1) [OF t clean] fold3_agrees [OF ok _ lm] ok agrees_refl by metis
  then have "folding_ok z' \<and> agrees ops lits (turn_mid z i) z'"
    using fold_turn_mid(2) [OF t clean] fold2_agrees [OF _ _ l] agrees_refl by metis
  then show ?thesis using s1 agrees_trans by blast
qed

text \<open>A loop ends, or it goes on behind one turn.\<close>

lemma fold_at_clean_turn:
  assumes t: "fold_turn z i = (c, z1)" and clean: "fold_at_clean ops lits z i"
  shows "turn_clean ops lits z i" and "c \<and> i + 2 < length (op_code z1) \<Longrightarrow> fold_at_clean ops lits z1 i"
  using clean t by (subst (asm) fold_at_clean.simps; simp)+

lemma fold_at_turn:
  "fold_turn z i = (c, z1) \<Longrightarrow> fold_at z i = (if c \<and> i + 2 < length (op_code z1) then fold_at z1 i else z1)"
  by (subst fold_at.simps) simp

lemma fold_at_lits: "fold_at_clean ops lits z i \<Longrightarrow> lits_of lits (fold_at z i) \<Longrightarrow> lits_of lits z"
proof (induction z i rule: fold_at.induct)
  case (1 z i)
  obtain c z1 where t: "fold_turn z i = (c, z1)" by fastforce
  note cl = fold_at_clean_turn [OF t 1(2)]
  have "lits_of lits z1"
  proof (cases "c \<and> i + 2 < length (op_code z1)")
    case True
    then show ?thesis using 1(1) [OF t [symmetric] refl True cl(2) [OF True]] 1(3) fold_at_turn [OF t] by simp
  next
    case False
    then have "fold_at z i = z1" unfolding fold_at_turn [OF t] by (rule if_not_P)
    then show ?thesis using 1(3) by simp
  qed
  then show ?case using fold_turn_lits(2) [OF t _ cl(1)] by blast
qed

lemma fold_at_agrees:
  "folding_ok z \<Longrightarrow> fold_at_clean ops lits z i \<Longrightarrow> lits_of lits (fold_at z i) \<Longrightarrow>
   folding_ok (fold_at z i) \<and> agrees ops lits z (fold_at z i)"
proof (induction z i rule: fold_at.induct)
  case (1 z i)
  obtain c z1 where t: "fold_turn z i = (c, z1)" by fastforce
  note cl = fold_at_clean_turn [OF t 1(3)]
  show ?case
  proof (cases "c \<and> i + 2 < length (op_code z1)")
    case True
    then have f: "fold_at z i = fold_at z1 i" using fold_at_turn [OF t] by simp
    have "lits_of lits z1" using fold_at_lits [OF cl(2) [OF True]] 1(4) f by simp
    then have s: "folding_ok z1 \<and> agrees ops lits z z1" by (rule fold_turn_agrees [OF 1(2) t _ cl(1)])
    then have "folding_ok (fold_at z1 i) \<and> agrees ops lits z1 (fold_at z1 i)"
      using 1(1) [OF t [symmetric] refl True _ cl(2) [OF True]] 1(4) f by simp
    then show ?thesis using s f agrees_trans by metis
  next
    case False
    then have "fold_at z i = z1" unfolding fold_at_turn [OF t] by (rule if_not_P)
    then show ?thesis using fold_turn_agrees [OF 1(2) t _ cl(1)] 1(4) by simp
  qed
qed

lemma const_folding_lits: "folding_clean_from ops lits z i \<Longrightarrow> lits_of lits (const_folding_from z i) \<Longrightarrow> lits_of lits z"
proof (induction z i rule: const_folding_from.induct)
  case (1 z i)
  show ?case
  proof (cases "i + 2 < length (op_code z)")
    case True
    then have c: "fold_at_clean ops lits z i" "folding_clean_from ops lits (fold_at z i) (i + 1)"
      using 1(2) by (subst (asm) folding_clean_from.simps; simp)+
    have "const_folding_from z i = const_folding_from (fold_at z i) (i + 1)" using True by (subst const_folding_from.simps) simp
    then show ?thesis using 1(1) [OF True c(2)] 1(3) fold_at_lits [OF c(1)] by simp
  next
    case False
    then have "const_folding_from z i = z" by (subst const_folding_from.simps) simp
    then show ?thesis using 1(3) by simp
  qed
qed

lemma const_folding_agrees:
  "folding_ok z \<Longrightarrow> folding_clean_from ops lits z i \<Longrightarrow> lits_of lits (const_folding_from z i) \<Longrightarrow>
   folding_ok (const_folding_from z i) \<and> agrees ops lits z (const_folding_from z i)"
proof (induction z i rule: const_folding_from.induct)
  case (1 z i)
  show ?case
  proof (cases "i + 2 < length (op_code z)")
    case True
    then have c: "fold_at_clean ops lits z i" "folding_clean_from ops lits (fold_at z i) (i + 1)"
      using 1(3) by (subst (asm) folding_clean_from.simps; simp)+
    have f: "const_folding_from z i = const_folding_from (fold_at z i) (i + 1)" using True by (subst const_folding_from.simps) simp
    have "lits_of lits (fold_at z i)" using const_folding_lits [OF c(2)] 1(4) f by simp
    then have s: "folding_ok (fold_at z i) \<and> agrees ops lits z (fold_at z i)" by (rule fold_at_agrees [OF 1(2) c(1)])
    then show ?thesis using 1(1) [OF True _ c(2)] 1(4) f agrees_trans by metis
  next
    case False
    then have "const_folding_from z i = z" by (subst const_folding_from.simps) simp
    then show ?thesis using 1(2) agrees_refl by simp
  qed
qed

subsection \<open>Empty jumps\<close>

lemma empty_jump_ghost:
  assumes wf: "wf_jumps code js" and i: "i < length code" "is_empty_jump (code ! i)"
  obtains j gs where "recs_at js (int i) = j # gs" "ghost j" "\<forall>g \<in> set gs. ghost g" "jp_to j = int i + 1" "i + 1 < length code"
proof -
  have p: "i_op (code ! i) = OPC_JMP" "i_arg1 (code ! i) = 0" using i(2) by (auto simp: is_empty_jump_def)
  obtain j gs where j: "recs_at js (int i) = j # gs" "wf_rec code i j"
    using wf_exceptD [OF wf i(1)] p by (auto simp: jumps_op_def)
  have "jump_ofs (code ! i) = 0" using p by (simp add: jump_ofs_def arg0_jump_def sarg1_def)
  then have r: "jp_index j = int i" "jp_arg j = JUMP_ARG1" "jp_originalTo j = jp_originalIndex j + 1" "jp_to j = int i + 1"
    "jp_to j < int (length code)"
    using j(2) p(1) unfolding wf_rec_def Let_def by (auto simp: arg0_jump_def real_to_def shrunk_def)
  have "\<forall>g \<in> set gs. ghost g" using wf j(1) unfolding wf_except_def by (metis list.sel(3))
  then show ?thesis using that [OF j(1)] r by (simp add: ghost_def)
qed

definition recs_pos :: "optimizer \<Rightarrow> bool" where
  "recs_pos z \<longleftrightarrow> (\<forall>j \<in> set (op_jumps z). 0 \<le> jp_index j \<and> nat (jp_index j) < length (op_code z)) \<and>
     (\<forall>k < length (op_code z). \<forall>j gs. recs_at (op_jumps z) (int k) = j # gs \<longrightarrow> ghost j \<or> recorded (i_op (op_code z ! k)))"

lemma live_recs_pos:
  assumes "live_recs (op_code z) (op_jumps z)"
  shows "recs_pos z"
proof -
  have "recorded (i_op (op_code z ! k))" if "recs_at (op_jumps z) (int k) = j # gs" for k j gs
  proof -
    have "j \<in> set (op_jumps z)" "jp_index j = int k" using that by (auto simp: recs_at_def filter_eq_Cons_iff)
    then show ?thesis using assms by (auto simp: live_recs_def)
  qed
  then show ?thesis using assms by (auto simp: recs_pos_def live_recs_def)
qed

lemma recs_pos_cut:
  assumes rp: "recs_pos z" and s: "sorted (map jp_index (op_jumps z))" and i: "0 < i" "i < length (op_code z)"
    and own: "recs_at (op_jumps z) (int i) = j # gs" "ghost j"
  shows "recs_pos (cutRange i 1 0 z)"
proof -
  have code': "op_code (cutRange i 1 0 z) = take i (op_code z) @ drop (i + 1) (op_code z)"
    and js': "op_jumps (cutRange i 1 0 z) = map (cut_jump i 1) (op_jumps z)"
    by (simp_all add: cutRange_def Let_def)
  have "ghost r \<or> recorded (i_op (op_code (cutRange i 1 0 z) ! k))"
    if k: "k < length (op_code (cutRange i 1 0 z))" "recs_at (map (cut_jump i 1) (op_jumps z)) (int k) = r # rs" for k r rs
  proof -
    have at: "recs_at (map (cut_jump i 1) (op_jumps z)) (int k) =
      map (cut_jump i 1) ((if k < i then recs_at (op_jumps z) (int k) else []) @
        (if k + 1 \<ge> i then recs_at (op_jumps z) (int (k + 1)) else []))"
      using recs_at_cut [OF s, of 1 i "int k"] by (simp add: add.commute cong: if_cong)
    define l where "l = (if k < i then k else k + 1)"
    have l: "l < length (op_code z)" "op_code (cutRange i 1 0 z) ! k = op_code z ! l"
      using k(1) i(2) unfolding code' by (auto simp: l_def nth_append min_def)
    show ?thesis
    proof (cases "recs_at (op_jumps z) (int l)")
      case Nil
      then have "k < i" "k + 1 = i" using at k(2) own(1) by (auto simp: l_def le_Suc_eq split: if_splits)
      then have "r = cut_jump i 1 j" using at k(2) own(1) Nil by (simp add: l_def add.commute)
      then show ?thesis using own(2) ghost_cut by blast
    next
      case (Cons q qs)
      then have "r = cut_jump i 1 q" using at k(2) by (auto simp: l_def add.commute split: if_splits)
      moreover have "ghost q \<or> recorded (i_op (op_code z ! l))" using rp l(1) Cons by (auto simp: recs_pos_def)
      ultimately show ?thesis using l(2) ghost_cut by auto
    qed
  qed
  moreover have "\<forall>j \<in> set (op_jumps (cutRange i 1 0 z)). 0 \<le> jp_index j \<and> nat (jp_index j) < length (op_code (cutRange i 1 0 z))"
    using rp i unfolding recs_pos_def js' code' by auto
  ultimately show ?thesis unfolding recs_pos_def js' by blast
qed

lemma empty_jump_agrees:
  assumes wf: "wf_jumps (op_code z) (op_jumps z)" and i: "0 < i" "i < length (op_code z)" "is_empty_jump (op_code z ! i)" and rp: "recs_pos z"
  shows "wf_jumps (op_code (cutRange i 1 0 z)) (op_jumps (cutRange i 1 0 z)) \<and> recs_pos (cutRange i 1 0 z) \<and>
    agrees ops lits z (cutRange i 1 0 z)"
proof -
  let ?z = "cutRange i 1 0 z"
  obtain j gs where j: "recs_at (op_jumps z) (int i) = j # gs" "ghost j" "\<forall>g \<in> set gs. ghost g" "jp_to j = int i + 1" "i + 1 < length (op_code z)"
    by (rule empty_jump_ghost [OF wf i(2,3)])
  have p: "i_op (op_code z ! i) = OPC_JMP" using i(3) by (simp add: is_empty_jump_def)
  have code': "op_code ?z = take i (op_code z) @ drop (i + 1) (op_code z)" and js': "op_jumps ?z = map (cut_jump i 1) (op_jumps z)"
    by (simp_all add: cutRange_def Let_def)
  have cc: "can_cut (op_code z) (op_jumps z) i i 1"
    unfolding can_cut_def
  proof (intro conjI allI impI)
    fix k assume k: "int i \<le> k \<and> k < int (i + 1)"
    then have "k = int i" by simp
    then show "recs_at (op_jumps z) (k - int 1) = [] \<or> (\<forall>g\<in>set (recs_at (op_jumps z) k). ghost g)" using j(1-3) by simp
  qed (use i p j(5) in \<open>auto simp: cuttable_def less_Suc_eq\<close>)
  have "wf_except (\<lambda>k. i \<le> k \<and> k < i) (op_code ?z) (map (cut_jump i 1) (op_jumps z))"
    by (rule cut_wf [where q = "\<lambda>_. False", OF wf cc _ refl _ code']) auto
  moreover have "(\<lambda>k. i \<le> k \<and> k < i) = (\<lambda>_. False)" by auto
  ultimately have "wf_jumps (op_code ?z) (op_jumps ?z)" unfolding js' by simp
  moreover have "recs_pos ?z" using wf by (intro recs_pos_cut [OF rp _ i(1,2) j(1,2)]) (simp add: wf_except_def)
  moreover have "matching ops lits (op_code z) (op_dst z) (op_code ?z) (op_dst ?z) (cut_pos (int i) (int 1)) (int i) (int (i + 1)) 0 0"
  proof (rule cut_matching [OF wf cc refl _ code'])
    show "recs_at (op_jumps ?z) k = recs_at (map (cut_jump i 1) (op_jumps z)) k" for k unfolding js' ..
    have d: "op_dst z i = int i + 1" using j(1,4) p by (simp add: op_dst_def real_to_def)
    have st: "vm_step ops lits (op_code z ! i) (op_dst z i) (int i) R w = Goto (int i + 1) R w" for R w
      unfolding d using p by (simp add: vm_step_def exec_load_def exec_move_def exec_operator_def exec_jump_def)
    have old: "vm_run (Suc 0 + n) ops lits (op_code z) (op_dst z) (int i) R w = vm_run n ops lits (op_code z) (op_dst z) (int i + 1) R w" for n R w
      using i st by (simp add: vm_run_Suc del: vm_run.simps)
    show "\<exists>t. (\<forall>n. vm_run (Suc 0 + n) ops lits (op_code z) (op_dst z) (int i) R w = follow n ops lits (op_code z) (op_dst z) t) \<and>
        (\<forall>n. vm_run (0 + n) ops lits (op_code ?z) (op_dst ?z) (int i) R w =
          follow n ops lits (op_code ?z) (op_dst ?z) (map_next (cut_pos (int i) (int 1)) t)) \<and>
        goes_to (\<lambda>p. \<not> (int i < p \<and> p < int (i + 1)) \<and> ((0::nat) = 0 \<longrightarrow> p \<noteq> int i)) t" for R w
      unfolding old by (intro exI [of _ "Goto (int i + 1) R w"]) (simp add: cut_pos_def)
  qed auto
  then have "agrees ops lits z ?z" by (rule matching_agrees) (use i in \<open>simp_all add: cut_pos_def\<close>)
  ultimately show ?thesis by blast
qed

lemma empty_jumps_agrees:
  "wf_jumps (op_code z) (op_jumps z) \<Longrightarrow> recs_pos z \<Longrightarrow> i < length (op_code z) \<Longrightarrow>
   wf_jumps (op_code (empty_jumps_from i z)) (op_jumps (empty_jumps_from i z)) \<and> recs_pos (empty_jumps_from i z) \<and>
   agrees ops lits z (empty_jumps_from i z)"
proof (induction i arbitrary: z)
  case (Suc i)
  show ?case
  proof (cases "is_empty_jump (op_code z ! Suc i)")
    case True
    let ?z = "cutRange (Suc i) 1 0 z"
    have s: "wf_jumps (op_code ?z) (op_jumps ?z)" "recs_pos ?z" "agrees ops lits z ?z"
      using empty_jump_agrees [OF Suc.prems(1) _ Suc.prems(3) True Suc.prems(2)] by auto
    have "i < length (op_code ?z)" using Suc.prems(3) by (simp add: op_code_cutRange)
    then show ?thesis using Suc.IH [OF s(1,2)] s(3) True agrees_trans by auto
  next
    case False
    then show ?thesis using Suc.IH [OF Suc.prems(1,2)] Suc.prems(3) by simp
  qed
qed (simp add: agrees_refl)

lemma cut_lits [simp]: "op_lits (cutRange s a b z) = op_lits z"
  by (simp add: cutRange_def Let_def)

lemma empty_jumps_lits: "op_lits (empty_jumps_from i z) = op_lits z"
  by (induction i z rule: empty_jumps_from.induct) simp_all

end
