(* ===== verification/OptFix.thy ===== *)
theory OptFix
  imports OptPasses
begin

text \<open>
  The offsets that are written back at the end of a pass are those of the recorded targets, and
  retargeting a jump to a jump keeps the outcomes.
\<close>

subsection \<open>The effect of a record on its instruction\<close>

definition jp_change :: "jump_rec \<Rightarrow> int" where
  "jp_change j = (jp_to j - jp_originalTo j) - (jp_index j - jp_originalIndex j)"

definition fix_instr :: "jump_rec \<Rightarrow> sq_instr \<Rightarrow> sq_instr" where
  "fix_instr j x =
     (if jp_modified j then
        (case jp_arg j of
           JUMP_ARG1 \<Rightarrow> x\<lparr>i_arg1 := i_arg1 x + word_of_int (jp_change j)\<rparr>
         | JUMP_ARG0 \<Rightarrow> x\<lparr>i_arg0 := word_of_int (sarg0 x + jp_change j)\<rparr>
         | JUMP_ARG_PLUS_23 \<Rightarrow> set_arg23 (arg23 x + jp_change j) x
         | JUMP_ARG_MINUS_23 \<Rightarrow> set_arg23 (arg23 x - jp_change j) x)
      else x)"

definition fix_fits :: "jump_rec \<Rightarrow> sq_instr \<Rightarrow> bool" where
  "fix_fits j x \<longleftrightarrow> (jp_modified j \<and> jp_arg j = JUMP_ARG0 \<and> arg0_jump (i_op x) \<longrightarrow> - 128 \<le> sarg0 x + jp_change j \<and> sarg0 x + jp_change j \<le> 127)"

lemma ghost_fix: "ghost j \<Longrightarrow> fix_instr j x = x \<and> fix_fits j x"
  by (simp add: ghost_def fix_instr_def fix_fits_def jp_change_def)

lemma fix_jump_instr:
  assumes "fix_jump j z = Some z'" "fix_fits j (op_code z ! nat (jp_index j))"
  shows "op_code z' = (op_code z)[nat (jp_index j) := fix_instr j (op_code z ! nat (jp_index j))] \<and>
    op_lits z' = op_lits z \<and> op_jumps z' = op_jumps z \<and> op_changed z' = op_changed z"
  using assms
  by (cases "jp_arg j")
    (auto simp: fix_jump_def fix_instr_def fix_fits_def jp_change_def Let_def fix_arg0_def fix_arg23_def set_instr_def
      split: if_splits)

lemma recs_at_Cons: "recs_at (j # js) k = (if jp_index j = k then j # recs_at js k else recs_at js k)"
  by (simp add: recs_at_def)

lemma fix_jumps_instr:
  assumes "fix_jumps js z = Some z'" "\<forall>j \<in> set js. 0 \<le> jp_index j \<and> nat (jp_index j) < length (op_code z)"
    "\<And>k j gs. recs_at js (int k) = j # gs \<Longrightarrow> k < length (op_code z) \<Longrightarrow> fix_fits j (op_code z ! k) \<and> (\<forall>g \<in> set gs. ghost g)"
  shows "length (op_code z') = length (op_code z) \<and> op_lits z' = op_lits z \<and> op_jumps z' = op_jumps z \<and> op_changed z' = op_changed z \<and>
    (\<forall>k < length (op_code z). op_code z' ! k =
       (case recs_at js (int k) of [] \<Rightarrow> op_code z ! k | j # gs \<Rightarrow> fix_instr j (op_code z ! k)))"
  using assms
proof (induction js arbitrary: z)
  case Nil
  then show ?case by (simp add: recs_at_def)
next
  case (Cons j js)
  define i where "i = nat (jp_index j)"
  have ji: "jp_index j = int i" using Cons.prems(2) by (simp add: i_def)
  from Cons.prems(1) obtain z1 where z1: "fix_jump j z = Some z1" "fix_jumps js z1 = Some z'"
    by (auto split: option.splits)
  have at: "recs_at (j # js) (int i) = j # recs_at js (int i)" by (simp add: recs_at_Cons ji)
  have gh: "fix_fits j (op_code z ! i)" "\<forall>g \<in> set (recs_at js (int i)). ghost g" using Cons.prems(3) [OF at] Cons.prems(2) by (auto simp: i_def)
  have c1: "op_code z1 = (op_code z)[i := fix_instr j (op_code z ! i)]" "op_lits z1 = op_lits z" "op_jumps z1 = op_jumps z"
    "op_changed z1 = op_changed z"
    using fix_jump_instr [OF z1(1)] gh(1) by (auto simp: i_def)
  have ih: "length (op_code z') = length (op_code z1) \<and> op_lits z' = op_lits z1 \<and> op_jumps z' = op_jumps z1 \<and> op_changed z' = op_changed z1 \<and>
    (\<forall>k < length (op_code z1). op_code z' ! k =
       (case recs_at js (int k) of [] \<Rightarrow> op_code z1 ! k | j # gs \<Rightarrow> fix_instr j (op_code z1 ! k)))"
  proof (rule Cons.IH [OF z1(2)])
    show "\<forall>j \<in> set js. 0 \<le> jp_index j \<and> nat (jp_index j) < length (op_code z1)" using Cons.prems(2) by (simp add: c1)
    fix k r gs assume r: "recs_at js (int k) = r # gs" and k: "k < length (op_code z1)"
    show "fix_fits r (op_code z1 ! k) \<and> (\<forall>g \<in> set gs. ghost g)"
    proof (cases "k = i")
      case True
      then show ?thesis using gh(2) r ghost_fix by simp
    next
      case False
      then have "recs_at (j # js) (int k) = r # gs" using r ji by (simp add: recs_at_Cons)
      then show ?thesis using Cons.prems(3) False k by (simp add: c1)
    qed
  qed
  have "op_code z' ! k = (case recs_at (j # js) (int k) of [] \<Rightarrow> op_code z ! k | j # gs \<Rightarrow> fix_instr j (op_code z ! k))"
    if "k < length (op_code z)" for k
  proof (cases "k = i")
    case True
    then show ?thesis using ih that at gh(2) ghost_fix by (auto simp: c1 split: list.splits)
  next
    case False
    then show ?thesis using ih that ji by (simp add: c1 recs_at_Cons cong: list.case_cong)
  qed
  then show ?case using ih by (simp add: c1)
qed

subsection \<open>The targets are in the code again\<close>

text \<open>Instructions that differ in their offset do the same, apart from where they jump.\<close>

lemma step_arg1:
  assumes "arg1_jump (i_op x) \<or> i_op x = OPC_NULLCOALESCE"
  shows "vm_step ops lits (x\<lparr>i_arg1 := a\<rparr>) d pc R w = vm_step ops lits x d pc R w"
  using assms unfolding arg1_jump_def
  by (elim disjE)
    (simp_all add: vm_step_def exec_defs Let_def unmodelled_op_def jcmp_op_def jcmp_taken_def)

lemma step_arg0:
  assumes "arg0_jump (i_op x)"
  shows "vm_step ops lits (x\<lparr>i_arg0 := a\<rparr>) d pc R w = vm_step ops lits x d pc R w"
  using assms unfolding arg0_jump_def
  by (elim disjE) (simp_all add: vm_step_def exec_defs Let_def jcmp_op_def jcmp_taken_def)

lemma step_inert:
  assumes "inert_op (i_op x)" "i_op y = i_op x"
  shows "vm_step ops lits y d pc R w = vm_step ops lits x d pc R w"
  using assms unfolding inert_op_def
  by (elim disjE) (simp_all add: vm_step_def exec_defs Let_def unmodelled_op_def)

lemma fix_instr_op [simp]: "i_op (fix_instr j x) = i_op x"
  by (simp add: fix_instr_def set_arg23_def split: jump_arg.splits)

lemma shrunk_bounds: "shrunk a b \<Longrightarrow> l \<le> a \<Longrightarrow> a \<le> u \<Longrightarrow> l \<le> 0 \<Longrightarrow> - 1 \<le> u \<Longrightarrow> l \<le> b \<and> b \<le> u"
  by (auto simp: shrunk_def)

lemma sint_u32_bounds: "- (2 ^ 31) \<le> sint (x :: u32) \<and> sint x \<le> 2 ^ 31 - 1"
  using sint_range_size [of x] by (simp add: word_size)

lemma sint_u8_bounds: "- 128 \<le> sint (x :: u8) \<and> sint x \<le> 127"
  using sint_range_size [of x] by (simp add: word_size)

lemma sint_add_fits:
  assumes "- (2 ^ 31) \<le> sint (x :: u32) + c" "sint x + c \<le> 2 ^ 31 - 1"
  shows "sint (x + word_of_int c) = sint x + c"
proof -
  have "x + word_of_int c = word_of_int (sint x + c)" by simp
  moreover have "sint (word_of_int n :: u32) = n" if "- (2 ^ 31) \<le> n" "n \<le> 2 ^ 31 - 1" for n
    using that by (simp add: sint_sbintrunc' signed_take_bit_int_eq_self)
  ultimately show ?thesis using assms by metis
qed

lemma jump_dest_ofs: "jump_dest x pc = pc + 1 + jump_ofs x"
  by (simp add: jump_dest_def jump_ofs_def arg0_jump_def)

lemma jumps_op_cases: "jumps_op p \<longleftrightarrow> arg0_jump p \<or> p = OPC_NULLCOALESCE \<or> arg1_jump p \<and> \<not> inert_op p"
  by (auto simp: jumps_op_def arg0_jump_def arg1_jump_def inert_op_def)

lemma fix_own:
  assumes w: "wf_rec code k j" and jo: "jumps_op (i_op (code ! k))"
  shows "fix_fits j (code ! k)" and "jump_dest (fix_instr j (code ! k)) (int k) = real_to (code ! k) j"
    and "vm_step ops lits (fix_instr j (code ! k)) d pc R s = vm_step ops lits (code ! k) d pc R s"
proof -
  define x where "x = code ! k"
  define o1 :: int where "o1 = (if i_op x = OPC_NULLCOALESCE then 1 else 0)"
  have r: "jp_index j = int k" "jp_arg j = (if arg0_jump (i_op x) then JUMP_ARG0 else JUMP_ARG1)"
    "jump_ofs x = jp_originalTo j + o1 - jp_originalIndex j - 1" "shrunk (jump_ofs x) (real_to x j - int k - 1)"
    "\<not> jp_modified j \<longrightarrow> jp_to j = jp_originalTo j \<and> jp_index j = jp_originalIndex j"
    using w unfolding wf_rec_def Let_def x_def [symmetric] o1_def [symmetric] by blast+
  have real: "real_to x j = jp_to j + o1" by (simp add: real_to_def o1_def)
  have ofs: "jump_ofs x + jp_change j = real_to x j - int k - 1" using r(1,3) real by (simp add: jp_change_def)
  have a0: "- 128 \<le> jump_ofs x + jp_change j \<and> jump_ofs x + jp_change j \<le> 127" if "arg0_jump (i_op x)"
    unfolding ofs using that sint_u8_bounds [of "i_arg0 x"]
    by (intro shrunk_bounds [OF r(4)]) (simp_all add: jump_ofs_def sarg0_def)
  show "fix_fits j (code ! k)" using a0 r(2) by (simp add: fix_fits_def jump_ofs_def x_def [symmetric])
  show "vm_step ops lits (fix_instr j (code ! k)) d pc R s = vm_step ops lits (code ! k) d pc R s"
  proof (cases "arg0_jump (i_op x)")
    case True
    then show ?thesis using r(2) by (simp add: fix_instr_def step_arg0 [OF True] x_def [symmetric])
  next
    case False
    then have "arg1_jump (i_op x) \<or> i_op x = OPC_NULLCOALESCE" using jo by (auto simp: jumps_op_cases x_def)
    then show ?thesis using False r(2) by (simp add: fix_instr_def step_arg1 x_def [symmetric])
  qed
  show "jump_dest (fix_instr j (code ! k)) (int k) = real_to (code ! k) j"
  proof (cases "jp_modified j")
    case False
    then show ?thesis using r(5) ofs by (simp add: jump_dest_ofs fix_instr_def jp_change_def x_def)
  next
    case m: True
    show ?thesis
    proof (cases "arg0_jump (i_op x)")
      case True
      then have "jump_ofs (fix_instr j x) = jump_ofs x + jp_change j"
        using m r(2) a0 [OF True] fits_signed_byte [of "sint (i_arg0 x) + jp_change j"]
        by (simp add: True fix_instr_def jump_ofs_def sarg0_def)
      then show ?thesis using ofs by (simp add: jump_dest_ofs x_def)
    next
      case False
      have "- (2 ^ 31) \<le> jump_ofs x + jp_change j \<and> jump_ofs x + jp_change j \<le> 2 ^ 31 - 1"
        unfolding ofs using False sint_u32_bounds [of "i_arg1 x"]
        by (intro shrunk_bounds [OF r(4)]) (simp_all add: jump_ofs_def sarg1_def)
      then have "jump_ofs (fix_instr j x) = jump_ofs x + jp_change j"
        using m r(2) False sint_add_fits [of "i_arg1 x" "jp_change j"] by (simp add: fix_instr_def jump_ofs_def sarg1_def)
      then show ?thesis using ofs by (simp add: jump_dest_ofs x_def)
    qed
  qed
qed

text \<open>Code whose offsets are up to date.\<close>

definition code_dst :: "sq_instr list \<Rightarrow> nat \<Rightarrow> int" where
  "code_dst code k = jump_dest (code ! k) (int k)"

definition code_ok :: "sq_instr list \<Rightarrow> bool" where
  "code_ok code \<longleftrightarrow> length code < 2 ^ 31 \<and>
     (\<forall>k < length code. jumps_op (i_op (code ! k)) \<longrightarrow> 0 \<le> code_dst code k \<and> code_dst code k < int (length code)) \<and>
     (\<forall>k < length code. i_op (code ! k) = OPC_NULLCOALESCE \<longrightarrow>
        0 < code_dst code k \<and> i_op (code ! nat (code_dst code k - 1)) = OPC_MOVE)"

lemma runs_cong:
  assumes "length code' = length code"
    "\<And>k pc R w. k < length code \<Longrightarrow>
       vm_step ops lits (code' ! k) (dst' k) pc R w = vm_step ops lits (code ! k) (dst k) pc R w"
  shows "vm_run n ops lits code' dst' pc R w = vm_run n ops lits code dst pc R w"
proof (induction n arbitrary: pc R w)
  case (Suc n)
  then show ?case using assms by (simp cong: vm_next.case_cong)
qed simp

lemma recs_heads:
  assumes wf: "wf_jumps code js" and at: "recs_at js (int k) = j # gs"
  shows "\<forall>g \<in> set gs. ghost g"
  using wf at unfolding wf_except_def by (metis list.sel(3))

lemma fix_pass_fits:
  assumes wf: "wf_jumps (op_code z) (op_jumps z)" and rp: "recs_pos z" and at: "recs_at (op_jumps z) (int k) = j # gs"
    and k: "k < length (op_code z)"
  shows "fix_fits j (op_code z ! k)"
proof (cases "jumps_op (i_op (op_code z ! k))")
  case True
  then show ?thesis using wf_exceptD [OF wf k] at fix_own(1) by (metis list.inject)
next
  case False
  then have "ghost j \<or> inert_op (i_op (op_code z ! k))" using rp k at by (auto simp: recs_pos_def recorded_def)
  then show ?thesis using ghost_fix by (auto simp: fix_fits_def inert_op_def arg0_jump_def)
qed

lemma fix_pass_at:
  assumes f: "fix_jumps (op_jumps z) z = Some z'" and wf: "wf_jumps (op_code z) (op_jumps z)" and rp: "recs_pos z"
  shows "length (op_code z') = length (op_code z)" and "op_lits z' = op_lits z" and "op_changed z' = op_changed z"
    and "k < length (op_code z) \<Longrightarrow> op_code z' ! k =
       (case recs_at (op_jumps z) (int k) of [] \<Rightarrow> op_code z ! k | j # gs \<Rightarrow> fix_instr j (op_code z ! k))"
  using fix_jumps_instr [OF f] rp fix_pass_fits [OF wf rp] recs_heads [OF wf] by (auto simp: recs_pos_def)

lemma runs_pass:
  assumes f: "fix_jumps (op_jumps z) z = Some z'" and wf: "wf_jumps (op_code z) (op_jumps z)" and rp: "recs_pos z"
    and k: "k < length (op_code z)"
  shows "jumps_op (i_op (op_code z ! k)) \<Longrightarrow> code_dst (op_code z') k = op_dst z k"
    and "vm_step ops lits (op_code z' ! k) (code_dst (op_code z') k) pc R w = vm_step ops lits (op_code z ! k) (op_dst z k) pc R w"
    and "i_op (op_code z' ! k) = i_op (op_code z ! k)"
proof -
  note at = fix_pass_at(4) [OF f wf rp k]
  have own: "code_dst (op_code z') k = op_dst z k \<and>
      vm_step ops lits (op_code z' ! k) d pc R w = vm_step ops lits (op_code z ! k) d pc R w"
    if jo: "jumps_op (i_op (op_code z ! k))" for d
  proof -
    obtain j gs where j: "recs_at (op_jumps z) (int k) = j # gs" "wf_rec (op_code z) k j"
      using wf_exceptD [OF wf k _ jo] by blast
    then show ?thesis using fix_own(2,3) [OF j(2) jo] by (simp add: at code_dst_def op_dst_def)
  qed
  show "jumps_op (i_op (op_code z ! k)) \<Longrightarrow> code_dst (op_code z') k = op_dst z k" using own by blast
  show p: "i_op (op_code z' ! k) = i_op (op_code z ! k)" by (simp add: at split: list.splits)
  show "vm_step ops lits (op_code z' ! k) (code_dst (op_code z') k) pc R w = vm_step ops lits (op_code z ! k) (op_dst z k) pc R w"
  proof (cases "jumps_op (i_op (op_code z ! k))")
    case True
    then show ?thesis using own by simp
  next
    case False
    have "vm_step ops lits (op_code z' ! k) (op_dst z k) pc R w = vm_step ops lits (op_code z ! k) (op_dst z k) pc R w"
    proof (cases "recs_at (op_jumps z) (int k)")
      case Nil
      then show ?thesis by (simp add: at)
    next
      case (Cons j gs)
      then consider "ghost j" | "inert_op (i_op (op_code z ! k))" using rp k False by (auto simp: recs_pos_def recorded_def)
      then show ?thesis
      proof cases
        case 1
        then show ?thesis by (simp add: at Cons ghost_fix)
      next
        case 2
        then show ?thesis by (rule step_inert) (rule p)
      qed
    qed
    moreover have "vm_step ops lits (op_code z' ! k) (code_dst (op_code z') k) pc R w = vm_step ops lits (op_code z' ! k) (op_dst z k) pc R w"
      by (rule vm_step_dst) (use False p in simp)
    ultimately show ?thesis by simp
  qed
qed

lemma fix_pass:
  assumes f: "fix_jumps (op_jumps z) z = Some z'" and wf: "wf_jumps (op_code z) (op_jumps z)" and rp: "recs_pos z"
  shows "length (op_code z) < 2 ^ 31 \<Longrightarrow> code_ok (op_code z')"
    and "ends ops lits (op_code z') (code_dst (op_code z')) 0 R w x \<longleftrightarrow> ends ops lits (op_code z) (op_dst z) 0 R w x"
proof -
  note len = fix_pass_at(1) [OF f wf rp] and st = runs_pass [OF f wf rp]
  show "ends ops lits (op_code z') (code_dst (op_code z')) 0 R w x \<longleftrightarrow> ends ops lits (op_code z) (op_dst z) 0 R w x"
    by (simp add: ends_def runs_cong [OF len st(2)])
  have rec: "0 \<le> op_dst z k \<and> op_dst z k < int (length (op_code z)) \<and>
      (i_op (op_code z ! k) = OPC_NULLCOALESCE \<longrightarrow> 0 < op_dst z k \<and> i_op (op_code z ! nat (op_dst z k - 1)) = OPC_MOVE)"
    if k: "k < length (op_code z)" "jumps_op (i_op (op_code z ! k))" for k
  proof -
    obtain j gs where j: "recs_at (op_jumps z) (int k) = j # gs" "wf_rec (op_code z) k j"
      using wf_exceptD [OF wf k(1) _ k(2)] by blast
    then show ?thesis by (auto simp: op_dst_def wf_rec_def Let_def real_to_def)
  qed
  have nc: "jumps_op OPC_NULLCOALESCE" by (simp add: jumps_op_def)
  have "0 < op_dst z k \<and> i_op (op_code z' ! nat (op_dst z k - 1)) = OPC_MOVE"
    if k: "k < length (op_code z)" and p: "i_op (op_code z ! k) = OPC_NULLCOALESCE" for k
    using rec [OF k] p nc st(3) [of "nat (op_dst z k - 1)"] by auto
  then show "length (op_code z) < 2 ^ 31 \<Longrightarrow> code_ok (op_code z')"
    unfolding code_ok_def using rec st(1,3) nc len by auto
qed

end
