(* ===== verification/OptPass.thy ===== *)
theory OptPass
  imports OptFix
begin

text \<open>
  A whole pass of the optimizer keeps the outcomes: the records collected at its start hold the
  targets of the code, and a pass that changed nothing leaves the code alone.
\<close>

subsection \<open>The records at the start of a pass\<close>

lemma recs_at_collect:
  "recs_at (concat (map (collect_jump code) [0..<n])) (int k) = (if k < n then collect_jump code k else [])"
proof (induction n)
  case (Suc n)
  have "recs_at (collect_jump code n) (int k) = (if k = n then collect_jump code k else [])"
    by (auto simp: recs_at_def collect_jump_def nop_jump_def new_jump_def Let_def)
  moreover have "recs_at (xs @ ys) m = recs_at xs m @ recs_at ys m" for xs ys m by (simp add: recs_at_def)
  ultimately show ?case using Suc by auto
qed (simp add: recs_at_def)

lemma collect_jump_one: "collect_jump code k = [] \<or> (\<exists>to a. collect_jump code k = [new_jump k to a] \<and> recorded (i_op (code ! k)))"
  by (auto simp: collect_jump_def nop_jump_def Let_def recorded_def inert_op_def jumps_op_def arg1_jump_def arg0_jump_def)

lemma collect_in:
  "j \<in> set (collect_jump code k) \<Longrightarrow> jp_index j = int k \<and> recorded (i_op (code ! k))"
  using collect_jump_one [of code k] by (auto simp: new_jump_def)

lemma collect_sorted: "sorted (map jp_index (concat (map (collect_jump code) [0..<n])))"
proof (induction n)
  case (Suc n)
  have "\<forall>j \<in> set (concat (map (collect_jump code) [0..<n])). jp_index j < int n"
    by (auto dest: collect_in)
  moreover have "sorted (map jp_index (collect_jump code n)) \<and> (\<forall>j \<in> set (collect_jump code n). jp_index j = int n)"
    using collect_jump_one [of code n] by (auto simp: new_jump_def)
  ultimately show ?case using Suc by (fastforce simp: sorted_append)
qed simp

lemma shrunk_refl [simp]: "shrunk a a"
  by (auto simp: shrunk_def)

lemma collect_jumps_op:
  assumes jo: "jumps_op (i_op (code ! k))" and ok: "code_ok code" and k: "k < length code"
  shows "\<exists>j. collect_jump code k = [j] \<and> wf_rec code k j \<and> real_to (code ! k) j = code_dst code k"
proof -
  have t: "0 \<le> code_dst code k \<and> code_dst code k < int (length code)"
    "i_op (code ! k) = OPC_NULLCOALESCE \<Longrightarrow> 0 < code_dst code k \<and> i_op (code ! nat (code_dst code k - 1)) = OPC_MOVE"
    using ok k jo by (auto simp: code_ok_def)
  have d: "code_dst code k = int k + 1 + jump_ofs (code ! k)" by (simp add: code_dst_def jump_dest_ofs)
  consider "i_op (code ! k) = OPC_NULLCOALESCE" | "arg0_jump (i_op (code ! k))" | "arg1_jump (i_op (code ! k))"
    using jo by (auto simp: jumps_op_cases)
  then show ?thesis
  proof cases
    case 1
    then show ?thesis using t d
      by (auto simp: collect_jump_def new_jump_def wf_rec_def Let_def real_to_def jump_ofs_def arg0_jump_def arg1_jump_def
          algebra_simps nat_less_iff)
  next
    case 2
    then show ?thesis using t d
      by (auto simp: collect_jump_def new_jump_def wf_rec_def Let_def real_to_def jump_ofs_def arg0_jump_def arg1_jump_def)
  next
    case 3
    then show ?thesis using t d
      by (auto simp: collect_jump_def new_jump_def wf_rec_def Let_def real_to_def jump_ofs_def arg0_jump_def arg1_jump_def)
  qed
qed

lemma optimize_start_simps [simp]:
  "op_code (optimize_start z) = op_code z" "op_lits (optimize_start z) = op_lits z"
  "op_jumps (optimize_start z) = collect_jumps (op_code z)" "\<not> op_changed (optimize_start z)"
  by (simp_all add: optimize_start_def)

lemma start_ok:
  assumes ok: "code_ok (op_code z)"
  shows "folding_ok (optimize_start z)"
proof -
  have "\<forall>g \<in> set (tl (recs_at (collect_jumps (op_code z)) k)). ghost g" for k
  proof (cases "0 \<le> k")
    case True
    then obtain n where "k = int n" using nonneg_int_cases by blast
    then show ?thesis using collect_jump_one [of "op_code z" n] by (auto simp: collect_jumps_def recs_at_collect)
  next
    case False
    have "\<forall>j \<in> set (collect_jumps (op_code z)). jp_index j \<ge> 0"
      unfolding collect_jumps_def by (auto dest: collect_in)
    then have "recs_at (collect_jumps (op_code z)) k = []" using False by (auto simp: recs_at_def filter_empty_conv)
    then show ?thesis by simp
  qed
  moreover have "\<exists>j gs. recs_at (collect_jumps (op_code z)) (int k) = j # gs \<and> wf_rec (op_code z) k j"
    if "k < length (op_code z)" "jumps_op (i_op (op_code z ! k))" for k
    using collect_jumps_op [OF that(2) ok that(1)] that(1) by (auto simp: collect_jumps_def recs_at_collect)
  moreover have "live_recs (op_code z) (collect_jumps (op_code z))"
    unfolding live_recs_def collect_jumps_def by (auto dest!: collect_in)
  ultimately show ?thesis by (simp add: folding_ok_def wf_except_def collect_jumps_def collect_sorted)
qed

lemma start_runs:
  assumes ok: "code_ok (op_code z)"
  shows "ends ops lits (op_code z) (code_dst (op_code z)) 0 R w x \<longleftrightarrow>
    ends ops lits (op_code (optimize_start z)) (op_dst (optimize_start z)) 0 R w x"
proof -
  have "vm_step ops lits (op_code z ! k) (code_dst (op_code z) k) pc R w =
      vm_step ops lits (op_code z ! k) (op_dst (optimize_start z) k) pc R w"
    if k: "k < length (op_code z)" for k pc R w
  proof (cases "jumps_op (i_op (op_code z ! k))")
    case True
    then have "op_dst (optimize_start z) k = code_dst (op_code z) k"
      using collect_jumps_op [OF True ok k] k by (auto simp: op_dst_def collect_jumps_def recs_at_collect)
    then show ?thesis by simp
  next
    case False
    then show ?thesis by (rule vm_step_dst)
  qed
  then show ?thesis unfolding ends_def by (subst runs_cong [of "op_code z" "op_code z" ops lits _ "op_dst (optimize_start z)"]) simp_all
qed

subsection \<open>Nothing changed\<close>

definition kept :: "optimizer \<Rightarrow> optimizer \<Rightarrow> bool" where
  "kept z z' \<longleftrightarrow> op_changed z' \<or> z' = z"

lemma kept_trans: "kept z z' \<Longrightarrow> kept z' z'' \<Longrightarrow> (op_changed z' \<Longrightarrow> op_changed z'') \<Longrightarrow> kept z z''"
  by (auto simp: kept_def)

lemma store_changed [simp]: "op_changed (store_int k d r z)" "op_changed (store_float k d f z)" "op_changed (cutRange s a b z)"
  by (simp_all add: store_int_def store_float_def cutRange_def Let_def)

lemma fold3_changed: "fold3 z i = Some z' \<Longrightarrow> op_changed z'"
  by (auto simp: fold3_def fold3_result_def Let_def split: prod.splits if_splits)

lemma fold2_changed: "fold2 z i = Some z' \<Longrightarrow> op_changed z'"
  by (auto simp: fold2_def fold_addi_def addi_result_def fold_jcmp_def Let_def split: prod.splits if_splits)

lemma fold_turn_kept: "fold_turn z i = (c, z') \<Longrightarrow> kept z z'"
  by (auto simp: fold_turn_def kept_def dest: fold3_changed fold2_changed split: option.splits)

lemma fold_at_kept: "kept z (fold_at z i)"
proof (induction z i rule: fold_at.induct)
  case (1 z i)
  obtain c z1 where t: "fold_turn z i = (c, z1)" by fastforce
  show ?case
  proof (cases "c \<and> i + 2 < length (op_code z1)")
    case True
    then have k: "kept z1 (fold_at z1 i)" using 1 [OF t [symmetric] refl] by simp
    have "op_changed z1" using t True by (auto simp: fold_turn_def dest: fold3_changed fold2_changed split: option.splits)
    then have "op_changed (fold_at z1 i)" using k by (auto simp: kept_def)
    then show ?thesis using True fold_at_turn [OF t] by (simp add: kept_def)
  next
    case False
    then have "fold_at z i = z1" unfolding fold_at_turn [OF t] by (rule if_not_P)
    then show ?thesis using fold_turn_kept [OF t] by simp
  qed
qed

lemma kept_step: "kept z z' \<Longrightarrow> (\<And>w. kept w (g w)) \<Longrightarrow> kept z (g z')"
  by (metis kept_def)

lemma const_folding_kept: "kept z (const_folding_from z i)"
proof (induction z i rule: const_folding_from.induct)
  case (1 z i)
  show ?case
  proof (cases "i + 2 < length (op_code z)")
    case True
    have "const_folding_from z i = const_folding_from (fold_at z i) (i + 1)" using True by (subst const_folding_from.simps) simp
    then show ?thesis using 1 [OF True] fold_at_kept [of z i] by (metis kept_def)
  next
    case False
    then have "const_folding_from z i = z" by (subst const_folding_from.simps) simp
    then show ?thesis by (simp add: kept_def)
  qed
qed

lemma empty_jumps_kept: "kept z (empty_jumps_from i z)"
proof (induction i arbitrary: z)
  case (Suc i)
  have "op_changed (empty_jumps_from i (cutRange (Suc i) 1 0 z))"
    using Suc [of "cutRange (Suc i) 1 0 z"] store_changed(3) [of "Suc i" 1 0 z] by (metis kept_def)
  then show ?case using Suc [of z] by (simp add: kept_def)
qed (simp add: kept_def)

subsection \<open>A pass\<close>

definition folded :: "optimizer \<Rightarrow> optimizer" where
  "folded z = optimizeEmptyJumps (optimizeConstFolding (optimize_start z))"

lemma folded_kept: "kept (optimize_start z) (folded z)"
  using const_folding_kept [of "optimize_start z" 0]
    empty_jumps_kept [of "const_folding_from (optimize_start z) 0" "length (op_code (const_folding_from (optimize_start z) 0)) - 1"]
  by (auto simp: folded_def optimizeEmptyJumps_def optimizeConstFolding_def kept_def)

definition pass_clean :: "'w vm_ops \<Rightarrow> sq_obj list \<Rightarrow> optimizer \<Rightarrow> bool" where
  "pass_clean ops lits z \<longleftrightarrow> folding_clean_from ops lits (optimize_start z) 0"

lemma folded_agrees:
  assumes ok: "code_ok (op_code z)" and cl: "pass_clean ops lits z" and l: "lits_of lits (folded z)"
  shows "wf_jumps (op_code (folded z)) (op_jumps (folded z)) \<and> recs_pos (folded z) \<and>
    agrees ops lits (optimize_start z) (folded z) \<and> lits_of lits z"
proof -
  let ?c = "const_folding_from (optimize_start z) 0"
  have f: "folded z = (if op_code ?c = [] then ?c else empty_jumps_from (length (op_code ?c) - 1) ?c)"
    by (simp add: folded_def optimizeEmptyJumps_def optimizeConstFolding_def)
  have "op_lits (folded z) = op_lits ?c" by (simp add: f empty_jumps_lits)
  then have l1: "lits_of lits ?c" using l by (simp add: lits_of_def)
  have c: "folding_ok ?c \<and> agrees ops lits (optimize_start z) ?c"
    using const_folding_agrees [OF start_ok [OF ok] _ l1] cl by (simp add: pass_clean_def)
  have "lits_of lits (optimize_start z)" using const_folding_lits [OF _ l1] cl by (simp add: pass_clean_def)
  then have lz: "lits_of lits z" by (simp add: lits_of_def)
  have w: "wf_jumps (op_code ?c) (op_jumps ?c)" "recs_pos ?c" using c live_recs_pos by (auto simp: folding_ok_def)
  show ?thesis
  proof (cases "op_code ?c = []")
    case True
    then show ?thesis using c w lz by (simp add: f)
  next
    case False
    then have "length (op_code ?c) - 1 < length (op_code ?c)" by simp
    note e = empty_jumps_agrees [OF w this, of ops lits]
    then show ?thesis using False c lz agrees_trans [of ops lits _ ?c] by (auto simp: f)
  qed
qed

lemma fix_jump_lits: "fix_jump j z = Some z' \<Longrightarrow> \<exists>xs. op_lits z' = op_lits z @ xs"
  by (auto simp: fix_jump_def fix_arg0_def fix_arg23_def set_instr_def GetConstant_def Let_def
      split: if_splits jump_arg.splits option.splits)

lemma fix_jumps_lits: "fix_jumps js z = Some z' \<Longrightarrow> \<exists>xs. op_lits z' = op_lits z @ xs"
proof (induction js arbitrary: z)
  case (Cons j js)
  then obtain z1 where "fix_jump j z = Some z1" "fix_jumps js z1 = Some z'" by (auto split: option.splits)
  then show ?case using fix_jump_lits [of j z z1] Cons.IH [of z1] by auto
qed simp

lemma cut_length: "length (op_code (cutRange s a b z)) \<le> length (op_code z)"
  by (simp add: op_code_cutRange)

lemma empty_jumps_length: "length (op_code (empty_jumps_from i z)) \<le> length (op_code z)"
proof (induction i arbitrary: z)
  case (Suc i)
  show ?case using Suc [of z] Suc [of "cutRange (Suc i) 1 0 z"] cut_length [of "Suc i" 1 0 z] by simp
qed simp

lemma const_folding_length: "length (op_code (const_folding_from z i)) \<le> length (op_code z)"
proof (induction z i rule: const_folding_from.induct)
  case (1 z i)
  show ?case
  proof (cases "i + 2 < length (op_code z)")
    case True
    have "const_folding_from z i = const_folding_from (fold_at z i) (i + 1)" using True by (subst const_folding_from.simps) simp
    then show ?thesis using 1 [OF True] fold_at_length [of z i] by simp
  next
    case False
    then have "const_folding_from z i = z" by (subst const_folding_from.simps) simp
    then show ?thesis by simp
  qed
qed

lemma folded_length: "length (op_code (folded z)) \<le> length (op_code z)"
  using const_folding_length [of "optimize_start z" 0] empty_jumps_length
  by (auto simp: folded_def optimizeEmptyJumps_def optimizeConstFolding_def intro: le_trans)

lemma pass_agrees:
  assumes p: "optimize_pass z = Some z'" and ok: "code_ok (op_code z)" and cl: "pass_clean ops lits z" and l: "lits_of lits z'"
  shows "code_ok (op_code z')" and "lits_of lits z"
    and "ends ops lits (op_code z') (code_dst (op_code z')) 0 R w x \<longleftrightarrow> ends ops lits (op_code z) (code_dst (op_code z)) 0 R w x"
proof -
  have p': "(if op_changed (folded z) then fix_jumps (op_jumps (folded z)) (folded z) else Some (folded z)) = Some z'"
    using p by (simp add: optimize_pass_def folded_def Let_def split: if_splits)
  have "code_ok (op_code z') \<and> lits_of lits z \<and>
    (ends ops lits (op_code z') (code_dst (op_code z')) 0 R w x \<longleftrightarrow> ends ops lits (op_code z) (code_dst (op_code z)) 0 R w x)"
  proof (cases "op_changed (folded z)")
    case True
    then have f: "fix_jumps (op_jumps (folded z)) (folded z) = Some z'" using p' by simp
    have "lits_of lits (folded z)" using fix_jumps_lits [OF f] l by (auto simp: lits_of_def)
    note g = folded_agrees [OF ok cl this]
    have "length (op_code (folded z)) < 2 ^ 31" using ok folded_length [of z] by (simp add: code_ok_def)
    then show ?thesis using fix_pass(1) [OF f] fix_pass(2) [OF f, of ops lits R w x] g start_runs [OF ok, of ops lits R w x]
      by (simp add: agrees_def)
  next
    case False
    then have "z' = optimize_start z" using p' folded_kept by (auto simp: kept_def)
    then show ?thesis using ok l by (simp add: lits_of_def)
  qed
  then show "code_ok (op_code z')" "lits_of lits z"
    "ends ops lits (op_code z') (code_dst (op_code z')) 0 R w x \<longleftrightarrow> ends ops lits (op_code z) (code_dst (op_code z)) 0 R w x"
    by auto
qed

end
