(* ===== verification/OptThms.thy ===== *)
theory OptThms
  imports OptPass
begin

text \<open>
  Retargeting a jump to a jump keeps the outcomes, and so does the whole optimizer.
\<close>

subsection \<open>Outcomes step by step\<close>



subsection \<open>A retargeted jump\<close>









subsection \<open>Jump folding\<close>












subsection \<open>The optimizer\<close>









definition sample_instr :: "sq_opcode \<Rightarrow> u32 \<Rightarrow> u8 \<Rightarrow> u8 \<Rightarrow> u8 \<Rightarrow> sq_instr" where
  "sample_instr p a1 a0 a2 a3 = \<lparr>i_op = p, i_arg0 = a0, i_arg1 = a1, i_arg2 = a2, i_arg3 = a3\<rparr>"
















text \<open>
  The body \<open>{ x = 5; local y = x + 1; return x }\<close> of a function with the parameter \<open>x\<close>, which has
  no entry in the scopes when the optimizer runs.
\<close>

definition assign_parameter :: optimizer where
  "assign_parameter = \<lparr>op_code = [sample_instr OPC_LOADINT 5 1 0 0, sample_instr OPC_ADDI 1 2 1 0, sample_instr OPC_RETURN 1 1 0 0,
       sample_instr OPC_RETURN 0 0xFF 0 0],
     op_jumps = [], op_locals = [\<lparr>lv_start = 2, lv_end = 2, lv_pos = 2\<rparr>], op_lines = [], op_lits = [], op_changed = False\<rparr>"

lemma assign_parameter_code:
  "map_option op_code (optimize assign_parameter) =
     Some [sample_instr OPC_LOADINT 6 2 0 0, sample_instr OPC_RETURN 1 1 0 0, sample_instr OPC_RETURN 0 0xFF 0 0]"
  by code_simp

lemma three: "(3::nat) = Suc (Suc (Suc 0))"
  by simp

text \<open>
  What the first condition of the foldings excludes: an assignment of a constant to a parameter is
  folded away when the next instruction reads the parameter, for \<open>isLocalVarRegister\<close> does not know
  parameters yet. The code returns 5, the optimized code returns the argument of the call.
\<close>

lemma assigned_parameter_lost:
  "\<exists>z'. optimize assign_parameter = Some z' \<and>
     vm_execute 3 ops lits (op_code assign_parameter) R w = Some (Returned (SQInteger 5) w) \<and>
     vm_execute 3 ops lits (op_code z') R w = Some (Returned (R 1) w)"
proof -
  obtain z' where z': "optimize assign_parameter = Some z'"
    "op_code z' = [sample_instr OPC_LOADINT 6 2 0 0, sample_instr OPC_RETURN 1 1 0 0, sample_instr OPC_RETURN 0 0xFF 0 0]"
    using assign_parameter_code by auto
  have "vm_execute 3 ops lits (op_code z') R w = Some (Returned (R 1) w)"
    by (simp add: z'(2) vm_execute_def three sample_instr_def vm_step_def exec_defs Return_def reg1_def reg_def)
  moreover have "vm_execute 3 ops lits (op_code assign_parameter) R w = Some (Returned (SQInteger 5) w)"
    by (simp add: assign_parameter_def vm_execute_def three sample_instr_def vm_step_def exec_defs Return_def
        reg1_def reg_def load_int_def finish_def arith_fast_def)
  ultimately show ?thesis using z'(1) by blast
qed

text \<open>
  \<open>cutRange\<close> takes the instructions it removes from the positions of all line records behind the cut, also from those of
  removed instructions: the records of a folded addition end up out of order.
\<close>

lemma cut_lines_disorder:
  "map_option op_lines (optimize \<lparr>op_code = [sample_instr OPC_LOADINT 1 1 0 0, sample_instr OPC_LOADINT 2 2 0 0,
       sample_instr OPC_ADD 2 1 1 0, sample_instr OPC_RETURN 1 1 0 0, sample_instr OPC_RETURN 0 0xFF 0 0],
     op_jumps = [], op_locals = [], op_lines = [0, 1, 2], op_lits = [], op_changed = False\<rparr>) = Some [0, 1, 0]"
  by code_simp

end
