(* ===== verification/FuncState.thy ===== *)
theory FuncState
  imports Optimizer
begin

text \<open>
  The state of the function that is being compiled (\<^verbatim>\<open>squirrel/compiler/sqfuncstate.cpp\<close>,
  \<^verbatim>\<open>sqfuncstate.h\<close>): its registers with the variables in them, the stack of targets, the
  variables of enclosing functions, the literals, the lines and the instructions, with the
  peephole rules of \<open>AddInstruction\<close>.
\<close>

subsection \<open>The state\<close>

text \<open>A register; it holds a temporary where the name is null.\<close>

record local_var =
  lv_name :: "string option"
  lv_start_op :: u32
  lv_end_op :: u32
  lv_pos_reg :: u32
  lv_flags :: u8
  lv_type_mask :: u32

datatype outer_type = otLOCAL | otOUTER

record outer_var =
  ov_name :: string
  ov_src :: nat
  ov_type :: outer_type
  ov_flags :: u8
  ov_type_mask :: u32

record line_info =
  li_op :: u32
  li_line :: int
  li_step :: bool

text \<open>
  The top of \<open>fs_targetstack\<close> is its first element. \<open>fs_has_parent\<close> and \<open>fs_no_optimizer\<close> stand
  for \<open>_parent\<close> and the language feature \<open>LF_DISABLE_OPTIMIZER\<close>.
\<close>

record func_state =
  fs_vlocals :: "local_var list"
  fs_targetstack :: "nat list"
  fs_stacksize :: nat
  fs_code :: "sq_instr list"
  fs_localvarinfos :: "local_var list"
  fs_outervalues :: "outer_var list"
  fs_outers :: int
  fs_literals :: "sq_obj list"
  fs_lines :: "line_info list"
  fs_lastline :: int
  fs_optimization :: bool
  fs_parameters :: "string list"
  fs_param_type_masks :: "u32 list"
  fs_returnexp :: int
  fs_has_parent :: bool
  fs_no_optimizer :: bool
  fs_purefunction :: bool

definition new_func_state :: "bool \<Rightarrow> bool \<Rightarrow> func_state" where
  "new_func_state parent no_optimizer =
     \<lparr>fs_vlocals = [], fs_targetstack = [], fs_stacksize = 0, fs_code = [], fs_localvarinfos = [], fs_outervalues = [],
       fs_outers = 0, fs_literals = [], fs_lines = [], fs_lastline = 0, fs_optimization = True, fs_parameters = [],
       fs_param_type_masks = [], fs_returnexp = 0, fs_has_parent = parent, fs_no_optimizer = no_optimizer,
       fs_purefunction = False\<rparr>"

definition VF_ASSIGNABLE :: u8 where "VF_ASSIGNABLE = 1"
definition VF_PARAM :: u8 where "VF_PARAM = 4"
definition MAX_FUNC_STACKSIZE :: nat where "MAX_FUNC_STACKSIZE = 0xFF"
definition OUTER_END :: u32 where "OUTER_END = 0xFFFFFFFF"

definition temporary :: local_var where
  "temporary = \<lparr>lv_name = None, lv_start_op = 0, lv_end_op = 0, lv_pos_reg = 0, lv_flags = VF_ASSIGNABLE, lv_type_mask = 0xFFFFFFFF\<rparr>"

datatype fs_error = TooManySymbols string

definition GetCurrentPos :: "func_state \<Rightarrow> int" where
  "GetCurrentPos fs = int (length (fs_code fs)) - 1"

subsection \<open>Registers and targets\<close>

definition AllocStackPos :: "func_state \<Rightarrow> fs_error + nat \<times> func_state" where
  "AllocStackPos fs =
     (let npos = length (fs_vlocals fs) in
      if npos \<ge> MAX_FUNC_STACKSIZE then Inl (TooManySymbols ''locals'')
      else Inr (npos, fs\<lparr>fs_vlocals := fs_vlocals fs @ [temporary], fs_stacksize := max (fs_stacksize fs) (npos + 1)\<rparr>))"

text \<open>\<open>PushTarget(-1)\<close> allocates a register.\<close>

definition PushTarget :: "nat option \<Rightarrow> func_state \<Rightarrow> fs_error + nat \<times> func_state" where
  "PushTarget n fs =
     (case n of
        Some n \<Rightarrow> Inr (n, fs\<lparr>fs_targetstack := n # fs_targetstack fs\<rparr>)
      | None \<Rightarrow>
          (case AllocStackPos fs of
             Inl e \<Rightarrow> Inl e
           | Inr (n, fs) \<Rightarrow> Inr (n, fs\<lparr>fs_targetstack := n # fs_targetstack fs\<rparr>)))"

definition GetUpTarget :: "nat \<Rightarrow> func_state \<Rightarrow> nat" where
  "GetUpTarget n fs = fs_targetstack fs ! n"

definition TopTarget :: "func_state \<Rightarrow> nat" where
  "TopTarget fs = hd (fs_targetstack fs)"

definition PopTarget :: "func_state \<Rightarrow> nat \<times> func_state" where
  "PopTarget fs =
     (let npos = hd (fs_targetstack fs) in
      (npos, fs\<lparr>fs_vlocals := (if lv_name (fs_vlocals fs ! npos) = None then butlast (fs_vlocals fs) else fs_vlocals fs),
                fs_targetstack := tl (fs_targetstack fs)\<rparr>))"

definition GetStackSize :: "func_state \<Rightarrow> nat" where
  "GetStackSize fs = length (fs_vlocals fs)"

definition CountOuters :: "nat \<Rightarrow> func_state \<Rightarrow> nat" where
  "CountOuters stacksize fs = length (filter (\<lambda>v. lv_end_op v = OUTER_END) (drop stacksize (fs_vlocals fs)))"

text \<open>One turn of the loop of \<open>SetStackSize\<close>: the topmost register ends.\<close>

definition drop_local :: "func_state \<Rightarrow> func_state" where
  "drop_local fs =
     (let lvi = last (fs_vlocals fs); fs = fs\<lparr>fs_vlocals := butlast (fs_vlocals fs)\<rparr> in
      if lv_name lvi = None then fs
      else fs\<lparr>fs_outers := (if lv_end_op lvi = OUTER_END then fs_outers fs - 1 else fs_outers fs),
              fs_localvarinfos := fs_localvarinfos fs @ [lvi\<lparr>lv_end_op := word_of_int (GetCurrentPos fs)\<rparr>]\<rparr>)"

definition SetStackSize :: "nat \<Rightarrow> func_state \<Rightarrow> func_state" where
  "SetStackSize n fs = (drop_local ^^ (length (fs_vlocals fs) - n)) fs"

definition IsLocal :: "func_state \<Rightarrow> nat \<Rightarrow> bool" where
  "IsLocal fs stkpos \<longleftrightarrow> stkpos < length (fs_vlocals fs) \<and> lv_name (fs_vlocals fs ! stkpos) \<noteq> None"

definition PushLocalVariable :: "string \<Rightarrow> u8 \<Rightarrow> u32 \<Rightarrow> func_state \<Rightarrow> nat \<times> func_state" where
  "PushLocalVariable name flags tmask fs =
     (let pos = length (fs_vlocals fs);
          lvi = \<lparr>lv_name = Some name, lv_start_op = word_of_int (GetCurrentPos fs + 1), lv_end_op = 0, lv_pos_reg = word_of_nat pos,
                 lv_flags = flags, lv_type_mask = tmask\<rparr>
      in (pos, fs\<lparr>fs_vlocals := fs_vlocals fs @ [lvi], fs_stacksize := max (fs_stacksize fs) (pos + 1)\<rparr>))"

definition AddParameter :: "string \<Rightarrow> u32 \<Rightarrow> func_state \<Rightarrow> func_state" where
  "AddParameter name tmask fs =
     (case PushLocalVariable name (VF_PARAM OR VF_ASSIGNABLE) tmask fs of
        (_, fs) \<Rightarrow> fs\<lparr>fs_parameters := fs_parameters fs @ [name], fs_param_type_masks := fs_param_type_masks fs @ [tmask]\<rparr>)"

subsection \<open>Variables\<close>

text \<open>The loop of \<open>GetLocalVariable\<close> goes down from the topmost of \<open>n\<close> registers.\<close>

fun local_from :: "string \<Rightarrow> local_var list \<Rightarrow> nat \<Rightarrow> nat option" where
  "local_from name vs 0 = None"
| "local_from name vs (Suc n) = (if lv_name (vs ! n) = Some name then Some n else local_from name vs n)"

definition GetLocalVariable :: "string \<Rightarrow> func_state \<Rightarrow> nat option" where
  "GetLocalVariable name fs = local_from name (fs_vlocals fs) (length (fs_vlocals fs))"

definition MarkLocalAsOuter :: "nat \<Rightarrow> func_state \<Rightarrow> func_state" where
  "MarkLocalAsOuter pos fs =
     fs\<lparr>fs_vlocals := (fs_vlocals fs)[pos := (fs_vlocals fs ! pos)\<lparr>lv_end_op := OUTER_END\<rparr>], fs_outers := fs_outers fs + 1\<rparr>"

fun outer_index :: "string \<Rightarrow> outer_var list \<Rightarrow> nat option" where
  "outer_index name [] = None"
| "outer_index name (v # vs) = (if ov_name v = name then Some 0 else map_option Suc (outer_index name vs))"

definition push_outer :: "string \<Rightarrow> nat \<Rightarrow> outer_type \<Rightarrow> u8 \<times> u32 \<Rightarrow> func_state \<Rightarrow> nat \<times> func_state" where
  "push_outer name src t info fs =
     (length (fs_outervalues fs),
      fs\<lparr>fs_outervalues := fs_outervalues fs @ [\<lparr>ov_name = name, ov_src = src, ov_type = t, ov_flags = fst info, ov_type_mask = snd info\<rparr>]\<rparr>)"

text \<open>
  The function comes first, its parents follow. The answer is the index in \<open>_outervalues\<close> with the
  flags and the type tmask of the variable.
\<close>

fun GetOuterVariable :: "string \<Rightarrow> func_state list \<Rightarrow> (nat \<times> u8 \<times> u32) option \<times> func_state list" where
  "GetOuterVariable name [] = (None, [])"
| "GetOuterVariable name (fs # ps) =
     (case outer_index name (fs_outervalues fs) of
        Some i \<Rightarrow> (Some (i, ov_flags (fs_outervalues fs ! i), ov_type_mask (fs_outervalues fs ! i)), fs # ps)
      | None \<Rightarrow>
          (case ps of
             [] \<Rightarrow> (None, fs # ps)
           | p # pp \<Rightarrow>
               (case GetLocalVariable name p of
                  None \<Rightarrow>
                    (case GetOuterVariable name ps of
                       (None, ps) \<Rightarrow> (None, fs # ps)
                     | (Some (pos, info), ps) \<Rightarrow>
                         (case push_outer name pos otOUTER info fs of (i, fs) \<Rightarrow> (Some (i, info), fs # ps)))
                | Some pos \<Rightarrow>
                    (let info = (lv_flags (fs_vlocals p ! pos), lv_type_mask (fs_vlocals p ! pos)) in
                     case push_outer name pos otLOCAL info fs of (i, fs) \<Rightarrow> (Some (i, info), fs # MarkLocalAsOuter pos p # pp)))))"

subsection \<open>Lines\<close>

definition AddLineInfos :: "int \<Rightarrow> bool \<Rightarrow> bool \<Rightarrow> func_state \<Rightarrow> func_state" where
  "AddLineInfos line is_dbg_step_point force fs =
     (if fs_lastline fs \<noteq> line \<or> force then
        (let fs = (if fs_lastline fs \<noteq> line then
                     fs\<lparr>fs_lines := fs_lines fs @ [\<lparr>li_op = word_of_int (GetCurrentPos fs + 1), li_line = line, li_step = is_dbg_step_point\<rparr>]\<rparr>
                   else fs)
         in fs\<lparr>fs_lastline := line\<rparr>)
      else fs)"

subsection \<open>Instructions\<close>

definition new_instr :: "sq_opcode \<Rightarrow> int \<Rightarrow> int \<Rightarrow> int \<Rightarrow> int \<Rightarrow> sq_instr" where
  "new_instr p a0 a1 a2 a3 =
     \<lparr>i_op = p, i_arg0 = word_of_int a0, i_arg1 = word_of_int a1, i_arg2 = word_of_int a2, i_arg3 = word_of_int a3\<rparr>"

definition SetInstructionParams :: "nat \<Rightarrow> int \<Rightarrow> int \<Rightarrow> int \<Rightarrow> int \<Rightarrow> func_state \<Rightarrow> func_state" where
  "SetInstructionParams pos a0 a1 a2 a3 fs =
     fs\<lparr>fs_code := (fs_code fs)[pos := new_instr (i_op (fs_code fs ! pos)) a0 a1 a2 a3]\<rparr>"

definition set_param :: "nat \<Rightarrow> int \<Rightarrow> sq_instr \<Rightarrow> sq_instr" where
  "set_param a val x =
     (if a = 0 then x\<lparr>i_arg0 := word_of_int val\<rparr>
      else if a = 1 \<or> a = 4 then x\<lparr>i_arg1 := word_of_int val\<rparr>
      else if a = 2 then x\<lparr>i_arg2 := word_of_int val\<rparr>
      else if a = 3 then x\<lparr>i_arg3 := word_of_int val\<rparr>
      else x)"

definition SetInstructionParam :: "nat \<Rightarrow> nat \<Rightarrow> int \<Rightarrow> func_state \<Rightarrow> func_state" where
  "SetInstructionParam pos a val fs = fs\<lparr>fs_code := (fs_code fs)[pos := set_param a val (fs_code fs ! pos)]\<rparr>"

text \<open>A function does not reach \<open>MAX_LITERALS\<close> literals.\<close>

definition GetLiteral :: "sq_obj \<Rightarrow> func_state \<Rightarrow> nat \<times> func_state" where
  "GetLiteral c fs =
     (case lit_index c (fs_literals fs) of
        Some k \<Rightarrow> (k, fs)
      | None \<Rightarrow> (length (fs_literals fs), fs\<lparr>fs_literals := fs_literals fs @ [c]\<rparr>))"

definition DiscardTarget :: "func_state \<Rightarrow> func_state" where
  "DiscardTarget fs =
     (case PopTarget fs of
        (discarded, fs) \<Rightarrow>
          (if fs_code fs \<noteq> [] \<and> fs_optimization fs then
             (let pi = last (fs_code fs) in
              if i_op pi \<in> {OPC_SETI, OPC_SETK, OPC_SET, OPC_NEWSLOTK, OPC_NEWSLOT, OPC_SETOUTER, OPC_CALL, OPC_NULLCALL} \<and>
                 reg (i_arg0 pi) = discarded
              then fs\<lparr>fs_code := butlast (fs_code fs) @ [pi\<lparr>i_arg0 := 0xFF\<rparr>]\<rparr>
              else fs)
           else fs))"

end
