(* ===== verification/Peephole.thy ===== *)
theory Peephole
  imports FuncState
begin

text \<open>
  \<open>SQFuncState::AddInstruction\<close>: an instruction is appended to the code, or it changes the
  previous one. The rules are those of the switch, one definition per group of cases.
\<close>

text \<open>What a rule answers: the state, the previous instruction, and the one that is still appended.\<close>

type_synonym peep_result = "func_state \<times> sq_instr \<times> sq_instr option"

text \<open>The previous instruction fills the temporary that is read as \<open>arg1\<close>.\<close>

definition fills :: "func_state \<Rightarrow> sq_instr \<Rightarrow> sq_instr \<Rightarrow> bool" where
  "fills fs pi i \<longleftrightarrow> uint (i_arg0 pi) = sarg1 i \<and> \<not> IsLocal fs (reg (i_arg0 pi))"

definition discard_target :: "bool \<Rightarrow> sq_instr \<Rightarrow> sq_instr" where
  "discard_target b i = (if b then i\<lparr>i_arg0 := 0xFF\<rparr> else i)"

definition copy023 :: "sq_opcode \<Rightarrow> sq_instr \<Rightarrow> sq_instr \<Rightarrow> sq_instr" where
  "copy023 p i pi = pi\<lparr>i_arg2 := i_arg2 i, i_op := p, i_arg0 := i_arg0 i, i_arg3 := i_arg3 i\<rparr>"

definition with_literal :: "sq_obj \<Rightarrow> func_state \<Rightarrow> sq_instr \<Rightarrow> func_state \<times> sq_instr" where
  "with_literal c fs pi = (case GetLiteral c fs of (k, fs) \<Rightarrow> (fs, pi\<lparr>i_arg1 := word_of_nat k\<rparr>))"

subsection \<open>Conditional jumps\<close>

definition peep_jz :: "func_state \<Rightarrow> sq_instr \<Rightarrow> sq_instr \<Rightarrow> peep_result" where
  "peep_jz fs pi i =
     (if i_op pi = OPC_CMP \<and> sarg1 pi < 0xFF then
        (fs, pi\<lparr>i_op := OPC_JCMP, i_arg0 := ucast (i_arg1 pi),
                i_arg3 := i_arg3 pi OR push_bit 3 (if i_arg2 i \<noteq> 0 then 1 else 0), i_arg1 := i_arg1 i\<rparr>, None)
      else (fs, pi, Some i))"

subsection \<open>Slots\<close>

definition peep_set :: "func_state \<Rightarrow> sq_instr \<Rightarrow> sq_instr \<Rightarrow> peep_result" where
  "peep_set fs pi i =
     (let i = discard_target (i_arg0 i = i_arg3 i) i in
      if i_op pi = OPC_LOAD \<and> fills fs pi i then (fs, copy023 OPC_SETK i pi, None)
      else if i_op pi = OPC_LOADINT \<and> fills fs pi i then (fs, copy023 OPC_SETI i pi, None)
      else (fs, pi, Some i))"

definition peep_newslot :: "func_state \<Rightarrow> sq_instr \<Rightarrow> sq_instr \<Rightarrow> peep_result" where
  "peep_newslot fs pi i =
     (let i = discard_target (i_arg0 i = i_arg3 i) i in
      if (i_op pi = OPC_LOADINT \<or> i_op pi = OPC_LOAD) \<and> fills fs pi i then
        (let (fs, pi) = (if i_op pi = OPC_LOADINT then with_literal (load_int pi) fs pi else (fs, pi))
         in (fs, copy023 OPC_NEWSLOTK i pi, None))
      else (fs, pi, Some i))"

definition peep_get :: "func_state \<Rightarrow> sq_instr \<Rightarrow> sq_instr \<Rightarrow> peep_result" where
  "peep_get fs pi i =
     (if i_op pi = OPC_LOAD \<and> fills fs pi i then (fs, copy023 OPC_GETK i pi, None)
      else if i_op pi = OPC_LOADINT \<and> fills fs pi i then
        (case with_literal (load_int pi) fs pi of (fs, pi) \<Rightarrow> (fs, copy023 OPC_GETK i pi, None))
      else (fs, pi, Some i))"

definition peep_prepcall :: "func_state \<Rightarrow> sq_instr \<Rightarrow> sq_instr \<Rightarrow> peep_result" where
  "peep_prepcall fs pi i =
     (if i_op pi = OPC_LOAD \<and> fills fs pi i then (fs, copy023 OPC_PREPCALLK i pi, None) else (fs, pi, Some i))"

definition AAT_LITERAL :: u8 where "AAT_LITERAL = 1"
definition AAT_INT :: u8 where "AAT_INT = 2"
definition AAT_FLOAT :: u8 where "AAT_FLOAT = 3"
definition AAT_BOOL :: u8 where "AAT_BOOL = 4"

definition peep_append :: "func_state \<Rightarrow> sq_instr \<Rightarrow> sq_instr \<Rightarrow> peep_result" where
  "peep_append fs pi i =
     (let aat = (case i_op pi of
                   OPC_LOAD \<Rightarrow> Some AAT_LITERAL
                 | OPC_LOADINT \<Rightarrow> Some AAT_INT
                 | OPC_LOADBOOL \<Rightarrow> Some AAT_BOOL
                 | OPC_LOADFLOAT \<Rightarrow> Some AAT_FLOAT
                 | _ \<Rightarrow> None)
      in if aat \<noteq> None \<and> fills fs pi i then
           (fs, pi\<lparr>i_op := OPC_APPENDARRAY, i_arg0 := i_arg0 i, i_arg2 := the aat, i_arg3 := 0xFF\<rparr>, None)
         else (fs, pi, Some i))"

subsection \<open>Calls\<close>

definition peep_return :: "func_state \<Rightarrow> sq_instr \<Rightarrow> sq_instr \<Rightarrow> peep_result" where
  "peep_return fs pi i =
     (if fs_has_parent fs \<and> i_arg0 i \<noteq> 0xFF \<and> i_op pi = OPC_CALL \<and> fs_returnexp fs < GetCurrentPos fs then
        (fs, pi\<lparr>i_op := OPC_TAILCALL\<rparr>, Some i)
      else if i_op pi = OPC_CLOSE then (fs, i, None)
      else (fs, pi, Some i))"

subsection \<open>Moves and loads\<close>

definition retargetable :: "sq_opcode \<Rightarrow> bool" where
  "retargetable p \<longleftrightarrow> p \<in> {OPC_GET, OPC_GETK, OPC_ADD, OPC_SUB, OPC_MUL, OPC_DIV, OPC_MOD, OPC_BITW, OPC_LOADINT, OPC_LOADFLOAT,
     OPC_LOADBOOL, OPC_LOAD, OPC_NEG, OPC_NOT, OPC_BWNOT, OPC_ADDI, OPC_CMP, OPC_TYPEOF, OPC_CLONE}"

definition peep_move :: "func_state \<Rightarrow> sq_instr \<Rightarrow> sq_instr \<Rightarrow> peep_result" where
  "peep_move fs pi i =
     (let second = pi\<lparr>i_arg2 := i_arg0 i, i_arg3 := ucast (i_arg1 i)\<rparr> in
      if retargetable (i_op pi) \<and> fills fs pi i then (fs\<lparr>fs_optimization := False\<rparr>, pi\<lparr>i_arg0 := i_arg0 i\<rparr>, None)
      else if (i_op pi = OPC_GETOUTER \<or> i_op pi = OPC_LOADCALLEE) \<and> sarg1 i < 256 \<and> i_arg0 i \<noteq> 0 \<and> i_arg2 pi = 0 then
        (fs, second, None)
      else if i_op pi = OPC_MOVE \<and> sarg1 i < 256 then (fs, second\<lparr>i_op := OPC_DMOVE\<rparr>, None)
      else (fs, pi, Some i))"

definition peep_load :: "func_state \<Rightarrow> sq_instr \<Rightarrow> sq_instr \<Rightarrow> peep_result" where
  "peep_load fs pi i =
     (if i_op pi = OPC_LOAD \<and> sarg1 i < 256 then
        (fs, pi\<lparr>i_op := OPC_DLOAD, i_arg2 := i_arg0 i, i_arg3 := ucast (i_arg1 i)\<rparr>, None)
      else (fs, pi, Some i))"

definition peep_loadnulls :: "func_state \<Rightarrow> sq_instr \<Rightarrow> sq_instr \<Rightarrow> peep_result" where
  "peep_loadnulls fs pi i =
     (if i_op pi = OPC_LOADNULLS \<and> uint (i_arg0 pi) + sarg1 pi = uint (i_arg0 i) then (fs, pi\<lparr>i_arg1 := i_arg1 pi + 1\<rparr>, None)
      else (fs, pi, Some i))"

subsection \<open>Equality\<close>

definition peep_eq :: "func_state \<Rightarrow> sq_instr \<Rightarrow> sq_instr \<Rightarrow> peep_result" where
  "peep_eq fs pi i =
     (if (i_op pi = OPC_LOAD \<or> i_op pi = OPC_LOADINT \<or> i_op pi = OPC_LOADFLOAT \<or> i_op pi = OPC_LOADBOOL) \<and> fills fs pi i then
        (let (fs, pi) =
               (case i_op pi of
                  OPC_LOADINT \<Rightarrow> with_literal (load_int pi) fs pi
                | OPC_LOADFLOAT \<Rightarrow> with_literal (SQFloat (i_arg1 pi)) fs pi
                | OPC_LOADBOOL \<Rightarrow> with_literal (SQBool (i_arg1 pi \<noteq> 0)) fs pi
                | _ \<Rightarrow> (fs, pi))
         in (fs, pi\<lparr>i_op := i_op i, i_arg0 := i_arg0 i, i_arg2 := i_arg2 i, i_arg3 := 1\<rparr>, None))
      else (fs, pi, Some i))"

subsection \<open>The switch\<close>

definition peep :: "func_state \<Rightarrow> sq_instr \<Rightarrow> sq_instr \<Rightarrow> peep_result" where
  "peep fs pi i =
     (case i_op i of
        OPC_JZ \<Rightarrow> peep_jz fs pi i
      | OPC_SET \<Rightarrow> peep_set fs pi i
      | OPC_NEWSLOT \<Rightarrow> peep_newslot fs pi i
      | OPC_SETI \<Rightarrow> (fs, pi, Some (discard_target (i_arg0 i = i_arg3 i) i))
      | OPC_SETK \<Rightarrow> (fs, pi, Some (discard_target (i_arg0 i = i_arg3 i) i))
      | OPC_NEWSLOTK \<Rightarrow> (fs, pi, Some (discard_target (i_arg0 i = i_arg3 i) i))
      | OPC_SETOUTER \<Rightarrow> (fs, pi, Some (discard_target (i_arg0 i = i_arg2 i) i))
      | OPC_RETURN \<Rightarrow> peep_return fs pi i
      | OPC_GET \<Rightarrow> peep_get fs pi i
      | OPC_PREPCALL \<Rightarrow> peep_prepcall fs pi i
      | OPC_APPENDARRAY \<Rightarrow> peep_append fs pi i
      | OPC_MOVE \<Rightarrow> peep_move fs pi i
      | OPC_LOAD \<Rightarrow> peep_load fs pi i
      | OPC_EQ \<Rightarrow> peep_eq fs pi i
      | OPC_NE \<Rightarrow> peep_eq fs pi i
      | OPC_LOADNULLS \<Rightarrow> peep_loadnulls fs pi i
      | _ \<Rightarrow> (fs, pi, Some i))"

definition append_instr :: "sq_instr \<Rightarrow> func_state \<Rightarrow> func_state" where
  "append_instr i fs = fs\<lparr>fs_optimization := True, fs_code := fs_code fs @ [i]\<rparr>"

definition AddInstruction :: "sq_instr \<Rightarrow> func_state \<Rightarrow> func_state" where
  "AddInstruction i fs =
     (if fs_code fs \<noteq> [] \<and> fs_optimization fs \<and> \<not> fs_no_optimizer fs then
        (let (fs, pi, rest) = peep fs (last (fs_code fs)) i;
             fs = fs\<lparr>fs_code := butlast (fs_code fs) @ [pi]\<rparr>
         in case rest of None \<Rightarrow> fs | Some i \<Rightarrow> append_instr i fs)
      else append_instr i fs)"

subsection \<open>Purity\<close>

definition sq_opcode_length :: "sq_opcode \<Rightarrow> nat" where
  "sq_opcode_length p = (if p = OPC_SET_LITERAL \<or> p = OPC_GET_LITERAL then 2 else 1)"

definition sq_is_pure_op :: "sq_opcode \<Rightarrow> bool" where
  "sq_is_pure_op p \<longleftrightarrow>
     p \<notin> {OPC_SETOUTER, OPC_GETOUTER, OPC_SET_LITERAL, OPC_SET, OPC_SETI, OPC_SETK, OPC_CLOSURE, OPC_TAILCALL, OPC_CALL,
       OPC_NULLCALL, OPC_PREPCALL, OPC_PREPCALLK, OPC_NEWOBJ, OPC_APPENDARRAY, OPC_NEWSLOT, OPC_NEWSLOTK, OPC_NEWSLOTA,
       OPC_DELETE, OPC_YIELD, OPC_RESUME, OPC_CLONE, OPC_PUSHTRAP, OPC_POPTRAP, OPC_THROW, OPC_CLOSE, OPC_GETBASE}"

fun all_pure :: "sq_instr list \<Rightarrow> bool" where
  "all_pure [] = True"
| "all_pure (i # is) = (sq_is_pure_op (i_op i) \<and> all_pure (drop (sq_opcode_length (i_op i) - 1) is))"

definition CheckForPurity :: "func_state \<Rightarrow> func_state" where
  "CheckForPurity fs = (if all_pure (fs_code fs) then fs\<lparr>fs_purefunction := True\<rparr> else fs)"

end
