(* ===== verification/PeepholeThms.thy ===== *)
theory PeepholeThms
  imports Peephole
begin

text \<open>
  A rule of \<open>AddInstruction\<close> leaves code that does what the two instructions do, apart from a
  temporary that it no longer fills.
\<close>

subsection \<open>Straight code\<close>

datatype 'w seq_end = Falls regs 'w | Jumps regs 'w | Ends "'w vm_outcome" | Unknown

fun seq_run :: "'w vm_ops \<Rightarrow> sq_obj list \<Rightarrow> sq_instr list \<Rightarrow> regs \<Rightarrow> 'w \<Rightarrow> 'w seq_end" where
  "seq_run ops lits [] R w = Falls R w"
| "seq_run ops lits (x # xs) R w =
     (case vm_step ops lits x (- 1) 0 R w of
        Goto p R w \<Rightarrow> if p = - 1 then Jumps R w else seq_run ops lits xs R w
      | Stop r \<Rightarrow> Ends r
      | Unmodelled \<Rightarrow> Unknown)"

fun same_but :: "(nat \<Rightarrow> bool) \<Rightarrow> 'w seq_end \<Rightarrow> 'w seq_end \<Rightarrow> bool" where
  "same_but T (Falls R w) (Falls S v) \<longleftrightarrow> w = v \<and> (\<forall>r. \<not> T r \<longrightarrow> R r = S r)"
| "same_but T (Jumps R w) (Jumps S v) \<longleftrightarrow> w = v \<and> (\<forall>r. \<not> T r \<longrightarrow> R r = S r)"
| "same_but T (Ends x) (Ends y) \<longleftrightarrow> x = y"
| "same_but T Unknown Unknown \<longleftrightarrow> True"
| "same_but T _ _ \<longleftrightarrow> False"

lemma same_but_refl [simp]: "same_but T x x"
  by (cases x) simp_all

subsection \<open>What an instruction with a target computes\<close>

definition finish_val :: "'w vm_ops \<Rightarrow> sq_obj vm_result \<Rightarrow> 'w \<Rightarrow> (vm_error + sq_obj) \<times> 'w" where
  "finish_val ops r w =
     (case r of VVal v \<Rightarrow> (Inr v, w) | VErr x \<Rightarrow> (Inl x, w) | VMeta m xs \<Rightarrow> vo_call ops m xs w | VCat a b \<Rightarrow> vo_cat ops a b w)"

definition deliver :: "(vm_error + 'a) \<times> 'w \<Rightarrow> ('a \<Rightarrow> 'w \<Rightarrow> 'w vm_next) \<Rightarrow> 'w vm_next" where
  "deliver x k = (case x of (Inl e, w) \<Rightarrow> Stop (Raised e w) | (Inr v, w) \<Rightarrow> k v w)"

lemma deliver_simps [simp]: "deliver (Inl e, w) k = Stop (Raised e w)" "deliver (Inr v, w) k = k v w"
  by (simp_all add: deliver_def)

lemma finish_deliver: "finish ops r k w = deliver (finish_val ops r w) k"
  by (simp add: finish_def finish_val_def deliver_def Let_def split: vm_result.splits)

definition cmp_val :: "'w vm_ops \<Rightarrow> int vm_result \<Rightarrow> 'w \<Rightarrow> ((vm_error + int) \<times> 'w) option" where
  "cmp_val ops r w =
     (case r of
        VVal x \<Rightarrow> Some (Inr x, w)
      | VErr x \<Rightarrow> Some (Inl x, w)
      | VMeta m xs \<Rightarrow>
          (case vo_call ops m xs w of
             (Inl x, w) \<Rightarrow> Some (Inl x, w)
           | (Inr v, w) \<Rightarrow> (case v of SQInteger i \<Rightarrow> Some (Inr (sint i), w) | _ \<Rightarrow> Some (Inl (ErrMsg ''_cmp must return an integer''), w)))
      | VCat a b \<Rightarrow> None)"

lemma finish_cmp_deliver:
  "finish_cmp ops f r k w =
     (case cmp_val ops r w of
        None \<Rightarrow> Unmodelled
      | Some x \<Rightarrow> deliver x (\<lambda>n w. case f n of Some b \<Rightarrow> k b w | None \<Rightarrow> Stop (Raised (ErrMsg []) w)))"
  by (simp add: finish_cmp_def cmp_val_def deliver_def Let_def split: vm_result.splits prod.splits sum.splits sq_obj.splits)

lemma IsFalse_bool [simp]: "IsFalse (SQBool b) \<longleftrightarrow> \<not> b"
  by (auto simp: IsFalse_def sq_rawval_def sq_type_def sq_float_def sq_integer_def OT_BOOL_def OT_FLOAT_def OT_INTEGER_def)

lemma cmp_obj_res:
  "p \<noteq> CMP_3W \<Longrightarrow> (case cmp_obj p n of None \<Rightarrow> cmp_res p n = None | Some v \<Rightarrow> \<exists>r. cmp_res p n = Some r \<and> (IsFalse v \<longleftrightarrow> r = 0))"
  by (simp add: cmp_obj_def cmp_res_def)

text \<open>The instructions whose target a move replaces.\<close>

definition moved_op :: "sq_opcode \<Rightarrow> bool" where
  "moved_op p \<longleftrightarrow> retargetable p \<and> p \<noteq> OPC_GET \<and> p \<noteq> OPC_GETK \<and> p \<noteq> OPC_TYPEOF \<and> p \<noteq> OPC_CLONE"

definition cmp_result :: "u8 \<Rightarrow> (vm_error + int) \<times> 'w \<Rightarrow> (vm_error + sq_obj) \<times> 'w" where
  "cmp_result p x =
     (case x of
        (Inl e, w) \<Rightarrow> (Inl e, w)
      | (Inr n, w) \<Rightarrow> (case cmp_obj p n of None \<Rightarrow> (Inl (ErrMsg []), w) | Some v \<Rightarrow> (Inr v, w)))"

definition target_val :: "'w vm_ops \<Rightarrow> sq_obj list \<Rightarrow> sq_instr \<Rightarrow> regs \<Rightarrow> 'w \<Rightarrow> ((vm_error + sq_obj) \<times> 'w) option" where
  "target_val ops lits x R w =
     (let A1 = R (reg1 x); A2 = R (reg (i_arg2 x)); mm = vo_meta ops w;
          val = (\<lambda>v. Some (Inr v, w)); op = (\<lambda>r. Some (finish_val ops r w))
      in case i_op x of
           OPC_LOAD \<Rightarrow> val (lits ! reg1 x)
         | OPC_LOADINT \<Rightarrow> val (load_int x)
         | OPC_LOADFLOAT \<Rightarrow> val (SQFloat (i_arg1 x))
         | OPC_LOADBOOL \<Rightarrow> val (SQBool (i_arg1 x \<noteq> 0))
         | OPC_ADD \<Rightarrow> op (arith_fast mm CHR ''+'' A2 A1)
         | OPC_ADDI \<Rightarrow> op (arith_fast mm CHR ''+'' A2 (load_int x))
         | OPC_SUB \<Rightarrow> op (arith_fast mm CHR ''-'' A2 A1)
         | OPC_MUL \<Rightarrow> op (arith_fast mm CHR ''*'' A2 A1)
         | OPC_DIV \<Rightarrow> op (arith_nozero mm A2 A1)
         | OPC_MOD \<Rightarrow> op (ARITH_OP mm CHR ''%'' A2 A1)
         | OPC_BITW \<Rightarrow> op (BW_OP (i_arg3 x) A2 A1)
         | OPC_NEG \<Rightarrow> op (NEG_OP mm A1)
         | OPC_NOT \<Rightarrow> val (SQBool (IsFalse A1))
         | OPC_BWNOT \<Rightarrow> (case A1 of SQInteger t \<Rightarrow> val (SQInteger (NOT t)) | v \<Rightarrow> Some (Inl (ErrBwnot v), w))
         | OPC_CMP \<Rightarrow> map_option (cmp_result (i_arg3 x)) (cmp_val ops (ObjCmp (vo_heap ops w) mm A2 A1) w)
         | _ \<Rightarrow> None)"

lemma target_val_arg0 [simp]: "target_val ops lits (x\<lparr>i_arg0 := t\<rparr>) R w = target_val ops lits x R w"
  by (simp add: target_val_def Let_def reg1_def load_int_def cong: sq_opcode.case_cong)

lemma deliver_cmp_result:
  "deliver (cmp_result p r) k = deliver r (\<lambda>n w. case cmp_obj p n of Some v \<Rightarrow> k v w | None \<Rightarrow> Stop (Raised (ErrMsg []) w))"
  by (simp add: cmp_result_def deliver_def split: prod.split sum.split option.split)

lemma target_step:
  assumes "moved_op (i_op x)"
  shows "vm_step ops lits x d pc R w =
    (case target_val ops lits x R w of None \<Rightarrow> Unmodelled | Some r \<Rightarrow> deliver r (\<lambda>v w. Goto (pc + 1) (R(reg (i_arg0 x) := v)) w))"
proof -
  have "i_op x \<in> {OPC_ADD, OPC_SUB, OPC_MUL, OPC_DIV, OPC_MOD, OPC_BITW, OPC_LOADINT, OPC_LOADFLOAT,
     OPC_LOADBOOL, OPC_LOAD, OPC_NEG, OPC_NOT, OPC_BWNOT, OPC_ADDI, OPC_CMP}"
    using assms by (auto simp: moved_op_def retargetable_def)
  then show ?thesis
    by (elim insertE; simp add: vm_step_def exec_defs target_val_def Let_def finish_deliver finish_cmp_deliver deliver_cmp_result
        split: sq_obj.split option.split)
qed

subsection \<open>The rules\<close>

lemma same_but_deliver:
  assumes "\<And>v w. same_but T (f v w) (g v w)"
  shows "same_but T (case deliver r (\<lambda>v w. Goto 1 (F v) w) of Goto p R w \<Rightarrow> f R w | Stop x \<Rightarrow> Ends x | Unmodelled \<Rightarrow> Unknown)
    (case deliver r (\<lambda>v w. Goto 1 (F v) w) of Goto p R w \<Rightarrow> g R w | Stop x \<Rightarrow> Ends x | Unmodelled \<Rightarrow> Unknown)"
  using assms by (cases r) (auto simp: deliver_def split: sum.split)

lemma small_word: "0 \<le> n \<Longrightarrow> n < 256 \<Longrightarrow> unat (word_of_int n :: u32) = nat n \<and> unat (word_of_int n :: u8) = nat n"
  by (simp add: unsigned_of_int take_bit_int_eq_self)

lemma sint_of_int: "- (2 ^ 31) \<le> n \<Longrightarrow> n < 2 ^ 31 \<Longrightarrow> sint (word_of_int n :: u32) = n"
  by (simp add: sint_sbintrunc' signed_take_bit_int_eq_self)

lemma word_of_sint: "uint (a :: u8) = sint (b :: u32) \<Longrightarrow> unat b = unat a"
proof -
  assume e: "uint a = sint b"
  have "0 \<le> uint a" "uint a < 256" using uint_range_size [of a] by (simp_all add: word_size)
  from small_word [OF this] have "unat (word_of_int (sint b) :: u32) = unat (word_of_int (uint a) :: u8)" using e by simp
  then show ?thesis by simp
qed

lemma fills_reg: "fills fs pi i \<Longrightarrow> reg1 i = reg (i_arg0 pi) \<and> \<not> IsLocal fs (reg (i_arg0 pi))"
  unfolding fills_def reg1_def reg_def sarg1_def using word_of_sint by blast

lemma small_reg: "0 \<le> sarg1 i \<Longrightarrow> sarg1 i < 256 \<Longrightarrow> reg (ucast (i_arg1 i)) = reg1 i"
proof -
  assume a: "0 \<le> sarg1 i" "sarg1 i < 256"
  define n where "n = sarg1 i"
  have "i_arg1 i = word_of_int n" by (simp add: n_def sarg1_def)
  moreover have "unat (word_of_int n :: u32) = nat n" "unat (ucast (word_of_int n :: u32) :: u8) = nat n"
    using a by (simp_all add: n_def unsigned_of_int unsigned_ucast_eq take_bit_int_eq_self)
  ultimately show ?thesis by (simp add: reg_def reg1_def)
qed

lemma move_rule:
  assumes "moved_op (i_op pi)" "i_op i = OPC_MOVE" "reg1 i = reg (i_arg0 pi)"
  shows "same_but (\<lambda>r. r = reg (i_arg0 pi) \<and> r \<noteq> reg (i_arg0 i)) (seq_run ops lits [pi, i] R w) (seq_run ops lits [pi\<lparr>i_arg0 := i_arg0 i\<rparr>] R w)"
proof -
  have y: "vm_step ops lits i d pc S v = Goto (pc + 1) (S(reg (i_arg0 i) := S (reg1 i))) v" for d pc S v
    using assms(2) by (simp add: vm_step_def exec_defs Let_def)
  have "moved_op (i_op (pi\<lparr>i_arg0 := i_arg0 i\<rparr>))" using assms(1) by simp
  note x = target_step [OF this, of ops lits "- 1" 0 R w] target_step [OF assms(1), of ops lits "- 1" 0 R w]
  show ?thesis
    using assms(3) by (cases "target_val ops lits pi R w") (auto simp: x y deliver_def split: sum.split)
qed

lemma dmove_rule:
  assumes "i_op pi = OPC_MOVE" "i_op i = OPC_MOVE" "0 \<le> sarg1 i" "sarg1 i < 256"
  shows "seq_run ops lits [pi\<lparr>i_arg2 := i_arg0 i, i_arg3 := ucast (i_arg1 i), i_op := OPC_DMOVE\<rparr>] R w = seq_run ops lits [pi, i] R w"
  using assms small_reg [of i] by (simp add: vm_step_def exec_defs Let_def reg1_def)

lemma dload_rule:
  assumes "i_op pi = OPC_LOAD" "i_op i = OPC_LOAD" "0 \<le> sarg1 i" "sarg1 i < 256"
  shows "seq_run ops lits [pi\<lparr>i_op := OPC_DLOAD, i_arg2 := i_arg0 i, i_arg3 := ucast (i_arg1 i)\<rparr>] R w = seq_run ops lits [pi, i] R w"
  using assms small_reg [of i] by (simp add: vm_step_def exec_defs Let_def reg1_def)

lemma loadnulls_step:
  "i_op x = OPC_LOADNULLS \<Longrightarrow>
   vm_step ops lits x d pc R w = Goto (pc + 1) (set_nulls (reg (i_arg0 x)) (max 1 (nat (sarg1 x))) R) w"
  by (simp add: vm_step_def exec_defs Let_def)

lemma loadnulls_rule:
  assumes "i_op pi = OPC_LOADNULLS" "i_op i = OPC_LOADNULLS" "i_arg1 i = 1" "1 \<le> sarg1 pi" "uint (i_arg0 pi) + sarg1 pi = uint (i_arg0 i)"
  shows "seq_run ops lits [pi\<lparr>i_arg1 := i_arg1 pi + 1\<rparr>] R w = seq_run ops lits [pi, i] R w"
proof -
  have b: "uint (i_arg0 i) < 256" "0 \<le> uint (i_arg0 pi)" using uint_range_size [of "i_arg0 i"] by (simp_all add: word_size)
  then have "sarg1 pi < 256" using assms(5) by linarith
  then have "sint (word_of_int (sarg1 pi + 1) :: u32) = sarg1 pi + 1" using assms(4) by (intro sint_of_int) simp_all
  then have n: "sint (i_arg1 pi + 1) = sarg1 pi + 1" by (simp add: sarg1_def)
  have "nat (uint (i_arg0 i)) = nat (uint (i_arg0 pi)) + nat (sarg1 pi)" using assms(4,5) b by linarith
  then have r: "reg (i_arg0 i) = reg (i_arg0 pi) + nat (sarg1 pi)" by (simp add: reg_def)
  have m: "max 1 (nat (sarg1 pi + 1)) = nat (sarg1 pi) + 1" "max 1 (nat (sarg1 pi)) = nat (sarg1 pi)" using assms(4) by auto
  have "set_nulls (reg (i_arg0 pi)) (nat (sarg1 pi) + 1) R = set_nulls (reg (i_arg0 i)) 1 (set_nulls (reg (i_arg0 pi)) (nat (sarg1 pi)) R)"
    unfolding r by (auto simp: set_nulls_def fun_eq_iff)
  then show ?thesis using assms(1-3) n m by (simp add: loadnulls_step sarg1_def)
qed

lemma eq_step:
  assumes "i_op x = OPC_EQ \<or> i_op x = OPC_NE"
  shows "vm_step ops lits x d pc R w =
    Goto (pc + 1) (R(reg (i_arg0 x) := SQBool (IsEqual (R (reg (i_arg2 x))) (cond_literal lits x R) = (i_op x = OPC_EQ)))) w"
  using assms by (elim disjE) (simp_all add: vm_step_def exec_load_def exec_move_def exec_operator_def Let_def)

lemma eq_rule:
  assumes "moved_op (i_op pi)" "i_op i = OPC_EQ \<or> i_op i = OPC_NE" "i_arg3 i = 0" "reg1 i = reg (i_arg0 pi)" "i_arg2 i \<noteq> i_arg0 pi"
    and v: "target_val ops lits pi R w = Some (Inr v, w)" and k: "lits ! unat k = v"
  shows "same_but (\<lambda>r. r = reg (i_arg0 pi) \<and> r \<noteq> reg (i_arg0 i)) (seq_run ops lits [pi, i] R w)
    (seq_run ops lits [pi\<lparr>i_arg1 := k, i_op := i_op i, i_arg0 := i_arg0 i, i_arg2 := i_arg2 i, i_arg3 := 1\<rparr>] R w)"
proof -
  have "reg (i_arg2 i) \<noteq> reg (i_arg0 pi)" using assms(5) by (simp add: reg_def flip: word_unat_eq_iff)
  then show ?thesis using assms
    by (simp add: target_step eq_step cond_literal_def reg1_def)
qed

lemma jz_step:
  "i_op x = OPC_JZ \<Longrightarrow> vm_step ops lits x d pc R w =
     Goto (if (if IsFalse (R (reg (i_arg0 x))) then 1 else 0) \<noteq> i_arg2 x then d else pc + 1) R w"
  by (simp add: vm_step_def exec_defs Let_def)

lemma jcmp_step':
  "i_op x = OPC_JCMP \<Longrightarrow> vm_step ops lits x d pc R w =
     (case cmp_val ops (ObjCmp (vo_heap ops w) (vo_meta ops w) (R (reg (i_arg2 x))) (R (reg (i_arg0 x)))) w of
        None \<Rightarrow> Unmodelled
      | Some y \<Rightarrow> deliver y (\<lambda>n w. case cmp_res (jcmp_op x) n of
           Some b \<Rightarrow> Goto (if jcmp_taken x b then d else pc + 1) R w | None \<Rightarrow> Stop (Raised (ErrMsg []) w)))"
  by (simp add: vm_step_def exec_defs Let_def finish_cmp_deliver if_distrib [of "\<lambda>p. Goto p _ _"] cong: option.case_cong)

definition jz_flag :: "sq_instr \<Rightarrow> u8" where "jz_flag i = (if i_arg2 i \<noteq> 0 then 1 else 0)"

lemma flag_bits:
  assumes "p < (8 :: u8)" "b = 0 \<or> b = 1"
  shows "(p OR push_bit 3 b) AND 7 = p" and "drop_bit 3 (p OR push_bit 3 b) = b"
proof -
  define n where "n = unat p"
  have p: "p = word_of_nat n" by (simp add: n_def)
  have "n < 8" using assms(1) by (simp add: word_less_nat_alt n_def)
  then have "n = 0 \<or> n = 1 \<or> n = 2 \<or> n = 3 \<or> n = 4 \<or> n = 5 \<or> n = 6 \<or> n = 7" by arith
  then show "(p OR push_bit 3 b) AND 7 = p" "drop_bit 3 (p OR push_bit 3 b) = b"
    using assms(2) unfolding p by (elim disjE; simp)+
qed

lemma jz_rule:
  assumes x: "i_op pi = OPC_CMP" "i_op i = OPC_JZ" "i_arg0 i = i_arg0 pi" "0 \<le> sarg1 pi" "sarg1 pi < 0xFF"
    and p: "i_arg3 pi < 8" "i_arg3 pi \<noteq> CMP_3W" and b: "i_arg2 i = 0 \<or> i_arg2 i = 1"
  shows "same_but (\<lambda>r. r = reg (i_arg0 pi)) (seq_run ops lits [pi, i] R w)
    (seq_run ops lits [pi\<lparr>i_op := OPC_JCMP, i_arg0 := ucast (i_arg1 pi), i_arg3 := i_arg3 pi OR push_bit 3 (jz_flag i), i_arg1 := i_arg1 i\<rparr>] R w)"
proof -
  let ?f = "pi\<lparr>i_op := OPC_JCMP, i_arg0 := ucast (i_arg1 pi), i_arg3 := i_arg3 pi OR push_bit 3 (jz_flag i), i_arg1 := i_arg1 i\<rparr>"
  have flag: "jz_flag i = 0 \<or> jz_flag i = 1" by (simp add: jz_flag_def)
  have r: "reg (ucast (i_arg1 pi)) = reg1 pi" using x(4,5) by (intro small_reg) simp_all
  have op: "jcmp_op ?f = i_arg3 pi" using flag_bits(1) [OF p(1) flag] by (simp add: jcmp_op_def)
  have tk: "jcmp_taken ?f n \<longleftrightarrow> (if n \<noteq> 0 then 1 else 0) = jz_flag i" for n
    using flag_bits(2) [OF p(1) flag] by (simp add: jcmp_taken_def)
  define y where "y = cmp_val ops (ObjCmp (vo_heap ops w) (vo_meta ops w) (R (reg (i_arg2 pi))) (R (reg1 pi))) w"
  have m: "moved_op (i_op pi)" using x(1) by (simp add: moved_op_def retargetable_def)
  have old: "vm_step ops lits pi d pc R w =
      (case y of None \<Rightarrow> Unmodelled
       | Some r \<Rightarrow> deliver r (\<lambda>n w. case cmp_obj (i_arg3 pi) n of
            Some v \<Rightarrow> Goto (pc + 1) (R(reg (i_arg0 pi) := v)) w | None \<Rightarrow> Stop (Raised (ErrMsg []) w)))" for d pc
    using target_step [OF m, of ops lits d pc R w] x(1)
    by (cases y) (simp_all add: target_val_def Let_def y_def [symmetric] deliver_cmp_result)
  have f: "i_op ?f = OPC_JCMP" "reg (i_arg0 ?f) = reg1 pi" "i_arg2 ?f = i_arg2 pi" using r by simp_all
  have new: "vm_step ops lits ?f d pc R w =
      (case y of None \<Rightarrow> Unmodelled
       | Some r \<Rightarrow> deliver r (\<lambda>n w. case cmp_res (i_arg3 pi) n of
            Some v \<Rightarrow> Goto (if (if v \<noteq> 0 then 1 else 0) = jz_flag i then d else pc + 1) R w | None \<Rightarrow> Stop (Raised (ErrMsg []) w)))" for d pc
    unfolding y_def jcmp_step' [OF f(1)] by (simp only: f op tk)
  have z: "vm_step ops lits i (- 1) 0 (R(reg (i_arg0 pi) := v)) u =
      Goto (if (if IsFalse v then 0 else 1) = jz_flag i then - 1 else 1) (R(reg (i_arg0 pi) := v)) u" for v u
    using b by (auto simp: jz_step [OF x(2)] x(3) jz_flag_def)
  show ?thesis
  proof (cases y)
    case None
    then show ?thesis by (simp add: old new)
  next
    case (Some q)
    show ?thesis
    proof (cases q)
      case (Pair e u)
      show ?thesis
      proof (cases e)
        case (Inl a)
        then show ?thesis by (simp add: old new Some Pair)
      next
        case (Inr n)
        show ?thesis using cmp_obj_res [OF p(2), of n] z
          by (cases "cmp_obj (i_arg3 pi) n") (auto simp: old new Some Pair Inr)
      qed
    qed
  qed
qed

subsection \<open>Adding an instruction\<close>

text \<open>
  What is assumed of the two instructions. A jump on zero behind a comparison must test the temporary the
  comparison fills, which the code generator does not guarantee (the last theorem of this theory),
  and the comparison must not be \<open><=>\<close>. The other conditions hold of what the code generator emits:
  registers and literal indices are not negative, \<open>LOADNULLS\<close> is added for one register at a
  time, and an equality test whose right operand is a temporary just loaded compares another
  register with it.
\<close>

definition operands_ok :: "func_state \<Rightarrow> sq_instr \<Rightarrow> sq_instr \<Rightarrow> bool" where
  "operands_ok fs pi i \<longleftrightarrow>
     (i_op pi = OPC_CMP \<and> i_op i = OPC_JZ \<longrightarrow>
        i_arg0 i = i_arg0 pi \<and> \<not> IsLocal fs (reg (i_arg0 pi)) \<and> 0 \<le> sarg1 pi \<and> i_arg3 pi < 8 \<and> i_arg3 pi \<noteq> CMP_3W \<and>
        (i_arg2 i = 0 \<or> i_arg2 i = 1)) \<and>
     (i_op i = OPC_MOVE \<or> i_op i = OPC_LOAD \<longrightarrow> 0 \<le> sarg1 i) \<and>
     (i_op i = OPC_LOADNULLS \<longrightarrow> i_arg1 i = 1) \<and> (i_op pi = OPC_LOADNULLS \<longrightarrow> 1 \<le> sarg1 pi) \<and>
     ((i_op i = OPC_EQ \<or> i_op i = OPC_NE) \<and> fills fs pi i \<longrightarrow> i_arg3 i = 0 \<and> i_arg2 i \<noteq> i_arg0 pi)"

text \<open>
  The temporary that is not filled any more: the operand of the added instruction, unless it is the
  target too.
\<close>

definition skipped :: "func_state \<Rightarrow> sq_instr \<Rightarrow> sq_instr \<Rightarrow> nat \<Rightarrow> bool" where
  "skipped fs pi i r \<longleftrightarrow>
     r = reg (i_arg0 pi) \<and> \<not> IsLocal fs r \<and>
     (if i_op i = OPC_JZ then r = reg (i_arg0 i) else i_op i \<in> {OPC_MOVE, OPC_EQ, OPC_NE} \<and> r = reg1 i \<and> r \<noteq> reg (i_arg0 i))"

definition stepwise :: "'w vm_ops \<Rightarrow> sq_obj list \<Rightarrow> func_state \<Rightarrow> sq_instr \<Rightarrow> sq_instr \<Rightarrow> sq_instr list \<Rightarrow> regs \<Rightarrow> 'w \<Rightarrow> bool" where
  "stepwise ops lits fs pi i xs R w \<longleftrightarrow>
     same_but (skipped fs pi i) (seq_run ops lits [pi, i] R w) (seq_run ops lits xs R w)"

lemma same_but_mono: "same_but T a b \<Longrightarrow> (\<And>r. T r \<Longrightarrow> T' r) \<Longrightarrow> same_but T' a b"
  by (cases a; cases b) auto

lemma stepwise_refl [simp]: "stepwise ops lits fs pi i [pi, i] R w"
  by (simp add: stepwise_def)

lemma GetLiteral_lit: "GetLiteral c fs = (k, fs') \<Longrightarrow> k < length (fs_literals fs') \<and> fs_literals fs' ! k = c \<and> fs_code fs' = fs_code fs"
proof (cases "lit_index c (fs_literals fs)")
  case (Some m)
  have "lit_index c vs = Some m \<Longrightarrow> m < length vs \<and> vs ! m = c" for m vs
    by (induction vs arbitrary: m) (auto split: if_splits)
  then show "GetLiteral c fs = (k, fs') \<Longrightarrow> ?thesis" using Some by (simp add: GetLiteral_def)
qed (auto simp: GetLiteral_def)

lemma eq_fused:
  assumes p: "peep_eq fs pi i = (fs', pi', rest)" and i: "i_op i = OPC_EQ \<or> i_op i = OPC_NE" and ok: "operands_ok fs pi i"
    and lits: "lits = fs_literals fs' @ extra" "length lits < 2 ^ 32"
  shows "fs_code fs' = fs_code fs \<and> stepwise ops lits fs pi i (pi' # (case rest of None \<Rightarrow> [] | Some x \<Rightarrow> [x])) R w"
proof (cases "(i_op pi = OPC_LOAD \<or> i_op pi = OPC_LOADINT \<or> i_op pi = OPC_LOADFLOAT \<or> i_op pi = OPC_LOADBOOL) \<and> fills fs pi i")
  case False
  then have "peep_eq fs pi i = (fs, pi, Some i)" unfolding peep_eq_def by (rule if_not_P)
  then show ?thesis using p by simp
next
  case True
  note f = fills_reg [of fs pi i]
  have ops: "i_op i \<noteq> OPC_JZ" "i_op i \<in> {OPC_MOVE, OPC_EQ, OPC_NE}" using i by auto
  have o: "i_arg3 i = 0" "i_arg2 i \<noteq> i_arg0 pi" using ok True i by (auto simp: operands_ok_def)
  have m: "moved_op (i_op pi)" using True by (auto simp: moved_op_def retargetable_def)
  have fuse: ?thesis
    if c: "fs_code fs' = fs_code fs" "lits ! unat k = v" "target_val ops lits pi R w = Some (Inr v, w)"
      "pi' = pi\<lparr>i_arg1 := k, i_op := i_op i, i_arg0 := i_arg0 i, i_arg2 := i_arg2 i, i_arg3 := 1\<rparr>" "rest = None" for k v
  proof -
    have r: "reg1 i = reg (i_arg0 pi)" "\<not> IsLocal fs (reg (i_arg0 pi))" using f True by auto
    have "stepwise ops lits fs pi i [pi'] R w"
      unfolding stepwise_def c(4)
    proof (rule same_but_mono [OF eq_rule [OF m i o(1) r(1) o(2) c(3,2)]])
      show "skipped fs pi i x" if "x = reg (i_arg0 pi) \<and> x \<noteq> reg (i_arg0 i)" for x using that r i by (auto simp: skipped_def)
    qed
    then show ?thesis using c(1,5) by simp
  qed
  have lit: ?thesis if g: "GetLiteral v fs = (k, fs')" "target_val ops lits pi R w = Some (Inr v, w)" "rest = None"
      "pi' = pi\<lparr>i_arg1 := word_of_nat k, i_op := i_op i, i_arg0 := i_arg0 i, i_arg2 := i_arg2 i, i_arg3 := 1\<rparr>" for k v
  proof (rule fuse [OF _ _ g(2,4,3)])
    have k: "k < length (fs_literals fs')" "fs_literals fs' ! k = v" "fs_code fs' = fs_code fs" using GetLiteral_lit [OF g(1)] by auto
    show "fs_code fs' = fs_code fs" by (rule k(3))
    have "k < 2 ^ 32" using k(1) lits by simp
    then show "lits ! unat (word_of_nat k :: u32) = v" using k lits(1) by (simp add: unsigned_of_nat take_bit_nat_eq_self nth_append)
  qed
  note t = target_val_def [of ops lits pi R w, unfolded Let_def]
  consider "i_op pi = OPC_LOAD" | "i_op pi = OPC_LOADINT" | "i_op pi = OPC_LOADFLOAT" | "i_op pi = OPC_LOADBOOL" using True by blast
  then show ?thesis
  proof cases
    case 1
    then show ?thesis using p True by (intro fuse [of "i_arg1 pi" "lits ! reg1 pi"]) (auto simp: peep_eq_def t reg1_def)
  next
    case 2
    obtain k z where g: "GetLiteral (load_int pi) fs = (k, z)" by fastforce
    then show ?thesis using p True 2 by (intro lit [of "load_int pi" k]) (auto simp: peep_eq_def t with_literal_def)
  next
    case 3
    obtain k z where g: "GetLiteral (SQFloat (i_arg1 pi)) fs = (k, z)" by fastforce
    then show ?thesis using p True 3 by (intro lit [of "SQFloat (i_arg1 pi)" k]) (auto simp: peep_eq_def t with_literal_def)
  next
    case 4
    obtain k z where g: "GetLiteral (SQBool (i_arg1 pi \<noteq> 0)) fs = (k, z)" by fastforce
    then show ?thesis using p True 4 by (intro lit [of "SQBool (i_arg1 pi \<noteq> 0)" k]) (auto simp: peep_eq_def t with_literal_def)
  qed
qed

abbreviation rest_code :: "sq_instr option \<Rightarrow> sq_instr list" where
  "rest_code r \<equiv> (case r of None \<Rightarrow> [] | Some x \<Rightarrow> [x])"

lemma jz_fused:
  assumes p: "peep_jz fs pi i = (fs', pi', rest)" and i: "i_op i = OPC_JZ" and ok: "operands_ok fs pi i"
  shows "fs_code fs' = fs_code fs \<and> stepwise ops lits fs pi i (pi' # rest_code rest) R w"
proof (cases "i_op pi = OPC_CMP \<and> sarg1 pi < 0xFF")
  case True
  have o: "i_arg0 i = i_arg0 pi" "\<not> IsLocal fs (reg (i_arg0 pi))" "0 \<le> sarg1 pi" "i_arg3 pi < 8" "i_arg3 pi \<noteq> CMP_3W"
    "i_arg2 i = 0 \<or> i_arg2 i = 1"
    using ok True i by (auto simp: operands_ok_def)
  let ?f = "pi\<lparr>i_op := OPC_JCMP, i_arg0 := ucast (i_arg1 pi), i_arg3 := i_arg3 pi OR push_bit 3 (jz_flag i), i_arg1 := i_arg1 i\<rparr>"
  have e: "fs' = fs" "pi' = ?f" "rest = None" using p True by (simp_all add: peep_jz_def jz_flag_def)
  have "stepwise ops lits fs pi i [?f] R w"
    unfolding stepwise_def
  proof (rule same_but_mono [OF jz_rule [OF _ i o(1,3) _ o(4-6)]])
    show "skipped fs pi i x" if "x = reg (i_arg0 pi)" for x using that o(1,2) i by (simp add: skipped_def)
  qed (use True in auto)
  then show ?thesis by (simp add: e)
qed (use p in \<open>auto simp: peep_jz_def\<close>)

lemma move_fused:
  assumes p: "peep_move fs pi i = (fs', pi', rest)" and i: "i_op i = OPC_MOVE" and ok: "operands_ok fs pi i"
    and pi: "i_op pi \<notin> {OPC_GET, OPC_GETK, OPC_TYPEOF, OPC_CLONE, OPC_GETOUTER, OPC_LOADCALLEE}"
  shows "fs_code fs' = fs_code fs \<and> stepwise ops lits fs pi i (pi' # rest_code rest) R w"
proof -
  have o: "0 \<le> sarg1 i" using ok i by (simp add: operands_ok_def)
  show ?thesis
  proof (cases "retargetable (i_op pi) \<and> fills fs pi i")
    case True
    then have "moved_op (i_op pi)" using pi by (simp add: moved_op_def)
    have r: "reg1 i = reg (i_arg0 pi)" "\<not> IsLocal fs (reg (i_arg0 pi))" using fills_reg [of fs pi i] True by auto
    have "stepwise ops lits fs pi i [pi\<lparr>i_arg0 := i_arg0 i\<rparr>] R w"
      unfolding stepwise_def
    proof (rule same_but_mono [OF move_rule [OF \<open>moved_op (i_op pi)\<close> i r(1)]])
      show "skipped fs pi i x" if "x = reg (i_arg0 pi) \<and> x \<noteq> reg (i_arg0 i)" for x using that r i by (simp add: skipped_def)
    qed
    then show ?thesis using True p by (auto simp: peep_move_def Let_def)
  next
    case False
    then show ?thesis using p pi dmove_rule [OF _ i o, of pi ops lits R w]
      by (auto simp: peep_move_def Let_def stepwise_def simp del: seq_run.simps split: if_splits)
  qed
qed

lemma load_fused:
  assumes p: "peep_load fs pi i = (fs', pi', rest)" and i: "i_op i = OPC_LOAD" and ok: "operands_ok fs pi i"
  shows "fs_code fs' = fs_code fs \<and> stepwise ops lits fs pi i (pi' # rest_code rest) R w"
proof -
  have o: "0 \<le> sarg1 i" using ok i by (simp add: operands_ok_def)
  show ?thesis using p dload_rule [OF _ i o, of pi ops lits R w]
    by (auto simp: peep_load_def stepwise_def simp del: seq_run.simps split: if_splits)
qed

lemma loadnulls_fused:
  assumes p: "peep_loadnulls fs pi i = (fs', pi', rest)" and i: "i_op i = OPC_LOADNULLS" and ok: "operands_ok fs pi i"
  shows "fs_code fs' = fs_code fs \<and> stepwise ops lits fs pi i (pi' # rest_code rest) R w"
proof -
  have o: "i_arg1 i = 1" "i_op pi = OPC_LOADNULLS \<longrightarrow> 1 \<le> sarg1 pi" using ok i by (auto simp: operands_ok_def)
  show ?thesis using p loadnulls_rule [OF _ i o(1), of pi ops lits R w] o(2)
    by (auto simp: peep_loadnulls_def stepwise_def simp del: seq_run.simps split: if_splits)
qed

lemma peep_keeps:
  assumes p: "peep fs pi i = (fs', pi', rest)" and ok: "operands_ok fs pi i"
    and i: "i_op i \<in> {OPC_JZ, OPC_MOVE, OPC_LOAD, OPC_LOADNULLS, OPC_EQ, OPC_NE}"
    and pi: "i_op pi \<notin> {OPC_GET, OPC_GETK, OPC_TYPEOF, OPC_CLONE, OPC_GETOUTER, OPC_LOADCALLEE}"
    and lits: "lits = fs_literals fs' @ extra" "length lits < 2 ^ 32"
  shows "fs_code fs' = fs_code fs \<and> stepwise ops lits fs pi i (pi' # rest_code rest) R w"
proof -
  consider "i_op i = OPC_JZ" | "i_op i = OPC_MOVE" | "i_op i = OPC_LOAD" | "i_op i = OPC_LOADNULLS" | "i_op i = OPC_EQ \<or> i_op i = OPC_NE"
    using i by auto
  then show ?thesis
  proof cases
    case 1
    then show ?thesis using p ok by (intro jz_fused) (simp_all add: peep_def)
  next
    case 2
    then show ?thesis using p ok pi by (intro move_fused) (simp_all add: peep_def)
  next
    case 3
    then show ?thesis using p ok by (intro load_fused) (simp_all add: peep_def)
  next
    case 4
    then show ?thesis using p ok by (intro loadnulls_fused) (simp_all add: peep_def)
  next
    case 5
    then show ?thesis using p ok by (intro eq_fused [OF _ _ _ lits]) (auto simp: peep_def)
  qed
qed

text \<open>
  C5: adding one of \<open>JZ\<close>, \<open>MOVE\<close>, \<open>LOAD\<close>, \<open>LOADNULLS\<close>, \<open>EQ\<close> and \<open>NE\<close> behind an instruction other than
  \<open>GET\<close>, \<open>GETK\<close>, \<open>TYPEOF\<close>, \<open>CLONE\<close>, \<open>GETOUTER\<close> and \<open>LOADCALLEE\<close> changes at most the last instruction, and the new
  tail does what the old last instruction and the added one do: it ends with the same error, jumps
  or falls through alike, and leaves the same registers but for a temporary that held the value in
  between. The operands satisfy \<open>operands_ok\<close>: a \<open>JZ\<close> behind a comparison tests the temporary the comparison fills,
  and the comparison is not \<open><=>\<close> (without the first condition the result is wrong: C11); registers
  and literal indices are not negative, and \<open>LOADNULLS\<close> is added for one register.
\<close>

theorem AddInstruction_keeps:
  assumes code: "fs_code fs = pre @ [pi]" and ok: "operands_ok fs pi i"
    and i: "i_op i \<in> {OPC_JZ, OPC_MOVE, OPC_LOAD, OPC_LOADNULLS, OPC_EQ, OPC_NE}"
    and pi: "i_op pi \<notin> {OPC_GET, OPC_GETK, OPC_TYPEOF, OPC_CLONE, OPC_GETOUTER, OPC_LOADCALLEE}"
    and lits: "lits = fs_literals (AddInstruction i fs) @ extra" "length lits < 2 ^ 32"
  shows "\<exists>xs. fs_code (AddInstruction i fs) = pre @ xs \<and>
    same_but (skipped fs pi i) (seq_run ops lits [pi, i] R w) (seq_run ops lits xs R w)"
proof (cases "fs_optimization fs \<and> \<not> fs_no_optimizer fs")
  case True
  obtain fs' pi' rest where p: "peep fs pi i = (fs', pi', rest)" by (cases "peep fs pi i")
  have a: "AddInstruction i fs =
      (let fs = fs'\<lparr>fs_code := butlast (fs_code fs') @ [pi']\<rparr> in case rest of None \<Rightarrow> fs | Some i \<Rightarrow> append_instr i fs)"
    using True code p by (simp add: AddInstruction_def)
  have "fs_literals (AddInstruction i fs) = fs_literals fs'" by (simp add: a append_instr_def Let_def split: option.split)
  then have l: "lits = fs_literals fs' @ extra" using lits(1) by simp
  have k: "fs_code fs' = fs_code fs \<and> stepwise ops lits fs pi i (pi' # rest_code rest) R w"
    by (rule peep_keeps [OF p ok i pi l lits(2)])
  then have "fs_code (AddInstruction i fs) = pre @ pi' # rest_code rest"
    by (simp add: a append_instr_def Let_def code split: option.split)
  then show ?thesis using k by (intro exI [of _ "pi' # rest_code rest"]) (simp only: stepwise_def)
next
  case False
  then have "fs_code (AddInstruction i fs) = pre @ [pi, i]" by (auto simp: AddInstruction_def append_instr_def code)
  then show ?thesis by (intro exI [of _ "[pi, i]"]) (simp only: same_but_refl)
qed

text \<open>A local is assigned a constant: the load fills the local at once.\<close>

definition assign_state :: func_state where
  "assign_state = (new_func_state False False)\<lparr>
     fs_vlocals := [temporary\<lparr>lv_name := Some ''this''\<rparr>, temporary\<lparr>lv_name := Some ''x''\<rparr>, temporary],
     fs_code := [new_instr OPC_LOADINT 2 7 0 0]\<rparr>"

definition no_world :: "nat vm_ops" where
  "no_world = \<lparr>vo_heap = (\<lambda>_. \<lparr>str_hash = id, str_val = (\<lambda>_. []), weak_obj = (\<lambda>_. SQNull)\<rparr>), vo_meta = (\<lambda>_ _ _. False),
     vo_call = (\<lambda>_ _ w. (Inr SQNull, w)), vo_cat = (\<lambda>_ _ w. (Inr SQNull, w)), vo_other = (\<lambda>_ R w. (Inr R, w))\<rparr>"

theorem AddInstruction_keeps_witness:
  "\<exists>xs. fs_code (AddInstruction (new_instr OPC_MOVE 1 2 0 0) assign_state) = [] @ xs \<and>
     same_but (skipped assign_state (new_instr OPC_LOADINT 2 7 0 0) (new_instr OPC_MOVE 1 2 0 0))
       (seq_run no_world [] [new_instr OPC_LOADINT 2 7 0 0, new_instr OPC_MOVE 1 2 0 0] (\<lambda>_. SQNull) 0) (seq_run no_world [] xs (\<lambda>_. SQNull) 0)"
proof (rule AddInstruction_keeps [where extra = "[]"])
  show "fs_code assign_state = [] @ [new_instr OPC_LOADINT 2 7 0 0]" by (simp add: assign_state_def)
  show "operands_ok assign_state (new_instr OPC_LOADINT 2 7 0 0) (new_instr OPC_MOVE 1 2 0 0)" by code_simp
  show "[] = fs_literals (AddInstruction (new_instr OPC_MOVE 1 2 0 0) assign_state) @ []" by code_simp
qed (simp_all add: new_instr_def)

text \<open>A comparison that answers, and the jump it is fused to.\<close>

lemma cmp_answers:
  assumes "i_op pi = OPC_CMP" "i_arg3 pi \<noteq> CMP_3W"
    and "cmp_val ops (ObjCmp (vo_heap ops w) (vo_meta ops w) (R (reg (i_arg2 pi))) (R (reg1 pi))) w = Some (Inr n, u)"
    and "cmp_res (i_arg3 pi) n = Some b"
  shows "vm_step ops lits pi d pc R w = Goto (pc + 1) (R(reg (i_arg0 pi) := SQBool (b \<noteq> 0))) u"
proof -
  have m: "moved_op (i_op pi)" using assms(1) by (simp add: moved_op_def retargetable_def)
  show ?thesis
    using target_step [OF m, of ops lits d pc R w] assms
    by (simp add: target_val_def Let_def deliver_cmp_result cmp_obj_def)
qed

lemma jcmp_answers:
  assumes "0 \<le> sarg1 pi" "sarg1 pi < 0xFF" "i_arg3 pi < 8"
    and "cmp_val ops (ObjCmp (vo_heap ops w) (vo_meta ops w) (R (reg (i_arg2 pi))) (R (reg1 pi))) w = Some (Inr n, u)"
    and "cmp_res (i_arg3 pi) n = Some b"
  shows "vm_step ops lits (pi\<lparr>i_op := OPC_JCMP, i_arg0 := ucast (i_arg1 pi), i_arg3 := i_arg3 pi OR push_bit 3 (jz_flag i), i_arg1 := i_arg1 i\<rparr>) d pc R w =
    Goto (if (b \<noteq> 0) = (i_arg2 i \<noteq> 0) then d else pc + 1) R u"
proof -
  let ?f = "pi\<lparr>i_op := OPC_JCMP, i_arg0 := ucast (i_arg1 pi), i_arg3 := i_arg3 pi OR push_bit 3 (jz_flag i), i_arg1 := i_arg1 i\<rparr>"
  have flag: "jz_flag i = 0 \<or> jz_flag i = 1" by (simp add: jz_flag_def)
  have r: "reg (ucast (i_arg1 pi)) = reg1 pi" using assms(1,2) by (intro small_reg) simp_all
  have op: "jcmp_op ?f = i_arg3 pi" using flag_bits(1) [OF assms(3) flag] by (simp add: jcmp_op_def)
  have tk: "jcmp_taken ?f k \<longleftrightarrow> (if k \<noteq> 0 then 1 else 0) = jz_flag i" for k
    using flag_bits(2) [OF assms(3) flag] by (simp add: jcmp_taken_def)
  have f: "i_op ?f = OPC_JCMP" "reg (i_arg0 ?f) = reg1 pi" "i_arg2 ?f = i_arg2 pi" using r by simp_all
  show ?thesis unfolding jcmp_step' [OF f(1)] by (simp only: f op tk) (simp add: assms(4,5) jz_flag_def)
qed

text \<open>
  C11: \<open>AddInstruction\<close> fuses a conditional jump with a comparison in front of it without a look at
  the register the jump tests. For every function state that optimizes, every comparison whose
  right operand is in a register below 255 and every jump on a register other than the one the comparison fills,
  the fused instruction jumps on the result of the comparison, which is stored nowhere, where the two
  instructions store it and jump on the register that is tested. (The code generator emits such
  pairs: the second argument of \<open>f(a < b, c ? 1 : 2)\<close> begins with the jump on \<open>c\<close>.)
\<close>

theorem fused_jump_wrong:
  assumes "fs_optimization fs" "\<not> fs_no_optimizer fs" "fs_code fs = pre @ [pi]"
    and "i_op pi = OPC_CMP" "0 \<le> sarg1 pi" "i_arg3 pi \<noteq> CMP_3W"
    and "i_op i = OPC_JZ" "i_arg2 i = 0 \<or> i_arg2 i = 1" "reg (i_arg0 i) \<noteq> reg (i_arg0 pi)"
    and "cmp_val ops (ObjCmp (vo_heap ops w) (vo_meta ops w) (R (reg (i_arg2 pi))) (R (reg1 pi))) w = Some (Inr n, u)"
    and "cmp_res (i_arg3 pi) n = Some b"
  shows "seq_run ops lits [pi, i] R w =
      (if IsFalse (R (reg (i_arg0 i))) = (i_arg2 i = 0) then Jumps (R(reg (i_arg0 pi) := SQBool (b \<noteq> 0))) u
       else Falls (R(reg (i_arg0 pi) := SQBool (b \<noteq> 0))) u) \<and>
    (\<exists>xs. fs_code (AddInstruction i fs) = pre @ xs \<and>
      (if sarg1 pi < 0xFF then seq_run ops lits xs R w = (if (b \<noteq> 0) = (i_arg2 i \<noteq> 0) then Jumps R u else Falls R u)
       else xs = [pi, i]))"
proof
  show "seq_run ops lits [pi, i] R w =
      (if IsFalse (R (reg (i_arg0 i))) = (i_arg2 i = 0) then Jumps (R(reg (i_arg0 pi) := SQBool (b \<noteq> 0))) u
       else Falls (R(reg (i_arg0 pi) := SQBool (b \<noteq> 0))) u)"
    using assms(8,9) by (auto simp: cmp_answers [OF assms(4,6,10,11)] jz_step [OF assms(7)])
  have p: "i_arg3 pi < 8" using assms(11) by (auto simp: cmp_res_def CMP_G_def CMP_GE_def CMP_L_def CMP_LE_def CMP_3W_def split: if_splits)
  show "\<exists>xs. fs_code (AddInstruction i fs) = pre @ xs \<and>
      (if sarg1 pi < 0xFF then seq_run ops lits xs R w = (if (b \<noteq> 0) = (i_arg2 i \<noteq> 0) then Jumps R u else Falls R u)
       else xs = [pi, i])"
  proof (cases "sarg1 pi < 0xFF")
    case True
    let ?f = "pi\<lparr>i_op := OPC_JCMP, i_arg0 := ucast (i_arg1 pi), i_arg3 := i_arg3 pi OR push_bit 3 (jz_flag i), i_arg1 := i_arg1 i\<rparr>"
    have "fs_code (AddInstruction i fs) = pre @ [?f]"
      using assms(1-4,7) True by (simp add: AddInstruction_def peep_def peep_jz_def jz_flag_def)
    then show ?thesis using True by (intro exI [of _ "[?f]"]) (simp add: jcmp_answers [OF assms(5) True p assms(10,11)])
  next
    case False
    then show ?thesis using assms(1-4,7) by (simp add: AddInstruction_def peep_def peep_jz_def append_instr_def)
  qed
qed

definition compare_ab :: sq_instr where "compare_ab = new_instr OPC_CMP 4 2 1 (uint CMP_L)"

definition jump_on_c :: sq_instr where "jump_on_c = new_instr OPC_JZ 3 0 0 0"

definition call_state :: func_state where
  "call_state = (new_func_state False False)\<lparr>
     fs_vlocals := map (\<lambda>n. temporary\<lparr>lv_name := n\<rparr>) [Some ''this'', Some ''a'', Some ''b'', Some ''c'', None],
     fs_code := [compare_ab]\<rparr>"

definition arguments :: regs where
  "arguments r = (if r = 3 then SQBool True else SQInteger 1)"

theorem fused_jump_wrong_witness:
  "seq_run no_world [] [compare_ab, jump_on_c] arguments 0 = Falls (arguments(4 := SQBool False)) 0 \<and>
   (\<exists>xs. fs_code (AddInstruction jump_on_c call_state) = xs \<and> seq_run no_world [] xs arguments 0 = Jumps arguments 0)"
proof -
  have a: "fs_optimization call_state" "\<not> fs_no_optimizer call_state" "fs_code call_state = [] @ [compare_ab]"
    "i_op compare_ab = OPC_CMP" "0 \<le> sarg1 compare_ab" "i_arg3 compare_ab \<noteq> CMP_3W"
    "i_op jump_on_c = OPC_JZ" "i_arg2 jump_on_c = 0 \<or> i_arg2 jump_on_c = 1" "reg (i_arg0 jump_on_c) \<noteq> reg (i_arg0 compare_ab)"
    by code_simp+
  have c: "cmp_val no_world (ObjCmp (vo_heap no_world 0) (vo_meta no_world 0) (arguments (reg (i_arg2 compare_ab))) (arguments (reg1 compare_ab))) 0 =
      Some (Inr 0, 0)" "cmp_res (i_arg3 compare_ab) 0 = Some 0"
    by (simp add: ObjCmp_def cmp_val_def compare_ab_def new_instr_def reg_def reg1_def arguments_def) code_simp
  have v: "arguments (reg (i_arg0 jump_on_c)) = SQBool True" "reg (i_arg0 compare_ab) = 4" "sarg1 compare_ab < 0xFF"
    "i_arg2 jump_on_c = 0" "\<not> IsFalse (SQBool True)" by code_simp+
  show ?thesis using fused_jump_wrong [OF a c, of "[]"] by (simp add: v)
qed

end
