(* ===== verification/FuncScope.thy ===== *)
theory FuncScope
  imports FuncState
begin

text \<open>
  A name of an enclosing function is resolved to the innermost variable of that name, through the
  outer values of all functions in between, and the variable is marked as captured. The registers
  of a function behave as a stack.
\<close>

subsection \<open>Where a name is declared\<close>

text \<open>A variable of the functions around: how many functions up, and its register there.\<close>

fun lexical :: "string \<Rightarrow> func_state list \<Rightarrow> (nat \<times> nat) option" where
  "lexical name [] = None"
| "lexical name (p # ps) =
     (case GetLocalVariable name p of
        Some pos \<Rightarrow> Some (0, pos)
      | None \<Rightarrow> map_option (\<lambda>(d, pos). (Suc d, pos)) (lexical name ps))"

text \<open>What an index into the outer values means at run time.\<close>

fun outer_location :: "func_state list \<Rightarrow> nat \<Rightarrow> (nat \<times> nat) option" where
  "outer_location [] i = None"
| "outer_location (fs # ps) i =
     (if i < length (fs_outervalues fs) then
        (let v = fs_outervalues fs ! i in
         case ov_type v of
           otLOCAL \<Rightarrow> (if ps = [] then None else Some (0, ov_src v))
         | otOUTER \<Rightarrow> map_option (\<lambda>(d, pos). (Suc d, pos)) (outer_location ps (ov_src v)))
      else None)"

text \<open>The variable is captured, and the flags are those of its declaration.\<close>

fun captured :: "func_state list \<Rightarrow> u8 \<times> u32 \<Rightarrow> nat \<times> nat \<Rightarrow> bool" where
  "captured ps info (d, pos) \<longleftrightarrow>
     d < length ps \<and> pos < length (fs_vlocals (ps ! d)) \<and>
     (let v = fs_vlocals (ps ! d) ! pos in lv_end_op v = OUTER_END \<and> info = (lv_flags v, lv_type_mask v))"

definition outer_ok :: "func_state list \<Rightarrow> func_state \<Rightarrow> nat \<Rightarrow> bool" where
  "outer_ok ps fs i \<longleftrightarrow>
     (let v = fs_outervalues fs ! i in
      \<exists>l. outer_location (fs # ps) i = Some l \<and> lexical (ov_name v) ps = Some l \<and> captured ps (ov_flags v, ov_type_mask v) l)"

fun outers_ok :: "func_state list \<Rightarrow> bool" where
  "outers_ok [] = True"
| "outers_ok (fs # ps) \<longleftrightarrow>
     distinct (map ov_name (fs_outervalues fs)) \<and> (\<forall>i < length (fs_outervalues fs). outer_ok ps fs i) \<and> outers_ok ps"

subsection \<open>What a lookup changes\<close>

definition same_var :: "local_var \<Rightarrow> local_var \<Rightarrow> bool" where
  "same_var v v' \<longleftrightarrow> lv_name v' = lv_name v \<and> lv_flags v' = lv_flags v \<and> lv_type_mask v' = lv_type_mask v \<and>
     (lv_end_op v = OUTER_END \<longrightarrow> lv_end_op v' = OUTER_END)"

definition grown :: "func_state \<Rightarrow> func_state \<Rightarrow> bool" where
  "grown fs fs' \<longleftrightarrow> list_all2 same_var (fs_vlocals fs) (fs_vlocals fs') \<and> (\<exists>xs. fs_outervalues fs' = fs_outervalues fs @ xs)"

lemma grown_refl [simp]: "grown fs fs"
  by (auto simp: grown_def same_var_def intro!: list_all2_refl)

lemma all_grown_refl [simp]: "list_all2 grown ps ps"
  by (auto intro!: list_all2_refl)

lemma local_from_cong: "list_all2 same_var vs vs' \<Longrightarrow> n \<le> length vs \<Longrightarrow> local_from name vs' n = local_from name vs n"
  by (induction n) (auto simp: list_all2_conv_all_nth same_var_def)

lemma GetLocalVariable_grown: "grown fs fs' \<Longrightarrow> GetLocalVariable name fs' = GetLocalVariable name fs"
  unfolding grown_def GetLocalVariable_def by (metis list_all2_lengthD local_from_cong order_refl)

lemma lexical_grown: "list_all2 grown ps ps' \<Longrightarrow> lexical name ps' = lexical name ps"
  by (induction rule: list_all2_induct) (auto simp: GetLocalVariable_grown split: option.split)

lemma outer_location_grown: "list_all2 grown ps ps' \<Longrightarrow> outer_location ps i = Some l \<Longrightarrow> outer_location ps' i = Some l"
proof (induction arbitrary: i l rule: list_all2_induct)
  case (Cons fs ps fs' ps')
  obtain xs where "fs_outervalues fs' = fs_outervalues fs @ xs" using Cons.hyps(1) by (auto simp: grown_def)
  then show ?case using Cons by (auto simp: nth_append Let_def split: if_splits outer_type.splits)
qed simp

lemma captured_grown: "list_all2 grown ps ps' \<Longrightarrow> captured ps info l \<Longrightarrow> captured ps' info l"
proof (cases l)
  case (Pair d pos)
  assume g: "list_all2 grown ps ps'" and c: "captured ps info l"
  then have d: "d < length ps" "grown (ps ! d) (ps' ! d)" "length ps' = length ps"
    by (auto simp: Pair list_all2_conv_all_nth)
  then have "list_all2 same_var (fs_vlocals (ps ! d)) (fs_vlocals (ps' ! d))" by (simp add: grown_def)
  then show ?thesis using c d by (auto simp: Pair list_all2_conv_all_nth Let_def same_var_def)
qed

lemma outers_ok_grown:
  assumes "outers_ok (fs # ps)" "list_all2 grown ps ps'" "outers_ok ps'"
  shows "outers_ok (fs # ps')"
proof -
  have "outer_ok ps' fs i" if i: "i < length (fs_outervalues fs)" for i
  proof -
    obtain l where l: "outer_location (fs # ps) i = Some l" "lexical (ov_name (fs_outervalues fs ! i)) ps = Some l"
      "captured ps (ov_flags (fs_outervalues fs ! i), ov_type_mask (fs_outervalues fs ! i)) l"
      using assms(1) i by (auto simp: outer_ok_def Let_def)
    have g: "list_all2 grown (fs # ps) (fs # ps')" using assms(2) by simp
    show ?thesis unfolding outer_ok_def Let_def
      using outer_location_grown [OF g l(1)] lexical_grown [OF assms(2)] l(2) captured_grown [OF assms(2) l(3)] by auto
  qed
  then show ?thesis using assms by simp
qed

text \<open>A new outer value joins the others.\<close>

lemma push_outer_ok:
  assumes ok: "outers_ok (fs # ps)" and new: "outer_index name (fs_outervalues fs) = None"
    and p: "push_outer name src t info fs = (i, fs')"
    and l: "outer_location (fs' # ps) i = Some l" "lexical name ps = Some l" "captured ps info l"
  shows "outers_ok (fs' # ps) \<and> grown fs fs' \<and> i < length (fs_outervalues fs')"
proof -
  let ?v = "\<lparr>ov_name = name, ov_src = src, ov_type = t, ov_flags = fst info, ov_type_mask = snd info\<rparr>"
  have fs': "i = length (fs_outervalues fs)" "fs_outervalues fs' = fs_outervalues fs @ [?v]" "fs_vlocals fs' = fs_vlocals fs"
    using p by (auto simp: push_outer_def)
  have "outer_index name vs = None \<Longrightarrow> name \<notin> ov_name ` set vs" for vs
    by (induction vs) (auto split: if_splits)
  then have "distinct (map ov_name (fs_outervalues fs'))" using ok new by (auto simp: fs'(2))
  moreover have "outer_ok ps fs' k" if k: "k < length (fs_outervalues fs')" for k
  proof (cases "k = i")
    case True
    then show ?thesis using l by (auto simp: outer_ok_def fs'(1,2) Let_def)
  next
    case False
    then have "k < length (fs_outervalues fs)" using k by (simp add: fs'(1,2))
    then have "outer_ok ps fs k" "fs_outervalues fs' ! k = fs_outervalues fs ! k"
      "outer_location (fs' # ps) k = outer_location (fs # ps) k"
      using ok by (auto simp: fs'(2) nth_append)
    then show ?thesis by (simp add: outer_ok_def)
  qed
  moreover have "grown fs fs'" using fs' by (auto simp: grown_def same_var_def intro!: list_all2_refl)
  ultimately show ?thesis using ok fs' by auto
qed

subsection \<open>Resolving a name\<close>

definition resolved :: "string \<Rightarrow> func_state list \<Rightarrow> (nat \<times> u8 \<times> u32) option \<Rightarrow> func_state list \<Rightarrow> bool" where
  "resolved name fss r fss' \<longleftrightarrow>
     list_all2 grown fss fss' \<and> outers_ok fss' \<and>
     (case r of
        None \<Rightarrow> lexical name (tl fss) = None
      | Some (i, info) \<Rightarrow> \<exists>l. outer_location fss' i = Some l \<and> lexical name (tl fss) = Some l \<and> captured (tl fss') info l)"

lemma outer_index_Some: "outer_index name vs = Some i \<Longrightarrow> i < length vs \<and> ov_name (vs ! i) = name"
  by (induction vs arbitrary: i) (auto split: if_splits)

lemma local_from_Some: "local_from name vs n = Some i \<Longrightarrow> i < n \<and> lv_name (vs ! i) = Some name"
  by (induction n) (auto split: if_splits)

lemma mark_grown:
  assumes "pos < length (fs_vlocals p)"
  shows "grown p (MarkLocalAsOuter pos p)"
  using assms by (auto simp: grown_def MarkLocalAsOuter_def list_all2_conv_all_nth same_var_def nth_list_update)

lemma outers_ok_mark:
  assumes "outers_ok (p # pp)"
  shows "outers_ok (MarkLocalAsOuter pos p # pp)"
proof -
  have "outer_location (MarkLocalAsOuter pos p # pp) i = outer_location (p # pp) i" for i
    by (simp add: MarkLocalAsOuter_def Let_def split: outer_type.split)
  moreover have "fs_outervalues (MarkLocalAsOuter pos p) = fs_outervalues p" by (simp add: MarkLocalAsOuter_def)
  ultimately show ?thesis using assms by (simp add: outer_ok_def)
qed

lemma GetOuterVariable_resolves:
  "GetOuterVariable name fss = (r, fss') \<Longrightarrow> outers_ok fss \<Longrightarrow> fss \<noteq> [] \<Longrightarrow> resolved name fss r fss'"
proof (induction name fss arbitrary: r fss' rule: GetOuterVariable.induct)
  case (2 name fs ps)
  show ?case
  proof (cases "outer_index name (fs_outervalues fs)")
    case (Some i)
    then have "i < length (fs_outervalues fs)" "ov_name (fs_outervalues fs ! i) = name" using outer_index_Some by auto
    then show ?thesis using 2(2,3) Some by (fastforce simp: resolved_def outer_ok_def Let_def)
  next
    case none: None
    show ?thesis
    proof (cases ps)
      case Nil
      then show ?thesis using 2(2,3) none by (auto simp: resolved_def)
    next
      case (Cons p pp)
      show ?thesis
      proof (cases "GetLocalVariable name p")
        case (Some pos)
        define info where "info = (lv_flags (fs_vlocals p ! pos), lv_type_mask (fs_vlocals p ! pos))"
        obtain i fs' where po: "push_outer name pos otLOCAL info fs = (i, fs')" by fastforce
        have res: "r = Some (i, info)" "fss' = fs' # MarkLocalAsOuter pos p # pp"
          using 2(2) none Cons Some po by (auto simp: info_def)
        have pos: "pos < length (fs_vlocals p)" using Some local_from_Some by (auto simp: GetLocalVariable_def)
        have g: "list_all2 grown ps (MarkLocalAsOuter pos p # pp)" using mark_grown [OF pos] by (simp add: Cons)
        have "outers_ok (p # pp)" using 2(3) by (simp add: Cons)
        then have okp: "outers_ok (MarkLocalAsOuter pos p # pp)" by (rule outers_ok_mark)
        have ok1: "outers_ok (fs # MarkLocalAsOuter pos p # pp)" by (rule outers_ok_grown [OF 2(3) g okp])
        have lex: "lexical name (MarkLocalAsOuter pos p # pp) = Some (0, pos)"
          using lexical_grown [OF g] Some by (simp add: Cons)
        have loc: "outer_location (fs' # MarkLocalAsOuter pos p # pp) i = Some (0, pos)"
          using po by (auto simp: push_outer_def Let_def)
        have cap: "captured (MarkLocalAsOuter pos p # pp) info (0, pos)"
          using pos by (simp add: info_def MarkLocalAsOuter_def Let_def)
        have "outers_ok (fs' # MarkLocalAsOuter pos p # pp) \<and> grown fs fs' \<and> i < length (fs_outervalues fs')"
          by (rule push_outer_ok [OF ok1 none po loc lex cap])
        then show ?thesis using g loc cap lexical_grown [OF g] lex by (auto simp: resolved_def res)
      next
        case nl: None
        obtain r1 ps' where rec: "GetOuterVariable name ps = (r1, ps')" by fastforce
        have ih: "resolved name ps r1 ps'"
          using 2(1) [OF none Cons nl rec] 2(3) by (simp add: Cons)
        then have g: "list_all2 grown ps ps'" and okp: "outers_ok ps'" by (auto simp: resolved_def)
        have ok1: "outers_ok (fs # ps')" by (rule outers_ok_grown [OF 2(3) g okp])
        obtain p' pp' where ps': "ps' = p' # pp'" using g by (cases ps') (auto simp: Cons)
        have lexp: "lexical name ps = map_option (\<lambda>(d, pos). (Suc d, pos)) (lexical name pp)" by (simp add: Cons nl)
        show ?thesis
        proof (cases r1)
          case None
          then have "r = None" "fss' = fs # ps'" using 2(2) none Cons nl rec by auto
          then show ?thesis using ih None g ok1 lexp by (auto simp: resolved_def Cons)
        next
          case (Some x)
          obtain pos info where x: "x = (pos, info)" by (cases x)
          obtain l where l: "outer_location ps' pos = Some l" "lexical name pp = Some l" "captured pp' info l"
            using ih Some x by (auto simp: resolved_def Cons ps')
          obtain i fs' where po: "push_outer name pos otOUTER info fs = (i, fs')" by fastforce
          have res: "r = Some (i, info)" "fss' = fs' # ps'" using 2(2) none Cons nl rec Some x po by auto
          obtain d q where dq: "l = (d, q)" by (cases l)
          have lex: "lexical name ps' = Some (Suc d, q)" using lexical_grown [OF g] lexp l(2) dq by simp
          have loc: "outer_location (fs' # ps') i = Some (Suc d, q)" using po l(1) dq by (auto simp: push_outer_def Let_def)
          have cap: "captured ps' info (Suc d, q)" using l(3) by (simp add: ps' dq)
          have "outers_ok (fs' # ps') \<and> grown fs fs' \<and> i < length (fs_outervalues fs')"
            by (rule push_outer_ok [OF ok1 none po loc lex cap])
          then show ?thesis using g loc cap lexical_grown [OF g] lex by (auto simp: resolved_def res)
        qed
      qed
    qed
  qed
qed simp

text \<open>
  C6: a name that is not local resolves to the innermost variable of that name in the functions
  around, or to none exactly when there is none: the answered index leads there through the outer
  values of the functions in between, the variable is marked as captured, the answered flags are
  those of its declaration, each function lists a name at most once, and every index handed out
  before keeps its meaning.
\<close>

theorem outer_variable_resolution:
  assumes "GetOuterVariable name (fs # ps) = (r, fss')" "outers_ok (fs # ps)"
  shows "outers_ok fss' \<and>
    (\<forall>i l. outer_location (fs # ps) i = Some l \<longrightarrow> outer_location fss' i = Some l) \<and>
    (case r of
       None \<Rightarrow> lexical name ps = None
     | Some (i, info) \<Rightarrow> \<exists>l. outer_location fss' i = Some l \<and> lexical name ps = Some l \<and> captured (tl fss') info l)"
proof -
  have "resolved name (fs # ps) r fss'" by (rule GetOuterVariable_resolves [OF assms]) simp
  then have g: "list_all2 grown (fs # ps) fss'" and o: "outers_ok fss'"
    and c: "case r of None \<Rightarrow> lexical name ps = None
     | Some (i, info) \<Rightarrow> \<exists>l. outer_location fss' i = Some l \<and> lexical name ps = Some l \<and> captured (tl fss') info l"
    by (auto simp: resolved_def split: option.splits)
  show ?thesis using outer_location_grown [OF g] o c by blast
qed

definition inner_of :: "func_state list" where
  "inner_of = [new_func_state True False, new_func_state True False,
     snd (PushLocalVariable ''y'' VF_ASSIGNABLE 0xFFFFFFFF (snd (PushLocalVariable ''x'' VF_ASSIGNABLE 0xFFFFFFFF (new_func_state False False))))]"

theorem outer_variable_resolution_witness:
  "\<exists>r fss'. GetOuterVariable ''y'' inner_of = (r, fss') \<and> r = Some (0, VF_ASSIGNABLE, 0xFFFFFFFF) \<and> outers_ok fss' \<and>
     outer_location fss' 0 = Some (1, 1)"
proof -
  have ok: "outers_ok inner_of" by (simp add: inner_of_def new_func_state_def PushLocalVariable_def Let_def)
  obtain r fss' where g: "GetOuterVariable ''y'' inner_of = (r, fss')" by fastforce
  have "fst (GetOuterVariable ''y'' inner_of) = Some (0, VF_ASSIGNABLE, 0xFFFFFFFF)" by code_simp
  then have r: "r = Some (0, VF_ASSIGNABLE, 0xFFFFFFFF)" using g by simp
  obtain fs ps where i: "inner_of = fs # ps" "ps = tl inner_of" by (cases inner_of) (simp_all add: inner_of_def)
  have "lexical ''y'' (tl inner_of) = Some (1, 1)" by code_simp
  then show ?thesis using outer_variable_resolution [OF g [unfolded i(1)] ok [unfolded i(1)]] g r i by auto
qed

end
