(* ===== verification/LineInfo.thy ===== *)
theory LineInfo
  imports Peephole
begin

text \<open>
  The line table of a function: \<open>BuildProto\<close> (\<^verbatim>\<open>squirrel/compiler/sqfuncstate.cpp\<close>) packs the lines
  into two bytes each where they fit, and \<open>GetLine\<close> (\<^verbatim>\<open>squirrel/sqobject.cpp\<close>) searches the line
  of an instruction.
\<close>

subsection \<open>Packing\<close>

text \<open>
  A packed line has 8 bits for \<open>_op\<close> and 7 for the offset; a full one has 32 and 31.
  \<open>firstLine\<close> starts at \<open>INT_MAX\<close>, \<open>lastLine\<close> at 0.
\<close>

record line_table =
  lt_compressed :: bool
  lt_first_line :: int
  lt_infos :: "line_info list"

definition INT_MAX :: int where "INT_MAX = 2 ^ 31 - 1"

fun line_bounds :: "line_info list \<Rightarrow> bool \<times> int \<times> int \<Rightarrow> bool \<times> int \<times> int" where
  "line_bounds [] b = b"
| "line_bounds (l # ls) (fits, lo, hi) =
     line_bounds ls (fits \<and> \<not> li_op l > 255, if li_line l < lo then li_line l else lo, if li_line l > hi then li_line l else hi)"

definition pack_line :: "int \<Rightarrow> line_info \<Rightarrow> line_info" where
  "pack_line lo l = l\<lparr>li_op := li_op l AND 0xFF, li_line := (li_line l - lo) mod 2 ^ 7\<rparr>"

definition full_line :: "int \<Rightarrow> line_info \<Rightarrow> line_info" where
  "full_line lo l = l\<lparr>li_line := (li_line l - lo) mod 2 ^ 31\<rparr>"

definition build_lines :: "line_info list \<Rightarrow> line_table" where
  "build_lines ls =
     (let (fits, lo, hi) = line_bounds ls (True, INT_MAX, 0);
          packed = (fits \<and> \<not> hi - lo > 127)
      in \<lparr>lt_compressed = packed, lt_first_line = lo mod 2 ^ 31, lt_infos = map (if packed then pack_line lo else full_line lo) ls\<rparr>)"

subsection \<open>Searching\<close>

text \<open>
  The record behind the table, which the search reads too, is the argument \<open>g\<close>; \<open>_op\<close> is read as
  a signed \<open>int\<close>.
\<close>

definition op_at :: "line_info list \<Rightarrow> u32 \<Rightarrow> nat \<Rightarrow> int" where
  "op_at ls g i = sint (if i < length ls then li_op (ls ! i) else g)"

definition covers :: "line_info list \<Rightarrow> u32 \<Rightarrow> int \<Rightarrow> nat \<Rightarrow> bool" where
  "covers ls g idx i \<longleftrightarrow> idx \<ge> op_at ls g i \<and> idx < op_at ls g (i + 1)"

text \<open>The first index below \<open>n\<close> that covers the instruction, as the linear loops look for it.\<close>

fun linear_from :: "line_info list \<Rightarrow> u32 \<Rightarrow> int \<Rightarrow> nat \<Rightarrow> nat \<Rightarrow> nat option" where
  "linear_from ls g idx i 0 = None"
| "linear_from ls g idx i (Suc n) = (if covers ls g idx i then Some i else linear_from ls g idx (i + 1) n)"

text \<open>What the hint answers: the new hint, or nothing. \<open>hint\<close> is compared as unsigned.\<close>

definition hinted :: "line_info list \<Rightarrow> u32 \<Rightarrow> int \<Rightarrow> nat option \<Rightarrow> nat option" where
  "hinted ls g idx hint =
     (case hint of
        None \<Rightarrow> None
      | Some h \<Rightarrow>
          if h < length ls - 1 then
            (if covers ls g idx h then Some h
             else if covers ls g idx (h + 1) then Some (h + 1)
             else if idx = 0 then linear_from ls g idx 0 (length ls - 1)
             else None)
          else None)"

text \<open>
  The loop of the binary search with \<open>low\<close>, \<open>high\<close> and \<open>tryCount\<close>; it answers the position it
  found, if any, and the final \<open>tryCount\<close>.
\<close>

fun line_search :: "line_info list \<Rightarrow> u32 \<Rightarrow> int \<Rightarrow> int \<Rightarrow> int \<Rightarrow> nat \<Rightarrow> nat option \<times> nat" where
  "line_search ls g idx low high 0 = (None, 0)"
| "line_search ls g idx low high (Suc tries) =
     (if high \<ge> low \<and> tries \<noteq> 0 then
        (let mid = nat ((high + low) div 2) in
         if idx < op_at ls g mid then line_search ls g idx low (int mid - 1) tries
         else if idx \<ge> op_at ls g (mid + 1) then line_search ls g idx (int mid + 1) high tries
         else (Some mid, tries))
      else (None, if high \<ge> low then tries else Suc tries))"

definition get_line_offset :: "line_info list \<Rightarrow> u32 \<Rightarrow> int \<Rightarrow> nat option \<Rightarrow> nat" where
  "get_line_offset ls g idx hint =
     (case hinted ls g idx hint of
        Some h \<Rightarrow> h
      | None \<Rightarrow>
          (case line_search ls g idx 0 (int (length ls) - 1) 20 of
             (Some pos, tries) \<Rightarrow> pos
           | (None, tries) \<Rightarrow>
               if tries = 0 then (case linear_from ls g idx 0 (length ls - 1) of Some i \<Rightarrow> i | None \<Rightarrow> length ls - 1)
               else length ls - 1))"

text \<open>The line and whether the debugger stops at it; the table is not empty.\<close>

definition GetLine :: "line_table \<Rightarrow> u32 \<Rightarrow> int \<Rightarrow> nat option \<Rightarrow> int \<times> bool" where
  "GetLine t g idx hint =
     (let l = lt_infos t ! get_line_offset (lt_infos t) g idx hint in (li_line l + lt_first_line t, li_step l))"

subsection \<open>The search finds the last line that begins before the instruction\<close>

definition ops_sorted :: "line_info list \<Rightarrow> bool" where
  "ops_sorted ls \<longleftrightarrow> sorted (map (\<lambda>l. uint (li_op l)) ls) \<and> (\<forall>l \<in> set ls. uint (li_op l) < 2 ^ 31)"

definition line_at :: "line_info list \<Rightarrow> int \<Rightarrow> line_info" where
  "line_at ls idx = last (filter (\<lambda>l. uint (li_op l) \<le> idx) ls)"

definition is_line :: "line_info list \<Rightarrow> int \<Rightarrow> nat \<Rightarrow> bool" where
  "is_line ls idx m \<longleftrightarrow> m < length ls \<and> uint (li_op (ls ! m)) \<le> idx \<and> (\<forall>j. m < j \<and> j < length ls \<longrightarrow> idx < uint (li_op (ls ! j)))"

lemma sint_small: "uint (w :: u32) < 2 ^ 31 \<Longrightarrow> sint w = uint w"
  using signed_take_bit_int_eq_self [of 31 "uint w"] order_trans [OF _ uint_ge_0, of "- (2 ^ 31)" w] by (simp add: sint_uint)

lemma op_at_in: "ops_sorted ls \<Longrightarrow> i < length ls \<Longrightarrow> op_at ls g i = uint (li_op (ls ! i))"
  by (simp add: op_at_def ops_sorted_def sint_small)

lemma ops_mono: "ops_sorted ls \<Longrightarrow> i \<le> j \<Longrightarrow> j < length ls \<Longrightarrow> uint (li_op (ls ! i)) \<le> uint (li_op (ls ! j))"
  using sorted_nth_mono [of "map (\<lambda>l. uint (li_op l)) ls" i j] by (simp add: ops_sorted_def)

lemma filter_prefix:
  assumes "is_line ls idx m" "ops_sorted ls"
  shows "filter (\<lambda>l. uint (li_op l) \<le> idx) ls = take (Suc m) ls"
proof -
  have m: "m < length ls" using assms(1) by (simp add: is_line_def)
  have "uint (li_op (ls ! i)) \<le> idx" if "i \<le> m" for i
    using ops_mono [OF assms(2) that m] assms(1) by (simp add: is_line_def)
  then have "\<forall>l \<in> set (take (Suc m) ls). uint (li_op l) \<le> idx" by (auto simp: in_set_conv_nth)
  moreover have "\<not> uint (li_op (ls ! (Suc m + i))) \<le> idx" if "Suc m + i < length ls" for i
    using assms(1) that by (simp add: is_line_def not_le)
  then have "\<forall>l \<in> set (drop (Suc m) ls). \<not> uint (li_op l) \<le> idx" by (auto simp: in_set_conv_nth)
  ultimately have "filter (\<lambda>l. uint (li_op l) \<le> idx) (take (Suc m) ls @ drop (Suc m) ls) = take (Suc m) ls"
    by (simp only: filter_append) (simp add: filter_False)
  then show ?thesis by simp
qed

lemma line_at_nth: "is_line ls idx m \<Longrightarrow> ops_sorted ls \<Longrightarrow> line_at ls idx = ls ! m"
  by (simp add: line_at_def filter_prefix is_line_def take_Suc_conv_app_nth)

lemma is_line_ex:
  assumes "ls \<noteq> []" "uint (li_op (ls ! 0)) \<le> idx"
  obtains m where "is_line ls idx m"
proof -
  let ?P = "\<lambda>i. i < length ls \<and> uint (li_op (ls ! i)) \<le> idx"
  have "?P (GREATEST i. ?P i)" using assms by (intro GreatestI_nat [where P = ?P and k = 0 and b = "length ls"]) auto
  moreover have "i \<le> (GREATEST i. ?P i)" if "?P i" for i
    using that by (intro Greatest_le_nat [where P = ?P and b = "length ls"]) auto
  ultimately have "is_line ls idx (GREATEST i. ?P i)" unfolding is_line_def by (meson leD not_less)
  then show thesis by (rule that)
qed

lemma is_line_unique: "is_line ls idx m \<Longrightarrow> is_line ls idx k \<Longrightarrow> m = k"
  unfolding is_line_def by (meson leD linorder_neqE_nat)

lemma covers_line:
  assumes "ops_sorted ls" "i < length ls" "covers ls g idx i"
  shows "is_line ls idx i"
  unfolding is_line_def
proof (intro conjI allI impI)
  show "uint (li_op (ls ! i)) \<le> idx" using assms op_at_in by (simp add: covers_def)
  fix j assume j: "i < j \<and> j < length ls"
  then have "idx < uint (li_op (ls ! (i + 1)))" using assms op_at_in [of ls "i + 1" g] by (simp add: covers_def)
  also have "\<dots> \<le> uint (li_op (ls ! j))" using j ops_mono [OF assms(1), of "i + 1" j] by simp
  finally show "idx < uint (li_op (ls ! j))" .
qed (use assms in simp)

lemma line_covers: "ops_sorted ls \<Longrightarrow> is_line ls idx m \<Longrightarrow> m + 1 < length ls \<Longrightarrow> covers ls g idx m"
  by (simp add: covers_def op_at_in is_line_def)

lemma linear_from_line:
  assumes "ops_sorted ls" "is_line ls idx m"
  shows "i + n < length ls \<Longrightarrow> i \<le> m \<Longrightarrow> linear_from ls g idx i n = (if m < i + n then Some m else None)"
proof (induction n arbitrary: i)
  case (Suc n)
  show ?case
  proof (cases "covers ls g idx i")
    case True
    then have "i = m" using covers_line [OF assms(1) _ True] is_line_unique [OF assms(2)] Suc.prems(1) by simp
    then show ?thesis using True by simp
  next
    case False
    then have "i \<noteq> m" using line_covers [OF assms] Suc.prems(1) by auto
    then show ?thesis using False Suc by simp
  qed
qed simp

lemma line_search_line:
  assumes s: "ops_sorted ls" and m: "is_line ls idx m"
  shows "0 \<le> low \<Longrightarrow> high < int (length ls) \<Longrightarrow> low \<le> int m \<and> int m \<le> high \<or> m = length ls - 1 \<and> high < low \<Longrightarrow>
    (case line_search ls g idx low high tries of (Some p, t) \<Rightarrow> p = m | (None, t) \<Rightarrow> t = 0 \<or> m = length ls - 1)"
proof (induction tries arbitrary: low high)
  case (Suc tries)
  show ?case
  proof (cases "high \<ge> low \<and> tries \<noteq> 0")
    case False
    then show ?thesis using Suc.prems by auto
  next
    case True
    define mid where "mid = nat ((high + low) div 2)"
    have b: "low \<le> int mid" "int mid \<le> high" "mid < length ls" using True Suc.prems by (auto simp: mid_def)
    have mh: "low \<le> int m" "int m \<le> high" "m < length ls" using Suc.prems True m by (auto simp: is_line_def)
    have step: "line_search ls g idx low high (Suc tries) =
        (if idx < op_at ls g mid then line_search ls g idx low (int mid - 1) tries
         else if idx \<ge> op_at ls g (mid + 1) then line_search ls g idx (int mid + 1) high tries
         else (Some mid, tries))"
      using True by (simp add: mid_def Let_def)
    have at: "op_at ls g mid = uint (li_op (ls ! mid))" by (rule op_at_in [OF s b(3)])
    show ?thesis
    proof (cases "idx < op_at ls g mid")
      case less: True
      have "m < mid"
      proof (rule ccontr)
        assume "\<not> m < mid"
        then have "uint (li_op (ls ! mid)) \<le> uint (li_op (ls ! m))" using mh by (intro ops_mono [OF s]) auto
        then show False using less at m by (simp add: is_line_def)
      qed
      then have "low \<le> int m \<and> int m \<le> int mid - 1" "int mid - 1 < int (length ls)" using mh b by auto
      then show ?thesis using Suc.IH [of low "int mid - 1"] Suc.prems(1) less by (simp only: step) simp
    next
      case ge: False
      have "mid \<le> m"
      proof (rule ccontr)
        assume "\<not> mid \<le> m"
        then show False using m ge at b by (simp add: is_line_def)
      qed
      show ?thesis
      proof (cases "idx \<ge> op_at ls g (mid + 1)")
        case up: True
        have "low \<le> int m \<and> int (mid + 1) \<le> int m \<and> int m \<le> high \<or> m = length ls - 1 \<and> high < int mid + 1"
        proof (cases "mid + 1 < length ls")
          case True
          have "mid \<noteq> m" using m up op_at_in [OF s True, of g] True by (auto simp: is_line_def)
          then show ?thesis using \<open>mid \<le> m\<close> mh by simp
        next
          case False
          then show ?thesis using \<open>mid \<le> m\<close> mh b Suc.prems by auto
        qed
        then have "low \<le> int m \<Longrightarrow> int mid + 1 \<le> int m \<and> int m \<le> high \<or> m = length ls - 1 \<and> high < int mid + 1" by auto
        then show ?thesis unfolding step using ge up mh(1) by (simp only: if_False if_True) (intro Suc.IH, use Suc.prems b in auto)
      next
        case False
        then have "covers ls g idx mid" using ge by (simp add: covers_def)
        then show ?thesis using covers_line [OF s b(3)] is_line_unique [OF m] ge False by (simp only: step) auto
      qed
    qed
  qed
qed simp

lemma hinted_line:
  assumes "ops_sorted ls" "is_line ls idx m" "hinted ls g idx hint = Some h"
  shows "h = m"
proof -
  obtain k where k: "hint = Some k" "k < length ls - 1" using assms(3) by (simp add: hinted_def split: option.splits if_splits)
  have at: "i = m" if "covers ls g idx i" "i < length ls" for i
    using covers_line [OF assms(1) that(2,1)] is_line_unique [OF assms(2)] by simp
  have eq: "hinted ls g idx hint =
      (if covers ls g idx k then Some k else if covers ls g idx (k + 1) then Some (k + 1)
       else if idx = 0 then linear_from ls g idx 0 (length ls - 1) else None)"
    using k by (simp add: hinted_def)
  have lin: "linear_from ls g idx 0 (length ls - 1) = (if m < length ls - 1 then Some m else None)"
    using linear_from_line [OF assms(1,2), of 0 "length ls - 1"] k by simp
  show ?thesis
  proof (cases "covers ls g idx k")
    case True
    then show ?thesis using at [OF True] eq assms(3) k by simp
  next
    case c0: False
    show ?thesis
    proof (cases "covers ls g idx (k + 1)")
      case True
      then show ?thesis using at [OF True] eq assms(3) k c0 by simp
    next
      case False
      then show ?thesis using eq assms(3) c0 lin by (simp split: if_splits)
    qed
  qed
qed

lemma get_line_offset_line:
  assumes s: "ops_sorted ls" and m: "is_line ls idx m"
  shows "get_line_offset ls g idx hint = m"
proof (cases "hinted ls g idx hint")
  case (Some h)
  then show ?thesis using hinted_line [OF s m Some] by (simp add: get_line_offset_def)
next
  case None
  have ml: "m < length ls" using m by (simp add: is_line_def)
  obtain p t where r: "line_search ls g idx 0 (int (length ls) - 1) 20 = (p, t)" by (rule prod.exhaust)
  have c: "case (p, t) of (Some p, t) \<Rightarrow> p = m | (None, t) \<Rightarrow> t = 0 \<or> m = length ls - 1"
    unfolding r [symmetric] using ml by (intro line_search_line [OF s m]) auto
  show ?thesis
  proof (cases p)
    case (Some a)
    then show ?thesis using c r None by (simp add: get_line_offset_def)
  next
    case none: None
    have "linear_from ls g idx 0 (length ls - 1) = (if m < length ls - 1 then Some m else None)"
      using linear_from_line [OF s m, of 0 "length ls - 1"] ml by simp
    then show ?thesis using c r None none ml by (auto simp: get_line_offset_def)
  qed
qed

subsection \<open>The packed table keeps every line\<close>

definition lines_in_range :: "line_info list \<Rightarrow> bool" where
  "lines_in_range ls \<longleftrightarrow> (\<forall>l \<in> set ls. 0 \<le> li_line l \<and> li_line l < 2 ^ 31)"

lemma line_bounds_low: "line_bounds ls b = (fits', lo', hi') \<Longrightarrow> lo' \<le> fst (snd b) \<and> (\<forall>l \<in> set ls. lo' \<le> li_line l)"
proof (induction ls b rule: line_bounds.induct)
  case (2 l ls fits lo hi)
  then show ?case by (cases "li_line l < lo") force+
qed simp

lemma line_bounds_high: "line_bounds ls b = (fits', lo', hi') \<Longrightarrow> snd (snd b) \<le> hi' \<and> (\<forall>l \<in> set ls. li_line l \<le> hi')"
proof (induction ls b rule: line_bounds.induct)
  case (2 l ls fits lo hi)
  then show ?case by (cases "li_line l > hi") force+
qed simp

lemma line_bounds_fits: "line_bounds ls b = (fits', lo', hi') \<Longrightarrow> fits' \<Longrightarrow> fst b \<and> (\<forall>l \<in> set ls. li_op l \<le> 255)"
proof (induction ls b rule: line_bounds.induct)
  case (2 l ls fits lo hi)
  note ih = "2.IH" and p = "2.prems"
  have "fits \<and> \<not> li_op l > 255 \<and> (\<forall>l \<in> set ls. li_op l \<le> 255)"
    using ih [OF p(1) [unfolded line_bounds.simps] p(2)] by simp
  then show ?case by (simp add: not_less)
qed simp

lemma lines_in_range_Cons [simp]: "lines_in_range (l # ls) \<longleftrightarrow> 0 \<le> li_line l \<and> li_line l < 2 ^ 31 \<and> lines_in_range ls"
  by (simp add: lines_in_range_def)

lemma line_bounds_nonneg: "line_bounds ls b = (fits', lo', hi') \<Longrightarrow> lines_in_range ls \<Longrightarrow> 0 \<le> fst (snd b) \<Longrightarrow> 0 \<le> lo'"
proof (induction ls b rule: line_bounds.induct)
  case (2 l ls fits lo hi)
  then show ?case by (cases "li_line l < lo") simp_all
qed simp

lemma and_low_byte:
  assumes "(w :: u32) \<le> 255"
  shows "w AND 0xFF = w"
proof -
  have "uint w < 2 ^ 8" using assms by (simp add: word_le_def)
  then have "take_bit 8 w = w" by (simp add: word_uint_eq_iff unsigned_take_bit_eq take_bit_int_eq_self)
  moreover have "(0xFF :: u32) = mask 8" by (simp add: mask_eq_exp_minus_1)
  ultimately show ?thesis by (simp add: take_bit_eq_mask)
qed

text \<open>Every record keeps its instruction, its flag and, from \<open>_first_line\<close> on, its line.\<close>

definition same_record :: "int \<Rightarrow> line_info \<Rightarrow> line_info \<Rightarrow> bool" where
  "same_record first l l' \<longleftrightarrow> li_op l' = li_op l \<and> li_step l' = li_step l \<and> li_line l' + first = li_line l"

lemma build_lines_records:
  assumes "lines_in_range ls"
  shows "length (lt_infos (build_lines ls)) = length ls"
    and "i < length ls \<Longrightarrow> same_record (lt_first_line (build_lines ls)) (ls ! i) (lt_infos (build_lines ls) ! i)"
proof -
  obtain fits lo hi where b: "line_bounds ls (True, INT_MAX, 0) = (fits, lo, hi)" by (metis prod_cases3)
  define packed where "packed = (fits \<and> \<not> hi - lo > 127)"
  have eq: "build_lines ls = \<lparr>lt_compressed = packed, lt_first_line = lo mod 2 ^ 31, lt_infos = map (if packed then pack_line lo else full_line lo) ls\<rparr>"
    by (simp only: build_lines_def b Let_def prod.case packed_def)
  show "length (lt_infos (build_lines ls)) = length ls" by (simp add: eq)
  show "same_record (lt_first_line (build_lines ls)) (ls ! i) (lt_infos (build_lines ls) ! i)" if i: "i < length ls"
  proof -
    have lo: "0 \<le> lo" "lo < 2 ^ 31" using line_bounds_nonneg [OF b assms] line_bounds_low [OF b] by (simp_all add: INT_MAX_def)
    have l: "lo \<le> li_line (ls ! i)" "li_line (ls ! i) \<le> hi" "li_line (ls ! i) < 2 ^ 31"
      using line_bounds_low [OF b] line_bounds_high [OF b] assms i by (simp_all add: lines_in_range_def)
    show ?thesis
    proof (cases packed)
      case True
      then have "li_op (ls ! i) AND 0xFF = li_op (ls ! i)" using line_bounds_fits [OF b] i by (intro and_low_byte) (simp add: packed_def)
      moreover have "hi - lo \<le> 127" using True by (simp add: packed_def)
      ultimately show ?thesis using True lo l i by (simp add: eq same_record_def pack_line_def)
    next
      case False
      then show ?thesis using lo l i by (simp add: eq same_record_def full_line_def)
    qed
  qed
qed

text \<open>The search looks at the instructions alone.\<close>

lemma search_cong:
  assumes "length ls' = length ls" "\<And>i. i < length ls \<Longrightarrow> li_op (ls' ! i) = li_op (ls ! i)"
  shows "ops_sorted ls' = ops_sorted ls" "is_line ls' idx m = is_line ls idx m"
proof -
  have "map (\<lambda>l. uint (li_op l)) ls' = map (\<lambda>l. uint (li_op l)) ls" using assms by (intro nth_equalityI) simp_all
  moreover have "(\<forall>l \<in> set ls'. uint (li_op l) < 2 ^ 31) = (\<forall>l \<in> set ls. uint (li_op l) < 2 ^ 31)"
    using assms by (simp add: all_set_conv_all_nth)
  ultimately show "ops_sorted ls' = ops_sorted ls" by (simp add: ops_sorted_def)
  show "is_line ls' idx m = is_line ls idx m" using assms by (auto simp: is_line_def)
qed

lemma GetLine_line_at:
  assumes "ops_sorted ls" "lines_in_range ls" "ls \<noteq> []" "uint (li_op (ls ! 0)) \<le> idx"
  shows "GetLine (build_lines ls) g idx hint = (li_line (line_at ls idx), li_step (line_at ls idx))"
proof -
  obtain m where m: "is_line ls idx m" using is_line_ex [OF assms(3,4)] .
  then have ml: "m < length ls" by (simp add: is_line_def)
  have r: "same_record (lt_first_line (build_lines ls)) (ls ! i) (lt_infos (build_lines ls) ! i)" if "i < length ls" for i
    using that by (rule build_lines_records(2) [OF assms(2)])
  have op: "li_op (lt_infos (build_lines ls) ! i) = li_op (ls ! i)" if "i < length ls" for i
    using r [OF that] by (simp add: same_record_def)
  have len: "length (lt_infos (build_lines ls)) = length ls" by (rule build_lines_records(1) [OF assms(2)])
  have "get_line_offset (lt_infos (build_lines ls)) g idx hint = m"
    by (intro get_line_offset_line) (simp_all add: search_cong [OF len op] assms(1) m)
  then show ?thesis using r [OF ml] by (simp add: GetLine_def line_at_nth [OF m assms(1)] same_record_def Let_def)
qed

subsection \<open>The lines of a function while it is compiled\<close>

text \<open>
  What the compiler emits: a line (\<open>AddLineInfos\<close>) or an instruction (\<open>AddInstruction\<close>).
\<close>

datatype emit = EmitLine int bool bool | EmitInstr sq_instr

fun emit1 :: "emit \<Rightarrow> func_state \<Rightarrow> func_state" where
  "emit1 (EmitLine line step force) fs = AddLineInfos line step force fs"
| "emit1 (EmitInstr i) fs = AddInstruction i fs"

definition emit_all :: "emit list \<Rightarrow> func_state \<Rightarrow> func_state" where
  "emit_all es fs = fold emit1 es fs"

fun line_ok :: "emit \<Rightarrow> bool" where
  "line_ok (EmitLine line step force) \<longleftrightarrow> 0 \<le> line \<and> line < 2 ^ 31"
| "line_ok (EmitInstr i) \<longleftrightarrow> True"

definition fs_lines_ok :: "func_state \<Rightarrow> bool" where
  "fs_lines_ok fs \<longleftrightarrow> sorted (map (\<lambda>l. uint (li_op l)) (fs_lines fs)) \<and> lines_in_range (fs_lines fs) \<and>
     (\<forall>l \<in> set (fs_lines fs). uint (li_op l) \<le> int (length (fs_code fs)))"

lemma GetLiteral_lines [simp]: "fs_lines (snd (GetLiteral c fs)) = fs_lines fs" "fs_code (snd (GetLiteral c fs)) = fs_code fs"
  by (simp_all add: GetLiteral_def split: option.splits)

lemma with_literal_lines: "with_literal c fs pi = (fs', pi') \<Longrightarrow> fs_lines fs' = fs_lines fs \<and> fs_code fs' = fs_code fs"
  using GetLiteral_lines [of c fs] by (cases "GetLiteral c fs") (simp add: with_literal_def)

lemma peep_lines: "peep fs pi i = (fs', pi', rest) \<Longrightarrow> fs_lines fs' = fs_lines fs"
  unfolding peep_def
  by (cases "i_op i"; simp add: peep_jz_def peep_return_def peep_load_def peep_loadnulls_def peep_append_def peep_prepcall_def
        peep_set_def peep_newslot_def peep_get_def peep_move_def peep_eq_def Let_def split: if_splits prod.splits sq_opcode.splits)
    (auto dest!: with_literal_lines [of _ fs])

lemma peep_code: "peep fs pi i = (fs', pi', rest) \<Longrightarrow> fs_code fs' = fs_code fs"
  unfolding peep_def
  by (cases "i_op i"; simp add: peep_jz_def peep_return_def peep_load_def peep_loadnulls_def peep_append_def peep_prepcall_def
        peep_set_def peep_newslot_def peep_get_def peep_move_def peep_eq_def Let_def split: if_splits prod.splits sq_opcode.splits)
    (auto dest!: with_literal_lines [of _ fs])

lemma AddInstruction_lines [simp]: "fs_lines (AddInstruction i fs) = fs_lines fs"
  by (auto simp: AddInstruction_def append_instr_def Let_def split: prod.splits option.splits dest: peep_lines)

lemma AddInstruction_length:
  "length (fs_code fs) \<le> length (fs_code (AddInstruction i fs)) \<and> length (fs_code (AddInstruction i fs)) \<le> Suc (length (fs_code fs))"
proof (cases "fs_code fs \<noteq> [] \<and> fs_optimization fs \<and> \<not> fs_no_optimizer fs")
  case True
  obtain fs' pi rest where p: "peep fs (last (fs_code fs)) i = (fs', pi, rest)" by (cases "peep fs (last (fs_code fs)) i")
  show ?thesis using True peep_code [OF p] by (simp add: AddInstruction_def p append_instr_def Let_def split: option.split)
next
  case False
  then show ?thesis by (auto simp: AddInstruction_def append_instr_def)
qed

lemma AddLineInfos_code [simp]: "fs_code (AddLineInfos line step force fs) = fs_code fs"
  by (simp add: AddLineInfos_def Let_def)

lemma emit1_length: "length (fs_code fs) \<le> length (fs_code (emit1 e fs)) \<and> length (fs_code (emit1 e fs)) \<le> Suc (length (fs_code fs))"
  using AddInstruction_length by (cases e) auto

lemma emit1_lines_ok:
  assumes "fs_lines_ok fs" "line_ok e" "length (fs_code fs) < 2 ^ 31"
  shows "fs_lines_ok (emit1 e fs)"
proof (cases e)
  case (EmitLine line step force)
  have op: "uint (word_of_int (GetCurrentPos fs + 1) :: u32) = int (length (fs_code fs))"
    using assms(3) by (simp add: GetCurrentPos_def unsigned_of_nat take_bit_nat_eq_self)
  show ?thesis using assms op unfolding EmitLine
    by (auto simp: AddLineInfos_def Let_def fs_lines_ok_def sorted_append lines_in_range_def GetCurrentPos_def)
next
  case (EmitInstr i)
  show ?thesis using assms(1) AddInstruction_length [of fs i] by (auto simp: EmitInstr fs_lines_ok_def)
qed

lemma emit_all_length: "length (fs_code (emit_all es fs)) \<le> length (fs_code fs) + length es"
proof (induction es arbitrary: fs)
  case (Cons e es)
  show ?case using Cons.IH [of "emit1 e fs"] emit1_length [of fs e] by (simp add: emit_all_def)
qed (simp add: emit_all_def)

lemma emit_all_lines_ok:
  "fs_lines_ok fs \<Longrightarrow> list_all line_ok es \<Longrightarrow> length (fs_code fs) + length es < 2 ^ 31 \<Longrightarrow> fs_lines_ok (emit_all es fs)"
proof (induction es arbitrary: fs)
  case (Cons e es)
  then show ?case using Cons.IH [of "emit1 e fs"] emit1_lines_ok [of fs e] emit1_length [of fs e] by (simp add: emit_all_def)
qed (simp add: emit_all_def)

lemma emit1_lines: "\<exists>ls. fs_lines (emit1 e fs) = fs_lines fs @ ls"
  by (cases e) (simp_all add: AddLineInfos_def Let_def)

lemma emit_all_lines: "\<exists>ls. fs_lines (emit_all es fs) = fs_lines fs @ ls"
proof (induction es arbitrary: fs)
  case (Cons e es)
  obtain a where "fs_lines (emit1 e fs) = fs_lines fs @ a" using emit1_lines by blast
  then show ?case using Cons.IH [of "emit1 e fs"] by (auto simp: emit_all_def)
qed (simp add: emit_all_def)

text \<open>
  Lines and instructions emitted into a new function, a line first, leave the records in order. (The
  optimizer, which runs later, and \<open>PopInstructions\<close> need not.)
\<close>

lemma emitted_lines_ok:
  assumes "fs = emit_all (EmitLine first step force # es) (new_func_state parent no_opt)" "0 < first"
    and "list_all line_ok (EmitLine first step force # es)" "length es < 2 ^ 31 - 1"
  shows "ops_sorted (fs_lines fs)" "lines_in_range (fs_lines fs)" "fs_lines fs \<noteq> []" "li_op (fs_lines fs ! 0) = 0"
proof -
  let ?n = "new_func_state parent no_opt"
  have e: "fs = emit_all es (emit1 (EmitLine first step force) ?n)" by (simp add: assms(1) emit_all_def)
  have one: "fs_lines (emit1 (EmitLine first step force) ?n) = [\<lparr>li_op = 0, li_line = first, li_step = step\<rparr>]"
    using assms(2) by (simp add: AddLineInfos_def new_func_state_def GetCurrentPos_def)
  then obtain ls where l: "fs_lines fs = \<lparr>li_op = 0, li_line = first, li_step = step\<rparr> # ls"
    using emit_all_lines [of es "emit1 (EmitLine first step force) ?n"] by (auto simp: e)
  have "fs_lines_ok ?n" by (simp add: fs_lines_ok_def new_func_state_def lines_in_range_def)
  then have ok: "fs_lines_ok fs" using assms(3,4) unfolding assms(1) by (intro emit_all_lines_ok) (simp_all add: new_func_state_def)
  have len: "int (length (fs_code fs)) < 2 ^ 31"
    using emit_all_length [of "EmitLine first step force # es" ?n] assms(4) by (simp add: assms(1) new_func_state_def)
  show "ops_sorted (fs_lines fs)" using ok len by (auto simp: ops_sorted_def fs_lines_ok_def)
  show "lines_in_range (fs_lines fs)" "fs_lines fs \<noteq> []" "li_op (fs_lines fs ! 0) = 0" using ok by (simp_all add: fs_lines_ok_def l)
qed

text \<open>
  C7: for every list of line records that is in the order of their instructions, with instructions and
  lines below \<open>2 ^ 31\<close>, \<open>BuildProto\<close> packs the list, in either format, so that \<open>GetLine\<close> answers for every instruction
  from the first record on, and whatever the hint, the last line recorded at or before it, though
  it reads one record behind the table. The order is a condition: it holds of the records of
  \<open>AddLineInfos\<close> and \<open>AddInstruction\<close> alone, but \<open>cutRange\<close> of the optimizer and \<open>PopInstructions\<close> of a
  \<open>for\<close> statement can break it, and then the answer can be a wrong line.
\<close>

theorem GetLine_answers:
  assumes "ops_sorted ls" "lines_in_range ls" "ls \<noteq> []" "uint (li_op (ls ! 0)) \<le> idx"
  shows "GetLine (build_lines ls) g idx hint = (li_line (line_at ls idx), li_step (line_at ls idx))"
  by (rule GetLine_line_at [OF assms])

text \<open>Two loads on line 10 that become one instruction, then two on line 12.\<close>

definition two_lines :: "emit list" where
  "two_lines =
     [EmitInstr (new_instr OPC_LOAD 1 0 0 0), EmitInstr (new_instr OPC_LOAD 2 1 0 0), EmitLine 12 False False,
      EmitInstr (new_instr OPC_LOADINT 3 7 0 0), EmitInstr (new_instr OPC_RETURN 1 3 0 0)]"

lemma two_lines_table:
  "fs_lines (emit_all (EmitLine 10 True False # two_lines) (new_func_state False False)) =
     [\<lparr>li_op = 0, li_line = 10, li_step = True\<rparr>, \<lparr>li_op = 1, li_line = 12, li_step = False\<rparr>]"
  by code_simp

theorem GetLine_answers_witness:
  "GetLine (build_lines (fs_lines (emit_all (EmitLine 10 True False # two_lines) (new_func_state False False)))) 0 2 (Some 5) = (12, False)"
proof -
  let ?fs = "emit_all (EmitLine 10 True False # two_lines) (new_func_state False False)"
  have "list_all line_ok (EmitLine 10 True False # two_lines)" "length two_lines < 2 ^ 31 - 1" by (simp_all add: two_lines_def)
  note l = emitted_lines_ok [OF refl _ this]
  have at: "line_at (fs_lines ?fs) 2 = \<lparr>li_op = 1, li_line = 12, li_step = False\<rparr>" by (simp add: two_lines_table line_at_def)
  have "uint (li_op (fs_lines ?fs ! 0)) \<le> 2" by (simp add: l(4))
  then show ?thesis
    using GetLine_answers [OF l(1,2,3), of False False 2 0 "Some 5"] by (simp add: at)
qed

text \<open>
  \<open>visitForStatement\<close> takes the instructions of the third clause back with \<open>PopInstructions\<close> to
  append them after the body, but their lines stay in the table: here the clause ends on line 3 and
  the body is line 2, and its first instruction is given line 1.
\<close>

definition PopInstructions :: "nat \<Rightarrow> func_state \<Rightarrow> func_state" where
  "PopInstructions n fs = fs\<lparr>fs_code := take (length (fs_code fs) - n) (fs_code fs)\<rparr>"

definition for_state :: func_state where
  "for_state = emit_all [EmitLine 2 True False, EmitInstr (new_instr OPC_ADDI 3 1 0 1)]
     (PopInstructions 2
       (emit_all [EmitLine 1 True False, EmitInstr (new_instr OPC_LOADINT 1 0 0 0), EmitInstr (new_instr OPC_JZ 1 0 0 0),
               EmitInstr (new_instr OPC_LOADINT 2 1 0 0), EmitLine 3 False False, EmitInstr (new_instr OPC_ADD 1 2 1 0)]
         (new_func_state False False)))"

lemma popped_lines_remain:
  "map (\<lambda>l. (li_op l, li_line l)) (fs_lines for_state) = [(0, 1), (3, 3), (2, 2)] \<and>
   i_op (fs_code for_state ! 2) = OPC_ADDI \<and> GetLine (build_lines (fs_lines for_state)) 0 2 None = (1, True)"
  by code_simp

end
