(* ===== verification/Ast.thy ===== *)
theory Ast
  imports PeepholeThms TypeParser
begin

text \<open>
  The operator expressions of the syntax tree (\<^verbatim>\<open>squirrel/compiler/ast.h\<close>): identifiers,
  literals, unary and binary operators and the conditional. Member access, calls, assignments,
  container and function literals are not modelled. \<open>eval\<close> is what an expression means: its
  operands from left to right, the operators of the VM on them.
\<close>

subsection \<open>Trees\<close>

datatype literal = LK_STRING string | LK_INT u64 | LK_FLOAT u32 | LK_BOOL bool | LK_NULL

datatype un_op = TO_NEG | TO_NOT | TO_BNOT | TO_TYPEOF | TO_RESUME | TO_CLONE | TO_PAREN | TO_INLINE_CONST

datatype bin_op =
    TO_NULLC | TO_OROR | TO_ANDAND | TO_OR | TO_XOR | TO_AND | TO_NE | TO_EQ | TO_3CMP | TO_GE | TO_GT | TO_LE | TO_LT
  | TO_IN | TO_INSTANCEOF | TO_USHR | TO_SHR | TO_SHL | TO_MUL | TO_DIV | TO_MOD | TO_ADD | TO_SUB

datatype expr =
    IdExpr string
  | LiteralExpr literal
  | UnExpr un_op expr
  | BinExpr bin_op expr expr
  | TerExpr expr expr expr

fun deparen :: "expr \<Rightarrow> expr" where
  "deparen (UnExpr TO_PAREN e) = deparen e"
| "deparen e = e"

subsection \<open>What an expression means\<close>

text \<open>
  The operators the VM model leaves to its environment are functions here too: \<open>typeof\<close>, \<open>clone\<close>
  and \<open>resume\<close> in \<open>eo_un\<close>, \<open>in\<close> and \<open>instanceof\<close> in \<open>eo_bin\<close>. \<open>eo_str\<close> is the string object of a
  text, \<open>vars\<close> the value of each identifier.
\<close>

record 'w expr_ops =
  eo_vm :: "'w vm_ops"
  eo_un :: "un_op \<Rightarrow> sq_obj \<Rightarrow> 'w \<Rightarrow> (vm_error + sq_obj) \<times> 'w"
  eo_bin :: "bin_op \<Rightarrow> sq_obj \<Rightarrow> sq_obj \<Rightarrow> 'w \<Rightarrow> (vm_error + sq_obj) \<times> 'w"
  eo_str :: "string \<Rightarrow> sq_obj"

definition convertLiteral :: "(string \<Rightarrow> sq_obj) \<Rightarrow> literal \<Rightarrow> sq_obj" where
  "convertLiteral str l =
     (case l of LK_STRING s \<Rightarrow> str s | LK_INT i \<Rightarrow> SQInteger i | LK_FLOAT f \<Rightarrow> SQFloat f | LK_BOOL b \<Rightarrow> SQBool b | LK_NULL \<Rightarrow> SQNull)"

definition cmp_value :: "'w vm_ops \<Rightarrow> u8 \<Rightarrow> sq_obj \<Rightarrow> sq_obj \<Rightarrow> 'w \<Rightarrow> (vm_error + sq_obj) \<times> 'w" where
  "cmp_value ops p a b w =
     (case cmp_val ops (ObjCmp (vo_heap ops w) (vo_meta ops w) a b) w of
        Some x \<Rightarrow> cmp_result p x
      | None \<Rightarrow> (Inl (ErrMsg []), w))"

definition un_value :: "'w expr_ops \<Rightarrow> un_op \<Rightarrow> sq_obj \<Rightarrow> 'w \<Rightarrow> (vm_error + sq_obj) \<times> 'w" where
  "un_value eo p v w =
     (case p of
        TO_NEG \<Rightarrow> finish_val (eo_vm eo) (NEG_OP (vo_meta (eo_vm eo) w) v) w
      | TO_NOT \<Rightarrow> (Inr (SQBool (IsFalse v)), w)
      | TO_BNOT \<Rightarrow> (case v of SQInteger t \<Rightarrow> (Inr (SQInteger (NOT t)), w) | _ \<Rightarrow> (Inl (ErrBwnot v), w))
      | TO_PAREN \<Rightarrow> (Inr v, w)
      | TO_INLINE_CONST \<Rightarrow> (Inr v, w)
      | _ \<Rightarrow> eo_un eo p v w)"

definition bin_value :: "'w expr_ops \<Rightarrow> bin_op \<Rightarrow> sq_obj \<Rightarrow> sq_obj \<Rightarrow> 'w \<Rightarrow> (vm_error + sq_obj) \<times> 'w" where
  "bin_value eo p a b w =
     (let ops = eo_vm eo; mm = vo_meta ops w; arith = (\<lambda>r. finish_val ops r w) in
      case p of
        TO_ADD \<Rightarrow> arith (ARITH_OP mm CHR ''+'' a b)
      | TO_SUB \<Rightarrow> arith (ARITH_OP mm CHR ''-'' a b)
      | TO_MUL \<Rightarrow> arith (ARITH_OP mm CHR ''*'' a b)
      | TO_DIV \<Rightarrow> arith (arith_nozero mm a b)
      | TO_MOD \<Rightarrow> arith (ARITH_OP mm CHR ''%'' a b)
      | TO_OR \<Rightarrow> arith (BW_OP BW_OR a b)
      | TO_AND \<Rightarrow> arith (BW_OP BW_AND a b)
      | TO_XOR \<Rightarrow> arith (BW_OP BW_XOR a b)
      | TO_USHR \<Rightarrow> arith (BW_OP BW_USHIFTR a b)
      | TO_SHR \<Rightarrow> arith (BW_OP BW_SHIFTR a b)
      | TO_SHL \<Rightarrow> arith (BW_OP BW_SHIFTL a b)
      | TO_EQ \<Rightarrow> (Inr (SQBool (IsEqual a b)), w)
      | TO_NE \<Rightarrow> (Inr (SQBool (\<not> IsEqual a b)), w)
      | TO_GE \<Rightarrow> cmp_value ops CMP_GE a b w
      | TO_GT \<Rightarrow> cmp_value ops CMP_G a b w
      | TO_LE \<Rightarrow> cmp_value ops CMP_LE a b w
      | TO_LT \<Rightarrow> cmp_value ops CMP_L a b w
      | TO_3CMP \<Rightarrow> cmp_value ops CMP_3W a b w
      | _ \<Rightarrow> eo_bin eo p a b w)"

text \<open>The operators that may not need their second operand: the value of the first ends them.\<close>

definition stops_at :: "bin_op \<Rightarrow> sq_obj \<Rightarrow> bool" where
  "stops_at p a \<longleftrightarrow> p = TO_ANDAND \<and> IsFalse a \<or> p = TO_OROR \<and> \<not> IsFalse a \<or> p = TO_NULLC \<and> a \<noteq> SQNull"

definition logical_op :: "bin_op \<Rightarrow> bool" where
  "logical_op p \<longleftrightarrow> p = TO_ANDAND \<or> p = TO_OROR \<or> p = TO_NULLC"

fun with_value :: "(vm_error + sq_obj) \<times> 'w \<Rightarrow> (sq_obj \<Rightarrow> 'w \<Rightarrow> (vm_error + sq_obj) \<times> 'w) \<Rightarrow> (vm_error + sq_obj) \<times> 'w" where
  "with_value (Inl x, w) k = (Inl x, w)"
| "with_value (Inr v, w) k = k v w"

fun eval :: "'w expr_ops \<Rightarrow> (string \<Rightarrow> sq_obj) \<Rightarrow> expr \<Rightarrow> 'w \<Rightarrow> (vm_error + sq_obj) \<times> 'w" where
  "eval eo vars (IdExpr x) w = (Inr (vars x), w)"
| "eval eo vars (LiteralExpr l) w = (Inr (convertLiteral (eo_str eo) l), w)"
| "eval eo vars (UnExpr p e) w = with_value (eval eo vars e w) (un_value eo p)"
| "eval eo vars (BinExpr p l r) w =
     with_value (eval eo vars l w) (\<lambda>a w.
       if stops_at p a then (Inr a, w)
       else if logical_op p then eval eo vars r w
       else with_value (eval eo vars r w) (\<lambda>b w. bin_value eo p a b w))"
| "eval eo vars (TerExpr a b c) w =
     with_value (eval eo vars a w) (\<lambda>v w. if IsFalse v then eval eo vars c w else eval eo vars b w)"

end
