(* ===== verification/CodeExpr.thy ===== *)
theory CodeExpr
  imports Ast
begin

text \<open>
  The code of operator expressions: \<^verbatim>\<open>squirrel/compiler/codegen.cpp\<close> with the evaluation of
  constant expressions in \<^verbatim>\<open>squirrel/compiler/constgen.cpp\<close>. A visitor is a function on the
  state of the code generator that ends with a diagnostic or a result. Lines of expressions are
  off, as they are by default.
\<close>

subsection \<open>State\<close>

datatype cg_error =
    DI_UNKNOWN_SYMBOL string | DI_CONFLICTS_WITH string | DI_ID_IS_NOT_CONST string | DI_NOT_ALLOWED_IN_CONST un_op
  | DI_GENERAL_COMPILE_ERROR vm_error | DI_CANNOT_EVAL_UNARY | DI_TOO_MANY_STATIC_MEMOS | DI_TOO_BIG_STATIC_MEMO
  | DI_FUNC_STATE fs_error

text \<open>
  The function that is compiled and its parents, the static memos of the function and whether one
  is being compiled, and the world of the compiler's VM.
\<close>

record 'c cg_state =
  cg_fns :: "func_state list"
  cg_memos :: int
  cg_inside_memo :: bool
  cg_world :: 'c

text \<open>
  What does not change: the operators of the compiler's VM, the name of the function, the named
  constants in scope and the nesting in loops and functions.
\<close>

record 'c cg_env =
  ce_ops :: "'c expr_ops"
  ce_name :: "string option"
  ce_consts :: "string \<Rightarrow> sq_obj option"
  ce_complexity :: nat

type_synonym ('c, 'a) cg = "'c cg_state \<Rightarrow> cg_error + 'a \<times> 'c cg_state"

definition return :: "'a \<Rightarrow> ('c, 'a) cg" where
  "return x s = Inr (x, s)"

definition bind :: "('c, 'a) cg \<Rightarrow> ('a \<Rightarrow> ('c, 'b) cg) \<Rightarrow> ('c, 'b) cg" where
  "bind m k s = (case m s of Inl e \<Rightarrow> Inl e | Inr (x, s) \<Rightarrow> k x s)"

definition then_do :: "('c, unit) cg \<Rightarrow> ('c, 'b) cg \<Rightarrow> ('c, 'b) cg" where
  "then_do m k = bind m (\<lambda>_. k)"

definition diagnose :: "cg_error \<Rightarrow> ('c, 'a) cg" where
  "diagnose e s = Inl e"

definition fs_of :: "'c cg_state \<Rightarrow> func_state" where
  "fs_of s = hd (cg_fns s)"

definition with_fs :: "(func_state \<Rightarrow> 'a \<times> func_state) \<Rightarrow> ('c, 'a) cg" where
  "with_fs f s = (case f (fs_of s) of (x, fs) \<Rightarrow> Inr (x, s\<lparr>cg_fns := fs # tl (cg_fns s)\<rparr>))"

definition update_fs :: "(func_state \<Rightarrow> func_state) \<Rightarrow> ('c, unit) cg" where
  "update_fs f = with_fs (\<lambda>fs. ((), f fs))"

definition push_target :: "nat option \<Rightarrow> ('c, nat) cg" where
  "push_target n s =
     (case PushTarget n (fs_of s) of
        Inl e \<Rightarrow> Inl (DI_FUNC_STATE e)
      | Inr (t, fs) \<Rightarrow> Inr (t, s\<lparr>cg_fns := fs # tl (cg_fns s)\<rparr>))"

definition add_instr :: "sq_opcode \<Rightarrow> int \<Rightarrow> int \<Rightarrow> int \<Rightarrow> int \<Rightarrow> ('c, unit) cg" where
  "add_instr p a0 a1 a2 a3 = update_fs (AddInstruction (new_instr p a0 a1 a2 a3))"

definition SnoozeOpt :: "func_state \<Rightarrow> func_state" where
  "SnoozeOpt fs = fs\<lparr>fs_optimization := False\<rparr>"

subsection \<open>Constant expressions\<close>

text \<open>\<open>ConstGenVisitor\<close> evaluates every operand, and divides with the checks of \<open>ARITH_OP\<close>.\<close>

definition const_un :: "'c expr_ops \<Rightarrow> un_op \<Rightarrow> sq_obj \<Rightarrow> 'c \<Rightarrow> (cg_error + sq_obj) \<times> 'c" where
  "const_un eo p v w =
     (if p = TO_RESUME \<or> p = TO_CLONE then (Inl (DI_NOT_ALLOWED_IN_CONST p), w)
      else (case un_value eo p v w of (Inl e, w) \<Rightarrow> (Inl (DI_GENERAL_COMPILE_ERROR e), w) | (Inr v, w) \<Rightarrow> (Inr v, w)))"

definition const_bin :: "'c expr_ops \<Rightarrow> bin_op \<Rightarrow> sq_obj \<Rightarrow> sq_obj \<Rightarrow> 'c \<Rightarrow> (cg_error + sq_obj) \<times> 'c" where
  "const_bin eo p a b w =
     (if p = TO_NULLC then (Inr (if a = SQNull then b else a), w)
      else if p = TO_OROR then (Inr (if IsFalse a then b else a), w)
      else if p = TO_ANDAND then (Inr (if IsFalse a then a else b), w)
      else
        (case (if p = TO_DIV then finish_val (eo_vm eo) (ARITH_OP (vo_meta (eo_vm eo) w) CHR ''/'' a b) w else bin_value eo p a b w) of
           (Inl e, w) \<Rightarrow> (Inl (DI_GENERAL_COMPILE_ERROR e), w)
         | (Inr v, w) \<Rightarrow> (Inr v, w)))"

fun const_value :: "(cg_error + sq_obj) \<times> 'c \<Rightarrow> (sq_obj \<Rightarrow> 'c \<Rightarrow> (cg_error + sq_obj) \<times> 'c) \<Rightarrow> (cg_error + sq_obj) \<times> 'c" where
  "const_value (Inl x, w) k = (Inl x, w)"
| "const_value (Inr v, w) k = k v w"

fun constEval :: "'c expr_ops \<Rightarrow> (string \<Rightarrow> sq_obj option) \<Rightarrow> expr \<Rightarrow> 'c \<Rightarrow> (cg_error + sq_obj) \<times> 'c" where
  "constEval eo consts (LiteralExpr l) w = (Inr (convertLiteral (eo_str eo) l), w)"
| "constEval eo consts (IdExpr x) w = (case consts x of Some c \<Rightarrow> (Inr c, w) | None \<Rightarrow> (Inl (DI_ID_IS_NOT_CONST x), w))"
| "constEval eo consts (UnExpr p e) w =
     (if p = TO_RESUME \<or> p = TO_CLONE then (Inl (DI_NOT_ALLOWED_IN_CONST p), w)
      else const_value (constEval eo consts e w) (const_un eo p))"
| "constEval eo consts (BinExpr p l r) w =
     const_value (constEval eo consts l w) (\<lambda>a w. const_value (constEval eo consts r w) (\<lambda>b w. const_bin eo p a b w))"
| "constEval eo consts (TerExpr a b c) w =
     const_value (constEval eo consts a w) (\<lambda>v w. if IsFalse v then constEval eo consts c w else constEval eo consts b w)"

text \<open>
  \<open>isConstEvaluable\<close> looks identifiers up, which captures those of enclosing functions.
\<close>

fun isConstEvaluable :: "(string \<Rightarrow> sq_obj option) \<Rightarrow> expr \<Rightarrow> func_state list \<Rightarrow> bool \<times> func_state list" where
  "isConstEvaluable consts (LiteralExpr l) fns = (True, fns)"
| "isConstEvaluable consts (IdExpr x) fns =
     (if GetLocalVariable x (hd fns) \<noteq> None then (False, fns)
      else (case GetOuterVariable x fns of
              (Some _, fns) \<Rightarrow> (False, fns)
            | (None, fns) \<Rightarrow> (consts x \<noteq> None, fns)))"
| "isConstEvaluable consts (UnExpr p e) fns =
     (if p = TO_RESUME \<or> p = TO_CLONE then (False, fns) else isConstEvaluable consts e fns)"
| "isConstEvaluable consts (BinExpr p l r) fns =
     (case isConstEvaluable consts l fns of (b, fns) \<Rightarrow> if b then isConstEvaluable consts r fns else (False, fns))"
| "isConstEvaluable consts (TerExpr x y z) fns =
     (case isConstEvaluable consts x fns of (b, fns) \<Rightarrow>
        if b then (case isConstEvaluable consts y fns of (b, fns) \<Rightarrow> if b then isConstEvaluable consts z fns else (False, fns))
        else (False, fns))"

subsection \<open>Static memos\<close>

definition VF_INIT_WITH_CONST :: u8 where "VF_INIT_WITH_CONST = 2"
definition VF_DESTRUCTURED :: u8 where "VF_DESTRUCTURED = 8"
definition VF_INIT_WITH_FREEZE :: u8 where "VF_INIT_WITH_FREEZE = 16"
definition STATIC_MEMO_AUTO_FLAG :: int where "STATIC_MEMO_AUTO_FLAG = 0x8000"
definition STATIC_MEMO_IDX_MASK :: int where "STATIC_MEMO_IDX_MASK = 0x7FFF"
definition STATIC_MEMO_CONST_SCORE_THRESHOLD :: nat where "STATIC_MEMO_CONST_SCORE_THRESHOLD = 10"

definition findConstScoredVar :: "string \<Rightarrow> u8 \<Rightarrow> func_state list \<Rightarrow> bool \<times> func_state list" where
  "findConstScoredVar x required fns =
     (let good = (\<lambda>flags. flags AND required \<noteq> 0 \<and> flags AND (VF_DESTRUCTURED OR VF_ASSIGNABLE) = 0) in
      case GetLocalVariable x (hd fns) of
        Some i \<Rightarrow> (good (lv_flags (fs_vlocals (hd fns) ! i)), fns)
      | None \<Rightarrow>
          (case GetOuterVariable x fns of
             (Some (_, flags, _), fns) \<Rightarrow> (good flags, fns)
           | (None, fns) \<Rightarrow> (False, fns)))"

fun getSubtreeConstScore :: "(string \<Rightarrow> sq_obj option) \<Rightarrow> expr \<Rightarrow> func_state list \<Rightarrow> nat \<times> func_state list" where
  "getSubtreeConstScore consts (LiteralExpr l) fns = (1, fns)"
| "getSubtreeConstScore consts (IdExpr x) fns =
     (if consts x \<noteq> None then (1, fns)
      else (case findConstScoredVar x (VF_INIT_WITH_CONST OR VF_INIT_WITH_FREEZE) fns of (b, fns) \<Rightarrow> (if b then 1 else 0, fns)))"
| "getSubtreeConstScore consts (UnExpr p e) fns =
     (if p = TO_INLINE_CONST then (1, fns)
      else if p = TO_RESUME \<or> p = TO_CLONE then (0, fns)
      else (case getSubtreeConstScore consts e fns of (s, fns) \<Rightarrow> (if s > 0 then s + 1 else 0, fns)))"
| "getSubtreeConstScore consts (BinExpr p l r) fns =
     (case getSubtreeConstScore consts l fns of (s1, fns) \<Rightarrow>
      case getSubtreeConstScore consts r fns of (s2, fns) \<Rightarrow> (if s1 = 0 \<or> s2 = 0 then 0 else s1 + s2 + 1, fns))"
| "getSubtreeConstScore consts (TerExpr x y z) fns =
     (case getSubtreeConstScore consts x fns of (s1, fns) \<Rightarrow>
      case getSubtreeConstScore consts y fns of (s2, fns) \<Rightarrow>
      case getSubtreeConstScore consts z fns of (s3, fns) \<Rightarrow>
        (if s1 > 0 \<and> s2 > 0 \<and> s3 > 0 then s1 + s2 + s3 + 1 else 0, fns))"

subsection \<open>Loads\<close>

definition INT_RANGE_MAX :: int where "INT_RANGE_MAX = 2 ^ 31 - 1"
definition INT_RANGE_MIN :: int where "INT_RANGE_MIN = - (2 ^ 31)"

text \<open>A constant of the literal table, and the load of its index.\<close>

definition load_constant :: "sq_obj \<Rightarrow> nat \<Rightarrow> ('c, unit) cg" where
  "load_constant c t = bind (with_fs (GetLiteral c)) (\<lambda>k. add_instr OPC_LOAD (int t) (int k) 0 0)"

definition EmitLoadConstInt :: "u64 \<Rightarrow> nat \<Rightarrow> ('c, unit) cg" where
  "EmitLoadConstInt i t =
     (if sint i \<le> INT_RANGE_MAX \<and> sint i > INT_RANGE_MIN then add_instr OPC_LOADINT (int t) (sint i) 0 0
      else load_constant (SQInteger i) t)"

definition EmitLoadConstFloat :: "u32 \<Rightarrow> nat \<Rightarrow> ('c, unit) cg" where
  "EmitLoadConstFloat f t = add_instr OPC_LOADFLOAT (int t) (sint f) 0 0"

definition selectConstant :: "nat \<Rightarrow> sq_obj \<Rightarrow> ('c, unit) cg" where
  "selectConstant t c =
     (case c of
        SQInteger i \<Rightarrow> EmitLoadConstInt i t
      | SQFloat f \<Rightarrow> EmitLoadConstFloat f t
      | SQBool b \<Rightarrow> add_instr OPC_LOADBOOL (int t) (if b then 1 else 0) 0 0
      | SQNull \<Rightarrow> add_instr OPC_LOADNULLS (int t) 1 0 0
      | _ \<Rightarrow> load_constant c t)"

definition visitLiteralExpr :: "'c cg_env \<Rightarrow> literal \<Rightarrow> ('c, unit) cg" where
  "visitLiteralExpr env l =
     bind (push_target None) (\<lambda>t.
       case l of
         LK_STRING s \<Rightarrow> load_constant (eo_str (ce_ops env) s) t
       | LK_FLOAT f \<Rightarrow> EmitLoadConstFloat f t
       | LK_INT i \<Rightarrow> EmitLoadConstInt i t
       | LK_BOOL b \<Rightarrow> add_instr OPC_LOADBOOL (int t) (if b then 1 else 0) 0 0
       | LK_NULL \<Rightarrow> add_instr OPC_LOADNULLS (int t) 1 0 0)"

definition emitInlineConst :: "'c cg_env \<Rightarrow> expr \<Rightarrow> ('c, unit) cg" where
  "emitInlineConst env e s =
     (case constEval (ce_ops env) (ce_consts env) e (cg_world s) of
        (Inl x, w) \<Rightarrow> Inl x
      | (Inr v, w) \<Rightarrow> bind (push_target None) (\<lambda>t. selectConstant t v) (s\<lparr>cg_world := w\<rparr>))"

text \<open>An identifier: the function itself, a local, a captured variable, or a constant.\<close>

definition visitId :: "'c cg_env \<Rightarrow> string \<Rightarrow> ('c, unit) cg" where
  "visitId env x s =
     (if ce_name env = Some x \<and> GetLocalVariable x (fs_of s) = None then
        bind (push_target None) (\<lambda>t. add_instr OPC_LOADCALLEE (int t) 0 0 0) s
      else if ce_name env = Some x then Inl (DI_CONFLICTS_WITH x)
      else
        (case GetLocalVariable x (fs_of s) of
           Some pos \<Rightarrow> bind (push_target (Some pos)) (\<lambda>_. return ()) s
         | None \<Rightarrow>
             (case GetOuterVariable x (cg_fns s) of
                (Some (pos, _), fns) \<Rightarrow>
                  bind (push_target None) (\<lambda>t. add_instr OPC_GETOUTER (int t) (int pos) 0 0) (s\<lparr>cg_fns := fns\<rparr>)
              | (None, fns) \<Rightarrow>
                  (case ce_consts env x of
                     Some c \<Rightarrow> bind (push_target None) (\<lambda>t. selectConstant t c) (s\<lparr>cg_fns := fns\<rparr>)
                   | None \<Rightarrow> Inl (DI_UNKNOWN_SYMBOL x)))))"

subsection \<open>Operators\<close>

text \<open>The visitor of an operand is an argument: \<open>visit\<close> for one that may be folded or memoized.\<close>

definition pop_target :: "('c, nat) cg" where
  "pop_target = with_fs PopTarget"

definition current_pos :: "('c, int) cg" where
  "current_pos = with_fs (\<lambda>fs. (GetCurrentPos fs, fs))"

definition emitStaticMemo :: "expr \<Rightarrow> ('c, unit) cg \<Rightarrow> bool \<Rightarrow> ('c, unit) cg" where
  "emitStaticMemo e visit is_auto_memo s =
     (let old = cg_inside_memo s; staticIdx = cg_memos s in
      if staticIdx > STATIC_MEMO_IDX_MASK then Inl DI_TOO_MANY_STATIC_MEMOS
      else
        then_do (add_instr OPC_DATA_NOP 0 0 0 0) (bind current_pos (\<lambda>loadInstrPos. then_do visit
          (bind (\<lambda>s. if fs_targetstack (fs_of s) = [] then Inl DI_CANNOT_EVAL_UNARY else Inr ((), s)) (\<lambda>_.
          bind pop_target (\<lambda>src. bind (push_target None) (\<lambda>dst. bind current_pos (\<lambda>pos.
            let offset = pos + 1 - loadInstrPos;
                encodedIdx = (if is_auto_memo then staticIdx + STATIC_MEMO_AUTO_FLAG else staticIdx) in
            if offset \<ge> 0xFFFF then diagnose DI_TOO_BIG_STATIC_MEMO
            else
              then_do (update_fs (SetInstructionParams (nat loadInstrPos) (int dst) encodedIdx (offset div 256) (offset mod 256)))
             (then_do (add_instr OPC_SAVE_STATIC_MEMO (int src) encodedIdx ((offset + 1) div 256) ((offset + 1) mod 256))
                (\<lambda>s. Inr ((), s\<lparr>cg_inside_memo := old\<rparr>)))))))))) (s\<lparr>cg_inside_memo := True, cg_memos := staticIdx + 1\<rparr>))"

fun is_leaf :: "expr \<Rightarrow> bool" where
  "is_leaf (LiteralExpr l) \<longleftrightarrow> True"
| "is_leaf (IdExpr x) \<longleftrightarrow> True"
| "is_leaf e \<longleftrightarrow> False"

definition memo_or_value :: "'c cg_env \<Rightarrow> expr \<Rightarrow> ('c, unit) cg \<Rightarrow> ('c, unit) cg" where
  "memo_or_value env e visit s =
     (case (if cg_inside_memo s then (0, cg_fns s) else getSubtreeConstScore (ce_consts env) e (cg_fns s)) of
        (score, fns) \<Rightarrow>
          (let s = s\<lparr>cg_fns := fns\<rparr> in
           if score > STATIC_MEMO_CONST_SCORE_THRESHOLD \<and> \<not> fs_no_optimizer (fs_of s) \<and> ce_complexity env > 0
           then emitStaticMemo e visit True s
           else visit s))"

definition visitMaybeStaticMemo :: "'c cg_env \<Rightarrow> expr \<Rightarrow> ('c, unit) cg \<Rightarrow> ('c, unit) cg" where
  "visitMaybeStaticMemo env e visit s =
     (if is_leaf e then memo_or_value env e visit s
      else
        (case isConstEvaluable (ce_consts env) e (cg_fns s) of
           (b, fns) \<Rightarrow>
             (let s = s\<lparr>cg_fns := fns\<rparr> in if b then emitInlineConst env e s else memo_or_value env e visit s)))"

definition emitUnaryOp :: "sq_opcode \<Rightarrow> ('c, unit) cg \<Rightarrow> ('c, unit) cg" where
  "emitUnaryOp p visit =
     then_do visit (bind (\<lambda>s. if fs_targetstack (fs_of s) = [] then Inl DI_CANNOT_EVAL_UNARY else Inr ((), s)) (\<lambda>_.
       bind pop_target (\<lambda>src. bind (push_target None) (\<lambda>t. add_instr p (int t) (int src) 0 0))))"

definition emitSimpleBinaryOp :: "sq_opcode \<Rightarrow> int \<Rightarrow> ('c, unit) cg \<Rightarrow> ('c, unit) cg \<Rightarrow> ('c, unit) cg" where
  "emitSimpleBinaryOp p op3 lhs rhs =
     then_do lhs (then_do rhs (bind pop_target (\<lambda>op1. bind pop_target (\<lambda>op2.
       bind (push_target None) (\<lambda>t. add_instr p (int t) (int op1) (int op2) op3)))))"

definition emitShortCircuitLogicalOp :: "sq_opcode \<Rightarrow> ('c, unit) cg \<Rightarrow> ('c, unit) cg \<Rightarrow> ('c, unit) cg" where
  "emitShortCircuitLogicalOp p lhs rhs =
     then_do lhs (bind pop_target (\<lambda>first_exp. bind (push_target None) (\<lambda>trg.
     then_do (add_instr p (int trg) 0 (int first_exp) 0) (bind current_pos (\<lambda>jpos.
     then_do (if trg \<noteq> first_exp then add_instr OPC_MOVE (int trg) (int first_exp) 0 0 else return ())
    (then_do rhs (then_do (update_fs SnoozeOpt) (bind pop_target (\<lambda>second_exp.
     then_do (if trg \<noteq> second_exp then add_instr OPC_MOVE (int trg) (int second_exp) 0 0 else return ())
    (then_do (update_fs SnoozeOpt) (bind current_pos (\<lambda>pos.
     update_fs (SetInstructionParam (nat jpos) 1 (pos - jpos))))))))))))))"

definition emit_addi :: "int \<Rightarrow> ('c, unit) cg \<Rightarrow> ('c, unit) cg" where
  "emit_addi i visit =
     then_do visit (bind pop_target (\<lambda>op2. bind (push_target None) (\<lambda>t. add_instr OPC_ADDI (int t) i (int op2) 0)))"

fun literal_in_int_range :: "expr \<Rightarrow> int option" where
  "literal_in_int_range (LiteralExpr (LK_INT i)) = (if sint i \<ge> INT_RANGE_MIN \<and> sint i \<le> INT_RANGE_MAX then Some (sint i) else None)"
| "literal_in_int_range e = None"

definition emitTernary :: "('c, unit) cg \<Rightarrow> ('c, unit) cg \<Rightarrow> ('c, unit) cg \<Rightarrow> ('c, unit) cg" where
  "emitTernary a b c =
     then_do a (bind pop_target (\<lambda>cond. then_do (add_instr OPC_JZ (int cond) 0 0 0) (bind current_pos (\<lambda>jzpos.
     bind (push_target None) (\<lambda>trg. then_do b (bind pop_target (\<lambda>first_exp.
     then_do (if trg \<noteq> first_exp then add_instr OPC_MOVE (int trg) (int first_exp) 0 0 else return ())
    (bind current_pos (\<lambda>endfirstexp. then_do (add_instr OPC_JMP 0 0 0 0) (bind current_pos (\<lambda>jmppos.
     then_do c (bind pop_target (\<lambda>second_exp.
     then_do (if trg \<noteq> second_exp then add_instr OPC_MOVE (int trg) (int second_exp) 0 0 else return ())
    (bind current_pos (\<lambda>pos.
     then_do (update_fs (SetInstructionParam (nat jmppos) 1 (pos - jmppos)))
    (then_do (update_fs (SetInstructionParam (nat jzpos) 1 (endfirstexp - jzpos + 1)))
     (update_fs SnoozeOpt)))))))))))))))))"

text \<open>The instruction of a binary operator and its fourth operand.\<close>

definition bin_opcode :: "bin_op \<Rightarrow> sq_opcode \<times> int" where
  "bin_opcode p =
     (case p of
        TO_ADD \<Rightarrow> (OPC_ADD, 0) | TO_SUB \<Rightarrow> (OPC_SUB, 0) | TO_MUL \<Rightarrow> (OPC_MUL, 0) | TO_DIV \<Rightarrow> (OPC_DIV, 0) | TO_MOD \<Rightarrow> (OPC_MOD, 0)
      | TO_OR \<Rightarrow> (OPC_BITW, uint BW_OR) | TO_AND \<Rightarrow> (OPC_BITW, uint BW_AND) | TO_XOR \<Rightarrow> (OPC_BITW, uint BW_XOR)
      | TO_USHR \<Rightarrow> (OPC_BITW, uint BW_USHIFTR) | TO_SHR \<Rightarrow> (OPC_BITW, uint BW_SHIFTR) | TO_SHL \<Rightarrow> (OPC_BITW, uint BW_SHIFTL)
      | TO_EQ \<Rightarrow> (OPC_EQ, 0) | TO_NE \<Rightarrow> (OPC_NE, 0)
      | TO_GE \<Rightarrow> (OPC_CMP, uint CMP_GE) | TO_GT \<Rightarrow> (OPC_CMP, uint CMP_G) | TO_LE \<Rightarrow> (OPC_CMP, uint CMP_LE)
      | TO_LT \<Rightarrow> (OPC_CMP, uint CMP_L) | TO_3CMP \<Rightarrow> (OPC_CMP, uint CMP_3W)
      | TO_IN \<Rightarrow> (OPC_EXISTS, 0) | TO_INSTANCEOF \<Rightarrow> (OPC_INSTANCEOF, 0)
      | TO_NULLC \<Rightarrow> (OPC_NULLCOALESCE, 0) | TO_OROR \<Rightarrow> (OPC_OR, 0) | TO_ANDAND \<Rightarrow> (OPC_AND, 0))"

definition un_opcode :: "un_op \<Rightarrow> sq_opcode" where
  "un_opcode p =
     (case p of
        TO_NEG \<Rightarrow> OPC_NEG | TO_NOT \<Rightarrow> OPC_NOT | TO_BNOT \<Rightarrow> OPC_BWNOT | TO_TYPEOF \<Rightarrow> OPC_TYPEOF | TO_RESUME \<Rightarrow> OPC_RESUME
      | TO_CLONE \<Rightarrow> OPC_CLONE | _ \<Rightarrow> OPC_DATA_NOP)"

text \<open>\<open>visitBinExpr\<close>: an integer literal as an operand of an addition or behind a minus is an immediate.\<close>

definition immediate :: "bin_op \<Rightarrow> expr \<Rightarrow> expr \<Rightarrow> (int \<times> bool) option" where
  "immediate p l r =
     (if p = TO_ADD then
        (case literal_in_int_range l of
           Some i \<Rightarrow> Some (i, True)
         | None \<Rightarrow> (case literal_in_int_range r of Some i \<Rightarrow> Some (i, False) | None \<Rightarrow> None))
      else if p = TO_SUB then
        (case literal_in_int_range r of Some i \<Rightarrow> if i \<noteq> INT_RANGE_MIN then Some (- i, False) else None | None \<Rightarrow> None)
      else None)"

fun visitExpr :: "'c cg_env \<Rightarrow> expr \<Rightarrow> 'c cg_state \<Rightarrow> cg_error + unit \<times> 'c cg_state" where
  "visitExpr env (IdExpr x) s = visitId env x s"
| "visitExpr env (LiteralExpr l) s = visitLiteralExpr env l s"
| "visitExpr env (UnExpr p e) s =
     (if p = TO_PAREN then visitExpr env e s
      else if p = TO_INLINE_CONST then emitInlineConst env e s
      else emitUnaryOp (un_opcode p) (visitMaybeStaticMemo env e (\<lambda>s. visitExpr env e s)) s)"
| "visitExpr env (BinExpr p l r) s =
     (if logical_op p then emitShortCircuitLogicalOp (fst (bin_opcode p)) (\<lambda>s. visitExpr env l s) (\<lambda>s. visitExpr env r s) s
      else
        (case immediate p l r of
           Some (i, left) \<Rightarrow> emit_addi i (if left then (\<lambda>s. visitExpr env r s) else (\<lambda>s. visitExpr env l s)) s
         | None \<Rightarrow>
             emitSimpleBinaryOp (fst (bin_opcode p)) (snd (bin_opcode p))
               (visitMaybeStaticMemo env l (\<lambda>s. visitExpr env l s)) (visitMaybeStaticMemo env r (\<lambda>s. visitExpr env r s)) s))"
| "visitExpr env (TerExpr a b c) s =
     emitTernary (\<lambda>s. visitExpr env a s) (visitMaybeStaticMemo env b (\<lambda>s. visitExpr env b s))
       (visitMaybeStaticMemo env c (\<lambda>s. visitExpr env c s)) s"

end
