(* ===== verification/CodeRun.thy ===== *)
theory CodeRun
  imports CodeExpr OptSim
begin

text \<open>
  Running a stretch of code from its first instruction to its end, and what adding an instruction
  to it does to its run.
\<close>

subsection \<open>Segments\<close>

text \<open>Jumps go forward. \<open>Unknown\<close> is a jump back or out, or an instruction that is not modelled.\<close>

function seg_run :: "'w vm_ops \<Rightarrow> sq_obj list \<Rightarrow> sq_instr list \<Rightarrow> nat \<Rightarrow> regs \<Rightarrow> 'w \<Rightarrow> 'w seq_end" where
  "seg_run ops lits code pc R w =
     (if pc < length code then
        (case vm_step ops lits (code ! pc) (jump_dest (code ! pc) (int pc)) (int pc) R w of
           Goto p R w \<Rightarrow> if p > int pc then seg_run ops lits code (nat p) R w else Unknown
         | Stop x \<Rightarrow> Ends x
         | Unmodelled \<Rightarrow> Unknown)
      else if pc = length code then Falls R w
      else Unknown)"
  by pat_completeness auto
termination by (relation "measure (\<lambda>(ops, lits, code, pc, R, w). length code - pc)") auto

declare seg_run.simps [simp del]

fun seg_bind :: "'w seq_end \<Rightarrow> (regs \<Rightarrow> 'w \<Rightarrow> 'w seq_end) \<Rightarrow> 'w seq_end" where
  "seg_bind (Falls R w) k = k R w"
| "seg_bind (Jumps R w) k = Jumps R w"
| "seg_bind (Ends x) k = Ends x"
| "seg_bind Unknown k = Unknown"

lemma seg_bind_assoc: "seg_bind (seg_bind x f) g = seg_bind x (\<lambda>R w. seg_bind (f R w) g)"
  by (cases x) simp_all

lemma seg_bind_Falls [simp]: "seg_bind x Falls = x"
  by (cases x) simp_all

fun closed :: "'w seq_end \<Rightarrow> bool" where
  "closed (Falls R w) \<longleftrightarrow> True"
| "closed (Ends x) \<longleftrightarrow> True"
| "closed _ \<longleftrightarrow> False"

lemma closed_bind: "closed x \<Longrightarrow> (\<And>R w. closed (f R w)) \<Longrightarrow> closed (seg_bind x f)"
  by (cases x) auto

lemma closed_same: "closed x \<Longrightarrow> same_but T x y \<Longrightarrow> closed y"
  by (cases x; cases y) auto

lemma seg_run_Nil [simp]: "seg_run ops lits [] 0 R w = Falls R w"
  by (simp add: seg_run.simps)

lemma jump_dest_shift: "jump_dest i (pc + n) = jump_dest i pc + n"
  by (simp add: jump_dest_def)

lemma seg_run_shift: "seg_run ops lits (c @ d) (length c + k) R w = seg_run ops lits d k R w"
proof (induction ops lits d k R w rule: seg_run.induct)
  case (1 ops lits code pc R w)
  let ?s = "vm_step ops lits (code ! pc) (jump_dest (code ! pc) (int pc)) (int pc) R w"
  have step: "vm_step ops lits (code ! pc) (jump_dest (code ! pc) (int (length c + pc))) (int (length c + pc)) R w =
      map_next (\<lambda>p. p + int (length c)) ?s"
    using vm_step_map [of "\<lambda>p. p + int (length c)" "int pc" "int (length c + pc)" ops lits "code ! pc" "jump_dest (code ! pc) (int pc)" R w]
      jump_dest_shift [of "code ! pc" "int pc" "int (length c)"]
    by (simp add: add.commute)
  note step = step [unfolded of_nat_add]
  show ?case
  proof (cases "pc < length code")
    case True
    show ?thesis
    proof (cases ?s)
      case (Goto p R' w')
      show ?thesis
      proof (cases "p > int pc")
        case gt: True
        have "nat (p + int (length c)) = length c + nat p" using gt by simp
        then show ?thesis using "1.IH" [OF True Goto gt] gt True
          by (subst (1 2) seg_run.simps) (simp add: nth_append step Goto)
      next
        case False
        then show ?thesis using True by (subst (1 2) seg_run.simps) (simp add: nth_append step Goto)
      qed
    qed (use True in \<open>subst (1 2) seg_run.simps, simp add: nth_append step\<close>)+
  next
    case False
    then show ?thesis by (subst (1 2) seg_run.simps) simp
  qed
qed

lemma seg_run_into:
  "closed (seg_run ops lits c k R w) \<Longrightarrow>
   seg_run ops lits (c @ d) k R w = seg_bind (seg_run ops lits c k R w) (seg_run ops lits d 0)"
proof (induction ops lits c k R w rule: seg_run.induct)
  case (1 ops lits code pc R w)
  let ?s = "vm_step ops lits (code ! pc) (jump_dest (code ! pc) (int pc)) (int pc) R w"
  show ?case
  proof (cases "pc < length code")
    case True
    show ?thesis
    proof (cases ?s)
      case (Goto p R' w')
      have gt: "p > int pc" using "1.prems" True by (subst (asm) seg_run.simps) (simp add: Goto split: if_splits)
      then have "closed (seg_run ops lits code (nat p) R' w')" using "1.prems" True by (subst (asm) seg_run.simps) (simp add: Goto)
      from "1.IH" [OF True Goto gt this] show ?thesis using True gt
        by (subst (1 2) seg_run.simps) (simp add: nth_append Goto)
    qed (use True in \<open>subst (1 2) seg_run.simps, simp add: nth_append\<close>)+
  next
    case False
    then have "pc = length code" using "1.prems" by (subst (asm) seg_run.simps) (simp split: if_splits)
    then show ?thesis using seg_run_shift [of ops lits code d 0 R w] by (simp add: seg_run.simps [of ops lits code])
  qed
qed

lemma seg_run_append:
  "closed (seg_run ops lits c 0 R w) \<Longrightarrow> seg_run ops lits (c @ d) 0 R w = seg_bind (seg_run ops lits c 0 R w) (seg_run ops lits d 0)"
  by (rule seg_run_into)

subsection \<open>Instructions without a jump\<close>

definition straight :: "sq_opcode \<Rightarrow> bool" where
  "straight p \<longleftrightarrow>
     p \<in> {OPC_LOAD, OPC_LOADINT, OPC_LOADFLOAT, OPC_LOADBOOL, OPC_LOADNULLS, OPC_DLOAD, OPC_MOVE, OPC_DMOVE, OPC_EQ, OPC_NE,
       OPC_ADD, OPC_ADDI, OPC_SUB, OPC_MUL, OPC_DIV, OPC_MOD, OPC_BITW, OPC_CMP, OPC_NEG, OPC_NOT, OPC_BWNOT}"

lemma ObjCmp_no_cat: "ObjCmp h mm a b \<noteq> VCat x y"
  by (cases a) (auto simp: ObjCmp_def Let_def)

lemma cmp_val_Some: "cmp_val ops (ObjCmp h mm a b) w \<noteq> None"
  using ObjCmp_no_cat [of h mm a b]
  by (cases "ObjCmp h mm a b") (auto simp: cmp_val_def split: prod.split sum.split sq_obj.split)

lemma straight_cases:
  assumes "straight p"
  obtains "moved_op p" | "p = OPC_EQ \<or> p = OPC_NE" | "p = OPC_LOADNULLS" | "p \<in> {OPC_DLOAD, OPC_MOVE, OPC_DMOVE}"
  using assms by (auto simp: straight_def moved_op_def retargetable_def)

lemma moved_target: "moved_op (i_op x) \<Longrightarrow> target_val ops lits x R w \<noteq> None"
  using cmp_val_Some [of ops "vo_heap ops w" "vo_meta ops w" "R (reg (i_arg2 x))" "R (reg1 x)" w]
  by (auto simp: moved_op_def retargetable_def target_val_def Let_def split: sq_obj.split)

text \<open>Such an instruction goes on with the next one, or stops, whatever its place.\<close>

lemma straight_step:
  assumes "straight (i_op x)"
  shows "(\<exists>S v. \<forall>d pc. vm_step ops lits x d pc R w = Goto (pc + 1) S v) \<or> (\<exists>y. \<forall>d pc. vm_step ops lits x d pc R w = Stop y)"
  using assms
proof (cases rule: straight_cases)
  case 1
  obtain e u where q: "target_val ops lits x R w = Some (e, u)" using moved_target [OF 1, of ops lits R w] by auto
  show ?thesis
  proof (cases e)
    case (Inl a)
    have "\<forall>d pc. vm_step ops lits x d pc R w = Stop (Raised a u)" by (simp add: target_step [OF 1] q Inl)
    then show ?thesis by blast
  next
    case (Inr v)
    have "\<forall>d pc. vm_step ops lits x d pc R w = Goto (pc + 1) (R(reg (i_arg0 x) := v)) u" by (simp add: target_step [OF 1] q Inr)
    then show ?thesis by blast
  qed
next
  case 2
  show ?thesis by (intro disjI1 exI allI) (rule eq_step [OF 2])
next
  case 3
  show ?thesis by (intro disjI1 exI allI) (rule loadnulls_step [OF 3])
next
  case 4
  then consider "i_op x = OPC_DLOAD" | "i_op x = OPC_MOVE" | "i_op x = OPC_DMOVE" by blast
  then show ?thesis
  proof cases
    case 1
    show ?thesis by (intro disjI1 exI allI) (simp add: 1 vm_step_def exec_load_def Let_def)
  next
    case 2
    show ?thesis by (intro disjI1 exI allI) (simp add: 2 vm_step_def exec_load_def exec_move_def Let_def)
  next
    case 3
    show ?thesis by (intro disjI1 exI allI) (simp add: 3 vm_step_def exec_load_def exec_move_def Let_def)
  qed
qed

lemma straight_one:
  assumes "straight (i_op x)"
  shows "seg_run ops lits [x] 0 R w = seq_run ops lits [x] R w" "closed (seq_run ops lits [x] R w)"
proof -
  consider S v where "\<forall>d pc. vm_step ops lits x d pc R w = Goto (pc + 1) S v" | y where "\<forall>d pc. vm_step ops lits x d pc R w = Stop y"
    using straight_step [OF assms, of ops lits R w] by blast
  then have "seg_run ops lits [x] 0 R w = seq_run ops lits [x] R w \<and> closed (seq_run ops lits [x] R w)"
  proof cases
    case 1
    then show ?thesis by (simp add: seg_run.simps [of ops lits "[x]"])
  next
    case 2
    then show ?thesis by (simp add: seg_run.simps [of ops lits "[x]"])
  qed
  then show "seg_run ops lits [x] 0 R w = seq_run ops lits [x] R w" "closed (seq_run ops lits [x] R w)" by auto
qed

lemma straight_fun: "straight (i_op x) \<Longrightarrow> seg_run ops lits [x] 0 = seq_run ops lits [x]"
  by (intro ext) (rule straight_one(1))

lemma seq_run_Cons: "closed (seq_run ops lits [x] R w) \<Longrightarrow> seq_run ops lits (x # xs) R w = seg_bind (seq_run ops lits [x] R w) (seq_run ops lits xs)"
  by (cases "vm_step ops lits x (- 1) 0 R w") (auto split: if_splits)

lemma straight_run:
  "\<forall>x \<in> set xs. straight (i_op x) \<Longrightarrow> seg_run ops lits xs 0 R w = seq_run ops lits xs R w \<and> closed (seq_run ops lits xs R w)"
proof (induction xs arbitrary: R w)
  case (Cons x xs)
  note o = straight_one [of x ops lits R w]
  have x: "straight (i_op x)" using Cons.prems by simp
  have "seg_run ops lits ([x] @ xs) 0 R w = seg_bind (seg_run ops lits [x] 0 R w) (seg_run ops lits xs 0)"
    by (rule seg_run_append) (simp only: o [OF x])
  also have "\<dots> = seg_bind (seq_run ops lits [x] R w) (seq_run ops lits xs)"
    unfolding o(1) [OF x] using Cons by (cases "seq_run ops lits [x] R w") (simp_all del: seq_run.simps)
  finally have e: "seg_run ops lits (x # xs) 0 R w = seg_bind (seq_run ops lits [x] R w) (seq_run ops lits xs)" by simp
  have "closed (seg_bind (seq_run ops lits [x] R w) (seq_run ops lits xs))"
    using o(2) [OF x] Cons by (intro closed_bind) (simp_all del: seq_run.simps)
  then show ?case using e seq_run_Cons [OF o(2) [OF x], of xs] by (simp del: seq_run.simps)
qed simp

subsection \<open>The last stretch of the code\<close>

definition steady :: "'w vm_ops \<Rightarrow> sq_obj list \<Rightarrow> sq_instr list \<Rightarrow> bool" where
  "steady ops lits c \<longleftrightarrow> (\<forall>R w. closed (seg_run ops lits c 0 R w))"

lemma steady_Nil [simp]: "steady ops lits []"
  by (simp add: steady_def)

lemma steady_append: "steady ops lits c \<Longrightarrow> steady ops lits d \<Longrightarrow> steady ops lits (c @ d)"
  by (simp add: steady_def seg_run_append closed_bind)

lemma steady_straight: "\<forall>x \<in> set xs. straight (i_op x) \<Longrightarrow> steady ops lits xs"
  by (simp add: steady_def straight_run del: seq_run.simps)

lemma steady_run: "steady ops lits c \<Longrightarrow> seg_run ops lits (c @ d) 0 R w = seg_bind (seg_run ops lits c 0 R w) (seg_run ops lits d 0)"
  by (simp add: steady_def seg_run_append)

definition fusing :: "func_state \<Rightarrow> bool" where
  "fusing fs \<longleftrightarrow> fs_optimization fs \<and> \<not> fs_no_optimizer fs"

text \<open>No rule changes these, and none changes what is added behind them.\<close>

definition barrier :: "sq_instr \<Rightarrow> bool" where
  "barrier x \<longleftrightarrow> i_op x \<in> {OPC_JZ, OPC_JCMP, OPC_JMP, OPC_AND, OPC_OR, OPC_NULLCOALESCE}"

definition last_ok :: "sq_instr \<Rightarrow> bool" where
  "last_ok x \<longleftrightarrow>
     straight (i_op x) \<and> (i_op x = OPC_LOADNULLS \<longrightarrow> 1 \<le> sarg1 x) \<and> (i_op x = OPC_CMP \<longrightarrow> 0 \<le> sarg1 x \<and> i_arg3 x < 8)"

text \<open>
  The code ends with \<open>tail\<close>, which no jump leaves, and whose last instruction no jump separates
  from the ones before while it may still be changed.
\<close>

definition joined :: "'w vm_ops \<Rightarrow> sq_obj list \<Rightarrow> sq_instr list \<Rightarrow> sq_instr list \<Rightarrow> func_state \<Rightarrow> bool" where
  "joined ops lits pre tail fs \<longleftrightarrow>
     fs_code fs = pre @ tail \<and> steady ops lits tail \<and>
     (fusing fs \<longrightarrow>
        (if tail = [] then pre = [] \<or> barrier (last pre) else steady ops lits (butlast tail) \<and> last_ok (last tail)))"

text \<open>The instructions that are added and what they guarantee.\<close>

definition added_ok :: "func_state \<Rightarrow> sq_instr \<Rightarrow> bool" where
  "added_ok fs i \<longleftrightarrow>
     last_ok i \<and> (i_op i = OPC_MOVE \<or> i_op i = OPC_LOAD \<longrightarrow> 0 \<le> sarg1 i) \<and> (i_op i = OPC_LOADNULLS \<longrightarrow> i_arg1 i = 1) \<and>
     (i_op i = OPC_EQ \<or> i_op i = OPC_NE \<longrightarrow> i_arg3 i = 0 \<and> (\<forall>x. fills fs x i \<longrightarrow> i_arg2 i \<noteq> i_arg0 x))"

definition dropped :: "func_state \<Rightarrow> sq_instr \<Rightarrow> nat \<Rightarrow> bool" where
  "dropped fs i r \<longleftrightarrow> \<not> IsLocal fs r \<and> i_op i \<in> {OPC_MOVE, OPC_EQ, OPC_NE} \<and> r = reg1 i \<and> r \<noteq> reg (i_arg0 i)"

lemma same_but_bind: "(\<And>R w. same_but T (f R w) (g R w)) \<Longrightarrow> same_but T (seg_bind x f) (seg_bind x g)"
  by (cases x) simp_all

lemma peep_other: "straight (i_op i) \<Longrightarrow> i_op i \<notin> {OPC_MOVE, OPC_LOAD, OPC_LOADNULLS, OPC_EQ, OPC_NE} \<Longrightarrow> peep fs x i = (fs, x, Some i)"
  by (auto simp: straight_def peep_def)

lemma peep_barrier:
  "barrier x \<Longrightarrow> straight (i_op i) \<or> i_op i = OPC_JZ \<Longrightarrow> peep fs x i = (fs, x, Some i)"
  by (auto simp: barrier_def straight_def peep_def peep_jz_def peep_move_def peep_load_def peep_loadnulls_def peep_eq_def retargetable_def Let_def)

lemma peep_jump: "i_op i \<in> {OPC_JMP, OPC_AND, OPC_OR, OPC_NULLCOALESCE} \<Longrightarrow> peep fs x i = (fs, x, Some i)"
  by (auto simp: peep_def)

lemma add_alone:
  assumes "\<not> fusing fs \<or> fs_code fs = [] \<or> peep fs (last (fs_code fs)) i = (fs, last (fs_code fs), Some i)"
  shows "AddInstruction i fs = append_instr i fs"
proof -
  have "append_instr i (fs\<lparr>fs_code := butlast (fs_code fs) @ [last (fs_code fs)]\<rparr>) = append_instr i fs" if "fs_code fs \<noteq> []"
    using that by simp
  then show ?thesis using assms by (auto simp: AddInstruction_def fusing_def)
qed

lemma append_joined:
  assumes "joined ops lits pre tail fs" "last_ok i"
  shows "joined ops lits pre (tail @ [i]) (append_instr i fs)"
    and "seg_run ops lits (tail @ [i]) 0 R w = seg_bind (seg_run ops lits tail 0 R w) (seq_run ops lits [i])"
proof -
  have s: "steady ops lits tail" "fs_code fs = pre @ tail" using assms(1) by (auto simp: joined_def)
  have i: "straight (i_op i)" using assms(2) by (simp add: last_ok_def)
  have "steady ops lits (tail @ [i])" by (rule steady_append [OF s(1) steady_straight]) (simp add: i)
  then show "joined ops lits pre (tail @ [i]) (append_instr i fs)" using s assms(2) by (simp add: joined_def append_instr_def)
  show "seg_run ops lits (tail @ [i]) 0 R w = seg_bind (seg_run ops lits tail 0 R w) (seq_run ops lits [i])"
    by (simp only: steady_run [OF s(1)] straight_fun [OF i])
qed

text \<open>What an instruction becomes when it is changed by one that is added behind it.\<close>

definition fused_with :: "sq_opcode \<Rightarrow> bool" where
  "fused_with p \<longleftrightarrow> p \<in> {OPC_MOVE, OPC_LOAD, OPC_LOADNULLS, OPC_EQ, OPC_NE}"

lemma fuses_cases:
  assumes "peep fs x i = q" "fused_with (i_op i)"
  obtains "i_op i = OPC_MOVE" "peep_move fs x i = q" | "i_op i = OPC_LOAD" "peep_load fs x i = q"
  | "i_op i = OPC_LOADNULLS" "peep_loadnulls fs x i = q" | "i_op i = OPC_EQ \<or> i_op i = OPC_NE" "peep_eq fs x i = q"
  using assms by (auto simp: fused_with_def peep_def)

lemma peep_rest:
  assumes "peep fs x i = (fs', x', rest)" "fused_with (i_op i)"
  shows "rest = None \<or> (fs' = fs \<and> x' = x \<and> rest = Some i)"
  using assms
proof (cases rule: fuses_cases)
  case 1
  then show ?thesis by (simp add: peep_move_def Let_def split: if_split_asm)
next
  case 2
  then show ?thesis by (simp add: peep_load_def split: if_split_asm)
next
  case 3
  then show ?thesis by (simp add: peep_loadnulls_def split: if_split_asm)
next
  case 4
  then show ?thesis by (simp add: peep_eq_def Let_def split: if_split_asm prod.split_asm)
qed

lemma peep_move_cases:
  assumes "peep_move fs x i = (fs', x', None)"
  obtains "x' = x\<lparr>i_arg0 := i_arg0 i\<rparr>" "\<not> fs_optimization fs'"
  | "i_op x' = i_op x" "i_op x = OPC_GETOUTER \<or> i_op x = OPC_LOADCALLEE" | "i_op x' = OPC_DMOVE"
proof (cases "retargetable (i_op x) \<and> fills fs x i")
  case True
  then have "fs' = fs\<lparr>fs_optimization := False\<rparr>" "x' = x\<lparr>i_arg0 := i_arg0 i\<rparr>" using assms by (simp_all add: peep_move_def Let_def)
  then show ?thesis by (intro that(1)) simp_all
next
  case False
  note f = False
  show ?thesis
  proof (cases "(i_op x = OPC_GETOUTER \<or> i_op x = OPC_LOADCALLEE) \<and> sarg1 i < 256 \<and> i_arg0 i \<noteq> 0 \<and> i_arg2 x = 0")
    case True
    then have "x' = x\<lparr>i_arg2 := i_arg0 i, i_arg3 := ucast (i_arg1 i)\<rparr>"
      using assms unfolding peep_move_def Let_def if_not_P [OF f] by simp
    then show ?thesis using True by (intro that(2)) auto
  next
    case no: False
    show ?thesis
    proof (cases "i_op x = OPC_MOVE \<and> sarg1 i < 256")
      case True
      then have "x' = x\<lparr>i_arg2 := i_arg0 i, i_arg3 := ucast (i_arg1 i), i_op := OPC_DMOVE\<rparr>"
        using assms unfolding peep_move_def Let_def if_not_P [OF f] if_not_P [OF no] by simp
      then show ?thesis by (intro that(3)) simp
    next
      case False
      then show ?thesis using assms unfolding peep_move_def Let_def if_not_P [OF f] if_not_P [OF no] if_not_P [OF False] by simp
    qed
  qed
qed

lemma straight_not:
  "straight p \<Longrightarrow> p \<notin> {OPC_GET, OPC_GETK, OPC_TYPEOF, OPC_CLONE, OPC_GETOUTER, OPC_LOADCALLEE}"
  by (rule notI) (elim insertE emptyE; simp add: straight_def)

lemma last_retarget: "last_ok x \<Longrightarrow> last_ok (x\<lparr>i_arg0 := t\<rparr>)"
  by (simp add: last_ok_def sarg1_def)

lemma eq_op:
  assumes "peep_eq fs x i = (fs', x', None)"
  shows "i_op x' = i_op i"
  using assms by (simp add: peep_eq_def Let_def split: if_split_asm prod.split_asm) auto

lemma next_null:
  assumes "1 \<le> sarg1 x" "uint (i_arg0 x) + sarg1 x = uint (i_arg0 i)"
  shows "1 \<le> sint (i_arg1 x + 1)"
proof -
  have "uint (i_arg0 i) < 256" "0 \<le> uint (i_arg0 x)" using uint_range_size [of "i_arg0 i"] by (simp_all add: word_size)
  then have "sarg1 x < 256" using assms(2) by linarith
  then have "sint (word_of_int (sarg1 x + 1) :: u32) = sarg1 x + 1" using assms(1) by (intro sint_of_int) simp_all
  then show ?thesis using assms(1) by (simp add: sarg1_def)
qed

lemma fused_last_ok:
  assumes "peep fs x i = (fs', x', None)" "last_ok x" "straight (i_op i)"
  shows "last_ok x' \<and> (i_op x' = OPC_CMP \<longrightarrow> \<not> fs_optimization fs')"
proof -
  have i: "fused_with (i_op i)" using assms(1,3) peep_other [of i fs x] unfolding fused_with_def by fastforce
  from assms(1) i show ?thesis
  proof (cases rule: fuses_cases)
    case 1
    from 1(2) show ?thesis
    proof (cases rule: peep_move_cases)
      case 1
      then show ?thesis using last_retarget [OF assms(2)] by simp
    next
      case 2
      have "straight (i_op x)" using assms(2) by (simp add: last_ok_def)
      then have False using 2(2) straight_not by blast
      then show ?thesis ..
    next
      case 3
      then show ?thesis by (simp add: last_ok_def straight_def)
    qed
  next
    case 2
    then have "i_op x' = OPC_DLOAD" by (simp add: peep_load_def split: if_split_asm) auto
    then show ?thesis by (simp add: last_ok_def straight_def)
  next
    case 3
    then have "x' = x\<lparr>i_arg1 := i_arg1 x + 1\<rparr>" "i_op x = OPC_LOADNULLS" "uint (i_arg0 x) + sarg1 x = uint (i_arg0 i)"
      by (simp_all add: peep_loadnulls_def split: if_split_asm)
    then show ?thesis using assms(2) next_null [of x i] by (simp add: last_ok_def straight_def sarg1_def)
  next
    case 4
    then have "i_op x' = i_op i" using eq_op by blast
    then show ?thesis using 4 by (auto simp: last_ok_def straight_def)
  qed
qed

lemma fused_operands:
  assumes "last_ok x" "added_ok fs i" "fused_with (i_op i)"
  shows "operands_ok fs x i"
  unfolding operands_ok_def
proof (intro conjI impI)
  assume "i_op x = OPC_CMP \<and> i_op i = OPC_JZ"
  then have False using assms(3) by (simp add: fused_with_def)
  then show "i_arg0 i = i_arg0 x" "\<not> IsLocal fs (reg (i_arg0 x))" "0 \<le> sarg1 x" "i_arg3 x < 8" "i_arg3 x \<noteq> CMP_3W" "i_arg2 i = 0 \<or> i_arg2 i = 1" by auto
next
  assume "i_op i = OPC_MOVE \<or> i_op i = OPC_LOAD"
  then show "0 \<le> sarg1 i" using assms(2) by (simp add: added_ok_def)
next
  assume "i_op i = OPC_LOADNULLS"
  then show "i_arg1 i = 1" using assms(2) by (simp add: added_ok_def)
next
  assume "i_op x = OPC_LOADNULLS"
  then show "1 \<le> sarg1 x" using assms(1) by (simp add: last_ok_def)
next
  assume "(i_op i = OPC_EQ \<or> i_op i = OPC_NE) \<and> fills fs x i"
  then show "i_arg3 i = 0" "i_arg2 i \<noteq> i_arg0 x" using assms(2) by (auto simp: added_ok_def)
qed

lemma skipped_dropped: "fused_with (i_op i) \<Longrightarrow> skipped fs x i r \<Longrightarrow> dropped fs i r"
  by (auto simp: fused_with_def skipped_def dropped_def)

lemma fused_straight:
  assumes "last_ok x" "added_ok fs i" "peep fs x i = (fs', x', rest)" "lits = fs_literals fs' @ extra" "length lits < 2 ^ 32"
    and i: "straight (i_op i)" "i_op i \<notin> {OPC_DLOAD, OPC_DMOVE}"
  shows "fs_code fs' = fs_code fs \<and> same_but (dropped fs i) (seq_run ops lits [x, i] R w) (seq_run ops lits (x' # rest_code rest) R w) \<and>
    (rest = None \<or> (fs' = fs \<and> x' = x \<and> rest = Some i))"
proof (cases "fused_with (i_op i)")
  case False
  then have "peep fs x i = (fs, x, Some i)" using i(1) by (intro peep_other) (simp_all add: fused_with_def)
  then have "fs' = fs" "x' = x" "rest = Some i" using assms(3) by simp_all
  then show ?thesis by (simp del: seq_run.simps)
next
  case True
  have x: "i_op x \<notin> {OPC_GET, OPC_GETK, OPC_TYPEOF, OPC_CLONE, OPC_GETOUTER, OPC_LOADCALLEE}"
    using assms(1) straight_not unfolding last_ok_def by blast
  have "i_op i \<in> {OPC_JZ, OPC_MOVE, OPC_LOAD, OPC_LOADNULLS, OPC_EQ, OPC_NE}" using True by (simp add: fused_with_def)
  note q = peep_keeps [OF assms(3) fused_operands [OF assms(1,2) True] this x assms(4,5)]
  have k: "fs_code fs' = fs_code fs" by (rule conjunct1 [OF q])
  have "same_but (skipped fs x i) (seq_run ops lits [x, i] R w) (seq_run ops lits (x' # rest_code rest) R w)"
    by (rule conjunct2 [OF q, unfolded stepwise_def])
  then  have "same_but (dropped fs i) (seq_run ops lits [x, i] R w) (seq_run ops lits (x' # rest_code rest) R w)"
    by (rule same_but_mono) (rule skipped_dropped [OF True])
  then show ?thesis using k peep_rest [OF assms(3) True] by blast
qed

definition pending :: "func_state \<Rightarrow> bool" where
  "pending fs \<longleftrightarrow> fusing fs \<and> fs_code fs \<noteq> [] \<and> i_op (last (fs_code fs)) = OPC_CMP"

text \<open>An instruction is added: the code does what it did, and the instruction.\<close>

lemma add_straight:
  assumes j: "joined ops lits pre tail fs" and a: "added_ok fs i"
    and i: "straight (i_op i)" "i_op i \<notin> {OPC_DLOAD, OPC_DMOVE}"
    and lits: "lits = fs_literals (AddInstruction i fs) @ extra" "length lits < 2 ^ 32"
  shows "\<exists>tail'. joined ops lits pre tail' (AddInstruction i fs) \<and>
    (\<forall>R w. same_but (dropped fs i) (seg_bind (seg_run ops lits tail 0 R w) (seq_run ops lits [i])) (seg_run ops lits tail' 0 R w)) \<and>
    (pending (AddInstruction i fs) \<longrightarrow> last (fs_code (AddInstruction i fs)) = i)"
proof -
  have li: "last_ok i" using a by (simp add: added_ok_def)
  have alone: ?thesis if "AddInstruction i fs = append_instr i fs"
    using append_joined [OF j li] unfolding that by (intro exI [of _ "tail @ [i]"]) (simp add: append_instr_def del: seq_run.simps)
  show ?thesis
  proof (cases "\<not> fusing fs \<or> fs_code fs = [] \<or> peep fs (last (fs_code fs)) i = (fs, last (fs_code fs), Some i)")
    case True
    then show ?thesis by (intro alone add_alone)
  next
    case False
    then have f: "fusing fs" "fs_code fs \<noteq> []" by auto
    have tail: "tail \<noteq> []"
    proof
      assume "tail = []"
      then have "fs_code fs = pre" "barrier (last pre)" using j f unfolding joined_def by auto
      then show False using False peep_barrier [of "last pre" i fs] i(1) by simp
    qed
    define p where "p = butlast tail"
    define x where "x = last tail"
    have t: "tail = p @ [x]" using tail by (simp add: p_def x_def)
    have s: "steady ops lits p" "last_ok x" "fs_code fs = pre @ p @ [x]"
      using j f(1) tail t unfolding joined_def p_def [symmetric] x_def [symmetric] by simp_all
    obtain fs' x' rest where q: "peep fs x i = (fs', x', rest)" by (cases "peep fs x i")
    have add: "AddInstruction i fs =
        (let fs = fs'\<lparr>fs_code := butlast (fs_code fs') @ [x']\<rparr> in case rest of None \<Rightarrow> fs | Some i \<Rightarrow> append_instr i fs)"
      using f s(3) q by (simp add: AddInstruction_def fusing_def)
    have "fs_literals (AddInstruction i fs) = fs_literals fs'" by (simp add: add append_instr_def Let_def split: option.split)
    then have lit: "lits = fs_literals fs' @ extra" using lits(1) by simp
    note k = fused_straight [OF s(2) a q lit lits(2) i]
    have r: "rest = None" using k [of ops] False s(3) q by auto
    have x': "last_ok x'" "i_op x' = OPC_CMP \<longrightarrow> \<not> fs_optimization fs'"
      using fused_last_ok [OF _ s(2) i(1)] q r by auto
    have code: "fs_code (AddInstruction i fs) = pre @ p @ [x']" and opt: "fs_optimization (AddInstruction i fs) = fs_optimization fs'"
      using add r k [of ops] s(3) by (simp_all add: butlast_append)
    have sx: "straight (i_op x')" "straight (i_op x)" using x'(1) s(2) by (simp_all add: last_ok_def)
    have "steady ops lits (p @ [x'])" by (rule steady_append [OF s(1) steady_straight]) (simp add: sx)
    then have "joined ops lits pre (p @ [x']) (AddInstruction i fs)" using code s(1) x'(1) by (simp add: joined_def)
    moreover have "same_but (dropped fs i) (seg_bind (seg_run ops lits tail 0 R w) (seq_run ops lits [i])) (seg_run ops lits (p @ [x']) 0 R w)" for R w
    proof -
      have "seg_bind (seg_run ops lits tail 0 R w) (seq_run ops lits [i]) =
          seg_bind (seg_run ops lits p 0 R w) (\<lambda>R w. seg_bind (seq_run ops lits [x] R w) (seq_run ops lits [i]))"
        unfolding t steady_run [OF s(1)] seg_bind_assoc by (simp only: straight_fun [OF sx(2)])
      also have "\<dots> = seg_bind (seg_run ops lits p 0 R w) (seq_run ops lits [x, i])"
        by (simp only: seq_run_Cons [OF straight_one(2) [OF sx(2)], symmetric])
      finally show ?thesis
        unfolding steady_run [OF s(1)] straight_fun [OF sx(1)] using k [of ops] r by (simp only: option.case) (intro same_but_bind, simp del: seq_run.simps)
    qed
    moreover have "\<not> pending (AddInstruction i fs)" using code opt x'(2) by (auto simp: pending_def fusing_def)
    ultimately show ?thesis by blast
  qed
qed

end
