(* ===== verification/CodeValue.thy ===== *)
theory CodeValue
  imports CodeRun "HOL-Library.Sublist"
begin

text \<open>
  What it means that a visitor leaves the value of an expression in the target it pushes, and how
  such visitors compose.
\<close>

subsection \<open>Runs up to temporaries\<close>

abbreviation andthen :: "(regs \<Rightarrow> 'w \<Rightarrow> 'w seq_end) \<Rightarrow> (regs \<Rightarrow> 'w \<Rightarrow> 'w seq_end) \<Rightarrow> regs \<Rightarrow> 'w \<Rightarrow> 'w seq_end" where
  "andthen f k \<equiv> \<lambda>R w. seg_bind (f R w) k"

definition simul :: "(nat \<Rightarrow> bool) \<Rightarrow> (regs \<Rightarrow> 'w \<Rightarrow> 'w seq_end) \<Rightarrow> (regs \<Rightarrow> 'w \<Rightarrow> 'w seq_end) \<Rightarrow> bool" where
  "simul T f g \<longleftrightarrow> (\<forall>R w. same_but T (f R w) (g R w))"

text \<open>What runs next does not depend on the registers of \<open>T\<close>, apart from those of \<open>T'\<close> at its end.\<close>

definition keeps :: "(nat \<Rightarrow> bool) \<Rightarrow> (nat \<Rightarrow> bool) \<Rightarrow> (regs \<Rightarrow> 'w \<Rightarrow> 'w seq_end) \<Rightarrow> bool" where
  "keeps T T' k \<longleftrightarrow> (\<forall>R S w. (\<forall>r. \<not> T r \<longrightarrow> R r = S r) \<longrightarrow> same_but T' (k R w) (k S w))"

definition closes :: "(regs \<Rightarrow> 'w \<Rightarrow> 'w seq_end) \<Rightarrow> bool" where
  "closes f \<longleftrightarrow> (\<forall>R w. closed (f R w))"

lemma closes_bind: "closes f \<Longrightarrow> closes g \<Longrightarrow> closes (andthen f g)"
  by (simp add: closes_def closed_bind)

lemma steady_closes: "steady ops lits c \<longleftrightarrow> closes (seg_run ops lits c 0)"
  by (simp add: steady_def closes_def)

lemma simul_refl [simp]: "simul T f f"
  by (simp add: simul_def)

lemma same_but_trans: "same_but T x y \<Longrightarrow> same_but T y z \<Longrightarrow> same_but T x z"
  by (cases x; cases y; cases z) auto

lemma simul_mono: "simul T f g \<Longrightarrow> (\<And>r. T r \<Longrightarrow> T' r) \<Longrightarrow> simul T' f g"
  unfolding simul_def using same_but_mono by blast

lemma simul_trans: "simul T f g \<Longrightarrow> simul T g h \<Longrightarrow> simul T f h"
  unfolding simul_def using same_but_trans by blast

lemma simul_bind:
  assumes "simul T f g" "closes f" "keeps T T' k"
  shows "simul T' (andthen f k) (andthen g k)"
  unfolding simul_def
proof (intro allI)
  fix R w
  have s: "same_but T (f R w) (g R w)" and c: "closed (f R w)" using assms(1,2) by (simp_all add: simul_def closes_def)
  show "same_but T' (seg_bind (f R w) k) (seg_bind (g R w) k)"
    using s c assms(3) by (cases "f R w"; cases "g R w") (auto simp: keeps_def)
qed

lemma keeps_same_but: "keeps T T' k \<Longrightarrow> same_but T x y \<Longrightarrow> closed x \<Longrightarrow> same_but T' (seg_bind x k) (seg_bind y k)"
  by (cases x; cases y) (auto simp: keeps_def)

lemma keeps_bind: "keeps T T' f \<Longrightarrow> keeps T' T'' k \<Longrightarrow> closes f \<Longrightarrow> keeps T T'' (andthen f k)"
  unfolding keeps_def [of T T''] using keeps_same_but [of T' T'' k] by (auto simp: keeps_def [of T T'] closes_def)

subsection \<open>Computing a value\<close>

type_synonym 'w value_of = "regs \<Rightarrow> 'w \<Rightarrow> (vm_error + sq_obj) \<times> 'w"

definition does :: "nat \<Rightarrow> 'w value_of \<Rightarrow> regs \<Rightarrow> 'w \<Rightarrow> 'w seq_end" where
  "does t F R w = (case F R w of (Inl x, w) \<Rightarrow> Ends (Raised x w) | (Inr v, w) \<Rightarrow> Falls (R(t := v)) w)"

definition reads :: "nat \<Rightarrow> 'w value_of \<Rightarrow> bool" where
  "reads n F \<longleftrightarrow> (\<forall>R S w. (\<forall>r < n. R r = S r) \<longrightarrow> F R w = F S w)"

definition temps :: "nat \<Rightarrow> nat \<Rightarrow> nat \<Rightarrow> bool" where
  "temps n t r \<longleftrightarrow> n \<le> r \<and> r \<noteq> t"

lemma closes_does [simp]: "closes (does t F)"
  by (simp add: closes_def does_def split: prod.split sum.split)

lemma same_does:
  assumes "F R w = F S w" "\<And>r. \<not> T r \<Longrightarrow> r \<noteq> t \<Longrightarrow> R r = S r"
  shows "same_but T (does t F R w) (does t F S w)"
  using assms by (simp add: does_def split: prod.split sum.split)

lemma keeps_does: "(\<And>R S w. (\<And>r. \<not> T r \<Longrightarrow> R r = S r) \<Longrightarrow> F R w = F S w) \<Longrightarrow> (\<And>r. T r \<Longrightarrow> r \<noteq> t \<Longrightarrow> T' r) \<Longrightarrow> keeps T T' (does t F)"
  unfolding keeps_def by (intro allI impI same_does) blast+

lemma does_reads:
  assumes "reads m F" "\<And>r. T r \<Longrightarrow> m \<le> r" "\<And>r. T r \<Longrightarrow> r \<noteq> t \<Longrightarrow> T' r"
  shows "keeps T T' (does t F)"
proof (rule keeps_does)
  fix R S :: regs and w
  assume "\<And>r. \<not> T r \<Longrightarrow> R r = S r"
  then have "\<forall>r < m. R r = S r" using assms(2) by (meson not_le)
  then show "F R w = F S w" using assms(1) by (simp add: reads_def)
qed (rule assms(3))

text \<open>A visitor starts with \<open>vs\<close> and temporaries above them; the target is a variable or a new temporary.\<close>

definition frame :: "local_var list \<Rightarrow> func_state \<Rightarrow> bool" where
  "frame vs fs \<longleftrightarrow> fs_outervalues fs = [] \<and> length vs \<le> 255 \<and> (\<exists>k. fs_vlocals fs = vs @ replicate k temporary)"

definition height :: "func_state \<Rightarrow> nat" where
  "height fs = length (fs_vlocals fs)"

definition grows :: "func_state \<Rightarrow> func_state \<Rightarrow> bool" where
  "grows fs fs' \<longleftrightarrow> prefix (fs_literals fs) (fs_literals fs') \<and> length (fs_code fs) \<le> length (fs_code fs') \<and>
     fs_outervalues fs' = fs_outervalues fs"

definition took :: "local_var list \<Rightarrow> func_state \<Rightarrow> func_state \<Rightarrow> nat \<Rightarrow> bool" where
  "took vs fs fs' t \<longleftrightarrow> fs_targetstack fs' = t # fs_targetstack fs \<and>
     (t < length vs \<and> lv_name (vs ! t) \<noteq> None \<and> fs_vlocals fs' = fs_vlocals fs \<or>
      t = height fs \<and> t < 255 \<and> fs_vlocals fs' = fs_vlocals fs @ [temporary])"

lemma grows_refl [simp]: "grows fs fs"
  by (simp add: grows_def)

lemma grows_trans [trans]: "grows a b \<Longrightarrow> grows b c \<Longrightarrow> grows a c"
  unfolding grows_def using prefix_order.trans by auto

lemma frame_height: "frame vs fs \<Longrightarrow> length vs \<le> height fs"
  by (auto simp: frame_def height_def)

lemma temporary_name [simp]: "lv_name temporary = None"
  by (simp add: temporary_def)

lemma took_frame:
  assumes "frame vs fs" "took vs fs fs' t" "grows fs fs'"
  shows "frame vs fs'" "t < height fs'" "t < 256" "height fs \<le> height fs'"
proof -
  obtain k where k: "fs_vlocals fs = vs @ replicate k temporary" and f: "fs_outervalues fs = []" "length vs \<le> 255"
    using assms(1) by (auto simp: frame_def)
  have r: "replicate k temporary @ [temporary] = replicate (Suc k) temporary" by (simp add: replicate_append_same)
  have "\<exists>k. fs_vlocals fs' = vs @ replicate k temporary"
    using assms(2) k r unfolding took_def by (metis append.assoc)
  then show "frame vs fs'" using f assms(3) by (simp add: frame_def grows_def)
  show "t < height fs'" "t < 256" "height fs \<le> height fs'"
    using assms(2) f frame_height [OF assms(1)] by (auto simp: took_def height_def)
qed

lemma frame_local:
  assumes "frame vs fs"
  shows "IsLocal fs r \<longleftrightarrow> r < length vs \<and> lv_name (vs ! r) \<noteq> None"
  using assms by (auto simp: frame_def IsLocal_def nth_append split: if_splits)

lemma pop_took:
  assumes "frame vs fs" "took vs fs fs' t"
  shows "PopTarget fs' = (t, fs'\<lparr>fs_vlocals := fs_vlocals fs, fs_targetstack := fs_targetstack fs\<rparr>)"
proof -
  obtain k where k: "fs_vlocals fs = vs @ replicate k temporary" using assms(1) by (auto simp: frame_def)
  have "butlast (fs_vlocals fs @ [temporary]) = fs_vlocals fs" by simp
  then show ?thesis using assms(2) k by (auto simp: took_def PopTarget_def Let_def nth_append height_def simp del: butlast_append)
qed

lemma local_above:
  assumes "\<And>u. u \<in> set us \<Longrightarrow> lv_name u = None" "n \<le> length us"
  shows "local_from x (vs @ us) (length vs + n) = local_from x vs (length vs)"
  using assms(2)
proof (induction n)
  case 0
  have "local_from x (vs @ us) n = local_from x vs n" if "n \<le> length vs" for n
    using that by (induction n) (auto simp: nth_append)
  then show ?case by simp
next
  case (Suc n)
  then have "lv_name (us ! n) = None" using assms(1) by simp
  then show ?case using Suc by simp
qed

lemma frame_variable: "frame vs fs \<Longrightarrow> GetLocalVariable x fs = local_from x vs (length vs)"
  using local_above [of "replicate k temporary" k x vs for k]
  by (auto simp: frame_def GetLocalVariable_def)

lemma local_from_name: "local_from x vs n = Some i \<Longrightarrow> i < n \<and> lv_name (vs ! i) = Some x"
  by (induction n) (auto split: if_splits)

subsection \<open>Adding instructions\<close>

text \<open>The same code, which may not be changed any more.\<close>

definition same_code :: "func_state \<Rightarrow> func_state \<Rightarrow> bool" where
  "same_code fs fs' \<longleftrightarrow> fs_code fs' = fs_code fs \<and> prefix (fs_literals fs) (fs_literals fs') \<and> (fs_optimization fs' \<longrightarrow> fs_optimization fs) \<and>
     fs_no_optimizer fs' = fs_no_optimizer fs \<and> fs_outervalues fs' = fs_outervalues fs"

lemma same_code_joined: "same_code fs fs' \<Longrightarrow> joined ops lits pre tail fs \<Longrightarrow> joined ops lits pre tail fs'"
  by (simp add: same_code_def joined_def fusing_def)

lemma same_code_pending: "same_code fs fs' \<Longrightarrow> pending fs' \<Longrightarrow> pending fs"
  by (simp add: same_code_def pending_def fusing_def)

lemma same_code_grows: "same_code fs fs' \<Longrightarrow> grows fs fs'"
  by (simp add: same_code_def grows_def)

definition plain_add :: "sq_opcode \<Rightarrow> bool" where
  "plain_add p \<longleftrightarrow> straight p \<or> p \<in> {OPC_JZ, OPC_JMP, OPC_AND, OPC_OR, OPC_NULLCOALESCE}"

definition kept_frame :: "func_state \<Rightarrow> func_state \<Rightarrow> bool" where
  "kept_frame fs fs' \<longleftrightarrow> fs_vlocals fs' = fs_vlocals fs \<and> fs_targetstack fs' = fs_targetstack fs \<and> fs_outervalues fs' = fs_outervalues fs \<and>
     fs_no_optimizer fs' = fs_no_optimizer fs \<and> prefix (fs_literals fs) (fs_literals fs')"

lemma kept_refl [simp]: "kept_frame fs fs"
  by (simp add: kept_frame_def)

lemma kept_literal: "GetLiteral c fs = (k, fs') \<Longrightarrow> kept_frame fs fs' \<and> fs_code fs' = fs_code fs"
  by (auto simp: GetLiteral_def kept_frame_def split: option.splits)

lemma with_literal_kept: "with_literal c fs x = (fs', x') \<Longrightarrow> kept_frame fs fs' \<and> fs_code fs' = fs_code fs"
  using kept_literal [of c fs] by (auto simp: with_literal_def split: prod.splits)

lemma peep_kept:
  assumes "peep fs x i = (fs', x', rest)" "plain_add (i_op i)"
  shows "kept_frame fs fs' \<and> fs_code fs' = fs_code fs"
proof (cases "fused_with (i_op i)")
  case True
  with assms(1) show ?thesis
  proof (cases rule: fuses_cases)
    case 1
    then show ?thesis by (simp add: peep_move_def Let_def split: if_split_asm) (auto simp: kept_frame_def)
  next
    case 2
    then show ?thesis by (simp add: peep_load_def split: if_split_asm)
  next
    case 3
    then show ?thesis by (simp add: peep_loadnulls_def split: if_split_asm)
  next
    case 4
    then show ?thesis using with_literal_kept
      by (cases "i_op x") (auto simp: peep_eq_def Let_def split: if_split_asm prod.split_asm)
  qed
next
  case False
  show ?thesis
  proof (cases "i_op i = OPC_JZ")
    case True
    then show ?thesis using assms(1) by (simp add: peep_def peep_jz_def split: if_split_asm)
  next
    case no: False
    then have "peep fs x i = (fs, x, Some i)"
      using assms(2) False peep_other [of i fs x] peep_jump [of i fs x] by (auto simp: plain_add_def fused_with_def)
    then show ?thesis using assms(1) by simp
  qed
qed

lemma add_kept:
  assumes "plain_add (i_op i)"
  shows "kept_frame fs (AddInstruction i fs) \<and> length (fs_code fs) \<le> length (fs_code (AddInstruction i fs))"
proof (cases "fs_code fs \<noteq> [] \<and> fs_optimization fs \<and> \<not> fs_no_optimizer fs")
  case True
  obtain fs' x rest where q: "peep fs (last (fs_code fs)) i = (fs', x, rest)" by (cases "peep fs (last (fs_code fs)) i")
  have "AddInstruction i fs =
      (let fs = fs'\<lparr>fs_code := butlast (fs_code fs') @ [x]\<rparr> in case rest of None \<Rightarrow> fs | Some i \<Rightarrow> append_instr i fs)"
    using True q by (simp add: AddInstruction_def)
  moreover have "kept_frame fs fs'" "fs_code fs' = fs_code fs" using peep_kept [OF q assms] by auto
  moreover have "length (fs_code fs) = Suc (length (butlast (fs_code fs)))" using True by (cases "fs_code fs" rule: rev_cases) auto
  ultimately show ?thesis by (cases rest) (simp_all add: kept_frame_def append_instr_def)
next
  case False
  then have "AddInstruction i fs = append_instr i fs" by (auto simp: AddInstruction_def)
  then show ?thesis by (simp add: append_instr_def kept_frame_def)
qed

lemma add_grows: "plain_add (i_op i) \<Longrightarrow> grows fs (AddInstruction i fs)"
  using add_kept [of i fs] by (simp add: grows_def kept_frame_def)

subsection \<open>What the code added from one state to another does\<close>

definition runs :: "'w vm_ops \<Rightarrow> sq_obj list \<Rightarrow> (nat \<Rightarrow> bool) \<Rightarrow> (regs \<Rightarrow> 'w \<Rightarrow> 'w seq_end) \<Rightarrow> func_state \<Rightarrow> func_state \<Rightarrow> bool" where
  "runs ops lits T k fs fs' \<longleftrightarrow>
     (\<forall>pre tail. joined ops lits pre tail fs \<longrightarrow>
        (\<exists>tail'. joined ops lits pre tail' fs' \<and> simul T (andthen (seg_run ops lits tail 0) k) (seg_run ops lits tail' 0)))"

definition complete :: "sq_obj list \<Rightarrow> func_state \<Rightarrow> bool" where
  "complete lits fs \<longleftrightarrow> prefix (fs_literals fs) lits \<and> length lits < 2 ^ 31 \<and> length (fs_code fs) < 2 ^ 31"

lemma complete_before: "complete lits fs' \<Longrightarrow> grows fs fs' \<Longrightarrow> complete lits fs"
  unfolding complete_def grows_def using prefix_order.trans by auto

lemma joined_steady: "joined ops lits pre tail fs \<Longrightarrow> closes (seg_run ops lits tail 0)"
  by (simp add: joined_def steady_closes)

lemma runs_trans:
  assumes "runs ops lits T k fs fs1" "runs ops lits T' k' fs1 fs2" "keeps T T'' k'" "closes k" "\<And>r. T' r \<Longrightarrow> T'' r"
  shows "runs ops lits T'' (andthen k k') fs fs2"
  unfolding runs_def
proof (intro allI impI)
  fix pre tail
  assume j: "joined ops lits pre tail fs"
  obtain tail1 where t1: "joined ops lits pre tail1 fs1" "simul T (andthen (seg_run ops lits tail 0) k) (seg_run ops lits tail1 0)"
    using assms(1) j unfolding runs_def by blast
  obtain tail2 where t2: "joined ops lits pre tail2 fs2" "simul T' (andthen (seg_run ops lits tail1 0) k') (seg_run ops lits tail2 0)"
    using assms(2) t1(1) unfolding runs_def by blast
  have "simul T'' (andthen (andthen (seg_run ops lits tail 0) k) k') (andthen (seg_run ops lits tail1 0) k')"
    by (rule simul_bind [OF t1(2) closes_bind [OF joined_steady [OF j] assms(4)] assms(3)])
  then have "simul T'' (andthen (andthen (seg_run ops lits tail 0) k) k') (seg_run ops lits tail2 0)"
    by (rule simul_trans) (rule simul_mono [OF t2(2) assms(5)])
  then show "\<exists>tail'. joined ops lits pre tail' fs2 \<and>
      simul T'' (andthen (seg_run ops lits tail 0) (andthen k k')) (seg_run ops lits tail' 0)"
    using t2(1) by (auto simp: seg_bind_assoc)
qed

lemma runs_as:
  assumes "runs ops lits T k fs fs'" "simul T k' k"
  shows "runs ops lits T k' fs fs'"
  unfolding runs_def
proof (intro allI impI)
  fix pre tail
  assume "joined ops lits pre tail fs"
  then obtain tail' where t: "joined ops lits pre tail' fs'" "simul T (andthen (seg_run ops lits tail 0) k) (seg_run ops lits tail' 0)"
    using assms(1) unfolding runs_def by blast
  have "simul T (andthen (seg_run ops lits tail 0) k') (andthen (seg_run ops lits tail 0) k)"
    using assms(2) unfolding simul_def by (simp add: same_but_bind)
  then show "\<exists>tail'. joined ops lits pre tail' fs' \<and> simul T (andthen (seg_run ops lits tail 0) k') (seg_run ops lits tail' 0)"
    using t simul_trans by blast
qed

lemma runs_mono: "runs ops lits T k fs fs' \<Longrightarrow> (\<And>r. T r \<Longrightarrow> T' r) \<Longrightarrow> runs ops lits T' k fs fs'"
  unfolding runs_def using simul_mono by blast

lemma runs_same: "same_code fs fs' \<Longrightarrow> runs ops lits T Falls fs fs'"
  unfolding runs_def using same_code_joined by fastforce

lemma runs_from: "same_code fs fs1 \<Longrightarrow> runs ops lits T k fs1 fs' \<Longrightarrow> runs ops lits T k fs fs'"
  unfolding runs_def using same_code_joined by blast

lemma runs_to: "same_code fs1 fs' \<Longrightarrow> runs ops lits T k fs fs1 \<Longrightarrow> runs ops lits T k fs fs'"
  unfolding runs_def using same_code_joined by blast

lemma runs_add:
  assumes "added_ok fs i" "straight (i_op i)" "i_op i \<notin> {OPC_DLOAD, OPC_DMOVE}" "complete lits (AddInstruction i fs)"
  shows "runs ops lits (dropped fs i) (seq_run ops lits [i]) fs (AddInstruction i fs)"
proof -
  obtain extra where e: "lits = fs_literals (AddInstruction i fs) @ extra" "length lits < 2 ^ 32"
    using assms(4) by (auto simp: complete_def prefix_def)
  show ?thesis
    unfolding runs_def simul_def using add_straight [OF _ assms(1-3) e] by blast
qed

lemma fused_pending:
  assumes "peep fs x i = (fs', x', None)" "fused_with (i_op i)" "i_op x' = OPC_CMP"
  shows "\<not> fs_optimization fs'"
  using assms(1,2)
proof (cases rule: fuses_cases)
  case 1
  from 1(2) show ?thesis by (cases rule: peep_move_cases) (use assms(3) in auto)
next
  case 2
  then show ?thesis using assms(3) by (simp add: peep_load_def split: if_split_asm) auto
next
  case 3
  then show ?thesis using assms(3) by (simp add: peep_loadnulls_def split: if_split_asm) auto
next
  case 4
  then show ?thesis using assms(3) eq_op by fastforce
qed

text \<open>A comparison that may still be fused is the one that was added.\<close>

lemma add_pending:
  assumes "straight (i_op i)" "pending (AddInstruction i fs)"
  shows "last (fs_code (AddInstruction i fs)) = i"
proof (cases "\<not> fusing fs \<or> fs_code fs = [] \<or> peep fs (last (fs_code fs)) i = (fs, last (fs_code fs), Some i)")
  case True
  show ?thesis using add_alone [OF True] by (simp add: append_instr_def)
next
  case False
  obtain fs' x rest where q: "peep fs (last (fs_code fs)) i = (fs', x, rest)" by (cases "peep fs (last (fs_code fs)) i")
  have f: "fused_with (i_op i)" using False peep_other [OF assms(1), of fs "last (fs_code fs)"] by (auto simp: fused_with_def)
  have r: "rest = None" using peep_rest [OF q f] False q by auto
  have "AddInstruction i fs = fs'\<lparr>fs_code := butlast (fs_code fs') @ [x]\<rparr>"
    using False q r by (simp add: AddInstruction_def fusing_def)
  then have "i_op x = OPC_CMP" "fs_optimization fs'" using assms(2) by (simp_all add: pending_def fusing_def)
  then show ?thesis using fused_pending [of fs "last (fs_code fs)" i fs' x] q r f by simp
qed

end
