(* ===== verification/CodeOps.thy ===== *)
theory CodeOps
  imports CodeValue
begin

text \<open>
  The visitors of operators: when those of the operands leave their values, the visitor of the
  operator leaves what the operator makes of them.
\<close>

subsection \<open>Visitors of values\<close>

text \<open>A comparison that a conditional jump on the value may be fused with.\<close>

definition tested :: "local_var list \<Rightarrow> func_state \<Rightarrow> nat \<Rightarrow> bool" where
  "tested vs fs t \<longleftrightarrow>
     (let x = last (fs_code fs) in
      length vs \<le> t \<and> i_arg0 x = word_of_nat t \<and> 0 \<le> sarg1 x \<and> i_arg3 x < 8 \<and> i_arg3 x \<noteq> CMP_3W)"

text \<open>
  From \<open>fs\<close> to \<open>fs'\<close> the value \<open>F\<close> has been computed into the target \<open>t\<close>; \<open>q\<close> if a comparison may be
  pending, which is that of the value if \<open>j\<close>.
\<close>

definition yields :: "'w vm_ops \<Rightarrow> local_var list \<Rightarrow> 'w value_of \<Rightarrow> bool \<Rightarrow> bool \<Rightarrow> func_state \<Rightarrow> func_state \<Rightarrow> nat \<Rightarrow> bool" where
  "yields ops vs F q j fs fs' t \<longleftrightarrow>
     grows fs fs' \<and> took vs fs fs' t \<and> (t < length vs \<longrightarrow> (\<forall>R w. F R w = (Inr (R t), w))) \<and>
     (pending fs' \<longrightarrow> q \<and> (j \<longrightarrow> tested vs fs' t)) \<and>
     (\<forall>lits. complete lits fs' \<longrightarrow> runs ops lits (temps (height fs) t) (does t F) fs fs')"

definition value_code ::
  "'w vm_ops \<Rightarrow> local_var list \<Rightarrow> 'w value_of \<Rightarrow> bool \<Rightarrow> bool \<Rightarrow> bool \<Rightarrow> ('w, unit) cg \<Rightarrow> bool" where
  "value_code ops vs F q q' j m \<longleftrightarrow>
     (\<forall>s fs s'. cg_fns s = [fs] \<longrightarrow> frame vs fs \<longrightarrow> (pending fs \<longrightarrow> q) \<longrightarrow> m s = Inr ((), s') \<longrightarrow>
        (\<exists>fs' t. cg_fns s' = [fs'] \<and> yields ops vs F q' j fs fs' t))"

lemma value_codeI:
  assumes "\<And>s fs s'. cg_fns s = [fs] \<Longrightarrow> frame vs fs \<Longrightarrow> (pending fs \<Longrightarrow> q) \<Longrightarrow> m s = Inr ((), s') \<Longrightarrow>
    \<exists>fs' t. cg_fns s' = [fs'] \<and> yields ops vs F q' j fs fs' t"
  shows "value_code ops vs F q q' j m"
  using assms unfolding value_code_def by blast

lemma value_codeE:
  assumes "value_code ops vs F q q' j m" "m s = Inr (u, s')" "cg_fns s = [fs]" "frame vs fs" "pending fs \<Longrightarrow> q"
  obtains fs' t where "cg_fns s' = [fs']" "yields ops vs F q' j fs fs' t"
proof -
  have "\<exists>fs' t. cg_fns s' = [fs'] \<and> yields ops vs F q' j fs fs' t" using assms(1-5) unfolding value_code_def by simp
  then show ?thesis using that by blast
qed

subsection \<open>The steps of the code generator\<close>

lemma bind_Inr: "bind m k s = Inr r \<longleftrightarrow> (\<exists>x s1. m s = Inr (x, s1) \<and> k x s1 = Inr r)"
  by (auto simp: bind_def split: sum.splits prod.splits)

lemma then_do_Inr: "then_do m k s = Inr r \<longleftrightarrow> (\<exists>s1. m s = Inr ((), s1) \<and> k s1 = Inr r)"
  by (simp add: then_do_def bind_Inr)

definition with_fn :: "'c cg_state \<Rightarrow> func_state \<Rightarrow> 'c cg_state" where
  "with_fn s fs = s\<lparr>cg_fns := [fs]\<rparr>"

lemma with_fn_fns [simp]: "cg_fns (with_fn s fs) = [fs]"
  by (simp add: with_fn_def)

lemma with_fn_twice [simp]: "with_fn (with_fn s fs) fs' = with_fn s fs'"
  by (simp add: with_fn_def)

lemma update_one: "cg_fns s = [fs] \<Longrightarrow> update_fs f s = Inr ((), with_fn s (f fs))"
  by (simp add: update_fs_def with_fs_def fs_of_def with_fn_def)

lemma add_one: "cg_fns s = [fs] \<Longrightarrow> add_instr p a b c d s = Inr ((), with_fn s (AddInstruction (new_instr p a b c d) fs))"
  by (simp add: add_instr_def update_one)

lemma pop_one: "cg_fns s = [fs] \<Longrightarrow> PopTarget fs = (t, fs') \<Longrightarrow> pop_target s = Inr (t, with_fn s fs')"
  by (simp add: pop_target_def with_fs_def fs_of_def with_fn_def)

lemma pos_one: "cg_fns s = [fs] \<Longrightarrow> current_pos s = Inr (GetCurrentPos fs, s)"
  by (cases s) (simp add: current_pos_def with_fs_def fs_of_def)

lemma push_one:
  assumes "cg_fns s = [fs]" "push_target None s = Inr (t, s')"
  obtains fs' where "s' = with_fn s fs'" "same_code fs fs'" "t = height fs" "t < 255" "fs_vlocals fs' = fs_vlocals fs @ [temporary]"
    "fs_targetstack fs' = t # fs_targetstack fs"
  using assms
  by (auto simp: push_target_def fs_of_def PushTarget_def AllocStackPos_def Let_def MAX_FUNC_STACKSIZE_def height_def same_code_def with_fn_def
      split: if_splits sum.splits prod.splits)

lemma same_code_refl [simp]: "same_code fs fs"
  by (simp add: same_code_def)

lemma same_code_trans: "same_code a b \<Longrightarrow> same_code b c \<Longrightarrow> same_code a c"
  unfolding same_code_def using prefix_order.trans by auto

lemma frame_vlocals: "frame vs fs \<Longrightarrow> fs_outervalues fs' = [] \<Longrightarrow> fs_vlocals fs' = fs_vlocals fs \<Longrightarrow> frame vs fs'"
  by (simp add: frame_def)

subsection \<open>Instructions that compute a value\<close>

text \<open>The value an instruction leaves in its target register.\<close>

definition result_of :: "'w vm_ops \<Rightarrow> sq_obj list \<Rightarrow> sq_instr \<Rightarrow> 'w value_of" where
  "result_of ops lits i R w =
     (if i_op i = OPC_EQ \<or> i_op i = OPC_NE then (Inr (SQBool (IsEqual (R (reg (i_arg2 i))) (cond_literal lits i R) = (i_op i = OPC_EQ))), w)
      else if i_op i = OPC_LOADNULLS then (Inr SQNull, w)
      else if i_op i = OPC_MOVE then (Inr (R (reg1 i)), w)
      else the (target_val ops lits i R w))"

lemma result_run:
  assumes "straight (i_op i)" "i_op i \<notin> {OPC_DLOAD, OPC_DMOVE}" "i_op i = OPC_LOADNULLS \<Longrightarrow> i_arg1 i = 1"
  shows "seq_run ops lits [i] = does (reg (i_arg0 i)) (result_of ops lits i)"
proof (intro ext)
  fix R w
  consider "moved_op (i_op i)" "i_op i \<notin> {OPC_EQ, OPC_NE, OPC_LOADNULLS, OPC_MOVE}" | "i_op i = OPC_EQ \<or> i_op i = OPC_NE"
    | "i_op i = OPC_LOADNULLS" | "i_op i = OPC_MOVE"
    using assms(1) by (rule straight_cases) (use assms(2) in \<open>auto simp: moved_op_def retargetable_def\<close>)
  then show "seq_run ops lits [i] R w = does (reg (i_arg0 i)) (result_of ops lits i) R w"
  proof cases
    case 1
    obtain e u where "target_val ops lits i R w = Some (e, u)" using moved_target [OF 1(1), of ops lits R w] by auto
    then show ?thesis using 1 by (cases e) (simp_all add: target_step does_def result_of_def)
  next
    case 2
    then show ?thesis by (simp add: eq_step does_def result_of_def)
  next
    case 3
    have "set_nulls (reg (i_arg0 i)) (max 1 (nat (sarg1 i))) R = R(reg (i_arg0 i) := SQNull)"
      using assms(3) [OF 3] by (auto simp: set_nulls_def sarg1_def)
    then show ?thesis using 3 by (simp add: loadnulls_step does_def result_of_def)
  next
    case 4
    then show ?thesis by (simp add: vm_step_def exec_load_def exec_move_def Let_def does_def result_of_def)
  qed
qed

text \<open>
  An instruction is added that computes the value from the values of operands: \<open>k\<close> has computed them,
  their targets have been taken from the stack, and the target of the instruction is on it.
\<close>

definition reads_kept :: "'w vm_ops \<Rightarrow> sq_obj list \<Rightarrow> (nat \<Rightarrow> bool) \<Rightarrow> sq_instr \<Rightarrow> bool" where
  "reads_kept ops lits T i \<longleftrightarrow> (\<forall>R S w. (\<forall>r. \<not> T r \<longrightarrow> R r = S r) \<longrightarrow> result_of ops lits i R w = result_of ops lits i S w)"

lemma small_target: "t < 256 \<Longrightarrow> reg (word_of_nat t) = t"
  by (simp add: reg_def unat_of_nat)

lemma yields_add:
  assumes fr: "frame vs fs" and g: "grows fs fs2" and same: "same_code fs2 fs3"
    and top: "fs_vlocals fs3 = fs_vlocals fs @ [temporary]" "fs_targetstack fs3 = t # fs_targetstack fs" "t = height fs" "t < 255"
    and k: "\<And>lits. complete lits fs2 \<Longrightarrow> runs ops lits T k fs fs2" "closes k"
    and T: "\<And>r. T r \<Longrightarrow> height fs \<le> r"
    and i: "last_ok i" "i_op i \<notin> {OPC_DLOAD, OPC_DMOVE}" "i_arg0 i = word_of_nat t"
    and ok: "\<And>lits. complete lits (AddInstruction i fs3) \<Longrightarrow> added_ok fs3 i"
    and d: "\<And>r. dropped fs3 i r \<Longrightarrow> height fs \<le> r"
    and rd: "\<And>lits. complete lits (AddInstruction i fs3) \<Longrightarrow>
      reads_kept ops lits T i \<and> simul (temps (height fs) t) (does t F) (andthen k (does t (result_of ops lits i)))"
    and p: "i_op i = OPC_CMP \<Longrightarrow> q \<and> (j \<longrightarrow> i_arg3 i \<noteq> CMP_3W)"
  shows "yields ops vs F q j fs (AddInstruction i fs3) t"
proof -
  have st: "straight (i_op i)" using i(1) by (simp add: last_ok_def)
  have gi: "grows fs3 (AddInstruction i fs3)" and kp: "kept_frame fs3 (AddInstruction i fs3)"
    using st add_kept [of i fs3] add_grows [of i fs3] by (simp_all add: plain_add_def)
  have g2: "grows fs2 (AddInstruction i fs3)" using grows_trans [OF same_code_grows [OF same] gi] .
  have tk: "took vs fs (AddInstruction i fs3) t" using kp top by (simp add: took_def kept_frame_def)
  have t: "reg (i_arg0 i) = t" using i(3) top(4) by (simp add: small_target)
  have r: "runs ops lits (temps (height fs) t) (does t F) fs (AddInstruction i fs3)" if c: "complete lits (AddInstruction i fs3)" for lits
  proof (rule runs_as)
    have sr: "seq_run ops lits [i] = does t (result_of ops lits i)"
      using result_run [OF st i(2)] ok [OF c] t by (simp add: added_ok_def)
    have a: "runs ops lits (dropped fs3 i) (does t (result_of ops lits i)) fs2 (AddInstruction i fs3)"
      using runs_from [OF same runs_add [OF ok [OF c] st i(2) c, of ops]] sr by simp
    have kp: "keeps T (temps (height fs) t) (does t (result_of ops lits i))"
    proof (rule keeps_does)
      show "temps (height fs) t r" if "T r" "r \<noteq> t" for r using that T by (simp add: temps_def)
    qed (use rd [OF c] in \<open>simp add: reads_kept_def\<close>)
    show "runs ops lits (temps (height fs) t) (andthen k (does t (result_of ops lits i))) fs (AddInstruction i fs3)"
    proof (rule runs_trans [OF k(1) a kp k(2)])
      show "complete lits fs2" by (rule complete_before [OF c g2])
      show "temps (height fs) t r" if "dropped fs3 i r" for r using that d t by (auto simp: temps_def dropped_def)
    qed
    show "simul (temps (height fs) t) (does t F) (andthen k (does t (result_of ops lits i)))" using rd [OF c] by blast
  qed
  have pd: "q \<and> (j \<longrightarrow> tested vs (AddInstruction i fs3) t)" if "pending (AddInstruction i fs3)"
  proof -
    have l: "last (fs_code (AddInstruction i fs3)) = i" by (rule add_pending [OF st that])
    then have c: "i_op i = OPC_CMP" using that by (simp add: pending_def)
    then show ?thesis using p [OF c] l i(1,3) frame_height [OF fr] top(3) by (simp add: tested_def Let_def last_ok_def)
  qed
  have "\<not> t < length vs" using top(3) frame_height [OF fr] by simp
  then show ?thesis using grows_trans [OF g g2] tk pd r by (simp add: yields_def)
qed

subsection \<open>Loads\<close>

lemma closes_Falls [simp]: "closes Falls"
  by (simp add: closes_def)

lemma yields_load:
  assumes fr: "frame vs fs" and same: "same_code fs fs3"
    and top: "fs_vlocals fs3 = fs_vlocals fs @ [temporary]" "fs_targetstack fs3 = t # fs_targetstack fs" "t = height fs" "t < 255"
    and i: "last_ok i" "i_op i \<in> {OPC_LOAD, OPC_LOADINT, OPC_LOADFLOAT, OPC_LOADBOOL, OPC_LOADNULLS}" "i_arg0 i = word_of_nat t"
    and v: "\<And>lits. complete lits (AddInstruction i fs3) \<Longrightarrow> added_ok fs3 i \<and> (\<forall>R w. result_of ops lits i R w = (Inr v, w))"
  shows "yields ops vs (\<lambda>R w. (Inr v, w)) q j fs (AddInstruction i fs3) t"
proof (rule yields_add [OF fr grows_refl same top, where T = "\<lambda>r. False" and k = Falls])
  show "runs ops lits (\<lambda>r. False) Falls fs fs" for lits by (rule runs_same) simp
  show "last_ok i" "i_op i \<notin> {OPC_DLOAD, OPC_DMOVE}" "i_arg0 i = word_of_nat t" using i by auto
  show "added_ok fs3 i" if "complete lits (AddInstruction i fs3)" for lits using v [OF that] by blast
  show "height fs \<le> r" if "dropped fs3 i r" for r using that i(2) by (auto simp: dropped_def)
  show "reads_kept ops lits (\<lambda>r. False) i \<and>
      simul (temps (height fs) t) (does t (\<lambda>R w. (Inr v, w))) (andthen Falls (does t (result_of ops lits i)))"
    if "complete lits (AddInstruction i fs3)" for lits
    using v [OF that] by (simp add: reads_kept_def simul_def does_def)
  show "q \<and> (j \<longrightarrow> i_arg3 i \<noteq> CMP_3W)" if "i_op i = OPC_CMP" using that i(2) by auto
qed simp_all

lemma word_of_sint_u32: "word_of_int (sint (w :: u32)) = w"
  by simp

lemma int_in_range:
  assumes "sint (i :: u64) \<le> INT_RANGE_MAX" "sint i > INT_RANGE_MIN"
  shows "scast (word_of_int (sint i) :: u32) = i"
proof -
  have r: "sint (word_of_int (sint i) :: u32) = sint i"
    using assms by (intro sint_of_int) (simp_all add: INT_RANGE_MAX_def INT_RANGE_MIN_def)
  have "scast (word_of_int (sint i) :: u32) = (word_of_int (sint (word_of_int (sint i) :: u32)) :: u64)" by (rule scast_eq)
  also have "\<dots> = word_of_int (sint i)" by (simp only: r)
  also have "\<dots> = i" by simp
  finally show ?thesis .
qed

lemma load_word: "new_instr p (int t) a b c = \<lparr>i_op = p, i_arg0 = word_of_nat t, i_arg1 = word_of_int a, i_arg2 = word_of_int b, i_arg3 = word_of_int c\<rparr>"
  by (simp add: new_instr_def)

text \<open>The load of a constant that is in the literal table, where the table is small enough.\<close>

lemma literal_at:
  assumes "GetLiteral c fs = (k, fs3)" "i_op i = OPC_LOAD" "i_arg1 i = word_of_int (int k)" "complete lits (AddInstruction i fs3)"
  shows "lits ! reg1 i = c" "k < 2 ^ 31"
proof -
  have "prefix (fs_literals fs3) lits" "length lits < 2 ^ 31"
    using complete_before [OF assms(4) add_grows] assms(2) by (auto simp: complete_def plain_add_def straight_def)
  moreover have "k < length (fs_literals fs3)" "fs_literals fs3 ! k = c" using GetLiteral_lit [OF assms(1)] by auto
  ultimately have k: "k < 2 ^ 31" "lits ! k = c" by (auto simp: prefix_def nth_append)
  have "reg1 i = k" using k(1) assms(3) by (simp add: reg1_def unat_of_nat)
  then show "lits ! reg1 i = c" "k < 2 ^ 31" using k by simp_all
qed

lemma added_load:
  assumes "i_op i \<in> {OPC_LOAD, OPC_LOADINT, OPC_LOADFLOAT, OPC_LOADBOOL, OPC_LOADNULLS}" "i_op i = OPC_LOAD \<Longrightarrow> 0 \<le> sarg1 i"
    "i_op i = OPC_LOADNULLS \<Longrightarrow> i_arg1 i = 1"
  shows "added_ok fs i"
  using assms by (auto simp: added_ok_def last_ok_def straight_def sarg1_def)

lemma last_load: "i_op i \<in> {OPC_LOAD, OPC_LOADINT, OPC_LOADFLOAT, OPC_LOADBOOL} \<Longrightarrow> last_ok i"
  by (auto simp: last_ok_def straight_def)

lemma load_constant_one:
  assumes "cg_fns s = [fs]" "load_constant c t s = Inr ((), s')"
  obtains k fs3 where "GetLiteral c fs = (k, fs3)" "s' = with_fn s (AddInstruction (new_instr OPC_LOAD (int t) (int k) 0 0) fs3)"
proof -
  obtain k fs3 where g: "GetLiteral c fs = (k, fs3)" by fastforce
  have "s' = with_fn s (AddInstruction (new_instr OPC_LOAD (int t) (int k) 0 0) fs3)"
    using assms g by (simp add: load_constant_def bind_def with_fs_def fs_of_def add_instr_def update_fs_def with_fn_def)
  then show ?thesis using g that by blast
qed

text \<open>\<open>selectConstant\<close> leaves the constant in the new target.\<close>

lemma select_yields:
  assumes s: "cg_fns s = [fs3]" and fr: "frame vs fs" and same: "same_code fs fs3"
    and top: "fs_vlocals fs3 = fs_vlocals fs @ [temporary]" "fs_targetstack fs3 = t # fs_targetstack fs" "t = height fs" "t < 255"
    and m: "selectConstant t c s = Inr ((), s')"
  shows "\<exists>fs'. cg_fns s' = [fs'] \<and> yields ops vs (\<lambda>R w. (Inr c, w)) q j fs fs' t"
proof -
  note y = yields_load [OF fr same top, where v = c and ops = ops and q = q and j = j]
  have one: ?thesis if "add_instr p (int t) a 0 0 s = Inr ((), s')" "p \<in> {OPC_LOADINT, OPC_LOADFLOAT, OPC_LOADBOOL, OPC_LOADNULLS}"
    "p = OPC_LOADNULLS \<Longrightarrow> a = 1" "\<And>lits R w. result_of ops lits (new_instr p (int t) a 0 0) R w = (Inr c, w)" for p a
  proof -
    let ?i = "new_instr p (int t) a 0 0"
    have l: "last_ok ?i" using that(2,3) by (auto simp: last_ok_def straight_def load_word sarg1_def)
    have "yields ops vs (\<lambda>R w. (Inr c, w)) q j fs (AddInstruction ?i fs3) t"
      using that(2-4) by (intro y l) (auto simp: load_word intro: added_load)
    then show ?thesis using that(1) by (auto simp: add_one [OF s])
  qed
  have lit: ?thesis if "load_constant c t s = Inr ((), s')"
    using s that
  proof (rule load_constant_one)
    fix k fs4
    let ?i = "new_instr OPC_LOAD (int t) (int k) 0 0"
    assume g: "GetLiteral c fs3 = (k, fs4)" and s': "s' = with_fn s (AddInstruction ?i fs4)"
    have kp: "kept_frame fs3 fs4" "fs_code fs4 = fs_code fs3" using kept_literal [OF g] by auto
    have sc: "same_code fs3 fs4" using g by (auto simp: GetLiteral_def same_code_def split: option.splits)
    have "yields ops vs (\<lambda>R w. (Inr c, w)) q j fs (AddInstruction ?i fs4) t"
    proof (rule yields_load [OF fr same_code_trans [OF same sc]])
      show "fs_vlocals fs4 = fs_vlocals fs @ [temporary]" "fs_targetstack fs4 = t # fs_targetstack fs" using kp top by (simp_all add: kept_frame_def)
      show "last_ok ?i" "i_op ?i \<in> {OPC_LOAD, OPC_LOADINT, OPC_LOADFLOAT, OPC_LOADBOOL, OPC_LOADNULLS}" "i_arg0 ?i = word_of_nat t"
        by (simp_all add: load_word last_load)
      fix lits
      assume cp: "complete lits (AddInstruction ?i fs4)"
      have l: "lits ! reg1 ?i = c" "k < 2 ^ 31" by (rule literal_at [OF g _ _ cp]; simp add: load_word)+
      have "sarg1 ?i = int k" using l(2) sint_of_int [of "int k"] by (simp add: load_word sarg1_def)
      then show "added_ok fs4 ?i \<and> (\<forall>R w. result_of ops lits ?i R w = (Inr c, w))"
        using l(1) by (auto simp: load_word result_of_def target_val_def Let_def intro!: added_load)
    qed (use top in simp_all)
    then show ?thesis using s' by auto
  qed
  show ?thesis
  proof (cases c)
    case (SQInteger i)
    then show ?thesis
      using m one [of OPC_LOADINT "sint i"] lit int_in_range [of i]
      by (auto simp: selectConstant_def EmitLoadConstInt_def result_of_def target_val_def load_int_def load_word Let_def split: if_splits)
  next
    case (SQFloat f)
    then show ?thesis
      using m one [of OPC_LOADFLOAT "sint f"]
      by (auto simp: selectConstant_def EmitLoadConstFloat_def result_of_def target_val_def load_word Let_def)
  next
    case (SQBool b)
    then show ?thesis
      using m one [of OPC_LOADBOOL "if b then 1 else 0"]
      by (auto simp: selectConstant_def result_of_def target_val_def load_word Let_def)
  next
    case SQNull
    then show ?thesis
      using m one [of OPC_LOADNULLS 1] by (auto simp: selectConstant_def result_of_def load_word)
  qed (use m lit in \<open>auto simp: selectConstant_def\<close>)
qed

lemma push_world: "cg_fns (s\<lparr>cg_world := w\<rparr>) = cg_fns s"
  by simp

lemma const_code: "value_code ops vs (\<lambda>R w. (Inr c, w)) q False j (bind (push_target None) (\<lambda>t. selectConstant t c))"
proof (rule value_codeI)
  fix s fs s'
  assume s: "cg_fns s = [fs]" and fr: "frame vs fs" and "bind (push_target None) (\<lambda>t. selectConstant t c) s = Inr ((), s')"
  then obtain t s1 where p: "push_target None s = Inr (t, s1)" and m: "selectConstant t c s1 = Inr ((), s')" by (auto simp: bind_Inr)
  from s p show "\<exists>fs' t. cg_fns s' = [fs'] \<and> yields ops vs (\<lambda>R w. (Inr c, w)) False j fs fs' t"
  proof (rule push_one)
    fix fs3
    assume f: "s1 = with_fn s fs3" "same_code fs fs3" "t = height fs" "t < 255" "fs_vlocals fs3 = fs_vlocals fs @ [temporary]"
      "fs_targetstack fs3 = t # fs_targetstack fs"
    have "cg_fns s1 = [fs3]" using f(1) by simp
    from select_yields [OF this fr f(2,5,6,3,4) m, of ops False j] show ?thesis by blast
  qed
qed

lemma inline_code:
  assumes "\<And>w v w'. constEval (ce_ops env) (ce_consts env) e w = (Inr v, w') \<Longrightarrow> (\<forall>R w. F R w = (Inr v, w))"
  shows "value_code ops vs F q False j (emitInlineConst env e)"
proof (rule value_codeI)
  fix s fs s'
  assume s: "cg_fns s = [fs]" and fr: "frame vs fs" and p: "pending fs \<Longrightarrow> q" and m: "emitInlineConst env e s = Inr ((), s')"
  obtain r w where c: "constEval (ce_ops env) (ce_consts env) e (cg_world s) = (r, w)" by fastforce
  then obtain v where v: "r = Inr v" using m by (cases r) (auto simp: emitInlineConst_def)
  have f: "F = (\<lambda>R w. (Inr v, w))" using assms c v by blast
  have m': "bind (push_target None) (\<lambda>t. selectConstant t v) (s\<lparr>cg_world := w\<rparr>) = Inr ((), s')" using m c v by (simp add: emitInlineConst_def)
  show "\<exists>fs' t. cg_fns s' = [fs'] \<and> yields ops vs F False j fs fs' t"
    by (rule value_codeE [OF const_code m' _ fr p, where ops = ops and j = j]) (use s f in auto)
qed

lemma literal_code:
  assumes "\<And>s. \<exists>p. eo_str (ce_ops env) s = SQString p"
  shows "value_code ops vs (\<lambda>R w. (Inr (convertLiteral (eo_str (ce_ops env)) l), w)) q False j (visitLiteralExpr env l)"
proof -
  have "visitLiteralExpr env l = bind (push_target None) (\<lambda>t. selectConstant t (convertLiteral (eo_str (ce_ops env)) l))"
  proof (cases l)
    case (LK_STRING x)
    obtain p where "eo_str (ce_ops env) x = SQString p" using assms by blast
    then show ?thesis by (simp add: LK_STRING visitLiteralExpr_def convertLiteral_def selectConstant_def)
  qed (simp_all add: visitLiteralExpr_def convertLiteral_def selectConstant_def)
  then show ?thesis by (simp only: const_code)
qed

text \<open>The value of a variable in its register, or of a constant.\<close>

definition variable :: "local_var list \<Rightarrow> (string \<Rightarrow> sq_obj option) \<Rightarrow> regs \<Rightarrow> string \<Rightarrow> sq_obj" where
  "variable vs consts R x = (case local_from x vs (length vs) of Some i \<Rightarrow> R i | None \<Rightarrow> the (consts x))"

lemma reads_variable: "reads (length vs) (\<lambda>R w. (Inr (variable vs consts R x), w))"
  using local_from_name [of x vs "length vs"] by (auto simp: reads_def variable_def split: option.split)

lemma frame_outer: "frame vs fs \<Longrightarrow> GetOuterVariable x [fs] = (None, [fs])"
  by (simp add: frame_def)

lemma id_code:
  assumes "ce_name env \<noteq> Some x" "j \<longrightarrow> \<not> q"
  shows "value_code ops vs (\<lambda>R w. (Inr (variable vs (ce_consts env) R x), w)) q q j (visitId env x)"
proof (rule value_codeI)
  fix s fs s'
  assume s: "cg_fns s = [fs]" and fr: "frame vs fs" and p: "pending fs \<Longrightarrow> q" and m: "visitId env x s = Inr ((), s')"
  have fo: "fs_of s = fs" using s by (simp add: fs_of_def)
  let ?F = "\<lambda>R w. (Inr (variable vs (ce_consts env) R x), w)"
  show "\<exists>fs' t. cg_fns s' = [fs'] \<and> yields ops vs ?F q j fs fs' t"
  proof (cases "local_from x vs (length vs)")
    case (Some i)
    have i: "i < length vs" "lv_name (vs ! i) = Some x" using local_from_name [OF Some] by auto
    let ?fs = "fs\<lparr>fs_targetstack := i # fs_targetstack fs\<rparr>"
    have sc: "same_code fs ?fs" by (simp add: same_code_def)
    have "cg_fns s' = [?fs]"
      using m assms(1) s fo Some frame_variable [OF fr, of x]
      by (auto simp: visitId_def bind_def push_target_def PushTarget_def return_def)
    moreover have f: "?F R w = (Inr (R i), w)" for R and w :: 'a using Some by (simp add: variable_def)
    have "does i ?F = (Falls :: regs \<Rightarrow> 'a \<Rightarrow> 'a seq_end)" by (intro ext) (simp add: does_def variable_def Some)
    then have "runs ops lits (temps (height fs) i) (does i ?F) fs ?fs" for lits using runs_same [OF sc] by simp
    then have "yields ops vs ?F q j fs ?fs i"
      using i f p assms(2) same_code_grows [OF sc] same_code_pending [OF sc] by (auto simp: yields_def took_def)
    ultimately show ?thesis by blast
  next
    case None
    then have l: "GetLocalVariable x fs = None" using frame_variable [OF fr] by simp
    obtain c where c: "ce_consts env x = Some c"
      using m assms(1) s fo l frame_outer [OF fr, of x] by (cases "ce_consts env x") (auto simp: visitId_def)
    have m': "bind (push_target None) (\<lambda>t. selectConstant t c) (s\<lparr>cg_fns := [fs]\<rparr>) = Inr ((), s')"
      using m assms(1) s fo l c frame_outer [OF fr, of x] by (simp add: visitId_def)
    have f: "?F = (\<lambda>R w. (Inr c, w))" using None c by (simp add: variable_def)
    obtain fs' t where r: "cg_fns s' = [fs']" "yields ops vs (\<lambda>R w. (Inr c, w)) False j fs fs' t"
      by (rule value_codeE [OF const_code m' _ fr p, where ops = ops and j = j]) auto
    then have "yields ops vs ?F q j fs fs' t" unfolding f by (auto simp: yields_def)
    then show ?thesis using r(1) by blast
  qed
qed

subsection \<open>Operators with one operand\<close>

definition at_target :: "nat \<Rightarrow> nat \<Rightarrow> 'w value_of \<Rightarrow> bool" where
  "at_target n t F \<longleftrightarrow> n \<le> t \<or> (\<forall>R w. F R w = (Inr (R t), w))"

lemma yields_target: "frame vs fs \<Longrightarrow> yields ops vs F q j fs fs' t \<Longrightarrow> at_target (height fs) t F"
  by (auto simp: yields_def took_def at_target_def)

lemma simul_one:
  assumes "at_target n t1 F1"
  shows "simul (temps n t) (does t (\<lambda>R w. with_value (F1 R w) op)) (andthen (does t1 F1) (does t (\<lambda>R w. op (R t1) w)))"
  unfolding simul_def
proof (intro allI)
  fix R w
  obtain e u where f: "F1 R w = (e, u)" by fastforce
  show "same_but (temps n t) (does t (\<lambda>R w. with_value (F1 R w) op) R w) (seg_bind (does t1 F1 R w) (does t (\<lambda>R w. op (R t1) w)))"
  proof (cases e)
    case (Inl x)
    then show ?thesis by (simp add: does_def f)
  next
    case (Inr v)
    have "R r = (R(t1 := v)) r" if "\<not> n \<le> r" for r using assms that f Inr by (auto simp: at_target_def)
    then show ?thesis by (auto simp: does_def f Inr temps_def split: prod.split sum.split)
  qed
qed

lemma not_fused_dropped: "\<not> fused_with (i_op i) \<Longrightarrow> \<not> dropped fs i r"
  by (auto simp: fused_with_def dropped_def)

lemma not_fused_added: "\<not> fused_with (i_op i) \<Longrightarrow> last_ok i \<Longrightarrow> added_ok fs i"
  by (auto simp: fused_with_def added_ok_def)

lemma yieldsD:
  assumes "yields ops vs F q j fs fs' t"
  shows "grows fs fs'" "took vs fs fs' t" "\<And>lits. complete lits fs' \<Longrightarrow> runs ops lits (temps (height fs) t) (does t F) fs fs'"
    "pending fs' \<Longrightarrow> q"
  using assms by (simp_all add: yields_def)

lemma one_code:
  fixes I :: "nat \<Rightarrow> nat \<Rightarrow> sq_instr"
  assumes m: "value_code ops vs F1 q q1 j1 visit"
    and I: "\<And>t t1. last_ok (I t t1) \<and> \<not> fused_with (i_op (I t t1)) \<and> i_op (I t t1) \<notin> {OPC_DLOAD, OPC_DMOVE, OPC_CMP} \<and> i_arg0 (I t t1) = word_of_nat t"
    and val: "\<And>t t1 lits R w. t1 < 256 \<Longrightarrow> result_of ops lits (I t t1) R w = op (R t1) w"
  shows "value_code ops vs (\<lambda>R w. with_value (F1 R w) op) q False j
    (then_do visit (bind pop_target (\<lambda>t1. bind (push_target None) (\<lambda>t. update_fs (AddInstruction (I t t1))))))"
proof (rule value_codeI)
  fix s fs s'
  assume s: "cg_fns s = [fs]" and fr: "frame vs fs" and p: "pending fs \<Longrightarrow> q"
    and c: "then_do visit (bind pop_target (\<lambda>t1. bind (push_target None) (\<lambda>t. update_fs (AddInstruction (I t t1))))) s = Inr ((), s')"
  obtain s1 where v: "visit s = Inr ((), s1)"
    and c1: "bind pop_target (\<lambda>t1. bind (push_target None) (\<lambda>t. update_fs (AddInstruction (I t t1)))) s1 = Inr ((), s')"
    using c by (auto simp: then_do_Inr)
  obtain fs1 t1 where y: "cg_fns s1 = [fs1]" "yields ops vs F1 q1 j1 fs fs1 t1" by (rule value_codeE [OF m v s fr p])
  note y1 = yieldsD [OF y(2)]
  note w1 = took_frame [OF fr y1(2,1)]
  define fs2 where "fs2 = fs1\<lparr>fs_vlocals := fs_vlocals fs, fs_targetstack := fs_targetstack fs\<rparr>"
  have sc: "same_code fs1 fs2" by (simp add: fs2_def same_code_def)
  have h: "height fs2 = height fs" by (simp add: fs2_def height_def)
  obtain t s3 where p3: "push_target None (with_fn s1 fs2) = Inr (t, s3)" and c3: "update_fs (AddInstruction (I t t1)) s3 = Inr ((), s')"
    using c1 pop_one [OF y(1) pop_took [OF fr y1(2)]] by (auto simp: bind_Inr fs2_def)
  from with_fn_fns p3 show "\<exists>fs' t. cg_fns s' = [fs'] \<and> yields ops vs (\<lambda>R w. with_value (F1 R w) op) False j fs fs' t"
  proof (rule push_one)
    fix fs3
    assume f: "s3 = with_fn (with_fn s1 fs2) fs3" "same_code fs2 fs3" "t = height fs2" "t < 255"
      "fs_vlocals fs3 = fs_vlocals fs2 @ [temporary]" "fs_targetstack fs3 = t # fs_targetstack fs2"
    let ?i = "I t t1"
    have "cg_fns s' = [AddInstruction ?i fs3]" using c3 f(1) by (auto simp: update_one)
    moreover have "yields ops vs (\<lambda>R w. with_value (F1 R w) op) False j fs (AddInstruction ?i fs3) t"
    proof (rule yields_add [OF fr y1(1) same_code_trans [OF sc f(2)], where T = "temps (height fs) t1" and k = "does t1 F1"])
      show "reads_kept ops lits (temps (height fs) t1) ?i \<and>
          simul (temps (height fs) t) (does t (\<lambda>R w. with_value (F1 R w) op)) (andthen (does t1 F1) (does t (result_of ops lits ?i)))" for lits
      proof
        have r: "result_of ops lits ?i = (\<lambda>R w. op (R t1) w)" by (intro ext) (rule val [OF w1(3)])
        then show "reads_kept ops lits (temps (height fs) t1) ?i" by (simp add: reads_kept_def temps_def)
        show "simul (temps (height fs) t) (does t (\<lambda>R w. with_value (F1 R w) op)) (andthen (does t1 F1) (does t (result_of ops lits ?i)))"
          unfolding r by (rule simul_one [OF yields_target [OF fr y(2)]])
      qed
      show "added_ok fs3 ?i" using I not_fused_added by blast
      show "height fs \<le> r" if "dropped fs3 ?i r" for r using that I not_fused_dropped by blast
    qed (use f h I y1(3) in \<open>auto simp: fs2_def temps_def\<close>)
    ultimately show ?thesis by blast
  qed
qed

subsection \<open>Operators with two operands\<close>

lemma simul_two:
  assumes t1: "at_target n t1 F1" and t2: "at_target n1 t2 F2" "t1 < n1" "n \<le> n1" and rd: "reads m F2" "m \<le> n"
  shows "simul (temps n t) (does t (\<lambda>R w. with_value (F1 R w) (\<lambda>a w. with_value (F2 R w) (op a))))
    (andthen (andthen (does t1 F1) (does t2 F2)) (does t (\<lambda>R w. op (R t1) (R t2) w)))"
  unfolding simul_def
proof (intro allI)
  fix R w
  let ?l = "does t (\<lambda>R w. with_value (F1 R w) (\<lambda>a w. with_value (F2 R w) (op a))) R w"
  let ?r = "seg_bind (seg_bind (does t1 F1 R w) (does t2 F2)) (does t (\<lambda>R w. op (R t1) (R t2) w))"
  obtain e u where f: "F1 R w = (e, u)" by fastforce
  show "same_but (temps n t) ?l ?r"
  proof (cases e)
    case (Inl x)
    then show ?thesis by (simp add: does_def f)
  next
    case (Inr a)
    define S where "S = R(t1 := a)"
    have low: "R r = S r" if "\<not> n \<le> r" for r using t1 that f Inr by (auto simp: at_target_def S_def)
    have "F2 R u = F2 S u" using rd low unfolding reads_def by (meson not_le order.strict_trans2)
    obtain e' u' where g: "F2 R u = (e', u')" by fastforce
    have g': "F2 S u = (e', u')" using \<open>F2 R u = F2 S u\<close> g by simp
    show ?thesis
    proof (cases e')
      case Inl': (Inl x)
      have "?r = Ends (Raised x u')" using f g' Inr Inl' by (simp add: does_def S_def)
      then show ?thesis using f g Inr Inl' by (simp add: does_def)
    next
      case Inr': (Inr b)
      define Q where "Q = S(t2 := b)"
      have "b = S t2" if "t2 = t1" using t2(1,2) that g' Inr' by (auto simp: at_target_def)
      then have q: "Q t1 = a" "Q t2 = b" by (auto simp: Q_def S_def)
      have lowq: "R r = Q r" if "\<not> n \<le> r" for r
        using low [OF that] t2(1,3) that g' Inr' by (auto simp: at_target_def Q_def)
      have "?r = does t (\<lambda>R w. op (R t1) (R t2) w) Q u'" using f g' Inr Inr' by (simp add: does_def S_def Q_def)
      then show ?thesis using f g Inr Inr' q lowq by (auto simp: does_def temps_def split: prod.split sum.split)
    qed
  qed
qed

lemma took_again: "took vs fs fs1 t \<Longrightarrow> took vs fs (fs2\<lparr>fs_vlocals := fs_vlocals fs1, fs_targetstack := fs_targetstack fs1\<rparr>) t"
  by (simp add: took_def)

lemma two_code:
  fixes I :: "nat \<Rightarrow> nat \<Rightarrow> nat \<Rightarrow> sq_instr"
  assumes m1: "value_code ops vs F1 q q1 j1 lhs" and m2: "value_code ops vs F2 q1 q2 j2 rhs" and rd: "reads (length vs) F2"
    and I: "\<And>t a b. a < 256 \<Longrightarrow> b < 256 \<Longrightarrow> last_ok (I t a b) \<and> i_op (I t a b) \<notin> {OPC_DLOAD, OPC_DMOVE, OPC_MOVE, OPC_LOAD, OPC_LOADNULLS} \<and>
      i_arg0 (I t a b) = word_of_nat t \<and> i_arg1 (I t a b) = word_of_nat b \<and> i_arg2 (I t a b) = word_of_nat a \<and>
      (i_op (I t a b) = OPC_EQ \<or> i_op (I t a b) = OPC_NE \<longrightarrow> i_arg3 (I t a b) = 0) \<and>
      (i_op (I t a b) = OPC_CMP \<longrightarrow> q' \<and> (j \<longrightarrow> i_arg3 (I t a b) \<noteq> CMP_3W))"
    and val: "\<And>t a b lits R w. a < 256 \<Longrightarrow> b < 256 \<Longrightarrow> result_of ops lits (I t a b) R w = op (R a) (R b) w"
  shows "value_code ops vs (\<lambda>R w. with_value (F1 R w) (\<lambda>a w. with_value (F2 R w) (op a))) q q' j
    (then_do lhs (then_do rhs (bind pop_target (\<lambda>b. bind pop_target (\<lambda>a. bind (push_target None) (\<lambda>t.
      update_fs (AddInstruction (I t a b))))))))"
proof (rule value_codeI)
  let ?F = "\<lambda>R w. with_value (F1 R w) (\<lambda>a w. with_value (F2 R w) (op a))"
  let ?k = "bind pop_target (\<lambda>b. bind pop_target (\<lambda>a. bind (push_target None) (\<lambda>t. update_fs (AddInstruction (I t a b)))))"
  fix s fs s'
  assume s: "cg_fns s = [fs]" and fr: "frame vs fs" and p: "pending fs \<Longrightarrow> q" and c: "then_do lhs (then_do rhs ?k) s = Inr ((), s')"
  obtain s1 s2 where v1: "lhs s = Inr ((), s1)" and v2: "rhs s1 = Inr ((), s2)" and c2: "?k s2 = Inr ((), s')"
    using c by (auto simp: then_do_Inr)
  obtain fs1 t1 where x1: "cg_fns s1 = [fs1]" "yields ops vs F1 q1 j1 fs fs1 t1" by (rule value_codeE [OF m1 v1 s fr p])
  note y1 = yieldsD [OF x1(2)]
  note w1 = took_frame [OF fr y1(2,1)]
  obtain fs2 t2 where x2: "cg_fns s2 = [fs2]" "yields ops vs F2 q2 j2 fs1 fs2 t2" by (rule value_codeE [OF m2 v2 x1(1) w1(1) y1(4)])
  note y2 = yieldsD [OF x2(2)]
  note w2 = took_frame [OF w1(1) y2(2,1)]
  define T where "T = (\<lambda>r. height fs \<le> r \<and> r \<noteq> t1 \<and> r \<noteq> t2)"
  have rn: "runs ops lits T (andthen (does t1 F1) (does t2 F2)) fs fs2" if cp: "complete lits fs2" for lits
  proof (rule runs_trans [OF y1(3) [OF complete_before [OF cp y2(1)]] y2(3) [OF cp]])
    show "keeps (temps (height fs) t1) T (does t2 F2)"
      using frame_height [OF fr] by (intro does_reads [OF rd]) (auto simp: temps_def T_def)
    show "T r" if "temps (height fs1) t2 r" for r using that w1(2,4) by (auto simp: temps_def T_def)
  qed simp
  define fa where "fa = fs2\<lparr>fs_vlocals := fs_vlocals fs1, fs_targetstack := fs_targetstack fs1\<rparr>"
  define fb where "fb = fa\<lparr>fs_vlocals := fs_vlocals fs, fs_targetstack := fs_targetstack fs\<rparr>"
  have sc: "same_code fs2 fb" by (simp add: fa_def fb_def same_code_def)
  have pa: "PopTarget fs2 = (t2, fa)" using pop_took [OF w1(1) y2(2)] by (simp add: fa_def)
  have pb: "PopTarget fa = (t1, fb)" using pop_took [OF fr took_again [OF y1(2)]] by (simp add: fa_def fb_def)
  have h: "height fb = height fs" by (simp add: fb_def height_def)
  define s4 where "s4 = with_fn s2 fb"
  have s4: "cg_fns s4 = [fb]" by (simp add: s4_def)
  obtain t s3 where p3: "push_target None s4 = Inr (t, s3)" and c3: "update_fs (AddInstruction (I t t1 t2)) s3 = Inr ((), s')"
    using c2 pop_one [OF x2(1) pa] pop_one [OF with_fn_fns pb, of s2] by (auto simp: bind_Inr s4_def)
  from s4 p3 show "\<exists>fs' t. cg_fns s' = [fs'] \<and> yields ops vs ?F q' j fs fs' t"
  proof (rule push_one)
    fix fs3
    assume f: "s3 = with_fn s4 fs3" "same_code fb fs3" "t = height fb" "t < 255"
      "fs_vlocals fs3 = fs_vlocals fb @ [temporary]" "fs_targetstack fs3 = t # fs_targetstack fb"
    let ?i = "I t t1 t2"
    have ir: "reg1 ?i = t2" "reg (i_arg2 ?i) = t1" using I [of t1 t2 t] w1(3) w2(3) by (simp_all add: reg1_def reg_def unat_of_nat)
    have g3: "grows fs fs3" by (rule grows_trans [OF grows_trans [OF y1(1) y2(1)] same_code_grows [OF same_code_trans [OF sc f(2)]]])
    have fr3: "frame vs fs3" by (rule took_frame(1) [OF fr _ g3, of t]) (use f h in \<open>simp add: took_def fb_def\<close>)
    have tmp: "t2 = height fs1" if "\<not> IsLocal fs3 t2"
      using that y2(2) unfolding took_def frame_local [OF fr3] by blast
    have ok: "added_ok fs3 ?i"
    proof -
      have "i_arg2 ?i \<noteq> i_arg0 x" if "fills fs3 x ?i" for x 
      proof
        assume e: "i_arg2 ?i = i_arg0 x"
        have "t2 = t1" "\<not> IsLocal fs3 t2" using fills_reg [OF that] ir e by simp_all
        then show False using tmp w1(2) by simp
      qed
      then show ?thesis using I [OF w1(3) w2(3), of t] by (simp add: added_ok_def)
    qed
    have "cg_fns s' = [AddInstruction ?i fs3]" using c3 f(1) by (auto simp: update_one)
    moreover have "yields ops vs ?F q' j fs (AddInstruction ?i fs3) t"
    proof (rule yields_add [OF fr grows_trans [OF y1(1) y2(1)] same_code_trans [OF sc f(2)], where T = T and k = "andthen (does t1 F1) (does t2 F2)"])
      show "reads_kept ops lits T ?i \<and> simul (temps (height fs) t) (does t ?F)
          (andthen (andthen (does t1 F1) (does t2 F2)) (does t (result_of ops lits ?i)))" for lits
      proof
        have r: "result_of ops lits ?i = (\<lambda>R w. op (R t1) (R t2) w)" by (intro ext) (rule val [OF w1(3) w2(3)])
        then show "reads_kept ops lits T ?i" by (simp add: reads_kept_def T_def)
        show "simul (temps (height fs) t) (does t ?F) (andthen (andthen (does t1 F1) (does t2 F2)) (does t (result_of ops lits ?i)))"
          unfolding r
          by (rule simul_two [OF yields_target [OF fr x1(2)] yields_target [OF w1(1) x2(2)] w1(2,4) rd frame_height [OF fr]])
      qed
      show "height fs \<le> r" if "dropped fs3 ?i r" for r using that ir tmp w1(4) by (auto simp: dropped_def)
      show "closes (andthen (does t1 F1) (does t2 F2))" by (simp add: closes_bind)
    qed (use f h I [OF w1(3) w2(3), of t] ok rn in \<open>auto simp: fb_def T_def\<close>)
    ultimately show ?thesis by blast
  qed
qed

end
