(* ===== verification/CodeJumps.thy ===== *)
theory CodeJumps
  imports CodeOps
begin

text \<open>
  The visitors of the logical operators and the conditional, which emit jumps over the code of an
  operand and set their distance when that code is known.
\<close>

subsection \<open>A value moved to a target\<close>

definition in_reg :: "nat \<Rightarrow> 'w value_of" where
  "in_reg t R w = (Inr (R t), w)"

lemma in_reg_eq: "in_reg t = (\<lambda>R w. (Inr (R t), w))"
  by (intro ext) (simp add: in_reg_def)

lemma with_value_same: "with_value x (\<lambda>v w. (Inr v, w)) = x"
  by (cases x; cases "fst x") auto

lemma does_in_reg [simp]: "does t (in_reg t) = Falls"
  by (intro ext) (simp add: does_def in_reg_def)

definition move_instr :: "nat \<Rightarrow> nat \<Rightarrow> sq_instr" where
  "move_instr t t1 = new_instr OPC_MOVE (int t) (int t1) 0 0"

lemma move_fields [simp]: "i_op (move_instr t t1) = OPC_MOVE" "i_arg0 (move_instr t t1) = word_of_nat t" "i_arg1 (move_instr t t1) = word_of_nat t1"
  by (simp_all add: move_instr_def new_instr_def)

lemma move_reg: "t1 < 256 \<Longrightarrow> reg1 (move_instr t t1) = t1"
  by (simp add: reg1_def unat_of_nat)

lemma move_added:
  assumes "t1 < 256"
  shows "added_ok fs (move_instr t t1)" "straight (i_op (move_instr t t1))"
proof -
  have "sint (word_of_int (int t1) :: u32) = int t1" using assms by (intro sint_of_int) simp_all
  then have "0 \<le> sarg1 (move_instr t t1)" by (simp add: sarg1_def)
  then show "added_ok fs (move_instr t t1)" by (simp add: added_ok_def last_ok_def straight_def)
qed (simp add: straight_def)

lemma move_run:
  assumes "t < 256" "t1 < 256"
  shows "seq_run ops lits [move_instr t t1] = does t (in_reg t1)"
proof -
  have "result_of ops lits (move_instr t t1) = in_reg t1" by (intro ext) (simp add: result_of_def in_reg_def move_reg [OF assms(2)])
  then show ?thesis using result_run [OF move_added(2) [OF assms(2)], of t ops lits] assms(1) by (simp add: small_target)
qed

lemma keeps_False: "keeps (\<lambda>r. False) T k"
  unfolding keeps_def
proof (intro allI impI)
  fix R S :: regs and w
  assume "\<forall>r. \<not> False \<longrightarrow> R r = S r"
  then have "R = S" by (intro ext) simp
  then show "same_but T (k R w) (k S w)" by simp
qed

definition moved :: "nat \<Rightarrow> nat \<Rightarrow> func_state \<Rightarrow> func_state" where
  "moved t t1 fs = (if t \<noteq> t1 then AddInstruction (move_instr t t1) fs else fs)"

lemma moved_kept: "kept_frame fs (moved t t1 fs)" "grows fs (moved t t1 fs)"
  using add_kept [of "move_instr t t1" fs] add_grows [of "move_instr t t1" fs] by (simp_all add: moved_def plain_add_def straight_def)

lemma moved_runs:
  assumes "t < 256" "t1 < 256" "complete lits (moved t t1 fs)" "\<And>r. r = t1 \<Longrightarrow> r \<noteq> t \<Longrightarrow> \<not> IsLocal fs r \<Longrightarrow> T r"
  shows "runs ops lits T (does t (in_reg t1)) fs (moved t t1 fs)"
proof (cases "t = t1")
  case True
  then show ?thesis by (simp add: moved_def runs_same)
next
  case False
  let ?i = "move_instr t t1"
  have c: "complete lits (AddInstruction ?i fs)" using assms(3) False by (simp add: moved_def)
  have "runs ops lits (dropped fs ?i) (does t (in_reg t1)) fs (AddInstruction ?i fs)"
    using runs_add [OF move_added [OF assms(2)] _ c, of ops] by (simp add: move_run [OF assms(1,2)])
  then have "runs ops lits T (does t (in_reg t1)) fs (AddInstruction ?i fs)"
    by (rule runs_mono) (use assms(1,2,4) in \<open>auto simp: dropped_def move_reg small_target\<close>)
  then show ?thesis using False by (simp add: moved_def)
qed

text \<open>The code of an operand is added above the target, and its value moved to it.\<close>

lemma operand_moved:
  assumes fr: "frame vs fs" and y: "yields ops vs F q j fs fs1 t1" and h: "height fs = Suc t" and t: "length vs \<le> t" "t < 255"
    and same: "same_code fs1 fs2" "fs_vlocals fs2 = fs_vlocals fs" "fs_targetstack fs2 = fs_targetstack fs"
    and rd: "reads (length vs) F"
  shows "grows fs (moved t t1 fs2)" "fs_vlocals (moved t t1 fs2) = fs_vlocals fs" "fs_targetstack (moved t t1 fs2) = fs_targetstack fs"
    "\<And>lits. complete lits (moved t t1 fs2) \<Longrightarrow> runs ops lits (temps t t) (does t F) fs (moved t t1 fs2)"
proof -
  note y' = yieldsD [OF y]
  note w = took_frame [OF fr y'(2,1)]
  show g: "grows fs (moved t t1 fs2)"
    using grows_trans [OF grows_trans [OF y'(1) same_code_grows [OF same(1)]] moved_kept(2)] .
  show "fs_vlocals (moved t t1 fs2) = fs_vlocals fs" "fs_targetstack (moved t t1 fs2) = fs_targetstack fs"
    using moved_kept(1) [of fs2 t t1] same by (simp_all add: kept_frame_def)
  show "runs ops lits (temps t t) (does t F) fs (moved t t1 fs2)" if c: "complete lits (moved t t1 fs2)" for lits
  proof (rule runs_as)
    have c1: "complete lits fs1" using complete_before [OF complete_before [OF c moved_kept(2)] same_code_grows [OF same(1)]] .
    have fr2: "frame vs fs2" using same(2) fr y'(1) same_code_grows [OF same(1)] by (simp add: frame_def grows_def)
    have lc: "temps t t t1" if "t1 \<noteq> t" "\<not> IsLocal fs2 t1"
      using that y'(2) h frame_local [OF fr2, of t1] by (auto simp: took_def temps_def)
    have m: "runs ops lits (temps t t) (does t (in_reg t1)) fs1 (moved t t1 fs2)"
      by (rule runs_from [OF same(1) moved_runs [OF _ w(3) c]]) (use t lc in auto)
    have k: "keeps (temps (height fs) t1) (temps t t) (does t (in_reg t1))"
      by (rule keeps_does) (auto simp: in_reg_def temps_def h)
    show "runs ops lits (temps t t) (andthen (does t1 F) (does t (in_reg t1))) fs (moved t t1 fs2)"
      by (rule runs_trans [OF y'(3) [OF c1] m k]) simp_all
    show "simul (temps t t) (does t F) (andthen (does t1 F) (does t (in_reg t1)))"
    proof -
      have "simul (temps t t) (does t (\<lambda>R w. with_value (F R w) (\<lambda>v w. (Inr v, w)))) (andthen (does t1 F) (does t (\<lambda>R w. (Inr (R t1), w))))"
        by (rule simul_one) (use yields_target [OF fr y] h in \<open>auto simp: at_target_def\<close>)
      then show ?thesis by (simp only: with_value_same in_reg_eq)
    qed
  qed
qed

subsection \<open>Code that is jumped over\<close>

definition stop_op :: "sq_opcode \<Rightarrow> sq_obj \<Rightarrow> bool" where
  "stop_op p v \<longleftrightarrow> (if p = OPC_AND then IsFalse v else if p = OPC_OR then \<not> IsFalse v else v \<noteq> SQNull)"

lemma logic_step:
  "i_op x \<in> {OPC_AND, OPC_OR, OPC_NULLCOALESCE} \<Longrightarrow> vm_step ops lits x d pc R w =
     (if stop_op (i_op x) (R (reg (i_arg2 x))) then Goto d (R(reg (i_arg0 x) := R (reg (i_arg2 x)))) w else Goto (pc + 1) R w)"
  by (elim insertE) (simp_all add: vm_step_def exec_defs Let_def stop_op_def)

lemma seg_run_next: "seg_run ops lits (x # B) 1 R w = seg_run ops lits B 0 R w"
  using seg_run_shift [of ops lits "[x]" B 0 R w] by simp

lemma seg_run_end: "seg_run ops lits c (length c) R w = Falls R w"
  by (subst seg_run.simps) simp

lemma run_over:
  assumes "i_op x \<in> {OPC_AND, OPC_OR, OPC_NULLCOALESCE}" "sarg1 x = int (length B)"
  shows "seg_run ops lits (x # B) 0 R w =
    (if stop_op (i_op x) (R (reg (i_arg2 x))) then Falls (R(reg (i_arg0 x) := R (reg (i_arg2 x)))) w else seg_run ops lits B 0 R w)"
proof -
  have d: "jump_dest x 0 = int (length (x # B))" using assms by (auto simp: jump_dest_def)
  show ?thesis
    using seg_run_next [of ops lits x B R w] seg_run_end [of ops lits "x # B"]
    by (subst seg_run.simps) (simp add: logic_step [OF assms(1)] d del: of_nat_Suc)
qed

text \<open>A conditional jump to the code behind \<open>B\<close> and a jump over that code.\<close>

fun fork :: "'w seq_end \<Rightarrow> (regs \<Rightarrow> 'w \<Rightarrow> 'w seq_end) \<Rightarrow> (regs \<Rightarrow> 'w \<Rightarrow> 'w seq_end) \<Rightarrow> 'w seq_end" where
  "fork (Falls R w) f g = f R w"
| "fork (Jumps R w) f g = g R w"
| "fork (Ends x) f g = Ends x"
| "fork Unknown f g = Unknown"

definition branch_op :: "sq_opcode \<Rightarrow> bool" where
  "branch_op p \<longleftrightarrow> p = OPC_JZ \<or> p = OPC_JCMP"

definition with_arg1 :: "int \<Rightarrow> sq_instr \<Rightarrow> sq_instr" where
  "with_arg1 d x = x\<lparr>i_arg1 := word_of_int d\<rparr>"

lemma with_arg1_fields [simp]: "i_op (with_arg1 d x) = i_op x" "i_arg0 (with_arg1 d x) = i_arg0 x" "i_arg2 (with_arg1 d x) = i_arg2 x"
  "i_arg3 (with_arg1 d x) = i_arg3 x"
  by (simp_all add: with_arg1_def)

lemma with_arg1_sarg: "- (2 ^ 31) \<le> d \<Longrightarrow> d < 2 ^ 31 \<Longrightarrow> sarg1 (with_arg1 d x) = d"
  by (simp add: with_arg1_def sarg1_def sint_of_int)

text \<open>A conditional jump goes on, jumps or stops, whatever its place and its distance.\<close>

lemma branch_step:
  assumes "branch_op (i_op x)"
  shows "(\<exists>S v. \<forall>d pc a. vm_step ops lits (with_arg1 a x) d pc R w = Goto (pc + 1) S v) \<or>
    (\<exists>S v. \<forall>d pc a. vm_step ops lits (with_arg1 a x) d pc R w = Goto d S v) \<or>
    (\<exists>y. \<forall>d pc a. vm_step ops lits (with_arg1 a x) d pc R w = Stop y)"
proof (cases "i_op x = OPC_JZ")
  case True
  show ?thesis
  proof (cases "(if IsFalse (R (reg (i_arg0 x))) then 1 else 0) \<noteq> i_arg2 x")
    case yes: True
    then show ?thesis using True by (intro disjI2 disjI1 exI allI) (simp add: jz_step)
  next
    case no: False
    then show ?thesis using True by (intro disjI1 exI allI) (simp add: jz_step)
  qed
next
  case False
  then have op: "i_op x = OPC_JCMP" using assms by (simp add: branch_op_def)
  let ?q = "ObjCmp (vo_heap ops w) (vo_meta ops w) (R (reg (i_arg2 x))) (R (reg (i_arg0 x)))"
  obtain e u where q: "cmp_val ops ?q w = Some (e, u)" using cmp_val_Some [of ops "vo_heap ops w" "vo_meta ops w"] by (metis option.exhaust prod.exhaust)
  have j: "jcmp_op (with_arg1 a x) = jcmp_op x" "jcmp_taken (with_arg1 a x) = jcmp_taken x" for a by (auto simp: jcmp_op_def jcmp_taken_def)
  have op': "i_op (with_arg1 a x) = OPC_JCMP" for a using op by simp
  show ?thesis
  proof (cases e)
    case (Inl y)
    then show ?thesis by (intro disjI2 exI allI) (simp add: jcmp_step' [OF op'] q)
  next
    case (Inr n)
    show ?thesis
    proof (cases "cmp_res (jcmp_op x) n")
      case None
      then show ?thesis by (intro disjI2 exI allI) (simp add: jcmp_step' [OF op'] q Inr j)
    next
      case (Some b)
      show ?thesis
      proof (cases "jcmp_taken x b")
        case True
        then show ?thesis by (intro disjI2 disjI1 exI allI) (simp add: jcmp_step' [OF op'] q Inr j Some)
      next
        case False
        then show ?thesis by (intro disjI1 exI allI) (simp add: jcmp_step' [OF op'] q Inr j Some)
      qed
    qed
  qed
qed

lemma with_arg1_same: "with_arg1 (sarg1 x) x = x"
  by (simp add: with_arg1_def sarg1_def)

lemma jmp_over:
  assumes "i_op m = OPC_JMP" "sarg1 m = int (length C)"
  shows "seg_run ops lits (m # C) 0 R w = Falls R w"
proof -
  have d: "jump_dest m 0 = int (length (m # C))" using assms by (simp add: jump_dest_def)
  have "vm_step ops lits m p 0 R w = Goto p R w" for p using assms(1) by (simp add: vm_step_def exec_defs Let_def)
  then show ?thesis using seg_run_end [of ops lits "m # C"] by (subst seg_run.simps) (simp add: d del: of_nat_Suc)
qed

lemma branch_run:
  assumes x: "branch_op (i_op x)" and m: "i_op m = OPC_JMP" "sarg1 m = int (length C)"
    and B: "steady ops lits B" and n: "length B < 2 ^ 31 - 1"
  shows "seg_run ops lits (with_arg1 (int (length B) + 1) x # B @ m # C) 0 R w =
    fork (seq_run ops lits [x] R w) (seg_run ops lits B 0) (seg_run ops lits C 0)"
proof -
  let ?x = "with_arg1 (int (length B) + 1) x"
  have "sarg1 ?x = int (length B) + 1" using n by (intro with_arg1_sarg) simp_all
  then have d: "jump_dest ?x 0 = int (length (?x # B @ [m]))" using x by (auto simp: jump_dest_def branch_op_def)
  consider S v where "\<And>d pc a. vm_step ops lits (with_arg1 a x) d pc R w = Goto (pc + 1) S v"
    | S v where "\<And>d pc a. vm_step ops lits (with_arg1 a x) d pc R w = Goto d S v"
    | y where "\<And>d pc a. vm_step ops lits (with_arg1 a x) d pc R w = Stop y"
    using branch_step [OF x, of ops lits R w] by blast
  then show ?thesis
  proof cases
    case 1
    have "seq_run ops lits [x] R w = Falls S v" using 1 [of "sarg1 x"] by (simp add: with_arg1_same)
    moreover have "seg_run ops lits (?x # B @ m # C) 0 R w = seg_run ops lits (B @ m # C) 0 S v"
      using seg_run_next [of ops lits ?x "B @ m # C" S v] by (subst seg_run.simps) (simp add: 1)
    moreover have "seg_run ops lits (m # C) 0 = Falls" by (intro ext) (rule jmp_over [OF m])
    ultimately show ?thesis by (simp add: steady_run [OF B])
  next
    case 2
    have "seq_run ops lits [x] R w = Jumps S v" using 2 [of "sarg1 x" "- 1"] by (simp add: with_arg1_same)
    moreover have "seg_run ops lits (?x # B @ m # C) (length (?x # B @ [m])) S v = seg_run ops lits C 0 S v"
      using seg_run_shift [of ops lits "?x # B @ [m]" C 0 S v] by simp
    ultimately show ?thesis by (subst seg_run.simps) (simp add: 2 d del: of_nat_Suc)
  next
    case 3
    have "seq_run ops lits [x] R w = Ends y" using 3 [of "sarg1 x"] by (simp add: with_arg1_same)
    then show ?thesis by (subst seg_run.simps) (simp add: 3)
  qed
qed

subsection \<open>Adding the conditional jump\<close>

definition jz_instr :: "nat \<Rightarrow> sq_instr" where
  "jz_instr t = new_instr OPC_JZ (int t) 0 0 0"

lemma jz_fields [simp]: "i_op (jz_instr t) = OPC_JZ" "i_arg0 (jz_instr t) = word_of_nat t" "i_arg2 (jz_instr t) = 0"
  by (simp_all add: jz_instr_def new_instr_def)

lemma add_jz:
  assumes j: "joined ops lits pre tail fs" and t: "t < 256" and p: "pending fs \<Longrightarrow> tested vs fs t"
  shows "\<exists>tail' x. fs_code (AddInstruction (jz_instr t) fs) = pre @ tail' @ [x] \<and> branch_op (i_op x) \<and> steady ops lits tail' \<and>
    simul (\<lambda>r. r = t \<and> length vs \<le> t) (andthen (seg_run ops lits tail 0) (seq_run ops lits [jz_instr t]))
      (andthen (seg_run ops lits tail' 0) (seq_run ops lits [x]))"
proof -
  let ?i = "jz_instr t"
  have code: "fs_code fs = pre @ tail" "steady ops lits tail" using j by (simp_all add: joined_def)
  show ?thesis
  proof (cases "fusing fs \<and> fs_code fs \<noteq> [] \<and> i_op (last (fs_code fs)) = OPC_CMP \<and> sarg1 (last (fs_code fs)) < 0xFF")
    case False
    have "\<not> fusing fs \<or> fs_code fs = [] \<or> peep fs (last (fs_code fs)) ?i = (fs, last (fs_code fs), Some ?i)"
      using False by (auto simp: peep_def peep_jz_def)
    then have "AddInstruction ?i fs = append_instr ?i fs" by (rule add_alone)
    then show ?thesis using code by (intro exI [of _ tail] exI [of _ ?i]) (simp add: append_instr_def branch_op_def del: seq_run.simps)
  next
    case True
    have ts: "tested vs fs t" using True p by (simp add: pending_def)
    define y where "y = last (fs_code fs)"
    have "tail \<noteq> []"
    proof
      assume "tail = []"
      then have "barrier (last (fs_code fs))" using True j by (simp add: joined_def)
      then show False using True by (simp add: barrier_def)
    qed
    define q where "q = butlast tail"
    have tl: "tail = q @ [y]" using \<open>tail \<noteq> []\<close> code(1) by (simp add: q_def y_def)
    have sq: "steady ops lits q" and sy: "straight (i_op y)"
      using j True \<open>tail \<noteq> []\<close> unfolding joined_def tl last_ok_def by simp_all
    have y: "i_op y = OPC_CMP" "i_arg0 ?i = i_arg0 y" "0 \<le> sarg1 y" "sarg1 y < 0xFF" "i_arg3 y < 8" "i_arg3 y \<noteq> CMP_3W" "length vs \<le> t"
      using True ts unfolding tested_def Let_def y_def [symmetric] by simp_all
    let ?f = "y\<lparr>i_op := OPC_JCMP, i_arg0 := ucast (i_arg1 y), i_arg3 := i_arg3 y OR push_bit 3 (jz_flag ?i), i_arg1 := i_arg1 ?i\<rparr>"
    have "peep fs y ?i = (fs, ?f, None)" using y by (simp add: peep_def peep_jz_def jz_flag_def)
    then have "fs_code (AddInstruction ?i fs) = pre @ q @ [?f]"
      using True code(1) tl by (simp add: AddInstruction_def fusing_def y_def [symmetric] butlast_append)
    moreover have "simul (\<lambda>r. r = t \<and> length vs \<le> t) (andthen (seg_run ops lits tail 0) (seq_run ops lits [?i]))
        (andthen (seg_run ops lits q 0) (seq_run ops lits [?f]))"
      unfolding simul_def
    proof (intro allI)
      fix R w
      have r: "reg (i_arg0 y) = t" using y(2) small_target [OF t] by simp
      have "seg_bind (seg_run ops lits tail 0 R w) (seq_run ops lits [?i]) =
          seg_bind (seg_run ops lits q 0 R w) (\<lambda>R w. seg_bind (seq_run ops lits [y] R w) (seq_run ops lits [?i]))"
        unfolding tl steady_run [OF sq] seg_bind_assoc by (simp only: straight_fun [OF sy])
      also have "\<dots> = seg_bind (seg_run ops lits q 0 R w) (seq_run ops lits [y, ?i])"
        by (simp only: seq_run_Cons [OF straight_one(2) [OF sy], symmetric])
      finally have e: "seg_bind (seg_run ops lits tail 0 R w) (seq_run ops lits [?i]) = seg_bind (seg_run ops lits q 0 R w) (seq_run ops lits [y, ?i])" .
      have "same_but (\<lambda>r. r = reg (i_arg0 y)) (seq_run ops lits [y, ?i] R w) (seq_run ops lits [?f] R w)" for R w
        by (rule jz_rule [OF y(1) jz_fields(1) y(2-6)]) simp
      then have "same_but (\<lambda>r. r = t \<and> length vs \<le> t) (seq_run ops lits [y, ?i] R w) (seq_run ops lits [?f] R w)" for R w
        by (rule same_but_mono) (use r y(7) in simp)
      then show "same_but (\<lambda>r. r = t \<and> length vs \<le> t) (seg_bind (seg_run ops lits tail 0 R w) (seq_run ops lits [?i]))
          (seg_bind (seg_run ops lits q 0 R w) (seq_run ops lits [?f]))"
        unfolding e by (rule same_but_bind)
    qed
    ultimately show ?thesis using sq by (intro exI [of _ q] exI [of _ ?f]) (simp add: branch_op_def del: seq_run.simps)
  qed
qed

subsection \<open>Logical operators\<close>

lemma steady_over:
  assumes "i_op x \<in> {OPC_AND, OPC_OR, OPC_NULLCOALESCE}" "sarg1 x = int (length B)" "steady ops lits B"
  shows "steady ops lits (x # B)"
  using assms(3) by (simp add: steady_def run_over [OF assms(1,2)])

lemma simul_logical:
  assumes t1: "at_target t t1 F1" and rd: "reads m F2" "m \<le> t"
  shows "simul (temps t t) (does t (\<lambda>R w. with_value (F1 R w) (\<lambda>a w. if P a then (Inr a, w) else F2 R w)))
    (andthen (does t1 F1) (\<lambda>R w. if P (R t1) then Falls (R(t := R t1)) w else does t F2 R w))"
  unfolding simul_def
proof (intro allI)
  fix R w
  obtain e u where f: "F1 R w = (e, u)" by fastforce
  show "same_but (temps t t) (does t (\<lambda>R w. with_value (F1 R w) (\<lambda>a w. if P a then (Inr a, w) else F2 R w)) R w)
      (seg_bind (does t1 F1 R w) (\<lambda>R w. if P (R t1) then Falls (R(t := R t1)) w else does t F2 R w))"
  proof (cases e)
    case (Inl x)
    then show ?thesis by (simp add: does_def f)
  next
    case (Inr v)
    have low: "R r = (R(t1 := v)) r" if "\<not> t \<le> r" for r using t1 that f Inr by (auto simp: at_target_def)
    have "F2 R u = F2 (R(t1 := v)) u" using rd low unfolding reads_def by (meson not_le order.strict_trans2)
    then show ?thesis using low by (auto simp: does_def f Inr temps_def split: prod.split sum.split)
  qed
qed

lemma logical_patched:
  assumes r1: "runs ops lits (temps t t1) (does t1 F1) fs fs1" and r2: "runs ops lits (temps t t) (does t F2) fs3 fs6"
    and x: "i_op x \<in> {OPC_AND, OPC_OR, OPC_NULLCOALESCE}" "i_arg0 x = word_of_nat t" "i_arg2 x = word_of_nat t1"
    and code: "fs_code fs3 = fs_code fs1 @ [x]"
    and code7: "fs_code fs7 = (fs_code fs6)[k := with_arg1 d (fs_code fs6 ! k)]" "\<not> fs_optimization fs7"
    and k: "k = length (fs_code fs1)" "d = int (length (fs_code fs6)) - 1 - int k" "length (fs_code fs6) < 2 ^ 31"
    and t: "t < 256" "t1 < 256" "at_target t t1 F1" and rd: "reads m F2" "m \<le> t"
  shows "runs ops lits (temps t t) (does t (\<lambda>R w. with_value (F1 R w) (\<lambda>a w. if stop_op (i_op x) a then (Inr a, w) else F2 R w))) fs fs7"
  unfolding runs_def
proof (intro allI impI)
  let ?F = "\<lambda>R w. with_value (F1 R w) (\<lambda>a w. if stop_op (i_op x) a then (Inr a, w) else F2 R w)"
  let ?K = "\<lambda>R w. if stop_op (i_op x) (R t1) then Falls (R(t := R t1)) w else does t F2 R w"
  fix pre tail
  assume j: "joined ops lits pre tail fs"
  obtain tail1 where j1: "joined ops lits pre tail1 fs1" and s1: "simul (temps t t1) (andthen (seg_run ops lits tail 0) (does t1 F1)) (seg_run ops lits tail1 0)"
    using r1 j unfolding runs_def by blast
  have c1: "fs_code fs1 = pre @ tail1" "steady ops lits tail1" using j1 by (simp_all add: joined_def)
  have "barrier x" using x(1) by (auto simp: barrier_def)
  then have "joined ops lits (pre @ tail1 @ [x]) [] fs3" using code c1 by (simp add: joined_def)
  then obtain B where jB: "joined ops lits (pre @ tail1 @ [x]) B fs6"
    and sB: "simul (temps t t) (andthen (seg_run ops lits [] 0) (does t F2)) (seg_run ops lits B 0)"
    using r2 unfolding runs_def by blast
  have c6: "fs_code fs6 = pre @ tail1 @ x # B" "steady ops lits B" using jB by (simp_all add: joined_def)
  define y where "y = with_arg1 d x"
  have "fs_code fs6 ! k = x" using k(1) c1 c6 by (simp add: nth_append)
  then have c7: "fs_code fs7 = pre @ tail1 @ y # B" using code7(1) k(1) c1 c6 by (simp add: list_update_append y_def)
  have d: "d = int (length B)" using k(1,2) c1 c6 by simp
  have y: "i_op y \<in> {OPC_AND, OPC_OR, OPC_NULLCOALESCE}" "sarg1 y = int (length B)"
    using x(1) k(3) c6 d by (simp_all add: y_def with_arg1_sarg)
  have st: "steady ops lits (tail1 @ y # B)" by (rule steady_append [OF c1(2) steady_over [OF y c6(2)]])
  have run: "seg_run ops lits (tail1 @ y # B) 0 = andthen (seg_run ops lits tail1 0) (seg_run ops lits (y # B) 0)"
    by (intro ext) (rule steady_run [OF c1(2)])
  have yr: "reg (i_arg0 y) = t" "reg (i_arg2 y) = t1" "i_op y = i_op x" using x t by (simp_all add: y_def small_target)
  have K: "simul (temps t t) ?K (seg_run ops lits (y # B) 0)"
  proof -
    have "same_but (temps t t) (does t F2 R w) (seg_run ops lits B 0 R w)" for R w using sB by (simp add: simul_def)
    then show ?thesis unfolding simul_def run_over [OF y] yr by simp
  qed
  have a: "simul (temps t t) (andthen (seg_run ops lits tail 0) (does t ?F)) (andthen (andthen (seg_run ops lits tail 0) (does t1 F1)) ?K)"
    using simul_logical [OF t(3) rd, of "stop_op (i_op x)"] unfolding simul_def by (simp add: seg_bind_assoc same_but_bind)
  have b: "simul (temps t t) (andthen (andthen (seg_run ops lits tail 0) (does t1 F1)) ?K) (andthen (seg_run ops lits tail1 0) ?K)"
  proof (rule simul_bind [OF s1])
    show "closes (andthen (seg_run ops lits tail 0) (does t1 F1))" by (rule closes_bind [OF joined_steady [OF j]]) simp
    have "keeps (temps t t1) (temps t t) (does t F2)" by (rule does_reads [OF rd(1)]) (use rd(2) in \<open>auto simp: temps_def\<close>)
    then show "keeps (temps t t1) (temps t t) ?K" unfolding keeps_def by (auto simp: temps_def)
  qed
  have c: "simul (temps t t) (andthen (seg_run ops lits tail1 0) ?K) (seg_run ops lits (tail1 @ y # B) 0)"
    unfolding run using K unfolding simul_def by (simp add: same_but_bind)
  show "\<exists>tail'. joined ops lits pre tail' fs7 \<and> simul (temps t t) (andthen (seg_run ops lits tail 0) (does t ?F)) (seg_run ops lits tail' 0)"
    using c7 st code7(2) simul_trans [OF a simul_trans [OF b c]] by (intro exI [of _ "tail1 @ y # B"]) (simp add: joined_def fusing_def)
qed

lemma move_one:
  assumes "cg_fns s = [fs]" "(if t \<noteq> t1 then add_instr OPC_MOVE (int t) (int t1) 0 0 else return ()) s = Inr (u, s')"
  shows "s' = with_fn s (moved t t1 fs)"
proof (cases "t = t1")
  case True
  have "with_fn s fs = s" using assms(1) by (cases s) (simp add: with_fn_def)
  then show ?thesis using assms(2) True by (simp add: return_def moved_def)
next
  case False
  then show ?thesis using assms by (simp add: add_one moved_def move_instr_def)
qed

lemma set_param_arg1: "set_param 1 d x = with_arg1 d x"
  by (simp add: set_param_def with_arg1_def)

lemma patch_code: "fs_code (SetInstructionParam k 1 d fs) = (fs_code fs)[k := with_arg1 d (fs_code fs ! k)]"
  by (simp add: SetInstructionParam_def set_param_arg1 del: One_nat_def)

lemma snooze_same: "same_code fs (SnoozeOpt fs)"
  by (simp add: same_code_def SnoozeOpt_def)

lemma took_snooze: "took vs fs (SnoozeOpt fs1) t \<longleftrightarrow> took vs fs fs1 t"
  by (simp add: took_def SnoozeOpt_def)

lemma jump_added:
  assumes "i_op x \<in> {OPC_JMP, OPC_AND, OPC_OR, OPC_NULLCOALESCE}"
  shows "AddInstruction x fs = append_instr x fs"
  by (rule add_alone) (use peep_jump [OF assms] in simp)

lemma moved_pending: "t1 < 256 \<Longrightarrow> i_op (last (fs_code fs)) \<noteq> OPC_CMP \<Longrightarrow> \<not> pending (moved t t1 fs)"
  using add_pending [OF move_added(2), of t1 t fs] by (auto simp: moved_def pending_def)

lemma moved_first:
  assumes "reads m F" "m \<le> t"
  shows "simul (temps t t) (does t F) (andthen (does t (in_reg t1)) (does t F))"
proof -
  have "F R w = F (R(t := v)) w" for R w v using assms unfolding reads_def by simp
  then show ?thesis by (auto simp: simul_def does_def in_reg_def split: prod.split sum.split)
qed

lemma logical_code:
  assumes m1: "value_code ops vs F1 q q1 j1 lhs" and m2: "value_code ops vs F2 False q2 j2 rhs" and rd: "reads (length vs) F2"
    and p: "p \<in> {OPC_AND, OPC_OR, OPC_NULLCOALESCE}"
  shows "value_code ops vs (\<lambda>R w. with_value (F1 R w) (\<lambda>a w. if stop_op p a then (Inr a, w) else F2 R w)) q False j
    (emitShortCircuitLogicalOp p lhs rhs)"
proof (rule value_codeI)
  let ?F = "\<lambda>R w. with_value (F1 R w) (\<lambda>a w. if stop_op p a then (Inr a, w) else F2 R w)"
  fix s fs s'
  assume s: "cg_fns s = [fs]" and fr: "frame vs fs" and pd: "pending fs \<Longrightarrow> q" and c: "emitShortCircuitLogicalOp p lhs rhs s = Inr ((), s')"
  note c = c [unfolded emitShortCircuitLogicalOp_def]
  obtain s1 where v1: "lhs s = Inr ((), s1)" using c by (auto simp: then_do_Inr)
  obtain fs1 t1 where x1: "cg_fns s1 = [fs1]" "yields ops vs F1 q1 j1 fs fs1 t1" by (rule value_codeE [OF m1 v1 s fr pd])
  note y1 = yieldsD [OF x1(2)]
  note w1 = took_frame [OF fr y1(2,1)]
  define fa where "fa = fs1\<lparr>fs_vlocals := fs_vlocals fs, fs_targetstack := fs_targetstack fs\<rparr>"
  have pa: "PopTarget fs1 = (t1, fa)" using pop_took [OF fr y1(2)] by (simp add: fa_def)
  have sa: "same_code fs1 fa" by (simp add: fa_def same_code_def)
  obtain t s2 where p2: "push_target None (with_fn s1 fa) = Inr (t, s2)" using c v1 pop_one [OF x1(1) pa] by (auto simp: then_do_Inr bind_Inr)
  from with_fn_fns p2 show "\<exists>fs' t. cg_fns s' = [fs'] \<and> yields ops vs ?F False j fs fs' t"
  proof (rule push_one)
    fix fs2
    assume f: "s2 = with_fn (with_fn s1 fa) fs2" "same_code fa fs2" "t = height fa" "t < 255"
      "fs_vlocals fs2 = fs_vlocals fa @ [temporary]" "fs_targetstack fs2 = t # fs_targetstack fa"
    have th: "t = height fs" using f(3) by (simp add: fa_def height_def)
    let ?x = "new_instr p (int t) 0 (int t1) 0"
    have xp: "i_op ?x = p" "i_arg0 ?x = word_of_nat t" "i_arg2 ?x = word_of_nat t1" by (simp_all add: new_instr_def)
    define fs3 where "fs3 = append_instr ?x fs2"
    have a3: "AddInstruction ?x fs2 = fs3" unfolding fs3_def by (rule jump_added) (use p xp in auto)
    define s3 where "s3 = with_fn s2 fs3"
    define k where "k = length (fs_code fs1)"
    have code3: "fs_code fs3 = fs_code fs1 @ [?x]" using sa f(2) by (simp add: fs3_def append_instr_def same_code_def)
    have k3: "GetCurrentPos fs3 = int k" by (simp add: GetCurrentPos_def code3 k_def)
    define fs4 where "fs4 = moved t t1 fs3"
    have s2: "cg_fns s2 = [fs2]" using f(1) by simp
    have s3: "cg_fns s3 = [fs3]" by (simp add: s3_def)
    obtain s4 s5 where v4: "(if t \<noteq> t1 then add_instr OPC_MOVE (int t) (int t1) 0 0 else return ()) s3 = Inr ((), s4)" and v5: "rhs s4 = Inr ((), s5)"
      and c5: "then_do (update_fs SnoozeOpt) (bind pop_target (\<lambda>second_exp.
          then_do (if t \<noteq> second_exp then add_instr OPC_MOVE (int t) (int second_exp) 0 0 else return ())
         (then_do (update_fs SnoozeOpt) (bind current_pos (\<lambda>pos. update_fs (SetInstructionParam k 1 (pos - int k))))))) s5 = Inr ((), s')"
      using c v1 pop_one [OF x1(1) pa] p2 add_one [OF s2, of p "int t" 0 "int t1" 0] pos_one [OF s3] a3 k3
      by (auto simp: then_do_Inr bind_Inr s3_def)
    have s4: "s4 = with_fn s3 fs4" using move_one [OF s3 v4] by (simp add: fs4_def)
    have t1: "t1 < length vs \<or> t1 = t" "t1 < 256" using y1(2) w1(3) th by (auto simp: took_def)
    have g3: "grows fs fs3"
    proof -
      have "grows fs2 fs3" by (simp add: fs3_def append_instr_def grows_def)
      then show ?thesis using grows_trans [OF y1(1) same_code_grows [OF same_code_trans [OF sa f(2)]]] grows_trans by blast
    qed
    have v3: "fs_vlocals fs3 = fs_vlocals fs @ [temporary]" "fs_targetstack fs3 = t # fs_targetstack fs"
      using f(5,6) by (simp_all add: fs3_def append_instr_def fa_def)
    have k4: "kept_frame fs3 fs4" "grows fs3 fs4" using moved_kept [of fs3 t t1] by (simp_all add: fs4_def)
    have v4': "fs_vlocals fs4 = fs_vlocals fs @ [temporary]" "fs_targetstack fs4 = t # fs_targetstack fs" using v3 k4(1) by (simp_all add: kept_frame_def)
    have g4: "grows fs fs4" by (rule grows_trans [OF g3 k4(2)])
    have fr3: "frame vs fs3" by (rule took_frame(1) [OF fr _ g3, of t]) (use v3 th f(4) in \<open>simp add: took_def\<close>)
    have fr4: "frame vs fs4" by (rule took_frame(1) [OF fr _ g4, of t]) (use v4' th f(4) in \<open>simp add: took_def\<close>)
    have h4: "height fs4 = Suc t" using v4' th by (simp add: height_def)
    have np: "\<not> pending fs4" unfolding fs4_def by (rule moved_pending [OF t1(2)]) (use code3 xp p in auto)
    have s4': "cg_fns s4 = [fs4]" by (simp add: s4)
    obtain fs5 t2 where x5: "cg_fns s5 = [fs5]" "yields ops vs F2 q2 j2 fs4 fs5 t2"
      by (rule value_codeE [OF m2 v5 s4' fr4]) (use np in auto)
    note y5 = yieldsD [OF x5(2)]
    define fb where "fb = (SnoozeOpt fs5)\<lparr>fs_vlocals := fs_vlocals fs4, fs_targetstack := fs_targetstack fs4\<rparr>"
    have pb: "PopTarget (SnoozeOpt fs5) = (t2, fb)"
      using pop_took [OF fr4] y5(2) took_snooze unfolding fb_def by blast
    have sb: "same_code fs5 fb" by (simp add: fb_def same_code_def SnoozeOpt_def)
    define fs6 where "fs6 = moved t t2 fb"
    define fs7 where "fs7 = SetInstructionParam k 1 (GetCurrentPos (SnoozeOpt fs6) - int k) (SnoozeOpt fs6)"
    have tl: "length vs \<le> t" using frame_height [OF fr] th by simp
    note o = operand_moved [OF fr4 x5(2) h4 tl f(4) sb _ _ rd, folded fs6_def]
    have e7: "cg_fns s' = [fs7]"
      using c5 update_one [OF x5(1), of SnoozeOpt] pop_one [OF with_fn_fns pb, of s5]
      by (auto simp: then_do_Inr bind_Inr update_one pos_one fs7_def fs6_def dest!: move_one [OF with_fn_fns])
    have v6: "fs_vlocals fs6 = fs_vlocals fs @ [temporary]" "fs_targetstack fs6 = t # fs_targetstack fs"
      using o(2,3) v4' by (simp_all add: fb_def)
    have code7: "fs_code fs7 = (fs_code fs6)[k := with_arg1 (int (length (fs_code fs6)) - 1 - int k) (fs_code fs6 ! k)]"
      unfolding fs7_def patch_code by (simp add: SnoozeOpt_def GetCurrentPos_def)
    have o6: "grows fs4 fs6" by (rule o(1)) (simp_all add: fb_def)
    have g67: "grows fs6 fs7" by (simp add: grows_def code7) (simp add: fs7_def SetInstructionParam_def SnoozeOpt_def)
    have tk: "took vs fs fs7 t" using v6 th f(4) by (simp add: took_def fs7_def SetInstructionParam_def SnoozeOpt_def)
    have np7: "\<not> fs_optimization fs7" by (simp add: fs7_def SetInstructionParam_def SnoozeOpt_def)
    have "runs ops lits (temps t t) (does t ?F) fs fs7" if cp: "complete lits fs7" for lits
    proof -
      have c6: "complete lits fs6" by (rule complete_before [OF cp g67])
      have c4: "complete lits fs4" by (rule complete_before [OF c6 o6])
      have "grows fs1 fs3" using same_code_grows [OF same_code_trans [OF sa f(2)]] by (simp add: fs3_def append_instr_def grows_def)
      then have c1: "complete lits fs1" using complete_before [OF complete_before [OF c4 k4(2)]] by blast
      have mv: "runs ops lits (\<lambda>r. False) (does t (in_reg t1)) fs3 fs4"
        unfolding fs4_def
        by (rule moved_runs [OF _ t1(2) c4 [unfolded fs4_def]]) (use f(4) t1 frame_local [OF fr3] y1(2) in \<open>auto simp: took_def th\<close>)
      have "runs ops lits (temps t t) (does t F2) fs4 fs6" by (rule o(4) [OF _ _ c6]) (simp_all add: fb_def)
      then have "runs ops lits (temps t t) (andthen (does t (in_reg t1)) (does t F2)) fs3 fs6"
        by (rule runs_trans [OF mv _ keeps_False]) simp_all
      then have "runs ops lits (temps t t) (does t F2) fs3 fs6" by (rule runs_as [OF _ moved_first [OF rd tl]])
      from logical_patched [OF y1(3) [OF c1, folded th] this _ xp(2,3) code3 code7 np7 k_def refl _ _ t1(2) yields_target [OF fr x1(2), folded th] rd tl]
      show ?thesis using p xp(1) c6 f(4) by (simp add: complete_def)
    qed
    then have "yields ops vs ?F False j fs fs7 t"
      using grows_trans [OF g4 grows_trans [OF o6 g67]] tk np7 tl th by (simp add: yields_def pending_def fusing_def)
    then show ?thesis using e7 by blast
  qed
qed

end
