(* ===== verification/CodeBranch.thy ===== *)
theory CodeBranch
  imports CodeJumps
begin

text \<open>The visitor of the conditional: a conditional jump over the first branch and a jump over the second.\<close>

subsection \<open>Forks\<close>

lemma fork_bind: "closed x \<Longrightarrow> fork (seg_bind x k) f g = seg_bind x (\<lambda>R w. fork (k R w) f g)"
  by (cases x) simp_all

lemma fork_keeps: "same_but T x y \<Longrightarrow> keeps T T' f \<Longrightarrow> keeps T T' g \<Longrightarrow> same_but T' (fork x f g) (fork y f g)"
  by (cases x; cases y) (auto simp: keeps_def)

lemma fork_simul: "simul T f f' \<Longrightarrow> simul T g g' \<Longrightarrow> same_but T (fork x f g) (fork x f' g')"
  by (cases x) (auto simp: simul_def)

lemma branch_closed:
  assumes "branch_op (i_op x)" "closes f" "closes g"
  shows "closed (fork (seq_run ops lits [x] R w) f g)"
proof -
  consider S v where "\<And>d pc a. vm_step ops lits (with_arg1 a x) d pc R w = Goto (pc + 1) S v"
    | S v where "\<And>d pc a. vm_step ops lits (with_arg1 a x) d pc R w = Goto d S v"
    | y where "\<And>d pc a. vm_step ops lits (with_arg1 a x) d pc R w = Stop y"
    using branch_step [OF assms(1), of ops lits R w] by blast
  then show ?thesis
  proof cases
    case 1
    have "seq_run ops lits [x] R w = Falls S v" using 1 [of "sarg1 x"] by (simp add: with_arg1_same)
    then show ?thesis using assms(2) by (simp add: closes_def)
  next
    case 2
    have "seq_run ops lits [x] R w = Jumps S v" using 2 [of "sarg1 x" "- 1"] by (simp add: with_arg1_same)
    then show ?thesis using assms(3) by (simp add: closes_def)
  next
    case 3
    have "seq_run ops lits [x] R w = Ends y" using 3 [of "sarg1 x"] by (simp add: with_arg1_same)
    then show ?thesis by simp
  qed
qed

lemma jz_run: "t < 256 \<Longrightarrow> seq_run ops lits [jz_instr t] R w = (if IsFalse (R t) then Jumps R w else Falls R w)"
  by (simp add: jz_step small_target)

lemma simul_ternary:
  assumes t1: "at_target t t1 F1" and rd: "reads m F2" "reads m F3" "m \<le> t"
  shows "simul (temps t t) (does t (\<lambda>R w. with_value (F1 R w) (\<lambda>a w. if P a then F3 R w else F2 R w)))
    (andthen (does t1 F1) (\<lambda>R w. if P (R t1) then does t F3 R w else does t F2 R w))"
  unfolding simul_def
proof (intro allI)
  fix R w
  obtain e u where f: "F1 R w = (e, u)" by fastforce
  show "same_but (temps t t) (does t (\<lambda>R w. with_value (F1 R w) (\<lambda>a w. if P a then F3 R w else F2 R w)) R w)
      (seg_bind (does t1 F1 R w) (\<lambda>R w. if P (R t1) then does t F3 R w else does t F2 R w))"
  proof (cases e)
    case (Inl x)
    then show ?thesis by (simp add: does_def f)
  next
    case (Inr v)
    have low: "R r = (R(t1 := v)) r" if "\<not> t \<le> r" for r using t1 that f Inr by (auto simp: at_target_def)
    have "F2 R u = F2 (R(t1 := v)) u" "F3 R u = F3 (R(t1 := v)) u"
      using rd low unfolding reads_def by (meson not_le order.strict_trans2)+
    then show ?thesis using low by (auto simp: does_def f Inr temps_def split: prod.split sum.split)
  qed
qed

subsection \<open>The patched code\<close>

definition patch :: "nat \<Rightarrow> int \<Rightarrow> sq_instr list \<Rightarrow> sq_instr list" where
  "patch k d c = c[k := with_arg1 d (c ! k)]"

lemma patch_at: "patch (length xs) d (xs @ x # ys) = xs @ with_arg1 d x # ys"
  by (simp add: patch_def list_update_append nth_append)

lemma ternary_patched:
  assumes r1: "runs ops lits (temps t t1) (does t1 F1) fs fs1" and same: "same_code fs1 fs2" "same_code (AddInstruction (jz_instr t1) fs2) fs3"
    and pd: "pending fs2 \<Longrightarrow> tested vs fs2 t1"
    and rB: "runs ops lits (temps t t) (does t F2) fs3 fs5" and rC: "runs ops lits (temps t t) (does t F3) fs6 fs8"
    and m: "fs_code fs6 = fs_code fs5 @ [m]" "i_op m = OPC_JMP"
    and kz: "Suc kz = length (fs_code fs3)" and km: "km = length (fs_code fs5)" and n: "length (fs_code fs8) < 2 ^ 31"
    and c9: "fs_code fs9 = patch kz (int km - int kz) (patch km (int (length (fs_code fs8)) - 1 - int km) (fs_code fs8))"
      "\<not> fs_optimization fs9"
    and t: "t < 256" "t1 < 256" "t1 < length vs \<or> t \<le> t1" "at_target t t1 F1" and rd: "reads (length vs) F2" "reads (length vs) F3" "length vs \<le> t"
  shows "runs ops lits (temps t t) (does t (\<lambda>R w. with_value (F1 R w) (\<lambda>a w. if IsFalse a then F3 R w else F2 R w))) fs fs9"
  unfolding runs_def
proof (intro allI impI)
  let ?F = "\<lambda>R w. with_value (F1 R w) (\<lambda>a w. if IsFalse a then F3 R w else F2 R w)"
  let ?K = "\<lambda>R w. if IsFalse (R t1) then does t F3 R w else does t F2 R w"
  fix pre tail
  assume j: "joined ops lits pre tail fs"
  obtain tail1 where j1: "joined ops lits pre tail1 fs1" and s1: "simul (temps t t1) (andthen (seg_run ops lits tail 0) (does t1 F1)) (seg_run ops lits tail1 0)"
    using r1 j unfolding runs_def by blast
  obtain A x where x: "fs_code (AddInstruction (jz_instr t1) fs2) = pre @ A @ [x]" "branch_op (i_op x)" and A: "steady ops lits A"
    and sA: "simul (\<lambda>r. r = t1 \<and> length vs \<le> t1) (andthen (seg_run ops lits tail1 0) (seq_run ops lits [jz_instr t1]))
      (andthen (seg_run ops lits A 0) (seq_run ops lits [x]))"
    using add_jz [OF same_code_joined [OF same(1) j1] t(2) pd] by blast
  have c3: "fs_code fs3 = pre @ A @ [x]" using same(2) x(1) by (simp add: same_code_def)
  have "barrier x" using x(2) by (auto simp: barrier_def branch_op_def)
  then have "joined ops lits (pre @ A @ [x]) [] fs3" using c3 by (simp add: joined_def)
  then obtain B where jB: "joined ops lits (pre @ A @ [x]) B fs5"
    and sB: "simul (temps t t) (andthen (seg_run ops lits [] 0) (does t F2)) (seg_run ops lits B 0)"
    using rB unfolding runs_def by blast
  have c5: "fs_code fs5 = pre @ A @ x # B" "steady ops lits B" using jB by (simp_all add: joined_def)
  have "joined ops lits (pre @ A @ x # B @ [m]) [] fs6" using m c5 by (simp add: joined_def barrier_def)
  then obtain C where jC: "joined ops lits (pre @ A @ x # B @ [m]) C fs8"
    and sC: "simul (temps t t) (andthen (seg_run ops lits [] 0) (does t F3)) (seg_run ops lits C 0)"
    using rC unfolding runs_def by blast
  have c8: "fs_code fs8 = pre @ A @ x # B @ m # C" "steady ops lits C" using jC by (simp_all add: joined_def)
  define y where "y = with_arg1 (int (length C)) m"
  define z where "z = with_arg1 (int (length B) + 1) x"
  have k: "kz = length (pre @ A)" "km = length (pre @ A @ x # B)" using kz km c3 c5 by simp_all
  have d: "int km - int kz = int (length B) + 1" "int (length (fs_code fs8)) - 1 - int km = int (length C)" using k c8 by simp_all
  have p1: "patch km (int (length C)) (fs_code fs8) = pre @ A @ x # B @ y # C"
    unfolding k(2) c8(1) using patch_at [of "pre @ A @ x # B" "int (length C)" m C] by (simp add: y_def)
  have p2: "patch kz (int (length B) + 1) (pre @ A @ x # B @ y # C) = pre @ A @ z # B @ y # C"
    unfolding k(1) using patch_at [of "pre @ A" "int (length B) + 1" x "B @ y # C"] by (simp add: z_def)
  have c9': "fs_code fs9 = pre @ A @ z # B @ y # C" by (simp only: c9(1) d p1 p2)
  have y: "i_op y = OPC_JMP" "sarg1 y = int (length C)" using m(2) n c8 by (simp_all add: y_def with_arg1_sarg)
  have "length B < 2 ^ 31 - 1" using n c8 by simp
  note run = branch_run [OF x(2) y c5(2) this, folded z_def, of R w for R w]
  have "steady ops lits (z # B @ y # C)"
    unfolding steady_def run using c5(2) c8(2) by (intro allI branch_closed [OF x(2)]) (simp_all add: steady_closes)
  then have st: "steady ops lits (A @ z # B @ y # C)" by (rule steady_append [OF A])
  have a: "simul (temps t t) (andthen (seg_run ops lits tail 0) (does t ?F)) (andthen (andthen (seg_run ops lits tail 0) (does t1 F1)) ?K)"
    using simul_ternary [OF t(4) rd, of IsFalse] unfolding simul_def by (simp add: seg_bind_assoc same_but_bind)
  have b: "simul (temps t t) (andthen (andthen (seg_run ops lits tail 0) (does t1 F1)) ?K) (andthen (seg_run ops lits tail1 0) ?K)"
  proof (rule simul_bind [OF s1])
    show "closes (andthen (seg_run ops lits tail 0) (does t1 F1))" by (rule closes_bind [OF joined_steady [OF j]]) simp
    have "keeps (temps t t1) (temps t t) (does t F2)" "keeps (temps t t1) (temps t t) (does t F3)"
      by (rule does_reads [OF rd(1)] does_reads [OF rd(2)]; use rd(3) in \<open>auto simp: temps_def\<close>)+
    then show "keeps (temps t t1) (temps t t) ?K" unfolding keeps_def by (auto simp: temps_def)
  qed
  have c: "simul (temps t t) (andthen (seg_run ops lits tail1 0) ?K) (seg_run ops lits (A @ z # B @ y # C) 0)"
    unfolding simul_def
  proof (intro allI)
    fix R w
    have cl: "closed (seg_run ops lits tail1 0 R w)" "closed (seg_run ops lits A 0 R w)"
      using joined_steady [OF j1] A by (simp_all add: closes_def steady_def)
    have k: "keeps (\<lambda>r. r = t1 \<and> length vs \<le> t1) (temps t t) (does t F2)" "keeps (\<lambda>r. r = t1 \<and> length vs \<le> t1) (temps t t) (does t F3)"
      by (rule does_reads [OF rd(1)] does_reads [OF rd(2)]; use t(3) in \<open>auto simp: temps_def\<close>)+
    have "seg_bind (seg_run ops lits tail1 0 R w) ?K =
        fork (seg_bind (seg_run ops lits tail1 0 R w) (seq_run ops lits [jz_instr t1])) (does t F2) (does t F3)"
      unfolding fork_bind [OF cl(1)] jz_run [OF t(2)] by (simp add: if_distrib [of "\<lambda>x. fork x _ _"] cong: if_cong)
    also have "same_but (temps t t) \<dots> (fork (seg_bind (seg_run ops lits A 0 R w) (seq_run ops lits [x])) (does t F2) (does t F3))"
      using sA unfolding simul_def by (intro fork_keeps [OF _ k]) blast
    finally have 1: "same_but (temps t t) (seg_bind (seg_run ops lits tail1 0 R w) ?K)
        (fork (seg_bind (seg_run ops lits A 0 R w) (seq_run ops lits [x])) (does t F2) (does t F3))" .
    have s: "simul (temps t t) (does t F2) (seg_run ops lits B 0)" "simul (temps t t) (does t F3) (seg_run ops lits C 0)"
      using sB sC by simp_all
    have "same_but (temps t t) (fork (seg_bind (seg_run ops lits A 0 R w) (seq_run ops lits [x])) (does t F2) (does t F3))
        (fork (seg_bind (seg_run ops lits A 0 R w) (seq_run ops lits [x])) (seg_run ops lits B 0) (seg_run ops lits C 0))"
      by (rule fork_simul [OF s])
    also have "\<dots> = seg_run ops lits (A @ z # B @ y # C) 0 R w"
    proof -
      have "seg_run ops lits (z # B @ y # C) 0 = (\<lambda>R w. fork (seq_run ops lits [x] R w) (seg_run ops lits B 0) (seg_run ops lits C 0))"
        by (intro ext) (rule run)
      then show ?thesis unfolding fork_bind [OF cl(2)] steady_run [OF A] by (simp only:)
    qed
    finally show "same_but (temps t t) (seg_bind (seg_run ops lits tail1 0 R w) ?K) (seg_run ops lits (A @ z # B @ y # C) 0 R w)"
      using 1 same_but_trans by blast
  qed
  show "\<exists>tail'. joined ops lits pre tail' fs9 \<and> simul (temps t t) (andthen (seg_run ops lits tail 0) (does t ?F)) (seg_run ops lits tail' 0)"
    using c9' st c9(2) simul_trans [OF a simul_trans [OF b c]] by (intro exI [of _ "A @ z # B @ y # C"]) (simp add: joined_def fusing_def)
qed

subsection \<open>The visitor\<close>

lemma jz_kept: "kept_frame fs (AddInstruction (jz_instr t) fs)" "grows fs (AddInstruction (jz_instr t) fs)"
  using add_kept [of "jz_instr t" fs] add_grows [of "jz_instr t" fs] by (simp_all add: plain_add_def)

lemma jz_last:
  "fs_code (AddInstruction (jz_instr t) fs) \<noteq> [] \<and> \<not> pending (AddInstruction (jz_instr t) fs)"
proof (cases "\<not> fusing fs \<or> fs_code fs = [] \<or> peep fs (last (fs_code fs)) (jz_instr t) = (fs, last (fs_code fs), Some (jz_instr t))")
  case True
  show ?thesis using add_alone [OF True] by (simp add: append_instr_def pending_def)
next
  case False
  then obtain x where "peep fs (last (fs_code fs)) (jz_instr t) = (fs, x, None)" "i_op x = OPC_JCMP"
    by (auto simp: peep_def peep_jz_def split: if_splits)
  then show ?thesis using False by (simp add: AddInstruction_def fusing_def pending_def)
qed

lemma frame_above:
  assumes "frame vs fs" "grows fs fs'" "fs_vlocals fs' = fs_vlocals fs @ [temporary]"
  shows "frame vs fs'" "height fs' = Suc (height fs)"
proof -
  obtain k where k: "fs_vlocals fs = vs @ replicate k temporary" using assms(1) by (auto simp: frame_def)
  have "fs_vlocals fs' = vs @ replicate (Suc k) temporary" by (simp add: assms(3) k replicate_append_same)
  then show "frame vs fs'" using assms(1,2) unfolding frame_def grows_def by metis
  show "height fs' = Suc (height fs)" by (simp add: assms(3) height_def)
qed

lemma popped:
  assumes "frame vs fs" "yields ops vs F q j fs fs1 t1"
  obtains fs2 where "PopTarget fs1 = (t1, fs2)" "same_code fs1 fs2" "fs_vlocals fs2 = fs_vlocals fs" "fs_targetstack fs2 = fs_targetstack fs"
    "fs_code fs2 = fs_code fs1"
proof -
  have "took vs fs fs1 t1" using assms(2) by (simp add: yields_def)
  from pop_took [OF assms(1) this] show ?thesis by (rule that) (simp_all add: same_code_def)
qed

lemma same_popped_tests: "fs_code fs2 = fs_code fs1 \<Longrightarrow> tested vs fs2 t \<longleftrightarrow> tested vs fs1 t"
  by (simp add: tested_def)

text \<open>A branch is visited above the target of the conditional, and its value moved there.\<close>

lemma operand_code:
  assumes m: "value_code ops vs F False q j m" and s: "cg_fns s = [fs]" and fr: "frame vs fs" and np: "\<not> pending fs"
    and h: "height fs = Suc t" and t: "length vs \<le> t" "t < 255" and rd: "reads (length vs) F"
    and c: "then_do m (bind pop_target (\<lambda>t1. then_do (if t \<noteq> t1 then add_instr OPC_MOVE (int t) (int t1) 0 0 else return ()) K)) s = Inr r"
  obtains s' fs' where "K s' = Inr r" "cg_fns s' = [fs']" "grows fs fs'" "fs_vlocals fs' = fs_vlocals fs" "fs_targetstack fs' = fs_targetstack fs"
    "\<And>lits. complete lits fs' \<Longrightarrow> runs ops lits (temps t t) (does t F) fs fs'"
proof -
  obtain s1 where v: "m s = Inr ((), s1)" using c by (auto simp: then_do_Inr)
  obtain fs1 t1 where x: "cg_fns s1 = [fs1]" "yields ops vs F q j fs fs1 t1" by (rule value_codeE [OF m v s fr]) (use np in auto)
  obtain fa where pa: "PopTarget fs1 = (t1, fa)" "same_code fs1 fa" "fs_vlocals fa = fs_vlocals fs" "fs_targetstack fa = fs_targetstack fs"
    using popped [OF fr x(2)] by metis
  obtain s2 where mv: "(if t \<noteq> t1 then add_instr OPC_MOVE (int t) (int t1) 0 0 else return ()) (with_fn s1 fa) = Inr ((), s2)" and k: "K s2 = Inr r"
    using c v pop_one [OF x(1) pa(1)] by (auto simp: then_do_Inr bind_Inr)
  note o = operand_moved [OF fr x(2) h t pa(2-4) rd]
  show ?thesis by (rule that [OF k _ o]) (simp add: move_one [OF with_fn_fns mv])
qed

lemma ternary_code:
  assumes m1: "value_code ops vs F1 q q1 True a" and m2: "value_code ops vs F2 False q2 j2 b" and m3: "value_code ops vs F3 False q3 j3 c"
    and rd: "reads (length vs) F2" "reads (length vs) F3"
  shows "value_code ops vs (\<lambda>R w. with_value (F1 R w) (\<lambda>v w. if IsFalse v then F3 R w else F2 R w)) q False j (emitTernary a b c)"
proof (rule value_codeI)
  let ?F = "\<lambda>R w. with_value (F1 R w) (\<lambda>v w. if IsFalse v then F3 R w else F2 R w)"
  fix s fs s'
  assume s: "cg_fns s = [fs]" and fr: "frame vs fs" and pd: "pending fs \<Longrightarrow> q" and e: "emitTernary a b c s = Inr ((), s')"
  note e = e [unfolded emitTernary_def]
  obtain s1 where v1: "a s = Inr ((), s1)" using e by (auto simp: then_do_Inr)
  obtain fs1 t1 where x1: "cg_fns s1 = [fs1]" "yields ops vs F1 q1 True fs fs1 t1" by (rule value_codeE [OF m1 v1 s fr pd])
  note y1 = yieldsD [OF x1(2)]
  note w1 = took_frame [OF fr y1(2,1)]
  obtain fa where pa: "PopTarget fs1 = (t1, fa)" "same_code fs1 fa" "fs_vlocals fa = fs_vlocals fs" "fs_targetstack fa = fs_targetstack fs"
    "fs_code fa = fs_code fs1" using popped [OF fr x1(2)] .
  define fj where "fj = AddInstruction (jz_instr t1) fa"
  define sj where "sj = with_fn s1 fj"
  have sj: "cg_fns sj = [fj]" by (simp add: sj_def)
  obtain t s3 where p3: "push_target None sj = Inr (t, s3)"
    and e3: "then_do b (bind pop_target (\<lambda>first_exp.
       then_do (if t \<noteq> first_exp then add_instr OPC_MOVE (int t) (int first_exp) 0 0 else return ())
      (bind current_pos (\<lambda>endfirstexp. then_do (add_instr OPC_JMP 0 0 0 0) (bind current_pos (\<lambda>jmppos.
       then_do c (bind pop_target (\<lambda>second_exp.
       then_do (if t \<noteq> second_exp then add_instr OPC_MOVE (int t) (int second_exp) 0 0 else return ())
      (bind current_pos (\<lambda>pos.
       then_do (update_fs (SetInstructionParam (nat jmppos) 1 (pos - jmppos)))
      (then_do (update_fs (SetInstructionParam (nat (GetCurrentPos fj)) 1 (endfirstexp - GetCurrentPos fj + 1)))
       (update_fs SnoozeOpt)))))))))))) s3 = Inr ((), s')"
    using e v1 pop_one [OF x1(1) pa(1)] add_one [OF with_fn_fns, of OPC_JZ "int t1" 0 0 0 s1 fa] pos_one [OF sj]
    by (auto simp: then_do_Inr bind_Inr sj_def fj_def jz_instr_def)
  from sj p3 show "\<exists>fs' t. cg_fns s' = [fs'] \<and> yields ops vs ?F False j fs fs' t"
  proof (rule push_one)
    fix fs3
    assume f: "s3 = with_fn sj fs3" "same_code fj fs3" "t = height fj" "t < 255" "fs_vlocals fs3 = fs_vlocals fj @ [temporary]"
      "fs_targetstack fs3 = t # fs_targetstack fj"
    have th: "t = height fs" using f(3) pa(3) jz_kept(1) [of fa t1] by (simp add: fj_def kept_frame_def height_def)
    have tl: "length vs \<le> t" using frame_height [OF fr] th by simp
    have v3: "fs_vlocals fs3 = fs_vlocals fs @ [temporary]" "fs_targetstack fs3 = t # fs_targetstack fs"
      using f(5,6) pa(3,4) jz_kept(1) [of fa t1] by (simp_all add: fj_def kept_frame_def)
    have gj: "grows fs1 fj" using grows_trans [OF same_code_grows [OF pa(2)] jz_kept(2)] by (simp add: fj_def)
    have g13: "grows fs1 fs3" by (rule grows_trans [OF gj same_code_grows [OF f(2)]])
    have g3: "grows fs fs3" by (rule grows_trans [OF y1(1) g13])
    note fr3 = frame_above [OF fr g3 v3(1), folded th]
    have s3: "cg_fns s3 = [fs3]" by (simp add: f(1))
    have jl: "fs_code fj \<noteq> []" "\<not> pending fj" using jz_last [of t1 fa] by (simp_all add: fj_def)
    have np3: "\<not> pending fs3" using same_code_pending [OF f(2)] jl(2) by blast
    from m2 s3 fr3(1) np3 fr3(2) tl f(4) rd(1) e3 show ?thesis
    proof (rule operand_code)
      fix s5 fs5
      assume o5: "cg_fns s5 = [fs5]" "grows fs3 fs5" "fs_vlocals fs5 = fs_vlocals fs3" "fs_targetstack fs5 = fs_targetstack fs3"
        "\<And>lits. complete lits fs5 \<Longrightarrow> runs ops lits (temps t t) (does t F2) fs3 fs5"
        and e5: "bind current_pos (\<lambda>endfirstexp. then_do (add_instr OPC_JMP 0 0 0 0) (bind current_pos (\<lambda>jmppos.
       then_do c (bind pop_target (\<lambda>second_exp.
       then_do (if t \<noteq> second_exp then add_instr OPC_MOVE (int t) (int second_exp) 0 0 else return ())
      (bind current_pos (\<lambda>pos.
       then_do (update_fs (SetInstructionParam (nat jmppos) 1 (pos - jmppos)))
      (then_do (update_fs (SetInstructionParam (nat (GetCurrentPos fj)) 1 (endfirstexp - GetCurrentPos fj + 1)))
       (update_fs SnoozeOpt)))))))))  s5 = Inr ((), s')"
      define m where "m = new_instr OPC_JMP 0 0 0 0"
      define fs6 where "fs6 = append_instr m fs5"
      define km where "km = length (fs_code fs5)"
      define kz where "kz = length (fs_code fj) - 1"
      have mo: "i_op m = OPC_JMP" by (simp add: m_def new_instr_def)
      have a6: "AddInstruction m fs5 = fs6" unfolding fs6_def by (rule jump_added) (simp add: mo)
      have c6: "fs_code fs6 = fs_code fs5 @ [m]" by (simp add: fs6_def append_instr_def)
      have v6: "fs_vlocals fs6 = fs_vlocals fs3" "fs_targetstack fs6 = fs_targetstack fs3" "grows fs5 fs6"
        using o5(3,4) by (simp_all add: fs6_def append_instr_def grows_def)
      have fr6: "frame vs fs6" using fr3(1) v6(1,3) o5(2) by (simp add: frame_def grows_def)
      have h6: "height fs6 = Suc t" using fr3(2) v6(1) by (simp add: height_def)
      have np6: "\<not> pending fs6" by (simp add: pending_def c6 mo)
      have pz: "GetCurrentPos fj = int kz" "Suc kz = length (fs_code fj)" using jl(1) by (simp_all add: GetCurrentPos_def kz_def of_nat_diff Suc_le_eq)
      have p5: "GetCurrentPos fs5 = int km - 1" "GetCurrentPos fs6 = int km" by (simp_all add: GetCurrentPos_def km_def c6)
      have s6: "cg_fns (with_fn s5 fs6) = [fs6]" by simp
      have e6: "then_do c (bind pop_target (\<lambda>second_exp.
         then_do (if t \<noteq> second_exp then add_instr OPC_MOVE (int t) (int second_exp) 0 0 else return ())
        (bind current_pos (\<lambda>pos.
         then_do (update_fs (SetInstructionParam km 1 (pos - int km)))
        (then_do (update_fs (SetInstructionParam kz 1 (int km - int kz))) (update_fs SnoozeOpt)))))) (with_fn s5 fs6) = Inr ((), s')"
        using e5 pos_one [OF o5(1)] add_one [OF o5(1), of OPC_JMP 0 0 0 0] pos_one [OF s6] a6
        by (auto simp: then_do_Inr bind_Inr p5 pz m_def)
      from m3 s6 fr6 np6 h6 tl f(4) rd(2) e6 show ?thesis
      proof (rule operand_code)
        fix s8 fs8
        assume o8: "cg_fns s8 = [fs8]" "grows fs6 fs8" "fs_vlocals fs8 = fs_vlocals fs6" "fs_targetstack fs8 = fs_targetstack fs6"
          "\<And>lits. complete lits fs8 \<Longrightarrow> runs ops lits (temps t t) (does t F3) fs6 fs8"
          and e8: "bind current_pos (\<lambda>pos. then_do (update_fs (SetInstructionParam km 1 (pos - int km)))
            (then_do (update_fs (SetInstructionParam kz 1 (int km - int kz))) (update_fs SnoozeOpt))) s8 = Inr ((), s')"
        define fs9 where "fs9 = SnoozeOpt (SetInstructionParam kz 1 (int km - int kz) (SetInstructionParam km 1 (GetCurrentPos fs8 - int km) fs8))"
        have s9: "cg_fns s' = [fs9]" using e8 by (auto simp: then_do_Inr bind_Inr pos_one [OF o8(1)] update_one [OF o8(1)] update_one fs9_def)
        have c9: "fs_code fs9 = patch kz (int km - int kz) (patch km (int (length (fs_code fs8)) - 1 - int km) (fs_code fs8))"
          by (simp add: fs9_def SnoozeOpt_def patch_def patch_code GetCurrentPos_def del: One_nat_def)
        have g89: "grows fs8 fs9" by (simp add: grows_def c9 patch_def) (simp add: fs9_def SetInstructionParam_def SnoozeOpt_def)
        have np9: "\<not> fs_optimization fs9" by (simp add: fs9_def SnoozeOpt_def)
        have v9: "fs_vlocals fs9 = fs_vlocals fs @ [temporary]" "fs_targetstack fs9 = t # fs_targetstack fs"
          using o8(3,4) v6 v3 by (simp_all add: fs9_def SnoozeOpt_def SetInstructionParam_def)
        have g59: "grows fs5 fs9" by (rule grows_trans [OF v6(3) grows_trans [OF o8(2) g89]])
        have "runs ops lits (temps t t) (does t ?F) fs fs9" if cp: "complete lits fs9" for lits
        proof (rule ternary_patched [OF _ pa(2) _ _ o5(5) o8(5) c6 mo _ km_def _ c9 np9])
          have c8: "complete lits fs8" and c5: "complete lits fs5" using complete_before [OF cp g89] complete_before [OF cp g59] by auto
          show "complete lits fs8" "complete lits fs5" by (fact c8 c5)+
          show "length (fs_code fs8) < 2 ^ 31" using c8 by (simp add: complete_def)
          show "runs ops lits (temps t t1) (does t1 F1) fs fs1"
            using y1(3) [OF complete_before [OF complete_before [OF c5 o5(2)] g13]] th by simp
          show "same_code (AddInstruction (jz_instr t1) fa) fs3" using f(2) by (simp add: fj_def)
          show "Suc kz = length (fs_code fs3)" using pz(2) f(2) by (simp add: same_code_def)
          show "tested vs fa t1" if "pending fa"
            using x1(2) same_code_pending [OF pa(2) that] same_popped_tests [OF pa(5)] by (simp add: yields_def)
          show "t1 < length vs \<or> t \<le> t1" using y1(2) th by (auto simp: took_def)
        qed (use f(4) w1(3) yields_target [OF fr x1(2)] th rd tl in simp_all)
        then have "yields ops vs ?F False j fs fs9 t"
          using grows_trans [OF g3 grows_trans [OF o5(2) g59]] v9 np9 tl th f(4) by (simp add: yields_def took_def pending_def fusing_def)
        then show ?thesis using s9 by blast
      qed
    qed
  qed
qed

end
