(* ===== verification/CodeThms.thy ===== *)
theory CodeThms
  imports CodeBranch
begin

text \<open>
  The code that the compiler emits for an operator expression computes the value of the expression.
\<close>

subsection \<open>Constant expressions\<close>

text \<open>The expressions that are evaluated at compile time: \<open>isConstEvaluable\<close> where nothing is captured.\<close>

fun constant_expr :: "local_var list \<Rightarrow> (string \<Rightarrow> sq_obj option) \<Rightarrow> expr \<Rightarrow> bool" where
  "constant_expr vs consts (LiteralExpr l) \<longleftrightarrow> True"
| "constant_expr vs consts (IdExpr x) \<longleftrightarrow> local_from x vs (length vs) = None \<and> consts x \<noteq> None"
| "constant_expr vs consts (UnExpr p e) \<longleftrightarrow> p \<noteq> TO_RESUME \<and> p \<noteq> TO_CLONE \<and> constant_expr vs consts e"
| "constant_expr vs consts (BinExpr p l r) \<longleftrightarrow> constant_expr vs consts l \<and> constant_expr vs consts r"
| "constant_expr vs consts (TerExpr a b c) \<longleftrightarrow> constant_expr vs consts a \<and> constant_expr vs consts b \<and> constant_expr vs consts c"

lemma isConstEvaluable_frame: "frame vs fs \<Longrightarrow> isConstEvaluable consts e [fs] = (constant_expr vs consts e, [fs])"
  by (induction e) (auto simp: frame_variable frame_outer simp del: GetOuterVariable.simps)

lemma score_frame: "frame vs fs \<Longrightarrow> \<exists>n. getSubtreeConstScore consts e [fs] = (n, [fs])"
proof (induction e)
  case (IdExpr x)
  then show ?case by (auto simp: findConstScoredVar_def frame_outer Let_def simp del: GetOuterVariable.simps split: option.split)
next
  case (UnExpr p e)
  then show ?case by (cases "p = TO_INLINE_CONST"; cases "p = TO_RESUME \<or> p = TO_CLONE") auto
next
  case (BinExpr p l r)
  then obtain m n where "getSubtreeConstScore consts l [fs] = (m, [fs])" "getSubtreeConstScore consts r [fs] = (n, [fs])" by blast
  then show ?case by simp
next
  case (TerExpr a b c)
  then obtain m n k where "getSubtreeConstScore consts a [fs] = (m, [fs])" "getSubtreeConstScore consts b [fs] = (n, [fs])"
    "getSubtreeConstScore consts c [fs] = (k, [fs])" by blast
  then show ?case by simp
qed simp

text \<open>The operators on the values of constant expressions, \<open>C\<close>, depend on their operands alone.\<close>

definition pure_value :: "sq_obj set \<Rightarrow> ('w \<Rightarrow> (vm_error + sq_obj) \<times> 'w) \<Rightarrow> bool" where
  "pure_value C f \<longleftrightarrow> (\<exists>r. (\<forall>w. f w = (r, w)) \<and> (\<forall>v. r = Inr v \<longrightarrow> v \<in> C))"

definition pure_ops :: "'w expr_ops \<Rightarrow> sq_obj set \<Rightarrow> bool" where
  "pure_ops eo C \<longleftrightarrow>
     (\<forall>p. \<forall>v \<in> C. p \<noteq> TO_RESUME \<longrightarrow> p \<noteq> TO_CLONE \<longrightarrow> pure_value C (un_value eo p v)) \<and>
     (\<forall>p. \<forall>a \<in> C. \<forall>b \<in> C. \<not> logical_op p \<longrightarrow> pure_value C (bin_value eo p a b))"

fun literals :: "expr \<Rightarrow> literal set" where
  "literals (LiteralExpr l) = {l}"
| "literals (IdExpr x) = {}"
| "literals (UnExpr p e) = literals e"
| "literals (BinExpr p l r) = literals l \<union> literals r"
| "literals (TerExpr a b c) = literals a \<union> literals b \<union> literals c"

lemma pure_valueD: "pure_value C f \<Longrightarrow> f w = (Inr v, w') \<Longrightarrow> w' = w \<and> v \<in> C \<and> (\<forall>u. f u = (Inr v, u))"
  by (auto simp: pure_value_def)

lemma const_valueE:
  assumes "const_value x k = (Inr v, w')"
  obtains a w where "x = (Inr a, w)" "k a w = (Inr v, w')"
  using assms by (cases x; cases "fst x") auto

lemma const_division:
  assumes "finish_val ops (ARITH_OP mm CHR ''/'' a b) w = (Inr v, w')"
  shows "finish_val ops (arith_nozero mm a b) w = (Inr v, w')"
  using assms by (auto simp: ARITH_OP_def arith_nozero_def int_arith_def float_arith_def Let_def finish_val_def split: if_splits)

lemma const_bin_value:
  assumes "const_bin eo p a b w = (Inr v, w')" "\<not> logical_op p"
  shows "bin_value eo p a b w = (Inr v, w')"
proof (cases "p = TO_DIV")
  case True
  then show ?thesis
    using assms by (auto simp: const_bin_def bin_value_def Let_def split: prod.splits sum.splits intro: const_division)
next
  case False
  then show ?thesis using assms by (auto simp: const_bin_def logical_op_def split: prod.splits sum.splits)
qed

lemma const_eval:
  assumes "pure_ops eo C" "ran consts \<subseteq> C" and vars: "\<And>x c. local_from x vs (length vs) = None \<Longrightarrow> consts x = Some c \<Longrightarrow> vars x = c"
  shows "constant_expr vs consts e \<Longrightarrow> convertLiteral (eo_str eo) ` literals e \<subseteq> C \<Longrightarrow> constEval eo consts e w = (Inr v, w') \<Longrightarrow>
    v \<in> C \<and> w' = w \<and> (\<forall>u. eval eo vars e u = (Inr v, u))"
proof (induction e arbitrary: w v w')
  case (IdExpr x)
  then show ?case using assms(2) vars [of x] by (auto split: option.splits intro: ranI)
next
  case (UnExpr p e)
  have p: "p \<noteq> TO_RESUME" "p \<noteq> TO_CLONE" using UnExpr.prems(1) by auto
  have "const_value (constEval eo consts e w) (const_un eo p) = (Inr v, w')" using UnExpr.prems(3) p by simp
  then obtain a w1 where a: "constEval eo consts e w = (Inr a, w1)" and u: "const_un eo p a w1 = (Inr v, w')" by (rule const_valueE)
  have i: "a \<in> C" "w1 = w" "\<And>u. eval eo vars e u = (Inr a, u)" using UnExpr.IH [OF _ _ a] UnExpr.prems(1,2) by auto
  have "un_value eo p a w1 = (Inr v, w')" using u p by (auto simp: const_un_def split: prod.splits sum.splits)
  then show ?case using pure_valueD [of C "un_value eo p a" w1 v w'] assms(1) i p by (simp add: pure_ops_def)
next
  case (BinExpr p l r)
  have "const_value (constEval eo consts l w) (\<lambda>a w. const_value (constEval eo consts r w) (\<lambda>b w. const_bin eo p a b w)) = (Inr v, w')"
    using BinExpr.prems(3) by simp
  then obtain a w1 where a: "constEval eo consts l w = (Inr a, w1)"
    and k: "const_value (constEval eo consts r w1) (\<lambda>b w. const_bin eo p a b w) = (Inr v, w')" by (rule const_valueE)
  from k obtain b w2 where b: "constEval eo consts r w1 = (Inr b, w2)" and z: "const_bin eo p a b w2 = (Inr v, w')" by (rule const_valueE)
  have i: "a \<in> C" "w1 = w" "\<And>u. eval eo vars l u = (Inr a, u)" using BinExpr.IH(1) [OF _ _ a] BinExpr.prems(1,2) by auto
  have j: "b \<in> C" "w2 = w1" "\<And>u. eval eo vars r u = (Inr b, u)" using BinExpr.IH(2) [OF _ _ b] BinExpr.prems(1,2) by auto
  show ?case
  proof (cases "logical_op p")
    case True
    then show ?thesis using z i j by (auto simp: const_bin_def stops_at_def logical_op_def)
  next
    case False
    then show ?thesis
      using pure_valueD [of C "bin_value eo p a b" w2 v w'] const_bin_value [OF z False] assms(1) i j
      by (auto simp: pure_ops_def stops_at_def logical_op_def)
  qed
next
  case (TerExpr a b c)
  have "const_value (constEval eo consts a w) (\<lambda>v w. if IsFalse v then constEval eo consts c w else constEval eo consts b w) = (Inr v, w')"
    using TerExpr.prems(3) by simp
  then obtain x w1 where x: "constEval eo consts a w = (Inr x, w1)"
    and k: "(if IsFalse x then constEval eo consts c w1 else constEval eo consts b w1) = (Inr v, w')" by (rule const_valueE)
  have i: "w1 = w" "\<And>u. eval eo vars a u = (Inr x, u)" using TerExpr.IH(1) [OF _ _ x] TerExpr.prems(1,2) by auto
  show ?case using TerExpr.IH(2,3) [of w1 v w'] TerExpr.prems(1,2) k i by (cases "IsFalse x") auto
qed auto

subsection \<open>What is compiled\<close>

text \<open>
  Identifiers that are not the function itself, and the operators whose instructions are modelled. A
  \<open>const\<close> expression stands for a constant.
\<close>

fun plain_expr :: "string option \<Rightarrow> local_var list \<Rightarrow> (string \<Rightarrow> sq_obj option) \<Rightarrow> expr \<Rightarrow> bool" where
  "plain_expr name vs consts (IdExpr x) \<longleftrightarrow> name \<noteq> Some x"
| "plain_expr name vs consts (LiteralExpr l) \<longleftrightarrow> True"
| "plain_expr name vs consts (UnExpr p e) \<longleftrightarrow>
     p \<in> {TO_NEG, TO_NOT, TO_BNOT, TO_PAREN, TO_INLINE_CONST} \<and> (p = TO_INLINE_CONST \<longrightarrow> constant_expr vs consts e) \<and>
     plain_expr name vs consts e"
| "plain_expr name vs consts (BinExpr p l r) \<longleftrightarrow>
     p \<noteq> TO_IN \<and> p \<noteq> TO_INSTANCEOF \<and> plain_expr name vs consts l \<and> plain_expr name vs consts r"
| "plain_expr name vs consts (TerExpr a b c) \<longleftrightarrow> plain_expr name vs consts a \<and> plain_expr name vs consts b \<and> plain_expr name vs consts c"

text \<open>
  An integer literal on the left of an addition, or on the right of a subtraction, is compiled as
  an addition of it to the other operand.
\<close>

fun as_compiled :: "(expr \<Rightarrow> bool) \<Rightarrow> expr \<Rightarrow> expr" where
  "as_compiled folded (IdExpr x) = IdExpr x"
| "as_compiled folded (LiteralExpr l) = LiteralExpr l"
| "as_compiled folded (UnExpr p e) =
     UnExpr p (if p = TO_INLINE_CONST \<or> p \<noteq> TO_PAREN \<and> folded e then e else as_compiled folded e)"
| "as_compiled folded (BinExpr p l r) =
     (if logical_op p then BinExpr p (as_compiled folded l) (as_compiled folded r)
      else
        (case immediate p l r of
           Some (i, left) \<Rightarrow> BinExpr TO_ADD (if left then as_compiled folded r else as_compiled folded l) (LiteralExpr (LK_INT (word_of_int i)))
         | None \<Rightarrow> BinExpr p (if folded l then l else as_compiled folded l) (if folded r then r else as_compiled folded r)))"
| "as_compiled folded (TerExpr a b c) =
     TerExpr (as_compiled folded a) (if folded b then b else as_compiled folded b) (if folded c then c else as_compiled folded c)"

text \<open>
  The conditional jump of \<open>?:\<close> is fused with a comparison that ends the code before it. \<open>q\<close> tells
  whether one may, and \<open>jumps_ok\<close> that the comparison is the one of the condition and no \<open><=>\<close>.
\<close>

definition comparison :: "bin_op \<Rightarrow> bool" where
  "comparison p \<longleftrightarrow> p \<in> {TO_GE, TO_GT, TO_LE, TO_LT, TO_3CMP}"

fun leaves :: "bool \<Rightarrow> expr \<Rightarrow> bool" where
  "leaves q (IdExpr x) \<longleftrightarrow> q"
| "leaves q (LiteralExpr l) \<longleftrightarrow> False"
| "leaves q (UnExpr p e) \<longleftrightarrow> p = TO_PAREN \<and> leaves q e"
| "leaves q (BinExpr p l r) \<longleftrightarrow> comparison p"
| "leaves q (TerExpr a b c) \<longleftrightarrow> False"

fun jumpable :: "bool \<Rightarrow> expr \<Rightarrow> bool" where
  "jumpable q (IdExpr x) \<longleftrightarrow> \<not> q"
| "jumpable q (UnExpr p e) \<longleftrightarrow> (p = TO_PAREN \<longrightarrow> jumpable q e)"
| "jumpable q (BinExpr p l r) \<longleftrightarrow> p \<noteq> TO_3CMP"
| "jumpable q e \<longleftrightarrow> True"

fun jumps_ok :: "bool \<Rightarrow> expr \<Rightarrow> bool" where
  "jumps_ok q (IdExpr x) \<longleftrightarrow> True"
| "jumps_ok q (LiteralExpr l) \<longleftrightarrow> True"
| "jumps_ok q (UnExpr p e) \<longleftrightarrow> p = TO_INLINE_CONST \<or> jumps_ok q e"
| "jumps_ok q (BinExpr p l r) \<longleftrightarrow>
     (if logical_op p then jumps_ok q l \<and> jumps_ok False r
      else
        (case immediate p l r of
           Some (i, left) \<Rightarrow> jumps_ok q (if left then r else l)
         | None \<Rightarrow> jumps_ok q l \<and> jumps_ok (leaves q l) r))"
| "jumps_ok q (TerExpr a b c) \<longleftrightarrow> jumps_ok q a \<and> jumpable q a \<and> jumps_ok False b \<and> jumps_ok False c"

subsection \<open>Operators\<close>

lemma reads_eval: "reads (length vs) (\<lambda>R w. eval eo (variable vs consts R) e w)"
  unfolding reads_def
proof (intro allI impI)
  fix R S :: regs and w
  assume "\<forall>r < length vs. R r = S r"
  then have "variable vs consts R = variable vs consts S"
    using local_from_name by (intro ext) (auto simp: variable_def split: option.split)
  then show "eval eo (variable vs consts R) e w = eval eo (variable vs consts S) e w" by simp
qed

lemma arith_fast_same: "c \<in> {CHR ''+'', CHR ''-'', CHR ''*''} \<Longrightarrow> arith_fast mm c a b = ARITH_OP mm c a b"
  by (auto simp: arith_fast_def ARITH_OP_def int_arith_def float_arith_def Let_def)

lemma value_code_weaken: "value_code ops vs F q False j m \<Longrightarrow> value_code ops vs F q q' j m"
  unfolding value_code_def yields_def by blast

lemma value_code_from:
  assumes "value_code ops vs F q q' j m'" "\<And>s r. m s = Inr r \<Longrightarrow> m' s = Inr r"
  shows "value_code ops vs F q q' j m"
  using assms unfolding value_code_def by blast

lemma value_code_cong:
  assumes "value_code ops vs F q q' j m'" "\<And>s fs. cg_fns s = [fs] \<Longrightarrow> frame vs fs \<Longrightarrow> m s = m' s"
  shows "value_code ops vs F q q' j m"
proof (rule value_codeI)
  fix s fs s'
  assume s: "cg_fns s = [fs]" "frame vs fs" and p: "pending fs \<Longrightarrow> q" and m: "m s = Inr ((), s')"
  have r: "m' s = Inr ((), s')" using m assms(2) [OF s] by simp
  obtain fs' t where "cg_fns s' = [fs']" "yields ops vs F q' j fs fs' t" by (rule value_codeE [OF assms(1) r s p])
  then show "\<exists>fs' t. cg_fns s' = [fs'] \<and> yields ops vs F q' j fs fs' t" by blast
qed

definition bin_instr :: "bin_op \<Rightarrow> nat \<Rightarrow> nat \<Rightarrow> nat \<Rightarrow> sq_instr" where
  "bin_instr p t a b = new_instr (fst (bin_opcode p)) (int t) (int b) (int a) (snd (bin_opcode p))"

lemma bin_instr_fields:
  "i_op (bin_instr p t a b) = fst (bin_opcode p)" "i_arg0 (bin_instr p t a b) = word_of_nat t" "i_arg1 (bin_instr p t a b) = word_of_nat b"
  "i_arg2 (bin_instr p t a b) = word_of_nat a" "i_arg3 (bin_instr p t a b) = word_of_int (snd (bin_opcode p))"
  by (simp_all add: bin_instr_def new_instr_def)

lemma bin_instr_ok:
  assumes "\<not> logical_op p" "p \<noteq> TO_IN" "p \<noteq> TO_INSTANCEOF" "b < 256"
  shows "last_ok (bin_instr p t a b) \<and> i_op (bin_instr p t a b) \<notin> {OPC_DLOAD, OPC_DMOVE, OPC_MOVE, OPC_LOAD, OPC_LOADNULLS} \<and>
    i_arg0 (bin_instr p t a b) = word_of_nat t \<and> i_arg1 (bin_instr p t a b) = word_of_nat b \<and> i_arg2 (bin_instr p t a b) = word_of_nat a \<and>
    (i_op (bin_instr p t a b) = OPC_EQ \<or> i_op (bin_instr p t a b) = OPC_NE \<longrightarrow> i_arg3 (bin_instr p t a b) = 0) \<and>
    (i_op (bin_instr p t a b) = OPC_CMP \<longrightarrow> comparison p \<and> (p \<noteq> TO_3CMP \<longrightarrow> i_arg3 (bin_instr p t a b) \<noteq> CMP_3W))"
proof -
  have "sint (word_of_int (int b) :: u32) = int b" using assms(4) by (intro sint_of_int) simp_all
  then have s: "sarg1 (bin_instr p t a b) = int b" by (simp add: sarg1_def bin_instr_fields)
  show ?thesis
    using assms(1-3) s
    by (cases p) (simp_all add: bin_instr_fields bin_opcode_def last_ok_def straight_def comparison_def logical_op_def
        CMP_GE_def CMP_G_def CMP_LE_def CMP_L_def CMP_3W_def)
qed

lemma bin_instr_value:
  assumes "\<not> logical_op p" "p \<noteq> TO_IN" "p \<noteq> TO_INSTANCEOF" "a < 256" "b < 256"
  shows "result_of (eo_vm eo) lits (bin_instr p t a b) R w = bin_value eo p (R a) (R b) w"
proof -
  let ?i = "bin_instr p t a b"
  have r: "reg1 ?i = b" "reg (i_arg2 ?i) = a"
    using assms(4,5) by (simp_all add: reg1_def reg_def bin_instr_fields unat_of_nat)
  have c: "cmp_val (eo_vm eo) (ObjCmp (vo_heap (eo_vm eo) w) (vo_meta (eo_vm eo) w) (R a) (R b)) w \<noteq> None" by (rule cmp_val_Some)
  show ?thesis
    using assms(1-3) c r
    by (cases p) (auto simp: result_of_def bin_instr_fields bin_opcode_def target_val_def bin_value_def cmp_value_def arith_fast_same
        cond_literal_def logical_op_def Let_def BW_OR_def BW_AND_def BW_XOR_def BW_USHIFTR_def BW_SHIFTR_def BW_SHIFTL_def
        CMP_GE_def CMP_G_def CMP_LE_def CMP_L_def CMP_3W_def)
qed

lemma unary_from:
  assumes "emitUnaryOp p m s = Inr r"
  shows "then_do m (bind pop_target (\<lambda>t1. bind (push_target None) (\<lambda>t. update_fs (AddInstruction (new_instr p (int t) (int t1) 0 0))))) s = Inr r"
  using assms by (auto simp: emitUnaryOp_def then_do_Inr bind_Inr add_instr_def split: if_splits)

lemma unary_code:
  assumes "value_code (eo_vm eo) vs F q q1 j1 m" "p \<in> {TO_NEG, TO_NOT, TO_BNOT}"
  shows "value_code (eo_vm eo) vs (\<lambda>R w. with_value (F R w) (un_value eo p)) q False j (emitUnaryOp (un_opcode p) m)"
proof (rule value_code_from [OF one_code [OF assms(1), of "\<lambda>t t1. new_instr (un_opcode p) (int t) (int t1) 0 0" "un_value eo p"] unary_from])
  show "last_ok (new_instr (un_opcode p) (int t) (int t1) 0 0) \<and> \<not> fused_with (i_op (new_instr (un_opcode p) (int t) (int t1) 0 0)) \<and>
      i_op (new_instr (un_opcode p) (int t) (int t1) 0 0) \<notin> {OPC_DLOAD, OPC_DMOVE, OPC_CMP} \<and>
      i_arg0 (new_instr (un_opcode p) (int t) (int t1) 0 0) = word_of_nat t" for t t1
    using assms(2) by (auto simp: new_instr_def un_opcode_def last_ok_def straight_def fused_with_def)
  show "result_of (eo_vm eo) lits (new_instr (un_opcode p) (int t) (int t1) 0 0) R w = un_value eo p (R t1) w" if "t1 < 256" for t t1 lits R w
    using assms(2) that
    by (auto simp: result_of_def new_instr_def un_opcode_def target_val_def un_value_def reg1_def unat_of_nat Let_def split: sq_obj.split)
qed

lemma addi_code:
  assumes "value_code (eo_vm eo) vs F q q1 j1 m" "- (2 ^ 31) \<le> i" "i < 2 ^ 31"
  shows "value_code (eo_vm eo) vs (\<lambda>R w. with_value (F R w) (\<lambda>a w. bin_value eo TO_ADD a (SQInteger (word_of_int i)) w)) q False j (emit_addi i m)"
  unfolding emit_addi_def add_instr_def
proof (rule one_code [OF assms(1)])
  have "sint (word_of_int i :: u32) = i" using assms(2,3) by (intro sint_of_int) simp_all
  then have n: "scast (word_of_int i :: u32) = (word_of_int i :: u64)" by (simp add: scast_eq)
  show "last_ok (new_instr OPC_ADDI (int t) i (int t1) 0) \<and> \<not> fused_with (i_op (new_instr OPC_ADDI (int t) i (int t1) 0)) \<and>
      i_op (new_instr OPC_ADDI (int t) i (int t1) 0) \<notin> {OPC_DLOAD, OPC_DMOVE, OPC_CMP} \<and>
      i_arg0 (new_instr OPC_ADDI (int t) i (int t1) 0) = word_of_nat t" for t t1
    by (auto simp: new_instr_def last_ok_def straight_def fused_with_def)
  show "result_of (eo_vm eo) lits (new_instr OPC_ADDI (int t) i (int t1) 0) R w = bin_value eo TO_ADD (R t1) (SQInteger (word_of_int i)) w"
    if "t1 < 256" for t t1 lits R w
    using that n
    by (simp add: result_of_def new_instr_def target_val_def bin_value_def load_int_def reg_def unat_of_nat Let_def arith_fast_same)
qed

lemma immediate_range: "immediate p l r = Some (i, left) \<Longrightarrow> - (2 ^ 31) \<le> i \<and> i < 2 ^ 31"
proof -
  have "literal_in_int_range e = Some i \<Longrightarrow> - (2 ^ 31) \<le> i \<and> i < 2 ^ 31" for e i
    by (cases e rule: literal_in_int_range.cases) (auto simp: INT_RANGE_MAX_def INT_RANGE_MIN_def split: if_splits)
  then show "immediate p l r = Some (i, left) \<Longrightarrow> - (2 ^ 31) \<le> i \<and> i < 2 ^ 31"
    by (fastforce simp: immediate_def INT_RANGE_MIN_def split: if_splits option.splits)
qed

lemma stop_op_stops: "logical_op p \<Longrightarrow> stop_op (fst (bin_opcode p)) a \<longleftrightarrow> stops_at p a"
  by (auto simp: logical_op_def stop_op_def stops_at_def bin_opcode_def)

lemma eval_logical: "logical_op p \<Longrightarrow>
  eval eo vars (BinExpr p l r) w = with_value (eval eo vars l w) (\<lambda>a w. if stop_op (fst (bin_opcode p)) a then (Inr a, w) else eval eo vars r w)"
  by (simp add: stop_op_stops cong: if_cong)

lemma eval_strict: "\<not> logical_op p \<Longrightarrow>
  eval eo vars (BinExpr p l r) w = with_value (eval eo vars l w) (\<lambda>a w. with_value (eval eo vars r w) (bin_value eo p a))"
  by (simp add: stops_at_def logical_op_def)

subsection \<open>Every visitor leaves the value\<close>

text \<open>What is assumed of the compiler: it compiles straight code of a function without parents, in no loop.\<close>

definition plain_env :: "'w cg_env \<Rightarrow> sq_obj set \<Rightarrow> bool" where
  "plain_env env C \<longleftrightarrow> ce_complexity env = 0 \<and> pure_ops (ce_ops env) C \<and> ran (ce_consts env) \<subseteq> C \<and>
     (\<forall>s. \<exists>p. eo_str (ce_ops env) s = SQString p)"

definition compiled :: "'w cg_env \<Rightarrow> local_var list \<Rightarrow> expr \<Rightarrow> 'w value_of" where
  "compiled env vs e R w =
     eval (ce_ops env) (variable vs (ce_consts env) R) (as_compiled (constant_expr vs (ce_consts env)) e) w"

lemma reads_compiled: "reads (length vs) (compiled env vs e)"
  using reads_eval [of vs "ce_ops env" "ce_consts env"] by (simp add: compiled_def [abs_def])

lemma constant_code:
  assumes "plain_env env C" "constant_expr vs (ce_consts env) e" "convertLiteral (eo_str (ce_ops env)) ` literals e \<subseteq> C"
  shows "value_code (eo_vm (ce_ops env)) vs (\<lambda>R w. eval (ce_ops env) (variable vs (ce_consts env) R) e w) q False j (emitInlineConst env e)"
proof (rule inline_code)
  fix w v w'
  assume c: "constEval (ce_ops env) (ce_consts env) e w = (Inr v, w')"
  have "eval (ce_ops env) (variable vs (ce_consts env) R) e u = (Inr v, u)" for R u
    using const_eval [of "ce_ops env" C "ce_consts env" vs "variable vs (ce_consts env) R" e w v w'] assms c
    by (simp add: plain_env_def variable_def)
  then show "\<forall>R w. eval (ce_ops env) (variable vs (ce_consts env) R) e w = (Inr v, w)" by blast
qed

lemma memo_none:
  assumes "ce_complexity env = 0" "frame vs fs" "cg_fns s = [fs]"
  shows "memo_or_value env e m s = m s"
proof -
  obtain n where n: "getSubtreeConstScore (ce_consts env) e (cg_fns s) = (n, cg_fns s)" using score_frame [OF assms(2)] assms(3) by metis
  have "s\<lparr>cg_fns := cg_fns s\<rparr> = s" by simp
  then show ?thesis using assms(1) n by (cases "cg_inside_memo s") (simp_all add: memo_or_value_def Let_def)
qed

text \<open>An operand is folded, or visited.\<close>

lemma maybe_folded:
  assumes "ce_complexity env = 0" "frame vs fs" "cg_fns s = [fs]"
  shows "visitMaybeStaticMemo env e m s = (if constant_expr vs (ce_consts env) e \<and> \<not> is_leaf e then emitInlineConst env e s else m s)"
proof -
  have c: "isConstEvaluable (ce_consts env) e (cg_fns s) = (constant_expr vs (ce_consts env) e, cg_fns s)"
    using isConstEvaluable_frame [OF assms(2)] assms(3) by metis
  have "s\<lparr>cg_fns := cg_fns s\<rparr> = s" by simp
  then show ?thesis using c memo_none [OF assms, of e m] by (simp add: visitMaybeStaticMemo_def Let_def)
qed

lemma operand_value:
  assumes env: "plain_env env C" and lit: "convertLiteral (eo_str (ce_ops env)) ` literals e \<subseteq> C"
    and m: "value_code (eo_vm (ce_ops env)) vs (compiled env vs e) q q' j (visitExpr env e)"
  shows "value_code (eo_vm (ce_ops env)) vs
    (\<lambda>R w. eval (ce_ops env) (variable vs (ce_consts env) R)
      (if constant_expr vs (ce_consts env) e then e else as_compiled (constant_expr vs (ce_consts env)) e) w)
    q q' j (visitMaybeStaticMemo env e (\<lambda>s. visitExpr env e s))"
proof (cases "constant_expr vs (ce_consts env) e \<and> \<not> is_leaf e")
  case True
  then have c: "constant_expr vs (ce_consts env) e" and "ce_complexity env = 0" using env by (simp_all add: plain_env_def)
  have "visitMaybeStaticMemo env e (\<lambda>s. visitExpr env e s) s = emitInlineConst env e s" if "cg_fns s = [fs]" "frame vs fs" for s fs
    using maybe_folded [OF \<open>ce_complexity env = 0\<close> that(2,1), of e] True by simp
  from value_code_cong [OF value_code_weaken [OF constant_code [OF env c lit]] this]
  show ?thesis by (simp only: if_P [OF c])
next
  case False
  have e: "(if constant_expr vs (ce_consts env) e then e else as_compiled (constant_expr vs (ce_consts env)) e) =
      as_compiled (constant_expr vs (ce_consts env)) e"
    using False by (cases e) auto
  have "ce_complexity env = 0" using env by (simp add: plain_env_def)
  then have "visitMaybeStaticMemo env e (\<lambda>s. visitExpr env e s) s = visitExpr env e s" if "cg_fns s = [fs]" "frame vs fs" for s fs
    using maybe_folded [OF _ that(2,1), of env e] False by simp
  from value_code_cong [OF m [unfolded compiled_def [abs_def]] this] show ?thesis by (simp only: e)
qed

lemma visit_code:
  assumes env: "plain_env env C"
  shows "plain_expr (ce_name env) vs (ce_consts env) e \<Longrightarrow> jumps_ok q e \<Longrightarrow> convertLiteral (eo_str (ce_ops env)) ` literals e \<subseteq> C \<Longrightarrow>
    jumpable q e \<or> \<not> j \<Longrightarrow>
    value_code (eo_vm (ce_ops env)) vs (compiled env vs e) q (leaves q e) j (visitExpr env e)"
proof (induction e arbitrary: q j)
  case (IdExpr x)
  then have "value_code (eo_vm (ce_ops env)) vs (\<lambda>R w. (Inr (variable vs (ce_consts env) R x), w)) q q j (visitId env x)"
    by (intro id_code) auto
  then show ?case by (simp add: compiled_def [abs_def])
next
  case (LiteralExpr l)
  have "value_code (eo_vm (ce_ops env)) vs (\<lambda>R w. (Inr (convertLiteral (eo_str (ce_ops env)) l), w)) q False j (visitLiteralExpr env l)"
    using env by (intro literal_code) (simp add: plain_env_def)
  then show ?case by (simp add: compiled_def [abs_def])
next
  case (UnExpr p e)
  have lit: "convertLiteral (eo_str (ce_ops env)) ` literals e \<subseteq> C" and pl: "plain_expr (ce_name env) vs (ce_consts env) e"
    using UnExpr.prems(1,3) by auto
  consider "p = TO_PAREN" | "p = TO_INLINE_CONST" | "p \<in> {TO_NEG, TO_NOT, TO_BNOT}" using UnExpr.prems(1) by auto
  then show ?case
  proof cases
    case 1
    have "with_value x (un_value eo TO_PAREN) = x" for x :: "(vm_error + sq_obj) \<times> 'a" and eo
      using with_value_same [of x] by (simp add: un_value_def [abs_def])
    then have "compiled env vs (UnExpr p e) = compiled env vs e" using 1 by (intro ext) (simp add: compiled_def)
    then show ?thesis using UnExpr.IH [OF pl _ lit, of q j] UnExpr.prems(2,4) 1 by simp
  next
    case 2
    have "with_value x (un_value eo TO_INLINE_CONST) = x" for x :: "(vm_error + sq_obj) \<times> 'a" and eo
      using with_value_same [of x] by (simp add: un_value_def [abs_def])
    then have "compiled env vs (UnExpr p e) = (\<lambda>R w. eval (ce_ops env) (variable vs (ce_consts env) R) e w)"
      using 2 by (intro ext) (simp add: compiled_def)
    moreover have "constant_expr vs (ce_consts env) e" using UnExpr.prems(1) 2 by simp
    ultimately show ?thesis using constant_code [OF env _ lit, of vs q j] 2 by simp
  next
    case 3
    have "value_code (eo_vm (ce_ops env)) vs (compiled env vs e) q (leaves q e) False (visitExpr env e)"
      using UnExpr.IH [OF pl _ lit, of q False] UnExpr.prems(2) 3 by auto
    from unary_code [OF operand_value [OF env lit this] 3, of j]
    show ?thesis using 3 by (auto simp: compiled_def [abs_def] fun_eq_iff)
  qed
next
  case (BinExpr p l r)
  have lit: "convertLiteral (eo_str (ce_ops env)) ` literals l \<subseteq> C" "convertLiteral (eo_str (ce_ops env)) ` literals r \<subseteq> C"
    and pl: "plain_expr (ce_name env) vs (ce_consts env) l" "plain_expr (ce_name env) vs (ce_consts env) r" "p \<noteq> TO_IN" "p \<noteq> TO_INSTANCEOF"
    using BinExpr.prems(1,3) by auto
  note L = BinExpr.IH(1) [OF pl(1) _ lit(1), where j = False] and R = BinExpr.IH(2) [OF pl(2) _ lit(2), where j = False]
  show ?case
  proof (cases "logical_op p")
    case True
    then have op: "fst (bin_opcode p) \<in> {OPC_AND, OPC_OR, OPC_NULLCOALESCE}" "\<not> comparison p"
      by (auto simp: logical_op_def bin_opcode_def comparison_def)
    have "jumps_ok q l" "jumps_ok False r" using BinExpr.prems(2) True by auto
    note v = logical_code [OF L [OF this(1)] R [OF this(2)] reads_compiled op(1), of j]
    have c: "compiled env vs (BinExpr p l r) = (\<lambda>R w. with_value (compiled env vs l R w)
        (\<lambda>a w. if stop_op (fst (bin_opcode p)) a then (Inr a, w) else compiled env vs r R w))"
      using True by (intro ext) (simp add: compiled_def eval_logical del: eval.simps cong: if_cong)
    show ?thesis using v True op(2) unfolding c by simp
  next
    case False
    note nl = False
    show ?thesis
    proof (cases "immediate p l r")
      case (Some z)
      obtain i left where z: "z = (i, left)" by fastforce
      have im: "immediate p l r = Some (i, left)" using Some z by simp
      have r: "- (2 ^ 31) \<le> i" "i < 2 ^ 31" using immediate_range [OF im] by auto
      have nc: "\<not> comparison p" using im by (auto simp: immediate_def comparison_def split: if_splits)
      have v: "value_code (eo_vm (ce_ops env)) vs (compiled env vs (if left then r else l)) q (leaves q (if left then r else l)) False
          (visitExpr env (if left then r else l))"
        using L [of q] R [of q] BinExpr.prems(2) nl im by (cases left) simp_all
      have e: "visitExpr env (BinExpr p l r) = emit_addi i (visitExpr env (if left then r else l))"
        using nl im by (intro ext) (cases left; simp)
      have c: "compiled env vs (BinExpr p l r) =
          (\<lambda>R w. with_value (compiled env vs (if left then r else l) R w) (\<lambda>a w. bin_value (ce_ops env) TO_ADD a (SQInteger (word_of_int i)) w))"
        using nl im by (intro ext) (cases left; simp add: compiled_def eval_strict logical_op_def convertLiteral_def del: eval.simps(4))
      show ?thesis using addi_code [OF v r, of j] nc unfolding e c by simp
    next
      case None
      have jo: "jumps_ok q l" "jumps_ok (leaves q l) r" using BinExpr.prems(2) nl None by auto
      note vl = operand_value [OF env lit(1) L [OF jo(1)]] and vr = operand_value [OF env lit(2) R [OF jo(2)]]
      have e: "visitExpr env (BinExpr p l r) = then_do (visitMaybeStaticMemo env l (\<lambda>s. visitExpr env l s))
          (then_do (visitMaybeStaticMemo env r (\<lambda>s. visitExpr env r s)) (bind pop_target (\<lambda>b. bind pop_target (\<lambda>a. bind (push_target None) (\<lambda>t.
            update_fs (AddInstruction (bin_instr p t a b)))))))"
        using nl None by (intro ext) (simp add: emitSimpleBinaryOp_def add_instr_def bin_instr_def)
      have "value_code (eo_vm (ce_ops env)) vs
          (\<lambda>R w. with_value (eval (ce_ops env) (variable vs (ce_consts env) R)
              (if constant_expr vs (ce_consts env) l then l else as_compiled (constant_expr vs (ce_consts env)) l) w)
            (\<lambda>a w. with_value (eval (ce_ops env) (variable vs (ce_consts env) R)
              (if constant_expr vs (ce_consts env) r then r else as_compiled (constant_expr vs (ce_consts env)) r) w) (bin_value (ce_ops env) p a)))
          q (comparison p) j (visitExpr env (BinExpr p l r))"
        unfolding e
      proof (rule two_code [OF vl vr reads_eval])
        show "last_ok (bin_instr p t a b) \<and> i_op (bin_instr p t a b) \<notin> {OPC_DLOAD, OPC_DMOVE, OPC_MOVE, OPC_LOAD, OPC_LOADNULLS} \<and>
            i_arg0 (bin_instr p t a b) = word_of_nat t \<and> i_arg1 (bin_instr p t a b) = word_of_nat b \<and> i_arg2 (bin_instr p t a b) = word_of_nat a \<and>
            (i_op (bin_instr p t a b) = OPC_EQ \<or> i_op (bin_instr p t a b) = OPC_NE \<longrightarrow> i_arg3 (bin_instr p t a b) = 0) \<and>
            (i_op (bin_instr p t a b) = OPC_CMP \<longrightarrow> comparison p \<and> (j \<longrightarrow> i_arg3 (bin_instr p t a b) \<noteq> CMP_3W))" if "b < 256" for t a b
          using bin_instr_ok [OF nl pl(3,4) that, of t a] BinExpr.prems(4) by auto
        show "result_of (eo_vm (ce_ops env)) lits (bin_instr p t a b) R w = bin_value (ce_ops env) p (R a) (R b) w" if "a < 256" "b < 256" for t a b lits R w
          by (rule bin_instr_value [OF nl pl(3,4) that])
      qed simp_all
      moreover have "compiled env vs (BinExpr p l r) =
          (\<lambda>R w. with_value (eval (ce_ops env) (variable vs (ce_consts env) R)
              (if constant_expr vs (ce_consts env) l then l else as_compiled (constant_expr vs (ce_consts env)) l) w)
            (\<lambda>a w. with_value (eval (ce_ops env) (variable vs (ce_consts env) R)
              (if constant_expr vs (ce_consts env) r then r else as_compiled (constant_expr vs (ce_consts env)) r) w) (bin_value (ce_ops env) p a)))"
        using nl None by (intro ext) (simp add: compiled_def eval_strict del: eval.simps(4))
      ultimately show ?thesis by (simp only: leaves.simps)
    qed
  qed
next
  case (TerExpr a b c)
  have lit: "convertLiteral (eo_str (ce_ops env)) ` literals a \<subseteq> C" "convertLiteral (eo_str (ce_ops env)) ` literals b \<subseteq> C"
      "convertLiteral (eo_str (ce_ops env)) ` literals c \<subseteq> C"
    and pl: "plain_expr (ce_name env) vs (ce_consts env) a" "plain_expr (ce_name env) vs (ce_consts env) b" "plain_expr (ce_name env) vs (ce_consts env) c"
    and jo: "jumps_ok q a" "jumpable q a" "jumps_ok False b" "jumps_ok False c"
    using TerExpr.prems(1-3) by auto
  have A: "value_code (eo_vm (ce_ops env)) vs (compiled env vs a) q (leaves q a) True (visitExpr env a)"
    using TerExpr.IH(1) [OF pl(1) jo(1) lit(1)] jo(2) by blast
  note B = operand_value [OF env lit(2) TerExpr.IH(2) [OF pl(2) jo(3) lit(2), where j = False]]
  note D = operand_value [OF env lit(3) TerExpr.IH(3) [OF pl(3) jo(4) lit(3), where j = False]]
  show ?case
    using ternary_code [OF A B D reads_eval reads_eval, of j] by (simp add: compiled_def [abs_def] cong: if_cong)
qed

subsection \<open>Scalars\<close>

text \<open>The operators on null, booleans and numbers need no metamethod and no heap, whatever the VM.\<close>

definition scalar :: "sq_obj \<Rightarrow> bool" where
  "scalar v \<longleftrightarrow> (case v of SQNull \<Rightarrow> True | SQBool b \<Rightarrow> True | SQInteger i \<Rightarrow> True | SQFloat f \<Rightarrow> True | _ \<Rightarrow> False)"

definition plain_result :: "sq_obj vm_result \<Rightarrow> bool" where
  "plain_result r \<longleftrightarrow> (case r of VVal v \<Rightarrow> scalar v | VErr x \<Rightarrow> True | _ \<Rightarrow> False)"

lemma scalar_type:
  assumes "scalar v"
  shows "sq_type v AND RT_STRING_BIT = 0" "\<not> is_delegable v"
  using assms
  by (cases v; simp add: scalar_def sq_type_def is_delegable_def RT_STRING_BIT_def SQOBJECT_DELEGABLE_def OT_NULL_def OT_BOOL_def
      OT_INTEGER_def OT_FLOAT_def)+

lemma no_string_bit: "scalar a \<Longrightarrow> scalar b \<Longrightarrow> (sq_type a OR sq_type b) AND RT_STRING_BIT = 0"
  by (simp add: scalar_type(1) bit.conj_disj_distrib2)

lemma arith_scalar: "scalar a \<Longrightarrow> scalar b \<Longrightarrow> ARITH_OP mm c a b = ARITH_OP mm' c a b \<and> plain_result (ARITH_OP mm c a b)"
  using no_string_bit [of a b] scalar_type(2) [of a]
  by (simp add: ARITH_OP_def ArithMetaMethod_def int_arith_def float_arith_def plain_result_def scalar_def [of "SQInteger _"] scalar_def [of "SQFloat _"] Let_def)

lemma nozero_scalar: "scalar a \<Longrightarrow> scalar b \<Longrightarrow> arith_nozero mm a b = arith_nozero mm' a b \<and> plain_result (arith_nozero mm a b)"
  using arith_scalar [of a b mm "CHR ''/''" mm'] by (auto simp: arith_nozero_def plain_result_def scalar_def [of "SQInteger _"] scalar_def [of "SQFloat _"] Let_def)

lemma bitwise_scalar: "plain_result (BW_OP p a b)"
  by (simp add: BW_OP_def plain_result_def scalar_def Let_def)

lemma finish_scalar:
  assumes "\<And>mm. f mm = f (\<lambda>_ _. False)" "plain_result (f (\<lambda>_ _. False))"
  shows "pure_value {v. scalar v} (\<lambda>w. finish_val ops (f (vo_meta ops w)) w)"
proof -
  have "\<And>w. f (vo_meta ops w) = f (\<lambda>_ _. False)" by (rule assms(1))
  then show ?thesis using assms(2) by (cases "f (\<lambda>_ _. False)") (auto simp: pure_value_def finish_val_def plain_result_def)
qed

lemma cmp_scalar:
  assumes "scalar a" "scalar b"
  shows "ObjCmp h mm a b = ObjCmp h' mm' a b \<and> (case ObjCmp h mm a b of VVal n \<Rightarrow> True | VErr x \<Rightarrow> True | _ \<Rightarrow> False)"
  using assms by (cases a; cases b; simp add: scalar_def ObjCmp_def Let_def)

lemma cmp_value_scalar:
  assumes "scalar a" "scalar b"
  shows "pure_value {v. scalar v} (cmp_value ops p a b)"
proof -
  define h where "h = (undefined :: sq_heap)"
  define mm :: has_meta where "mm = (\<lambda>_ _. False)"
  have e: "ObjCmp (vo_heap ops w) (vo_meta ops w) a b = ObjCmp h mm a b" for w using cmp_scalar [OF assms] by blast
  have c: "case ObjCmp h mm a b of VVal n \<Rightarrow> True | VErr x \<Rightarrow> True | _ \<Rightarrow> False" using cmp_scalar [OF assms] by blast
  show ?thesis
  proof (cases "ObjCmp h mm a b")
    case (VVal n)
    show ?thesis
    proof (cases "cmp_obj p n")
      case None
      then have "cmp_value ops p a b w = (Inl (ErrMsg []), w)" for w by (simp add: cmp_value_def e VVal cmp_val_def cmp_result_def)
      then show ?thesis by (auto simp: pure_value_def)
    next
      case (Some v)
      then have "cmp_value ops p a b w = (Inr v, w)" for w by (simp add: cmp_value_def e VVal cmp_val_def cmp_result_def)
      moreover have "scalar v" using Some by (auto simp: cmp_obj_def scalar_def split: if_splits)
      ultimately show ?thesis by (auto simp: pure_value_def)
    qed
  next
    case (VErr x)
    then have "cmp_value ops p a b w = (Inl x, w)" for w by (simp add: cmp_value_def e cmp_val_def cmp_result_def)
    then show ?thesis by (auto simp: pure_value_def)
  qed (use c in simp_all)
qed

lemma pure_plain [simp]: "scalar v \<Longrightarrow> pure_value {v. scalar v} (\<lambda>w. (Inr v, w))" "pure_value {v. scalar v} (\<lambda>w. (Inl x, w))"
  by (auto simp: pure_value_def)

lemma scalar_simps [simp]: "scalar SQNull" "scalar (SQBool b)" "scalar (SQInteger i)" "scalar (SQFloat f)"
  by (simp_all add: scalar_def)

lemma neg_scalar: "scalar v \<Longrightarrow> NEG_OP mm v = NEG_OP mm' v \<and> plain_result (NEG_OP mm v)"
  by (cases v) (simp_all add: NEG_OP_def plain_result_def scalar_def)

lemma scalar_ops:
  assumes "\<And>p v. scalar v \<Longrightarrow> pure_value {v. scalar v} (eo_un eo p v)" "\<And>p a b. scalar a \<Longrightarrow> scalar b \<Longrightarrow> pure_value {v. scalar v} (eo_bin eo p a b)"
  shows "pure_ops eo {v. scalar v}"
proof -
  have "pure_value {v. scalar v} (un_value eo p v)" if "scalar v" for p v
  proof -
    have n: "pure_value {v. scalar v} (\<lambda>w. finish_val (eo_vm eo) (NEG_OP (vo_meta (eo_vm eo) w) v) w)"
      using neg_scalar [OF that] by (intro finish_scalar [of "\<lambda>mm. NEG_OP mm v" "eo_vm eo"]) blast+
    have b: "pure_value {v. scalar v} (un_value eo TO_BNOT v)"
      using that by (cases v) (simp_all add: un_value_def [abs_def])
    show ?thesis using n b assms(1) [OF that] that by (cases p) (simp_all add: un_value_def [abs_def])
  qed
  moreover have "pure_value {v. scalar v} (bin_value eo p a b)" if "scalar a" "scalar b" for p a b
  proof -
    note A = finish_scalar [of "\<lambda>mm. ARITH_OP mm c a b" "eo_vm eo" for c] and D = finish_scalar [of "\<lambda>mm. arith_nozero mm a b" "eo_vm eo"]
      and B = finish_scalar [of "\<lambda>mm. BW_OP q a b" "eo_vm eo" for q, OF refl bitwise_scalar]
    have a: "pure_value {v. scalar v} (\<lambda>w. finish_val (eo_vm eo) (ARITH_OP (vo_meta (eo_vm eo) w) c a b) w)" for c
      using arith_scalar [OF that] by (intro A) blast+
    have d: "pure_value {v. scalar v} (\<lambda>w. finish_val (eo_vm eo) (arith_nozero (vo_meta (eo_vm eo) w) a b) w)"
      using nozero_scalar [OF that] by (intro D) blast+
    have c: "pure_value {v. scalar v} (\<lambda>w. cmp_value (eo_vm eo) q a b w)" for q by (rule cmp_value_scalar [OF that])
    show ?thesis using a d B c assms(2) [OF that] by (cases p) (simp_all add: bin_value_def [abs_def] Let_def)
  qed
  ultimately show ?thesis by (simp add: pure_ops_def)
qed

end
