(* ===== verification/TypeInfer.thy ===== *)
theory TypeInfer
  imports Ast
begin

text \<open>
  The static types of the compiler, \<^verbatim>\<open>squirrel/compiler/typeinference.cpp\<close>, for operator
  expressions: the mask of the types a value may have, by which the check of a declared type is
  decided at compile time.
\<close>

subsection \<open>Inference\<close>

text \<open>
  What is known of a variable: its flags, its declared mask, and the mask inferred for its
  initializer where it has one. Initializers that are calls are not modelled.
\<close>

record var_type =
  vt_flags :: u8
  vt_mask :: u32
  vt_init :: "u32 option"

definition UNKNOWN_TYPE :: u32 where "UNKNOWN_TYPE = - 1"
definition NUMBER_MASK :: u32 where "NUMBER_MASK = RT_INTEGER OR RT_FLOAT"

definition var_mask :: "var_type \<Rightarrow> u32" where
  "var_mask t =
     (case vt_init t of
        Some m \<Rightarrow> if vt_flags t AND (VF_ASSIGNABLE OR VF_PARAM) = 0 \<and> m \<noteq> UNKNOWN_TYPE then m else vt_mask t
      | None \<Rightarrow> vt_mask t)"

definition const_mask :: "sq_obj \<Rightarrow> u32" where
  "const_mask v =
     (case v of
        SQInteger i \<Rightarrow> RT_INTEGER | SQFloat f \<Rightarrow> RT_FLOAT | SQString p \<Rightarrow> RT_STRING | SQBool b \<Rightarrow> RT_BOOL | SQNull \<Rightarrow> RT_NULL
      | SQRef k p \<Rightarrow>
          (case k of
             OT_ARRAY \<Rightarrow> RT_ARRAY | OT_TABLE \<Rightarrow> RT_TABLE | OT_CLOSURE \<Rightarrow> RT_CLOSURE | OT_NATIVECLOSURE \<Rightarrow> RT_NATIVECLOSURE
           | OT_CLASS \<Rightarrow> RT_CLASS | OT_INSTANCE \<Rightarrow> RT_INSTANCE | _ \<Rightarrow> UNKNOWN_TYPE)
      | SQWeakRef p \<Rightarrow> UNKNOWN_TYPE)"

definition literal_mask :: "literal \<Rightarrow> u32" where
  "literal_mask l =
     (case l of LK_INT i \<Rightarrow> RT_INTEGER | LK_FLOAT f \<Rightarrow> RT_FLOAT | LK_STRING s \<Rightarrow> RT_STRING | LK_BOOL b \<Rightarrow> RT_BOOL | LK_NULL \<Rightarrow> RT_NULL)"

definition neg_mask :: "u32 \<Rightarrow> u32" where
  "neg_mask m = (if m = UNKNOWN_TYPE then UNKNOWN_TYPE else if m AND RT_INSTANCE \<noteq> 0 then UNKNOWN_TYPE else m AND NUMBER_MASK)"

text \<open>Multiplication, division, subtraction and remainder.\<close>

definition arith_mask :: "u32 \<Rightarrow> u32 \<Rightarrow> u32" where
  "arith_mask lm rm =
     (if lm = UNKNOWN_TYPE \<or> rm = UNKNOWN_TYPE then UNKNOWN_TYPE
      else if (lm OR rm) AND RT_INSTANCE \<noteq> 0 then UNKNOWN_TYPE
      else if lm AND NOT NUMBER_MASK \<noteq> 0 \<or> rm AND NOT NUMBER_MASK \<noteq> 0 then UNKNOWN_TYPE
      else if lm = RT_INTEGER \<and> rm = RT_INTEGER then RT_INTEGER
      else if lm AND NUMBER_MASK \<noteq> 0 \<and> rm AND NUMBER_MASK \<noteq> 0 then
        (if lm AND RT_FLOAT \<noteq> 0 \<or> rm AND RT_FLOAT \<noteq> 0 then RT_FLOAT else NUMBER_MASK)
      else NUMBER_MASK)"

definition add_mask :: "u32 \<Rightarrow> u32 \<Rightarrow> u32" where
  "add_mask lm rm =
     (if lm = UNKNOWN_TYPE \<or> rm = UNKNOWN_TYPE then UNKNOWN_TYPE
      else if (lm OR rm) AND RT_INSTANCE \<noteq> 0 then UNKNOWN_TYPE
      else if lm = RT_STRING \<or> rm = RT_STRING then RT_STRING
      else if lm AND NOT NUMBER_MASK \<noteq> 0 \<or> rm AND NOT NUMBER_MASK \<noteq> 0 then UNKNOWN_TYPE
      else if lm = RT_INTEGER \<and> rm = RT_INTEGER then RT_INTEGER
      else if lm AND RT_FLOAT \<noteq> 0 \<or> rm AND RT_FLOAT \<noteq> 0 then RT_FLOAT
      else NUMBER_MASK)"

definition bin_mask :: "bin_op \<Rightarrow> u32 \<Rightarrow> u32 \<Rightarrow> u32" where
  "bin_mask p lm rm =
     (if p \<in> {TO_EQ, TO_NE, TO_GT, TO_GE, TO_LT, TO_LE, TO_INSTANCEOF, TO_IN} then RT_BOOL
      else if p \<in> {TO_3CMP, TO_AND, TO_OR, TO_XOR, TO_SHL, TO_SHR, TO_USHR} then RT_INTEGER
      else if p = TO_ADD then add_mask lm rm
      else if p = TO_OROR \<or> p = TO_ANDAND then (if lm = UNKNOWN_TYPE \<or> rm = UNKNOWN_TYPE then UNKNOWN_TYPE else lm OR rm)
      else if p = TO_NULLC then (if lm = UNKNOWN_TYPE \<or> rm = UNKNOWN_TYPE then UNKNOWN_TYPE else (lm AND NOT RT_NULL) OR rm)
      else arith_mask lm rm)"

text \<open>A comparison with a \<open>null\<close> literal, the test that narrows a branch of the conditional.\<close>

fun null_test :: "bin_op \<Rightarrow> expr \<Rightarrow> bool" where
  "null_test p (BinExpr q l r) \<longleftrightarrow> p = q \<and> (l = LiteralExpr LK_NULL \<or> r = LiteralExpr LK_NULL)"
| "null_test p e \<longleftrightarrow> False"

definition narrow :: "bool \<Rightarrow> u32 \<Rightarrow> u32" where
  "narrow b m = (if b then m AND NOT RT_NULL else m)"

fun inferExprTypeMask :: "(string \<Rightarrow> var_type option) \<Rightarrow> (string \<Rightarrow> sq_obj option) \<Rightarrow> expr \<Rightarrow> u32" where
  "inferExprTypeMask vt consts (LiteralExpr l) = literal_mask l"
| "inferExprTypeMask vt consts (IdExpr x) =
     (case vt x of
        Some t \<Rightarrow> var_mask t
      | None \<Rightarrow> (case consts x of Some c \<Rightarrow> const_mask c | None \<Rightarrow> UNKNOWN_TYPE))"
| "inferExprTypeMask vt consts (UnExpr p e) =
     (case p of
        TO_TYPEOF \<Rightarrow> RT_STRING
      | TO_NEG \<Rightarrow> neg_mask (inferExprTypeMask vt consts e)
      | TO_NOT \<Rightarrow> RT_BOOL
      | TO_BNOT \<Rightarrow> RT_INTEGER
      | TO_RESUME \<Rightarrow> UNKNOWN_TYPE
      | _ \<Rightarrow> inferExprTypeMask vt consts e)"
| "inferExprTypeMask vt consts (BinExpr p l r) = bin_mask p (inferExprTypeMask vt consts l) (inferExprTypeMask vt consts r)"
| "inferExprTypeMask vt consts (TerExpr a b c) =
     (let bm = inferExprTypeMask vt consts b; cm = inferExprTypeMask vt consts c in
      if bm = UNKNOWN_TYPE \<or> cm = UNKNOWN_TYPE then UNKNOWN_TYPE
      else narrow (null_test TO_NE (deparen a)) bm OR narrow (null_test TO_EQ (deparen a)) cm)"

text \<open>
  The check of a declared mask: an error at compile time, or whether the check at run time can be
  left out.
\<close>

definition checkInferredType :: "u32 \<Rightarrow> u32 \<Rightarrow> bool option" where
  "checkInferredType inferred declared =
     (if declared = UNKNOWN_TYPE then Some False
      else if inferred \<noteq> UNKNOWN_TYPE \<and> inferred AND NOT declared \<noteq> 0 then None
      else Some (inferred \<noteq> UNKNOWN_TYPE))"

definition check_typemask :: "sq_obj \<Rightarrow> u32 \<Rightarrow> bool" where
  "check_typemask v m \<longleftrightarrow> (if sq_type v \<noteq> OT_NULL then m AND sq_type v \<noteq> 0 else m AND RT_NULL \<noteq> 0)"

end
