(* ===== verification/TypeThms.thy ===== *)
theory TypeThms
  imports TypeInfer
begin

text \<open>
  Where the inferred masks are sound, and where they are not: the operands of arithmetic that may be
  integers as well as floats, and the null tests that narrow another identifier.
\<close>

subsection \<open>Masks as sets of types\<close>

definition RT_MASK :: u32 where "RT_MASK = 0x00FFFFFF"

definition mask_ok :: "u32 \<Rightarrow> bool" where
  "mask_ok m \<longleftrightarrow> m = UNKNOWN_TYPE \<or> m AND RT_MASK = m"

text \<open>The bit of the type of a value.\<close>

definition kind_bit :: "ref_kind \<Rightarrow> nat" where
  "kind_bit k =
     (case k of
        OT_TABLE \<Rightarrow> 5 | OT_ARRAY \<Rightarrow> 6 | OT_USERDATA \<Rightarrow> 7 | OT_CLOSURE \<Rightarrow> 8 | OT_NATIVECLOSURE \<Rightarrow> 9 | OT_GENERATOR \<Rightarrow> 10
      | OT_USERPOINTER \<Rightarrow> 11 | OT_THREAD \<Rightarrow> 12 | OT_FUNCPROTO \<Rightarrow> 13 | OT_CLASS \<Rightarrow> 14 | OT_INSTANCE \<Rightarrow> 15 | OT_OUTER \<Rightarrow> 17)"

definition type_bit :: "sq_obj \<Rightarrow> nat" where
  "type_bit v =
     (case v of
        SQNull \<Rightarrow> 0 | SQInteger i \<Rightarrow> 1 | SQFloat f \<Rightarrow> 2 | SQBool b \<Rightarrow> 3 | SQString p \<Rightarrow> 4 | SQWeakRef p \<Rightarrow> 16
      | SQRef k p \<Rightarrow> kind_bit k)"

lemma kind_bit_raw: "ref_type k AND RT_MASK = 2 ^ kind_bit k" "ref_type k \<noteq> OT_NULL" "kind_bit k < 32"
  by (cases k; simp add: ref_type_def RT_MASK_def kind_bit_def OT_NULL_def)+

lemma type_bit_raw:
  assumes "v \<noteq> SQNull"
  shows "sq_type v AND RT_MASK = 2 ^ type_bit v" "sq_type v \<noteq> OT_NULL"
proof -
  have "sq_type v AND RT_MASK = 2 ^ type_bit v \<and> sq_type v \<noteq> OT_NULL"
  proof (cases v)
    case (SQRef k p)
    then show ?thesis by (simp add: sq_type_def type_bit_def kind_bit_raw)
  qed (use assms in \<open>simp_all add: sq_type_def type_bit_def RT_MASK_def OT_INTEGER_def OT_FLOAT_def OT_BOOL_def OT_STRING_def OT_WEAKREF_def OT_NULL_def\<close>)
  then show "sq_type v AND RT_MASK = 2 ^ type_bit v" "sq_type v \<noteq> OT_NULL" by auto
qed

lemma type_bit_small: "type_bit v < 32"
  by (cases v) (simp_all add: type_bit_def kind_bit_raw)

lemma and_bit: "(m :: u32) AND 2 ^ n \<noteq> 0 \<longleftrightarrow> bit m n"
  by (simp add: and_exp_eq_0_iff_not_bit)

lemma check_bit:
  assumes "mask_ok m"
  shows "check_typemask v m \<longleftrightarrow> bit m (type_bit v)"
proof (cases "v = SQNull")
  case True
  then show ?thesis using and_bit [of m 0] by (simp add: check_typemask_def type_bit_def sq_type_def RT_NULL_def)
next
  case False
  have r: "sq_type v AND RT_MASK = 2 ^ type_bit v" "sq_type v \<noteq> OT_NULL" using type_bit_raw [OF False] by auto
  show ?thesis
  proof (cases "m = UNKNOWN_TYPE")
    case True
    then show ?thesis using r(2) type_bit_small [of v] by (simp add: check_typemask_def UNKNOWN_TYPE_def OT_NULL_def)
  next
    case False
    then have "m AND sq_type v = m AND (sq_type v AND RT_MASK)" using assms by (metis mask_ok_def and.assoc and.commute)
    then show ?thesis using r and_bit by (simp add: check_typemask_def)
  qed
qed

lemma RT_bits [simp]:
  "bit RT_NULL n \<longleftrightarrow> n = 0" "bit RT_INTEGER n \<longleftrightarrow> n = 1" "bit RT_FLOAT n \<longleftrightarrow> n = 2" "bit RT_BOOL n \<longleftrightarrow> n = 3" "bit RT_STRING n \<longleftrightarrow> n = 4"
  "bit RT_TABLE n \<longleftrightarrow> n = 5" "bit RT_ARRAY n \<longleftrightarrow> n = 6" "bit RT_USERDATA n \<longleftrightarrow> n = 7" "bit RT_INSTANCE n \<longleftrightarrow> n = 15"
  "bit RT_CLOSURE n \<longleftrightarrow> n = 8" "bit RT_NATIVECLOSURE n \<longleftrightarrow> n = 9" "bit RT_CLASS n \<longleftrightarrow> n = 14"
proof -
  have e: "bit (2 ^ k :: u32) n \<longleftrightarrow> n = k" if "k < 32" for k using that by (auto simp: bit_exp_iff)
  show "bit RT_NULL n \<longleftrightarrow> n = 0" "bit RT_INTEGER n \<longleftrightarrow> n = 1" "bit RT_FLOAT n \<longleftrightarrow> n = 2" "bit RT_BOOL n \<longleftrightarrow> n = 3" "bit RT_STRING n \<longleftrightarrow> n = 4"
    "bit RT_TABLE n \<longleftrightarrow> n = 5" "bit RT_ARRAY n \<longleftrightarrow> n = 6" "bit RT_USERDATA n \<longleftrightarrow> n = 7" "bit RT_INSTANCE n \<longleftrightarrow> n = 15"
    "bit RT_CLOSURE n \<longleftrightarrow> n = 8" "bit RT_NATIVECLOSURE n \<longleftrightarrow> n = 9" "bit RT_CLASS n \<longleftrightarrow> n = 14"
    using e [of 0] e [of 1] e [of 2] e [of 3] e [of 4] e [of 5] e [of 6] e [of 7] e [of 15] e [of 8] e [of 9] e [of 14]
    by (simp_all add: RT_defs)
qed

lemma mask_distinct [simp]:
  "RT_INTEGER \<noteq> UNKNOWN_TYPE" "RT_FLOAT \<noteq> UNKNOWN_TYPE" "NUMBER_MASK \<noteq> UNKNOWN_TYPE" "RT_STRING \<noteq> UNKNOWN_TYPE"
  "RT_INTEGER \<noteq> RT_FLOAT" "RT_FLOAT \<noteq> RT_INTEGER" "NUMBER_MASK \<noteq> RT_INTEGER" "NUMBER_MASK \<noteq> RT_FLOAT"
  "RT_INTEGER \<noteq> NUMBER_MASK" "RT_FLOAT \<noteq> NUMBER_MASK"
  "RT_STRING \<noteq> RT_INTEGER" "RT_STRING \<noteq> RT_FLOAT" "RT_STRING \<noteq> NUMBER_MASK"
  "UNKNOWN_TYPE \<noteq> RT_INTEGER" "UNKNOWN_TYPE \<noteq> RT_FLOAT" "UNKNOWN_TYPE \<noteq> RT_STRING" "NUMBER_MASK \<noteq> RT_STRING"
  "RT_INTEGER \<noteq> RT_STRING" "RT_FLOAT \<noteq> RT_STRING"
  by (simp_all add: RT_defs NUMBER_MASK_def UNKNOWN_TYPE_def)

lemma UNKNOWN_bit [simp]: "bit UNKNOWN_TYPE n \<longleftrightarrow> n < 32"
  by (simp add: UNKNOWN_TYPE_def)

lemma NUMBER_bit [simp]: "bit NUMBER_MASK n \<longleftrightarrow> n = 1 \<or> n = 2"
  by (simp add: NUMBER_MASK_def bit_or_iff)

lemma no_common_bit: "(m :: u32) AND k = 0 \<Longrightarrow> bit m n \<Longrightarrow> \<not> bit k n"
  by (metis bit_and_iff bit_0_eq bot_apply bot_bool_def)

lemma common_bit: "bit (m :: u32) n \<Longrightarrow> bit k n \<Longrightarrow> m AND k \<noteq> 0"
  using no_common_bit by blast

lemma mask_ok_bits: "mask_ok m \<longleftrightarrow> m = UNKNOWN_TYPE \<or> (\<forall>n. bit m n \<longrightarrow> n < 24)"
proof -
  have b: "bit RT_MASK n \<longleftrightarrow> n < 24" for n
  proof -
    have "RT_MASK = mask 24" by (simp add: RT_MASK_def mask_eq_exp_minus_1)
    then show ?thesis using bit_mask_iff [of 24 n, where 'a = "32 word"] by (auto simp: possible_bit_def)
  qed
  have l: "bit m n \<Longrightarrow> n < 32" for n using bit_imp_le_length [of m n] by simp
  have "m AND RT_MASK = m \<longleftrightarrow> (\<forall>n. bit m n \<longrightarrow> n < 24)" unfolding bit_eq_iff [of "m AND RT_MASK"] bit_and_iff b using l by auto
  then show ?thesis unfolding mask_ok_def by simp
qed

lemma mask_ok_RT [simp]: "mask_ok RT_NULL" "mask_ok RT_INTEGER" "mask_ok RT_FLOAT" "mask_ok RT_BOOL" "mask_ok RT_STRING" "mask_ok NUMBER_MASK"
  "mask_ok UNKNOWN_TYPE"
  by (auto simp: mask_ok_bits)

lemma mask_ok_sub: "mask_ok m \<Longrightarrow> m \<noteq> UNKNOWN_TYPE \<Longrightarrow> (\<And>n. bit k n \<Longrightarrow> bit m n) \<Longrightarrow> mask_ok k"
  unfolding mask_ok_bits by blast

lemma mask_ok_or: "mask_ok m \<Longrightarrow> m \<noteq> UNKNOWN_TYPE \<Longrightarrow> mask_ok k \<Longrightarrow> k \<noteq> UNKNOWN_TYPE \<Longrightarrow> mask_ok (m OR k)"
  unfolding mask_ok_bits by (auto simp: bit_or_iff)

lemma mask_ok_narrow: "mask_ok m \<Longrightarrow> m \<noteq> UNKNOWN_TYPE \<Longrightarrow> mask_ok (narrow b m) \<and> narrow b m \<noteq> UNKNOWN_TYPE"
proof -
  assume m: "mask_ok m" "m \<noteq> UNKNOWN_TYPE"
  have sub: "bit (narrow b m) n \<Longrightarrow> bit m n" for n by (auto simp: narrow_def bit_and_iff split: if_splits)
  have "\<not> bit m 31" using m by (auto simp: mask_ok_bits)
  then have "\<not> bit (narrow b m) 31" using sub by blast
  then have "narrow b m \<noteq> UNKNOWN_TYPE" by auto
  then show ?thesis using mask_ok_sub [OF m sub] by simp
qed

lemma neg_mask_ok: "mask_ok m \<Longrightarrow> mask_ok (neg_mask m)"
  unfolding neg_mask_def using mask_ok_sub [of m "m AND NUMBER_MASK"] by (auto simp: bit_and_iff)

lemma arith_mask_cases: "arith_mask lm rm \<in> {UNKNOWN_TYPE, RT_INTEGER, RT_FLOAT, NUMBER_MASK}"
  by (simp add: arith_mask_def)

lemma add_mask_cases: "add_mask lm rm \<in> {UNKNOWN_TYPE, RT_INTEGER, RT_FLOAT, NUMBER_MASK, RT_STRING}"
  by (simp add: add_mask_def)

lemma numeric_mask_ok: "mask_ok (arith_mask lm rm)" "mask_ok (add_mask lm rm)"
  using arith_mask_cases [of lm rm] add_mask_cases [of lm rm] by auto

lemma bin_mask_ok:
  assumes "mask_ok lm" "mask_ok rm"
  shows "mask_ok (bin_mask p lm rm)"
proof (cases "lm = UNKNOWN_TYPE \<or> rm = UNKNOWN_TYPE")
  case True
  then show ?thesis by (auto simp: bin_mask_def numeric_mask_ok)
next
  case False
  then have "mask_ok (lm OR rm)" "mask_ok ((lm AND NOT RT_NULL) OR rm)"
    using assms mask_ok_narrow [of lm True] by (auto simp: narrow_def intro!: mask_ok_or)
  then show ?thesis by (auto simp: bin_mask_def numeric_mask_ok)
qed

text \<open>What is assumed of the masks and values of the variables.\<close>

definition vars_typed :: "(string \<Rightarrow> var_type option) \<Rightarrow> (string \<Rightarrow> sq_obj option) \<Rightarrow> (string \<Rightarrow> sq_obj) \<Rightarrow> bool" where
  "vars_typed vt consts vars \<longleftrightarrow>
     (\<forall>x t. vt x = Some t \<longrightarrow> mask_ok (var_mask t) \<and> check_typemask (vars x) (var_mask t)) \<and>
     (\<forall>x c. vt x = None \<and> consts x = Some c \<longrightarrow> vars x = c)"

lemma const_mask_ok: "mask_ok (const_mask v)"
proof (cases v)
  case (SQRef k p)
  have "mask_ok RT_ARRAY" "mask_ok RT_TABLE" "mask_ok RT_CLOSURE" "mask_ok RT_NATIVECLOSURE" "mask_ok RT_CLASS" "mask_ok RT_INSTANCE"
    by (simp_all add: mask_ok_bits)
  then show ?thesis by (cases k) (simp_all add: SQRef const_mask_def)
qed (simp_all add: const_mask_def)

lemma infer_mask_ok: "vars_typed vt consts vars \<Longrightarrow> mask_ok (inferExprTypeMask vt consts e)"
proof (induction e)
  case (IdExpr x)
  then show ?case by (auto simp: vars_typed_def const_mask_ok split: option.split)
next
  case (LiteralExpr l)
  then show ?case by (cases l) (simp_all add: literal_mask_def)
next
  case (UnExpr p e)
  then show ?case by (cases p) (simp_all add: neg_mask_ok)
next
  case (BinExpr p l r)
  then show ?case by (simp add: bin_mask_ok)
next
  case (TerExpr a b c)
  then show ?case by (auto simp: Let_def mask_ok_narrow intro!: mask_ok_or)
qed

subsection \<open>The types of the operators\<close>

lemma number_cases: "type_bit v = 1 \<or> type_bit v = 2 \<Longrightarrow> (\<exists>i. v = SQInteger i \<and> type_bit v = 1) \<or> (\<exists>f. v = SQFloat f \<and> type_bit v = 2)"
  by (cases v) (auto simp: type_bit_def kind_bit_def split: ref_kind.splits)

lemma finish_value: "finish_val ops (VVal u) w = (Inr v, w') \<longleftrightarrow> u = v \<and> w = w'" "finish_val ops (VErr x) w \<noteq> (Inr v, w')"
  by (auto simp: finish_val_def)

definition number_result :: "sq_obj \<Rightarrow> sq_obj \<Rightarrow> sq_obj vm_result \<Rightarrow> bool" where
  "number_result a b r \<longleftrightarrow>
     (case r of VVal v \<Rightarrow> type_bit v = (if type_bit a = 1 \<and> type_bit b = 1 then 1 else 2) | VErr x \<Rightarrow> True | _ \<Rightarrow> False)"

lemma int_arith_type: "number_result (SQInteger i) (SQInteger j) (int_arith c m n)"
  by (simp add: int_arith_def number_result_def type_bit_def)

lemma float_arith_type: "type_bit a = 2 \<or> type_bit b = 2 \<Longrightarrow> number_result a b (float_arith c f g)"
  by (auto simp: float_arith_def number_result_def type_bit_def)

lemma number_arith:
  assumes "type_bit a = 1 \<or> type_bit a = 2" "type_bit b = 1 \<or> type_bit b = 2"
  shows "number_result a b (ARITH_OP mm c a b)" "number_result a b (arith_nozero mm a b)"
proof -
  have i: "type_bit (SQInteger i) = 1" and f: "type_bit (SQFloat g) = 2" for i g by (simp_all add: type_bit_def)
  have t: "sq_type (SQInteger i) = OT_INTEGER" "sq_type (SQFloat g) = OT_FLOAT" for i g by (simp_all add: sq_type_def)
  have o: "OT_INTEGER OR OT_INTEGER = OT_INTEGER" "OT_INTEGER OR OT_FLOAT \<noteq> OT_INTEGER" "OT_FLOAT OR OT_INTEGER \<noteq> OT_INTEGER"
    "OT_FLOAT \<noteq> OT_INTEGER" "OT_INTEGER OR OT_FLOAT = OT_FLOAT OR OT_INTEGER"
    "OT_INTEGER \<noteq> OT_FLOAT OR OT_INTEGER"
    by (simp_all add: OT_INTEGER_def OT_FLOAT_def)
  show "number_result a b (ARITH_OP mm c a b)"
    using number_cases [OF assms(1)] number_cases [OF assms(2)]
    by (auto simp: ARITH_OP_def Let_def t o int_arith_type intro!: float_arith_type)
  show "number_result a b (arith_nozero mm a b)"
    using number_cases [OF assms(1)] number_cases [OF assms(2)]
    by (auto simp: arith_nozero_def Let_def t o number_result_def i f)
qed

lemma number_finish:
  "number_result a b r \<Longrightarrow> finish_val ops r w = (Inr v, w') \<Longrightarrow> type_bit v = (if type_bit a = 1 \<and> type_bit b = 1 then 1 else 2)"
  by (cases r) (simp_all add: number_result_def finish_val_def split: if_splits)

lemma BW_type: "finish_val ops (BW_OP p a b) w = (Inr v, w') \<Longrightarrow> type_bit v = 1"
  by (auto simp: BW_OP_def Let_def finish_val_def type_bit_def split: if_splits)

lemma cmp_type: "cmp_value ops p a b w = (Inr v, w') \<Longrightarrow> type_bit v = (if p = CMP_3W then 1 else 3)"
  by (auto simp: cmp_value_def cmp_result_def cmp_obj_def type_bit_def split: option.splits prod.splits sum.splits if_splits)

lemma neg_type:
  assumes "finish_val ops (NEG_OP mm a) w = (Inr v, w')" "type_bit a \<notin> {5, 7, 15}"
  shows "type_bit v = type_bit a \<and> (type_bit a = 1 \<or> type_bit a = 2)"
  using assms by (cases a) (auto simp: NEG_OP_def finish_val_def type_bit_def kind_bit_def split: ref_kind.splits if_splits)

lemma cat_type:
  assumes "type_bit a = 4 \<or> type_bit b = 4"
  shows "ARITH_OP mm CHR ''+'' a b = VCat a b"
proof -
  have s: "type_bit v = 4 \<Longrightarrow> sq_type v = OT_STRING" for v
    by (cases v) (auto simp: type_bit_def kind_bit_def sq_type_def split: ref_kind.splits)
  have "bit (sq_type a OR sq_type b) 4" using assms s by (auto simp: bit_or_iff OT_STRING_def)
  moreover have "\<not> bit OT_INTEGER 4" "\<not> bit OT_FLOAT 4" "\<not> bit (OT_FLOAT OR OT_INTEGER) 4"
    by (simp_all add: OT_INTEGER_def OT_FLOAT_def)
  ultimately show ?thesis
    using common_bit [of "sq_type a OR sq_type b" 4 RT_STRING_BIT] by (auto simp: ARITH_OP_def Let_def RT_STRING_BIT_def)
qed

subsection \<open>Soundness\<close>

text \<open>
  The types of the operators outside the model: concatenation gives a string (\<open>StringCat\<close>), \<open>typeof\<close>
  of a value that has no delegate to ask a string (\<open>TypeOf\<close>; a \<open>_typeof\<close> of a table, instance or
  userdata may answer anything), \<open>in\<close> and \<open>instanceof\<close> give booleans, a clone has the type of the original.
\<close>

definition ops_typed :: "'w expr_ops \<Rightarrow> bool" where
  "ops_typed eo \<longleftrightarrow>
     (\<forall>a b w v w'. vo_cat (eo_vm eo) a b w = (Inr v, w') \<longrightarrow> type_bit v = 4) \<and>
     (\<forall>a w v w'. type_bit a \<notin> {5, 7, 15} \<longrightarrow> eo_un eo TO_TYPEOF a w = (Inr v, w') \<longrightarrow> type_bit v = 4) \<and>
     (\<forall>a w v w'. eo_un eo TO_CLONE a w = (Inr v, w') \<longrightarrow> type_bit v = type_bit a) \<and>
     (\<forall>p a b w v w'. p = TO_IN \<or> p = TO_INSTANCEOF \<longrightarrow> eo_bin eo p a b w = (Inr v, w') \<longrightarrow> type_bit v = 3) \<and>
     (\<forall>s. type_bit (eo_str eo s) = 4)"

lemma ops_typedD:
  assumes "ops_typed eo"
  shows "vo_cat (eo_vm eo) a b w = (Inr v, w') \<Longrightarrow> type_bit v = 4"
    and "type_bit a \<notin> {5, 7, 15} \<Longrightarrow> eo_un eo TO_TYPEOF a w = (Inr v, w') \<Longrightarrow> type_bit v = 4"
    and "eo_un eo TO_CLONE a w = (Inr v, w') \<Longrightarrow> type_bit v = type_bit a"
    and "p = TO_IN \<or> p = TO_INSTANCEOF \<Longrightarrow> eo_bin eo p a b w = (Inr v, w') \<Longrightarrow> type_bit v = 3"
    and "type_bit (eo_str eo s) = 4"
  using assms unfolding ops_typed_def by metis+

lemma type_bit_simps [simp]: "type_bit (SQInteger i) = 1" "type_bit (SQFloat g) = 2" "type_bit (SQBool c) = 3" "type_bit SQNull = 0"
  by (simp_all add: type_bit_def)

text \<open>The test \<open>x != null\<close> (or \<open>==\<close>) of the identifier that is the branch itself.\<close>

definition tests :: "bin_op \<Rightarrow> expr \<Rightarrow> expr \<Rightarrow> bool" where
  "tests p a e \<longleftrightarrow>
     (case e of
        IdExpr x \<Rightarrow> a = BinExpr p (IdExpr x) (LiteralExpr LK_NULL) \<or> a = BinExpr p (LiteralExpr LK_NULL) (IdExpr x)
      | _ \<Rightarrow> False)"

text \<open>Where the inference can be relied on.\<close>

fun well_masked :: "(string \<Rightarrow> var_type option) \<Rightarrow> (string \<Rightarrow> sq_obj option) \<Rightarrow> expr \<Rightarrow> bool" where
  "well_masked vt consts (IdExpr x) \<longleftrightarrow> True"
| "well_masked vt consts (LiteralExpr l) \<longleftrightarrow> True"
| "well_masked vt consts (UnExpr p e) \<longleftrightarrow>
     well_masked vt consts e \<and>
     (p = TO_NEG \<longrightarrow> inferExprTypeMask vt consts e = UNKNOWN_TYPE \<or> inferExprTypeMask vt consts e AND (RT_TABLE OR RT_USERDATA) = 0) \<and>
     (p = TO_TYPEOF \<longrightarrow> inferExprTypeMask vt consts e AND (RT_TABLE OR RT_USERDATA OR RT_INSTANCE) = 0)"
| "well_masked vt consts (BinExpr p l r) \<longleftrightarrow>
     well_masked vt consts l \<and> well_masked vt consts r \<and>
     (bin_mask p (inferExprTypeMask vt consts l) (inferExprTypeMask vt consts r) = RT_FLOAT \<and> \<not> logical_op p \<longrightarrow>
        inferExprTypeMask vt consts l = RT_FLOAT \<or> inferExprTypeMask vt consts r = RT_FLOAT)"
| "well_masked vt consts (TerExpr a b c) \<longleftrightarrow>
     well_masked vt consts a \<and> well_masked vt consts b \<and> well_masked vt consts c \<and>
     (null_test TO_NE (deparen a) \<longrightarrow> inferExprTypeMask vt consts b AND RT_NULL = 0 \<or> tests TO_NE (deparen a) b) \<and>
     (null_test TO_EQ (deparen a) \<longrightarrow> inferExprTypeMask vt consts c AND RT_NULL = 0 \<or> tests TO_EQ (deparen a) c)"

lemma with_value_Inr: "with_value x k = (Inr v, w') \<longleftrightarrow> (\<exists>u w. x = (Inr u, w) \<and> k u w = (Inr v, w'))"
  by (cases x; cases "fst x") auto

lemma number_mask_value:
  assumes "m AND NOT NUMBER_MASK = 0" "bit m (type_bit a)"
  shows "type_bit a = 1 \<or> type_bit a = 2"
proof -
  have "\<not> bit (NOT NUMBER_MASK) (type_bit a)" by (rule no_common_bit [OF assms])
  then show ?thesis using type_bit_small [of a] by (auto simp: bit_not_iff possible_bit_def)
qed

text \<open>Arithmetic on two operands of the masks: the value has the mask computed for them.\<close>

lemma arith_sound:
  assumes r: "number_result a b r" and v: "finish_val ops r w = (Inr v, w')"
    and m: "m \<in> {RT_INTEGER, RT_FLOAT, NUMBER_MASK}" "bit lm (type_bit a)" "bit rm (type_bit b)"
    and i: "m = RT_INTEGER \<Longrightarrow> lm = RT_INTEGER \<and> rm = RT_INTEGER" and f: "m = RT_FLOAT \<Longrightarrow> lm = RT_FLOAT \<or> rm = RT_FLOAT"
  shows "bit m (type_bit v)"
  using number_finish [OF r v] m i f by (auto split: if_splits)

lemma arith_mask_sound:
  assumes lm: "bit lm (type_bit a)" and rm: "bit rm (type_bit b)"
    and r: "\<And>c. (type_bit a = 1 \<or> type_bit a = 2) \<and> (type_bit b = 1 \<or> type_bit b = 2) \<Longrightarrow> number_result a b r"
    and v: "finish_val ops r w = (Inr v, w')"
    and f: "arith_mask lm rm = RT_FLOAT \<longrightarrow> lm = RT_FLOAT \<or> rm = RT_FLOAT"
  shows "bit (arith_mask lm rm) (type_bit v)"
proof (cases "arith_mask lm rm = UNKNOWN_TYPE")
  case True
  then show ?thesis by (simp add: type_bit_small)
next
  case False
  have "arith_mask lm rm = UNKNOWN_TYPE" if "lm AND NOT NUMBER_MASK \<noteq> 0 \<or> rm AND NOT NUMBER_MASK \<noteq> 0"
    unfolding arith_mask_def by (simp only: that if_False if_True if_cancel)
  then have n: "lm AND NOT NUMBER_MASK = 0" "rm AND NOT NUMBER_MASK = 0" using False by blast+
  have i: "arith_mask lm rm = RT_INTEGER \<Longrightarrow> lm = RT_INTEGER \<and> rm = RT_INTEGER"
    by (simp add: arith_mask_def split: if_splits)
  show ?thesis
  proof (rule arith_sound [OF r v _ lm rm i])
    show "(type_bit a = 1 \<or> type_bit a = 2) \<and> (type_bit b = 1 \<or> type_bit b = 2)"
      using number_mask_value [OF n(1) lm] number_mask_value [OF n(2) rm] by simp
    show "arith_mask lm rm \<in> {RT_INTEGER, RT_FLOAT, NUMBER_MASK}" using False arith_mask_cases [of lm rm] by blast
    show "arith_mask lm rm = RT_FLOAT \<Longrightarrow> lm = RT_FLOAT \<or> rm = RT_FLOAT" by (rule f [THEN mp])
  qed
qed

lemma add_mask_sound:
  assumes lm: "bit lm (type_bit a)" and rm: "bit rm (type_bit b)"
    and v: "finish_val ops (ARITH_OP mm CHR ''+'' a b) w = (Inr v, w')"
    and cat: "\<And>a b w v w'. vo_cat ops a b w = (Inr v, w') \<Longrightarrow> type_bit v = 4"
    and f: "add_mask lm rm = RT_FLOAT \<longrightarrow> lm = RT_FLOAT \<or> rm = RT_FLOAT"
  shows "bit (add_mask lm rm) (type_bit v)"
proof (cases "add_mask lm rm = UNKNOWN_TYPE")
  case True
  then show ?thesis by (simp add: type_bit_small)
next
  case u: False
  show ?thesis
  proof (cases "lm = RT_STRING \<or> rm = RT_STRING")
    case True
    then have "type_bit a = 4 \<or> type_bit b = 4" using lm rm by auto
    then have "vo_cat ops a b w = (Inr v, w')" using v by (simp add: cat_type finish_val_def)
    then have "type_bit v = 4" by (rule cat)
    moreover have "add_mask lm rm = RT_STRING" using True u by (auto simp: add_mask_def split: if_splits)
    ultimately show ?thesis by simp
  next
    case False
    have "add_mask lm rm = UNKNOWN_TYPE" if "lm AND NOT NUMBER_MASK \<noteq> 0 \<or> rm AND NOT NUMBER_MASK \<noteq> 0"
      unfolding add_mask_def by (simp only: that False if_False if_True if_cancel)
    then have n: "lm AND NOT NUMBER_MASK = 0" "rm AND NOT NUMBER_MASK = 0" using u by blast+
    have s: "add_mask lm rm \<noteq> RT_STRING" using False n by (simp add: add_mask_def)
    have nums: "type_bit a = 1 \<or> type_bit a = 2" "type_bit b = 1 \<or> type_bit b = 2"
      using number_mask_value [OF n(1) lm] number_mask_value [OF n(2) rm] by auto
    have i: "add_mask lm rm = RT_INTEGER \<Longrightarrow> lm = RT_INTEGER \<and> rm = RT_INTEGER"
      by (simp add: add_mask_def split: if_splits)
    show ?thesis
    proof (rule arith_sound [OF number_arith(1) [OF nums] v _ lm rm i])
      show "add_mask lm rm \<in> {RT_INTEGER, RT_FLOAT, NUMBER_MASK}" using u s add_mask_cases [of lm rm] by blast
      show "add_mask lm rm = RT_FLOAT \<Longrightarrow> lm = RT_FLOAT \<or> rm = RT_FLOAT" by (rule f [THEN mp])
    qed
  qed
qed

lemma un_value_sound:
  assumes ty: "ops_typed eo" and m: "mask_ok m" "bit m (type_bit a)" and v: "un_value eo p a w = (Inr v, w')"
    and n: "p = TO_NEG \<longrightarrow> m = UNKNOWN_TYPE \<or> m AND (RT_TABLE OR RT_USERDATA) = 0"
    and o: "p = TO_TYPEOF \<longrightarrow> m AND (RT_TABLE OR RT_USERDATA OR RT_INSTANCE) = 0"
  shows "bit (case p of TO_TYPEOF \<Rightarrow> RT_STRING | TO_NEG \<Rightarrow> neg_mask m | TO_NOT \<Rightarrow> RT_BOOL | TO_BNOT \<Rightarrow> RT_INTEGER
      | TO_RESUME \<Rightarrow> UNKNOWN_TYPE | _ \<Rightarrow> m) (type_bit v)"
proof (cases p)
  case TO_NEG
  show ?thesis
  proof (cases "neg_mask m = UNKNOWN_TYPE")
    case False
    then have g: "m \<noteq> UNKNOWN_TYPE" "m AND RT_INSTANCE = 0" "neg_mask m = m AND NUMBER_MASK" by (auto simp: neg_mask_def split: if_splits)
    have "\<not> bit (RT_TABLE OR RT_USERDATA) (type_bit a)" "\<not> bit RT_INSTANCE (type_bit a)"
      using n TO_NEG g m(2) no_common_bit by blast+
    then have "type_bit a \<notin> {5, 7, 15}" by (auto simp: bit_or_iff)
    then show ?thesis using v m(2) neg_type [of "eo_vm eo" _ a w v w'] by (auto simp: TO_NEG un_value_def g(3) bit_and_iff)
  qed (simp add: TO_NEG type_bit_small)
next
  case TO_TYPEOF
  then have "\<not> bit (RT_TABLE OR RT_USERDATA OR RT_INSTANCE) (type_bit a)" using o m(2) no_common_bit by blast
  then have "type_bit a \<notin> {5, 7, 15}" by (auto simp: bit_or_iff)
  then show ?thesis using TO_TYPEOF v ops_typedD(2) [OF ty, of a w v w'] by (simp add: un_value_def)
next
  case TO_CLONE
  then show ?thesis using v m(2) ops_typedD(3) [OF ty, of a w v w'] by (simp add: un_value_def)
next
  case TO_BNOT
  then show ?thesis using v by (cases a) (auto simp: un_value_def)
qed (use v m in \<open>auto simp: un_value_def type_bit_small\<close>)

lemma bin_value_sound:
  assumes ty: "ops_typed eo" and lm: "bit lm (type_bit a)" and rm: "bit rm (type_bit b)" and v: "bin_value eo p a b w = (Inr v, w')"
    and f: "bin_mask p lm rm = RT_FLOAT \<longrightarrow> lm = RT_FLOAT \<or> rm = RT_FLOAT" and p: "\<not> logical_op p"
  shows "bit (bin_mask p lm rm) (type_bit v)"
proof -
  consider (bool) "p \<in> {TO_EQ, TO_NE, TO_GT, TO_GE, TO_LT, TO_LE, TO_INSTANCEOF, TO_IN}"
    | (int) "p \<in> {TO_3CMP, TO_AND, TO_OR, TO_XOR, TO_SHL, TO_SHR, TO_USHR}" | (add) "p = TO_ADD"
    | (arith) "p \<in> {TO_SUB, TO_MUL, TO_DIV, TO_MOD}"
    using p by (cases p) (auto simp: logical_op_def)
  then show ?thesis
  proof cases
    case bool
    then have "type_bit v = 3"
      using v ty cmp_type [of "eo_vm eo" _ a b w v w'] unfolding bin_value_def Let_def
      by (elim insertE emptyE; simp add: CMP_G_def CMP_GE_def CMP_L_def CMP_LE_def CMP_3W_def)
        (use ops_typedD(4) [OF ty, of TO_IN a b w v w'] ops_typedD(4) [OF ty, of TO_INSTANCEOF a b w v w'] in auto)
    then show ?thesis using bool by (simp add: bin_mask_def)
  next
    case int
    then have "type_bit v = 1"
      using v cmp_type [of "eo_vm eo" _ a b w v w'] BW_type [of "eo_vm eo" _ a b w v w'] unfolding bin_value_def Let_def
      by (elim insertE emptyE; simp)
    then show ?thesis using int by (auto simp: bin_mask_def)
  next
    case add
    show ?thesis
      using add_mask_sound [OF lm rm _ ops_typedD(1) [OF ty], where mm = "vo_meta (eo_vm eo) w" and w = w and v = v and w' = w'] v f
      by (simp add: add bin_mask_def bin_value_def Let_def)
  next
    case arith
    then have m: "bin_mask p lm rm = arith_mask lm rm" by (auto simp: bin_mask_def)
    let ?mm = "vo_meta (eo_vm eo) w"
    consider c where "finish_val (eo_vm eo) (ARITH_OP ?mm c a b) w = (Inr v, w')" | "finish_val (eo_vm eo) (arith_nozero ?mm a b) w = (Inr v, w')"
      using arith v unfolding bin_value_def Let_def by (elim insertE emptyE) simp_all
    then obtain r where r: "finish_val (eo_vm eo) r w = (Inr v, w')"
      "(type_bit a = 1 \<or> type_bit a = 2) \<and> (type_bit b = 1 \<or> type_bit b = 2) \<longrightarrow> number_result a b r"
      by (metis number_arith)
    show ?thesis unfolding m using f m r(2) by (intro arith_mask_sound [OF lm rm _ r(1)]) simp_all
  qed
qed

lemma stop_value_sound:
  assumes "stops_at p a" "bit lm (type_bit a)"
  shows "bit (bin_mask p lm rm) (type_bit a)"
proof -
  have s: "p = TO_NULLC \<Longrightarrow> type_bit a \<noteq> 0" using assms(1) by (cases a) (auto simp: stops_at_def type_bit_def kind_bit_def split: ref_kind.splits)
  have small: "bit UNKNOWN_TYPE (type_bit a)" by (simp add: type_bit_small)
  consider "p = TO_ANDAND \<or> p = TO_OROR" | "p = TO_NULLC" using assms(1) by (auto simp: stops_at_def)
  then show ?thesis
  proof cases
    case 2
    have "bit (NOT RT_NULL) (type_bit a)" using s [OF 2] type_bit_small [of a] by (simp add: bit_not_iff)
    then show ?thesis using assms(2) small 2 by (simp add: bin_mask_def bit_or_iff bit_and_iff)
  qed (use assms(2) small in \<open>auto simp: bin_mask_def bit_or_iff\<close>)
qed

lemma last_value_sound: "logical_op p \<Longrightarrow> bit rm (type_bit b) \<Longrightarrow> bit (bin_mask p lm rm) (type_bit b)"
  using type_bit_small [of b] by (auto simp: logical_op_def bin_mask_def bit_or_iff)

text \<open>A null test that holds, or fails, says whether the identifier is null.\<close>

lemma IsEqual_null [simp]: "IsEqual v SQNull \<longleftrightarrow> v = SQNull" "IsEqual SQNull v \<longleftrightarrow> v = SQNull"
proof -
  have n: "v \<noteq> SQNull \<Longrightarrow> sq_type v \<noteq> sq_type SQNull" using type_bit_raw(2) [of v] by (simp add: sq_type_def)
  have "\<not> sq_isnumeric SQNull" by (simp add: sq_isnumeric_def sq_type_def OT_NULL_def)
  then show "IsEqual v SQNull \<longleftrightarrow> v = SQNull" "IsEqual SQNull v \<longleftrightarrow> v = SQNull"
    using n by (auto simp: IsEqual_def sq_type_def OT_NULL_def OT_FLOAT_def)
qed

lemma eval_deparen: "eval eo vars (deparen e) w = eval eo vars e w"
proof (induction e rule: deparen.induct)
  case (1 e)
  have "with_value x (un_value eo TO_PAREN) = x" for x by (cases x; cases "fst x") (auto simp: un_value_def)
  then show ?case using 1 by simp
qed simp_all

lemma tested_null:
  assumes "tests p (deparen a) e" "eval eo vars a w = (Inr v, w')" "eval eo vars e w1 = (Inr u, w2)"
  shows "p = TO_NE \<Longrightarrow> \<not> IsFalse v \<Longrightarrow> u \<noteq> SQNull" and "p = TO_EQ \<Longrightarrow> IsFalse v \<Longrightarrow> u \<noteq> SQNull"
proof -
  obtain x where e: "e = IdExpr x" using assms(1) by (cases e) (auto simp: tests_def)
  have "eval eo vars (deparen a) w = (Inr v, w')" using assms(2) by (simp add: eval_deparen)
  then have "p = TO_NE \<or> p = TO_EQ \<Longrightarrow> v = SQBool ((vars x = SQNull) = (p = TO_EQ))"
    using assms(1) by (auto simp: e tests_def bin_value_def Let_def logical_op_def stops_at_def convertLiteral_def)
  then show "p = TO_NE \<Longrightarrow> \<not> IsFalse v \<Longrightarrow> u \<noteq> SQNull" "p = TO_EQ \<Longrightarrow> IsFalse v \<Longrightarrow> u \<noteq> SQNull"
    using assms(3) by (auto simp: e)
qed

lemma narrow_sound:
  assumes "bit m (type_bit u)" "b \<longrightarrow> m AND RT_NULL = 0 \<or> u \<noteq> SQNull"
  shows "bit (narrow b m) (type_bit u)"
proof (cases b)
  case True
  have "type_bit u \<noteq> 0"
  proof (cases "u = SQNull")
    case True
    then show ?thesis using assms no_common_bit [of m RT_NULL "type_bit u"] \<open>b\<close> by auto
  next
    case False
    then show ?thesis by (cases u) (auto simp: type_bit_def kind_bit_def split: ref_kind.splits)
  qed
  then show ?thesis using assms(1) True type_bit_small [of u] by (simp add: narrow_def bit_and_iff bit_not_iff)
qed (use assms in \<open>simp add: narrow_def\<close>)

lemma infer_bit:
  assumes "vars_typed vt consts vars" "ops_typed eo"
  shows "well_masked vt consts e \<Longrightarrow> eval eo vars e w = (Inr v, w') \<Longrightarrow> bit (inferExprTypeMask vt consts e) (type_bit v)"
proof (induction e arbitrary: w v w')
  case (IdExpr x)
  then have v: "v = vars x" by simp
  show ?case
  proof (cases "vt x")
    case (Some t)
    then show ?thesis using assms(1) check_bit by (auto simp: v vars_typed_def)
  next
    case None
    then show ?thesis
      using assms(1) type_bit_small [of v] unfolding v
      by (cases "consts x"; cases "vars x") (auto simp: vars_typed_def const_mask_def type_bit_def kind_bit_def split: ref_kind.split)
  qed
next
  case (LiteralExpr l)
  then show ?case using ops_typedD(5) [OF assms(2)] by (cases l) (auto simp: convertLiteral_def literal_mask_def)
next
  case (UnExpr p e)
  obtain a u where a: "eval eo vars e w = (Inr a, u)" "un_value eo p a u = (Inr v, w')" using UnExpr.prems(2) by (auto simp: with_value_Inr)
  show ?case
    using un_value_sound [OF assms(2) infer_mask_ok [OF assms(1)] UnExpr.IH [OF _ a(1)] a(2)] UnExpr.prems(1) by simp
next
  case (BinExpr p l r)
  obtain a u where a: "eval eo vars l w = (Inr a, u)"
    and k: "(if stops_at p a then (Inr a, u) else if logical_op p then eval eo vars r u
        else with_value (eval eo vars r u) (\<lambda>b w. bin_value eo p a b w)) = (Inr v, w')"
    using BinExpr.prems(2) by (auto simp: with_value_Inr)
  have l: "bit (inferExprTypeMask vt consts l) (type_bit a)" using BinExpr.IH(1) [OF _ a] BinExpr.prems(1) by simp
  consider "stops_at p a" "v = a" | "logical_op p" "eval eo vars r u = (Inr v, w')"
    | b u' where "\<not> logical_op p" "eval eo vars r u = (Inr b, u')" "bin_value eo p a b u' = (Inr v, w')"
    using k by (auto simp: with_value_Inr split: if_splits)
  then show ?case
  proof cases
    case 1
    then show ?thesis using stop_value_sound [OF _ l] by simp
  next
    case 2
    then show ?thesis using last_value_sound [OF 2(1)] BinExpr.IH(2) [OF _ 2(2)] BinExpr.prems(1) by simp
  next
    case 3
    have "bit (inferExprTypeMask vt consts r) (type_bit b)" using BinExpr.IH(2) [OF _ 3(2)] BinExpr.prems(1) by simp
    then show ?thesis using bin_value_sound [OF assms(2) l _ 3(3) _ 3(1)] BinExpr.prems(1) 3(1) by simp
  qed
next
  case (TerExpr a b c)
  let ?m = "inferExprTypeMask vt consts"
  obtain t u where t: "eval eo vars a w = (Inr t, u)" and k: "(if IsFalse t then eval eo vars c u else eval eo vars b u) = (Inr v, w')"
    using TerExpr.prems(2) by (auto simp: with_value_Inr)
  have "bit (narrow (null_test TO_NE (deparen a)) (?m b)) (type_bit v) \<or> bit (narrow (null_test TO_EQ (deparen a)) (?m c)) (type_bit v)"
  proof (cases "IsFalse t")
    case True
    have "bit (?m c) (type_bit v)" using TerExpr.IH(3) [of u v w'] TerExpr.prems(1) k True by simp
    then show ?thesis using narrow_sound [of "?m c" v] TerExpr.prems(1) tested_null(2) [OF _ t, of TO_EQ c u v w'] k True by auto
  next
    case False
    have "bit (?m b) (type_bit v)" using TerExpr.IH(2) [of u v w'] TerExpr.prems(1) k False by simp
    then show ?thesis using narrow_sound [of "?m b" v] TerExpr.prems(1) tested_null(1) [OF _ t, of TO_NE b u v w'] k False by auto
  qed
  then show ?case using type_bit_small [of v] by (auto simp: Let_def bit_or_iff)
qed

text \<open>
  C4: the inferred mask of an operator expression holds of its value, and so does a declared type whose
  check is left out at run time, under these conditions: every variable holds a value of its mask
  and none is assigned during the evaluation (\<open>vars_typed\<close>, \<open>eval\<close>); the operators outside the model
  have the types of \<open>ops_typed\<close>; and (\<open>well_masked\<close>) where the result of arithmetic is inferred as a float
  one operand is known to be a float, no table or user data is negated, the operand of \<open>typeof\<close> is known to be no
  table, instance or user data, and a branch of \<open>?:\<close> that a null test narrows is the identifier it tests
  or cannot be null. Without these conditions it is wrong: C8 and C10.
\<close>

theorem inferred_type_sound:
  assumes "vars_typed vt consts vars" "ops_typed eo" "well_masked vt consts e" "eval eo vars e w = (Inr v, w')"
  shows "check_typemask v (inferExprTypeMask vt consts e) \<and>
    (mask_ok declared \<longrightarrow> checkInferredType (inferExprTypeMask vt consts e) declared = Some True \<longrightarrow> check_typemask v declared)"
proof -
  let ?m = "inferExprTypeMask vt consts e"
  have b: "bit ?m (type_bit v)" by (rule infer_bit [OF assms])
  have "bit declared (type_bit v)" if "checkInferredType ?m declared = Some True"
  proof -
    have "?m AND NOT declared = 0" using that by (auto simp: checkInferredType_def split: if_splits)
    then have "\<not> bit (NOT declared) (type_bit v)" using b by (rule no_common_bit)
    then show ?thesis using type_bit_small [of v] by (simp add: bit_not_iff)
  qed
  then show ?thesis using b check_bit infer_mask_ok [OF assms(1)] by simp
qed

text \<open>\<open>x != null ? x * 2 : 0\<close> for an \<open>x\<close> that is declared \<open>int|null\<close>.\<close>

definition typed_x :: "u32 \<Rightarrow> string \<Rightarrow> var_type option" where
  "typed_x m x = (if x = ''x'' \<or> x = ''y'' then Some \<lparr>vt_flags = VF_PARAM, vt_mask = m, vt_init = None\<rparr> else None)"

definition plain_ops :: "nat expr_ops" where
  "plain_ops = \<lparr>eo_vm = no_world\<lparr>vo_cat := (\<lambda>_ _ w. (Inr (SQString 0), w))\<rparr>, eo_un = (\<lambda>p a w. (Inr (if p = TO_TYPEOF then SQString 0 else a), w)),
     eo_bin = (\<lambda>_ _ _ w. (Inr (SQBool False), w)), eo_str = (\<lambda>_. SQString 0)\<rparr>"

definition null_checked :: expr where
  "null_checked = TerExpr (BinExpr TO_NE (IdExpr ''x'') (LiteralExpr LK_NULL)) (IdExpr ''x'') (LiteralExpr (LK_INT 0))"

theorem inferred_type_sound_witness:
  "inferExprTypeMask (typed_x (RT_INTEGER OR RT_NULL)) Map.empty null_checked = RT_INTEGER \<and>
   check_typemask (SQInteger 5) (inferExprTypeMask (typed_x (RT_INTEGER OR RT_NULL)) Map.empty null_checked)"
proof -
  let ?t = "typed_x (RT_INTEGER OR RT_NULL)" and ?v = "\<lambda>_ :: string. SQInteger 5"
  have m: "inferExprTypeMask ?t Map.empty null_checked = RT_INTEGER" by code_simp
  have "check_typemask (SQInteger 5) (RT_INTEGER OR RT_NULL)" by code_simp
  moreover have "mask_ok (RT_INTEGER OR RT_NULL)" by (auto simp: mask_ok_bits bit_or_iff)
  ultimately have a: "vars_typed ?t Map.empty ?v" by (simp add: vars_typed_def typed_x_def var_mask_def)
  have b: "ops_typed plain_ops" by (auto simp: ops_typed_def plain_ops_def type_bit_def)
  have c: "well_masked ?t Map.empty null_checked" by (simp add: null_checked_def tests_def bin_mask_def RT_BOOL_def RT_FLOAT_def)
  have d: "eval plain_ops ?v null_checked 0 = (Inr (SQInteger 5), 0)" by code_simp
  show ?thesis using m inferred_type_sound [OF a b c d] by simp
qed

text \<open>
  C10: when the left operand of \<open>+\<close>, \<open>-\<close> or \<open>*\<close> may be an integer or a float and the right one is an integer
  or may be either, the result is inferred as a float alone. Whenever both are integers it is an
  integer: it passes a declared float, which is not checked at run time, and a declared int is rejected at compile time.
\<close>

theorem inferred_number_wrong:
  assumes "inferExprTypeMask vt consts l = NUMBER_MASK" "inferExprTypeMask vt consts r \<in> {RT_INTEGER, NUMBER_MASK}"
    and "p \<in> {TO_ADD, TO_SUB, TO_MUL}"
    and "eval eo vars l w = (Inr (SQInteger i), w1)" "eval eo vars r w1 = (Inr (SQInteger j), w2)"
  shows "checkInferredType (inferExprTypeMask vt consts (BinExpr p l r)) RT_FLOAT = Some True \<and>
    checkInferredType (inferExprTypeMask vt consts (BinExpr p l r)) RT_INTEGER = None \<and>
    (\<exists>k. eval eo vars (BinExpr p l r) w = (Inr (SQInteger k), w2) \<and> \<not> check_typemask (SQInteger k) RT_FLOAT)"
proof -
  have "inferExprTypeMask vt consts (BinExpr p l r) = RT_FLOAT"
    using assms(1-3) by (auto simp: bin_mask_def arith_mask_def add_mask_def NUMBER_MASK_def RT_INTEGER_def RT_FLOAT_def
        RT_INSTANCE_def RT_STRING_def UNKNOWN_TYPE_def)
  moreover have "\<exists>k. eval eo vars (BinExpr p l r) w = (Inr (SQInteger k), w2)"
  proof -
    have "ARITH_OP mm c (SQInteger i) (SQInteger j) = int_arith c i j" for mm c
      by (simp add: ARITH_OP_def Let_def)
    then show ?thesis
      using assms(3-5) by (auto simp: stops_at_def logical_op_def bin_value_def int_arith_def finish_val_def Let_def)
  qed
  moreover have "\<not> check_typemask (SQInteger k) RT_FLOAT" for k using check_bit [of RT_FLOAT "SQInteger k"] by simp
  ultimately show ?thesis by (auto simp: checkInferredType_def UNKNOWN_TYPE_def RT_FLOAT_def RT_INTEGER_def)
qed

theorem inferred_number_wrong_witness:
  "\<exists>k. eval plain_ops (\<lambda>_. SQInteger 3) (BinExpr TO_MUL (IdExpr ''x'') (LiteralExpr (LK_INT 2))) 0 = (Inr (SQInteger k), 0) \<and>
     \<not> check_typemask (SQInteger k) RT_FLOAT"
  using inferred_number_wrong [of "typed_x NUMBER_MASK" Map.empty "IdExpr ''x''" "LiteralExpr (LK_INT 2)" TO_MUL plain_ops "\<lambda>_. SQInteger 3" 0 3 0 2 0]
  by (simp add: typed_x_def var_mask_def literal_mask_def convertLiteral_def)

text \<open>
  C8: the null test of \<open>y != null ? x : e\<close> takes null from the mask of \<open>x\<close>, whatever the other variable \<open>y\<close>
  is: for every \<open>x\<close> that may be null, and every \<open>e\<close> that may not, the inferred mask excludes null and
  declared types without null are not checked, while the value is null whenever \<open>x\<close> is and \<open>y\<close> is not.
\<close>

theorem inferred_null_wrong:
  assumes "vt x = Some t" "mask_ok (var_mask t)" "var_mask t \<noteq> UNKNOWN_TYPE"
    and "mask_ok (inferExprTypeMask vt consts e)" "inferExprTypeMask vt consts e AND RT_NULL = 0"
    and "vars x = SQNull" "vars y \<noteq> SQNull"
    and ter: "ter = TerExpr (BinExpr TO_NE (IdExpr y) (LiteralExpr LK_NULL)) (IdExpr x) e"
  shows "eval eo vars ter w = (Inr SQNull, w) \<and> \<not> check_typemask SQNull (inferExprTypeMask vt consts ter) \<and>
    checkInferredType (inferExprTypeMask vt consts ter) (inferExprTypeMask vt consts ter) = Some True"
proof -
  let ?m = "inferExprTypeMask vt consts ter"
  have e: "inferExprTypeMask vt consts e \<noteq> UNKNOWN_TYPE" using assms(5) by (auto simp: UNKNOWN_TYPE_def RT_NULL_def)
  have m: "?m = var_mask t AND NOT RT_NULL OR inferExprTypeMask vt consts e"
    using assms(1,3) e by (simp add: ter narrow_def)
  have ok: "mask_ok ?m" "?m \<noteq> UNKNOWN_TYPE"
  proof -
    have n: "mask_ok (var_mask t AND NOT RT_NULL)" "var_mask t AND NOT RT_NULL \<noteq> UNKNOWN_TYPE"
      using mask_ok_narrow [OF assms(2,3), of True] by (simp_all add: narrow_def)
    show "mask_ok ?m" unfolding m by (rule mask_ok_or [OF n assms(4) e])
    have "\<not> bit ?m 0"
      unfolding m using assms(5) by (metis RT_bits(1) bit_and_iff bit_not_iff bit_or_iff no_common_bit)
    then show "?m \<noteq> UNKNOWN_TYPE" by auto
  qed
  have "\<not> bit ?m 0"
    unfolding m using assms(5) by (metis RT_bits(1) bit_and_iff bit_not_iff bit_or_iff no_common_bit)
  then have "\<not> check_typemask SQNull ?m" using check_bit [OF ok(1), of SQNull] by simp
  moreover have "eval eo vars ter w = (Inr SQNull, w)"
    using assms(6,7) by (simp add: ter stops_at_def logical_op_def bin_value_def Let_def convertLiteral_def IsFalse_def sq_rawval_def)
  moreover have "checkInferredType ?m ?m = Some True" using ok(2) by (simp add: checkInferredType_def)
  ultimately show ?thesis by blast
qed

theorem inferred_null_wrong_witness:
  "let ter = TerExpr (BinExpr TO_NE (IdExpr ''y'') (LiteralExpr LK_NULL)) (IdExpr ''x'') (LiteralExpr (LK_INT 0)) in
   eval plain_ops (\<lambda>z. if z = ''x'' then SQNull else SQInteger 1) ter 0 = (Inr SQNull, 0) \<and>
   \<not> check_typemask SQNull (inferExprTypeMask (typed_x (RT_INTEGER OR RT_NULL)) Map.empty ter)"
proof -
  let ?t = "\<lparr>vt_flags = VF_PARAM, vt_mask = RT_INTEGER OR RT_NULL, vt_init = None\<rparr>"
  have "mask_ok (var_mask ?t)" "var_mask ?t \<noteq> UNKNOWN_TYPE"
    by (auto simp: var_mask_def mask_ok_bits bit_or_iff) (simp add: UNKNOWN_TYPE_def RT_INTEGER_def RT_NULL_def)
  moreover have "inferExprTypeMask (typed_x (RT_INTEGER OR RT_NULL)) Map.empty (LiteralExpr (LK_INT 0)) = RT_INTEGER"
    by (simp add: literal_mask_def)
  moreover have "RT_INTEGER AND RT_NULL = 0" by (simp add: RT_INTEGER_def RT_NULL_def)
  moreover have "typed_x (RT_INTEGER OR RT_NULL) ''x'' = Some ?t" by (simp add: typed_x_def)
  ultimately show ?thesis
    using inferred_null_wrong [of "typed_x (RT_INTEGER OR RT_NULL)" "''x''" ?t Map.empty "LiteralExpr (LK_INT 0)"
        "\<lambda>z. if z = ''x'' then SQNull else SQInteger 1" "''y''" _ plain_ops 0, OF _ _ _ _ _ _ _ refl]
    unfolding Let_def by (simp del: inferExprTypeMask.simps eval.simps)
qed

end
