(* ===== verification/CodeExec.thy ===== *)
theory CodeExec
  imports CodeThms TypeThms
begin

text \<open>
  The code of an expression in the interpreter: what it returns, and where a literal operand makes
  it differ from the source.
\<close>

subsection \<open>From segments to runs\<close>

text \<open>The interpreter runs code that another instruction follows as the segment does.\<close>

lemma segment_run:
  "seg_run ops lits c pc R w = x \<Longrightarrow> closed x \<Longrightarrow>
   \<exists>n. \<forall>m. vm_run (n + Suc m) ops lits (c @ d) (\<lambda>k. jump_dest ((c @ d) ! k) (int k)) (int pc) R w =
     (case x of Falls S v \<Rightarrow> vm_run (Suc m) ops lits (c @ d) (\<lambda>k. jump_dest ((c @ d) ! k) (int k)) (int (length c)) S v
      | Ends y \<Rightarrow> Some y | _ \<Rightarrow> None)"
proof (induction ops lits c pc R w rule: seg_run.induct)
  case (1 ops lits code pc R w)
  let ?s = "vm_step ops lits (code ! pc) (jump_dest (code ! pc) (int pc)) (int pc) R w"
  let ?dst = "\<lambda>k. jump_dest ((code @ d) ! k) (int k)"
  show ?case
  proof (cases "pc < length code")
    case True
    then have at: "(code @ d) ! pc = code ! pc" "pc < length (code @ d)" by (simp_all add: nth_append)
    show ?thesis
    proof (cases ?s)
      case (Goto p S v)
      have gt: "p > int pc" using "1.prems" True by (subst (asm) seg_run.simps) (auto simp: Goto split: if_splits)
      then have "seg_run ops lits code (nat p) S v = x" using "1.prems"(1) True by (subst (asm) seg_run.simps) (simp add: Goto)
      from "1.IH" [OF True Goto gt this "1.prems"(2)] obtain n where
        n: "\<And>m. vm_run (n + Suc m) ops lits (code @ d) ?dst (int (nat p)) S v =
          (case x of Falls S v \<Rightarrow> vm_run (Suc m) ops lits (code @ d) ?dst (int (length code)) S v | Ends y \<Rightarrow> Some y | _ \<Rightarrow> None)" by blast
      have "vm_run (Suc n + Suc m) ops lits (code @ d) ?dst (int pc) R w = vm_run (n + Suc m) ops lits (code @ d) ?dst (int (nat p)) S v" for m
        using at gt by (simp add: Goto)
      then show ?thesis using n by (intro exI [of _ "Suc n"]) simp
    next
      case (Stop y)
      then have "x = Ends y" using "1.prems"(1) True by (subst (asm) seg_run.simps) simp
      then show ?thesis using at Stop by (intro exI [of _ 0]) simp
    next
      case Unmodelled
      then have "x = Unknown" using "1.prems"(1) True by (subst (asm) seg_run.simps) simp
      then show ?thesis using "1.prems"(2) by simp
    qed
  next
    case False
    then have "pc = length code" "x = Falls R w" using "1.prems" by (subst (asm) seg_run.simps; auto split: if_splits)+
    then show ?thesis by (intro exI [of _ 0]) simp
  qed
qed

definition return_instr :: "nat \<Rightarrow> sq_instr" where
  "return_instr t = new_instr OPC_RETURN 1 (int t) 0 0"

definition answer :: "(vm_error + sq_obj) \<times> 'w \<Rightarrow> 'w vm_outcome" where
  "answer r = (case r of (Inl x, w) \<Rightarrow> Raised x w | (Inr v, w) \<Rightarrow> Returned v w)"

lemma return_run:
  assumes "seg_run ops lits c 0 R w = x" "same_but T (does t F R w) x" "t < 256" "\<not> T t"
  shows "\<exists>n. vm_execute n ops lits (c @ [return_instr t]) R w = Some (answer (F R w))"
proof -
  let ?c = "c @ [return_instr t]"
  have cl: "closed x" using closed_same [OF _ assms(2)] by (simp add: does_def split: prod.split sum.split)
  obtain n where n: "\<And>m. vm_run (n + Suc m) ops lits ?c (\<lambda>k. jump_dest (?c ! k) (int k)) (int 0) R w =
     (case x of Falls S v \<Rightarrow> vm_run (Suc m) ops lits ?c (\<lambda>k. jump_dest (?c ! k) (int k)) (int (length c)) S v
      | Ends y \<Rightarrow> Some y | _ \<Rightarrow> None)" using segment_run [OF assms(1) cl] by blast
  obtain e u where f: "F R w = (e, u)" by fastforce
  have "vm_run (n + Suc 0) ops lits ?c (\<lambda>k. jump_dest (?c ! k) (int k)) (int 0) R w = Some (answer (F R w))"
  proof (cases e)
    case (Inl y)
    then have "x = Ends (Raised y u)" using assms(2) f by (cases x) (simp_all add: does_def)
    then show ?thesis using n [of 0] f Inl by (simp add: answer_def)
  next
    case (Inr v)
    then obtain S where x: "x = Falls S u" "S t = v" using assms(2,4) f by (cases x) (auto simp: does_def)
    have r: "i_op (return_instr t) = OPC_RETURN" "i_arg0 (return_instr t) = 1" "reg1 (return_instr t) = t"
      using assms(3) by (simp_all add: return_instr_def new_instr_def reg1_def unat_of_nat)
    then show ?thesis using n [of 0] f Inr x by (simp add: answer_def vm_step_def Return_def)
  qed
  then show ?thesis unfolding vm_execute_def by (intro exI [of _ "n + Suc 0"]) (simp only: of_nat_0 int_ops(1))
qed

subsection \<open>The code of an expression\<close>

text \<open>The expressions in which no literal operand is moved or negated: those of \<open>x + 1\<close> are as they stand.\<close>

fun immediate_free :: "expr \<Rightarrow> bool" where
  "immediate_free (UnExpr p e) \<longleftrightarrow> immediate_free e"
| "immediate_free (BinExpr p l r) \<longleftrightarrow>
     (immediate p l r = None \<or> p = TO_ADD \<and> literal_in_int_range l = None) \<and> immediate_free l \<and> immediate_free r"
| "immediate_free (TerExpr a b c) \<longleftrightarrow> immediate_free a \<and> immediate_free b \<and> immediate_free c"
| "immediate_free e \<longleftrightarrow> True"

lemma literal_range_SomeD: "literal_in_int_range e = Some i \<Longrightarrow> e = LiteralExpr (LK_INT (word_of_int i))"
  by (cases e rule: literal_in_int_range.cases) (auto split: if_splits)

lemma as_compiled_same: "immediate_free e \<Longrightarrow> as_compiled folded e = e"
proof (induction e)
  case (BinExpr p l r)
  show ?case
  proof (cases "immediate p l r")
    case None
    then show ?thesis using BinExpr by simp
  next
    case (Some z)
    then have "p = TO_ADD" "literal_in_int_range l = None" using BinExpr.prems by auto
    then obtain i where "z = (i, False)" "literal_in_int_range r = Some i" using Some by (auto simp: immediate_def split: option.splits)
    then show ?thesis using BinExpr Some \<open>p = TO_ADD\<close> literal_range_SomeD by (simp add: logical_op_def)
  qed
qed auto

text \<open>
  The code of an expression in a frame without pending code: \<open>visit_code\<close> for a whole function, as
  runs of the interpreter.
\<close>

lemma expression_run:
  assumes "plain_env env C" and "convertLiteral (eo_str (ce_ops env)) ` literals e \<subseteq> C"
    and "plain_expr (ce_name env) (fs_vlocals fs) (ce_consts env) e" and "jumps_ok False e"
    and "cg_fns s = [fs]" and "fs_outervalues fs = []" and "length (fs_vlocals fs) \<le> 255" and "fs_code fs = []"
    and "visitExpr env e s = Inr ((), s')"
  shows "\<exists>fs' t. cg_fns s' = [fs'] \<and> fs_targetstack fs' = t # fs_targetstack fs \<and>
    (\<forall>lits R w. complete lits fs' \<longrightarrow>
      (\<exists>n. vm_execute n (eo_vm (ce_ops env)) lits (fs_code fs' @ [return_instr t]) R w =
        Some (answer (compiled env (fs_vlocals fs) e R w)))) \<and>
    (immediate_free e \<longrightarrow>
      compiled env (fs_vlocals fs) e = (\<lambda>R. eval (ce_ops env) (variable (fs_vlocals fs) (ce_consts env) R) e))"
proof -
  let ?vs = "fs_vlocals fs" and ?ops = "eo_vm (ce_ops env)"
  have fr: "frame ?vs fs" using assms(6,7) by (simp add: frame_def exI [of _ 0])
  have v: "value_code ?ops ?vs (compiled env ?vs e) False (leaves False e) False (visitExpr env e)"
    using visit_code [OF assms(1,3,4,2)] by blast
  obtain fs' t where f: "cg_fns s' = [fs']" "yields ?ops ?vs (compiled env ?vs e) (leaves False e) False fs fs' t"
    by (rule value_codeE [OF v assms(9,5) fr]) (simp add: pending_def assms(8))
  note y = yieldsD [OF f(2)]
  have "\<exists>n. vm_execute n ?ops lits (fs_code fs' @ [return_instr t]) R w = Some (answer (compiled env ?vs e R w))"
    if c: "complete lits fs'" for lits R w
  proof -
    have "joined ?ops lits [] [] fs" by (simp add: joined_def assms(8))
    then obtain c where j: "joined ?ops lits [] c fs'"
      and s: "simul (temps (height fs) t) (andthen (seg_run ?ops lits [] 0) (does t (compiled env ?vs e))) (seg_run ?ops lits c 0)"
      using y(3) [OF c] unfolding runs_def by blast
    have code: "fs_code fs' = c" using j by (simp add: joined_def)
    have "same_but (temps (height fs) t) (does t (compiled env ?vs e) R w) (seg_run ?ops lits c 0 R w)" using s by (simp add: simul_def)
    then show ?thesis unfolding code by (rule return_run [OF refl _ took_frame(3) [OF fr y(2,1)]]) (simp add: temps_def)
  qed
  moreover have "compiled env ?vs e = (\<lambda>R. eval (ce_ops env) (variable ?vs (ce_consts env) R) e)" if "immediate_free e"
    using as_compiled_same [OF that] by (intro ext) (simp add: compiled_def)
  moreover have "fs_targetstack fs' = t # fs_targetstack fs" using y(2) by (simp add: took_def)
  ultimately show ?thesis using f(1) by blast
qed

text \<open>
  C3: the code of an operator expression computes the value of the expression: followed by a return
  of the target that is pushed, the interpreter ends with the value, or with the error, and the world
  that evaluating the operands from left to right gives. The conditions: the function has no parents
  and no code yet; the expression consists of literals, identifiers other than the function's own
  name, \<open>-\<close>, \<open>!\<close>, \<open>~\<close>, parentheses, \<open>const\<close>, the binary operators except \<open>in\<close> and
  \<open>instanceof\<close>, and \<open>?:\<close> (\<open>plain_expr\<close>); it is in no loop or nested function, so that no static memo is
  made, and the operators on its constants depend on nothing but their operands (\<open>plain_env\<close>); no
  condition of a \<open>?:\<close> is a \<open><=>\<close>, or is a local read right behind the comparison of an earlier
  operand (\<open>jumps_ok\<close>; the last theorem of \<open>PeepholeThms\<close> shows what happens there); metamethods and string
  conversions assign no register of the running function (\<open>vm_step\<close>). Literal operands of \<open>+\<close> and
  \<open>-\<close> count as compiled (\<open>as_compiled\<close>, see C9); without those on the left of \<open>+\<close> and the right of \<open>-\<close> that is
  the expression itself.
\<close>

theorem expression_code:
  assumes "plain_env env C" and "convertLiteral (eo_str (ce_ops env)) ` literals e \<subseteq> C"
    and "plain_expr (ce_name env) (fs_vlocals fs) (ce_consts env) e" and "jumps_ok False e"
    and "cg_fns s = [fs]" and "fs_outervalues fs = []" and "length (fs_vlocals fs) \<le> 255" and "fs_code fs = []"
    and "visitExpr env e s = Inr ((), s')"
  shows "\<exists>fs' t. cg_fns s' = [fs'] \<and> fs_targetstack fs' = t # fs_targetstack fs \<and>
    (\<forall>lits R w. complete lits fs' \<longrightarrow>
      (\<exists>n. vm_execute n (eo_vm (ce_ops env)) lits (fs_code fs' @ [return_instr t]) R w =
        Some (answer (compiled env (fs_vlocals fs) e R w)))) \<and>
    (immediate_free e \<longrightarrow>
      compiled env (fs_vlocals fs) e = (\<lambda>R. eval (ce_ops env) (variable (fs_vlocals fs) (ce_consts env) R) e))"
  by (rule expression_run [OF assms])

definition named_local :: "string \<Rightarrow> local_var" where
  "named_local x = temporary\<lparr>lv_name := Some x\<rparr>"

definition sample_state :: "nat cg_state" where
  "sample_state = \<lparr>cg_fns = [(new_func_state False False)\<lparr>fs_vlocals := map named_local [''x'', ''y'', ''c'']\<rparr>], cg_memos = 0, cg_inside_memo = False, cg_world = 0\<rparr>"

definition calc_ops :: "nat expr_ops" where
  "calc_ops = \<lparr>eo_vm = no_world\<lparr>vo_cat := (\<lambda>a b w. (Inr (if a = SQInteger 1 then SQString 1 else SQString 2), w))\<rparr>,
     eo_un = (\<lambda>_ a w. (Inr a, w)), eo_bin = (\<lambda>_ _ _ w. (Inr (SQBool False), w)), eo_str = (\<lambda>_. SQString 0)\<rparr>"

definition sample_env :: "nat cg_env" where
  "sample_env = \<lparr>ce_ops = calc_ops, ce_name = None, ce_consts = Map.empty, ce_complexity = 0\<rparr>"

text \<open>\<open>x < y ? x * y + (2 * 3) : c && x\<close>\<close>

definition sample_expr :: expr where
  "sample_expr = TerExpr (BinExpr TO_LT (IdExpr ''x'') (IdExpr ''y''))
     (BinExpr TO_ADD (BinExpr TO_MUL (IdExpr ''x'') (IdExpr ''y''))
       (UnExpr TO_PAREN (BinExpr TO_MUL (LiteralExpr (LK_INT 2)) (LiteralExpr (LK_INT 3)))))
     (BinExpr TO_ANDAND (IdExpr ''c'') (IdExpr ''x''))"

definition compiled_fn :: "expr \<Rightarrow> func_state" where
  "compiled_fn e = (case visitExpr sample_env e sample_state of Inr (_, s) \<Rightarrow> hd (cg_fns s) | Inl _ \<Rightarrow> new_func_state False False)"

lemma sample_plain: "plain_env sample_env {v. scalar v}"
proof -
  have "pure_ops calc_ops {v. scalar v}" by (rule scalar_ops) (simp_all add: calc_ops_def)
  then show ?thesis by (simp add: plain_env_def sample_env_def) (simp add: calc_ops_def)
qed

lemma sample_fs:
  "cg_fns sample_state = [hd (cg_fns sample_state)]" "fs_outervalues (hd (cg_fns sample_state)) = []"
  "length (fs_vlocals (hd (cg_fns sample_state))) \<le> 255" "fs_code (hd (cg_fns sample_state)) = []"
  by (simp_all add: sample_state_def new_func_state_def)

lemma sample_run:
  assumes "visitExpr sample_env sample_expr sample_state = Inr ((), s')"
  shows "cg_fns s' = [compiled_fn sample_expr]"
proof -
  have "length (case visitExpr sample_env sample_expr sample_state of Inr (_, s) \<Rightarrow> cg_fns s | Inl _ \<Rightarrow> []) = 1" by code_simp
  then have "length (cg_fns s') = 1" using assms by simp
  moreover have "compiled_fn sample_expr = hd (cg_fns s')" using assms by (simp add: compiled_fn_def)
  ultimately show ?thesis by (cases "cg_fns s'") simp_all
qed

theorem expression_code_witness:
  "\<exists>n. vm_execute n (eo_vm calc_ops) [] (fs_code (compiled_fn sample_expr) @ [return_instr 3])
     (\<lambda>r. if r = 0 then SQInteger 3 else if r = 1 then SQInteger 4 else SQNull) 0 = Some (Returned (SQInteger 18) 0)"
proof -
  let ?vs = "map named_local [''x'', ''y'', ''c'']" and ?fs = "hd (cg_fns sample_state)" and ?C = "{v. scalar v}"
  let ?R = "\<lambda>r :: nat. if r = 0 then SQInteger 3 else if r = 1 then SQInteger 4 else SQNull"
  note env = sample_plain
  have lit: "convertLiteral (eo_str (ce_ops sample_env)) ` literals sample_expr \<subseteq> ?C"
    by (simp add: sample_expr_def convertLiteral_def)
  have vs: "fs_vlocals ?fs = ?vs" by (simp add: sample_state_def)
  have pl: "plain_expr (ce_name sample_env) (fs_vlocals ?fs) (ce_consts sample_env) sample_expr" by code_simp
  have ok: "jumps_ok False sample_expr" by code_simp
  note s = sample_fs
  have "\<not> isl (visitExpr sample_env sample_expr sample_state)" by code_simp
  then obtain s' where run: "visitExpr sample_env sample_expr sample_state = Inr ((), s')"
    by (cases "visitExpr sample_env sample_expr sample_state") auto
  obtain fs' t where fs': "cg_fns s' = [fs']" and t: "fs_targetstack fs' = t # fs_targetstack ?fs"
    and ex: "\<And>lits R w. complete lits fs' \<Longrightarrow> \<exists>n. vm_execute n (eo_vm (ce_ops sample_env)) lits (fs_code fs' @ [return_instr t]) R w =
        Some (answer (compiled sample_env (fs_vlocals ?fs) sample_expr R w))"
    and eq: "immediate_free sample_expr \<Longrightarrow> compiled sample_env (fs_vlocals ?fs) sample_expr =
        (\<lambda>R. eval (ce_ops sample_env) (variable (fs_vlocals ?fs) (ce_consts sample_env) R) sample_expr)"
    using expression_code [OF env lit pl ok s run] by blast
  have f: "fs' = compiled_fn sample_expr" using fs' sample_run [OF run] by simp
  have "hd (fs_targetstack (compiled_fn sample_expr)) = 3" by code_simp
  then have t3: "t = 3" using t f by simp
  have "fs_literals (compiled_fn sample_expr) = [] \<and> length (fs_code (compiled_fn sample_expr)) = 9" by code_simp
  then have c: "complete [] fs'" by (simp add: complete_def f)
  have "immediate_free sample_expr" by code_simp
  then have "answer (compiled sample_env (fs_vlocals ?fs) sample_expr ?R 0) =
      answer (eval calc_ops (variable ?vs Map.empty ?R) sample_expr 0)"
    using eq by (simp add: vs sample_env_def)
  also have "\<dots> = Returned (SQInteger 18) 0" by code_simp
  finally have ans: "answer (compiled sample_env (fs_vlocals ?fs) sample_expr ?R 0) = Returned (SQInteger 18) 0" .
  have "ce_ops sample_env = calc_ops" by (simp add: sample_env_def)
  then show ?thesis using ex [OF c, of ?R 0] unfolding ans f t3 by simp
qed

subsection \<open>Where the code is wrong\<close>

text \<open>The value that the code of an expression gives, and that of the source, for values of \<open>x\<close>, \<open>y\<close> and \<open>c\<close>.\<close>

definition by_code :: "expr \<Rightarrow> sq_obj list \<Rightarrow> nat vm_outcome option" where
  "by_code e vs = (case compiled_fn e of fs \<Rightarrow>
     vm_execute 50 (eo_vm calc_ops) [] (fs_code fs @ [return_instr (hd (fs_targetstack fs))])
       (\<lambda>r. if r < length vs then vs ! r else SQNull) 0)"

definition by_source :: "expr \<Rightarrow> sq_obj list \<Rightarrow> nat vm_outcome option" where
  "by_source e vs = Some (answer (eval calc_ops
     (variable (map named_local [''x'', ''y'', ''c'']) Map.empty (\<lambda>r. if r < length vs then vs ! r else SQNull)) e 0))"



text \<open>
  Two more places, on the smallest expressions. \<open>(x < y) == (c ? true : false)\<close> jumps on \<open>x < y\<close> and
  the comparison is not stored: the result is false for 1, 2 and true. The constant
  \<open>!(false && (1 / 0))\<close>, which is true, is not compiled.
\<close>

lemma expression_code_examples:
  "(let e = BinExpr TO_EQ (BinExpr TO_LT (IdExpr ''x'') (IdExpr ''y''))
              (TerExpr (IdExpr ''c'') (LiteralExpr (LK_BOOL True)) (LiteralExpr (LK_BOOL False))) in
     by_code e [SQInteger 1, SQInteger 2, SQBool True] = Some (Returned (SQBool False) 0) \<and>
     by_source e [SQInteger 1, SQInteger 2, SQBool True] = Some (Returned (SQBool True) 0)) \<and>
   (let e = UnExpr TO_NOT (BinExpr TO_ANDAND (LiteralExpr (LK_BOOL False))
              (BinExpr TO_DIV (LiteralExpr (LK_INT 1)) (LiteralExpr (LK_INT 0)))) in
     (case visitExpr sample_env e sample_state of Inl x \<Rightarrow> x = DI_GENERAL_COMPILE_ERROR (ErrMsg ''integer division by zero'') | Inr _ \<Rightarrow> False) \<and>
     by_source e [] = Some (Returned (SQBool True) 0))"
  by code_simp

end
