(* ===== verification/Spec2Isabelle.thy ===== *)
theory Spec2Isabelle
  imports SafeShift CharClass SqTableProps TypeParserProps RexCompile RexSafe SqBlobClass SqSerialBlob LexThms StringTable ArraySortThms OptThms PeepholeThms FuncScope LineInfo CodeExec
begin

text \<open>
  Quirrel is a scripting language: a compiler to bytecode, a virtual machine and a standard library, in
  C++. This development models core parts of it as functions on explicit states and proves what
  they promise. It states where they do not keep a promise, too. Paths are under \<^verbatim>\<open>src/\<close>. The
  build that is modelled has 64-bit integers and pointers, 4-byte floats and little-endian memory
  (\<^verbatim>\<open>include/sqconfig.h\<close>).

  \<^bold>\<open>The program and its parts.\<close> A source text goes through the lexer
  (\<^verbatim>\<open>squirrel/compiler/lexer.cpp\<close>) and the parser to a syntax tree; the code generator
  (\<^verbatim>\<open>codegen.cpp\<close>, constants in \<^verbatim>\<open>constgen.cpp\<close>, types in \<^verbatim>\<open>typeinference.cpp\<close>) visits the
  tree and emits instructions into a function state (\<^verbatim>\<open>sqfuncstate.cpp\<close>), whose
  \<open>AddInstruction\<close> fuses them with the previous one; the optimizer (\<^verbatim>\<open>optimizer.cpp\<close>) rewrites the
  finished function, and its lines are packed into a table. The interpreter (\<^verbatim>\<open>squirrel/sqvm.cpp\<close>)
  runs the instructions on registers, with values in tagged words, tables (\<^verbatim>\<open>sqtable.cpp\<close>) and
  interned strings (\<^verbatim>\<open>sqstate.cpp\<close>). The libraries (\<^verbatim>\<open>squirrel/sqbaselib.cpp\<close>, \<^verbatim>\<open>sqstdlib/\<close>)
  add sorting, regular expressions, blobs and serialization.

  \<^bold>\<open>Theories, in the order of their dependencies.\<close>
  \<^item> \<open>SqPrelude\<close> (machine integers, characters, shared lemmas), \<open>Bytes\<close> (memory images), \<open>CharClass\<close>
    (\<^verbatim>\<open>include/sq_char_class.h\<close>), \<open>SafeShift\<close> (\<^verbatim>\<open>internal/sq_safe_shift.h\<close>; its contracts),
    \<open>SqFloat\<close> (float arithmetic, bit by bit).
  \<^item> \<open>SqObject\<close>: values (\<^verbatim>\<open>squirrel/sqobject.h\<close>). \<open>SqTable\<close>: the hash table, a record of its node array,
    with \<open>table_new_slot\<close>, \<open>table_get\<close>, \<open>table_remove\<close>, \<open>table_rehash\<close>, \<open>table_next\<close>, \<open>table_clone\<close> and \<open>table_clear\<close> as
    the methods of \<open>SQTable\<close>; \<open>SqTableInv\<close> has the invariant of the chains, \<open>SqTableOps\<close> and \<open>SqTableSpec\<close> what each operation
    does to the stored map and the locale \<open>finite_map_impl\<close>, \<open>SqTableProps\<close> its interpretation and the refinement to
    finite maps. \<open>StringTable\<close>: interned strings over a heap of chained objects, with the invariant
    that equal bytes are one object.
  \<^item> \<open>TypeParser\<close>, \<open>TypeParserProps\<close> (\<^verbatim>\<open>sqtypeparser.cpp\<close>): type strings, parsed and printed; round trip and
    well-formed results.
  \<^item> \<open>Rex\<close>, \<open>RexCompile\<close>, \<open>RexTree\<close>, \<open>RexMatch\<close>, \<open>RexSafe\<close> (\<^verbatim>\<open>sqstdlib/sqstdrex.cpp\<close>): the pattern compiler
    answers and builds a finite syntax tree inside the node array; matching and searching stay in range and
    end, after any earlier match.
  \<^item> \<open>SqStream\<close> (the stream interface as the locales \<open>sq_stream\<close> and \<open>sq_seekable\<close>, numeric formats), \<open>SqBlob\<close>,
    \<open>SqBlobProps\<close> (invariant, interpretation of the contract, reachable blobs), \<open>SqBlobClass\<close> (the script
    class, and \<open>foreach\<close> over a blob by \<open>FOREACH_OP\<close> of the interpreter); \<open>SqSerial\<close>, \<open>SqSerialProps\<close>, \<open>SqSerialThms\<close>,
    \<open>SqSerialBlob\<close> (\<^verbatim>\<open>sqstdlib/sqstdserialization.cpp\<close>): the client of the locale, written and read by recursion on values.
  \<^item> \<open>Lexer\<close>, \<open>LexScan\<close>, \<open>LexToken\<close> (the state \<open>lexer\<close> is \<open>SQLexer\<close>; one definition for each scanner and each group of cases),
    \<open>LexMoves\<close>, \<open>LexProps\<close>, \<open>LexLiterals\<close>, \<open>LexThms\<close>: progress, termination, decimal and string literals.
  \<^item> \<open>VmOps\<close>, \<open>VmOpsProps\<close>: arithmetic, comparison, equality, truth; division, order, and the comparisons with
    constants. \<open>VmCode\<close>: instructions and the step function of the interpreter loop. \<open>ArraySort\<close>, \<open>HeapSort\<close>, \<open>ArraySortThms\<close>:
    \<open>array.sort\<close> on the array and the world its comparison function may change; the locale \<open>sort_order\<close> with
    a reference heap sort, interpreted on the order of values.
  \<^item> \<open>Optimizer\<close>, \<open>OptLoops\<close> (\<^verbatim>\<open>optimizer.cpp\<close>); \<open>OptSim\<close> (programs that match up to a segment),
    \<open>OptCut\<close>, \<open>OptFold\<close>, \<open>OptRuns\<close>, \<open>OptJcmp\<close>, \<open>OptPasses\<close>, \<open>OptFix\<close>, \<open>OptPass\<close>, \<open>OptThms\<close>: each rewriting keeps the outcomes of a run.
  \<^item> \<open>FuncState\<close>, \<open>FuncScope\<close> (registers, scopes, captured variables), \<open>Peephole\<close>, \<open>PeepholeThms\<close> (\<open>AddInstruction\<close>), \<open>LineInfo\<close> (the
    line table and \<open>GetLine\<close> of \<^verbatim>\<open>sqobject.cpp\<close>).
  \<^item> \<open>Ast\<close> (operator expressions and \<open>eval\<close>, what they mean), \<open>TypeInfer\<close>, \<open>TypeThms\<close> (inferred types), \<open>CodeExpr\<close> (the visitors of
    \<^verbatim>\<open>codegen.cpp\<close> for operator expressions); \<open>CodeRun\<close>, \<open>CodeValue\<close>, \<open>CodeOps\<close>, \<open>CodeJumps\<close>, \<open>CodeBranch\<close>, \<open>CodeThms\<close>, \<open>CodeExec\<close>: the
    emitted code computes the value of the expression in the interpreter.

  \<^bold>\<open>Results.\<close> Errors are values of sums (\<open>vm_error\<close>, \<open>cg_error\<close>, \<open>sq_res\<close>, \<open>rex_res\<close>). An access out of range, a write behind
  the VM stack, a failed assertion or a loop that does not end is a value of its own (\<open>None\<close>, \<open>Stuck\<close>, \<open>OutOfRange\<close>,
  \<open>NoReturn\<close>), and the safety theorems show where it does not occur.

  \<^bold>\<open>Fuel and bounds.\<close> The pattern compiler has fuel \<open>3 * length pattern + 3\<close>, the matcher one more than the number of nodes, both
  proved enough. Rehashing has a bounded depth, enough in a well-formed table. Lexing a source
  needs at most one call per character. The optimizer has two passes and four rounds of jump folding, as in the
  code. A run of the interpreter has a number of steps, under an existential quantifier. \<open>blob_foreach\<close> needs one turn more than the
  blob has bytes. The reader of serialized values has \<open>room\<close> free slots of the VM stack: a native
  function is entered with 512 (\<open>STACK_GROW_THRESHOLD\<close>), what the writer produces needs 401 (\<open>MAX_DEPTH\<close> is 200),
  and other input may need more, which nothing checks.

  \<^bold>\<open>Assumptions.\<close> Memory allocation succeeds for every size, and sizes of tables and blobs do not wrap around. A metamethod or a
  string conversion that an instruction ends in assigns no register of the running call, though in the program it may
  assign a captured local of it. Conditions of single theorems are in their texts: those on the optimizer (jumps in the code, dead
  loads, no NaN constants, no failed assertion), on expressions (\<open>plain_expr\<close>, \<open>plain_env\<close>, \<open>jumps_ok\<close>), on the
  peephole rules (\<open>operands_ok\<close>), on the inferred types (\<open>vars_typed\<close>, \<open>ops_typed\<close>, \<open>well_masked\<close>) and on line records (in
  order).

  \<^bold>\<open>Where the program is wrong\<close>, as theorems and lemmas: a conditional jump is fused with a comparison of
  another register (\<open>PeepholeThms\<close>); literal operands of \<open>+\<close> and \<open>-\<close> are moved and negated (\<open>CodeExec\<close>); inferred types of
  number unions and null tests (\<open>TypeThms\<close>); assignments to parameters and line records in the optimizer (\<open>OptThms\<close>); lines of popped
  instructions (\<open>LineInfo\<close>); \<open>ObjCmp\<close> and \<open>ObjCmpF\<close> on NaN (\<open>VmOpsProps\<close>); the unchecked stack of the reader, and negative
  zeros (\<open>SqSerialBlob\<close>); \<open>readblob\<close> of a negative size, \<open>writeblob\<close> of a blob to itself, \<open>foreach\<close> over an empty blob
  (\<open>SqBlobClass\<close>); lost and stale captures (\<open>RexSafe\<close>); the answer of \<open>NewSlot\<close> (\<open>SqTableProps\<close>); repeated commas in
  type strings (\<open>TypeParserProps\<close>); columns and docstrings (\<open>LexThms\<close>).

  \<^bold>\<open>Not modelled.\<close> The parser and the static analyzer (they build and inspect trees and do not change code); statements, calls,
  member access, assignments, functions and classes in the code generator, and captured variables and static memos in its
  correctness; in the interpreter the opcodes that work on the heap or call functions (an argument of the step function), traps, generators,
  tail calls and static memos; reference counting and the garbage collector, the host API, the other methods of the base
  library, modules, files, formatting and the command line tool, which are input and output or wrappers.
\<close>

end
